(* ===== verification/Prelude.thy ===== *)
theory Prelude
  imports Main "HOL-Library.Word" "HOL-Library.AList" "HOL-Library.Sublist"
    "HOL-Library.Char_ord" "HOL-Library.List_Lexorder"
begin

text \<open>
  Vocabulary shared by every theory of the development: machine integers and bytes,
  Rust's \<open>Result\<close> as a sum type with its early-return operator, and the part of Rust's
  \<open>str\<close> / \<open>String\<close> / \<open>u64::parse\<close> / UTF-8 library that the program uses.

  A Rust \<open>String\<close> is a sequence of UTF-8 bytes and is modelled as \<open>string\<close> (a HOL
  \<open>char\<close> is one byte), so \<open>len()\<close> is \<open>length\<close> and the byte order of \<open>Ord for str\<close> is the
  lexicographic order of \<open>List_Lexorder\<close>. A \<open>Vec<u8>\<close> is an \<open>8 word list\<close>;
  \<open>as_bytes\<close> and \<open>of_bytes\<close> go between the two.
\<close>

unbundle bit_operations_syntax

section \<open>Bytes\<close>

type_synonym u8 = "8 word"
type_synonym u64 = "64 word"
type_synonym bytes = "u8 list"

named_theorems result_simps \<open>early-return combinators\<close>
named_theorems str_simps \<open>string helpers\<close>
named_theorems path_simps \<open>on-disk paths and their disjointness\<close>
named_theorems frame_simps \<open>what an operation leaves unchanged\<close>

definition byte_of_char :: "char \<Rightarrow> u8" where
  "byte_of_char c = word_of_nat (of_char c)"

definition char_of_byte :: "u8 \<Rightarrow> char" where
  "char_of_byte b = char_of (unat b)"

definition as_bytes :: "string \<Rightarrow> bytes" where
  "as_bytes s = map byte_of_char s"

definition of_bytes :: "bytes \<Rightarrow> string" where
  "of_bytes bs = map char_of_byte bs"

lemma of_char_less_256 [simp]: "(of_char c :: nat) < 256"
  by (metis mod_less_divisor of_char_mod_256 zero_less_numeral)

lemma char_of_byte_of_char [simp]: "char_of_byte (byte_of_char c) = c"
  by (simp add: char_of_byte_def byte_of_char_def unat_of_nat take_bit_eq_mod)

lemma byte_of_char_of_byte [simp]: "byte_of_char (char_of_byte b) = b"
proof -
  have "unat b < 256" using unsigned_less [of b] by simp
  then show ?thesis by (simp add: char_of_byte_def byte_of_char_def)
qed

lemma of_bytes_as_bytes [simp]: "of_bytes (as_bytes s) = s"
  by (simp add: of_bytes_def as_bytes_def comp_def)

lemma as_bytes_of_bytes [simp]: "as_bytes (of_bytes b) = b"
  by (simp add: of_bytes_def as_bytes_def comp_def)

lemma as_bytes_inj [simp]: "as_bytes s = as_bytes t \<longleftrightarrow> s = t"
  by (metis of_bytes_as_bytes)

lemma length_as_bytes [simp]: "length (as_bytes s) = length s"
  by (simp add: as_bytes_def)

lemma length_of_bytes [simp]: "length (of_bytes s) = length s"
  by (simp add: of_bytes_def)

lemma as_bytes_append: "as_bytes (s @ t) = as_bytes s @ as_bytes t"
  by (simp add: as_bytes_def)

section \<open>Results\<close>

text \<open>
  \<open>Inl\<close> is \<open>Err\<close>, \<open>Inr\<close> is \<open>Ok\<close>. \<open>try_then r k\<close> is \<open>let x = r?; k x\<close> where no state is
  involved; \<open>and_then (r, s) k\<close> is the same for an operation that also returns the state it
  leaves behind: an early return keeps the state reached so far.
\<close>

fun try_then :: "'e + 'a \<Rightarrow> ('a \<Rightarrow> 'e + 'b) \<Rightarrow> 'e + 'b" where
  "try_then (Inl e) k = Inl e"
| "try_then (Inr x) k = k x"

fun and_then :: "('e + 'a) \<times> 's \<Rightarrow> ('a \<Rightarrow> 's \<Rightarrow> ('e + 'b) \<times> 's) \<Rightarrow> ('e + 'b) \<times> 's" where
  "and_then (Inl e, s) k = (Inl e, s)"
| "and_then (Inr x, s) k = k x s"

definition map_err :: "('e \<Rightarrow> 'f) \<Rightarrow> 'e + 'a \<Rightarrow> 'f + 'a" where
  "map_err f r = (case r of Inl e \<Rightarrow> Inl (f e) | Inr x \<Rightarrow> Inr x)"

definition ok_or :: "'e \<Rightarrow> 'a option \<Rightarrow> 'e + 'a" where
  "ok_or e v = (case v of None \<Rightarrow> Inl e | Some x \<Rightarrow> Inr x)"

lemma map_err_simps [simp]: "map_err f (Inl e) = Inl (f e)" "map_err f (Inr x) = Inr x"
  by (simp_all add: map_err_def)

lemma map_err_Inr_iff [simp]: "map_err f r = Inr x \<longleftrightarrow> r = Inr x"
  by (cases r) auto

lemma ok_or_simps [simp]: "ok_or e None = Inl e" "ok_or e (Some x) = Inr x"
  by (simp_all add: ok_or_def)

lemma ok_or_Inr_iff [simp]: "ok_or e v = Inr x \<longleftrightarrow> v = Some x"
  by (cases v) auto

lemma try_then_Inr_iff [result_simps]:
  "try_then r k = Inr y \<longleftrightarrow> (\<exists>x. r = Inr x \<and> k x = Inr y)"
  by (cases r) auto

lemma and_then_Inr_iff [result_simps]:
  "and_then rs k = (Inr y, t) \<longleftrightarrow> (\<exists>x s. rs = (Inr x, s) \<and> k x s = (Inr y, t))"
  by (cases rs; cases "fst rs") auto

lemma and_thenE:
  assumes "and_then rs k = (r, t)"
  obtains (err) e where "rs = (Inl e, t)" "r = Inl e" | (ok) x s where "rs = (Inr x, s)" "k x s = (r, t)"
  using assms by (cases rs; cases "fst rs") auto

lemma and_then_split:
  "P (and_then rs k) \<longleftrightarrow>
     (\<forall>e s. rs = (Inl e, s) \<longrightarrow> P (Inl e, s)) \<and> (\<forall>x s. rs = (Inr x, s) \<longrightarrow> P (k x s))"
  by (cases rs; cases "fst rs") auto

lemma try_then_split:
  "P (try_then r k) \<longleftrightarrow> (\<forall>e. r = Inl e \<longrightarrow> P (Inl e)) \<and> (\<forall>x. r = Inr x \<longrightarrow> P (k x))"
  by (cases r) auto

text \<open>\<open>for x in xs { body?; }\<close> and the \<open>collect::<Result<Vec<_>, _>>()\<close> shape.\<close>

fun try_map :: "('a \<Rightarrow> 'e + 'b) \<Rightarrow> 'a list \<Rightarrow> 'e + 'b list" where
  "try_map f [] = Inr []"
| "try_map f (x # xs) = try_then (f x) (\<lambda>y. try_then (try_map f xs) (\<lambda>ys. Inr (y # ys)))"

lemma try_map_Inr_iff:
  "try_map f xs = Inr ys \<longleftrightarrow> list_all2 (\<lambda>x y. f x = Inr y) xs ys"
proof (induction xs arbitrary: ys)
  case Nil
  then show ?case by auto
next
  case (Cons x xs)
  then show ?case by (auto simp: result_simps list_all2_Cons1)
qed

lemma try_map_all_Inr: "(\<And>x. x \<in> set xs \<Longrightarrow> f x = Inr (g x)) \<Longrightarrow> try_map f xs = Inr (map g xs)"
  by (induction xs) auto

end
