(* ===== verification/Utf8.thy ===== *)
theory Utf8
  imports Strings
begin

text \<open>
  UTF-8 as the Rust standard library checks it: \<open>String::from_utf8\<close>, \<open>read_to_string\<close> and
  \<open>String::from_utf8_lossy\<close>. The table of admissible second bytes and the number of bytes an
  invalid sequence consumes are those of \<open>core::str::lossy\<close>.
\<close>

section \<open>One character\<close>

definition byte_at :: "string \<Rightarrow> nat \<Rightarrow> nat" where
  "byte_at s i = (if i < length s then of_char (s ! i) else 0)"

definition is_cont :: "nat \<Rightarrow> bool" where
  "is_cont b \<longleftrightarrow> 128 \<le> b \<and> b \<le> 191"

definition second_ok3 :: "nat \<Rightarrow> nat \<Rightarrow> bool" where
  "second_ok3 a b \<longleftrightarrow>
     (a = 224 \<and> 160 \<le> b \<and> b \<le> 191) \<or> (225 \<le> a \<and> a \<le> 236 \<and> is_cont b) \<or>
     (a = 237 \<and> 128 \<le> b \<and> b \<le> 159) \<or> (238 \<le> a \<and> a \<le> 239 \<and> is_cont b)"

definition second_ok4 :: "nat \<Rightarrow> nat \<Rightarrow> bool" where
  "second_ok4 a b \<longleftrightarrow>
     (a = 240 \<and> 144 \<le> b \<and> b \<le> 191) \<or> (241 \<le> a \<and> a \<le> 243 \<and> is_cont b) \<or>
     (a = 244 \<and> 128 \<le> b \<and> b \<le> 143)"

text \<open>
  The character at the head of a non-empty string: \<open>Inr n\<close> for a valid one of \<open>n\<close> bytes,
  \<open>Inl n\<close> for an invalid run of \<open>n\<close> bytes.
\<close>

definition utf8_head :: "string \<Rightarrow> nat + nat" where
  "utf8_head s =
     (let a = byte_at s 0; b = byte_at s 1; c = byte_at s 2; d = byte_at s 3 in
      if a < 128 then Inr 1
      else if 194 \<le> a \<and> a \<le> 223 then (if is_cont b then Inr 2 else Inl 1)
      else if 224 \<le> a \<and> a \<le> 239 then
        (if \<not> second_ok3 a b then Inl 1 else if is_cont c then Inr 3 else Inl 2)
      else if 240 \<le> a \<and> a \<le> 244 then
        (if \<not> second_ok4 a b then Inl 1 else if \<not> is_cont c then Inl 2
         else if is_cont d then Inr 4 else Inl 3)
      else Inl 1)"

lemma utf8_head_pos: "utf8_head s = Inr n \<Longrightarrow> 0 < n" "utf8_head s = Inl n \<Longrightarrow> 0 < n"
  by (auto simp: utf8_head_def Let_def split: if_splits)

section \<open>Whole strings\<close>

function utf8_valid :: "string \<Rightarrow> bool" where
  "utf8_valid s =
     (if s = [] then True
      else case utf8_head s of Inr n \<Rightarrow> utf8_valid (drop n s) | Inl _ \<Rightarrow> False)"
  by pat_completeness auto
termination
  by (relation "measure length") (auto dest: utf8_head_pos)

definition replacement :: string where
  "replacement = [CHR 0xEF, CHR 0xBF, CHR 0xBD]"

function utf8_lossy :: "string \<Rightarrow> string" where
  "utf8_lossy s =
     (if s = [] then []
      else case utf8_head s of
             Inr n \<Rightarrow> take n s @ utf8_lossy (drop n s)
           | Inl n \<Rightarrow> replacement @ utf8_lossy (drop n s))"
  by pat_completeness auto
termination
  by (relation "measure length") (auto dest: utf8_head_pos)

declare utf8_valid.simps [simp del] utf8_lossy.simps [simp del]

lemma utf8_valid_Nil [simp]: "utf8_valid []"
  by (simp add: utf8_valid.simps)

lemma utf8_lossy_Nil [simp]: "utf8_lossy [] = []"
  by (simp add: utf8_lossy.simps)

text \<open>Valid text is decoded as it is.\<close>

lemma utf8_lossy_valid: "utf8_valid s \<Longrightarrow> utf8_lossy s = s"
proof (induction s rule: utf8_valid.induct)
  case (1 s)
  show ?case
  proof (cases "s = []")
    case False
    with "1.prems" obtain n where n: "utf8_head s = Inr n" "utf8_valid (drop n s)"
      by (subst (asm) utf8_valid.simps) (auto split: sum.splits)
    with 1 False have "utf8_lossy (drop n s) = drop n s" by simp
    with False n show ?thesis by (subst utf8_lossy.simps) simp
  qed simp
qed

section \<open>ASCII\<close>

definition ascii :: "string \<Rightarrow> bool" where
  "ascii s \<longleftrightarrow> (\<forall>c \<in> set s. of_char c < (128::nat))"

lemma ascii_simps [simp]:
  "ascii []" "ascii (c # s) \<longleftrightarrow> of_char c < (128::nat) \<and> ascii s"
  "ascii (s @ t) \<longleftrightarrow> ascii s \<and> ascii t"
  by (auto simp: ascii_def)

lemma utf8_valid_ascii_Cons:
  "of_char c < (128::nat) \<Longrightarrow> utf8_valid (c # s) \<longleftrightarrow> utf8_valid s"
  by (subst utf8_valid.simps) (simp add: utf8_head_def byte_at_def)

lemma utf8_valid_ascii_append: "ascii a \<Longrightarrow> utf8_valid (a @ s) \<longleftrightarrow> utf8_valid s"
  by (induction a) (auto simp: utf8_valid_ascii_Cons)

lemma utf8_valid_ascii: "ascii s \<Longrightarrow> utf8_valid s"
  using utf8_valid_ascii_append [of s "[]"] by simp

lemma utf8_lossy_ascii: "ascii s \<Longrightarrow> utf8_lossy s = s"
  by (simp add: utf8_lossy_valid utf8_valid_ascii)

text \<open>
  One byte with the top bit set inside ASCII text is never valid UTF-8: no continuation byte
  can follow it.
\<close>

lemma utf8_invalid_high_byte:
  assumes "ascii a" and "128 \<le> (of_char c :: nat)" and "ascii b"
  shows "\<not> utf8_valid (a @ c # b)"
proof -
  have cont: "\<not> is_cont (byte_at (c # b) 1)"
    using assms(3) by (cases b) (auto simp: byte_at_def is_cont_def)
  have "byte_at (c # b) 0 \<ge> 128" using assms(2) by (simp add: byte_at_def)
  with cont have "\<exists>n. utf8_head (c # b) = Inl n"
    by (auto simp: utf8_head_def Let_def second_ok3_def second_ok4_def is_cont_def)
  then have "\<not> utf8_valid (c # b)" by (subst utf8_valid.simps) auto
  then show ?thesis using assms(1) by (simp add: utf8_valid_ascii_append)
qed

text \<open>\<open>String::from_utf8\<close> on bytes.\<close>

definition from_utf8 :: "bytes \<Rightarrow> string option" where
  "from_utf8 b = (if utf8_valid (of_bytes b) then Some (of_bytes b) else None)"

definition from_utf8_lossy :: "bytes \<Rightarrow> string" where
  "from_utf8_lossy b = utf8_lossy (of_bytes b)"

lemma from_utf8_as_bytes [simp]: "utf8_valid s \<Longrightarrow> from_utf8 (as_bytes s) = Some s"
  by (simp add: from_utf8_def)

lemma from_utf8_lossy_as_bytes [simp]: "utf8_valid s \<Longrightarrow> from_utf8_lossy (as_bytes s) = s"
  by (simp add: from_utf8_lossy_def utf8_lossy_valid)

text \<open>
  \<open>str::is_char_boundary\<close>: an index a \<open>str\<close> may be sliced at. Slicing anywhere else panics.
\<close>

definition is_char_boundary :: "string \<Rightarrow> nat \<Rightarrow> bool" where
  "is_char_boundary s i \<longleftrightarrow>
     i = 0 \<or> i = length s \<or> (i < length s \<and> \<not> is_cont (of_char (s ! i)))"

end
