(* ===== verification/Fs.thy ===== *)
theory Fs
  imports Utf8
begin

text \<open>
  The file system under the data directory, as \<open>std::fs\<close> shows it to the store: paths are
  lists of components relative to the data directory, and a disk is an association list from
  paths to files and directories. The operations fail for structural reasons only (missing,
  wrong kind, name too long); a device that fails at random is not modelled.

  On top of it: \<open>write_atomic\<close> and \<open>sweep_temp\<close> of \<open>barme-store/src/lib.rs\<close>, and the
  intermediate disks a kill during \<open>write_atomic\<close> can leave behind.
\<close>

section \<open>Paths, nodes, errors\<close>

type_synonym path = "string list"

datatype fs_node = File bytes | Dir

type_synonym fs = "(path \<times> fs_node) list"

datatype io_error =
    NotFound
  | NotADirectory
  | IsADirectory
  | AlreadyExists
  | DirectoryNotEmpty
  | InvalidInput
  | InvalidFilename
  | InvalidData
  | UnexpectedEof
  | OtherIo string

text \<open>\<open>NAME_MAX\<close>, the longest file name the file system takes.\<close>

definition NAME_MAX :: nat where "NAME_MAX = 255"

definition name_error :: "path \<Rightarrow> io_error option" where
  "name_error p =
     (if \<exists>c \<in> set p. CHR 0x00 \<in> set c then Some InvalidInput
      else if \<exists>c \<in> set p. NAME_MAX < length c then Some InvalidFilename
      else None)"

definition fs_lookup :: "fs \<Rightarrow> path \<Rightarrow> fs_node option" where
  "fs_lookup d p = (if p = [] then Some Dir else map_of d p)"

definition is_file_at :: "fs \<Rightarrow> path \<Rightarrow> bool" where
  "is_file_at d p \<longleftrightarrow> (case fs_lookup d p of Some (File b) \<Rightarrow> True | _ \<Rightarrow> False)"

definition file_above :: "fs \<Rightarrow> path \<Rightarrow> bool" where
  "file_above d p \<longleftrightarrow> (\<exists>n \<in> set [0..<length p]. is_file_at d (take n p))"

text \<open>
  Looking a path up. A path that ends in an empty component is \<open>Path::join\<close> with an empty
  name, that is, a trailing slash: it can only name a directory.
\<close>

definition resolve :: "fs \<Rightarrow> path \<Rightarrow> io_error + fs_node" where
  "resolve d p =
     (case name_error p of
        Some e \<Rightarrow> Inl e
      | None \<Rightarrow>
          let q = (if p \<noteq> [] \<and> last p = [] then butlast p else p) in
          (case fs_lookup d q of
             Some n \<Rightarrow> if q \<noteq> p \<and> n \<noteq> Dir then Inl NotADirectory else Inr n
           | None \<Rightarrow> if file_above d q then Inl NotADirectory else Inl NotFound))"

section \<open>Operations of \<open>std::fs\<close>\<close>

definition fs_read :: "fs \<Rightarrow> path \<Rightarrow> io_error + bytes" where
  "fs_read d p =
     (case resolve d p of
        Inl e \<Rightarrow> Inl e
      | Inr Dir \<Rightarrow> Inl IsADirectory
      | Inr (File b) \<Rightarrow> Inr b)"

definition fs_read_to_string :: "fs \<Rightarrow> path \<Rightarrow> io_error + string" where
  "fs_read_to_string d p =
     try_then (fs_read d p) (\<lambda>b. case from_utf8 b of None \<Rightarrow> Inl InvalidData | Some s \<Rightarrow> Inr s)"

definition fs_exists :: "fs \<Rightarrow> path \<Rightarrow> bool" where
  "fs_exists d p = (case resolve d p of Inl e \<Rightarrow> False | Inr n \<Rightarrow> True)"

text \<open>Directory entries as (name, is a directory) pairs, in no particular order.\<close>

definition entries_of :: "fs \<Rightarrow> path \<Rightarrow> (string \<times> bool) list" where
  "entries_of d p = map (\<lambda>(q, n). (last q, n = Dir)) (filter (\<lambda>(q, n). q \<noteq> [] \<and> butlast q = p) d)"

definition fs_read_dir :: "fs \<Rightarrow> path \<Rightarrow> io_error + (string \<times> bool) list" where
  "fs_read_dir d p =
     (case resolve d p of
        Inl e \<Rightarrow> Inl e
      | Inr Dir \<Rightarrow> Inr (entries_of d (if p \<noteq> [] \<and> last p = [] then butlast p else p))
      | Inr (File b) \<Rightarrow> Inl NotADirectory)"

fun add_dirs :: "path list \<Rightarrow> fs \<Rightarrow> fs" where
  "add_dirs [] d = d"
| "add_dirs (p # ps) d =
     add_dirs ps (if fs_lookup d p = None then AList.update p Dir d else d)"

definition parents :: "path \<Rightarrow> path list" where
  "parents p = map (\<lambda>n. take n p) [0..<length p]"

definition create_dir_all :: "fs \<Rightarrow> path \<Rightarrow> io_error + fs" where
  "create_dir_all d p =
     (case name_error p of
        Some e \<Rightarrow> Inl e
      | None \<Rightarrow>
          if file_above d p then Inl NotADirectory
          else if is_file_at d p then Inl AlreadyExists
          else Inr (add_dirs (parents p @ [p]) d))"

definition remove_file :: "fs \<Rightarrow> path \<Rightarrow> io_error + fs" where
  "remove_file d p =
     (case resolve d p of
        Inl e \<Rightarrow> Inl e
      | Inr Dir \<Rightarrow> Inl IsADirectory
      | Inr (File b) \<Rightarrow> Inr (AList.delete p d))"

definition remove_dir_all :: "fs \<Rightarrow> path \<Rightarrow> io_error + fs" where
  "remove_dir_all d p =
     (case resolve d p of
        Inl e \<Rightarrow> Inl e
      | Inr Dir \<Rightarrow> Inr (filter (\<lambda>(q, n). \<not> prefix p q) d)
      | Inr (File b) \<Rightarrow> Inl NotADirectory)"

text \<open>
  \<open>rename\<close>: a directory moves with everything below it and may replace an empty directory
  only; a file may replace a file.
\<close>

definition move_path :: "path \<Rightarrow> path \<Rightarrow> path \<Rightarrow> path" where
  "move_path p q r = (if prefix p r then q @ drop (length p) r else r)"

definition rename :: "fs \<Rightarrow> path \<Rightarrow> path \<Rightarrow> io_error + fs" where
  "rename d p q =
     (case resolve d p of
        Inl e \<Rightarrow> Inl e
      | Inr np \<Rightarrow>
          (case name_error q of
             Some e \<Rightarrow> Inl e
           | None \<Rightarrow>
               if q = p then Inr d
               else if prefix p q then Inl InvalidInput
               else if \<not> (fs_lookup d (butlast q) = Some Dir) then
                 Inl (if file_above d q then NotADirectory else NotFound)
               else case (np, fs_lookup d q) of
                      (File b, Some Dir) \<Rightarrow> Inl IsADirectory
                    | (Dir, Some (File b)) \<Rightarrow> Inl NotADirectory
                    | (Dir, Some Dir) \<Rightarrow>
                        if entries_of d q \<noteq> [] then Inl DirectoryNotEmpty
                        else Inr (map (\<lambda>(r, n). (move_path p q r, n)) (AList.delete q d))
                    | _ \<Rightarrow> Inr (map (\<lambda>(r, n). (move_path p q r, n)) (AList.delete q d))))"


section \<open>Durable writes: \<open>write_atomic\<close>\<close>

text \<open>Prefix of the temporary files of \<open>write_atomic\<close>.\<close>

definition TMP_PREFIX :: string where "TMP_PREFIX = ''.barme-tmp-''"

text \<open>
  \<open>Path::parent\<close>, which ignores a trailing slash. Renaming the finished temporary file over
  \<open>p\<close> fails when \<open>p\<close> cannot be a file.
\<close>

definition path_parent :: "path \<Rightarrow> path" where
  "path_parent p = butlast (if p \<noteq> [] \<and> last p = [] then butlast p else p)"

definition persist_error :: "fs \<Rightarrow> path \<Rightarrow> io_error option" where
  "persist_error d p =
     (case name_error p of
        Some e \<Rightarrow> Some e
      | None \<Rightarrow>
          if p \<noteq> [] \<and> last p = [] then Some NotADirectory
          else if fs_lookup d p = Some Dir then Some IsADirectory else None)"

definition write_atomic :: "path \<Rightarrow> bytes \<Rightarrow> fs \<Rightarrow> (io_error + unit) \<times> fs" where
  "write_atomic p b d =
     (case create_dir_all d (path_parent p) of
        Inl e \<Rightarrow> (Inl e, d)
      | Inr d1 \<Rightarrow>
          (case persist_error d1 p of
             Some e \<Rightarrow> (Inl e, d1)
           | None \<Rightarrow> (Inr (), AList.update p (File b) d1)))"

text \<open>
  The disks a process killed inside \<open>write_atomic\<close> can leave: some of the parent directories
  made, then a temporary file (its name chosen by the \<open>tempfile\<close> crate, here \<open>TMP_PREFIX\<close>
  and a suffix) holding a prefix of the bytes, then the file renamed into place.
\<close>

definition tmp_path :: "path \<Rightarrow> string \<Rightarrow> path" where
  "tmp_path p sfx = butlast p @ [TMP_PREFIX @ sfx]"

definition write_atomic_states :: "string \<Rightarrow> path \<Rightarrow> bytes \<Rightarrow> fs \<Rightarrow> fs list" where
  "write_atomic_states sfx p b d =
     (let dirs = (\<lambda>k. add_dirs (take k (parents p)) d);
          d1 = dirs (length p)
      in map dirs [0..<Suc (length p)]
         @ map (\<lambda>k. AList.update (tmp_path p sfx) (File (take k b)) d1) [0..<Suc (length b)]
         @ [AList.update p (File b) d1])"

section \<open>What the operations do to look-ups\<close>

lemma fs_lookup_update [simp]:
  "p \<noteq> [] \<Longrightarrow> fs_lookup (AList.update p n d) q = (if q = p then Some n else fs_lookup d q)"
  by (simp add: fs_lookup_def update_conv')

lemma fs_lookup_delete [simp]:
  "p \<noteq> [] \<Longrightarrow> fs_lookup (AList.delete p d) q = (if q = p then None else fs_lookup d q)"
  by (simp add: fs_lookup_def delete_conv')

lemma fs_lookup_Nil [simp]: "fs_lookup d [] = Some Dir"
  by (simp add: fs_lookup_def)

lemma fs_lookup_add_dirs:
  "fs_lookup (add_dirs ps d) q =
     (if fs_lookup d q = None \<and> q \<in> set ps then Some Dir else fs_lookup d q)"
proof (induction ps arbitrary: d)
  case (Cons p ps)
  then show ?case by (cases "p = []") auto
qed simp

lemma is_file_at_Nil [simp]: "\<not> is_file_at d []"
  by (simp add: is_file_at_def)

lemma is_file_at_add_dirs [simp]: "is_file_at (add_dirs ps d) q = is_file_at d q"
  by (auto simp: is_file_at_def fs_lookup_add_dirs split: option.splits)

lemma file_above_add_dirs [simp]: "file_above (add_dirs ps d) q = file_above d q"
  by (simp add: file_above_def)

lemma is_file_at_update:
  "p \<noteq> [] \<Longrightarrow> is_file_at (AList.update p (File b) d) q \<longleftrightarrow> q = p \<or> is_file_at d q"
  by (auto simp: is_file_at_def)

lemma is_file_at_delete:
  "p \<noteq> [] \<Longrightarrow> is_file_at (AList.delete p d) q \<longleftrightarrow> q \<noteq> p \<and> is_file_at d q"
  by (auto simp: is_file_at_def)

lemma file_above_iff: "file_above d q \<longleftrightarrow> (\<exists>r. strict_prefix r q \<and> is_file_at d r)"
proof
  assume "file_above d q"
  then obtain n where "n < length q" "is_file_at d (take n q)" by (auto simp: file_above_def)
  moreover from this have "strict_prefix (take n q) q"
    by (metis take_is_prefix strict_prefix_def length_take min.absorb2 less_imp_le_nat nat_less_le)
  ultimately show "\<exists>r. strict_prefix r q \<and> is_file_at d r" by blast
next
  assume "\<exists>r. strict_prefix r q \<and> is_file_at d r"
  then obtain r where r: "strict_prefix r q" "is_file_at d r" by blast
  then have "r = take (length r) q" "length r < length q"
    by (metis append_eq_conv_conj prefixE prefix_order.less_imp_le) (use r prefix_length_less in blast)
  with r(2) show "file_above d q" unfolding file_above_def by force
qed

lemma file_above_update:
  "p \<noteq> [] \<Longrightarrow>
     file_above (AList.update p (File b) d) q \<longleftrightarrow> strict_prefix p q \<or> file_above d q"
  by (auto simp: file_above_iff is_file_at_update)

text \<open>
  A path is \<open>plain\<close> when it does not end in an empty component. The frame lemmas below are
  about plain paths that do not lie on one branch with the path written.
\<close>

definition plain :: "path \<Rightarrow> bool" where
  "plain q \<longleftrightarrow> q \<noteq> [] \<and> last q \<noteq> []"

definition apart :: "path \<Rightarrow> path \<Rightarrow> bool" where
  "apart p q \<longleftrightarrow> \<not> prefix p q \<and> \<not> prefix q p"

lemma plain_snoc [simp]: "plain (q @ [x]) \<longleftrightarrow> x \<noteq> []"
  by (simp add: plain_def)

lemma plain_Cons [simp]: "plain (a # q) \<longleftrightarrow> (if q = [] then a \<noteq> [] else plain q)"
  by (auto simp: plain_def)

lemma apart_Cons [simp]: "apart (a # p) (b # q) \<longleftrightarrow> a \<noteq> b \<or> apart p q"
  by (auto simp: apart_def)

lemma apart_Nil [simp]: "\<not> apart [] q" "\<not> apart p []"
  by (auto simp: apart_def)

lemma apart_sym: "apart p q \<Longrightarrow> apart q p"
  by (auto simp: apart_def)

lemma resolve_plain:
  "plain q \<Longrightarrow> resolve d q =
     (case name_error q of
        Some e \<Rightarrow> Inl e
      | None \<Rightarrow>
          (case fs_lookup d q of
             Some n \<Rightarrow> Inr n
           | None \<Rightarrow> if file_above d q then Inl NotADirectory else Inl NotFound))"
  by (auto simp: resolve_def plain_def Let_def split: option.splits)

lemma set_parents: "set (parents p) = {r. strict_prefix r p}"
proof -
  have "r = take (length r) p \<and> length r < length p" if "strict_prefix r p" for r
    using that by (metis append_eq_conv_conj prefixE prefix_order.less_imp_le prefix_length_less)
  moreover have "strict_prefix (take n p) p" if "n < length p" for n
    using that
    by (metis take_is_prefix strict_prefix_def length_take min.absorb2 less_imp_le_nat nat_less_le)
  ultimately show ?thesis by (force simp: parents_def)
qed

lemma parents_butlast: "p \<noteq> [] \<Longrightarrow> parents (butlast p) @ [butlast p] = parents p"
  by (cases p rule: rev_cases) (auto simp: parents_def)

lemma write_atomic_Inr:
  assumes "write_atomic p b d = (Inr u, d')"
  shows "p \<noteq> []" "plain p" "name_error p = None" "\<not> file_above d p" "fs_lookup d p \<noteq> Some Dir"
    "d' = AList.update p (File b) (add_dirs (parents p) d)"
proof -
  from assms obtain d1 where d1p: "create_dir_all d (path_parent p) = Inr d1"
    and pe: "persist_error d1 p = None" and d': "d' = AList.update p (File b) d1"
    by (auto simp: write_atomic_def split: sum.splits option.splits)
  from pe show p: "p \<noteq> []" "plain p" "name_error p = None"
    by (auto simp: persist_error_def plain_def split: option.splits if_splits)
  from d1p p(2) have d1: "create_dir_all d (butlast p) = Inr d1"
    by (simp add: path_parent_def plain_def)
  from d1 have nf: "\<not> file_above d (butlast p)" "\<not> is_file_at d (butlast p)"
    and d1_eq: "d1 = add_dirs (parents p) d"
    using p(1) by (auto simp: create_dir_all_def parents_butlast split: option.splits if_splits)
  have "strict_prefix r (butlast p) \<or> r = butlast p" if "strict_prefix r p" for r
    using that p(1) by (metis append_butlast_last_id prefix_snoc prefix_order.less_le)
  with nf show "\<not> file_above d p" by (auto simp: file_above_iff)
  from pe d1_eq show "fs_lookup d p \<noteq> Some Dir"
    by (auto simp: persist_error_def fs_lookup_add_dirs split: option.splits if_splits)
  from d' d1_eq show "d' = AList.update p (File b) (add_dirs (parents p) d)" by simp
qed

text \<open>A write that succeeds is read back, and nothing off its branch changes.\<close>

lemma write_atomic_read:
  assumes "write_atomic p b d = (Inr u, d')"
  shows "fs_read d' p = Inr b"
  using write_atomic_Inr [OF assms] by (simp add: fs_read_def resolve_plain)

lemma write_atomic_resolve:
  assumes w: "write_atomic p b d = (Inr u, d')" and q: "plain q" "apart p q"
  shows "resolve d' q = resolve d q"
proof -
  note w = write_atomic_Inr [OF w]
  have "q \<noteq> p" "\<not> strict_prefix p q" "\<not> strict_prefix q p"
    using q(2) by (auto simp: apart_def strict_prefix_def)
  then have "fs_lookup d' q = fs_lookup d q" "file_above d' q = file_above d q"
    using w by (auto simp: fs_lookup_add_dirs set_parents file_above_update)
  then show ?thesis using q(1) by (simp add: resolve_plain split: option.split)
qed

lemma write_atomic_frame [frame_simps]:
  assumes "write_atomic p b d = (Inr u, d')" and "plain q" "apart p q"
  shows "fs_read d' q = fs_read d q" "fs_exists d' q = fs_exists d q"
    "fs_read_to_string d' q = fs_read_to_string d q"
  using write_atomic_resolve [OF assms]
  by (simp_all add: fs_read_def fs_exists_def fs_read_to_string_def)


text \<open>When the write goes through.\<close>

lemma strict_prefix_butlast:
  "p \<noteq> [] \<Longrightarrow> strict_prefix r p \<longleftrightarrow> prefix r (butlast p)"
  by (cases p rule: rev_cases) (auto simp: strict_prefix_def dest: prefix_length_le)

lemma write_atomic_succeeds:
  assumes "plain p" "name_error p = None" "\<not> file_above d p" "fs_lookup d p \<noteq> Some Dir"
  shows "write_atomic p b d = (Inr (), AList.update p (File b) (add_dirs (parents p) d))"
proof -
  have p: "p \<noteq> []" using assms(1) by (simp add: plain_def)
  have ne: "name_error (butlast p) = None"
    using assms(2) in_set_butlastD [of _ p] by (auto simp: name_error_def split: if_splits)
  have above: "\<not> file_above d (butlast p)" "\<not> is_file_at d (butlast p)"
    using assms(3) p unfolding file_above_iff strict_prefix_butlast [OF p]
    by (auto simp: strict_prefix_def)
  have "p \<notin> set (parents p)" by (simp add: set_parents)
  then have "persist_error (add_dirs (parents p) d) p = None"
    using assms p by (auto simp: persist_error_def plain_def fs_lookup_add_dirs)
  with ne above p assms(1) show ?thesis
    by (simp add: write_atomic_def create_dir_all_def parents_butlast path_parent_def plain_def)
qed

section \<open>Well-formed disks and directory listings\<close>

text \<open>Every entry has a name, a directory above it, and appears once.\<close>

definition fs_ok :: "fs \<Rightarrow> bool" where
  "fs_ok d \<longleftrightarrow>
     distinct (map fst d) \<and>
     (\<forall>(p, n) \<in> set d. plain p \<and> fs_lookup d (butlast p) = Some Dir)"

lemma fs_ok_Nil [simp]: "fs_ok []"
  by (simp add: fs_ok_def)

lemma fs_ok_lookup:
  "fs_ok d \<Longrightarrow> p \<noteq> [] \<Longrightarrow> fs_lookup d p = Some n \<longleftrightarrow> (p, n) \<in> set d"
  by (auto simp: fs_ok_def fs_lookup_def map_of_eq_Some_iff)

lemma fs_ok_parent:
  assumes "fs_ok d" "p \<noteq> []" "fs_lookup d p = Some n"
  shows "plain p" "fs_lookup d (butlast p) = Some Dir"
  using assms by (auto simp: fs_ok_def fs_lookup_def dest!: map_of_SomeD)

lemma fs_okI:
  assumes "distinct (map fst d)"
    and "\<And>p n. p \<noteq> [] \<Longrightarrow> fs_lookup d p = Some n \<Longrightarrow> plain p \<and> fs_lookup d (butlast p) = Some Dir"
    and "[] \<notin> fst ` set d"
  shows "fs_ok d"
  unfolding fs_ok_def
proof (intro conjI assms(1) ballI)
  fix e
  assume "e \<in> set d"
  then obtain p n where e: "e = (p, n)" "(p, n) \<in> set d" by (metis surj_pair)
  with assms(1,3) have "p \<noteq> []" "fs_lookup d p = Some n"
    by (force simp: fs_lookup_def)+
  with assms(2) e(1) show "case e of (p, n) \<Rightarrow> plain p \<and> fs_lookup d (butlast p) = Some Dir"
    by auto
qed

lemma fs_ok_distinct: "fs_ok d \<Longrightarrow> distinct (map fst d)"
  by (simp add: fs_ok_def)

lemma fs_ok_no_root: "fs_ok d \<Longrightarrow> [] \<notin> fst ` set d"
  by (force simp: fs_ok_def plain_def)

text \<open>Above an entry there are directories only.\<close>

lemma fs_ok_above:
  "fs_ok d \<Longrightarrow> fs_lookup d p = Some n \<Longrightarrow> strict_prefix r p \<Longrightarrow> fs_lookup d r = Some Dir"
proof (induction p arbitrary: n rule: rev_induct)
  case (snoc x p)
  from fs_ok_parent(2) [OF snoc.prems(1) _ snoc.prems(2)]
  have dir: "fs_lookup d p = Some Dir" by simp
  from snoc.prems(3) have "r = p \<or> strict_prefix r p"
    by (metis prefix_snoc prefix_order.less_le)
  then show ?case using snoc.IH [OF snoc.prems(1) dir] dir by blast
qed simp

lemma fs_ok_not_file_above: "fs_ok d \<Longrightarrow> fs_lookup d p = Some n \<Longrightarrow> \<not> file_above d p"
  by (auto simp: file_above_iff is_file_at_def dest: fs_ok_above)

lemma file_above_snoc: "file_above d (p @ [x]) \<longleftrightarrow> file_above d p \<or> is_file_at d p"
  by (auto simp: file_above_iff strict_prefix_butlast prefix_order.le_less)

lemma add_dirs_distinct: "distinct (map fst d) \<Longrightarrow> distinct (map fst (add_dirs ps d))"
  by (induction ps arbitrary: d) (simp_all add: distinct_update)

lemma add_dirs_no_root: "[] \<notin> fst ` set d \<Longrightarrow> [] \<notin> fst ` set (add_dirs ps d)"
proof (induction ps arbitrary: d)
  case (Cons p ps)
  have "[] \<notin> fst ` set (AList.update p Dir d)" if "p \<noteq> []"
    using Cons.prems that dom_update [of p Dir d] by auto
  with Cons show ?case by (cases "p = []") auto
qed simp

text \<open>
  Every operation keeps the disk well-formed, provided the path it creates directories for has
  no empty component.
\<close>

lemma fs_ok_add_dirs:
  assumes ok: "fs_ok d" and above: "\<not> file_above d p" and comps: "[] \<notin> set (butlast p)"
  shows "fs_ok (add_dirs (parents p) d)"
proof (rule fs_okI)
  show "distinct (map fst (add_dirs (parents p) d))"
    using ok by (simp add: add_dirs_distinct fs_ok_distinct)
  show "[] \<notin> fst ` set (add_dirs (parents p) d)"
    using ok by (simp add: add_dirs_no_root fs_ok_no_root)
next
  fix q n
  assume q: "q \<noteq> []" "fs_lookup (add_dirs (parents p) d) q = Some n"
  show "plain q \<and> fs_lookup (add_dirs (parents p) d) (butlast q) = Some Dir"
  proof (cases "fs_lookup d q")
    case None
    with q(2) have qp: "strict_prefix q p" by (auto simp: fs_lookup_add_dirs set_parents split: if_splits)
    then have pq: "prefix q (butlast p)" using strict_prefix_butlast [of p q] by (cases "p = []") auto
    then have "last q \<in> set (butlast p)" using q(1) set_mono_prefix by force
    with comps q(1) have "plain q" by (auto simp: plain_def)
    moreover have "strict_prefix (butlast q) p"
      using qp q(1) by (metis append_butlast_last_id prefixI prefix_order.le_less_trans)
    moreover from this above have "fs_lookup d (butlast q) = None \<or> fs_lookup d (butlast q) = Some Dir"
      by (cases "fs_lookup d (butlast q)"; cases "the (fs_lookup d (butlast q))")
        (auto simp: file_above_iff is_file_at_def)
    ultimately show ?thesis by (auto simp: fs_lookup_add_dirs set_parents)
  next
    case (Some m)
    with fs_ok_parent [OF ok q(1)] show ?thesis by (auto simp: fs_lookup_add_dirs)
  qed
qed

lemma fs_ok_update_file:
  assumes ok: "fs_ok d" and p: "plain p" "fs_lookup d (butlast p) = Some Dir" "fs_lookup d p \<noteq> Some Dir"
  shows "fs_ok (AList.update p (File b) d)"
proof (rule fs_okI)
  have p0: "p \<noteq> []" using p(1) by (simp add: plain_def)
  show "distinct (map fst (AList.update p (File b) d))"
    using ok by (simp add: distinct_update fs_ok_distinct)
  show "[] \<notin> fst ` set (AList.update p (File b) d)"
    using ok p0 dom_update [of p "File b" d] fs_ok_no_root by auto
next
  fix q n
  assume q: "q \<noteq> []" "fs_lookup (AList.update p (File b) d) q = Some n"
  have p0: "p \<noteq> []" using p(1) by (simp add: plain_def)
  then have "butlast p \<noteq> p" by (metis append_butlast_last_id append_self_conv not_Cons_self2)
  with q fs_ok_parent [OF ok q(1)] p p0
  show "plain q \<and> fs_lookup (AList.update p (File b) d) (butlast q) = Some Dir"
    by (auto split: if_splits)
qed

lemma fs_ok_delete_file:
  assumes ok: "fs_ok d" and p: "fs_lookup d p = Some (File b)"
  shows "fs_ok (AList.delete p d)"
proof (rule fs_okI)
  have p0: "p \<noteq> []" using p by auto
  show "distinct (map fst (AList.delete p d))"
    using ok by (simp add: distinct_delete fs_ok_distinct)
  show "[] \<notin> fst ` set (AList.delete p d)"
    using fs_ok_no_root [OF ok] dom_delete_subset [of p d] by auto
  fix q n
  assume "q \<noteq> []" "fs_lookup (AList.delete p d) q = Some n"
  with fs_ok_parent [OF ok] p p0
  show "plain q \<and> fs_lookup (AList.delete p d) (butlast q) = Some Dir"
    by (auto split: if_splits)
qed

lemma fs_ok_create_dir_all:
  assumes ok: "fs_ok d" and c: "create_dir_all d q = Inr d1" and comps: "[] \<notin> set q"
  shows "fs_ok d1" "fs_lookup d1 q = Some Dir"
proof -
  from c have nf: "\<not> file_above d q" "\<not> is_file_at d q"
    and d1: "d1 = add_dirs (parents (q @ [[]])) d"
    using parents_butlast [of "q @ [[]]"]
    by (auto simp: create_dir_all_def split: option.splits if_splits)
  from nf have "\<not> file_above d (q @ [[]])"
    by (auto simp: file_above_iff strict_prefix_butlast prefix_order.le_less)
  from fs_ok_add_dirs [OF ok this] comps show "fs_ok d1" by (simp add: d1)
  have "fs_lookup d q = None \<or> fs_lookup d q = Some Dir"
    using nf(2) by (cases "fs_lookup d q"; cases "the (fs_lookup d q)") (auto simp: is_file_at_def)
  then show "fs_lookup d1 q = Some Dir"
    by (auto simp: d1 fs_lookup_add_dirs set_parents strict_prefix_butlast)
qed

lemma fs_ok_write_atomic:
  assumes ok: "fs_ok d" and w: "write_atomic p b d = (r, d')" and comps: "[] \<notin> set (butlast p)"
  shows "fs_ok d'"
proof (cases "create_dir_all d (path_parent p)")
  case (Inl e)
  with w ok show ?thesis by (simp add: write_atomic_def)
next
  case (Inr d1)
  have "[] \<notin> set (path_parent p)"
    using comps by (auto simp: path_parent_def dest: in_set_butlastD)
  note d1 = fs_ok_create_dir_all [OF ok Inr this]
  show ?thesis
  proof (cases "persist_error d1 p")
    case None
    then have p: "plain p" "fs_lookup d1 p \<noteq> Some Dir"
      by (auto simp: persist_error_def plain_def split: option.splits if_splits)
    with d1(2) have "fs_lookup d1 (butlast p) = Some Dir" by (simp add: path_parent_def plain_def)
    from fs_ok_update_file [OF d1(1) p(1) this p(2)] None Inr w show ?thesis
      by (auto simp: write_atomic_def)
  next
    case (Some e)
    with d1(1) Inr w show ?thesis by (auto simp: write_atomic_def)
  qed
qed

lemma fs_ok_remove_file: "fs_ok d \<Longrightarrow> remove_file d p = Inr d' \<Longrightarrow> fs_ok d'"
  by (auto simp: remove_file_def resolve_def Let_def fs_ok_delete_file
      split: sum.splits fs_node.splits option.splits if_splits)

text \<open>What a listing shows.\<close>

lemma entries_of_iff:
  assumes "fs_ok d" "x \<noteq> []"
  shows "(x, k) \<in> set (entries_of d p) \<longleftrightarrow> (\<exists>n. fs_lookup d (p @ [x]) = Some n \<and> k = (n = Dir))"
proof -
  have "(x, k) \<in> set (entries_of d p) \<longleftrightarrow> (\<exists>q n. (q, n) \<in> set d \<and> q \<noteq> [] \<and> butlast q = p \<and> x = last q \<and> k = (n = Dir))"
    by (auto simp: entries_of_def)
  also have "\<dots> \<longleftrightarrow> (\<exists>n. (p @ [x], n) \<in> set d \<and> k = (n = Dir))"
  proof
    assume "\<exists>q n. (q, n) \<in> set d \<and> q \<noteq> [] \<and> butlast q = p \<and> x = last q \<and> k = (n = Dir)"
    then obtain q n where q: "(q, n) \<in> set d" "q \<noteq> []" "butlast q = p" "x = last q" "k = (n = Dir)"
      by blast
    then have "q = p @ [x]" by (metis append_butlast_last_id)
    with q(1,5) show "\<exists>n. (p @ [x], n) \<in> set d \<and> k = (n = Dir)" by blast
  next
    assume "\<exists>n. (p @ [x], n) \<in> set d \<and> k = (n = Dir)"
    then show "\<exists>q n. (q, n) \<in> set d \<and> q \<noteq> [] \<and> butlast q = p \<and> x = last q \<and> k = (n = Dir)"
      by (metis butlast_snoc last_snoc snoc_eq_iff_butlast)
  qed
  finally show ?thesis using fs_ok_lookup [OF assms(1), of "p @ [x]"] by simp
qed

lemma entries_of_names:
  "fs_ok d \<Longrightarrow> (x, k) \<in> set (entries_of d p) \<Longrightarrow> x \<noteq> []"
  by (auto simp: entries_of_def fs_ok_def plain_def)

lemma entries_of_distinct: "fs_ok d \<Longrightarrow> distinct (map fst (entries_of d p))"
proof -
  assume "fs_ok d"
  then have "distinct (map fst (filter (\<lambda>(q, n). q \<noteq> [] \<and> butlast q = p) d))"
    by (simp add: distinct_map_filter fs_ok_distinct)
  moreover have "inj_on last {q. q \<noteq> [] \<and> butlast q = p}"
  proof (rule inj_onI)
    fix q r
    assume a: "q \<in> {q. q \<noteq> [] \<and> butlast q = p}" "r \<in> {q. q \<noteq> [] \<and> butlast q = p}" "last q = last r"
    have "q = p @ [last q]" "r = p @ [last r]"
      using a(1,2) append_butlast_last_id [of q] append_butlast_last_id [of r] by auto
    with a(3) show "q = r" by metis
  qed
  then have "inj_on last (set (map fst (filter (\<lambda>(q, n). q \<noteq> [] \<and> butlast q = p) d)))"
    by (rule inj_on_subset) auto
  ultimately have "distinct (map last (map fst (filter (\<lambda>(q, n). q \<noteq> [] \<and> butlast q = p) d)))"
    unfolding distinct_map [of last] by blast
  then show ?thesis by (simp add: entries_of_def comp_def case_prod_beta)
qed

end
