(* ===== verification/Core_Types.thy ===== *)
theory Core_Types
  imports Fs
begin

text \<open>
  The data types of \<open>barme-core\<close> (manifests, bucket configuration, annotations, keys,
  webhooks, content addresses), the on-disk records of \<open>barme-store\<close>, the error types of the
  core, codec and store crates, and \<open>ext\<close>: the functions of third-party crates the program
  calls, as a record of parameters.

  Byte counts, versions and timestamps are \<open>nat\<close>; where they could wrap, the definition that
  computes them says so. A \<open>serde_json::Value\<close> is held as its compact text and an \<open>f64\<close> as its
  64 bits.
\<close>

section \<open>Content addresses\<close>

text \<open>\<open>Hash([u8; 32])\<close>; \<open>hash_wf\<close> is the length the array type enforces.\<close>

datatype hash = Hash (hash_bytes: bytes)

definition hash_wf :: "hash \<Rightarrow> bool" where
  "hash_wf h \<longleftrightarrow> length (hash_bytes h) = 32"

text \<open>The derived \<open>Ord\<close> of \<open>Hash\<close> compares the arrays byte by byte.\<close>

instantiation hash :: linorder
begin

definition less_eq_hash :: "hash \<Rightarrow> hash \<Rightarrow> bool" where
  "less_eq_hash a b \<longleftrightarrow> hash_bytes a \<le> hash_bytes b"

definition less_hash :: "hash \<Rightarrow> hash \<Rightarrow> bool" where
  "less_hash a b \<longleftrightarrow> hash_bytes a < hash_bytes b"

instance
  by standard (auto simp: less_eq_hash_def less_hash_def hash.expand)

end

datatype hash_error =
    MissingAlgo
  | UnknownAlgo string
  | BadHex
  | WrongLength nat

section \<open>Manifests\<close>

definition MANIFEST_VERSION :: nat where "MANIFEST_VERSION = 1"

datatype route = Blob | Image

datatype fidelity = Exact | Perceptual

record original =
  size_bytes :: nat
  sha256_hexed :: string
  content_type :: string

record storage =
  route :: route
  fidelity :: fidelity
  codec :: string
  codec_params :: string
  stored_size_bytes :: nat
  reconstructs_original :: bool

record chunking =
  algo :: "string option"
  chunks :: "hash list"
  merkle_root :: "hash option"

record quality =
  metric :: "string option"
  score :: "u64 option"

definition quality_default :: quality where
  "quality_default = \<lparr>metric = None, score = None\<rparr>"

record manifest =
  manifest_version :: nat
  object_id :: hash
  created_at :: string
  original :: original
  storage :: storage
  chunking :: chunking
  quality :: quality
  tenant :: string
  policy_snapshot :: string

section \<open>Pot configuration, annotations, keys, webhooks\<close>

record bucket_config =
  public_read :: bool
  bc_codec :: "string option"
  bc_zstd_level :: "int option"
  bc_fidelity :: "string option"
  route_by_content_type :: bool
  max_versions :: "nat option"
  expire_after_days :: "nat option"

definition bucket_config_default :: bucket_config where
  "bucket_config_default =
     \<lparr>public_read = False, bc_codec = None, bc_zstd_level = None, bc_fidelity = None,
      route_by_content_type = False, max_versions = None, expire_after_days = None\<rparr>"

record annotation =
  tags :: "(string \<times> string) list"
  ann_note :: string
  favorite :: bool
  locked_until :: "string option"

definition annotation_default :: annotation where
  "annotation_default = \<lparr>tags = [], ann_note = [], favorite = False, locked_until = None\<rparr>"

record key_record =
  access_key :: string
  secret_key :: string
  read_only :: bool
  pots :: "string list"
  key_created_at :: string

text \<open>A full-access owner key, and whether a key may act on a pot (\<open>KeyRecord\<close>).\<close>

definition is_owner :: "key_record \<Rightarrow> bool" where
  "is_owner k \<longleftrightarrow> \<not> read_only k \<and> pots k = []"

definition scoped_to :: "key_record \<Rightarrow> string \<Rightarrow> bool" where
  "scoped_to k pot \<longleftrightarrow> pots k = [] \<or> list_ex (\<lambda>p. p = pot) (pots k)"

record webhook =
  hook_id :: string
  hook_url :: string
  hook_events :: "string list"

definition wants :: "webhook \<Rightarrow> string \<Rightarrow> bool" where
  "wants h event \<longleftrightarrow> hook_events h = [] \<or> list_ex (\<lambda>e. e = event \<or> e = ''*'') (hook_events h)"

text \<open>On-disk shape of a key record: one of the two secrets is present.\<close>

record stored_key =
  sk_access_key :: string
  secret_enc :: "string option"
  sk_secret_key :: "string option"
  sk_read_only :: bool
  sk_pots :: "string list"
  sk_created_at :: string

section \<open>Errors\<close>

datatype codec_error = CodecIo io_error | UnknownCodec string

datatype store_error =
    Io io_error
  | Serde
  | HashErr hash_error
  | Integrity string
  | BadBucket string
  | Crypto string
  | UnsupportedFormat nat nat
  | UnsupportedManifest nat nat

section \<open>Third-party code\<close>

text \<open>
  A reader (\<open>std::io::Read\<close>) delivers its bytes and then either ends or fails; \<open>streamcdc\<close> is
  the sequence of items \<open>StreamCDC\<close> yields on it. \<open>fastcdc\<close> gives the (offset, length) cuts of
  a buffer. The three chunk-size bounds come first. Serialization of each stored type is a pair
  of functions (\<open>serde_json\<close> with the derived instances); \<open>manifest_body\<close> is the canonical JSON
  of a manifest with \<open>object_id\<close> removed; \<open>float_exact\<close> says of an \<open>f64\<close>, and \<open>value_exact\<close> of the numbers
  of a \<open>Value\<close>, that they are read back from the text they are written as.
\<close>

record reader =
  rd_bytes :: bytes
  rd_error :: "io_error option"

record ext =
  blake3 :: "bytes \<Rightarrow> bytes"
  sha256 :: "bytes \<Rightarrow> bytes"
  hmac_sha256 :: "bytes \<Rightarrow> bytes \<Rightarrow> bytes"
  hex_encode :: "bytes \<Rightarrow> string"
  hex_decode :: "string \<Rightarrow> bytes option"
  zstd_encode :: "int \<Rightarrow> bytes \<Rightarrow> io_error + bytes"
  zstd_decode :: "bytes \<Rightarrow> io_error + bytes"
  fastcdc :: "nat \<Rightarrow> nat \<Rightarrow> nat \<Rightarrow> bytes \<Rightarrow> (nat \<times> nat) list"
  streamcdc :: "nat \<Rightarrow> nat \<Rightarrow> nat \<Rightarrow> reader \<Rightarrow> (io_error + bytes) list"
  gcm_encrypt :: "bytes \<Rightarrow> bytes \<Rightarrow> bytes \<Rightarrow> bytes option"
  gcm_decrypt :: "bytes \<Rightarrow> bytes \<Rightarrow> bytes \<Rightarrow> bytes option"
  manifest_to_json :: "manifest \<Rightarrow> bytes"
  manifest_of_json :: "bytes \<Rightarrow> manifest option"
  manifest_body :: "manifest \<Rightarrow> bytes"
  float_exact :: "u64 \<Rightarrow> bool"
  value_exact :: "string \<Rightarrow> bool"
  config_to_json :: "bucket_config \<Rightarrow> bytes"
  config_of_json :: "bytes \<Rightarrow> bucket_config option"
  annotation_to_json :: "annotation \<Rightarrow> bytes"
  annotation_of_json :: "bytes \<Rightarrow> annotation option"
  key_to_json :: "stored_key \<Rightarrow> bytes"
  key_of_json :: "bytes \<Rightarrow> stored_key option"
  hooks_to_json :: "webhook list \<Rightarrow> bytes"
  hooks_of_json :: "bytes \<Rightarrow> webhook list option"
  locations_to_json :: "(string \<times> string) list \<Rightarrow> bytes"
  locations_of_json :: "bytes \<Rightarrow> (string \<times> string) list option"
  condemned_to_json :: "(hash \<times> nat) list \<Rightarrow> bytes"
  condemned_of_json :: "bytes \<Rightarrow> (hash \<times> nat) list option"
  stamp_to_json :: "nat \<Rightarrow> bytes"
  stamp_of_json :: "bytes \<Rightarrow> nat option"
  format_rfc3339 :: "nat \<Rightarrow> string"
  parse_rfc3339 :: "string \<Rightarrow> int option"

subsection \<open>Documented behaviour of the third-party functions\<close>

text \<open>
  The named hypotheses of the development, one per crate. \<open>blake3\<close> and \<open>sha256\<close> give 32 bytes.
  \<open>hex\<close> writes two lower-case digits per byte and reads its own output. The codec, cipher and
  JSON functions read what they wrote. \<open>fastcdc\<close> covers its input with non-empty pieces, and
  \<open>StreamCDC\<close> yields the same pieces on a reader that does not fail, and some pieces followed by
  one error on a reader that does.
\<close>

definition hash_ok :: "ext \<Rightarrow> bool" where
  "hash_ok X \<longleftrightarrow> (\<forall>b. length (blake3 X b) = 32) \<and> (\<forall>b. length (sha256 X b) = 32)"

definition hex_digits :: string where "hex_digits = ''0123456789abcdef''"

definition hex_ok :: "ext \<Rightarrow> bool" where
  "hex_ok X \<longleftrightarrow>
     (\<forall>b. hex_decode X (hex_encode X b) = Some b) \<and>
     (\<forall>b. length (hex_encode X b) = 2 * length b) \<and>
     (\<forall>b. set (hex_encode X b) \<subseteq> set hex_digits)"

definition zstd_ok :: "ext \<Rightarrow> bool" where
  "zstd_ok X \<longleftrightarrow> (\<forall>l b e. zstd_encode X l b = Inr e \<longrightarrow> zstd_decode X e = Inr b)"

definition slices :: "bytes \<Rightarrow> (nat \<times> nat) list \<Rightarrow> bytes list" where
  "slices b cuts = map (\<lambda>(off, len). take len (drop off b)) cuts"

definition cdc_ok :: "ext \<Rightarrow> bool" where
  "cdc_ok X \<longleftrightarrow>
     (\<forall>mn av mx b.
        concat (slices b (fastcdc X mn av mx b)) = b \<and>
        (\<forall>(off, len) \<in> set (fastcdc X mn av mx b). 0 < len \<and> off + len \<le> length b) \<and>
        streamcdc X mn av mx \<lparr>rd_bytes = b, rd_error = None\<rparr> =
          map Inr (slices b (fastcdc X mn av mx b)) \<and>
        (\<forall>e. \<exists>ds. streamcdc X mn av mx \<lparr>rd_bytes = b, rd_error = Some e\<rparr> = map Inr ds @ [Inl e]))"

definition gcm_ok :: "ext \<Rightarrow> bool" where
  "gcm_ok X \<longleftrightarrow>
     (\<forall>k n b. length k = 32 \<longrightarrow> length n = 12 \<longrightarrow> length b < 2 ^ 36 \<longrightarrow> gcm_encrypt X k n b \<noteq> None) \<and>
     (\<forall>k n b c. gcm_encrypt X k n b = Some c \<longrightarrow> c \<noteq> [] \<and> gcm_decrypt X k n c = Some b)"

text \<open>
  \<open>serde_json\<close> is used without \<open>float_roundtrip\<close>: what it reads from the text of a float need not be that
  float, and it writes infinities and NaN as \<open>null\<close>. A manifest is carried by JSON when its score, if
  it has one, and the numbers among its codec parameters are read back as they were.
\<close>

definition exact_score :: "ext \<Rightarrow> manifest \<Rightarrow> bool" where
  "exact_score X m \<longleftrightarrow> (case score (quality m) of None \<Rightarrow> True | Some s \<Rightarrow> float_exact X s)"

text \<open>The manifests that the Rust type can hold and JSON carries.\<close>

definition manifest_wf :: "ext \<Rightarrow> manifest \<Rightarrow> bool" where
  "manifest_wf X m \<longleftrightarrow>
     exact_score X m \<and> value_exact X (codec_params (storage m)) \<and>
     hash_wf (object_id m) \<and> list_all hash_wf (chunks (chunking m)) \<and>
     pred_option hash_wf (merkle_root (chunking m))"

definition json_ok :: "ext \<Rightarrow> bool" where
  "json_ok X \<longleftrightarrow>
     (\<forall>m. manifest_wf X m \<longrightarrow> manifest_of_json X (manifest_to_json X m) = Some m) \<and>
     value_exact X ''{}'' \<and> (\<forall>i. value_exact X (''{\"level\":'' @ show_int i @ ''}'')) \<and>
     (\<forall>m h. manifest_body X (m\<lparr>object_id := h\<rparr>) = manifest_body X m) \<and>
     (\<forall>m n. manifest_wf X m \<longrightarrow> manifest_wf X n \<longrightarrow> manifest_body X m = manifest_body X n \<longrightarrow>
        m\<lparr>object_id := object_id n\<rparr> = n) \<and>
     (\<forall>c. config_of_json X (config_to_json X c) = Some c) \<and>
     (\<forall>a. annotation_of_json X (annotation_to_json X a) = Some a) \<and>
     (\<forall>k. key_of_json X (key_to_json X k) = Some k) \<and>
     (\<forall>h. hooks_of_json X (hooks_to_json X h) = Some h) \<and>
     (\<forall>l. locations_of_json X (locations_to_json X l) = Some l) \<and>
     (\<forall>c. condemned_of_json X (condemned_to_json X c) = Some c) \<and>
     (\<forall>v. stamp_of_json X (stamp_to_json X v) = Some v)"

lemma hex_okD:
  assumes "hex_ok X"
  shows "hex_decode X (hex_encode X b) = Some b" "length (hex_encode X b) = 2 * length b"
    "set (hex_encode X b) \<subseteq> set hex_digits" "hex_encode X b = hex_encode X c \<longleftrightarrow> b = c"
  using assms unfolding hex_ok_def by (auto, metis option.inject)

lemma hash_okD: "hash_ok X \<Longrightarrow> length (blake3 X b) = 32" "hash_ok X \<Longrightarrow> length (sha256 X b) = 32"
  by (simp_all add: hash_ok_def)

lemma json_okD:
  assumes "json_ok X"
  shows "manifest_wf X m \<Longrightarrow> manifest_of_json X (manifest_to_json X m) = Some m"
    "value_exact X ''{}'' \<and> value_exact X (''{\"level\":'' @ show_int i @ ''}'')"
    "manifest_body X (m\<lparr>object_id := h\<rparr>) = manifest_body X m"
    "manifest_wf X m \<Longrightarrow> manifest_wf X n \<Longrightarrow> manifest_body X m = manifest_body X n \<Longrightarrow>
       m\<lparr>object_id := object_id n\<rparr> = n"
    "config_of_json X (config_to_json X c) = Some c"
    "annotation_of_json X (annotation_to_json X a) = Some a"
    "key_of_json X (key_to_json X k) = Some k"
    "hooks_of_json X (hooks_to_json X hs) = Some hs"
    "locations_of_json X (locations_to_json X l) = Some l"
    "condemned_of_json X (condemned_to_json X cs) = Some cs"
    "stamp_of_json X (stamp_to_json X v) = Some v"
  using assms unfolding json_ok_def by blast+

lemma manifest_body_inj:
  assumes "json_ok X" "manifest_wf X m" "manifest_wf X n" "manifest_body X m = manifest_body X n"
    "object_id m = object_id n"
  shows "m = n"
proof -
  have "m\<lparr>object_id := object_id m\<rparr> = m" by simp
  with json_okD(4) [OF assms(1-4)] assms(5) show ?thesis by metis
qed

text \<open>Hex names are ASCII, never start with a dot, and hold no separator.\<close>

lemma hex_digits_chars:
  "c \<in> set hex_digits \<Longrightarrow>
     c \<noteq> CHR ''.'' \<and> c \<noteq> CHR ''_'' \<and> c \<noteq> CHR 0x00 \<and> c \<noteq> CHR ''/'' \<and> c \<noteq> CHR 0x0A \<and> c \<noteq> CHR 0x0D \<and>
     c \<noteq> CHR '':'' \<and> of_char c < (128::nat)"
  by (auto simp: hex_digits_def)

lemma hex_encode_chars:
  assumes "hex_ok X" "c \<in> set (hex_encode X b)"
  shows "c \<noteq> CHR ''.''" "c \<noteq> CHR ''_''" "c \<noteq> CHR 0x00" "c \<noteq> CHR ''/''" "c \<noteq> CHR 0x0A"
    "c \<noteq> CHR 0x0D" "c \<noteq> CHR '':''" "of_char c < (128::nat)"
  using hex_okD(3) [OF assms(1), of b] assms(2) hex_digits_chars [of c] by blast+

lemma ascii_hex_encode: "hex_ok X \<Longrightarrow> ascii (hex_encode X b)"
  by (auto simp: ascii_def dest: hex_encode_chars)

end
