(* ===== verification/Hashes.thy ===== *)
theory Hashes
  imports Core_Types
begin

text \<open>
  Content addresses (\<open>barme-core/src/hash.rs\<close>): hashing, the bare hex form used for on-disk
  names, the \<open>blake3:<hex>\<close> text form and its parser with every error branch.
\<close>

section \<open>Operations\<close>

definition hash_of :: "ext \<Rightarrow> bytes \<Rightarrow> hash" where
  "hash_of X b = Hash (blake3 X b)"

definition to_hex :: "ext \<Rightarrow> hash \<Rightarrow> string" where
  "to_hex X h = hex_encode X (hash_bytes h)"

definition show_hash :: "ext \<Rightarrow> hash \<Rightarrow> string" where
  "show_hash X h = ''blake3:'' @ hex_encode X (hash_bytes h)"

definition parse_hash :: "ext \<Rightarrow> string \<Rightarrow> hash_error + hash" where
  "parse_hash X s =
     (case split_once CHR '':'' s of
        None \<Rightarrow> Inl MissingAlgo
      | Some (algorithm, hex_digest) \<Rightarrow>
          if algorithm \<noteq> ''blake3'' then Inl (UnknownAlgo algorithm)
          else case hex_decode X hex_digest of
                 None \<Rightarrow> Inl BadHex
               | Some bs \<Rightarrow>
                   if length bs \<noteq> 32 then Inl (WrongLength (length bs)) else Inr (Hash bs))"

section \<open>Lemmas\<close>

lemma hash_bytes_hash_of [simp]: "hash_bytes (hash_of X b) = blake3 X b"
  by (simp add: hash_of_def)

lemma hash_wf_hash_of [simp]: "hash_ok X \<Longrightarrow> hash_wf (hash_of X b)"
  by (simp add: hash_wf_def hash_okD)

lemma hash_of_eq [simp]: "hash_of X a = hash_of X b \<longleftrightarrow> blake3 X a = blake3 X b"
  by (simp add: hash_of_def)

lemma to_hex_inj: "hex_ok X \<Longrightarrow> to_hex X a = to_hex X b \<longleftrightarrow> a = b"
  by (simp add: to_hex_def hex_okD hash.expand) (metis hash.collapse)

lemma length_to_hex: "hex_ok X \<Longrightarrow> hash_wf h \<Longrightarrow> length (to_hex X h) = 64"
  by (simp add: to_hex_def hex_okD hash_wf_def)

lemma show_hash_to_hex: "show_hash X h = ''blake3:'' @ to_hex X h"
  by (simp add: show_hash_def to_hex_def)

lemma show_hash_inj: "hex_ok X \<Longrightarrow> show_hash X a = show_hash X b \<longleftrightarrow> a = b"
  by (simp add: show_hash_to_hex to_hex_inj)

lemma parse_hash_prefixed:
  "parse_hash X (''blake3:'' @ s) =
     (case hex_decode X s of
        None \<Rightarrow> Inl BadHex
      | Some bs \<Rightarrow> if length bs \<noteq> 32 then Inl (WrongLength (length bs)) else Inr (Hash bs))"
proof -
  have "split_once CHR '':'' (''blake3'' @ CHR '':'' # s) = Some (''blake3'', s)"
    by (rule split_once_append) simp
  then show ?thesis by (simp add: parse_hash_def)
qed

lemma parse_show_hash: "hex_ok X \<Longrightarrow> hash_wf h \<Longrightarrow> parse_hash X (show_hash X h) = Inr h"
  by (simp only: show_hash_def parse_hash_prefixed) (simp add: hex_okD hash_wf_def)

lemma parse_to_hex: "hex_ok X \<Longrightarrow> hash_wf h \<Longrightarrow> parse_hash X (''blake3:'' @ to_hex X h) = Inr h"
  by (simp only: show_hash_to_hex [symmetric] parse_show_hash)

lemma parse_hash_wf: "parse_hash X s = Inr h \<Longrightarrow> hash_wf h"
  by (auto simp: parse_hash_def hash_wf_def split: option.splits if_splits prod.splits)

lemma to_hex_plain:
  assumes "hex_ok X" "hash_wf h"
  shows "to_hex X h \<noteq> []" "\<not> starts_with_char CHR ''.'' (to_hex X h)"
    "CHR 0x00 \<notin> set (to_hex X h)" "length (to_hex X h) \<le> NAME_MAX" "take 2 (to_hex X h) \<noteq> []"
    "length (take 2 (to_hex X h)) \<le> NAME_MAX" "CHR 0x00 \<notin> set (take 2 (to_hex X h))"
proof -
  have len: "length (to_hex X h) = 64" using assms by (rule length_to_hex)
  have chars: "c \<noteq> CHR ''.'' \<and> c \<noteq> CHR 0x00" if "c \<in> set (to_hex X h)" for c
    using that assms(1) hex_encode_chars unfolding to_hex_def by blast
  show "to_hex X h \<noteq> []" "take 2 (to_hex X h) \<noteq> []" using len by auto
  show "\<not> starts_with_char CHR ''.'' (to_hex X h)"
    using chars by (cases "to_hex X h") (auto simp: starts_with_char_def)
  show "CHR 0x00 \<notin> set (to_hex X h)" "CHR 0x00 \<notin> set (take 2 (to_hex X h))"
    using chars in_set_takeD by fastforce+
  show "length (to_hex X h) \<le> NAME_MAX" "length (take 2 (to_hex X h)) \<le> NAME_MAX"
    using len by (simp_all add: NAME_MAX_def)
qed

end
