(* ===== verification/Merkle.thy ===== *)
theory Merkle
  imports Hashes
begin

text \<open>
  The Merkle tree over an object's chunk list (\<open>barme-core/src/merkle.rs\<close>): the root, inclusion
  proofs and their verification.

  The soundness results assume that \<open>blake3\<close> has no collision among the buffers that are
  hashed for the lists and the proof at hand (\<open>root_inputs\<close>, \<open>verify_inputs\<close>), which is what
  collision resistance gives in practice; the domain-separation bytes do the rest.
\<close>

section \<open>Operations\<close>

definition LEAF :: u8 where "LEAF = 0"
definition NODE :: u8 where "NODE = 1"
definition EMPTY :: u8 where "EMPTY = 2"

definition leaf_buf :: "hash \<Rightarrow> bytes" where
  "leaf_buf chunk = LEAF # hash_bytes chunk"

definition leaf :: "ext \<Rightarrow> hash \<Rightarrow> hash" where
  "leaf X chunk = hash_of X (leaf_buf chunk)"

definition node_buf :: "hash \<Rightarrow> hash \<Rightarrow> bytes" where
  "node_buf left right = NODE # hash_bytes left @ hash_bytes right"

definition node :: "ext \<Rightarrow> hash \<Rightarrow> hash \<Rightarrow> hash" where
  "node X left right = hash_of X (node_buf left right)"

fun reduce :: "ext \<Rightarrow> hash list \<Rightarrow> hash list" where
  "reduce X (a # b # level) = node X a b # reduce X level"
| "reduce X [a] = [a]"
| "reduce X [] = []"

lemma length_reduce [simp]: "length (reduce X level) = (length level + 1) div 2"
  by (induction X level rule: reduce.induct) auto

function collapse :: "ext \<Rightarrow> hash list \<Rightarrow> hash list" where
  "collapse X level = (if 1 < length level then collapse X (reduce X level) else level)"
  by pat_completeness auto
termination
  by (relation "measure (\<lambda>(X, level). length level)") auto

declare collapse.simps [simp del]

definition root :: "ext \<Rightarrow> hash list \<Rightarrow> hash" where
  "root X cs =
     (if cs = [] then hash_of X [EMPTY] else hd (collapse X (map (leaf X) cs)))"

datatype side = Left | Right

record step =
  step_side :: side
  step_hash :: hash

record proof_path =
  index :: nat
  total :: nat
  steps :: "step list"

text \<open>The siblings met while climbing from position \<open>i\<close> of a level to the root.\<close>

function climb :: "ext \<Rightarrow> hash list \<Rightarrow> nat \<Rightarrow> step list" where
  "climb X level i =
     (if 1 < length level then
        (if i mod 2 = 0
         then (if i + 1 < length level then [\<lparr>step_side = Right, step_hash = level ! (i + 1)\<rparr>] else [])
         else [\<lparr>step_side = Left, step_hash = level ! (i - 1)\<rparr>])
        @ climb X (reduce X level) (i div 2)
      else [])"
  by pat_completeness auto
termination
  by (relation "measure (\<lambda>(X, level, i). length level)") auto

declare climb.simps [simp del]

definition prove :: "ext \<Rightarrow> hash list \<Rightarrow> nat \<Rightarrow> proof_path option" where
  "prove X cs i =
     (if length cs \<le> i then None
      else Some \<lparr>index = i, total = length cs, steps = climb X (map (leaf X) cs) i\<rparr>)"

definition fold_step :: "ext \<Rightarrow> hash \<Rightarrow> step \<Rightarrow> hash" where
  "fold_step X cur s =
     (case step_side s of Left \<Rightarrow> node X (step_hash s) cur | Right \<Rightarrow> node X cur (step_hash s))"

definition verify :: "ext \<Rightarrow> hash \<Rightarrow> hash \<Rightarrow> proof_path \<Rightarrow> bool" where
  "verify X root_hash chunk p \<longleftrightarrow> foldl (fold_step X) (leaf X chunk) (steps p) = root_hash"

lemma fold_step_simps [simp]:
  "fold_step X cur \<lparr>step_side = Left, step_hash = h\<rparr> = node X h cur"
  "fold_step X cur \<lparr>step_side = Right, step_hash = h\<rparr> = node X cur h"
  by (simp_all add: fold_step_def)

section \<open>Completeness: a generated proof verifies\<close>

lemma reduce_nth:
  "i < length level \<Longrightarrow>
     reduce X level ! (i div 2) =
       (if i mod 2 = 0
        then (if i + 1 < length level then node X (level ! i) (level ! (i + 1)) else level ! i)
        else node X (level ! (i - 1)) (level ! i))"
proof (induction X level arbitrary: i rule: reduce.induct)
  case (1 X a b level)
  show ?case
  proof (cases i)
    case (Suc j)
    show ?thesis
    proof (cases j)
      case 0
      with Suc show ?thesis by simp
    next
      case (Suc k)
      with \<open>i = Suc j\<close> "1.prems" have "k < length level" "i = k + 2" by auto
      with "1.IH" [of k] show ?thesis by (cases "k mod 2 = 0") (auto simp: nth_Cons')
    qed
  qed simp
qed auto

lemma climb_fold:
  "i < length level \<Longrightarrow> foldl (fold_step X) (level ! i) (climb X level i) = hd (collapse X level)"
proof (induction X level i rule: climb.induct)
  case (1 X level i)
  show ?case
  proof (cases "1 < length level")
    case True
    have "i div 2 < length (reduce X level)" using "1.prems" by auto
    with "1.IH" True have
      "foldl (fold_step X) (reduce X level ! (i div 2)) (climb X (reduce X level) (i div 2))
         = hd (collapse X (reduce X level))" by simp
    with True "1.prems" show ?thesis
      by (subst climb.simps, subst collapse.simps) (auto simp: reduce_nth)
  next
    case False
    with "1.prems" have "level = [hd level]" "i = 0" by (cases level; auto)+
    with False show ?thesis by (subst climb.simps, subst collapse.simps) (cases level, auto)
  qed
qed

lemma prove_verify:
  assumes "i < length cs"
  shows "\<exists>p. prove X cs i = Some p \<and> verify X (root X cs) (cs ! i) p"
  using climb_fold [of i "map (leaf X) cs" X] assms
  by (auto simp: prove_def verify_def root_def)

text \<open>The audit path is logarithmic in the number of chunks.\<close>

lemma length_climb: "length level \<le> 2 ^ k \<Longrightarrow> length (climb X level i) \<le> k"
proof (induction X level i arbitrary: k rule: climb.induct)
  case (1 X level i)
  show ?case
  proof (cases "1 < length level")
    case True
    then obtain j where k: "k = Suc j" using "1.prems" by (cases k) auto
    with "1.prems" have "length (reduce X level) \<le> 2 ^ j" by auto
    with "1.IH" True k show ?thesis by (subst climb.simps) auto
  next
    case False
    then show ?thesis by (subst climb.simps) auto
  qed
qed


section \<open>Soundness\<close>

text \<open>
  Every hash the computation of a root produces is a leaf or a node over two earlier ones.
  \<open>buffers\<close> of a tree are the byte strings hashed to get there; a tree's shape and leaves can
  be read back from its hash as long as no two of the buffers involved collide.
\<close>

datatype tree = Tip hash | Fork tree tree

fun tree_hash :: "ext \<Rightarrow> tree \<Rightarrow> hash" where
  "tree_hash X (Tip c) = leaf X c"
| "tree_hash X (Fork l r) = node X (tree_hash X l) (tree_hash X r)"

fun tips :: "tree \<Rightarrow> hash list" where
  "tips (Tip c) = [c]"
| "tips (Fork l r) = tips l @ tips r"

fun buffers :: "ext \<Rightarrow> tree \<Rightarrow> bytes set" where
  "buffers X (Tip c) = {leaf_buf c}"
| "buffers X (Fork l r) =
     insert (node_buf (tree_hash X l) (tree_hash X r)) (buffers X l \<union> buffers X r)"

fun reduce_trees :: "tree list \<Rightarrow> tree list" where
  "reduce_trees (a # b # ts) = Fork a b # reduce_trees ts"
| "reduce_trees [a] = [a]"
| "reduce_trees [] = []"

lemma length_reduce_trees [simp]: "length (reduce_trees ts) = (length ts + 1) div 2"
  by (induction ts rule: reduce_trees.induct) auto

function collapse_trees :: "tree list \<Rightarrow> tree list" where
  "collapse_trees ts = (if 1 < length ts then collapse_trees (reduce_trees ts) else ts)"
  by pat_completeness auto
termination
  by (relation "measure length") auto

declare collapse_trees.simps [simp del]

definition merkle_tree :: "hash list \<Rightarrow> tree" where
  "merkle_tree cs = hd (collapse_trees (map Tip cs))"

lemma reduce_map: "reduce X (map (tree_hash X) ts) = map (tree_hash X) (reduce_trees ts)"
  by (induction ts rule: reduce_trees.induct) auto

lemma collapse_map: "collapse X (map (tree_hash X) ts) = map (tree_hash X) (collapse_trees ts)"
proof (induction ts rule: collapse_trees.induct)
  case (1 ts)
  then show ?case
    by (cases "1 < length ts") (simp_all add: collapse.simps [of X] collapse_trees.simps [of ts] reduce_map)
qed

lemma tips_reduce: "concat (map tips (reduce_trees ts)) = concat (map tips ts)"
  by (induction ts rule: reduce_trees.induct) auto

lemma collapse_trees_tips:
  "ts \<noteq> [] \<Longrightarrow> \<exists>t. collapse_trees ts = [t] \<and> tips t = concat (map tips ts)"
proof (induction ts rule: collapse_trees.induct)
  case (1 ts)
  show ?case
  proof (cases "1 < length ts")
    case True
    then have "reduce_trees ts \<noteq> []" by (cases ts rule: reduce_trees.cases) auto
    with 1 True show ?thesis by (subst collapse_trees.simps) (simp add: tips_reduce)
  next
    case False
    with "1.prems" obtain t where "ts = [t]" by (cases ts) auto
    then show ?thesis by (simp add: collapse_trees.simps)
  qed
qed

lemma merkle_tree_props:
  assumes "cs \<noteq> []"
  shows "root X cs = tree_hash X (merkle_tree cs)" "tips (merkle_tree cs) = cs"
proof -
  obtain t where t: "collapse_trees (map Tip cs) = [t]" "tips t = concat (map tips (map Tip cs))"
    using collapse_trees_tips [of "map Tip cs"] assms by auto
  have "map (leaf X) cs = map (tree_hash X) (map Tip cs)" by simp
  then have "collapse X (map (leaf X) cs) = [tree_hash X t]"
    by (simp only: collapse_map t(1)) simp
  then show "root X cs = tree_hash X (merkle_tree cs)"
    using assms t(1) by (simp add: root_def merkle_tree_def)
  have "concat (map tips (map Tip cs)) = cs" by (induction cs) auto
  then show "tips (merkle_tree cs) = cs" using t by (simp add: merkle_tree_def)
qed

definition tree_wf :: "tree \<Rightarrow> bool" where
  "tree_wf t \<longleftrightarrow> (\<forall>c \<in> set (tips t). hash_wf c)"

lemma hash_wf_tree_hash: "hash_ok X \<Longrightarrow> hash_wf (tree_hash X t)"
  by (cases t) (simp_all add: leaf_def node_def)

lemma node_buf_inj:
  "hash_wf a \<Longrightarrow> hash_wf c \<Longrightarrow> node_buf a b = node_buf c d \<longleftrightarrow> a = c \<and> b = d"
  by (auto simp: node_buf_def hash_wf_def hash.expand)

lemma leaf_buf_inj: "leaf_buf a = leaf_buf b \<longleftrightarrow> a = b"
  by (auto simp: leaf_buf_def hash.expand)

lemma leaf_node_buf: "leaf_buf a \<noteq> node_buf b c" "node_buf b c \<noteq> leaf_buf a"
  by (simp_all add: leaf_buf_def node_buf_def LEAF_def NODE_def)

fun top_buf :: "ext \<Rightarrow> tree \<Rightarrow> bytes" where
  "top_buf X (Tip c) = leaf_buf c"
| "top_buf X (Fork l r) = node_buf (tree_hash X l) (tree_hash X r)"

lemma tree_hash_top: "tree_hash X t = hash_of X (top_buf X t)"
  by (cases t) (simp_all add: leaf_def node_def)

lemma top_buf_in [simp]: "top_buf X t \<in> buffers X t"
  by (cases t) simp_all

lemma tree_hash_inj:
  assumes "hash_ok X"
  shows "inj_on (blake3 X) (buffers X s \<union> buffers X t) \<Longrightarrow> tree_hash X s = tree_hash X t \<Longrightarrow> s = t"
proof (induction s arbitrary: t)
  case (Tip c)
  then have "blake3 X (top_buf X (Tip c)) = blake3 X (top_buf X t)"
    by (simp only: tree_hash_top hash_of_eq)
  from inj_onD [OF Tip.prems(1) this] have "top_buf X (Tip c) = top_buf X t" by simp
  then show ?case by (cases t) (simp_all add: leaf_buf_inj leaf_node_buf)
next
  case (Fork l r)
  then have "blake3 X (top_buf X (Fork l r)) = blake3 X (top_buf X t)"
    by (simp only: tree_hash_top hash_of_eq)
  from inj_onD [OF Fork.prems(1) this] have top: "top_buf X (Fork l r) = top_buf X t"
    using top_buf_in by blast
  then obtain l' r' where t: "t = Fork l' r'" by (cases t) (simp_all add: leaf_node_buf)
  with top have eq: "tree_hash X l = tree_hash X l'" "tree_hash X r = tree_hash X r'"
    using assms by (simp_all add: node_buf_inj hash_wf_tree_hash)
  moreover have "inj_on (blake3 X) (buffers X l \<union> buffers X l')" "inj_on (blake3 X) (buffers X r \<union> buffers X r')"
    by (rule inj_on_subset [OF Fork.prems(1)], use t in auto)+
  ultimately show ?case using Fork.IH t by blast
qed

text \<open>The buffers hashed by \<open>root\<close>, executable.\<close>

fun level_inputs :: "hash list \<Rightarrow> bytes list" where
  "level_inputs (a # b # level) = node_buf a b # level_inputs level"
| "level_inputs [a] = []"
| "level_inputs [] = []"

function collapse_inputs :: "ext \<Rightarrow> hash list \<Rightarrow> bytes list" where
  "collapse_inputs X level =
     (if 1 < length level then level_inputs level @ collapse_inputs X (reduce X level) else [])"
  by pat_completeness auto
termination
  by (relation "measure (\<lambda>(X, level). length level)") auto

declare collapse_inputs.simps [simp del]

definition root_inputs :: "ext \<Rightarrow> hash list \<Rightarrow> bytes list" where
  "root_inputs X cs = map leaf_buf cs @ collapse_inputs X (map (leaf X) cs)"


lemma set_level_inputs:
  "set (level_inputs (map (tree_hash X) ts)) \<union> \<Union> (buffers X ` set ts) =
     \<Union> (buffers X ` set (reduce_trees ts))"
  by (induction ts rule: reduce_trees.induct) auto

lemma set_collapse_inputs:
  "set (collapse_inputs X (map (tree_hash X) ts)) \<union> \<Union> (buffers X ` set ts) =
     \<Union> (buffers X ` set (collapse_trees ts))"
proof (induction ts rule: collapse_trees.induct)
  case (1 ts)
  show ?case
  proof (cases "1 < length ts")
    case True
    then have "collapse_inputs X (map (tree_hash X) ts) =
        level_inputs (map (tree_hash X) ts) @ collapse_inputs X (map (tree_hash X) (reduce_trees ts))"
      by (subst collapse_inputs.simps) (simp add: reduce_map)
    with 1 True show ?thesis
      by (subst collapse_trees.simps) (simp add: set_level_inputs [symmetric] Un_ac)
  qed (simp add: collapse_trees.simps collapse_inputs.simps)
qed

lemma set_root_inputs:
  assumes "cs \<noteq> []"
  shows "set (root_inputs X cs) = buffers X (merkle_tree cs)"
proof -
  obtain t where t: "collapse_trees (map Tip cs) = [t]"
    using collapse_trees_tips [of "map Tip cs"] assms by auto
  have eq: "map (tree_hash X) (map Tip cs) = map (leaf X) cs" by simp
  show ?thesis
    using set_collapse_inputs [of X "map Tip cs", unfolded eq t]
    by (auto simp: root_inputs_def merkle_tree_def t)
qed

lemma root_injective:
  assumes "hash_ok X" "cs \<noteq> []" "ds \<noteq> []"
    and "inj_on (blake3 X) (set (root_inputs X cs) \<union> set (root_inputs X ds))"
    and "root X cs = root X ds"
  shows "cs = ds"
  using tree_hash_inj [OF assms(1), of "merkle_tree cs" "merkle_tree ds"] assms
  by (metis merkle_tree_props set_root_inputs)

text \<open>The buffers \<open>verify\<close> hashes.\<close>

definition step_buf :: "hash \<Rightarrow> step \<Rightarrow> bytes" where
  "step_buf cur s =
     (case step_side s of Left \<Rightarrow> node_buf (step_hash s) cur | Right \<Rightarrow> node_buf cur (step_hash s))"

fun path_inputs :: "ext \<Rightarrow> hash \<Rightarrow> step list \<Rightarrow> bytes list" where
  "path_inputs X cur [] = []"
| "path_inputs X cur (s # ss) = step_buf cur s # path_inputs X (fold_step X cur s) ss"

definition verify_inputs :: "ext \<Rightarrow> hash \<Rightarrow> proof_path \<Rightarrow> bytes list" where
  "verify_inputs X chunk p = leaf_buf chunk # path_inputs X (leaf X chunk) (steps p)"

text \<open>Walking an accepted audit path backwards stays inside the tree and ends at a leaf.\<close>

definition steps_wf :: "step list \<Rightarrow> bool" where
  "steps_wf ss \<longleftrightarrow> (\<forall>s \<in> set ss. hash_wf (step_hash s))"

fun subtrees :: "tree \<Rightarrow> tree set" where
  "subtrees (Tip c) = {Tip c}"
| "subtrees (Fork l r) = insert (Fork l r) (subtrees l \<union> subtrees r)"

lemma subtrees_self [simp]: "t \<in> subtrees t"
  by (cases t) simp_all

lemma subtrees_trans: "s \<in> subtrees t \<Longrightarrow> r \<in> subtrees s \<Longrightarrow> r \<in> subtrees t"
  by (induction t) auto

lemma buffers_subtrees: "s \<in> subtrees t \<Longrightarrow> buffers X s \<subseteq> buffers X t"
  by (induction t) auto

lemma tips_subtrees: "Tip c \<in> subtrees t \<Longrightarrow> c \<in> set (tips t)"
  by (induction t) auto

lemma path_inputs_snoc:
  "set (path_inputs X cur (ss @ [s])) =
     insert (step_buf (foldl (fold_step X) cur ss) s) (set (path_inputs X cur ss))"
  by (induction ss arbitrary: cur) auto

lemma fold_step_hash_of: "fold_step X cur s = hash_of X (step_buf cur s)"
  by (simp add: fold_step_def step_buf_def node_def split: side.split)

lemma path_end_in_tree:
  assumes ok: "hash_ok X"
  shows "inj_on (blake3 X) (buffers X t \<union> set (path_inputs X cur ss)) \<Longrightarrow> steps_wf ss \<Longrightarrow> hash_wf cur \<Longrightarrow>
     foldl (fold_step X) cur ss = tree_hash X t \<Longrightarrow> \<exists>s \<in> subtrees t. tree_hash X s = cur"
proof (induction ss arbitrary: t rule: rev_induct)
  case Nil
  then show ?case by auto
next
  case (snoc x ss)
  let ?cur = "foldl (fold_step X) cur ss"
  have wf: "hash_wf ?cur"
    using ok snoc.prems(3)
    by (cases ss rule: rev_cases) (simp_all add: fold_step_hash_of [of X "foldl (fold_step X) cur _"])
  have "fold_step X ?cur x = tree_hash X t" using snoc.prems(4) by simp
  then have "blake3 X (step_buf ?cur x) = blake3 X (top_buf X t)"
    by (simp only: fold_step_hash_of tree_hash_top hash_of_eq)
  from inj_onD [OF snoc.prems(1) this] have "step_buf ?cur x = top_buf X t"
    using path_inputs_snoc [of X cur ss x] top_buf_in by blast
  then obtain l r where t: "t = Fork l r" and buf: "step_buf ?cur x = node_buf (tree_hash X l) (tree_hash X r)"
    by (cases t) (auto simp: step_buf_def leaf_node_buf split: side.splits)
  from buf wf snoc.prems(2) obtain u where u: "u \<in> {l, r}" "?cur = tree_hash X u"
    by (auto simp: step_buf_def node_buf_inj steps_wf_def hash_wf_tree_hash [OF ok] split: side.splits)
  have "inj_on (blake3 X) (buffers X u \<union> set (path_inputs X cur ss))"
    by (rule inj_on_subset [OF snoc.prems(1)]) (use t u in \<open>auto simp: path_inputs_snoc\<close>)
  with snoc.IH [of u] snoc.prems(2,3) u(2) obtain s where "s \<in> subtrees u" "tree_hash X s = cur"
    by (auto simp: steps_wf_def)
  with u(1) t show ?case by auto
qed

lemma verify_sound:
  assumes ok: "hash_ok X" and cs: "cs \<noteq> []" and wf: "hash_wf c" "steps_wf (steps p)"
    and inj: "inj_on (blake3 X) (set (root_inputs X cs) \<union> set (verify_inputs X c p))"
    and v: "verify X (root X cs) c p"
  shows "c \<in> set cs"
proof -
  let ?t = "merkle_tree cs"
  have inj_t: "inj_on (blake3 X) (buffers X ?t \<union> insert (leaf_buf c) (set (path_inputs X (leaf X c) (steps p))))"
    using inj by (simp add: verify_inputs_def set_root_inputs [OF cs])
  have "\<exists>s \<in> subtrees ?t. tree_hash X s = leaf X c"
  proof (rule path_end_in_tree [OF ok _ wf(2)])
    show "inj_on (blake3 X) (buffers X ?t \<union> set (path_inputs X (leaf X c) (steps p)))"
      by (rule inj_on_subset [OF inj_t]) auto
    show "hash_wf (leaf X c)" using ok by (simp add: leaf_def)
    show "foldl (fold_step X) (leaf X c) (steps p) = tree_hash X ?t"
      using v merkle_tree_props(1) [OF cs, of X] by (simp add: verify_def)
  qed
  then obtain s where s: "s \<in> subtrees ?t" "tree_hash X s = leaf X c" by blast
  then have "blake3 X (top_buf X s) = blake3 X (leaf_buf c)" by (simp add: tree_hash_top leaf_def)
  from inj_onD [OF inj_t this] have "top_buf X s = leaf_buf c"
    using buffers_subtrees [OF s(1), of X] top_buf_in [of X s] by blast
  then have "s = Tip c" by (cases s) (simp_all add: leaf_buf_inj leaf_node_buf)
  with s(1) tips_subtrees merkle_tree_props(2) [OF cs] show ?thesis by fastforce
qed

end
