(* ===== verification/Demo_Ext.thy ===== *)
theory Demo_Ext
  imports Core_Types
begin

text \<open>
  One concrete instance \<open>demo\<close> of the third-party functions, with a proof of every law of
  \<open>Core_Types\<close>. It shows that the hypotheses about third-party code can hold together, and the
  witnesses of the properties evaluate on it. It is small, not realistic: a 16-bit checksum
  padded to 32 bytes for the hashes, a tag byte for compression, fixed-size pieces of four bytes
  for chunking, and a self-delimiting byte format for JSON.
\<close>

section \<open>Self-delimiting byte formats\<close>

type_synonym 'a fmt = "('a \<Rightarrow> bytes) \<times> (bytes \<Rightarrow> ('a \<times> bytes) option)"

definition fmt_ok :: "'a fmt \<Rightarrow> bool" where
  "fmt_ok p \<longleftrightarrow> (\<forall>x r. snd p (fst p x @ r) = Some (x, r))"

fun dec_nat :: "bytes \<Rightarrow> (nat \<times> bytes) option" where
  "dec_nat [] = None"
| "dec_nat (b # r) = (if b = 0 then Some (0, r) else map_option (\<lambda>(n, r). (Suc n, r)) (dec_nat r))"

definition fmt_nat :: "nat fmt" where
  "fmt_nat = (\<lambda>n. replicate n 1 @ [0], dec_nat)"

definition fmt_char :: "char fmt" where
  "fmt_char = (\<lambda>c. [byte_of_char c], \<lambda>b. case b of [] \<Rightarrow> None | x # r \<Rightarrow> Some (char_of_byte x, r))"

definition fmt_byte :: "u8 fmt" where
  "fmt_byte = (\<lambda>c. [c], \<lambda>b. case b of [] \<Rightarrow> None | x # r \<Rightarrow> Some (x, r))"

definition fmt_pair :: "'a fmt \<Rightarrow> 'b fmt \<Rightarrow> ('a \<times> 'b) fmt" where
  "fmt_pair p q =
     (\<lambda>(x, y). fst p x @ fst q y,
      \<lambda>b. case snd p b of None \<Rightarrow> None
          | Some (x, r) \<Rightarrow> (case snd q r of None \<Rightarrow> None | Some (y, s) \<Rightarrow> Some ((x, y), s)))"

definition fmt_iso :: "('a \<Rightarrow> 'b) \<Rightarrow> ('b \<Rightarrow> 'a) \<Rightarrow> 'b fmt \<Rightarrow> 'a fmt" where
  "fmt_iso f g p = (\<lambda>x. fst p (f x), \<lambda>b. map_option (\<lambda>(y, r). (g y, r)) (snd p b))"

fun dec_list :: "(bytes \<Rightarrow> ('a \<times> bytes) option) \<Rightarrow> nat \<Rightarrow> bytes \<Rightarrow> ('a list \<times> bytes) option" where
  "dec_list d 0 b = None"
| "dec_list d (Suc n) b =
     (case b of
        [] \<Rightarrow> None
      | t # r \<Rightarrow>
          if t = 0 then Some ([], r)
          else (case d r of None \<Rightarrow> None
                | Some (x, s) \<Rightarrow> map_option (\<lambda>(xs, q). (x # xs, q)) (dec_list d n s)))"

definition fmt_list :: "'a fmt \<Rightarrow> 'a list fmt" where
  "fmt_list p =
     (\<lambda>xs. concat (map (\<lambda>x. 1 # fst p x) xs) @ [0], \<lambda>b. dec_list (snd p) (Suc (length b)) b)"

definition fmt_option :: "'a fmt \<Rightarrow> 'a option fmt" where
  "fmt_option p =
     fmt_iso (\<lambda>v. case v of None \<Rightarrow> [] | Some x \<Rightarrow> [x]) (\<lambda>xs. case xs of [] \<Rightarrow> None | x # _ \<Rightarrow> Some x)
       (fmt_list p)"

definition fmt_bool :: "bool fmt" where
  "fmt_bool = fmt_iso (\<lambda>b. if b then 1 else 0) (\<lambda>n. n = 1) fmt_nat"

definition fmt_int :: "int fmt" where
  "fmt_int = fmt_iso (\<lambda>i. (i < 0, nat \<bar>i\<bar>)) (\<lambda>(neg, n). if neg then - int n else int n)
     (fmt_pair fmt_bool fmt_nat)"

abbreviation "fmt_str \<equiv> fmt_list fmt_char"

lemma fmt_nat_ok [simp]: "fmt_ok fmt_nat"
proof -
  have "dec_nat (replicate n 1 @ 0 # r) = Some (n, r)" for n r
    by (induction n) auto
  then show ?thesis by (simp add: fmt_ok_def fmt_nat_def)
qed

lemma fmt_char_ok [simp]: "fmt_ok fmt_char"
  by (simp add: fmt_ok_def fmt_char_def)

lemma fmt_byte_ok [simp]: "fmt_ok fmt_byte"
  by (simp add: fmt_ok_def fmt_byte_def)

lemma fmt_pair_ok [simp]: "fmt_ok p \<Longrightarrow> fmt_ok q \<Longrightarrow> fmt_ok (fmt_pair p q)"
  by (auto simp: fmt_ok_def fmt_pair_def)

lemma fmt_iso_ok: "fmt_ok p \<Longrightarrow> (\<And>x. g (f x) = x) \<Longrightarrow> fmt_ok (fmt_iso f g p)"
  by (auto simp: fmt_ok_def fmt_iso_def)

lemma fmt_list_ok [simp]:
  assumes "fmt_ok p"
  shows "fmt_ok (fmt_list p)"
proof -
  have "dec_list (snd p) n (concat (map (\<lambda>x. 1 # fst p x) xs) @ 0 # r) = Some (xs, r)"
    if "length xs < n" for n xs r
    using that
  proof (induction xs arbitrary: n)
    case Nil
    then show ?case by (cases n) auto
  next
    case (Cons x xs)
    then show ?case using assms by (cases n) (auto simp: fmt_ok_def)
  qed
  moreover have "length xs < Suc (length (concat (map (\<lambda>x. 1 # fst p x) xs) @ 0 # r))" for xs :: "'a list" and r
    by (induction xs) auto
  ultimately show ?thesis by (simp add: fmt_ok_def fmt_list_def del: dec_list.simps)
qed

lemma fmt_option_ok [simp]: "fmt_ok p \<Longrightarrow> fmt_ok (fmt_option p)"
  by (auto simp: fmt_option_def intro!: fmt_iso_ok split: option.split)

lemma fmt_bool_ok [simp]: "fmt_ok fmt_bool"
  by (auto simp: fmt_bool_def intro!: fmt_iso_ok split: if_splits)

lemma fmt_int_ok [simp]: "fmt_ok fmt_int"
  by (auto simp: fmt_int_def intro!: fmt_iso_ok)

definition encode_all :: "'a fmt \<Rightarrow> 'a \<Rightarrow> bytes" where
  "encode_all p x = fst p x"

definition decode_all :: "'a fmt \<Rightarrow> bytes \<Rightarrow> 'a option" where
  "decode_all p b = (case snd p b of Some (x, []) \<Rightarrow> Some x | _ \<Rightarrow> None)"

lemma decode_encode_all [simp]: "fmt_ok p \<Longrightarrow> decode_all p (encode_all p x) = Some x"
  unfolding fmt_ok_def decode_all_def encode_all_def by (metis append_Nil2 list.case(1) option.case(2) prod.case)

section \<open>Formats of the stored types\<close>

definition fmt_hash :: "hash fmt" where
  "fmt_hash = fmt_iso hash_bytes Hash (fmt_list fmt_byte)"

definition fmt_u64 :: "u64 fmt" where
  "fmt_u64 = fmt_iso unat word_of_nat fmt_nat"

definition fmt_original :: "original fmt" where
  "fmt_original =
     fmt_iso (\<lambda>v. (size_bytes v, sha256_hexed v, content_type v))
       (\<lambda>(a, b, c). \<lparr>size_bytes = a, sha256_hexed = b, content_type = c\<rparr>)
       (fmt_pair fmt_nat (fmt_pair fmt_str fmt_str))"

definition fmt_storage :: "storage fmt" where
  "fmt_storage =
     fmt_iso (\<lambda>v. (route v = Image, fidelity v = Perceptual, codec v, codec_params v,
                    stored_size_bytes v, reconstructs_original v))
       (\<lambda>(a, b, c, d, e, f).
          \<lparr>route = (if a then Image else Blob), fidelity = (if b then Perceptual else Exact),
           codec = c, codec_params = d, stored_size_bytes = e, reconstructs_original = f\<rparr>)
       (fmt_pair fmt_bool (fmt_pair fmt_bool (fmt_pair fmt_str (fmt_pair fmt_str
          (fmt_pair fmt_nat fmt_bool)))))"

definition fmt_chunking :: "chunking fmt" where
  "fmt_chunking =
     fmt_iso (\<lambda>v. (algo v, chunks v, merkle_root v))
       (\<lambda>(a, b, c). \<lparr>algo = a, chunks = b, merkle_root = c\<rparr>)
       (fmt_pair (fmt_option fmt_str) (fmt_pair (fmt_list fmt_hash) (fmt_option fmt_hash)))"

definition fmt_quality :: "quality fmt" where
  "fmt_quality =
     fmt_iso (\<lambda>v. (metric v, score v)) (\<lambda>(a, b). \<lparr>metric = a, score = b\<rparr>)
       (fmt_pair (fmt_option fmt_str) (fmt_option fmt_u64))"

definition fmt_manifest :: "manifest fmt" where
  "fmt_manifest =
     fmt_iso (\<lambda>m. (manifest_version m, object_id m, created_at m, original m, storage m,
                    chunking m, quality m, tenant m, policy_snapshot m))
       (\<lambda>(a, b, c, d, e, f, g, h, i).
          \<lparr>manifest_version = a, object_id = b, created_at = c, original = d, storage = e,
           chunking = f, quality = g, tenant = h, policy_snapshot = i\<rparr>)
       (fmt_pair fmt_nat (fmt_pair fmt_hash (fmt_pair fmt_str (fmt_pair fmt_original
          (fmt_pair fmt_storage (fmt_pair fmt_chunking (fmt_pair fmt_quality
          (fmt_pair fmt_str fmt_str))))))))"

definition fmt_config :: "bucket_config fmt" where
  "fmt_config =
     fmt_iso (\<lambda>c. (public_read c, bc_codec c, bc_zstd_level c, bc_fidelity c,
                    route_by_content_type c, max_versions c, expire_after_days c))
       (\<lambda>(a, b, c, d, e, f, g).
          \<lparr>public_read = a, bc_codec = b, bc_zstd_level = c, bc_fidelity = d,
           route_by_content_type = e, max_versions = f, expire_after_days = g\<rparr>)
       (fmt_pair fmt_bool (fmt_pair (fmt_option fmt_str) (fmt_pair (fmt_option fmt_int)
          (fmt_pair (fmt_option fmt_str) (fmt_pair fmt_bool (fmt_pair (fmt_option fmt_nat)
          (fmt_option fmt_nat)))))))"

definition fmt_annotation :: "annotation fmt" where
  "fmt_annotation =
     fmt_iso (\<lambda>a. (tags a, ann_note a, favorite a, locked_until a))
       (\<lambda>(a, b, c, d). \<lparr>tags = a, ann_note = b, favorite = c, locked_until = d\<rparr>)
       (fmt_pair (fmt_list (fmt_pair fmt_str fmt_str)) (fmt_pair fmt_str (fmt_pair fmt_bool
          (fmt_option fmt_str))))"

definition fmt_key :: "stored_key fmt" where
  "fmt_key =
     fmt_iso (\<lambda>k. (sk_access_key k, secret_enc k, sk_secret_key k, sk_read_only k, sk_pots k,
                    sk_created_at k))
       (\<lambda>(a, b, c, d, e, f).
          \<lparr>sk_access_key = a, secret_enc = b, sk_secret_key = c, sk_read_only = d, sk_pots = e,
           sk_created_at = f\<rparr>)
       (fmt_pair fmt_str (fmt_pair (fmt_option fmt_str) (fmt_pair (fmt_option fmt_str)
          (fmt_pair fmt_bool (fmt_pair (fmt_list fmt_str) fmt_str)))))"

definition fmt_hooks :: "webhook list fmt" where
  "fmt_hooks =
     fmt_list (fmt_iso (\<lambda>h. (hook_id h, hook_url h, hook_events h))
       (\<lambda>(a, b, c). \<lparr>hook_id = a, hook_url = b, hook_events = c\<rparr>)
       (fmt_pair fmt_str (fmt_pair fmt_str (fmt_list fmt_str))))"

lemma fmt_types_ok [simp]:
  "fmt_ok fmt_hash" "fmt_ok fmt_u64" "fmt_ok fmt_original" "fmt_ok fmt_storage"
  "fmt_ok fmt_chunking" "fmt_ok fmt_quality" "fmt_ok fmt_manifest" "fmt_ok fmt_config"
  "fmt_ok fmt_annotation" "fmt_ok fmt_key" "fmt_ok fmt_hooks"
proof -
  show h: "fmt_ok fmt_hash" "fmt_ok fmt_u64" "fmt_ok fmt_original"
    by (auto simp: fmt_hash_def fmt_u64_def fmt_original_def intro!: fmt_iso_ok)
  have "(if route v = Image then Image else Blob) = route v"
    "(if fidelity v = Perceptual then Perceptual else Exact) = fidelity v" for v :: storage
    by (cases "route v"; simp) (cases "fidelity v"; simp)
  then show s: "fmt_ok fmt_storage"
    by (auto simp: fmt_storage_def intro!: fmt_iso_ok)
  show c: "fmt_ok fmt_chunking" and q: "fmt_ok fmt_quality"
    using h by (auto simp: fmt_chunking_def fmt_quality_def intro!: fmt_iso_ok)
  show "fmt_ok fmt_manifest"
    using h s c q by (auto simp: fmt_manifest_def intro!: fmt_iso_ok)
  show "fmt_ok fmt_config" "fmt_ok fmt_annotation" "fmt_ok fmt_key" "fmt_ok fmt_hooks"
    by (auto simp: fmt_config_def fmt_annotation_def fmt_key_def fmt_hooks_def
        intro!: fmt_iso_ok fmt_list_ok)
qed

section \<open>The instance\<close>

text \<open>
  The hash: buffers of up to 31 bytes are padded and tagged with their length, so it is injective
  there; longer ones are added up in blocks of 31.
\<close>

definition pad31 :: "bytes \<Rightarrow> bytes" where
  "pad31 b = take 31 (b @ replicate 31 0)"

function mix31 :: "bytes \<Rightarrow> bytes \<Rightarrow> bytes" where
  "mix31 acc b =
     (if length b \<le> 31 then map2 (+) acc (pad31 b)
      else mix31 (map2 (+) acc (take 31 b)) (drop 31 b))"
  by pat_completeness auto
termination
  by (relation "measure (\<lambda>(acc, b). length b)") auto

declare mix31.simps [simp del]

definition checksum :: "bytes \<Rightarrow> bytes" where
  "checksum b = mix31 (replicate 31 0) b @ [word_of_nat (length b)]"

lemma length_mix31: "length acc = 31 \<Longrightarrow> length (mix31 acc b) = 31"
proof (induction acc b rule: mix31.induct)
  case (1 acc b)
  show ?case
  proof (cases "length b \<le> 31")
    case True
    then show ?thesis using "1.prems" by (subst mix31.simps) (simp add: pad31_def)
  next
    case False
    then have "length (map2 (+) acc (take 31 b)) = 31" using "1.prems" by simp
    from "1.IH" [OF False this] False show ?thesis by (subst mix31.simps) simp
  qed
qed

lemma length_checksum [simp]: "length (checksum b) = 32"
  by (simp add: checksum_def length_mix31)

lemma map2_zeros: "length b = n \<Longrightarrow> map2 (+) (replicate n 0) b = (b :: bytes)"
  by (induction b arbitrary: n) auto

lemma checksum_short: "length b \<le> 31 \<Longrightarrow> checksum b = pad31 b @ [word_of_nat (length b)]"
  by (simp add: checksum_def mix31.simps [of "replicate 31 0" b] map2_zeros pad31_def)

lemma checksum_inj: "inj_on checksum {b. length b \<le> 31}"
proof (rule inj_onI)
  fix a b
  assume ab: "a \<in> {b. length b \<le> 31}" "b \<in> {b. length b \<le> 31}" "checksum a = checksum b"
  then have eq: "pad31 a = pad31 b" "(word_of_nat (length a) :: u8) = word_of_nat (length b)"
    by (auto simp: checksum_short)
  have small: "unat (word_of_nat n :: u8) = n" if "n \<le> 31" for n
    using that by (simp add: unat_of_nat take_bit_eq_mod)
  have "length a = unat (word_of_nat (length a) :: u8)" using small [of "length a"] ab(1) by simp
  also have "\<dots> = unat (word_of_nat (length b) :: u8)" by (simp only: eq(2))
  also have "\<dots> = length b" using small [of "length b"] ab(2) by simp
  finally have "length a = length b" .
  moreover have "take (length a) (pad31 a) = a" "take (length b) (pad31 b) = b"
    using ab by (simp_all add: pad31_def)
  ultimately show "a = b" using eq(1) by metis
qed

definition nibble_char :: "nat \<Rightarrow> char" where
  "nibble_char n = hex_digits ! n"

definition demo_hex :: "bytes \<Rightarrow> string" where
  "demo_hex b = concat (map (\<lambda>x. [nibble_char (unat x div 16), nibble_char (unat x mod 16)]) b)"

definition nibble_val :: "char \<Rightarrow> nat option" where
  "nibble_val c =
     (let n = of_char c :: nat in
      if 48 \<le> n \<and> n \<le> 57 then Some (n - 48)
      else if 97 \<le> n \<and> n \<le> 102 then Some (n - 87)
      else if 65 \<le> n \<and> n \<le> 70 then Some (n - 55) else None)"

fun demo_unhex :: "string \<Rightarrow> bytes option" where
  "demo_unhex [] = Some []"
| "demo_unhex [c] = None"
| "demo_unhex (c # d # s) =
     (case (nibble_val c, nibble_val d, demo_unhex s) of
        (Some a, Some b, Some r) \<Rightarrow> Some (word_of_nat (16 * a + b) # r)
      | _ \<Rightarrow> None)"

fun demo_cuts :: "nat \<Rightarrow> nat \<Rightarrow> nat \<Rightarrow> (nat \<times> nat) list" where
  "demo_cuts 0 off n = []"
| "demo_cuts (Suc k) off n = (if n = 0 then [] else (off, min 4 n) # demo_cuts k (off + 4) (n - 4))"

definition demo_unzstd :: "bytes \<Rightarrow> io_error + bytes" where
  "demo_unzstd b = (case b of [] \<Rightarrow> Inl InvalidData | x # r \<Rightarrow> if x = 40 then Inr r else Inl InvalidData)"

definition demo_open :: "bytes \<Rightarrow> bytes \<Rightarrow> bytes \<Rightarrow> bytes option" where
  "demo_open k n c = (if take 32 c = checksum (k @ n) then Some (drop 32 c) else None)"

definition demo :: ext where
  "demo =
     \<lparr>blake3 = checksum, sha256 = checksum, hmac_sha256 = (\<lambda>k m. checksum (k @ 0 # m)),
      hex_encode = demo_hex, hex_decode = demo_unhex,
      zstd_encode = (\<lambda>l b. Inr (40 # b)), zstd_decode = demo_unzstd,
      fastcdc = (\<lambda>mn av mx b. demo_cuts (length b) 0 (length b)),
      streamcdc = (\<lambda>mn av mx r.
        map Inr (slices (rd_bytes r) (demo_cuts (length (rd_bytes r)) 0 (length (rd_bytes r))))
        @ (case rd_error r of None \<Rightarrow> [] | Some e \<Rightarrow> [Inl e])),
      gcm_encrypt = (\<lambda>k n b. Some (checksum (k @ n) @ b)), gcm_decrypt = demo_open,
      manifest_to_json = encode_all fmt_manifest, manifest_of_json = decode_all fmt_manifest,
      manifest_body = (\<lambda>m. encode_all fmt_manifest (m\<lparr>object_id := Hash []\<rparr>)),
      float_exact = (\<lambda>s. drop_bit 52 s AND 0x7FF \<noteq> 0x7FF), value_exact = (\<lambda>_. True),
      config_to_json = encode_all fmt_config, config_of_json = decode_all fmt_config,
      annotation_to_json = encode_all fmt_annotation, annotation_of_json = decode_all fmt_annotation,
      key_to_json = encode_all fmt_key, key_of_json = decode_all fmt_key,
      hooks_to_json = encode_all fmt_hooks, hooks_of_json = decode_all fmt_hooks,
      locations_to_json = encode_all (fmt_list (fmt_pair fmt_str fmt_str)),
      locations_of_json = decode_all (fmt_list (fmt_pair fmt_str fmt_str)),
      condemned_to_json = encode_all (fmt_list (fmt_pair fmt_hash fmt_nat)),
      condemned_of_json = decode_all (fmt_list (fmt_pair fmt_hash fmt_nat)),
      stamp_to_json = encode_all fmt_nat, stamp_of_json = decode_all fmt_nat,
      format_rfc3339 = show_nat,
      parse_rfc3339 = (\<lambda>s. map_option int (parse_digits u64_max s))\<rparr>"

section \<open>The laws hold\<close>

lemma demo_simps:
  "blake3 demo = checksum" "sha256 demo = checksum" "hex_encode demo = demo_hex"
  "hex_decode demo = demo_unhex" "zstd_encode demo l b = Inr (40 # b)" "zstd_decode demo = demo_unzstd"
  "fastcdc demo mn av mx b = demo_cuts (length b) 0 (length b)"
  "manifest_to_json demo = encode_all fmt_manifest" "manifest_of_json demo = decode_all fmt_manifest"
  "manifest_body demo m = encode_all fmt_manifest (m\<lparr>object_id := Hash []\<rparr>)"
  "format_rfc3339 demo = show_nat" "parse_rfc3339 demo s = map_option int (parse_digits u64_max s)"
  by (simp_all add: demo_def)

lemma demo_inj: "inj_on (blake3 demo) {b. length b \<le> 31}"
  by (simp add: demo_simps checksum_inj)

lemma demo_hash_ok [simp]: "hash_ok demo"
  by (simp add: hash_ok_def demo_def)

lemma nibble_char_cases:
  "n < 16 \<Longrightarrow> nibble_val (nibble_char n) = Some n \<and> nibble_char n \<in> set hex_digits"
proof -
  assume "n < 16"
  then have "n \<in> {0, 1, 2, 3, 4, 5, 6, 7, 8, 9, 10, 11, 12, 13, 14, 15}"
    unfolding insert_iff empty_iff by presburger
  then show ?thesis
    unfolding nibble_char_def hex_digits_def by (elim insertE emptyE) (simp_all add: nibble_val_def)
qed

lemma demo_hex_ok [simp]: "hex_ok demo"
proof -
  have byte: "unat x div 16 < 16" "unat x mod 16 < 16" for x :: u8
    using unsigned_less [of x, where ?'a = nat] by auto
  have "demo_unhex (demo_hex b) = Some b" for b
    by (induction b) (auto simp: demo_hex_def nibble_char_cases byte)
  moreover have "length (demo_hex b) = 2 * length b" for b
    by (induction b) (auto simp: demo_hex_def)
  moreover have "set (demo_hex b) \<subseteq> set hex_digits" for b
    by (auto simp: demo_hex_def nibble_char_cases byte)
  ultimately show ?thesis by (simp add: hex_ok_def demo_def)
qed

lemma demo_zstd_ok [simp]: "zstd_ok demo"
  by (simp add: zstd_ok_def demo_def demo_unzstd_def)

lemma demo_cuts_props:
  "n \<le> k \<Longrightarrow> off + n = length b \<Longrightarrow>
     concat (slices b (demo_cuts k off n)) = drop off b \<and>
     (\<forall>(o', l) \<in> set (demo_cuts k off n). 0 < l \<and> o' + l \<le> length b)"
proof (induction k off n rule: demo_cuts.induct)
  case (2 k off n)
  show ?case
  proof (cases "n \<le> 4")
    case True
    with "2.prems" show ?thesis by (cases k) (auto simp: slices_def)
  next
    case False
    with "2.prems" have "n - 4 \<le> k" "off + 4 + (n - 4) = length b" by auto
    with "2.IH" False have IH: "concat (slices b (demo_cuts k (off + 4) (n - 4))) = drop (off + 4) b"
      "\<forall>(o', l) \<in> set (demo_cuts k (off + 4) (n - 4)). 0 < l \<and> o' + l \<le> length b" by auto
    have "take 4 (drop off b) @ drop (off + 4) b = drop off b"
      by (metis append_take_drop_id drop_drop add.commute)
    with IH False "2.prems" show ?thesis by (auto simp: slices_def min_def)
  qed
qed (auto simp: slices_def)

lemma demo_cdc_ok [simp]: "cdc_ok demo"
proof -
  have "concat (slices b (demo_cuts (length b) 0 (length b))) = b \<and>
     (\<forall>(o', l) \<in> set (demo_cuts (length b) 0 (length b)). 0 < l \<and> o' + l \<le> length b)" for b
    using demo_cuts_props [of "length b" "length b" 0 b] by simp
  then show ?thesis by (auto simp: cdc_ok_def demo_def)
qed

lemma demo_gcm_ok [simp]: "gcm_ok demo"
proof -
  have "length (checksum b) = 32" for b by simp
  moreover from this have "checksum b \<noteq> []" for b by (metis list.size(3) zero_neq_numeral)
  ultimately show ?thesis by (simp add: gcm_ok_def demo_def demo_open_def)
qed

lemma demo_json_ok [simp]: "json_ok demo"
proof -
  have "m\<lparr>object_id := object_id n\<rparr> = n"
    if "encode_all fmt_manifest (m\<lparr>object_id := Hash []\<rparr>) = encode_all fmt_manifest (n\<lparr>object_id := Hash []\<rparr>)"
    for m n :: manifest
  proof -
    from that have "Some (m\<lparr>object_id := Hash []\<rparr>) = Some (n\<lparr>object_id := Hash []\<rparr>)"
      by (metis decode_encode_all fmt_types_ok(7))
    then have "m\<lparr>object_id := Hash []\<rparr>\<lparr>object_id := object_id n\<rparr> = n\<lparr>object_id := Hash []\<rparr>\<lparr>object_id := object_id n\<rparr>"
      by (metis option.inject)
    then show ?thesis by simp
  qed
  then show ?thesis by (auto simp: json_ok_def demo_def)
qed

end
