(* ===== verification/Core_Props.thy ===== *)
theory Core_Props
  imports Merkle Demo_Ext
begin

text \<open>
  Properties of \<open>barme-core\<close>: content addresses and Merkle proofs, with their witnesses on the
  concrete instance \<open>demo\<close>.
\<close>

section \<open>Helpers\<close>

definition demo_hash :: "u8 \<Rightarrow> hash" where
  "demo_hash n = Hash (n # replicate 31 0)"

lemma hash_wf_demo_hash [simp]: "hash_wf (demo_hash n)"
  by (simp add: hash_wf_def demo_hash_def)

lemma root_nonempty: "cs \<noteq> [] \<Longrightarrow> root X cs = hash_of X (top_buf X (merkle_tree cs))"
  using merkle_tree_props(1) [of cs X] by (simp add: tree_hash_top)

lemma inj_on_set_list: "distinct (map f xs) \<Longrightarrow> set xs = S \<Longrightarrow> inj_on f S"
  by (metis distinct_map)

lemma replicate_unroll: "replicate (numeral k) x = x # replicate (pred_numeral k) x"
  by (simp add: numeral_eq_Suc)

text \<open>Evaluation of Merkle trees on \<open>demo\<close>.\<close>

lemmas merkle_shape = root_inputs_def verify_inputs_def step_buf_def collapse_inputs.simps root_def collapse.simps
lemmas merkle_bufs = leaf_def node_def hash_of_def demo_simps leaf_buf_def node_buf_def demo_hash_def
  LEAF_def NODE_def EMPTY_def checksum_def mix31.simps pad31_def replicate_unroll

lemma top_buf_not_empty: "top_buf X t \<noteq> [EMPTY]"
  by (cases t) (auto simp: leaf_buf_def node_buf_def LEAF_def NODE_def EMPTY_def)

section \<open>Content addresses\<close>

text \<open>
  The text form of an address is read back exactly: what \<open>Display\<close> prints, \<open>FromStr\<close>
  parses to the same address, and the parser accepts nothing but the \<open>blake3:\<close> prefix followed
  by the hex of 32 bytes.
\<close>

theorem hash_text_round_trip:
  assumes "hex_ok X" "hash_wf h"
  shows "parse_hash X (show_hash X h) = Inr h \<and>
     (\<forall>s g. parse_hash X s = Inr g \<longleftrightarrow>
        (\<exists>d. s = ''blake3:'' @ d \<and> hex_decode X d = Some (hash_bytes g) \<and> hash_wf g))"
proof (intro conjI allI)
  show "parse_hash X (show_hash X h) = Inr h" using assms by (rule parse_show_hash)
  fix s g
  show "parse_hash X s = Inr g \<longleftrightarrow>
        (\<exists>d. s = ''blake3:'' @ d \<and> hex_decode X d = Some (hash_bytes g) \<and> hash_wf g)"
  proof
    assume p: "parse_hash X s = Inr g"
    then obtain a d where s: "split_once CHR '':'' s = Some (a, d)" "a = ''blake3''"
      "hex_decode X d = Some (hash_bytes g)" "hash_wf g"
      by (auto simp: parse_hash_def hash_wf_def split: option.splits if_splits prod.splits)
    from split_once_Some [OF s(1)] s show "\<exists>d. s = ''blake3:'' @ d \<and> hex_decode X d = Some (hash_bytes g) \<and> hash_wf g"
      by auto
  next
    assume "\<exists>d. s = ''blake3:'' @ d \<and> hex_decode X d = Some (hash_bytes g) \<and> hash_wf g"
    then obtain d where "s = ''blake3:'' @ d" "hex_decode X d = Some (hash_bytes g)" "hash_wf g" by blast
    then show "parse_hash X s = Inr g" by (simp only: parse_hash_prefixed) (simp add: hash_wf_def)
  qed
qed

theorem hash_text_round_trip_witness:
  "parse_hash demo (show_hash demo (demo_hash 7)) = Inr (demo_hash 7)"
  using hash_text_round_trip [of demo "demo_hash 7"] by simp

section \<open>Merkle proofs\<close>

text \<open>
  Every chunk of an object has an inclusion proof that verifies against the object's root,
  names its position and the chunk count, and is at most logarithmic in that count.
\<close>

theorem merkle_proof_complete:
  assumes "i < length cs" "length cs \<le> 2 ^ k"
  shows "\<exists>p. prove X cs i = Some p \<and> index p = i \<and> total p = length cs \<and>
     verify X (root X cs) (cs ! i) p \<and> length (steps p) \<le> k"
  using prove_verify [OF assms(1), of X] length_climb [of "map (leaf X) cs" k X i] assms
  by (auto simp: prove_def)

theorem merkle_proof_complete_witness:
  "\<exists>p. prove demo [demo_hash 1, demo_hash 2, demo_hash 3] 2 = Some p \<and>
     verify demo (root demo [demo_hash 1, demo_hash 2, demo_hash 3]) (demo_hash 3) p \<and> length (steps p) \<le> 2"
  using merkle_proof_complete [of 2 "[demo_hash 1, demo_hash 2, demo_hash 3]" 2 demo] by auto

text \<open>
  C33: a proof that verifies against the root of a chunk list is for a chunk of that list, whatever
  the path says, unless two of the buffers hashed for the root or the proof collide.
\<close>

theorem merkle_proof_sound:
  assumes "hash_ok X" "cs \<noteq> []" "hash_wf c" "steps_wf (steps p)"
    and "inj_on (blake3 X) (set (root_inputs X cs) \<union> set (verify_inputs X c p))"
    and "verify X (root X cs) c p"
  shows "c \<in> set cs"
  using assms by (rule verify_sound)

definition demo_proof :: proof_path where
  "demo_proof =
     \<lparr>index = 0, total = 2, steps = [\<lparr>step_side = Right, step_hash = leaf demo (demo_hash 2)\<rparr>]\<rparr>"

theorem merkle_proof_sound_witness: "demo_hash 1 \<in> set [demo_hash 1, demo_hash 2]"
proof (rule merkle_proof_sound [of demo _ _ demo_proof])
  show "inj_on (blake3 demo) (set (root_inputs demo [demo_hash 1, demo_hash 2]) \<union>
      set (verify_inputs demo (demo_hash 1) demo_proof))"
  proof (rule inj_on_set_list)
    show "distinct (map (blake3 demo) (root_inputs demo [demo_hash 1, demo_hash 2]))"
      by (simp add: merkle_shape) (simp add: merkle_bufs)
  qed (simp add: merkle_shape demo_proof_def insert_commute insert_absorb2)
  show "verify demo (root demo [demo_hash 1, demo_hash 2]) (demo_hash 1) demo_proof"
    by (simp add: merkle_shape demo_proof_def Merkle.verify_def)
qed (simp_all add: demo_proof_def steps_wf_def leaf_def)

text \<open>
  The Merkle root commits to the whole ordered chunk list: two lists (empty ones included)
  with the same root are the same list, unless two of the hashed buffers collide.
\<close>

theorem merkle_root_commits:
  assumes "hash_ok X"
    and "inj_on (blake3 X) (insert [EMPTY] (set (root_inputs X cs) \<union> set (root_inputs X ds)))"
    and "root X cs = root X ds"
  shows "cs = ds"
proof -
  have no: "root X cs \<noteq> hash_of X [EMPTY]"
    if "cs \<noteq> []" "inj_on (blake3 X) (insert [EMPTY] (set (root_inputs X cs)))" for cs
  proof
    assume "root X cs = hash_of X [EMPTY]"
    then have "blake3 X (top_buf X (merkle_tree cs)) = blake3 X [EMPTY]" using that(1) by (simp add: root_nonempty)
    from inj_onD [OF that(2) this] show False
      using top_buf_not_empty [of X "merkle_tree cs"] top_buf_in [of X "merkle_tree cs"]
      by (auto simp: set_root_inputs [OF that(1)])
  qed
  have sub: "inj_on (blake3 X) (insert [EMPTY] (set (root_inputs X cs)))"
    "inj_on (blake3 X) (insert [EMPTY] (set (root_inputs X ds)))"
    "inj_on (blake3 X) (set (root_inputs X cs) \<union> set (root_inputs X ds))"
    by (rule inj_on_subset [OF assms(2)]; auto)+
  show ?thesis
  proof (cases "cs = [] \<or> ds = []")
    case True
    have "root X [] = hash_of X [EMPTY]" by (simp add: root_def)
    then show ?thesis using True no [OF _ sub(1)] no [OF _ sub(2)] assms(3) by metis
  next
    case False
    then show ?thesis using root_injective [OF assms(1) _ _ sub(3) assms(3)] by blast
  qed
qed

theorem merkle_root_commits_witness:
  "root demo [demo_hash 1, demo_hash 2] \<noteq> root demo [demo_hash 2, demo_hash 1]"
proof -
  have inj: "inj_on (blake3 demo) (insert [EMPTY] (set (root_inputs demo [demo_hash 1, demo_hash 2]) \<union>
      set (root_inputs demo [demo_hash 2, demo_hash 1])))"
  proof (rule inj_on_set_list)
    show "distinct (map (blake3 demo) ([EMPTY] # root_inputs demo [demo_hash 1, demo_hash 2] @
        [node_buf (leaf demo (demo_hash 2)) (leaf demo (demo_hash 1))]))"
      by (simp add: merkle_shape) (simp add: merkle_bufs)
  qed (simp add: merkle_shape insert_commute)
  have "[demo_hash 1, demo_hash 2] \<noteq> [demo_hash 2, demo_hash 1]" by (simp add: demo_hash_def)
  with merkle_root_commits [OF demo_hash_ok inj] show ?thesis by blast
qed

end
