(* ===== verification/Codec.thy ===== *)
theory Codec
  imports Hashes
begin

text \<open>
  Compression (\<open>barme-codec\<close>) and content-defined chunking (\<open>barme-chunk\<close>). A \<open>Box<dyn Codec>\<close>
  is a value of \<open>codec_impl\<close>: the identity codec, or zstd at a level. The locale \<open>reversible\<close> is
  the contract the engine relies on when it encodes with a policy's codec and decodes with the
  one named in the manifest.
\<close>

section \<open>Codecs\<close>

datatype codec_impl = Raw | Zstd int

definition zstd_default :: codec_impl where
  "zstd_default = Zstd 0"

definition codec_id :: "codec_impl \<Rightarrow> string" where
  "codec_id c = (case c of Raw \<Rightarrow> ''none'' | Zstd l \<Rightarrow> ''zstd'')"

definition codec_encode :: "ext \<Rightarrow> codec_impl \<Rightarrow> bytes \<Rightarrow> codec_error + bytes" where
  "codec_encode X c b = (case c of Raw \<Rightarrow> Inr b | Zstd l \<Rightarrow> map_err CodecIo (zstd_encode X l b))"

definition codec_decode :: "ext \<Rightarrow> codec_impl \<Rightarrow> bytes \<Rightarrow> codec_error + bytes" where
  "codec_decode X c b = (case c of Raw \<Rightarrow> Inr b | Zstd l \<Rightarrow> map_err CodecIo (zstd_decode X b))"

definition decoder_for :: "string \<Rightarrow> codec_error + codec_impl" where
  "decoder_for name =
     (if name = ''none'' then Inr Raw
      else if name = ''zstd'' then Inr zstd_default
      else Inl (UnknownCodec name))"

text \<open>
  What the read path needs: the decoder chosen by the recorded name reverses the encoder that
  wrote the bytes, whatever its level.
\<close>

locale reversible =
  fixes enc :: "'c \<Rightarrow> 'a \<Rightarrow> 'e + 'b"
    and dec :: "'c \<Rightarrow> 'b \<Rightarrow> 'e + 'a"
    and name :: "'c \<Rightarrow> 'n"
    and lookup :: "'n \<Rightarrow> 'e + 'c"
    and good_codec :: "'c \<Rightarrow> bool"
  assumes known: "good_codec c \<Longrightarrow> \<exists>c'. lookup (name c) = Inr c'"
    and reverses: "good_codec c \<Longrightarrow> lookup (name c) = Inr c' \<Longrightarrow> enc c x = Inr y \<Longrightarrow> dec c' y = Inr x"
begin

text \<open>\<open>read (write x) = x\<close> over the recorded name, for one buffer and for a list of them.\<close>

lemma round_trip:
  assumes "good_codec c" "enc c x = Inr y"
  shows "try_then (lookup (name c)) (\<lambda>c'. dec c' y) = Inr x"
  using known [OF assms(1)] reverses [OF assms(1) _ assms(2)] by auto

lemma round_trip_list:
  assumes "good_codec c" "try_map (enc c) xs = Inr ys"
  shows "try_then (lookup (name c)) (\<lambda>c'. try_map (dec c') ys) = Inr xs"
proof -
  from known [OF assms(1)] obtain c' where c': "lookup (name c) = Inr c'" by blast
  from assms(2) have "list_all2 (\<lambda>x y. enc c x = Inr y) xs ys" by (simp add: try_map_Inr_iff)
  then have "list_all2 (\<lambda>y x. dec c' y = Inr x) ys xs"
    using reverses [OF assms(1) c'] by (induction xs ys rule: list_all2_induct) auto
  then show ?thesis by (simp add: c' try_map_Inr_iff)
qed

lemma encode_injective: "good_codec c \<Longrightarrow> enc c x = Inr z \<Longrightarrow> enc c y = Inr z \<Longrightarrow> x = y"
  using known reverses by (metis sum.inject(2))

end

interpretation codec: reversible "codec_encode X" "codec_decode X" codec_id decoder_for "\<lambda>_. zstd_ok X" for X
  by unfold_locales
    (auto simp: codec_id_def decoder_for_def zstd_default_def codec_encode_def codec_decode_def zstd_ok_def
      split: codec_impl.splits)

section \<open>Chunking\<close>

definition MIN_CHUNK :: nat where "MIN_CHUNK = 16 * 1024"
definition AVG_CHUNK :: nat where "AVG_CHUNK = 64 * 1024"
definition MAX_CHUNK :: nat where "MAX_CHUNK = 256 * 1024"

definition chunk_split :: "ext \<Rightarrow> bytes \<Rightarrow> (hash \<times> bytes) list" where
  "chunk_split X b =
     map (\<lambda>s. (hash_of X s, s)) (slices b (fastcdc X MIN_CHUNK AVG_CHUNK MAX_CHUNK b))"

definition chunk_stream :: "ext \<Rightarrow> reader \<Rightarrow> (io_error + hash \<times> bytes) list" where
  "chunk_stream X r =
     map (\<lambda>i. case i of Inr s \<Rightarrow> Inr (hash_of X s, s) | Inl e \<Rightarrow> Inl (OtherIo ''chunker''))
       (streamcdc X MIN_CHUNK AVG_CHUNK MAX_CHUNK r)"

lemma chunk_split_concat:
  assumes "cdc_ok X"
  shows "concat (map snd (chunk_split X b)) = b" "(h, s) \<in> set (chunk_split X b) \<Longrightarrow> h = hash_of X s"
  using assms by (auto simp: chunk_split_def cdc_ok_def comp_def)

text \<open>No piece is empty, and every byte belongs to one piece.\<close>

lemma chunk_split_nonempty:
  assumes "cdc_ok X" "s \<in> set (map snd (chunk_split X b))"
  shows "s \<noteq> []"
  using assms by (fastforce simp: chunk_split_def cdc_ok_def slices_def)

lemma chunk_stream_ok:
  assumes "cdc_ok X" "rd_error r = None"
  shows "chunk_stream X r = map Inr (chunk_split X (rd_bytes r))"
proof -
  have "r = \<lparr>rd_bytes = rd_bytes r, rd_error = None\<rparr>" using assms(2) by simp
  then have "streamcdc X MIN_CHUNK AVG_CHUNK MAX_CHUNK r =
      map Inr (slices (rd_bytes r) (fastcdc X MIN_CHUNK AVG_CHUNK MAX_CHUNK (rd_bytes r)))"
    using assms(1) unfolding cdc_ok_def by metis
  then show ?thesis by (simp add: chunk_stream_def chunk_split_def comp_def)
qed

end
