(* ===== verification/Layout.thy ===== *)
theory Layout
  imports Fs
begin

text \<open>
  The layout of the data directory and an abstract view of it. Every path of the store is one of
  a few shapes (\<open>chunks/ab/abcd..\<close>, \<open>pointers/<pot>/<key>\<close>, \<open>meta/<pot>.json\<close>, ..), and the shape
  fixes whether a file or a directory lives there. On a disk that respects the layout the file
  system is just a map from good paths to bytes: \<open>contents\<close>. The lemmas at the end are that
  refinement: every file operation of the stores commutes with \<open>contents\<close>, succeeds exactly when
  the map says so, and keeps the disk well-formed.
\<close>

section \<open>Shapes\<close>

definition CONDEMNED :: string where "CONDEMNED = ''.condemned''"
definition FORMAT_FILE :: string where "FORMAT_FILE = ''format.json''"

abbreviation "chunk_dir \<equiv> ''chunks''"
abbreviation "manifest_dir \<equiv> ''manifests''"
abbreviation "pointer_dir \<equiv> ''pointers''"
abbreviation "reverse_dir \<equiv> ''reverse''"
abbreviation "meta_dir \<equiv> ''meta''"
abbreviation "key_dir \<equiv> ''keys''"
abbreviation "annotation_dir \<equiv> ''annotations''"
abbreviation "webhook_dir \<equiv> ''webhooks''"

definition nested_dirs :: "string list" where
  "nested_dirs = [chunk_dir, manifest_dir, pointer_dir, reverse_dir]"

definition flat_dirs :: "string list" where
  "flat_dirs = [meta_dir, key_dir, annotation_dir, webhook_dir]"

text \<open>Next to the shard directories: the condemned set and, while it is written, its temporary file.\<close>

definition hidden_name :: "string \<Rightarrow> string \<Rightarrow> bool" where
  "hidden_name t s \<longleftrightarrow> t = chunk_dir \<and> take 1 s = ''.''"

text \<open>\<open>Some True\<close> is a directory, \<open>Some False\<close> a file, \<open>None\<close> a path the store never uses.\<close>

fun shape :: "path \<Rightarrow> bool option" where
  "shape [t] =
     (if t \<in> set nested_dirs \<union> set flat_dirs then Some True
      else if t = FORMAT_FILE then Some False else None)"
| "shape [t, s] =
     (if t \<in> set flat_dirs then Some False
      else if t \<in> set nested_dirs then Some (\<not> hidden_name t s) else None)"
| "shape [t, s, f] = (if t \<in> set nested_dirs \<and> \<not> hidden_name t s then Some False else None)"
| "shape _ = None"

definition governed :: "path \<Rightarrow> bool" where
  "governed p \<longleftrightarrow>
     p \<noteq> [] \<and> (hd p \<in> set nested_dirs \<or> hd p \<in> set flat_dirs \<or> hd p = FORMAT_FILE)"

definition layout :: "fs \<Rightarrow> bool" where
  "layout d \<longleftrightarrow>
     (\<forall>(p, n) \<in> set d. name_error p = None \<and> (governed p \<longrightarrow> shape p = Some (n = Dir)))"

definition disk_ok :: "fs \<Rightarrow> bool" where
  "disk_ok d \<longleftrightarrow> fs_ok d \<and> layout d"

definition good :: "path \<Rightarrow> bool" where
  "good p \<longleftrightarrow> shape p = Some False \<and> [] \<notin> set p \<and> name_error p = None"

definition contents :: "fs \<Rightarrow> path \<Rightarrow> bytes option" where
  "contents d p = (case fs_lookup d p of Some (File b) \<Rightarrow> Some b | _ \<Rightarrow> None)"

lemma shape_governed: "shape p = Some k \<Longrightarrow> governed p"
  by (cases p rule: shape.cases) (auto simp: governed_def split: if_splits)

lemma flat_not_nested: "t \<in> set flat_dirs \<Longrightarrow> t \<notin> set nested_dirs"
  "t \<in> set nested_dirs \<Longrightarrow> t \<notin> set flat_dirs" "FORMAT_FILE \<notin> set flat_dirs" "FORMAT_FILE \<notin> set nested_dirs"
  by (auto simp: flat_dirs_def nested_dirs_def FORMAT_FILE_def)

lemma shape_above:
  assumes "shape p = Some k" "strict_prefix r p" "r \<noteq> []"
  shows "shape r = Some True"
  using assms flat_not_nested
  by (cases p rule: shape.cases; cases r rule: shape.cases)
    (auto simp: strict_prefix_def hidden_name_def prefix_Cons split: if_splits)

lemma shape_file_prefix: "shape p = Some False \<Longrightarrow> shape q = Some k \<Longrightarrow> prefix p q \<Longrightarrow> q = p"
  using shape_above [of q k p] by (cases "p = []") (auto simp: strict_prefix_def)

lemma good_apart: "good p \<Longrightarrow> good q \<Longrightarrow> p \<noteq> q \<Longrightarrow> apart p q"
  unfolding good_def apart_def using shape_file_prefix by metis

lemma good_plain: "good p \<Longrightarrow> plain p" "good p \<Longrightarrow> p \<noteq> []"
  by (cases p rule: rev_cases; auto simp: good_def plain_def)+

lemma governed_prefix: "governed p \<Longrightarrow> prefix q p \<Longrightarrow> q \<noteq> [] \<Longrightarrow> governed q"
  by (auto simp: governed_def prefix_def)

lemma disk_ok_lookup:
  assumes "disk_ok d" "governed p" "fs_lookup d p = Some n"
  shows "shape p = Some (n = Dir)"
  using assms fs_ok_lookup [of d p n] unfolding disk_ok_def layout_def governed_def by auto

lemma disk_ok_shape:
  assumes "disk_ok d" "shape p = Some k" "fs_lookup d p = Some n"
  shows "k = (n = Dir)"
  using disk_ok_lookup [OF assms(1) shape_governed [OF assms(2)] assms(3)] assms(2) by auto

lemma is_file_at_iff: "is_file_at d r \<longleftrightarrow> (\<exists>b. fs_lookup d r = Some (File b))"
  by (simp add: is_file_at_def split: option.split fs_node.split)

lemma disk_ok_not_above:
  assumes "disk_ok d" "shape p = Some k"
  shows "\<not> file_above d p"
proof
  assume "file_above d p"
  then obtain r b where r: "strict_prefix r p" "fs_lookup d r = Some (File b)"
    by (auto simp: file_above_iff is_file_at_iff)
  then have "r \<noteq> []" by auto
  from disk_ok_shape [OF assms(1) shape_above [OF assms(2) r(1) this] r(2)] show False by simp
qed

lemma disk_ok_file:
  assumes "disk_ok d" "good p"
  shows "fs_lookup d p \<noteq> Some Dir" "fs_lookup d p = map_option File (contents d p)"
  using disk_ok_shape [OF assms(1), of p False] assms(2)
  by (auto simp: good_def contents_def split: option.split fs_node.split)

section \<open>Each operation on the map of contents\<close>

lemma read_good:
  assumes "disk_ok d" "good p"
  shows "fs_read d p = ok_or NotFound (contents d p)"
proof -
  have "\<not> file_above d p" using assms disk_ok_not_above by (auto simp: good_def)
  with assms disk_ok_file [OF assms] show ?thesis
    by (auto simp: fs_read_def resolve_plain good_plain good_def ok_or_def split: option.split)
qed

lemma exists_good:
  assumes "disk_ok d" "good p"
  shows "fs_exists d p \<longleftrightarrow> contents d p \<noteq> None"
proof -
  have "\<not> file_above d p" using assms disk_ok_not_above by (auto simp: good_def)
  with assms disk_ok_file [OF assms] show ?thesis
    by (auto simp: fs_exists_def resolve_plain good_plain good_def split: option.split)
qed

lemma layout_update:
  assumes "layout d" "name_error p = None" "governed p \<Longrightarrow> shape p = Some (n = Dir)"
  shows "layout (AList.update p n d)"
  unfolding layout_def
proof
  fix e assume e: "e \<in> set (AList.update p n d)"
  show "case e of (q, m) \<Rightarrow> name_error q = None \<and> (governed q \<longrightarrow> shape q = Some (m = Dir))"
  proof (cases "e = (p, n)")
    case True
    then show ?thesis using assms(2,3) by auto
  next
    case False
    have "set (AList.update p n d) \<subseteq> insert (p, n) (set d)"
      by (induction d) auto
    with e False have "e \<in> set d" by auto
    with assms(1) show ?thesis by (auto simp: layout_def)
  qed
qed

lemma name_error_prefix: "name_error p = None \<Longrightarrow> prefix q p \<Longrightarrow> name_error q = None"
  using set_mono_prefix [of q p] by (auto simp: name_error_def split: if_splits)

lemma layout_add_dirs:
  "layout d \<Longrightarrow>
     (\<And>q. q \<in> set ps \<Longrightarrow> q \<noteq> [] \<Longrightarrow> name_error q = None \<and> (governed q \<longrightarrow> shape q = Some True)) \<Longrightarrow>
     layout (add_dirs ps d)"
proof (induction ps arbitrary: d)
  case (Cons p ps)
  show ?case
  proof (cases "fs_lookup d p = None")
    case True
    then have "p \<noteq> []" by auto
    with Cons.prems True show ?thesis by (auto intro!: Cons.IH layout_update)
  next
    case False
    then have "add_dirs (p # ps) d = add_dirs ps d" by auto
    with Cons show ?thesis by simp
  qed
qed simp

text \<open>A write to a good path always goes through, and only that path changes.\<close>

definition put_file :: "path \<Rightarrow> bytes \<Rightarrow> fs \<Rightarrow> fs" where
  "put_file p b d = AList.update p (File b) (add_dirs (parents p) d)"

lemma write_good:
  assumes "disk_ok d" "good p"
  shows "write_atomic p b d = (Inr (), put_file p b d)"
  unfolding put_file_def
  by (rule write_atomic_succeeds)
    (use assms disk_ok_not_above disk_ok_file good_plain in \<open>auto simp: good_def\<close>)

lemma contents_put_file:
  assumes "good p"
  shows "contents (put_file p b d) q = (if q = p then Some b else contents d q)"
  using good_plain [OF assms] by (simp add: contents_def put_file_def fs_lookup_add_dirs)

lemma disk_ok_put_file:
  assumes ok: "disk_ok d" and p: "good p"
  shows "disk_ok (put_file p b d)"
proof -
  have "fs_ok d" "[] \<notin> set (butlast p)"
    using ok p by (auto simp: disk_ok_def good_def dest: in_set_butlastD)
  from fs_ok_write_atomic [OF this(1) write_good [OF ok p] this(2)] have "fs_ok (put_file p b d)" .
  moreover have "layout (put_file p b d)"
    unfolding put_file_def
  proof (intro layout_update layout_add_dirs)
    show "layout d" using ok by (simp add: disk_ok_def)
    show "name_error p = None" "shape p = Some (File b = Dir)" using p by (simp_all add: good_def)
    fix q assume "q \<in> set (parents p)" "q \<noteq> []"
    then show "name_error q = None \<and> (governed q \<longrightarrow> shape q = Some True)"
      using p by (auto simp: good_def set_parents strict_prefix_def intro: shape_above name_error_prefix)
  qed
  ultimately show ?thesis by (simp add: disk_ok_def)
qed

lemma remove_good:
  assumes "disk_ok d" "good p"
  shows "remove_file d p = (if contents d p = None then Inl NotFound else Inr (AList.delete p d))"
proof -
  have "\<not> file_above d p" using assms disk_ok_not_above by (auto simp: good_def)
  with assms disk_ok_file [OF assms] show ?thesis
    by (auto simp: remove_file_def resolve_plain good_plain good_def split: option.split)
qed

lemma contents_delete:
  "p \<noteq> [] \<Longrightarrow> contents (AList.delete p d) q = (if q = p then None else contents d q)"
  by (simp add: contents_def)

lemma disk_ok_delete:
  assumes "disk_ok d" "contents d p \<noteq> None"
  shows "disk_ok (AList.delete p d)"
proof -
  from assms(2) obtain b where b: "fs_lookup d p = Some (File b)"
    by (auto simp: contents_def split: option.splits fs_node.splits)
  have "set (AList.delete p d) \<subseteq> set d" by (induction d) auto
  with assms(1) have "layout (AList.delete p d)" by (auto simp: disk_ok_def layout_def)
  with fs_ok_delete_file [OF _ b] assms(1) show ?thesis by (simp add: disk_ok_def)
qed

text \<open>An optional file: the shape of \<open>Err(e) if e.kind() == NotFound => ..\<close> in every store.\<close>

definition read_opt :: "fs \<Rightarrow> path \<Rightarrow> io_error + bytes option" where
  "read_opt d p =
     (case fs_read d p of
        Inr b \<Rightarrow> Inr (Some b)
      | Inl e \<Rightarrow> if e = NotFound then Inr None else Inl e)"

definition remove_opt :: "path \<Rightarrow> fs \<Rightarrow> (io_error + unit) \<times> fs" where
  "remove_opt p d =
     (case remove_file d p of
        Inr d' \<Rightarrow> (Inr (), d')
      | Inl e \<Rightarrow> (if e = NotFound then Inr () else Inl e, d))"

definition read_dir_opt :: "fs \<Rightarrow> path \<Rightarrow> io_error + (string \<times> bool) list" where
  "read_dir_opt d p =
     (case fs_read_dir d p of
        Inr es \<Rightarrow> Inr es
      | Inl e \<Rightarrow> if e = NotFound then Inr [] else Inl e)"

lemma read_opt_good: "disk_ok d \<Longrightarrow> good p \<Longrightarrow> read_opt d p = Inr (contents d p)"
  by (auto simp: read_opt_def read_good ok_or_def split: option.split)

lemma remove_opt_good:
  "disk_ok d \<Longrightarrow> good p \<Longrightarrow>
     remove_opt p d = (Inr (), if contents d p = None then d else AList.delete p d)"
  by (auto simp: remove_opt_def remove_good)

lemma disk_ok_remove_opt: "disk_ok d \<Longrightarrow> good p \<Longrightarrow> disk_ok (snd (remove_opt p d))"
  by (simp add: remove_opt_good disk_ok_delete)

lemma contents_remove_opt:
  "disk_ok d \<Longrightarrow> good p \<Longrightarrow>
     contents (snd (remove_opt p d)) q = (if q = p then None else contents d q)"
  by (auto simp: remove_opt_good contents_delete good_plain)

text \<open>A directory of the layout lists exactly the entries below it, or nothing when absent.\<close>

lemma read_dir_opt_good:
  assumes "disk_ok d" "shape p = Some True" "[] \<notin> set p" "name_error p = None"
  shows "read_dir_opt d p = Inr (if fs_lookup d p = None then [] else entries_of d p)"
proof -
  have p: "p \<noteq> []" "plain p" using assms(2,3) by (cases p rule: rev_cases; auto simp: plain_def)+
  have "\<not> file_above d p" using assms disk_ok_not_above by blast
  moreover have "n = Dir" if "fs_lookup d p = Some n" for n
    using disk_ok_shape [OF assms(1,2) that] by simp
  ultimately show ?thesis using assms(4) p
    by (auto simp: read_dir_opt_def fs_read_dir_def resolve_plain plain_def split: option.splits)
qed

lemma no_entries:
  assumes "fs_ok d" "fs_lookup d p = None"
  shows "entries_of d p = []"
proof (rule ccontr)
  assume "entries_of d p \<noteq> []"
  then obtain q n where "(q, n) \<in> set d" "butlast q = p"
    by (auto simp: entries_of_def filter_empty_conv)
  with assms show False by (auto simp: fs_ok_def)
qed

lemma read_dir_good:
  assumes "disk_ok d" "shape p = Some True" "[] \<notin> set p" "name_error p = None"
  shows "read_dir_opt d p = Inr (entries_of d p)"
  using read_dir_opt_good [OF assms] no_entries assms(1) by (simp add: disk_ok_def)

text \<open>Entries of a well-formed disk have usable names.\<close>

lemma disk_ok_name: "disk_ok d \<Longrightarrow> fs_lookup d p = Some n \<Longrightarrow> name_error p = None"
proof (cases "p = []")
  case False
  assume "disk_ok d" "fs_lookup d p = Some n"
  with False have "(p, n) \<in> set d" "layout d" using fs_ok_lookup by (auto simp: disk_ok_def)
  then show ?thesis by (auto simp: layout_def)
qed (simp add: name_error_def)

lemma fs_ok_comps: "fs_ok d \<Longrightarrow> fs_lookup d p = Some n \<Longrightarrow> [] \<notin> set p"
proof (induction p arbitrary: n rule: rev_induct)
  case (snoc x p)
  from fs_ok_parent [OF snoc.prems(1) _ snoc.prems(2)] have "x \<noteq> []" "fs_lookup d p = Some Dir"
    by simp_all
  with snoc.IH [OF snoc.prems(1)] show ?case by auto
qed simp

lemma contents_lookup: "contents d p = Some b \<longleftrightarrow> fs_lookup d p = Some (File b)"
  by (auto simp: contents_def split: option.splits fs_node.splits)

lemma contents_good:
  assumes "disk_ok d" "contents d p = Some b" "governed p"
  shows "good p"
proof -
  from assms(2) have l: "fs_lookup d p = Some (File b)" by (simp add: contents_lookup)
  with assms disk_ok_lookup [OF assms(1,3) l] disk_ok_name [OF assms(1) l] show ?thesis
    by (auto simp: good_def disk_ok_def dest: fs_ok_comps)
qed

text \<open>Listing a directory of files: the names \<open>x\<close> for which \<open>contents\<close> has a value.\<close>

lemma entries_contents:
  assumes "disk_ok d" "x \<noteq> []" "shape (p @ [x]) = Some False"
  shows "(x, k) \<in> set (entries_of d p) \<longleftrightarrow> contents d (p @ [x]) \<noteq> None \<and> \<not> k"
proof (cases "fs_lookup d (p @ [x])")
  case None
  then show ?thesis using assms(1,2) by (simp add: entries_of_iff disk_ok_def contents_def)
next
  case (Some n)
  with disk_ok_shape [OF assms(1,3) this] assms(1,2) show ?thesis
    by (cases n) (auto simp: entries_of_iff disk_ok_def contents_def)
qed

section \<open>Removing and renaming directories\<close>

lemma map_of_filter_key: "map_of (filter (\<lambda>(q, n). P q) d) q = (if P q then map_of d q else None)"
  by (induction d) auto

lemma lookup_remove_tree:
  "p \<noteq> [] \<Longrightarrow>
     fs_lookup (filter (\<lambda>(q, n). \<not> prefix p q) d) q = (if prefix p q then None else fs_lookup d q)"
  by (auto simp: fs_lookup_def map_of_filter_key)

lemma disk_ok_remove_tree:
  assumes "disk_ok d" "p \<noteq> []"
  shows "disk_ok (filter (\<lambda>(q, n). \<not> prefix p q) d)"
proof -
  let ?d = "filter (\<lambda>(q, n). \<not> prefix p q) d"
  have ok: "fs_ok d" using assms by (simp add: disk_ok_def)
  have "fs_ok ?d"
  proof (rule fs_okI)
    show "distinct (map fst ?d)" using ok by (simp add: fs_ok_distinct distinct_map_filter)
    show "[] \<notin> fst ` set ?d" using fs_ok_no_root [OF ok] by auto
    fix q n assume q: "q \<noteq> []" "fs_lookup ?d q = Some n"
    with assms(2) have "\<not> prefix p q" "fs_lookup d q = Some n"
      by (auto simp: lookup_remove_tree split: if_splits)
    moreover from this have "\<not> prefix p (butlast q)"
      using prefix_order.trans prefixeq_butlast by blast
    ultimately show "plain q \<and> fs_lookup ?d (butlast q) = Some Dir"
      using fs_ok_parent [OF ok q(1)] assms(2) by (simp add: lookup_remove_tree)
  qed
  moreover have "layout ?d" using assms(1) by (auto simp: disk_ok_def layout_def)
  ultimately show ?thesis by (simp add: disk_ok_def)
qed

text \<open>Renaming \<open>p\<close> to \<open>q\<close> when nothing is at \<open>q\<close>.\<close>

lemma move_path_inj:
  assumes "\<not> prefix q r" "\<not> prefix q s" "move_path p q r = move_path p q s"
  shows "r = s"
proof -
  have "r = p @ drop (length p) r" if "prefix p r" for r :: path
    using that by (metis append_eq_conv_conj prefixE)
  with assms show ?thesis
    by (auto simp: move_path_def split: if_splits) (metis)+
qed

lemma lookup_rename:
  assumes d: "distinct (map fst d)" and free: "\<And>r n. (r, n) \<in> set d \<Longrightarrow> \<not> prefix q r"
    and pq: "p \<noteq> []" "q \<noteq> []" "\<not> prefix p q" "\<not> prefix q p" "[] \<notin> fst ` set d"
  shows "fs_lookup (map (\<lambda>(r, n). (move_path p q r, n)) d) r =
     (if prefix q r then fs_lookup d (p @ drop (length q) r)
      else if prefix p r then None else fs_lookup d r)"
proof (cases "r = []")
  case True
  then show ?thesis using pq by simp
next
  case False
  let ?d = "map (\<lambda>(r, n). (move_path p q r, n)) d"
  have key: "map_of ?d (move_path p q s) = map_of d s" if "\<not> prefix q s" for s
    using free that
  proof (induction d)
    case (Cons e d)
    obtain a n where e: "e = (a, n)" by (cases e)
    have "\<not> prefix q a" using Cons.prems(1) [of a n] e by simp
    with Cons move_path_inj [of q a s p] show ?case by (auto simp: e)
  qed simp
  have notin: "map_of ?d r = None" if "\<And>s n. (s, n) \<in> set d \<Longrightarrow> r \<noteq> move_path p q s"
    using that by (fastforce simp: map_of_eq_None_iff)
  show ?thesis
  proof (cases "prefix q r")
    case True
    define s where "s = p @ drop (length q) r"
    have r: "r = q @ drop (length q) r" using True by (metis append_eq_conv_conj prefixE)
    then have "move_path p q s = r" by (simp add: move_path_def s_def)
    moreover have "\<not> prefix q s" using pq by (auto simp: s_def prefix_append)
    ultimately have "map_of ?d r = map_of d s" using key by metis
    with True False pq show ?thesis by (simp add: fs_lookup_def s_def)
  next
    case nq: False
    show ?thesis
    proof (cases "prefix p r")
      case True
      have "r \<noteq> move_path p q s" for s using True nq by (auto simp: move_path_def)
      with notin have "map_of ?d r = None" by blast
      with True nq False show ?thesis by (simp add: fs_lookup_def)
    next
      case np: False
      then have "move_path p q r = r" by (simp add: move_path_def)
      with key [OF nq] np nq False show ?thesis by (simp add: fs_lookup_def)
    qed
  qed
qed

lemma disk_ok_rename:
  assumes ok: "disk_ok d" and free: "fs_lookup d q = None" and dir: "fs_lookup d p = Some n"
    and pq: "p \<noteq> []" "q \<noteq> []" "\<not> prefix p q" "\<not> prefix q p"
    and parent: "fs_lookup d (butlast q) = Some Dir" and nq: "plain q" "name_error q = None"
    and gov: "\<And>r k. shape (p @ r) = Some k \<Longrightarrow> shape (q @ r) = Some k"
      "\<And>r. governed (q @ r) \<Longrightarrow> governed (p @ r)"
  shows "disk_ok (map (\<lambda>(r, n). (move_path p q r, n)) d)"
proof -
  let ?d = "map (\<lambda>(r, n). (move_path p q r, n)) d"
  have fok: "fs_ok d" and lay: "layout d" using ok by (auto simp: disk_ok_def)
  have none: "\<not> prefix q r" if "(r, n) \<in> set d" for r n
  proof
    assume "prefix q r"
    have "fs_lookup d r = Some n"
      using that fok fs_ok_no_root [OF fok] by (cases "r = []") (force simp: fs_ok_lookup)+
    with \<open>prefix q r\<close> free fs_ok_above [OF fok this, of q] show False
      by (cases "q = r") (auto simp: strict_prefix_def)
  qed
  note look = lookup_rename [OF fs_ok_distinct [OF fok] none pq fs_ok_no_root [OF fok]]
  have "fs_ok ?d"
  proof (rule fs_okI)
    have "inj_on (move_path p q) (fst ` set d)"
    proof (rule inj_onI)
      fix a b assume "a \<in> fst ` set d" "b \<in> fst ` set d" "move_path p q a = move_path p q b"
      then show "a = b" using move_path_inj [of q a b p] none by auto
    qed
    then show "distinct (map fst ?d)"
      using fs_ok_distinct [OF fok] by (simp add: distinct_map comp_def case_prod_beta inj_on_def)
    show "[] \<notin> fst ` set ?d"
    proof
      assume "[] \<in> fst ` set ?d"
      then obtain a n where "(a, n) \<in> set d" "move_path p q a = []" by auto
      with fs_ok_no_root [OF fok] pq show False by (force simp: move_path_def split: if_splits)
    qed
    fix r n assume r: "r \<noteq> []" "fs_lookup ?d r = Some n"
    show "plain r \<and> fs_lookup ?d (butlast r) = Some Dir"
    proof (cases "prefix q r")
      case True
      with r look have old: "fs_lookup d (p @ drop (length q) r) = Some n" by simp
      have r_eq: "r = q @ drop (length q) r" using True by (metis append_eq_conv_conj prefixE)
      show ?thesis
      proof (cases "r = q")
        case True
        have "\<not> prefix q (butlast q)" "\<not> prefix p (butlast q)"
          using pq prefixeq_butlast [of q] prefix_order.trans [of p "butlast q" q]
            prefix_length_le [of q "butlast q"] by (cases q rule: rev_cases, auto)+
        with True nq parent look show ?thesis by simp
      next
        case False
        with r_eq have ne: "drop (length q) r \<noteq> []" by auto
        have "fs_lookup d (butlast (p @ drop (length q) r)) = Some Dir" "plain (p @ drop (length q) r)"
          using fs_ok_parent [OF fok _ old] pq by auto
        moreover have "butlast r = q @ butlast (drop (length q) r)"
          using r_eq ne by (metis butlast_append)
        ultimately show ?thesis using ne r_eq look
          by (auto simp: butlast_append plain_def)
      qed
    next
      case False
      with r look have old: "\<not> prefix p r" "fs_lookup d r = Some n" by (auto split: if_splits)
      then have "\<not> prefix q (butlast r)" "\<not> prefix p (butlast r)"
        using False prefixeq_butlast prefix_order.trans by blast+
      with fs_ok_parent [OF fok r(1) old(2)] look show ?thesis by simp
    qed
  qed
  moreover have "layout ?d"
    unfolding layout_def
  proof
    fix e assume "e \<in> set ?d"
    then obtain r n where e: "e = (move_path p q r, n)" "(r, n) \<in> set d" by auto
    have rl: "name_error r = None" "governed r \<longrightarrow> shape r = Some (n = Dir)"
      using lay e(2) by (auto simp: layout_def)
    show "case e of (q, n) \<Rightarrow> name_error q = None \<and> (governed q \<longrightarrow> shape q = Some (n = Dir))"
    proof (cases "prefix p r")
      case True
      then have r: "r = p @ drop (length p) r" by (metis append_eq_conv_conj prefixE)
      have "name_error (q @ drop (length p) r) = None"
        using rl(1) nq(2) by (auto simp: name_error_def split: if_splits dest: in_set_dropD)
      moreover have "governed (q @ drop (length p) r) \<longrightarrow> shape (q @ drop (length p) r) = Some (n = Dir)"
        using rl(2) gov r by metis
      ultimately show ?thesis using True e by (simp add: move_path_def)
    next
      case False
      with rl e show ?thesis by (simp add: move_path_def)
    qed
  qed
  ultimately show ?thesis by (simp add: disk_ok_def)
qed

lemma lookup_rename_ok:
  assumes "disk_ok d" "fs_lookup d q = None" "p \<noteq> []" "q \<noteq> []" "\<not> prefix p q" "\<not> prefix q p"
  shows "fs_lookup (map (\<lambda>(r, n). (move_path p q r, n)) d) r =
     (if prefix q r then fs_lookup d (p @ drop (length q) r)
      else if prefix p r then None else fs_lookup d r)"
proof -
  have ok: "fs_ok d" using assms(1) by (simp add: disk_ok_def)
  have "\<not> prefix q r" if "(r, n) \<in> set d" for r n
  proof
    assume "prefix q r"
    have "fs_lookup d r = Some n"
      using that ok fs_ok_no_root [OF ok] by (cases "r = []") (force simp: fs_ok_lookup)+
    with \<open>prefix q r\<close> assms(2) fs_ok_above [OF ok this, of q] show False
      by (cases "q = r") (auto simp: strict_prefix_def)
  qed
  from lookup_rename [OF fs_ok_distinct [OF ok] this assms(3-6) fs_ok_no_root [OF ok]] show ?thesis .
qed

lemma contents_rename:
  assumes "disk_ok d" "fs_lookup d q = None" "p \<noteq> []" "q \<noteq> []" "\<not> prefix p q" "\<not> prefix q p"
  shows "contents (map (\<lambda>(r, n). (move_path p q r, n)) d) r =
     (if prefix q r then contents d (p @ drop (length q) r)
      else if prefix p r then None else contents d r)"
  using lookup_rename_ok [OF assms] by (simp add: contents_def)

end
