(* ===== verification/Content_Store.thy ===== *)
theory Content_Store
  imports Layout Hashes
begin

text \<open>
  The content-addressed stores: chunks with the in-flight pin set and the condemned file
  (\<open>barme-store/src/chunk_store.rs\<close>), manifests (\<open>manifest_store.rs\<close>) and the reverse index
  (\<open>reverse_store.rs\<close>). A store operation takes the disk and returns it with its result.

  \<open>blob_store\<close> is the contract the engine builds on: what is put is found again under its
  address, and no later put takes it away. It is proved for the chunk store and for the manifest
  store.
\<close>

section \<open>Shared helpers\<close>

definition io_step :: "(io_error + 'a) \<times> fs \<Rightarrow> (store_error + 'a) \<times> fs" where
  "io_step r = (map_err Io (fst r), snd r)"

lemma io_step_simps [simp]: "io_step (Inr x, d) = (Inr x, d)" "io_step (Inl e, d) = (Inl (Io e), d)"
  by (simp_all add: io_step_def)

definition shard :: "ext \<Rightarrow> string \<Rightarrow> hash \<Rightarrow> path" where
  "shard X base h = [base, take 2 (to_hex X h), to_hex X h]"

section \<open>The chunk store\<close>

subsection \<open>Pins\<close>

definition pin :: "hash \<Rightarrow> hash list \<Rightarrow> hash list" where
  "pin h pinned = List.insert h pinned"

definition unpin :: "hash list \<Rightarrow> hash list \<Rightarrow> hash list" where
  "unpin hs pinned = filter (\<lambda>h. h \<notin> set hs) pinned"

lemma set_pin [simp]: "set (pin h ps) = insert h (set ps)"
  by (simp add: pin_def)

lemma set_unpin [simp]: "set (unpin hs ps) = set ps - set hs"
  by (auto simp: unpin_def)

subsection \<open>Chunks\<close>

definition chunk_put :: "ext \<Rightarrow> bytes \<Rightarrow> fs \<Rightarrow> (store_error + hash) \<times> fs" where
  "chunk_put X b d =
     (let h = hash_of X b; p = shard X chunk_dir h in
      if fs_exists d p then (Inr h, d)
      else and_then (io_step (write_atomic p b d)) (\<lambda>_ d. (Inr h, d)))"

definition chunk_get :: "ext \<Rightarrow> fs \<Rightarrow> hash \<Rightarrow> store_error + bytes option" where
  "chunk_get X d h =
     try_then (map_err Io (read_opt d (shard X chunk_dir h))) (\<lambda>r.
       case r of
         None \<Rightarrow> Inr None
       | Some b \<Rightarrow> if hash_of X b \<noteq> h then Inl (Integrity (show_hash X h)) else Inr (Some b))"

definition chunk_has :: "ext \<Rightarrow> fs \<Rightarrow> hash \<Rightarrow> bool" where
  "chunk_has X d h = fs_exists d (shard X chunk_dir h)"

definition chunk_delete :: "ext \<Rightarrow> hash \<Rightarrow> fs \<Rightarrow> (store_error + unit) \<times> fs" where
  "chunk_delete X h d = io_step (remove_opt (shard X chunk_dir h) d)"

definition shard_hashes :: "ext \<Rightarrow> fs \<Rightarrow> string \<Rightarrow> store_error + hash list" where
  "shard_hashes X d s =
     try_then (map_err Io (fs_read_dir d [chunk_dir, s])) (\<lambda>es.
       try_map (\<lambda>name. map_err HashErr (parse_hash X (''blake3:'' @ name)))
         (filter (\<lambda>name. \<not> starts_with_char CHR ''.'' name) (map (\<lambda>e. utf8_lossy (fst e)) es)))"

definition chunk_all :: "ext \<Rightarrow> fs \<Rightarrow> store_error + hash list" where
  "chunk_all X d =
     try_then (map_err Io (read_dir_opt d [chunk_dir])) (\<lambda>es.
       try_then (try_map (shard_hashes X d) (map fst (filter snd es))) (\<lambda>hs. Inr (concat hs)))"

text \<open>Sizes: \<open>metadata().len()\<close> of a file is its length; there are only files in a shard.\<close>

definition entry_size :: "fs \<Rightarrow> path \<Rightarrow> nat" where
  "entry_size d p = (case contents d p of Some b \<Rightarrow> length b | None \<Rightarrow> 0)"

definition shard_sizes :: "fs \<Rightarrow> string \<Rightarrow> store_error + nat" where
  "shard_sizes d s =
     try_then (map_err Io (fs_read_dir d [chunk_dir, s])) (\<lambda>es.
       Inr (sum_list (map (\<lambda>e. entry_size d [chunk_dir, s, fst e])
         (filter (\<lambda>e. \<not> starts_with_char CHR ''.'' (utf8_lossy (fst e))) es))))"

definition physical_bytes :: "fs \<Rightarrow> store_error + nat" where
  "physical_bytes d =
     try_then (map_err Io (read_dir_opt d [chunk_dir])) (\<lambda>es.
       try_then (try_map (shard_sizes d) (map fst (filter snd es))) (\<lambda>ns. Inr (sum_list ns)))"

definition chunk_count :: "ext \<Rightarrow> fs \<Rightarrow> store_error + nat" where
  "chunk_count X d = try_then (chunk_all X d) (\<lambda>hs. Inr (length hs))"

definition condemned_path :: path where
  "condemned_path = [chunk_dir, CONDEMNED]"

text \<open>A corrupt condemned file reads as the empty set.\<close>

definition load_condemned :: "ext \<Rightarrow> fs \<Rightarrow> store_error + (hash \<times> nat) list" where
  "load_condemned X d =
     try_then (map_err Io (read_opt d condemned_path)) (\<lambda>r.
       case r of
         None \<Rightarrow> Inr []
       | Some b \<Rightarrow> Inr (case condemned_of_json X b of None \<Rightarrow> [] | Some c \<Rightarrow> c))"

definition save_condemned :: "ext \<Rightarrow> (hash \<times> nat) list \<Rightarrow> fs \<Rightarrow> (store_error + unit) \<times> fs" where
  "save_condemned X c d = io_step (write_atomic condemned_path (condemned_to_json X c) d)"

section \<open>The manifest store\<close>

definition manifest_id :: "ext \<Rightarrow> manifest \<Rightarrow> hash" where
  "manifest_id X m = hash_of X (manifest_body X m)"

definition manifest_put :: "ext \<Rightarrow> manifest \<Rightarrow> fs \<Rightarrow> (store_error + hash) \<times> fs" where
  "manifest_put X m d =
     (let h = manifest_id X m; stored = m\<lparr>object_id := h\<rparr>; p = shard X manifest_dir h in
      if fs_exists d p then (Inr h, d)
      else and_then (io_step (write_atomic p (manifest_to_json X stored) d)) (\<lambda>_ d. (Inr h, d)))"

definition manifest_get :: "ext \<Rightarrow> fs \<Rightarrow> hash \<Rightarrow> store_error + manifest option" where
  "manifest_get X d h =
     try_then (map_err Io (read_opt d (shard X manifest_dir h))) (\<lambda>r.
       case r of
         None \<Rightarrow> Inr None
       | Some b \<Rightarrow>
           (case manifest_of_json X b of
              None \<Rightarrow> Inl Serde
            | Some m \<Rightarrow>
                if manifest_version m > MANIFEST_VERSION then
                  Inl (UnsupportedManifest (manifest_version m) MANIFEST_VERSION)
                else if manifest_id X m \<noteq> h then Inl (Integrity (show_hash X h))
                else Inr (Some m)))"

definition manifest_has :: "ext \<Rightarrow> fs \<Rightarrow> hash \<Rightarrow> bool" where
  "manifest_has X d h = fs_exists d (shard X manifest_dir h)"

section \<open>The reverse index\<close>

definition reverse_get :: "ext \<Rightarrow> fs \<Rightarrow> hash \<Rightarrow> store_error + (string \<times> string) list" where
  "reverse_get X d h =
     try_then (map_err Io (read_opt d (shard X reverse_dir h))) (\<lambda>r.
       case r of
         None \<Rightarrow> Inr []
       | Some b \<Rightarrow> ok_or Serde (locations_of_json X b))"

definition reverse_add :: "ext \<Rightarrow> hash \<Rightarrow> string \<Rightarrow> string \<Rightarrow> fs \<Rightarrow> (store_error + unit) \<times> fs" where
  "reverse_add X h pot key d =
     and_then (reverse_get X d h, d) (\<lambda>locations d.
       if (pot, key) \<in> set locations then (Inr (), d)
       else io_step (write_atomic (shard X reverse_dir h)
              (locations_to_json X (locations @ [(pot, key)])) d))"

section \<open>The contract of a content-addressed store\<close>

text \<open>Putting a list of blobs one after the other, and getting a list of addresses.\<close>

fun store_all :: "('b \<Rightarrow> 'd \<Rightarrow> ('e + 'a) \<times> 'd) \<Rightarrow> 'b list \<Rightarrow> 'd \<Rightarrow> ('e + 'a list) \<times> 'd" where
  "store_all put [] d = (Inr [], d)"
| "store_all put (b # bs) d =
     and_then (put b d) (\<lambda>a d. and_then (store_all put bs d) (\<lambda>as d. (Inr (a # as), d)))"

locale blob_store =
  fixes put :: "'b \<Rightarrow> 'd \<Rightarrow> ('e + 'a) \<times> 'd"
    and get :: "'d \<Rightarrow> 'a \<Rightarrow> 'e + 'b option"
    and addr :: "'b \<Rightarrow> 'a"
    and norm :: "'b \<Rightarrow> 'b"
    and ok :: "'d \<Rightarrow> bool"
    and storable :: "'b \<Rightarrow> bool"
  assumes put_total: "ok d \<Longrightarrow> storable b \<Longrightarrow> \<exists>d'. put b d = (Inr (addr b), d') \<and> ok d'"
    and put_get: "ok d \<Longrightarrow> storable b \<Longrightarrow> put b d = (Inr a, d') \<Longrightarrow> get d' a = Inr (Some (norm b))"
    and put_keeps: "ok d \<Longrightarrow> storable b \<Longrightarrow> put b d = (Inr a, d') \<Longrightarrow> get d c = Inr (Some x) \<Longrightarrow>
                      get d' c = Inr (Some x)"
begin

lemma put_addr: "ok d \<Longrightarrow> storable b \<Longrightarrow> put b d = (Inr a, d') \<Longrightarrow> a = addr b \<and> ok d'"
  using put_total by fastforce

lemma store_all_total:
  "ok d \<Longrightarrow> list_all storable bs \<Longrightarrow>
     \<exists>d'. store_all put bs d = (Inr (map addr bs), d') \<and> ok d' \<and>
          (\<forall>b \<in> set bs. get d' (addr b) = Inr (Some (norm b))) \<and>
          (\<forall>a x. get d a = Inr (Some x) \<longrightarrow> get d' a = Inr (Some x))"
proof (induction bs arbitrary: d)
  case (Cons b bs)
  then obtain d1 where d1: "put b d = (Inr (addr b), d1)" "ok d1" using put_total by force
  from Cons.IH [OF d1(2)] Cons.prems obtain d2 where
    d2: "store_all put bs d1 = (Inr (map addr bs), d2)" "ok d2"
      "\<forall>b \<in> set bs. get d2 (addr b) = Inr (Some (norm b))"
      "\<forall>a x. get d1 a = Inr (Some x) \<longrightarrow> get d2 a = Inr (Some x)" by auto
  have "get d1 (addr b) = Inr (Some (norm b))" using put_get [OF _ _ d1(1)] Cons.prems by simp
  moreover have "get d1 a = Inr (Some x)" if "get d a = Inr (Some x)" for a x
    using put_keeps [OF _ _ d1(1) that] Cons.prems by simp
  ultimately show ?case using d1 d2 by auto
qed simp

text \<open>What a client that stores pieces and later fetches them by address sees.\<close>

lemma store_all_fetch:
  assumes "ok d" "list_all storable bs" "store_all put bs d = (Inr as, d')"
  shows "try_map (get d') as = Inr (map (\<lambda>b. Some (norm b)) bs)"
proof -
  from store_all_total [OF assms(1,2)] assms(3)
  have as: "as = map addr bs" and got: "\<forall>b \<in> set bs. get d' (addr b) = Inr (Some (norm b))" by auto
  then show ?thesis unfolding as by (induction bs) auto
qed

end

section \<open>Paths\<close>

lemma good_shard [path_simps]:
  assumes "hex_ok X" "hash_wf h" "base \<in> set nested_dirs"
  shows "good (shard X base h)"
proof -
  note h = to_hex_plain [OF assms(1,2)]
  have "take 1 (take 2 (to_hex X h)) \<noteq> ''.''" using h by (cases "to_hex X h") (auto simp: starts_with_char_def)
  moreover have "base \<noteq> [] \<and> CHR 0x00 \<notin> set base \<and> length base \<le> NAME_MAX"
    using assms(3) by (auto simp: nested_dirs_def NAME_MAX_def)
  ultimately show ?thesis using h assms(3)
    by (auto simp: good_def shard_def hidden_name_def name_error_def)
qed

lemma shard_inj [path_simps]: "hex_ok X \<Longrightarrow> shard X b h = shard X c k \<longleftrightarrow> b = c \<and> h = k"
  by (auto simp: shard_def to_hex_inj)

lemma nested_dirs_simps [simp]:
  "chunk_dir \<in> set nested_dirs" "manifest_dir \<in> set nested_dirs" "pointer_dir \<in> set nested_dirs"
  "reverse_dir \<in> set nested_dirs"
  by (simp_all add: nested_dirs_def)

lemma good_condemned [path_simps]: "good condemned_path"
  by (auto simp: good_def condemned_path_def hidden_name_def CONDEMNED_def flat_dirs_def
      nested_dirs_def name_error_def NAME_MAX_def)

lemma condemned_not_shard [path_simps]: "condemned_path \<noteq> shard X b h" "shard X b h \<noteq> condemned_path"
  by (simp_all add: condemned_path_def shard_def)

section \<open>The chunk store over the contents of the disk\<close>

definition chunk_at :: "ext \<Rightarrow> fs \<Rightarrow> hash \<Rightarrow> bytes option" where
  "chunk_at X d h = contents d (shard X chunk_dir h)"

text \<open>
  The invariant of the chunk store: the disk respects the layout, every file in a shard directory
  is named by the hash of its bytes, and \<open>B\<close>, the buffers this store ever hashes as chunks, has
  no collision.
\<close>

definition chunks_ok :: "ext \<Rightarrow> bytes set \<Rightarrow> fs \<Rightarrow> bool" where
  "chunks_ok X B d \<longleftrightarrow>
     hash_ok X \<and> hex_ok X \<and> inj_on (blake3 X) B \<and> disk_ok d \<and>
     (\<forall>s f b. contents d [chunk_dir, s, f] = Some b \<longrightarrow>
        b \<in> B \<and> [chunk_dir, s, f] = shard X chunk_dir (hash_of X b))"

lemma chunks_okD:
  assumes "chunks_ok X B d"
  shows "hash_ok X" "hex_ok X" "inj_on (blake3 X) B" "disk_ok d"
    "contents d [chunk_dir, s, f] = Some b \<Longrightarrow> b \<in> B \<and> [chunk_dir, s, f] = shard X chunk_dir (hash_of X b)"
  using assms by (auto simp: chunks_ok_def)

lemma chunks_ok_at:
  assumes "chunks_ok X B d" "chunk_at X d h = Some b"
  shows "b \<in> B" "h = hash_of X b"
proof -
  from assms(2) have c: "contents d [chunk_dir, take 2 (to_hex X h), to_hex X h] = Some b"
    by (simp add: chunk_at_def shard_def)
  note props = chunks_okD(5) [OF assms(1) c]
  then show "b \<in> B" by simp
  from props have "shard X chunk_dir h = shard X chunk_dir (hash_of X b)" by (simp add: shard_def)
  then show "h = hash_of X b" using chunks_okD(2) [OF assms(1)] by (simp add: shard_inj)
qed

lemma chunk_get_eq:
  assumes "hex_ok X" "disk_ok d" "hash_wf h"
  shows "chunk_get X d h =
     (case chunk_at X d h of
        None \<Rightarrow> Inr None
      | Some b \<Rightarrow> if hash_of X b \<noteq> h then Inl (Integrity (show_hash X h)) else Inr (Some b))"
  using assms by (simp add: chunk_get_def chunk_at_def read_opt_good good_shard)

lemma chunk_get_Some: "chunk_get X d h = Inr (Some b) \<Longrightarrow> hash_of X b = h"
  by (auto simp: chunk_get_def result_simps split: option.splits if_splits)

lemma chunk_get_ok_iff:
  assumes "chunks_ok X B d" "hash_wf h"
  shows "chunk_get X d h = Inr (chunk_at X d h)"
  using chunk_get_eq [OF chunks_okD(2,4) [OF assms(1)] assms(2)] chunks_ok_at(2) [OF assms(1), of h]
  by (auto split: option.split)

lemma chunk_has_eq:
  assumes "hex_ok X" "disk_ok d" "hash_wf h"
  shows "chunk_has X d h \<longleftrightarrow> chunk_at X d h \<noteq> None"
  using assms by (simp add: chunk_has_def chunk_at_def exists_good good_shard)

text \<open>A put, in terms of contents: it fills one address, or leaves a present chunk alone.\<close>

lemma chunk_put_eq:
  assumes "hash_ok X" "hex_ok X" "disk_ok d"
  shows "chunk_put X b d =
     (Inr (hash_of X b),
      if chunk_at X d (hash_of X b) = None then put_file (shard X chunk_dir (hash_of X b)) b d else d)"
  using assms by (simp add: chunk_put_def chunk_at_def Let_def exists_good write_good good_shard)

lemma chunk_at_put_file:
  assumes "hex_ok X" "hash_wf h"
  shows "chunk_at X (put_file (shard X chunk_dir h) b d) k = (if k = h then Some b else chunk_at X d k)"
  using assms by (simp add: chunk_at_def contents_put_file good_shard shard_inj)

lemma chunks_ok_put:
  assumes ok: "chunks_ok X B d" and b: "b \<in> B" and put: "chunk_put X b d = (r, d')"
  shows "chunks_ok X B d'" "r = Inr (hash_of X b)"
    "chunk_at X d' h = (if h = hash_of X b then Some b else chunk_at X d h)"
proof -
  note X = chunks_okD(1-4) [OF ok]
  have wf: "hash_wf (hash_of X b)" using X by simp
  from put X show "r = Inr (hash_of X b)" by (simp add: chunk_put_eq)
  show "chunk_at X d' h = (if h = hash_of X b then Some b else chunk_at X d h)"
  proof (cases "chunk_at X d (hash_of X b)")
    case None
    with put X show ?thesis by (auto simp: chunk_put_eq chunk_at_put_file wf)
  next
    case (Some c)
    with chunks_ok_at [OF ok Some] b X(3) have "c = b" by (auto dest: inj_onD)
    with Some put X show ?thesis by (auto simp: chunk_put_eq)
  qed
  show "chunks_ok X B d'"
  proof (cases "chunk_at X d (hash_of X b)")
    case None
    with put X have d': "d' = put_file (shard X chunk_dir (hash_of X b)) b d" by (simp add: chunk_put_eq)
    have "good (shard X chunk_dir (hash_of X b))" using X wf by (simp add: good_shard)
    then show ?thesis using ok b unfolding d' chunks_ok_def
      by (auto simp: disk_ok_put_file contents_put_file split: if_splits)
  next
    case (Some c)
    with put X ok show ?thesis by (simp add: chunk_put_eq)
  qed
qed

interpretation chunk: blob_store "chunk_put X" "chunk_get X" "hash_of X" "\<lambda>b. b" "chunks_ok X B" "\<lambda>b. b \<in> B"
  for X B
proof (unfold_locales, goal_cases)
  case (1 d b)
  then show ?case using chunks_ok_put [OF 1] by (cases "chunk_put X b d") auto
next
  case (2 d b a d')
  then show ?case using chunks_ok_put [OF 2] chunks_okD(1) [OF 2(1)]
    by (simp add: chunk_get_ok_iff [OF chunks_ok_put(1) [OF 2]])
next
  case (3 d b a d' c x)
  note ok' = chunks_ok_put [OF 3(1-3)]
  from 3(4) have "hash_of X x = c" by (rule chunk_get_Some)
  then have wf: "hash_wf c" using chunks_okD(1) [OF 3(1)] by auto
  with 3(4) have "chunk_at X d c = Some x" by (simp add: chunk_get_ok_iff [OF 3(1)])
  moreover from this 3 ok'(3) [of c] chunks_ok_at [OF 3(1) this] chunks_okD(3) [OF 3(1)]
  have "chunk_at X d' c = Some x" by (auto dest: inj_onD)
  ultimately show ?case using wf by (simp add: chunk_get_ok_iff [OF ok'(1)])
qed

subsection \<open>Deleting and listing chunks\<close>

lemma chunk_delete_eq:
  assumes "hex_ok X" "disk_ok d" "hash_wf h"
  shows "chunk_delete X h d =
     (Inr (), if chunk_at X d h = None then d else AList.delete (shard X chunk_dir h) d)"
  using assms by (simp add: chunk_delete_def chunk_at_def remove_opt_good good_shard)

lemma chunks_ok_delete:
  assumes ok: "chunks_ok X B d" and wf: "hash_wf h" and del: "chunk_delete X h d = (r, d')"
  shows "chunks_ok X B d'" "r = Inr ()"
    "chunk_at X d' k = (if k = h then None else chunk_at X d k)"
    "q \<noteq> shard X chunk_dir h \<Longrightarrow> contents d' q = contents d q"
proof -
  note X = chunks_okD(1-4) [OF ok]
  have g: "good (shard X chunk_dir h)" "shard X chunk_dir h \<noteq> []" using X wf good_plain good_shard by auto
  show "r = Inr ()" using del X wf by (simp add: chunk_delete_eq)
  have c: "contents d' q = (if q = shard X chunk_dir h then None else contents d q)" for q
    using del X wf g(2) by (auto simp: chunk_delete_eq contents_delete chunk_at_def split: if_splits)
  show "chunk_at X d' k = (if k = h then None else chunk_at X d k)"
    using X by (simp add: chunk_at_def c shard_inj)
  show "contents d' q = contents d q" if "q \<noteq> shard X chunk_dir h" using c that by simp
  have "disk_ok d'"
    using del X wf by (auto simp: chunk_delete_eq chunk_at_def disk_ok_delete split: if_splits)
  then show "chunks_ok X B d'" using ok by (auto simp: chunks_ok_def c split: if_splits)
qed

text \<open>The entries of a shard directory are the chunks whose hex starts with its name.\<close>

lemma shard_entries:
  assumes ok: "chunks_ok X B d" and s: "fs_lookup d [chunk_dir, s] = Some Dir"
  shows "(x, k) \<in> set (entries_of d [chunk_dir, s]) \<longleftrightarrow>
     (\<exists>h. hash_wf h \<and> chunk_at X d h \<noteq> None \<and> take 2 (to_hex X h) = s \<and> x = to_hex X h \<and> \<not> k)"
proof (cases "x = []")
  case True
  have "\<not> (hash_wf h \<and> x = to_hex X h)" for h
    using to_hex_plain(1) [OF chunks_okD(2) [OF ok], of h] True by metis
  moreover have "(x, k) \<notin> set (entries_of d [chunk_dir, s])"
    using entries_of_names [of d x k] True chunks_okD(4) [OF ok] by (auto simp: disk_ok_def)
  ultimately show ?thesis by blast
next
  case False
  note X = chunks_okD(1-4) [OF ok]
  have "\<not> hidden_name chunk_dir s"
    using disk_ok_lookup [OF X(4) _ s] by (auto simp: governed_def hidden_name_def flat_dirs_def nested_dirs_def)
  then have "shape ([chunk_dir, s] @ [x]) = Some False" by simp
  from entries_contents [OF X(4) False this]
  have iff: "(x, k) \<in> set (entries_of d [chunk_dir, s]) \<longleftrightarrow> contents d [chunk_dir, s, x] \<noteq> None \<and> \<not> k"
    by simp
  show ?thesis
  proof
    assume "(x, k) \<in> set (entries_of d [chunk_dir, s])"
    then obtain b where b: "contents d [chunk_dir, s, x] = Some b" "\<not> k" using iff by auto
    have "s = take 2 (to_hex X (hash_of X b))" "x = to_hex X (hash_of X b)"
      using chunks_okD(5) [OF ok b(1)] by (simp_all add: shard_def)
    with b X show "\<exists>h. hash_wf h \<and> chunk_at X d h \<noteq> None \<and> take 2 (to_hex X h) = s \<and> x = to_hex X h \<and> \<not> k"
      by (auto simp: chunk_at_def shard_def intro!: exI [of _ "hash_of X b"])
  next
    assume "\<exists>h. hash_wf h \<and> chunk_at X d h \<noteq> None \<and> take 2 (to_hex X h) = s \<and> x = to_hex X h \<and> \<not> k"
    then show "(x, k) \<in> set (entries_of d [chunk_dir, s])"
      unfolding iff by (auto simp: chunk_at_def shard_def)
  qed
qed

lemma chunk_name_parses:
  assumes "hash_ok X" "hex_ok X" "hash_wf h"
  shows "utf8_lossy (to_hex X h) = to_hex X h" "\<not> starts_with_char CHR ''.'' (to_hex X h)"
    "parse_hash X (''blake3:'' @ to_hex X h) = Inr h"
  using assms ascii_hex_encode utf8_lossy_ascii to_hex_plain(2) parse_to_hex
  by (auto simp: to_hex_def)

lemma shard_hashes_ok:
  assumes ok: "chunks_ok X B d" and s: "fs_lookup d [chunk_dir, s] = Some Dir"
  shows "\<exists>hs. shard_hashes X d s = Inr hs \<and> distinct hs \<and>
     set hs = {h. hash_wf h \<and> chunk_at X d h \<noteq> None \<and> take 2 (to_hex X h) = s}"
proof -
  note X = chunks_okD(1-4) [OF ok]
  let ?es = "entries_of d [chunk_dir, s]"
  have "s \<noteq> []" "name_error [chunk_dir, s] = None"
    using fs_ok_parent(1) [OF _ _ s] disk_ok_name [OF X(4) s] X(4) by (auto simp: disk_ok_def)
  then have dir: "fs_read_dir d [chunk_dir, s] = Inr ?es"
    using s by (simp add: fs_read_dir_def resolve_plain)
  have "\<forall>x \<in> set (map fst ?es). \<exists>h. x = to_hex X h"
    using shard_entries [OF ok s] by fastforce
  then obtain hs where hs: "map fst ?es = map (to_hex X) hs" unfolding ex_map_conv [symmetric] by blast
  have mem: "h \<in> set hs \<longleftrightarrow> hash_wf h \<and> chunk_at X d h \<noteq> None \<and> take 2 (to_hex X h) = s" for h
  proof -
    have "h \<in> set hs \<longleftrightarrow> to_hex X h \<in> set (map fst ?es)"
      unfolding hs using to_hex_inj [OF X(2)] by auto
    also have "\<dots> \<longleftrightarrow> (\<exists>k. (to_hex X h, k) \<in> set ?es)" by force
    also have "\<dots> \<longleftrightarrow> hash_wf h \<and> chunk_at X d h \<noteq> None \<and> take 2 (to_hex X h) = s"
      unfolding shard_entries [OF ok s] using to_hex_inj [OF X(2)] by auto
    finally show ?thesis .
  qed
  have lossy: "map (\<lambda>e. utf8_lossy (fst e)) ?es = map (to_hex X) hs"
  proof -
    have "map utf8_lossy (map fst ?es) = map (to_hex X) hs"
      unfolding hs using mem chunk_name_parses(1) [OF X(1,2)] by auto
    then show ?thesis by (simp add: comp_def)
  qed
  have "filter (\<lambda>name. \<not> starts_with_char CHR ''.'' name) (map (to_hex X) hs) = map (to_hex X) hs"
    using mem chunk_name_parses(2) [OF X(1,2)] by (auto simp: filter_id_conv)
  moreover have "try_map (\<lambda>name. map_err HashErr (parse_hash X (''blake3:'' @ name))) (map (to_hex X) hs) = Inr hs"
    unfolding try_map_Inr_iff list_all2_map1
    by (rule list.rel_refl_strong) (use mem chunk_name_parses(3) [OF X(1,2)] in auto)
  ultimately have "shard_hashes X d s = Inr hs"
    by (simp only: shard_hashes_def dir map_err_simps try_then.simps lossy)
  moreover have "distinct (map (to_hex X) hs)"
    unfolding hs [symmetric] using X(4) entries_of_distinct by (auto simp: disk_ok_def)
  then have "distinct hs" by (simp add: distinct_map)
  ultimately show ?thesis using mem by auto
qed

text \<open>\<open>chunk_all\<close> lists each stored chunk once.\<close>

lemma chunk_dir_entries:
  assumes ok: "chunks_ok X B d"
  shows "(s, True) \<in> set (entries_of d [chunk_dir]) \<longleftrightarrow> s \<noteq> [] \<and> fs_lookup d [chunk_dir, s] = Some Dir"
proof (cases "s = []")
  case True
  then show ?thesis using entries_of_names chunks_okD(4) [OF ok] by (auto simp: disk_ok_def)
next
  case False
  then show ?thesis using chunks_okD(4) [OF ok] by (auto simp: entries_of_iff disk_ok_def)
qed

lemma try_map_distinct_concat:
  assumes "distinct ss"
    and "\<And>s. s \<in> set ss \<Longrightarrow> \<exists>hs. f s = Inr hs \<and> distinct hs \<and> set hs = {h. P h \<and> g h = s}"
  shows "\<exists>hss. try_map f ss = Inr hss \<and> distinct (concat hss) \<and> set (concat hss) = {h. P h \<and> g h \<in> set ss}"
  using assms
proof (induction ss)
  case (Cons s ss)
  then obtain hss where "try_map f ss = Inr hss" "distinct (concat hss)"
    "set (concat hss) = {h. P h \<and> g h \<in> set ss}" by auto
  moreover from Cons.prems obtain hs where "f s = Inr hs" "distinct hs" "set hs = {h. P h \<and> g h = s}"
    by (meson list.set_intros(1))
  ultimately show ?case using Cons.prems(1) by auto
qed simp

lemma disk_ok_parent:
  "disk_ok d \<Longrightarrow> contents d p = Some b \<Longrightarrow> fs_lookup d (butlast p) = Some Dir"
  by (cases "p = []") (auto simp: contents_lookup disk_ok_def dest: fs_ok_parent)

lemma chunk_all_ok:
  assumes ok: "chunks_ok X B d"
  shows "\<exists>hs. chunk_all X d = Inr hs \<and> distinct hs \<and> set hs = {h. hash_wf h \<and> chunk_at X d h \<noteq> None}"
proof -
  note X = chunks_okD(1-4) [OF ok]
  let ?ss = "map fst (filter snd (entries_of d [chunk_dir]))"
  have dir: "read_dir_opt d [chunk_dir] = Inr (entries_of d [chunk_dir])"
    using X(4) by (intro read_dir_good) (auto simp: name_error_def NAME_MAX_def)
  have ss: "set ?ss = {s. s \<noteq> [] \<and> fs_lookup d [chunk_dir, s] = Some Dir}"
    unfolding chunk_dir_entries [OF ok, symmetric] by (auto simp: image_iff)
  have "distinct (map fst (entries_of d [chunk_dir]))"
    using X(4) entries_of_distinct unfolding disk_ok_def by blast
  then have "distinct ?ss" by (rule distinct_map_filter)
  then have "\<exists>hss. try_map (shard_hashes X d) ?ss = Inr hss \<and> distinct (concat hss) \<and>
     set (concat hss) = {h. (hash_wf h \<and> chunk_at X d h \<noteq> None) \<and> take 2 (to_hex X h) \<in> set ?ss}"
  proof (rule try_map_distinct_concat)
    fix s assume "s \<in> set ?ss"
    then have "fs_lookup d [chunk_dir, s] = Some Dir" unfolding ss by simp
    from shard_hashes_ok [OF ok this]
    show "\<exists>hs. shard_hashes X d s = Inr hs \<and> distinct hs \<and>
        set hs = {h. (hash_wf h \<and> chunk_at X d h \<noteq> None) \<and> take 2 (to_hex X h) = s}"
      by (simp only: conj_assoc)
  qed
  then obtain hss where hss: "try_map (shard_hashes X d) ?ss = Inr hss" "distinct (concat hss)"
     "set (concat hss) = {h. (hash_wf h \<and> chunk_at X d h \<noteq> None) \<and> take 2 (to_hex X h) \<in> set ?ss}" by blast
  have "take 2 (to_hex X h) \<in> set ?ss" if wf: "hash_wf h" and at: "chunk_at X d h \<noteq> None" for h
  proof -
    from at obtain b where "contents d (shard X chunk_dir h) = Some b" by (auto simp: chunk_at_def)
    with X(4) have "fs_lookup d [chunk_dir, take 2 (to_hex X h)] = Some Dir"
      by (auto dest: disk_ok_parent simp: shard_def)
    then show ?thesis unfolding ss using to_hex_plain(5) [OF X(2) wf] by simp
  qed
  then have "{h. (hash_wf h \<and> chunk_at X d h \<noteq> None) \<and> take 2 (to_hex X h) \<in> set ?ss} =
     {h. hash_wf h \<and> chunk_at X d h \<noteq> None}" by auto
  with hss dir show ?thesis by (simp add: chunk_all_def)
qed

section \<open>The manifest store over the contents of the disk\<close>

definition manifest_at :: "ext \<Rightarrow> fs \<Rightarrow> hash \<Rightarrow> bytes option" where
  "manifest_at X d h = contents d (shard X manifest_dir h)"

text \<open>
  The invariant: a manifest file holds the manifest it is named after. \<open>M\<close> is the set of manifest
  bodies this store ever hashes.
\<close>

definition manifests_ok :: "ext \<Rightarrow> bytes set \<Rightarrow> fs \<Rightarrow> bool" where
  "manifests_ok X M d \<longleftrightarrow>
     hash_ok X \<and> hex_ok X \<and> json_ok X \<and> inj_on (blake3 X) M \<and> disk_ok d \<and>
     (\<forall>h b. hash_wf h \<longrightarrow> manifest_at X d h = Some b \<longrightarrow>
        (\<exists>m. b = manifest_to_json X m \<and> manifest_wf X m \<and> manifest_version m \<le> MANIFEST_VERSION \<and>
             manifest_body X m \<in> M \<and> manifest_id X m = h \<and> object_id m = h))"

definition manifest_storable :: "ext \<Rightarrow> bytes set \<Rightarrow> manifest \<Rightarrow> bool" where
  "manifest_storable X M m \<longleftrightarrow>
     manifest_wf X m \<and> manifest_version m \<le> MANIFEST_VERSION \<and> manifest_body X m \<in> M"

definition with_id :: "ext \<Rightarrow> manifest \<Rightarrow> manifest" where
  "with_id X m = m\<lparr>object_id := manifest_id X m\<rparr>"

lemma hash_wf_manifest_id [simp]: "hash_ok X \<Longrightarrow> hash_wf (manifest_id X m)"
  by (simp add: manifest_id_def)

lemma manifest_id_with_id [simp]: "json_ok X \<Longrightarrow> manifest_id X (with_id X m) = manifest_id X m"
  by (simp add: manifest_id_def with_id_def json_okD)

lemma manifest_wf_with_id [simp]: "hash_ok X \<Longrightarrow> manifest_wf X (with_id X m) \<longleftrightarrow> manifest_wf X (m\<lparr>object_id := Hash (replicate 32 0)\<rparr>)"
  by (simp add: with_id_def manifest_wf_def exact_score_def hash_wf_def hash_okD manifest_id_def hash_of_def)

lemma manifest_wf_object_id: "manifest_wf X m \<Longrightarrow> hash_wf h \<Longrightarrow> manifest_wf X (m\<lparr>object_id := h\<rparr>)"
  by (simp add: manifest_wf_def exact_score_def)

lemma manifest_get_eq:
  assumes "hex_ok X" "disk_ok d" "hash_wf h"
  shows "manifest_get X d h =
     (case manifest_at X d h of
        None \<Rightarrow> Inr None
      | Some b \<Rightarrow>
          (case manifest_of_json X b of
             None \<Rightarrow> Inl Serde
           | Some m \<Rightarrow>
               if manifest_version m > MANIFEST_VERSION then
                 Inl (UnsupportedManifest (manifest_version m) MANIFEST_VERSION)
               else if manifest_id X m \<noteq> h then Inl (Integrity (show_hash X h))
               else Inr (Some m)))"
  using assms by (simp add: manifest_get_def manifest_at_def read_opt_good good_shard)

lemma manifest_get_Some:
  "manifest_get X d h = Inr (Some m) \<Longrightarrow> manifest_id X m = h \<and> manifest_version m \<le> MANIFEST_VERSION"
proof -
  assume "manifest_get X d h = Inr (Some m)"
  then obtain r where "(case r of None \<Rightarrow> Inr None
       | Some b \<Rightarrow>
           (case manifest_of_json X b of
              None \<Rightarrow> Inl Serde
            | Some m \<Rightarrow>
                if manifest_version m > MANIFEST_VERSION then
                  Inl (UnsupportedManifest (manifest_version m) MANIFEST_VERSION)
                else if manifest_id X m \<noteq> h then Inl (Integrity (show_hash X h))
                else Inr (Some m))) = (Inr (Some m) :: store_error + manifest option)"
    unfolding manifest_get_def try_then_Inr_iff by blast
  then show ?thesis by (auto split: option.splits if_splits)
qed

lemma manifest_get_ok:
  assumes ok: "manifests_ok X M d" and wf: "hash_wf h"
  shows "manifest_at X d h = None \<Longrightarrow> manifest_get X d h = Inr None"
    "manifest_at X d h = Some b \<Longrightarrow>
       \<exists>m. manifest_get X d h = Inr (Some m) \<and> b = manifest_to_json X m \<and> manifest_wf X m \<and>
           manifest_body X m \<in> M \<and> manifest_id X m = h \<and> object_id m = h"
proof -
  have X: "hex_ok X" "disk_ok d" "json_ok X" using ok by (auto simp: manifests_ok_def)
  show "manifest_get X d h = Inr None" if "manifest_at X d h = None"
    using that X wf by (simp add: manifest_get_eq)
  assume b: "manifest_at X d h = Some b"
  with ok wf obtain m where m: "b = manifest_to_json X m" "manifest_wf X m"
    "manifest_version m \<le> MANIFEST_VERSION" "manifest_body X m \<in> M" "manifest_id X m = h" "object_id m = h"
    unfolding manifests_ok_def by blast
  then have "manifest_get X d h = Inr (Some m)"
    using b X wf by (simp add: manifest_get_eq json_okD)
  with m show "\<exists>m. manifest_get X d h = Inr (Some m) \<and> b = manifest_to_json X m \<and> manifest_wf X m \<and>
           manifest_body X m \<in> M \<and> manifest_id X m = h \<and> object_id m = h" by blast
qed

lemma manifest_put_eq:
  assumes "hash_ok X" "hex_ok X" "disk_ok d"
  shows "manifest_put X m d =
     (Inr (manifest_id X m),
      if manifest_at X d (manifest_id X m) = None
      then put_file (shard X manifest_dir (manifest_id X m)) (manifest_to_json X (with_id X m)) d else d)"
  using assms
  by (simp add: manifest_put_def manifest_at_def Let_def exists_good write_good good_shard with_id_def)

lemma manifest_at_put_file:
  assumes "hex_ok X" "hash_wf h"
  shows "manifest_at X (put_file (shard X manifest_dir h) b d) k =
     (if k = h then Some b else manifest_at X d k)"
  using assms by (simp add: manifest_at_def contents_put_file good_shard shard_inj)

lemma manifests_ok_put:
  assumes ok: "manifests_ok X M d" and m: "manifest_storable X M m" and put: "manifest_put X m d = (r, d')"
  shows "manifests_ok X M d'" "r = Inr (manifest_id X m)"
    "manifest_at X d' h =
       (if h = manifest_id X m then Some (manifest_to_json X (with_id X m)) else manifest_at X d h)"
proof -
  have X: "hash_ok X" "hex_ok X" "json_ok X" "disk_ok d" "inj_on (blake3 X) M"
    using ok by (auto simp: manifests_ok_def)
  from m have mm: "manifest_wf X (with_id X m)" "manifest_version (with_id X m) \<le> MANIFEST_VERSION"
    "manifest_body X (with_id X m) \<in> M" "object_id (with_id X m) = manifest_id X m"
    using X by (auto simp: manifest_storable_def with_id_def manifest_wf_object_id json_okD)
  from put X show "r = Inr (manifest_id X m)" by (simp add: manifest_put_eq)
  show at: "manifest_at X d' h =
       (if h = manifest_id X m then Some (manifest_to_json X (with_id X m)) else manifest_at X d h)" for h
  proof (cases "manifest_at X d (manifest_id X m)")
    case None
    with put X show ?thesis by (auto simp: manifest_put_eq manifest_at_put_file)
  next
    case (Some b)
    from manifest_get_ok(2) [OF ok _ Some] X obtain m' where m': "b = manifest_to_json X m'"
      "manifest_wf X m'" "manifest_body X m' \<in> M" "manifest_id X m' = manifest_id X m"
      "object_id m' = manifest_id X m" by auto
    then have "manifest_body X m' = manifest_body X (with_id X m)"
      using X mm m by (auto simp: manifest_id_def manifest_storable_def with_id_def json_okD dest: inj_onD)
    then have "m' = with_id X m"
      using manifest_body_inj [OF X(3) m'(2) mm(1)] m'(5) mm(4) by simp
    with Some m'(1) put X show ?thesis by (auto simp: manifest_put_eq)
  qed
  have "disk_ok d'"
    using put X by (auto simp: manifest_put_eq disk_ok_put_file good_shard)
  moreover have "\<exists>m. b = manifest_to_json X m \<and> manifest_wf X m \<and> manifest_version m \<le> MANIFEST_VERSION \<and>
             manifest_body X m \<in> M \<and> manifest_id X m = h \<and> object_id m = h"
    if "hash_wf h" "manifest_at X d' h = Some b" for h b
  proof (cases "h = manifest_id X m")
    case True
    with that at have "b = manifest_to_json X (with_id X m)" by simp
    with mm True X show ?thesis by (intro exI [of _ "with_id X m"]) auto
  next
    case False
    with that at ok show ?thesis unfolding manifests_ok_def by metis
  qed
  ultimately show "manifests_ok X M d'" using X by (simp add: manifests_ok_def)
qed

interpretation manifest: blob_store "manifest_put X" "manifest_get X" "manifest_id X" "with_id X"
  "manifests_ok X M" "manifest_storable X M" for X M
proof (unfold_locales, goal_cases)
  case (1 d m)
  then show ?case using manifests_ok_put [OF 1] by (cases "manifest_put X m d") auto
next
  case (2 d m a d')
  note ok' = manifests_ok_put [OF 2]
  have X: "hash_ok X" "json_ok X" using 2(1) by (auto simp: manifests_ok_def)
  have a: "a = manifest_id X m" using ok'(2) by simp
  have wf: "manifest_wf X (with_id X m)"
    using 2(2) X by (auto simp: manifest_storable_def with_id_def manifest_wf_object_id)
  have "manifest_at X d' a = Some (manifest_to_json X (with_id X m))" using ok'(3) [of a] a by simp
  from manifest_get_ok(2) [OF ok'(1) _ this] obtain n where
    n: "manifest_get X d' a = Inr (Some n)" "manifest_to_json X (with_id X m) = manifest_to_json X n" "manifest_wf X n"
    using a X by auto
  then have "n = with_id X m" using json_okD(1) [OF X(2)] wf by (metis option.inject)
  with n show ?case by simp
next
  case (3 d m a d' c x)
  note ok' = manifests_ok_put [OF 3(1-3)]
  have X: "hash_ok X" "json_ok X" "inj_on (blake3 X) M" using 3(1) by (auto simp: manifests_ok_def)
  from 3(4) have c: "manifest_id X x = c" using manifest_get_Some by blast
  then have wf: "hash_wf c" using X by auto
  from 3(4) manifest_get_ok(1) [OF 3(1) wf] obtain b where b: "manifest_at X d c = Some b"
    by (cases "manifest_at X d c") auto
  from manifest_get_ok(2) [OF 3(1) wf b] 3(4) have x: "b = manifest_to_json X x" "manifest_wf X x"
    "manifest_body X x \<in> M" "object_id x = c" by auto
  have "manifest_at X d' c = Some b"
  proof (cases "c = manifest_id X m")
    case True
    have "manifest_body X m \<in> M" "manifest_wf X m" using 3(2) by (auto simp: manifest_storable_def)
    then have "manifest_body X x = manifest_body X (with_id X m)"
      using True c x X by (auto simp: manifest_id_def with_id_def json_okD dest: inj_onD)
    moreover have "manifest_wf X (with_id X m)"
      using \<open>manifest_wf X m\<close> X by (simp only: with_id_def manifest_wf_object_id hash_wf_manifest_id)
    ultimately have "x = with_id X m"
      using manifest_body_inj [OF X(2) x(2)] x(4) True by (simp add: with_id_def)
    then show ?thesis using ok'(3) [of c] True x(1) by simp
  next
    case False
    then show ?thesis using ok'(3) [of c] b by simp
  qed
  from manifest_get_ok(2) [OF ok'(1) wf this] obtain n where
    "manifest_get X d' c = Inr (Some n)" "b = manifest_to_json X n" "manifest_wf X n" by auto
  then show ?case using x(1,2) json_okD(1) [OF X(2)] by (metis option.inject)
qed

end
