(* ===== verification/Pointer_Store.thy ===== *)
theory Pointer_Store
  imports Content_Store
begin

text \<open>
  Pointers (\<open>barme-store/src/pointer_store.rs\<close>): per pot and key an append-only list of manifest
  hashes, one per line, oldest first. The whole file is rewritten on every change.

  \<open>version_log\<close> states what the engine expects of the store: a set appends one version to one
  key, a trim keeps the newest ones, a remove empties the log, and nothing else changes.
\<close>

section \<open>Operations\<close>

definition bucket_dir :: "string \<Rightarrow> store_error + path" where
  "bucket_dir b =
     (if b = [] \<or> b = ''.'' \<or> b = ''..'' \<or> CHR ''/'' \<in> set b \<or> CHR 0x5C \<in> set b
      then Inl (BadBucket b) else Inr [pointer_dir, b])"

definition pointer_path :: "ext \<Rightarrow> string \<Rightarrow> string \<Rightarrow> store_error + path" where
  "pointer_path X b k = try_then (bucket_dir b) (\<lambda>dir. Inr (dir @ [hex_encode X (as_bytes k)]))"

definition read_to_string_opt :: "fs \<Rightarrow> path \<Rightarrow> store_error + string option" where
  "read_to_string_opt d p =
     (case fs_read_to_string d p of
        Inr s \<Rightarrow> Inr (Some s)
      | Inl e \<Rightarrow> if e = NotFound then Inr None else Inl (Io e))"

definition entry_lines :: "ext \<Rightarrow> hash list \<Rightarrow> string" where
  "entry_lines X hs = concat (map (\<lambda>h. show_hash X h @ [CHR 0x0A]) hs)"

definition pointer_set :: "ext \<Rightarrow> string \<Rightarrow> string \<Rightarrow> hash \<Rightarrow> fs \<Rightarrow> (store_error + unit) \<times> fs" where
  "pointer_set X b k h d =
     and_then (pointer_path X b k, d) (\<lambda>p d.
     and_then (read_to_string_opt d p, d) (\<lambda>c d.
       let text = (case c of None \<Rightarrow> [] | Some s \<Rightarrow> s) @ show_hash X h @ [CHR 0x0A] in
       io_step (write_atomic p (as_bytes text) d)))"

definition parse_lines :: "ext \<Rightarrow> string \<Rightarrow> hash list" where
  "parse_lines X s =
     List.map_filter (\<lambda>l. case parse_hash X l of Inl e \<Rightarrow> None | Inr h \<Rightarrow> Some h)
       (filter (\<lambda>l. l \<noteq> []) (lines s))"

definition history :: "ext \<Rightarrow> fs \<Rightarrow> string \<Rightarrow> string \<Rightarrow> store_error + hash list" where
  "history X d b k =
     try_then (pointer_path X b k) (\<lambda>p.
     try_then (read_to_string_opt d p) (\<lambda>c.
       Inr (case c of None \<Rightarrow> [] | Some s \<Rightarrow> parse_lines X s)))"

definition current :: "ext \<Rightarrow> fs \<Rightarrow> string \<Rightarrow> string \<Rightarrow> store_error + hash option" where
  "current X d b k =
     try_then (history X d b k) (\<lambda>hs. Inr (if hs = [] then None else Some (last hs)))"

definition pointer_buckets :: "fs \<Rightarrow> store_error + string list" where
  "pointer_buckets d =
     try_then (map_err Io (read_dir_opt d [pointer_dir])) (\<lambda>es.
       Inr (map (\<lambda>e. utf8_lossy (fst e)) (filter snd es)))"

definition pointer_list :: "ext \<Rightarrow> fs \<Rightarrow> string \<Rightarrow> store_error + string list" where
  "pointer_list X d b =
     try_then (bucket_dir b) (\<lambda>dir.
     try_then (map_err Io (read_dir_opt d dir)) (\<lambda>es.
       try_map (\<lambda>name. try_then (ok_or (BadBucket b) (hex_decode X name)) (\<lambda>bs. Inr (from_utf8_lossy bs)))
         (filter (\<lambda>name. \<not> starts_with_char CHR ''.'' name) (map (\<lambda>e. utf8_lossy (fst e)) es))))"

definition pointer_remove :: "ext \<Rightarrow> string \<Rightarrow> string \<Rightarrow> fs \<Rightarrow> (store_error + unit) \<times> fs" where
  "pointer_remove X b k d = and_then (pointer_path X b k, d) (\<lambda>p d. io_step (remove_opt p d))"

definition pointer_rename_bucket :: "string \<Rightarrow> string \<Rightarrow> fs \<Rightarrow> (store_error + unit) \<times> fs" where
  "pointer_rename_bucket old new d =
     and_then (bucket_dir old, d) (\<lambda>src d.
     and_then (bucket_dir new, d) (\<lambda>dst d.
       if \<not> fs_exists d src then (Inr (), d)
       else if fs_exists d dst then (Inl (BadBucket (new @ '' already exists'')), d)
       else (case rename d src dst of Inl e \<Rightarrow> (Inl (Io e), d) | Inr d' \<Rightarrow> (Inr (), d'))))"

definition pointer_delete_bucket :: "string \<Rightarrow> fs \<Rightarrow> (store_error + unit) \<times> fs" where
  "pointer_delete_bucket b d =
     and_then (bucket_dir b, d) (\<lambda>dir d.
       case remove_dir_all d dir of
         Inr d' \<Rightarrow> (Inr (), d')
       | Inl e \<Rightarrow> (if e = NotFound then Inr () else Inl (Io e), d))"

definition pointer_copy :: "ext \<Rightarrow> string \<Rightarrow> string \<Rightarrow> string \<Rightarrow> string \<Rightarrow> fs \<Rightarrow> (store_error + bool) \<times> fs" where
  "pointer_copy X fb fk tb tk d =
     and_then (current X d fb fk, d) (\<lambda>c d.
       case c of
         None \<Rightarrow> (Inr False, d)
       | Some h \<Rightarrow> and_then (pointer_set X tb tk h d) (\<lambda>_ d. (Inr True, d)))"

definition pointer_trim :: "ext \<Rightarrow> string \<Rightarrow> string \<Rightarrow> nat \<Rightarrow> fs \<Rightarrow> (store_error + unit) \<times> fs" where
  "pointer_trim X b k keep d =
     (if keep = 0 then (Inr (), d)
      else and_then (history X d b k, d) (\<lambda>hs d.
        if length hs \<le> keep then (Inr (), d)
        else and_then (pointer_path X b k, d) (\<lambda>p d.
          io_step (write_atomic p (as_bytes (entry_lines X (drop (length hs - keep) hs))) d))))"

definition move_key :: "ext \<Rightarrow> string \<Rightarrow> string \<Rightarrow> string \<Rightarrow> string \<Rightarrow> fs \<Rightarrow> (store_error + bool) \<times> fs" where
  "move_key X fb fk tb tk d =
     and_then (history X d fb fk, d) (\<lambda>hs d.
       if hs = [] then (Inr False, d)
       else and_then (pointer_path X tb tk, d) (\<lambda>p d.
            and_then (io_step (write_atomic p (as_bytes (entry_lines X hs)) d)) (\<lambda>_ d.
            and_then (pointer_remove X fb fk d) (\<lambda>_ d. (Inr True, d)))))"

section \<open>The contract of a versioned key store\<close>

locale version_log =
  fixes append :: "'k \<Rightarrow> 'v \<Rightarrow> 'd \<Rightarrow> ('e + unit) \<times> 'd"
    and log :: "'d \<Rightarrow> 'k \<Rightarrow> 'v list"
    and ok :: "'d \<Rightarrow> bool"
    and valid :: "'k \<Rightarrow> bool"
    and wf :: "'v \<Rightarrow> bool"
  assumes append_total: "ok d \<Longrightarrow> valid k \<Longrightarrow> wf v \<Longrightarrow> \<exists>d'. append k v d = (Inr (), d') \<and> ok d'"
    and append_log: "ok d \<Longrightarrow> valid k \<Longrightarrow> wf v \<Longrightarrow> append k v d = (r, d') \<Longrightarrow> valid j \<Longrightarrow>
                       log d' j = (if j = k then log d j @ [v] else log d j)"
begin

text \<open>Replaying a sequence of writes: each key sees exactly its own, in order.\<close>

fun appends :: "('k \<times> 'v) list \<Rightarrow> 'd \<Rightarrow> 'd" where
  "appends [] d = d"
| "appends ((k, v) # ws) d = appends ws (snd (append k v d))"

lemma appends_log:
  "ok d \<Longrightarrow> (\<forall>(k, v) \<in> set ws. valid k \<and> wf v) \<Longrightarrow> valid j \<Longrightarrow>
     ok (appends ws d) \<and> log (appends ws d) j = log d j @ map snd (filter (\<lambda>w. fst w = j) ws)"
proof (induction ws arbitrary: d)
  case (Cons w ws)
  obtain k v where w: "w = (k, v)" by (cases w)
  with Cons.prems append_total obtain d' where d': "append k v d = (Inr (), d')" "ok d'" by fastforce
  with append_log [OF _ _ _ d'(1) Cons.prems(3)] Cons.prems Cons.IH [OF d'(2)] w
  show ?case by (auto split: if_splits)
qed simp

text \<open>A rollback is an append: the old head stays in the log, the chosen version becomes current.\<close>

lemma rollback:
  assumes "ok d" "valid k" "v \<in> set (log d k)" "wf v"
  shows "\<exists>d'. append k v d = (Inr (), d') \<and> ok d' \<and> last (log d' k) = v \<and>
           (\<forall>i < length (log d k). log d' k ! i = log d k ! i)"
proof -
  obtain d' where d': "append k v d = (Inr (), d')" "ok d'" using append_total assms by blast
  with append_log [OF assms(1,2,4) d'(1) assms(2)] show ?thesis by (auto simp: nth_append)
qed

end

section \<open>Lines\<close>

lemma show_hash_chars:
  assumes "hex_ok X" "c \<in> set (show_hash X h)"
  shows "c \<noteq> CHR 0x0A" "c \<noteq> CHR 0x0D" "of_char c < (128::nat)"
  using assms hex_encode_chars [OF assms(1), of c "hash_bytes h"] by (auto simp: show_hash_def)

lemma ascii_show_hash: "hex_ok X \<Longrightarrow> ascii (show_hash X h)"
  using show_hash_chars(3) by (auto simp: ascii_def)

lemma ascii_entry_lines: "hex_ok X \<Longrightarrow> ascii (entry_lines X hs)"
  using ascii_show_hash by (fastforce simp: entry_lines_def ascii_def)

lemma lines_entry_lines: "hex_ok X \<Longrightarrow> lines (entry_lines X hs) = map (show_hash X) hs"
proof -
  assume X: "hex_ok X"
  have "lines (concat (map (\<lambda>l. l @ [CHR 0x0A]) (map (show_hash X) hs))) = map (show_hash X) hs"
  proof (rule lines_unlines)
    fix l
    assume "l \<in> set (map (show_hash X) hs)"
    then obtain h where h: "l = show_hash X h" by auto
    then have "last l \<in> set l" by (simp add: show_hash_def)
    with show_hash_chars [OF X] h show "CHR 0x0A \<notin> set l \<and> strip_cr l = l"
      by (auto simp: strip_cr_def)
  qed
  then show ?thesis by (simp add: entry_lines_def comp_def)
qed

lemma parse_entry_lines [simp]:
  assumes "hex_ok X" "list_all hash_wf hs"
  shows "parse_lines X (entry_lines X hs) = hs"
proof -
  have "filter (\<lambda>l. l \<noteq> []) (map (show_hash X) hs) = map (show_hash X) hs"
    by (auto simp: filter_id_conv show_hash_def)
  moreover have "List.map_filter (\<lambda>l. case parse_hash X l of Inl e \<Rightarrow> None | Inr h \<Rightarrow> Some h)
      (map (show_hash X) hs) = hs"
    using assms(2) parse_show_hash [OF assms(1)] by (induction hs) (auto simp: map_filter_simps)
  ultimately show ?thesis by (simp add: parse_lines_def lines_entry_lines assms(1))
qed

lemma entry_lines_snoc: "entry_lines X (hs @ [h]) = entry_lines X hs @ show_hash X h @ [CHR 0x0A]"
  by (simp add: entry_lines_def)

section \<open>The pointer store over the contents of the disk\<close>

definition valid_bucket :: "string \<Rightarrow> bool" where
  "valid_bucket b \<longleftrightarrow>
     bucket_dir b = Inr [pointer_dir, b] \<and> utf8_valid b \<and> CHR 0x00 \<notin> set b \<and> length b \<le> NAME_MAX"

definition valid_key :: "string \<Rightarrow> bool" where
  "valid_key k \<longleftrightarrow> k \<noteq> [] \<and> 2 * length k \<le> NAME_MAX \<and> utf8_valid k"

definition pointer_file :: "ext \<Rightarrow> string \<Rightarrow> string \<Rightarrow> path" where
  "pointer_file X b k = [pointer_dir, b, hex_encode X (as_bytes k)]"

definition log_at :: "ext \<Rightarrow> fs \<Rightarrow> string \<Rightarrow> string \<Rightarrow> hash list" where
  "log_at X d b k =
     (case contents d (pointer_file X b k) of None \<Rightarrow> [] | Some c \<Rightarrow> parse_lines X (of_bytes c))"

text \<open>The invariant: pots and keys have usable names, and every pointer file holds hash lines.\<close>

definition pointers_ok :: "ext \<Rightarrow> fs \<Rightarrow> bool" where
  "pointers_ok X d \<longleftrightarrow>
     hash_ok X \<and> hex_ok X \<and> disk_ok d \<and>
     (\<forall>b. fs_lookup d [pointer_dir, b] = Some Dir \<longrightarrow> valid_bucket b) \<and>
     (\<forall>b f c. contents d [pointer_dir, b, f] = Some c \<longrightarrow>
        (\<exists>k. valid_key k \<and> f = hex_encode X (as_bytes k)) \<and>
        (\<exists>hs. list_all hash_wf hs \<and> c = as_bytes (entry_lines X hs)))"

lemma pointers_okD:
  assumes "pointers_ok X d"
  shows "hash_ok X" "hex_ok X" "disk_ok d"
    "fs_lookup d [pointer_dir, b] = Some Dir \<Longrightarrow> valid_bucket b"
    "contents d [pointer_dir, b, f] = Some c \<Longrightarrow>
       (\<exists>k. valid_key k \<and> f = hex_encode X (as_bytes k)) \<and>
       (\<exists>hs. list_all hash_wf hs \<and> c = as_bytes (entry_lines X hs))"
  using assms unfolding pointers_ok_def by blast+

lemma valid_bucketD:
  assumes "valid_bucket b"
  shows "b \<noteq> []" "bucket_dir b = Inr [pointer_dir, b]" "name_error [pointer_dir, b] = None"
    "utf8_lossy b = b"
  using assms
  by (auto simp: valid_bucket_def bucket_dir_def name_error_def NAME_MAX_def utf8_lossy_valid split: if_splits)

lemma good_pointer [path_simps]:
  assumes "hex_ok X" "valid_bucket b" "valid_key k"
  shows "good (pointer_file X b k)"
proof -
  have "hex_encode X (as_bytes k) \<noteq> []"
    using hex_okD(2) [OF assms(1), of "as_bytes k"] assms(3) by (auto simp: valid_key_def)
  moreover have "CHR 0x00 \<notin> set (hex_encode X (as_bytes k))"
    using hex_encode_chars [OF assms(1)] by blast
  moreover have "length (hex_encode X (as_bytes k)) \<le> NAME_MAX"
    using hex_okD(2) [OF assms(1), of "as_bytes k"] assms(3) by (simp add: valid_key_def)
  ultimately show ?thesis using valid_bucketD [OF assms(2)] assms(2)
    by (auto simp: good_def pointer_file_def hidden_name_def name_error_def valid_bucket_def NAME_MAX_def)
qed

lemma pointer_file_inj [path_simps]:
  "hex_ok X \<Longrightarrow> pointer_file X b k = pointer_file X c j \<longleftrightarrow> b = c \<and> k = j"
  by (auto simp: pointer_file_def hex_okD)

lemma pointer_path_valid: "valid_bucket b \<Longrightarrow> pointer_path X b k = Inr (pointer_file X b k)"
  by (simp add: pointer_path_def pointer_file_def valid_bucketD)

lemma read_pointer:
  assumes ok: "pointers_ok X d" and v: "valid_bucket b" "valid_key k"
  shows "read_to_string_opt d (pointer_file X b k) =
     Inr (map_option of_bytes (contents d (pointer_file X b k)))"
    "contents d (pointer_file X b k) = None \<Longrightarrow> log_at X d b k = []"
    "contents d (pointer_file X b k) = Some c \<Longrightarrow>
       c = as_bytes (entry_lines X (log_at X d b k)) \<and> list_all hash_wf (log_at X d b k)"
proof -
  note X = pointers_okD(1-3) [OF ok]
  have g: "good (pointer_file X b k)" using X v by (simp add: good_pointer)
  show "log_at X d b k = []" if "contents d (pointer_file X b k) = None" using that by (simp add: log_at_def)
  have lines: "\<exists>hs. list_all hash_wf hs \<and> c = as_bytes (entry_lines X hs)"
    if "contents d (pointer_file X b k) = Some c" for c
    using that pointers_okD(5) [OF ok] unfolding pointer_file_def by blast
  then show "c = as_bytes (entry_lines X (log_at X d b k)) \<and> list_all hash_wf (log_at X d b k)"
    if "contents d (pointer_file X b k) = Some c" using that X by (auto simp: log_at_def)
  show "read_to_string_opt d (pointer_file X b k) = Inr (map_option of_bytes (contents d (pointer_file X b k)))"
  proof (cases "contents d (pointer_file X b k)")
    case None
    then show ?thesis using X g by (simp add: read_to_string_opt_def fs_read_to_string_def read_good)
  next
    case (Some c)
    with lines obtain hs where "c = as_bytes (entry_lines X hs)" by blast
    moreover have "utf8_valid (entry_lines X hs)" using X by (simp add: utf8_valid_ascii ascii_entry_lines)
    ultimately show ?thesis using X g Some
      by (simp add: read_to_string_opt_def fs_read_to_string_def read_good)
  qed
qed

lemma history_eq:
  assumes "pointers_ok X d" "valid_bucket b" "valid_key k"
  shows "history X d b k = Inr (log_at X d b k)" "list_all hash_wf (log_at X d b k)"
proof -
  show "history X d b k = Inr (log_at X d b k)"
    using assms read_pointer(1) [OF assms] by (cases "contents d (pointer_file X b k)")
      (auto simp: history_def pointer_path_valid log_at_def)
  show "list_all hash_wf (log_at X d b k)"
    using read_pointer(2,3) [OF assms] by (cases "contents d (pointer_file X b k)") auto
qed

text \<open>Writing a pointer file.\<close>

lemma lookup_put_file:
  "p \<noteq> [] \<Longrightarrow> fs_lookup (put_file p b d) q =
     (if q = p then Some (File b) else if fs_lookup d q = None \<and> strict_prefix q p then Some Dir
      else fs_lookup d q)"
  by (simp add: put_file_def fs_lookup_add_dirs set_parents)

lemma pointers_ok_write:
  assumes ok: "pointers_ok X d" and v: "valid_bucket b" "valid_key k" and hs: "list_all hash_wf hs"
    and d': "d' = put_file (pointer_file X b k) (as_bytes (entry_lines X hs)) d"
  shows "pointers_ok X d'" "log_at X d' c j = (if c = b \<and> j = k then hs else log_at X d c j)"
proof -
  note X = pointers_okD(1-3) [OF ok]
  have g: "good (pointer_file X b k)" using X v by (simp add: good_pointer)
  show "log_at X d' c j = (if c = b \<and> j = k then hs else log_at X d c j)"
    using X g hs by (simp add: log_at_def d' contents_put_file pointer_file_inj)
  have "disk_ok d'" using X g by (simp add: d' disk_ok_put_file)
  moreover have "valid_bucket c" if "fs_lookup d' [pointer_dir, c] = Some Dir" for c
    using that pointers_okD(4) [OF ok] v
    by (auto simp: d' lookup_put_file pointer_file_def split: if_splits)
  moreover have "(\<exists>k. valid_key k \<and> f = hex_encode X (as_bytes k)) \<and>
       (\<exists>hs. list_all hash_wf hs \<and> x = as_bytes (entry_lines X hs))"
    if "contents d' [pointer_dir, c, f] = Some x" for c f x
    using that pointers_okD(5) [OF ok] hs v g
    by (auto simp: d' contents_put_file pointer_file_def split: if_splits)
  ultimately show "pointers_ok X d'" using X unfolding pointers_ok_def by blast
qed

lemma pointer_set_ok:
  assumes ok: "pointers_ok X d" and v: "valid_bucket b" "valid_key k" "hash_wf h"
    and set: "pointer_set X b k h d = (r, d')"
  shows "r = Inr ()" "pointers_ok X d'"
    "log_at X d' c j = (if c = b \<and> j = k then log_at X d b k @ [h] else log_at X d c j)"
    "d' = put_file (pointer_file X b k) (as_bytes (entry_lines X (log_at X d b k @ [h]))) d"
proof -
  note X = pointers_okD(1-3) [OF ok]
  have g: "good (pointer_file X b k)" using X v by (simp add: good_pointer)
  have "(case map_option of_bytes (contents d (pointer_file X b k)) of None \<Rightarrow> [] | Some s \<Rightarrow> s)
      = entry_lines X (log_at X d b k)"
    using read_pointer(2,3) [OF ok v(1,2)] by (cases "contents d (pointer_file X b k)")
      (auto simp: entry_lines_def)
  then have "pointer_set X b k h d =
      (Inr (), put_file (pointer_file X b k) (as_bytes (entry_lines X (log_at X d b k @ [h]))) d)"
    using X g v read_pointer(1) [OF ok v(1,2)]
    by (simp add: pointer_set_def pointer_path_valid write_good entry_lines_snoc Let_def)
  with set show "r = Inr ()"
    and d': "d' = put_file (pointer_file X b k) (as_bytes (entry_lines X (log_at X d b k @ [h]))) d" by auto
  have "list_all hash_wf (log_at X d b k @ [h])" using history_eq(2) [OF ok v(1,2)] v(3) by simp
  from pointers_ok_write [OF ok v(1,2) this d']
  show "pointers_ok X d'"
    "log_at X d' c j = (if c = b \<and> j = k then log_at X d b k @ [h] else log_at X d c j)" by auto
qed

interpretation pointer: version_log "\<lambda>(b, k). pointer_set X b k" "\<lambda>d (b, k). log_at X d b k"
  "pointers_ok X" "\<lambda>(b, k). valid_bucket b \<and> valid_key k" hash_wf for X
proof (unfold_locales, goal_cases)
  case (1 d k v)
  then show ?case using pointer_set_ok [of X d "fst k" "snd k" v]
    by (cases "pointer_set X (fst k) (snd k) v d") (auto simp: case_prod_beta)
next
  case (2 d k v r d' j)
  then show ?case using pointer_set_ok(3) [of X d "fst k" "snd k" v r d' "fst j" "snd j"]
    by (auto simp: case_prod_beta prod_eq_iff)
qed

subsection \<open>Trimming, removing, moving, copying\<close>

lemma pointer_trim_ok:
  assumes ok: "pointers_ok X d" and v: "valid_bucket b" "valid_key k"
    and trim: "pointer_trim X b k n d = (r, d')"
  shows "r = Inr ()" "pointers_ok X d'"
    "log_at X d' c j =
       (if c = b \<and> j = k \<and> 0 < n then drop (length (log_at X d b k) - n) (log_at X d b k) else log_at X d c j)"
proof -
  note X = pointers_okD(1-3) [OF ok]
  note hs = history_eq [OF ok v]
  have g: "good (pointer_file X b k)" using X v by (simp add: good_pointer)
  show "r = Inr ()" using trim X g v hs
    by (auto simp: pointer_trim_def pointer_path_valid write_good split: if_splits)
  let ?cut = "drop (length (log_at X d b k) - n) (log_at X d b k)"
  consider (same) "d' = d" "n = 0 \<or> length (log_at X d b k) \<le> n"
    | (cut) "0 < n" "d' = put_file (pointer_file X b k) (as_bytes (entry_lines X ?cut)) d"
    using trim X g v hs by (auto simp: pointer_trim_def pointer_path_valid write_good split: if_splits)
  then have "pointers_ok X d' \<and>
    log_at X d' c j = (if c = b \<and> j = k \<and> 0 < n then ?cut else log_at X d c j)"
  proof cases
    case same
    then show ?thesis using ok by auto
  next
    case cut
    have "list_all hash_wf ?cut" using hs(2) by (auto simp: list_all_iff dest: in_set_dropD)
    from pointers_ok_write [OF ok v this cut(2)] cut(1) show ?thesis by auto
  qed
  then show "pointers_ok X d'"
    "log_at X d' c j = (if c = b \<and> j = k \<and> 0 < n then ?cut else log_at X d c j)" by auto
qed

lemma pointer_remove_ok:
  assumes ok: "pointers_ok X d" and v: "valid_bucket b" "valid_key k"
    and rem: "pointer_remove X b k d = (r, d')"
  shows "r = Inr ()" "pointers_ok X d'"
    "log_at X d' c j = (if c = b \<and> j = k then [] else log_at X d c j)"
    "contents d' q = (if q = pointer_file X b k then None else contents d q)"
proof -
  note X = pointers_okD(1-3) [OF ok]
  have g: "good (pointer_file X b k)" "pointer_file X b k \<noteq> []"
    using X v good_plain by (auto simp: good_pointer)
  have d': "r = Inr () \<and> d' = snd (remove_opt (pointer_file X b k) d)"
    using rem X g v by (auto simp: pointer_remove_def pointer_path_valid remove_opt_good)
  then show "r = Inr ()" by simp
  show c: "contents d' q = (if q = pointer_file X b k then None else contents d q)" for q
    using d' X g by (simp add: contents_remove_opt)
  show "log_at X d' c j = (if c = b \<and> j = k then [] else log_at X d c j)"
    using X by (simp add: log_at_def c pointer_file_inj)
  have "disk_ok d'" using d' X g by (simp add: disk_ok_remove_opt)
  moreover have "valid_bucket c" if "fs_lookup d' [pointer_dir, c] = Some Dir" for c
    using that pointers_okD(4) [OF ok] d' X g
    by (auto simp: remove_opt_good pointer_file_def split: if_splits)
  moreover have "(\<exists>k. valid_key k \<and> f = hex_encode X (as_bytes k)) \<and>
       (\<exists>hs. list_all hash_wf hs \<and> x = as_bytes (entry_lines X hs))"
    if "contents d' [pointer_dir, c, f] = Some x" for c f x
    using that pointers_okD(5) [OF ok] c by (auto split: if_splits)
  ultimately show "pointers_ok X d'" using X unfolding pointers_ok_def by blast
qed

lemma pointer_copy_ok:
  assumes ok: "pointers_ok X d" and v: "valid_bucket fb" "valid_key fk" "valid_bucket tb" "valid_key tk"
    and copy: "pointer_copy X fb fk tb tk d = (r, d')"
  shows "r = Inr (log_at X d fb fk \<noteq> [])" "pointers_ok X d'"
    "log_at X d' c j =
       (if c = tb \<and> j = tk \<and> log_at X d fb fk \<noteq> [] then log_at X d tb tk @ [last (log_at X d fb fk)]
        else log_at X d c j)"
proof -
  note hs = history_eq [OF ok v(1,2)]
  have "r = Inr (log_at X d fb fk \<noteq> []) \<and> pointers_ok X d' \<and>
     log_at X d' c j =
       (if c = tb \<and> j = tk \<and> log_at X d fb fk \<noteq> [] then log_at X d tb tk @ [last (log_at X d fb fk)]
        else log_at X d c j)"
  proof (cases "log_at X d fb fk = []")
    case True
    with copy ok hs show ?thesis by (auto simp: pointer_copy_def current_def)
  next
    case False
    then have wf: "hash_wf (last (log_at X d fb fk))" using hs(2) by (simp add: list_all_iff)
    obtain r1 d1 where s: "pointer_set X tb tk (last (log_at X d fb fk)) d = (r1, d1)" by force
    from pointer_set_ok(1-3) [OF ok v(3,4) wf s] s copy hs False show ?thesis
      by (simp add: pointer_copy_def current_def)
  qed
  then show "r = Inr (log_at X d fb fk \<noteq> [])" "pointers_ok X d'"
    "log_at X d' c j =
       (if c = tb \<and> j = tk \<and> log_at X d fb fk \<noteq> [] then log_at X d tb tk @ [last (log_at X d fb fk)]
        else log_at X d c j)" by auto
qed

text \<open>A move gives the target the whole source history, replacing its own, and empties the source.\<close>

lemma move_key_ok:
  assumes ok: "pointers_ok X d" and v: "valid_bucket fb" "valid_key fk" "valid_bucket tb" "valid_key tk"
    and move: "move_key X fb fk tb tk d = (r, d')"
  shows "r = Inr (log_at X d fb fk \<noteq> [])" "pointers_ok X d'"
    "log_at X d' c j =
       (if log_at X d fb fk = [] then log_at X d c j
        else if c = fb \<and> j = fk then []
        else if c = tb \<and> j = tk then log_at X d fb fk else log_at X d c j)"
proof -
  note hs = history_eq [OF ok v(1,2)]
  have g: "good (pointer_file X tb tk)" using pointers_okD(2) [OF ok] v by (simp add: good_pointer)
  have "r = Inr (log_at X d fb fk \<noteq> []) \<and> pointers_ok X d' \<and>
     log_at X d' c j =
       (if log_at X d fb fk = [] then log_at X d c j
        else if c = fb \<and> j = fk then []
        else if c = tb \<and> j = tk then log_at X d fb fk else log_at X d c j)"
  proof (cases "log_at X d fb fk = []")
    case True
    with move ok hs show ?thesis by (auto simp: move_key_def)
  next
    case False
    define d1 where "d1 = put_file (pointer_file X tb tk) (as_bytes (entry_lines X (log_at X d fb fk))) d"
    note w = pointers_ok_write [OF ok v(3,4) hs(2) d1_def]
    obtain r2 d2 where s: "pointer_remove X fb fk d1 = (r2, d2)" by force
    note rm = pointer_remove_ok [OF w(1) v(1,2) s]
    from False move hs s rm(1) g v pointers_okD(3) [OF ok] have "r = Inr True" "d' = d2"
      by (auto simp: move_key_def pointer_path_valid write_good d1_def)
    with False rm(2,3) w(2) show ?thesis by auto
  qed
  then show "r = Inr (log_at X d fb fk \<noteq> [])" "pointers_ok X d'"
    "log_at X d' c j =
       (if log_at X d fb fk = [] then log_at X d c j
        else if c = fb \<and> j = fk then []
        else if c = tb \<and> j = tk then log_at X d fb fk else log_at X d c j)" by auto
qed

subsection \<open>Listings\<close>

lemma pointer_buckets_ok:
  assumes ok: "pointers_ok X d"
  shows "\<exists>bs. pointer_buckets d = Inr bs \<and> distinct bs \<and>
     set bs = {b. fs_lookup d [pointer_dir, b] = Some Dir}"
proof -
  note X = pointers_okD(1-3) [OF ok]
  let ?ss = "map fst (filter snd (entries_of d [pointer_dir]))"
  have dir: "read_dir_opt d [pointer_dir] = Inr (entries_of d [pointer_dir])"
    using X(3) by (intro read_dir_good) (auto simp: name_error_def NAME_MAX_def)
  have iff: "(b, True) \<in> set (entries_of d [pointer_dir]) \<longleftrightarrow> fs_lookup d [pointer_dir, b] = Some Dir" for b
  proof (cases "b = []")
    case True
    have "fs_lookup d [pointer_dir, []] \<noteq> Some Dir"
      using pointers_okD(4) [OF ok, of "[]"] valid_bucketD(1) by blast
    with True show ?thesis using entries_of_names [of d "[]" True] X(3) by (auto simp: disk_ok_def)
  next
    case False
    then show ?thesis using X(3) by (auto simp: entries_of_iff disk_ok_def)
  qed
  have ss: "set ?ss = {b. fs_lookup d [pointer_dir, b] = Some Dir}"
    unfolding iff [symmetric] by (auto simp: image_iff)
  have "distinct (map fst (entries_of d [pointer_dir]))"
    using X(3) entries_of_distinct unfolding disk_ok_def by blast
  then have "distinct ?ss" by (rule distinct_map_filter)
  moreover have "map (\<lambda>e. utf8_lossy (fst e)) (filter snd (entries_of d [pointer_dir])) = ?ss"
  proof (intro map_cong refl)
    fix e assume "e \<in> set (filter snd (entries_of d [pointer_dir]))"
    then have "fst e \<in> set ?ss" by force
    then have "valid_bucket (fst e)" unfolding ss using pointers_okD(4) [OF ok] by blast
    then show "utf8_lossy (fst e) = fst e" by (rule valid_bucketD)
  qed
  then have "pointer_buckets d = Inr ?ss" by (simp only: pointer_buckets_def dir map_err_simps try_then.simps)
  ultimately show ?thesis using ss by blast
qed

lemma pointer_key_name:
  assumes "hex_ok X" "valid_key k"
  shows "utf8_lossy (hex_encode X (as_bytes k)) = hex_encode X (as_bytes k)"
    "\<not> starts_with_char CHR ''.'' (hex_encode X (as_bytes k))"
    "hex_decode X (hex_encode X (as_bytes k)) = Some (as_bytes k)"
    "from_utf8_lossy (as_bytes k) = k"
proof -
  show "utf8_lossy (hex_encode X (as_bytes k)) = hex_encode X (as_bytes k)"
    using assms(1) by (simp add: utf8_lossy_ascii ascii_hex_encode)
  show "\<not> starts_with_char CHR ''.'' (hex_encode X (as_bytes k))"
    using hex_encode_chars(1) [OF assms(1), of _ "as_bytes k"]
    by (cases "hex_encode X (as_bytes k)") (auto simp: starts_with_char_def)
  show "hex_decode X (hex_encode X (as_bytes k)) = Some (as_bytes k)" using assms(1) by (rule hex_okD)
  show "from_utf8_lossy (as_bytes k) = k" using assms(2) by (simp add: valid_key_def)
qed

lemma pointer_list_ok:
  assumes ok: "pointers_ok X d" and b: "valid_bucket b"
  shows "\<exists>ks. pointer_list X d b = Inr ks \<and> distinct ks \<and>
     set ks = {k. valid_key k \<and> contents d (pointer_file X b k) \<noteq> None}"
proof -
  note X = pointers_okD(1-3) [OF ok]
  note B = valid_bucketD [OF b]
  let ?es = "entries_of d [pointer_dir, b]" and ?name = "\<lambda>k. hex_encode X (as_bytes k)"
  have dir: "read_dir_opt d [pointer_dir, b] = Inr ?es"
    using X(3) B by (intro read_dir_good) (auto simp: hidden_name_def flat_dirs_def nested_dirs_def)
  have entry: "(x, k) \<in> set ?es \<longleftrightarrow> contents d [pointer_dir, b, x] \<noteq> None \<and> \<not> k \<and> x \<noteq> []" for x k
  proof (cases "x = []")
    case True
    then show ?thesis using entries_of_names X(3) by (auto simp: disk_ok_def)
  next
    case False
    with entries_contents [OF X(3) this, of "[pointer_dir, b]"] show ?thesis by (simp add: hidden_name_def)
  qed
  have "\<forall>x \<in> set (map fst ?es). \<exists>k. x = ?name k"
    using pointers_okD(5) [OF ok] entry by fastforce
  then obtain ks where ks: "map fst ?es = map ?name ks" unfolding ex_map_conv [symmetric] by blast
  have inj: "?name k = ?name j \<longleftrightarrow> k = j" for k j using X(2) by (simp add: hex_okD)
  have mem: "k \<in> set ks \<longleftrightarrow> valid_key k \<and> contents d (pointer_file X b k) \<noteq> None" for k
  proof -
    have "k \<in> set ks \<longleftrightarrow> ?name k \<in> set (map fst ?es)" unfolding ks using inj by auto
    also have "\<dots> \<longleftrightarrow> (\<exists>j. (?name k, j) \<in> set ?es)" by force
    also have "\<dots> \<longleftrightarrow> contents d (pointer_file X b k) \<noteq> None \<and> ?name k \<noteq> []"
      unfolding entry by (auto simp: pointer_file_def)
    also have "\<dots> \<longleftrightarrow> valid_key k \<and> contents d (pointer_file X b k) \<noteq> None"
    proof -
      have "valid_key k" if at: "contents d (pointer_file X b k) \<noteq> None"
      proof -
        from at obtain c where "contents d [pointer_dir, b, ?name k] = Some c" by (auto simp: pointer_file_def)
        from pointers_okD(5) [OF ok this] obtain j where "valid_key j" "?name k = ?name j" by blast
        then show ?thesis by (simp add: inj)
      qed
      moreover have "?name k \<noteq> []" if "valid_key k"
        using good_plain(1) [OF good_pointer [OF X(2) b that]] by (simp add: pointer_file_def plain_def)
      ultimately show ?thesis by blast
    qed
    finally show ?thesis .
  qed
  have lossy: "map (\<lambda>e. utf8_lossy (fst e)) ?es = map ?name ks"
  proof -
    have "map utf8_lossy (map fst ?es) = map ?name ks"
      unfolding ks using mem pointer_key_name(1) [OF X(2)] by auto
    then show ?thesis by (simp add: comp_def)
  qed
  have "filter (\<lambda>name. \<not> starts_with_char CHR ''.'' name) (map ?name ks) = map ?name ks"
    using mem pointer_key_name(2) [OF X(2)] by (auto simp: filter_id_conv)
  moreover have "try_map (\<lambda>name. try_then (ok_or (BadBucket b) (hex_decode X name))
       (\<lambda>bs. Inr (from_utf8_lossy bs))) (map ?name ks) = Inr ks"
    unfolding try_map_Inr_iff list_all2_map1
    by (rule list.rel_refl_strong) (use mem pointer_key_name(3,4) [OF X(2)] in auto)
  ultimately have "pointer_list X d b = Inr ks"
    by (simp only: pointer_list_def B(2) dir map_err_simps try_then.simps lossy)
  moreover have "distinct (map ?name ks)"
    unfolding ks [symmetric] using X(3) entries_of_distinct by (auto simp: disk_ok_def)
  then have "distinct ks" by (simp add: distinct_map)
  ultimately show ?thesis using mem by auto
qed

lemma log_at_None: "log_at X d b k \<noteq> [] \<Longrightarrow> contents d (pointer_file X b k) \<noteq> None"
  by (auto simp: log_at_def split: option.splits)

subsection \<open>Renaming and deleting pots\<close>

lemma pointer_delete_bucket_ok:
  assumes ok: "pointers_ok X d" and b: "valid_bucket b" and del: "pointer_delete_bucket b d = (r, d')"
  shows "r = Inr ()" "pointers_ok X d'"
    "contents d' q = (if prefix [pointer_dir, b] q then None else contents d q)"
    "fs_lookup d' [pointer_dir, b] = None"
    "log_at X d' c k = (if c = b then [] else log_at X d c k)"
    "fs_lookup d' q = (if prefix [pointer_dir, b] q then None else fs_lookup d q)"
proof -
  note X = pointers_okD(1-3) [OF ok]
  note B = valid_bucketD [OF b]
  let ?p = "[pointer_dir, b]"
  have sh: "shape ?p = Some True" by (simp add: hidden_name_def flat_dirs_def nested_dirs_def)
  have "\<not> file_above d ?p" using disk_ok_not_above [OF X(3) sh] .
  then have res: "resolve d ?p = ok_or NotFound (fs_lookup d ?p)"
    using B by (simp add: resolve_plain ok_or_def split: option.split)
  have fs: "fs_ok d" using X(3) by (simp add: disk_ok_def)
  show "r = Inr ()"
    using del B res disk_ok_shape [OF X(3) sh]
    by (auto simp: pointer_delete_bucket_def remove_dir_all_def ok_or_def split: option.splits fs_node.splits)
  have d': "fs_lookup d' q = (if prefix ?p q then None else fs_lookup d q) \<and> disk_ok d'" for q
  proof (cases "fs_lookup d ?p")
    case None
    then have "d' = d"
      using del B res by (auto simp: pointer_delete_bucket_def remove_dir_all_def)
    moreover have "fs_lookup d q = None" if "prefix ?p q"
      using that None fs_ok_above [OF fs, of q _ ?p]
      by (cases "q = ?p"; cases "fs_lookup d q") (auto simp: strict_prefix_def)
    ultimately show ?thesis using X(3) by auto
  next
    case (Some n)
    with disk_ok_shape [OF X(3) sh] have "n = Dir" by simp
    with Some have "d' = filter (\<lambda>(q, n). \<not> prefix ?p q) d"
      using del B res by (auto simp: pointer_delete_bucket_def remove_dir_all_def)
    then show ?thesis using lookup_remove_tree [of ?p d q] disk_ok_remove_tree [OF X(3), of ?p] by simp
  qed
  then show c: "contents d' q = (if prefix ?p q then None else contents d q)" for q
    by (simp add: contents_def)
  show "fs_lookup d' ?p = None" "fs_lookup d' q = (if prefix ?p q then None else fs_lookup d q)"
    using d' by simp_all
  show "log_at X d' c k = (if c = b then [] else log_at X d c k)"
    by (simp add: log_at_def c pointer_file_def)
  show "pointers_ok X d'"
    unfolding pointers_ok_def
  proof (intro conjI allI impI)
    show "hash_ok X" "hex_ok X" "disk_ok d'" using X d' by auto
    show "valid_bucket c" if "fs_lookup d' [pointer_dir, c] = Some Dir" for c
      using that d' pointers_okD(4) [OF ok] by (auto split: if_splits)
    fix c f x assume "contents d' [pointer_dir, c, f] = Some x"
    then have "contents d [pointer_dir, c, f] = Some x" using c by (auto split: if_splits)
    from pointers_okD(5) [OF ok this]
    show "\<exists>k. valid_key k \<and> f = hex_encode X (as_bytes k)"
      "\<exists>hs. list_all hash_wf hs \<and> x = as_bytes (entry_lines X hs)" by auto
  qed
qed

text \<open>
  A rename to a free name moves every pointer file of the pot; a rename to a taken name is
  refused and changes nothing; renaming an absent pot is a no-op.
\<close>

lemma pointer_rename_bucket_ok:
  assumes ok: "pointers_ok X d" and v: "valid_bucket old" "valid_bucket new" and ne: "old \<noteq> new"
    and ren: "pointer_rename_bucket old new d = (r, d')"
  shows
    "fs_lookup d [pointer_dir, old] = None \<Longrightarrow> r = Inr () \<and> d' = d"
    "fs_lookup d [pointer_dir, old] \<noteq> None \<Longrightarrow> fs_lookup d [pointer_dir, new] \<noteq> None \<Longrightarrow>
       r = Inl (BadBucket (new @ '' already exists'')) \<and> d' = d"
    "fs_lookup d [pointer_dir, old] \<noteq> None \<Longrightarrow> fs_lookup d [pointer_dir, new] = None \<Longrightarrow>
       r = Inr () \<and> pointers_ok X d' \<and>
       (\<forall>q. contents d' q =
          (if prefix [pointer_dir, new] q then contents d ([pointer_dir, old] @ drop 2 q)
           else if prefix [pointer_dir, old] q then None else contents d q)) \<and>
       (\<forall>t q. t \<noteq> pointer_dir \<longrightarrow> fs_lookup d' (t # q) = fs_lookup d (t # q))"
proof -
  note X = pointers_okD(1-3) [OF ok]
  note O = valid_bucketD [OF v(1)] and N = valid_bucketD [OF v(2)]
  let ?p = "[pointer_dir, old]" and ?q = "[pointer_dir, new]"
  have sh: "shape ?p = Some True" "shape ?q = Some True"
    by (simp_all add: hidden_name_def flat_dirs_def nested_dirs_def)
  have res: "resolve d ?p = ok_or NotFound (fs_lookup d ?p)" "resolve d ?q = ok_or NotFound (fs_lookup d ?q)"
    using O N disk_ok_not_above [OF X(3) sh(1)] disk_ok_not_above [OF X(3) sh(2)]
    by (simp_all add: resolve_plain ok_or_def split: option.split)
  have ex: "fs_exists d ?p \<longleftrightarrow> fs_lookup d ?p \<noteq> None" "fs_exists d ?q \<longleftrightarrow> fs_lookup d ?q \<noteq> None"
    by (simp_all add: fs_exists_def res ok_or_def split: option.split)
  show "r = Inr () \<and> d' = d" if "fs_lookup d ?p = None"
    using ren that O N by (simp add: pointer_rename_bucket_def ex)
  show "r = Inl (BadBucket (new @ '' already exists'')) \<and> d' = d"
    if "fs_lookup d ?p \<noteq> None" "fs_lookup d ?q \<noteq> None"
    using ren that O N by (simp add: pointer_rename_bucket_def ex)
  assume some: "fs_lookup d ?p \<noteq> None" and none: "fs_lookup d ?q = None"
  then obtain n where n: "fs_lookup d ?p = Some n" by auto
  with disk_ok_shape [OF X(3) sh(1) n] have dir: "fs_lookup d ?p = Some Dir" by simp
  have par: "fs_lookup d [pointer_dir] = Some Dir"
    using fs_ok_parent(2) [OF _ _ dir] X(3) by (simp add: disk_ok_def)
  have npq: "\<not> prefix ?p ?q" "\<not> prefix ?q ?p" using ne by auto
  let ?d = "map (\<lambda>(r, n). (move_path ?p ?q r, n)) d"
  have notin: "?q \<notin> set (map fst d)" using none by (simp add: fs_lookup_def map_of_eq_None_iff)
  have "AList.delete ?q d = d" using notin by (induction d) auto
  then have "rename d ?p ?q = Inr ?d"
    using res dir none par npq O N ne by (simp add: rename_def)
  then have d': "r = Inr ()" "d' = ?d"
    using ren O N dir none by (auto simp: pointer_rename_bucket_def ex)
  have "disk_ok ?d"
  proof (rule disk_ok_rename [OF X(3) none dir _ _ npq])
    show "shape (?q @ r) = Some k" if "shape (?p @ r) = Some k" for r k
      using that by (cases "?p @ r" rule: shape.cases) (auto simp: hidden_name_def split: if_splits)
  qed (use N par in \<open>auto simp: governed_def\<close>)
  moreover have c: "contents ?d q = (if prefix ?q q then contents d (?p @ drop 2 q)
           else if prefix ?p q then None else contents d q)" for q
    using contents_rename [OF X(3) none _ _ npq, of q] by (simp add: numeral_2_eq_2)
  moreover have "valid_bucket c" if "fs_lookup ?d [pointer_dir, c] = Some Dir" for c
  proof (cases "c = new")
    case True
    then show ?thesis using v by simp
  next
    case False
    have fs: "fs_ok d" using X(3) by (simp add: disk_ok_def)
    have "\<exists>a n. (a, n) \<in> set d \<and> move_path ?p ?q a = [pointer_dir, c] \<and> n = Dir"
      using that by (force simp: fs_lookup_def dest!: map_of_SomeD)
    then obtain a where a: "(a, Dir) \<in> set d" "move_path ?p ?q a = [pointer_dir, c]" by blast
    with False have "a = [pointer_dir, c]" by (auto simp: move_path_def split: if_splits)
    with a(1) fs have "fs_lookup d [pointer_dir, c] = Some Dir" by (simp add: fs_ok_lookup)
    then show ?thesis by (rule pointers_okD(4) [OF ok])
  qed
  moreover have "(\<exists>k. valid_key k \<and> f = hex_encode X (as_bytes k)) \<and>
       (\<exists>hs. list_all hash_wf hs \<and> x = as_bytes (entry_lines X hs))"
    if "contents ?d [pointer_dir, b, f] = Some x" for b f x
  proof -
    have "\<exists>b'. contents d [pointer_dir, b', f] = Some x"
      using that c by (auto split: if_splits)
    then show ?thesis using pointers_okD(5) [OF ok] by blast
  qed
  ultimately have "pointers_ok X ?d" using X unfolding pointers_ok_def by blast
  moreover have "fs_lookup ?d (t # q) = fs_lookup d (t # q)" if "t \<noteq> pointer_dir" for t q
    using that lookup_rename_ok [OF X(3) none _ _ npq, of "t # q"] by simp
  ultimately show "r = Inr () \<and> pointers_ok X d' \<and>
       (\<forall>q. contents d' q =
          (if prefix ?q q then contents d (?p @ drop 2 q)
           else if prefix ?p q then None else contents d q)) \<and>
       (\<forall>t q. t \<noteq> pointer_dir \<longrightarrow> fs_lookup d' (t # q) = fs_lookup d (t # q))" using d' c by simp
qed

end
