(* ===== verification/Small_Stores.thy ===== *)
theory Small_Stores
  imports Content_Store
begin

text \<open>
  The stores that hold one small JSON file per name: pot configuration (\<open>meta_store.rs\<close>) and
  annotations (\<open>annotation_store.rs\<close>), and the webhook list (\<open>webhook_store.rs\<close>).

  \<open>kv_store\<close> is what their callers assume: a write is read back, and it changes no other entry.
\<close>

section \<open>Pot configuration\<close>

definition meta_path :: "ext \<Rightarrow> string \<Rightarrow> path" where
  "meta_path X b = [meta_dir, hex_encode X (as_bytes b) @ ''.json'']"

definition meta_config :: "ext \<Rightarrow> fs \<Rightarrow> string \<Rightarrow> store_error + bucket_config" where
  "meta_config X d b =
     try_then (map_err Io (read_opt d (meta_path X b))) (\<lambda>r.
       case r of None \<Rightarrow> Inr bucket_config_default | Some c \<Rightarrow> ok_or Serde (config_of_json X c))"

definition meta_set_config :: "ext \<Rightarrow> string \<Rightarrow> bucket_config \<Rightarrow> fs \<Rightarrow> (store_error + unit) \<times> fs" where
  "meta_set_config X b c d = io_step (write_atomic (meta_path X b) (config_to_json X c) d)"

definition meta_rename_bucket :: "ext \<Rightarrow> string \<Rightarrow> string \<Rightarrow> fs \<Rightarrow> (store_error + unit) \<times> fs" where
  "meta_rename_bucket X old new d =
     (if fs_exists d (meta_path X old) then
        (case rename d (meta_path X old) (meta_path X new) of
           Inl e \<Rightarrow> (Inl (Io e), d)
         | Inr d' \<Rightarrow> (Inr (), d'))
      else (Inr (), d))"

definition meta_delete_bucket :: "ext \<Rightarrow> string \<Rightarrow> fs \<Rightarrow> (store_error + unit) \<times> fs" where
  "meta_delete_bucket X b d = io_step (remove_opt (meta_path X b) d)"

definition meta_exists :: "ext \<Rightarrow> fs \<Rightarrow> string \<Rightarrow> bool" where
  "meta_exists X d b = fs_exists d (meta_path X b)"

definition meta_name :: "ext \<Rightarrow> string \<Rightarrow> string option" where
  "meta_name X name =
     (case strip_suffix ''.json'' name of
        None \<Rightarrow> None
      | Some stem \<Rightarrow> (case hex_decode X stem of None \<Rightarrow> None | Some bs \<Rightarrow> from_utf8 bs))"

definition meta_list :: "ext \<Rightarrow> fs \<Rightarrow> store_error + string list" where
  "meta_list X d =
     try_then (map_err Io (read_dir_opt d [meta_dir])) (\<lambda>es.
       Inr (List.map_filter (\<lambda>e. meta_name X (utf8_lossy (fst e))) es))"

section \<open>Annotations\<close>

definition annotation_path :: "ext \<Rightarrow> string \<times> string \<Rightarrow> path" where
  "annotation_path X pk =
     [annotation_dir,
      hex_encode X (as_bytes (fst pk)) @ ''_'' @ hex_encode X (as_bytes (snd pk)) @ ''.json'']"

definition annotation_get :: "ext \<Rightarrow> fs \<Rightarrow> string \<times> string \<Rightarrow> store_error + annotation" where
  "annotation_get X d pk =
     try_then (map_err Io (read_opt d (annotation_path X pk))) (\<lambda>r.
       case r of None \<Rightarrow> Inr annotation_default | Some c \<Rightarrow> ok_or Serde (annotation_of_json X c))"

definition annotation_set :: "ext \<Rightarrow> string \<times> string \<Rightarrow> annotation \<Rightarrow> fs \<Rightarrow> (store_error + unit) \<times> fs" where
  "annotation_set X pk a d = io_step (write_atomic (annotation_path X pk) (annotation_to_json X a) d)"

section \<open>Webhooks\<close>

definition webhook_path :: path where
  "webhook_path = [webhook_dir, ''webhooks.json'']"

definition webhook_list :: "ext \<Rightarrow> fs \<Rightarrow> store_error + webhook list" where
  "webhook_list X d =
     try_then (map_err Io (read_opt d webhook_path)) (\<lambda>r.
       case r of None \<Rightarrow> Inr [] | Some c \<Rightarrow> ok_or Serde (hooks_of_json X c))"

definition webhook_put :: "ext \<Rightarrow> webhook \<Rightarrow> fs \<Rightarrow> (store_error + unit) \<times> fs" where
  "webhook_put X h d =
     and_then (webhook_list X d, d) (\<lambda>hooks d.
       io_step (write_atomic webhook_path
         (hooks_to_json X (filter (\<lambda>g. hook_id g \<noteq> hook_id h) hooks @ [h])) d))"

definition webhook_delete :: "ext \<Rightarrow> string \<Rightarrow> fs \<Rightarrow> (store_error + unit) \<times> fs" where
  "webhook_delete X i d =
     and_then (webhook_list X d, d) (\<lambda>hooks d.
       let kept = filter (\<lambda>g. hook_id g \<noteq> i) hooks in
       if length kept \<noteq> length hooks
       then io_step (write_atomic webhook_path (hooks_to_json X kept) d)
       else (Inr (), d))"

section \<open>The contract of a key-value store\<close>

locale kv_store =
  fixes put :: "'k \<Rightarrow> 'v \<Rightarrow> 'd \<Rightarrow> ('e + unit) \<times> 'd"
    and get :: "'d \<Rightarrow> 'k \<Rightarrow> 'e + 'v"
    and ok :: "'d \<Rightarrow> bool"
    and valid :: "'k \<Rightarrow> bool"
  assumes put_total: "ok d \<Longrightarrow> valid k \<Longrightarrow> \<exists>d'. put k v d = (Inr (), d') \<and> ok d'"
    and get_put: "ok d \<Longrightarrow> valid k \<Longrightarrow> valid j \<Longrightarrow> put k v d = (r, d') \<Longrightarrow>
                    get d' j = (if j = k then Inr v else get d j)"
begin

fun puts :: "('k \<times> 'v) list \<Rightarrow> 'd \<Rightarrow> 'd" where
  "puts [] d = d"
| "puts ((k, v) # ws) d = puts ws (snd (put k v d))"

text \<open>After a sequence of writes an entry holds the last value written to it.\<close>

lemma puts_get:
  "ok d \<Longrightarrow> list_all (\<lambda>w. valid (fst w)) ws \<Longrightarrow> valid j \<Longrightarrow>
     ok (puts ws d) \<and> get (puts ws d) j = (case map_of (rev ws) j of None \<Rightarrow> get d j | Some v \<Rightarrow> Inr v)"
proof (induction ws arbitrary: d)
  case (Cons w ws)
  obtain k v where w: "w = (k, v)" by (cases w)
  with Cons.prems put_total obtain d' where d': "put k v d = (Inr (), d')" "ok d'" by fastforce
  with get_put [OF _ _ Cons.prems(3) d'(1)] Cons.prems Cons.IH [OF d'(2)] w
  show ?case by (auto simp: map_add_def split: option.split)
qed simp

end

section \<open>Paths\<close>

lemma flat_dirs_simps [simp]:
  "meta_dir \<in> set flat_dirs" "key_dir \<in> set flat_dirs" "annotation_dir \<in> set flat_dirs"
  "webhook_dir \<in> set flat_dirs"
  by (simp_all add: flat_dirs_def)

lemma good_flat [path_simps]:
  assumes "base \<in> set flat_dirs" "f \<noteq> []" "CHR 0x00 \<notin> set f" "length f \<le> NAME_MAX"
  shows "good [base, f]"
proof -
  have "base \<noteq> [] \<and> CHR 0x00 \<notin> set base \<and> length base \<le> NAME_MAX"
    using assms(1) by (auto simp: flat_dirs_def NAME_MAX_def)
  with assms show ?thesis by (auto simp: good_def name_error_def)
qed

text \<open>\<open>hex.json\<close> fits in a file name.\<close>

definition valid_pot :: "string \<Rightarrow> bool" where
  "valid_pot b \<longleftrightarrow> 2 * length b + 5 \<le> NAME_MAX"

definition valid_object :: "string \<times> string \<Rightarrow> bool" where
  "valid_object pk \<longleftrightarrow> 2 * length (fst pk) + 2 * length (snd pk) + 6 \<le> NAME_MAX"

lemma hex_json_name:
  assumes "hex_ok X" "valid_pot b"
  shows "CHR 0x00 \<notin> set (hex_encode X (as_bytes b) @ ''.json'')"
    "length (hex_encode X (as_bytes b) @ ''.json'') \<le> NAME_MAX"
  using hex_encode_chars(3) [OF assms(1), of _ "as_bytes b"] hex_okD(2) [OF assms(1)] assms(2)
  by (auto simp: valid_pot_def)

lemma good_meta [path_simps]: "hex_ok X \<Longrightarrow> valid_pot b \<Longrightarrow> good (meta_path X b)"
  unfolding meta_path_def by (intro good_flat) (auto dest: hex_json_name)

lemma meta_path_inj [path_simps]: "hex_ok X \<Longrightarrow> meta_path X b = meta_path X c \<longleftrightarrow> b = c"
  by (simp add: meta_path_def hex_okD)

lemma good_annotation [path_simps]:
  assumes "hex_ok X" "valid_object pk"
  shows "good (annotation_path X pk)"
  unfolding annotation_path_def
proof (rule good_flat)
  show "CHR 0x00 \<notin> set (hex_encode X (as_bytes (fst pk)) @ ''_'' @ hex_encode X (as_bytes (snd pk)) @ ''.json'')"
    using hex_encode_chars(3) [OF assms(1)] by auto
  show "length (hex_encode X (as_bytes (fst pk)) @ ''_'' @ hex_encode X (as_bytes (snd pk)) @ ''.json'') \<le> NAME_MAX"
    using assms(2) hex_okD(2) [OF assms(1)] by (simp add: valid_object_def)
qed auto

text \<open>Two objects never share an annotation file: the separator is not a hex digit.\<close>

lemma annotation_path_inj [path_simps]:
  assumes "hex_ok X"
  shows "annotation_path X pk = annotation_path X qj \<longleftrightarrow> pk = qj"
proof
  assume "annotation_path X pk = annotation_path X qj"
  then have eq: "hex_encode X (as_bytes (fst pk)) @ CHR ''_'' # hex_encode X (as_bytes (snd pk)) @ ''.json'' =
      hex_encode X (as_bytes (fst qj)) @ CHR ''_'' # hex_encode X (as_bytes (snd qj)) @ ''.json''"
    by (simp add: annotation_path_def)
  have "CHR ''_'' \<notin> set (hex_encode X b)" for b using hex_encode_chars(2) [OF assms] by blast
  then have "split_once CHR ''_'' (hex_encode X b @ CHR ''_'' # s) = Some (hex_encode X b, s)" for b s
    by (rule split_once_append)
  with eq have "hex_encode X (as_bytes (fst pk)) = hex_encode X (as_bytes (fst qj))"
    "hex_encode X (as_bytes (snd pk)) @ ''.json'' = hex_encode X (as_bytes (snd qj)) @ ''.json''"
    by (metis option.inject prod.inject)+
  then show "pk = qj" by (simp add: hex_okD [OF assms] prod_eq_iff)
qed simp

lemma good_webhook [path_simps]: "good webhook_path"
  unfolding webhook_path_def by (rule good_flat) (auto simp: NAME_MAX_def)

section \<open>The stores meet the contract\<close>

definition flat_ok :: "ext \<Rightarrow> fs \<Rightarrow> bool" where
  "flat_ok X d \<longleftrightarrow> hex_ok X \<and> json_ok X \<and> disk_ok d"

lemma meta_config_eq:
  "flat_ok X d \<Longrightarrow> valid_pot b \<Longrightarrow> meta_config X d b =
     (case contents d (meta_path X b) of
        None \<Rightarrow> Inr bucket_config_default | Some c \<Rightarrow> ok_or Serde (config_of_json X c))"
  by (simp add: meta_config_def read_opt_good good_meta flat_ok_def)

lemma meta_set_config_eq:
  "flat_ok X d \<Longrightarrow> valid_pot b \<Longrightarrow>
     meta_set_config X b c d = (Inr (), put_file (meta_path X b) (config_to_json X c) d)"
  by (simp add: meta_set_config_def write_good good_meta flat_ok_def)

lemma flat_ok_put_file: "flat_ok X d \<Longrightarrow> good p \<Longrightarrow> flat_ok X (put_file p b d)"
  by (simp add: flat_ok_def disk_ok_put_file)

interpretation meta: kv_store "meta_set_config X" "meta_config X" "flat_ok X" valid_pot for X
proof (unfold_locales, goal_cases)
  case (1 d b c)
  then have "good (meta_path X b)" by (simp add: good_meta flat_ok_def)
  then show ?case using 1 by (simp add: meta_set_config_eq flat_ok_put_file)
next
  case (2 d b j c r d')
  then have g: "good (meta_path X b)" "hex_ok X" "json_ok X" by (simp_all add: good_meta flat_ok_def)
  with 2 have d': "d' = put_file (meta_path X b) (config_to_json X c) d" by (simp add: meta_set_config_eq)
  then have "flat_ok X d'" using 2 g by (simp add: flat_ok_put_file)
  then show ?case using 2 g
    by (simp add: meta_config_eq d' contents_put_file meta_path_inj json_okD)
qed

lemma annotation_get_eq:
  "flat_ok X d \<Longrightarrow> valid_object pk \<Longrightarrow> annotation_get X d pk =
     (case contents d (annotation_path X pk) of
        None \<Rightarrow> Inr annotation_default | Some c \<Rightarrow> ok_or Serde (annotation_of_json X c))"
  by (simp add: annotation_get_def read_opt_good good_annotation flat_ok_def)

lemma annotation_set_eq:
  "flat_ok X d \<Longrightarrow> valid_object pk \<Longrightarrow>
     annotation_set X pk a d = (Inr (), put_file (annotation_path X pk) (annotation_to_json X a) d)"
  by (simp add: annotation_set_def write_good good_annotation flat_ok_def)

interpretation annotation: kv_store "annotation_set X" "annotation_get X" "flat_ok X" valid_object for X
proof (unfold_locales, goal_cases)
  case (1 d b c)
  then have "good (annotation_path X b)" by (simp add: good_annotation flat_ok_def)
  then show ?case using 1 by (simp add: annotation_set_eq flat_ok_put_file)
next
  case (2 d b j c r d')
  then have g: "good (annotation_path X b)" "hex_ok X" "json_ok X" by (simp_all add: good_annotation flat_ok_def)
  with 2 have d': "d' = put_file (annotation_path X b) (annotation_to_json X c) d" by (simp add: annotation_set_eq)
  then have "flat_ok X d'" using 2 g by (simp add: flat_ok_put_file)
  then show ?case using 2 g
    by (simp add: annotation_get_eq d' contents_put_file annotation_path_inj json_okD)
qed

text \<open>Webhooks: ids stay unique, a put replaces, a delete removes exactly one id.\<close>

lemma webhook_list_eq:
  "disk_ok d \<Longrightarrow> webhook_list X d =
     (case contents d webhook_path of None \<Rightarrow> Inr [] | Some c \<Rightarrow> ok_or Serde (hooks_of_json X c))"
  by (simp add: webhook_list_def read_opt_good good_webhook)

lemma webhook_put_ok:
  assumes ok: "flat_ok X d" and l: "webhook_list X d = Inr hs" and dist: "distinct (map hook_id hs)"
    and put: "webhook_put X h d = (r, d')"
  shows "r = Inr () \<and> flat_ok X d' \<and>
     webhook_list X d' = Inr (filter (\<lambda>g. hook_id g \<noteq> hook_id h) hs @ [h]) \<and>
     distinct (map hook_id (filter (\<lambda>g. hook_id g \<noteq> hook_id h) hs @ [h]))"
proof -
  have X: "disk_ok d" "json_ok X" using ok by (auto simp: flat_ok_def)
  from put l X have d': "r = Inr ()"
    "d' = put_file webhook_path (hooks_to_json X (filter (\<lambda>g. hook_id g \<noteq> hook_id h) hs @ [h])) d"
    by (auto simp: webhook_put_def write_good good_webhook)
  moreover have "flat_ok X d'" using d' ok by (simp add: flat_ok_put_file good_webhook)
  moreover from this d' X have "webhook_list X d' = Inr (filter (\<lambda>g. hook_id g \<noteq> hook_id h) hs @ [h])"
    by (simp add: webhook_list_eq flat_ok_def contents_put_file good_webhook json_okD)
  ultimately show ?thesis using dist by (auto simp: distinct_map_filter)
qed

lemma webhook_delete_ok:
  assumes ok: "flat_ok X d" and l: "webhook_list X d = Inr hs" and del: "webhook_delete X i d = (r, d')"
  shows "r = Inr () \<and> flat_ok X d' \<and> webhook_list X d' = Inr (filter (\<lambda>g. hook_id g \<noteq> i) hs)"
proof -
  have X: "disk_ok d" "json_ok X" using ok by (auto simp: flat_ok_def)
  show ?thesis
  proof (cases "length (filter (\<lambda>g. hook_id g \<noteq> i) hs) = length hs")
    case True
    then have "filter (\<lambda>g. hook_id g \<noteq> i) hs = hs"
      by (metis filter_id_conv length_filter_less nat_neq_iff)
    with True del l ok show ?thesis by (auto simp: webhook_delete_def Let_def)
  next
    case False
    with del l X have d': "r = Inr ()"
      "d' = put_file webhook_path (hooks_to_json X (filter (\<lambda>g. hook_id g \<noteq> i) hs)) d"
      by (auto simp: webhook_delete_def Let_def write_good good_webhook)
    moreover have "flat_ok X d'" using d' ok by (simp add: flat_ok_put_file good_webhook)
    ultimately show ?thesis using X
      by (simp add: webhook_list_eq flat_ok_def contents_put_file good_webhook json_okD)
  qed
qed

end
