(* ===== verification/Key_Store.thy ===== *)
theory Key_Store
  imports Small_Stores
begin

text \<open>
  Access keys (\<open>barme-store/src/key_store.rs\<close>) and the encryption of their secrets at rest
  (\<open>crypto.rs\<close>): AES-256-GCM with a fresh nonce per secret, stored as hex. The random nonces are
  arguments: one for a put, one per file name for a migration (\<open>None\<close> when \<open>getrandom\<close> fails).
\<close>

section \<open>Encryption of a secret\<close>

definition NONCE_LEN :: nat where "NONCE_LEN = 12"

definition encrypt :: "ext \<Rightarrow> bytes \<Rightarrow> bytes option \<Rightarrow> string \<Rightarrow> store_error + string" where
  "encrypt X key nonce clear =
     (case nonce of
        None \<Rightarrow> Inl (Crypto ''nonce'')
      | Some n \<Rightarrow>
          (case gcm_encrypt X key n (as_bytes clear) of
             None \<Rightarrow> Inl (Crypto ''encrypt failed'')
           | Some c \<Rightarrow> Inr (hex_encode X (n @ c))))"

definition decrypt :: "ext \<Rightarrow> bytes \<Rightarrow> string \<Rightarrow> store_error + string" where
  "decrypt X key encoded =
     (case hex_decode X encoded of
        None \<Rightarrow> Inl (Crypto ''bad encoding'')
      | Some raw \<Rightarrow>
          if length raw \<le> NONCE_LEN then Inl (Crypto ''ciphertext too short'')
          else (case gcm_decrypt X key (take NONCE_LEN raw) (drop NONCE_LEN raw) of
                  None \<Rightarrow> Inl (Crypto ''decrypt failed (wrong master key?)'')
                | Some p \<Rightarrow> ok_or (Crypto ''secret not utf-8'') (from_utf8 p)))"

section \<open>The key store\<close>

definition key_path :: "ext \<Rightarrow> string \<Rightarrow> path" where
  "key_path X a = [key_dir, hex_encode X (as_bytes a) @ ''.json'']"

definition key_encode :: "ext \<Rightarrow> bytes option \<Rightarrow> bytes option \<Rightarrow> key_record \<Rightarrow> store_error + stored_key" where
  "key_encode X cipher nonce r =
     try_then
       (case cipher of
          Some c \<Rightarrow> try_then (encrypt X c nonce (secret_key r)) (\<lambda>e. Inr (Some e, None))
        | None \<Rightarrow> Inr (None, Some (secret_key r)))
       (\<lambda>(enc, clear).
          Inr \<lparr>sk_access_key = access_key r, secret_enc = enc, sk_secret_key = clear,
               sk_read_only = read_only r, sk_pots = pots r, sk_created_at = key_created_at r\<rparr>)"

definition key_decode :: "ext \<Rightarrow> bytes option \<Rightarrow> stored_key \<Rightarrow> store_error + key_record" where
  "key_decode X cipher s =
     try_then
       (case (secret_enc s, sk_secret_key s) of
          (Some enc, _) \<Rightarrow>
            (case cipher of
               Some c \<Rightarrow> decrypt X c enc
             | None \<Rightarrow> Inl (Crypto ''key store is encrypted but no master key is configured''))
        | (None, Some clear) \<Rightarrow> Inr clear
        | (None, None) \<Rightarrow> Inl (Crypto ''key record has no secret''))
       (\<lambda>secret.
          Inr \<lparr>access_key = sk_access_key s, secret_key = secret, read_only = sk_read_only s,
               pots = sk_pots s, key_created_at = sk_created_at s\<rparr>)"

definition key_read :: "ext \<Rightarrow> fs \<Rightarrow> string \<Rightarrow> store_error + stored_key" where
  "key_read X d name =
     try_then (map_err Io (fs_read d [key_dir, name])) (\<lambda>b. ok_or Serde (key_of_json X b))"

definition key_names :: "fs \<Rightarrow> store_error + string list" where
  "key_names d =
     try_then (map_err Io (read_dir_opt d [key_dir])) (\<lambda>es.
       Inr (filter (\<lambda>name. \<not> starts_with_char CHR ''.'' (utf8_lossy name)) (map fst es)))"

definition key_list :: "ext \<Rightarrow> bytes option \<Rightarrow> fs \<Rightarrow> store_error + key_record list" where
  "key_list X cipher d =
     try_then (key_names d)
       (try_map (\<lambda>name. try_then (key_read X d name) (key_decode X cipher)))"

definition key_get :: "ext \<Rightarrow> bytes option \<Rightarrow> fs \<Rightarrow> string \<Rightarrow> store_error + key_record option" where
  "key_get X cipher d a =
     try_then (map_err Io (read_opt d (key_path X a))) (\<lambda>r.
       case r of
         None \<Rightarrow> Inr None
       | Some b \<Rightarrow>
           try_then (ok_or Serde (key_of_json X b)) (\<lambda>s.
           try_then (key_decode X cipher s) (\<lambda>k. Inr (Some k))))"

definition key_put :: "ext \<Rightarrow> bytes option \<Rightarrow> bytes option \<Rightarrow> key_record \<Rightarrow> fs \<Rightarrow> (store_error + unit) \<times> fs" where
  "key_put X cipher nonce r d =
     and_then (key_encode X cipher nonce r, d) (\<lambda>s d.
       io_step (write_atomic (key_path X (access_key r)) (key_to_json X s) d))"

definition key_delete :: "ext \<Rightarrow> string \<Rightarrow> fs \<Rightarrow> (store_error + unit) \<times> fs" where
  "key_delete X a d = io_step (remove_opt (key_path X a) d)"

text \<open>\<open>migrate_plaintext\<close>: one directory entry at a time.\<close>

fun migrate_entries ::
  "ext \<Rightarrow> bytes option \<Rightarrow> (string \<Rightarrow> bytes option) \<Rightarrow> string list \<Rightarrow> fs \<Rightarrow> (store_error + unit) \<times> fs" where
  "migrate_entries X cipher rng [] d = (Inr (), d)"
| "migrate_entries X cipher rng (name # names) d =
     and_then (key_read X d name, d) (\<lambda>s d.
     and_then
       (if secret_enc s = None \<and> sk_secret_key s \<noteq> None
        then and_then (key_decode X cipher s, d) (\<lambda>r d. key_put X cipher (rng name) r d)
        else (Inr (), d))
       (\<lambda>_ d. migrate_entries X cipher rng names d))"

definition migrate_plaintext ::
  "ext \<Rightarrow> bytes option \<Rightarrow> (string \<Rightarrow> bytes option) \<Rightarrow> fs \<Rightarrow> (store_error + unit) \<times> fs" where
  "migrate_plaintext X cipher rng d =
     and_then (key_names d, d) (\<lambda>names d. migrate_entries X cipher rng names d)"

section \<open>Encryption round trip\<close>

definition nonce_ok :: "bytes option \<Rightarrow> bool" where
  "nonce_ok n \<longleftrightarrow> (case n of None \<Rightarrow> False | Some b \<Rightarrow> length b = NONCE_LEN)"

definition secret_ok :: "string \<Rightarrow> bool" where
  "secret_ok s \<longleftrightarrow> utf8_valid s \<and> length s < 2 ^ 36"

definition cipher_ok :: "bytes option \<Rightarrow> bool" where
  "cipher_ok c \<longleftrightarrow> (case c of None \<Rightarrow> True | Some k \<Rightarrow> length k = 32)"

lemma encrypt_decrypt:
  assumes "gcm_ok X" "hex_ok X" "length key = 32" "nonce_ok n" "secret_ok s"
  shows "\<exists>e. encrypt X key n s = Inr e \<and> decrypt X key e = Inr s"
proof -
  obtain b where b: "n = Some b" "length b = NONCE_LEN"
    using assms(4) by (auto simp: nonce_ok_def split: option.splits)
  moreover have "length (as_bytes s) < 2 ^ 36" using assms(5) by (simp add: secret_ok_def)
  ultimately obtain c where c: "gcm_encrypt X key b (as_bytes s) = Some c"
    using assms(1,3) by (fastforce simp: gcm_ok_def NONCE_LEN_def)
  then have "c \<noteq> []" "gcm_decrypt X key b c = Some (as_bytes s)" using assms(1) by (auto simp: gcm_ok_def)
  with b c show ?thesis using assms(2,5)
    by (auto simp: encrypt_def decrypt_def hex_okD secret_ok_def)
qed

lemma encode_decode:
  assumes "gcm_ok X" "hex_ok X" "cipher_ok c" "c \<noteq> None \<longrightarrow> nonce_ok n" "secret_ok (secret_key r)"
  shows "\<exists>s. key_encode X c n r = Inr s \<and> key_decode X c s = Inr r \<and> sk_access_key s = access_key r \<and>
     (c \<noteq> None \<longrightarrow> secret_enc s \<noteq> None \<and> sk_secret_key s = None)"
proof (cases c)
  case None
  then show ?thesis by (simp add: key_encode_def key_decode_def)
next
  case (Some k)
  with assms encrypt_decrypt [OF assms(1,2), of k n "secret_key r"] obtain e where
    "encrypt X k n (secret_key r) = Inr e" "decrypt X k e = Inr (secret_key r)"
    by (auto simp: cipher_ok_def)
  with Some show ?thesis by (simp add: key_encode_def key_decode_def)
qed

section \<open>Lookups\<close>

definition key_at :: "ext \<Rightarrow> fs \<Rightarrow> string \<Rightarrow> bytes option" where
  "key_at X d a = contents d (key_path X a)"

lemma good_key [path_simps]: "hex_ok X \<Longrightarrow> valid_pot a \<Longrightarrow> good (key_path X a)"
  unfolding key_path_def by (intro good_flat) (auto dest: hex_json_name)

lemma key_path_inj [path_simps]: "hex_ok X \<Longrightarrow> key_path X a = key_path X b \<longleftrightarrow> a = b"
  by (simp add: key_path_def hex_okD)

text \<open>
  The invariant of the key directory: a file is named after the (non-empty) access key of the
  record it holds, carries one form of the secret, and can be read with the cipher at hand.
\<close>

definition valid_access :: "string \<Rightarrow> bool" where
  "valid_access a \<longleftrightarrow> a \<noteq> [] \<and> valid_pot a"

definition key_file_ok :: "ext \<Rightarrow> bytes option \<Rightarrow> string \<Rightarrow> bytes \<Rightarrow> bool" where
  "key_file_ok X cipher f b \<longleftrightarrow>
     (\<exists>s r. key_of_json X b = Some s \<and> [key_dir, f] = key_path X (sk_access_key s) \<and>
        valid_access (sk_access_key s) \<and> (secret_enc s = None \<or> sk_secret_key s = None) \<and>
        key_decode X cipher s = Inr r \<and> secret_ok (secret_key r))"

definition keys_ok :: "ext \<Rightarrow> bytes option \<Rightarrow> fs \<Rightarrow> bool" where
  "keys_ok X cipher d \<longleftrightarrow>
     gcm_ok X \<and> cipher_ok cipher \<and> flat_ok X d \<and>
     (\<forall>f b. contents d [key_dir, f] = Some b \<longrightarrow> key_file_ok X cipher f b)"

lemma key_get_eq:
  assumes "flat_ok X d" "valid_pot a"
  shows "key_get X c d a =
     (case key_at X d a of
        None \<Rightarrow> Inr None
      | Some b \<Rightarrow>
          try_then (ok_or Serde (key_of_json X b)) (\<lambda>s.
          try_then (key_decode X c s) (\<lambda>k. Inr (Some k))))"
  using assms by (simp add: key_get_def key_at_def read_opt_good good_key flat_ok_def)

lemma key_put_ok:
  assumes ok: "keys_ok X c d" and a: "valid_access (access_key r)" and s: "secret_ok (secret_key r)"
    and n: "c \<noteq> None \<longrightarrow> nonce_ok n" and put: "key_put X c n r d = (res, d')"
  shows "res = Inr ()" "keys_ok X c d'"
    "valid_pot b \<Longrightarrow> key_get X c d' b = (if b = access_key r then Inr (Some r) else key_get X c d b)"
    "\<exists>e. d' = put_file (key_path X (access_key r)) (key_to_json X e) d \<and>
         (c \<noteq> None \<longrightarrow> secret_enc e \<noteq> None \<and> sk_secret_key e = None)"
proof -
  have X: "gcm_ok X" "cipher_ok c" "flat_ok X d" "hex_ok X" "json_ok X" "disk_ok d"
    using ok by (auto simp: keys_ok_def flat_ok_def)
  have g: "good (key_path X (access_key r))" using X a by (simp add: good_key valid_access_def)
  from encode_decode [OF X(1,4,2) n s] obtain e where
    e: "key_encode X c n r = Inr e" "key_decode X c e = Inr r" "sk_access_key e = access_key r"
      "c \<noteq> None \<longrightarrow> secret_enc e \<noteq> None \<and> sk_secret_key e = None"
    by (elim exE conjE) (rule that)
  with put X g have d': "res = Inr ()" "d' = put_file (key_path X (access_key r)) (key_to_json X e) d"
    by (auto simp: key_put_def write_good)
  then show "res = Inr ()"
    "\<exists>e. d' = put_file (key_path X (access_key r)) (key_to_json X e) d \<and>
         (c \<noteq> None \<longrightarrow> secret_enc e \<noteq> None \<and> sk_secret_key e = None)" using e by auto
  have fl: "flat_ok X d'" using d' X g by (simp add: flat_ok_put_file)
  have at: "key_at X d' b = (if b = access_key r then Some (key_to_json X e) else key_at X d b)" for b
    using X g by (simp add: key_at_def d' contents_put_file key_path_inj)
  show "key_get X c d' b = (if b = access_key r then Inr (Some r) else key_get X c d b)" if "valid_pot b"
    using that at fl X e by (simp add: key_get_eq json_okD)
  have one: "secret_enc e = None \<or> sk_secret_key e = None"
  proof (cases c)
    case None
    with e(1) show ?thesis by (auto simp: key_encode_def)
  next
    case (Some k)
    with e(4) show ?thesis by simp
  qed
  have "key_file_ok X c f b" if b: "contents d' [key_dir, f] = Some b" for f b
  proof (cases "[key_dir, f] = key_path X (access_key r)")
    case True
    with b d' g have "b = key_to_json X e" by (simp add: contents_put_file)
    with True e(2,3) a s one show ?thesis
      unfolding key_file_ok_def by (intro exI [of _ e] exI [of _ r]) (simp add: json_okD X(5))
  next
    case False
    with b d' g have "contents d [key_dir, f] = Some b" by (simp add: contents_put_file)
    with ok show ?thesis by (simp add: keys_ok_def)
  qed
  with X fl show "keys_ok X c d'" by (simp add: keys_ok_def)
qed

lemma key_delete_ok:
  assumes ok: "keys_ok X c d" and a: "valid_pot a" and del: "key_delete X a d = (res, d')"
  shows "res = Inr ()" "keys_ok X c d'"
    "valid_pot b \<Longrightarrow> key_get X c d' b = (if b = a then Inr None else key_get X c d b)"
proof -
  have X: "flat_ok X d" "hex_ok X" "disk_ok d" using ok by (auto simp: keys_ok_def flat_ok_def)
  have g: "good (key_path X a)" using X a by (simp add: good_key)
  have d': "res = Inr ()" "d' = snd (remove_opt (key_path X a) d)"
    using del X g by (auto simp: key_delete_def remove_opt_good)
  then show "res = Inr ()" by simp
  have c: "contents d' q = (if q = key_path X a then None else contents d q)" for q
    using d' X g by (simp add: contents_remove_opt)
  have fl: "flat_ok X d'" using X g d' by (simp add: flat_ok_def disk_ok_remove_opt)
  show "key_get X c d' b = (if b = a then Inr None else key_get X c d b)" if "valid_pot b"
    using that X fl by (simp add: key_get_eq key_at_def c key_path_inj)
  show "keys_ok X c d'" using ok fl c by (simp add: keys_ok_def)
qed

section \<open>Listing and migration\<close>

lemma key_names_ok:
  assumes ok: "keys_ok X c d"
  shows "\<exists>ns. key_names d = Inr ns \<and> distinct ns \<and> (\<forall>f. f \<in> set ns \<longleftrightarrow> contents d [key_dir, f] \<noteq> None)"
proof -
  have X: "hex_ok X" "disk_ok d" using ok by (auto simp: keys_ok_def flat_ok_def)
  have dir: "read_dir_opt d [key_dir] = Inr (entries_of d [key_dir])"
    using X by (intro read_dir_good) (auto simp: name_error_def NAME_MAX_def)
  have name: "f \<noteq> [] \<and> \<not> starts_with_char CHR ''.'' (utf8_lossy f)" if "contents d [key_dir, f] = Some b" for f b
  proof -
    from that ok obtain a where a: "f = hex_encode X (as_bytes a) @ ''.json''" "a \<noteq> []"
      by (auto simp: keys_ok_def key_file_ok_def key_path_def valid_access_def)
    then have "ascii f" using X by (simp add: ascii_hex_encode)
    then have "utf8_lossy f = f" by (rule utf8_lossy_ascii)
    moreover have "hex_encode X (as_bytes a) \<noteq> []" using hex_okD(2) [OF X(1), of "as_bytes a"] a(2) by auto
    ultimately show ?thesis using a hex_encode_chars(1) [OF X(1), of "hd f" "as_bytes a"]
      by (cases "hex_encode X (as_bytes a)") (auto simp: starts_with_char_def)
  qed
  have mem: "f \<in> set (map fst (entries_of d [key_dir])) \<longleftrightarrow> contents d [key_dir, f] \<noteq> None" for f
  proof (cases "f = []")
    case True
    then show ?thesis using entries_of_names [of d "[]"] X name by (force simp: disk_ok_def)
  next
    case False
    have "f \<in> set (map fst (entries_of d [key_dir])) \<longleftrightarrow> (\<exists>k. (f, k) \<in> set (entries_of d [key_dir]))"
      by force
    also have "\<dots> \<longleftrightarrow> contents d [key_dir, f] \<noteq> None"
      using entries_contents [OF X(2) False, of "[key_dir]"] by auto
    finally show ?thesis .
  qed
  have "filter (\<lambda>name. \<not> starts_with_char CHR ''.'' (utf8_lossy name)) (map fst (entries_of d [key_dir]))
      = map fst (entries_of d [key_dir])"
    unfolding filter_id_conv using mem name by blast
  then have "key_names d = Inr (map fst (entries_of d [key_dir]))" by (simp add: key_names_def dir)
  moreover have "distinct (map fst (entries_of d [key_dir]))"
    using X entries_of_distinct by (auto simp: disk_ok_def)
  ultimately show ?thesis using mem by blast
qed

definition encrypted_at :: "ext \<Rightarrow> fs \<Rightarrow> string \<Rightarrow> bool" where
  "encrypted_at X d f \<longleftrightarrow>
     (\<exists>b s. contents d [key_dir, f] = Some b \<and> key_of_json X b = Some s \<and> secret_enc s \<noteq> None \<and>
            sk_secret_key s = None)"

text \<open>One entry: its record becomes (or stays) encrypted, every look-up answers as before.\<close>

lemma migrate_one:
  assumes ok: "keys_ok X (Some k) d" and n: "nonce_ok n" and f: "contents d [key_dir, f] \<noteq> None"
  shows "\<exists>s d'. key_read X d f = Inr s \<and>
     (if secret_enc s = None \<and> sk_secret_key s \<noteq> None
        then and_then (key_decode X (Some k) s, d) (\<lambda>r d. key_put X (Some k) n r d)
        else (Inr (), d)) = (Inr (), d') \<and>
     keys_ok X (Some k) d' \<and> encrypted_at X d' f \<and>
     (\<forall>a. valid_pot a \<longrightarrow> key_get X (Some k) d' a = key_get X (Some k) d a) \<and>
     (\<forall>g. g \<noteq> f \<longrightarrow> contents d' [key_dir, g] = contents d [key_dir, g])"
proof -
  have X: "flat_ok X d" "hex_ok X" "json_ok X" "disk_ok d" using ok by (auto simp: keys_ok_def flat_ok_def)
  from f obtain b where b: "contents d [key_dir, f] = Some b" by auto
  with ok have "key_file_ok X (Some k) f b" by (simp add: keys_ok_def)
  then obtain s r where s: "key_of_json X b = Some s" "[key_dir, f] = key_path X (sk_access_key s)"
    "valid_access (sk_access_key s)" "secret_enc s = None \<or> sk_secret_key s = None"
    "key_decode X (Some k) s = Inr r" "secret_ok (secret_key r)"
    unfolding key_file_ok_def by blast
  have ra: "access_key r = sk_access_key s" using s(5) by (auto simp: key_decode_def result_simps)
  have g: "good [key_dir, f]" using s(2,3) X by (simp add: good_key valid_access_def)
  have rd: "key_read X d f = Inr s"
    using b s(1) X g by (simp add: key_read_def read_good)
  have old: "key_get X (Some k) d (access_key r) = Inr (Some r)"
    using s(1,3,5) b X ra by (simp add: key_get_eq key_at_def s(2) [symmetric] valid_access_def)
  have some: "secret_enc s \<noteq> None \<or> sk_secret_key s \<noteq> None"
    using s(5) by (auto simp: key_decode_def split: option.splits)
  show ?thesis
  proof (cases "secret_enc s = None")
    case True
    obtain res d' where put: "key_put X (Some k) n r d = (res, d')" by force
    have va: "valid_access (access_key r)" using s(3) ra by simp
    have nn: "Some k \<noteq> None \<longrightarrow> nonce_ok n" using n by simp
    note pr = key_put_ok [OF ok va s(6) nn put]
    from pr(4) obtain e where e: "d' = put_file (key_path X (access_key r)) (key_to_json X e) d"
      "secret_enc e \<noteq> None" "sk_secret_key e = None" by auto
    have kp: "key_path X (access_key r) = [key_dir, f]" using s(2) ra by simp
    have at: "contents d' [key_dir, h] = (if h = f then Some (key_to_json X e) else contents d [key_dir, h])" for h
      by (simp add: e(1) kp contents_put_file g)
    then have "encrypted_at X d' f" using e(2,3) X by (auto simp: encrypted_at_def json_okD)
    moreover have "key_get X (Some k) d' a = key_get X (Some k) d a" if "valid_pot a" for a
      using pr(3) [OF that] old by auto
    ultimately show ?thesis using rd True some s(5) put pr(1,2) at by auto
  next
    case False
    then have "encrypted_at X d f" using b s(1,4) by (auto simp: encrypted_at_def)
    with False rd ok show ?thesis by auto
  qed
qed

lemma migrate_entries_ok:
  assumes "keys_ok X (Some k) d" "\<forall>name. nonce_ok (rng name)" "distinct names"
    and "\<forall>f \<in> set names. contents d [key_dir, f] \<noteq> None"
  shows "\<exists>d'. migrate_entries X (Some k) rng names d = (Inr (), d') \<and> keys_ok X (Some k) d' \<and>
     (\<forall>a. valid_pot a \<longrightarrow> key_get X (Some k) d' a = key_get X (Some k) d a) \<and>
     (\<forall>f \<in> set names. encrypted_at X d' f) \<and>
     (\<forall>f. f \<notin> set names \<longrightarrow> contents d' [key_dir, f] = contents d [key_dir, f])"
  using assms(1,3,4)
proof (induction names arbitrary: d)
  case Nil
  then show ?case by simp
next
  case (Cons f names)
  from migrate_one [OF Cons.prems(1), of "rng f" f] Cons.prems(3) assms(2) obtain s d1 where
    d1: "key_read X d f = Inr s"
      "(if secret_enc s = None \<and> sk_secret_key s \<noteq> None
        then and_then (key_decode X (Some k) s, d) (\<lambda>r d. key_put X (Some k) (rng f) r d)
        else (Inr (), d)) = (Inr (), d1)"
      "keys_ok X (Some k) d1" "encrypted_at X d1 f"
      "\<forall>a. valid_pot a \<longrightarrow> key_get X (Some k) d1 a = key_get X (Some k) d a"
      "\<forall>g. g \<noteq> f \<longrightarrow> contents d1 [key_dir, g] = contents d [key_dir, g]"
    by auto
  have "\<forall>g \<in> set names. contents d1 [key_dir, g] \<noteq> None" using d1(6) Cons.prems(2,3) by auto
  with Cons.IH [OF d1(3)] Cons.prems(2) obtain d2 where
    d2: "migrate_entries X (Some k) rng names d1 = (Inr (), d2)" "keys_ok X (Some k) d2"
      "\<forall>a. valid_pot a \<longrightarrow> key_get X (Some k) d2 a = key_get X (Some k) d1 a"
      "\<forall>f \<in> set names. encrypted_at X d2 f"
      "\<forall>f. f \<notin> set names \<longrightarrow> contents d2 [key_dir, f] = contents d1 [key_dir, f]" by auto
  have "encrypted_at X d2 f" using d1(4) d2(5) Cons.prems(2) by (simp add: encrypted_at_def)
  then show ?case using d1 d2 by (intro exI [of _ d2]) (simp add: del: key_read_def)
qed

lemma migrate_ok:
  assumes "keys_ok X (Some k) d" "\<forall>name. nonce_ok (rng name)"
  shows "\<exists>d'. migrate_plaintext X (Some k) rng d = (Inr (), d') \<and> keys_ok X (Some k) d' \<and>
     (\<forall>a. valid_pot a \<longrightarrow> key_get X (Some k) d' a = key_get X (Some k) d a) \<and>
     (\<forall>f. contents d' [key_dir, f] \<noteq> None \<longrightarrow> encrypted_at X d' f)"
proof -
  from key_names_ok [OF assms(1)] obtain ns where ns: "key_names d = Inr ns" "distinct ns"
    "\<forall>f. f \<in> set ns \<longleftrightarrow> contents d [key_dir, f] \<noteq> None" by blast
  with migrate_entries_ok [OF assms ns(2)] show ?thesis by (fastforce simp: migrate_plaintext_def)
qed

section \<open>Reading every key\<close>

lemma key_list_ok:
  assumes ok: "keys_ok X c d"
  shows "\<exists>ks. key_list X c d = Inr ks \<and> (ks = [] \<longleftrightarrow> (\<forall>f. contents d [key_dir, f] = None))"
proof -
  from key_names_ok [OF ok] obtain ns where
    ns: "key_names d = Inr ns" "\<forall>f. f \<in> set ns \<longleftrightarrow> contents d [key_dir, f] \<noteq> None" by blast
  have dk: "disk_ok d" "hex_ok X" using ok by (auto simp: keys_ok_def flat_ok_def)
  have one: "\<exists>r. try_then (key_read X d f) (key_decode X c) = Inr r" if "f \<in> set ns" for f
  proof -
    from that ns(2) obtain b where b: "contents d [key_dir, f] = Some b" by auto
    with ok have "key_file_ok X c f b" by (simp add: keys_ok_def)
    then obtain s r where s: "key_of_json X b = Some s" "[key_dir, f] = key_path X (sk_access_key s)"
      "valid_access (sk_access_key s)" "key_decode X c s = Inr r"
      unfolding key_file_ok_def by blast
    then have "good [key_dir, f]" using dk by (simp add: good_key valid_access_def)
    with b s(1,4) dk(1) show ?thesis by (simp add: key_read_def read_good)
  qed
  then have "\<exists>ks. try_map (\<lambda>f. try_then (key_read X d f) (key_decode X c)) ns = Inr ks \<and> (ks = [] \<longleftrightarrow> ns = [])"
  proof (induction ns)
    case (Cons f ns)
    from Cons.prems [of f] Cons.IH [OF Cons.prems] show ?case by auto
  qed simp
  then obtain ks where ks: "try_map (\<lambda>f. try_then (key_read X d f) (key_decode X c)) ns = Inr ks" "ks = [] \<longleftrightarrow> ns = []"
    by blast
  have "ns = [] \<longleftrightarrow> (\<forall>f. f \<notin> set ns)" by (cases ns) auto
  also have "\<dots> \<longleftrightarrow> (\<forall>f. contents d [key_dir, f] = None)" using ns(2) by simp
  finally show ?thesis using ns(1) ks by (auto simp: key_list_def)
qed

lemma keys_ok_agree:
  assumes "keys_ok X c d" "disk_ok d'" "\<And>f. contents d' [key_dir, f] = contents d [key_dir, f]"
  shows "keys_ok X c d'" "valid_pot a \<Longrightarrow> key_get X c d' a = key_get X c d a"
proof -
  have fl: "flat_ok X d" "flat_ok X d'" using assms(1,2) by (auto simp: keys_ok_def flat_ok_def)
  then show "keys_ok X c d'" using assms(1,3) by (simp add: keys_ok_def)
  show "key_get X c d' a = key_get X c d a" if "valid_pot a"
    using key_get_eq [OF fl(1) that] key_get_eq [OF fl(2) that] assms(3) by (simp add: key_at_def key_path_def)
qed

end
