(* ===== verification/Gc.thy ===== *)
theory Gc
  imports Pointer_Store Key_Store
begin

text \<open>
  Mark-and-sweep garbage collection (\<open>barme-gc/src/lib.rs\<close>), and the invariant \<open>store_ok\<close> of the
  whole data directory that the collector and the engine rely on and keep.
\<close>

section \<open>Operations\<close>

text \<open>MARK: the three nested loops, with the manifests already seen and the reachable chunks.\<close>

fun mark_versions :: "ext \<Rightarrow> fs \<Rightarrow> hash list \<Rightarrow> hash list \<times> hash list \<Rightarrow> store_error + hash list \<times> hash list" where
  "mark_versions X d [] s = Inr s"
| "mark_versions X d (i # ids) (seen, reach) =
     (if i \<in> set seen then mark_versions X d ids (seen, reach)
      else try_then (manifest_get X d i) (\<lambda>r.
        case r of
          None \<Rightarrow> mark_versions X d ids (i # seen, reach)
        | Some m \<Rightarrow> mark_versions X d ids (i # seen, reach @ chunks (chunking m))))"

fun mark_keys :: "ext \<Rightarrow> fs \<Rightarrow> string \<Rightarrow> string list \<Rightarrow> hash list \<times> hash list \<Rightarrow> store_error + hash list \<times> hash list" where
  "mark_keys X d b [] s = Inr s"
| "mark_keys X d b (k # ks) s =
     try_then (history X d b k) (\<lambda>ids. try_then (mark_versions X d ids s) (mark_keys X d b ks))"

fun mark_buckets :: "ext \<Rightarrow> fs \<Rightarrow> string list \<Rightarrow> hash list \<times> hash list \<Rightarrow> store_error + hash list \<times> hash list" where
  "mark_buckets X d [] s = Inr s"
| "mark_buckets X d (b # bs) s =
     try_then (pointer_list X d b) (\<lambda>ks. try_then (mark_keys X d b ks s) (mark_buckets X d bs))"

definition mark :: "ext \<Rightarrow> hash list \<Rightarrow> fs \<Rightarrow> store_error + hash list" where
  "mark X pinned d =
     try_then (pointer_buckets d) (\<lambda>bs.
     try_then (mark_buckets X d bs ([], pinned)) (\<lambda>s. Inr (snd s)))"

text \<open>SWEEP and ERASE. \<open>now - at\<close> on \<open>nat\<close> is the saturating subtraction of the code.\<close>

record sweep_counts =
  sw_condemned :: nat
  sw_erased :: nat
  sw_live :: nat

definition no_sweep :: sweep_counts where
  "no_sweep = \<lparr>sw_condemned = 0, sw_erased = 0, sw_live = 0\<rparr>"

fun sweep_chunks ::
  "ext \<Rightarrow> hash list \<Rightarrow> nat \<Rightarrow> nat \<Rightarrow> hash list \<Rightarrow> (hash \<times> nat) list \<Rightarrow> sweep_counts \<Rightarrow> fs \<Rightarrow>
     (store_error + (hash \<times> nat) list \<times> sweep_counts) \<times> fs" where
  "sweep_chunks X reach now grace [] cond n d = (Inr (cond, n), d)"
| "sweep_chunks X reach now grace (h # hs) cond n d =
     (if h \<in> set reach then
        sweep_chunks X reach now grace hs (AList.delete h cond) (n\<lparr>sw_live := sw_live n + 1\<rparr>) d
      else
        (case map_of cond h of
           Some at \<Rightarrow>
             if grace \<le> now - at then
               and_then (chunk_delete X h d) (\<lambda>_ d.
                 sweep_chunks X reach now grace hs (AList.delete h cond) (n\<lparr>sw_erased := sw_erased n + 1\<rparr>) d)
             else sweep_chunks X reach now grace hs cond n d
         | None \<Rightarrow>
             sweep_chunks X reach now grace hs (AList.update h now cond)
               (n\<lparr>sw_condemned := sw_condemned n + 1\<rparr>) d))"

definition sweep :: "ext \<Rightarrow> hash list \<Rightarrow> nat \<Rightarrow> nat \<Rightarrow> fs \<Rightarrow> (store_error + sweep_counts) \<times> fs" where
  "sweep X pinned now grace d =
     and_then (mark X pinned d, d) (\<lambda>reach d.
     and_then (load_condemned X d, d) (\<lambda>cond d.
     and_then (chunk_all X d, d) (\<lambda>hs d.
     and_then (sweep_chunks X reach now grace hs cond no_sweep d) (\<lambda>(cond, n) d.
     and_then (save_condemned X cond d) (\<lambda>_ d. (Inr n, d))))))"

section \<open>The invariant of the data directory\<close>

text \<open>Two disks agree on a store directory when every path below it looks the same.\<close>

definition agree :: "string \<Rightarrow> fs \<Rightarrow> fs \<Rightarrow> bool" where
  "agree t d d' \<longleftrightarrow> (\<forall>q. fs_lookup d' (t # q) = fs_lookup d (t # q))"

lemma agree_refl [simp]: "agree t d d"
  by (simp add: agree_def)

lemma agree_trans: "agree t a b \<Longrightarrow> agree t b c \<Longrightarrow> agree t a c"
  by (simp add: agree_def)

lemma agree_contents: "agree t d d' \<Longrightarrow> contents d' (t # q) = contents d (t # q)"
  by (simp add: agree_def contents_def)

lemma agree_put_file: "p \<noteq> [] \<Longrightarrow> hd p \<noteq> t \<Longrightarrow> agree t d (put_file p b d)"
  by (cases p) (auto simp: agree_def lookup_put_file strict_prefix_def)

lemma agree_delete: "p \<noteq> [] \<Longrightarrow> hd p \<noteq> t \<Longrightarrow> agree t d (AList.delete p d)"
  by (cases p) (auto simp: agree_def)

text \<open>Every JSON file of the side stores parses.\<close>

definition side_ok :: "ext \<Rightarrow> fs \<Rightarrow> bool" where
  "side_ok X d \<longleftrightarrow>
     (\<forall>f b. contents d [meta_dir, f] = Some b \<longrightarrow> config_of_json X b \<noteq> None) \<and>
     (\<forall>f b. contents d [annotation_dir, f] = Some b \<longrightarrow> annotation_of_json X b \<noteq> None) \<and>
     (\<forall>s f b. contents d [reverse_dir, s, f] = Some b \<longrightarrow> locations_of_json X b \<noteq> None)"

definition store_ok :: "ext \<Rightarrow> bytes set \<Rightarrow> bytes set \<Rightarrow> fs \<Rightarrow> bool" where
  "store_ok X B M d \<longleftrightarrow> chunks_ok X B d \<and> manifests_ok X M d \<and> pointers_ok X d \<and> side_ok X d"

lemma store_okD:
  assumes "store_ok X B M d"
  shows "chunks_ok X B d" "manifests_ok X M d" "pointers_ok X d" "side_ok X d" "disk_ok d"
    "hash_ok X" "hex_ok X" "json_ok X" "flat_ok X d" "inj_on (blake3 X) B" "inj_on (blake3 X) M"
  using assms by (auto simp: store_ok_def chunks_ok_def manifests_ok_def flat_ok_def)

text \<open>Each part of the invariant depends on its own directory only.\<close>

lemma chunks_ok_agree: "chunks_ok X B d \<Longrightarrow> disk_ok d' \<Longrightarrow> agree chunk_dir d d' \<Longrightarrow> chunks_ok X B d'"
  by (simp add: chunks_ok_def agree_contents)

lemma manifest_at_agree: "agree manifest_dir d d' \<Longrightarrow> manifest_at X d' h = manifest_at X d h"
  by (simp add: manifest_at_def shard_def agree_contents)

lemma manifests_ok_agree: "manifests_ok X M d \<Longrightarrow> disk_ok d' \<Longrightarrow> agree manifest_dir d d' \<Longrightarrow> manifests_ok X M d'"
  by (simp add: manifests_ok_def manifest_at_agree)

lemma pointers_ok_agree: "pointers_ok X d \<Longrightarrow> disk_ok d' \<Longrightarrow> agree pointer_dir d d' \<Longrightarrow> pointers_ok X d'"
  by (simp add: pointers_ok_def agree_contents) (simp add: agree_def)

lemma log_at_agree: "agree pointer_dir d d' \<Longrightarrow> log_at X d' b k = log_at X d b k"
  by (simp add: log_at_def pointer_file_def agree_contents)

lemma chunk_at_agree: "agree chunk_dir d d' \<Longrightarrow> chunk_at X d' h = chunk_at X d h"
  by (simp add: chunk_at_def shard_def agree_contents)

lemma manifest_get_agree:
  assumes "hex_ok X" "disk_ok d" "disk_ok d'" "agree manifest_dir d d'" "hash_wf h"
  shows "manifest_get X d' h = manifest_get X d h"
  using assms by (simp add: manifest_get_eq manifest_at_agree)

lemma side_ok_agree:
  "side_ok X d \<Longrightarrow> agree meta_dir d d' \<Longrightarrow> agree annotation_dir d d' \<Longrightarrow> agree reverse_dir d d' \<Longrightarrow> side_ok X d'"
  by (simp add: side_ok_def agree_contents)

section \<open>MARK computes reachability\<close>

text \<open>The chunks some version of some key refers to.\<close>

definition version_chunks :: "ext \<Rightarrow> fs \<Rightarrow> hash \<Rightarrow> hash set" where
  "version_chunks X d i = {c. \<exists>m. manifest_get X d i = Inr (Some m) \<and> c \<in> set (chunks (chunking m))}"

definition versions :: "ext \<Rightarrow> fs \<Rightarrow> hash set" where
  "versions X d = {i. \<exists>b k. valid_bucket b \<and> valid_key k \<and> i \<in> set (log_at X d b k)}"

definition referenced :: "ext \<Rightarrow> fs \<Rightarrow> hash set" where
  "referenced X d = \<Union> (version_chunks X d ` versions X d)"

lemma manifest_get_total:
  assumes "manifests_ok X M d" "hash_wf i"
  shows "\<exists>r. manifest_get X d i = Inr r"
  using manifest_get_ok [OF assms] by (cases "manifest_at X d i") auto

lemma mark_versions_ok:
  assumes "manifests_ok X M d" "list_all hash_wf ids"
    and "\<forall>i \<in> set seen. version_chunks X d i \<subseteq> set reach"
  shows "\<exists>seen' reach'. mark_versions X d ids (seen, reach) = Inr (seen', reach') \<and>
     set reach' = set reach \<union> \<Union> (version_chunks X d ` set ids) \<and>
     (\<forall>i \<in> set seen'. version_chunks X d i \<subseteq> set reach')"
  using assms(2,3)
proof (induction ids arbitrary: seen reach)
  case (Cons i ids)
  then obtain r where r: "manifest_get X d i = Inr r" using manifest_get_total [OF assms(1), of i] by auto
  show ?case
  proof (cases "i \<in> set seen")
    case True
    then have "version_chunks X d i \<subseteq> set reach" using Cons.prems(2) by blast
    then have "set reach \<union> \<Union> (version_chunks X d ` set (i # ids)) =
        set reach \<union> \<Union> (version_chunks X d ` set ids)" by auto
    with True Cons.IH [of seen reach] Cons.prems show ?thesis by simp
  next
    case False
    show ?thesis
    proof (cases r)
      case None
      then have "version_chunks X d i = {}" using r by (simp add: version_chunks_def)
      with Cons.IH [of "i # seen" reach] Cons.prems False r None show ?thesis by auto
    next
      case (Some m)
      then have c: "version_chunks X d i = set (chunks (chunking m))" using r by (simp add: version_chunks_def)
      have "\<forall>j \<in> set (i # seen). version_chunks X d j \<subseteq> set (reach @ chunks (chunking m))"
        using Cons.prems c by auto
      with Cons.IH [of "i # seen" "reach @ chunks (chunking m)"] Cons.prems False r Some c
      show ?thesis by auto
    qed
  qed
qed auto

lemma mark_keys_ok:
  assumes "manifests_ok X M d" "pointers_ok X d" "valid_bucket b" "list_all valid_key ks"
    and "\<forall>i \<in> set seen. version_chunks X d i \<subseteq> set reach"
  shows "\<exists>seen' reach'. mark_keys X d b ks (seen, reach) = Inr (seen', reach') \<and>
     set reach' = set reach \<union> (\<Union>k \<in> set ks. \<Union> (version_chunks X d ` set (log_at X d b k))) \<and>
     (\<forall>i \<in> set seen'. version_chunks X d i \<subseteq> set reach')"
  using assms(4,5)
proof (induction ks arbitrary: seen reach)
  case (Cons k ks)
  then have "valid_key k" by simp
  note hs = history_eq [OF assms(2,3) this]
  from mark_versions_ok [OF assms(1) hs(2) Cons.prems(2)] obtain s1 r1 where
    1: "mark_versions X d (log_at X d b k) (seen, reach) = Inr (s1, r1)"
      "set r1 = set reach \<union> \<Union> (version_chunks X d ` set (log_at X d b k))"
      "\<forall>i \<in> set s1. version_chunks X d i \<subseteq> set r1" by blast
  with Cons.IH [OF _ 1(3)] Cons.prems(1) hs(1) show ?case by auto
qed auto

lemma mark_buckets_ok:
  assumes "manifests_ok X M d" "pointers_ok X d" "list_all valid_bucket bs"
    and "\<forall>i \<in> set seen. version_chunks X d i \<subseteq> set reach"
  shows "\<exists>seen' reach'. mark_buckets X d bs (seen, reach) = Inr (seen', reach') \<and>
     set reach' = set reach \<union>
       (\<Union>b \<in> set bs. \<Union>k \<in> {k. valid_key k}. \<Union> (version_chunks X d ` set (log_at X d b k)))"
  using assms(3,4)
proof (induction bs arbitrary: seen reach)
  case (Cons b bs)
  then have b: "valid_bucket b" by simp
  from pointer_list_ok [OF assms(2) b] obtain ks where
    ks: "pointer_list X d b = Inr ks" "set ks = {k. valid_key k \<and> contents d (pointer_file X b k) \<noteq> None}"
    by blast
  then have "list_all valid_key ks" by (auto simp: list_all_iff)
  from mark_keys_ok [OF assms(1,2) b this Cons.prems(2)] obtain s1 r1 where
    1: "mark_keys X d b ks (seen, reach) = Inr (s1, r1)"
      "set r1 = set reach \<union> (\<Union>k \<in> set ks. \<Union> (version_chunks X d ` set (log_at X d b k)))"
      "\<forall>i \<in> set s1. version_chunks X d i \<subseteq> set r1" by blast
  have "(\<Union>k \<in> set ks. \<Union> (version_chunks X d ` set (log_at X d b k))) =
      (\<Union>k \<in> {k. valid_key k}. \<Union> (version_chunks X d ` set (log_at X d b k)))"
  proof
    show "(\<Union>k \<in> {k. valid_key k}. \<Union> (version_chunks X d ` set (log_at X d b k))) \<subseteq>
        (\<Union>k \<in> set ks. \<Union> (version_chunks X d ` set (log_at X d b k)))"
    proof
      fix c assume "c \<in> (\<Union>k \<in> {k. valid_key k}. \<Union> (version_chunks X d ` set (log_at X d b k)))"
      then obtain k i where k: "valid_key k" "i \<in> set (log_at X d b k)" "c \<in> version_chunks X d i" by blast
      then have "log_at X d b k \<noteq> []" by auto
      with k(1) have "k \<in> set ks" using ks(2) log_at_None by blast
      with k show "c \<in> (\<Union>k \<in> set ks. \<Union> (version_chunks X d ` set (log_at X d b k)))" by blast
    qed
  qed (use ks(2) in blast)
  with 1 have r1: "set r1 = set reach \<union> (\<Union>k \<in> {k. valid_key k}. \<Union> (version_chunks X d ` set (log_at X d b k)))"
    by simp
  from Cons.IH [OF _ 1(3)] Cons.prems(1) obtain s2 r2 where
    2: "mark_buckets X d bs (s1, r1) = Inr (s2, r2)"
     "set r2 = set r1 \<union> (\<Union>b \<in> set bs. \<Union>k \<in> {k. valid_key k}. \<Union> (version_chunks X d ` set (log_at X d b k)))"
    by auto
  have "mark_buckets X d (b # bs) (seen, reach) = Inr (s2, r2)" using ks(1) 1(1) 2(1) by simp
  moreover have "set r2 = set reach \<union>
       (\<Union>b \<in> set (b # bs). \<Union>k \<in> {k. valid_key k}. \<Union> (version_chunks X d ` set (log_at X d b k)))"
    unfolding 2(2) r1 by (simp add: Un_assoc)
  ultimately show ?case by blast
qed auto

lemma mark_ok:
  assumes "manifests_ok X M d" "pointers_ok X d"
  shows "\<exists>reach. mark X pinned d = Inr reach \<and> set reach = set pinned \<union> referenced X d"
proof -
  from pointer_buckets_ok [OF assms(2)] obtain bs where
    bs: "pointer_buckets d = Inr bs" "set bs = {b. fs_lookup d [pointer_dir, b] = Some Dir}" by blast
  then have "list_all valid_bucket bs" using pointers_okD(4) [OF assms(2)] by (auto simp: list_all_iff)
  from mark_buckets_ok [OF assms this, of "[]" pinned] obtain s r where
    r: "mark_buckets X d bs ([], pinned) = Inr (s, r)" "set r = set pinned \<union>
       (\<Union>b \<in> set bs. \<Union>k \<in> {k. valid_key k}. \<Union> (version_chunks X d ` set (log_at X d b k)))" by auto
  have "b \<in> set bs" if "i \<in> set (log_at X d b k)" for b k i
  proof -
    from that have "log_at X d b k \<noteq> []" by auto
    from log_at_None [OF this] obtain c where "contents d [pointer_dir, b, hex_encode X (as_bytes k)] = Some c"
      by (auto simp: pointer_file_def)
    with pointers_okD(3) [OF assms(2)] bs(2) show ?thesis by (auto dest: disk_ok_parent)
  qed
  moreover have "valid_bucket b" if "b \<in> set bs" for b using that bs(2) pointers_okD(4) [OF assms(2)] by blast
  ultimately have "(\<Union>b \<in> set bs. \<Union>k \<in> {k. valid_key k}. \<Union> (version_chunks X d ` set (log_at X d b k)))
      = referenced X d"
    unfolding referenced_def versions_def by fastforce
  with bs(1) r show ?thesis by (simp add: mark_def)
qed

section \<open>SWEEP and ERASE\<close>

text \<open>The chunks a pass erases, and the stamp it leaves for every other listed chunk.\<close>

definition doomed :: "hash set \<Rightarrow> nat \<Rightarrow> nat \<Rightarrow> (hash \<times> nat) list \<Rightarrow> hash \<Rightarrow> bool" where
  "doomed reach now grace cond h \<longleftrightarrow>
     h \<notin> reach \<and> (case map_of cond h of None \<Rightarrow> False | Some at \<Rightarrow> grace \<le> now - at)"

definition stamp_after :: "hash set \<Rightarrow> nat \<Rightarrow> nat \<Rightarrow> (hash \<times> nat) list \<Rightarrow> hash \<Rightarrow> nat option" where
  "stamp_after reach now grace cond h =
     (if h \<in> reach \<or> doomed reach now grace cond h then None
      else (case map_of cond h of None \<Rightarrow> Some now | Some at \<Rightarrow> Some at))"

lemma chunk_delete_agree:
  assumes "hex_ok X" "disk_ok d" "hash_wf h" "chunk_delete X h d = (r, d')" "t \<noteq> chunk_dir"
  shows "agree t d d'"
  using assms agree_delete [of "shard X chunk_dir h" t d]
  by (auto simp: chunk_delete_eq shard_def split: if_splits)

text \<open>What the loop over \<open>hs\<close> makes of a condemned set, counts and disk.\<close>

definition swept ::
  "ext \<Rightarrow> bytes set \<Rightarrow> hash set \<Rightarrow> nat \<Rightarrow> nat \<Rightarrow> hash list \<Rightarrow> (hash \<times> nat) list \<Rightarrow> sweep_counts \<Rightarrow> fs \<Rightarrow>
     (hash \<times> nat) list \<Rightarrow> sweep_counts \<Rightarrow> fs \<Rightarrow> bool" where
  "swept X B reach now grace hs cond n d cond' n' d' \<longleftrightarrow>
     chunks_ok X B d' \<and>
     (\<forall>k. chunk_at X d' k = (if k \<in> set hs \<and> doomed reach now grace cond k then None else chunk_at X d k)) \<and>
     (\<forall>k. map_of cond' k = (if k \<in> set hs then stamp_after reach now grace cond k else map_of cond k)) \<and>
     (\<forall>t. t \<noteq> chunk_dir \<longrightarrow> agree t d d') \<and>
     sw_erased n' = sw_erased n + length (filter (doomed reach now grace cond) hs) \<and>
     sw_live n' = sw_live n + length (filter (\<lambda>h. h \<in> reach) hs) \<and>
     sw_condemned n' = sw_condemned n + length (filter (\<lambda>h. h \<notin> reach \<and> map_of cond h = None) hs)"

lemma swept_step:
  assumes s: "swept X B reach now grace hs c n1 d1 cond' n' d'" and h: "h \<notin> set hs"
    and c: "\<And>k. k \<noteq> h \<Longrightarrow> map_of c k = map_of cond k" "map_of c h = stamp_after reach now grace cond h"
    and d1: "\<And>k. chunk_at X d1 k = (if k = h \<and> doomed reach now grace cond h then None else chunk_at X d k)"
    and ag: "\<And>t. t \<noteq> chunk_dir \<Longrightarrow> agree t d d1"
    and n1: "sw_erased n1 = sw_erased n + (if doomed reach now grace cond h then 1 else 0)"
      "sw_live n1 = sw_live n + (if h \<in> reach then 1 else 0)"
      "sw_condemned n1 = sw_condemned n + (if h \<notin> reach \<and> map_of cond h = None then 1 else 0)"
  shows "swept X B reach now grace (h # hs) cond n d cond' n' d'"
proof -
  have same: "doomed reach now grace c k \<longleftrightarrow> doomed reach now grace cond k"
    "stamp_after reach now grace c k = stamp_after reach now grace cond k" if "k \<noteq> h" for k
    using c(1) [OF that] by (simp_all add: doomed_def stamp_after_def)
  have filt: "filter (doomed reach now grace c) hs = filter (doomed reach now grace cond) hs"
    "filter (\<lambda>h. h \<notin> reach \<and> map_of c h = None) hs = filter (\<lambda>h. h \<notin> reach \<and> map_of cond h = None) hs"
    using h same(1) c(1) by (intro filter_cong refl; metis)+
  show ?thesis
    unfolding swept_def
  proof (intro conjI allI impI)
    show "chunks_ok X B d'" using s by (simp add: swept_def)
    show "chunk_at X d' k = (if k \<in> set (h # hs) \<and> doomed reach now grace cond k then None else chunk_at X d k)" for k
      using s h d1 [of k] same(1) [of k] by (cases "k = h") (auto simp: swept_def)
    show "map_of cond' k = (if k \<in> set (h # hs) then stamp_after reach now grace cond k else map_of cond k)" for k
      using s h c same(2) [of k] by (cases "k = h") (auto simp: swept_def)
    show "agree t d d'" if "t \<noteq> chunk_dir" for t
      using s that by (auto simp: swept_def intro: agree_trans [OF ag [OF that]])
    show "sw_erased n' = sw_erased n + length (filter (doomed reach now grace cond) (h # hs))"
      "sw_live n' = sw_live n + length (filter (\<lambda>h. h \<in> reach) (h # hs))"
      "sw_condemned n' = sw_condemned n + length (filter (\<lambda>h. h \<notin> reach \<and> map_of cond h = None) (h # hs))"
      using s n1 unfolding swept_def filt by (simp_all del: not_None_eq)
  qed
qed

lemma sweep_chunks_ok:
  assumes "chunks_ok X B d" "distinct hs" "list_all hash_wf hs"
  shows "\<exists>cond' n' d'. sweep_chunks X reach now grace hs cond n d = (Inr (cond', n'), d') \<and>
     swept X B (set reach) now grace hs cond n d cond' n' d'"
  using assms
proof (induction hs arbitrary: cond n d)
  case Nil
  then show ?case by (simp add: swept_def)
next
  case (Cons h hs)
  note X = chunks_okD(1-4) [OF Cons.prems(1)]
  from Cons.prems have h: "h \<notin> set hs" "distinct hs" "hash_wf h" "list_all hash_wf hs" by auto
  obtain c n1 d1 where
    step: "sweep_chunks X reach now grace (h # hs) cond n d = sweep_chunks X reach now grace hs c n1 d1"
    and ok1: "chunks_ok X B d1"
    and c: "\<And>k. k \<noteq> h \<Longrightarrow> map_of c k = map_of cond k" "map_of c h = stamp_after (set reach) now grace cond h"
    and d1: "\<And>k. chunk_at X d1 k = (if k = h \<and> doomed (set reach) now grace cond h then None else chunk_at X d k)"
    and ag: "\<And>t. t \<noteq> chunk_dir \<Longrightarrow> agree t d d1"
    and n1: "sw_erased n1 = sw_erased n + (if doomed (set reach) now grace cond h then 1 else 0)"
      "sw_live n1 = sw_live n + (if h \<in> set reach then 1 else 0)"
      "sw_condemned n1 = sw_condemned n + (if h \<notin> set reach \<and> map_of cond h = None then 1 else 0)"
  proof (cases "h \<in> set reach")
    case True
    then show thesis
      by (intro that [of "AList.delete h cond" "n\<lparr>sw_live := sw_live n + 1\<rparr>" d])
        (use Cons.prems(1) in \<open>simp_all add: doomed_def stamp_after_def delete_conv'\<close>)
  next
    case nr: False
    show thesis
    proof (cases "map_of cond h")
      case None
      with nr show thesis
        by (intro that [of "AList.update h now cond" "n\<lparr>sw_condemned := sw_condemned n + 1\<rparr>" d])
          (use Cons.prems(1) in \<open>simp_all add: doomed_def stamp_after_def update_conv'\<close>)
    next
      case (Some at)
      show thesis
      proof (cases "grace \<le> now - at")
        case True
        obtain r1 d1 where del: "chunk_delete X h d = (r1, d1)" by force
        note D = chunks_ok_delete [OF Cons.prems(1) h(3) del]
        note A = chunk_delete_agree [OF X(2,4) h(3) del]
        from nr Some True show thesis
          by (intro that [of "AList.delete h cond" "n\<lparr>sw_erased := sw_erased n + 1\<rparr>" d1])
            (simp_all add: doomed_def stamp_after_def delete_conv' del D A)
      next
        case False
        with nr Some show thesis
          by (intro that [of cond n d]) (use Cons.prems(1) in \<open>simp_all add: doomed_def stamp_after_def\<close>)
      qed
    qed
  qed
  from Cons.IH [OF ok1 h(2,4), of c n1] obtain cond' n' d' where
    "sweep_chunks X reach now grace hs c n1 d1 = (Inr (cond', n'), d')"
    "swept X B (set reach) now grace hs c n1 d1 cond' n' d'" by blast
  with swept_step [OF this(2) h(1) c d1 ag n1] step show ?case by auto
qed

text \<open>A whole pass, from the invariant to the invariant.\<close>

definition condemned_at :: "ext \<Rightarrow> fs \<Rightarrow> (hash \<times> nat) list" where
  "condemned_at X d =
     (case contents d condemned_path of
        None \<Rightarrow> []
      | Some b \<Rightarrow> (case condemned_of_json X b of None \<Rightarrow> [] | Some c \<Rightarrow> c))"

lemma load_condemned_eq: "disk_ok d \<Longrightarrow> load_condemned X d = Inr (condemned_at X d)"
  by (simp add: load_condemned_def condemned_at_def read_opt_good good_condemned split: option.split)

lemma save_condemned_ok:
  assumes "chunks_ok X B d" "json_ok X" "save_condemned X c d = (r, d')"
  shows "r = Inr ()" "chunks_ok X B d'" "chunk_at X d' h = chunk_at X d h" "condemned_at X d' = c"
    "t \<noteq> chunk_dir \<Longrightarrow> agree t d d'"
proof -
  note X = chunks_okD(1-4) [OF assms(1)]
  have d': "r = Inr ()" "d' = put_file condemned_path (condemned_to_json X c) d"
    using assms(3) X by (auto simp: save_condemned_def write_good good_condemned)
  then show "r = Inr ()" by simp
  have q: "contents d' q = (if q = condemned_path then Some (condemned_to_json X c) else contents d q)" for q
    unfolding d' by (rule contents_put_file) (rule good_condemned)
  show "chunks_ok X B d'"
    using assms(1) disk_ok_put_file [OF X(4) good_condemned] unfolding chunks_ok_def q
    by (auto simp: d' condemned_path_def)
  show "chunk_at X d' h = chunk_at X d h" by (simp add: chunk_at_def q condemned_not_shard)
  show "condemned_at X d' = c" using assms(2) by (simp add: condemned_at_def q json_okD)
  show "agree t d d'" if "t \<noteq> chunk_dir"
    unfolding d' using that by (intro agree_put_file) (auto simp: condemned_path_def)
qed

lemma sweep_ok:
  assumes ok: "store_ok X B M d" and reach: "reach = set pinned \<union> referenced X d"
  shows "\<exists>n d'. sweep X pinned now grace d = (Inr n, d') \<and> store_ok X B M d' \<and>
     (\<forall>h. hash_wf h \<longrightarrow> chunk_at X d' h =
        (if doomed reach now grace (condemned_at X d) h then None else chunk_at X d h)) \<and>
     (\<forall>h. hash_wf h \<longrightarrow> map_of (condemned_at X d') h =
        (if chunk_at X d h \<noteq> None then stamp_after reach now grace (condemned_at X d) h
         else map_of (condemned_at X d) h)) \<and>
     (\<forall>t. t \<noteq> chunk_dir \<longrightarrow> agree t d d') \<and>
     sw_erased n = card {h. hash_wf h \<and> chunk_at X d h \<noteq> None \<and> doomed reach now grace (condemned_at X d) h} \<and>
     sw_live n = card {h. hash_wf h \<and> chunk_at X d h \<noteq> None \<and> h \<in> reach}"
proof -
  note S = store_okD [OF ok]
  from mark_ok [OF S(2,3)] reach obtain r where r: "mark X pinned d = Inr r" "set r = reach" by blast
  from chunk_all_ok [OF S(1)] obtain hs where hs: "chunk_all X d = Inr hs" "distinct hs"
    "set hs = {h. hash_wf h \<and> chunk_at X d h \<noteq> None}" by blast
  then have wf: "list_all hash_wf hs" by (auto simp: list_all_iff)
  let ?cond = "condemned_at X d"
  from sweep_chunks_ok [OF S(1) hs(2) wf, of r now grace ?cond no_sweep] r(2) obtain c n d1 where
    c: "sweep_chunks X r now grace hs ?cond no_sweep d = (Inr (c, n), d1)"
      "swept X B reach now grace hs ?cond no_sweep d c n d1" by blast
  obtain r2 d2 where sv: "save_condemned X c d1 = (r2, d2)" by force
  have ok1: "chunks_ok X B d1" using c(2) by (simp add: swept_def)
  note sv' = save_condemned_ok [OF ok1 S(8) sv]
  have run: "sweep X pinned now grace d = (Inr n, d2)"
    using r(1) hs(1) c(1) sv sv'(1) by (simp add: sweep_def load_condemned_eq S(5))
  have ag: "agree t d d2" if "t \<noteq> chunk_dir" for t
    using c(2) that by (auto simp: swept_def intro: agree_trans [OF _ sv'(5) [OF that]])
  have dk: "disk_ok d2" using sv'(2) by (rule chunks_okD)
  have "store_ok X B M d2"
    unfolding store_ok_def
  proof (intro conjI)
    show "chunks_ok X B d2" by (rule sv')
    show "manifests_ok X M d2" by (rule manifests_ok_agree [OF S(2) dk ag]) simp
    show "pointers_ok X d2" by (rule pointers_ok_agree [OF S(3) dk ag]) simp
    show "side_ok X d2" by (rule side_ok_agree [OF S(4) ag ag ag]) simp_all
  qed
  moreover have "chunk_at X d2 h = (if doomed reach now grace ?cond h then None else chunk_at X d h)"
    if "hash_wf h" for h
    using c(2) sv'(3) [of h] that hs(3) by (auto simp: swept_def)
  moreover have "map_of (condemned_at X d2) h =
      (if chunk_at X d h \<noteq> None then stamp_after reach now grace ?cond h else map_of ?cond h)"
    if "hash_wf h" for h
    using c(2) that hs(3) unfolding sv'(4) swept_def by auto
  moreover have "sw_erased n = card {h. hash_wf h \<and> chunk_at X d h \<noteq> None \<and> doomed reach now grace ?cond h}"
    using c(2) hs(2,3) distinct_card [OF distinct_filter [OF hs(2)], of "doomed reach now grace ?cond"]
    by (simp add: swept_def no_sweep_def conj_assoc)
  moreover have "sw_live n = card {h. hash_wf h \<and> chunk_at X d h \<noteq> None \<and> h \<in> reach}"
    using c(2) hs(2,3) distinct_card [OF distinct_filter [OF hs(2)], of "\<lambda>h. h \<in> reach"]
    by (simp add: swept_def no_sweep_def conj_assoc)
  ultimately show ?thesis using run ag by blast
qed

end
