(* ===== verification/Engine_Base.thy ===== *)
theory Engine_Base
  imports Codec Gc
begin

text \<open>
  The engine's data (\<open>barme-engine/src/lib.rs\<close>): its errors, the policy, staged multipart uploads,
  the state of an open engine, and the helpers every operation uses.

  An operation takes the engine state and returns its result with the state it leaves. The clock
  is an argument: \<open>now\<close> in seconds for the lock and sweep checks, \<open>t\<close> the instant that
  \<open>created_at\<close> records. The engine's mutexes only order operations of several threads; here an
  operation runs alone.
\<close>

section \<open>Errors\<close>

datatype engine_error =
    EStore store_error
  | ECodec codec_error
  | DanglingPointer hash
  | MissingChunk hash hash
  | EIntegrity hash
  | Locked string string string
  | InvalidKey string
  | TooLarge nat
  | Upload io_error
  | NoSuchUpload string
  | InvalidPart nat

definition is_bad_input :: "engine_error \<Rightarrow> bool" where
  "is_bad_input e \<longleftrightarrow>
     (case e of InvalidKey s \<Rightarrow> True | InvalidPart n \<Rightarrow> True | EStore (BadBucket b) \<Rightarrow> True | _ \<Rightarrow> False)"

definition MAX_NAME_BYTES :: nat where "MAX_NAME_BYTES = 255"

section \<open>State\<close>

record policy =
  pol_codec :: string
  pol_zstd_level :: int
  pol_tenant :: string
  pol_name :: string

definition policy_default :: policy where
  "policy_default =
     \<lparr>pol_codec = ''zstd'', pol_zstd_level = 0, pol_tenant = ''default'', pol_name = ''default@v1''\<rparr>"

record write_event =
  ev_object_id :: hash
  ev_tenant :: string
  ev_content_type :: string
  ev_bucket :: string
  ev_key :: string

record staged_part =
  sp_chunks :: "hash list"
  sp_stored_size :: nat
  sp_orig_size :: nat
  sp_etag :: string

text \<open>\<open>parts\<close> is the \<open>BTreeMap\<close>: part number and part, ascending.\<close>

record staged_upload =
  up_bucket :: string
  up_key :: string
  up_content_type :: string
  up_codec :: string
  up_level :: int
  up_fidelity :: fidelity
  up_route :: route
  up_parts :: "(nat \<times> staged_part) list"
  up_pinned :: "hash list"

text \<open>
  The open engine: the data directory, the in-memory pin set of the chunk store, the key store's
  master key, the policy, whether a write hook is set and the events it got so far, the multipart
  map with its counter, and the garbage-collection counters.
\<close>

record engine =
  disk :: fs
  pinned :: "hash list"
  cipher :: "bytes option"
  eng_policy :: policy
  write_hook :: bool
  events :: "write_event list"
  multipart :: "(string \<times> staged_upload) list"
  mp_counter :: u64
  gc_sweeps :: u64
  gc_condemned_total :: u64
  gc_erased_total :: u64
  gc_last_live :: u64

record effective =
  ep_codec :: codec_impl
  ep_codec_name :: string
  ep_level :: int
  ep_fidelity :: fidelity
  ep_route :: route

record part_meta =
  pm_etag :: string
  pm_size :: nat

section \<open>Running store operations\<close>

definition on_disk :: "(fs \<Rightarrow> (store_error + 'a) \<times> fs) \<Rightarrow> engine \<Rightarrow> (engine_error + 'a) \<times> engine" where
  "on_disk f e = (case f (disk e) of (r, d) \<Rightarrow> (map_err EStore r, e\<lparr>disk := d\<rparr>))"

lemma on_disk_Inr [simp]: "f (disk e) = (Inr x, d) \<Longrightarrow> on_disk f e = (Inr x, e\<lparr>disk := d\<rparr>)"
  by (simp add: on_disk_def)

lemma on_disk_Inr_iff [result_simps]:
  "on_disk f e = (Inr x, e') \<longleftrightarrow> (\<exists>d. f (disk e) = (Inr x, d) \<and> e' = e\<lparr>disk := d\<rparr>)"
  by (auto simp: on_disk_def split: prod.split)

section \<open>Helpers of the engine\<close>

definition validate_key :: "string \<Rightarrow> string \<Rightarrow> engine_error + unit" where
  "validate_key b k =
     (if k = [] then Inl (InvalidKey ''key must not be empty'')
      else
        let encoded = 2 * length b + 2 * length k + length ''_.json'' in
        if MAX_NAME_BYTES < encoded then
          Inl (InvalidKey (''pot+key encode to a '' @ show_nat encoded @ ''-byte filename; the limit is ''
                           @ show_nat MAX_NAME_BYTES))
        else Inr ())"

definition build_codec :: "string \<Rightarrow> int \<Rightarrow> engine_error + codec_impl" where
  "build_codec name level =
     (if name = ''none'' then Inr Raw
      else if name = ''zstd'' then Inr (Zstd level)
      else Inl (ECodec (UnknownCodec name)))"

text \<open>The JSON value, as its compact text.\<close>

definition codec_params_of :: "string \<Rightarrow> int \<Rightarrow> string" where
  "codec_params_of name level =
     (if name = ''zstd'' then ''{\"level\":'' @ show_int level @ ''}'' else ''{}'')"

definition sha256_hex :: "ext \<Rightarrow> bytes \<Rightarrow> string" where
  "sha256_hex X b = hex_encode X (sha256 X b)"

text \<open>\<open>unix_timestamp().max(0) as u64\<close>.\<close>

definition parse_rfc3339_secs :: "ext \<Rightarrow> string \<Rightarrow> nat option" where
  "parse_rfc3339_secs X s = map_option (\<lambda>i. nat (max i 0)) (parse_rfc3339 X s)"

definition ensure_unlocked :: "ext \<Rightarrow> string \<Rightarrow> string \<Rightarrow> nat \<Rightarrow> engine \<Rightarrow> engine_error + unit" where
  "ensure_unlocked X b k now e =
     try_then (map_err EStore (annotation_get X (disk e) (b, k))) (\<lambda>a.
       case locked_until a of
         None \<Rightarrow> Inr ()
       | Some u \<Rightarrow>
           (case parse_rfc3339_secs X u of
              None \<Rightarrow> Inr ()
            | Some secs \<Rightarrow> if now < secs then Inl (Locked b k u) else Inr ()))"

definition effective_policy :: "ext \<Rightarrow> string \<Rightarrow> string \<Rightarrow> engine \<Rightarrow> engine_error + effective" where
  "effective_policy X b ct e =
     try_then (map_err EStore (meta_config X (disk e) b)) (\<lambda>cfg.
       let name = (case bc_codec cfg of None \<Rightarrow> pol_codec (eng_policy e) | Some c \<Rightarrow> c);
           level = (case bc_zstd_level cfg of None \<Rightarrow> pol_zstd_level (eng_policy e) | Some l \<Rightarrow> l);
           fid = (if bc_fidelity cfg = Some ''perceptual'' then Perceptual else Exact);
           rt = (if route_by_content_type cfg \<and> prefix ''image/'' ct then Image else Blob)
       in try_then (build_codec name level) (\<lambda>c.
            Inr \<lparr>ep_codec = c, ep_codec_name = name, ep_level = level, ep_fidelity = fid, ep_route = rt\<rparr>))"

text \<open>\<open>PinGuard\<close>: pinning one chunk, and the release of its pins when it goes out of scope.\<close>

definition pin_chunk :: "hash \<Rightarrow> engine \<Rightarrow> engine" where
  "pin_chunk h e = e\<lparr>pinned := pin h (pinned e)\<rparr>"

definition release_pins :: "hash list \<Rightarrow> engine \<Rightarrow> engine" where
  "release_pins hs e = e\<lparr>pinned := unpin hs (pinned e)\<rparr>"

definition emit :: "write_event \<Rightarrow> engine \<Rightarrow> engine" where
  "emit ev e = (if write_hook e then e\<lparr>events := events e @ [ev]\<rparr> else e)"

section \<open>Lemmas\<close>

lemma validate_key_iff:
  "validate_key b k = Inr () \<longleftrightarrow> k \<noteq> [] \<and> 2 * length b + 2 * length k + 6 \<le> NAME_MAX"
  by (auto simp: validate_key_def Let_def MAX_NAME_BYTES_def NAME_MAX_def)

lemma validate_key_valid:
  assumes "validate_key b k = Inr ()"
  shows "valid_object (b, k)" "valid_pot b" "utf8_valid k \<Longrightarrow> valid_key k"
    "bucket_dir b = Inr [pointer_dir, b] \<Longrightarrow> utf8_valid b \<Longrightarrow> CHR 0x00 \<notin> set b \<Longrightarrow> valid_bucket b"
  using assms
  by (auto simp: validate_key_iff valid_object_def valid_pot_def valid_key_def valid_bucket_def)

lemma build_codec_decoder:
  assumes "build_codec name level = Inr c" "zstd_ok X"
  shows "codec_id c = name" "\<exists>c'. decoder_for name = Inr c' \<and>
     (\<forall>x y. codec_encode X c x = Inr y \<longrightarrow> codec_decode X c' y = Inr x)"
proof -
  show id: "codec_id c = name" using assms(1) by (auto simp: build_codec_def codec_id_def split: if_splits)
  from codec.known [OF assms(2), of c] obtain c' where c': "decoder_for (codec_id c) = Inr c'" by blast
  with codec.reverses [OF assms(2) c'] show "\<exists>c'. decoder_for name = Inr c' \<and>
     (\<forall>x y. codec_encode X c x = Inr y \<longrightarrow> codec_decode X c' y = Inr x)"
    unfolding id by blast
qed

lemma effective_policy_codec:
  assumes "effective_policy X b ct e = Inr ep"
  shows "build_codec (ep_codec_name ep) (ep_level ep) = Inr (ep_codec ep)"
  using assms by (auto simp: effective_policy_def Let_def result_simps)

lemma release_pins_simps [simp]:
  "disk (release_pins hs e) = disk e" "pinned (release_pins hs e) = unpin hs (pinned e)"
  "multipart (release_pins hs e) = multipart e" "eng_policy (release_pins hs e) = eng_policy e"
  "cipher (release_pins hs e) = cipher e"
  by (simp_all add: release_pins_def)

lemma emit_simps [simp]:
  "disk (emit ev e) = disk e" "pinned (emit ev e) = pinned e" "multipart (emit ev e) = multipart e"
  "eng_policy (emit ev e) = eng_policy e" "cipher (emit ev e) = cipher e"
  by (simp_all add: emit_def)

end
