(* ===== verification/Engine_Write.thy ===== *)
theory Engine_Write
  imports Engine_Base Merkle
begin

text \<open>
  The write path: \<open>finalize_write\<close>, the buffered \<open>put\<close> and the streaming \<open>put_stream\<close>, and the
  read path: \<open>get\<close>, \<open>read_object\<close>, \<open>read_chunk\<close>, manifests, history, \<open>verify\<close> and the Merkle
  operations of \<open>barme-engine/src/lib.rs\<close>.
\<close>

section \<open>Committing a write\<close>

definition new_manifest ::
  "ext \<Rightarrow> engine \<Rightarrow> string \<Rightarrow> effective \<Rightarrow> hash list \<Rightarrow> nat \<Rightarrow> nat \<Rightarrow> string \<Rightarrow> nat \<Rightarrow> manifest" where
  "new_manifest X e ct ep cs stored orig sha t =
     \<lparr>manifest_version = MANIFEST_VERSION,
      object_id = hash_of X [],
      created_at = format_rfc3339 X t,
      original = \<lparr>size_bytes = orig, sha256_hexed = sha, content_type = ct\<rparr>,
      storage =
        \<lparr>route = ep_route ep, fidelity = ep_fidelity ep, codec = ep_codec_name ep,
         codec_params = codec_params_of (ep_codec_name ep) (ep_level ep), stored_size_bytes = stored,
         reconstructs_original = (ep_fidelity ep = Exact)\<rparr>,
      chunking = \<lparr>algo = Some ''fastcdc'', chunks = cs, merkle_root = Some (root X cs)\<rparr>,
      quality = quality_default,
      tenant = pol_tenant (eng_policy e),
      policy_snapshot = pol_name (eng_policy e)\<rparr>"

definition finalize_write ::
  "ext \<Rightarrow> string \<Rightarrow> string \<Rightarrow> string \<Rightarrow> effective \<Rightarrow> hash list \<Rightarrow> nat \<Rightarrow> nat \<Rightarrow> string \<Rightarrow> nat \<Rightarrow> engine \<Rightarrow>
     (engine_error + hash) \<times> engine" where
  "finalize_write X b k ct ep cs stored orig sha t e =
     and_then (on_disk (manifest_put X (new_manifest X e ct ep cs stored orig sha t)) e) (\<lambda>i e.
     and_then (on_disk (pointer_set X b k i) e) (\<lambda>_ e.
     and_then (on_disk (reverse_add X i b k) e) (\<lambda>_ e. (Inr i, e))))"

section \<open>The two write loops\<close>

text \<open>
  What a write loop has built so far: the chunk list (which is also what its \<open>PinGuard\<close> holds),
  the stored and original sizes, and the bytes fed to the SHA-256 hasher.
\<close>

record progress =
  pr_chunks :: "hash list"
  pr_stored :: nat
  pr_orig :: nat
  pr_hashed :: bytes

definition no_progress :: progress where
  "no_progress = \<lparr>pr_chunks = [], pr_stored = 0, pr_orig = 0, pr_hashed = []\<rparr>"

text \<open>Store one encoded chunk, pin it, and record it.\<close>

definition store_chunk ::
  "ext \<Rightarrow> codec_impl \<Rightarrow> bytes \<Rightarrow> progress \<Rightarrow> engine \<Rightarrow> (engine_error + progress) \<times> engine" where
  "store_chunk X c b p e =
     and_then (map_err ECodec (codec_encode X c b), e) (\<lambda>enc e.
     and_then (on_disk (chunk_put X enc) e) (\<lambda>h e.
       (Inr (p\<lparr>pr_chunks := pr_chunks p @ [h], pr_stored := pr_stored p + length enc\<rparr>), pin_chunk h e)))"

text \<open>
  \<open>put\<close> walks the slices of its buffer. The loops return the progress made next to the result,
  since the guard releases the pins of an unfinished write too.
\<close>

fun put_loop ::
  "ext \<Rightarrow> codec_impl \<Rightarrow> (hash \<times> bytes) list \<Rightarrow> progress \<Rightarrow> engine \<Rightarrow> (engine_error + unit) \<times> progress \<times> engine" where
  "put_loop X c [] p e = (Inr (), p, e)"
| "put_loop X c ((h, b) # items) p e =
     (case store_chunk X c b p e of
        (Inl err, e) \<Rightarrow> (Inl err, p, e)
      | (Inr p, e) \<Rightarrow> put_loop X c items p e)"

fun stream_loop ::
  "ext \<Rightarrow> codec_impl \<Rightarrow> nat \<Rightarrow> (io_error + hash \<times> bytes) list \<Rightarrow> progress \<Rightarrow> engine \<Rightarrow>
     (engine_error + unit) \<times> progress \<times> engine" where
  "stream_loop X c limit [] p e = (Inr (), p, e)"
| "stream_loop X c limit (Inl err # items) p e = (Inl (Upload err), p, e)"
| "stream_loop X c limit (Inr (h, b) # items) p e =
     (let p = p\<lparr>pr_orig := pr_orig p + length b\<rparr> in
      if limit < pr_orig p then (Inl (TooLarge limit), p, e)
      else
        (case store_chunk X c b (p\<lparr>pr_hashed := pr_hashed p @ b\<rparr>) e of
           (Inl err, e) \<Rightarrow> (Inl err, p, e)
         | (Inr p, e) \<Rightarrow> stream_loop X c limit items p e))"

section \<open>\<open>put\<close> and \<open>put_stream\<close>\<close>

definition write_event_of :: "engine \<Rightarrow> hash \<Rightarrow> string \<Rightarrow> string \<Rightarrow> string \<Rightarrow> write_event" where
  "write_event_of e i b k ct =
     \<lparr>ev_object_id = i, ev_tenant = pol_tenant (eng_policy e), ev_content_type = ct, ev_bucket = b, ev_key = k\<rparr>"

definition put ::
  "ext \<Rightarrow> string \<Rightarrow> string \<Rightarrow> bytes \<Rightarrow> string \<Rightarrow> nat \<Rightarrow> nat \<Rightarrow> engine \<Rightarrow> (engine_error + hash) \<times> engine" where
  "put X b k data ct now t e =
     and_then (validate_key b k, e) (\<lambda>_ e.
     and_then (ensure_unlocked X b k now e, e) (\<lambda>_ e.
     and_then (effective_policy X b ct e, e) (\<lambda>ep e.
       case put_loop X (ep_codec ep) (chunk_split X data) no_progress e of
         (Inl err, p, e) \<Rightarrow> (Inl err, release_pins (pr_chunks p) e)
       | (Inr _, p, e) \<Rightarrow>
           (case finalize_write X b k ct ep (pr_chunks p) (pr_stored p) (length data) (sha256_hex X data) t e of
              (Inl err, e) \<Rightarrow> (Inl err, release_pins (pr_chunks p) e)
            | (Inr i, e) \<Rightarrow> (Inr i, release_pins (pr_chunks p) (emit (write_event_of e i b k ct) e))))))"

definition put_stream ::
  "ext \<Rightarrow> string \<Rightarrow> string \<Rightarrow> reader \<Rightarrow> string \<Rightarrow> nat \<Rightarrow> nat \<Rightarrow> nat \<Rightarrow> engine \<Rightarrow> (engine_error + hash) \<times> engine" where
  "put_stream X b k r ct limit now t e =
     and_then (validate_key b k, e) (\<lambda>_ e.
     and_then (ensure_unlocked X b k now e, e) (\<lambda>_ e.
     and_then (effective_policy X b ct e, e) (\<lambda>ep e.
       case stream_loop X (ep_codec ep) limit (chunk_stream X r) no_progress e of
         (Inl err, p, e) \<Rightarrow> (Inl err, release_pins (pr_chunks p) e)
       | (Inr _, p, e) \<Rightarrow>
           (case finalize_write X b k ct ep (pr_chunks p) (pr_stored p) (pr_orig p) (sha256_hex X (pr_hashed p)) t e of
              (Inl err, e) \<Rightarrow> (Inl err, release_pins (pr_chunks p) e)
            | (Inr i, e) \<Rightarrow> (Inr i, release_pins (pr_chunks p) (emit (write_event_of e i b k ct) e))))))"

section \<open>The read path\<close>

text \<open>Fetch and decode one chunk; \<open>m\<close> is the object named in the error.\<close>

definition fetch_chunk :: "ext \<Rightarrow> engine \<Rightarrow> codec_impl \<Rightarrow> hash \<Rightarrow> hash \<Rightarrow> engine_error + bytes" where
  "fetch_chunk X e c m h =
     try_then (map_err EStore (chunk_get X (disk e) h)) (\<lambda>r.
     try_then (ok_or (MissingChunk h m) r) (\<lambda>b. map_err ECodec (codec_decode X c b)))"

definition fetch_manifest :: "ext \<Rightarrow> engine \<Rightarrow> hash \<Rightarrow> engine_error + manifest" where
  "fetch_manifest X e i =
     try_then (map_err EStore (manifest_get X (disk e) i)) (ok_or (DanglingPointer i))"

definition read_manifest_bytes :: "ext \<Rightarrow> engine \<Rightarrow> hash \<Rightarrow> engine_error + bytes" where
  "read_manifest_bytes X e i =
     try_then (fetch_manifest X e i) (\<lambda>m.
     try_then (map_err ECodec (decoder_for (codec (storage m)))) (\<lambda>c.
     try_then (try_map (fetch_chunk X e c i) (chunks (chunking m))) (\<lambda>bs.
       if fidelity (storage m) = Exact \<and> sha256_hex X (concat bs) \<noteq> sha256_hexed (original m)
       then Inl (EIntegrity i) else Inr (concat bs))))"

definition eng_current :: "ext \<Rightarrow> engine \<Rightarrow> string \<Rightarrow> string \<Rightarrow> engine_error + hash option" where
  "eng_current X e b k = map_err EStore (current X (disk e) b k)"

definition get :: "ext \<Rightarrow> engine \<Rightarrow> string \<Rightarrow> string \<Rightarrow> engine_error + bytes option" where
  "get X e b k =
     try_then (eng_current X e b k) (\<lambda>c.
       case c of
         None \<Rightarrow> Inr None
       | Some i \<Rightarrow> try_then (read_manifest_bytes X e i) (\<lambda>bs. Inr (Some bs)))"

definition eng_history :: "ext \<Rightarrow> engine \<Rightarrow> string \<Rightarrow> string \<Rightarrow> engine_error + hash list" where
  "eng_history X e b k = map_err EStore (history X (disk e) b k)"

definition current_manifest :: "ext \<Rightarrow> engine \<Rightarrow> string \<Rightarrow> string \<Rightarrow> engine_error + manifest option" where
  "current_manifest X e b k =
     try_then (eng_current X e b k) (\<lambda>c.
       case c of
         None \<Rightarrow> Inr None
       | Some i \<Rightarrow> try_then (fetch_manifest X e i) (\<lambda>m. Inr (Some m)))"

definition read_object :: "ext \<Rightarrow> engine \<Rightarrow> hash \<Rightarrow> engine_error + bytes" where
  "read_object X e i = read_manifest_bytes X e i"

definition object_head ::
  "ext \<Rightarrow> engine \<Rightarrow> string \<Rightarrow> string \<Rightarrow> engine_error + (string \<times> nat \<times> string \<times> hash list) option" where
  "object_head X e b k =
     try_then (eng_current X e b k) (\<lambda>c.
       case c of
         None \<Rightarrow> Inr None
       | Some i \<Rightarrow>
           try_then (fetch_manifest X e i) (\<lambda>m.
             Inr (Some (content_type (original m), size_bytes (original m), codec (storage m), chunks (chunking m)))))"

definition read_chunk :: "ext \<Rightarrow> engine \<Rightarrow> hash \<Rightarrow> string \<Rightarrow> engine_error + bytes" where
  "read_chunk X e h name =
     try_then (map_err EStore (chunk_get X (disk e) h)) (\<lambda>r.
     try_then (ok_or (MissingChunk h h) r) (\<lambda>b.
     try_then (map_err ECodec (decoder_for name)) (\<lambda>c. map_err ECodec (codec_decode X c b))))"

definition object_manifest :: "ext \<Rightarrow> engine \<Rightarrow> hash \<Rightarrow> engine_error + manifest option" where
  "object_manifest X e i = map_err EStore (manifest_get X (disk e) i)"

text \<open>\<open>verify\<close>: integrity failures are \<open>Ok(false)\<close>.\<close>

fun verify_chunks :: "ext \<Rightarrow> engine \<Rightarrow> codec_impl \<Rightarrow> hash list \<Rightarrow> bytes \<Rightarrow> engine_error + bytes option" where
  "verify_chunks X e c [] acc = Inr (Some acc)"
| "verify_chunks X e c (h # hs) acc =
     (case chunk_get X (disk e) h of
        Inr (Some b) \<Rightarrow>
          (case codec_decode X c b of
             Inl _ \<Rightarrow> Inr None
           | Inr x \<Rightarrow> verify_chunks X e c hs (acc @ x))
      | Inr None \<Rightarrow> Inr None
      | Inl (Integrity a) \<Rightarrow> Inr None
      | Inl err \<Rightarrow> Inl (EStore err))"

definition verify_object :: "ext \<Rightarrow> engine \<Rightarrow> string \<Rightarrow> string \<Rightarrow> engine_error + bool" where
  "verify_object X e b k =
     try_then (eng_current X e b k) (\<lambda>cur.
       case cur of
         None \<Rightarrow> Inr False
       | Some i \<Rightarrow>
           try_then (fetch_manifest X e i) (\<lambda>m.
           try_then (map_err ECodec (decoder_for (codec (storage m)))) (\<lambda>c.
           try_then (verify_chunks X e c (chunks (chunking m)) []) (\<lambda>r.
             case r of
               None \<Rightarrow> Inr False
             | Some bs \<Rightarrow>
                 Inr (fidelity (storage m) = Exact \<longrightarrow> sha256_hex X bs = sha256_hexed (original m))))))"

section \<open>Merkle roots and proofs of objects\<close>

definition root_of_manifest :: "ext \<Rightarrow> manifest \<Rightarrow> hash" where
  "root_of_manifest X m =
     (case merkle_root (chunking m) of None \<Rightarrow> root X (chunks (chunking m)) | Some r \<Rightarrow> r)"

definition object_root :: "ext \<Rightarrow> engine \<Rightarrow> hash \<Rightarrow> engine_error + hash" where
  "object_root X e i = try_then (fetch_manifest X e i) (\<lambda>m. Inr (root_of_manifest X m))"

record chunk_proof =
  cp_object_id :: hash
  cp_root :: hash
  cp_chunk :: hash
  cp_proof :: proof_path

definition prove_chunk :: "ext \<Rightarrow> engine \<Rightarrow> string \<Rightarrow> string \<Rightarrow> nat \<Rightarrow> engine_error + chunk_proof option" where
  "prove_chunk X e b k i =
     try_then (eng_current X e b k) (\<lambda>cur.
       case cur of
         None \<Rightarrow> Inr None
       | Some oid \<Rightarrow>
           try_then (fetch_manifest X e oid) (\<lambda>m.
             case prove X (chunks (chunking m)) i of
               None \<Rightarrow> Inr None
             | Some p \<Rightarrow>
                 Inr (Some \<lparr>cp_object_id = oid, cp_root = root_of_manifest X m,
                            cp_chunk = chunks (chunking m) ! i, cp_proof = p\<rparr>)))"

section \<open>Each store step of a write\<close>

text \<open>
  \<open>extends\<close>: nothing that could be read before is lost or changed. \<open>others\<close>: only the listed
  store directories differ.
\<close>

definition extends :: "ext \<Rightarrow> fs \<Rightarrow> fs \<Rightarrow> bool" where
  "extends X d d' \<longleftrightarrow>
     (\<forall>h b. chunk_get X d h = Inr (Some b) \<longrightarrow> chunk_get X d' h = Inr (Some b)) \<and>
     (\<forall>i m. manifest_get X d i = Inr (Some m) \<longrightarrow> manifest_get X d' i = Inr (Some m))"

definition others :: "string list \<Rightarrow> fs \<Rightarrow> fs \<Rightarrow> bool" where
  "others ts d d' \<longleftrightarrow> (\<forall>t. t \<notin> set ts \<longrightarrow> agree t d d')"

lemma extends_refl [simp]: "extends X d d"
  by (simp add: extends_def)

lemma extends_trans: "extends X a b \<Longrightarrow> extends X b c \<Longrightarrow> extends X a c"
  unfolding extends_def by blast

lemma others_refl [simp]: "others ts d d"
  by (simp add: others_def)

lemma others_mono: "others ts d d' \<Longrightarrow> set ts \<subseteq> set us \<Longrightarrow> others us d d'"
  unfolding others_def by blast

lemma others_trans: "others ts a b \<Longrightarrow> others ts b c \<Longrightarrow> others ts a c"
  unfolding others_def using agree_trans by blast

lemma others_agree: "others ts d d' \<Longrightarrow> t \<notin> set ts \<Longrightarrow> agree t d d'"
  by (simp add: others_def)

lemma others_put_file: "p \<noteq> [] \<Longrightarrow> hd p \<in> set ts \<Longrightarrow> others ts d (put_file p b d)"
  unfolding others_def using agree_put_file by metis

lemma chunk_get_agree:
  "hex_ok X \<Longrightarrow> disk_ok d \<Longrightarrow> disk_ok d' \<Longrightarrow> agree chunk_dir d d' \<Longrightarrow> hash_wf h \<Longrightarrow> chunk_get X d' h = chunk_get X d h"
  by (simp add: chunk_get_eq chunk_at_agree)

lemma chunk_get_wf: "hash_ok X \<Longrightarrow> chunk_get X d h = Inr (Some b) \<Longrightarrow> hash_wf h"
  using chunk_get_Some by fastforce

lemma manifest_get_hash_wf: "hash_ok X \<Longrightarrow> manifest_get X d i = Inr (Some m) \<Longrightarrow> hash_wf i"
  using manifest_get_Some hash_wf_manifest_id by blast

lemma extends_agree:
  assumes "hash_ok X" "hex_ok X" "disk_ok d" "disk_ok d'" "agree chunk_dir d d'" "agree manifest_dir d d'"
  shows "extends X d d'"
  unfolding extends_def
  using chunk_get_agree [OF assms(2-5)] manifest_get_agree [OF assms(2-4,6)]
    chunk_get_wf [OF assms(1)] manifest_get_hash_wf [OF assms(1)] by metis

lemma chunk_put_step:
  assumes ok: "store_ok X B M d" and b: "b \<in> B"
  shows "\<exists>d'. chunk_put X b d = (Inr (hash_of X b), d') \<and> store_ok X B M d' \<and> others [chunk_dir] d d' \<and>
     extends X d d' \<and> chunk_at X d' (hash_of X b) = Some b \<and>
     (\<forall>h. h \<noteq> hash_of X b \<longrightarrow> chunk_at X d' h = chunk_at X d h)"
proof -
  note S = store_okD [OF ok]
  obtain r d' where put: "chunk_put X b d = (r, d')" by force
  note P = chunks_ok_put [OF S(1) b put]
  have o: "others [chunk_dir] d d'"
    using put S others_put_file [of "shard X chunk_dir (hash_of X b)" "[chunk_dir]" d b]
    by (auto simp: chunk_put_eq shard_def split: if_splits)
  then have ag: "agree t d d'" if "t \<noteq> chunk_dir" for t using that by (simp add: others_def)
  have dk: "disk_ok d'" using P(1) by (rule chunks_okD)
  have "store_ok X B M d'"
    unfolding store_ok_def
    using P(1) manifests_ok_agree [OF S(2) dk ag] pointers_ok_agree [OF S(3) dk ag] side_ok_agree [OF S(4) ag ag ag]
    by simp
  moreover have "extends X d d'"
    unfolding extends_def
  proof (intro conjI allI impI)
    fix h c assume c: "chunk_get X d h = Inr (Some c)"
    show "chunk_get X d' h = Inr (Some c)"
      using chunk.put_keeps [OF S(1) b _ c] put P(2) by metis
  next
    fix i m assume "manifest_get X d i = Inr (Some m)"
    moreover from this have "hash_wf i" using manifest_get_hash_wf S(6) by blast
    ultimately show "manifest_get X d' i = Inr (Some m)"
      using manifest_get_agree [OF S(7,5) dk ag, of i] by simp
  qed
  ultimately show ?thesis using put P(2,3) o by auto
qed

lemma manifest_put_step:
  assumes ok: "store_ok X B M d" and m: "manifest_storable X M m"
  shows "\<exists>d'. manifest_put X m d = (Inr (manifest_id X m), d') \<and> store_ok X B M d' \<and>
     others [manifest_dir] d d' \<and> extends X d d' \<and>
     manifest_get X d' (manifest_id X m) = Inr (Some (with_id X m))"
proof -
  note S = store_okD [OF ok]
  obtain r d' where put: "manifest_put X m d = (r, d')" by force
  note P = manifests_ok_put [OF S(2) m put]
  have o: "others [manifest_dir] d d'"
    using put S others_put_file [of "shard X manifest_dir (manifest_id X m)" "[manifest_dir]" d]
    by (auto simp: manifest_put_eq shard_def split: if_splits)
  then have ag: "agree t d d'" if "t \<noteq> manifest_dir" for t using that by (simp add: others_def)
  have dk: "disk_ok d'" using P(1) by (simp add: manifests_ok_def)
  have "store_ok X B M d'"
    unfolding store_ok_def
    using P(1) chunks_ok_agree [OF S(1) dk ag] pointers_ok_agree [OF S(3) dk ag] side_ok_agree [OF S(4) ag ag ag]
    by simp
  moreover have "extends X d d'"
    unfolding extends_def
  proof (intro conjI allI impI)
    fix h c assume "chunk_get X d h = Inr (Some c)"
    moreover from this have "hash_wf h" using chunk_get_wf S(6) by blast
    ultimately show "chunk_get X d' h = Inr (Some c)"
      using chunk_get_agree [OF S(7,5) dk ag, of h] by simp
  next
    fix i n assume n: "manifest_get X d i = Inr (Some n)"
    show "manifest_get X d' i = Inr (Some n)"
      using manifest.put_keeps [OF S(2) m _ n] put P(2) by metis
  qed
  moreover have "manifest_get X d' (manifest_id X m) = Inr (Some (with_id X m))"
    using manifest.put_get [OF S(2) m] put P(2) by metis
  ultimately show ?thesis using put P(2) o by auto
qed

lemma pointer_set_step:
  assumes ok: "store_ok X B M d" and v: "valid_bucket b" "valid_key k" "hash_wf h"
  shows "\<exists>d'. pointer_set X b k h d = (Inr (), d') \<and> store_ok X B M d' \<and> others [pointer_dir] d d' \<and>
     extends X d d' \<and>
     (\<forall>c j. log_at X d' c j = (if c = b \<and> j = k then log_at X d b k @ [h] else log_at X d c j))"
proof -
  note S = store_okD [OF ok]
  obtain r d' where set: "pointer_set X b k h d = (r, d')" by force
  note P = pointer_set_ok [OF S(3) v set]
  have o: "others [pointer_dir] d d'"
    unfolding P(4) by (rule others_put_file) (simp_all add: pointer_file_def)
  then have ag: "agree t d d'" if "t \<noteq> pointer_dir" for t using that by (simp add: others_def)
  have dk: "disk_ok d'" using P(2) by (rule pointers_okD)
  have "store_ok X B M d'"
    unfolding store_ok_def
    using P(2) chunks_ok_agree [OF S(1) dk ag] manifests_ok_agree [OF S(2) dk ag] side_ok_agree [OF S(4) ag ag ag]
    by simp
  moreover have "extends X d d'" using extends_agree [OF S(6,7,5) dk ag ag] by simp
  ultimately show ?thesis using set P(1,3) o by auto
qed

lemma reverse_add_step:
  assumes ok: "store_ok X B M d" and h: "hash_wf h"
  shows "\<exists>d' ls. reverse_add X h b k d = (Inr (), d') \<and> store_ok X B M d' \<and> others [reverse_dir] d d' \<and>
     extends X d d' \<and> reverse_get X d' h = Inr ls \<and> (b, k) \<in> set ls"
proof -
  note S = store_okD [OF ok]
  have g: "good (shard X reverse_dir h)" using S h by (simp add: good_shard)
  have get: "reverse_get X d h = (case contents d (shard X reverse_dir h) of
      None \<Rightarrow> Inr [] | Some c \<Rightarrow> ok_or Serde (locations_of_json X c))" if "disk_ok d" for d
    using that g by (simp add: reverse_get_def read_opt_good)
  have "\<exists>ls. reverse_get X d h = Inr ls"
    using get [OF S(5)] S(4) by (auto simp: side_ok_def shard_def split: option.split)
  then obtain ls where ls: "reverse_get X d h = Inr ls" by blast
  show ?thesis
  proof (cases "(b, k) \<in> set ls")
    case True
    then show ?thesis using ls ok by (auto simp: reverse_add_def)
  next
    case False
    define d' where "d' = put_file (shard X reverse_dir h) (locations_to_json X (ls @ [(b, k)])) d"
    have run: "reverse_add X h b k d = (Inr (), d')"
      using False ls S g by (simp add: reverse_add_def write_good d'_def)
    have dk: "disk_ok d'" using S g by (simp add: d'_def disk_ok_put_file)
    have o: "others [reverse_dir] d d'"
      unfolding d'_def by (rule others_put_file) (simp_all add: shard_def)
    then have ag: "agree t d d'" if "t \<noteq> reverse_dir" for t using that by (simp add: others_def)
    have short: "[t, f] \<noteq> shard X reverse_dir h" for t f by (simp add: shard_def)
    have "side_ok X d'"
      using S(4,8) short ag [of meta_dir] ag [of annotation_dir] contents_put_file [OF g]
      by (auto simp: side_ok_def agree_contents d'_def json_okD)
    then have "store_ok X B M d'"
      unfolding store_ok_def
      using chunks_ok_agree [OF S(1) dk ag] manifests_ok_agree [OF S(2) dk ag] pointers_ok_agree [OF S(3) dk ag]
      by simp
    moreover have "extends X d d'" using extends_agree [OF S(6,7,5) dk ag ag] by simp
    moreover have "reverse_get X d' h = Inr (ls @ [(b, k)])"
      using get [OF dk] S(8) contents_put_file [OF g] by (simp add: d'_def json_okD)
    ultimately show ?thesis using run o by auto
  qed
qed

section \<open>\<open>finalize_write\<close>\<close>

lemma codec_params_exact: "json_ok X \<Longrightarrow> value_exact X (codec_params_of name level)"
  using json_okD(2) [of X level] by (simp add: codec_params_of_def)

lemma new_manifest_storable:
  assumes "hash_ok X" "json_ok X" "list_all hash_wf cs" "manifest_body X (new_manifest X e ct ep cs stored orig sha t) \<in> M"
  shows "manifest_storable X M (new_manifest X e ct ep cs stored orig sha t)"
proof -
  have "hash_wf (root X cs)"
    using assms(1) merkle_tree_props(1) [of cs X]
    by (cases "cs = []") (simp_all add: root_def [of X "[]"] hash_wf_tree_hash)
  with assms show ?thesis
    by (simp add: manifest_storable_def new_manifest_def manifest_wf_def exact_score_def quality_default_def
        codec_params_exact)
qed

lemma finalize_write_ok:
  assumes ok: "store_ok X B M (disk e)" and v: "valid_bucket b" "valid_key k"
    and cs: "list_all hash_wf cs" and M: "manifest_body X (new_manifest X e ct ep cs stored orig sha t) \<in> M"
  shows "\<exists>d. finalize_write X b k ct ep cs stored orig sha t e =
      (Inr (manifest_id X (new_manifest X e ct ep cs stored orig sha t)), e\<lparr>disk := d\<rparr>) \<and>
     store_ok X B M d \<and> others [manifest_dir, pointer_dir, reverse_dir] (disk e) d \<and> extends X (disk e) d \<and>
     manifest_get X d (manifest_id X (new_manifest X e ct ep cs stored orig sha t)) =
       Inr (Some (with_id X (new_manifest X e ct ep cs stored orig sha t))) \<and>
     (\<forall>c j. log_at X d c j =
        (if c = b \<and> j = k then log_at X (disk e) b k @ [manifest_id X (new_manifest X e ct ep cs stored orig sha t)]
         else log_at X (disk e) c j))"
proof -
  let ?m = "new_manifest X e ct ep cs stored orig sha t"
  let ?i = "manifest_id X ?m"
  have X: "hash_ok X" using ok by (rule store_okD)
  from manifest_put_step [OF ok new_manifest_storable [OF X store_okD(8) [OF ok] cs M]] obtain d1 where
    d1: "manifest_put X ?m (disk e) = (Inr ?i, d1)" "store_ok X B M d1" "others [manifest_dir] (disk e) d1"
      "extends X (disk e) d1" "manifest_get X d1 ?i = Inr (Some (with_id X ?m))" by blast
  from pointer_set_step [OF d1(2) v, of ?i] X obtain d2 where
    d2: "pointer_set X b k ?i d1 = (Inr (), d2)" "store_ok X B M d2" "others [pointer_dir] d1 d2" "extends X d1 d2"
      "\<forall>c j. log_at X d2 c j = (if c = b \<and> j = k then log_at X d1 b k @ [?i] else log_at X d1 c j)" by auto
  from reverse_add_step [OF d2(2), of ?i b k] X obtain d3 where
    d3: "reverse_add X ?i b k d2 = (Inr (), d3)" "store_ok X B M d3" "others [reverse_dir] d2 d3" "extends X d2 d3"
    by auto
  let ?ts = "[manifest_dir, pointer_dir, reverse_dir]"
  have "others ?ts (disk e) d1" "others ?ts d1 d2" "others ?ts d2 d3"
    by (rule others_mono [OF d1(3)], simp) (rule others_mono [OF d2(3)], simp, rule others_mono [OF d3(3)], simp)
  then have o: "others ?ts (disk e) d3" using others_trans by blast
  have "log_at X d3 c j = log_at X d2 c j" "log_at X d1 c j = log_at X (disk e) c j" for c j
    using d3(3) d1(3) by (simp_all add: others_def log_at_agree)
  moreover have "finalize_write X b k ct ep cs stored orig sha t e = (Inr ?i, e\<lparr>disk := d3\<rparr>)"
    using d1(1) d2(1) d3(1) by (simp add: finalize_write_def on_disk_def)
  moreover have "manifest_get X d3 ?i = Inr (Some (with_id X ?m))"
    using d1(5) d2(4) d3(4) by (simp add: extends_def)
  moreover have "extends X (disk e) d3" using d1(4) d2(4) d3(4) extends_trans by blast
  ultimately show ?thesis using d3(2) o d2(5) by auto
qed

section \<open>The loops\<close>

text \<open>The items of a loop whose encoding succeeds and stays inside \<open>B\<close>, with the encodings.\<close>

definition encodes :: "ext \<Rightarrow> codec_impl \<Rightarrow> bytes set \<Rightarrow> (hash \<times> bytes) list \<Rightarrow> bytes list \<Rightarrow> bool" where
  "encodes X c B items encs \<longleftrightarrow>
     list_all2 (\<lambda>i enc. codec_encode X c (snd i) = Inr enc) items encs \<and> set encs \<subseteq> B"

lemma store_chunk_ok:
  assumes ok: "store_ok X B M (disk e)" and enc: "codec_encode X c b = Inr enc" "enc \<in> B"
  shows "\<exists>d. store_chunk X c b p e =
     (Inr (p\<lparr>pr_chunks := pr_chunks p @ [hash_of X enc], pr_stored := pr_stored p + length enc\<rparr>),
      e\<lparr>disk := d, pinned := pin (hash_of X enc) (pinned e)\<rparr>) \<and>
     store_ok X B M d \<and> others [chunk_dir] (disk e) d \<and> extends X (disk e) d \<and>
     chunk_get X d (hash_of X enc) = Inr (Some enc) \<and>
     (\<forall>h. h \<noteq> hash_of X enc \<longrightarrow> chunk_at X d h = chunk_at X (disk e) h)"
proof -
  from chunk_put_step [OF ok enc(2)] obtain d where
    d: "chunk_put X enc (disk e) = (Inr (hash_of X enc), d)" "store_ok X B M d" "others [chunk_dir] (disk e) d"
      "extends X (disk e) d" "chunk_at X d (hash_of X enc) = Some enc"
      "\<forall>h. h \<noteq> hash_of X enc \<longrightarrow> chunk_at X d h = chunk_at X (disk e) h" by blast
  have "chunk_get X d (hash_of X enc) = Inr (Some enc)"
    using d(5) store_okD(6) [OF d(2)] by (simp add: chunk_get_ok_iff [OF store_okD(1) [OF d(2)]])
  with d enc show ?thesis by (auto simp: store_chunk_def on_disk_def pin_chunk_def)
qed

lemma put_loop_ok:
  assumes "store_ok X B M (disk e)" "encodes X c B items encs"
  shows "\<exists>d ps. put_loop X c items p e =
     (Inr (), p\<lparr>pr_chunks := pr_chunks p @ map (hash_of X) encs,
                pr_stored := pr_stored p + sum_list (map length encs)\<rparr>,
      e\<lparr>disk := d, pinned := ps\<rparr>) \<and>
     set ps = set (pinned e) \<union> hash_of X ` set encs \<and>
     store_ok X B M d \<and> others [chunk_dir] (disk e) d \<and> extends X (disk e) d \<and>
     (\<forall>enc \<in> set encs. chunk_get X d (hash_of X enc) = Inr (Some enc)) \<and>
     (\<forall>h. h \<notin> hash_of X ` set encs \<longrightarrow> chunk_at X d h = chunk_at X (disk e) h)"
  using assms
proof (induction items arbitrary: encs p e)
  case Nil
  then show ?case by (intro exI [of _ "disk e"] exI [of _ "pinned e"]) (simp add: encodes_def)
next
  case (Cons i items)
  obtain h b where i: "i = (h, b)" by (cases i)
  from Cons.prems(2) obtain enc encs' where
    enc: "encs = enc # encs'" "codec_encode X c b = Inr enc" "enc \<in> B" "encodes X c B items encs'"
    by (auto simp: encodes_def list_all2_Cons1 i)
  let ?p = "p\<lparr>pr_chunks := pr_chunks p @ [hash_of X enc], pr_stored := pr_stored p + length enc\<rparr>"
  from store_chunk_ok [OF Cons.prems(1) enc(2,3), of p] obtain d1 where
    d1: "store_chunk X c b p e = (Inr ?p, e\<lparr>disk := d1, pinned := pin (hash_of X enc) (pinned e)\<rparr>)"
      "store_ok X B M d1" "others [chunk_dir] (disk e) d1" "extends X (disk e) d1"
      "chunk_get X d1 (hash_of X enc) = Inr (Some enc)"
      "\<forall>h. h \<noteq> hash_of X enc \<longrightarrow> chunk_at X d1 h = chunk_at X (disk e) h" by blast
  from Cons.IH [OF _ enc(4), of "e\<lparr>disk := d1, pinned := pin (hash_of X enc) (pinned e)\<rparr>" ?p] d1(2)
  obtain d2 ps where
    d2: "put_loop X c items ?p (e\<lparr>disk := d1, pinned := pin (hash_of X enc) (pinned e)\<rparr>) =
       (Inr (), ?p\<lparr>pr_chunks := pr_chunks ?p @ map (hash_of X) encs',
                   pr_stored := pr_stored ?p + sum_list (map length encs')\<rparr>, e\<lparr>disk := d2, pinned := ps\<rparr>)"
      "set ps = insert (hash_of X enc) (set (pinned e)) \<union> hash_of X ` set encs'"
      "store_ok X B M d2" "others [chunk_dir] d1 d2" "extends X d1 d2"
      "\<forall>enc \<in> set encs'. chunk_get X d2 (hash_of X enc) = Inr (Some enc)"
      "\<forall>h. h \<notin> hash_of X ` set encs' \<longrightarrow> chunk_at X d2 h = chunk_at X d1 h" by auto
  have "chunk_get X d2 (hash_of X enc) = Inr (Some enc)" using d1(5) d2(5) by (simp add: extends_def)
  moreover have "others [chunk_dir] (disk e) d2" "extends X (disk e) d2"
    using d1(3,4) d2(4,5) others_trans extends_trans by blast+
  moreover have "put_loop X c (i # items) p e =
      (Inr (), p\<lparr>pr_chunks := pr_chunks p @ map (hash_of X) encs,
                 pr_stored := pr_stored p + sum_list (map length encs)\<rparr>, e\<lparr>disk := d2, pinned := ps\<rparr>)"
    using d1(1) d2(1) by (simp add: i enc(1))
  ultimately show ?case using d1(6) d2(2,3,6,7) by (intro exI [of _ d2] exI [of _ ps]) (auto simp: enc(1))
qed

text \<open>A failing loop leaves the disk well-formed, and every version of every key where it was.\<close>

lemma store_chunk_frame:
  assumes ok: "store_ok X B M (disk e)" and B: "\<And>enc. codec_encode X c b = Inr enc \<Longrightarrow> enc \<in> B"
    and run: "store_chunk X c b p e = (r, e')"
  shows "store_ok X B M (disk e')" "others [chunk_dir] (disk e) (disk e')" "extends X (disk e) (disk e')"
    "\<forall>p'. r = Inr p' \<longrightarrow> (\<exists>enc. codec_encode X c b = Inr enc \<and> pr_chunks p' = pr_chunks p @ [hash_of X enc] \<and>
        pr_orig p' = pr_orig p \<and> pr_hashed p' = pr_hashed p \<and>
        e' = e\<lparr>disk := disk e', pinned := pin (hash_of X enc) (pinned e)\<rparr>)"
    "\<forall>err. r = Inl err \<longrightarrow> e' = e"
proof -
  have "store_ok X B M (disk e') \<and> others [chunk_dir] (disk e) (disk e') \<and> extends X (disk e) (disk e') \<and>
    (\<forall>p'. r = Inr p' \<longrightarrow> (\<exists>enc. codec_encode X c b = Inr enc \<and> pr_chunks p' = pr_chunks p @ [hash_of X enc] \<and>
        pr_orig p' = pr_orig p \<and> pr_hashed p' = pr_hashed p \<and>
        e' = e\<lparr>disk := disk e', pinned := pin (hash_of X enc) (pinned e)\<rparr>)) \<and> (\<forall>err. r = Inl err \<longrightarrow> e' = e)"
  proof (cases "codec_encode X c b")
    case (Inl err)
    with run ok show ?thesis by (auto simp: store_chunk_def)
  next
    case (Inr enc)
    from store_chunk_ok [OF ok Inr B [OF Inr], of p] run Inr show ?thesis by auto
  qed
  then show "store_ok X B M (disk e')" "others [chunk_dir] (disk e) (disk e')" "extends X (disk e) (disk e')"
    "\<forall>p'. r = Inr p' \<longrightarrow> (\<exists>enc. codec_encode X c b = Inr enc \<and> pr_chunks p' = pr_chunks p @ [hash_of X enc] \<and>
        pr_orig p' = pr_orig p \<and> pr_hashed p' = pr_hashed p \<and>
        e' = e\<lparr>disk := disk e', pinned := pin (hash_of X enc) (pinned e)\<rparr>)"
    "\<forall>err. r = Inl err \<longrightarrow> e' = e" by blast+
qed

lemma stream_loop_frame:
  assumes "store_ok X B M (disk e)"
    and "\<And>h b enc. Inr (h, b) \<in> set items \<Longrightarrow> codec_encode X c b = Inr enc \<Longrightarrow> enc \<in> B"
    and "stream_loop X c limit items p e = (r, p', e')"
  shows "store_ok X B M (disk e') \<and> others [chunk_dir] (disk e) (disk e') \<and> extends X (disk e) (disk e') \<and>
     e' = e\<lparr>disk := disk e', pinned := pinned e'\<rparr> \<and>
     (\<exists>new. pr_chunks p' = pr_chunks p @ new \<and> set (pinned e') = set (pinned e) \<union> set new)"
  using assms
proof (induction items arbitrary: p e)
  case Nil
  then show ?case by auto
next
  case (Cons item items)
  show ?case
  proof (cases item)
    case (Inl err)
    with Cons.prems show ?thesis by auto
  next
    case (Inr hb)
    obtain h b where item: "item = Inr (h, b)" using Inr by (cases hb) auto
    let ?p = "p\<lparr>pr_orig := pr_orig p + length b\<rparr>"
    let ?q = "?p\<lparr>pr_hashed := pr_hashed ?p @ b\<rparr>"
    show ?thesis
    proof (cases "limit < pr_orig ?p")
      case True
      with Cons.prems item show ?thesis by (auto simp: Let_def)
    next
      case False
      obtain r1 e1 where s: "store_chunk X c b ?q e = (r1, e1)" by force
      have "\<And>enc. codec_encode X c b = Inr enc \<Longrightarrow> enc \<in> B" using Cons.prems(2) item by auto
      note F = store_chunk_frame [OF Cons.prems(1) this s]
      show ?thesis
      proof (cases r1)
        case (Inl err)
        with F(5) False Cons.prems(1,3) s item show ?thesis by (auto simp: Let_def)
      next
        case (Inr p1)
        with F(4) obtain enc where enc: "pr_chunks p1 = pr_chunks p @ [hash_of X enc]"
          "e1 = e\<lparr>disk := disk e1, pinned := pin (hash_of X enc) (pinned e)\<rparr>" by auto
        from Inr False Cons.prems(3) s item have "stream_loop X c limit items p1 e1 = (r, p', e')"
          by (simp add: Let_def)
        from Cons.IH [OF F(1) _ this] Cons.prems(2) have
          IH: "store_ok X B M (disk e')" "others [chunk_dir] (disk e1) (disk e')" "extends X (disk e1) (disk e')"
            "e' = e1\<lparr>disk := disk e', pinned := pinned e'\<rparr>"
            "\<exists>new. pr_chunks p' = pr_chunks p1 @ new \<and> set (pinned e') = set (pinned e1) \<union> set new" by auto
        from IH(5) obtain new where new: "pr_chunks p' = pr_chunks p1 @ new"
          "set (pinned e') = set (pinned e1) \<union> set new" by blast
        have pin1: "set (pinned e1) = insert (hash_of X enc) (set (pinned e))"
          by (subst enc(2)) simp
        have "others [chunk_dir] (disk e) (disk e')" "extends X (disk e) (disk e')"
          using F(2,3) IH(2,3) others_trans extends_trans by blast+
        moreover have "e' = e\<lparr>disk := disk e', pinned := pinned e'\<rparr>"
          by (subst IH(4), subst enc(2)) simp
        moreover have "\<exists>new. pr_chunks p' = pr_chunks p @ new \<and> set (pinned e') = set (pinned e) \<union> set new"
          using new enc(1) pin1 by (intro exI [of _ "hash_of X enc # new"]) auto
        ultimately show ?thesis using IH(1) by blast
      qed
    qed
  qed
qed

text \<open>Under the limit, the streaming loop does what the buffered one does.\<close>

lemma stream_loop_put_loop:
  assumes "pr_chunks q = pr_chunks p" "pr_stored q = pr_stored p"
    and "pr_orig q + sum_list (map (length \<circ> snd) items) \<le> limit"
  shows "\<exists>r p' q' e'. put_loop X c items p e = (r, p', e') \<and>
     stream_loop X c limit (map Inr items) q e = (r, q', e') \<and>
     pr_chunks q' = pr_chunks p' \<and> pr_stored q' = pr_stored p' \<and>
     (r = Inr () \<longrightarrow> pr_orig q' = pr_orig q + sum_list (map (length \<circ> snd) items) \<and>
                    pr_hashed q' = pr_hashed q @ concat (map snd items))"
  using assms
proof (induction items arbitrary: p q e)
  case Nil
  then show ?case by simp
next
  case (Cons i items)
  obtain h b where i: "i = (h, b)" by (cases i)
  let ?q = "q\<lparr>pr_orig := pr_orig q + length b, pr_hashed := pr_hashed q @ b\<rparr>"
  have lim: "\<not> limit < pr_orig q + length b" using Cons.prems(3) i by simp
  show ?case
  proof (cases "codec_encode X c b")
    case (Inl err)
    then show ?thesis using lim Cons.prems(1,2) by (simp add: i store_chunk_def Let_def)
  next
    case (Inr enc)
    obtain r d where put: "chunk_put X enc (disk e) = (r, d)" by force
    show ?thesis
    proof (cases r)
      case (Inl err)
      then show ?thesis using Inr put lim Cons.prems(1,2) by (simp add: i store_chunk_def on_disk_def Let_def)
    next
      case (Inr k)
      let ?p' = "p\<lparr>pr_chunks := pr_chunks p @ [k], pr_stored := pr_stored p + length enc\<rparr>"
      let ?q' = "?q\<lparr>pr_chunks := pr_chunks q @ [k], pr_stored := pr_stored q + length enc\<rparr>"
      have "pr_chunks ?q' = pr_chunks ?p'" "pr_stored ?q' = pr_stored ?p'"
        "pr_orig ?q' + sum_list (map (length \<circ> snd) items) \<le> limit" using Cons.prems i by (simp_all add: comp_def)
      from Cons.IH [OF this, of "pin_chunk k (e\<lparr>disk := d\<rparr>)"] obtain r p1 q1 e1 where IH: "put_loop X c items ?p' (pin_chunk k (e\<lparr>disk := d\<rparr>)) = (r, p1, e1)"
        "stream_loop X c limit (map Inr items) ?q' (pin_chunk k (e\<lparr>disk := d\<rparr>)) = (r, q1, e1)"
        "pr_chunks q1 = pr_chunks p1" "pr_stored q1 = pr_stored p1"
        "r = Inr () \<longrightarrow> pr_orig q1 = pr_orig ?q' + sum_list (map (length \<circ> snd) items) \<and>
           pr_hashed q1 = pr_hashed ?q' @ concat (map snd items)" by blast
      then show ?thesis using Inr \<open>codec_encode X c b = Inr enc\<close> put lim
        by (simp add: i store_chunk_def on_disk_def Let_def comp_def)
    qed
  qed
qed

lemma put_stream_put:
  assumes "cdc_ok X" "length data \<le> limit"
  shows "put_stream X b k \<lparr>rd_bytes = data, rd_error = None\<rparr> ct limit now t e = put X b k data ct now t e"
proof -
  let ?items = "chunk_split X data"
  have stream: "chunk_stream X \<lparr>rd_bytes = data, rd_error = None\<rparr> = map Inr ?items"
    using chunk_stream_ok [OF assms(1), of "\<lparr>rd_bytes = data, rd_error = None\<rparr>"] by simp
  have data: "concat (map snd ?items) = data" using chunk_split_concat(1) [OF assms(1)] .
  have total: "sum_list (map (length \<circ> snd) ?items) = length data"
    by (subst data [symmetric]) (simp add: length_concat)
  have loop: "\<exists>r p' q' e'. put_loop X c ?items no_progress e = (r, p', e') \<and>
     stream_loop X c limit (map Inr ?items) no_progress e = (r, q', e') \<and>
     pr_chunks q' = pr_chunks p' \<and> pr_stored q' = pr_stored p' \<and>
     (r = Inr () \<longrightarrow> pr_orig q' = length data \<and> pr_hashed q' = data)" for c e
    using stream_loop_put_loop [of no_progress no_progress ?items limit X c e] assms(2)
    by (simp add: total data no_progress_def)
  have step: "(case stream_loop X (ep_codec ep) limit (map Inr ?items) no_progress e of
         (Inl err, p, e) \<Rightarrow> (Inl err, release_pins (pr_chunks p) e)
       | (Inr _, p, e) \<Rightarrow>
           (case finalize_write X b k ct ep (pr_chunks p) (pr_stored p) (pr_orig p) (sha256_hex X (pr_hashed p)) t e of
              (Inl err, e) \<Rightarrow> (Inl err, release_pins (pr_chunks p) e)
            | (Inr i, e) \<Rightarrow> (Inr i, release_pins (pr_chunks p) (emit (write_event_of e i b k ct) e)))) =
      (case put_loop X (ep_codec ep) ?items no_progress e of
         (Inl err, p, e) \<Rightarrow> (Inl err, release_pins (pr_chunks p) e)
       | (Inr _, p, e) \<Rightarrow>
           (case finalize_write X b k ct ep (pr_chunks p) (pr_stored p) (length data) (sha256_hex X data) t e of
              (Inl err, e) \<Rightarrow> (Inl err, release_pins (pr_chunks p) e)
            | (Inr i, e) \<Rightarrow> (Inr i, release_pins (pr_chunks p) (emit (write_event_of e i b k ct) e))))"
    for ep e
  proof -
    from loop [of "ep_codec ep" e] obtain r p' q' e' where
      l: "put_loop X (ep_codec ep) ?items no_progress e = (r, p', e')"
      "stream_loop X (ep_codec ep) limit (map Inr ?items) no_progress e = (r, q', e')"
      "pr_chunks q' = pr_chunks p'" "pr_stored q' = pr_stored p'"
      "r = Inr () \<longrightarrow> pr_orig q' = length data \<and> pr_hashed q' = data" by blast
    show ?thesis
    proof (cases r)
      case (Inl err)
      with l show ?thesis by simp
    next
      case (Inr u)
      with l show ?thesis by (simp split: sum.split prod.split)
    qed
  qed
  show ?thesis unfolding put_stream_def put_def stream step ..
qed

section \<open>Reading what was written\<close>

lemma fetch_chunk_ok:
  "chunk_get X (disk e) h = Inr (Some b) \<Longrightarrow> codec_decode X c b = Inr x \<Longrightarrow> fetch_chunk X e c m h = Inr x"
  by (simp add: fetch_chunk_def)

lemma try_map_list_all2: "list_all2 (\<lambda>x y. f x = Inr y) xs ys \<Longrightarrow> try_map f xs = Inr ys"
  by (simp add: try_map_Inr_iff)

lemma read_encoded:
  assumes z: "zstd_ok X" and c: "build_codec (codec (storage m)) level = Inr c"
    and m: "manifest_get X (disk e) i = Inr (Some m)"
    and cs: "chunks (chunking m) = map (hash_of X) encs"
    and got: "\<forall>enc \<in> set encs. chunk_get X (disk e) (hash_of X enc) = Inr (Some enc)"
    and enc: "encodes X c B items encs"
    and sha: "sha256_hexed (original m) = sha256_hex X (concat (map snd items))"
  shows "read_manifest_bytes X e i = Inr (concat (map snd items))"
proof -
  from build_codec_decoder(2) [OF c z] obtain c' where
    c': "decoder_for (codec (storage m)) = Inr c'" "\<And>x y. codec_encode X c x = Inr y \<Longrightarrow> codec_decode X c' y = Inr x"
    by blast
  have "list_all2 (\<lambda>h b. fetch_chunk X e c' i h = Inr b) (map (hash_of X) encs) (map snd items)"
  proof -
    have "list_all2 (\<lambda>it en. codec_encode X c (snd it) = Inr en) items encs" using enc by (simp add: encodes_def)
    then show ?thesis using got
    proof (induction items encs rule: list_all2_induct)
      case (Cons it items en encs)
      then have "fetch_chunk X e c' i (hash_of X en) = Inr (snd it)"
        by (intro fetch_chunk_ok [of _ _ _ en]) (auto intro: c'(2))
      with Cons show ?case by simp
    qed simp
  qed
  then have "try_map (fetch_chunk X e c' i) (chunks (chunking m)) = Inr (map snd items)"
    unfolding cs by (rule try_map_list_all2)
  with m c' sha show ?thesis by (simp add: read_manifest_bytes_def fetch_manifest_def)
qed

lemma fetches_extend:
  assumes "extends X (disk e) (disk e')" "try_map (fetch_chunk X e c i) hs = Inr xs"
  shows "try_map (fetch_chunk X e' c i) hs = Inr xs"
proof -
  have "fetch_chunk X e' c i h = Inr x" if "fetch_chunk X e c i h = Inr x" for h x
    using that assms(1) by (auto simp: fetch_chunk_def result_simps extends_def)
  then show ?thesis using assms(2) unfolding try_map_Inr_iff by (auto elim!: list_all2_mono)
qed

lemma read_extends:
  assumes ext: "extends X (disk e) (disk e')" and read: "read_manifest_bytes X e i = Inr bs"
  shows "read_manifest_bytes X e' i = Inr bs"
proof -
  from read obtain m c xs where m: "manifest_get X (disk e) i = Inr (Some m)"
    "decoder_for (codec (storage m)) = Inr c" "try_map (fetch_chunk X e c i) (chunks (chunking m)) = Inr xs"
    "(if fidelity (storage m) = Exact \<and> sha256_hex X (concat xs) \<noteq> sha256_hexed (original m)
       then Inl (EIntegrity i) else Inr (concat xs)) = Inr bs"
    by (auto simp: read_manifest_bytes_def fetch_manifest_def result_simps)
  from fetches_extend [OF ext m(3)] have "try_map (fetch_chunk X e' c i) (chunks (chunking m)) = Inr xs" .
  moreover have "manifest_get X (disk e') i = Inr (Some m)" using m(1) ext by (simp add: extends_def)
  ultimately show ?thesis using m(2,4) by (simp add: read_manifest_bytes_def fetch_manifest_def)
qed

lemma eng_current_eq:
  assumes "store_ok X B M (disk e)" "valid_bucket b" "valid_key k"
  shows "eng_current X e b k =
     Inr (if log_at X (disk e) b k = [] then None else Some (last (log_at X (disk e) b k)))"
  using history_eq [OF store_okD(3) [OF assms(1)] assms(2,3)] by (simp add: eng_current_def current_def)

lemma get_eq:
  assumes "store_ok X B M (disk e)" "valid_bucket b" "valid_key k"
  shows "get X e b k =
     (if log_at X (disk e) b k = [] then Inr None
      else try_then (read_manifest_bytes X e (last (log_at X (disk e) b k))) (\<lambda>bs. Inr (Some bs)))"
  using eng_current_eq [OF assms] by (simp add: get_def)

lemma no_progress_simps [simp]:
  "pr_chunks no_progress = []" "pr_stored no_progress = 0" "pr_orig no_progress = 0" "pr_hashed no_progress = []"
  by (simp_all add: no_progress_def)

section \<open>The buffered write, as a whole\<close>

text \<open>What a \<open>put\<close> of \<open>data\<close> needs of its surroundings to succeed.\<close>

definition writable ::
  "ext \<Rightarrow> bytes set \<Rightarrow> bytes set \<Rightarrow> engine \<Rightarrow> string \<Rightarrow> string \<Rightarrow> bool" where
  "writable X B M e b k \<longleftrightarrow>
     zstd_ok X \<and> cdc_ok X \<and> store_ok X B M (disk e) \<and> valid_bucket b \<and> valid_key k \<and>
     validate_key b k = Inr ()"

definition put_manifest ::
  "ext \<Rightarrow> engine \<Rightarrow> string \<Rightarrow> effective \<Rightarrow> bytes list \<Rightarrow> bytes \<Rightarrow> nat \<Rightarrow> manifest" where
  "put_manifest X e ct ep encs data t =
     new_manifest X e ct ep (map (hash_of X) encs) (sum_list (map length encs)) (length data)
       (sha256_hex X data) t"

lemma new_manifest_policy: "eng_policy e' = eng_policy e \<Longrightarrow> new_manifest X e' = new_manifest X e"
  by (intro ext) (simp add: new_manifest_def)

lemma put_ok:
  assumes w: "writable X B M e b k" and lock: "ensure_unlocked X b k now e = Inr ()"
    and ep: "effective_policy X b ct e = Inr ep"
    and enc: "encodes X (ep_codec ep) B (chunk_split X data) encs"
    and M: "manifest_body X (put_manifest X e ct ep encs data t) \<in> M"
  shows "\<exists>i e'. put X b k data ct now t e = (Inr i, e') \<and>
     i = manifest_id X (put_manifest X e ct ep encs data t) \<and>
     store_ok X B M (disk e') \<and> extends X (disk e) (disk e') \<and>
     others [chunk_dir, manifest_dir, pointer_dir, reverse_dir] (disk e) (disk e') \<and>
     read_manifest_bytes X e' i = Inr data \<and>
     (\<forall>c j. log_at X (disk e') c j = (if c = b \<and> j = k then log_at X (disk e) b k @ [i] else log_at X (disk e) c j)) \<and>
     set (pinned e') = set (pinned e) - hash_of X ` set encs \<and>
     (\<forall>h. h \<notin> hash_of X ` set encs \<longrightarrow> chunk_at X (disk e') h = chunk_at X (disk e) h) \<and>
     multipart e' = multipart e \<and>
     events e' = (if write_hook e then events e @ [write_event_of e i b k ct] else events e) \<and>
     manifest_get X (disk e') i = Inr (Some (with_id X (put_manifest X e ct ep encs data t)))"
proof -
  have W: "zstd_ok X" "cdc_ok X" "store_ok X B M (disk e)" "valid_bucket b" "valid_key k" "validate_key b k = Inr ()"
    using w by (auto simp: writable_def)
  note S = store_okD [OF W(3)]
  from put_loop_ok [OF W(3) enc, of no_progress] obtain d ps where
    d: "put_loop X (ep_codec ep) (chunk_split X data) no_progress e =
       (Inr (), no_progress\<lparr>pr_chunks := pr_chunks no_progress @ map (hash_of X) encs,
                            pr_stored := pr_stored no_progress + sum_list (map length encs)\<rparr>,
        e\<lparr>disk := d, pinned := ps\<rparr>)"
      "set ps = set (pinned e) \<union> hash_of X ` set encs" "store_ok X B M d" "others [chunk_dir] (disk e) d"
      "extends X (disk e) d" "\<forall>enc \<in> set encs. chunk_get X d (hash_of X enc) = Inr (Some enc)"
      "\<forall>h. h \<notin> hash_of X ` set encs \<longrightarrow> chunk_at X d h = chunk_at X (disk e) h"
    by (elim exE conjE) (rule that)
  let ?e1 = "e\<lparr>disk := d, pinned := ps\<rparr>" and ?m = "put_manifest X e ct ep encs data t"
  let ?i = "manifest_id X ?m"
  have m1: "new_manifest X ?e1 ct ep (map (hash_of X) encs) (sum_list (map length encs)) (length data)
      (sha256_hex X data) t = ?m"
    using new_manifest_policy [of ?e1 e X] by (simp add: put_manifest_def)
  have wf: "list_all hash_wf (map (hash_of X) encs)" using S(6) by (simp add: list_all_iff)
  have e1: "store_ok X B M (disk ?e1)" using d(3) by simp
  from finalize_write_ok [OF e1 W(4,5) wf, of ct ep "sum_list (map length encs)" "length data" "sha256_hex X data" t,
      unfolded m1, OF M] obtain d2 where
    d2: "finalize_write X b k ct ep (map (hash_of X) encs) (sum_list (map length encs)) (length data)
        (sha256_hex X data) t ?e1 = (Inr ?i, ?e1\<lparr>disk := d2\<rparr>)"
      "store_ok X B M d2" "others [manifest_dir, pointer_dir, reverse_dir] d d2" "extends X d d2"
      "manifest_get X d2 ?i = Inr (Some (with_id X ?m))"
      "\<forall>c j. log_at X d2 c j = (if c = b \<and> j = k then log_at X d b k @ [?i] else log_at X d c j)" by auto
  let ?e2 = "release_pins (map (hash_of X) encs) (emit (write_event_of (?e1\<lparr>disk := d2\<rparr>) ?i b k ct) (?e1\<lparr>disk := d2\<rparr>))"
  have run: "put X b k data ct now t e = (Inr ?i, ?e2)"
    using W(6) lock ep d(1) d2(1) by (simp add: put_def)
  have dk: "disk ?e2 = d2" by simp
  have read: "read_manifest_bytes X ?e2 ?i = Inr (concat (map snd (chunk_split X data)))"
  proof (rule read_encoded [OF W(1) _ _ _ _ enc])
    show "build_codec (codec (storage (with_id X ?m))) (ep_level ep) = Inr (ep_codec ep)"
      using effective_policy_codec [OF ep] by (simp add: with_id_def put_manifest_def new_manifest_def)
    show "manifest_get X (disk ?e2) ?i = Inr (Some (with_id X ?m))" using d2(5) dk by simp
    show "chunks (chunking (with_id X ?m)) = map (hash_of X) encs"
      by (simp add: with_id_def put_manifest_def new_manifest_def)
    show "\<forall>enc \<in> set encs. chunk_get X (disk ?e2) (hash_of X enc) = Inr (Some enc)"
      using d(6) d2(4) dk by (simp add: extends_def)
    show "sha256_hexed (original (with_id X ?m)) = sha256_hex X (concat (map snd (chunk_split X data)))"
      by (simp add: with_id_def put_manifest_def new_manifest_def chunk_split_concat(1) [OF W(2)])
  qed
  have "others [chunk_dir, manifest_dir, pointer_dir, reverse_dir] (disk e) d"
    "others [chunk_dir, manifest_dir, pointer_dir, reverse_dir] d d2"
    by (rule others_mono [OF d(4)], simp) (rule others_mono [OF d2(3)], auto)
  from others_trans [OF this] have o: "others [chunk_dir, manifest_dir, pointer_dir, reverse_dir] (disk e) (disk ?e2)"
    unfolding dk .
  have ex: "extends X (disk e) (disk ?e2)" using extends_trans [OF d(5) d2(4)] dk by simp
  have lg: "\<forall>c j. log_at X (disk ?e2) c j =
      (if c = b \<and> j = k then log_at X (disk e) b k @ [?i] else log_at X (disk e) c j)"
    using d2(6) d(4) dk by (simp add: others_def log_at_agree)
  have at: "\<forall>h. h \<notin> hash_of X ` set encs \<longrightarrow> chunk_at X (disk ?e2) h = chunk_at X (disk e) h"
    using d(7) others_agree [OF d2(3), THEN chunk_at_agree] unfolding dk by simp
  show ?thesis
    unfolding run
  proof (intro exI conjI)
    show "(Inr ?i, ?e2) = (Inr ?i, ?e2)" "?i = ?i" by simp_all
    show "manifest_get X (disk ?e2) ?i = Inr (Some (with_id X ?m))" using d2(5) dk by simp
    show "store_ok X B M (disk ?e2)" using d2(2) dk by simp
    show "read_manifest_bytes X ?e2 ?i = Inr data" using read by (simp add: chunk_split_concat(1) [OF W(2)])
    show "set (pinned ?e2) = set (pinned e) - hash_of X ` set encs" using d(2) by auto
    show "multipart ?e2 = multipart e" by simp
    show "events ?e2 = (if write_hook e then events e @ [write_event_of e ?i b k ct] else events e)"
      by (simp add: release_pins_def emit_def write_event_of_def)
  qed (fact ex o lg at)+
qed

end
