(* ===== verification/Engine_Multipart.thy ===== *)
theory Engine_Multipart
  imports Engine_Write
begin

text \<open>
  Multipart uploads (\<open>barme-engine/src/lib.rs\<close>): \<open>create_multipart\<close>, \<open>upload_part\<close>,
  \<open>complete_multipart\<close>, \<open>abort_multipart\<close>, \<open>list_parts\<close>, with the pins each of them takes and
  releases.
\<close>

section \<open>Operations\<close>

text \<open>\<open>BTreeMap::insert\<close> on the part map.\<close>

fun btree_insert :: "nat \<Rightarrow> 'a \<Rightarrow> (nat \<times> 'a) list \<Rightarrow> (nat \<times> 'a) list" where
  "btree_insert n x [] = [(n, x)]"
| "btree_insert n x ((m, y) # ps) =
     (if n < m then (n, x) # (m, y) # ps
      else if n = m then (n, x) # ps
      else (m, y) # btree_insert n x ps)"

definition upload_id_of :: "ext \<Rightarrow> string \<Rightarrow> string \<Rightarrow> nat \<Rightarrow> u64 \<Rightarrow> string" where
  "upload_id_of X b k now n =
     sha256_hex X (as_bytes (b @ ''/'' @ k @ ''/'' @ show_nat now @ ''/'' @ show_nat (unat n)))"

definition create_multipart ::
  "ext \<Rightarrow> string \<Rightarrow> string \<Rightarrow> string \<Rightarrow> nat \<Rightarrow> engine \<Rightarrow> (engine_error + string) \<times> engine" where
  "create_multipart X b k ct now e =
     and_then (validate_key b k, e) (\<lambda>_ e.
     and_then (ensure_unlocked X b k now e, e) (\<lambda>_ e.
     and_then (effective_policy X b ct e, e) (\<lambda>ep e.
       let i = upload_id_of X b k now (mp_counter e);
           staged =
             \<lparr>up_bucket = b, up_key = k, up_content_type = ct, up_codec = ep_codec_name ep,
              up_level = ep_level ep, up_fidelity = ep_fidelity ep, up_route = ep_route ep,
              up_parts = [], up_pinned = []\<rparr>
       in (Inr i, e\<lparr>mp_counter := mp_counter e + 1, multipart := AList.update i staged (multipart e)\<rparr>))))"

text \<open>The upload id is looked up twice: before the body is read and again to record the part.\<close>

definition upload_part ::
  "ext \<Rightarrow> string \<Rightarrow> nat \<Rightarrow> reader \<Rightarrow> nat \<Rightarrow> engine \<Rightarrow> (engine_error + part_meta) \<times> engine" where
  "upload_part X i n r limit e =
     and_then (ok_or (NoSuchUpload i) (map_of (multipart e) i), e) (\<lambda>up e.
     and_then (build_codec (up_codec up) (up_level up), e) (\<lambda>c e.
       case stream_loop X c limit (chunk_stream X r) no_progress e of
         (Inl err, p, e) \<Rightarrow> (Inl err, release_pins (pr_chunks p) e)
       | (Inr _, p, e) \<Rightarrow>
           let etag = sha256_hex X (pr_hashed p) in
           (case map_of (multipart e) i of
              Some up \<Rightarrow>
                let part = \<lparr>sp_chunks = pr_chunks p, sp_stored_size = pr_stored p,
                            sp_orig_size = pr_orig p, sp_etag = etag\<rparr>;
                    up = up\<lparr>up_pinned := up_pinned up @ pr_chunks p,
                            up_parts := btree_insert n part (up_parts up)\<rparr>
                in (Inr \<lparr>pm_etag = etag, pm_size = pr_orig p\<rparr>,
                    e\<lparr>multipart := AList.update i up (multipart e)\<rparr>)
            | None \<Rightarrow> (Inl (NoSuchUpload i), release_pins (pr_chunks p) e))))"

text \<open>The bytes of one staged chunk, of one part, and of the named parts in order.\<close>

definition staged_chunk :: "ext \<Rightarrow> engine \<Rightarrow> codec_impl \<Rightarrow> hash \<Rightarrow> engine_error + bytes" where
  "staged_chunk X e c h =
     try_then (map_err EStore (chunk_get X (disk e) h)) (\<lambda>r.
     try_then (ok_or (MissingChunk h (hash_of X [])) r) (\<lambda>b. map_err ECodec (codec_decode X c b)))"

definition gather_part ::
  "ext \<Rightarrow> engine \<Rightarrow> codec_impl \<Rightarrow> (nat \<times> staged_part) list \<Rightarrow> nat \<Rightarrow> engine_error + staged_part \<times> bytes" where
  "gather_part X e c parts n =
     try_then (ok_or (InvalidPart n) (map_of parts n)) (\<lambda>p.
     try_then (try_map (staged_chunk X e c) (sp_chunks p)) (\<lambda>bs. Inr (p, concat bs)))"

definition commit_parts ::
  "ext \<Rightarrow> staged_upload \<Rightarrow> nat list \<Rightarrow> nat \<Rightarrow> engine \<Rightarrow> (engine_error + hash) \<times> engine" where
  "commit_parts X up order t e =
     and_then (map_err ECodec (decoder_for (up_codec up)), e) (\<lambda>dec e.
     and_then (try_map (gather_part X e dec (up_parts up)) order, e) (\<lambda>got e.
     and_then (build_codec (up_codec up) (up_level up), e) (\<lambda>c e.
       let ep = \<lparr>ep_codec = c, ep_codec_name = up_codec up, ep_level = up_level up,
                 ep_fidelity = up_fidelity up, ep_route = up_route up\<rparr>
       in finalize_write X (up_bucket up) (up_key up) (up_content_type up) ep
            (concat (map (sp_chunks \<circ> fst) got)) (sum_list (map (sp_stored_size \<circ> fst) got))
            (sum_list (map (sp_orig_size \<circ> fst) got)) (sha256_hex X (concat (map snd got))) t e)))"

text \<open>The upload leaves the map first; \<open>ReleasePins\<close> drops its pins on every exit.\<close>

definition complete_multipart ::
  "ext \<Rightarrow> string \<Rightarrow> nat list \<Rightarrow> nat \<Rightarrow> engine \<Rightarrow> (engine_error + hash) \<times> engine" where
  "complete_multipart X i order t e =
     (case map_of (multipart e) i of
        None \<Rightarrow> (Inl (NoSuchUpload i), e)
      | Some up \<Rightarrow>
          let e = e\<lparr>multipart := AList.delete i (multipart e)\<rparr>;
              order = (if order = [] then map fst (up_parts up) else order)
          in (case commit_parts X up order t e of
                (Inl err, e) \<Rightarrow> (Inl err, release_pins (up_pinned up) e)
              | (Inr oid, e) \<Rightarrow>
                  (Inr oid, release_pins (up_pinned up)
                     (emit (write_event_of e oid (up_bucket up) (up_key up) (up_content_type up)) e))))"

definition abort_multipart :: "string \<Rightarrow> engine \<Rightarrow> (engine_error + unit) \<times> engine" where
  "abort_multipart i e =
     (case map_of (multipart e) i of
        None \<Rightarrow> (Inr (), e)
      | Some up \<Rightarrow> (Inr (), release_pins (up_pinned up) (e\<lparr>multipart := AList.delete i (multipart e)\<rparr>)))"

definition list_parts ::
  "engine \<Rightarrow> string \<Rightarrow> engine_error + (string \<times> string \<times> (nat \<times> part_meta) list) option" where
  "list_parts e i =
     Inr (map_option
       (\<lambda>up. (up_bucket up, up_key up,
              map (\<lambda>(n, p). (n, \<lparr>pm_etag = sp_etag p, pm_size = sp_orig_size p\<rparr>)) (up_parts up)))
       (map_of (multipart e) i))"

definition pinned_chunk_count :: "engine \<Rightarrow> nat" where
  "pinned_chunk_count e = card (set (pinned e))"

section \<open>The part map\<close>

lemma map_of_btree_insert [simp]:
  "map_of (btree_insert n x ps) m = (if m = n then Some x else map_of ps m)"
  if "sorted (map fst ps)" for ps :: "(nat \<times> 'a) list"
  using that
proof (induction ps)
  case (Cons p ps)
  then show ?case
  proof (cases p)
    case (Pair k y)
    have "map_of ps n = None" if "n < k" using Cons.prems that Pair by (force simp: map_of_eq_None_iff)
    with Cons Pair show ?thesis by auto
  qed
qed simp

lemma set_fst_btree_insert [simp]: "set (map fst (btree_insert n x ps)) = insert n (set (map fst ps))"
  by (induction n x ps rule: btree_insert.induct) (simp_all add: insert_commute)

lemma sorted_btree_insert:
  "sorted_wrt (<) (map fst ps) \<Longrightarrow> sorted_wrt (<) (map fst (btree_insert n x ps))"
proof (induction n x ps rule: btree_insert.induct)
  case (2 n x m y ps)
  then show ?case
    using set_fst_btree_insert [of n x ps] by (auto simp del: set_map set_fst_btree_insert)
qed simp

section \<open>Uploading a part\<close>

text \<open>What a staged part promises: its chunks are stored and encode exactly \<open>data\<close>.\<close>

definition staged_of :: "ext \<Rightarrow> bytes list \<Rightarrow> bytes \<Rightarrow> staged_part" where
  "staged_of X encs data =
     \<lparr>sp_chunks = map (hash_of X) encs, sp_stored_size = sum_list (map length encs),
      sp_orig_size = length data, sp_etag = sha256_hex X data\<rparr>"

lemma staged_of_simps [simp]:
  "sp_chunks (staged_of X encs data) = map (hash_of X) encs"
  "sp_stored_size (staged_of X encs data) = sum_list (map length encs)"
  "sp_orig_size (staged_of X encs data) = length data" "sp_etag (staged_of X encs data) = sha256_hex X data"
  by (simp_all add: staged_of_def)

definition part_holds :: "ext \<Rightarrow> bytes set \<Rightarrow> fs \<Rightarrow> codec_impl \<Rightarrow> staged_part \<Rightarrow> bytes \<Rightarrow> bool" where
  "part_holds X B d c p data \<longleftrightarrow>
     (\<exists>items encs. concat (map snd items) = data \<and> encodes X c B items encs \<and>
        (\<forall>enc \<in> set encs. chunk_get X d (hash_of X enc) = Inr (Some enc)) \<and>
        p = staged_of X encs data)"

lemma part_holds_extends:
  "part_holds X B d c p data \<Longrightarrow> extends X d d' \<Longrightarrow> part_holds X B d' c p data"
  unfolding part_holds_def extends_def by blast

lemma stream_loop_ok:
  assumes cdc: "cdc_ok X" and ok: "store_ok X B M (disk e)" and len: "length data \<le> limit"
    and enc: "encodes X c B (chunk_split X data) encs"
  shows "\<exists>d ps. stream_loop X c limit (chunk_stream X \<lparr>rd_bytes = data, rd_error = None\<rparr>) no_progress e =
     (Inr (), \<lparr>pr_chunks = map (hash_of X) encs, pr_stored = sum_list (map length encs),
               pr_orig = length data, pr_hashed = data\<rparr>, e\<lparr>disk := d, pinned := ps\<rparr>) \<and>
     set ps = set (pinned e) \<union> hash_of X ` set encs \<and>
     store_ok X B M d \<and> others [chunk_dir] (disk e) d \<and> extends X (disk e) d \<and>
     (\<forall>enc \<in> set encs. chunk_get X d (hash_of X enc) = Inr (Some enc))"
proof -
  from put_loop_ok [OF ok enc, of no_progress] obtain d ps where
    d: "put_loop X c (chunk_split X data) no_progress e =
       (Inr (), no_progress\<lparr>pr_chunks := pr_chunks no_progress @ map (hash_of X) encs,
                            pr_stored := pr_stored no_progress + sum_list (map length encs)\<rparr>,
        e\<lparr>disk := d, pinned := ps\<rparr>)"
      "set ps = set (pinned e) \<union> hash_of X ` set encs" "store_ok X B M d" "others [chunk_dir] (disk e) d"
      "extends X (disk e) d" "\<forall>enc \<in> set encs. chunk_get X d (hash_of X enc) = Inr (Some enc)"
    by (elim exE conjE) (rule that)
  have whole: "concat (map snd (chunk_split X data)) = data" by (rule chunk_split_concat [OF cdc])
  then have size: "sum_list (map (length \<circ> snd) (chunk_split X data)) = length data"
    by (metis length_concat map_map)
  from stream_loop_put_loop [of no_progress no_progress "chunk_split X data" limit X c e] len size
  obtain q' where q: "stream_loop X c limit (map Inr (chunk_split X data)) no_progress e =
       (Inr (), q', e\<lparr>disk := d, pinned := ps\<rparr>)"
      "pr_chunks q' = map (hash_of X) encs" "pr_stored q' = sum_list (map length encs)"
      "pr_orig q' = length data" "pr_hashed q' = data"
    using d(1) whole by auto
  then have "q' = \<lparr>pr_chunks = map (hash_of X) encs, pr_stored = sum_list (map length encs),
      pr_orig = length data, pr_hashed = data\<rparr>" by simp
  with q(1) d(2-6) chunk_stream_ok [OF cdc, of "\<lparr>rd_bytes = data, rd_error = None\<rparr>"] show ?thesis by auto
qed

lemma upload_part_ok:
  assumes cdc: "cdc_ok X" and ok: "store_ok X B M (disk e)" and up: "map_of (multipart e) i = Some up"
    and c: "build_codec (up_codec up) (up_level up) = Inr c" and len: "length data \<le> limit"
    and enc: "encodes X c B (chunk_split X data) encs"
  shows "\<exists>e'. upload_part X i n \<lparr>rd_bytes = data, rd_error = None\<rparr> limit e =
      (Inr \<lparr>pm_etag = sha256_hex X data, pm_size = length data\<rparr>, e') \<and>
     store_ok X B M (disk e') \<and> extends X (disk e) (disk e') \<and> others [chunk_dir] (disk e) (disk e') \<and>
     part_holds X B (disk e') c (staged_of X encs data) data \<and>
     multipart e' = AList.update i
       (up\<lparr>up_pinned := up_pinned up @ map (hash_of X) encs,
           up_parts := btree_insert n (staged_of X encs data) (up_parts up)\<rparr>) (multipart e) \<and>
     set (pinned e') = set (pinned e) \<union> hash_of X ` set encs \<and> eng_policy e' = eng_policy e"
proof -
  from stream_loop_ok [OF cdc ok len enc] obtain d ps where
    d: "stream_loop X c limit (chunk_stream X \<lparr>rd_bytes = data, rd_error = None\<rparr>) no_progress e =
     (Inr (), \<lparr>pr_chunks = map (hash_of X) encs, pr_stored = sum_list (map length encs),
               pr_orig = length data, pr_hashed = data\<rparr>, e\<lparr>disk := d, pinned := ps\<rparr>)"
     "set ps = set (pinned e) \<union> hash_of X ` set encs"
     "store_ok X B M d" "others [chunk_dir] (disk e) d" "extends X (disk e) d"
     "\<forall>enc \<in> set encs. chunk_get X d (hash_of X enc) = Inr (Some enc)"
    by (elim exE conjE) (rule that)
  let ?p = "staged_of X encs data"
  let ?up = "up\<lparr>up_pinned := up_pinned up @ map (hash_of X) encs, up_parts := btree_insert n ?p (up_parts up)\<rparr>"
  let ?e' = "e\<lparr>disk := d, pinned := ps, multipart := AList.update i ?up (multipart e)\<rparr>"
  have run: "upload_part X i n \<lparr>rd_bytes = data, rd_error = None\<rparr> limit e =
      (Inr \<lparr>pm_etag = sha256_hex X data, pm_size = length data\<rparr>, ?e')"
    using up c d(1) by (simp add: upload_part_def Let_def staged_of_def)
  have "part_holds X B (disk ?e') c ?p data"
    unfolding part_holds_def
    using enc d(6) chunk_split_concat(1) [OF cdc, of data]
    by (intro exI [of _ "chunk_split X data"] exI [of _ encs]) simp
  with run d(2-5) show ?thesis by (intro exI [of _ ?e']) simp
qed

text \<open>A run of uploads, as a client sends them: part numbers and bodies in order.\<close>

fun upload_all :: "ext \<Rightarrow> string \<Rightarrow> nat \<Rightarrow> (nat \<times> bytes) list \<Rightarrow> engine \<Rightarrow> engine" where
  "upload_all X i limit [] e = e"
| "upload_all X i limit ((n, data) # ps) e =
     upload_all X i limit ps (snd (upload_part X i n \<lparr>rd_bytes = data, rd_error = None\<rparr> limit e))"

text \<open>The part map after it: a part that is sent again replaces the one before.\<close>

fun stage_all :: "ext \<Rightarrow> (nat \<times> bytes) list \<Rightarrow> bytes list list \<Rightarrow> (nat \<times> staged_part) list \<Rightarrow> (nat \<times> staged_part) list" where
  "stage_all X ((n, data) # ps) (encs # encss) ss = stage_all X ps encss (btree_insert n (staged_of X encs data) ss)"
| "stage_all X ps encss ss = ss"

definition encodable_parts ::
  "ext \<Rightarrow> codec_impl \<Rightarrow> bytes set \<Rightarrow> nat \<Rightarrow> (nat \<times> bytes) list \<Rightarrow> bytes list list \<Rightarrow> bool" where
  "encodable_parts X c B limit parts encss \<longleftrightarrow>
     list_all2 (\<lambda>(n, data) encs. length data \<le> limit \<and> encodes X c B (chunk_split X data) encs) parts encss"

text \<open>The parts on disk are the last bodies sent under their numbers.\<close>

definition parts_hold ::
  "ext \<Rightarrow> bytes set \<Rightarrow> fs \<Rightarrow> codec_impl \<Rightarrow> (nat \<times> staged_part) list \<Rightarrow> (nat \<rightharpoonup> bytes) \<Rightarrow> bool" where
  "parts_hold X B d c ss f \<longleftrightarrow>
     sorted_wrt (<) (map fst ss) \<and> (\<forall>n. rel_option (part_holds X B d c) (map_of ss n) (f n))"

lemma parts_hold_extends: "parts_hold X B d c ss f \<Longrightarrow> extends X d d' \<Longrightarrow> parts_hold X B d' c ss f"
  unfolding parts_hold_def using option.rel_mono_strong part_holds_extends by metis

lemma parts_hold_insert:
  assumes "parts_hold X B d c ss f" "part_holds X B d c p data"
  shows "parts_hold X B d c (btree_insert n p ss) (f(n \<mapsto> data))"
proof -
  have srt: "sorted_wrt (<) (map fst ss)" using assms(1) by (simp add: parts_hold_def)
  then have "sorted (map fst ss)" using strict_sorted_iff by blast
  with assms sorted_btree_insert [OF srt, of n p] show ?thesis by (simp add: parts_hold_def)
qed

lemma upload_all_ok:
  assumes "cdc_ok X" "store_ok X B M (disk e)" "map_of (multipart e) i = Some up"
    and "build_codec (up_codec up) (up_level up) = Inr c" "encodable_parts X c B limit parts encss"
    and "parts_hold X B (disk e) c (up_parts up) f"
  shows "\<exists>up'. store_ok X B M (disk (upload_all X i limit parts e)) \<and>
     extends X (disk e) (disk (upload_all X i limit parts e)) \<and>
     others [chunk_dir] (disk e) (disk (upload_all X i limit parts e)) \<and>
     eng_policy (upload_all X i limit parts e) = eng_policy e \<and>
     map_of (multipart (upload_all X i limit parts e)) i = Some up' \<and>
     up' = up\<lparr>up_pinned := up_pinned up @ map (hash_of X) (concat encss),
              up_parts := stage_all X parts encss (up_parts up)\<rparr> \<and>
     set (pinned (upload_all X i limit parts e)) = set (pinned e) \<union> hash_of X ` set (concat encss) \<and>
     parts_hold X B (disk (upload_all X i limit parts e)) c (up_parts up') (f ++ map_of (rev parts))"
  using assms(2-6)
proof (induction parts arbitrary: e up encss f)
  case Nil
  then show ?case by (auto simp: encodable_parts_def)
next
  case (Cons q parts)
  obtain n data where q: "q = (n, data)" by force
  from Cons.prems(4) obtain encs encss' where es: "encss = encs # encss'" "length data \<le> limit"
    "encodes X c B (chunk_split X data) encs" "encodable_parts X c B limit parts encss'"
    by (auto simp: encodable_parts_def q list_all2_Cons1)
  from upload_part_ok [OF assms(1) Cons.prems(1-3) es(2,3), of n] obtain e1 where
    1: "upload_part X i n \<lparr>rd_bytes = data, rd_error = None\<rparr> limit e =
        (Inr \<lparr>pm_etag = sha256_hex X data, pm_size = length data\<rparr>, e1)"
      "store_ok X B M (disk e1)" "extends X (disk e) (disk e1)" "others [chunk_dir] (disk e) (disk e1)"
      "part_holds X B (disk e1) c (staged_of X encs data) data"
      "multipart e1 = AList.update i
         (up\<lparr>up_pinned := up_pinned up @ map (hash_of X) encs,
             up_parts := btree_insert n (staged_of X encs data) (up_parts up)\<rparr>) (multipart e)"
      "set (pinned e1) = set (pinned e) \<union> hash_of X ` set encs" "eng_policy e1 = eng_policy e"
    by (elim exE conjE) (rule that)
  let ?up = "up\<lparr>up_pinned := up_pinned up @ map (hash_of X) encs,
                up_parts := btree_insert n (staged_of X encs data) (up_parts up)\<rparr>"
  from 1(6) have up1: "map_of (multipart e1) i = Some ?up" by (simp add: update_conv')
  have ph: "parts_hold X B (disk e1) c (up_parts ?up) (f(n \<mapsto> data))"
    using parts_hold_insert [OF parts_hold_extends [OF Cons.prems(5) 1(3)] 1(5), of n] by simp
  have f: "f(n \<mapsto> data) ++ map_of (rev parts) = f ++ map_of (rev (q # parts))" by (simp add: q)
  let ?e' = "upload_all X i limit (q # parts) e"
  have e': "upload_all X i limit parts e1 = ?e'" using 1(1) by (simp add: q)
  from Cons.IH [OF 1(2) up1 _ es(4) ph] Cons.prems(3) obtain up' where
    2: "store_ok X B M (disk ?e')" "extends X (disk e1) (disk ?e')" "others [chunk_dir] (disk e1) (disk ?e')"
      "eng_policy ?e' = eng_policy e1" "map_of (multipart ?e') i = Some up'"
      "up' = ?up\<lparr>up_pinned := up_pinned ?up @ map (hash_of X) (concat encss'),
               up_parts := stage_all X parts encss' (up_parts ?up)\<rparr>"
      "set (pinned ?e') = set (pinned e1) \<union> hash_of X ` set (concat encss')"
      "parts_hold X B (disk ?e') c (up_parts up') (f ++ map_of (rev (q # parts)))"
    unfolding e' f by auto
  show ?case
  proof (intro exI conjI)
    show "extends X (disk e) (disk ?e')" by (rule extends_trans [OF 1(3) 2(2)])
    show "others [chunk_dir] (disk e) (disk ?e')" by (rule others_trans [OF 1(4) 2(3)])
    show "parts_hold X B (disk ?e') c (up_parts up') (f ++ map_of (rev (q # parts)))" by (rule 2(8))
    show "up' = up\<lparr>up_pinned := up_pinned up @ map (hash_of X) (concat encss),
              up_parts := stage_all X (q # parts) encss (up_parts up)\<rparr>"
      using 2(6) by (simp add: es q)
  qed (use 1 2 in \<open>auto simp: es\<close>)
qed

text \<open>A part that fails leaves no pin of its own and no trace in the upload.\<close>

lemma upload_part_fails:
  assumes ok: "store_ok X B M (disk e)"
    and B: "\<And>c h b enc. Inr (h, b) \<in> set (chunk_stream X r) \<Longrightarrow> codec_encode X c b = Inr enc \<Longrightarrow> enc \<in> B"
    and run: "upload_part X i n r limit e = (Inl err, e')"
  shows "multipart e' = multipart e \<and> set (pinned e') \<subseteq> set (pinned e) \<and> store_ok X B M (disk e') \<and>
     others [chunk_dir] (disk e) (disk e') \<and> extends X (disk e) (disk e')"
proof (cases "map_of (multipart e) i")
  case None
  with run ok show ?thesis by (simp add: upload_part_def)
next
  case (Some up)
  show ?thesis
  proof (cases "build_codec (up_codec up) (up_level up)")
    case (Inl a)
    with run ok Some show ?thesis by (simp add: upload_part_def)
  next
    case (Inr c)
    obtain q p e1 where l: "stream_loop X c limit (chunk_stream X r) no_progress e = (q, p, e1)"
      by (metis prod_cases3)
    from stream_loop_frame [OF ok B l] have f:
      "store_ok X B M (disk e1) \<and> others [chunk_dir] (disk e) (disk e1) \<and> extends X (disk e) (disk e1)"
      "e1 = e\<lparr>disk := disk e1, pinned := pinned e1\<rparr>"
      "\<exists>new. pr_chunks p = pr_chunks no_progress @ new \<and> set (pinned e1) = set (pinned e) \<union> set new"
      by auto
    from f(2) have m: "multipart e1 = multipart e" by (metis engine.select_convs(7) engine.surjective engine.update_convs(1,2))
    obtain qe where q: "q = Inl qe" using run Some Inr l m by (cases q) (auto simp: upload_part_def Let_def)
    then have "e' = release_pins (pr_chunks p) e1" using run Some Inr l by (simp add: upload_part_def)
    with f m show ?thesis by auto
  qed
qed

section \<open>Completing\<close>

text \<open>The named parts, each with the bytes it was uploaded with.\<close>

definition named_parts ::
  "ext \<Rightarrow> bytes set \<Rightarrow> fs \<Rightarrow> codec_impl \<Rightarrow> (nat \<times> staged_part) list \<Rightarrow> nat list \<Rightarrow> (staged_part \<times> bytes) list \<Rightarrow> bool" where
  "named_parts X B d c parts order got \<longleftrightarrow>
     list_all2 (\<lambda>n (p, data). map_of parts n = Some p \<and> part_holds X B d c p data) order got"

definition complete_manifest ::
  "ext \<Rightarrow> engine \<Rightarrow> staged_upload \<Rightarrow> codec_impl \<Rightarrow> (staged_part \<times> bytes) list \<Rightarrow> nat \<Rightarrow> manifest" where
  "complete_manifest X e up c got t =
     new_manifest X e (up_content_type up)
       \<lparr>ep_codec = c, ep_codec_name = up_codec up, ep_level = up_level up,
        ep_fidelity = up_fidelity up, ep_route = up_route up\<rparr>
       (concat (map (sp_chunks \<circ> fst) got)) (sum_list (map (sp_stored_size \<circ> fst) got))
       (sum_list (map (sp_orig_size \<circ> fst) got)) (sha256_hex X (concat (map snd got))) t"

lemma gather_part_ok:
  assumes z: "zstd_ok X" and c: "build_codec name level = Inr c" "decoder_for name = Inr dec"
    and p: "map_of parts n = Some p" "part_holds X B (disk e) c p data"
  shows "gather_part X e dec parts n = Inr (p, data)"
proof -
  from p(2) obtain items encs where h: "concat (map snd items) = data" "encodes X c B items encs"
    "\<forall>enc \<in> set encs. chunk_get X (disk e) (hash_of X enc) = Inr (Some enc)" "sp_chunks p = map (hash_of X) encs"
    unfolding part_holds_def by auto
  have step: "staged_chunk X e dec (hash_of X enc) = Inr (snd i)"
    if "codec_encode X c (snd i) = Inr enc" "enc \<in> set encs" for i enc
    using that h(3) build_codec_decoder(2) [OF c(1) z] c(2) by (auto simp: staged_chunk_def)
  have "list_all2 (\<lambda>i enc. codec_encode X c (snd i) = Inr enc) items encs" using h(2) by (simp add: encodes_def)
  then have "list_all2 (\<lambda>h x. staged_chunk X e dec h = Inr x) (map (hash_of X) encs) (map snd items)"
    unfolding list_all2_conv_all_nth by (auto intro: step)
  from try_map_list_all2 [OF this] show ?thesis using p(1) h(1,4) by (simp add: gather_part_def)
qed

lemma gather_parts_ok:
  assumes "zstd_ok X" "build_codec name level = Inr c" "decoder_for name = Inr dec"
    and "named_parts X B (disk e) c parts order got"
  shows "try_map (gather_part X e dec parts) order = Inr got"
proof (rule try_map_list_all2)
  show "list_all2 (\<lambda>x y. gather_part X e dec parts x = Inr y) order got"
    using assms(4) unfolding named_parts_def
    by (rule list_all2_mono) (auto intro: gather_part_ok [OF assms(1-3)])
qed

text \<open>Parts that could be gathered: their chunks are well-formed, and a reader decodes the same bytes.\<close>

lemma gather_chunk: "staged_chunk X e c h = Inr b \<Longrightarrow> fetch_chunk X e c i h = Inr b"
  by (auto simp: staged_chunk_def fetch_chunk_def result_simps)

lemma staged_chunk_wf: "hash_ok X \<Longrightarrow> staged_chunk X e c h = Inr b \<Longrightarrow> hash_wf h"
  by (auto simp: staged_chunk_def result_simps dest!: chunk_get_Some)

lemma staged_chunks_wf: "hash_ok X \<Longrightarrow> try_map (staged_chunk X e c) hs = Inr xs \<Longrightarrow> list_all hash_wf hs"
  by (induction hs arbitrary: xs) (auto simp: result_simps intro: staged_chunk_wf)

lemma gather_fetches:
  assumes "try_map (gather_part X e c ps) order = Inr got"
  shows "\<exists>xs. try_map (staged_chunk X e c) (concat (map (sp_chunks \<circ> fst) got)) = Inr xs \<and>
     concat xs = concat (map snd got)"
  using assms unfolding try_map_Inr_iff
proof (induction order got rule: list_all2_induct)
  case (Cons n order g got)
  from Cons(1) obtain ys where "list_all2 (\<lambda>h b. staged_chunk X e c h = Inr b) (sp_chunks (fst g)) ys" "concat ys = snd g"
    by (auto simp: gather_part_def result_simps try_map_Inr_iff)
  moreover from Cons(3) obtain xs where "list_all2 (\<lambda>h b. staged_chunk X e c h = Inr b) (concat (map (sp_chunks \<circ> fst) got)) xs"
    "concat xs = concat (map snd got)" by blast
  ultimately show ?case by (intro exI [of _ "ys @ xs"]) (simp add: list_all2_appendI comp_def)
qed simp

lemma complete_gathered:
  assumes ok: "store_ok X B M (disk e)" and up: "map_of (multipart e) i = Some up"
    and v: "valid_bucket (up_bucket up)" "valid_key (up_key up)"
    and dec: "decoder_for (up_codec up) = Inr dec" and c: "build_codec (up_codec up) (up_level up) = Inr c"
    and got: "try_map (gather_part X e dec (up_parts up)) (if order = [] then map fst (up_parts up) else order) = Inr got"
    and M: "manifest_body X (complete_manifest X e up c got t) \<in> M"
  shows "\<exists>oid e'. complete_multipart X i order t e = (Inr oid, e') \<and>
     oid = manifest_id X (complete_manifest X e up c got t) \<and>
     store_ok X B M (disk e') \<and> extends X (disk e) (disk e') \<and>
     others [manifest_dir, pointer_dir, reverse_dir] (disk e) (disk e') \<and>
     read_manifest_bytes X e' oid = Inr (concat (map snd got)) \<and>
     (\<forall>b k. log_at X (disk e') b k =
        (if b = up_bucket up \<and> k = up_key up then log_at X (disk e) b k @ [oid] else log_at X (disk e) b k)) \<and>
     multipart e' = AList.delete i (multipart e) \<and>
     set (pinned e') = set (pinned e) - set (up_pinned up)"
proof -
  let ?order = "if order = [] then map fst (up_parts up) else order"
  let ?e1 = "e\<lparr>multipart := AList.delete i (multipart e)\<rparr>" and ?m = "complete_manifest X e up c got t"
  let ?oid = "manifest_id X ?m" and ?cs = "concat (map (sp_chunks \<circ> fst) got)"
  have same: "staged_chunk X ?e1 = staged_chunk X e" by (simp add: staged_chunk_def fun_eq_iff)
  have gather: "try_map (gather_part X ?e1 dec (up_parts up)) ?order = Inr got"
    using got by (simp add: gather_part_def [abs_def] same)
  from gather_fetches [OF got] obtain xs where xs: "try_map (staged_chunk X e dec) ?cs = Inr xs"
    "concat xs = concat (map snd got)" by blast
  have wf: "list_all hash_wf ?cs"
    by (rule staged_chunks_wf [OF store_okD(6) [OF ok] xs(1)])
  have m: "new_manifest X ?e1 = new_manifest X e" by (rule new_manifest_policy) simp
  let ?ep = "\<lparr>ep_codec = c, ep_codec_name = up_codec up, ep_level = up_level up,
              ep_fidelity = up_fidelity up, ep_route = up_route up\<rparr>"
  have ok1: "store_ok X B M (disk ?e1)" using ok by simp
  from finalize_write_ok [OF ok1 v wf, of "up_content_type up" ?ep "sum_list (map (sp_stored_size \<circ> fst) got)"
      "sum_list (map (sp_orig_size \<circ> fst) got)" "sha256_hex X (concat (map snd got))" t,
      unfolded m, folded complete_manifest_def, OF M]
  obtain d where d: "finalize_write X (up_bucket up) (up_key up) (up_content_type up) ?ep
        ?cs (sum_list (map (sp_stored_size \<circ> fst) got))
        (sum_list (map (sp_orig_size \<circ> fst) got)) (sha256_hex X (concat (map snd got))) t ?e1
        = (Inr ?oid, ?e1\<lparr>disk := d\<rparr>)"
      "store_ok X B M d" "others [manifest_dir, pointer_dir, reverse_dir] (disk e) d" "extends X (disk e) d"
      "manifest_get X d ?oid = Inr (Some (with_id X ?m))"
      "\<forall>b k. log_at X d b k = (if b = up_bucket up \<and> k = up_key up
          then log_at X (disk e) (up_bucket up) (up_key up) @ [?oid] else log_at X (disk e) b k)"
    by auto
  let ?e2 = "release_pins (up_pinned up)
      (emit (write_event_of (?e1\<lparr>disk := d\<rparr>) ?oid (up_bucket up) (up_key up) (up_content_type up)) (?e1\<lparr>disk := d\<rparr>))"
  have "commit_parts X up ?order t ?e1 = (Inr ?oid, ?e1\<lparr>disk := d\<rparr>)"
    using dec gather c d(1) by (simp only: commit_parts_def map_err_simps and_then.simps Let_def)
  then have run: "complete_multipart X i order t e = (Inr ?oid, ?e2)"
    using up by (simp only: complete_multipart_def option.case Let_def sum.case prod.case)
  have dk: "disk ?e2 = d" by simp
  have "try_map (fetch_chunk X e dec ?oid) ?cs = Inr xs"
    using xs(1) unfolding try_map_Inr_iff by (auto elim!: list_all2_mono intro: gather_chunk)
  then have "try_map (fetch_chunk X ?e2 dec ?oid) ?cs = Inr xs"
    by (rule fetches_extend [rotated]) (use d(4) dk in simp)
  then have read: "read_manifest_bytes X ?e2 ?oid = Inr (concat (map snd got))"
    using d(5) dk dec xs(2)
    by (simp add: read_manifest_bytes_def fetch_manifest_def with_id_def complete_manifest_def new_manifest_def)
  show ?thesis
    unfolding run
  proof (intro exI conjI)
    show "(Inr ?oid, ?e2) = (Inr ?oid, ?e2)" "?oid = ?oid" by simp_all
    show "\<forall>b k. log_at X (disk ?e2) b k = (if b = up_bucket up \<and> k = up_key up
        then log_at X (disk e) b k @ [?oid] else log_at X (disk e) b k)"
      using d(6) by auto
  qed (use read d(2-4) in simp_all)
qed

text \<open>With the parts as they were uploaded, completing succeeds.\<close>

lemma complete_multipart_ok:
  assumes z: "zstd_ok X" and ok: "store_ok X B M (disk e)" and up: "map_of (multipart e) i = Some up"
    and v: "valid_bucket (up_bucket up)" "valid_key (up_key up)"
    and c: "build_codec (up_codec up) (up_level up) = Inr c"
    and got: "named_parts X B (disk e) c (up_parts up) (if order = [] then map fst (up_parts up) else order) got"
    and M: "manifest_body X (complete_manifest X e up c got t) \<in> M"
  shows "\<exists>oid e'. complete_multipart X i order t e = (Inr oid, e') \<and>
     oid = manifest_id X (complete_manifest X e up c got t) \<and>
     store_ok X B M (disk e') \<and> extends X (disk e) (disk e') \<and>
     others [manifest_dir, pointer_dir, reverse_dir] (disk e) (disk e') \<and>
     read_manifest_bytes X e' oid = Inr (concat (map snd got)) \<and>
     (\<forall>b k. log_at X (disk e') b k =
        (if b = up_bucket up \<and> k = up_key up then log_at X (disk e) b k @ [oid] else log_at X (disk e) b k)) \<and>
     multipart e' = AList.delete i (multipart e) \<and>
     set (pinned e') = set (pinned e) - set (up_pinned up)"
proof -
  from build_codec_decoder(2) [OF c z] obtain dec where dec: "decoder_for (up_codec up) = Inr dec" by blast
  from complete_gathered [OF ok up v dec c gather_parts_ok [OF z c dec got] M] show ?thesis .
qed

text \<open>Whatever \<open>complete\<close> returns, the upload is gone and its pins are off.\<close>

lemma on_disk_frame: "on_disk f e = (r, e') \<Longrightarrow> e' = e\<lparr>disk := disk e'\<rparr>"
  by (auto simp: on_disk_def split: prod.splits)

lemma finalize_write_frame:
  assumes "finalize_write X b k ct ep cs stored orig sha t e = (r, e')"
  shows "e' = e\<lparr>disk := disk e'\<rparr>"
proof -
  let ?m = "new_manifest X e ct ep cs stored orig sha t"
  obtain r1 e1 where 1: "on_disk (manifest_put X ?m) e = (r1, e1)" by force
  note f1 = on_disk_frame [OF 1]
  show ?thesis
  proof (cases r1)
    case (Inl a)
    with assms 1 f1 show ?thesis by (simp add: finalize_write_def)
  next
    case (Inr i)
    obtain r2 e2 where 2: "on_disk (pointer_set X b k i) e1 = (r2, e2)" by force
    note f2 = on_disk_frame [OF 2]
    obtain r3 e3 where 3: "on_disk (reverse_add X i b k) e2 = (r3, e3)" by force
    note f3 = on_disk_frame [OF 3]
    have e3: "e3 = e\<lparr>disk := disk e3\<rparr>" "e2 = e\<lparr>disk := disk e2\<rparr>" using f1 f2 f3
      by (metis engine.update_convs(1) engine.surjective)+
    from assms 1 2 3 Inr have "e' = e2 \<or> e' = e3" by (cases r2; cases r3) (auto simp: finalize_write_def)
    with e3 show ?thesis by auto
  qed
qed

lemma finalize_write_keeps:
  assumes "finalize_write X b k ct ep cs stored orig sha t e = (r, e')"
  shows "multipart e' = multipart e" "pinned e' = pinned e" "events e' = events e"
    "write_hook e' = write_hook e"
proof -
  obtain d where "e' = e\<lparr>disk := d\<rparr>" using finalize_write_frame [OF assms] by (rule that)
  then show "multipart e' = multipart e" "pinned e' = pinned e" "events e' = events e"
    "write_hook e' = write_hook e" by simp_all
qed

lemma complete_multipart_releases:
  assumes "map_of (multipart e) i = Some up" "complete_multipart X i order t e = (r, e')"
  shows "multipart e' = AList.delete i (multipart e)"
    "set (pinned e') = set (pinned e) - set (up_pinned up)"
proof -
  let ?e1 = "e\<lparr>multipart := AList.delete i (multipart e)\<rparr>"
  let ?order = "if order = [] then map fst (up_parts up) else order"
  obtain r1 e1 where c: "commit_parts X up ?order t ?e1 = (r1, e1)" by force
  then have "multipart e1 = multipart ?e1 \<and> pinned e1 = pinned ?e1"
    unfolding commit_parts_def Let_def by (auto elim!: and_thenE dest: finalize_write_keeps)
  with assms c show "multipart e' = AList.delete i (multipart e)"
    "set (pinned e') = set (pinned e) - set (up_pinned up)"
    by (auto simp: complete_multipart_def Let_def split: sum.splits)
qed

section \<open>A whole session\<close>

definition new_upload :: "string \<Rightarrow> string \<Rightarrow> string \<Rightarrow> effective \<Rightarrow> staged_upload" where
  "new_upload b k ct ep =
     \<lparr>up_bucket = b, up_key = k, up_content_type = ct, up_codec = ep_codec_name ep,
      up_level = ep_level ep, up_fidelity = ep_fidelity ep, up_route = ep_route ep,
      up_parts = [], up_pinned = []\<rparr>"

lemma create_multipart_ok:
  assumes "validate_key b k = Inr ()" "ensure_unlocked X b k now e = Inr ()"
    and "effective_policy X b ct e = Inr ep"
  shows "create_multipart X b k ct now e =
     (Inr (upload_id_of X b k now (mp_counter e)),
      e\<lparr>mp_counter := mp_counter e + 1,
        multipart := AList.update (upload_id_of X b k now (mp_counter e)) (new_upload b k ct ep) (multipart e)\<rparr>)"
  using assms by (simp add: create_multipart_def Let_def new_upload_def)

text \<open>
  The parts that complete the upload, in their order: those named, or without a list all of them by
  number; each with the body it was sent with last.
\<close>

definition completion_order :: "(nat \<times> bytes) list \<Rightarrow> nat list \<Rightarrow> nat list" where
  "completion_order parts order = (if order = [] then remdups (sort (map fst parts)) else order)"

definition last_body :: "(nat \<times> bytes) list \<Rightarrow> nat \<Rightarrow> bytes" where
  "last_body parts n = the (map_of (rev parts) n)"

definition session_got ::
  "ext \<Rightarrow> (nat \<times> bytes) list \<Rightarrow> bytes list list \<Rightarrow> nat list \<Rightarrow> (staged_part \<times> bytes) list" where
  "session_got X parts encss order =
     map (\<lambda>n. (the (map_of (stage_all X parts encss []) n), last_body parts n)) (completion_order parts order)"

lemma session_keys:
  assumes "parts_hold X B d c ss (map_of (rev parts))"
  shows "map fst ss = remdups (sort (map fst parts))"
proof (rule sorted_distinct_set_unique)
  have srt: "sorted_wrt (<) (map fst ss)" using assms by (simp add: parts_hold_def)
  then show "sorted (map fst ss)" "distinct (map fst ss)" using strict_sorted_iff by blast+
  have "n \<in> fst ` set ss \<longleftrightarrow> n \<in> fst ` set parts" for n
  proof -
    have "rel_option (part_holds X B d c) (map_of ss n) (map_of (rev parts) n)" using assms by (simp add: parts_hold_def)
    then have "map_of ss n = None \<longleftrightarrow> map_of (rev parts) n = None" by (auto elim: option.rel_cases)
    then show ?thesis by (simp add: map_of_eq_None_iff)
  qed
  then show "set (map fst ss) = set (remdups (sort (map fst parts)))" by auto
qed simp_all

lemma named_session:
  assumes h: "parts_hold X B d c ss (map_of (rev parts))" and o: "set order \<subseteq> fst ` set parts"
  shows "named_parts X B d c ss order (map (\<lambda>n. (the (map_of ss n), last_body parts n)) order)"
proof -
  have "map_of ss n = Some (the (map_of ss n)) \<and> part_holds X B d c (the (map_of ss n)) (last_body parts n)"
    if "n \<in> set order" for n
  proof -
    have "map_of (rev parts) n \<noteq> None" using that o by (auto simp: map_of_eq_None_iff)
    moreover have "rel_option (part_holds X B d c) (map_of ss n) (map_of (rev parts) n)"
      using h by (simp add: parts_hold_def)
    ultimately show ?thesis by (auto simp: last_body_def elim: option.rel_cases)
  qed
  then show ?thesis unfolding named_parts_def by (simp add: list_all2_conv_all_nth)
qed

lemma multipart_session_ok:
  assumes z: "zstd_ok X" and w: "writable X B M e b k" and u: "ensure_unlocked X b k now e = Inr ()"
    and ep: "effective_policy X b ct e = Inr ep"
    and parts: "encodable_parts X (ep_codec ep) B limit parts encss" "set order \<subseteq> fst ` set parts"
    and M: "manifest_body X (complete_manifest X e (new_upload b k ct ep) (ep_codec ep)
              (session_got X parts encss order) t) \<in> M"
  shows "\<exists>i e1 oid e2. create_multipart X b k ct now e = (Inr i, e1) \<and>
     complete_multipart X i order t (upload_all X i limit parts e1) = (Inr oid, e2) \<and>
     store_ok X B M (disk e2) \<and> extends X (disk e) (disk e2) \<and>
     read_manifest_bytes X e2 oid = Inr (concat (map (last_body parts) (completion_order parts order))) \<and>
     (\<forall>c j. log_at X (disk e2) c j = (if c = b \<and> j = k then log_at X (disk e) b k @ [oid] else log_at X (disk e) c j)) \<and>
     map_of (multipart e2) i = None \<and>
     set (pinned e2) = set (pinned e) - hash_of X ` set (concat encss)"
proof -
  have W: "cdc_ok X" "store_ok X B M (disk e)" "valid_bucket b" "valid_key k" "validate_key b k = Inr ()"
    using w by (auto simp: writable_def)
  let ?i = "upload_id_of X b k now (mp_counter e)" and ?up = "new_upload b k ct ep"
  let ?e1 = "e\<lparr>mp_counter := mp_counter e + 1, multipart := AList.update ?i ?up (multipart e)\<rparr>"
  let ?e2 = "upload_all X ?i limit parts ?e1"
  note create = create_multipart_ok [OF W(5) u ep]
  have c: "build_codec (up_codec ?up) (up_level ?up) = Inr (ep_codec ep)"
    using effective_policy_codec [OF ep] by (simp add: new_upload_def)
  have up1: "map_of (multipart ?e1) ?i = Some ?up" by (simp add: update_conv')
  have ok1: "store_ok X B M (disk ?e1)" using W(2) by simp
  have "parts_hold X B (disk ?e1) (ep_codec ep) (up_parts ?up) Map.empty"
    by (simp add: parts_hold_def new_upload_def)
  from upload_all_ok [OF W(1) ok1 up1 c parts(1) this] obtain up' where
    a: "store_ok X B M (disk ?e2)" "extends X (disk e) (disk ?e2)" "others [chunk_dir] (disk e) (disk ?e2)"
      "eng_policy ?e2 = eng_policy e" "map_of (multipart ?e2) ?i = Some up'"
      "up' = ?up\<lparr>up_pinned := up_pinned ?up @ map (hash_of X) (concat encss),
               up_parts := stage_all X parts encss (up_parts ?up)\<rparr>"
      "set (pinned ?e2) = set (pinned e) \<union> hash_of X ` set (concat encss)"
      "parts_hold X B (disk ?e2) (ep_codec ep) (up_parts up') (map_of (rev parts))"
    by auto
  have up': "up_parts up' = stage_all X parts encss []" "up_bucket up' = b" "up_key up' = k"
    "up_codec up' = up_codec ?up" "up_level up' = up_level ?up" "up_fidelity up' = up_fidelity ?up"
    "up_route up' = up_route ?up" "up_content_type up' = up_content_type ?up"
    "up_pinned up' = map (hash_of X) (concat encss)"
    using a(6) by (simp_all add: new_upload_def)
  have o: "(if order = [] then map fst (up_parts up') else order) = completion_order parts order"
    using session_keys [OF a(8)] by (simp add: completion_order_def)
  have sub: "set (completion_order parts order) \<subseteq> fst ` set parts" using parts(2) by (auto simp: completion_order_def)
  have got: "named_parts X B (disk ?e2) (ep_codec ep) (up_parts up')
      (if order = [] then map fst (up_parts up') else order) (session_got X parts encss order)"
    unfolding o using named_session [OF a(8) sub] by (simp only: session_got_def up'(1))
  have M': "manifest_body X (complete_manifest X ?e2 up' (ep_codec ep) (session_got X parts encss order) t) \<in> M"
    using M new_manifest_policy [OF a(4), of X] by (simp add: complete_manifest_def up')
  have c': "build_codec (up_codec up') (up_level up') = Inr (ep_codec ep)" using c up' by simp
  have v: "valid_bucket (up_bucket up')" "valid_key (up_key up')" using W up' by auto
  have bytes: "map snd (session_got X parts encss order) = map (last_body parts) (completion_order parts order)"
    by (simp add: session_got_def)
  from complete_multipart_ok [OF z a(1,5) v c' got M', unfolded bytes] obtain oid e3 where
    3: "complete_multipart X ?i order t ?e2 = (Inr oid, e3)" "store_ok X B M (disk e3)"
      "extends X (disk ?e2) (disk e3)"
      "read_manifest_bytes X e3 oid = Inr (concat (map (last_body parts) (completion_order parts order)))"
      "\<forall>b k. log_at X (disk e3) b k = (if b = up_bucket up' \<and> k = up_key up'
          then log_at X (disk ?e2) b k @ [oid] else log_at X (disk ?e2) b k)"
      "multipart e3 = AList.delete ?i (multipart ?e2)" "set (pinned e3) = set (pinned ?e2) - set (up_pinned up')"
    by (elim exE conjE) (rule that)
  have "log_at X (disk ?e2) c j = log_at X (disk e) c j" for c j
    using others_agree [OF a(3), THEN log_at_agree] by simp
  with 3 create a(2,7) up'(2,3,9) extends_trans [OF a(2) 3(3)]
  show ?thesis by (intro exI [of _ ?i] exI [of _ ?e1] exI [of _ oid] exI [of _ e3]) (auto simp: delete_conv')
qed

end
