(* ===== verification/Engine_Admin.thy ===== *)
theory Engine_Admin
  imports Engine_Multipart
begin

text \<open>
  The rest of the engine's operations (\<open>barme-engine/src/lib.rs\<close>): deletion, pots, keys, lifecycle,
  garbage collection and statistics, annotations, versions, diffs, the replication primitives and
  webhooks. \<open>list_objects\<close> is in \<open>Listing\<close>.
\<close>

section \<open>Objects and pots\<close>

definition delete_object :: "ext \<Rightarrow> string \<Rightarrow> string \<Rightarrow> nat \<Rightarrow> engine \<Rightarrow> (engine_error + unit) \<times> engine" where
  "delete_object X b k now e =
     and_then (ensure_unlocked X b k now e, e) (\<lambda>_ e. on_disk (pointer_remove X b k) e)"

definition buckets :: "engine \<Rightarrow> engine_error + string list" where
  "buckets e = map_err EStore (pointer_buckets (disk e))"

definition create_bucket :: "ext \<Rightarrow> string \<Rightarrow> engine \<Rightarrow> (engine_error + unit) \<times> engine" where
  "create_bucket X b e =
     (if b = [] then (Inl (InvalidKey ''pot name must not be empty''), e)
      else if \<not> meta_exists X (disk e) b then on_disk (meta_set_config X b bucket_config_default) e
      else (Inr (), e))"

definition bucket_exists :: "ext \<Rightarrow> engine \<Rightarrow> string \<Rightarrow> engine_error + bool" where
  "bucket_exists X e b =
     (if meta_exists X (disk e) b then Inr True
      else try_then (buckets e) (\<lambda>bs. Inr (b \<in> set bs)))"

text \<open>The \<open>BTreeSet\<close> of both sources, in order.\<close>

definition list_buckets :: "ext \<Rightarrow> engine \<Rightarrow> engine_error + string list" where
  "list_buckets X e =
     try_then (buckets e) (\<lambda>bs.
     try_then (map_err EStore (meta_list X (disk e))) (\<lambda>ms. Inr (sort (remdups (bs @ ms)))))"

definition keys :: "ext \<Rightarrow> engine \<Rightarrow> string \<Rightarrow> engine_error + string list" where
  "keys X e b = map_err EStore (pointer_list X (disk e) b)"

definition get_bucket_config :: "ext \<Rightarrow> engine \<Rightarrow> string \<Rightarrow> engine_error + bucket_config" where
  "get_bucket_config X e b = map_err EStore (meta_config X (disk e) b)"

definition set_bucket_config :: "ext \<Rightarrow> string \<Rightarrow> bucket_config \<Rightarrow> engine \<Rightarrow> (engine_error + unit) \<times> engine" where
  "set_bucket_config X b c = on_disk (meta_set_config X b c)"

definition is_public :: "ext \<Rightarrow> engine \<Rightarrow> string \<Rightarrow> engine_error + bool" where
  "is_public X e b = try_then (get_bucket_config X e b) (\<lambda>c. Inr (public_read c))"

definition rename_bucket :: "ext \<Rightarrow> string \<Rightarrow> string \<Rightarrow> engine \<Rightarrow> (engine_error + unit) \<times> engine" where
  "rename_bucket X old new e =
     and_then (on_disk (pointer_rename_bucket old new) e) (\<lambda>_ e. on_disk (meta_rename_bucket X old new) e)"

definition delete_bucket :: "ext \<Rightarrow> string \<Rightarrow> engine \<Rightarrow> (engine_error + unit) \<times> engine" where
  "delete_bucket X b e =
     and_then (on_disk (pointer_delete_bucket b) e) (\<lambda>_ e. on_disk (meta_delete_bucket X b) e)"

definition delete_bucket_if_empty :: "ext \<Rightarrow> string \<Rightarrow> engine \<Rightarrow> (engine_error + bool) \<times> engine" where
  "delete_bucket_if_empty X b e =
     and_then (keys X e b, e) (\<lambda>ks e.
       if ks \<noteq> [] then (Inr False, e) else and_then (delete_bucket X b e) (\<lambda>_ e. (Inr True, e)))"

definition move_object ::
  "ext \<Rightarrow> string \<Rightarrow> string \<Rightarrow> string \<Rightarrow> string \<Rightarrow> engine \<Rightarrow> (engine_error + bool) \<times> engine" where
  "move_object X fb fk tb tk = on_disk (move_key X fb fk tb tk)"

definition copy_object ::
  "ext \<Rightarrow> string \<Rightarrow> string \<Rightarrow> string \<Rightarrow> string \<Rightarrow> engine \<Rightarrow> (engine_error + bool) \<times> engine" where
  "copy_object X fb fk tb tk = on_disk (pointer_copy X fb fk tb tk)"

section \<open>Access keys\<close>

text \<open>\<open>now\<close> is the current instant as RFC 3339 text, \<open>nonce\<close> what the random generator gives.\<close>

definition list_keys :: "ext \<Rightarrow> engine \<Rightarrow> engine_error + key_record list" where
  "list_keys X e = map_err EStore (key_list X (cipher e) (disk e))"

definition get_key :: "ext \<Rightarrow> engine \<Rightarrow> string \<Rightarrow> engine_error + key_record option" where
  "get_key X e a = map_err EStore (key_get X (cipher e) (disk e) a)"

definition create_key ::
  "ext \<Rightarrow> bytes option \<Rightarrow> string \<Rightarrow> key_record \<Rightarrow> engine \<Rightarrow> (engine_error + unit) \<times> engine" where
  "create_key X nonce now r e =
     (let r = (if key_created_at r = [] then r\<lparr>key_created_at := now\<rparr> else r) in
      on_disk (key_put X (cipher e) nonce r) e)"

definition delete_key :: "ext \<Rightarrow> string \<Rightarrow> engine \<Rightarrow> (engine_error + unit) \<times> engine" where
  "delete_key X a = on_disk (key_delete X a)"

definition ensure_owner ::
  "ext \<Rightarrow> bytes option \<Rightarrow> string \<Rightarrow> string \<Rightarrow> string \<Rightarrow> engine \<Rightarrow> (engine_error + unit) \<times> engine" where
  "ensure_owner X nonce now a s e =
     and_then (list_keys X e, e) (\<lambda>ks e.
       if ks = [] then
         on_disk (key_put X (cipher e) nonce
           \<lparr>access_key = a, secret_key = s, read_only = False, pots = [], key_created_at = now\<rparr>) e
       else (Inr (), e))"

definition signing_secret :: "ext \<Rightarrow> engine \<Rightarrow> string option" where
  "signing_secret X e =
     (case list_keys X e of Inl err \<Rightarrow> None | Inr ks \<Rightarrow> map_option secret_key (List.find is_owner ks))"

section \<open>Lifecycle\<close>

definition expired :: "ext \<Rightarrow> string \<Rightarrow> string \<Rightarrow> nat \<Rightarrow> nat \<Rightarrow> engine \<Rightarrow> engine_error + bool" where
  "expired X b k days now e =
     try_then (current_manifest X e b k) (\<lambda>m.
       Inr (case m of
              None \<Rightarrow> False
            | Some m \<Rightarrow>
                (case parse_rfc3339_secs X (created_at m) of
                   None \<Rightarrow> False
                 | Some created \<Rightarrow> days * 86400 < now - created)))"

definition lifecycle_key ::
  "ext \<Rightarrow> string \<Rightarrow> nat \<Rightarrow> nat \<Rightarrow> nat \<Rightarrow> string \<Rightarrow> engine \<Rightarrow> (engine_error + unit) \<times> engine" where
  "lifecycle_key X b keep days now k e =
     and_then (if 0 < days then expired X b k days now e else Inr False, e) (\<lambda>gone e.
       if gone then on_disk (pointer_remove X b k) e
       else if 0 < keep then on_disk (pointer_trim X b k keep) e
       else (Inr (), e))"

fun lifecycle_keys ::
  "ext \<Rightarrow> string \<Rightarrow> nat \<Rightarrow> nat \<Rightarrow> nat \<Rightarrow> string list \<Rightarrow> engine \<Rightarrow> (engine_error + unit) \<times> engine" where
  "lifecycle_keys X b keep days now [] e = (Inr (), e)"
| "lifecycle_keys X b keep days now (k # ks) e =
     and_then (lifecycle_key X b keep days now k e) (\<lambda>_ e. lifecycle_keys X b keep days now ks e)"

fun lifecycle_pots :: "ext \<Rightarrow> nat \<Rightarrow> string list \<Rightarrow> engine \<Rightarrow> (engine_error + unit) \<times> engine" where
  "lifecycle_pots X now [] e = (Inr (), e)"
| "lifecycle_pots X now (b # bs) e =
     and_then (get_bucket_config X e b, e) (\<lambda>cfg e.
       let keep = (case max_versions cfg of None \<Rightarrow> 0 | Some n \<Rightarrow> n);
           days = (case expire_after_days cfg of None \<Rightarrow> 0 | Some n \<Rightarrow> n)
       in and_then
            (if keep = 0 \<and> days = 0 then (Inr (), e)
             else and_then (keys X e b, e) (\<lambda>ks e. lifecycle_keys X b keep days now ks e))
            (\<lambda>_ e. lifecycle_pots X now bs e))"

definition enforce_lifecycle :: "ext \<Rightarrow> nat \<Rightarrow> engine \<Rightarrow> (engine_error + unit) \<times> engine" where
  "enforce_lifecycle X now e = and_then (buckets e, e) (\<lambda>bs e. lifecycle_pots X now bs e)"

section \<open>Garbage collection and statistics\<close>

definition gc_sweep :: "ext \<Rightarrow> nat \<Rightarrow> nat \<Rightarrow> engine \<Rightarrow> (engine_error + sweep_counts) \<times> engine" where
  "gc_sweep X now grace e =
     and_then (on_disk (sweep X (pinned e) now grace) e) (\<lambda>s e.
       (Inr s, e\<lparr>gc_sweeps := gc_sweeps e + 1,
                 gc_condemned_total := gc_condemned_total e + word_of_nat (sw_condemned s),
                 gc_erased_total := gc_erased_total e + word_of_nat (sw_erased s),
                 gc_last_live := word_of_nat (sw_live s)\<rparr>))"

record stats_report =
  st_buckets :: nat
  st_objects :: nat
  st_logical_bytes :: nat
  st_physical_bytes :: nat
  st_unique_chunks :: nat

fun stats_keys :: "ext \<Rightarrow> engine \<Rightarrow> string \<Rightarrow> string list \<Rightarrow> nat \<times> nat \<Rightarrow> engine_error + nat \<times> nat" where
  "stats_keys X e b [] s = Inr s"
| "stats_keys X e b (k # ks) (n, sz) =
     try_then (current_manifest X e b k) (\<lambda>m.
       case m of
         None \<Rightarrow> stats_keys X e b ks (n, sz)
       | Some m \<Rightarrow> stats_keys X e b ks (n + 1, sz + size_bytes (original m)))"

fun stats_pots :: "ext \<Rightarrow> engine \<Rightarrow> string list \<Rightarrow> nat \<times> nat \<Rightarrow> engine_error + nat \<times> nat" where
  "stats_pots X e [] s = Inr s"
| "stats_pots X e (b # bs) s =
     try_then (keys X e b) (\<lambda>ks. try_then (stats_keys X e b ks s) (stats_pots X e bs))"

definition stats :: "ext \<Rightarrow> engine \<Rightarrow> engine_error + stats_report" where
  "stats X e =
     try_then (buckets e) (\<lambda>bs.
     try_then (stats_pots X e bs (0, 0)) (\<lambda>s.
     try_then (map_err EStore (physical_bytes (disk e))) (\<lambda>phys.
     try_then (map_err EStore (chunk_count X (disk e))) (\<lambda>n.
       Inr \<lparr>st_buckets = length bs, st_objects = fst s, st_logical_bytes = snd s,
            st_physical_bytes = phys, st_unique_chunks = n\<rparr>))))"

section \<open>Annotations, versions, diffs\<close>

definition get_annotation :: "ext \<Rightarrow> engine \<Rightarrow> string \<Rightarrow> string \<Rightarrow> engine_error + annotation" where
  "get_annotation X e b k = map_err EStore (annotation_get X (disk e) (b, k))"

definition set_annotation ::
  "ext \<Rightarrow> string \<Rightarrow> string \<Rightarrow> annotation \<Rightarrow> engine \<Rightarrow> (engine_error + unit) \<times> engine" where
  "set_annotation X b k a = on_disk (annotation_set X (b, k) a)"

definition restore_version ::
  "ext \<Rightarrow> string \<Rightarrow> string \<Rightarrow> hash \<Rightarrow> nat \<Rightarrow> engine \<Rightarrow> (engine_error + unit) \<times> engine" where
  "restore_version X b k i now e =
     and_then (ensure_unlocked X b k now e, e) (\<lambda>_ e.
     and_then (fetch_manifest X e i, e) (\<lambda>_ e.
     and_then (on_disk (pointer_set X b k i) e) (\<lambda>_ e. on_disk (reverse_add X i b k) e)))"

record diff_report =
  df_added :: nat
  df_removed :: nat
  df_shared :: nat

definition diff :: "ext \<Rightarrow> engine \<Rightarrow> hash \<Rightarrow> hash \<Rightarrow> engine_error + diff_report" where
  "diff X e a b =
     try_then (fetch_manifest X e a) (\<lambda>ma.
     try_then (fetch_manifest X e b) (\<lambda>mb.
       let sa = set (chunks (chunking ma)); sb = set (chunks (chunking mb)) in
       Inr \<lparr>df_added = card (sb - sa), df_removed = card (sa - sb), df_shared = card (sa \<inter> sb)\<rparr>))"

record delta_report =
  dl_root :: hash
  dl_add :: "hash list"
  dl_remove :: "hash list"

definition delta :: "ext \<Rightarrow> engine \<Rightarrow> hash \<Rightarrow> hash \<Rightarrow> engine_error + delta_report" where
  "delta X e a b =
     try_then (fetch_manifest X e a) (\<lambda>mf.
     try_then (fetch_manifest X e b) (\<lambda>mt.
       Inr \<lparr>dl_root = root_of_manifest X mt,
            dl_add = filter (\<lambda>h. h \<notin> set (chunks (chunking mf))) (chunks (chunking mt)),
            dl_remove = filter (\<lambda>h. h \<notin> set (chunks (chunking mt))) (chunks (chunking mf))\<rparr>))"

section \<open>Replication\<close>

definition has_chunk :: "ext \<Rightarrow> engine \<Rightarrow> hash \<Rightarrow> bool" where
  "has_chunk X e h = chunk_has X (disk e) h"

definition missing_chunks :: "ext \<Rightarrow> engine \<Rightarrow> hash list \<Rightarrow> hash list" where
  "missing_chunks X e wanted = filter (\<lambda>h. \<not> chunk_has X (disk e) h) wanted"

definition chunk_bytes :: "ext \<Rightarrow> engine \<Rightarrow> hash \<Rightarrow> engine_error + bytes option" where
  "chunk_bytes X e h = map_err EStore (chunk_get X (disk e) h)"

definition put_chunk_bytes :: "ext \<Rightarrow> bytes \<Rightarrow> engine \<Rightarrow> (engine_error + hash) \<times> engine" where
  "put_chunk_bytes X b = on_disk (chunk_put X b)"

text \<open>The manifest is stored before its declared id is compared with the one it was stored under.\<close>

definition import_object ::
  "ext \<Rightarrow> string \<Rightarrow> string \<Rightarrow> manifest \<Rightarrow> nat \<Rightarrow> engine \<Rightarrow> (engine_error + hash) \<times> engine" where
  "import_object X b k m now e =
     and_then (ensure_unlocked X b k now e, e) (\<lambda>_ e.
       case List.find (\<lambda>h. \<not> chunk_has X (disk e) h) (chunks (chunking m)) of
         Some h \<Rightarrow> (Inl (MissingChunk h (object_id m)), e)
       | None \<Rightarrow>
           if (case merkle_root (chunking m) of
                 None \<Rightarrow> False | Some r \<Rightarrow> r \<noteq> root X (chunks (chunking m)))
           then (Inl (EIntegrity (object_id m)), e)
           else
             and_then (on_disk (manifest_put X m) e) (\<lambda>i e.
               if i \<noteq> object_id m then (Inl (EIntegrity (object_id m)), e)
               else
                 and_then (on_disk (pointer_set X b k i) e) (\<lambda>_ e.
                 and_then (on_disk (reverse_add X i b k) e) (\<lambda>_ e. (Inr i, e)))))"

definition locations :: "ext \<Rightarrow> engine \<Rightarrow> hash \<Rightarrow> engine_error + (string \<times> string) list" where
  "locations X e i = map_err EStore (reverse_get X (disk e) i)"

section \<open>Webhooks\<close>

definition list_webhooks :: "ext \<Rightarrow> engine \<Rightarrow> engine_error + webhook list" where
  "list_webhooks X e = map_err EStore (webhook_list X (disk e))"

definition add_webhook :: "ext \<Rightarrow> webhook \<Rightarrow> engine \<Rightarrow> (engine_error + unit) \<times> engine" where
  "add_webhook X h = on_disk (webhook_put X h)"

definition delete_webhook :: "ext \<Rightarrow> string \<Rightarrow> engine \<Rightarrow> (engine_error + unit) \<times> engine" where
  "delete_webhook X i = on_disk (webhook_delete X i)"

section \<open>Pointer operations on the whole store\<close>

lemma others_delete: "p \<noteq> [] \<Longrightarrow> hd p \<in> set ts \<Longrightarrow> others ts d (AList.delete p d)"
  unfolding others_def using agree_delete by metis

lemma others_remove_opt:
  "disk_ok d \<Longrightarrow> good p \<Longrightarrow> hd p \<in> set ts \<Longrightarrow> others ts d (snd (remove_opt p d))"
  using good_plain(2) [of p] by (simp add: remove_opt_good others_delete)

lemma pointer_change:
  assumes ok: "store_ok X B M d" and p: "pointers_ok X d'" and o: "others [pointer_dir] d d'"
  shows "store_ok X B M d'" "extends X d d'"
proof -
  note S = store_okD [OF ok]
  have ag: "agree t d d'" if "t \<noteq> pointer_dir" for t using o that by (simp add: others_def)
  have dk: "disk_ok d'" using p by (rule pointers_okD)
  show "store_ok X B M d'"
    unfolding store_ok_def
    using p chunks_ok_agree [OF S(1) dk ag] manifests_ok_agree [OF S(2) dk ag] side_ok_agree [OF S(4) ag ag ag]
    by simp
  show "extends X d d'" using extends_agree [OF S(6,7,5) dk ag ag] by simp
qed

lemma pointer_remove_others:
  assumes "pointers_ok X d" "valid_bucket b" "valid_key k"
  shows "others [pointer_dir] d (snd (pointer_remove X b k d))"
proof -
  note X = pointers_okD(1-3) [OF assms(1)]
  have "good (pointer_file X b k)" using X assms by (simp add: good_pointer)
  then show ?thesis
    using X assms others_remove_opt [of d "pointer_file X b k" "[pointer_dir]"]
    by (simp add: pointer_remove_def pointer_path_valid remove_opt_good pointer_file_def)
qed

lemma pointer_remove_step:
  assumes ok: "store_ok X B M d" and v: "valid_bucket b" "valid_key k"
  shows "\<exists>d'. pointer_remove X b k d = (Inr (), d') \<and> store_ok X B M d' \<and> others [pointer_dir] d d' \<and>
     extends X d d' \<and> (\<forall>c j. log_at X d' c j = (if c = b \<and> j = k then [] else log_at X d c j))"
proof -
  note P = store_okD(3) [OF ok]
  obtain r d' where run: "pointer_remove X b k d = (r, d')" by force
  note R = pointer_remove_ok [OF P v run]
  have o: "others [pointer_dir] d d'" using pointer_remove_others [OF P v] run by simp
  from pointer_change [OF ok R(2) o] R(1,3) run o show ?thesis by auto
qed

lemma pointer_trim_step:
  assumes ok: "store_ok X B M d" and v: "valid_bucket b" "valid_key k" and n: "0 < n"
  shows "\<exists>d'. pointer_trim X b k n d = (Inr (), d') \<and> store_ok X B M d' \<and> others [pointer_dir] d d' \<and>
     extends X d d' \<and>
     (\<forall>c j. log_at X d' c j = (if c = b \<and> j = k then drop (length (log_at X d b k) - n) (log_at X d b k)
                              else log_at X d c j))"
proof -
  note P = store_okD(3) [OF ok] and X = pointers_okD(1-3) [OF store_okD(3) [OF ok]]
  obtain r d' where run: "pointer_trim X b k n d = (r, d')" by force
  note R = pointer_trim_ok [OF P v run]
  have g: "good (pointer_file X b k)" using X v by (simp add: good_pointer)
  have o: "others [pointer_dir] d d'"
    using run n v X g history_eq [OF P v]
      others_put_file [of "pointer_file X b k" "[pointer_dir]" d]
    by (auto simp: pointer_trim_def pointer_path_valid write_good pointer_file_def split: if_splits)
  from pointer_change [OF ok R(2) o] R(1,3) run o n show ?thesis by auto
qed

lemma pointer_copy_step:
  assumes ok: "store_ok X B M d" and v: "valid_bucket fb" "valid_key fk" "valid_bucket tb" "valid_key tk"
  shows "\<exists>d'. pointer_copy X fb fk tb tk d = (Inr (log_at X d fb fk \<noteq> []), d') \<and> store_ok X B M d' \<and>
     others [pointer_dir] d d' \<and> extends X d d' \<and>
     (\<forall>c j. log_at X d' c j =
       (if c = tb \<and> j = tk \<and> log_at X d fb fk \<noteq> [] then log_at X d tb tk @ [last (log_at X d fb fk)]
        else log_at X d c j))"
proof -
  note P = store_okD(3) [OF ok]
  note hs = history_eq [OF P v(1,2)]
  obtain r d' where run: "pointer_copy X fb fk tb tk d = (r, d')" by force
  note R = pointer_copy_ok [OF P v run]
  have o: "others [pointer_dir] d d'"
  proof (cases "log_at X d fb fk = []")
    case True
    with run hs show ?thesis by (auto simp: pointer_copy_def current_def)
  next
    case False
    then have wf: "hash_wf (last (log_at X d fb fk))" using hs(2) by (simp add: list_all_iff)
    from pointer_set_step [OF ok v(3,4) wf] False run hs show ?thesis
      by (auto simp: pointer_copy_def current_def)
  qed
  from pointer_change [OF ok R(2) o] R(1,3) run o show ?thesis by auto
qed

lemma move_key_step:
  assumes ok: "store_ok X B M d" and v: "valid_bucket fb" "valid_key fk" "valid_bucket tb" "valid_key tk"
  shows "\<exists>d'. move_key X fb fk tb tk d = (Inr (log_at X d fb fk \<noteq> []), d') \<and> store_ok X B M d' \<and>
     others [pointer_dir] d d' \<and> extends X d d' \<and>
     (\<forall>c j. log_at X d' c j =
       (if log_at X d fb fk = [] then log_at X d c j
        else if c = fb \<and> j = fk then []
        else if c = tb \<and> j = tk then log_at X d fb fk else log_at X d c j))"
proof -
  note P = store_okD(3) [OF ok] and X = pointers_okD(1-3) [OF store_okD(3) [OF ok]]
  note hs = history_eq [OF P v(1,2)]
  obtain r d' where run: "move_key X fb fk tb tk d = (r, d')" by force
  note R = move_key_ok [OF P v run]
  have o: "others [pointer_dir] d d'"
  proof (cases "log_at X d fb fk = []")
    case True
    with run hs show ?thesis by (auto simp: move_key_def)
  next
    case False
    have g: "good (pointer_file X tb tk)" using X v by (simp add: good_pointer)
    let ?d1 = "put_file (pointer_file X tb tk) (as_bytes (entry_lines X (log_at X d fb fk))) d"
    have 1: "others [pointer_dir] d ?d1" by (rule others_put_file) (simp_all add: pointer_file_def)
    have "pointers_ok X ?d1" using pointers_ok_write(1) [OF P v(3,4) hs(2) refl] .
    from pointer_remove_others [OF this v(1,2)] have 2: "others [pointer_dir] ?d1 (snd (pointer_remove X fb fk ?d1))" .
    have "d' = snd (pointer_remove X fb fk ?d1)"
      using run False hs v g X
      by (cases "pointer_remove X fb fk ?d1"; cases "fst (pointer_remove X fb fk ?d1)")
        (auto simp: move_key_def pointer_path_valid write_good)
    with others_trans [OF 1 2] show ?thesis by simp
  qed
  from pointer_change [OF ok R(2) o] R(1,3) run o show ?thesis by auto
qed

lemma pointer_delete_bucket_step:
  assumes ok: "store_ok X B M d" and v: "valid_bucket b"
  shows "\<exists>d'. pointer_delete_bucket b d = (Inr (), d') \<and> store_ok X B M d' \<and> others [pointer_dir] d d' \<and>
     extends X d d' \<and> (\<forall>c k. log_at X d' c k = (if c = b then [] else log_at X d c k))"
proof -
  obtain r d' where run: "pointer_delete_bucket b d = (r, d')" by force
  note R = pointer_delete_bucket_ok [OF store_okD(3) [OF ok] v run]
  have o: "others [pointer_dir] d d'" by (simp add: others_def agree_def R(6))
  from pointer_change [OF ok R(2) o] R(1,5) run o show ?thesis by auto
qed

lemma pointer_rename_bucket_step:
  assumes ok: "store_ok X B M d" and v: "valid_bucket old" "valid_bucket new" and ne: "old \<noteq> new"
    and src: "fs_lookup d [pointer_dir, old] \<noteq> None" and free: "fs_lookup d [pointer_dir, new] = None"
  shows "\<exists>d'. pointer_rename_bucket old new d = (Inr (), d') \<and> store_ok X B M d' \<and>
     others [pointer_dir] d d' \<and> extends X d d' \<and>
     (\<forall>c k. log_at X d' c k =
        (if c = new then log_at X d old k else if c = old then [] else log_at X d c k))"
proof -
  obtain r d' where run: "pointer_rename_bucket old new d = (r, d')" by force
  from pointer_rename_bucket_ok(3) [OF store_okD(3) [OF ok] v ne run src free]
  have R: "r = Inr ()" "pointers_ok X d'"
    "contents d' q = (if prefix [pointer_dir, new] q then contents d ([pointer_dir, old] @ drop 2 q)
           else if prefix [pointer_dir, old] q then None else contents d q)"
    "t \<noteq> pointer_dir \<Longrightarrow> fs_lookup d' (t # p) = fs_lookup d (t # p)" for q t p by auto
  have o: "others [pointer_dir] d d'" by (simp add: others_def agree_def R(4))
  have "log_at X d' c k = (if c = new then log_at X d old k else if c = old then [] else log_at X d c k)" for c k
    by (simp add: log_at_def R(3) pointer_file_def numeral_2_eq_2)
  with pointer_change [OF ok R(2) o] R(1) run o show ?thesis by auto
qed

section \<open>Configuration and annotation files\<close>

lemma side_change:
  assumes ok: "store_ok X B M d" and dk: "disk_ok d'" and s: "side_ok X d'" and o: "others flat_dirs d d'"
  shows "store_ok X B M d'" "extends X d d'"
proof -
  note S = store_okD [OF ok]
  have ag: "agree t d d'" if "t \<notin> set flat_dirs" for t using o that by (simp add: others_def)
  have n: "chunk_dir \<notin> set flat_dirs" "manifest_dir \<notin> set flat_dirs" "pointer_dir \<notin> set flat_dirs"
    by (simp_all add: flat_dirs_def)
  show "store_ok X B M d'"
    unfolding store_ok_def
    using s chunks_ok_agree [OF S(1) dk ag] manifests_ok_agree [OF S(2) dk ag] pointers_ok_agree [OF S(3) dk ag] n
    by simp
  show "extends X d d'" using extends_agree [OF S(6,7,5) dk ag ag] n by simp
qed

lemma flat_write_step:
  assumes ok: "store_ok X B M d" and p: "good [t, f]" "t \<in> set flat_dirs"
    and b: "t = meta_dir \<Longrightarrow> config_of_json X b \<noteq> None" "t = annotation_dir \<Longrightarrow> annotation_of_json X b \<noteq> None"
  shows "store_ok X B M (put_file [t, f] b d)" "extends X d (put_file [t, f] b d)"
    "others [t] d (put_file [t, f] b d)"
proof -
  note S = store_okD [OF ok]
  let ?d = "put_file [t, f] b d"
  show o: "others [t] d ?d" by (rule others_put_file) simp_all
  have o': "others flat_dirs d ?d" using others_mono [OF o] p(2) by simp
  have dk: "disk_ok ?d" using S(5) p(1) by (rule disk_ok_put_file)
  have "t \<noteq> reverse_dir" using p(2) by (auto simp: flat_dirs_def)
  then have "side_ok X ?d"
    using S(4) b contents_put_file [OF p(1), of b d] by (auto simp: side_ok_def)
  from side_change [OF ok dk this o'] show "store_ok X B M ?d" "extends X d ?d" .
qed

lemma meta_set_config_step:
  assumes ok: "store_ok X B M d" and b: "valid_pot b"
  shows "\<exists>d'. meta_set_config X b cfg d = (Inr (), d') \<and> store_ok X B M d' \<and> others [meta_dir] d d' \<and>
     extends X d d' \<and> (\<forall>c. valid_pot c \<longrightarrow> meta_config X d' c = (if c = b then Inr cfg else meta_config X d c))"
proof -
  note S = store_okD [OF ok]
  let ?d = "put_file (meta_path X b) (config_to_json X cfg) d"
  have run: "meta_set_config X b cfg d = (Inr (), ?d)" using meta_set_config_eq [OF S(9) b] .
  have g: "good (meta_path X b)" using S(7) b by (rule good_meta)
  have w: "store_ok X B M ?d" "extends X d ?d" "others [meta_dir] d ?d"
    using flat_write_step [OF ok g [unfolded meta_path_def]] S(8) by (simp_all add: meta_path_def json_okD)
  have "meta_config X ?d c = (if c = b then Inr cfg else meta_config X d c)" if "valid_pot c" for c
    using meta.get_put [OF S(9) b that run] .
  with run w show ?thesis by auto
qed

lemma annotation_set_step:
  assumes ok: "store_ok X B M d" and pk: "valid_object pk"
  shows "\<exists>d'. annotation_set X pk a d = (Inr (), d') \<and> store_ok X B M d' \<and> others [annotation_dir] d d' \<and>
     extends X d d' \<and>
     (\<forall>qj. valid_object qj \<longrightarrow> annotation_get X d' qj = (if qj = pk then Inr a else annotation_get X d qj))"
proof -
  note S = store_okD [OF ok]
  let ?d = "put_file (annotation_path X pk) (annotation_to_json X a) d"
  have run: "annotation_set X pk a d = (Inr (), ?d)" using annotation_set_eq [OF S(9) pk] .
  have g: "good (annotation_path X pk)" using S(7) pk by (rule good_annotation)
  have w: "store_ok X B M ?d" "extends X d ?d" "others [annotation_dir] d ?d"
    using flat_write_step [OF ok g [unfolded annotation_path_def]] S(8)
    by (simp_all add: annotation_path_def json_okD)
  have "annotation_get X ?d qj = (if qj = pk then Inr a else annotation_get X d qj)" if "valid_object qj" for qj
    using annotation.get_put [OF S(9) pk that run] .
  with run w show ?thesis by auto
qed

lemma meta_delete_step:
  assumes ok: "store_ok X B M d" and b: "valid_pot b"
  shows "\<exists>d'. meta_delete_bucket X b d = (Inr (), d') \<and> store_ok X B M d' \<and> others [meta_dir] d d' \<and>
     extends X d d' \<and>
     (\<forall>c. valid_pot c \<longrightarrow> meta_config X d' c = (if c = b then Inr bucket_config_default else meta_config X d c))"
proof -
  note S = store_okD [OF ok]
  have g: "good (meta_path X b)" using S(7) b by (rule good_meta)
  let ?d = "snd (remove_opt (meta_path X b) d)"
  have run: "meta_delete_bucket X b d = (Inr (), ?d)"
    using S(5) g by (simp add: meta_delete_bucket_def remove_opt_good)
  have o: "others [meta_dir] d ?d" by (rule others_remove_opt [OF S(5) g]) (simp add: meta_path_def)
  have dk: "disk_ok ?d" using S(5) g by (rule disk_ok_remove_opt)
  note c = contents_remove_opt [OF S(5) g]
  have "side_ok X ?d" using S(4) by (auto simp: side_ok_def c split: if_splits)
  moreover have "others flat_dirs d ?d" using others_mono [OF o] by simp
  ultimately have w: "store_ok X B M ?d" "extends X d ?d" using side_change [OF ok dk] by auto
  have f: "flat_ok X ?d" using S dk by (simp add: flat_ok_def)
  have "meta_config X ?d c = (if c = b then Inr bucket_config_default else meta_config X d c)" if "valid_pot c" for c
    using meta_config_eq [OF f that] meta_config_eq [OF S(9) that] S(7) by (simp add: c meta_path_inj)
  with run o w show ?thesis by auto
qed

lemma rename_flat:
  assumes ok: "disk_ok d" and g: "good [t, f]" "good [t, h]" "t \<in> set flat_dirs" and ne: "f \<noteq> h"
    and src: "contents d [t, f] = Some b"
  shows "\<exists>d'. rename d [t, f] [t, h] = Inr d' \<and> disk_ok d' \<and>
     (\<forall>q. contents d' q = (if q = [t, h] then Some b else if q = [t, f] then None else contents d q)) \<and>
     others [t] d d'"
proof -
  let ?p = "[t, f]" and ?q = "[t, h]"
  let ?d1 = "AList.delete ?q d"
  let ?d2 = "map (\<lambda>(r, n). (move_path ?p ?q r, n)) ?d1"
  have sp: "fs_lookup d ?p = Some (File b)" using src by (simp add: contents_lookup)
  have fs: "fs_ok d" using ok by (simp add: disk_ok_def)
  have par: "fs_lookup d [t] = Some Dir" using fs_ok_parent(2) [OF fs _ sp] by simp
  have pl: "plain ?p" "plain ?q" "name_error ?p = None" "name_error ?q = None"
    using g good_plain by (auto simp: good_def)
  have res: "resolve d ?p = Inr (File b)" using pl sp by (simp add: resolve_plain)
  have q: "fs_lookup d ?q \<noteq> Some Dir" using disk_ok_file(1) [OF ok g(2)] .
  have ren: "rename d ?p ?q = Inr ?d2"
    using res pl par q ne by (cases "fs_lookup d ?q") (auto simp: rename_def split: fs_node.splits)
  have ok1: "disk_ok ?d1"
  proof (cases "contents d ?q = None")
    case True
    then have "fs_lookup d ?q = None" using disk_ok_file(2) [OF ok g(2)] by simp
    then have "?q \<notin> set (map fst d)" by (simp add: fs_lookup_def map_of_eq_None_iff)
    then have "?d1 = d" by (induction d) auto
    then show ?thesis using ok by simp
  next
    case False
    then show ?thesis using ok disk_ok_delete by blast
  qed
  have l1: "fs_lookup ?d1 r = (if r = ?q then None else fs_lookup d r)" for r by simp
  have npq: "\<not> prefix ?p ?q" "\<not> prefix ?q ?p" using ne by auto
  have l2: "fs_lookup ?d2 r = (if prefix ?q r then fs_lookup ?d1 (?p @ drop 2 r)
      else if prefix ?p r then None else fs_lookup ?d1 r)" for r
    using lookup_rename_ok [OF ok1 _ _ _ npq, of r] by (simp add: numeral_2_eq_2)
  have "disk_ok ?d2"
  proof (rule disk_ok_rename [OF ok1 _ _ _ _ npq])
    show "shape (?q @ r) = Some k" if "shape (?p @ r) = Some k" for r k
      using that g(3) flat_not_nested(1) [OF g(3)] by (cases "?p @ r" rule: shape.cases) (auto split: if_splits)
  qed (use sp ne par pl in \<open>auto simp: governed_def\<close>)
  moreover have "contents ?d2 r = (if r = ?q then Some b else if r = ?p then None else contents d r)" for r
  proof -
    have deep: "fs_lookup d (?p @ x # xs) = None" "fs_lookup d (?q @ x # xs) = None" for x xs
      using fs_ok_above [OF fs, of "?p @ x # xs" _ ?p] fs_ok_above [OF fs, of "?q @ x # xs" _ ?q] sp q
      by (cases "fs_lookup d (?p @ x # xs)"; cases "fs_lookup d (?q @ x # xs)"; force simp: strict_prefix_def)+
    show ?thesis
    proof (cases "prefix ?q r \<or> prefix ?p r")
      case True
      then obtain s where "r = ?q @ s \<or> r = ?p @ s" by (auto simp: prefix_def)
      then show ?thesis using sp ne deep by (cases s) (auto simp: contents_def l2)
    next
      case False
      then show ?thesis by (auto simp: contents_def l2)
    qed
  qed
  moreover have "others [t] d ?d2" by (auto simp: others_def agree_def l2)
  ultimately show ?thesis using ren by blast
qed

lemma meta_rename_step:
  assumes ok: "store_ok X B M d" and v: "valid_pot old" "valid_pot new" and ne: "old \<noteq> new"
  shows "\<exists>d'. meta_rename_bucket X old new d = (Inr (), d') \<and> store_ok X B M d' \<and> others [meta_dir] d d' \<and>
     extends X d d' \<and>
     (meta_exists X d old \<longrightarrow> meta_config X d' new = meta_config X d old) \<and>
     (\<forall>q. contents d' q \<noteq> None \<longrightarrow> contents d q \<noteq> None \<or> q = meta_path X new)"
proof -
  note S = store_okD [OF ok]
  have g: "good (meta_path X old)" "good (meta_path X new)" using S(7) v by (simp_all add: good_meta)
  have ex: "fs_exists d (meta_path X old) \<longleftrightarrow> contents d (meta_path X old) \<noteq> None"
    by (rule exists_good [OF S(5) g(1)])
  show ?thesis
  proof (cases "contents d (meta_path X old)")
    case None
    then show ?thesis using ok ex by (simp add: meta_rename_bucket_def meta_exists_def)
  next
    case (Some b)
    have "hex_encode X (as_bytes old) @ ''.json'' \<noteq> hex_encode X (as_bytes new) @ ''.json''"
      using meta_path_inj [OF S(7), of old new] ne by (simp add: meta_path_def)
    from rename_flat [OF S(5) g [unfolded meta_path_def] _ this Some [unfolded meta_path_def]]
    obtain d' where d': "rename d (meta_path X old) (meta_path X new) = Inr d'" "disk_ok d'"
      "\<forall>q. contents d' q = (if q = meta_path X new then Some b else if q = meta_path X old then None else contents d q)"
      "others [meta_dir] d d'"
      by (auto simp: meta_path_def)
    have "side_ok X d'" using S(4) Some d'(3) by (auto simp: side_ok_def meta_path_def)
    moreover have "others flat_dirs d d'" using others_mono [OF d'(4)] by simp
    ultimately have w: "store_ok X B M d'" "extends X d d'" using side_change [OF ok d'(2)] by auto
    have f: "flat_ok X d'" using S d'(2) by (simp add: flat_ok_def)
    have "meta_config X d' new = meta_config X d old"
      using meta_config_eq [OF f v(2)] meta_config_eq [OF S(9) v(1)] d'(3) Some by simp
    with d'(1,3,4) w Some ex show ?thesis by (auto simp: meta_rename_bucket_def)
  qed
qed

end
