(* ===== verification/Engine_Laws.thy ===== *)
theory Engine_Laws
  imports Engine_Admin
begin

text \<open>
  What the engine's operations guarantee together: locks, deletion and version restore, lifecycle
  rules, imports, and the garbage collector seen from the engine.
\<close>

section \<open>Locks\<close>

lemma ensure_unlocked_eq:
  assumes "store_ok X B M (disk e)" "valid_object (b, k)"
  shows "\<exists>a. annotation_get X (disk e) (b, k) = Inr a \<and>
     ensure_unlocked X b k now e =
       (case locked_until a of
          None \<Rightarrow> Inr ()
        | Some u \<Rightarrow>
            (case parse_rfc3339_secs X u of
               None \<Rightarrow> Inr ()
             | Some secs \<Rightarrow> if now < secs then Inl (Locked b k u) else Inr ()))"
proof -
  note S = store_okD [OF assms(1)]
  have "\<exists>a. annotation_get X (disk e) (b, k) = Inr a"
    using annotation_get_eq [OF S(9) assms(2)] S(4)
    by (cases "contents (disk e) (annotation_path X (b, k))")
      (auto simp: side_ok_def annotation_path_def)
  then show ?thesis by (auto simp: ensure_unlocked_def)
qed

lemma validate_key_object: "validate_key b k = Inr () \<Longrightarrow> valid_object (b, k)"
  by (rule validate_key_valid)

text \<open>Every operation that checks the lock stops there, before any change.\<close>

lemma locked_ops:
  assumes "ensure_unlocked X b k now e = Inl err"
  shows "delete_object X b k now e = (Inl err, e)"
    "restore_version X b k i now e = (Inl err, e)"
    "import_object X b k m now e = (Inl err, e)"
    "validate_key b k = Inr () \<Longrightarrow> put X b k data ct now t e = (Inl err, e)"
    "validate_key b k = Inr () \<Longrightarrow> put_stream X b k r ct limit now t e = (Inl err, e)"
    "validate_key b k = Inr () \<Longrightarrow> create_multipart X b k ct now e = (Inl err, e)"
  using assms
  by (simp_all add: delete_object_def restore_version_def import_object_def put_def put_stream_def
      create_multipart_def)

section \<open>Deleting and restoring\<close>

lemma on_disk_eq: "f (disk e) = (r, d) \<Longrightarrow> on_disk f e = (map_err EStore r, e\<lparr>disk := d\<rparr>)"
  by (simp add: on_disk_def)

lemma on_disk_snd: "snd (on_disk f e) = e\<lparr>disk := snd (f (disk e))\<rparr>"
  by (simp add: on_disk_def split: prod.split)

lemma delete_ok:
  assumes ok: "store_ok X B M (disk e)" and v: "valid_bucket b" "valid_key k"
    and u: "ensure_unlocked X b k now e = Inr ()"
  shows "\<exists>d. delete_object X b k now e = (Inr (), e\<lparr>disk := d\<rparr>) \<and> store_ok X B M d \<and>
     others [pointer_dir] (disk e) d \<and> extends X (disk e) d \<and>
     (\<forall>c j. log_at X d c j = (if c = b \<and> j = k then [] else log_at X (disk e) c j))"
  using pointer_remove_step [OF ok v] u by (auto simp: delete_object_def on_disk_eq)

lemma fetch_manifest_Inr: "fetch_manifest X e i = Inr m \<longleftrightarrow> manifest_get X (disk e) i = Inr (Some m)"
  by (auto simp: fetch_manifest_def result_simps)

lemma restore_ok:
  assumes ok: "store_ok X B M (disk e)" and v: "valid_bucket b" "valid_key k"
    and u: "ensure_unlocked X b k now e = Inr ()" and m: "manifest_get X (disk e) i = Inr (Some m)"
  shows "\<exists>d. restore_version X b k i now e = (Inr (), e\<lparr>disk := d\<rparr>) \<and> store_ok X B M d \<and>
     others [pointer_dir, reverse_dir] (disk e) d \<and> extends X (disk e) d \<and>
     (\<forall>c j. log_at X d c j =
        (if c = b \<and> j = k then log_at X (disk e) b k @ [i] else log_at X (disk e) c j))"
proof -
  have wf: "hash_wf i" using manifest_get_hash_wf [OF store_okD(6) [OF ok] m] .
  from pointer_set_step [OF ok v wf] obtain d1 where 1: "pointer_set X b k i (disk e) = (Inr (), d1)"
    "store_ok X B M d1" "others [pointer_dir] (disk e) d1" "extends X (disk e) d1"
    "\<forall>c j. log_at X d1 c j = (if c = b \<and> j = k then log_at X (disk e) b k @ [i] else log_at X (disk e) c j)"
    by blast
  from reverse_add_step [OF 1(2) wf] obtain d2 where 2: "reverse_add X i b k d1 = (Inr (), d2)"
    "store_ok X B M d2" "others [reverse_dir] d1 d2" "extends X d1 d2" by blast
  have run: "restore_version X b k i now e = (Inr (), e\<lparr>disk := d2\<rparr>)"
    using u m 1(1) 2(1) by (simp add: restore_version_def fetch_manifest_def on_disk_eq)
  have "others [pointer_dir, reverse_dir] (disk e) d2"
    by (rule others_trans [OF others_mono [OF 1(3)] others_mono [OF 2(3)]]) auto
  moreover have "log_at X d2 c j = log_at X d1 c j" for c j
    using others_agree [OF 2(3), THEN log_at_agree, of X c j] by simp
  ultimately show ?thesis using run 1(5) 2(2) extends_trans [OF 1(4) 2(4)] by auto
qed

section \<open>Lifecycle\<close>

text \<open>The rules of a pot, and what they leave of one version log.\<close>

definition keep_of :: "bucket_config \<Rightarrow> nat" where
  "keep_of c = (case max_versions c of None \<Rightarrow> 0 | Some n \<Rightarrow> n)"

definition days_of :: "bucket_config \<Rightarrow> nat" where
  "days_of c = (case expire_after_days c of None \<Rightarrow> 0 | Some n \<Rightarrow> n)"

text \<open>Whether the newest version of \<open>log\<close> is older than \<open>days\<close>, as far as its manifest can be read.\<close>

definition too_old :: "ext \<Rightarrow> fs \<Rightarrow> nat \<Rightarrow> nat \<Rightarrow> hash list \<Rightarrow> bool" where
  "too_old X d days now log \<longleftrightarrow>
     0 < days \<and> log \<noteq> [] \<and>
     (\<exists>m s. manifest_get X d (last log) = Inr (Some m) \<and> parse_rfc3339_secs X (created_at m) = Some s \<and>
            days * 86400 < now - s)"

definition after_lifecycle :: "ext \<Rightarrow> fs \<Rightarrow> bucket_config \<Rightarrow> nat \<Rightarrow> hash list \<Rightarrow> hash list" where
  "after_lifecycle X d cfg now log =
     (if too_old X d (days_of cfg) now log then []
      else if 0 < keep_of cfg then drop (length log - keep_of cfg) log else log)"

text \<open>Every version named by a pointer has its manifest.\<close>

definition manifests_present :: "ext \<Rightarrow> fs \<Rightarrow> bool" where
  "manifests_present X d \<longleftrightarrow> (\<forall>i \<in> versions X d. \<exists>m. manifest_get X d i = Inr (Some m))"

lemma expired_eq:
  assumes ok: "store_ok X B M (disk e)" and v: "valid_bucket b" "valid_key k"
    and m: "log_at X (disk e) b k \<noteq> [] \<Longrightarrow>
              \<exists>m. manifest_get X (disk e) (last (log_at X (disk e) b k)) = Inr (Some m)"
    and days: "0 < days"
  shows "expired X b k days now e = Inr (too_old X (disk e) days now (log_at X (disk e) b k))"
  using eng_current_eq [OF ok v] m days
  by (cases "log_at X (disk e) b k = []")
    (auto simp: expired_def current_manifest_def too_old_def fetch_manifest_def split: option.split)

lemma lifecycle_key_ok:
  assumes ok: "store_ok X B M (disk e)" and v: "valid_bucket b" "valid_key k"
    and m: "log_at X (disk e) b k \<noteq> [] \<Longrightarrow>
              \<exists>m. manifest_get X (disk e) (last (log_at X (disk e) b k)) = Inr (Some m)"
  shows "\<exists>d. lifecycle_key X b (keep_of cfg) (days_of cfg) now k e = (Inr (), e\<lparr>disk := d\<rparr>) \<and>
     store_ok X B M d \<and> others [pointer_dir] (disk e) d \<and>
     (\<forall>c j. log_at X d c j =
        (if c = b \<and> j = k then after_lifecycle X (disk e) cfg now (log_at X (disk e) b k)
         else log_at X (disk e) c j))"
proof -
  let ?old = "too_old X (disk e) (days_of cfg) now (log_at X (disk e) b k)"
  have ex: "(if 0 < days_of cfg then expired X b k (days_of cfg) now e else Inr False) = Inr ?old"
    using expired_eq [OF ok v m, of "days_of cfg" now] by (auto simp: too_old_def)
  consider (gone) "?old" | (trim) "\<not> ?old" "0 < keep_of cfg" | (keep) "\<not> ?old" "keep_of cfg = 0" by blast
  then show ?thesis
  proof cases
    case gone
    with pointer_remove_step [OF ok v] ex show ?thesis
      by (auto simp: lifecycle_key_def on_disk_eq after_lifecycle_def)
  next
    case trim
    with pointer_trim_step [OF ok v trim(2)] ex show ?thesis
      by (auto simp: lifecycle_key_def on_disk_eq after_lifecycle_def)
  next
    case keep
    with ok ex show ?thesis by (auto simp: lifecycle_key_def after_lifecycle_def intro!: exI [of _ "disk e"])
  qed
qed

lemma after_lifecycle_Nil [simp]: "after_lifecycle X d cfg now [] = []"
  by (simp add: after_lifecycle_def too_old_def)

lemma after_lifecycle_no_rules:
  "keep_of cfg = 0 \<Longrightarrow> days_of cfg = 0 \<Longrightarrow> after_lifecycle X d cfg now log = log"
  by (simp add: after_lifecycle_def too_old_def)

text \<open>Pointer changes do not alter what the rules read from manifests and configurations.\<close>

lemma pointer_only:
  assumes ok: "store_ok X B M d" "store_ok X B M d'" and o: "others [pointer_dir] d d'"
  shows "hash_wf i \<Longrightarrow> manifest_get X d' i = manifest_get X d i"
    "valid_pot b \<Longrightarrow> meta_config X d' b = meta_config X d b"
    "log \<noteq> [] \<Longrightarrow> list_all hash_wf log \<Longrightarrow> after_lifecycle X d' cfg now log = after_lifecycle X d cfg now log"
proof -
  note S = store_okD [OF ok(1)] and S' = store_okD [OF ok(2)]
  have ag: "agree t d d'" if "t \<noteq> pointer_dir" for t using o that by (simp add: others_def)
  show m: "hash_wf i \<Longrightarrow> manifest_get X d' i = manifest_get X d i" for i
    using manifest_get_agree [OF S(7,5) S'(5) ag] by simp
  show "valid_pot b \<Longrightarrow> meta_config X d' b = meta_config X d b"
    using meta_config_eq [OF S(9)] meta_config_eq [OF S'(9)] agree_contents [OF ag, of meta_dir]
    by (simp add: meta_path_def)
  show "after_lifecycle X d' cfg now log = after_lifecycle X d cfg now log" if "log \<noteq> []" "list_all hash_wf log"
    using that m [of "last log"] by (simp add: after_lifecycle_def too_old_def list_all_iff)
qed

definition newest_present :: "ext \<Rightarrow> fs \<Rightarrow> bool" where
  "newest_present X d \<longleftrightarrow>
     (\<forall>b k. valid_bucket b \<longrightarrow> valid_key k \<longrightarrow> log_at X d b k \<noteq> [] \<longrightarrow>
        (\<exists>m. manifest_get X d (last (log_at X d b k)) = Inr (Some m)))"

lemma after_lifecycle_last:
  "after_lifecycle X d cfg now log \<noteq> [] \<Longrightarrow> last (after_lifecycle X d cfg now log) = last log"
  by (auto simp: after_lifecycle_def last_drop split: if_splits)

lemma newest_present_step:
  assumes ok: "store_ok X B M d" "store_ok X B M d'" and o: "others [pointer_dir] d d'"
    and log: "\<And>c j. log_at X d' c j = log_at X d c j \<or>
                     (\<exists>cfg. log_at X d' c j = after_lifecycle X d cfg now (log_at X d c j))"
    and new: "newest_present X d"
  shows "newest_present X d'"
  unfolding newest_present_def
proof (intro allI impI)
  fix b k assume v: "valid_bucket b" "valid_key k" and ne: "log_at X d' b k \<noteq> []"
  then have same: "last (log_at X d' b k) = last (log_at X d b k)" "log_at X d b k \<noteq> []"
    using log [of b k] after_lifecycle_last by (metis, metis after_lifecycle_Nil)
  have "hash_wf (last (log_at X d b k))"
    using history_eq(2) [OF store_okD(3) [OF ok(1)] v] same(2) by (simp add: list_all_iff)
  then show "\<exists>m. manifest_get X d' (last (log_at X d' b k)) = Inr (Some m)"
    using new v same pointer_only(1) [OF ok o] by (auto simp: newest_present_def)
qed

lemma lifecycle_keys_ok:
  assumes "store_ok X B M (disk e)" "valid_bucket b" "newest_present X (disk e)"
    and "list_all valid_key ks" "distinct ks"
  shows "\<exists>d. lifecycle_keys X b (keep_of cfg) (days_of cfg) now ks e = (Inr (), e\<lparr>disk := d\<rparr>) \<and>
     store_ok X B M d \<and> others [pointer_dir] (disk e) d \<and> newest_present X d \<and>
     (\<forall>c j. log_at X d c j =
        (if c = b \<and> j \<in> set ks then after_lifecycle X (disk e) cfg now (log_at X (disk e) b j)
         else log_at X (disk e) c j))"
  using assms(1,3-5)
proof (induction ks arbitrary: e)
  case Nil
  then show ?case by (auto intro!: exI [of _ "disk e"])
next
  case (Cons k ks)
  from Cons.prems have k: "valid_key k" "k \<notin> set ks" "list_all valid_key ks" "distinct ks" by auto
  have m: "log_at X (disk e) b k \<noteq> [] \<Longrightarrow> \<exists>m. manifest_get X (disk e) (last (log_at X (disk e) b k)) = Inr (Some m)"
    using Cons.prems(2) assms(2) k(1) by (simp add: newest_present_def)
  from lifecycle_key_ok [OF Cons.prems(1) assms(2) k(1) m] obtain d1 where
    1: "lifecycle_key X b (keep_of cfg) (days_of cfg) now k e = (Inr (), e\<lparr>disk := d1\<rparr>)"
      "store_ok X B M d1" "others [pointer_dir] (disk e) d1"
      "\<forall>c j. log_at X d1 c j = (if c = b \<and> j = k
          then after_lifecycle X (disk e) cfg now (log_at X (disk e) b k) else log_at X (disk e) c j)"
    by blast
  have new1: "newest_present X d1"
    by (rule newest_present_step [OF Cons.prems(1) 1(2,3) _ Cons.prems(2), of now]) (use 1(4) in auto)
  from Cons.IH [of "e\<lparr>disk := d1\<rparr>"] 1(2) new1 k(3,4) obtain d2 where
    2: "lifecycle_keys X b (keep_of cfg) (days_of cfg) now ks (e\<lparr>disk := d1\<rparr>) = (Inr (), e\<lparr>disk := d2\<rparr>)"
      "store_ok X B M d2" "others [pointer_dir] d1 d2" "newest_present X d2"
      "\<forall>c j. log_at X d2 c j = (if c = b \<and> j \<in> set ks
          then after_lifecycle X d1 cfg now (log_at X d1 b j) else log_at X d1 c j)"
    by auto
  have "log_at X d2 c j = (if c = b \<and> j \<in> set (k # ks)
      then after_lifecycle X (disk e) cfg now (log_at X (disk e) b j) else log_at X (disk e) c j)" for c j
  proof (cases "c = b \<and> j \<in> set ks")
    case True
    then have v: "valid_key j" "j \<noteq> k" using k by (auto simp: list_all_iff)
    have wf: "list_all hash_wf (log_at X (disk e) b j)"
      by (rule history_eq(2) [OF store_okD(3) [OF Cons.prems(1)] assms(2) v(1)])
    show ?thesis
      using True v 1(4) 2(5) pointer_only(3) [OF Cons.prems(1) 1(2,3) _ wf]
      by (cases "log_at X (disk e) b j = []") auto
  next
    case False
    then show ?thesis using 1(4) 2(5) by auto
  qed
  with 1(1) 2(1,2,4) others_trans [OF 1(3) 2(3)] show ?case by auto
qed

definition pot_rules :: "ext \<Rightarrow> fs \<Rightarrow> string \<Rightarrow> bucket_config" where
  "pot_rules X d b = (case meta_config X d b of Inl err \<Rightarrow> bucket_config_default | Inr cfg \<Rightarrow> cfg)"

lemma meta_config_total:
  assumes "store_ok X B M d" "valid_pot b"
  shows "meta_config X d b = Inr (pot_rules X d b)"
proof -
  note S = store_okD [OF assms(1)]
  have "\<exists>cfg. meta_config X d b = Inr cfg"
    using meta_config_eq [OF S(9) assms(2)] S(4)
    by (cases "contents d (meta_path X b)") (auto simp: side_ok_def meta_path_def)
  then show ?thesis by (auto simp: pot_rules_def)
qed

lemma lifecycle_pots_ok:
  assumes "store_ok X B M (disk e)" "newest_present X (disk e)"
    and "list_all (\<lambda>b. valid_bucket b \<and> valid_pot b) bs" "distinct bs"
  shows "\<exists>d. lifecycle_pots X now bs e = (Inr (), e\<lparr>disk := d\<rparr>) \<and>
     store_ok X B M d \<and> others [pointer_dir] (disk e) d \<and>
     (\<forall>c j. valid_key j \<longrightarrow> log_at X d c j =
        (if c \<in> set bs then after_lifecycle X (disk e) (pot_rules X (disk e) c) now (log_at X (disk e) c j)
         else log_at X (disk e) c j))"
  using assms
proof (induction bs arbitrary: e)
  case Nil
  then show ?case by (auto intro!: exI [of _ "disk e"])
next
  case (Cons b bs)
  from Cons.prems have b: "valid_bucket b" "valid_pot b" "b \<notin> set bs" by auto
  let ?cfg = "pot_rules X (disk e) b"
  have cfg: "get_bucket_config X e b = Inr ?cfg"
    using meta_config_total [OF Cons.prems(1) b(2)] by (simp add: get_bucket_config_def)
  from pointer_list_ok [OF store_okD(3) [OF Cons.prems(1)] b(1)] obtain ks where
    ks: "keys X e b = Inr ks" "distinct ks" "set ks = {k. valid_key k \<and> contents (disk e) (pointer_file X b k) \<noteq> None}"
    by (auto simp: keys_def)
  then have kv: "list_all valid_key ks" by (auto simp: list_all_iff)
  let ?step = "if keep_of ?cfg = 0 \<and> days_of ?cfg = 0 then (Inr (), e)
      else and_then (keys X e b, e) (\<lambda>ks e. lifecycle_keys X b (keep_of ?cfg) (days_of ?cfg) now ks e)"
  obtain d1 where 1: "?step = (Inr (), e\<lparr>disk := d1\<rparr>)" "store_ok X B M d1" "others [pointer_dir] (disk e) d1"
    "newest_present X d1"
    "\<And>c j. valid_key j \<Longrightarrow> log_at X d1 c j = (if c = b
        then after_lifecycle X (disk e) ?cfg now (log_at X (disk e) b j) else log_at X (disk e) c j)"
  proof (cases "keep_of ?cfg = 0 \<and> days_of ?cfg = 0")
    case True
    then show thesis using Cons.prems(1,2) after_lifecycle_no_rules [of ?cfg X "disk e" now]
      by (intro that [of "disk e"]) auto
  next
    case False
    from lifecycle_keys_ok [OF Cons.prems(1) b(1) Cons.prems(2) kv ks(2), of ?cfg now] obtain d1 where
      d1: "lifecycle_keys X b (keep_of ?cfg) (days_of ?cfg) now ks e = (Inr (), e\<lparr>disk := d1\<rparr>)"
        "store_ok X B M d1" "others [pointer_dir] (disk e) d1" "newest_present X d1"
        "\<forall>c j. log_at X d1 c j = (if c = b \<and> j \<in> set ks
            then after_lifecycle X (disk e) ?cfg now (log_at X (disk e) b j) else log_at X (disk e) c j)" by blast
    have "log_at X d1 c j = (if c = b
        then after_lifecycle X (disk e) ?cfg now (log_at X (disk e) b j) else log_at X (disk e) c j)"
      if "valid_key j" for c j
      using d1(5) that ks(3) log_at_None [of X "disk e" b j] by (cases "log_at X (disk e) b j = []") auto
    with d1 False ks(1) show thesis by (intro that [of d1]) auto
  qed
  from Cons.IH [of "e\<lparr>disk := d1\<rparr>"] 1(2,4) Cons.prems(3,4) obtain d2 where
    2: "lifecycle_pots X now bs (e\<lparr>disk := d1\<rparr>) = (Inr (), e\<lparr>disk := d2\<rparr>)"
      "store_ok X B M d2" "others [pointer_dir] d1 d2"
      "\<forall>c j. valid_key j \<longrightarrow> log_at X d2 c j =
        (if c \<in> set bs then after_lifecycle X d1 (pot_rules X d1 c) now (log_at X d1 c j) else log_at X d1 c j)"
    by auto
  have run: "lifecycle_pots X now (b # bs) e = (Inr (), e\<lparr>disk := d2\<rparr>)"
  proof -
    have "lifecycle_pots X now (b # bs) e = and_then ?step (\<lambda>_ e. lifecycle_pots X now bs e)"
      using cfg by (simp only: lifecycle_pots.simps and_then.simps Let_def keep_of_def days_of_def)
    then show ?thesis by (simp only: 1(1) 2(1) and_then.simps)
  qed
  have "log_at X d2 c j =
      (if c \<in> set (b # bs) then after_lifecycle X (disk e) (pot_rules X (disk e) c) now (log_at X (disk e) c j)
       else log_at X (disk e) c j)" if j: "valid_key j" for c j
  proof (cases "c \<in> set bs")
    case True
    then have v: "valid_bucket c" "valid_pot c" "c \<noteq> b" using Cons.prems(3) b(3) by (auto simp: list_all_iff)
    have wf: "list_all hash_wf (log_at X (disk e) c j)"
      by (rule history_eq(2) [OF store_okD(3) [OF Cons.prems(1)] v(1) j])
    have "pot_rules X d1 c = pot_rules X (disk e) c"
      using pointer_only(2) [OF Cons.prems(1) 1(2,3) v(2)] by (simp add: pot_rules_def)
    then show ?thesis
      using True v j 1(5) 2(4) pointer_only(3) [OF Cons.prems(1) 1(2,3) _ wf]
      by (cases "log_at X (disk e) c j = []") auto
  next
    case False
    then show ?thesis using j 1(5) 2(4) by auto
  qed
  with run 2(2) others_trans [OF 1(3) 2(3)] show ?case by blast
qed

lemma enforce_lifecycle_ok:
  assumes ok: "store_ok X B M (disk e)" and new: "newest_present X (disk e)"
    and pots: "\<forall>b. fs_lookup (disk e) [pointer_dir, b] = Some Dir \<longrightarrow> valid_pot b"
  shows "\<exists>d. enforce_lifecycle X now e = (Inr (), e\<lparr>disk := d\<rparr>) \<and> store_ok X B M d \<and>
     others [pointer_dir] (disk e) d \<and>
     (\<forall>b k. valid_bucket b \<longrightarrow> valid_key k \<longrightarrow>
        log_at X d b k = after_lifecycle X (disk e) (pot_rules X (disk e) b) now (log_at X (disk e) b k))"
proof -
  note P = store_okD(3) [OF ok]
  from pointer_buckets_ok [OF P] obtain bs where bs: "buckets e = Inr bs" "distinct bs"
    "set bs = {b. fs_lookup (disk e) [pointer_dir, b] = Some Dir}" by (auto simp: buckets_def)
  have v: "list_all (\<lambda>b. valid_bucket b \<and> valid_pot b) bs"
    using bs(3) pots pointers_okD(4) [OF P] by (auto simp: list_all_iff)
  from lifecycle_pots_ok [OF ok new v bs(2), of now] obtain d where
    d: "lifecycle_pots X now bs e = (Inr (), e\<lparr>disk := d\<rparr>)" "store_ok X B M d" "others [pointer_dir] (disk e) d"
      "\<forall>c j. valid_key j \<longrightarrow> log_at X d c j =
        (if c \<in> set bs then after_lifecycle X (disk e) (pot_rules X (disk e) c) now (log_at X (disk e) c j)
         else log_at X (disk e) c j)" by blast
  have "log_at X (disk e) b k = []" if "b \<notin> set bs" for b k
  proof (rule ccontr)
    assume "log_at X (disk e) b k \<noteq> []"
    from log_at_None [OF this] obtain c where "contents (disk e) [pointer_dir, b, hex_encode X (as_bytes k)] = Some c"
      by (auto simp: pointer_file_def)
    with pointers_okD(3) [OF P] bs(3) that show False by (auto dest: disk_ok_parent)
  qed
  with d bs(1) show ?thesis by (auto simp: enforce_lifecycle_def)
qed

section \<open>Imports\<close>

lemma find_None: "List.find P xs = None \<longleftrightarrow> (\<forall>x \<in> set xs. \<not> P x)"
  by (induction xs) auto

lemma import_ok:
  assumes ok: "store_ok X B M (disk e)" and v: "valid_bucket b" "valid_key k"
    and u: "ensure_unlocked X b k now e = Inr ()"
    and cs: "\<forall>h \<in> set (chunks (chunking m)). has_chunk X e h"
    and r: "merkle_root (chunking m) = None \<or> merkle_root (chunking m) = Some (root X (chunks (chunking m)))"
    and m: "manifest_storable X M m" "object_id m = manifest_id X m"
  shows "\<exists>d. import_object X b k m now e = (Inr (object_id m), e\<lparr>disk := d\<rparr>) \<and> store_ok X B M d \<and>
     others [manifest_dir, pointer_dir, reverse_dir] (disk e) d \<and> extends X (disk e) d \<and>
     manifest_get X d (object_id m) = Inr (Some m) \<and>
     (\<forall>c j. log_at X d c j =
        (if c = b \<and> j = k then log_at X (disk e) b k @ [object_id m] else log_at X (disk e) c j))"
proof -
  let ?i = "manifest_id X m"
  have wf: "hash_wf ?i" using store_okD(6) [OF ok] by simp
  have self: "with_id X m = m" using m(2) by (simp add: with_id_def flip: m(2))
  from manifest_put_step [OF ok m(1)] obtain d1 where 1: "manifest_put X m (disk e) = (Inr ?i, d1)"
    "store_ok X B M d1" "others [manifest_dir] (disk e) d1" "extends X (disk e) d1"
    "manifest_get X d1 ?i = Inr (Some m)" unfolding self by blast
  from pointer_set_step [OF 1(2) v wf] obtain d2 where 2: "pointer_set X b k ?i d1 = (Inr (), d2)"
    "store_ok X B M d2" "others [pointer_dir] d1 d2" "extends X d1 d2"
    "\<forall>c j. log_at X d2 c j = (if c = b \<and> j = k then log_at X d1 b k @ [?i] else log_at X d1 c j)" by blast
  from reverse_add_step [OF 2(2) wf] obtain d3 where 3: "reverse_add X ?i b k d2 = (Inr (), d3)"
    "store_ok X B M d3" "others [reverse_dir] d2 d3" "extends X d2 d3" by blast
  have fnd: "List.find (\<lambda>h. \<not> chunk_has X (disk e) h) (chunks (chunking m)) = None"
    using cs by (simp add: find_None has_chunk_def)
  have good: "\<not> (case merkle_root (chunking m) of None \<Rightarrow> False | Some r \<Rightarrow> r \<noteq> root X (chunks (chunking m)))"
    using r by auto
  have run: "import_object X b k m now e = (Inr (object_id m), e\<lparr>disk := d3\<rparr>)"
    using u fnd good 1(1) 2(1) 3(1) m(2) by (simp add: import_object_def on_disk_eq)
  have o: "others [manifest_dir, pointer_dir, reverse_dir] (disk e) d3"
    by (rule others_trans [OF others_trans [OF others_mono [OF 1(3)] others_mono [OF 2(3)]] others_mono [OF 3(3)]]) auto
  have "log_at X d3 c j = log_at X d2 c j" "log_at X d1 c j = log_at X (disk e) c j" for c j
    using others_agree [OF 3(3), THEN log_at_agree] others_agree [OF 1(3), THEN log_at_agree] by simp_all
  moreover have "manifest_get X d3 ?i = Inr (Some m)" using 1(5) 2(4) 3(4) by (auto simp: extends_def)
  ultimately show ?thesis using run 3(2) o 2(5) m(2) extends_trans [OF extends_trans [OF 1(4) 2(4)] 3(4)]
    by auto
qed

text \<open>On any disk: an import that succeeds has checked everything it promises to check.\<close>

lemma import_checked:
  assumes "import_object X b k m now e = (Inr i, e')"
  shows "ensure_unlocked X b k now e = Inr ()" "\<forall>h \<in> set (chunks (chunking m)). has_chunk X e h"
    "merkle_root (chunking m) \<noteq> None \<Longrightarrow> merkle_root (chunking m) = Some (root X (chunks (chunking m)))"
    "i = object_id m" "i = manifest_id X m"
proof -
  have *: "ensure_unlocked X b k now e = Inr () \<and> (\<forall>h \<in> set (chunks (chunking m)). has_chunk X e h) \<and>
     (merkle_root (chunking m) \<noteq> None \<longrightarrow> merkle_root (chunking m) = Some (root X (chunks (chunking m)))) \<and>
     i = object_id m \<and> (\<exists>d. fst (manifest_put X m d) = Inr i)"
    using assms unfolding import_object_def
    by (auto elim!: and_thenE simp: find_None has_chunk_def on_disk_Inr_iff split: option.splits if_splits)
       (metis fst_conv)+
  then obtain d where "fst (manifest_put X m d) = Inr i" by blast
  then obtain d' where "manifest_put X m d = (Inr i, d')" by (cases "manifest_put X m d") auto
  then have "i = manifest_id X m"
    by (auto simp: manifest_put_def Let_def elim!: and_thenE split: if_splits)
  with * show "ensure_unlocked X b k now e = Inr ()" "\<forall>h \<in> set (chunks (chunking m)). has_chunk X e h"
    "merkle_root (chunking m) \<noteq> None \<Longrightarrow> merkle_root (chunking m) = Some (root X (chunks (chunking m)))"
    "i = object_id m" "i = manifest_id X m" by auto
qed

section \<open>Garbage collection\<close>

lemma gc_sweep_ok:
  assumes ok: "store_ok X B M (disk e)" and reach: "reach = set (pinned e) \<union> referenced X (disk e)"
  shows "\<exists>n e'. gc_sweep X now grace e = (Inr n, e') \<and> store_ok X B M (disk e') \<and>
     others [chunk_dir] (disk e) (disk e') \<and> pinned e' = pinned e \<and> multipart e' = multipart e \<and>
     (\<forall>h. hash_wf h \<longrightarrow> chunk_at X (disk e') h =
        (if doomed reach now grace (condemned_at X (disk e)) h then None else chunk_at X (disk e) h)) \<and>
     (\<forall>h. hash_wf h \<longrightarrow> map_of (condemned_at X (disk e')) h =
        (if chunk_at X (disk e) h \<noteq> None then stamp_after reach now grace (condemned_at X (disk e)) h
         else map_of (condemned_at X (disk e)) h)) \<and>
     sw_erased n = card {h. hash_wf h \<and> chunk_at X (disk e) h \<noteq> None \<and>
                            doomed reach now grace (condemned_at X (disk e)) h} \<and>
     gc_sweeps e' = gc_sweeps e + 1 \<and> gc_erased_total e' = gc_erased_total e + word_of_nat (sw_erased n)"
proof -
  from sweep_ok [OF ok reach, of now grace] obtain n d where s:
    "sweep X (pinned e) now grace (disk e) = (Inr n, d)" "store_ok X B M d"
    "\<forall>h. hash_wf h \<longrightarrow> chunk_at X d h =
        (if doomed reach now grace (condemned_at X (disk e)) h then None else chunk_at X (disk e) h)"
    "\<forall>h. hash_wf h \<longrightarrow> map_of (condemned_at X d) h =
        (if chunk_at X (disk e) h \<noteq> None then stamp_after reach now grace (condemned_at X (disk e)) h
         else map_of (condemned_at X (disk e)) h)"
    "\<forall>t. t \<noteq> chunk_dir \<longrightarrow> agree t (disk e) d"
    "sw_erased n = card {h. hash_wf h \<and> chunk_at X (disk e) h \<noteq> None \<and>
                            doomed reach now grace (condemned_at X (disk e)) h}"
    by (elim exE conjE) (rule that)
  show ?thesis
    using s by (auto simp: gc_sweep_def on_disk_eq others_def)
qed

lemma gc_sweep_run:
  assumes ok: "store_ok X B M (disk e)" and run: "gc_sweep X now grace e = (r, e')"
  defines "reach \<equiv> set (pinned e) \<union> referenced X (disk e)"
  shows "store_ok X B M (disk e')" "others [chunk_dir] (disk e) (disk e')" "pinned e' = pinned e"
    "multipart e' = multipart e"
    "hash_wf h \<Longrightarrow> chunk_at X (disk e') h =
        (if doomed reach now grace (condemned_at X (disk e)) h then None else chunk_at X (disk e) h)"
    "hash_wf h \<Longrightarrow> map_of (condemned_at X (disk e')) h =
        (if chunk_at X (disk e) h \<noteq> None then stamp_after reach now grace (condemned_at X (disk e)) h
         else map_of (condemned_at X (disk e)) h)"
proof -
  have rd: "reach = set (pinned e) \<union> referenced X (disk e)" by (simp add: reach_def)
  from gc_sweep_ok [OF ok rd, of now grace] obtain n e1 where s: "gc_sweep X now grace e = (Inr n, e1)"
    "store_ok X B M (disk e1)" "others [chunk_dir] (disk e) (disk e1)" "pinned e1 = pinned e"
    "multipart e1 = multipart e"
    "\<forall>h. hash_wf h \<longrightarrow> chunk_at X (disk e1) h =
        (if doomed reach now grace (condemned_at X (disk e)) h then None else chunk_at X (disk e) h)"
    "\<forall>h. hash_wf h \<longrightarrow> map_of (condemned_at X (disk e1)) h =
        (if chunk_at X (disk e) h \<noteq> None then stamp_after reach now grace (condemned_at X (disk e)) h
         else map_of (condemned_at X (disk e)) h)"
    by (elim exE conjE) (rule that)
  from s(1) run have "e' = e1" by simp
  with s(2-) show "store_ok X B M (disk e')" "others [chunk_dir] (disk e) (disk e')" "pinned e' = pinned e"
    "multipart e' = multipart e"
    "hash_wf h \<Longrightarrow> chunk_at X (disk e') h =
        (if doomed reach now grace (condemned_at X (disk e)) h then None else chunk_at X (disk e) h)"
    "hash_wf h \<Longrightarrow> map_of (condemned_at X (disk e')) h =
        (if chunk_at X (disk e) h \<noteq> None then stamp_after reach now grace (condemned_at X (disk e)) h
         else map_of (condemned_at X (disk e)) h)" by auto
qed

lemma gc_referenced:
  assumes ok: "store_ok X B M (disk e)" and run: "gc_sweep X now grace e = (r, e')"
  shows "referenced X (disk e') = referenced X (disk e)"
    "manifest_get X (disk e') i = Inr (Some m) \<longleftrightarrow> manifest_get X (disk e) i = Inr (Some m)"
proof -
  note g = gc_sweep_run(1,2) [OF ok run]
  note S = store_okD [OF ok] and S' = store_okD [OF g(1)]
  have log: "log_at X (disk e') b k = log_at X (disk e) b k" for b k
    using others_agree [OF g(2), THEN log_at_agree] by simp
  have ag: "agree manifest_dir (disk e) (disk e')" by (rule others_agree [OF g(2)]) simp
  show man: "manifest_get X (disk e') i = Inr (Some m) \<longleftrightarrow> manifest_get X (disk e) i = Inr (Some m)" for i m
    using manifest_get_agree [OF S(7,5) S'(5) ag, of i] manifest_get_hash_wf [OF S(6), of "disk e" i m]
      manifest_get_hash_wf [OF S(6), of "disk e'" i m] by (cases "hash_wf i") auto
  show "referenced X (disk e') = referenced X (disk e)"
    by (simp add: referenced_def versions_def version_chunks_def log man)
qed

text \<open>What a version reads as depends on its manifest and on referenced chunks only.\<close>

lemma referenced_reads:
  assumes ok: "store_ok X B M (disk e)" "store_ok X B M (disk e')"
    and man: "\<And>i m. manifest_get X (disk e) i = Inr (Some m) \<Longrightarrow> manifest_get X (disk e') i = Inr (Some m)"
    and chunk: "\<And>h. hash_wf h \<Longrightarrow> h \<in> referenced X (disk e) \<Longrightarrow> chunk_at X (disk e') h = chunk_at X (disk e) h"
    and i: "i \<in> versions X (disk e)" and read: "read_manifest_bytes X e i = Inr bs"
  shows "read_manifest_bytes X e' i = Inr bs"
proof -
  note S = store_okD [OF ok(1)] and S' = store_okD [OF ok(2)]
  from read obtain m c xs where m: "manifest_get X (disk e) i = Inr (Some m)"
    "decoder_for (codec (storage m)) = Inr c"
    "try_map (fetch_chunk X e c i) (chunks (chunking m)) = Inr xs"
    "\<not> (fidelity (storage m) = Exact \<and> sha256_hex X (concat xs) \<noteq> sha256_hexed (original m))" "bs = concat xs"
    by (auto simp: read_manifest_bytes_def fetch_manifest_def result_simps split: if_splits)
  have "fetch_chunk X e' c i h = fetch_chunk X e c i h" if h: "h \<in> set (chunks (chunking m))" for h
  proof -
    from m(3) h obtain x where "fetch_chunk X e c i h = Inr x"
      by (auto simp: try_map_Inr_iff list_all2_conv_all_nth in_set_conv_nth)
    then obtain b where b: "chunk_get X (disk e) h = Inr (Some b)" by (auto simp: fetch_chunk_def result_simps)
    then have wf: "hash_wf h" using chunk_get_wf [OF S(6)] by blast
    have "h \<in> referenced X (disk e)" using i h m(1) by (auto simp: referenced_def version_chunks_def)
    from chunk [OF wf this]
    show ?thesis by (simp add: fetch_chunk_def chunk_get_ok_iff [OF S(1) wf] chunk_get_ok_iff [OF S'(1) wf])
  qed
  then have "try_map (fetch_chunk X e' c i) (chunks (chunking m)) = Inr xs"
    using m(3) by (simp add: try_map_Inr_iff list_all2_conv_all_nth)
  then show ?thesis using m man [OF m(1)] by (simp add: read_manifest_bytes_def fetch_manifest_def)
qed

lemma gc_reads:
  assumes ok: "store_ok X B M (disk e)" and run: "gc_sweep X now grace e = (r, e')"
    and i: "i \<in> versions X (disk e)" and read: "read_manifest_bytes X e i = Inr bs"
  shows "read_manifest_bytes X e' i = Inr bs"
proof (rule referenced_reads [OF ok gc_sweep_run(1) [OF ok run] _ _ i read])
  show "manifest_get X (disk e') j = Inr (Some m)" if "manifest_get X (disk e) j = Inr (Some m)" for j m
    using gc_referenced(2) [OF ok run] that by simp
  show "chunk_at X (disk e') h = chunk_at X (disk e) h" if "hash_wf h" "h \<in> referenced X (disk e)" for h
    using gc_sweep_run(5) [OF ok run that(1)] that(2) by (simp add: doomed_def)
qed

text \<open>An unreachable chunk is gone after two passes that lie a grace window apart.\<close>

lemma gc_collects:
  assumes ok: "store_ok X B M (disk e)" and h: "hash_wf h"
    and free: "h \<notin> set (pinned e)" "h \<notin> referenced X (disk e)"
    and stamp: "\<forall>at. map_of (condemned_at X (disk e)) h = Some at \<longrightarrow> at \<le> t1" and t: "t1 + grace \<le> t2"
    and run: "gc_sweep X t1 grace e = (r1, e1)" "gc_sweep X t2 grace e1 = (r2, e2)"
  shows "chunk_at X (disk e2) h = None"
proof -
  let ?reach = "set (pinned e) \<union> referenced X (disk e)"
  note g = gc_sweep_run [OF ok run(1)]
  let ?reach1 = "set (pinned e1) \<union> referenced X (disk e1)"
  note g2 = gc_sweep_run(5) [OF g(1) run(2) h]
  have nr: "h \<notin> ?reach" "h \<notin> ?reach1" using free gc_referenced(1) [OF ok run(1)] g(3) by auto
  show ?thesis
  proof (cases "chunk_at X (disk e1) h")
    case None
    then show ?thesis using g2 by simp
  next
    case (Some b)
    then have nd: "\<not> doomed ?reach t1 grace (condemned_at X (disk e)) h" "chunk_at X (disk e) h \<noteq> None"
      using g(5) [OF h] by (auto split: if_splits)
    then have "\<exists>at \<le> t1. map_of (condemned_at X (disk e1)) h = Some at"
      using g(6) [OF h] nr(1) stamp by (auto simp: stamp_after_def split: option.splits)
    then have "doomed ?reach1 t2 grace (condemned_at X (disk e1)) h"
      using nr(2) t by (auto simp: doomed_def)
    then show ?thesis using g2 by simp
  qed
qed

end
