(* ===== verification/Demo_Engine.thy ===== *)
theory Demo_Engine
  imports Engine_Laws Demo_Ext
begin

text \<open>
  A concrete engine on an empty data directory, over \<open>demo\<close>, with the facts that the witnesses of
  the engine's properties need: the store invariant, the pot's policy, and one encoded object.
\<close>

definition small_bufs :: "bytes set" where "small_bufs = {b. length b \<le> 31}"

definition demo_policy :: policy where
  "demo_policy = \<lparr>pol_codec = ''none'', pol_zstd_level = 0, pol_tenant = ''t'', pol_name = ''p''\<rparr>"

definition demo_engine :: engine where
  "demo_engine =
     \<lparr>disk = [], pinned = [], cipher = None, eng_policy = demo_policy, write_hook = True, events = [],
      multipart = [], mp_counter = 0, gc_sweeps = 0, gc_condemned_total = 0, gc_erased_total = 0,
      gc_last_live = 0\<rparr>"

definition demo_ep :: effective where
  "demo_ep = \<lparr>ep_codec = Raw, ep_codec_name = ''none'', ep_level = 0, ep_fidelity = Exact, ep_route = Blob\<rparr>"

definition demo_data :: bytes where "demo_data = [1, 2, 3]"

lemma demo_small_inj: "inj_on (blake3 demo) small_bufs"
  unfolding small_bufs_def by (rule demo_inj)

lemma disk_ok_Nil [simp]: "disk_ok []"
  by (simp add: disk_ok_def layout_def)

lemma lookup_Nil [simp]: "fs_lookup [] p = (if p = [] then Some Dir else None)"
  by (simp add: fs_lookup_def)

lemma contents_Nil [simp]: "contents [] p = None"
  by (simp add: contents_def)

lemma demo_store_ok:
  assumes "inj_on (blake3 demo) M"
  shows "store_ok demo small_bufs M []"
  using assms demo_small_inj
  by (simp add: store_ok_def chunks_ok_def manifests_ok_def pointers_ok_def side_ok_def manifest_at_def)

lemma demo_engine_simps [simp]:
  "disk demo_engine = []" "pinned demo_engine = []" "cipher demo_engine = None"
  "eng_policy demo_engine = demo_policy" "multipart demo_engine = []" "mp_counter demo_engine = 0"
  by (simp_all add: demo_engine_def)

lemma demo_flat [simp]: "flat_ok demo []"
  by (simp add: flat_ok_def)

lemma demo_names [simp]:
  "valid_pot ''b''" "valid_object (''b'', ''k'')" "valid_bucket ''b''" "valid_key ''k''"
  "valid_object (''b'', ''j'')" "valid_key ''j''" "valid_bucket ''c''" "valid_pot ''c''"
  "validate_key ''b'' ''k'' = Inr ()" "validate_key ''b'' ''j'' = Inr ()"
  by (auto simp: valid_pot_def valid_object_def valid_bucket_def valid_key_def bucket_dir_def NAME_MAX_def
      validate_key_def MAX_NAME_BYTES_def ascii_def intro!: utf8_valid_ascii)

text \<open>On an empty disk nothing is locked and the engine's own policy is in force.\<close>

lemma demo_empty:
  assumes "disk e = []"
  shows "ensure_unlocked demo ''b'' ''k'' now e = Inr ()"
    "eng_policy e = demo_policy \<Longrightarrow> effective_policy demo ''b'' ct e = Inr demo_ep"
    "inj_on (blake3 demo) M \<Longrightarrow> writable demo small_bufs M e ''b'' ''k''"
  using assms
  by (simp_all add: ensure_unlocked_def annotation_get_eq annotation_default_def effective_policy_def
      meta_config_eq bucket_config_default_def demo_policy_def build_codec_def demo_ep_def writable_def
      demo_store_ok)

lemma demo_unlocked [simp]: "ensure_unlocked demo ''b'' ''k'' now demo_engine = Inr ()"
  by (simp add: demo_empty)

lemma demo_effective [simp]: "effective_policy demo ''b'' ct demo_engine = Inr demo_ep"
  by (simp add: demo_empty)

lemma demo_encodes: "encodes demo (ep_codec demo_ep) small_bufs (chunk_split demo demo_data) [demo_data]"
  by (simp add: encodes_def demo_ep_def chunk_split_def demo_simps demo_data_def slices_def small_bufs_def
      codec_encode_def numeral_eq_Suc)

lemma demo_writable: "inj_on (blake3 demo) M \<Longrightarrow> writable demo small_bufs M demo_engine ''b'' ''k''"
  by (simp add: demo_empty)

text \<open>The same engine on a directory that only chunks were added to.\<close>

definition demo_on :: "fs \<Rightarrow> engine" where
  "demo_on d = demo_engine\<lparr>disk := d\<rparr>"

lemma demo_on_simps [simp]:
  "disk (demo_on d) = d" "eng_policy (demo_on d) = demo_policy" "multipart (demo_on d) = []"
  "pinned (demo_on d) = []" "cipher (demo_on d) = None"
  by (simp_all add: demo_on_def)

lemma demo_on_chunks:
  assumes ok: "store_ok demo small_bufs M d" and o: "others [chunk_dir] [] d"
  shows "ensure_unlocked demo ''b'' ''k'' now (demo_on d) = Inr ()"
    "effective_policy demo ''b'' ct (demo_on d) = Inr demo_ep"
    "writable demo small_bufs M (demo_on d) ''b'' ''k''"
proof -
  note S = store_okD [OF ok]
  have none: "contents d (meta_dir # q) = None" "contents d (annotation_dir # q) = None" for q
    using others_agree [OF o, THEN agree_contents] by simp_all
  show "ensure_unlocked demo ''b'' ''k'' now (demo_on d) = Inr ()"
    using annotation_get_eq [OF S(9), of "(''b'', ''k'')"] none(2)
    by (simp add: ensure_unlocked_def annotation_path_def annotation_default_def)
  show "effective_policy demo ''b'' ct (demo_on d) = Inr demo_ep"
    using meta_config_eq [OF S(9), of "''b''"] none(1)
    by (simp add: effective_policy_def meta_path_def bucket_config_default_def demo_policy_def
        build_codec_def demo_ep_def)
  show "writable demo small_bufs M (demo_on d) ''b'' ''k''" using ok by (simp add: writable_def)
qed

lemma demo_one_chunk:
  assumes "inj_on (blake3 demo) M"
  obtains d where "store_ok demo small_bufs M d" "others [chunk_dir] [] d"
    "chunk_at demo d (hash_of demo demo_data) = Some demo_data" "\<forall>b k. log_at demo d b k = []"
    "condemned_at demo d = []"
proof -
  let ?h = "hash_of demo demo_data"
  have small: "demo_data \<in> small_bufs" by (simp add: demo_data_def small_bufs_def)
  have new: "chunk_put demo demo_data [] = (Inr ?h, put_file (shard demo chunk_dir ?h) demo_data [])"
    by (simp add: chunk_put_eq chunk_at_def)
  from chunk_put_step [OF demo_store_ok [OF assms] small] new
  have d: "store_ok demo small_bufs M (put_file (shard demo chunk_dir ?h) demo_data [])"
    "others [chunk_dir] [] (put_file (shard demo chunk_dir ?h) demo_data [])"
    "chunk_at demo (put_file (shard demo chunk_dir ?h) demo_data []) ?h = Some demo_data" by auto
  have l: "log_at demo (put_file (shard demo chunk_dir ?h) demo_data []) b k = []" for b k
    using others_agree [OF d(2), THEN log_at_agree, of demo b k] by (simp add: log_at_def)
  have "good (shard demo chunk_dir ?h)" by (simp add: good_shard)
  then have "condemned_at demo (put_file (shard demo chunk_dir ?h) demo_data []) = []"
    by (simp add: condemned_at_def contents_put_file condemned_not_shard)
  with d l that show thesis by blast
qed

text \<open>The engine after one \<open>put\<close>, as far as the witnesses look at it.\<close>

definition demo_bodies :: "bytes set" where
  "demo_bodies = {manifest_body demo (put_manifest demo demo_engine ''text/plain'' demo_ep [demo_data] demo_data 10)}"

lemma demo_bodies_inj [simp]: "inj_on (blake3 demo) demo_bodies"
  by (simp add: demo_bodies_def)

lemma demo_put:
  obtains i e where "put demo ''b'' ''k'' demo_data ''text/plain'' 10 10 demo_engine = (Inr i, e)"
    "store_ok demo small_bufs demo_bodies (disk e)" "read_manifest_bytes demo e i = Inr demo_data"
    "\<And>c j. log_at demo (disk e) c j = (if c = ''b'' \<and> j = ''k'' then [i] else [])"
    "others [chunk_dir, manifest_dir, pointer_dir, reverse_dir] [] (disk e)" "pinned e = []"
    "manifest_id demo (put_manifest demo demo_engine ''text/plain'' demo_ep [demo_data] demo_data 10) = i"
proof -
  have w: "writable demo small_bufs demo_bodies demo_engine ''b'' ''k''" by (rule demo_writable) simp
  have m: "manifest_body demo (put_manifest demo demo_engine ''text/plain'' demo_ep [demo_data] demo_data 10)
      \<in> demo_bodies" by (simp add: demo_bodies_def)
  have l0: "log_at demo [] c j = []" for c j by (simp add: log_at_def)
  from put_ok [OF w demo_unlocked demo_effective demo_encodes m, where now = 10] obtain i e where
    p: "put demo ''b'' ''k'' demo_data ''text/plain'' 10 10 demo_engine = (Inr i, e)"
    "i = manifest_id demo (put_manifest demo demo_engine ''text/plain'' demo_ep [demo_data] demo_data 10)"
    "store_ok demo small_bufs demo_bodies (disk e)"
    "others [chunk_dir, manifest_dir, pointer_dir, reverse_dir] (disk demo_engine) (disk e)"
    "read_manifest_bytes demo e i = Inr demo_data"
    "\<forall>c j. log_at demo (disk e) c j = (if c = ''b'' \<and> j = ''k''
        then log_at demo (disk demo_engine) ''b'' ''k'' @ [i] else log_at demo (disk demo_engine) c j)"
    "set (pinned e) = set (pinned demo_engine) - hash_of demo ` set [demo_data]"
    by (elim exE conjE) (rule that)
  show thesis
    by (rule that [OF p(1,3,5)]) (use p(2,4,6,7) l0 in simp_all)
qed

text \<open>Two versions of one key, in a pot that keeps one.\<close>

definition keep_one :: bucket_config where
  "keep_one = bucket_config_default\<lparr>max_versions := Some 1\<rparr>"

lemma demo_two_versions:
  obtains i d where "store_ok demo small_bufs demo_bodies d"
    "\<forall>c j. log_at demo d c j = (if c = ''b'' \<and> j = ''k'' then [i, i] else [])"
    "\<exists>m. manifest_get demo d i = Inr (Some m)" "meta_config demo d ''b'' = Inr keep_one"
    "\<forall>c. fs_lookup d [pointer_dir, c] = Some Dir \<longrightarrow> c = ''b''"
proof -
  let ?m = "put_manifest demo demo_engine ''text/plain'' demo_ep [demo_data] demo_data 10"
  let ?i = "manifest_id demo ?m"
  have ok0: "store_ok demo small_bufs demo_bodies []" by (rule demo_store_ok) simp
  have "manifest_storable demo demo_bodies ?m"
    unfolding put_manifest_def
    by (rule new_manifest_storable) (simp_all add: demo_bodies_def put_manifest_def)
  from manifest_put_step [OF ok0 this] obtain d1 where 1: "store_ok demo small_bufs demo_bodies d1"
    "others [manifest_dir] [] d1" "manifest_get demo d1 ?i = Inr (Some (with_id demo ?m))" by blast
  have pd: "fs_lookup d1 (pointer_dir # q) = None" for q
    using others_agree [OF 1(2), of pointer_dir] by (simp add: agree_def)
  have l1: "log_at demo d1 c j = []" for c j by (simp add: log_at_def contents_def pointer_file_def pd)
  have wf: "hash_wf ?i" by simp
  from pointer_set_step [OF 1(1) _ _ wf, of "''b''" "''k''"] obtain d2 where
    2: "pointer_set demo ''b'' ''k'' ?i d1 = (Inr (), d2)" "store_ok demo small_bufs demo_bodies d2"
      "extends demo d1 d2" "\<forall>c j. log_at demo d2 c j = (if c = ''b'' \<and> j = ''k'' then [?i] else [])"
    by (auto simp: l1)
  from pointer_set_step [OF 2(2) _ _ wf, of "''b''" "''k''"] obtain d3 where
    3: "pointer_set demo ''b'' ''k'' ?i d2 = (Inr (), d3)" "store_ok demo small_bufs demo_bodies d3"
      "extends demo d2 d3" "\<forall>c j. log_at demo d3 c j = (if c = ''b'' \<and> j = ''k'' then [?i, ?i] else [])"
    using 2(4) by auto
  have "c = ''b''" if "fs_lookup d3 [pointer_dir, c] = Some Dir" for c
  proof -
    have "d2 = put_file (pointer_file demo ''b'' ''k'') (as_bytes (entry_lines demo [?i])) d1"
      using pointer_set_ok(4) [OF store_okD(3) [OF 1(1)] _ _ wf 2(1)] by (simp add: l1)
    moreover have "d3 = put_file (pointer_file demo ''b'' ''k'') (as_bytes (entry_lines demo [?i, ?i])) d2"
      using pointer_set_ok(4) [OF store_okD(3) [OF 2(2)] _ _ wf 3(1)] 2(4) by simp
    ultimately show ?thesis
      using that pd by (auto simp: lookup_put_file pointer_file_def strict_prefix_def split: if_splits)
  qed
  moreover from meta_set_config_step [OF 3(2), of "''b''" keep_one] obtain d4 where
    4: "store_ok demo small_bufs demo_bodies d4" "others [meta_dir] d3 d4" "extends demo d3 d4"
      "meta_config demo d4 ''b'' = Inr keep_one" by auto
  moreover have "fs_lookup d4 (pointer_dir # q) = fs_lookup d3 (pointer_dir # q)" for q
    using others_agree [OF 4(2), of pointer_dir] by (simp add: agree_def)
  moreover have "log_at demo d4 c j = log_at demo d3 c j" for c j
    using others_agree [OF 4(2), THEN log_at_agree] by simp
  moreover have "manifest_get demo d4 ?i = Inr (Some (with_id demo ?m))"
    using 1(3) 2(3) 3(3) 4(3) by (simp add: extends_def)
  ultimately show thesis using 3(4) by (intro that [of d4 ?i]) auto
qed

end
