(* ===== verification/Engine_Props.thy ===== *)
theory Engine_Props
  imports Demo_Engine
begin

text \<open>
  Properties of the engine: what a write makes readable and what it leaves alone, streaming against
  buffered writes, reads that never return altered bytes, multipart uploads, locks, version restore
  and the garbage collector over live objects.
\<close>

lemma get_keeps:
  assumes ok: "store_ok X B M (disk e)" "store_ok X B M (disk e')" and ext: "extends X (disk e) (disk e')"
    and v: "valid_bucket b" "valid_key k" and log: "log_at X (disk e') b k = log_at X (disk e) b k"
    and got: "get X e b k = Inr r"
  shows "get X e' b k = Inr r"
  using got get_eq [OF ok(1) v] get_eq [OF ok(2) v] log read_extends [OF ext]
  by (auto simp: result_simps split: if_splits)

lemma eng_history_eq:
  "store_ok X B M (disk e) \<Longrightarrow> valid_bucket b \<Longrightarrow> valid_key k \<Longrightarrow>
     eng_history X e b k = Inr (log_at X (disk e) b k)"
  using history_eq(1) [OF store_okD(3)] by (simp add: eng_history_def)

section \<open>Writes\<close>

text \<open>
  C3: a buffered write of an unlocked key returns the id of a new version; the key and the id then read
  back the written bytes, and the key's history is the old one followed by that id. Nothing else moves:
  every other key keeps its whole history and reads what it read before, and every version of any key,
  this one's older ones included, that could be read by its id still reads the same bytes. The store
  invariant still holds.
\<close>

theorem put_then_get:
  assumes "writable X B M e b k" "ensure_unlocked X b k now e = Inr ()"
    and "effective_policy X b ct e = Inr ep"
    and "encodes X (ep_codec ep) B (chunk_split X data) encs"
    and "manifest_body X (put_manifest X e ct ep encs data t) \<in> M"
  shows "\<exists>i e' h. put X b k data ct now t e = (Inr i, e') \<and>
     store_ok X B M (disk e') \<and> get X e' b k = Inr (Some data) \<and> read_object X e' i = Inr data \<and>
     eng_history X e b k = Inr h \<and> eng_history X e' b k = Inr (h @ [i]) \<and>
     (\<forall>c j. valid_bucket c \<longrightarrow> valid_key j \<longrightarrow> (c, j) \<noteq> (b, k) \<longrightarrow>
        eng_history X e' c j = eng_history X e c j \<and> (\<forall>r. get X e c j = Inr r \<longrightarrow> get X e' c j = Inr r)) \<and>
     (\<forall>v bs. read_object X e v = Inr bs \<longrightarrow> read_object X e' v = Inr bs)"
proof -
  have W: "store_ok X B M (disk e)" "valid_bucket b" "valid_key k" using assms(1) by (auto simp: writable_def)
  from put_ok [OF assms] obtain i e' where p:
    "put X b k data ct now t e = (Inr i, e')" "store_ok X B M (disk e')" "extends X (disk e) (disk e')"
    "read_manifest_bytes X e' i = Inr data"
    "\<forall>c j. log_at X (disk e') c j = (if c = b \<and> j = k then log_at X (disk e) b k @ [i] else log_at X (disk e) c j)"
    by (elim exE conjE) (rule that)
  have "get X e' b k = Inr (Some data)" using get_eq [OF p(2) W(2,3)] p(4,5) by simp
  moreover have "eng_history X e' c j = eng_history X e c j \<and> (\<forall>r. get X e c j = Inr r \<longrightarrow> get X e' c j = Inr r)"
    if "valid_bucket c" "valid_key j" "(c, j) \<noteq> (b, k)" for c j
    using get_keeps [OF W(1) p(2,3) that(1,2)] eng_history_eq [OF W(1) that(1,2)] eng_history_eq [OF p(2) that(1,2)]
      p(5) that(3) by auto
  moreover have "read_object X e' v = Inr bs" if "read_object X e v = Inr bs" for v bs
    using read_extends [OF p(3)] that by (simp add: read_object_def)
  ultimately show ?thesis
    using p eng_history_eq [OF W] eng_history_eq [OF p(2) W(2,3)] by (auto simp: read_object_def)
qed

theorem put_then_get_witness:
  "\<exists>i e'. put demo ''b'' ''k'' demo_data ''text/plain'' 10 10 demo_engine = (Inr i, e') \<and>
     get demo e' ''b'' ''k'' = Inr (Some demo_data)"
  using put_then_get [of demo small_bufs
      "{manifest_body demo (put_manifest demo demo_engine ''text/plain'' demo_ep [demo_data] demo_data 10)}"
      demo_engine "''b''" "''k''" 10 "''text/plain''" demo_ep demo_data "[demo_data]" 10]
  by (auto simp: demo_writable demo_encodes)

text \<open>
  C24: writing bytes whose encoded chunks are all stored already adds, changes and removes no chunk:
  a second copy of an object costs a manifest and a pointer entry only.
\<close>

theorem put_deduplicates:
  assumes "writable X B M e b k" "ensure_unlocked X b k now e = Inr ()"
    and "effective_policy X b ct e = Inr ep"
    and "encodes X (ep_codec ep) B (chunk_split X data) encs"
    and "manifest_body X (put_manifest X e ct ep encs data t) \<in> M"
    and "\<forall>enc \<in> set encs. has_chunk X e (hash_of X enc)"
  shows "\<exists>i e'. put X b k data ct now t e = (Inr i, e') \<and>
     (\<forall>h. hash_wf h \<longrightarrow> chunk_bytes X e' h = chunk_bytes X e h)"
proof -
  have W: "store_ok X B M (disk e)" using assms(1) by (simp add: writable_def)
  note S = store_okD [OF W]
  from put_ok [OF assms(1-5)] obtain i e' where p:
    "put X b k data ct now t e = (Inr i, e')" "store_ok X B M (disk e')" "extends X (disk e) (disk e')"
    "\<forall>h. h \<notin> hash_of X ` set encs \<longrightarrow> chunk_at X (disk e') h = chunk_at X (disk e) h"
    by (elim exE conjE) (rule that)
  note S' = store_okD [OF p(2)]
  have "chunk_get X (disk e') h = chunk_get X (disk e) h" if "hash_wf h" for h
  proof (cases "h \<in> hash_of X ` set encs")
    case True
    with assms(6) have "chunk_at X (disk e) h \<noteq> None"
      using chunk_has_eq [OF S(7,5) that] by (auto simp: has_chunk_def)
    then obtain c where "chunk_at X (disk e) h = Some c" by auto
    then have "chunk_get X (disk e) h = Inr (Some c)" by (simp add: chunk_get_ok_iff [OF S(1) that])
    then show ?thesis using p(3) by (simp add: extends_def)
  next
    case False
    then show ?thesis using p(4) by (simp add: chunk_get_ok_iff [OF S(1) that] chunk_get_ok_iff [OF S'(1) that])
  qed
  with p(1) show ?thesis by (auto simp: chunk_bytes_def)
qed

theorem put_deduplicates_witness:
  "\<exists>e i e'. has_chunk demo e (hash_of demo demo_data) \<and>
     put demo ''b'' ''k'' demo_data ''text/plain'' 10 10 e = (Inr i, e') \<and>
     chunk_bytes demo e' (hash_of demo demo_data) = chunk_bytes demo e (hash_of demo demo_data)"
proof -
  let ?M = "{manifest_body demo (put_manifest demo demo_engine ''text/plain'' demo_ep [demo_data] demo_data 10)}"
  obtain d where d: "store_ok demo small_bufs ?M d" "others [chunk_dir] [] d"
    "chunk_at demo d (hash_of demo demo_data) = Some demo_data"
    by (rule demo_one_chunk [of ?M]) simp
  have has: "has_chunk demo (demo_on d) (hash_of demo demo_data)"
    using chunk_has_eq [of demo d "hash_of demo demo_data"] d(3) store_okD [OF d(1)]
    by (simp add: has_chunk_def)
  have "manifest_body demo (put_manifest demo (demo_on d) ''text/plain'' demo_ep [demo_data] demo_data 10) \<in> ?M"
    by (simp add: put_manifest_def new_manifest_def)
  note put_deduplicates [OF demo_on_chunks(3,1,2) [OF d(1,2)] demo_encodes this, where now = 10]
  then obtain i e' where "put demo ''b'' ''k'' demo_data ''text/plain'' 10 10 (demo_on d) = (Inr i, e')"
    "\<forall>h. hash_wf h \<longrightarrow> chunk_bytes demo e' h = chunk_bytes demo (demo_on d) h"
    using has by auto
  with has show ?thesis by (intro exI [of _ "demo_on d"]) auto
qed

text \<open>
  C15: a streamed upload that stays within its limit is the buffered write of the same bytes: same
  result, same object id for the same timestamp, same final state, on every branch.
\<close>

theorem put_stream_is_put:
  assumes "cdc_ok X" "length data \<le> limit"
  shows "put_stream X b k \<lparr>rd_bytes = data, rd_error = None\<rparr> ct limit now t e = put X b k data ct now t e"
  using assms by (rule put_stream_put)

theorem put_stream_is_put_witness:
  "put_stream demo ''b'' ''k'' \<lparr>rd_bytes = demo_data, rd_error = None\<rparr> ''text/plain'' 3 10 10 demo_engine =
     put demo ''b'' ''k'' demo_data ''text/plain'' 10 10 demo_engine"
  by (rule put_stream_is_put) (simp_all add: demo_data_def)

section \<open>Reads\<close>

text \<open>
  C7: on any disk, however damaged, a read that succeeds has verified what it returns: the manifest found
  under the id hashes to the id and is of a known version, every chunk it lists is there and hashes to its
  address, and the bytes returned are exactly the decoded chunks in the manifest's order; of an exact
  object they have the SHA-256 the manifest records. Altered files are an error, never data.
\<close>

theorem reads_are_verified:
  assumes "read_object X e i = Inr bs"
  shows "\<exists>m c bufs xs. manifest_get X (disk e) i = Inr (Some m) \<and> manifest_id X m = i \<and>
     manifest_version m \<le> MANIFEST_VERSION \<and> decoder_for (codec (storage m)) = Inr c \<and>
     list_all2 (\<lambda>h b. chunk_get X (disk e) h = Inr (Some b) \<and> hash_of X b = h) (chunks (chunking m)) bufs \<and>
     list_all2 (\<lambda>b x. codec_decode X c b = Inr x) bufs xs \<and> bs = concat xs \<and>
     (fidelity (storage m) = Exact \<longrightarrow> sha256_hex X bs = sha256_hexed (original m))"
proof -
  from assms obtain m c xs where m: "manifest_get X (disk e) i = Inr (Some m)" "decoder_for (codec (storage m)) = Inr c"
    and xs: "try_map (fetch_chunk X e c i) (chunks (chunking m)) = Inr xs"
    and sha: "\<not> (fidelity (storage m) = Exact \<and> sha256_hex X (concat xs) \<noteq> sha256_hexed (original m))"
      "bs = concat xs"
    by (auto simp: read_object_def read_manifest_bytes_def fetch_manifest_def result_simps split: if_splits)
  have one: "\<exists>b. (chunk_get X (disk e) h = Inr (Some b) \<and> hash_of X b = h) \<and> codec_decode X c b = Inr x"
    if "fetch_chunk X e c i h = Inr x" for h x
  proof -
    from that obtain b where "chunk_get X (disk e) h = Inr (Some b)" "codec_decode X c b = Inr x"
      by (auto simp: fetch_chunk_def result_simps)
    with chunk_get_Some [OF this(1)] show ?thesis by blast
  qed
  have "list_all2 (\<lambda>h x. fetch_chunk X e c i h = Inr x) (chunks (chunking m)) xs" using xs by (simp add: try_map_Inr_iff)
  then have "\<exists>bufs. list_all2 (\<lambda>h b. chunk_get X (disk e) h = Inr (Some b) \<and> hash_of X b = h) (chunks (chunking m)) bufs \<and>
      list_all2 (\<lambda>b x. codec_decode X c b = Inr x) bufs xs"
  proof (induction rule: list_all2_induct)
    case (Cons h hs x xs)
    from one [OF Cons(1)] obtain b where
      "chunk_get X (disk e) h = Inr (Some b) \<and> hash_of X b = h" "codec_decode X c b = Inr x" by blast
    moreover from Cons(3) obtain bufs where
      "list_all2 (\<lambda>h b. chunk_get X (disk e) h = Inr (Some b) \<and> hash_of X b = h) hs bufs"
      "list_all2 (\<lambda>b x. codec_decode X c b = Inr x) bufs xs" by blast
    ultimately show ?case by (intro exI [of _ "b # bufs"]) simp
  qed simp
  then obtain bufs where "list_all2 (\<lambda>h b. chunk_get X (disk e) h = Inr (Some b) \<and> hash_of X b = h) (chunks (chunking m)) bufs"
    "list_all2 (\<lambda>b x. codec_decode X c b = Inr x) bufs xs" by blast
  moreover have "manifest_id X m = i" "manifest_version m \<le> MANIFEST_VERSION" using manifest_get_Some [OF m(1)] by simp_all
  moreover have "fidelity (storage m) = Exact \<longrightarrow> sha256_hex X bs = sha256_hexed (original m)" using sha by simp
  ultimately show ?thesis using m sha(2) by blast
qed

theorem reads_are_verified_witness:
  "\<exists>e i. read_object demo e i = Inr demo_data \<and>
     (\<exists>m. manifest_get demo (disk e) i = Inr (Some m) \<and> manifest_id demo m = i)"
proof -
  obtain i e where "read_manifest_bytes demo e i = Inr demo_data" by (rule demo_put)
  then have r: "read_object demo e i = Inr demo_data" by (simp add: read_object_def)
  from reads_are_verified [OF r] r show ?thesis by blast
qed

section \<open>Multipart uploads\<close>

text \<open>
  C14: a multipart upload is one version. Parts are sent under any numbers in any order, also again under
  a number already used; completing with a list of numbers that were sent, or without a list, succeeds
  and yields the last bodies of the parts named, in the order named, without a list of all parts by
  ascending number. The key's history grows by exactly this one version, which reads as the
  concatenation; no other history changes; every version that could be read still reads the same; the
  upload id is gone afterwards and none of the chunks stays pinned.
\<close>

theorem multipart_concatenates:
  assumes "zstd_ok X" "writable X B M e b k" "ensure_unlocked X b k now e = Inr ()"
    and "effective_policy X b ct e = Inr ep"
    and "encodable_parts X (ep_codec ep) B limit parts encss" "set order \<subseteq> fst ` set parts"
    and "manifest_body X (complete_manifest X e (new_upload b k ct ep) (ep_codec ep)
              (session_got X parts encss order) t) \<in> M"
  shows "\<exists>i e1 oid e2 h. create_multipart X b k ct now e = (Inr i, e1) \<and>
     complete_multipart X i order t (upload_all X i limit parts e1) = (Inr oid, e2) \<and>
     store_ok X B M (disk e2) \<and>
     get X e2 b k = Inr (Some (concat (map (last_body parts) (completion_order parts order)))) \<and>
     eng_history X e b k = Inr h \<and> eng_history X e2 b k = Inr (h @ [oid]) \<and>
     (\<forall>c j. valid_bucket c \<longrightarrow> valid_key j \<longrightarrow> (c, j) \<noteq> (b, k) \<longrightarrow> eng_history X e2 c j = eng_history X e c j) \<and>
     (\<forall>v bs. read_object X e v = Inr bs \<longrightarrow> read_object X e2 v = Inr bs) \<and>
     list_parts e2 i = Inr None \<and> set (pinned e2) \<subseteq> set (pinned e)"
proof -
  have W: "store_ok X B M (disk e)" "valid_bucket b" "valid_key k" using assms(2) by (auto simp: writable_def)
  from multipart_session_ok [OF assms] obtain i e1 oid e2 where s:
    "create_multipart X b k ct now e = (Inr i, e1)"
    "complete_multipart X i order t (upload_all X i limit parts e1) = (Inr oid, e2)"
    "store_ok X B M (disk e2)" "extends X (disk e) (disk e2)"
    "read_manifest_bytes X e2 oid = Inr (concat (map (last_body parts) (completion_order parts order)))"
    "\<forall>c j. log_at X (disk e2) c j = (if c = b \<and> j = k then log_at X (disk e) b k @ [oid] else log_at X (disk e) c j)"
    "map_of (multipart e2) i = None" "set (pinned e2) = set (pinned e) - hash_of X ` set (concat encss)"
    by (elim exE conjE) (rule that)
  have g: "get X e2 b k = Inr (Some (concat (map (last_body parts) (completion_order parts order))))"
    using get_eq [OF s(3) W(2,3)] s(5,6) by simp
  have h: "eng_history X e b k = Inr (log_at X (disk e) b k)" "eng_history X e2 b k = Inr (log_at X (disk e) b k @ [oid])"
    using eng_history_eq [OF W] eng_history_eq [OF s(3) W(2,3)] s(6) by simp_all
  have o: "eng_history X e2 c j = eng_history X e c j" if "valid_bucket c" "valid_key j" "(c, j) \<noteq> (b, k)" for c j
    using eng_history_eq [OF W(1) that(1,2)] eng_history_eq [OF s(3) that(1,2)] s(6) that(3) by auto
  have r: "read_object X e2 v = Inr bs" if "read_object X e v = Inr bs" for v bs
    using read_extends [OF s(4)] that by (simp add: read_object_def)
  have "list_parts e2 i = Inr None" "set (pinned e2) \<subseteq> set (pinned e)" using s(7,8) by (auto simp: list_parts_def)
  with s(1-3) g h o r show ?thesis by blast
qed

text \<open>Part 2 first, part 1 sent twice, and the parts named in descending order.\<close>

theorem multipart_concatenates_witness:
  "\<exists>i e1 oid e2. create_multipart demo ''b'' ''k'' ''text/plain'' 10 demo_engine = (Inr i, e1) \<and>
     complete_multipart demo i [2, 1] 10 (upload_all demo i 9 [(2, [3]), (1, [9]), (1, [1, 2])] e1) = (Inr oid, e2) \<and>
     get demo e2 ''b'' ''k'' = Inr (Some [3, 1, 2]) \<and> eng_history demo e2 ''b'' ''k'' = Inr [oid]"
proof -
  let ?parts = "[(2, [3]), (1, [9]), (1, [1, 2])] :: (nat \<times> bytes) list"
  let ?encss = "[[[3]], [[9]], [[1, 2]]] :: bytes list list"
  let ?M = "{manifest_body demo (complete_manifest demo demo_engine (new_upload ''b'' ''k'' ''text/plain'' demo_ep)
      (ep_codec demo_ep) (session_got demo ?parts ?encss [2, 1]) 10)}"
  have enc: "encodable_parts demo (ep_codec demo_ep) small_bufs 9 ?parts ?encss"
    by (simp add: encodable_parts_def encodes_def demo_ep_def chunk_split_def demo_simps slices_def small_bufs_def
        codec_encode_def numeral_eq_Suc)
  have w: "writable demo small_bufs ?M demo_engine ''b'' ''k''" by (rule demo_writable) simp
  have o: "set [2, 1] \<subseteq> fst ` set ?parts" by simp
  have b: "concat (map (last_body ?parts) (completion_order ?parts [2, 1])) = [3, 1, 2]"
    by (simp add: last_body_def completion_order_def)
  have h: "eng_history demo demo_engine ''b'' ''k'' = Inr []"
    using eng_history_eq [of demo small_bufs ?M demo_engine "''b''" "''k''"] w
    by (simp add: writable_def log_at_def)
  from multipart_concatenates [OF demo_zstd_ok w demo_unlocked demo_effective enc o,
      where now = 10 and t = 10 and ct = "''text/plain''"] b h
  show ?thesis by auto
qed

text \<open>
  Whatever \<open>complete\<close> returns (an unknown part, a missing chunk, a failed commit or an id),
  the upload it named is no longer staged and every pin it held has been released.
\<close>

theorem complete_releases_pins:
  assumes "list_parts e i = Inr (Some l)" "complete_multipart X i order t e = (r, e')"
  shows "list_parts e' i = Inr None \<and> (\<exists>up. map_of (multipart e) i = Some up \<and>
     set (pinned e') = set (pinned e) - set (up_pinned up))"
proof -
  from assms(1) obtain up where up: "map_of (multipart e) i = Some up" by (auto simp: list_parts_def)
  from complete_multipart_releases [OF up assms(2)] up show ?thesis
    by (auto simp: list_parts_def delete_conv')
qed

theorem complete_releases_pins_witness:
  "\<exists>e'. complete_multipart demo ''u'' [7] 10
     (demo_engine\<lparr>pinned := [hash_of demo demo_data, hash_of demo []],
        multipart := [(''u'', (new_upload ''b'' ''k'' ''text/plain'' demo_ep)\<lparr>up_pinned := [hash_of demo demo_data]\<rparr>)]\<rparr>)
     = (Inl (InvalidPart 7), e') \<and> list_parts e' ''u'' = Inr None"
proof -
  let ?e = "demo_engine\<lparr>pinned := [hash_of demo demo_data, hash_of demo []],
        multipart := [(''u'', (new_upload ''b'' ''k'' ''text/plain'' demo_ep)\<lparr>up_pinned := [hash_of demo demo_data]\<rparr>)]\<rparr>"
  obtain r e' where run: "complete_multipart demo ''u'' [7] 10 ?e = (r, e')" by force
  then have "r = Inl (InvalidPart 7)"
    by (simp add: complete_multipart_def commit_parts_def new_upload_def demo_ep_def decoder_for_def
        gather_part_def Let_def)
  moreover have "list_parts e' ''u'' = Inr None"
    using complete_releases_pins [OF _ run] by (simp add: list_parts_def)
  ultimately show ?thesis using run by blast
qed

text \<open>
  The pin set does not count its holders. When an ordinary write stores a chunk that a staged
  multipart upload holds, the write's guard takes the pin off on its way out: the upload still
  lists the chunk, but nothing protects it from the collector any more.
\<close>

theorem put_drops_staged_pins:
  assumes "writable X B M e b k" "ensure_unlocked X b k now e = Inr ()"
    and "effective_policy X b ct e = Inr ep"
    and "encodes X (ep_codec ep) B (chunk_split X data) encs"
    and "manifest_body X (put_manifest X e ct ep encs data t) \<in> M"
    and "map_of (multipart e) i = Some up" "h \<in> set (up_pinned up)" "h \<in> set (pinned e)"
    and "h \<in> hash_of X ` set encs"
  shows "\<exists>oid e'. put X b k data ct now t e = (Inr oid, e') \<and>
     map_of (multipart e') i = Some up \<and> h \<in> set (up_pinned up) \<and> h \<notin> set (pinned e')"
proof -
  from put_ok [OF assms(1-5)] obtain oid e' where p: "put X b k data ct now t e = (Inr oid, e')"
    "set (pinned e') = set (pinned e) - hash_of X ` set encs" "multipart e' = multipart e"
    by (elim exE conjE) (rule that)
  with assms(6-9) show ?thesis by auto
qed

theorem put_drops_staged_pins_witness:
  "\<exists>e h oid e' up. map_of (multipart e) ''u'' = Some up \<and> h \<in> set (up_pinned up) \<and> h \<in> set (pinned e) \<and>
     put demo ''b'' ''k'' demo_data ''text/plain'' 10 10 e = (Inr oid, e') \<and>
     map_of (multipart e') ''u'' = Some up \<and> h \<notin> set (pinned e')"
proof -
  let ?h = "hash_of demo demo_data" and ?up = "(new_upload ''b'' ''j'' ''text/plain'' demo_ep)\<lparr>up_pinned := [hash_of demo demo_data]\<rparr>"
  let ?e = "demo_engine\<lparr>pinned := [?h], multipart := [(''u'', ?up)]\<rparr>"
  have "writable demo small_bufs demo_bodies ?e ''b'' ''k''" "ensure_unlocked demo ''b'' ''k'' 10 ?e = Inr ()"
    "effective_policy demo ''b'' ''text/plain'' ?e = Inr demo_ep"
    by (simp_all add: demo_empty)
  moreover have "manifest_body demo (put_manifest demo ?e ''text/plain'' demo_ep [demo_data] demo_data 10) \<in> demo_bodies"
    by (simp add: demo_bodies_def put_manifest_def new_manifest_def)
  ultimately obtain oid e' where
    r: "put demo ''b'' ''k'' demo_data ''text/plain'' 10 10 ?e = (Inr oid, e')"
    "map_of (multipart e') ''u'' = Some ?up" "?h \<in> set (up_pinned ?up)" "?h \<notin> set (pinned e')"
    using put_drops_staged_pins [OF _ _ _ demo_encodes, of demo_bodies ?e "''b''" "''k''" 10 "''text/plain''"
        10 "''u''" ?up ?h] by auto
  show ?thesis
    by (rule exI [of _ ?e], rule exI [of _ ?h], rule exI [of _ oid], rule exI [of _ e'], rule exI [of _ ?up])
      (use r in simp)
qed

end
