(* ===== verification/Version_Props.thy ===== *)
theory Version_Props
  imports Demo_Engine
begin

text \<open>
  Properties of locks, versions, lifecycle rules, imports and garbage collection.
\<close>

section \<open>Locks\<close>

text \<open>
  C32: while the lock of an object lies in the future, a write (buffered, streamed or multipart), a
  delete, a restore and an import are all refused with the lock error and change nothing.
\<close>

theorem locks_refuse_changes:
  assumes "validate_key b k = Inr ()" "get_annotation X e b k = Inr a"
    and "locked_until a = Some u" "parse_rfc3339_secs X u = Some secs" "now < secs"
  shows "put X b k data ct now t e = (Inl (Locked b k u), e) \<and>
     put_stream X b k r ct limit now t e = (Inl (Locked b k u), e) \<and>
     create_multipart X b k ct now e = (Inl (Locked b k u), e) \<and>
     delete_object X b k now e = (Inl (Locked b k u), e) \<and>
     restore_version X b k i now e = (Inl (Locked b k u), e) \<and>
     import_object X b k m now e = (Inl (Locked b k u), e)"
proof -
  from assms(2) have "annotation_get X (disk e) (b, k) = Inr a" by (simp add: get_annotation_def)
  with assms(3-5) have "ensure_unlocked X b k now e = Inl (Locked b k u)" by (simp add: ensure_unlocked_def)
  from locked_ops [OF this] assms(1) show ?thesis by blast
qed

definition demo_lock :: annotation where
  "demo_lock = annotation_default\<lparr>locked_until := Some ''99''\<rparr>"

lemma demo_locked:
  obtains d where "store_ok demo small_bufs demo_bodies d" "others [annotation_dir] [] d"
    "annotation_get demo d (''b'', ''k'') = Inr demo_lock"
  using annotation_set_step [OF demo_store_ok [OF demo_bodies_inj], of "(''b'', ''k'')" demo_lock] by auto

lemma demo_lock_time: "parse_rfc3339_secs demo ''99'' = Some 99"
  by (simp add: parse_rfc3339_secs_def demo_simps) (simp add: parse_digits_def u64_max_def digit_val_def strip_plus_def)

theorem locks_refuse_changes_witness:
  "\<exists>e. put demo ''b'' ''k'' demo_data ''text/plain'' 10 10 e = (Inl (Locked ''b'' ''k'' ''99''), e) \<and>
     delete_object demo ''b'' ''k'' 10 e = (Inl (Locked ''b'' ''k'' ''99''), e)"
proof -
  obtain d where "annotation_get demo d (''b'', ''k'') = Inr demo_lock" by (rule demo_locked)
  then have "get_annotation demo (demo_on d) ''b'' ''k'' = Inr demo_lock" by (simp add: get_annotation_def)
  moreover have "locked_until demo_lock = Some ''99''" by (simp add: demo_lock_def)
  moreover have "validate_key ''b'' ''k'' = Inr ()" "(10::nat) < 99" by simp_all
  ultimately have "put demo ''b'' ''k'' demo_data ''text/plain'' 10 10 (demo_on d) =
      (Inl (Locked ''b'' ''k'' ''99''), demo_on d)"
    "delete_object demo ''b'' ''k'' 10 (demo_on d) = (Inl (Locked ''b'' ''k'' ''99''), demo_on d)"
    using locks_refuse_changes demo_lock_time by blast+
  then show ?thesis by blast
qed

text \<open>
  C39: \<open>move_object\<close> does not look at the lock: a locked object is taken away from its key all the
  same, and \<open>copy_object\<close> appends a version to a locked target.
\<close>

theorem move_ignores_lock:
  assumes "store_ok X B M (disk e)" "valid_bucket b" "valid_key k" "valid_bucket c" "valid_key j"
    and "valid_object (b, k)" "ensure_unlocked X b k now e = Inl (Locked b k u)"
    and "eng_history X e b k = Inr h" "h \<noteq> []" "(c, j) \<noteq> (b, k)"
  shows "\<exists>e' e''. move_object X b k c j e = (Inr True, e') \<and> eng_history X e' b k = Inr [] \<and>
     eng_history X e' c j = Inr h \<and> ensure_unlocked X b k now e' = Inl (Locked b k u) \<and>
     copy_object X c j b k e' = (Inr True, e'') \<and> eng_history X e'' b k = Inr [last h]"
proof -
  note ok = assms(1) and v = assms(2-5)
  have hist: "eng_history X e b k = Inr (log_at X (disk e) b k)"
    if "store_ok X B M (disk e)" "valid_bucket b" "valid_key k" for e b k
    using history_eq(1) [OF store_okD(3) [OF that(1)] that(2,3)] by (simp add: eng_history_def)
  from hist [OF ok v(1,2)] assms(8) have h: "log_at X (disk e) b k = h" by simp
  from move_key_step [OF ok v] h assms(9,10) obtain d where d: "move_key X b k c j (disk e) = (Inr True, d)"
    "store_ok X B M d" "log_at X d b k = []" "log_at X d c j = h" "others [pointer_dir] (disk e) d" by auto
  let ?e' = "e\<lparr>disk := d\<rparr>"
  have ok': "store_ok X B M (disk ?e')" using d(2) by simp
  from pointer_copy_step [OF d(2) v(3,4,1,2)] d(3,4) assms(9) obtain d2 where
    c: "pointer_copy X c j b k d = (Inr True, d2)" "store_ok X B M d2" "log_at X d2 b k = [last h]" by auto
  let ?e2 = "?e'\<lparr>disk := d2\<rparr>"
  have ok2: "store_ok X B M (disk ?e2)" using c(2) by simp
  have "annotation_get X d (b, k) = annotation_get X (disk e) (b, k)"
    using annotation_get_eq [OF store_okD(9) [OF ok] assms(6)] annotation_get_eq [OF store_okD(9) [OF d(2)] assms(6)]
      others_agree [OF d(5), THEN agree_contents, of annotation_dir] by (simp add: annotation_path_def)
  then have "ensure_unlocked X b k now ?e' = Inl (Locked b k u)" using assms(7) by (simp add: ensure_unlocked_def)
  moreover have "copy_object X c j b k ?e' = (Inr True, ?e2)"
    using c(1) by (simp add: copy_object_def on_disk_eq)
  moreover have "move_object X b k c j e = (Inr True, ?e')" using d(1) by (simp add: move_object_def on_disk_eq)
  ultimately show ?thesis
    using hist [OF ok' v(1,2)] hist [OF ok' v(3,4)] hist [OF ok2 v(1,2)] d(3,4) c(3)
    by (intro exI [of _ ?e'] exI [of _ ?e2]) simp
qed

theorem move_ignores_lock_witness:
  "\<exists>e e' e''. ensure_unlocked demo ''b'' ''k'' 10 e = Inl (Locked ''b'' ''k'' ''99'') \<and>
     move_object demo ''b'' ''k'' ''c'' ''j'' e = (Inr True, e') \<and> eng_history demo e' ''b'' ''k'' = Inr [] \<and>
     copy_object demo ''c'' ''j'' ''b'' ''k'' e' = (Inr True, e'')"
proof -
  obtain i e where p: "store_ok demo small_bufs demo_bodies (disk e)" "read_manifest_bytes demo e i = Inr demo_data"
    "log_at demo (disk e) ''b'' ''k'' = [i]" by (rule demo_put) simp
  from annotation_set_step [OF p(1), of "(''b'', ''k'')" demo_lock] obtain d where
    d: "store_ok demo small_bufs demo_bodies d" "others [annotation_dir] (disk e) d"
      "annotation_get demo d (''b'', ''k'') = Inr demo_lock" by auto
  let ?e = "e\<lparr>disk := d\<rparr>"
  have ok: "store_ok demo small_bufs demo_bodies (disk ?e)" using d(1) by simp
  have lock: "ensure_unlocked demo ''b'' ''k'' 10 ?e = Inl (Locked ''b'' ''k'' ''99'')"
    using d(3) demo_lock_time by (simp add: ensure_unlocked_def demo_lock_def)
  have "log_at demo d ''b'' ''k'' = [i]"
    using others_agree [OF d(2), THEN log_at_agree, of demo "''b''" "''k''"] p(3) by simp
  then have "eng_history demo ?e ''b'' ''k'' = Inr [i]"
    using history_eq(1) [OF store_okD(3) [OF d(1)], of "''b''" "''k''"] by (simp add: eng_history_def)
  from move_ignores_lock [OF ok _ _ _ _ _ lock this, of "''c''" "''j''"] lock have
    "\<exists>e' e''. ensure_unlocked demo ''b'' ''k'' 10 ?e = Inl (Locked ''b'' ''k'' ''99'') \<and>
       move_object demo ''b'' ''k'' ''c'' ''j'' ?e = (Inr True, e') \<and> eng_history demo e' ''b'' ''k'' = Inr [] \<and>
       copy_object demo ''c'' ''j'' ''b'' ''k'' e' = (Inr True, e'')" by auto
  then show ?thesis by blast
qed

text \<open>
  Moving an object onto itself deletes it: the history is written back to the same pointer
  file, which is then removed.
\<close>

theorem move_onto_itself_deletes:
  assumes "store_ok X B M (disk e)" "valid_bucket b" "valid_key k" "eng_history X e b k = Inr h" "h \<noteq> []"
  shows "\<exists>e'. move_object X b k b k e = (Inr True, e') \<and> eng_history X e' b k = Inr [] \<and>
     get X e' b k = Inr None"
proof -
  note ok = assms(1) and v = assms(2,3)
  have "log_at X (disk e) b k = h"
    using history_eq(1) [OF store_okD(3) [OF ok] v] assms(4) by (simp add: eng_history_def)
  with move_key_step [OF ok v v] assms(5) obtain d where d: "move_key X b k b k (disk e) = (Inr True, d)"
    "store_ok X B M d" "log_at X d b k = []" by auto
  let ?e' = "e\<lparr>disk := d\<rparr>"
  have ok': "store_ok X B M (disk ?e')" using d(2) by simp
  have "move_object X b k b k e = (Inr True, ?e')" using d(1) by (simp add: move_object_def on_disk_eq)
  then show ?thesis
    using get_eq [OF ok' v] history_eq(1) [OF store_okD(3) [OF ok'] v] d(3) by (auto simp: eng_history_def)
qed

theorem move_onto_itself_deletes_witness:
  "\<exists>e e'. get demo e ''b'' ''k'' = Inr (Some demo_data) \<and>
     move_object demo ''b'' ''k'' ''b'' ''k'' e = (Inr True, e') \<and> get demo e' ''b'' ''k'' = Inr None"
proof -
  obtain i e where p: "store_ok demo small_bufs demo_bodies (disk e)" "read_manifest_bytes demo e i = Inr demo_data"
    "log_at demo (disk e) ''b'' ''k'' = [i]" by (rule demo_put) simp
  have "eng_history demo e ''b'' ''k'' = Inr [i]"
    using history_eq(1) [OF store_okD(3) [OF p(1)], of "''b''" "''k''"] p(3) by (simp add: eng_history_def)
  from move_onto_itself_deletes [OF p(1) _ _ this] get_eq [OF p(1), of "''b''" "''k''"] p(2,3) show ?thesis
    by auto
qed

section \<open>Versions and lifecycle\<close>

text \<open>
  Restoring any version of an unlocked key makes it current by appending it: the history keeps
  every earlier entry, and the key reads the restored version's bytes again.
\<close>

theorem restore_rolls_forward:
  assumes "store_ok X B M (disk e)" "valid_bucket b" "valid_key k" "ensure_unlocked X b k now e = Inr ()"
    and "eng_history X e b k = Inr h" "read_object X e i = Inr bs"
  shows "\<exists>e'. restore_version X b k i now e = (Inr (), e') \<and> store_ok X B M (disk e') \<and>
     eng_history X e' b k = Inr (h @ [i]) \<and> get X e' b k = Inr (Some bs)"
proof -
  note ok = assms(1) and v = assms(2,3)
  from assms(6) obtain m where m: "manifest_get X (disk e) i = Inr (Some m)"
    by (auto simp: read_object_def read_manifest_bytes_def fetch_manifest_def result_simps)
  from restore_ok [OF ok v assms(4) m] obtain d where d:
    "restore_version X b k i now e = (Inr (), e\<lparr>disk := d\<rparr>)" "store_ok X B M d" "extends X (disk e) d"
    "\<forall>c j. log_at X d c j = (if c = b \<and> j = k then log_at X (disk e) b k @ [i] else log_at X (disk e) c j)"
    by blast
  let ?e' = "e\<lparr>disk := d\<rparr>"
  have ok': "store_ok X B M (disk ?e')" using d(2) by simp
  have h: "log_at X (disk e) b k = h"
    using history_eq(1) [OF store_okD(3) [OF ok] v] assms(5) by (simp add: eng_history_def)
  have "read_manifest_bytes X ?e' i = Inr bs"
    using read_extends [of X e ?e' i bs] d(3) assms(6) by (simp add: read_object_def)
  then show ?thesis
    using d(1,2,4) h get_eq [OF ok' v] history_eq(1) [OF store_okD(3) [OF ok'] v]
    by (auto simp: eng_history_def)
qed

theorem restore_rolls_forward_witness:
  "\<exists>e e' i. eng_history demo e ''b'' ''j'' = Inr [] \<and>
     restore_version demo ''b'' ''j'' i 10 e = (Inr (), e') \<and> get demo e' ''b'' ''j'' = Inr (Some demo_data)"
proof -
  obtain i e where p: "store_ok demo small_bufs demo_bodies (disk e)" "read_manifest_bytes demo e i = Inr demo_data"
    "log_at demo (disk e) ''b'' ''j'' = []" "others [chunk_dir, manifest_dir, pointer_dir, reverse_dir] [] (disk e)"
    by (rule demo_put) simp
  have h: "eng_history demo e ''b'' ''j'' = Inr []"
    using history_eq(1) [OF store_okD(3) [OF p(1)], of "''b''" "''j''"] p(3) by (simp add: eng_history_def)
  have "ensure_unlocked demo ''b'' ''j'' 10 e = Inr ()"
    using annotation_get_eq [OF store_okD(9) [OF p(1)], of "(''b'', ''j'')"]
      others_agree [OF p(4), THEN agree_contents, of annotation_dir]
    by (simp add: ensure_unlocked_def annotation_path_def annotation_default_def)
  moreover have "read_object demo e i = Inr demo_data" using p(2) by (simp add: read_object_def)
  moreover have "valid_bucket ''b''" "valid_key ''j''" by simp_all
  ultimately show ?thesis using restore_rolls_forward [OF p(1)] h by blast
qed

text \<open>
  C27: a lifecycle pass succeeds and leaves, for every key, exactly what the rules of its pot say:
  nothing when the current version is older than the pot's \<open>expire_after_days\<close>, otherwise the
  newest \<open>max_versions\<close> entries, or the whole history when the pot sets no limit. The lock of an
  object plays no part in it.
\<close>

theorem lifecycle_follows_rules:
  assumes "store_ok X B M (disk e)" "newest_present X (disk e)"
    and "\<forall>b. fs_lookup (disk e) [pointer_dir, b] = Some Dir \<longrightarrow> valid_pot b"
  shows "\<exists>e'. enforce_lifecycle X now e = (Inr (), e') \<and> store_ok X B M (disk e') \<and>
     (\<forall>b k h. valid_bucket b \<longrightarrow> valid_key k \<longrightarrow> eng_history X e b k = Inr h \<longrightarrow>
        eng_history X e' b k = Inr (after_lifecycle X (disk e) (pot_rules X (disk e) b) now h))"
proof -
  from enforce_lifecycle_ok [OF assms, of now] obtain d where
    d: "enforce_lifecycle X now e = (Inr (), e\<lparr>disk := d\<rparr>)" "store_ok X B M d"
      "\<forall>b k. valid_bucket b \<longrightarrow> valid_key k \<longrightarrow>
        log_at X d b k = after_lifecycle X (disk e) (pot_rules X (disk e) b) now (log_at X (disk e) b k)" by blast
  have "eng_history X (e\<lparr>disk := d\<rparr>) b k = Inr (after_lifecycle X (disk e) (pot_rules X (disk e) b) now h)"
    if "valid_bucket b" "valid_key k" "eng_history X e b k = Inr h" for b k h
    using that history_eq(1) [OF store_okD(3) [OF assms(1)] that(1,2)] history_eq(1) [OF store_okD(3) [OF d(2)] that(1,2)]
      d(3) by (simp add: eng_history_def)
  with d(1,2) show ?thesis by auto
qed

theorem lifecycle_follows_rules_witness:
  "\<exists>e e' i. eng_history demo e ''b'' ''k'' = Inr [i, i] \<and> enforce_lifecycle demo 10 e = (Inr (), e') \<and>
     eng_history demo e' ''b'' ''k'' = Inr [i]"
proof -
  obtain i d where d: "store_ok demo small_bufs demo_bodies d"
    "\<forall>c j. log_at demo d c j = (if c = ''b'' \<and> j = ''k'' then [i, i] else [])"
    "\<exists>m. manifest_get demo d i = Inr (Some m)" "meta_config demo d ''b'' = Inr keep_one"
    "\<forall>c. fs_lookup d [pointer_dir, c] = Some Dir \<longrightarrow> c = ''b''"
    by (rule demo_two_versions) (rule that)
  let ?e = "demo_on d"
  have ok: "store_ok demo small_bufs demo_bodies (disk ?e)" using d(1) by simp
  have new: "newest_present demo (disk ?e)" using d(2,3) by (simp add: newest_present_def)
  have pots: "\<forall>b. fs_lookup (disk ?e) [pointer_dir, b] = Some Dir \<longrightarrow> valid_pot b" using d(5) by fastforce
  have h: "eng_history demo ?e ''b'' ''k'' = Inr [i, i]"
    using history_eq(1) [OF store_okD(3) [OF d(1)], of "''b''" "''k''"] d(2) by (simp add: eng_history_def)
  have rules: "pot_rules demo (disk ?e) ''b'' = keep_one" using d(4) by (simp add: pot_rules_def)
  have "after_lifecycle demo (disk ?e) keep_one 10 [i, i] = [i]"
    by (simp add: after_lifecycle_def too_old_def days_of_def keep_of_def keep_one_def bucket_config_default_def)
  moreover have "valid_bucket ''b''" "valid_key ''k''" by simp_all
  ultimately show ?thesis using lifecycle_follows_rules [OF ok new pots, of 10] h rules by metis
qed

section \<open>Garbage collection\<close>

text \<open>
  C8: a garbage-collection pass over a well-formed store succeeds, keeps the store well-formed and
  leaves every stored version of every key readable with the same bytes; pinned chunks stay too,
  however short the grace window.
\<close>

theorem gc_keeps_live_data:
  assumes "store_ok X B M (disk e)"
  shows "\<exists>n e'. gc_sweep X now grace e = (Inr n, e') \<and> store_ok X B M (disk e') \<and>
     (\<forall>b k h. valid_bucket b \<longrightarrow> valid_key k \<longrightarrow> eng_history X e b k = Inr h \<longrightarrow> eng_history X e' b k = Inr h \<and>
        (\<forall>i \<in> set h. \<forall>bs. read_object X e i = Inr bs \<longrightarrow> read_object X e' i = Inr bs)) \<and>
     (\<forall>h \<in> set (pinned e). hash_wf h \<longrightarrow> chunk_bytes X e' h = chunk_bytes X e h)"
proof -
  note ok = assms
  from gc_sweep_ok [OF ok refl, of now grace] obtain n e' where run: "gc_sweep X now grace e = (Inr n, e')"
    by blast
  note g = gc_sweep_run [OF ok run]
  have log: "log_at X (disk e') b k = log_at X (disk e) b k" for b k
    using others_agree [OF g(2), THEN log_at_agree] by simp
  have "eng_history X e' b k = Inr h \<and> (\<forall>i \<in> set h. \<forall>bs. read_object X e i = Inr bs \<longrightarrow> read_object X e' i = Inr bs)"
    if v: "valid_bucket b" "valid_key k" and h: "eng_history X e b k = Inr h" for b k h
  proof -
    have l: "log_at X (disk e) b k = h"
      using history_eq(1) [OF store_okD(3) [OF ok] v] h by (simp add: eng_history_def)
    then have "i \<in> versions X (disk e)" if "i \<in> set h" for i using that v by (auto simp: versions_def)
    then show ?thesis
      using history_eq(1) [OF store_okD(3) [OF g(1)] v] l log gc_reads [OF ok run]
      by (auto simp: eng_history_def read_object_def)
  qed
  moreover have "chunk_bytes X e' h = chunk_bytes X e h" if "h \<in> set (pinned e)" "hash_wf h" for h
    using that g(5) [OF that(2)] chunk_get_ok_iff [OF store_okD(1) [OF ok] that(2)]
      chunk_get_ok_iff [OF store_okD(1) [OF g(1)] that(2)] by (simp add: chunk_bytes_def doomed_def)
  ultimately show ?thesis using run g(1) by blast
qed

theorem gc_keeps_live_data_witness:
  "\<exists>e i n e'. gc_sweep demo 50 0 e = (Inr n, e') \<and> read_object demo e' i = Inr demo_data"
proof -
  obtain i e where p: "store_ok demo small_bufs demo_bodies (disk e)" "read_manifest_bytes demo e i = Inr demo_data"
    "log_at demo (disk e) ''b'' ''k'' = [i]" by (rule demo_put) simp
  have h: "eng_history demo e ''b'' ''k'' = Inr [i]"
    using history_eq(1) [OF store_okD(3) [OF p(1)], of "''b''" "''k''"] p(3) by (simp add: eng_history_def)
  from gc_keeps_live_data [OF p(1), of 50 0] obtain n e' where g: "gc_sweep demo 50 0 e = (Inr n, e')"
    "\<forall>b k h. valid_bucket b \<longrightarrow> valid_key k \<longrightarrow> eng_history demo e b k = Inr h \<longrightarrow> eng_history demo e' b k = Inr h \<and>
        (\<forall>i \<in> set h. \<forall>bs. read_object demo e i = Inr bs \<longrightarrow> read_object demo e' i = Inr bs)" by blast
  have "read_object demo e i = Inr demo_data" using p(2) by (simp add: read_object_def)
  moreover have "valid_bucket ''b''" "valid_key ''k''" "i \<in> set [i]" by simp_all
  ultimately have "read_object demo e' i = Inr demo_data" using g(2) h by blast
  with g(1) show ?thesis by blast
qed

text \<open>
  C23: what nothing references is reclaimed: a chunk that no version of any key uses and no upload
  pins is gone after two passes that lie at least one grace window apart.
\<close>

theorem gc_reclaims_garbage:
  assumes "store_ok X B M (disk e)" "hash_wf h"
    and "h \<notin> set (pinned e)" "h \<notin> referenced X (disk e)"
    and "\<forall>at. map_of (condemned_at X (disk e)) h = Some at \<longrightarrow> at \<le> t1" "t1 + grace \<le> t2"
    and "gc_sweep X t1 grace e = (r1, e1)" "gc_sweep X t2 grace e1 = (r2, e2)"
  shows "chunk_bytes X e2 h = Inr None"
proof -
  have "store_ok X B M (disk e2)"
    using gc_sweep_run(1) [OF gc_sweep_run(1) [OF assms(1,7)] assms(8)] .
  then show ?thesis
    using gc_collects [OF assms] chunk_get_ok_iff [OF store_okD(1) assms(2)] by (simp add: chunk_bytes_def)
qed

theorem gc_reclaims_garbage_witness:
  "\<exists>e h e1 e2 r1 r2. chunk_bytes demo e h = Inr (Some demo_data) \<and>
     gc_sweep demo 10 5 e = (r1, e1) \<and> gc_sweep demo 15 5 e1 = (r2, e2) \<and> chunk_bytes demo e2 h = Inr None"
proof -
  obtain d where d: "store_ok demo small_bufs {} d" "others [chunk_dir] [] d"
    "chunk_at demo d (hash_of demo demo_data) = Some demo_data" "\<forall>b k. log_at demo d b k = []"
    "condemned_at demo d = []" by (rule demo_one_chunk [of "{}"]) (simp, rule that)
  let ?e = "demo_on d" and ?h = "hash_of demo demo_data"
  have wf: "hash_wf ?h" by simp
  obtain r1 e1 where 1: "gc_sweep demo 10 5 ?e = (r1, e1)" by (cases "gc_sweep demo 10 5 ?e")
  obtain r2 e2 where 2: "gc_sweep demo 15 5 e1 = (r2, e2)" by (cases "gc_sweep demo 15 5 e1")
  have ref: "?h \<notin> referenced demo (disk ?e)" using d(4) by (simp add: referenced_def versions_def)
  have ok: "store_ok demo small_bufs {} (disk ?e)" using d(1) by simp
  have "chunk_bytes demo e2 ?h = Inr None"
    by (rule gc_reclaims_garbage [OF ok wf _ ref _ _ 1 2]) (use d(5) in simp_all)
  moreover have "chunk_bytes demo ?e ?h = Inr (Some demo_data)"
    using chunk_get_ok_iff [OF store_okD(1) [OF d(1)] wf] d(3) by (simp add: chunk_bytes_def)
  ultimately show ?thesis using 1 2 by blast
qed

section \<open>Replication\<close>

text \<open>
  A sync that fetches exactly the chunks \<open>missing_chunks\<close> names can adopt the manifest: the
  import succeeds, the key gets the manifest's id as its newest version, and the version reads back
  whenever it read at the source. In the other direction, an import that succeeds on any disk has
  found every chunk, the declared Merkle root and the declared id to be right.
\<close>

theorem import_adopts_object:
  assumes "store_ok X B M (disk e)" "valid_bucket b" "valid_key k" "ensure_unlocked X b k now e = Inr ()"
    and "missing_chunks X e (chunks (chunking m)) = []"
    and "merkle_root (chunking m) = Some (root X (chunks (chunking m)))"
    and "manifest_storable X M m" "object_id m = manifest_id X m" "eng_history X e b k = Inr h"
  shows "\<exists>e'. import_object X b k m now e = (Inr (object_id m), e') \<and> store_ok X B M (disk e') \<and>
     object_manifest X e' (object_id m) = Inr (Some m) \<and> eng_history X e' b k = Inr (h @ [object_id m]) \<and>
     object_root X e' (object_id m) = Inr (root X (chunks (chunking m)))"
proof -
  have cs: "\<forall>h \<in> set (chunks (chunking m)). has_chunk X e h"
    using assms(5) by (auto simp: missing_chunks_def has_chunk_def filter_empty_conv)
  from import_ok [OF assms(1-4) cs _ assms(7,8)] assms(6) obtain d where d:
    "import_object X b k m now e = (Inr (object_id m), e\<lparr>disk := d\<rparr>)" "store_ok X B M d"
    "manifest_get X d (object_id m) = Inr (Some m)"
    "\<forall>c j. log_at X d c j = (if c = b \<and> j = k then log_at X (disk e) b k @ [object_id m] else log_at X (disk e) c j)"
    by auto
  then show ?thesis
    using assms(6,9) history_eq(1) [OF store_okD(3) [OF assms(1)] assms(2,3)]
      history_eq(1) [OF store_okD(3) [OF d(2)] assms(2,3)]
    by (auto simp: eng_history_def object_manifest_def object_root_def fetch_manifest_def root_of_manifest_def)
qed

theorem import_adopts_object_witness:
  "\<exists>d m e'. import_object demo ''b'' ''k'' m 10 (demo_on d) = (Inr (object_id m), e') \<and>
     chunks (chunking m) = [hash_of demo demo_data] \<and> eng_history demo e' ''b'' ''k'' = Inr [object_id m]"
proof -
  let ?n = "put_manifest demo demo_engine ''text/plain'' demo_ep [demo_data] demo_data 10"
  let ?m = "with_id demo ?n"
  obtain d where d: "store_ok demo small_bufs demo_bodies d" "others [chunk_dir] [] d"
    "chunk_at demo d (hash_of demo demo_data) = Some demo_data" "\<forall>b k. log_at demo d b k = []"
    by (rule demo_one_chunk [OF demo_bodies_inj]) (rule that)
  note S = store_okD [OF d(1)]
  have "chunk_has demo d (hash_of demo demo_data)" using chunk_has_eq [OF S(7,5)] d(3) by simp
  then have miss: "missing_chunks demo (demo_on d) (chunks (chunking ?m)) = []"
    by (simp add: missing_chunks_def with_id_def put_manifest_def new_manifest_def)
  have n: "manifest_storable demo demo_bodies ?n"
    unfolding put_manifest_def
    by (rule new_manifest_storable) (simp_all add: demo_bodies_def put_manifest_def)
  have m: "manifest_storable demo demo_bodies ?m"
    using n manifest_wf_object_id [of demo ?n "manifest_id demo ?n"]
    by (simp add: manifest_storable_def with_id_def json_okD(3) [OF demo_json_ok])
  have id: "object_id ?m = manifest_id demo ?m"
    by (simp add: with_id_def manifest_id_def json_okD(3) [OF demo_json_ok])
  have r: "merkle_root (chunking ?m) = Some (root demo (chunks (chunking ?m)))"
    by (simp add: with_id_def put_manifest_def new_manifest_def)
  have ok: "store_ok demo small_bufs demo_bodies (disk (demo_on d))" using d(1) by simp
  have h: "eng_history demo (demo_on d) ''b'' ''k'' = Inr []"
    using history_eq(1) [OF S(3), of "''b''" "''k''"] d(4) by (simp add: eng_history_def)
  have "chunks (chunking ?m) = [hash_of demo demo_data]"
    by (simp add: with_id_def put_manifest_def new_manifest_def)
  with import_adopts_object [OF ok _ _ demo_on_chunks(1) [OF d(1,2)] miss r m id h, of 10] show ?thesis
    by auto
qed

end
