(* ===== verification/Vault.thy ===== *)
theory Vault
  imports Engine_Laws
begin

text \<open>
  What the engine is to its clients: a map from pot and key to a list of versions, each an id with its
  bytes. The engine's commands are gathered in one datatype and executed one after the other; the
  abstract machine says what each of them may do to the map. Chunks, manifests, codecs, pins, condemned
  sets and files do not occur in it.
\<close>

section \<open>Commands\<close>

datatype command =
    Write string string bytes string nat nat
  | Upload string string bytes string nat nat nat
  | Remove string string nat
  | RollBack string string hash nat
  | Adopt string string manifest nat
  | Copy string string string string
  | Move string string string string
  | DropPot string
  | DropEmpty string
  | RenamePot string string
  | Age nat
  | Collect nat nat
  | Configure string bucket_config
  | Annotate string string annotation
  | Receive bytes
  | Assemble string string bytes string "nat list" nat

datatype outcome =
    Stored hash
  | Answer bool
  | Done
  | Refused engine_error

definition replied :: "('a \<Rightarrow> outcome) \<Rightarrow> (engine_error + 'a) \<times> engine \<Rightarrow> outcome \<times> engine" where
  "replied f re = (case fst re of Inl err \<Rightarrow> Refused err | Inr x \<Rightarrow> f x, snd re)"

lemma replied_simps [simp]:
  "replied f (Inl err, e) = (Refused err, e)" "replied f (Inr x, e) = (f x, e)" "snd (replied f re) = snd re"
  by (simp_all add: replied_def)

fun exec :: "ext \<Rightarrow> command \<Rightarrow> engine \<Rightarrow> outcome \<times> engine" where
  "exec X (Write b k data ct clock t) e = replied Stored (put X b k data ct clock t e)"
| "exec X (Upload b k data ct limit clock t) e =
     replied Stored (put_stream X b k \<lparr>rd_bytes = data, rd_error = None\<rparr> ct limit clock t e)"
| "exec X (Remove b k clock) e = replied (\<lambda>_. Done) (delete_object X b k clock e)"
| "exec X (RollBack b k i clock) e = replied (\<lambda>_. Done) (restore_version X b k i clock e)"
| "exec X (Adopt b k m clock) e = replied Stored (import_object X b k m clock e)"
| "exec X (Copy fb fk tb tk) e = replied Answer (copy_object X fb fk tb tk e)"
| "exec X (Move fb fk tb tk) e = replied Answer (move_object X fb fk tb tk e)"
| "exec X (DropPot b) e = replied (\<lambda>_. Done) (delete_bucket X b e)"
| "exec X (DropEmpty b) e = replied Answer (delete_bucket_if_empty X b e)"
| "exec X (RenamePot old new) e = replied (\<lambda>_. Done) (rename_bucket X old new e)"
| "exec X (Age clock) e = replied (\<lambda>_. Done) (enforce_lifecycle X clock e)"
| "exec X (Collect clock grace) e = replied (\<lambda>_. Done) (gc_sweep X clock grace e)"
| "exec X (Configure b cfg) e = replied (\<lambda>_. Done) (set_bucket_config X b cfg e)"
| "exec X (Annotate b k a) e = replied (\<lambda>_. Done) (set_annotation X b k a e)"
| "exec X (Receive bs) e = replied Stored (put_chunk_bytes X bs e)"
| "exec X (Assemble b k data i order t) e = replied Stored (complete_multipart X i order t e)"

section \<open>The abstract machine\<close>

type_synonym vault = "string \<times> string \<Rightarrow> (hash \<times> bytes) list"

fun quiet :: "command \<Rightarrow> bool" where
  "quiet (Collect clock grace) = True"
| "quiet (Configure b cfg) = True"
| "quiet (Annotate b k a) = True"
| "quiet (Receive bs) = True"
| "quiet c = False"

definition append_version :: "string \<Rightarrow> string \<Rightarrow> hash \<Rightarrow> bytes \<Rightarrow> vault \<Rightarrow> vault" where
  "append_version b k i bs V = V((b, k) := V (b, k) @ [(i, bs)])"

inductive vault_step :: "ext \<Rightarrow> command \<Rightarrow> outcome \<Rightarrow> vault \<Rightarrow> vault \<Rightarrow> bool" for X where
  refuses: "vault_step X c (Refused err) V V"
| writes: "vault_step X (Write b k data ct clock t) (Stored i) V (append_version b k i data V)"
| uploads: "vault_step X (Upload b k data ct limit clock t) (Stored i) V (append_version b k i data V)"
| assembles: "vault_step X (Assemble b k data up order t) (Stored i) V (append_version b k i data V)"
| removes: "vault_step X (Remove b k clock) Done V (V((b, k) := []))"
| rolls_back: "(i, bs) \<in> set (V (b, k)) \<Longrightarrow>
    vault_step X (RollBack b k i clock) Done V (append_version b k i bs V)"
| adopts: "fidelity (storage m) = Exact \<longrightarrow> sha256_hex X bs = sha256_hexed (original m) \<Longrightarrow>
    vault_step X (Adopt b k m clock) (Stored (object_id m)) V (append_version b k (object_id m) bs V)"
| copies: "V (fb, fk) = vs @ [(i, bs)] \<Longrightarrow>
    vault_step X (Copy fb fk tb tk) (Answer True) V (append_version tb tk i bs V)"
| moves: "V (fb, fk) \<noteq> [] \<Longrightarrow>
    vault_step X (Move fb fk tb tk) (Answer True) V (V((tb, tk) := V (fb, fk), (fb, fk) := []))"
| no_source: "V (fb, fk) = [] \<Longrightarrow> c = Copy fb fk tb tk \<or> c = Move fb fk tb tk \<Longrightarrow>
    vault_step X c (Answer False) V V"
| drops_pot: "vault_step X (DropPot b) Done V (\<lambda>(c, k). if c = b then [] else V (c, k))"
| drops_empty: "r \<longrightarrow> (\<forall>k. V (b, k) = []) \<Longrightarrow> vault_step X (DropEmpty b) (Answer r) V V"
| renames: "vault_step X (RenamePot old new) Done V
    (\<lambda>(c, k). if c = new then V (old, k) else if c = old then [] else V (c, k))"
| ages: "(\<And>p. suffix (V' p) (V p)) \<Longrightarrow> vault_step X (Age clock) Done V V'"
| quiets: "quiet c \<Longrightarrow> r = Done \<or> (\<exists>h. r = Stored h) \<Longrightarrow> vault_step X c r V V"

inductive_simps vault_step_Refused: "vault_step X c (Refused err) V V'"
inductive_cases write_stepE: "vault_step X (Write b k data ct clock t) r V V'"
inductive_cases collect_stepE: "vault_step X (Collect clock grace) r V V'"

section \<open>The abstraction\<close>

definition body_of :: "ext \<Rightarrow> engine \<Rightarrow> hash \<Rightarrow> bytes" where
  "body_of X e i = (case read_object X e i of Inl _ \<Rightarrow> [] | Inr bs \<Rightarrow> bs)"

definition vault_of :: "ext \<Rightarrow> engine \<Rightarrow> vault" where
  "vault_of X e = (\<lambda>(b, k). if valid_bucket b \<and> valid_key k
     then map (\<lambda>i. (i, body_of X e i)) (log_at X (disk e) b k) else [])"

text \<open>No version that a history names is lost.\<close>

definition whole :: "ext \<Rightarrow> engine \<Rightarrow> bool" where
  "whole X e \<longleftrightarrow> (\<forall>i \<in> versions X (disk e). \<exists>bs. read_object X e i = Inr bs)"

lemma body_of_Inr: "read_object X e i = Inr bs \<Longrightarrow> body_of X e i = bs"
  by (simp add: body_of_def)

lemma log_versions: "valid_bucket b \<Longrightarrow> valid_key k \<Longrightarrow> i \<in> set (log_at X (disk e) b k) \<Longrightarrow> i \<in> versions X (disk e)"
  by (auto simp: versions_def)

text \<open>What a command that loses no readable version does to the abstraction.\<close>

definition keeps_versions :: "ext \<Rightarrow> engine \<Rightarrow> engine \<Rightarrow> bool" where
  "keeps_versions X e e' \<longleftrightarrow>
     (\<forall>i \<in> versions X (disk e). \<forall>bs. read_object X e i = Inr bs \<longrightarrow> read_object X e' i = Inr bs)"

lemma keeps_extends: "extends X (disk e) (disk e') \<Longrightarrow> keeps_versions X e e'"
  by (auto simp: keeps_versions_def read_object_def intro: read_extends)

lemma whole_kept:
  assumes "whole X e" "keeps_versions X e e'" "i \<in> versions X (disk e)"
  obtains bs where "read_object X e i = Inr bs" "read_object X e' i = Inr bs"
  using assms unfolding whole_def keeps_versions_def by blast

lemma body_keeps:
  assumes "whole X e" "keeps_versions X e e'" "i \<in> versions X (disk e)"
  shows "body_of X e' i = body_of X e i"
  by (rule whole_kept [OF assms]) (simp add: body_of_Inr)

lemma logged_keeps:
  assumes "whole X e" "keeps_versions X e e'"
  shows "\<forall>b k. valid_bucket b \<longrightarrow> valid_key k \<longrightarrow>
     (\<forall>i \<in> set (log_at X (disk e) b k). body_of X e' i = body_of X e i)"
  using body_keeps [OF assms] log_versions by blast

lemma vault_shrinks:
  assumes w: "whole X e" and k: "keeps_versions X e e'"
    and log: "\<And>b k. valid_bucket b \<Longrightarrow> valid_key k \<Longrightarrow> set (log_at X (disk e') b k) \<subseteq> versions X (disk e)"
  shows "whole X e'"
    "vault_of X e' = (\<lambda>(b, k). if valid_bucket b \<and> valid_key k
        then map (\<lambda>i. (i, body_of X e i)) (log_at X (disk e') b k) else [])"
proof -
  show "whole X e'" using w k log by (fastforce simp: whole_def keeps_versions_def versions_def)
  show "vault_of X e' = (\<lambda>(b, k). if valid_bucket b \<and> valid_key k
        then map (\<lambda>i. (i, body_of X e i)) (log_at X (disk e') b k) else [])"
    using log body_keeps [OF w k] by (auto simp: vault_of_def fun_eq_iff dest: subsetD)
qed

lemma vault_same:
  assumes "whole X e" "keeps_versions X e e'" "\<And>b k. log_at X (disk e') b k = log_at X (disk e) b k"
  shows "whole X e'" "vault_of X e' = vault_of X e"
proof -
  have "set (log_at X (disk e') b k) \<subseteq> versions X (disk e)" if "valid_bucket b" "valid_key k" for b k
    using that assms(3) log_versions by auto
  note s = vault_shrinks [OF assms(1,2) this]
  show "whole X e'" using s(1) .
  show "vault_of X e' = vault_of X e"
    using logged_keeps [OF assms(1,2)] by (auto simp: vault_of_def fun_eq_iff assms(3))
qed

lemma vault_appends:
  assumes w: "whole X e" and kp: "keeps_versions X e e'" and v: "valid_bucket b" "valid_key k"
    and log: "\<And>c j. log_at X (disk e') c j =
        (if c = b \<and> j = k then log_at X (disk e) b k @ [i] else log_at X (disk e) c j)"
    and new: "read_object X e' i = Inr bs"
  shows "whole X e'" "vault_of X e' = append_version b k i bs (vault_of X e)"
proof -
  have mem: "j \<in> versions X (disk e')  \<longleftrightarrow> j = i \<or> j \<in> versions X (disk e)" for j
    using v by (auto simp: versions_def log split: if_splits)
  have "\<exists>bs. read_object X e' j = Inr bs" if "j \<in> versions X (disk e)" for j
    using whole_kept [OF w kp that] by blast
  then show "whole X e'" using new by (auto simp: whole_def mem)
  show "vault_of X e' = append_version b k i bs (vault_of X e)"
    using v logged_keeps [OF w kp] body_of_Inr [OF new]
    by (auto simp: vault_of_def append_version_def fun_eq_iff log)
qed

section \<open>Commands the simulation covers\<close>

text \<open>
  Names the pointer store can use, bodies inside the sets on which the hash is injective, and, for a
  version taken from elsewhere, one that reads. A roll back goes to a version of the key's own history:
  \<open>restore_version\<close> itself would accept any manifest, also one whose chunks are gone.
\<close>

definition storable :: "ext \<Rightarrow> bytes set \<Rightarrow> bytes set \<Rightarrow> engine \<Rightarrow> string \<Rightarrow> string \<Rightarrow> bytes \<Rightarrow> nat \<Rightarrow> bool" where
  "storable X B M e b ct data t \<longleftrightarrow>
     (\<forall>ep. effective_policy X b ct e = Inr ep \<longrightarrow>
        (\<exists>encs. encodes X (ep_codec ep) B (chunk_split X data) encs \<and>
                manifest_body X (put_manifest X e ct ep encs data t) \<in> M))"

definition readable :: "ext \<Rightarrow> engine \<Rightarrow> manifest \<Rightarrow> bytes \<Rightarrow> bool" where
  "readable X e m bs \<longleftrightarrow>
     (\<exists>c xs. decoder_for (codec (storage m)) = Inr c \<and>
        try_map (fetch_chunk X e c (object_id m)) (chunks (chunking m)) = Inr xs \<and> bs = concat xs \<and>
        (fidelity (storage m) = Exact \<longrightarrow> sha256_hex X bs = sha256_hexed (original m)))"

text \<open>What completing an upload would find of the parts it names.\<close>

definition gathered :: "ext \<Rightarrow> engine \<Rightarrow> staged_upload \<Rightarrow> nat list \<Rightarrow> engine_error + (staged_part \<times> bytes) list" where
  "gathered X e up order =
     try_then (map_err ECodec (decoder_for (up_codec up))) (\<lambda>dec.
       try_map (gather_part X e dec (up_parts up)) (if order = [] then map fst (up_parts up) else order))"

definition assembly :: "ext \<Rightarrow> bytes set \<Rightarrow> engine \<Rightarrow> string \<Rightarrow> string \<Rightarrow> bytes \<Rightarrow> string \<Rightarrow> nat list \<Rightarrow> nat \<Rightarrow> bool" where
  "assembly X M e b k data i order t \<longleftrightarrow>
     (\<exists>up. map_of (multipart e) i = Some up \<and> b = up_bucket up \<and> k = up_key up \<and>
        (\<forall>got c. gathered X e up order = Inr got \<longrightarrow> build_codec (up_codec up) (up_level up) = Inr c \<longrightarrow>
           data = concat (map snd got) \<and> manifest_body X (complete_manifest X e up c got t) \<in> M))"

fun admissible :: "ext \<Rightarrow> bytes set \<Rightarrow> bytes set \<Rightarrow> command \<Rightarrow> engine \<Rightarrow> bool" where
  "admissible X B M (Write b k data ct clock t) e \<longleftrightarrow> valid_bucket b \<and> valid_key k \<and> storable X B M e b ct data t"
| "admissible X B M (Upload b k data ct limit clock t) e \<longleftrightarrow>
     valid_bucket b \<and> valid_key k \<and> storable X B M e b ct data t"
| "admissible X B M (Remove b k clock) e \<longleftrightarrow> valid_bucket b \<and> valid_key k"
| "admissible X B M (RollBack b k i clock) e \<longleftrightarrow>
     valid_bucket b \<and> valid_key k \<and> i \<in> set (log_at X (disk e) b k)"
| "admissible X B M (Adopt b k m clock) e \<longleftrightarrow>
     valid_bucket b \<and> valid_key k \<and> manifest_storable X M m \<and> (\<exists>bs. readable X e m bs)"
| "admissible X B M (Copy fb fk tb tk) e \<longleftrightarrow>
     valid_bucket fb \<and> valid_key fk \<and> valid_bucket tb \<and> valid_key tk"
| "admissible X B M (Move fb fk tb tk) e \<longleftrightarrow>
     valid_bucket fb \<and> valid_key fk \<and> valid_bucket tb \<and> valid_key tk \<and> (fb, fk) \<noteq> (tb, tk)"
| "admissible X B M (DropPot b) e \<longleftrightarrow> valid_bucket b \<and> valid_pot b"
| "admissible X B M (DropEmpty b) e \<longleftrightarrow> valid_bucket b \<and> valid_pot b"
| "admissible X B M (RenamePot old new) e \<longleftrightarrow>
     valid_bucket old \<and> valid_bucket new \<and> valid_pot old \<and> valid_pot new \<and> old \<noteq> new \<and>
     fs_lookup (disk e) [pointer_dir, old] \<noteq> None \<and> fs_lookup (disk e) [pointer_dir, new] = None"
| "admissible X B M (Age clock) e \<longleftrightarrow> (\<forall>b. fs_lookup (disk e) [pointer_dir, b] = Some Dir \<longrightarrow> valid_pot b)"
| "admissible X B M (Collect clock grace) e \<longleftrightarrow> True"
| "admissible X B M (Configure b cfg) e \<longleftrightarrow> valid_pot b"
| "admissible X B M (Annotate b k a) e \<longleftrightarrow> valid_object (b, k)"
| "admissible X B M (Receive bs) e \<longleftrightarrow> bs \<in> B"
| "admissible X B M (Assemble b k data i order t) e \<longleftrightarrow>
     valid_bucket b \<and> valid_key k \<and> assembly X M e b k data i order t"

definition vault_ok :: "ext \<Rightarrow> bytes set \<Rightarrow> bytes set \<Rightarrow> engine \<Rightarrow> bool" where
  "vault_ok X B M e \<longleftrightarrow> zstd_ok X \<and> cdc_ok X \<and> store_ok X B M (disk e) \<and> whole X e"

definition simulates :: "ext \<Rightarrow> bytes set \<Rightarrow> bytes set \<Rightarrow> command \<Rightarrow> engine \<Rightarrow> outcome \<times> engine \<Rightarrow> bool" where
  "simulates X B M c e re \<longleftrightarrow>
     vault_ok X B M (snd re) \<and> vault_step X c (fst re) (vault_of X e) (vault_of X (snd re))"

lemma vault_okD:
  assumes "vault_ok X B M e"
  shows "zstd_ok X" "cdc_ok X" "store_ok X B M (disk e)" "whole X e"
  using assms by (simp_all add: vault_ok_def)

section \<open>Simulation, command by command\<close>

lemma sim_refused: "vault_ok X B M e \<Longrightarrow> simulates X B M c e (Refused err, e)"
  by (simp add: simulates_def vault_step_Refused)

lemma sim_same:
  assumes "vault_ok X B M e" "store_ok X B M (disk e')" "keeps_versions X e e'"
    and "\<And>b k. log_at X (disk e') b k = log_at X (disk e) b k"
    and "vault_step X c r (vault_of X e) (vault_of X e)"
  shows "simulates X B M c e (r, e')"
  using assms(1,2,5) vault_same [OF vault_okD(4) [OF assms(1)] assms(3,4)]
  by (simp add: simulates_def vault_ok_def)

lemma sim_append:
  assumes "vault_ok X B M e" "store_ok X B M (disk e')" "keeps_versions X e e'" "valid_bucket b" "valid_key k"
    and "\<And>c j. log_at X (disk e') c j =
        (if c = b \<and> j = k then log_at X (disk e) b k @ [i] else log_at X (disk e) c j)"
    and "read_object X e' i = Inr bs"
    and "vault_step X c r (vault_of X e) (append_version b k i bs (vault_of X e))"
  shows "simulates X B M c e (r, e')"
  using assms(1,2,8) vault_appends [OF vault_okD(4) [OF assms(1)] assms(3-7)]
  by (simp add: simulates_def vault_ok_def)

lemma sim_write:
  assumes v: "vault_ok X B M e" and a: "admissible X B M (Write b k data ct clock t) e"
  shows "simulates X B M (Write b k data ct clock t) e (exec X (Write b k data ct clock t) e)"
proof (cases "validate_key b k")
  case (Inl err)
  then show ?thesis using v by (simp add: put_def sim_refused)
next
  case val: (Inr u)
  note V = vault_okD [OF v]
  show ?thesis
  proof (cases "ensure_unlocked X b k clock e")
    case (Inl err)
    then show ?thesis using v val by (simp add: put_def sim_refused)
  next
    case lock: (Inr u)
    show ?thesis
    proof (cases "effective_policy X b ct e")
      case (Inl err)
      then show ?thesis using v val lock by (simp add: put_def sim_refused)
    next
      case (Inr ep)
      have w: "writable X B M e b k" using V a val by (simp add: writable_def)
      from a Inr obtain encs where encs: "encodes X (ep_codec ep) B (chunk_split X data) encs"
        "manifest_body X (put_manifest X e ct ep encs data t) \<in> M" by (auto simp: storable_def)
      from put_ok [OF w _ Inr encs, of clock] lock obtain i e' where
        p: "put X b k data ct clock t e = (Inr i, e')" "store_ok X B M (disk e')" "extends X (disk e) (disk e')"
          "read_manifest_bytes X e' i = Inr data"
          "\<forall>c j. log_at X (disk e') c j = (if c = b \<and> j = k then log_at X (disk e) b k @ [i] else log_at X (disk e) c j)"
        by auto
      have "simulates X B M (Write b k data ct clock t) e (Stored i, e')"
        by (rule sim_append [OF v p(2) keeps_extends [OF p(3)] _ _ p(5) [rule_format] _ writes])
          (use a p(4) in \<open>simp_all add: read_object_def\<close>)
      with p(1) show ?thesis by simp
    qed
  qed
qed

text \<open>Parts that cannot be gathered any more refuse the completion; the upload is gone either way.\<close>

lemma commit_parts_gathered:
  assumes "commit_parts X up (if order = [] then map fst (up_parts up) else order) t e = (r, e')"
  shows "(\<exists>err. r = Inl err \<and> e' = e) \<or>
     (\<exists>got c. gathered X e up order = Inr got \<and> build_codec (up_codec up) (up_level up) = Inr c)"
  using assms unfolding commit_parts_def gathered_def Let_def
  by (elim and_thenE) auto

lemma sim_assemble:
  assumes v: "vault_ok X B M e" and a: "admissible X B M (Assemble b k data i order t) e"
  shows "simulates X B M (Assemble b k data i order t) e (exec X (Assemble b k data i order t) e)"
proof -
  note V = vault_okD [OF v]
  from a obtain up where up: "map_of (multipart e) i = Some up" "b = up_bucket up" "k = up_key up"
    and n: "valid_bucket b" "valid_key k"
    and g: "\<And>got c. gathered X e up order = Inr got \<Longrightarrow> build_codec (up_codec up) (up_level up) = Inr c \<Longrightarrow>
        data = concat (map snd got) \<and> manifest_body X (complete_manifest X e up c got t) \<in> M"
    by (auto simp: assembly_def)
  let ?e1 = "e\<lparr>multipart := AList.delete i (multipart e)\<rparr>"
  let ?order = "if order = [] then map fst (up_parts up) else order"
  have same: "gathered X ?e1 up order = gathered X e up order"
    by (simp add: gathered_def gather_part_def [abs_def] staged_chunk_def [abs_def])
  obtain r e2 where run: "commit_parts X up ?order t ?e1 = (r, e2)" by force
  from commit_parts_gathered [OF run] show ?thesis
  proof (elim disjE exE conjE)
    fix err assume "r = Inl err" "e2 = ?e1"
    with run up(1) have c: "complete_multipart X i order t e = (Inl err, release_pins (up_pinned up) ?e1)"
      by (simp only: complete_multipart_def option.case Let_def sum.case prod.case)
    have "simulates X B M (Assemble b k data i order t) e (Refused err, release_pins (up_pinned up) ?e1)"
      by (rule sim_same [OF v _ keeps_extends _ refuses]) (use V(3) in simp_all)
    with c show ?thesis by simp
  next
    fix got c assume got: "gathered X ?e1 up order = Inr got" and c: "build_codec (up_codec up) (up_level up) = Inr c"
    from got obtain dec where dec: "decoder_for (up_codec up) = Inr dec"
      "try_map (gather_part X e dec (up_parts up)) ?order = Inr got"
      unfolding same by (auto simp: gathered_def result_simps split del: if_split)
    note d = g [OF got [unfolded same] c]
    from complete_gathered [OF V(3) up(1) n [unfolded up(2,3)] dec(1) c dec(2) conjunct2 [OF d]] obtain oid e' where
      p: "complete_multipart X i order t e = (Inr oid, e')" "store_ok X B M (disk e')" "extends X (disk e) (disk e')"
        "read_manifest_bytes X e' oid = Inr (concat (map snd got))"
        "\<forall>b k. log_at X (disk e') b k =
          (if b = up_bucket up \<and> k = up_key up then log_at X (disk e) b k @ [oid] else log_at X (disk e) b k)"
      by blast
    have log: "log_at X (disk e') c j = (if c = b \<and> j = k then log_at X (disk e) b k @ [oid] else log_at X (disk e) c j)" for c j
      using p(5) up(2,3) by simp
    have "simulates X B M (Assemble b k data i order t) e (Stored oid, e')"
      by (rule sim_append [OF v p(2) keeps_extends [OF p(3)] n log _ assembles]) (use p(4) d in \<open>simp add: read_object_def\<close>)
    with p(1) show ?thesis by simp
  qed
qed

text \<open>A stream over its limit is refused; its chunks stay behind as garbage.\<close>

lemma stream_loop_limit:
  assumes "stream_loop X c limit (map Inr items) p e = (Inr u, p', e')" "pr_orig p \<le> limit"
  shows "pr_orig p + sum_list (map (length \<circ> snd) items) \<le> limit"
  using assms
proof (induction items arbitrary: p e)
  case (Cons it items)
  obtain h b where it: "it = (h, b)" by (cases it)
  let ?q = "p\<lparr>pr_orig := pr_orig p + length b, pr_hashed := pr_hashed p @ b\<rparr>"
  from Cons.prems(1) it obtain q e1 where 1: "pr_orig p + length b \<le> limit" "store_chunk X c b ?q e = (Inr q, e1)"
    "stream_loop X c limit (map Inr items) q e1 = (Inr u, p', e')"
    by (auto simp: Let_def split: if_splits sum.splits prod.splits)
  have "pr_orig q = pr_orig p + length b"
    using 1(2) by (auto simp: store_chunk_def on_disk_def elim!: and_thenE split: sum.splits)
  with Cons.IH [OF 1(3)] 1(1) it show ?case by simp
qed simp

lemma put_stream_too_long:
  assumes "cdc_ok X" "store_ok X B M (disk e)" "validate_key b k = Inr ()" "ensure_unlocked X b k clock e = Inr ()"
    and "effective_policy X b ct e = Inr ep" "encodes X (ep_codec ep) B (chunk_split X data) encs" "limit < length data"
  shows "\<exists>err e'. put_stream X b k \<lparr>rd_bytes = data, rd_error = None\<rparr> ct limit clock t e = (Inl err, e') \<and>
     store_ok X B M (disk e') \<and> others [chunk_dir] (disk e) (disk e') \<and> extends X (disk e) (disk e')"
proof -
  let ?items = "chunk_split X data" and ?r = "\<lparr>rd_bytes = data, rd_error = None\<rparr>"
  have stream: "chunk_stream X ?r = map Inr ?items" using chunk_stream_ok [OF assms(1), of ?r] by simp
  have total: "sum_list (map (length \<circ> snd) ?items) = length data"
    using chunk_split_concat(1) [OF assms(1), of data] by (metis length_concat map_map)
  obtain r p' e' where run: "stream_loop X (ep_codec ep) limit (map Inr ?items) no_progress e = (r, p', e')"
    by (cases "stream_loop X (ep_codec ep) limit (map Inr ?items) no_progress e")
  have "enc \<in> B" if "Inr (h, x) \<in> set (map Inr ?items :: (io_error + hash \<times> bytes) list)"
    "codec_encode X (ep_codec ep) x = Inr enc" for h x enc
    using that assms(6) by (fastforce simp: encodes_def list_all2_conv_all_nth in_set_conv_nth)
  note F = stream_loop_frame [OF assms(2) this run]
  obtain err where "r = Inl err"
    using stream_loop_limit [of X "ep_codec ep" limit ?items no_progress e _ p' e'] run total assms(7) by (cases r) auto
  then show ?thesis using assms(3-5) run stream F by (simp add: put_stream_def)
qed

lemma sim_upload:
  assumes v: "vault_ok X B M e" and a: "admissible X B M (Upload b k data ct limit clock t) e"
  shows "simulates X B M (Upload b k data ct limit clock t) e (exec X (Upload b k data ct limit clock t) e)"
proof (cases "length data \<le> limit")
  case True
  have same: "exec X (Upload b k data ct limit clock t) e = exec X (Write b k data ct clock t) e"
    using put_stream_put [OF vault_okD(2) [OF v] True] by simp
  have "admissible X B M (Write b k data ct clock t) e" using a by simp
  from sim_write [OF v this] same [symmetric] show ?thesis
    unfolding same simulates_def by (auto elim!: write_stepE intro: refuses uploads)
next
  case False
  then have lim: "limit < length data" by simp
  note V = vault_okD [OF v]
  show ?thesis
  proof (cases "validate_key b k = Inr () \<and> ensure_unlocked X b k clock e = Inr () \<and> (\<exists>ep. effective_policy X b ct e = Inr ep)")
    case True
    then obtain ep where ep: "validate_key b k = Inr ()" "ensure_unlocked X b k clock e = Inr ()"
      "effective_policy X b ct e = Inr ep" by blast
    from a ep(3) obtain encs where "encodes X (ep_codec ep) B (chunk_split X data) encs" by (auto simp: storable_def)
    from put_stream_too_long [OF V(2,3) ep this lim, of t] obtain err e' where
      p: "put_stream X b k \<lparr>rd_bytes = data, rd_error = None\<rparr> ct limit clock t e = (Inl err, e')"
        "store_ok X B M (disk e')" "others [chunk_dir] (disk e) (disk e')" "extends X (disk e) (disk e')" by (elim exE conjE) (rule that)
    have "log_at X (disk e') c j = log_at X (disk e) c j" for c j
      using others_agree [OF p(3), THEN log_at_agree] by simp
    from sim_same [OF v p(2) keeps_extends [OF p(4)] this refuses] p(1) show ?thesis by simp
  next
    case False
    then have "\<exists>err. put_stream X b k \<lparr>rd_bytes = data, rd_error = None\<rparr> ct limit clock t e = (Inl err, e)"
      by (cases "validate_key b k"; cases "ensure_unlocked X b k clock e"; cases "effective_policy X b ct e")
        (auto simp: put_stream_def)
    then show ?thesis using sim_refused [OF v] by auto
  qed
qed

text \<open>A command after which every history holds versions that some history held before.\<close>

definition entries_at :: "ext \<Rightarrow> engine \<Rightarrow> hash list \<Rightarrow> (hash \<times> bytes) list" where
  "entries_at X e js = map (\<lambda>i. (i, body_of X e i)) js"

lemma vault_at:
  "valid_bucket b \<Longrightarrow> valid_key k \<Longrightarrow> vault_of X e (b, k) = entries_at X e (log_at X (disk e) b k)"
  by (simp add: vault_of_def entries_at_def)

lemma vault_invalid: "\<not> (valid_bucket b \<and> valid_key k) \<Longrightarrow> vault_of X e (b, k) = []"
  by (auto simp: vault_of_def)

lemma entries_at_simps [simp]:
  "entries_at X e [] = []" "entries_at X e js = [] \<longleftrightarrow> js = []"
  by (simp_all add: entries_at_def)

lemma sim_shrink:
  assumes v: "vault_ok X B M e" and ok: "store_ok X B M (disk e')" and ext: "extends X (disk e) (disk e')"
    and log: "\<And>b k. valid_bucket b \<Longrightarrow> valid_key k \<Longrightarrow> set (log_at X (disk e') b k) \<subseteq> versions X (disk e)"
    and V: "\<And>b k. valid_bucket b \<Longrightarrow> valid_key k \<Longrightarrow> V' (b, k) = entries_at X e (log_at X (disk e') b k)"
      "\<And>b k. \<not> (valid_bucket b \<and> valid_key k) \<Longrightarrow> V' (b, k) = []"
    and step: "vault_step X c r (vault_of X e) V'"
  shows "simulates X B M c e (r, e')"
proof -
  note s = vault_shrinks [OF vault_okD(4) [OF v] keeps_extends [OF ext] log]
  have "vault_of X e' = V'" using V by (auto simp: s(2) fun_eq_iff entries_at_def)
  with s(1) ok v step show ?thesis by (simp add: simulates_def vault_ok_def)
qed

lemma sim_remove:
  assumes v: "vault_ok X B M e" and a: "admissible X B M (Remove b k clock) e"
  shows "simulates X B M (Remove b k clock) e (exec X (Remove b k clock) e)"
proof (cases "ensure_unlocked X b k clock e")
  case (Inl err)
  then show ?thesis using sim_refused [OF v] by (simp add: locked_ops)
next
  case (Inr u)
  note V = vault_okD [OF v]
  from delete_ok [OF V(3) _ _ Inr [simplified], of] a obtain d where
    d: "delete_object X b k clock e = (Inr (), e\<lparr>disk := d\<rparr>)" "store_ok X B M d" "extends X (disk e) d"
      "\<forall>c j. log_at X d c j = (if c = b \<and> j = k then [] else log_at X (disk e) c j)" by auto
  have "simulates X B M (Remove b k clock) e (Done, e\<lparr>disk := d\<rparr>)"
    by (rule sim_shrink [OF v _ _ _ _ _ removes])
      (use d a in \<open>auto simp: vault_at vault_invalid dest: log_versions\<close>)
  with d(1) show ?thesis by simp
qed

lemma sim_roll_back:
  assumes v: "vault_ok X B M e" and a: "admissible X B M (RollBack b k i clock) e"
  shows "simulates X B M (RollBack b k i clock) e (exec X (RollBack b k i clock) e)"
proof (cases "ensure_unlocked X b k clock e")
  case (Inl err)
  then show ?thesis using sim_refused [OF v] by (simp add: locked_ops)
next
  case (Inr u)
  note V = vault_okD [OF v]
  have n: "valid_bucket b" "valid_key k" "i \<in> set (log_at X (disk e) b k)" using a by auto
  from log_versions [OF n] V(4) obtain bs where bs: "read_object X e i = Inr bs" by (auto simp: whole_def)
  then obtain m where m: "manifest_get X (disk e) i = Inr (Some m)"
    by (auto simp: read_object_def read_manifest_bytes_def fetch_manifest_def result_simps)
  from restore_ok [OF V(3) n(1,2) _ m, of clock] Inr obtain d where
    d: "restore_version X b k i clock e = (Inr (), e\<lparr>disk := d\<rparr>)" "store_ok X B M d" "extends X (disk e) d"
      "\<forall>c j. log_at X d c j = (if c = b \<and> j = k then log_at X (disk e) b k @ [i] else log_at X (disk e) c j)"
    by auto
  have kp: "keeps_versions X e (e\<lparr>disk := d\<rparr>)" by (rule keeps_extends) (simp add: d(3))
  have "(i, bs) \<in> set (vault_of X e (b, k))" using n body_of_Inr [OF bs] by (force simp: vault_of_def)
  moreover have "read_object X (e\<lparr>disk := d\<rparr>) i = Inr bs"
    using kp bs log_versions [OF n] by (simp add: keeps_versions_def)
  ultimately have "simulates X B M (RollBack b k i clock) e (Done, e\<lparr>disk := d\<rparr>)"
    by (intro sim_append [OF v _ kp n(1,2) _ _ rolls_back]) (use d in simp_all)
  with d(1) show ?thesis by simp
qed

lemma sim_copy:
  assumes v: "vault_ok X B M e" and a: "admissible X B M (Copy fb fk tb tk) e"
  shows "simulates X B M (Copy fb fk tb tk) e (exec X (Copy fb fk tb tk) e)"
proof -
  note V = vault_okD [OF v]
  have n: "valid_bucket fb" "valid_key fk" "valid_bucket tb" "valid_key tk" using a by auto
  let ?L = "log_at X (disk e) fb fk"
  from pointer_copy_step [OF V(3) n] obtain d where
    d: "copy_object X fb fk tb tk e = (Inr (?L \<noteq> []), e\<lparr>disk := d\<rparr>)" "store_ok X B M d" "extends X (disk e) d"
      "\<forall>c j. log_at X d c j = (if c = tb \<and> j = tk \<and> ?L \<noteq> [] then log_at X (disk e) tb tk @ [last ?L]
        else log_at X (disk e) c j)" by (auto simp: copy_object_def on_disk_eq)
  have kp: "keeps_versions X e (e\<lparr>disk := d\<rparr>)" by (rule keeps_extends) (simp add: d(3))
  show ?thesis
  proof (cases "?L = []")
    case True
    have "simulates X B M (Copy fb fk tb tk) e (Answer False, e\<lparr>disk := d\<rparr>)"
      by (rule sim_same [OF v _ kp _ no_source]) (use d True n in \<open>auto simp: vault_at\<close>)
    with d(1) True show ?thesis by simp
  next
    case False
    then obtain js i where L: "?L = js @ [i]" by (metis append_butlast_last_id)
    have i: "i \<in> versions X (disk e)" by (rule log_versions [OF n(1,2)]) (simp add: L)
    then obtain bs where bs: "read_object X e i = Inr bs" using V(4) by (auto simp: whole_def)
    have "read_object X (e\<lparr>disk := d\<rparr>) i = Inr bs" using kp bs i by (simp add: keeps_versions_def)
    then have "simulates X B M (Copy fb fk tb tk) e (Answer True, e\<lparr>disk := d\<rparr>)"
      by (intro sim_append [OF v _ kp n(3,4) _ _ copies [where vs = "entries_at X e js"]])
        (use d L n body_of_Inr [OF bs] in \<open>auto simp: vault_at entries_at_def\<close>)
    with d(1) L show ?thesis by simp
  qed
qed

lemma sim_move:
  assumes v: "vault_ok X B M e" and a: "admissible X B M (Move fb fk tb tk) e"
  shows "simulates X B M (Move fb fk tb tk) e (exec X (Move fb fk tb tk) e)"
proof -
  note V = vault_okD [OF v]
  have n: "valid_bucket fb" "valid_key fk" "valid_bucket tb" "valid_key tk" "(fb, fk) \<noteq> (tb, tk)" using a by auto
  let ?L = "log_at X (disk e) fb fk"
  from move_key_step [OF V(3) n(1-4)] obtain d where
    d: "move_object X fb fk tb tk e = (Inr (?L \<noteq> []), e\<lparr>disk := d\<rparr>)" "store_ok X B M d" "extends X (disk e) d"
      "\<forall>c j. log_at X d c j = (if ?L = [] then log_at X (disk e) c j else if c = fb \<and> j = fk then []
        else if c = tb \<and> j = tk then ?L else log_at X (disk e) c j)"
    by (auto simp: move_object_def on_disk_eq)
  show ?thesis
  proof (cases "?L = []")
    case True
    have "simulates X B M (Move fb fk tb tk) e (Answer False, e\<lparr>disk := d\<rparr>)"
      by (rule sim_same [OF v _ keeps_extends _ no_source]) (use d True n in \<open>auto simp: vault_at\<close>)
    with d(1) True show ?thesis by simp
  next
    case False
    have "simulates X B M (Move fb fk tb tk) e (Answer True, e\<lparr>disk := d\<rparr>)"
      by (rule sim_shrink [OF v _ _ _ _ _ moves])
        (use d False n in \<open>auto simp: vault_at vault_invalid dest: log_versions split: if_splits\<close>)
    with d(1) False show ?thesis by simp
  qed
qed

lemma delete_bucket_step:
  assumes ok: "store_ok X B M (disk e)" and b: "valid_bucket b" "valid_pot b"
  shows "\<exists>d. delete_bucket X b e = (Inr (), e\<lparr>disk := d\<rparr>) \<and> store_ok X B M d \<and> extends X (disk e) d \<and>
     (\<forall>c k. log_at X d c k = (if c = b then [] else log_at X (disk e) c k))"
proof -
  from pointer_delete_bucket_step [OF ok b(1)] obtain d1 where 1: "pointer_delete_bucket b (disk e) = (Inr (), d1)"
    "store_ok X B M d1" "extends X (disk e) d1" "\<forall>c k. log_at X d1 c k = (if c = b then [] else log_at X (disk e) c k)"
    by auto
  from meta_delete_step [OF 1(2) b(2)] obtain d2 where 2: "meta_delete_bucket X b d1 = (Inr (), d2)"
    "store_ok X B M d2" "others [meta_dir] d1 d2" "extends X d1 d2" by auto
  have "log_at X d2 c k = log_at X d1 c k" for c k using others_agree [OF 2(3), THEN log_at_agree] by simp
  moreover have "delete_bucket X b e = (Inr (), e\<lparr>disk := d2\<rparr>)"
    using 1(1) 2(1) by (simp add: delete_bucket_def on_disk_eq)
  ultimately show ?thesis using 1(4) 2(2) extends_trans [OF 1(3) 2(4)] by auto
qed

lemma sim_drop_pot:
  assumes v: "vault_ok X B M e" and a: "admissible X B M (DropPot b) e"
  shows "simulates X B M (DropPot b) e (exec X (DropPot b) e)"
proof -
  from delete_bucket_step [OF vault_okD(3) [OF v], of b] a obtain d where
    d: "delete_bucket X b e = (Inr (), e\<lparr>disk := d\<rparr>)" "store_ok X B M d" "extends X (disk e) d"
      "\<forall>c k. log_at X d c k = (if c = b then [] else log_at X (disk e) c k)" by auto
  have "simulates X B M (DropPot b) e (Done, e\<lparr>disk := d\<rparr>)"
    by (rule sim_shrink [OF v _ _ _ _ _ drops_pot])
      (use d in \<open>auto simp: vault_at vault_invalid dest: log_versions split: if_splits\<close>)
  with d(1) show ?thesis by simp
qed

lemma sim_drop_empty:
  assumes v: "vault_ok X B M e" and a: "admissible X B M (DropEmpty b) e"
  shows "simulates X B M (DropEmpty b) e (exec X (DropEmpty b) e)"
proof -
  note V = vault_okD [OF v]
  have b: "valid_bucket b" "valid_pot b" using a by auto
  from pointer_list_ok [OF store_okD(3) [OF V(3)] b(1)] obtain ks where ks: "keys X e b = Inr ks"
    "set ks = {k. valid_key k \<and> contents (disk e) (pointer_file X b k) \<noteq> None}" by (auto simp: keys_def)
  show ?thesis
  proof (cases "ks = []")
    case False
    then have "simulates X B M (DropEmpty b) e (Answer False, e)"
      by (intro sim_same [OF v V(3) _ refl drops_empty]) (simp_all add: keeps_versions_def)
    with ks(1) False show ?thesis by (simp add: delete_bucket_if_empty_def)
  next
    case True
    then have none: "log_at X (disk e) b k = []" if "valid_key k" for k
      using ks(2) that log_at_None [of X "disk e" b k] by auto
    from delete_bucket_step [OF V(3) b] obtain d where
      d: "delete_bucket X b e = (Inr (), e\<lparr>disk := d\<rparr>)" "store_ok X B M d" "extends X (disk e) d"
        "\<forall>c k. log_at X d c k = (if c = b then [] else log_at X (disk e) c k)" by auto
    have "simulates X B M (DropEmpty b) e (Answer True, e\<lparr>disk := d\<rparr>)"
      by (rule sim_shrink [OF v _ _ _ _ _ drops_empty])
        (use d none b in \<open>auto simp: vault_of_def entries_at_def dest: log_versions split: if_splits\<close>)
    with d(1) ks(1) True show ?thesis by (simp add: delete_bucket_if_empty_def)
  qed
qed

lemma sim_rename:
  assumes v: "vault_ok X B M e" and a: "admissible X B M (RenamePot old new) e"
  shows "simulates X B M (RenamePot old new) e (exec X (RenamePot old new) e)"
proof -
  note V = vault_okD [OF v]
  have n: "valid_bucket old" "valid_bucket new" "old \<noteq> new" "fs_lookup (disk e) [pointer_dir, old] \<noteq> None"
    "fs_lookup (disk e) [pointer_dir, new] = None" "valid_pot old" "valid_pot new" using a by auto
  from pointer_rename_bucket_step [OF V(3) n(1-5)] obtain d1 where
    1: "pointer_rename_bucket old new (disk e) = (Inr (), d1)" "store_ok X B M d1" "extends X (disk e) d1"
      "\<forall>c k. log_at X d1 c k =
        (if c = new then log_at X (disk e) old k else if c = old then [] else log_at X (disk e) c k)" by auto
  from meta_rename_step [OF 1(2) n(6,7,3)] obtain d2 where 2: "meta_rename_bucket X old new d1 = (Inr (), d2)"
    "store_ok X B M d2" "others [meta_dir] d1 d2" "extends X d1 d2" by auto
  have l: "log_at X d2 c k = log_at X d1 c k" for c k using others_agree [OF 2(3), THEN log_at_agree] by simp
  have "simulates X B M (RenamePot old new) e (Done, e\<lparr>disk := d2\<rparr>)"
    by (rule sim_shrink [OF v _ _ _ _ _ renames])
      (use 1(4) 2(2) l n extends_trans [OF 1(3) 2(4)] in
        \<open>auto simp: vault_at vault_invalid dest: log_versions split: if_splits\<close>)
  with 1(1) 2(1) show ?thesis by (simp add: rename_bucket_def on_disk_eq)
qed

lemma after_lifecycle_suffix: "suffix (after_lifecycle X d cfg clock log) log"
  by (simp add: after_lifecycle_def suffix_drop)

lemma newest_whole: "whole X e \<Longrightarrow> newest_present X (disk e)"
  unfolding newest_present_def
proof (intro allI impI)
  fix b k assume w: "whole X e" and "valid_bucket b" "valid_key k" "log_at X (disk e) b k \<noteq> []"
  then have "last (log_at X (disk e) b k) \<in> versions X (disk e)"
    using last_in_set log_versions by metis
  then show "\<exists>m. manifest_get X (disk e) (last (log_at X (disk e) b k)) = Inr (Some m)"
    using w by (auto simp: whole_def read_object_def read_manifest_bytes_def fetch_manifest_def result_simps)
qed

lemma sim_age:
  assumes v: "vault_ok X B M e" and a: "admissible X B M (Age clock) e"
  shows "simulates X B M (Age clock) e (exec X (Age clock) e)"
proof -
  note V = vault_okD [OF v]
  from enforce_lifecycle_ok [OF V(3) newest_whole [OF V(4)], of clock] a obtain d where
    d: "enforce_lifecycle X clock e = (Inr (), e\<lparr>disk := d\<rparr>)" "store_ok X B M d" "others [pointer_dir] (disk e) d"
      "\<forall>b k. valid_bucket b \<longrightarrow> valid_key k \<longrightarrow>
        log_at X d b k = after_lifecycle X (disk e) (pot_rules X (disk e) b) clock (log_at X (disk e) b k)"
    by auto
  have sub: "set (log_at X d b k) \<subseteq> versions X (disk e)" if "valid_bucket b" "valid_key k" for b k
    using d(4) that after_lifecycle_suffix set_mono_suffix log_versions [OF that] by (metis subset_iff)
  let ?V = "\<lambda>(b, k). if valid_bucket b \<and> valid_key k then entries_at X e (log_at X d b k) else []"
  have "suffix (?V p) (vault_of X e p)" for p
    using d(4) after_lifecycle_suffix
    by (cases p) (auto simp: vault_of_def entries_at_def intro: map_mono_suffix)
  then have "simulates X B M (Age clock) e (Done, e\<lparr>disk := d\<rparr>)"
    by (intro sim_shrink [OF v _ _ _ _ _ ages, of _ ?V])
      (use d(2) sub pointer_change(2) [OF V(3) store_okD(3) [OF d(2)] d(3)] in auto)
  with d(1) show ?thesis by simp
qed

lemma sim_collect:
  assumes v: "vault_ok X B M e"
  shows "simulates X B M (Collect clock grace) e (exec X (Collect clock grace) e)"
proof -
  note V = vault_okD [OF v]
  from gc_sweep_ok [OF V(3) refl, of clock grace] obtain n e' where run: "gc_sweep X clock grace e = (Inr n, e')"
    by blast
  note g = gc_sweep_run(1,2) [OF V(3) run]
  have "keeps_versions X e e'"
    unfolding keeps_versions_def read_object_def using gc_reads [OF V(3) run] by blast
  moreover have "log_at X (disk e') b k = log_at X (disk e) b k" for b k
    using others_agree [OF g(2), THEN log_at_agree] by simp
  ultimately have "simulates X B M (Collect clock grace) e (Done, e')"
    by (intro sim_same [OF v g(1)] quiets) simp_all
  with run show ?thesis by simp
qed

text \<open>Settings and loose chunks.\<close>

lemma sim_side:
  assumes "vault_ok X B M e" "store_ok X B M d" "others ts (disk e) d" "pointer_dir \<notin> set ts" "extends X (disk e) d"
    and "quiet c" "r = Done \<or> (\<exists>h. r = Stored h)"
  shows "simulates X B M c e (r, e\<lparr>disk := d\<rparr>)"
  by (rule sim_same [OF assms(1) _ keeps_extends _ quiets [OF assms(6,7)]])
    (use assms others_agree [OF assms(3,4), THEN log_at_agree] in simp_all)

lemma sim_configure:
  assumes v: "vault_ok X B M e" and a: "admissible X B M (Configure b cfg) e"
  shows "simulates X B M (Configure b cfg) e (exec X (Configure b cfg) e)"
proof -
  from meta_set_config_step [OF vault_okD(3) [OF v], of b cfg] a obtain d where
    d: "meta_set_config X b cfg (disk e) = (Inr (), d)" "store_ok X B M d" "others [meta_dir] (disk e) d"
      "extends X (disk e) d" by auto
  from sim_side [OF v d(2,3) _ d(4)] d(1) show ?thesis by (simp add: set_bucket_config_def on_disk_eq)
qed

lemma sim_annotate:
  assumes v: "vault_ok X B M e" and a: "admissible X B M (Annotate b k an) e"
  shows "simulates X B M (Annotate b k an) e (exec X (Annotate b k an) e)"
proof -
  from annotation_set_step [OF vault_okD(3) [OF v], of "(b, k)" an] a obtain d where
    d: "annotation_set X (b, k) an (disk e) = (Inr (), d)" "store_ok X B M d" "others [annotation_dir] (disk e) d"
      "extends X (disk e) d" by auto
  from sim_side [OF v d(2,3) _ d(4)] d(1) show ?thesis by (simp add: set_annotation_def on_disk_eq)
qed

lemma sim_receive:
  assumes v: "vault_ok X B M e" and a: "admissible X B M (Receive bs) e"
  shows "simulates X B M (Receive bs) e (exec X (Receive bs) e)"
proof -
  from chunk_put_step [OF vault_okD(3) [OF v], of bs] a obtain d where
    d: "chunk_put X bs (disk e) = (Inr (hash_of X bs), d)" "store_ok X B M d" "others [chunk_dir] (disk e) d"
      "extends X (disk e) d" by auto
  from sim_side [OF v d(2,3) _ d(4)] d(1) show ?thesis by (simp add: put_chunk_bytes_def on_disk_eq)
qed

section \<open>Imported manifests\<close>

lemma readable_reads:
  assumes "readable X e m bs" "extends X (disk e) (disk e')" "manifest_get X (disk e') (object_id m) = Inr (Some m)"
  shows "read_object X e' (object_id m) = Inr bs"
proof -
  from assms(1) obtain c xs where m: "decoder_for (codec (storage m)) = Inr c"
    "try_map (fetch_chunk X e c (object_id m)) (chunks (chunking m)) = Inr xs" "bs = concat xs"
    "fidelity (storage m) = Exact \<longrightarrow> sha256_hex X bs = sha256_hexed (original m)"
    by (auto simp: readable_def)
  from fetches_extend [OF assms(2) m(2)] m assms(3) show ?thesis
    by (simp add: read_object_def read_manifest_bytes_def fetch_manifest_def)
qed

text \<open>An import ends in one of three ways: refused at once, refused after storing the manifest, or done.\<close>

lemma import_cases:
  assumes ok: "store_ok X B M (disk e)" and n: "valid_bucket b" "valid_key k" and m: "manifest_storable X M m"
  obtains (refused) err where "import_object X b k m clock e = (Inl err, e)"
    | (mismatch) err d where "import_object X b k m clock e = (Inl err, e\<lparr>disk := d\<rparr>)" "store_ok X B M d"
        "others [manifest_dir] (disk e) d" "extends X (disk e) d"
    | (imported) d where "import_object X b k m clock e = (Inr (object_id m), e\<lparr>disk := d\<rparr>)" "store_ok X B M d"
        "extends X (disk e) d" "manifest_get X d (object_id m) = Inr (Some m)"
        "\<forall>c j. log_at X d c j =
          (if c = b \<and> j = k then log_at X (disk e) b k @ [object_id m] else log_at X (disk e) c j)"
proof (cases "ensure_unlocked X b k clock e")
  case (Inl err)
  then show thesis by (intro refused) (simp add: locked_ops)
next
  case u: (Inr u)
  show thesis
  proof (cases "List.find (\<lambda>h. \<not> chunk_has X (disk e) h) (chunks (chunking m))")
    case (Some h)
    then show thesis using u by (intro refused) (simp add: import_object_def)
  next
    case None
    then have cs: "\<forall>h \<in> set (chunks (chunking m)). has_chunk X e h" by (simp add: find_None has_chunk_def)
    show thesis
    proof (cases "merkle_root (chunking m) = None \<or> merkle_root (chunking m) = Some (root X (chunks (chunking m)))")
      case False
      then show thesis using u None by (intro refused) (auto simp: import_object_def)
    next
      case root: True
      show thesis
      proof (cases "object_id m = manifest_id X m")
        case True
        from import_ok [OF ok n _ cs root m True, of clock] u show thesis by (auto intro: imported)
      next
        case False
        from manifest_put_step [OF ok m] obtain d where d: "manifest_put X m (disk e) = (Inr (manifest_id X m), d)"
          "store_ok X B M d" "others [manifest_dir] (disk e) d" "extends X (disk e) d" by blast
        have "import_object X b k m clock e = (Inl (EIntegrity (object_id m)), e\<lparr>disk := d\<rparr>)"
          using u None root d(1) False by (auto simp: import_object_def on_disk_eq)
        from mismatch [OF this d(2-4)] show thesis .
      qed
    qed
  qed
qed

lemma sim_adopt:
  assumes v: "vault_ok X B M e" and a: "admissible X B M (Adopt b k m clock) e"
  shows "simulates X B M (Adopt b k m clock) e (exec X (Adopt b k m clock) e)"
proof -
  note V = vault_okD [OF v]
  have n: "valid_bucket b" "valid_key k" "manifest_storable X M m" using a by auto
  from a obtain bs where bs: "readable X e m bs" by auto
  show ?thesis
  proof (rule import_cases [OF V(3) n, of clock])
    fix err
    assume "import_object X b k m clock e = (Inl err, e)"
    then show ?thesis using sim_refused [OF v] by simp
  next
    fix err d
    assume mismatch: "import_object X b k m clock e = (Inl err, e\<lparr>disk := d\<rparr>)" "store_ok X B M d"
      "others [manifest_dir] (disk e) d" "extends X (disk e) d"
    have "simulates X B M (Adopt b k m clock) e (Refused err, e\<lparr>disk := d\<rparr>)"
      by (rule sim_same [OF v _ keeps_extends _ refuses])
        (use mismatch others_agree [OF mismatch(3), THEN log_at_agree] in simp_all)
    with mismatch(1) show ?thesis by simp
  next
    fix d
    assume imported: "import_object X b k m clock e = (Inr (object_id m), e\<lparr>disk := d\<rparr>)" "store_ok X B M d"
      "extends X (disk e) d" "manifest_get X d (object_id m) = Inr (Some m)"
      "\<forall>c j. log_at X d c j =
        (if c = b \<and> j = k then log_at X (disk e) b k @ [object_id m] else log_at X (disk e) c j)"
    have sha: "fidelity (storage m) = Exact \<longrightarrow> sha256_hex X bs = sha256_hexed (original m)"
      using bs by (auto simp: readable_def)
    have "simulates X B M (Adopt b k m clock) e (Stored (object_id m), e\<lparr>disk := d\<rparr>)"
      by (rule sim_append [OF v _ keeps_extends n(1,2) _ _ adopts [OF sha]])
        (use imported readable_reads [OF bs, of "e\<lparr>disk := d\<rparr>"] in simp_all)
    with imported(1) show ?thesis by simp
  qed
qed

section \<open>Runs\<close>

theorem exec_simulates:
  assumes "vault_ok X B M e" "admissible X B M c e"
  shows "simulates X B M c e (exec X c e)"
  using assms(2)
  by (cases c) (auto simp del: exec.simps admissible.simps
    intro: sim_write [OF assms(1)] sim_upload [OF assms(1)] sim_remove [OF assms(1)] sim_roll_back [OF assms(1)]
      sim_adopt [OF assms(1)] sim_copy [OF assms(1)] sim_move [OF assms(1)] sim_drop_pot [OF assms(1)]
      sim_drop_empty [OF assms(1)] sim_rename [OF assms(1)] sim_age [OF assms(1)] sim_collect [OF assms(1)]
      sim_configure [OF assms(1)] sim_annotate [OF assms(1)] sim_receive [OF assms(1)] sim_assemble [OF assms(1)])

text \<open>A run of commands with their replies.\<close>

inductive engine_run ::
  "ext \<Rightarrow> bytes set \<Rightarrow> bytes set \<Rightarrow> engine \<Rightarrow> (command \<times> outcome) list \<Rightarrow> engine \<Rightarrow> bool" for X B M where
  starts: "engine_run X B M e [] e"
| executes: "engine_run X B M e cs e1 \<Longrightarrow> admissible X B M c e1 \<Longrightarrow> exec X c e1 = (r, e2) \<Longrightarrow>
    engine_run X B M e (cs @ [(c, r)]) e2"

inductive vault_run :: "ext \<Rightarrow> vault \<Rightarrow> (command \<times> outcome) list \<Rightarrow> vault \<Rightarrow> bool" for X where
  vault_starts: "vault_run X V [] V"
| vault_executes: "vault_run X V cs V1 \<Longrightarrow> vault_step X c r V1 V2 \<Longrightarrow> vault_run X V (cs @ [(c, r)]) V2"

lemma run_simulates:
  assumes "engine_run X B M e cs e'" "vault_ok X B M e"
  shows "vault_ok X B M e' \<and> vault_run X (vault_of X e) cs (vault_of X e')"
  using assms
proof (induction rule: engine_run.induct)
  case (starts e)
  then show ?case by (simp add: vault_starts)
next
  case (executes e cs e1 c r e2)
  then have IH: "vault_ok X B M e1" "vault_run X (vault_of X e) cs (vault_of X e1)" by simp_all
  from exec_simulates [OF IH(1) executes.hyps(2)] executes.hyps(3) show ?case
    using vault_executes [OF IH(2)] by (simp add: simulates_def)
qed

inductive_cases vault_run_snocE: "vault_run X V (cs @ [(c, r)]) V2"
inductive_cases vault_run_NilE: "vault_run X V [] V2"

text \<open>What a client can see of the engine is what the abstract state says.\<close>

lemma vault_observed:
  assumes v: "vault_ok X B M e" and n: "valid_bucket b" "valid_key k"
  shows "eng_history X e b k = Inr (map fst (vault_of X e (b, k)))"
    "get X e b k = Inr (if vault_of X e (b, k) = [] then None else Some (snd (last (vault_of X e (b, k)))))"
proof -
  note V = vault_okD [OF v]
  let ?L = "log_at X (disk e) b k"
  show "eng_history X e b k = Inr (map fst (vault_of X e (b, k)))"
    using history_eq(1) [OF store_okD(3) [OF V(3)] n] n by (simp add: eng_history_def vault_of_def comp_def)
  show "get X e b k = Inr (if vault_of X e (b, k) = [] then None else Some (snd (last (vault_of X e (b, k)))))"
  proof (cases "?L = []")
    case False
    then have "last ?L \<in> versions X (disk e)" using n by (intro log_versions [OF n]) simp
    then obtain bs where bs: "read_object X e (last ?L) = Inr bs" using V(4) by (auto simp: whole_def)
    then show ?thesis using False n body_of_Inr [OF bs]
      by (simp add: get_eq [OF V(3) n] vault_of_def last_map read_object_def)
  qed (use n in \<open>simp add: get_eq [OF V(3) n] vault_of_def\<close>)
qed

end
