(* ===== verification/Acknowledged.thy ===== *)
theory Acknowledged
  imports Vault
begin

text \<open>
  What happens to the versions the histories name when restores and imports are not restricted: the
  engine takes back any id whose manifest it holds and any manifest whose chunks it has been shown, and
  does not read a byte of either. Everything else is as in the simulation. Each command keeps every
  version that reads, and a history gains only versions that read, versions some history already named,
  and ids that a restore or an import put there.
\<close>

section \<open>What a command does to the versions\<close>

fun free :: "ext \<Rightarrow> bytes set \<Rightarrow> bytes set \<Rightarrow> command \<Rightarrow> engine \<Rightarrow> bool" where
  "free X B M (RollBack b k i clock) e \<longleftrightarrow> valid_bucket b \<and> valid_key k"
| "free X B M (Adopt b k m clock) e \<longleftrightarrow> valid_bucket b \<and> valid_key k \<and> manifest_storable X M m"
| "free X B M c e \<longleftrightarrow> admissible X B M c e"

definition reads :: "ext \<Rightarrow> engine \<Rightarrow> hash \<Rightarrow> bool" where
  "reads X e i \<longleftrightarrow> (\<exists>bs. read_object X e i = Inr bs)"

text \<open>The command is an acknowledged restore or import of the id.\<close>

fun takes :: "command \<Rightarrow> outcome \<Rightarrow> hash \<Rightarrow> bool" where
  "takes (RollBack b k i clock) Done j \<longleftrightarrow> j = i"
| "takes (Adopt b k m clock) (Stored i) j \<longleftrightarrow> j = i"
| "takes c r j \<longleftrightarrow> False"

definition present :: "ext \<Rightarrow> engine \<Rightarrow> hash \<Rightarrow> bool" where
  "present X e i \<longleftrightarrow> (\<exists>m. manifest_get X (disk e) i = Inr (Some m))"

definition grounded :: "ext \<Rightarrow> bytes set \<Rightarrow> bytes set \<Rightarrow> engine \<Rightarrow> bool" where
  "grounded X B M e \<longleftrightarrow> zstd_ok X \<and> cdc_ok X \<and> store_ok X B M (disk e) \<and> (\<forall>i \<in> versions X (disk e). present X e i)"

definition keeps :: "ext \<Rightarrow> bytes set \<Rightarrow> bytes set \<Rightarrow> command \<Rightarrow> engine \<Rightarrow> outcome \<times> engine \<Rightarrow> bool" where
  "keeps X B M c e re \<longleftrightarrow> grounded X B M (snd re) \<and> keeps_versions X e (snd re) \<and>
     (\<forall>i \<in> versions X (disk (snd re)). i \<in> versions X (disk e) \<or> reads X (snd re) i \<or> takes c (fst re) i)"

lemma groundedD:
  assumes "grounded X B M e"
  shows "zstd_ok X" "cdc_ok X" "store_ok X B M (disk e)" "\<forall>i \<in> versions X (disk e). present X e i"
  using assms by (simp_all add: grounded_def)

lemma reads_present: "reads X e i \<Longrightarrow> present X e i"
  by (auto simp: reads_def present_def read_object_def read_manifest_bytes_def fetch_manifest_def result_simps)

lemma vault_ok_grounded: "vault_ok X B M e \<Longrightarrow> grounded X B M e"
  using reads_present by (fastforce simp: vault_ok_def grounded_def whole_def reads_def)

lemma keepsI:
  assumes g: "grounded X B M e" and ok: "store_ok X B M (disk e')" and kp: "keeps_versions X e e'"
    and p: "\<And>i. present X e i \<Longrightarrow> present X e' i"
    and log: "\<And>b k i. valid_bucket b \<Longrightarrow> valid_key k \<Longrightarrow> i \<in> set (log_at X (disk e') b k) \<Longrightarrow>
        i \<in> versions X (disk e) \<or> reads X e' i \<or> takes c r i \<and> present X e' i"
  shows "keeps X B M c e (r, e')"
proof -
  have v: "i \<in> versions X (disk e) \<or> reads X e' i \<or> takes c r i \<and> present X e' i" if "i \<in> versions X (disk e')" for i
    using that log by (auto simp: versions_def)
  moreover have "present X e' i" if "i \<in> versions X (disk e')" for i
    using v [OF that] p reads_present groundedD(4) [OF g] by blast
  ultimately show ?thesis using g ok kp by (auto simp: keeps_def grounded_def)
qed

lemma present_extends: "extends X (disk e) (disk e') \<Longrightarrow> present X e i \<Longrightarrow> present X e' i"
  by (auto simp: present_def extends_def)

lemma keeps_logs:
  assumes "grounded X B M e" "store_ok X B M (disk e')" "extends X (disk e) (disk e')"
    and "\<And>b k. valid_bucket b \<Longrightarrow> valid_key k \<Longrightarrow> set (log_at X (disk e') b k) \<subseteq> versions X (disk e)"
  shows "keeps X B M c e (r, e')"
  by (rule keepsI [OF assms(1,2) keeps_extends [OF assms(3)] present_extends [OF assms(3)]]) (use assms(4) in blast)+

lemma keeps_same:
  assumes "grounded X B M e" "store_ok X B M (disk e')" "extends X (disk e) (disk e')"
    and "\<And>b k. log_at X (disk e') b k = log_at X (disk e) b k"
  shows "keeps X B M c e (r, e')"
  by (rule keeps_logs [OF assms(1-3)]) (use log_versions assms(4) in auto)

lemma keeps_others:
  assumes "grounded X B M e" "store_ok X B M d" "others ts (disk e) d" "extends X (disk e) d" "pointer_dir \<notin> set ts"
  shows "keeps X B M c e (r, e\<lparr>disk := d\<rparr>)"
  by (rule keeps_same) (use assms others_agree [OF assms(3,5), THEN log_at_agree] in simp_all)

lemma keeps_append:
  assumes "grounded X B M e" "store_ok X B M (disk e')" "extends X (disk e) (disk e')"
    and log: "\<And>c j. log_at X (disk e') c j = (if c = b \<and> j = k then log_at X (disk e) b k @ [i] else log_at X (disk e) c j)"
    and i: "reads X e' i \<or> takes c r i \<and> present X e' i"
  shows "keeps X B M c e (r, e')"
  by (rule keepsI [OF assms(1,2) keeps_extends [OF assms(3)] present_extends [OF assms(3)]])
    (use i in \<open>auto simp: log intro: log_versions split: if_splits\<close>)

lemma keeps_refused: "grounded X B M e \<Longrightarrow> keeps X B M c e (Refused err, e)"
  by (rule keeps_same) (simp_all add: groundedD)

section \<open>Command by command\<close>

lemma keep_write:
  assumes g: "grounded X B M e" and a: "admissible X B M (Write b k data ct clock t) e"
  shows "keeps X B M (Write b k data ct clock t) e (exec X (Write b k data ct clock t) e)"
proof (cases "validate_key b k = Inr () \<and> ensure_unlocked X b k clock e = Inr () \<and> (\<exists>ep. effective_policy X b ct e = Inr ep)")
  case False
  then have "\<exists>err. put X b k data ct clock t e = (Inl err, e)"
    by (cases "validate_key b k"; cases "ensure_unlocked X b k clock e"; cases "effective_policy X b ct e")
      (auto simp: put_def)
  then show ?thesis using keeps_refused [OF g] by auto
next
  case True
  then obtain ep where ep: "validate_key b k = Inr ()" "ensure_unlocked X b k clock e = Inr ()"
    "effective_policy X b ct e = Inr ep" by blast
  note G = groundedD [OF g]
  have w: "writable X B M e b k" using G a ep(1) by (simp add: writable_def)
  from a ep(3) obtain encs where encs: "encodes X (ep_codec ep) B (chunk_split X data) encs"
    "manifest_body X (put_manifest X e ct ep encs data t) \<in> M" by (auto simp: storable_def)
  from put_ok [OF w ep(2,3) encs] obtain i e' where
    p: "put X b k data ct clock t e = (Inr i, e')" "store_ok X B M (disk e')" "extends X (disk e) (disk e')"
      "read_manifest_bytes X e' i = Inr data"
      "\<forall>c j. log_at X (disk e') c j = (if c = b \<and> j = k then log_at X (disk e) b k @ [i] else log_at X (disk e) c j)"
    by auto
  have "keeps X B M (Write b k data ct clock t) e (Stored i, e')"
    by (rule keeps_append [OF g p(2,3) p(5) [rule_format]]) (simp add: p(4) reads_def read_object_def)
  with p(1) show ?thesis by simp
qed

lemma keep_upload:
  assumes g: "grounded X B M e" and a: "admissible X B M (Upload b k data ct limit clock t) e"
  shows "keeps X B M (Upload b k data ct limit clock t) e (exec X (Upload b k data ct limit clock t) e)"
proof (cases "length data \<le> limit")
  case True
  have "admissible X B M (Write b k data ct clock t) e" using a by simp
  from keep_write [OF g this] show ?thesis
    using put_stream_put [OF groundedD(2) [OF g] True] by (simp add: keeps_def)
next
  case False
  then have lim: "limit < length data" by simp
  note G = groundedD [OF g]
  show ?thesis
  proof (cases "validate_key b k = Inr () \<and> ensure_unlocked X b k clock e = Inr () \<and> (\<exists>ep. effective_policy X b ct e = Inr ep)")
    case True
    then obtain ep where ep: "validate_key b k = Inr ()" "ensure_unlocked X b k clock e = Inr ()"
      "effective_policy X b ct e = Inr ep" by blast
    from a ep(3) obtain encs where "encodes X (ep_codec ep) B (chunk_split X data) encs" by (auto simp: storable_def)
    from put_stream_too_long [OF G(2,3) ep this lim, of t] obtain err e' where
      p: "put_stream X b k \<lparr>rd_bytes = data, rd_error = None\<rparr> ct limit clock t e = (Inl err, e')"
        "store_ok X B M (disk e')" "others [chunk_dir] (disk e) (disk e')" "extends X (disk e) (disk e')"
      by (elim exE conjE) (rule that)
    have "log_at X (disk e') c j = log_at X (disk e) c j" for c j
      using others_agree [OF p(3), THEN log_at_agree] by simp
    from keeps_same [OF g p(2,4) this] p(1) show ?thesis by simp
  next
    case False
    then have "\<exists>err. put_stream X b k \<lparr>rd_bytes = data, rd_error = None\<rparr> ct limit clock t e = (Inl err, e)"
      by (cases "validate_key b k"; cases "ensure_unlocked X b k clock e"; cases "effective_policy X b ct e")
        (auto simp: put_stream_def)
    then show ?thesis using keeps_refused [OF g] by auto
  qed
qed

lemma keep_assemble:
  assumes g: "grounded X B M e" and a: "admissible X B M (Assemble b k data i order t) e"
  shows "keeps X B M (Assemble b k data i order t) e (exec X (Assemble b k data i order t) e)"
proof -
  note G = groundedD [OF g]
  from a obtain up where up: "map_of (multipart e) i = Some up" "b = up_bucket up" "k = up_key up"
    and n: "valid_bucket b" "valid_key k"
    and f: "\<And>got c. gathered X e up order = Inr got \<Longrightarrow> build_codec (up_codec up) (up_level up) = Inr c \<Longrightarrow>
        data = concat (map snd got) \<and> manifest_body X (complete_manifest X e up c got t) \<in> M"
    by (auto simp: assembly_def)
  let ?e1 = "e\<lparr>multipart := AList.delete i (multipart e)\<rparr>"
  let ?order = "if order = [] then map fst (up_parts up) else order"
  have same: "gathered X ?e1 up order = gathered X e up order"
    by (simp add: gathered_def gather_part_def [abs_def] staged_chunk_def [abs_def])
  obtain r e2 where run: "commit_parts X up ?order t ?e1 = (r, e2)" by force
  from commit_parts_gathered [OF run] show ?thesis
  proof (elim disjE exE conjE)
    fix err assume "r = Inl err" "e2 = ?e1"
    with run up(1) have c: "complete_multipart X i order t e = (Inl err, release_pins (up_pinned up) ?e1)"
      by (simp only: complete_multipart_def option.case Let_def sum.case prod.case)
    have "keeps X B M (Assemble b k data i order t) e (Refused err, release_pins (up_pinned up) ?e1)"
      by (rule keeps_same [OF g]) (use G(3) in simp_all)
    with c show ?thesis by simp
  next
    fix got c assume got: "gathered X ?e1 up order = Inr got" and c: "build_codec (up_codec up) (up_level up) = Inr c"
    from got obtain dec where dec: "decoder_for (up_codec up) = Inr dec"
      "try_map (gather_part X e dec (up_parts up)) ?order = Inr got"
      unfolding same by (auto simp: gathered_def result_simps split del: if_split)
    note d = f [OF got [unfolded same] c]
    from complete_gathered [OF G(3) up(1) n [unfolded up(2,3)] dec(1) c dec(2) conjunct2 [OF d]] obtain oid e' where
      p: "complete_multipart X i order t e = (Inr oid, e')" "store_ok X B M (disk e')" "extends X (disk e) (disk e')"
        "read_manifest_bytes X e' oid = Inr (concat (map snd got))"
        "\<forall>b k. log_at X (disk e') b k =
          (if b = up_bucket up \<and> k = up_key up then log_at X (disk e) b k @ [oid] else log_at X (disk e) b k)"
      by blast
    have log: "log_at X (disk e') c j = (if c = b \<and> j = k then log_at X (disk e) b k @ [oid] else log_at X (disk e) c j)" for c j
      using p(5) up(2,3) by simp
    have "keeps X B M (Assemble b k data i order t) e (Stored oid, e')"
      by (rule keeps_append [OF g p(2,3) log]) (simp add: p(4) reads_def read_object_def)
    with p(1) show ?thesis by simp
  qed
qed

lemma keep_remove:
  assumes g: "grounded X B M e" and a: "admissible X B M (Remove b k clock) e"
  shows "keeps X B M (Remove b k clock) e (exec X (Remove b k clock) e)"
proof (cases "ensure_unlocked X b k clock e")
  case (Inl err)
  then show ?thesis using keeps_refused [OF g] by (simp add: locked_ops)
next
  case (Inr u)
  from delete_ok [OF groundedD(3) [OF g] _ _ Inr [simplified], of] a obtain d where
    d: "delete_object X b k clock e = (Inr (), e\<lparr>disk := d\<rparr>)" "store_ok X B M d" "extends X (disk e) d"
      "\<forall>c j. log_at X d c j = (if c = b \<and> j = k then [] else log_at X (disk e) c j)" by auto
  have "keeps X B M (Remove b k clock) e (Done, e\<lparr>disk := d\<rparr>)"
    by (rule keeps_logs [OF g]) (use d in \<open>auto dest: log_versions\<close>)
  with d(1) show ?thesis by simp
qed

lemma keep_roll_back:
  assumes g: "grounded X B M e" and n: "valid_bucket b" "valid_key k"
  shows "keeps X B M (RollBack b k i clock) e (exec X (RollBack b k i clock) e)"
proof (cases "ensure_unlocked X b k clock e = Inr () \<and> present X e i")
  case False
  then have "\<exists>err. restore_version X b k i clock e = (Inl err, e)"
    by (cases "ensure_unlocked X b k clock e"; cases "manifest_get X (disk e) i")
      (auto simp: restore_version_def present_def fetch_manifest_def result_simps split: option.splits)
  then show ?thesis using keeps_refused [OF g] by auto
next
  case True
  then obtain m where m: "manifest_get X (disk e) i = Inr (Some m)" by (auto simp: present_def)
  from restore_ok [OF groundedD(3) [OF g] n _ m, of clock] True obtain d where
    d: "restore_version X b k i clock e = (Inr (), e\<lparr>disk := d\<rparr>)" "store_ok X B M d" "extends X (disk e) d"
      "\<forall>c j. log_at X d c j = (if c = b \<and> j = k then log_at X (disk e) b k @ [i] else log_at X (disk e) c j)"
    by auto
  have p: "present X (e\<lparr>disk := d\<rparr>) i" using True d(3) by (auto intro: present_extends)
  have "keeps X B M (RollBack b k i clock) e (Done, e\<lparr>disk := d\<rparr>)"
    by (rule keeps_append [OF g, where b = b and k = k and i = i]) (use d p in simp_all)
  with d(1) show ?thesis by simp
qed

lemma keep_adopt:
  assumes g: "grounded X B M e" and n: "valid_bucket b" "valid_key k" "manifest_storable X M m"
  shows "keeps X B M (Adopt b k m clock) e (exec X (Adopt b k m clock) e)"
proof (rule import_cases [OF groundedD(3) [OF g] n, of clock])
  fix err
  assume "import_object X b k m clock e = (Inl err, e)"
  then show ?thesis using keeps_refused [OF g] by simp
next
  fix err d
  assume mismatch: "import_object X b k m clock e = (Inl err, e\<lparr>disk := d\<rparr>)" "store_ok X B M d"
    "others [manifest_dir] (disk e) d" "extends X (disk e) d"
  have "keeps X B M (Adopt b k m clock) e (Refused err, e\<lparr>disk := d\<rparr>)"
    by (rule keeps_others [OF g mismatch(2-4)]) simp
  with mismatch(1) show ?thesis by simp
next
  fix d
  assume imported: "import_object X b k m clock e = (Inr (object_id m), e\<lparr>disk := d\<rparr>)" "store_ok X B M d"
    "extends X (disk e) d" "manifest_get X d (object_id m) = Inr (Some m)"
    "\<forall>c j. log_at X d c j =
      (if c = b \<and> j = k then log_at X (disk e) b k @ [object_id m] else log_at X (disk e) c j)"
  have "keeps X B M (Adopt b k m clock) e (Stored (object_id m), e\<lparr>disk := d\<rparr>)"
    by (rule keeps_append [OF g, where b = b and k = k and i = "object_id m"])
      (use imported in \<open>simp_all add: present_def\<close>)
  with imported(1) show ?thesis by simp
qed

lemma keep_copy:
  assumes g: "grounded X B M e" and a: "admissible X B M (Copy fb fk tb tk) e"
  shows "keeps X B M (Copy fb fk tb tk) e (exec X (Copy fb fk tb tk) e)"
proof -
  have n: "valid_bucket fb" "valid_key fk" "valid_bucket tb" "valid_key tk" using a by auto
  let ?L = "log_at X (disk e) fb fk"
  from pointer_copy_step [OF groundedD(3) [OF g] n] obtain d where
    d: "copy_object X fb fk tb tk e = (Inr (?L \<noteq> []), e\<lparr>disk := d\<rparr>)" "store_ok X B M d" "extends X (disk e) d"
      "\<forall>c j. log_at X d c j = (if c = tb \<and> j = tk \<and> ?L \<noteq> [] then log_at X (disk e) tb tk @ [last ?L]
        else log_at X (disk e) c j)" by (auto simp: copy_object_def on_disk_eq)
  have "last ?L \<in> versions X (disk e)" if "?L \<noteq> []"
    using that by (intro log_versions [OF n(1,2)]) simp
  then have "keeps X B M (Copy fb fk tb tk) e (Answer (?L \<noteq> []), e\<lparr>disk := d\<rparr>)"
    by (intro keeps_logs [OF g]) (use d in \<open>auto dest: log_versions\<close>)
  with d(1) show ?thesis by simp
qed

lemma keep_move:
  assumes g: "grounded X B M e" and a: "admissible X B M (Move fb fk tb tk) e"
  shows "keeps X B M (Move fb fk tb tk) e (exec X (Move fb fk tb tk) e)"
proof -
  have n: "valid_bucket fb" "valid_key fk" "valid_bucket tb" "valid_key tk" "(fb, fk) \<noteq> (tb, tk)" using a by auto
  let ?L = "log_at X (disk e) fb fk"
  from move_key_step [OF groundedD(3) [OF g] n(1-4)] obtain d where
    d: "move_object X fb fk tb tk e = (Inr (?L \<noteq> []), e\<lparr>disk := d\<rparr>)" "store_ok X B M d" "extends X (disk e) d"
      "\<forall>c j. log_at X d c j = (if ?L = [] then log_at X (disk e) c j else if c = fb \<and> j = fk then []
        else if c = tb \<and> j = tk then ?L else log_at X (disk e) c j)"
    using n(5) by (auto simp: move_object_def on_disk_eq)
  have "set (log_at X d c j) \<subseteq> versions X (disk e)" if "valid_bucket c" "valid_key j" for c j
  proof -
    have "log_at X d c j \<in> {[], ?L, log_at X (disk e) c j}" using d(4) [rule_format, of c j] by simp
    then show ?thesis using log_versions [OF that] log_versions [OF n(1,2)] by (elim insertE) auto
  qed
  then have "keeps X B M (Move fb fk tb tk) e (Answer (?L \<noteq> []), e\<lparr>disk := d\<rparr>)"
    by (intro keeps_logs [OF g]) (use d(2,3) in simp_all)
  with d(1) show ?thesis by simp
qed

lemma keep_drop_pot:
  assumes g: "grounded X B M e" and b: "valid_bucket b" "valid_pot b"
  shows "keeps X B M c e (r, snd (delete_bucket X b e))" "fst (delete_bucket X b e) = Inr ()"
proof -
  from delete_bucket_step [OF groundedD(3) [OF g] b] obtain d where
    d: "delete_bucket X b e = (Inr (), e\<lparr>disk := d\<rparr>)" "store_ok X B M d" "extends X (disk e) d"
      "\<forall>c k. log_at X d c k = (if c = b then [] else log_at X (disk e) c k)" by auto
  have "keeps X B M c e (r, e\<lparr>disk := d\<rparr>)"
    by (rule keeps_logs [OF g]) (use d in \<open>auto dest: log_versions split: if_splits\<close>)
  with d(1) show "keeps X B M c e (r, snd (delete_bucket X b e))" "fst (delete_bucket X b e) = Inr ()" by simp_all
qed

lemma keep_drop_empty:
  assumes g: "grounded X B M e" and a: "admissible X B M (DropEmpty b) e"
  shows "keeps X B M (DropEmpty b) e (exec X (DropEmpty b) e)"
proof -
  have b: "valid_bucket b" "valid_pot b" using a by simp_all
  from pointer_list_ok [OF store_okD(3) [OF groundedD(3) [OF g]] b(1)] obtain ks where "keys X e b = Inr ks"
    by (auto simp: keys_def)
  then show ?thesis
    using keep_drop_pot [OF g b] keeps_same [OF g, of e] groundedD(3) [OF g]
    by (cases "delete_bucket X b e") (simp add: delete_bucket_if_empty_def)
qed

lemma keep_rename:
  assumes g: "grounded X B M e" and a: "admissible X B M (RenamePot old new) e"
  shows "keeps X B M (RenamePot old new) e (exec X (RenamePot old new) e)"
proof -
  have n: "valid_bucket old" "valid_bucket new" "old \<noteq> new" "fs_lookup (disk e) [pointer_dir, old] \<noteq> None"
    "fs_lookup (disk e) [pointer_dir, new] = None" "valid_pot old" "valid_pot new" using a by auto
  from pointer_rename_bucket_step [OF groundedD(3) [OF g] n(1-5)] obtain d1 where
    1: "pointer_rename_bucket old new (disk e) = (Inr (), d1)" "store_ok X B M d1" "extends X (disk e) d1"
      "\<forall>c k. log_at X d1 c k =
        (if c = new then log_at X (disk e) old k else if c = old then [] else log_at X (disk e) c k)" by auto
  from meta_rename_step [OF 1(2) n(6,7,3)] obtain d2 where 2: "meta_rename_bucket X old new d1 = (Inr (), d2)"
    "store_ok X B M d2" "others [meta_dir] d1 d2" "extends X d1 d2" by auto
  have l: "log_at X d2 c k = log_at X d1 c k" for c k using others_agree [OF 2(3), THEN log_at_agree] by simp
  have "keeps X B M (RenamePot old new) e (Done, e\<lparr>disk := d2\<rparr>)"
    by (rule keeps_logs [OF g])
      (use 1(4) 2(2) l n extends_trans [OF 1(3) 2(4)] in \<open>auto dest: log_versions split: if_splits\<close>)
  with 1(1) 2(1) show ?thesis by (simp add: rename_bucket_def on_disk_eq)
qed

lemma keep_age:
  assumes g: "grounded X B M e" and a: "admissible X B M (Age clock) e"
  shows "keeps X B M (Age clock) e (exec X (Age clock) e)"
proof -
  note G = groundedD [OF g]
  have "newest_present X (disk e)"
    unfolding newest_present_def
  proof (intro allI impI)
    fix b k assume "valid_bucket b" "valid_key k" "log_at X (disk e) b k \<noteq> []"
    then show "\<exists>m. manifest_get X (disk e) (last (log_at X (disk e) b k)) = Inr (Some m)"
      using G(4) last_in_set log_versions unfolding present_def by metis
  qed
  from enforce_lifecycle_ok [OF G(3) this, of clock] a obtain d where
    d: "enforce_lifecycle X clock e = (Inr (), e\<lparr>disk := d\<rparr>)" "store_ok X B M d" "others [pointer_dir] (disk e) d"
      "\<forall>b k. valid_bucket b \<longrightarrow> valid_key k \<longrightarrow>
        log_at X d b k = after_lifecycle X (disk e) (pot_rules X (disk e) b) clock (log_at X (disk e) b k)"
    by auto
  have sub: "set (log_at X d b k) \<subseteq> versions X (disk e)" if "valid_bucket b" "valid_key k" for b k
    using d(4) that after_lifecycle_suffix set_mono_suffix log_versions [OF that] by (metis subset_iff)
  have "keeps X B M (Age clock) e (Done, e\<lparr>disk := d\<rparr>)"
    by (rule keeps_logs [OF g]) (use d(2) sub pointer_change(2) [OF G(3) store_okD(3) [OF d(2)] d(3)] in auto)
  with d(1) show ?thesis by simp
qed

lemma keep_collect:
  assumes g: "grounded X B M e"
  shows "keeps X B M (Collect clock grace) e (exec X (Collect clock grace) e)"
proof -
  note G = groundedD [OF g]
  from gc_sweep_ok [OF G(3) refl, of clock grace] obtain n e' where run: "gc_sweep X clock grace e = (Inr n, e')"
    by blast
  note s = gc_sweep_run(1,2) [OF G(3) run]
  have "keeps_versions X e e'"
    unfolding keeps_versions_def read_object_def using gc_reads [OF G(3) run] by blast
  moreover have "log_at X (disk e') b k = log_at X (disk e) b k" for b k
    using others_agree [OF s(2), THEN log_at_agree] by simp
  moreover have "present X e i \<Longrightarrow> present X e' i" for i
    using gc_referenced(2) [OF G(3) run] by (simp add: present_def)
  ultimately have "keeps X B M (Collect clock grace) e (Done, e')"
    by (intro keepsI [OF g s(1)]) (auto dest: log_versions)
  with run show ?thesis by simp
qed

lemma keep_settings:
  assumes g: "grounded X B M e"
  shows "admissible X B M (Configure b cfg) e \<Longrightarrow> keeps X B M (Configure b cfg) e (exec X (Configure b cfg) e)"
    "admissible X B M (Annotate b k an) e \<Longrightarrow> keeps X B M (Annotate b k an) e (exec X (Annotate b k an) e)"
    "admissible X B M (Receive bs) e \<Longrightarrow> keeps X B M (Receive bs) e (exec X (Receive bs) e)"
proof -
  note ok = groundedD(3) [OF g]
  show "keeps X B M (Configure b cfg) e (exec X (Configure b cfg) e)" if "admissible X B M (Configure b cfg) e"
    using meta_set_config_step [OF ok, of b cfg] that
    by (auto simp: set_bucket_config_def on_disk_eq intro!: keeps_others [OF g])
  show "keeps X B M (Annotate b k an) e (exec X (Annotate b k an) e)" if "admissible X B M (Annotate b k an) e"
    using annotation_set_step [OF ok, of "(b, k)" an] that
    by (auto simp: set_annotation_def on_disk_eq intro!: keeps_others [OF g])
  show "keeps X B M (Receive bs) e (exec X (Receive bs) e)" if "admissible X B M (Receive bs) e"
    using chunk_put_step [OF ok, of bs] that
    by (auto simp: put_chunk_bytes_def on_disk_eq intro!: keeps_others [OF g])
qed

lemma exec_keeps:
  assumes "grounded X B M e" "free X B M c e"
  shows "keeps X B M c e (exec X c e)"
  using assms(2)
proof (cases c)
  case (DropPot b)
  with assms keep_drop_pot [OF assms(1), of b] show ?thesis by (cases "delete_bucket X b e") simp
qed (auto simp del: exec.simps admissible.simps
    intro: keep_write [OF assms(1)] keep_upload [OF assms(1)] keep_remove [OF assms(1)] keep_copy [OF assms(1)]
      keep_roll_back [OF assms(1)] keep_adopt [OF assms(1)] keep_move [OF assms(1)] keep_rename [OF assms(1)]
      keep_age [OF assms(1)] keep_collect [OF assms(1)] keep_settings [OF assms(1)] keep_assemble [OF assms(1)]
      keep_drop_empty [OF assms(1)])

section \<open>Free runs\<close>

inductive free_run ::
  "ext \<Rightarrow> bytes set \<Rightarrow> bytes set \<Rightarrow> engine \<Rightarrow> (command \<times> outcome) list \<Rightarrow> engine \<Rightarrow> bool" for X B M where
  frees: "free_run X B M e [] e"
| freed: "free_run X B M e cs e1 \<Longrightarrow> free X B M c e1 \<Longrightarrow> exec X c e1 = (r, e2) \<Longrightarrow>
    free_run X B M e (cs @ [(c, r)]) e2"

text \<open>An acknowledged restore or import of an id that did not read when it was answered.\<close>

definition taken_unread ::
  "ext \<Rightarrow> bytes set \<Rightarrow> bytes set \<Rightarrow> engine \<Rightarrow> (command \<times> outcome) list \<Rightarrow> hash \<Rightarrow> bool" where
  "taken_unread X B M e cs i \<longleftrightarrow> (\<exists>pre c r post e1. cs = pre @ (c, r) # post \<and>
     free_run X B M e (pre @ [(c, r)]) e1 \<and> takes c r i \<and> \<not> reads X e1 i)"

lemma free_run_keeps:
  assumes "free_run X B M e cs e'" "grounded X B M e" "whole X e"
  shows "grounded X B M e' \<and> (\<forall>i \<in> versions X (disk e'). reads X e' i \<or> taken_unread X B M e cs i)"
  using assms
proof (induction rule: free_run.induct)
  case (frees e)
  then show ?case by (auto simp: whole_def reads_def)
next
  case (freed e cs e1 c r e2)
  then have IH: "grounded X B M e1" "\<forall>i \<in> versions X (disk e1). reads X e1 i \<or> taken_unread X B M e cs i" by simp_all
  from exec_keeps [OF IH(1) freed.hyps(2)] freed.hyps(3) have k: "keeps X B M c e1 (r, e2)" by simp
  have old: "taken_unread X B M e (cs @ [(c, r)]) i" if "taken_unread X B M e cs i" for i
    using that unfolding taken_unread_def by (metis append.assoc append_Cons)
  have new: "taken_unread X B M e (cs @ [(c, r)]) i" if "takes c r i" "\<not> reads X e2 i" for i
    using that free_run.freed [OF freed.hyps(1-3)] unfolding taken_unread_def by blast
  have "reads X e2 i" if "i \<in> versions X (disk e1)" "reads X e1 i" for i
    using k that by (auto simp: keeps_def keeps_versions_def reads_def)
  with k IH(2) old new show ?case by (fastforce simp: keeps_def)
qed

text \<open>The runs of the simulation are such runs; without a restore or an import nothing is taken.\<close>

lemma admissible_free: "admissible X B M c e \<Longrightarrow> free X B M c e"
  by (cases c) auto

lemma engine_run_free: "engine_run X B M e cs e' \<Longrightarrow> free_run X B M e cs e'"
  by (induction rule: engine_run.induct) (blast intro: free_run.intros admissible_free)+

lemma taken_unread_takes: "taken_unread X B M e cs i \<Longrightarrow> \<exists>(c, r) \<in> set cs. takes c r i"
  by (fastforce simp: taken_unread_def)

end
