(* ===== verification/Replication.thy ===== *)
theory Replication
  imports Vault
begin

text \<open>
  Two stores and the protocol between them: the puller asks which chunks of a manifest it lacks
  (\<open>missing_chunks\<close>), fetches each by its hash from the source (\<open>chunk_bytes\<close>), stores it
  (\<open>put_chunk_bytes\<close>) and adopts the manifest (\<open>import_object\<close>).
\<close>

text \<open>The client's loop; a chunk the source cannot serve is left out.\<close>

fun send_chunks :: "ext \<Rightarrow> engine \<Rightarrow> hash list \<Rightarrow> engine \<Rightarrow> engine" where
  "send_chunks X src [] dst = dst"
| "send_chunks X src (h # hs) dst =
     (case chunk_bytes X src h of
        Inr (Some bs) \<Rightarrow> send_chunks X src hs (snd (put_chunk_bytes X bs dst))
      | _ \<Rightarrow> send_chunks X src hs dst)"

lemma send_chunks_ok:
  assumes "store_ok X B M (disk src)" "store_ok X B M (disk dst)"
  shows "\<exists>d. send_chunks X src hs dst = dst\<lparr>disk := d\<rparr> \<and> store_ok X B M d \<and>
     others [chunk_dir] (disk dst) d \<and> extends X (disk dst) d \<and>
     (\<forall>h \<in> set hs. \<forall>bs. chunk_get X (disk src) h = Inr (Some bs) \<longrightarrow> chunk_get X d h = Inr (Some bs))"
  using assms(2)
proof (induction hs arbitrary: dst)
  case Nil
  then show ?case by (intro exI [of _ "disk dst"]) simp
next
  case (Cons h hs)
  show ?case
  proof (cases "\<exists>bs. chunk_get X (disk src) h = Inr (Some bs)")
    case False
    then have "send_chunks X src (h # hs) dst = send_chunks X src hs dst"
      by (auto simp: chunk_bytes_def split: sum.split option.split)
    with Cons.IH [OF Cons.prems] False show ?thesis by auto
  next
    case True
    then obtain bs where bs: "chunk_get X (disk src) h = Inr (Some bs)" by blast
    note S = store_okD [OF assms(1)]
    have wf: "hash_wf h" using chunk_get_wf [OF S(6) bs] .
    then have at: "chunk_at X (disk src) h = Some bs" using bs chunk_get_ok_iff [OF S(1)] by simp
    note in_B = chunks_ok_at [OF S(1) at]
    from chunk_put_step [OF Cons.prems in_B(1)] obtain d1 where 1: "chunk_put X bs (disk dst) = (Inr h, d1)"
      "store_ok X B M d1" "others [chunk_dir] (disk dst) d1" "extends X (disk dst) d1" "chunk_at X d1 h = Some bs"
      by (auto simp: in_B(2))
    have step: "send_chunks X src (h # hs) dst = send_chunks X src hs (dst\<lparr>disk := d1\<rparr>)"
      using bs 1(1) by (simp add: chunk_bytes_def put_chunk_bytes_def on_disk_eq)
    from Cons.IH [of "dst\<lparr>disk := d1\<rparr>"] 1(2) obtain d where
      d: "send_chunks X src hs (dst\<lparr>disk := d1\<rparr>) = dst\<lparr>disk := d\<rparr>" "store_ok X B M d" "others [chunk_dir] d1 d"
        "extends X d1 d" "\<forall>h \<in> set hs. \<forall>bs. chunk_get X (disk src) h = Inr (Some bs) \<longrightarrow> chunk_get X d h = Inr (Some bs)"
      by auto
    have "chunk_get X d1 h = Inr (Some bs)" using 1(5) wf chunk_get_ok_iff [OF store_okD(1) [OF 1(2)]] by simp
    then have "chunk_get X d h = Inr (Some bs)" using d(4) by (simp add: extends_def)
    then show ?thesis
      using step d bs others_trans [OF 1(3) d(3)] extends_trans [OF 1(4) d(4)] by (intro exI [of _ d]) auto
  qed
qed

text \<open>A chunk two well-formed stores have under one hash is the same chunk.\<close>

lemma chunks_agree:
  assumes "store_ok X B M (disk src)" "store_ok X B M (disk dst)" "chunk_get X (disk src) h = Inr (Some bs)"
    and "chunk_has X (disk dst) h"
  shows "chunk_get X (disk dst) h = Inr (Some bs)"
proof -
  note S = store_okD [OF assms(1)] and T = store_okD [OF assms(2)]
  have wf: "hash_wf h" using chunk_get_wf [OF S(6) assms(3)] .
  then have at: "chunk_at X (disk src) h = Some bs" using assms(3) chunk_get_ok_iff [OF S(1)] by simp
  from assms(4) chunk_has_eq [OF T(7,5) wf] obtain bs' where at': "chunk_at X (disk dst) h = Some bs'" by auto
  have "blake3 X bs' = blake3 X bs"
    using chunks_ok_at(2) [OF S(1) at] chunks_ok_at(2) [OF T(1) at'] by (simp add: hash_of_def)
  then have "bs' = bs"
    by (rule inj_onD [OF S(10) _ chunks_ok_at(1) [OF T(1) at'] chunks_ok_at(1) [OF S(1) at]])
  with at' wf chunk_get_ok_iff [OF T(1)] show ?thesis by simp
qed

text \<open>After the transfer the puller has every chunk the source could serve.\<close>

lemma send_missing_ok:
  fixes hs :: "hash list"
  assumes "store_ok X B M (disk src)" "store_ok X B M (disk dst)"
  defines "dst1 \<equiv> send_chunks X src (missing_chunks X dst hs) dst"
  shows "store_ok X B M (disk dst1)" "others [chunk_dir] (disk dst) (disk dst1)" "extends X (disk dst) (disk dst1)"
    "h \<in> set hs \<Longrightarrow> chunk_get X (disk src) h = Inr (Some bs) \<Longrightarrow> chunk_get X (disk dst1) h = Inr (Some bs)"
proof -
  from send_chunks_ok [OF assms(1,2), of "missing_chunks X dst hs"] obtain d where
    d: "dst1 = dst\<lparr>disk := d\<rparr>" "store_ok X B M d" "others [chunk_dir] (disk dst) d" "extends X (disk dst) d"
      "\<forall>h \<in> set (missing_chunks X dst hs). \<forall>bs. chunk_get X (disk src) h = Inr (Some bs) \<longrightarrow> chunk_get X d h = Inr (Some bs)"
    unfolding dst1_def by blast
  then show "store_ok X B M (disk dst1)" "others [chunk_dir] (disk dst) (disk dst1)" "extends X (disk dst) (disk dst1)"
    by simp_all
  assume h: "h \<in> set hs" "chunk_get X (disk src) h = Inr (Some bs)"
  show "chunk_get X (disk dst1) h = Inr (Some bs)"
  proof (cases "chunk_has X (disk dst) h")
    case True
    from chunks_agree [OF assms(1,2) h(2) this] d(1,4) show ?thesis by (simp add: extends_def)
  next
    case False
    then show ?thesis using d(1,5) h by (simp add: missing_chunks_def)
  qed
qed

lemma readable_transfer:
  assumes "read_object X src i = Inr bs" "manifest_get X (disk src) i = Inr (Some m)" "object_id m = i"
    and "\<And>h b. h \<in> set (chunks (chunking m)) \<Longrightarrow> chunk_get X (disk src) h = Inr (Some b) \<Longrightarrow>
           chunk_get X (disk dst) h = Inr (Some b)"
  shows "readable X dst m bs"
proof -
  from assms(1,2) obtain c xs where m: "decoder_for (codec (storage m)) = Inr c"
    "try_map (fetch_chunk X src c i) (chunks (chunking m)) = Inr xs" "bs = concat xs"
    "fidelity (storage m) = Exact \<longrightarrow> sha256_hex X bs = sha256_hexed (original m)"
    by (auto simp: read_object_def read_manifest_bytes_def fetch_manifest_def result_simps split: if_splits)
  have "fetch_chunk X dst c i h = Inr x" if "h \<in> set (chunks (chunking m))" "fetch_chunk X src c i h = Inr x" for h x
    using that assms(4) by (auto simp: fetch_chunk_def result_simps)
  then have "try_map (fetch_chunk X dst c i) (chunks (chunking m)) = Inr xs"
    using m(2) unfolding try_map_Inr_iff by (auto simp: list_all2_conv_all_nth)
  with m assms(3) show ?thesis by (auto simp: readable_def)
qed

lemma stored_manifest:
  assumes "store_ok X B M d" "manifest_get X d i = Inr (Some m)"
  shows "manifest_storable X M m" "manifest_id X m = i" "object_id m = i"
proof -
  note S = store_okD [OF assms(1)]
  note wf = manifest_get_hash_wf [OF S(6) assms(2)]
  obtain b where "manifest_at X d i = Some b"
    using manifest_get_ok(1) [OF S(2) wf] assms(2) by (cases "manifest_at X d i") auto
  from manifest_get_ok(2) [OF S(2) wf this] assms(2) manifest_get_Some [OF assms(2)]
  show "manifest_storable X M m" "manifest_id X m = i" "object_id m = i" by (auto simp: manifest_storable_def)
qed

lemma readable_chunks:
  assumes "readable X e m bs" "h \<in> set (chunks (chunking m))"
  obtains b where "chunk_get X (disk e) h = Inr (Some b)"
proof -
  from assms obtain c x where "fetch_chunk X e c (object_id m) h = Inr x"
    by (auto simp: readable_def try_map_Inr_iff list_all2_conv_all_nth in_set_conv_nth)
  with that show thesis by (auto simp: fetch_chunk_def result_simps)
qed

lemma readable_has_chunks:
  assumes "store_ok X B M (disk e)" "readable X e m bs" "h \<in> set (chunks (chunking m))"
  shows "has_chunk X e h"
proof -
  note S = store_okD [OF assms(1)]
  from readable_chunks [OF assms(2,3)] obtain b where b: "chunk_get X (disk e) h = Inr (Some b)" .
  have wf: "hash_wf h" using chunk_get_wf [OF S(6) b] .
  with b chunk_get_ok_iff [OF S(1) wf] chunk_has_eq [OF S(7,5) wf] show ?thesis by (simp add: has_chunk_def)
qed

text \<open>The settings are in files the transfer does not touch.\<close>

lemma settings_agree:
  assumes "store_ok X B M d" "store_ok X B M d'" "others ts d d'"
  shows "meta_dir \<notin> set ts \<Longrightarrow> valid_pot b \<Longrightarrow> meta_config X d' b = meta_config X d b"
    "annotation_dir \<notin> set ts \<Longrightarrow> valid_object pk \<Longrightarrow> annotation_get X d' pk = annotation_get X d pk"
  using agree_contents [OF others_agree [OF assms(3)]]
  by (simp_all add: meta_config_eq [OF store_okD(9) [OF assms(1)]] meta_config_eq [OF store_okD(9) [OF assms(2)]]
      annotation_get_eq [OF store_okD(9) [OF assms(1)]] annotation_get_eq [OF store_okD(9) [OF assms(2)]]
      meta_path_def annotation_path_def)

lemma replicate_ok:
  assumes src: "store_ok X B M (disk src)" and dst: "store_ok X B M (disk dst)"
    and m: "manifest_get X (disk src) i = Inr (Some m)" and read: "read_object X src i = Inr bs"
    and root: "merkle_root (chunking m) = None \<or> merkle_root (chunking m) = Some (root X (chunks (chunking m)))"
    and n: "valid_bucket b" "valid_key k"
  defines "dst1 \<equiv> send_chunks X src (missing_chunks X dst (chunks (chunking m))) dst"
  assumes u: "ensure_unlocked X b k clock dst1 = Inr ()"
  shows "\<exists>dst2. import_object X b k m clock dst1 = (Inr i, dst2) \<and> store_ok X B M (disk dst2) \<and>
     others [chunk_dir, manifest_dir, pointer_dir, reverse_dir] (disk dst) (disk dst2) \<and>
     extends X (disk dst) (disk dst2) \<and> manifest_get X (disk dst2) i = Inr (Some m) \<and> read_object X dst2 i = Inr bs \<and>
     (\<forall>c j. log_at X (disk dst2) c j =
        (if c = b \<and> j = k then log_at X (disk dst) b k @ [i] else log_at X (disk dst) c j))"
proof -
  note s = send_missing_ok [OF src dst, where hs = "chunks (chunking m)", folded dst1_def]
  note st = stored_manifest [OF src m]
  have rd: "readable X dst1 m bs" by (rule readable_transfer [OF read m st(3) s(4)])
  have cs: "\<forall>h \<in> set (chunks (chunking m)). has_chunk X dst1 h" using readable_has_chunks [OF s(1) rd] by blast
  from import_ok [OF s(1) n u cs root st(1)] st obtain d where
    d: "import_object X b k m clock dst1 = (Inr i, dst1\<lparr>disk := d\<rparr>)" "store_ok X B M d" "extends X (disk dst1) d"
      "manifest_get X d i = Inr (Some m)" "others [manifest_dir, pointer_dir, reverse_dir] (disk dst1) d"
      "\<forall>c j. log_at X d c j = (if c = b \<and> j = k then log_at X (disk dst1) b k @ [i] else log_at X (disk dst1) c j)"
    by auto
  have "read_object X (dst1\<lparr>disk := d\<rparr>) i = Inr bs"
    using readable_reads [OF rd, of "dst1\<lparr>disk := d\<rparr>"] d(3,4) st(3) by simp
  moreover have "others [chunk_dir, manifest_dir, pointer_dir, reverse_dir] (disk dst) d"
    by (rule others_trans [OF others_mono [OF s(2)] others_mono [OF d(5)]]) auto
  ultimately show ?thesis
    using d extends_trans [OF s(3) d(3)] others_agree [OF s(2), THEN log_at_agree]
    by (intro exI [of _ "dst1\<lparr>disk := d\<rparr>"]) simp
qed

end
