(* ===== verification/Vault_Props.thy ===== *)
theory Vault_Props
  imports Acknowledged Replication Demo_Engine
begin

text \<open>
  The engine against its abstract specification, over whole runs of commands, and between two stores.
\<close>

section \<open>Runs\<close>

text \<open>
  The engine is a versioned map. Whatever sequence of writes, streamed writes, deletes, roll backs,
  imports, copies, moves, pot operations, lifecycle passes, collector passes and settings it executes,
  there is a run of the abstract machine with the same commands and replies, and the histories and the
  contents the engine then serves are those of the abstract state.
\<close>

theorem engine_refines_vault:
  assumes "vault_ok X B M e" "engine_run X B M e cs e'"
  shows "\<exists>V. vault_run X (vault_of X e) cs V \<and>
     (\<forall>b k. valid_bucket b \<longrightarrow> valid_key k \<longrightarrow>
        eng_history X e' b k = Inr (map fst (V (b, k))) \<and>
        get X e' b k = Inr (if V (b, k) = [] then None else Some (snd (last (V (b, k))))))"
  using run_simulates [OF assms(2,1)] vault_observed by blast

text \<open>The demonstration run: a write and a pass of the collector.\<close>

definition demo_write :: command where
  "demo_write = Write ''b'' ''k'' demo_data ''text/plain'' 10 10"

lemma demo_vault_ok: "vault_ok demo small_bufs demo_bodies demo_engine"
  using demo_writable [OF demo_bodies_inj]
  by (auto simp: vault_ok_def writable_def whole_def versions_def log_at_def)

lemma demo_run:
  obtains i e where "engine_run demo small_bufs demo_bodies demo_engine [(demo_write, Stored i), (Collect 20 0, Done)] e"
    "eng_history demo e ''b'' ''k'' = Inr [i]" "get demo e ''b'' ''k'' = Inr (Some demo_data)"
proof -
  obtain i e1 where p: "put demo ''b'' ''k'' demo_data ''text/plain'' 10 10 demo_engine = (Inr i, e1)"
    "store_ok demo small_bufs demo_bodies (disk e1)" by (rule demo_put)
  have a: "admissible demo small_bufs demo_bodies demo_write demo_engine"
    using demo_encodes by (auto simp: demo_write_def storable_def demo_bodies_def)
  have x: "exec demo demo_write demo_engine = (Stored i, e1)" using p(1) by (simp add: demo_write_def)
  from executes [OF starts a x] have r1: "engine_run demo small_bufs demo_bodies demo_engine [(demo_write, Stored i)] e1"
    by simp
  from gc_sweep_ok [OF p(2) refl, of 20 0] obtain n e2 where "gc_sweep demo 20 0 e1 = (Inr n, e2)" by blast
  then have y: "exec demo (Collect 20 0) e1 = (Done, e2)" by simp
  have c: "admissible demo small_bufs demo_bodies (Collect 20 0) e1" by simp
  have r: "engine_run demo small_bufs demo_bodies demo_engine ([] @ [(demo_write, Stored i)] @ [(Collect 20 0, Done)]) e2"
    using executes [OF r1 c y] by simp
  from run_simulates [OF r demo_vault_ok] have s: "vault_ok demo small_bufs demo_bodies e2"
    "vault_run demo (vault_of demo demo_engine) ([] @ [(demo_write, Stored i)] @ [(Collect 20 0, Done)]) (vault_of demo e2)"
    by simp_all
  have "vault_of demo demo_engine (''b'', ''k'') = []" by (simp add: vault_of_def log_at_def)
  then have "vault_of demo e2 (''b'', ''k'') = [(i, demo_data)]"
    using s(2) unfolding append_assoc [symmetric]
    by (elim vault_run_snocE)
      (auto simp: demo_write_def append_version_def elim!: write_stepE collect_stepE vault_run_NilE)
  with vault_observed [OF s(1), of "''b''" "''k''"] r show thesis by (intro that) simp_all
qed

theorem engine_refines_vault_witness:
  "\<exists>i e V. engine_run demo small_bufs demo_bodies demo_engine [(demo_write, Stored i), (Collect 20 0, Done)] e \<and>
     vault_run demo (vault_of demo demo_engine) [(demo_write, Stored i), (Collect 20 0, Done)] V \<and>
     map fst (V (''b'', ''k'')) = [i] \<and> get demo e ''b'' ''k'' = Inr (Some demo_data)"
proof -
  obtain i e where r: "engine_run demo small_bufs demo_bodies demo_engine
      [(demo_write, Stored i), (Collect 20 0, Done)] e" "eng_history demo e ''b'' ''k'' = Inr [i]"
      "get demo e ''b'' ''k'' = Inr (Some demo_data)" by (rule demo_run)
  from engine_refines_vault [OF demo_vault_ok r(1)] obtain V where
    V: "vault_run demo (vault_of demo demo_engine) [(demo_write, Stored i), (Collect 20 0, Done)] V"
      "eng_history demo e ''b'' ''k'' = Inr (map fst (V (''b'', ''k'')))" by auto
  with r show ?thesis by (intro exI [of _ i] exI [of _ e] exI [of _ V]) simp
qed





section \<open>A version whose bytes are gone\<close>

text \<open>
  C36: restoring is not safe for any id. The collector erases chunks but never manifests, and a restore
  asks only for the manifest: rolling a key to an id whose chunks were collected is acknowledged, becomes
  the newest version, and every read of the key fails from then on.
\<close>

theorem restore_accepts_collected:
  assumes "store_ok X B M (disk e)" "valid_bucket b" "valid_key k" "ensure_unlocked X b k clock e = Inr ()"
    and "object_manifest X e i = Inr (Some m)" "h \<in> set (chunks (chunking m))" "chunk_bytes X e h = Inr None"
  shows "\<exists>e' err. restore_version X b k i clock e = (Inr (), e') \<and> eng_current X e' b k = Inr (Some i) \<and>
     get X e' b k = Inl err"
proof -
  have m: "manifest_get X (disk e) i = Inr (Some m)" using assms(5) by (auto simp: object_manifest_def result_simps)
  from restore_ok [OF assms(1-4) m] obtain d where d: "restore_version X b k i clock e = (Inr (), e\<lparr>disk := d\<rparr>)"
    "store_ok X B M d" "others [pointer_dir, reverse_dir] (disk e) d" "extends X (disk e) d"
    "\<forall>c j. log_at X d c j = (if c = b \<and> j = k then log_at X (disk e) b k @ [i] else log_at X (disk e) c j)"
    by auto
  let ?e = "e\<lparr>disk := d\<rparr>"
  note S = store_okD [OF assms(1)] and T = store_okD [OF d(2)]
  have ok: "store_ok X B M (disk ?e)" using d(2) by simp
  have m': "manifest_get X d i = Inr (Some m)" using m d(4) by (simp add: extends_def)
  have none: "chunk_get X (disk e) h = Inr None" using assms(7) by (auto simp: chunk_bytes_def result_simps)
  have "agree chunk_dir (disk e) d" by (rule others_agree [OF d(3)]) simp
  then have "chunk_get X d h \<noteq> Inr (Some bs)" for bs
    using chunk_get_agree [OF S(7,5) T(5)] chunk_get_wf [OF S(6), of d h bs] none by auto
  then have "\<not> readable X ?e m bs" for bs using readable_chunks [OF _ assms(6), of X ?e bs] by auto
  then have "\<not> (\<exists>bs. read_manifest_bytes X ?e i = Inr bs)"
    using readable_transfer [of X ?e i _ m ?e] m' stored_manifest(3) [OF assms(1) m] by (auto simp: read_object_def)
  then obtain err where "read_manifest_bytes X ?e i = Inl err" by (cases "read_manifest_bytes X ?e i") auto
  then have "get X ?e b k = Inl err" using d(5) by (simp add: get_eq [OF ok assms(2,3)])
  moreover have "eng_current X ?e b k = Inr (Some i)" using d(5) by (simp add: eng_current_eq [OF ok assms(2,3)])
  ultimately show ?thesis using d(1) by blast
qed

text \<open>The write of the demonstration run, with its manifest.\<close>

definition demo_written :: manifest where
  "demo_written = with_id demo (put_manifest demo demo_engine ''text/plain'' demo_ep [demo_data] demo_data 10)"

lemma demo_written_simps [simp]:
  "chunks (chunking demo_written) = [hash_of demo demo_data]"
  "merkle_root (chunking demo_written) = Some (root demo [hash_of demo demo_data])"
  by (simp_all add: demo_written_def with_id_def put_manifest_def new_manifest_def)

lemma demo_written_ok:
  obtains i e where "put demo ''b'' ''k'' demo_data ''text/plain'' 10 10 demo_engine = (Inr i, e)"
    "store_ok demo small_bufs demo_bodies (disk e)" "pinned e = []"
    "others [chunk_dir, manifest_dir, pointer_dir, reverse_dir] [] (disk e)"
    "\<forall>c j. log_at demo (disk e) c j = (if c = ''b'' \<and> j = ''k'' then [i] else [])"
    "object_manifest demo e i = Inr (Some demo_written)" "read_object demo e i = Inr demo_data"
proof -
  have m: "manifest_body demo (put_manifest demo demo_engine ''text/plain'' demo_ep [demo_data] demo_data 10)
      \<in> demo_bodies" by (simp add: demo_bodies_def)
  from put_ok [OF demo_writable [OF demo_bodies_inj] demo_unlocked demo_effective demo_encodes m, where now = 10]
  obtain i e where p: "put demo ''b'' ''k'' demo_data ''text/plain'' 10 10 demo_engine = (Inr i, e)"
    "store_ok demo small_bufs demo_bodies (disk e)"
    "others [chunk_dir, manifest_dir, pointer_dir, reverse_dir] (disk demo_engine) (disk e)"
    "read_manifest_bytes demo e i = Inr demo_data"
    "\<forall>c j. log_at demo (disk e) c j = (if c = ''b'' \<and> j = ''k''
        then log_at demo (disk demo_engine) ''b'' ''k'' @ [i] else log_at demo (disk demo_engine) c j)"
    "set (pinned e) = set (pinned demo_engine) - hash_of demo ` set [demo_data]"
    "manifest_get demo (disk e) i =
       Inr (Some (with_id demo (put_manifest demo demo_engine ''text/plain'' demo_ep [demo_data] demo_data 10)))"
    by (elim exE conjE) (rule that)
  show thesis
    by (rule that [OF p(1,2)]) (use p(3-7) in \<open>simp_all add: log_at_def object_manifest_def read_object_def demo_written_def\<close>)
qed

text \<open>Written, deleted, collected, restored.\<close>

theorem restore_accepts_collected_witness:
  "\<exists>i e1 e2 e3 e4 t err. put demo ''b'' ''k'' demo_data ''text/plain'' 10 10 demo_engine = (Inr i, e1) \<and>
     delete_object demo ''b'' ''k'' 10 e1 = (Inr (), e2) \<and>
     snd (gc_sweep demo t 0 (snd (gc_sweep demo t 0 e2))) = e3 \<and>
     restore_version demo ''b'' ''k'' i 10 e3 = (Inr (), e4) \<and> get demo e4 ''b'' ''k'' = Inl err"
proof -
  obtain i e1 where p: "put demo ''b'' ''k'' demo_data ''text/plain'' 10 10 demo_engine = (Inr i, e1)"
    "store_ok demo small_bufs demo_bodies (disk e1)" "pinned e1 = []"
    "others [chunk_dir, manifest_dir, pointer_dir, reverse_dir] [] (disk e1)"
    "\<forall>c j. log_at demo (disk e1) c j = (if c = ''b'' \<and> j = ''k'' then [i] else [])"
    "object_manifest demo e1 i = Inr (Some demo_written)" by (rule demo_written_ok)
  let ?h = "hash_of demo demo_data"
  have free: "ensure_unlocked demo ''b'' ''k'' clock e = Inr ()"
    if "store_ok demo small_bufs demo_bodies (disk e)" "agree annotation_dir [] (disk e)" for clock e
  proof -
    have "contents (disk e) (annotation_dir # q) = None" for q using agree_contents [OF that(2)] by simp
    then show ?thesis using annotation_get_eq [OF store_okD(9) [OF that(1)], of "(''b'', ''k'')"]
      by (simp add: ensure_unlocked_def annotation_path_def annotation_default_def)
  qed
  have a1: "agree annotation_dir [] (disk e1)" by (rule others_agree [OF p(4)]) simp
  from delete_ok [OF p(2) demo_names(3,4) free [OF p(2) a1, of 10]] obtain d where
    d: "delete_object demo ''b'' ''k'' 10 e1 = (Inr (), e1\<lparr>disk := d\<rparr>)" "store_ok demo small_bufs demo_bodies d"
      "others [pointer_dir] (disk e1) d" "extends demo (disk e1) d"
      "\<forall>c j. log_at demo d c j = (if c = ''b'' \<and> j = ''k'' then [] else log_at demo (disk e1) c j)"
    by (elim exE conjE) (rule that)
  have empty: "log_at demo d c j = []" for c j using d(5) p(5) by simp
  let ?e2 = "e1\<lparr>disk := d\<rparr>"
  have ok2: "store_ok demo small_bufs demo_bodies (disk ?e2)" using d(2) by simp
  obtain t where t: "\<forall>at. map_of (condemned_at demo d) ?h = Some at \<longrightarrow> at \<le> t"
    by (cases "map_of (condemned_at demo d) ?h") auto
  obtain r3 e3 where 3: "gc_sweep demo t 0 ?e2 = (r3, e3)" by force
  obtain r4 e4 where 4: "gc_sweep demo t 0 e3 = (r4, e4)" by force
  note g3 = gc_sweep_run(1,2) [OF ok2 3] gc_referenced(2) [OF ok2 3]
  note g4 = gc_sweep_run(1,2) [OF g3(1) 4] gc_referenced(2) [OF g3(1) 4]
  have "chunk_at demo (disk e4) ?h = None"
    by (rule gc_collects [OF ok2 _ _ _ _ _ 3 4]) (use empty p(3) t in \<open>simp_all add: referenced_def versions_def\<close>)
  then have gone: "chunk_bytes demo e4 ?h = Inr None"
    by (simp add: chunk_bytes_def chunk_get_ok_iff [OF store_okD(1) [OF g4(1)]])
  have m: "object_manifest demo e4 i = Inr (Some demo_written)"
    using p(6) d(4) g3(3) g4(3) by (auto simp: object_manifest_def extends_def result_simps)
  have a4: "agree annotation_dir [] (disk e4)"
    using a1 others_agree [OF d(3), of annotation_dir] others_agree [OF g3(2), of annotation_dir]
      others_agree [OF g4(2), of annotation_dir] by (auto intro: agree_trans)
  have "?h \<in> set (chunks (chunking demo_written))" by simp
  from restore_accepts_collected [OF g4(1) _ _ free [OF g4(1) a4] m this gone, of 10] p(1) d(1) 3 4
  show ?thesis by (metis demo_names(3,4) snd_conv)
qed

section \<open>Between two stores\<close>

text \<open>
  C13: replication is faithful and disturbs nothing. When the puller fetches exactly the chunks it lacks
  and adopts the manifest, the key's history grows by that one id, which reads the same bytes and has the
  same Merkle root there as at the source. Every id that the puller could read it still reads with the same
  bytes, and its other histories, its pot configurations and its annotations are as they were.
\<close>

theorem replica_reads_the_same:
  assumes "store_ok X B M (disk src)" "store_ok X B M (disk dst)"
    and "object_manifest X src i = Inr (Some m)" "read_object X src i = Inr bs"
    and "merkle_root (chunking m) = None \<or> merkle_root (chunking m) = Some (root X (chunks (chunking m)))"
    and "valid_bucket b" "valid_key k"
    and "ensure_unlocked X b k clock (send_chunks X src (missing_chunks X dst (chunks (chunking m))) dst) = Inr ()"
  shows "\<exists>dst' h. import_object X b k m clock (send_chunks X src (missing_chunks X dst (chunks (chunking m))) dst) =
       (Inr i, dst') \<and> get X dst' b k = Inr (Some bs) \<and> object_root X dst' i = object_root X src i \<and>
     eng_history X dst b k = Inr h \<and> eng_history X dst' b k = Inr (h @ [i]) \<and>
     (\<forall>c j. valid_bucket c \<longrightarrow> valid_key j \<longrightarrow> (c, j) \<noteq> (b, k) \<longrightarrow> eng_history X dst' c j = eng_history X dst c j) \<and>
     (\<forall>j x. read_object X dst j = Inr x \<longrightarrow> read_object X dst' j = Inr x) \<and>
     (\<forall>c. valid_pot c \<longrightarrow> get_bucket_config X dst' c = get_bucket_config X dst c) \<and>
     (\<forall>c j. valid_object (c, j) \<longrightarrow> get_annotation X dst' c j = get_annotation X dst c j)"
proof -
  have m: "manifest_get X (disk src) i = Inr (Some m)" using assms(3) by (auto simp: object_manifest_def result_simps)
  from replicate_ok [OF assms(1,2) m assms(4-8)] obtain dst' where
    r: "import_object X b k m clock (send_chunks X src (missing_chunks X dst (chunks (chunking m))) dst) = (Inr i, dst')"
      "store_ok X B M (disk dst')" "extends X (disk dst) (disk dst')" "manifest_get X (disk dst') i = Inr (Some m)"
      "read_object X dst' i = Inr bs"
      "\<forall>c j. log_at X (disk dst') c j = (if c = b \<and> j = k then log_at X (disk dst) b k @ [i] else log_at X (disk dst) c j)"
      "others [chunk_dir, manifest_dir, pointer_dir, reverse_dir] (disk dst) (disk dst')"
    by blast
  have hist: "eng_history X dst c j = Inr (log_at X (disk dst) c j)" "eng_history X dst' c j = Inr (log_at X (disk dst') c j)"
    if "valid_bucket c" "valid_key j" for c j
    using history_eq(1) [OF store_okD(3) [OF assms(2)] that] history_eq(1) [OF store_okD(3) [OF r(2)] that]
    by (simp_all add: eng_history_def)
  have "get X dst' b k = Inr (Some bs)"
    using r(5,6) by (simp add: get_eq [OF r(2) assms(6,7)] read_object_def)
  moreover have "object_root X dst' i = object_root X src i"
    using r(4) m by (simp add: object_root_def fetch_manifest_def)
  moreover have "read_object X dst' j = Inr x" if "read_object X dst j = Inr x" for j x
    using read_extends [OF r(3)] that by (simp add: read_object_def)
  moreover have "eng_history X dst' b k = Inr (log_at X (disk dst) b k @ [i])" using hist(2) [OF assms(6,7)] r(6) by simp
  moreover have "eng_history X dst' c j = eng_history X dst c j"
    if "valid_bucket c" "valid_key j" "(c, j) \<noteq> (b, k)" for c j
    using hist [OF that(1,2)] r(6) that(3) by auto
  moreover have "get_bucket_config X dst' c = get_bucket_config X dst c" if "valid_pot c" for c
    using settings_agree(1) [OF assms(2) r(2,7) _ that] by (simp add: get_bucket_config_def)
  moreover have "get_annotation X dst' c j = get_annotation X dst c j" if "valid_object (c, j)" for c j
    using settings_agree(2) [OF assms(2) r(2,7) _ that] by (simp add: get_annotation_def)
  ultimately show ?thesis using r(1) hist(1) [OF assms(6,7)] by blast
qed

theorem replica_reads_the_same_witness:
  "\<exists>src i m dst'. read_object demo src i = Inr demo_data \<and> object_manifest demo src i = Inr (Some m) \<and>
     missing_chunks demo demo_engine (chunks (chunking m)) = [hash_of demo demo_data] \<and>
     import_object demo ''b'' ''k'' m 10
       (send_chunks demo src (missing_chunks demo demo_engine (chunks (chunking m))) demo_engine) = (Inr i, dst') \<and>
     get demo dst' ''b'' ''k'' = Inr (Some demo_data)"
proof -
  let ?h = "hash_of demo demo_data" and ?m = demo_written
  obtain i e where p: "store_ok demo small_bufs demo_bodies (disk e)" "read_object demo e i = Inr demo_data"
    "object_manifest demo e i = Inr (Some ?m)" by (rule demo_written_ok)
  have r: "merkle_root (chunking ?m) = Some (root demo (chunks (chunking ?m)))" by simp
  note D = store_okD [OF demo_store_ok [OF demo_bodies_inj]]
  have "\<not> chunk_has demo [] ?h" by (simp add: chunk_has_eq [OF D(7,5)] chunk_at_def)
  then have miss: "missing_chunks demo demo_engine (chunks (chunking ?m)) = [?h]"
    by (simp add: missing_chunks_def)
  have ok: "store_ok demo small_bufs demo_bodies (disk demo_engine)" by (simp add: demo_store_ok)
  let ?dst = "send_chunks demo e (missing_chunks demo demo_engine (chunks (chunking ?m))) demo_engine"
  from send_chunks_ok [OF p(1) ok] obtain d where
    d: "?dst = demo_on d" "store_ok demo small_bufs demo_bodies d" "others [chunk_dir] [] d"
    unfolding demo_on_def by (metis demo_engine_simps(1))
  have u: "ensure_unlocked demo ''b'' ''k'' 10 ?dst = Inr ()" unfolding d(1) by (rule demo_on_chunks(1) [OF d(2,3)])
  from replica_reads_the_same [OF p(1) ok p(3,2) disjI2 [OF r] demo_names(3,4) u] obtain dst' where
    "import_object demo ''b'' ''k'' ?m 10 ?dst = (Inr i, dst')" "get demo dst' ''b'' ''k'' = Inr (Some demo_data)"
    by (elim exE conjE) (rule that)
  with p(2,3) miss show ?thesis by blast
qed

end
