(* ===== verification/Commit_Locks.thy ===== *)
theory Commit_Locks
  imports Pointer_Store "HOL-Library.Multiset"
begin

text \<open>
  Commits on the version logs as several threads make them (\<open>barme-engine/src/lib.rs\<close>). A pointer file
  is read, extended and rewritten, so the engine holds one of 256 mutexes, chosen by hashing pot and
  key, from before the read until after the write: in \<open>put\<close>, \<open>put_stream\<close>, \<open>complete_multipart\<close>,
  \<open>restore_version\<close>, \<open>import_object\<close> and \<open>delete\<close>. \<open>enforce_lifecycle\<close> trims without it. The state
  machine below has one step per lock operation and file operation; the abstract machine replays whole
  commits one after the other.
\<close>

section \<open>Locks and commits\<close>

definition KEY_LOCK_SHARDS :: nat where "KEY_LOCK_SHARDS = 256"

text \<open>\<open>sip\<close> is the standard library's hasher; \<open>str\<close> feeds its bytes and a terminating 255.\<close>

definition key_lock :: "(bytes \<Rightarrow> u64) \<Rightarrow> string \<Rightarrow> string \<Rightarrow> nat" where
  "key_lock sip b k = unat (sip (as_bytes b @ [255, 0] @ as_bytes k @ [255])) mod KEY_LOCK_SHARDS"

datatype commit =
    Append string string hash
  | Drop string string
  | Trim string string nat

fun commit_target :: "commit \<Rightarrow> string \<times> string" where
  "commit_target (Append b k h) = (b, k)"
| "commit_target (Drop b k) = (b, k)"
| "commit_target (Trim b k n) = (b, k)"

fun takes_lock :: "commit \<Rightarrow> bool" where
  "takes_lock (Trim b k n) = False"
| "takes_lock c = True"

definition shard_of :: "(bytes \<Rightarrow> u64) \<Rightarrow> commit \<Rightarrow> nat" where
  "shard_of sip c = key_lock sip (fst (commit_target c)) (snd (commit_target c))"

section \<open>The threads\<close>

text \<open>A thread that has read the file knows the text it will write.\<close>

datatype thread =
    Start commit
  | Holding commit
  | Writing commit string
  | Finished commit

record commits =
  shared :: fs
  held :: "nat set"
  threads :: "thread list"

definition release_of :: "(bytes \<Rightarrow> u64) \<Rightarrow> commit \<Rightarrow> nat set \<Rightarrow> nat set" where
  "release_of sip c hs = (if takes_lock c then hs - {shard_of sip c} else hs)"

inductive commit_step :: "ext \<Rightarrow> (bytes \<Rightarrow> u64) \<Rightarrow> commits \<Rightarrow> commits \<Rightarrow> bool" for X sip where
  acquire: "i < length (threads s) \<Longrightarrow> threads s ! i = Start c \<Longrightarrow> takes_lock c \<Longrightarrow> shard_of sip c \<notin> held s \<Longrightarrow>
    commit_step X sip s (s\<lparr>held := insert (shard_of sip c) (held s), threads := (threads s)[i := Holding c]\<rparr>)"
| load: "i < length (threads s) \<Longrightarrow> threads s ! i = Holding (Append b k h) \<Longrightarrow> pointer_path X b k = Inr p \<Longrightarrow>
    read_to_string_opt (shared s) p = Inr r \<Longrightarrow>
    commit_step X sip s (s\<lparr>threads := (threads s)[i :=
      Writing (Append b k h) ((case r of None \<Rightarrow> [] | Some t \<Rightarrow> t) @ show_hash X h @ [CHR 0x0A])]\<rparr>)"
| store: "i < length (threads s) \<Longrightarrow> threads s ! i = Writing c t \<Longrightarrow> pointer_path X (fst (commit_target c)) (snd (commit_target c)) = Inr p \<Longrightarrow>
    write_atomic p (as_bytes t) (shared s) = (Inr (), d) \<Longrightarrow>
    commit_step X sip s (s\<lparr>shared := d, held := release_of sip c (held s), threads := (threads s)[i := Finished c]\<rparr>)"
| drops: "i < length (threads s) \<Longrightarrow> threads s ! i = Holding (Drop b k) \<Longrightarrow> pointer_remove X b k (shared s) = (Inr (), d) \<Longrightarrow>
    commit_step X sip s
      (s\<lparr>shared := d, held := release_of sip (Drop b k) (held s), threads := (threads s)[i := Finished (Drop b k)]\<rparr>)"
| trim_skip: "i < length (threads s) \<Longrightarrow> threads s ! i = Start (Trim b k n) \<Longrightarrow> history X (shared s) b k = Inr hs \<Longrightarrow>
    n = 0 \<or> length hs \<le> n \<Longrightarrow>
    commit_step X sip s (s\<lparr>threads := (threads s)[i := Finished (Trim b k n)]\<rparr>)"
| trim_load: "i < length (threads s) \<Longrightarrow> threads s ! i = Start (Trim b k n) \<Longrightarrow> history X (shared s) b k = Inr hs \<Longrightarrow>
    0 < n \<Longrightarrow> n < length hs \<Longrightarrow>
    commit_step X sip s (s\<lparr>threads := (threads s)[i :=
      Writing (Trim b k n) (entry_lines X (drop (length hs - n) hs))]\<rparr>)"

abbreviation commit_run :: "ext \<Rightarrow> (bytes \<Rightarrow> u64) \<Rightarrow> commits \<Rightarrow> commits \<Rightarrow> bool" where
  "commit_run X sip \<equiv> (commit_step X sip)\<^sup>*\<^sup>*"

section \<open>The abstract machine\<close>

type_synonym logs = "string \<times> string \<Rightarrow> hash list"

fun apply_commit :: "commit \<Rightarrow> logs \<Rightarrow> logs" where
  "apply_commit (Append b k h) L = L((b, k) := L (b, k) @ [h])"
| "apply_commit (Drop b k) L = L((b, k) := [])"
| "apply_commit (Trim b k n) L = L((b, k) := (if n = 0 then L (b, k) else drop (length (L (b, k)) - n) (L (b, k))))"

definition replay :: "commit list \<Rightarrow> logs \<Rightarrow> logs" where
  "replay cs L = fold apply_commit cs L"

definition logs_of :: "ext \<Rightarrow> fs \<Rightarrow> logs" where
  "logs_of X d = (\<lambda>(b, k). log_at X d b k)"

fun finished :: "thread \<Rightarrow> commit list" where
  "finished (Finished c) = [c]"
| "finished t = []"

fun holds :: "thread \<Rightarrow> commit option" where
  "holds (Holding c) = Some c"
| "holds (Writing c t) = Some c"
| "holds t = None"

fun commit_of :: "thread \<Rightarrow> commit" where
  "commit_of (Start c) = c"
| "commit_of (Holding c) = c"
| "commit_of (Writing c t) = c"
| "commit_of (Finished c) = c"

fun commit_ok :: "commit \<Rightarrow> bool" where
  "commit_ok (Append b k h) = (valid_bucket b \<and> valid_key k \<and> hash_wf h)"
| "commit_ok (Drop b k) = (valid_bucket b \<and> valid_key k)"
| "commit_ok (Trim b k n) = (valid_bucket b \<and> valid_key k)"

section \<open>Refinement\<close>

text \<open>
  What a thread that holds its lock may rely on: what it is about to write is the file's present
  contents with its own line added.
\<close>

definition fresh_text :: "ext \<Rightarrow> fs \<Rightarrow> thread \<Rightarrow> bool" where
  "fresh_text X d t \<longleftrightarrow>
     (\<forall>c u. t = Writing c u \<longrightarrow> (\<exists>b k h. c = Append b k h \<and> u = entry_lines X (log_at X d b k @ [h])))"

definition commits_ok :: "ext \<Rightarrow> (bytes \<Rightarrow> u64) \<Rightarrow> commits \<Rightarrow> bool" where
  "commits_ok X sip s \<longleftrightarrow>
     pointers_ok X (shared s) \<and>
     (\<forall>t \<in> set (threads s). commit_ok (commit_of t) \<and> takes_lock (commit_of t) \<and> fresh_text X (shared s) t) \<and>
     (\<forall>i < length (threads s). \<forall>c. holds (threads s ! i) = Some c \<longrightarrow> shard_of sip c \<in> held s) \<and>
     (\<forall>i < length (threads s). \<forall>j < length (threads s). \<forall>c c'.
        holds (threads s ! i) = Some c \<longrightarrow> holds (threads s ! j) = Some c' \<longrightarrow>
        shard_of sip c = shard_of sip c' \<longrightarrow> i = j)"

definition finished_commits :: "commits \<Rightarrow> commit list" where
  "finished_commits s = concat (map finished (threads s))"

lemma shard_target: "commit_target c = commit_target c' \<Longrightarrow> shard_of sip c = shard_of sip c'"
  by (simp add: shard_of_def)

lemma commits_ok_update:
  assumes ok: "commits_ok X sip s" and i: "i < length (threads s)" and c: "commit_of t = commit_of (threads s ! i)"
    and d: "pointers_ok X d" "fresh_text X d t"
    and other: "\<And>j. j < length (threads s) \<Longrightarrow> j \<noteq> i \<Longrightarrow> fresh_text X d (threads s ! j)"
    and mine: "\<And>c. holds t = Some c \<Longrightarrow> shard_of sip c \<in> H \<and>
      (\<forall>j < length (threads s). \<forall>c'. j \<noteq> i \<longrightarrow> holds (threads s ! j) = Some c' \<longrightarrow> shard_of sip c' \<noteq> shard_of sip c)"
    and kept: "\<And>j c'. j < length (threads s) \<Longrightarrow> j \<noteq> i \<Longrightarrow> holds (threads s ! j) = Some c' \<Longrightarrow> shard_of sip c' \<in> H"
  shows "commits_ok X sip (s\<lparr>shared := d, held := H, threads := (threads s)[i := t]\<rparr>)"
proof -
  let ?ts = "(threads s)[i := t]"
  have "commit_ok (commit_of u) \<and> takes_lock (commit_of u) \<and> fresh_text X d u" if "u \<in> set ?ts" for u
  proof -
    from that obtain j where j: "j < length (threads s)" "u = ?ts ! j" by (auto simp: in_set_conv_nth)
    have "commit_ok (commit_of (threads s ! j)) \<and> takes_lock (commit_of (threads s ! j))"
      using ok j(1) by (simp add: commits_ok_def)
    then show ?thesis using j i c d(2) other [OF j(1)] by (cases "j = i") auto
  qed
  moreover have "shard_of sip c \<in> H" if "j < length (threads s)" "holds (?ts ! j) = Some c" for j c
    using that i mine kept by (cases "j = i") auto
  moreover have "j = k"
    if "j < length (threads s)" "k < length (threads s)" "holds (?ts ! j) = Some c" "holds (?ts ! k) = Some c'"
      "shard_of sip c = shard_of sip c'" for j k c c'
  proof (rule ccontr)
    assume "j \<noteq> k"
    then consider "j = i" "k \<noteq> i" | "k = i" "j \<noteq> i" | "j \<noteq> i" "k \<noteq> i" by blast
    then show False
    proof cases
      case 1
      with that i mine [of c] show False by auto
    next
      case 2
      with that i mine [of c'] show False by auto
    next
      case 3
      with that ok \<open>j \<noteq> k\<close> show False by (auto simp: commits_ok_def)
    qed
  qed
  ultimately show ?thesis using d(1) by (simp add: commits_ok_def)
qed

lemma finished_update:
  assumes "i < length ts" "finished (ts ! i) = []"
  shows "mset (concat (map finished (ts[i := t]))) = mset (concat (map finished ts)) + mset (finished t)"
proof -
  have "concat (map finished ts) = concat (map finished (take i ts)) @ concat (map finished (drop (Suc i) ts))"
    using assms(2) by (subst id_take_nth_drop [OF assms(1)]) simp
  then show ?thesis using assms(1) by (simp add: upd_conv_take_nth_drop)
qed

text \<open>A finished write by the thread that holds the lock leaves every other holder's text up to date.\<close>

lemma fresh_other:
  assumes ok: "commits_ok X sip s" and ij: "i < length (threads s)" "j < length (threads s)" "j \<noteq> i"
    and c: "holds (threads s ! i) = Some c"
    and d: "\<And>b k. (b, k) \<noteq> commit_target c \<Longrightarrow> log_at X d b k = log_at X (shared s) b k"
  shows "fresh_text X d (threads s ! j)"
  unfolding fresh_text_def
proof (intro allI impI)
  fix c' u
  assume w: "threads s ! j = Writing c' u"
  have "fresh_text X (shared s) (threads s ! j)" using ok ij(2) by (simp add: commits_ok_def)
  with w obtain b k h where a: "c' = Append b k h" "u = entry_lines X (log_at X (shared s) b k @ [h])"
    by (auto simp: fresh_text_def)
  have "shard_of sip c \<noteq> shard_of sip c'"
    using ok ij c w unfolding commits_ok_def by (metis holds.simps(2))
  then have "(b, k) \<noteq> commit_target c" using a(1) shard_target [of c c' sip] by auto
  then show "\<exists>b k h. c' = Append b k h \<and> u = entry_lines X (log_at X d b k @ [h])" using a d by simp
qed

lemma no_hold_fresh: "holds t = None \<Longrightarrow> fresh_text X d t" "\<not> (\<exists>c u. t = Writing c u) \<Longrightarrow> fresh_text X d t"
  by (cases t) (auto simp: fresh_text_def)

text \<open>One step is either invisible to the logs or exactly one whole commit.\<close>

definition refines :: "ext \<Rightarrow> commits \<Rightarrow> commits \<Rightarrow> bool" where
  "refines X s s' \<longleftrightarrow>
     (\<exists>cs. logs_of X (shared s') = replay cs (logs_of X (shared s)) \<and>
           mset (finished_commits s') = mset (finished_commits s) + mset cs)"

lemma commit_done:
  assumes ok: "commits_ok X sip s" and i: "i < length (threads s)" "holds (threads s ! i) = Some c"
    and d: "pointers_ok X d" "logs_of X d = apply_commit c (logs_of X (shared s))"
    and s': "s' = s\<lparr>shared := d, held := release_of sip c (held s), threads := (threads s)[i := Finished c]\<rparr>"
  shows "commits_ok X sip s' \<and> refines X s s'"
proof -
  have c: "commit_of (threads s ! i) = c" using i(2) by (cases "threads s ! i") auto
  then have lk: "takes_lock c" using ok i(1) unfolding commits_ok_def by (metis nth_mem)
  have far: "log_at X d b k = log_at X (shared s) b k" if "(b, k) \<noteq> commit_target c" for b k
  proof -
    have "logs_of X d (b, k) = logs_of X (shared s) (b, k)" using that d(2) lk by (cases c) auto
    then show ?thesis by (simp add: logs_of_def)
  qed
  have uniq: "shard_of sip c' \<noteq> shard_of sip c" if "j < length (threads s)" "j \<noteq> i" "holds (threads s ! j) = Some c'" for j c'
    using ok i that unfolding commits_ok_def by metis
  have "commits_ok X sip s'"
    unfolding s'
  proof (rule commits_ok_update [OF ok i(1)])
    show "fresh_text X d (threads s ! j)" if "j < length (threads s)" "j \<noteq> i" for j
      by (rule fresh_other [OF ok i(1) that i(2) far])
    show "shard_of sip c' \<in> release_of sip c (held s)"
      if "j < length (threads s)" "j \<noteq> i" "holds (threads s ! j) = Some c'" for j c'
      using uniq [OF that] ok that lk by (simp add: commits_ok_def release_of_def)
  qed (simp_all add: c d(1) no_hold_fresh)
  moreover have "finished (threads s ! i) = []" using i(2) by (cases "threads s ! i") auto
  from finished_update [OF i(1) this, of "Finished c"]
  have "mset (finished_commits s') = mset (finished_commits s) + mset [c]" by (simp add: finished_commits_def s')
  ultimately show ?thesis using d(2) unfolding refines_def
    by (intro conjI exI [of _ "[c]"]) (simp_all add: replay_def s')
qed

lemma commit_step_refines:
  assumes "commit_step X sip s s'" "commits_ok X sip s"
  shows "commits_ok X sip s' \<and> refines X s s'"
  using assms(1)
proof (cases rule: commit_step.cases)
  case (acquire i c)
  note i = acquire(2,3)
  have "commits_ok X sip (s\<lparr>shared := shared s, held := insert (shard_of sip c) (held s), threads := (threads s)[i := Holding c]\<rparr>)"
  proof (rule commits_ok_update [OF assms(2) i(1)])
    show "pointers_ok X (shared s)" using assms(2) by (simp add: commits_ok_def)
    show "fresh_text X (shared s) (threads s ! j)" if "j < length (threads s)" for j
      using assms(2) that by (simp add: commits_ok_def)
    show "shard_of sip c' \<in> insert (shard_of sip c) (held s)"
      if "j < length (threads s)" "holds (threads s ! j) = Some c'" for j c'
      using assms(2) that by (simp add: commits_ok_def)
    show "shard_of sip x \<in> insert (shard_of sip c) (held s) \<and>
        (\<forall>j < length (threads s). \<forall>c'. j \<noteq> i \<longrightarrow> holds (threads s ! j) = Some c' \<longrightarrow> shard_of sip c' \<noteq> shard_of sip x)"
      if "holds (Holding c) = Some x" for x
      using that acquire(5) assms(2) unfolding commits_ok_def by auto
  qed (use i in \<open>simp_all add: no_hold_fresh\<close>)
  moreover have "mset (finished_commits s') = mset (finished_commits s)"
    using finished_update [OF i(1), of "Holding c"] i(2) acquire(1) by (simp add: finished_commits_def)
  ultimately show ?thesis using acquire(1) unfolding refines_def
    by (intro conjI exI [of _ "[]"]) (simp_all add: replay_def)
next
  case (load i b k h p r)
  note i = load(2,3)
  have P: "pointers_ok X (shared s)" using assms(2) by (simp add: commits_ok_def)
  have v: "valid_bucket b" "valid_key k" using assms(2) i unfolding commits_ok_def
    by (metis commit_of.simps(2) commit_ok.simps(1) nth_mem)+
  let ?t = "Writing (Append b k h) ((case r of None \<Rightarrow> [] | Some t \<Rightarrow> t) @ show_hash X h @ [CHR 0x0A])"
  have p: "p = pointer_file X b k" using load(4) pointer_path_valid [OF v(1)] by simp
  have "(case r of None \<Rightarrow> [] | Some t \<Rightarrow> t) = entry_lines X (log_at X (shared s) b k)"
    using load(5) read_pointer [OF P v] by (cases "contents (shared s) (pointer_file X b k)")
      (auto simp: p entry_lines_def)
  then have fr: "fresh_text X (shared s) ?t" by (simp add: fresh_text_def entry_lines_snoc)
  have "commits_ok X sip (s\<lparr>shared := shared s, held := held s, threads := (threads s)[i := ?t]\<rparr>)"
  proof (rule commits_ok_update [OF assms(2) i(1) _ P fr])
    show "fresh_text X (shared s) (threads s ! j)" if "j < length (threads s)" for j
      using assms(2) that by (simp add: commits_ok_def)
    show "shard_of sip c' \<in> held s" if "j < length (threads s)" "holds (threads s ! j) = Some c'" for j c'
      using assms(2) that by (simp add: commits_ok_def)
    show "shard_of sip x \<in> held s \<and>
        (\<forall>j < length (threads s). \<forall>c'. j \<noteq> i \<longrightarrow> holds (threads s ! j) = Some c' \<longrightarrow> shard_of sip c' \<noteq> shard_of sip x)"
      if "holds ?t = Some x" for x
      using that i assms(2) unfolding commits_ok_def by auto
  qed (use i in simp_all)
  moreover have "mset (finished_commits s') = mset (finished_commits s)"
    using finished_update [OF i(1), of ?t] i(2) load(1) by (simp add: finished_commits_def)
  ultimately show ?thesis using load(1) unfolding refines_def
    by (intro conjI exI [of _ "[]"]) (simp_all add: replay_def)
next
  case (store i c u p d)
  note i = store(2,3)
  have P: "pointers_ok X (shared s)" using assms(2) by (simp add: commits_ok_def)
  have "fresh_text X (shared s) (threads s ! i)" using assms(2) i(1) by (simp add: commits_ok_def)
  with i(2) obtain b k h where c: "c = Append b k h" "u = entry_lines X (log_at X (shared s) b k @ [h])"
    by (auto simp: fresh_text_def)
  have v: "valid_bucket b" "valid_key k" "hash_wf h" using assms(2) i c(1) unfolding commits_ok_def
    by (metis commit_of.simps(3) commit_ok.simps(1) nth_mem)+
  have g: "good (pointer_file X b k)" using good_pointer [OF pointers_okD(2) [OF P] v(1,2)] .
  have d: "d = put_file (pointer_file X b k) (as_bytes u) (shared s)"
    using store(4,5) pointer_path_valid [OF v(1)] write_good [OF pointers_okD(3) [OF P] g] c(1) by auto
  have wf: "list_all hash_wf (log_at X (shared s) b k @ [h])" using history_eq(2) [OF P v(1,2)] v(3) by simp
  note w = pointers_ok_write [OF P v(1,2) wf d [unfolded c(2)]]
  have "logs_of X d = apply_commit c (logs_of X (shared s))"
    by (auto simp: fun_eq_iff logs_of_def c(1) w(2))
  with commit_done [OF assms(2) i(1) _ w(1) _ store(1)] i(2) show ?thesis by simp
next
  case (drops i b k d)
  note i = drops(2,3)
  have P: "pointers_ok X (shared s)" using assms(2) by (simp add: commits_ok_def)
  have v: "valid_bucket b" "valid_key k" using assms(2) i unfolding commits_ok_def
    by (metis commit_of.simps(2) commit_ok.simps(2) nth_mem)+
  note r = pointer_remove_ok [OF P v drops(4)]
  have "logs_of X d = apply_commit (Drop b k) (logs_of X (shared s))"
    by (auto simp: fun_eq_iff logs_of_def r(3))
  with commit_done [OF assms(2) i(1) _ r(2) _ drops(1)] i(2) show ?thesis by simp
next
  case (trim_skip i b k n hs)
  with assms(2) show ?thesis unfolding commits_ok_def by (metis commit_of.simps(1) nth_mem takes_lock.simps(1))
next
  case (trim_load i b k n hs)
  with assms(2) show ?thesis unfolding commits_ok_def by (metis commit_of.simps(1) nth_mem takes_lock.simps(1))
qed

lemma commit_run_refines:
  assumes "commit_run X sip s s'" "commits_ok X sip s"
  shows "commits_ok X sip s' \<and> refines X s s'"
  using assms(1)
proof (induction rule: rtranclp_induct)
  case base
  have "refines X s s" unfolding refines_def by (intro exI [of _ "[]"]) (simp add: replay_def)
  with assms(2) show ?case by simp
next
  case (step s1 s2)
  then obtain cs where cs: "logs_of X (shared s1) = replay cs (logs_of X (shared s))"
    "mset (finished_commits s1) = mset (finished_commits s) + mset cs" by (auto simp: refines_def)
  from commit_step_refines [OF step.hyps(2)] step.IH obtain ds where ds: "commits_ok X sip s2"
    "logs_of X (shared s2) = replay ds (logs_of X (shared s1))"
    "mset (finished_commits s2) = mset (finished_commits s1) + mset ds" by (auto simp: refines_def)
  have "refines X s s2" unfolding refines_def
    using cs ds(2,3) by (intro exI [of _ "cs @ ds"]) (simp add: replay_def)
  with ds(1) show ?case by simp
qed

definition initial :: "fs \<Rightarrow> commit list \<Rightarrow> commits" where
  "initial d cs = \<lparr>shared = d, held = {}, threads = map Start cs\<rparr>"

lemma initial_ok:
  assumes "pointers_ok X d" "\<forall>c \<in> set cs. commit_ok c \<and> takes_lock c"
  shows "commits_ok X sip (initial d cs)" "finished_commits (initial d cs) = []"
  using assms by (auto simp: commits_ok_def initial_def no_hold_fresh finished_commits_def)

section \<open>Progress\<close>

fun rank :: "thread \<Rightarrow> nat" where
  "rank (Start c) = 3"
| "rank (Holding c) = 2"
| "rank (Writing c t) = 1"
| "rank (Finished c) = 0"

definition work :: "commits \<Rightarrow> nat" where
  "work s = sum_list (map rank (threads s))"

lemma work_update:
  assumes "i < length ts" "rank t < rank (ts ! i)"
  shows "sum_list (map rank (ts[i := t])) < sum_list (map rank ts)"
proof -
  have "sum_list (map rank ts) = sum_list (map rank (take i ts)) + rank (ts ! i) + sum_list (map rank (drop (Suc i) ts))"
    by (subst id_take_nth_drop [OF assms(1)]) simp
  then show ?thesis using assms by (simp add: upd_conv_take_nth_drop)
qed

lemma step_works: "commit_step X sip s s' \<Longrightarrow> work s' < work s"
  by (induction rule: commit_step.induct) (auto simp: work_def intro!: work_update)

definition locks_owned :: "(bytes \<Rightarrow> u64) \<Rightarrow> commits \<Rightarrow> bool" where
  "locks_owned sip s \<longleftrightarrow>
     (\<forall>x \<in> held s. \<exists>j < length (threads s). \<exists>c. holds (threads s ! j) = Some c \<and> shard_of sip c = x)"

lemma step_owned:
  assumes "commit_step X sip s s'" "commits_ok X sip s" "locks_owned sip s"
  shows "locks_owned sip s'"
proof -
  have tl: "takes_lock c" if "i < length (threads s)" "commit_of (threads s ! i) = c" for i c
    using assms(2) that unfolding commits_ok_def by (metis nth_mem)
  have fin: "locks_owned sip (s\<lparr>shared := d, held := release_of sip c (held s), threads := (threads s)[i := Finished c]\<rparr>)"
    if i: "i < length (threads s)" "holds (threads s ! i) = Some c" for i c d
  proof -
    have "commit_of (threads s ! i) = c" using i(2) by (cases "threads s ! i") auto
    from tl [OF i(1) this] have "release_of sip c (held s) = held s - {shard_of sip c}" by (simp add: release_of_def)
    then show ?thesis using assms(3) i unfolding locks_owned_def by (auto simp: nth_list_update) (metis option.inject)
  qed
  have other: "locks_owned sip (s\<lparr>held := H, threads := (threads s)[i := t]\<rparr>)"
    if i: "i < length (threads s)" "holds t = Some c" "H \<subseteq> insert (shard_of sip c) (held s)"
      "holds (threads s ! i) = None \<or> holds (threads s ! i) = Some c" for i t c H
    unfolding locks_owned_def
  proof
    fix x
    assume "x \<in> held (s\<lparr>held := H, threads := (threads s)[i := t]\<rparr>)"
    then consider "x = shard_of sip c" | "x \<in> held s" "x \<noteq> shard_of sip c" using i(3) by auto
    then show "\<exists>j < length (threads (s\<lparr>held := H, threads := (threads s)[i := t]\<rparr>)). \<exists>c.
        holds (threads (s\<lparr>held := H, threads := (threads s)[i := t]\<rparr>) ! j) = Some c \<and> shard_of sip c = x"
    proof cases
      case 1
      with i(1,2) show ?thesis by (intro exI [of _ i]) simp
    next
      case 2
      with assms(3) obtain j c' where j: "j < length (threads s)" "holds (threads s ! j) = Some c'" "shard_of sip c' = x"
        by (auto simp: locks_owned_def)
      with 2 i(4) have "j \<noteq> i" by auto
      with j show ?thesis by (intro exI [of _ j]) simp
    qed
  qed
  show ?thesis
    using assms(1)
  proof (cases rule: commit_step.cases)
    case (acquire i c)
    with other [of i "Holding c" c "insert (shard_of sip c) (held s)"] show ?thesis by simp
  next
    case (load i b k h p r)
    let ?t = "Writing (Append b k h) ((case r of None \<Rightarrow> [] | Some t \<Rightarrow> t) @ show_hash X h @ [CHR 0x0A])"
    from load other [of i ?t "Append b k h" "held s"] show ?thesis by (simp add: subset_insertI)
  next
    case (store i c t p d)
    with fin [of i c d] show ?thesis by simp
  next
    case (drops i b k d)
    with fin [of i "Drop b k" d] show ?thesis by simp
  next
    case (trim_skip i b k n hs)
    with tl [of i "Trim b k n"] show ?thesis by simp
  next
    case (trim_load i b k n hs)
    with tl [of i "Trim b k n"] show ?thesis by simp
  qed
qed

text \<open>No deadlock: a thread that is not finished waits for a lock only while its holder can run.\<close>

lemma holder_runs:
  assumes ok: "commits_ok X sip s" and i: "i < length (threads s)" "holds (threads s ! i) = Some c"
  shows "\<exists>s'. commit_step X sip s s'"
proof -
  have P: "pointers_ok X (shared s)" using ok by (simp add: commits_ok_def)
  have fr: "fresh_text X (shared s) (threads s ! i)" using ok i(1) by (simp add: commits_ok_def)
  have cok: "commit_ok (commit_of (threads s ! i))" "takes_lock (commit_of (threads s ! i))"
    using ok i(1) by (auto simp: commits_ok_def)
  consider b k h where "threads s ! i = Holding (Append b k h)" | b k where "threads s ! i = Holding (Drop b k)"
    | b k h u where "threads s ! i = Writing (Append b k h) u"
    using i(2) cok(2) fr by (cases "threads s ! i"; cases c) (auto simp: fresh_text_def)
  then show ?thesis
  proof cases
    case (1 b k h)
    then have v: "valid_bucket b" "valid_key k" using cok by auto
    from load [OF i(1) 1 pointer_path_valid [OF v(1)] read_pointer(1) [OF P v]] show ?thesis by blast
  next
    case (2 b k)
    then have v: "valid_bucket b" "valid_key k" using cok by auto
    obtain r d where r: "pointer_remove X b k (shared s) = (r, d)" by force
    from drops [OF i(1) 2] pointer_remove_ok(1) [OF P v r] r show ?thesis by blast
  next
    case (3 b k h u)
    then have v: "valid_bucket b" "valid_key k" using cok by auto
    have "good (pointer_file X b k)" using good_pointer [OF pointers_okD(2) [OF P] v] .
    from store [OF i(1) 3 _ write_good [OF pointers_okD(3) [OF P] this]] pointer_path_valid [OF v(1)]
    show ?thesis by auto
  qed
qed

lemma stuck_finished:
  assumes ok: "commits_ok X sip s" "locks_owned sip s" and stuck: "\<nexists>s'. commit_step X sip s s'"
  shows "\<exists>cs. threads s = map Finished cs"
proof -
  have none: "holds (threads s ! i) = None" if "i < length (threads s)" for i
    using holder_runs [OF ok(1) that] stuck by (cases "holds (threads s ! i)") auto
  then have "held s = {}" using ok(2) by (auto simp: locks_owned_def)
  then have "\<not> (\<exists>c. threads s ! i = Start c)" if i: "i < length (threads s)" for i
  proof -
    have "takes_lock (commit_of (threads s ! i))" using ok(1) i by (simp add: commits_ok_def)
    with acquire [OF i, of _ sip X] \<open>held s = {}\<close> stuck show ?thesis by (metis commit_of.simps(1) empty_iff)
  qed
  with none have "\<exists>c. t = Finished c" if "t \<in> set (threads s)" for t
    using that by (metis holds.simps(1,2) in_set_conv_nth option.distinct(1) thread.exhaust)
  then have "map (Finished \<circ> commit_of) (threads s) = threads s" by (intro map_idI) force
  then show ?thesis by (metis map_map)
qed

lemma step_commits: "commit_step X sip s s' \<Longrightarrow> map commit_of (threads s') = map commit_of (threads s)"
proof (induction rule: commit_step.induct)
qed (auto simp: map_update intro!: list_update_same_conv [THEN iffD2])

lemma run_facts:
  assumes "commit_run X sip (initial d cs) s" "pointers_ok X d" "\<forall>c \<in> set cs. commit_ok c \<and> takes_lock c"
  shows "commits_ok X sip s" "locks_owned sip s" "map commit_of (threads s) = cs"
proof -
  note I = initial_ok [OF assms(2,3)]
  have "commits_ok X sip s \<and> locks_owned sip s \<and> map commit_of (threads s) = cs"
    using assms(1)
  proof (induction rule: rtranclp_induct)
    case base
    from I(1) show ?case by (simp add: locks_owned_def initial_def comp_def)
  next
    case (step s1 s2)
    with commit_step_refines step_owned step_commits show ?case by metis
  qed
  then show "commits_ok X sip s" "locks_owned sip s" "map commit_of (threads s) = cs" by simp_all
qed

lemma run_logs:
  assumes "commit_run X sip (initial d cs) s" "pointers_ok X d" "\<forall>c \<in> set cs. commit_ok c \<and> takes_lock c"
  shows "\<exists>os. mset os = mset (finished_commits s) \<and> logs_of X (shared s) = replay os (logs_of X d)"
  using commit_run_refines [OF assms(1) initial_ok(1) [OF assms(2,3)]] initial_ok(2) [OF assms(2,3)]
  by (auto simp: refines_def initial_def)

lemma run_end:
  assumes "commit_run X sip (initial d cs) s" "pointers_ok X d" "\<forall>c \<in> set cs. commit_ok c \<and> takes_lock c"
    and "\<nexists>s'. commit_step X sip s s'"
  shows "threads s = map Finished cs"
proof -
  note F = run_facts [OF assms(1-3)]
  from stuck_finished [OF F(1,2) assms(4)] obtain fs where "threads s = map Finished fs" by blast
  with F(3) show ?thesis by (simp add: comp_def)
qed

lemma maximal_run: "\<exists>s'. commit_run X sip s s' \<and> (\<nexists>t. commit_step X sip s' t)"
proof (induction "work s" arbitrary: s rule: less_induct)
  case less
  show ?case
  proof (cases "\<exists>t. commit_step X sip s t")
    case True
    then obtain t where t: "commit_step X sip s t" by blast
    from less [OF step_works [OF t]] t show ?thesis by (meson converse_rtranclp_into_rtranclp)
  qed auto
qed

lemma replay_appends:
  "replay (map (Append b k) hs) L = L((b, k) := L (b, k) @ hs)"
proof (induction hs arbitrary: L)
  case (Cons h hs)
  have "replay (map (Append b k) (h # hs)) L = replay (map (Append b k) hs) (L((b, k) := L (b, k) @ [h]))"
    by (simp add: replay_def)
  also have "\<dots> = L((b, k) := L (b, k) @ h # hs)" unfolding Cons by (rule ext) simp
  finally show ?case .
qed (simp add: replay_def)

end
