(* ===== verification/Commit_Props.thy ===== *)
theory Commit_Props
  imports Commit_Locks Demo_Engine
begin

text \<open>Commits by many threads: what the commit locks guarantee, and what happens without one.\<close>

text \<open>
  Concurrent commits that take the commit lock are linearizable. Whatever the interleaving of their
  lock operations, reads and writes, the version logs are at every moment what the finished commits give
  when they run whole, one after the other in some order, and the pointer store is well-formed.
\<close>

theorem locked_commits_linearize:
  assumes "commit_run X sip (initial d cs) s" "pointers_ok X d" "\<forall>c \<in> set cs. commit_ok c \<and> takes_lock c"
  shows "pointers_ok X (shared s) \<and>
     (\<exists>os. mset os = mset (finished_commits s) \<and> logs_of X (shared s) = replay os (logs_of X d))"
  using run_facts(1) [OF assms] run_logs [OF assms] by (simp add: commits_ok_def)

text \<open>Two versions written at once on an empty directory.\<close>

definition demo_version :: "u8 \<Rightarrow> hash" where "demo_version x = Hash (replicate 32 x)"

definition demo_commits :: "commit list" where
  "demo_commits = map (Append ''b'' ''k'') [demo_version 1, demo_version 2]"

lemma demo_commits_ok:
  "pointers_ok demo []" "\<forall>c \<in> set demo_commits. commit_ok c \<and> takes_lock c" "hash_wf (demo_version x)"
  using store_okD(3) [OF demo_store_ok [of "{}"]]
  by (simp_all add: demo_commits_def demo_version_def hash_wf_def)

theorem locked_commits_linearize_witness:
  "\<exists>s os. commit_run demo (\<lambda>_. 0) (initial [] demo_commits) s \<and> threads s = map Finished demo_commits \<and>
     mset os = mset demo_commits \<and> logs_of demo (shared s) = replay os (logs_of demo [])"
proof -
  obtain s where s: "commit_run demo (\<lambda>_. 0) (initial [] demo_commits) s" "\<nexists>t. commit_step demo (\<lambda>_. 0) s t"
    using maximal_run by blast
  have "threads s = map Finished demo_commits" by (rule run_end [OF s(1) demo_commits_ok(1,2) s(2)])
  moreover from this have "finished_commits s = demo_commits" by (simp add: finished_commits_def comp_def)
  ultimately show ?thesis using locked_commits_linearize [OF s(1) demo_commits_ok(1,2)] s(1) by auto
qed

text \<open>
  The commits cannot wait for each other for ever. Every schedule of \<open>n\<close> locking commits makes at
  most \<open>3 n\<close> steps, and one that can go no further has finished every commit.
\<close>

theorem locked_commits_terminate:
  assumes "pointers_ok X d" "\<forall>c \<in> set cs. commit_ok c \<and> takes_lock c"
    and "(commit_step X sip ^^ n) (initial d cs) s"
  shows "n \<le> 3 * length cs \<and> ((\<nexists>s'. commit_step X sip s s') \<longrightarrow> threads s = map Finished cs)"
proof -
  have "n + work s \<le> work s0" if "(commit_step X sip ^^ n) s0 s" for s0
    using that
  proof (induction n arbitrary: s)
    case (Suc n)
    then obtain s1 where "(commit_step X sip ^^ n) s0 s1" "commit_step X sip s1 s" by auto
    with Suc.IH [of s1] step_works [of X sip s1 s] show ?case by simp
  qed simp
  from this [OF assms(3)] have "n + work s \<le> 3 * length cs"
    by (simp add: work_def initial_def comp_def sum_list_triv)
  moreover have "commit_run X sip (initial d cs) s" using assms(3) by (rule relpowp_imp_rtranclp)
  ultimately show ?thesis using run_end [OF _ assms(1,2)] by auto
qed

theorem locked_commits_terminate_witness:
  "\<exists>n s. (commit_step demo (\<lambda>_. 0) ^^ n) (initial [] demo_commits) s \<and> n \<le> 6 \<and>
     threads s = map Finished demo_commits"
proof -
  obtain s where s: "commit_run demo (\<lambda>_. 0) (initial [] demo_commits) s" "\<nexists>t. commit_step demo (\<lambda>_. 0) s t"
    using maximal_run by blast
  then obtain n where n: "(commit_step demo (\<lambda>_. 0) ^^ n) (initial [] demo_commits) s"
    by (auto simp: rtranclp_power)
  have "length demo_commits = 2" by (simp add: demo_commits_def)
  with locked_commits_terminate [OF demo_commits_ok(1,2) n] s(2) n show ?thesis by auto
qed

text \<open>
  C18: racing writers to one key lose no version. When they are done, the key's history is the old one
  followed by every written version exactly once, in some order, and no other key has changed.
\<close>

theorem racing_writes_keep_every_version:
  assumes "pointers_ok X d" "valid_bucket b" "valid_key k" "\<forall>h \<in> set hs. hash_wf h"
    and "commit_run X sip (initial d (map (Append b k) hs)) s" "\<nexists>s'. commit_step X sip s s'"
  shows "\<exists>vs. mset vs = mset hs \<and> history X (shared s) b k = Inr (log_at X d b k @ vs) \<and>
     (\<forall>c j. (c, j) \<noteq> (b, k) \<longrightarrow> log_at X (shared s) c j = log_at X d c j)"
proof -
  let ?cs = "map (Append b k) hs"
  have cs: "\<forall>c \<in> set ?cs. commit_ok c \<and> takes_lock c" using assms(2-4) by auto
  have "threads s = map Finished ?cs" by (rule run_end [OF assms(5,1) cs assms(6)])
  then have "finished_commits s = ?cs" by (simp add: finished_commits_def comp_def)
  with run_logs [OF assms(5,1) cs] obtain os where os: "mset os = mset ?cs" "logs_of X (shared s) = replay os (logs_of X d)"
    by auto
  have "set os = set ?cs" using os(1) by (rule mset_eq_setD)
  then have "\<forall>c \<in> set os. \<exists>h. c = Append b k h" by auto
  then obtain vs where vs: "os = map (Append b k) vs"
    by (metis (full_types) ex_map_conv)
  let ?f = "\<lambda>c. case c of Append b k h \<Rightarrow> h | Drop b k \<Rightarrow> undefined | Trim b k n \<Rightarrow> undefined"
  have "image_mset ?f (mset os) = image_mset ?f (mset ?cs)" using os(1) by simp
  then have m: "mset vs = mset hs" by (simp add: vs flip: mset_map) (simp add: comp_def)
  have logs: "logs_of X (shared s) = (logs_of X d)((b, k) := logs_of X d (b, k) @ vs)"
    using os(2) by (simp add: vs replay_appends)
  have at: "log_at X (shared s) c j = (if (c, j) = (b, k) then log_at X d b k @ vs else log_at X d c j)" for c j
    using fun_cong [OF logs, of "(c, j)"] by (auto simp: logs_of_def)
  have "pointers_ok X (shared s)" using run_facts(1) [OF assms(5,1) cs] by (simp add: commits_ok_def)
  from history_eq(1) [OF this assms(2,3)] m at show ?thesis by auto
qed

theorem racing_writes_keep_every_version_witness:
  "\<exists>s vs. commit_run demo (\<lambda>_. 0) (initial [] (map (Append ''b'' ''k'') [demo_version 1, demo_version 2])) s \<and>
     mset vs = mset [demo_version 1, demo_version 2] \<and> history demo (shared s) ''b'' ''k'' = Inr vs"
proof -
  obtain s where s: "commit_run demo (\<lambda>_. 0) (initial [] (map (Append ''b'' ''k'') [demo_version 1, demo_version 2])) s"
    "\<nexists>t. commit_step demo (\<lambda>_. 0) s t" using maximal_run by blast
  have "\<forall>h \<in> set [demo_version 1, demo_version 2]. hash_wf h" using demo_commits_ok(3) by simp
  from racing_writes_keep_every_version [OF demo_commits_ok(1) _ _ this s] s(1) show ?thesis
    by (auto simp: log_at_def)
qed

text \<open>
  The lifecycle pass trims without the commit lock and can undo a write that was acknowledged. When
  it has read a history longer than the limit before a writer commits, and writes after it, the history
  is the old one trimmed: the new version is gone, although any serial order would leave it newest.
\<close>

theorem unlocked_trim_loses_version:
  assumes "pointers_ok X d" "valid_bucket b" "valid_key k" "hash_wf h"
    and "0 < n" "n < length (log_at X d b k)"
  shows "\<exists>s. commit_run X sip (initial d [Trim b k n, Append b k h]) s \<and>
     threads s = map Finished [Trim b k n, Append b k h] \<and>
     history X (shared s) b k = Inr (drop (length (log_at X d b k) - n) (log_at X d b k)) \<and>
     (\<forall>os. mset os = mset [Trim b k n, Append b k h] \<longrightarrow> last (replay os (logs_of X d) (b, k)) = h)"
proof -
  let ?L = "log_at X d b k" and ?t = "Trim b k n" and ?a = "Append b k h"
  let ?cut = "drop (length ?L - n) ?L"
  let ?u = "entry_lines X (?L @ [h])" and ?w = "entry_lines X ?cut"
  note v = assms(2,3) and P = assms(1)
  note hs = history_eq [OF P v] and p = pointer_path_valid [OF v(1)]
  have g: "good (pointer_file X b k)" using good_pointer [OF pointers_okD(2) [OF P] v] .
  let ?d1 = "put_file (pointer_file X b k) (as_bytes ?u) d"
  have wf: "list_all hash_wf (?L @ [h])" using hs(2) assms(4) by simp
  note w1 = pointers_ok_write [OF P v wf refl]
  let ?d2 = "put_file (pointer_file X b k) (as_bytes ?w) ?d1"
  have wf2: "list_all hash_wf ?cut" using hs(2) by (auto simp: list_all_iff dest: in_set_dropD)
  note w2 = pointers_ok_write [OF w1(1) v wf2 refl]
  let ?x = "shard_of sip ?a"
  let ?r = "map_option of_bytes (contents d (pointer_file X b k))"
  have u: "(case ?r of None \<Rightarrow> [] | Some t \<Rightarrow> t) @ show_hash X h @ [CHR 0x0A] = ?u"
    using read_pointer(2,3) [OF P v] by (cases "contents d (pointer_file X b k)") (auto simp: entry_lines_def)
  let ?S1 = "\<lparr>shared = d, held = {}, threads = [Writing ?t ?w, Start ?a]\<rparr>"
  let ?S2 = "\<lparr>shared = d, held = {?x}, threads = [Writing ?t ?w, Holding ?a]\<rparr>"
  let ?S3 = "\<lparr>shared = d, held = {?x}, threads = [Writing ?t ?w, Writing ?a ?u]\<rparr>"
  let ?S4 = "\<lparr>shared = ?d1, held = {}, threads = [Writing ?t ?w, Finished ?a]\<rparr>"
  let ?S5 = "\<lparr>shared = ?d2, held = {}, threads = [Finished ?t, Finished ?a]\<rparr>"
  have s1: "commit_step X sip (initial d [?t, ?a]) ?S1"
    using trim_load [of 0 "initial d [?t, ?a]" b k n X ?L sip] hs(1) assms(5,6) by (simp add: initial_def)
  have s2: "commit_step X sip ?S1 ?S2"
    using acquire [of 1 ?S1 ?a sip X] by simp
  have s3: "commit_step X sip ?S2 ?S3"
    using load [of 1 ?S2 b k h X "pointer_file X b k" ?r sip,
        unfolded u] p read_pointer(1) [OF P v] by simp
  have s4: "commit_step X sip ?S3 ?S4"
    using store [of 1 ?S3 ?a ?u X _ ?d1 sip]
      p write_good [OF pointers_okD(3) [OF P] g] by (simp add: release_of_def)
  have s5: "commit_step X sip ?S4 ?S5"
    using store [of 0 ?S4 ?t ?w X _ ?d2 sip]
      p write_good [OF pointers_okD(3) [OF w1(1)] g] by (simp add: release_of_def)
  have run: "commit_run X sip (initial d [?t, ?a]) ?S5"
    by (rule converse_rtranclp_into_rtranclp, rule s1, rule converse_rtranclp_into_rtranclp, rule s2,
        rule converse_rtranclp_into_rtranclp, rule s3, rule converse_rtranclp_into_rtranclp, rule s4,
        rule r_into_rtranclp, rule s5)
  have "history X ?d2 b k = Inr ?cut" using history_eq(1) [OF w2(1) v] w2(2) [of b k] by simp
  moreover have "last (replay os (logs_of X d) (b, k)) = h" if "mset os = mset [?t, ?a]" for os
  proof -
    from that have "length os = 2" by (metis length_Cons list.size(3) numeral_2_eq_2 size_mset)
    then obtain x y where "os = [x, y]" by (auto simp: length_Suc_conv numeral_2_eq_2)
    with that have "os = [?t, ?a] \<or> os = [?a, ?t]" by (auto simp: add_eq_conv_ex)
    then show ?thesis using assms(5,6) by (auto simp: replay_def logs_of_def)
  qed
  ultimately show ?thesis using run by (intro exI [of _ ?S5]) simp
qed

theorem unlocked_trim_loses_version_witness:
  "\<exists>d g s. commit_run demo (\<lambda>_. 0) (initial d [Trim ''b'' ''k'' 1, Append ''b'' ''k'' (demo_version 7)]) s \<and>
     threads s = map Finished [Trim ''b'' ''k'' 1, Append ''b'' ''k'' (demo_version 7)] \<and>
     history demo d ''b'' ''k'' = Inr [g, g] \<and> history demo (shared s) ''b'' ''k'' = Inr [g]"
proof -
  obtain g d where d: "store_ok demo small_bufs demo_bodies d" "log_at demo d ''b'' ''k'' = [g, g]"
    by (rule demo_two_versions) auto
  note P = store_okD(3) [OF d(1)]
  from history_eq(1) [OF P, of "''b''" "''k''"] d(2) have "history demo d ''b'' ''k'' = Inr [g, g]" by simp
  with unlocked_trim_loses_version [OF P, of "''b''" "''k''" "demo_version 7" 1 "\<lambda>_. 0"] d(2) show ?thesis
    using demo_commits_ok(3) by auto
qed

end
