(* ===== verification/Pot_Locks.thy ===== *)
theory Pot_Locks
  imports Commit_Locks Engine_Admin
begin

text \<open>
  \<open>delete_bucket_if_empty\<close> beside the committing threads of \<open>Commit_Locks\<close>: it takes all 256 commit locks
  in the order of their indices, and only then looks whether the pot is empty and removes it. Its steps
  are one lock, the listing, the removal of the pointer directory, the removal of the pot's settings.
  \<open>copy_object\<close>, whose steps are here as well, takes no lock.
\<close>

section \<open>The threads\<close>

datatype remover =
    Taking string nat
  | Checked string
  | Wiped string
  | Answered string bool

datatype copier =
    Copying string string string string
  | Sourced string string hash
  | Merged string string string
  | Copied bool

record pots =
  world :: commits
  removers :: "remover list"
  copiers :: "copier list"

abbreviation pot_disk :: "pots \<Rightarrow> fs" where "pot_disk s \<equiv> shared (world s)"

text \<open>The guards of \<open>_guards\<close> are dropped together.\<close>

definition release_all :: "commits \<Rightarrow> commits" where
  "release_all w = w\<lparr>held := held w - {..<KEY_LOCK_SHARDS}\<rparr>"

inductive pot_step :: "ext \<Rightarrow> (bytes \<Rightarrow> u64) \<Rightarrow> pots \<Rightarrow> pots \<Rightarrow> bool" for X sip where
  commits: "commit_step X sip (world s) w \<Longrightarrow> pot_step X sip s (s\<lparr>world := w\<rparr>)"
| take_next: "i < length (removers s) \<Longrightarrow> removers s ! i = Taking b n \<Longrightarrow> n < KEY_LOCK_SHARDS \<Longrightarrow> n \<notin> held (world s) \<Longrightarrow>
    pot_step X sip s
      (s\<lparr>world := (world s)\<lparr>held := insert n (held (world s))\<rparr>, removers := (removers s)[i := Taking b (Suc n)]\<rparr>)"
| refuse: "i < length (removers s) \<Longrightarrow> removers s ! i = Taking b KEY_LOCK_SHARDS \<Longrightarrow>
    pointer_list X (pot_disk s) b = Inr ks \<Longrightarrow> ks \<noteq> [] \<Longrightarrow>
    pot_step X sip s (s\<lparr>world := release_all (world s), removers := (removers s)[i := Answered b False]\<rparr>)"
| check: "i < length (removers s) \<Longrightarrow> removers s ! i = Taking b KEY_LOCK_SHARDS \<Longrightarrow>
    pointer_list X (pot_disk s) b = Inr [] \<Longrightarrow>
    pot_step X sip s (s\<lparr>removers := (removers s)[i := Checked b]\<rparr>)"
| wipe: "i < length (removers s) \<Longrightarrow> removers s ! i = Checked b \<Longrightarrow>
    pointer_delete_bucket b (pot_disk s) = (Inr (), d) \<Longrightarrow>
    pot_step X sip s (s\<lparr>world := (world s)\<lparr>shared := d\<rparr>, removers := (removers s)[i := Wiped b]\<rparr>)"
| forget: "i < length (removers s) \<Longrightarrow> removers s ! i = Wiped b \<Longrightarrow>
    meta_delete_bucket X b (pot_disk s) = (Inr (), d) \<Longrightarrow>
    pot_step X sip s
      (s\<lparr>world := release_all ((world s)\<lparr>shared := d\<rparr>), removers := (removers s)[i := Answered b True]\<rparr>)"
| copy_none: "i < length (copiers s) \<Longrightarrow> copiers s ! i = Copying fb fk tb tk \<Longrightarrow> current X (pot_disk s) fb fk = Inr None \<Longrightarrow>
    pot_step X sip s (s\<lparr>copiers := (copiers s)[i := Copied False]\<rparr>)"
| copy_source: "i < length (copiers s) \<Longrightarrow> copiers s ! i = Copying fb fk tb tk \<Longrightarrow>
    current X (pot_disk s) fb fk = Inr (Some h) \<Longrightarrow>
    pot_step X sip s (s\<lparr>copiers := (copiers s)[i := Sourced tb tk h]\<rparr>)"
| copy_load: "i < length (copiers s) \<Longrightarrow> copiers s ! i = Sourced tb tk h \<Longrightarrow> pointer_path X tb tk = Inr p \<Longrightarrow>
    read_to_string_opt (pot_disk s) p = Inr r \<Longrightarrow>
    pot_step X sip s (s\<lparr>copiers := (copiers s)[i :=
      Merged tb tk ((case r of None \<Rightarrow> [] | Some t \<Rightarrow> t) @ show_hash X h @ [CHR 0x0A])]\<rparr>)"
| copy_store: "i < length (copiers s) \<Longrightarrow> copiers s ! i = Merged tb tk t \<Longrightarrow> pointer_path X tb tk = Inr p \<Longrightarrow>
    write_atomic p (as_bytes t) (pot_disk s) = (Inr (), d) \<Longrightarrow>
    pot_step X sip s (s\<lparr>world := (world s)\<lparr>shared := d\<rparr>, copiers := (copiers s)[i := Copied True]\<rparr>)"

abbreviation pot_run :: "ext \<Rightarrow> (bytes \<Rightarrow> u64) \<Rightarrow> pots \<Rightarrow> pots \<Rightarrow> bool" where
  "pot_run X sip \<equiv> (pot_step X sip)\<^sup>*\<^sup>*"

definition pot_start :: "fs \<Rightarrow> commit list \<Rightarrow> string list \<Rightarrow> pots" where
  "pot_start d cs bs = \<lparr>world = initial d cs, removers = map (\<lambda>b. Taking b 0) bs, copiers = []\<rparr>"

section \<open>The abstract machine\<close>

text \<open>Whole commits and whole removals, one after the other: a removal tells the truth and changes no log.\<close>

datatype event = Committed commit | Removed string bool

fun legal :: "event list \<Rightarrow> logs \<Rightarrow> logs option" where
  "legal [] L = Some L"
| "legal (Committed c # es) L = legal es (apply_commit c L)"
| "legal (Removed b r # es) L = (if r \<longleftrightarrow> (\<forall>k. L (b, k) = []) then legal es L else None)"

lemma legal_append: "legal (es @ fs) L = Option.bind (legal es L) (legal fs)"
  by (induction es L rule: legal.induct) auto

section \<open>Who holds which lock\<close>

fun taken :: "remover \<Rightarrow> nat" where
  "taken (Taking b n) = n"
| "taken (Checked b) = KEY_LOCK_SHARDS"
| "taken (Wiped b) = KEY_LOCK_SHARDS"
| "taken (Answered b r) = 0"

fun pot_of :: "remover \<Rightarrow> string" where
  "pot_of (Taking b n) = b"
| "pot_of (Checked b) = b"
| "pot_of (Wiped b) = b"
| "pot_of (Answered b r) = b"

definition front :: "pots \<Rightarrow> nat" where
  "front s = sum_list (map taken (removers s))"

text \<open>The committing threads' view: the locks of the removers taken away.\<close>

definition own :: "pots \<Rightarrow> commits" where
  "own s = (world s)\<lparr>held := held (world s) - {..<front s}\<rparr>"

lemma own_simps [simp]: "shared (own s) = pot_disk s" "threads (own s) = threads (world s)"
  "held (own s) = held (world s) - {..<front s}"
  by (simp_all add: own_def)

definition remover_ok :: "ext \<Rightarrow> fs \<Rightarrow> remover \<Rightarrow> bool" where
  "remover_ok X d r \<longleftrightarrow>
     valid_bucket (pot_of r) \<and> valid_pot (pot_of r) \<and> taken r \<le> KEY_LOCK_SHARDS \<and>
     (\<forall>b. r = Checked b \<or> r = Wiped b \<longrightarrow> (\<forall>k. log_at X d b k = []))"

definition no_blank :: "fs \<Rightarrow> bool" where
  "no_blank d \<longleftrightarrow> (\<forall>b f. contents d [pointer_dir, b, f] \<noteq> Some [])"

definition pots_ok :: "ext \<Rightarrow> (bytes \<Rightarrow> u64) \<Rightarrow> pots \<Rightarrow> bool" where
  "pots_ok X sip s \<longleftrightarrow>
     copiers s = [] \<and> {..<front s} \<subseteq> held (world s) \<and> commits_ok X sip (own s) \<and> locks_owned sip (own s) \<and>
     no_blank (pot_disk s) \<and> (\<forall>r \<in> set (removers s). remover_ok X (pot_disk s) r) \<and>
     (\<forall>i < length (removers s). 0 < taken (removers s ! i) \<longrightarrow> front s = taken (removers s ! i))"

lemma shard_bound: "shard_of sip c < KEY_LOCK_SHARDS"
  by (simp add: shard_of_def key_lock_def KEY_LOCK_SHARDS_def)

lemma front_update:
  "i < length (removers s) \<Longrightarrow> front s = taken (removers s ! i) \<Longrightarrow>
     sum_list (map taken ((removers s)[i := r])) = taken r"
  unfolding front_def by (simp add: map_update sum_list_update)

lemma others_idle:
  assumes "i < length rs" "sum_list (map taken rs) = taken (rs ! i)" "j < length rs" "j \<noteq> i"
  shows "taken (rs ! j) = 0"
proof -
  have "sum_list (map taken (rs[i := Answered [] False])) = 0"
    using assms(1,2) by (simp add: map_update sum_list_update)
  then have "\<forall>r \<in> set (rs[i := Answered [] False]). taken r = 0" by simp
  moreover have "rs ! j \<in> set (rs[i := Answered [] False])" using assms by (metis length_list_update nth_list_update_neq nth_mem)
  ultimately show ?thesis by blast
qed

lemma commits_ok_shared:
  assumes "commits_ok X sip s" "pointers_ok X d" "\<And>b k. log_at X d b k = log_at X (shared s) b k"
  shows "commits_ok X sip (s\<lparr>shared := d\<rparr>)"
  using assms by (simp add: commits_ok_def fresh_text_def)

lemma commits_ok_held: "commits_ok X sip (s\<lparr>held := H\<rparr>) \<Longrightarrow> H \<subseteq> held s \<Longrightarrow> commits_ok X sip s"
  by (fastforce simp: commits_ok_def)

lemma own_ok:
  assumes "pots_ok X sip s"
  shows "commits_ok X sip (own s)" "locks_owned sip (own s)" "commits_ok X sip (world s)" "pointers_ok X (pot_disk s)"
proof -
  show ok: "commits_ok X sip (own s)" "locks_owned sip (own s)" using assms by (simp_all add: pots_ok_def)
  show "commits_ok X sip (world s)" using ok(1) unfolding own_def by (rule commits_ok_held) simp
  show "pointers_ok X (pot_disk s)" using ok(1) by (simp add: commits_ok_def)
qed

section \<open>Steps of a removal\<close>

lemma remover_move:
  assumes ok: "pots_ok X sip s" and i: "i < length (removers s)" "front s = taken (removers s ! i)"
    and d: "pointers_ok X d" "\<And>b k. log_at X d b k = log_at X (pot_disk s) b k" "no_blank d"
    and r: "remover_ok X d r" and H: "{..<taken r} \<subseteq> H" "H - {..<taken r} = held (world s) - {..<front s}"
  shows "pots_ok X sip (s\<lparr>world := (world s)\<lparr>shared := d, held := H\<rparr>, removers := (removers s)[i := r]\<rparr>)"
    (is "pots_ok X sip ?s")
proof -
  have f: "front ?s = taken r" using front_update [OF i] by (simp add: front_def)
  have own: "own ?s = (own s)\<lparr>shared := d\<rparr>" using H(2) by (simp add: own_def f)
  note O = own_ok [OF ok]
  have "commits_ok X sip (own ?s)" unfolding own by (rule commits_ok_shared [OF O(1) d(1)]) (simp add: d(2))
  moreover have "locks_owned sip (own ?s)" using O(2) unfolding own by (simp add: locks_owned_def)
  moreover have "remover_ok X d q" if "q \<in> set ((removers s)[i := r])" for q
  proof (cases "q = r")
    case False
    with that have "q \<in> set (removers s)" by (metis in_set_conv_nth length_list_update nth_list_update_eq nth_list_update_neq)
    then have "remover_ok X (pot_disk s) q" using ok by (simp add: pots_ok_def)
    then show ?thesis by (simp add: remover_ok_def d(2))
  qed (simp add: r)
  moreover have "taken ((removers s)[i := r] ! j) = 0" if "j < length (removers s)" "j \<noteq> i" for j
    using that others_idle [OF i(1) _ that] i(2) by (simp add: front_def)
  ultimately show ?thesis using ok H(1) d(3) i(1) f
    by (auto simp: pots_ok_def nth_list_update)
qed

lemma front_of:
  assumes ok: "pots_ok X sip s" and i: "i < length (removers s)" and free: "0 < taken (removers s ! i) \<or> 0 \<notin> held (world s)"
  shows "front s = taken (removers s ! i)"
proof (cases "0 < taken (removers s ! i)")
  case False
  with free have "0 \<notin> held (world s)" by simp
  with ok have "front s = 0" unfolding pots_ok_def by (metis lessThan_iff neq0_conv subsetD)
  with False show ?thesis by simp
qed (use ok i in \<open>simp add: pots_ok_def\<close>)

text \<open>While all locks are taken no commit moves.\<close>

lemma blocked:
  assumes ok: "pots_ok X sip s" and all: "front s = KEY_LOCK_SHARDS" and step: "commit_step X sip (world s) w"
  shows False
proof -
  note O = own_ok [OF ok]
  have none: "holds (threads (world s) ! i) = None" if "i < length (threads (world s))" for i
  proof (rule ccontr)
    assume "holds (threads (world s) ! i) \<noteq> None"
    with that O(1) obtain c where "shard_of sip c \<in> held (own s)" by (auto simp: commits_ok_def)
    with all shard_bound [of sip c] show False by simp
  qed
  have full: "shard_of sip c \<in> held (world s)" for c
    using ok all shard_bound [of sip c] unfolding pots_ok_def by auto
  have lock: "takes_lock (commit_of (threads (world s) ! i))" if "i < length (threads (world s))" for i
    using O(3) that by (simp add: commits_ok_def)
  show False
    using step
  proof cases
    case (acquire i c)
    with full show ?thesis by simp
  next
    case (load i b k h p r)
    with none [of i] show ?thesis by simp
  next
    case (store i c t p d)
    with none [of i] show ?thesis by simp
  next
    case (drops i b k d)
    with none [of i] show ?thesis by simp
  next
    case (trim_skip i b k n hs)
    with lock [of i] show ?thesis by simp
  next
    case (trim_load i b k n hs)
    with lock [of i] show ?thesis by simp
  qed
qed

lemma commit_frame:
  assumes step: "commit_step X sip w w'" and ok: "commits_ok X sip (w\<lparr>held := held w - F\<rparr>)" and F: "F \<subseteq> held w"
  shows "commit_step X sip (w\<lparr>held := held w - F\<rparr>) (w'\<lparr>held := held w' - F\<rparr>)" "F \<subseteq> held w'"
proof -
  let ?o = "w\<lparr>held := held w - F\<rparr>"
  have own: "shard_of sip c \<notin> F" if "i < length (threads w)" "holds (threads w ! i) = Some c" for i c
    using ok that by (auto simp: commits_ok_def)
  have rel: "release_of sip c H - F = release_of sip c (H - F)" for c H by (auto simp: release_of_def)
  have swap: "v\<lparr>threads := ts, held := H\<rparr> = v\<lparr>held := H, threads := ts\<rparr>" for v :: commits and ts H
    by (rule commits.equality) simp_all
  have "commit_step X sip ?o (w'\<lparr>held := held w' - F\<rparr>) \<and> F \<subseteq> held w'"
    using step
  proof cases
    case (acquire i c)
    then have "w'\<lparr>held := held w' - F\<rparr> = ?o\<lparr>held := insert (shard_of sip c) (held ?o), threads := (threads ?o)[i := Holding c]\<rparr>"
      using F by (intro commits.equality) auto
    with acquire F commit_step.acquire [of i ?o c sip X] show ?thesis by (auto simp: swap)
  next
    case (load i b k h p r)
    with F commit_step.load [of i ?o b k h X p r sip] show ?thesis by (auto simp: swap)
  next
    case (store i c t p d)
    with own [of i c] have "F \<subseteq> release_of sip c (held w)" using F by (auto simp: release_of_def)
    with store commit_step.store [of i ?o c t X p d sip] show ?thesis by (auto simp: rel swap)
  next
    case (drops i b k d)
    with own [of i "Drop b k"] have "F \<subseteq> release_of sip (Drop b k) (held w)" using F by (auto simp: release_of_def)
    with drops commit_step.drops [of i ?o b k X d sip] show ?thesis by (auto simp: rel swap)
  next
    case (trim_skip i b k n hs)
    with F commit_step.trim_skip [of i ?o b k n X hs sip] show ?thesis by (auto simp: swap)
  next
    case (trim_load i b k n hs)
    with F commit_step.trim_load [of i ?o b k n X hs sip] show ?thesis by (auto simp: swap)
  qed
  then show "commit_step X sip ?o (w'\<lparr>held := held w' - F\<rparr>)" "F \<subseteq> held w'" by simp_all
qed

lemma commit_no_blank:
  assumes "commit_step X sip w w'" "commits_ok X sip w" "no_blank (shared w)"
  shows "no_blank (shared w')"
  using assms(1)
proof cases
  case (store i c u p d)
  note P = assms(2) [unfolded commits_ok_def]
  have "fresh_text X (shared w) (threads w ! i)" using P store(2) by simp
  with store(3) obtain b k h where c: "c = Append b k h" "u = entry_lines X (log_at X (shared w) b k @ [h])"
    by (auto simp: fresh_text_def)
  have v: "valid_bucket b" "valid_key k" using P store(2,3) c(1) by (metis commit_of.simps(3) commit_ok.simps(1) nth_mem)+
  have g: "good (pointer_file X b k)" using good_pointer [OF pointers_okD(2) v] P by blast
  have "d = put_file (pointer_file X b k) (as_bytes u) (shared w)"
    using store(4,5) pointer_path_valid [OF v(1)] write_good [OF pointers_okD(3) g] P c(1) by auto
  moreover have "u \<noteq> []" by (simp add: c(2) entry_lines_snoc)
  ultimately show ?thesis using assms(3) store(1) by (auto simp: no_blank_def contents_put_file [OF g] as_bytes_def)
next
  case (drops i b k d)
  note P = assms(2) [unfolded commits_ok_def]
  have v: "valid_bucket b" "valid_key k" using P drops(2,3) by (metis commit_of.simps(2) commit_ok.simps(2) nth_mem)+
  from pointer_remove_ok(4) [OF _ v drops(4)] P assms(3) drops(1) show ?thesis by (auto simp: no_blank_def)
qed (use assms(3) in simp_all)

section \<open>Refinement\<close>

fun answer :: "remover \<Rightarrow> event list" where
  "answer (Answered b r) = [Removed b r]"
| "answer r = []"

definition pot_events :: "pots \<Rightarrow> event list" where
  "pot_events s = map Committed (finished_commits (world s)) @ concat (map answer (removers s))"

definition pot_refines :: "ext \<Rightarrow> pots \<Rightarrow> pots \<Rightarrow> bool" where
  "pot_refines X s s' \<longleftrightarrow>
     (\<exists>es. legal es (logs_of X (pot_disk s)) = Some (logs_of X (pot_disk s')) \<and>
        mset (pot_events s') = mset (pot_events s) + mset es)"

lemma legal_commits: "legal (map Committed cs) L = Some (replay cs L)"
  by (induction cs arbitrary: L) (simp_all add: replay_def)

lemma answers_update:
  assumes "i < length rs" "answer (rs ! i) = []"
  shows "mset (concat (map answer (rs[i := r]))) = mset (concat (map answer rs)) + mset (answer r)"
proof -
  have "mset (concat (map answer rs)) =
      mset (concat (map answer (take i rs))) + mset (answer (rs ! i)) + mset (concat (map answer (drop (Suc i) rs)))"
    by (subst id_take_nth_drop [OF assms(1)]) simp
  then show ?thesis using assms by (simp add: upd_conv_take_nth_drop)
qed

lemma refines_quiet:
  assumes "i < length (removers s)" "answer (removers s ! i) = []" "answer r = []"
    and "threads w = threads (world s)" "logs_of X (shared w) = logs_of X (pot_disk s)"
  shows "pot_refines X s (s\<lparr>world := w, removers := (removers s)[i := r]\<rparr>)"
  unfolding pot_refines_def
  using assms answers_update [OF assms(1,2), of r]
  by (intro exI [of _ "[]"]) (simp add: pot_events_def finished_commits_def)

lemma refines_answer:
  assumes "i < length (removers s)" "answer (removers s ! i) = []" "threads w = threads (world s)"
    and "logs_of X (shared w) = logs_of X (pot_disk s)" "a \<longleftrightarrow> (\<forall>k. log_at X (pot_disk s) b k = [])"
  shows "pot_refines X s (s\<lparr>world := w, removers := (removers s)[i := Answered b a]\<rparr>)"
  unfolding pot_refines_def
  using assms answers_update [OF assms(1,2), of "Answered b a"]
  by (intro exI [of _ "[Removed b a]"]) (simp add: pot_events_def finished_commits_def logs_of_def)

lemma listed_empty:
  assumes ok: "pointers_ok X d" "no_blank d" and b: "valid_bucket b" and l: "pointer_list X d b = Inr ks"
  shows "ks = [] \<longleftrightarrow> (\<forall>k. log_at X d b k = [])"
proof -
  from pointer_list_ok [OF ok(1) b] l have ks: "set ks = {k. valid_key k \<and> contents d (pointer_file X b k) \<noteq> None}" by auto
  have "log_at X d b k = []" if "k \<notin> set ks" for k
  proof (rule ccontr)
    assume "log_at X d b k \<noteq> []"
    from log_at_None [OF this] obtain c where c: "contents d [pointer_dir, b, hex_encode X (as_bytes k)] = Some c"
      by (auto simp: pointer_file_def)
    from pointers_okD(5) [OF ok(1) this] obtain j where "valid_key j" "hex_encode X (as_bytes k) = hex_encode X (as_bytes j)"
      by blast
    then have "valid_key k" using pointers_okD(2) [OF ok(1)] by (simp add: hex_okD)
    with that ks c show False by (simp add: pointer_file_def)
  qed
  moreover have "log_at X d b k \<noteq> []" if "k \<in> set ks" for k
  proof -
    from that ks obtain c where c: "valid_key k" "contents d (pointer_file X b k) = Some c" by auto
    with read_pointer(3) [OF ok(1) b c(1,2)] ok(2) show ?thesis
      by (auto simp: no_blank_def pointer_file_def entry_lines_def as_bytes_def)
  qed
  ultimately show ?thesis by (cases ks) auto
qed

lemma meta_gone:
  assumes ok: "pointers_ok X d" "no_blank d" and b: "valid_pot b" and run: "meta_delete_bucket X b d = (r, d')"
  shows "r = Inr ()" "pointers_ok X d'" "no_blank d'" "log_at X d' c k = log_at X d c k"
proof -
  note P = pointers_okD(1-3) [OF ok(1)]
  have g: "good (meta_path X b)" using P(2) b by (rule good_meta)
  have d': "d' = snd (remove_opt (meta_path X b) d)" and r: "r = Inr ()"
    using run P(3) g by (auto simp: meta_delete_bucket_def remove_opt_good)
  show "r = Inr ()" by (rule r)
  have "others [meta_dir] d d'" unfolding d' by (rule others_remove_opt [OF P(3) g]) (simp add: meta_path_def)
  then have a: "agree pointer_dir d d'" by (rule others_agree) simp
  show "pointers_ok X d'" by (rule pointers_ok_agree [OF ok(1) _ a]) (unfold d', rule disk_ok_remove_opt [OF P(3) g])
  show "no_blank d'" "log_at X d' c k = log_at X d c k"
    using ok(2) by (simp_all add: no_blank_def agree_contents [OF a] log_at_agree [OF a])
qed

lemma pot_gone:
  assumes ok: "pointers_ok X d" "no_blank d" and b: "valid_bucket b" and run: "pointer_delete_bucket b d = (r, d')"
    and empty: "\<forall>k. log_at X d b k = []"
  shows "r = Inr ()" "pointers_ok X d'" "no_blank d'" "log_at X d' c k = log_at X d c k"
  using pointer_delete_bucket_ok [OF ok(1) b run] ok(2) empty by (auto simp: no_blank_def)

lemma commit_move:
  assumes ok: "pots_ok X sip s" and step: "commit_step X sip (world s) w"
  shows "pots_ok X sip (s\<lparr>world := w\<rparr>)" "pot_refines X s (s\<lparr>world := w\<rparr>)"
proof -
  note O = own_ok [OF ok]
  have F: "{..<front s} \<subseteq> held (world s)" and nb: "no_blank (pot_disk s)" using ok by (simp_all add: pots_ok_def)
  note f = commit_frame [OF step O(1) [unfolded own_def] F]
  have own: "own (s\<lparr>world := w\<rparr>) = w\<lparr>held := held w - {..<front s}\<rparr>" by (simp add: own_def front_def)
  note f1 = f(1) [folded own_def]
  have r: "remover_ok X (shared w) q" if q: "q \<in> set (removers s)" for q
  proof -
    from q obtain i where i: "i < length (removers s)" "removers s ! i = q" by (auto simp: in_set_conv_nth)
    have "\<not> (\<exists>b. q = Checked b \<or> q = Wiped b)"
    proof
      assume "\<exists>b. q = Checked b \<or> q = Wiped b"
      then have "taken (removers s ! i) = KEY_LOCK_SHARDS" using i(2) by auto
      then have "front s = KEY_LOCK_SHARDS" using front_of [OF ok i(1)] by (simp add: KEY_LOCK_SHARDS_def)
      from blocked [OF ok this step] show False .
    qed
    moreover have "remover_ok X (pot_disk s) q" using ok q by (simp add: pots_ok_def)
    ultimately show ?thesis by (auto simp: remover_ok_def)
  qed
  from commit_step_refines [OF f1 O(1)] have c: "commits_ok X sip (own (s\<lparr>world := w\<rparr>))" unfolding own by blast
  have l: "locks_owned sip (own (s\<lparr>world := w\<rparr>))" unfolding own by (rule step_owned [OF f1 O(1,2)])
  have front: "front (s\<lparr>world := w\<rparr>) = front s" by (simp add: front_def)
  show "pots_ok X sip (s\<lparr>world := w\<rparr>)"
    using ok c l r f(2) commit_no_blank [OF step O(3) nb] by (simp add: pots_ok_def front)
  from commit_step_refines [OF step O(3)] obtain cs where cs: "logs_of X (shared w) = replay cs (logs_of X (pot_disk s))"
    "mset (finished_commits w) = mset (finished_commits (world s)) + mset cs" by (auto simp: refines_def)
  show "pot_refines X s (s\<lparr>world := w\<rparr>)" unfolding pot_refines_def
    using cs by (intro exI [of _ "map Committed cs"]) (simp add: legal_commits pot_events_def)
qed

lemma pot_step_refines:
  assumes "pot_step X sip s s'" "pots_ok X sip s"
  shows "pots_ok X sip s' \<and> pot_refines X s s'"
proof -
  note O = own_ok [OF assms(2)] and P = own_ok(4) [OF assms(2)]
  have nb: "no_blank (pot_disk s)" and F: "{..<front s} \<subseteq> held (world s)" using assms(2) by (simp_all add: pots_ok_def)
  have R: "remover_ok X (pot_disk s) (removers s ! i)" if "i < length (removers s)" for i
    using assms(2) that by (simp add: pots_ok_def)
  have all: "0 < KEY_LOCK_SHARDS" by (simp add: KEY_LOCK_SHARDS_def)
  have same: "v\<lparr>shared := shared v, held := H\<rparr> = v\<lparr>held := H\<rparr>" "v\<lparr>shared := d, held := held v\<rparr> = v\<lparr>shared := d\<rparr>"
    "v\<lparr>shared := shared v, held := held v\<rparr> = v" for v :: commits and H d by simp_all
  show ?thesis
    using assms(1)
  proof cases
    case (commits w)
    with commit_move [OF assms(2)] show ?thesis by simp
  next
    case (take_next i b n)
    have f: "front s = taken (removers s ! i)"
      by (rule front_of [OF assms(2) take_next(2)]) (use take_next(3,5) in \<open>cases n; simp\<close>)
    have r: "remover_ok X (pot_disk s) (Taking b (Suc n))" using R [OF take_next(2)] take_next(3,4) by (simp add: remover_ok_def)
    have "pots_ok X sip (s\<lparr>world := (world s)\<lparr>shared := pot_disk s, held := insert n (held (world s))\<rparr>,
        removers := (removers s)[i := Taking b (Suc n)]\<rparr>)"
      by (rule remover_move [OF assms(2) take_next(2) f P refl nb r]) (use F f take_next(3,5) in \<open>auto simp: less_Suc_eq\<close>)
    moreover have "pot_refines X s (s\<lparr>world := (world s)\<lparr>held := insert n (held (world s))\<rparr>,
        removers := (removers s)[i := Taking b (Suc n)]\<rparr>)"
      by (rule refines_quiet [OF take_next(2)]) (simp_all add: take_next(3))
    ultimately show ?thesis by (simp add: take_next(1))
  next
    case (refuse i b ks)
    have f: "front s = taken (removers s ! i)"
      by (rule front_of [OF assms(2) refuse(2)]) (use refuse(3) all in simp)
    have v: "valid_bucket b" "remover_ok X (pot_disk s) (Answered b False)"
      using R [OF refuse(2)] refuse(3) by (simp_all add: remover_ok_def)
    from listed_empty [OF P nb v(1) refuse(4)] refuse(5) have e: "False \<longleftrightarrow> (\<forall>k. log_at X (pot_disk s) b k = [])" by blast
    have "pots_ok X sip (s\<lparr>world := (world s)\<lparr>shared := pot_disk s, held := held (world s) - {..<KEY_LOCK_SHARDS}\<rparr>,
        removers := (removers s)[i := Answered b False]\<rparr>)"
      by (rule remover_move [OF assms(2) refuse(2) f P refl nb v(2)]) (use f refuse(3) in auto)
    moreover have "pot_refines X s (s\<lparr>world := release_all (world s), removers := (removers s)[i := Answered b False]\<rparr>)"
      by (rule refines_answer [OF refuse(2) _ _ _ e]) (simp_all add: refuse(3) release_all_def)
    ultimately show ?thesis by (simp add: refuse(1) release_all_def)
  next
    case (check i b)
    have f: "front s = taken (removers s ! i)"
      by (rule front_of [OF assms(2) check(2)]) (use check(3) all in simp)
    have v: "valid_bucket b" using R [OF check(2)] check(3) by (simp add: remover_ok_def)
    have r: "remover_ok X (pot_disk s) (Checked b)"
      using R [OF check(2)] check(3) listed_empty [OF P nb v check(4)] by (simp add: remover_ok_def)
    have "pots_ok X sip (s\<lparr>world := (world s)\<lparr>shared := pot_disk s, held := held (world s)\<rparr>,
        removers := (removers s)[i := Checked b]\<rparr>)"
      by (rule remover_move [OF assms(2) check(2) f P refl nb r]) (use F f check(3) in auto)
    moreover have "pot_refines X s (s\<lparr>world := world s, removers := (removers s)[i := Checked b]\<rparr>)"
      by (rule refines_quiet [OF check(2)]) (simp_all add: check(3))
    ultimately show ?thesis by (simp add: check(1))
  next
    case (wipe i b d)
    have f: "front s = taken (removers s ! i)"
      by (rule front_of [OF assms(2) wipe(2)]) (use wipe(3) all in simp)
    have v: "valid_bucket b" "\<forall>k. log_at X (pot_disk s) b k = []" using R [OF wipe(2)] wipe(3) by (simp_all add: remover_ok_def)
    note g = pot_gone [OF P nb v(1) wipe(4) v(2)]
    have r: "remover_ok X d (Wiped b)" using R [OF wipe(2)] wipe(3) by (simp add: remover_ok_def g(4))
    have "pots_ok X sip (s\<lparr>world := (world s)\<lparr>shared := d, held := held (world s)\<rparr>,
        removers := (removers s)[i := Wiped b]\<rparr>)"
      by (rule remover_move [OF assms(2) wipe(2) f g(2,4,3) r]) (use F f wipe(3) in auto)
    moreover have "pot_refines X s (s\<lparr>world := (world s)\<lparr>shared := d\<rparr>, removers := (removers s)[i := Wiped b]\<rparr>)"
      by (rule refines_quiet [OF wipe(2)]) (simp_all add: wipe(3) logs_of_def g(4))
    ultimately show ?thesis by (simp add: wipe(1))
  next
    case (forget i b d)
    have f: "front s = taken (removers s ! i)"
      by (rule front_of [OF assms(2) forget(2)]) (use forget(3) all in simp)
    have v: "valid_pot b" "\<forall>k. log_at X (pot_disk s) b k = []" using R [OF forget(2)] forget(3) by (simp_all add: remover_ok_def)
    note g = meta_gone [OF P nb v(1) forget(4)]
    have r: "remover_ok X d (Answered b True)" using R [OF forget(2)] forget(3) by (simp add: remover_ok_def)
    have "pots_ok X sip (s\<lparr>world := (world s)\<lparr>shared := d, held := held (world s) - {..<KEY_LOCK_SHARDS}\<rparr>,
        removers := (removers s)[i := Answered b True]\<rparr>)"
      by (rule remover_move [OF assms(2) forget(2) f g(2,4,3) r]) (use f forget(3) in auto)
    moreover have "pot_refines X s (s\<lparr>world := release_all ((world s)\<lparr>shared := d\<rparr>), removers := (removers s)[i := Answered b True]\<rparr>)"
      by (rule refines_answer [OF forget(2)]) (simp_all add: forget(3) release_all_def logs_of_def g(4) v(2))
    ultimately show ?thesis by (simp add: forget(1) release_all_def)
  qed (use assms(2) in \<open>simp_all add: pots_ok_def\<close>)
qed

lemma pot_run_refines:
  assumes "pot_run X sip s s'" "pots_ok X sip s"
  shows "pots_ok X sip s' \<and> pot_refines X s s'"
  using assms(1)
proof (induction rule: rtranclp_induct)
  case base
  have "pot_refines X s s" unfolding pot_refines_def by (intro exI [of _ "[]"]) simp
  with assms(2) show ?case by simp
next
  case (step s1 s2)
  then obtain es where es: "legal es (logs_of X (pot_disk s)) = Some (logs_of X (pot_disk s1))"
    "mset (pot_events s1) = mset (pot_events s) + mset es" by (auto simp: pot_refines_def)
  from pot_step_refines [OF step.hyps(2)] step.IH obtain fs where fs: "pots_ok X sip s2"
    "legal fs (logs_of X (pot_disk s1)) = Some (logs_of X (pot_disk s2))"
    "mset (pot_events s2) = mset (pot_events s1) + mset fs" by (auto simp: pot_refines_def)
  have "pot_refines X s s2" unfolding pot_refines_def
    using es fs(2,3) by (intro exI [of _ "es @ fs"]) (simp add: legal_append)
  with fs(1) show ?case by simp
qed

lemma pot_start_ok:
  assumes "pointers_ok X d" "no_blank d" "\<forall>c \<in> set cs. commit_ok c \<and> takes_lock c"
    and "\<forall>b \<in> set bs. valid_bucket b \<and> valid_pot b"
  shows "pots_ok X sip (pot_start d cs bs)" "pot_events (pot_start d cs bs) = []"
proof -
  have f: "front (pot_start d cs bs) = 0" by (simp add: front_def pot_start_def comp_def)
  then have own: "own (pot_start d cs bs) = initial d cs" by (simp add: own_def pot_start_def)
  show "pots_ok X sip (pot_start d cs bs)"
    using assms(2,4) initial_ok(1) [OF assms(1,3), of sip] f unfolding pots_ok_def own
    by (auto simp: pot_start_def remover_ok_def locks_owned_def initial_def)
  show "pot_events (pot_start d cs bs) = []"
    using initial_ok(2) [OF assms(1,3)] by (simp add: pot_events_def pot_start_def comp_def)
qed

section \<open>Progress\<close>

fun remover_rank :: "remover \<Rightarrow> nat" where
  "remover_rank (Taking b n) = KEY_LOCK_SHARDS + 3 - n"
| "remover_rank (Checked b) = 2"
| "remover_rank (Wiped b) = 1"
| "remover_rank (Answered b r) = 0"

fun copier_rank :: "copier \<Rightarrow> nat" where
  "copier_rank (Copying fb fk tb tk) = 3"
| "copier_rank (Sourced b k h) = 2"
| "copier_rank (Merged b k t) = 1"
| "copier_rank (Copied r) = 0"

definition pot_work :: "pots \<Rightarrow> nat" where
  "pot_work s = work (world s) + sum_list (map remover_rank (removers s)) + sum_list (map copier_rank (copiers s))"

lemma rank_falls:
  assumes "i < length xs" "f x < f (xs ! i)"
  shows "sum_list (map f (xs[i := x])) < (sum_list (map f xs) :: nat)"
proof -
  have "sum_list (map f xs) = sum_list (map f (take i xs)) + f (xs ! i) + sum_list (map f (drop (Suc i) xs))"
    by (subst id_take_nth_drop [OF assms(1)]) simp
  then show ?thesis using assms by (simp add: upd_conv_take_nth_drop)
qed

lemma pot_step_works: "pot_step X sip s s' \<Longrightarrow> pot_work s' < pot_work s"
proof (induction rule: pot_step.induct)
  case (commits s w)
  then show ?case by (simp add: pot_work_def step_works)
qed (auto simp: pot_work_def work_def release_all_def intro!: rank_falls)

lemma pot_holder_runs:
  assumes ok: "pots_ok X sip s" and i: "i < length (removers s)" "0 < taken (removers s ! i)"
  shows "\<exists>s'. pot_step X sip s s'"
proof (cases "\<exists>j < length (threads (world s)). holds (threads (world s) ! j) \<noteq> None")
  case True
  with holder_runs [OF own_ok(3) [OF ok]] show ?thesis by (meson commits not_None_eq)
next
  case False
  have P: "pointers_ok X (pot_disk s)" and nb: "no_blank (pot_disk s)" using own_ok [OF ok] ok by (simp_all add: pots_ok_def)
  have R: "remover_ok X (pot_disk s) (removers s ! i)" using ok i(1) by (simp add: pots_ok_def)
  have f: "front s = taken (removers s ! i)" using front_of [OF ok i(1)] i(2) by simp
  have h: "held (world s) = {..<front s}" using ok False own_ok(2) [OF ok] by (auto simp: pots_ok_def locks_owned_def)
  show ?thesis
  proof (cases "removers s ! i")
    case (Taking b n)
    then have v: "valid_bucket b" using R by (simp add: remover_ok_def)
    show ?thesis
    proof (cases "n < KEY_LOCK_SHARDS")
      case True
      with take_next [OF i(1) Taking] f h Taking show ?thesis by auto
    next
      case False
      with R Taking have t: "removers s ! i = Taking b KEY_LOCK_SHARDS" by (simp add: remover_ok_def)
      from pointer_list_ok [OF P v] obtain ks where "pointer_list X (pot_disk s) b = Inr ks" by blast
      with refuse [OF i(1) t] check [OF i(1) t] show ?thesis by (cases ks) blast+
    qed
  next
    case (Checked b)
    obtain r d where run: "pointer_delete_bucket b (pot_disk s) = (r, d)" by force
    with pot_gone(1) [OF P nb _ run] R Checked wipe [OF i(1) Checked] show ?thesis by (auto simp: remover_ok_def)
  next
    case (Wiped b)
    obtain r d where run: "meta_delete_bucket X b (pot_disk s) = (r, d)" by force
    with meta_gone(1) [OF P nb _ run] R Wiped forget [OF i(1) Wiped] show ?thesis by (auto simp: remover_ok_def)
  qed (use i(2) in simp)
qed

text \<open>No deadlock: whoever holds a lock can go on, and when nobody does, anyone can start.\<close>

lemma pots_finished:
  assumes ok: "pots_ok X sip s" and stuck: "\<nexists>s'. pot_step X sip s s'"
  shows "\<exists>cs. threads (world s) = map Finished cs" "\<forall>r \<in> set (removers s). \<exists>b a. r = Answered b a"
proof -
  have idle: "taken r = 0" if "r \<in> set (removers s)" for r
    using pot_holder_runs [OF ok] stuck that by (metis in_set_conv_nth neq0_conv)
  then have "front s = 0" unfolding front_def by simp
  then have own: "own s = world s" by (simp add: own_def)
  have "\<nexists>w. commit_step X sip (world s) w" using commits stuck by blast
  with stuck_finished [of X sip "world s"] own_ok(1,2) [OF ok] own show fin: "\<exists>cs. threads (world s) = map Finished cs" by simp
  have h: "held (world s) = {}" using own_ok(2) [OF ok] own fin by (auto simp: locks_owned_def)
  show "\<forall>r \<in> set (removers s). \<exists>b a. r = Answered b a"
  proof
    fix r assume r: "r \<in> set (removers s)"
    then obtain i where i: "i < length (removers s)" "removers s ! i = r" by (auto simp: in_set_conv_nth)
    show "\<exists>b a. r = Answered b a"
    proof (cases r)
      case (Taking b n)
      then have "removers s ! i = Taking b 0" using idle [OF r] i(2) by simp
      from take_next [OF i(1) this, of X sip] h stuck show ?thesis by (auto simp: KEY_LOCK_SHARDS_def)
    qed (use idle [OF r] in \<open>simp_all add: KEY_LOCK_SHARDS_def\<close>)
  qed
qed

lemma pot_maximal_run: "\<exists>s'. pot_run X sip s s' \<and> (\<nexists>t. pot_step X sip s' t)"
proof (induction "pot_work s" arbitrary: s rule: less_induct)
  case less
  show ?case
  proof (cases "\<exists>t. pot_step X sip s t")
    case True
    then obtain t where t: "pot_step X sip s t" by blast
    from less [OF pot_step_works [OF t]] t show ?thesis by (meson converse_rtranclp_into_rtranclp)
  qed auto
qed

lemma pot_step_same: "pot_step X sip s s' \<Longrightarrow>
    map commit_of (threads (world s')) = map commit_of (threads (world s)) \<and> map pot_of (removers s') = map pot_of (removers s)"
proof (induction rule: pot_step.induct)
  case (commits s w)
  then show ?case by (simp add: step_commits)
qed (auto simp: map_update release_all_def intro!: list_update_same_conv [THEN iffD2])

lemma pot_run_same:
  assumes "pot_run X sip (pot_start d cs bs) s"
  shows "map commit_of (threads (world s)) = cs" "map pot_of (removers s) = bs"
proof -
  have "map commit_of (threads (world s)) = cs \<and> map pot_of (removers s) = bs"
    using assms
  proof (induction rule: rtranclp_induct)
    case (step s1 s2)
    then show ?case using pot_step_same [OF step.hyps(2)] by simp
  qed (simp add: pot_start_def initial_def comp_def)
  then show "map commit_of (threads (world s)) = cs" "map pot_of (removers s) = bs" by simp_all
qed

lemma take_all:
  assumes "i < length (removers s)" "removers s ! i = Taking b 0" "held (world s) = {}" "n \<le> KEY_LOCK_SHARDS"
  shows "pot_run X sip s (s\<lparr>world := (world s)\<lparr>held := {..<n}\<rparr>, removers := (removers s)[i := Taking b n]\<rparr>)"
  using assms(4)
proof (induction n)
  case 0
  have "s\<lparr>world := (world s)\<lparr>held := {..<0}\<rparr>, removers := (removers s)[i := Taking b 0]\<rparr> = s"
    using assms(2,3) by (intro pots.equality commits.equality) (simp_all add: list_update_same_conv assms(1))
  then show ?case by simp
next
  case (Suc n)
  let ?s = "\<lambda>n. s\<lparr>world := (world s)\<lparr>held := {..<n}\<rparr>, removers := (removers s)[i := Taking b n]\<rparr>"
  have "pot_step X sip (?s n) (?s (Suc n))"
    using take_next [of i "?s n" b n X sip] Suc.prems assms(1) by (simp add: lessThan_Suc)
  with Suc show ?case by (meson Suc_leD rtranclp.rtrancl_into_rtrancl)
qed

end
