(* ===== verification/Pot_Props.thy ===== *)
theory Pot_Props
  imports Pot_Locks Commit_Props
begin

text \<open>Removing a pot while others write: no write is lost, nobody waits for ever; a copy can be lost.\<close>

text \<open>
  C6: \<open>delete_bucket_if_empty\<close> loses no write. Under every interleaving of locking commits with
  removals that take all commit locks, the version logs are those of the finished commits and the given
  answers in some serial order in which every answer is true: a pot is reported removed exactly if it
  has no version then, and the removal changes no history.
\<close>

theorem pot_removal_linearizes:
  assumes "pot_run X sip (pot_start d cs bs) s" "pointers_ok X d" "no_blank d"
    and "\<forall>c \<in> set cs. commit_ok c \<and> takes_lock c" "\<forall>b \<in> set bs. valid_bucket b \<and> valid_pot b"
  shows "\<exists>es. mset es = mset (pot_events s) \<and> legal es (logs_of X d) = Some (logs_of X (pot_disk s))"
  using pot_run_refines [OF assms(1) pot_start_ok(1) [OF assms(2-5)]] pot_start_ok(2) [OF assms(2-5)]
  by (auto simp: pot_refines_def pot_start_def initial_def)

text \<open>A writer and a removal of the same pot, on an empty directory.\<close>

lemma demo_pots:
  "pointers_ok demo []" "no_blank []" "\<forall>c \<in> set [Append ''b'' ''k'' (demo_version 1)]. commit_ok c \<and> takes_lock c"
  "\<forall>b \<in> set [''b'']. valid_bucket b \<and> valid_pot b"
  using demo_commits_ok by (simp_all add: no_blank_def valid_pot_def NAME_MAX_def)

theorem pot_removal_linearizes_witness:
  "\<exists>s es a. pot_run demo (\<lambda>_. 0) (pot_start [] [Append ''b'' ''k'' (demo_version 1)] [''b'']) s \<and>
     mset es = mset [Committed (Append ''b'' ''k'' (demo_version 1)), Removed ''b'' a] \<and>
     legal es (logs_of demo []) = Some (logs_of demo (pot_disk s))"
proof -
  let ?c = "Append ''b'' ''k'' (demo_version 1)" and ?s = "pot_start [] [Append ''b'' ''k'' (demo_version 1)] [''b'']"
  obtain s where s: "pot_run demo (\<lambda>_. 0) ?s s" "\<nexists>t. pot_step demo (\<lambda>_. 0) s t" using pot_maximal_run by blast
  have ok: "pots_ok demo (\<lambda>_. 0) s" using pot_run_refines [OF s(1) pot_start_ok(1) [OF demo_pots]] by blast
  note fin = pots_finished [OF ok s(2)] and same = pot_run_same [OF s(1)]
  from fin(1) same(1) have t: "threads (world s) = [Finished ?c]" by auto
  from same(2) obtain r where r: "removers s = [r]" "pot_of r = ''b''" by auto
  with fin(2) obtain a where a: "removers s = [Answered ''b'' a]" by auto
  have "pot_events s = [Committed ?c, Removed ''b'' a]" by (simp add: pot_events_def finished_commits_def t a)
  with pot_removal_linearizes [OF s(1) demo_pots] s(1) show ?thesis by auto
qed

text \<open>
  C17: taking all the locks in the order of their indices cannot deadlock. A schedule of \<open>n\<close> locking
  commits and \<open>m\<close> removals makes at most \<open>3 n + 259 m\<close> steps, and one that can go no further has
  finished every commit and answered every removal.
\<close>

theorem pot_removal_terminates:
  assumes "pointers_ok X d" "no_blank d" "\<forall>c \<in> set cs. commit_ok c \<and> takes_lock c"
    and "\<forall>b \<in> set bs. valid_bucket b \<and> valid_pot b" "(pot_step X sip ^^ n) (pot_start d cs bs) s"
  shows "n \<le> 3 * length cs + 259 * length bs \<and>
     ((\<nexists>s'. pot_step X sip s s') \<longrightarrow>
        threads (world s) = map Finished cs \<and> (\<forall>r \<in> set (removers s). \<exists>b a. r = Answered b a) \<and>
        map pot_of (removers s) = bs)"
proof -
  have "n + pot_work s \<le> pot_work s0" if "(pot_step X sip ^^ n) s0 s" for s0
    using that
  proof (induction n arbitrary: s)
    case (Suc n)
    then obtain s1 where "(pot_step X sip ^^ n) s0 s1" "pot_step X sip s1 s" by auto
    with Suc.IH [of s1] pot_step_works [of X sip s1 s] show ?case by simp
  qed simp
  from this [OF assms(5)] have n: "n \<le> 3 * length cs + 259 * length bs"
    by (simp add: pot_work_def work_def pot_start_def initial_def comp_def sum_list_triv KEY_LOCK_SHARDS_def)
  have run: "pot_run X sip (pot_start d cs bs) s" using assms(5) by (rule relpowp_imp_rtranclp)
  have ok: "pots_ok X sip s" using pot_run_refines [OF run pot_start_ok(1) [OF assms(1-4)]] by blast
  have "threads (world s) = map Finished cs" if "\<exists>fs. threads (world s) = map Finished fs"
    using that pot_run_same(1) [OF run] by (auto simp: comp_def)
  with n pots_finished [OF ok] pot_run_same(2) [OF run] show ?thesis by blast
qed

theorem pot_removal_terminates_witness:
  "\<exists>n s. (pot_step demo (\<lambda>_. 0) ^^ n) (pot_start [] [Append ''b'' ''k'' (demo_version 1)] [''b'']) s \<and> n \<le> 262 \<and>
     threads (world s) = [Finished (Append ''b'' ''k'' (demo_version 1))]"
proof -
  obtain s where s: "pot_run demo (\<lambda>_. 0) (pot_start [] [Append ''b'' ''k'' (demo_version 1)] [''b'']) s"
    "\<nexists>t. pot_step demo (\<lambda>_. 0) s t" using pot_maximal_run by blast
  then obtain n where n: "(pot_step demo (\<lambda>_. 0) ^^ n) (pot_start [] [Append ''b'' ''k'' (demo_version 1)] [''b'']) s"
    by (auto simp: rtranclp_power)
  with pot_removal_terminates [OF demo_pots n] s(2) show ?thesis by auto
qed

text \<open>
  C19: a copy takes no commit lock, so a removal can swallow it. When the copy writes the target pot's
  first version between the removal's listing and its deletion, both are acknowledged and the copied
  object is gone, although after the copy alone the pot lists a key and a removal would refuse.
\<close>

theorem unlocked_copy_lost:
  assumes "pointers_ok X d" "no_blank d" "valid_bucket fb" "valid_key fk" "valid_bucket tb" "valid_key tk" "valid_pot tb"
    and "log_at X d fb fk \<noteq> []" "\<forall>k. log_at X d tb k = []"
  shows "\<exists>s. pot_run X sip \<lparr>world = initial d [], removers = [Taking tb 0], copiers = [Copying fb fk tb tk]\<rparr> s \<and>
     removers s = [Answered tb True] \<and> copiers s = [Copied True] \<and> history X (pot_disk s) tb tk = Inr [] \<and>
     (\<forall>d1. pointer_copy X fb fk tb tk d = (Inr True, d1) \<longrightarrow> pointer_list X d1 tb \<noteq> Inr [])"
proof -
  let ?S = "\<lambda>d H r c. \<lparr>world = \<lparr>shared = d, held = H, threads = []\<rparr>, removers = [r], copiers = [c]\<rparr>"
  let ?A = "{..<KEY_LOCK_SHARDS}" and ?h = "last (log_at X d fb fk)" and ?p = "pointer_file X tb tk"
  let ?u = "entry_lines X [?h]" and ?c = "Copying fb fk tb tk"
  note P = assms(1) and src = history_eq [OF assms(1,3,4)] and tgt = history_eq [OF assms(1,5,6)]
  have wf: "list_all hash_wf [?h]" using src(2) assms(8) by (simp add: list_all_iff)
  note p = pointer_path_valid [OF assms(5), of X tk]
  have g: "good ?p" using good_pointer [OF pointers_okD(2) [OF P] assms(5,6)] .
  let ?d1 = "put_file ?p (as_bytes ?u) d"
  note w = pointers_ok_write [OF P assms(5,6) wf refl]
  have nb: "no_blank ?d1" using assms(2) entry_lines_snoc [of X "[]" ?h] by (auto simp: no_blank_def contents_put_file [OF g] as_bytes_def)
  from pointer_list_ok [OF P assms(5)] obtain ks where ks: "pointer_list X d tb = Inr ks" by blast
  with listed_empty [OF P assms(2,5) ks] assms(9) have l: "pointer_list X d tb = Inr []" by simp
  have nof: "contents d ?p = None"
    using read_pointer(3) [OF P assms(5,6)] assms(2,9)
    by (cases "contents d ?p") (auto simp: no_blank_def pointer_file_def entry_lines_def as_bytes_def)
  obtain r2 d2 where 2: "pointer_delete_bucket tb ?d1 = (r2, d2)" by force
  note D = pointer_delete_bucket_ok [OF w(1) assms(5) 2]
  have nb2: "no_blank d2" using nb by (auto simp: no_blank_def D(3))
  obtain r3 d3 where 3: "meta_delete_bucket X tb d2 = (r3, d3)" by force
  note E = meta_gone [OF D(2) nb2 assms(7) 3]
  have s0: "pot_run X sip \<lparr>world = initial d [], removers = [Taking tb 0], copiers = [?c]\<rparr> (?S d ?A (Taking tb KEY_LOCK_SHARDS) ?c)"
    using take_all [of 0 "\<lparr>world = initial d [], removers = [Taking tb 0], copiers = [?c]\<rparr>" tb KEY_LOCK_SHARDS X sip]
    by (simp add: initial_def)
  have s1: "pot_step X sip (?S d ?A (Taking tb KEY_LOCK_SHARDS) ?c) (?S d ?A (Checked tb) ?c)"
    using check [of 0 "?S d ?A (Taking tb KEY_LOCK_SHARDS) ?c" tb X sip] l by simp
  have s2: "pot_step X sip (?S d ?A (Checked tb) ?c) (?S d ?A (Checked tb) (Sourced tb tk ?h))"
    using copy_source [of 0 "?S d ?A (Checked tb) ?c" fb fk tb tk X ?h sip] src(1) assms(8) by (simp add: current_def)
  have s3: "pot_step X sip (?S d ?A (Checked tb) (Sourced tb tk ?h)) (?S d ?A (Checked tb) (Merged tb tk ?u))"
    using copy_load [of 0 "?S d ?A (Checked tb) (Sourced tb tk ?h)" tb tk ?h X ?p None sip] p
      read_pointer(1) [OF P assms(5,6)] nof entry_lines_snoc [of X "[]" ?h] by (simp add: entry_lines_def)
  have s4: "pot_step X sip (?S d ?A (Checked tb) (Merged tb tk ?u)) (?S ?d1 ?A (Checked tb) (Copied True))"
    using copy_store [of 0 "?S d ?A (Checked tb) (Merged tb tk ?u)" tb tk ?u X ?p ?d1 sip] p
      write_good [OF pointers_okD(3) [OF P] g] by simp
  have s5: "pot_step X sip (?S ?d1 ?A (Checked tb) (Copied True)) (?S d2 ?A (Wiped tb) (Copied True))"
    using wipe [of 0 "?S ?d1 ?A (Checked tb) (Copied True)" tb d2 X sip] 2 D(1) by simp
  have s6: "pot_step X sip (?S d2 ?A (Wiped tb) (Copied True)) (?S d3 {} (Answered tb True) (Copied True))"
    using forget [of 0 "?S d2 ?A (Wiped tb) (Copied True)" tb X d3 sip] 3 E(1) by (simp add: release_all_def)
  from s0 s1 s2 s3 s4 s5 s6 have run: "pot_run X sip \<lparr>world = initial d [], removers = [Taking tb 0], copiers = [?c]\<rparr>
      (?S d3 {} (Answered tb True) (Copied True))" by (meson rtranclp.rtrancl_into_rtrancl)
  have lost: "history X d3 tb tk = Inr []"
    using history_eq(1) [OF E(2) assms(5,6)] E(4) [of tb tk] D(5) [of tb tk] by simp
  have "pointer_list X d1 tb \<noteq> Inr []" if c: "pointer_copy X fb fk tb tk d = (Inr True, d1)" for d1
  proof
    assume e: "pointer_list X d1 tb = Inr []"
    note C = pointer_copy_ok [OF P assms(3-6) c]
    from pointer_list_ok [OF C(2) assms(5)] e have "contents d1 ?p = None" using assms(6) by auto
    with C(3) [of tb tk] assms(8) show False by (simp add: log_at_def)
  qed
  with run lost show ?thesis by (intro exI [of _ "?S d3 {} (Answered tb True) (Copied True)"]) simp
qed

theorem unlocked_copy_lost_witness:
  "\<exists>d s. history demo d ''b'' ''k'' = Inr [demo_version 1] \<and>
     pot_run demo (\<lambda>_. 0) \<lparr>world = initial d [], removers = [Taking ''c'' 0], copiers = [Copying ''b'' ''k'' ''c'' ''k'']\<rparr> s \<and>
     removers s = [Answered ''c'' True] \<and> copiers s = [Copied True] \<and> history demo (pot_disk s) ''c'' ''k'' = Inr []"
proof -
  let ?u = "entry_lines demo [demo_version 1]" and ?p = "pointer_file demo ''b'' ''k''"
  let ?d = "put_file ?p (as_bytes ?u) []"
  note P = demo_pots(1)
  have wf: "list_all hash_wf [demo_version 1]" using demo_commits_ok(3) by simp
  note w = pointers_ok_write [OF P _ _ wf refl, of "''b''" "''k''"]
  have l: "log_at demo ?d c j = (if c = ''b'' \<and> j = ''k'' then [demo_version 1] else [])" for c j
    using w(2) [of c j] by (simp add: log_at_def [of demo "[]"])
  have "good ?p" using good_pointer [OF pointers_okD(2) [OF P], of "''b''" "''k''"] by simp
  then have nb: "no_blank ?d"
    using entry_lines_snoc [of demo "[]" "demo_version 1"] by (auto simp: no_blank_def contents_put_file as_bytes_def)
  have ok: "pointers_ok demo ?d" using w(1) by simp
  have h: "history demo ?d ''b'' ''k'' = Inr [demo_version 1]"
    using history_eq(1) [OF ok, of "''b''" "''k''"] l [of "''b''" "''k''"] by simp
  have v: "valid_bucket ''b''" "valid_key ''k''" "valid_bucket ''c''" "valid_pot ''c''"
    by (simp_all add: valid_pot_def NAME_MAX_def)
  have e: "log_at demo ?d ''b'' ''k'' \<noteq> []" "\<forall>k. log_at demo ?d ''c'' k = []" by (simp_all add: l)
  from unlocked_copy_lost [OF ok nb v(1,2,3,2,4) e, of "\<lambda>_. 0"] h show ?thesis by blast
qed

end
