(* ===== verification/Gc_Race.thy ===== *)
theory Gc_Race
  imports Engine_Laws
begin

text \<open>
  The collector beside writers. \<open>Gc::sweep\<close> holds no lock: between its reads (the pointers, the
  condemned set, the chunk directory) and between two chunks of its loop, other threads run engine
  operations on the same store. A step relation interleaves the instructions of one pass with whole
  operations of a writer. The collector's lemmas are proved against a writer that keeps the store
  well-formed and takes nothing away, and \<open>put\<close> is such a writer.
\<close>

section \<open>One pass, instruction by instruction\<close>

text \<open>What the pass has read so far: the reachable set; the condemned set; the chunks still to visit.\<close>

datatype collector =
    Idle
  | Marked "hash list"
  | Loaded "hash list" "(hash \<times> nat) list"
  | Sweeping "hash list" "hash list" "(hash \<times> nat) list" sweep_counts
  | Swept sweep_counts

inductive race_step ::
  "ext \<Rightarrow> (engine \<Rightarrow> engine \<Rightarrow> bool) \<Rightarrow> nat \<Rightarrow> nat \<Rightarrow> engine \<times> collector \<Rightarrow> engine \<times> collector \<Rightarrow> bool"
  for X writer now grace where
  marks: "mark X (pinned e) (disk e) = Inr reach \<Longrightarrow> race_step X writer now grace (e, Idle) (e, Marked reach)"
| loads: "load_condemned X (disk e) = Inr cond \<Longrightarrow>
    race_step X writer now grace (e, Marked reach) (e, Loaded reach cond)"
| lists: "chunk_all X (disk e) = Inr hs \<Longrightarrow>
    race_step X writer now grace (e, Loaded reach cond) (e, Sweeping reach hs cond no_sweep)"
| visits: "sweep_chunks X reach now grace [h] cond n (disk e) = (Inr (cond', n'), d) \<Longrightarrow>
    race_step X writer now grace (e, Sweeping reach (h # hs) cond n) (e\<lparr>disk := d\<rparr>, Sweeping reach hs cond' n')"
| saves: "save_condemned X cond (disk e) = (Inr (), d) \<Longrightarrow>
    race_step X writer now grace (e, Sweeping reach [] cond n) (e\<lparr>disk := d\<rparr>, Swept n)"
| writes: "writer e e' \<Longrightarrow> race_step X writer now grace (e, c) (e', c)"

abbreviation race_run ::
  "ext \<Rightarrow> (engine \<Rightarrow> engine \<Rightarrow> bool) \<Rightarrow> nat \<Rightarrow> nat \<Rightarrow> engine \<times> collector \<Rightarrow> engine \<times> collector \<Rightarrow> bool" where
  "race_run X writer now grace \<equiv> (race_step X writer now grace)\<^sup>*\<^sup>*"

inductive_cases race_stepE: "race_step X writer now grace (e, c) (e', c')"

text \<open>Undisturbed, the instructions compose to the pass.\<close>

lemma sweep_chunks_Cons:
  "sweep_chunks X reach now grace (h # hs) cond n d =
     and_then (sweep_chunks X reach now grace [h] cond n d)
       (\<lambda>(cond, n) d. sweep_chunks X reach now grace hs cond n d)"
proof (cases "h \<in> set reach \<or> map_of cond h = None")
  case False
  then obtain at where "h \<notin> set reach" "map_of cond h = Some at" by auto
  then show ?thesis by (cases "chunk_delete X h d" rule: prod.exhaust; cases "fst (chunk_delete X h d)") auto
qed auto

lemma visits_run:
  "sweep_chunks X reach now grace hs cond n (disk e) = (Inr (cond', n'), d) \<Longrightarrow>
     race_run X writer now grace (e, Sweeping reach hs cond n) (e\<lparr>disk := d\<rparr>, Sweeping reach [] cond' n')"
proof (induction hs arbitrary: e cond n)
  case Nil
  then have "d = disk e" "cond' = cond" "n' = n" by simp_all
  moreover have "e\<lparr>disk := disk e\<rparr> = e" by simp
  ultimately show ?case by simp
next
  case (Cons h hs)
  from Cons.prems obtain c1 n1 d1 where
    1: "sweep_chunks X reach now grace [h] cond n (disk e) = (Inr (c1, n1), d1)"
      "sweep_chunks X reach now grace hs c1 n1 d1 = (Inr (cond', n'), d)"
    unfolding sweep_chunks_Cons [of X reach now grace h hs] by (auto simp: result_simps)
  from Cons.IH [of c1 n1 "e\<lparr>disk := d1\<rparr>"] 1(2) have
    "race_run X writer now grace (e\<lparr>disk := d1\<rparr>, Sweeping reach hs c1 n1) (e\<lparr>disk := d\<rparr>, Sweeping reach [] cond' n')"
    by simp
  with visits [OF 1(1)] show ?case by (rule converse_rtranclp_into_rtranclp)
qed

lemma pass_alone:
  assumes "sweep X (pinned e) now grace (disk e) = (Inr n, d)"
  shows "race_run X writer now grace (e, Idle) (e\<lparr>disk := d\<rparr>, Swept n)"
proof -
  from assms obtain reach cond hs c1 d1 where
    1: "mark X (pinned e) (disk e) = Inr reach" "load_condemned X (disk e) = Inr cond" "chunk_all X (disk e) = Inr hs"
      "sweep_chunks X reach now grace hs cond no_sweep (disk e) = (Inr (c1, n), d1)" "save_condemned X c1 d1 = (Inr (), d)"
    by (auto simp: sweep_def result_simps)
  have "race_run X writer now grace (e, Idle) (e, Sweeping reach hs cond no_sweep)"
    by (rule converse_rtranclp_into_rtranclp, rule marks [OF 1(1)],
        rule converse_rtranclp_into_rtranclp, rule loads [OF 1(2)], rule r_into_rtranclp, rule lists [OF 1(3)])
  also have "race_run X writer now grace (e, Sweeping reach hs cond no_sweep) (e\<lparr>disk := d1\<rparr>, Sweeping reach [] c1 n)"
    by (rule visits_run [OF 1(4)])
  also have "race_step X writer now grace (e\<lparr>disk := d1\<rparr>, Sweeping reach [] c1 n) (e\<lparr>disk := d\<rparr>, Swept n)"
    using saves [of X c1 "e\<lparr>disk := d1\<rparr>" d] 1(5) by simp
  finally show ?thesis .
qed

section \<open>The contract of a writer\<close>

locale gc_writer =
  fixes X :: ext and B M :: "bytes set" and writer :: "engine \<Rightarrow> engine \<Rightarrow> bool"
  assumes writer_keeps: "store_ok X B M (disk e) \<Longrightarrow> writer e e' \<Longrightarrow> store_ok X B M (disk e')"
    and writer_extends: "store_ok X B M (disk e) \<Longrightarrow> writer e e' \<Longrightarrow> extends X (disk e) (disk e')"
    and writer_versions: "store_ok X B M (disk e) \<Longrightarrow> writer e e' \<Longrightarrow> versions X (disk e) \<subseteq> versions X (disk e')"
begin

lemma writer_referenced:
  "store_ok X B M (disk e) \<Longrightarrow> writer e e' \<Longrightarrow> referenced X (disk e) \<subseteq> referenced X (disk e')"
  using writer_extends [of e e'] writer_versions [of e e']
  by (fastforce simp: referenced_def version_chunks_def extends_def)

end

text \<open>That a chunk will not be erased by the rest of the pass.\<close>

fun spares :: "nat \<Rightarrow> nat \<Rightarrow> hash \<Rightarrow> collector \<Rightarrow> bool" where
  "spares now grace h Idle = True"
| "spares now grace h (Marked reach) = (h \<in> set reach)"
| "spares now grace h (Loaded reach cond) = (\<not> doomed (set reach) now grace cond h)"
| "spares now grace h (Sweeping reach hs cond n) =
     (distinct hs \<and> list_all hash_wf hs \<and> (h \<in> set hs \<longrightarrow> \<not> doomed (set reach) now grace cond h))"
| "spares now grace h (Swept n) = True"

text \<open>The invariant of a race, for one chunk with its bytes: stored, and spared or still referenced.\<close>

definition race_ok ::
  "ext \<Rightarrow> bytes set \<Rightarrow> bytes set \<Rightarrow> nat \<Rightarrow> nat \<Rightarrow> hash \<Rightarrow> bytes \<Rightarrow> engine \<times> collector \<Rightarrow> bool" where
  "race_ok X B M now grace h b s \<longleftrightarrow>
     (case s of (e, c) \<Rightarrow>
        store_ok X B M (disk e) \<and> chunk_get X (disk e) h = Inr (Some b) \<and> spares now grace h c \<and>
        (c = Idle \<longrightarrow> h \<in> referenced X (disk e)))"

lemma store_ok_chunks:
  assumes "store_ok X B M d" "chunks_ok X B d'" "\<And>t. t \<noteq> chunk_dir \<Longrightarrow> agree t d d'"
  shows "store_ok X B M d'" "\<And>i m. manifest_get X d i = Inr (Some m) \<Longrightarrow> manifest_get X d' i = Inr (Some m)"
    "versions X d' = versions X d"
proof -
  note S = store_okD [OF assms(1)]
  have dk: "disk_ok d'" by (rule chunks_okD(4) [OF assms(2)])
  have ag: "agree manifest_dir d d'" "agree pointer_dir d d'" "agree meta_dir d d'" "agree annotation_dir d d'"
    "agree reverse_dir d d'" using assms(3) by simp_all
  show "store_ok X B M d'"
    unfolding store_ok_def
    using assms(2) manifests_ok_agree [OF S(2) dk ag(1)] pointers_ok_agree [OF S(3) dk ag(2)]
      side_ok_agree [OF S(4) ag(3-5)] by blast
  show "manifest_get X d' i = Inr (Some m)" if "manifest_get X d i = Inr (Some m)" for i m
    using that manifest_get_agree [OF S(7,5) dk ag(1), of i] manifest_get_hash_wf [OF S(6) that] by simp
  show "versions X d' = versions X d" by (simp add: versions_def log_at_agree [OF ag(2)])
qed

lemma chunk_kept:
  assumes "chunks_ok X B d" "chunks_ok X B d'" "hash_ok X" "chunk_at X d' h = chunk_at X d h"
    and "chunk_get X d h = Inr (Some b)"
  shows "chunk_get X d' h = Inr (Some b)"
  using assms chunk_get_wf [OF assms(3,5)] chunk_get_ok_iff [of X B d h] chunk_get_ok_iff [of X B d' h] by simp

context gc_writer begin

lemma race_step_ok:
  assumes "race_step X writer now grace s s'" "race_ok X B M now grace h b s"
  shows "race_ok X B M now grace h b s'"
  using assms
proof (cases rule: race_step.cases)
  case (marks e reach)
  then have "store_ok X B M (disk e)" using assms(2) by (simp add: race_ok_def)
  note S = store_okD [OF this]
  from mark_ok [OF S(2,3), of "pinned e"] marks assms(2) show ?thesis by (auto simp: race_ok_def)
next
  case (loads e cond reach)
  with assms(2) show ?thesis by (simp add: race_ok_def doomed_def)
next
  case (lists e hs reach cond)
  then have "store_ok X B M (disk e)" using assms(2) by (simp add: race_ok_def)
  note S = store_okD [OF this]
  from chunk_all_ok [OF S(1)] lists assms(2) show ?thesis by (auto simp: race_ok_def list_all_iff)
next
  case (visits reach g cond n e c1 n1 d hs)
  then have ok: "store_ok X B M (disk e)" and sp: "spares now grace h (Sweeping reach (g # hs) cond n)"
    and st: "chunk_get X (disk e) h = Inr (Some b)" using assms(2) by (simp_all add: race_ok_def)
  note S = store_okD [OF ok]
  from sweep_chunks_ok [OF S(1), of "[g]" reach now grace cond n] visits(3) sp
  have w: "swept X B (set reach) now grace [g] cond n (disk e) c1 n1 d" by auto
  then have c: "chunks_ok X B d" "\<And>t. t \<noteq> chunk_dir \<Longrightarrow> agree t (disk e) d"
    "\<And>k. chunk_at X d k = (if k = g \<and> doomed (set reach) now grace cond k then None else chunk_at X (disk e) k)"
    "\<And>k. map_of c1 k = (if k = g then stamp_after (set reach) now grace cond k else map_of cond k)"
    by (auto simp: swept_def)
  note k = store_ok_chunks(1) [OF ok c(1,2)]
  have "chunk_at X d h = chunk_at X (disk e) h" using c(3) sp by auto
  from chunk_kept [OF S(1) c(1) S(6) this st] have "chunk_get X d h = Inr (Some b)" .
  moreover have "spares now grace h (Sweeping reach hs c1 n1)" using sp c(4) [of h] by (auto simp: doomed_def)
  ultimately show ?thesis using visits(1,2) k by (simp add: race_ok_def)
next
  case (saves cond e d reach n)
  then have ok: "store_ok X B M (disk e)" and st: "chunk_get X (disk e) h = Inr (Some b)"
    using assms(2) by (simp_all add: race_ok_def)
  note S = store_okD [OF ok]
  note sv = save_condemned_ok [OF S(1,8) saves(3)]
  note k = store_ok_chunks(1) [OF ok sv(2,5)]
  from chunk_kept [OF S(1) sv(2) S(6) sv(3) st] k saves(1,2) show ?thesis by (simp add: race_ok_def)
next
  case (writes e e' c)
  then have ok: "store_ok X B M (disk e)" using assms(2) by (simp add: race_ok_def)
  from writer_keeps [OF ok writes(3)] writer_extends [OF ok writes(3)] writer_referenced [OF ok writes(3)]
    writes(1,2) assms(2) show ?thesis by (auto simp: race_ok_def extends_def)
qed

lemma race_run_ok:
  assumes "race_run X writer now grace s s'" "race_ok X B M now grace h b s"
  shows "race_ok X B M now grace h b s'"
  using assms(1)
proof (induction rule: rtranclp_induct)
  case base
  from assms(2) show ?case by simp
next
  case (step s1 s2)
  with race_step_ok [OF step(2)] show ?case by blast
qed

lemma race_run_store_ok:
  assumes "race_run X writer now grace s s'" "store_ok X B M (disk (fst s))" "snd s = Idle"
    and "manifest_get X (disk (fst s)) i = Inr r"
  shows "store_ok X B M (disk (fst s'))" "r = Some m \<Longrightarrow> manifest_get X (disk (fst s')) i = Inr (Some m)"
proof -
  define ready where "ready c \<longleftrightarrow> (case c of Sweeping reach hs cond n \<Rightarrow> distinct hs \<and> list_all hash_wf hs | _ \<Rightarrow> True)" for c
  have "store_ok X B M (disk (fst s')) \<and> ready (snd s') \<and>
      (r = Some m \<longrightarrow> manifest_get X (disk (fst s')) i = Inr (Some m))"
    using assms(1)
  proof (induction rule: rtranclp_induct)
    case base
    from assms(2-4) show ?case by (simp add: ready_def)
  next
    case (step s1 s2)
    note IH = step.IH
    note S = store_okD [OF conjunct1 [OF IH]]
    from step.hyps(2) show ?case
    proof (cases rule: race_step.cases)
      case (lists e hs reach cond)
      with chunk_all_ok [OF S(1)] IH show ?thesis by (auto simp: ready_def list_all_iff)
    next
      case (visits reach g cond n e c1 n1 d hs)
      with sweep_chunks_ok [OF S(1), of "[g]" reach now grace cond n] IH have
        w: "chunks_ok X B d" "\<And>t. t \<noteq> chunk_dir \<Longrightarrow> agree t (disk e) d"
        by (auto simp: ready_def swept_def)
      have "store_ok X B M (disk e)" using IH visits(1) by simp
      from store_ok_chunks(1,2) [OF this w] IH visits(1,2) show ?thesis by (simp add: ready_def)
    next
      case (saves cond e d reach n)
      have "chunks_ok X B (disk e)" using S(1) saves(1) by simp
      note sv = save_condemned_ok [OF this S(8) saves(3)]
      have "store_ok X B M (disk e)" using IH saves(1) by simp
      from store_ok_chunks(1,2) [OF this sv(2,5)] IH saves(1,2) show ?thesis by (simp add: ready_def)
    next
      case (writes e e' c)
      with writer_keeps [of e e'] writer_extends [of e e'] IH show ?thesis by (simp add: ready_def extends_def)
    qed (use IH in \<open>simp_all add: ready_def\<close>)
  qed
  then show "store_ok X B M (disk (fst s'))" "r = Some m \<Longrightarrow> manifest_get X (disk (fst s')) i = Inr (Some m)"
    by simp_all
qed

text \<open>A version committed before the pass starts reads back after every interleaving.\<close>

lemma race_run_reads:
  assumes run: "race_run X writer now grace (e, Idle) (e', c)" and ok: "store_ok X B M (disk e)"
    and i: "i \<in> versions X (disk e)" and read: "read_manifest_bytes X e i = Inr bs"
  shows "read_manifest_bytes X e' i = Inr bs"
proof -
  note S = store_okD [OF ok]
  from read obtain m cd xs where m: "manifest_get X (disk e) i = Inr (Some m)"
    "decoder_for (codec (storage m)) = Inr cd" "try_map (fetch_chunk X e cd i) (chunks (chunking m)) = Inr xs"
    "\<not> (fidelity (storage m) = Exact \<and> sha256_hex X (concat xs) \<noteq> sha256_hexed (original m))" "bs = concat xs"
    by (auto simp: read_manifest_bytes_def fetch_manifest_def result_simps split: if_splits)
  have kept: "chunk_get X (disk e') h = Inr (Some b)"
    if "h \<in> set (chunks (chunking m))" "chunk_get X (disk e) h = Inr (Some b)" for h b
  proof -
    have "h \<in> referenced X (disk e)" using i m(1) that(1) by (auto simp: referenced_def version_chunks_def)
    with ok that(2) have "race_ok X B M now grace h b (e, Idle)" by (simp add: race_ok_def)
    from race_run_ok [OF run this] show ?thesis by (simp add: race_ok_def)
  qed
  have fetch: "fetch_chunk X e' cd i h = Inr x" if "h \<in> set (chunks (chunking m))" "fetch_chunk X e cd i h = Inr x" for h x
    using that kept by (auto simp: fetch_chunk_def result_simps)
  have "try_map (fetch_chunk X e' cd i) (chunks (chunking m)) = Inr xs"
    using m(3) fetch unfolding try_map_Inr_iff by (auto simp: list_all2_conv_all_nth)
  moreover have "manifest_get X (disk e') i = Inr (Some m)"
    using race_run_store_ok(2) [OF run] ok m(1) by simp
  ultimately show ?thesis using m(2,4,5) by (simp add: read_manifest_bytes_def fetch_manifest_def)
qed

end

section \<open>Writes as the writer\<close>

definition put_writer :: "ext \<Rightarrow> bytes set \<Rightarrow> bytes set \<Rightarrow> engine \<Rightarrow> engine \<Rightarrow> bool" where
  "put_writer X B M e e' \<longleftrightarrow>
     (\<exists>b k data ct clock t ep encs i.
        writable X B M e b k \<and> ensure_unlocked X b k clock e = Inr () \<and> effective_policy X b ct e = Inr ep \<and>
        encodes X (ep_codec ep) B (chunk_split X data) encs \<and>
        manifest_body X (put_manifest X e ct ep encs data t) \<in> M \<and>
        put X b k data ct clock t e = (Inr i, e'))"

lemma put_writer_ok:
  assumes "put_writer X B M e e'"
  shows "store_ok X B M (disk e')" "extends X (disk e) (disk e')" "versions X (disk e) \<subseteq> versions X (disk e')"
proof -
  from assms obtain b k data ct clock t ep encs i where w:
    "writable X B M e b k" "ensure_unlocked X b k clock e = Inr ()" "effective_policy X b ct e = Inr ep"
    "encodes X (ep_codec ep) B (chunk_split X data) encs"
    "manifest_body X (put_manifest X e ct ep encs data t) \<in> M"
    and run: "put X b k data ct clock t e = (Inr i, e')"
    unfolding put_writer_def by (elim exE conjE) (rule that)
  from put_ok [OF w] run show "store_ok X B M (disk e')" "extends X (disk e) (disk e')" by auto
  from put_ok [OF w] run have "\<forall>c j. log_at X (disk e') c j =
      (if c = b \<and> j = k then log_at X (disk e) b k @ [i] else log_at X (disk e) c j)" by auto
  then show "versions X (disk e) \<subseteq> versions X (disk e')" by (fastforce simp: versions_def)
qed

interpretation put_race: gc_writer X B M "put_writer X B M" for X B M
  by unfold_locales (simp_all add: put_writer_ok)

lemma put_chunk_lost:
  assumes w: "writable X B M e b k" "ensure_unlocked X b k clock e = Inr ()" "effective_policy X b ct e = Inr ep"
    "encodes X (ep_codec ep) B (chunk_split X data) encs"
    "manifest_body X (put_manifest X e ct ep encs data t) \<in> M"
    and h: "h \<in> hash_of X ` set encs" "doomed (set reach) now grace cond h"
  shows "\<exists>i e1 e2 cond' n'. put X b k data ct clock t e = (Inr i, e1) \<and> put_writer X B M e e1 \<and>
     store_ok X B M (disk e1) \<and> read_manifest_bytes X e1 i = Inr data \<and>
     race_step X (put_writer X B M) now grace (e1, Sweeping reach (h # hs) cond n) (e2, Sweeping reach hs cond' n') \<and>
     store_ok X B M (disk e2) \<and> log_at X (disk e2) b k = log_at X (disk e1) b k \<and>
     last (log_at X (disk e2) b k) = i \<and> log_at X (disk e2) b k \<noteq> [] \<and> chunk_bytes X e2 h = Inr None \<and>
     (\<forall>bs. read_manifest_bytes X e2 i \<noteq> Inr bs)"
proof -
  from put_ok [OF w] obtain i e1 where p: "put X b k data ct clock t e = (Inr i, e1)" "store_ok X B M (disk e1)"
    "read_manifest_bytes X e1 i = Inr data"
    "\<forall>c j. log_at X (disk e1) c j = (if c = b \<and> j = k then log_at X (disk e) b k @ [i] else log_at X (disk e) c j)"
    "manifest_get X (disk e1) i = Inr (Some (with_id X (put_manifest X e ct ep encs data t)))"
    by (elim exE conjE) (rule that)
  have pw: "put_writer X B M e e1" using w p(1) unfolding put_writer_def by blast
  note S = store_okD [OF p(2)]
  have wf: "hash_wf h" using h(1) S(6) by auto
  from sweep_chunks_ok [OF S(1), of "[h]" reach now grace cond n] wf obtain c1 n1 d where
    v: "sweep_chunks X reach now grace [h] cond n (disk e1) = (Inr (c1, n1), d)"
      "swept X B (set reach) now grace [h] cond n (disk e1) c1 n1 d" by auto
  then have c: "chunks_ok X B d" "\<And>t. t \<noteq> chunk_dir \<Longrightarrow> agree t (disk e1) d" "chunk_at X d h = None"
    using h(2) by (auto simp: swept_def)
  note k = store_ok_chunks [OF p(2) c(1,2)]
  have log: "log_at X d b k = log_at X (disk e1) b k" by (rule log_at_agree [OF c(2)]) simp
  let ?e2 = "e1\<lparr>disk := d\<rparr>" and ?m = "with_id X (put_manifest X e ct ep encs data t)"
  have gone: "chunk_get X d h = Inr None" using chunk_get_ok_iff [OF c(1) wf] c(3) by simp
  have "read_manifest_bytes X ?e2 i \<noteq> Inr bs" for bs
  proof
    assume "read_manifest_bytes X ?e2 i = Inr bs"
    then obtain cd xs where "try_map (fetch_chunk X ?e2 cd i) (chunks (chunking ?m)) = Inr xs"
      using k(2) p(5) by (auto simp: read_manifest_bytes_def fetch_manifest_def result_simps)
    moreover have "chunks (chunking ?m) = map (hash_of X) encs"
      by (simp add: put_manifest_def new_manifest_def with_id_def)
    ultimately have "try_map (fetch_chunk X ?e2 cd i) (map (hash_of X) encs) = Inr xs" by simp
    then obtain x where "fetch_chunk X ?e2 cd i h = Inr x"
      using h(1) by (auto simp: try_map_Inr_iff list_all2_conv_all_nth in_set_conv_nth)
    with gone show False by (simp add: fetch_chunk_def result_simps ok_or_def)
  qed
  with p(1-4) pw visits [OF v(1)] k(1) log gone show ?thesis
    by (intro exI [of _ i] exI [of _ e1] exI [of _ ?e2] exI [of _ c1] exI [of _ n1]) (simp add: chunk_bytes_def)
qed

end
