(* ===== verification/Gc_Race_Props.thy ===== *)
theory Gc_Race_Props
  imports Gc_Race Demo_Engine
begin

text \<open>The collector beside writers: what every interleaving keeps, and the one it does not guard against.\<close>

text \<open>
  The step relation refines the pass of the collector: whenever \<open>sweep\<close> succeeds, its
  instructions, taken one by one with no writer in between, lead from the idle collector to the same
  disk and the same counts.
\<close>

theorem undisturbed_pass:
  assumes "sweep X (pinned e) now grace (disk e) = (Inr n, d)"
  shows "race_run X writer now grace (e, Idle) (e\<lparr>disk := d\<rparr>, Swept n)"
  by (rule pass_alone [OF assms])

theorem undisturbed_pass_witness:
  "\<exists>e n d. sweep demo (pinned e) 100 10 (disk e) = (Inr n, d) \<and>
     race_run demo (\<lambda>_ _. False) 100 10 (e, Idle) (e\<lparr>disk := d\<rparr>, Swept n)"
proof -
  have "store_ok demo small_bufs {} (disk demo_engine)" by (simp add: demo_store_ok)
  from sweep_ok [OF this refl, of "pinned demo_engine" 100 10] obtain n d where
    "sweep demo (pinned demo_engine) 100 10 (disk demo_engine) = (Inr n, d)" by blast
  with undisturbed_pass [of demo demo_engine 100 10 n d] show ?thesis by blast
qed

text \<open>
  C21: whatever \<open>put\<close>s of other threads run between the instructions of a pass, the store stays
  well-formed, and every version committed before the pass began still reads the same bytes.
\<close>

theorem racing_pass_keeps_versions:
  assumes "race_run X (put_writer X B M) now grace (e, Idle) (e', c)" "store_ok X B M (disk e)"
    and "valid_bucket b" "valid_key k" "eng_history X e b k = Inr h" "i \<in> set h" "read_object X e i = Inr bs"
  shows "store_ok X B M (disk e') \<and> read_object X e' i = Inr bs"
proof
  have v: "i \<in> versions X (disk e)"
    using assms(3-6) history_eq(1) [OF store_okD(3) [OF assms(2)] assms(3,4)]
    by (auto simp: eng_history_def versions_def)
  have r: "read_manifest_bytes X e i = Inr bs" using assms(7) by (simp add: read_object_def)
  then obtain m where "manifest_get X (disk e) i = Inr (Some m)"
    by (auto simp: read_manifest_bytes_def fetch_manifest_def result_simps)
  with put_race.race_run_store_ok(1) [OF assms(1)] assms(2) show "store_ok X B M (disk e')" by simp
  from put_race.race_run_reads [OF assms(1,2) v r] show "read_object X e' i = Inr bs"
    by (simp add: read_object_def)
qed

theorem racing_pass_keeps_versions_witness:
  "\<exists>e e' i n. race_run demo (put_writer demo small_bufs demo_bodies) 50 0 (e, Idle) (e', Swept n) \<and>
     read_object demo e i = Inr demo_data \<and> read_object demo e' i = Inr demo_data"
proof -
  obtain i e where p: "store_ok demo small_bufs demo_bodies (disk e)" "read_manifest_bytes demo e i = Inr demo_data"
    "log_at demo (disk e) ''b'' ''k'' = [i]" by (rule demo_put) simp
  have h: "eng_history demo e ''b'' ''k'' = Inr [i]"
    using history_eq(1) [OF store_okD(3) [OF p(1)], of "''b''" "''k''"] p(3) by (simp add: eng_history_def)
  have r: "read_object demo e i = Inr demo_data" using p(2) by (simp add: read_object_def)
  from sweep_ok [OF p(1) refl, of "pinned e" 50 0] obtain n d where
    "sweep demo (pinned e) 50 0 (disk e) = (Inr n, d)" by blast
  from pass_alone [OF this] have run:
    "race_run demo (put_writer demo small_bufs demo_bodies) 50 0 (e, Idle) (e\<lparr>disk := d\<rparr>, Swept n)" .
  from racing_pass_keeps_versions [OF run p(1) _ _ h _ r] have "read_object demo (e\<lparr>disk := d\<rparr>) i = Inr demo_data"
    by simp
  with run r show ?thesis by blast
qed

text \<open>
  C22: the guards do not cover one interleaving. When the pass has marked and loaded its condemned set,
  a \<open>put\<close> that needs a chunk this set condemns (past the grace window, not reached by the mark) finds
  the chunk on the disk, stores nothing and succeeds; the next instruction of the pass erases the chunk,
  and the object just acknowledged cannot be read any more.
\<close>

theorem racing_put_loses_object:
  assumes "writable X B M e b k" "ensure_unlocked X b k clock e = Inr ()" "effective_policy X b ct e = Inr ep"
    and "encodes X (ep_codec ep) B (chunk_split X data) encs"
    and "manifest_body X (put_manifest X e ct ep encs data t) \<in> M"
    and "h \<in> hash_of X ` set encs" "doomed (set reach) now grace cond h"
  shows "\<exists>i e1 e2 cond' n'. put X b k data ct clock t e = (Inr i, e1) \<and> get X e1 b k = Inr (Some data) \<and>
     race_run X (put_writer X B M) now grace (e, Sweeping reach (h # hs) cond n) (e2, Sweeping reach hs cond' n') \<and>
     eng_current X e2 b k = Inr (Some i) \<and> chunk_bytes X e2 h = Inr None \<and> (\<forall>bs. get X e2 b k \<noteq> Inr (Some bs))"
proof -
  from put_chunk_lost [OF assms, of hs n] obtain i e1 e2 cond' n' where 1:
    "put X b k data ct clock t e = (Inr i, e1)" "put_writer X B M e e1" "store_ok X B M (disk e1)"
    "read_manifest_bytes X e1 i = Inr data"
    "race_step X (put_writer X B M) now grace (e1, Sweeping reach (h # hs) cond n) (e2, Sweeping reach hs cond' n')"
    "store_ok X B M (disk e2)" "log_at X (disk e2) b k = log_at X (disk e1) b k"
    "last (log_at X (disk e2) b k) = i" "log_at X (disk e2) b k \<noteq> []" "chunk_bytes X e2 h = Inr None"
    "\<forall>bs. read_manifest_bytes X e2 i \<noteq> Inr bs"
    by (elim exE conjE) (rule that)
  have v: "valid_bucket b" "valid_key k" using assms(1) by (simp_all add: writable_def)
  have "race_run X (put_writer X B M) now grace (e, Sweeping reach (h # hs) cond n) (e2, Sweeping reach hs cond' n')"
    by (rule converse_rtranclp_into_rtranclp, rule writes, rule 1(2), rule r_into_rtranclp, rule 1(5))
  moreover have "get X e1 b k = Inr (Some data)" using get_eq [OF 1(3) v] 1(4,7-9) by simp
  moreover have "eng_current X e2 b k = Inr (Some i)" using eng_current_eq [OF 1(6) v] 1(8,9) by simp
  moreover have "get X e2 b k \<noteq> Inr (Some bs)" for bs
    using get_eq [OF 1(6) v] 1(8,9,11) by (auto simp: result_simps)
  ultimately show ?thesis using 1(1,10) by blast
qed

text \<open>A disk with one stored chunk, condemned at time 0 by an earlier pass.\<close>

lemma demo_condemned:
  assumes "inj_on (blake3 demo) M"
  obtains d where "store_ok demo small_bufs M d" "others [chunk_dir] [] d"
    "chunk_all demo d = Inr [hash_of demo demo_data]" "map_of (condemned_at demo d) (hash_of demo demo_data) = Some 0"
    "\<And>b k. log_at demo d b k = []"
proof -
  let ?h = "hash_of demo demo_data"
  let ?d = "put_file (shard demo chunk_dir ?h) demo_data []"
  have small: "demo_data \<in> small_bufs" by (simp add: demo_data_def small_bufs_def)
  have new: "chunk_put demo demo_data [] = (Inr ?h, ?d)" by (simp add: chunk_put_eq chunk_at_def)
  from chunk_put_step [OF demo_store_ok [OF assms] small] new
  have d: "store_ok demo small_bufs M ?d" "others [chunk_dir] [] ?d" by auto
  have g: "good (shard demo chunk_dir ?h)" by (simp add: good_shard)
  have at: "chunk_at demo ?d k = (if k = ?h then Some demo_data else None)" if "hash_wf k" for k
    using that by (simp add: chunk_at_def contents_put_file [OF g] shard_inj)
  have cond: "condemned_at demo ?d = []" using g by (simp add: condemned_at_def contents_put_file condemned_not_shard)
  have log: "log_at demo ?d b k = []" for b k
    using others_agree [OF d(2), THEN log_at_agree, of demo b k] by (simp add: log_at_def)
  from sweep_ok [OF d(1) refl, of "[]" 0 10] obtain n d' where s: "sweep demo [] 0 10 ?d = (Inr n, d')"
    "store_ok demo small_bufs M d'"
    "\<forall>h. hash_wf h \<longrightarrow> chunk_at demo d' h =
        (if doomed (set [] \<union> referenced demo ?d) 0 10 (condemned_at demo ?d) h then None else chunk_at demo ?d h)"
    "\<forall>h. hash_wf h \<longrightarrow> map_of (condemned_at demo d') h =
        (if chunk_at demo ?d h \<noteq> None then stamp_after (set [] \<union> referenced demo ?d) 0 10 (condemned_at demo ?d) h
         else map_of (condemned_at demo ?d) h)"
    "\<forall>t. t \<noteq> chunk_dir \<longrightarrow> agree t ?d d'"
    by (elim exE conjE) (rule that)
  have ref: "referenced demo ?d = {}" by (simp add: referenced_def versions_def log)
  have at': "chunk_at demo d' k = (if k = ?h then Some demo_data else None)" if "hash_wf k" for k
    using s(3) that at [OF that] by (simp add: cond doomed_def)
  have st: "map_of (condemned_at demo d') ?h = Some 0"
    using s(4) at [of ?h] by (simp add: ref cond stamp_after_def doomed_def)
  from chunk_all_ok [OF store_okD(1) [OF s(2)]] obtain hs where
    hs: "chunk_all demo d' = Inr hs" "distinct hs" "set hs = {h. hash_wf h \<and> chunk_at demo d' h \<noteq> None}" by blast
  have "set hs = {?h}" using hs(3) at' by (auto split: if_splits)
  with hs(2) have "hs = [?h]" by (cases hs) (auto simp: subset_singleton_iff)
  moreover have "others [chunk_dir] [] d'"
    using d(2) s(5) by (auto simp: others_def intro: agree_trans)
  moreover have "log_at demo d' b k = []" for b k
    using s(5) log_at_agree [of ?d d' demo b k] log by simp
  ultimately show thesis using that s(2) st hs(1) by blast
qed

theorem racing_put_loses_object_witness:
  "\<exists>e i e1 e2 reach cond n.
     race_run demo (put_writer demo small_bufs demo_bodies) 100 10 (e, Idle) (e2, Sweeping reach [] cond n) \<and>
     put demo ''b'' ''k'' demo_data ''text/plain'' 10 10 e = (Inr i, e1) \<and> get demo e1 ''b'' ''k'' = Inr (Some demo_data) \<and>
     eng_current demo e2 ''b'' ''k'' = Inr (Some i) \<and> (\<forall>bs. get demo e2 ''b'' ''k'' \<noteq> Inr (Some bs))"
proof -
  let ?h = "hash_of demo demo_data" and ?W = "put_writer demo small_bufs demo_bodies"
  obtain d where d: "store_ok demo small_bufs demo_bodies d" "others [chunk_dir] [] d" "chunk_all demo d = Inr [?h]"
    "map_of (condemned_at demo d) ?h = Some 0" "\<And>b k. log_at demo d b k = []"
    by (rule demo_condemned [of demo_bodies]) (simp, rule that)
  let ?e = "demo_on d" and ?cond = "condemned_at demo d"
  have ref: "referenced demo d = {}" by (simp add: referenced_def versions_def d(5))
  note S = store_okD [OF d(1)]
  from mark_ok [OF S(2,3), of "[]"] ref obtain reach where r: "mark demo [] d = Inr reach" "set reach = {}" by auto
  have doom: "doomed (set reach) 100 10 ?cond ?h" using r(2) d(4) by (simp add: doomed_def)
  have M: "manifest_body demo (put_manifest demo ?e ''text/plain'' demo_ep [demo_data] demo_data 10) \<in> demo_bodies"
    by (simp add: demo_bodies_def put_manifest_def new_manifest_def)
  have h: "?h \<in> hash_of demo ` set [demo_data]" by simp
  from racing_put_loses_object [OF demo_on_chunks(3,1,2) [OF d(1,2)] demo_encodes M h doom,
      where hs = "[]" and n = no_sweep and clock = 10]
  obtain i e1 e2 cond' n' where 1: "put demo ''b'' ''k'' demo_data ''text/plain'' 10 10 ?e = (Inr i, e1)"
    "get demo e1 ''b'' ''k'' = Inr (Some demo_data)"
    "race_run demo ?W 100 10 (?e, Sweeping reach [?h] ?cond no_sweep) (e2, Sweeping reach [] cond' n')"
    "eng_current demo e2 ''b'' ''k'' = Inr (Some i)" "\<forall>bs. get demo e2 ''b'' ''k'' \<noteq> Inr (Some bs)"
    by (elim exE conjE) (rule that)
  have "race_run demo ?W 100 10 (?e, Idle) (?e, Sweeping reach [?h] ?cond no_sweep)"
    by (rule converse_rtranclp_into_rtranclp, rule marks, simp add: r(1),
        rule converse_rtranclp_into_rtranclp, rule loads, simp add: load_condemned_eq S(5),
        rule r_into_rtranclp, rule lists, simp add: d(3))
  from rtranclp_trans [OF this 1(3)] 1(1,2,4,5) show ?thesis by blast
qed

end
