(* ===== verification/Listing.thy ===== *)
theory Listing
  imports Engine_Laws
begin

text \<open>
  One page of a pot's objects: \<open>Engine::list_objects\<close> (\<open>barme-engine/src/lib.rs\<close>), with the prefix,
  the delimiter that folds keys into common prefixes, and the cursor a client pages by. The lemmas
  show that the pages a client collects by following \<open>next_after\<close> list every key and every common
  prefix exactly once, whatever the page size.
\<close>

section \<open>The operation\<close>

record object_entry =
  oe_key :: string
  oe_size :: nat
  oe_object_id :: hash
  oe_created_at :: string

record object_page =
  pg_entries :: "object_entry list"
  pg_common_prefixes :: "string list"
  pg_next_after :: "string option"

text \<open>The part of a key up to the first delimiter after the listing prefix, if there is one.\<close>

definition group_of :: "string \<Rightarrow> string \<Rightarrow> string \<Rightarrow> string option" where
  "group_of pre delim key =
     (if delim = [] then None
      else map_option (\<lambda>at. take (length pre + at + length delim) key) (find_sub delim (drop (length pre) key)))"

text \<open>The local variables of the walk over the sorted keys.\<close>

record walk =
  wk_units :: nat
  wk_selected :: "string list"
  wk_prefixes :: "string list"
  wk_last_group :: "string option"
  wk_consumed :: nat

definition walk_start :: walk where
  "walk_start = \<lparr>wk_units = 0, wk_selected = [], wk_prefixes = [], wk_last_group = None, wk_consumed = 0\<rparr>"

fun page_walk :: "string \<Rightarrow> string \<Rightarrow> nat \<Rightarrow> string list \<Rightarrow> walk \<Rightarrow> walk" where
  "page_walk pre delim max_units [] w = w"
| "page_walk pre delim max_units (key # ks) w =
     (case group_of pre delim key of
        Some g \<Rightarrow>
          if wk_last_group w = Some g then
            page_walk pre delim max_units ks (w\<lparr>wk_consumed := wk_consumed w + 1\<rparr>)
          else if wk_units w = max_units then w
          else page_walk pre delim max_units ks
                 (w\<lparr>wk_prefixes := wk_prefixes w @ [g], wk_last_group := Some g,
                    wk_units := wk_units w + 1, wk_consumed := wk_consumed w + 1\<rparr>)
      | None \<Rightarrow>
          if wk_units w = max_units then w
          else page_walk pre delim max_units ks
                 (w\<lparr>wk_selected := wk_selected w @ [key],
                    wk_units := wk_units w + 1, wk_consumed := wk_consumed w + 1\<rparr>))"

fun page_entries :: "ext \<Rightarrow> engine \<Rightarrow> string \<Rightarrow> string list \<Rightarrow> engine_error + object_entry list" where
  "page_entries X e b [] = Inr []"
| "page_entries X e b (key # ks) =
     try_then (current_manifest X e b key) (\<lambda>m.
     try_then (page_entries X e b ks) (\<lambda>es.
       Inr (case m of
              None \<Rightarrow> es
            | Some m \<Rightarrow> \<lparr>oe_key = key, oe_size = size_bytes (original m), oe_object_id = object_id m,
                         oe_created_at = created_at m\<rparr> # es)))"

definition selected_keys :: "string \<Rightarrow> string option \<Rightarrow> string list \<Rightarrow> string list" where
  "selected_keys pre after ks =
     sort (filter (\<lambda>k. case after of None \<Rightarrow> True | Some a \<Rightarrow> a < k) (filter (prefix pre) ks))"

definition list_objects ::
  "ext \<Rightarrow> engine \<Rightarrow> string \<Rightarrow> string \<Rightarrow> string \<Rightarrow> string option \<Rightarrow> nat \<Rightarrow> engine_error + object_page" where
  "list_objects X e b pre delim after max_units =
     try_then (map_err EStore (pointer_list X (disk e) b)) (\<lambda>all.
       let ks = selected_keys pre after all;
           w = page_walk pre delim max_units ks walk_start;
           nxt = (if wk_consumed w < length ks \<and> 0 < wk_consumed w then Some (ks ! (wk_consumed w - 1)) else None)
       in try_then (page_entries X e b (wk_selected w)) (\<lambda>es.
            Inr \<lparr>pg_entries = es, pg_common_prefixes = wk_prefixes w, pg_next_after = nxt\<rparr>))"

section \<open>Strings in byte order\<close>

lemma Cons_prefix_iff: "prefix (x # xs) ys \<longleftrightarrow> (\<exists>zs. ys = x # zs \<and> prefix xs zs)"
  by (cases ys) auto

lemma prefix_le: "prefix g k \<Longrightarrow> g \<le> k" for g k :: string
  by (induction g arbitrary: k) (auto simp: Cons_prefix_iff)

lemma find_sub_Nil [simp]: "find_sub [] t = Some 0"
  by (cases t) auto

lemma less_extend: "g < h \<Longrightarrow> \<not> prefix g h \<Longrightarrow> prefix g k \<Longrightarrow> prefix h k' \<Longrightarrow> k < k'" for g h :: string
proof (induction g arbitrary: h k k')
  case (Cons c g)
  then show ?case by (cases h) (auto simp: Cons_prefix_iff)
qed simp

lemma prefix_between:
  "prefix g k1 \<Longrightarrow> prefix g k2 \<Longrightarrow> k1 \<le> k \<Longrightarrow> k \<le> k2 \<Longrightarrow> prefix g k" for g :: string
proof (induction g arbitrary: k1 k k2)
  case (Cons c g)
  from Cons.prems(1,2) obtain a b where k: "k1 = c # a" "prefix g a" "k2 = c # b" "prefix g b"
    by (auto simp: Cons_prefix_iff)
  with Cons.prems(3,4) obtain d u where d: "k = d # u" by (cases k) auto
  with k Cons.prems(3,4) have "d = c" "a \<le> u" "u \<le> b" by auto
  with Cons.IH [OF k(2,4)] d show ?case by simp
qed simp

lemma distinct_remdups_adj_sorted: "sorted xs \<Longrightarrow> distinct (remdups_adj xs)"
  by (induction xs rule: remdups_adj.induct) (auto simp: antisym)

section \<open>Common prefixes\<close>

lemma find_sub_extend: "find_sub p s = Some i \<Longrightarrow> prefix (take (i + length p) s) t \<Longrightarrow> find_sub p t = Some i"
proof (induction p s arbitrary: t i rule: find_sub.induct)
  case (2 p x xs)
  show ?case
  proof (cases "prefix p (x # xs)")
    case True
    then have "prefix p t" using 2(2,3) by (auto simp: prefix_def)
    then show ?thesis using True 2(2) by (cases t) auto
  next
    case False
    then obtain j where j: "find_sub p xs = Some j" "i = Suc j" using 2(2) by auto
    with 2(3) obtain t' where t: "t = x # t'" "prefix (take (j + length p) xs) t'"
      by (auto simp: Cons_prefix_iff)
    have "\<not> prefix p t"
    proof
      assume "prefix p t"
      then have "prefix p (x # take (j + length p) xs)"
        using t prefix_length_prefix [of p t "x # take (j + length p) xs"] find_sub_Some [OF j(1)] by auto
      moreover have "prefix (x # take (j + length p) xs) (x # xs)" by (simp add: take_is_prefix)
      ultimately have "prefix p (x # xs)" by (rule prefix_order.trans)
      with False show False by simp
    qed
    then show ?thesis using t j 2(1) [OF False j(1) t(2)] by simp
  qed
qed (auto split: if_splits)

lemma group_prefix: "group_of pre delim k = Some g \<Longrightarrow> prefix g k"
  by (auto simp: group_of_def take_is_prefix split: if_splits)

lemma group_stable:
  assumes "group_of pre delim k = Some g" "prefix pre k" "prefix g k'"
  shows "group_of pre delim k' = Some g"
proof -
  from assms(1) obtain i where i: "delim \<noteq> []" "find_sub delim (drop (length pre) k) = Some i"
    "g = take (length pre + i + length delim) k" by (auto simp: group_of_def split: if_splits)
  from assms(2) obtain r where k: "k = pre @ r" by (auto simp: prefix_def)
  from i k have g: "g = pre @ take (i + length delim) r" "i + length delim \<le> length r"
    using find_sub_Some [OF i(2)] by (simp_all add: add.assoc)
  from assms(3) g obtain r' where k': "k' = pre @ r'" "prefix (take (i + length delim) r) r'"
    by (auto simp: prefix_def)
  from find_sub_extend [of delim r i r'] i(2) k k' have "find_sub delim r' = Some i" by simp
  moreover have "take (length pre + i + length delim) k' = g"
    using k' g by (auto simp: prefix_def add.assoc)
  ultimately show ?thesis using i(1) k'(1) by (simp add: group_of_def)
qed

lemma group_mono:
  assumes "group_of pre delim k = Some g" "group_of pre delim k' = Some g'" "prefix pre k" "prefix pre k'" "k \<le> k'"
  shows "g \<le> g'"
proof (rule ccontr)
  assume "\<not> g \<le> g'"
  then have less: "g' < g" by simp
  note p = group_prefix [OF assms(1)] group_prefix [OF assms(2)]
  show False
  proof (cases "prefix g' g")
    case True
    then have "group_of pre delim k = Some g'"
      using group_stable [OF assms(2,4)] p(1) prefix_order.trans by blast
    with assms(1) less show False by simp
  next
    case False
    with less_extend [OF less False p(2,1)] assms(5) show False by simp
  qed
qed

definition groups :: "string \<Rightarrow> string \<Rightarrow> string list \<Rightarrow> string list" where
  "groups pre delim ks = List.map_filter (group_of pre delim) ks"

lemma groups_simps [simp]:
  "groups pre delim [] = []"
  "groups pre delim (k # ks) =
     (case group_of pre delim k of None \<Rightarrow> groups pre delim ks | Some g \<Rightarrow> g # groups pre delim ks)"
  "groups pre delim (xs @ ys) = groups pre delim xs @ groups pre delim ys"
  by (simp_all add: groups_def List.map_filter_def split: option.split)

lemma set_groups: "set (groups pre delim ks) = {g. \<exists>k \<in> set ks. group_of pre delim k = Some g}"
  by (induction ks) (auto split: option.splits)

lemma sorted_groups: "sorted ks \<Longrightarrow> list_all (prefix pre) ks \<Longrightarrow> sorted (groups pre delim ks)"
  by (induction ks) (auto simp: set_groups list_all_iff group_mono split: option.splits)

section \<open>What one page takes\<close>

definition ungrouped :: "string \<Rightarrow> string \<Rightarrow> string list \<Rightarrow> string list" where
  "ungrouped pre delim ks = filter (\<lambda>k. group_of pre delim k = None) ks"

lemma ungrouped_append [simp]: "ungrouped pre delim (xs @ ys) = ungrouped pre delim xs @ ungrouped pre delim ys"
  by (simp add: ungrouped_def)

text \<open>The state of the walk after the keys \<open>ks\<close>.\<close>

definition walked :: "string \<Rightarrow> string \<Rightarrow> nat \<Rightarrow> string list \<Rightarrow> walk \<Rightarrow> bool" where
  "walked pre delim m ks w \<longleftrightarrow>
     wk_selected w = ungrouped pre delim ks \<and> wk_prefixes w = remdups_adj (groups pre delim ks) \<and>
     wk_last_group w = (if groups pre delim ks = [] then None else Some (last (groups pre delim ks))) \<and>
     wk_consumed w = length ks \<and> wk_units w = length (wk_selected w) + length (wk_prefixes w) \<and>
     wk_units w \<le> m"

lemma remdups_adj_snoc:
  "remdups_adj (xs @ [x]) = (if xs \<noteq> [] \<and> last xs = x then remdups_adj xs else remdups_adj xs @ [x])"
  by (cases "xs = []") (auto simp: remdups_adj_append'')

lemma page_walk_walked:
  assumes "walked pre delim m done w"
  shows "\<exists>n \<le> length ks. walked pre delim m (done @ take n ks) (page_walk pre delim m ks w) \<and>
     (n < length ks \<longrightarrow> wk_units (page_walk pre delim m ks w) = m \<and>
        (\<forall>g. group_of pre delim (ks ! n) = Some g \<longrightarrow> wk_last_group (page_walk pre delim m ks w) \<noteq> Some g))"
  using assms
proof (induction ks arbitrary: "done" w)
  case Nil
  then show ?case by simp
next
  case (Cons k ks)
  note w = Cons.prems [unfolded walked_def]
  have step: ?case if "page_walk pre delim m (k # ks) w = page_walk pre delim m ks w'"
    "walked pre delim m (done @ [k]) w'" for w'
  proof -
    from Cons.IH [OF that(2)] obtain n where n: "n \<le> length ks"
      "walked pre delim m ((done @ [k]) @ take n ks) (page_walk pre delim m ks w')"
      "n < length ks \<longrightarrow> wk_units (page_walk pre delim m ks w') = m \<and>
        (\<forall>g. group_of pre delim (ks ! n) = Some g \<longrightarrow> wk_last_group (page_walk pre delim m ks w') \<noteq> Some g)"
      by blast
    show ?thesis unfolding that(1) by (rule exI [of _ "Suc n"]) (use n in simp)
  qed
  have halt: ?case if "page_walk pre delim m (k # ks) w = w" "wk_units w = m"
    "\<forall>g. group_of pre delim k = Some g \<longrightarrow> wk_last_group w \<noteq> Some g"
    unfolding that(1) by (rule exI [of _ 0]) (use that Cons.prems in simp)
  show ?case
  proof (cases "group_of pre delim k")
    case None
    show ?thesis
    proof (cases "wk_units w = m")
      case True
      then show ?thesis using None by (intro halt) simp_all
    next
      case False
      show ?thesis
        by (rule step [of "w\<lparr>wk_selected := wk_selected w @ [k], wk_units := wk_units w + 1,
              wk_consumed := wk_consumed w + 1\<rparr>"])
          (use None False w in \<open>auto simp: walked_def ungrouped_def\<close>)
    qed
  next
    case (Some g)
    consider "wk_last_group w = Some g" | "wk_last_group w \<noteq> Some g" "wk_units w = m"
      | "wk_last_group w \<noteq> Some g" "wk_units w \<noteq> m" by blast
    then show ?thesis
    proof cases
      case 1
      show ?thesis
        by (rule step [of "w\<lparr>wk_consumed := wk_consumed w + 1\<rparr>"])
          (use Some 1 w in \<open>auto simp: walked_def ungrouped_def remdups_adj_snoc split: if_splits\<close>)
    next
      case 2
      then show ?thesis using Some by (intro halt) simp_all
    next
      case 3
      show ?thesis
        by (rule step [of "w\<lparr>wk_prefixes := wk_prefixes w @ [g], wk_last_group := Some g,
              wk_units := wk_units w + 1, wk_consumed := wk_consumed w + 1\<rparr>"])
          (use Some 3 w in \<open>auto simp: walked_def ungrouped_def remdups_adj_snoc split: if_splits\<close>)
    qed
  qed
qed

lemma walk_start_walked: "walked pre delim m [] walk_start"
  by (simp add: walked_def walk_start_def ungrouped_def)

text \<open>On sorted keys a page takes whole groups, and it takes something.\<close>

lemma page_of_sorted:
  assumes "sorted ks" "list_all (prefix pre) ks" "0 < m" "w = page_walk pre delim m ks walk_start"
  shows "\<exists>n. wk_consumed w = n \<and> n \<le> length ks \<and> (ks \<noteq> [] \<longrightarrow> 0 < n) \<and>
     ungrouped pre delim ks = wk_selected w @ ungrouped pre delim (drop n ks) \<and>
     remdups_adj (groups pre delim ks) = wk_prefixes w @ remdups_adj (groups pre delim (drop n ks)) \<and>
     length (wk_selected w) + length (wk_prefixes w) \<le> m"
proof -
  from page_walk_walked [OF walk_start_walked [of pre delim m], of ks] obtain n where
    n: "n \<le> length ks" "walked pre delim m (take n ks) w"
      "n < length ks \<longrightarrow> wk_units w = m \<and> (\<forall>g. group_of pre delim (ks ! n) = Some g \<longrightarrow> wk_last_group w \<noteq> Some g)"
    by (auto simp: assms(4))
  note w = n(2) [unfolded walked_def]
  have pos: "0 < n" if "ks \<noteq> []"
  proof (rule ccontr)
    assume "\<not> 0 < n"
    with that n(1,3) w assms(3) show False by (simp add: ungrouped_def)
  qed
  have split: "take n ks @ drop n ks = ks" by simp
  have "groups pre delim (take n ks) = [] \<or> groups pre delim (drop n ks) = [] \<or>
      last (groups pre delim (take n ks)) \<noteq> hd (groups pre delim (drop n ks))"
  proof (rule ccontr)
    assume "\<not> ?thesis"
    then have ne: "groups pre delim (take n ks) \<noteq> []" "groups pre delim (drop n ks) \<noteq> []"
      and eq: "last (groups pre delim (take n ks)) = hd (groups pre delim (drop n ks))" by auto
    let ?g = "last (groups pre delim (take n ks))"
    from ne(2) have lt: "n < length ks" by (cases "n < length ks") auto
    have lg: "wk_last_group w = Some ?g" using w ne(1) by simp
    have "?g \<in> set (groups pre delim (take n ks))" using ne(1) by (rule last_in_set)
    moreover have "?g \<in> set (groups pre delim (drop n ks))" unfolding eq using ne(2) by (rule hd_in_set)
    ultimately obtain i j where ij: "i < n" "i < length ks" "j < length ks - n"
      "group_of pre delim (ks ! i) = Some ?g" "group_of pre delim (ks ! (n + j)) = Some ?g"
      by (auto simp: set_groups in_set_conv_nth)
    have "ks ! i \<le> ks ! n" "ks ! n \<le> ks ! (n + j)" using sorted_nth_mono [OF assms(1)] ij lt by simp_all
    then have "prefix ?g (ks ! n)"
      by (rule prefix_between [OF group_prefix [OF ij(4)] group_prefix [OF ij(5)]])
    moreover have "prefix pre (ks ! i)" using assms(2) ij(2) by (simp add: list_all_length)
    ultimately have "group_of pre delim (ks ! n) = Some ?g" using group_stable [OF ij(4)] by blast
    with n(3) lt lg show False by simp
  qed
  then have "remdups_adj (groups pre delim (take n ks @ drop n ks)) =
      wk_prefixes w @ remdups_adj (groups pre delim (drop n ks))"
    unfolding groups_simps using w by (simp add: remdups_adj_append')
  moreover have "ungrouped pre delim (take n ks @ drop n ks) = wk_selected w @ ungrouped pre delim (drop n ks)"
    using w by (simp del: append_take_drop_id)
  moreover have "wk_units w = length (wk_selected w) + length (wk_prefixes w)" "wk_units w \<le> m"
    using w by blast+
  ultimately show ?thesis using n(1) pos w by (auto simp: split)
qed

section \<open>Following the cursor\<close>

lemma sorted_drop_filter:
  fixes ks :: "string list"
  assumes "sorted_wrt (<) ks" "0 < n" "n \<le> length ks"
  shows "filter (\<lambda>k. ks ! (n - 1) < k) ks = drop n ks"
proof -
  obtain m where m: "n = Suc m" using assms(2) by (cases n) auto
  have ks: "ks = take m ks @ ks ! m # drop n ks" using assms(3) m by (simp add: id_take_nth_drop)
  have "sorted_wrt (<) (take m ks @ ks ! m # drop n ks)" using assms(1) ks by simp
  then have "filter (\<lambda>k. ks ! m < k) (take m ks) = []" "filter (\<lambda>k. ks ! m < k) (drop n ks) = drop n ks"
    by (auto simp: sorted_wrt_append filter_empty_conv filter_id_conv dest: less_asym)
  then have "filter (\<lambda>k. ks ! m < k) (take m ks @ ks ! m # drop n ks) = drop n ks" by simp
  with ks m show ?thesis by simp
qed

lemma selected_keys_props:
  assumes "distinct all"
  shows "sorted_wrt (<) (selected_keys pre after all)" "list_all (prefix pre) (selected_keys pre after all)"
    "set (selected_keys pre after all) =
       {k \<in> set all. prefix pre k \<and> (case after of None \<Rightarrow> True | Some a \<Rightarrow> a < k)}"
  using assms by (auto simp: selected_keys_def strict_sorted_iff list_all_iff)

lemma selected_keys_after:
  assumes "distinct all" "ks = selected_keys pre after all" "0 < n" "n \<le> length ks"
  shows "selected_keys pre (Some (ks ! (n - 1))) all = drop n ks"
proof -
  note S = selected_keys_props [OF assms(1), of pre]
  have "ks ! (n - 1) \<in> set ks" using assms(3,4) by simp
  then have "set (selected_keys pre (Some (ks ! (n - 1))) all) = set (filter (\<lambda>k. ks ! (n - 1) < k) ks)"
    using S(3) [of after] S(3) [of "Some (ks ! (n - 1))"] assms(2)
    by (auto split: option.splits dest: less_trans)
  also have "\<dots> = set (drop n ks)"
    using sorted_drop_filter [OF S(1) [of after, folded assms(2)] assms(3,4)] by simp
  finally have "set (selected_keys pre (Some (ks ! (n - 1))) all) = set (drop n ks)" .
  moreover have "sorted_wrt (<) (drop n ks)" unfolding assms(2) by (intro sorted_wrt_drop S(1))
  ultimately show ?thesis using S(1) by (intro strict_sorted_equal) auto
qed

text \<open>A client that collects the pages from one cursor on, with fuel for the number of pages.\<close>

fun page_through ::
  "nat \<Rightarrow> ext \<Rightarrow> engine \<Rightarrow> string \<Rightarrow> string \<Rightarrow> string \<Rightarrow> nat \<Rightarrow> string option \<Rightarrow> engine_error + object_page list" where
  "page_through 0 X e b pre delim m after = Inr []"
| "page_through (Suc fuel) X e b pre delim m after =
     try_then (list_objects X e b pre delim after m) (\<lambda>p.
       case pg_next_after p of
         None \<Rightarrow> Inr [p]
       | Some k \<Rightarrow> try_then (page_through fuel X e b pre delim m (Some k)) (\<lambda>ps. Inr (p # ps)))"

definition entry_for :: "ext \<Rightarrow> engine \<Rightarrow> string \<Rightarrow> string \<Rightarrow> object_entry option" where
  "entry_for X e b k =
     (case current_manifest X e b k of
        Inr (Some m) \<Rightarrow> Some \<lparr>oe_key = k, oe_size = size_bytes (original m), oe_object_id = object_id m,
                              oe_created_at = created_at m\<rparr>
      | _ \<Rightarrow> None)"

lemma page_entries_ok:
  "\<forall>k \<in> set ks. \<exists>m. current_manifest X e b k = Inr m \<Longrightarrow>
     page_entries X e b ks = Inr (List.map_filter (entry_for X e b) ks)"
proof (induction ks)
  case (Cons k ks)
  then obtain m where m: "current_manifest X e b k = Inr m" by auto
  with Cons show ?case by (cases m) (auto simp: entry_for_def List.map_filter_def)
qed (simp add: List.map_filter_def)

lemma map_filter_append: "List.map_filter f (xs @ ys) = List.map_filter f xs @ List.map_filter f ys"
  by (simp add: List.map_filter_def)

lemma length_map_filter: "length (List.map_filter f xs) \<le> length xs"
  by (simp add: List.map_filter_def)

lemma page_through_ok:
  assumes all: "keys X e b = Inr all" "distinct all" "\<forall>k \<in> set all. \<exists>m. current_manifest X e b k = Inr m"
    and m: "0 < m" and ks: "ks = selected_keys pre after all" and fuel: "length ks < fuel"
  shows "\<exists>ps. page_through fuel X e b pre delim m after = Inr ps \<and> ps \<noteq> [] \<and> pg_next_after (last ps) = None \<and>
     concat (map pg_entries ps) = List.map_filter (entry_for X e b) (ungrouped pre delim ks) \<and>
     concat (map pg_common_prefixes ps) = remdups_adj (groups pre delim ks) \<and>
     (\<forall>p \<in> set ps. length (pg_entries p) + length (pg_common_prefixes p) \<le> m)"
  using ks fuel
proof (induction fuel arbitrary: after ks)
  case (Suc fuel)
  note S = selected_keys_props [OF all(2), of pre after, folded Suc.prems(1)]
  let ?w = "page_walk pre delim m ks walk_start"
  from page_of_sorted [OF strict_sorted_imp_sorted [OF S(1)] S(2) m refl] obtain n where
    n: "wk_consumed ?w = n" "n \<le> length ks" "ks \<noteq> [] \<longrightarrow> 0 < n"
      "ungrouped pre delim ks = wk_selected ?w @ ungrouped pre delim (drop n ks)"
      "remdups_adj (groups pre delim ks) = wk_prefixes ?w @ remdups_adj (groups pre delim (drop n ks))"
      "length (wk_selected ?w) + length (wk_prefixes ?w) \<le> m" by blast
  have "set (wk_selected ?w) \<subseteq> set ks"
  proof -
    have "set (wk_selected ?w) \<subseteq> set (ungrouped pre delim ks)" using n(4) by simp
    then show ?thesis by (auto simp: ungrouped_def)
  qed
  then have ents: "page_entries X e b (wk_selected ?w) = Inr (List.map_filter (entry_for X e b) (wk_selected ?w))"
    using all(3) S(3) by (intro page_entries_ok) auto
  let ?nxt = "if n < length ks \<and> 0 < n then Some (ks ! (n - 1)) else None"
  let ?p = "\<lparr>pg_entries = List.map_filter (entry_for X e b) (wk_selected ?w),
             pg_common_prefixes = wk_prefixes ?w, pg_next_after = ?nxt\<rparr>"
  have page: "list_objects X e b pre delim after m = Inr ?p"
    using all(1) ents n(1) Suc.prems(1) by (simp add: list_objects_def keys_def Let_def)
  have small: "length (pg_entries ?p) + length (pg_common_prefixes ?p) \<le> m"
    using n(6) length_map_filter [of "entry_for X e b" "wk_selected ?w"] by simp
  show ?case
  proof (cases "n < length ks")
    case False
    then have "drop n ks = []" by simp
    then show ?thesis using False page small n(4,5) by (simp add: ungrouped_def)
  next
    case True
    then have pos: "0 < n" using n(3) by auto
    have rest: "drop n ks = selected_keys pre (Some (ks ! (n - 1))) all"
      using selected_keys_after [OF all(2) Suc.prems(1) pos n(2)] by simp
    have "length (drop n ks) < fuel" using Suc.prems(2) pos n(2) True by simp
    from Suc.IH [OF rest this] obtain ps where
      ps: "page_through fuel X e b pre delim m (Some (ks ! (n - 1))) = Inr ps" "ps \<noteq> []"
        "pg_next_after (last ps) = None"
        "concat (map pg_entries ps) = List.map_filter (entry_for X e b) (ungrouped pre delim (drop n ks))"
        "concat (map pg_common_prefixes ps) = remdups_adj (groups pre delim (drop n ks))"
        "\<forall>p \<in> set ps. length (pg_entries p) + length (pg_common_prefixes p) \<le> m" by blast
    have "page_through (Suc fuel) X e b pre delim m after = Inr (?p # ps)"
      using page ps(1) True pos by simp
    then show ?thesis using ps(2-6) n(4,5) small by (simp add: map_filter_append)
  qed
qed simp

end
