(* ===== verification/Listing_Props.thy ===== *)
theory Listing_Props
  imports Listing Demo_Engine
begin

text \<open>Paging through a pot: every key and every common prefix, once each.\<close>

lemma current_manifest_eq:
  assumes ok: "store_ok X B M (disk e)" and new: "newest_present X (disk e)"
    and v: "valid_bucket b" "valid_key k"
  shows "\<exists>m. current_manifest X e b k = Inr m \<and> (m = None \<longleftrightarrow> log_at X (disk e) b k = [])"
proof (cases "log_at X (disk e) b k = []")
  case True
  then show ?thesis using eng_current_eq [OF ok v] by (simp add: current_manifest_def)
next
  case False
  with new v obtain m where "manifest_get X (disk e) (last (log_at X (disk e) b k)) = Inr (Some m)"
    unfolding newest_present_def by blast
  then show ?thesis using False eng_current_eq [OF ok v]
    by (simp add: current_manifest_def fetch_manifest_def)
qed

lemma keys_of_entries:
  "map oe_key (List.map_filter (entry_for X e b) ks) = filter (\<lambda>k. entry_for X e b k \<noteq> None) ks"
  by (induction ks)
    (auto simp: List.map_filter_def entry_for_def split: sum.splits option.splits)

lemma sorted_set_eq: "sorted_wrt (<) xs \<Longrightarrow> set xs = A \<Longrightarrow> sorted_list_of_set A = xs" for xs :: "string list"
  by (metis sorted_list_of_set.idem_if_sorted_distinct strict_sorted_iff)

text \<open>
  C16: a client that pages through a pot by feeding \<open>next_after\<close> back gets, for every positive page
  size, each current key outside the common prefixes exactly once and in byte order, each common
  prefix exactly once and in byte order, never more than the page size at a time, and the last page
  says that it is the last.
\<close>

theorem listing_pages_cover:
  assumes ok: "store_ok X B M (disk e)" and new: "newest_present X (disk e)"
    and b: "valid_bucket b" and m: "0 < m" and ks: "keys X e b = Inr ks"
  shows "\<exists>ps. page_through (Suc (length ks)) X e b pre delim m None = Inr ps \<and>
     map oe_key (concat (map pg_entries ps)) = sorted_list_of_set {k \<in> set ks. prefix pre k \<and>
        group_of pre delim k = None \<and> log_at X (disk e) b k \<noteq> []} \<and>
     concat (map pg_common_prefixes ps) =
        sorted_list_of_set {g. \<exists>k \<in> set ks. prefix pre k \<and> group_of pre delim k = Some g} \<and>
     (\<forall>p \<in> set ps. length (pg_entries p) + length (pg_common_prefixes p) \<le> m) \<and>
     pg_next_after (last ps) = None"
proof -
  from pointer_list_ok [OF store_okD(3) [OF ok] b] ks have dist: "distinct ks" and
    valid: "\<forall>k \<in> set ks. valid_key k" by (auto simp: keys_def)
  let ?ks = "selected_keys pre None ks"
  note S = selected_keys_props [OF dist, of pre None]
  have cur: "\<forall>k \<in> set ks. \<exists>x. current_manifest X e b k = Inr x"
    using current_manifest_eq [OF ok new b] valid by blast
  have "length ?ks \<le> length ks" by (simp add: selected_keys_def)
  then have "length ?ks < Suc (length ks)" by simp
  from page_through_ok [OF ks dist cur m refl this, of delim] obtain ps where
    ps: "page_through (Suc (length ks)) X e b pre delim m None = Inr ps" "pg_next_after (last ps) = None"
      "concat (map pg_entries ps) = List.map_filter (entry_for X e b) (ungrouped pre delim ?ks)"
      "concat (map pg_common_prefixes ps) = remdups_adj (groups pre delim ?ks)"
      "\<forall>p \<in> set ps. length (pg_entries p) + length (pg_common_prefixes p) \<le> m" by blast
  have entry: "entry_for X e b k \<noteq> None \<longleftrightarrow> log_at X (disk e) b k \<noteq> []" if "k \<in> set ks" for k
    using current_manifest_eq [OF ok new b, of k] valid that by (auto simp: entry_for_def split: option.splits)
  have "map oe_key (concat (map pg_entries ps)) = sorted_list_of_set {k \<in> set ks. prefix pre k \<and>
      group_of pre delim k = None \<and> log_at X (disk e) b k \<noteq> []}"
    unfolding ps(3) keys_of_entries
    by (rule sorted_set_eq [symmetric])
      (use S(1,3) entry in \<open>auto simp: ungrouped_def sorted_wrt_filter\<close>)
  moreover have srt: "sorted (groups pre delim ?ks)"
    using sorted_groups [OF strict_sorted_imp_sorted [OF S(1)] S(2)] .
  have "concat (map pg_common_prefixes ps) =
      sorted_list_of_set {g. \<exists>k \<in> set ks. prefix pre k \<and> group_of pre delim k = Some g}"
    unfolding ps(4)
    by (rule sorted_set_eq [symmetric])
      (use S(3) in \<open>auto simp: set_groups strict_sorted_iff distinct_remdups_adj_sorted [OF srt]
         sorted_remdups_adj [OF srt]\<close>)
  ultimately show ?thesis using ps(1,2,5) by blast
qed

theorem listing_pages_cover_witness:
  "\<exists>e ks ps. keys demo e ''b'' = Inr ks \<and> page_through (Suc (length ks)) demo e ''b'' [] ''/'' 1 None = Inr ps \<and>
     map oe_key (concat (map pg_entries ps)) = [''k'']"
proof -
  obtain i d where d: "store_ok demo small_bufs demo_bodies d"
    "\<forall>c j. log_at demo d c j = (if c = ''b'' \<and> j = ''k'' then [i, i] else [])"
    "\<exists>m. manifest_get demo d i = Inr (Some m)" "meta_config demo d ''b'' = Inr keep_one"
    "\<forall>c. fs_lookup d [pointer_dir, c] = Some Dir \<longrightarrow> c = ''b''"
    by (rule demo_two_versions) (rule that)
  let ?e = "demo_on d"
  have ok: "store_ok demo small_bufs demo_bodies (disk ?e)" using d(1) by simp
  have new: "newest_present demo (disk ?e)" using d(2,3) by (simp add: newest_present_def)
  from pointer_list_ok [OF store_okD(3) [OF d(1)], of "''b''"] obtain ks where
    ks: "keys demo ?e ''b'' = Inr ks" "set ks = {k. valid_key k \<and> contents d (pointer_file demo ''b'' k) \<noteq> None}"
    by (auto simp: keys_def)
  have "''k'' \<in> set ks" using ks(2) log_at_None [of demo d "''b''" "''k''"] d(2) by simp
  then have here: "{k \<in> set ks. prefix [] k \<and> group_of [] ''/'' k = None \<and> log_at demo (disk ?e) ''b'' k \<noteq> []} = {''k''}"
    using d(2) by (auto simp: group_of_def)
  have "valid_bucket ''b''" "(0::nat) < 1" by simp_all
  from listing_pages_cover [OF ok new this ks(1), of "[]" "''/''"] obtain ps where
    ps: "page_through (Suc (length ks)) demo ?e ''b'' [] ''/'' 1 None = Inr ps"
      "map oe_key (concat (map pg_entries ps)) = sorted_list_of_set {k \<in> set ks. prefix [] k \<and>
        group_of [] ''/'' k = None \<and> log_at demo (disk ?e) ''b'' k \<noteq> []}" by blast
  from ps(2) have "map oe_key (concat (map pg_entries ps)) = [''k'']" unfolding here by simp
  with ks(1) ps(1) show ?thesis by (intro exI conjI)
qed

end
