(* ===== verification/Recovery.thy ===== *)
theory Recovery
  imports Engine_Laws
begin

text \<open>
  Opening a data directory (\<open>barme-store/src/lib.rs\<close> and the constructors of the substores and of
  the engine): the format stamp with its version check, the sweep of temporary files that a killed
  \<open>write_atomic\<close> left behind, and the substores' directories. The lemmas show that the sweep
  removes exactly the temporary files, and that a crash at any point of a durable write followed by
  an open leaves the old file or the new one.
\<close>

section \<open>The format stamp\<close>

definition FORMAT_VERSION :: nat where "FORMAT_VERSION = 1"

definition write_stamp :: "ext \<Rightarrow> nat \<Rightarrow> fs \<Rightarrow> (store_error + unit) \<times> fs" where
  "write_stamp X v d = io_step (write_atomic [FORMAT_FILE] (stamp_to_json X v) d)"

definition open_format :: "ext \<Rightarrow> fs \<Rightarrow> (store_error + nat) \<times> fs" where
  "open_format X d =
     (case fs_read d [FORMAT_FILE] of
        Inr bytes \<Rightarrow>
          (case stamp_of_json X bytes of
             None \<Rightarrow> (Inl Serde, d)
           | Some found \<Rightarrow>
               if FORMAT_VERSION < found then (Inl (UnsupportedFormat found FORMAT_VERSION), d)
               else if found < FORMAT_VERSION then
                 and_then (write_stamp X FORMAT_VERSION d) (\<lambda>_ d. (Inr FORMAT_VERSION, d))
               else (Inr FORMAT_VERSION, d))
      | Inl e \<Rightarrow>
          if e = NotFound then
            (case create_dir_all d [] of
               Inl e \<Rightarrow> (Inl (Io e), d)
             | Inr d1 \<Rightarrow> and_then (write_stamp X FORMAT_VERSION d1) (\<lambda>_ d. (Inr FORMAT_VERSION, d)))
          else (Inl (Io e), d))"

section \<open>Reaping temporary files\<close>

text \<open>
  \<open>sweep_temp\<close>: the recursive walk, with the entries of a directory as its inner loop. The fuel is
  the depth of the tree; \<open>sweep_temp_exact\<close> shows that it is enough.
\<close>

fun sweep_entries ::
  "(path \<Rightarrow> nat \<Rightarrow> fs \<Rightarrow> (io_error + nat) \<times> fs) \<Rightarrow> path \<Rightarrow> (string \<times> bool) list \<Rightarrow> nat \<Rightarrow> fs \<Rightarrow> (io_error + nat) \<times> fs" where
  "sweep_entries walk_dir dir [] n d = (Inr n, d)"
| "sweep_entries walk_dir dir ((name, is_dir) # es) n d =
     (if is_dir then and_then (walk_dir (dir @ [name]) n d) (\<lambda>n d. sweep_entries walk_dir dir es n d)
      else if prefix TMP_PREFIX (utf8_lossy name) then
        (case remove_file d (dir @ [name]) of
           Inl e \<Rightarrow> (Inl e, d)
         | Inr d' \<Rightarrow> sweep_entries walk_dir dir es (n + 1) d')
      else sweep_entries walk_dir dir es n d)"

fun sweep_walk :: "nat \<Rightarrow> path \<Rightarrow> nat \<Rightarrow> fs \<Rightarrow> (io_error + nat) \<times> fs" where
  "sweep_walk 0 dir n d = (Inr n, d)"
| "sweep_walk (Suc fuel) dir n d =
     (case read_dir_opt d dir of
        Inl e \<Rightarrow> (Inl e, d)
      | Inr es \<Rightarrow> sweep_entries (sweep_walk fuel) dir es n d)"

definition tree_depth :: "fs \<Rightarrow> nat" where
  "tree_depth d = fold max (map (\<lambda>(p, n). length p) d) 0"

definition sweep_temp :: "fs \<Rightarrow> (store_error + nat) \<times> fs" where
  "sweep_temp d = io_step (sweep_walk (Suc (tree_depth d)) [] 0 d)"

section \<open>Opening the store and the engine\<close>

text \<open>What \<open>Store\<close> remembers of its opening beside the substores, which are the disk.\<close>

record opened =
  format_version :: nat
  recovered_temp :: nat

fun open_dirs :: "string list \<Rightarrow> fs \<Rightarrow> (store_error + unit) \<times> fs" where
  "open_dirs [] d = (Inr (), d)"
| "open_dirs (t # ts) d =
     (case create_dir_all d [t] of Inl e \<Rightarrow> (Inl (Io e), d) | Inr d' \<Rightarrow> open_dirs ts d')"

definition open_keys ::
  "ext \<Rightarrow> bytes option \<Rightarrow> (string \<Rightarrow> bytes option) \<Rightarrow> fs \<Rightarrow> (store_error + unit) \<times> fs" where
  "open_keys X master rng d =
     and_then (open_dirs [key_dir] d) (\<lambda>_ d.
       if master = None then (Inr (), d) else migrate_plaintext X master rng d)"

definition open_store ::
  "ext \<Rightarrow> bytes option \<Rightarrow> (string \<Rightarrow> bytes option) \<Rightarrow> fs \<Rightarrow> (store_error + opened) \<times> fs" where
  "open_store X master rng d =
     and_then (open_format X d) (\<lambda>v d.
     and_then (sweep_temp d) (\<lambda>n d.
     and_then (open_keys X master rng d) (\<lambda>_ d.
     and_then (open_dirs [chunk_dir, manifest_dir, pointer_dir, meta_dir, annotation_dir, reverse_dir, webhook_dir] d)
       (\<lambda>_ d. (Inr \<lparr>format_version = v, recovered_temp = n\<rparr>, d)))))"

definition open_engine ::
  "ext \<Rightarrow> policy \<Rightarrow> bytes option \<Rightarrow> (string \<Rightarrow> bytes option) \<Rightarrow> fs \<Rightarrow> (store_error + engine \<times> opened) \<times> fs" where
  "open_engine X pol master rng d =
     and_then (open_store X master rng d) (\<lambda>s d.
       (Inr (\<lparr>disk = d, pinned = [], cipher = master, eng_policy = pol, write_hook = False, events = [],
              multipart = [], mp_counter = 0, gc_sweeps = 0, gc_condemned_total = 0, gc_erased_total = 0,
              gc_last_live = 0\<rparr>, s), d))"

definition set_write_hook :: "engine \<Rightarrow> engine" where
  "set_write_hook e = e\<lparr>write_hook := True\<rparr>"

record gc_stats_report =
  gs_sweeps :: u64
  gs_condemned_total :: u64
  gs_erased_total :: u64
  gs_last_live :: u64

definition gc_stats :: "engine \<Rightarrow> gc_stats_report" where
  "gc_stats e =
     \<lparr>gs_sweeps = gc_sweeps e, gs_condemned_total = gc_condemned_total e,
      gs_erased_total = gc_erased_total e, gs_last_live = gc_last_live e\<rparr>"

section \<open>The sweep removes exactly the temporary files\<close>

definition sane :: "fs \<Rightarrow> bool" where
  "sane d \<longleftrightarrow> fs_ok d \<and> (\<forall>p n. fs_lookup d p = Some n \<longrightarrow> name_error p = None)"

definition is_temp :: "fs \<Rightarrow> path \<Rightarrow> bool" where
  "is_temp d p \<longleftrightarrow> is_file_at d p \<and> prefix TMP_PREFIX (utf8_lossy (last p))"

definition temps :: "fs \<Rightarrow> path set \<Rightarrow> path set" where
  "temps d P = {p \<in> P. is_temp d p}"

definition below :: "path \<Rightarrow> path set" where
  "below p = {q. prefix p q}"

definition swept_of :: "path set \<Rightarrow> fs \<Rightarrow> fs \<Rightarrow> bool" where
  "swept_of P d d' \<longleftrightarrow>
     sane d' \<and> (\<forall>q. fs_lookup d' q = (if q \<in> temps d P then None else fs_lookup d q))"

lemma finite_temps: "finite (temps d P)"
proof (rule finite_subset)
  show "temps d P \<subseteq> fst ` set d"
    by (force simp: temps_def is_temp_def is_file_at_def fs_lookup_def split: option.splits if_splits dest: map_of_SomeD)
qed simp

lemma temps_swept:
  "swept_of P d d' \<Longrightarrow> temps d' Q = temps d Q - temps d P"
  by (auto simp: swept_of_def temps_def is_temp_def is_file_at_def)

lemma swept_trans:
  assumes "swept_of P d d1" "swept_of Q d1 d2"
  shows "swept_of (P \<union> Q) d d2"
  using assms temps_swept [OF assms(1), of Q] by (auto simp: swept_of_def temps_def)

lemma sane_resolve:
  assumes "sane d" "fs_lookup d p = Some n"
  shows "resolve d p = Inr n"
proof (cases "p = []")
  case True
  then show ?thesis using assms(2) by (simp add: resolve_def name_error_def)
next
  case False
  then have "plain p" using fs_ok_parent(1) [OF _ _ assms(2)] assms(1) by (simp add: sane_def)
  with assms show ?thesis by (simp add: resolve_plain sane_def)
qed

lemma sane_remove:
  assumes "sane d" "is_temp d p"
  shows "\<exists>d'. remove_file d p = Inr d' \<and> swept_of {p} d d'"
proof -
  from assms(2) obtain b where b: "fs_lookup d p = Some (File b)"
    by (auto simp: is_temp_def is_file_at_def split: option.splits fs_node.splits)
  then have p: "p \<noteq> []" by auto
  have "remove_file d p = Inr (AList.delete p d)"
    using sane_resolve [OF assms(1) b] by (simp add: remove_file_def)
  moreover have "swept_of {p} d (AList.delete p d)"
    using assms p fs_ok_delete_file [OF _ b] by (auto simp: swept_of_def sane_def temps_def)
  ultimately show ?thesis by blast
qed

lemma swept_nothing: "sane d \<Longrightarrow> temps d P = {} \<Longrightarrow> swept_of P d d"
  by (simp add: swept_of_def)

lemma temps_Un: "temps d (P \<union> Q) = temps d P \<union> temps d Q"
  by (auto simp: temps_def)

lemma temps_file:
  assumes "sane d" "fs_lookup d p = Some (File b)"
  shows "temps d (below p) = (if is_temp d p then {p} else {})"
proof -
  have "q = p" if q: "prefix p q" "is_temp d q" for q
  proof (rule ccontr)
    assume "q \<noteq> p"
    then have "strict_prefix p q" using q(1) by (simp add: strict_prefix_def)
    moreover obtain n where "fs_lookup d q = Some n"
      using q(2) by (auto simp: is_temp_def is_file_at_def split: option.splits)
    ultimately have "fs_lookup d p = Some Dir" using fs_ok_above assms(1) by (auto simp: sane_def)
    with assms(2) show False by simp
  qed
  then show ?thesis by (auto simp: temps_def below_def)
qed

text \<open>What one call of the walk does: it sweeps a set of paths and counts what it removed.\<close>

definition sweeps :: "path set \<Rightarrow> nat \<Rightarrow> fs \<Rightarrow> (io_error + nat) \<times> fs \<Rightarrow> bool" where
  "sweeps P n d r \<longleftrightarrow> (\<exists>d'. r = (Inr (n + card (temps d P)), d') \<and> swept_of P d d')"

lemma sweeps_step:
  assumes "sweeps P n d (Inr m, d1)" "sweeps Q m d1 r" "P \<inter> Q = {}"
  shows "sweeps (P \<union> Q) n d r"
proof -
  from assms(1) have 1: "m = n + card (temps d P)" "swept_of P d d1" by (auto simp: sweeps_def)
  have "temps d P \<inter> temps d Q = {}" using assms(3) by (auto simp: temps_def)
  moreover have "temps d1 Q = temps d Q" using temps_swept [OF 1(2), of Q] calculation by auto
  ultimately have "card (temps d (P \<union> Q)) = card (temps d P) + card (temps d1 Q)"
    by (simp add: temps_Un card_Un_disjoint finite_temps)
  then show ?thesis using assms(2) 1 swept_trans [OF 1(2)] by (auto simp: sweeps_def)
qed

definition reaches :: "fs \<Rightarrow> path \<Rightarrow> nat \<Rightarrow> bool" where
  "reaches d dir fuel \<longleftrightarrow> (\<forall>q n. fs_lookup d q = Some n \<longrightarrow> prefix dir q \<longrightarrow> length q \<le> length dir + fuel)"

lemma reaches_swept: "reaches d dir fuel \<Longrightarrow> swept_of P d d' \<Longrightarrow> reaches d' dir fuel"
  by (auto simp: reaches_def swept_of_def split: if_splits)

lemma below_disjoint: "x \<noteq> y \<Longrightarrow> below (dir @ [x]) \<inter> below (dir @ [y]) = {}"
  by (auto simp: below_def prefix_def)

lemma sweep_entries_ok:
  assumes "\<And>x n d. sane d \<Longrightarrow> reaches d dir (Suc fuel) \<Longrightarrow> fs_lookup d (dir @ [x]) = Some Dir \<Longrightarrow>
      sweeps (below (dir @ [x])) n d (walk_dir (dir @ [x]) n d)"
    and "sane d" "reaches d dir (Suc fuel)" "distinct (map fst es)"
    and "\<forall>(x, k) \<in> set es. \<exists>m. fs_lookup d (dir @ [x]) = Some m \<and> k = (m = Dir)"
  shows "sweeps (\<Union>x \<in> fst ` set es. below (dir @ [x])) n d (sweep_entries walk_dir dir es n d)"
  using assms(2-5)
proof (induction es arbitrary: n d)
  case Nil
  then show ?case by (simp add: sweeps_def swept_of_def temps_def)
next
  case (Cons e es)
  obtain x k where e: "e = (x, k)" by force
  from Cons.prems(4) e obtain m where m: "fs_lookup d (dir @ [x]) = Some m" "k = (m = Dir)" by auto
  let ?P = "below (dir @ [x])" and ?Q = "\<Union>x \<in> fst ` set es. below (dir @ [x])"
  have disj: "?P \<inter> ?Q = {}"
  proof -
    have "x \<notin> fst ` set es" using Cons.prems(3) e by auto
    then show ?thesis using below_disjoint [of x _ dir] by blast
  qed
  have sets: "(\<Union>x \<in> fst ` set (e # es). below (dir @ [x])) = ?P \<union> ?Q" using e by simp
  have go: "sweeps (?P \<union> ?Q) n d (sweep_entries walk_dir dir es n1 d1)"
    if s: "sweeps ?P n d (Inr n1, d1)" for n1 d1
  proof -
    from s have w: "swept_of ?P d d1" by (auto simp: sweeps_def)
    have "\<exists>m. fs_lookup d1 (dir @ [y]) = Some m \<and> j = (m = Dir)" if "(y, j) \<in> set es" for y j
    proof -
      have "y \<noteq> x" using that Cons.prems(3) e by force
      then have "dir @ [y] \<notin> temps d ?P" by (auto simp: temps_def below_def prefix_def)
      then have "fs_lookup d1 (dir @ [y]) = fs_lookup d (dir @ [y])" using w by (simp add: swept_of_def)
      moreover have "(y, j) \<in> set (e # es)" using that by simp
      ultimately show ?thesis using Cons.prems(4) by fastforce
    qed
    then have ents: "\<forall>(y, j) \<in> set es. \<exists>m. fs_lookup d1 (dir @ [y]) = Some m \<and> j = (m = Dir)" by blast
    have sd: "sane d1" using w by (simp add: swept_of_def)
    have dst: "distinct (map fst es)" using Cons.prems(3) by simp
    have "sweeps ?Q n1 d1 (sweep_entries walk_dir dir es n1 d1)"
      by (rule Cons.IH [OF sd reaches_swept [OF Cons.prems(2) w] dst ents])
    from sweeps_step [OF s this disj] show ?thesis .
  qed
  show ?case
  proof (cases m)
    case Dir
    with assms(1) [OF Cons.prems(1,2)] m(1) have "sweeps ?P n d (walk_dir (dir @ [x]) n d)" by simp
    then show ?thesis using go m(2) Dir unfolding sets by (auto simp: e sweeps_def)
  next
    case (File b)
    note t = temps_file [OF Cons.prems(1) m(1) [unfolded File]]
    show ?thesis
    proof (cases "is_temp d (dir @ [x])")
      case True
      from sane_remove [OF Cons.prems(1) True] obtain d1 where
        d1: "remove_file d (dir @ [x]) = Inr d1" "swept_of {dir @ [x]} d d1" by blast
      have "sweeps ?P n d (Inr (n + 1), d1)"
        using d1(2) t True by (auto simp: sweeps_def swept_of_def temps_def)
      from go [OF this] show ?thesis
        unfolding sets using d1(1) True m(2) File by (simp add: e is_temp_def)
    next
      case False
      have "sweeps ?P n d (Inr n, d)"
        using t False swept_nothing [OF Cons.prems(1)] by (simp add: sweeps_def)
      from go [OF this] show ?thesis
        unfolding sets using False m File by (simp add: e is_temp_def is_file_at_def)
    qed
  qed
qed

lemma sweeps_cong: "temps d P = temps d Q \<Longrightarrow> sweeps P n d r \<longleftrightarrow> sweeps Q n d r"
  by (simp add: sweeps_def swept_of_def)

lemma sweep_walk_ok:
  "sane d \<Longrightarrow> reaches d dir fuel \<Longrightarrow> fs_lookup d dir = Some Dir \<Longrightarrow>
     sweeps (below dir) n d (sweep_walk fuel dir n d)"
proof (induction fuel arbitrary: dir n d)
  case 0
  have "\<not> is_temp d q" if "prefix dir q" for q
  proof
    assume "is_temp d q"
    then obtain b where b: "fs_lookup d q = Some (File b)"
      by (auto simp: is_temp_def is_file_at_def split: option.splits fs_node.splits)
    with 0(2) that have "length q \<le> length dir" by (simp add: reaches_def)
    with that have "q = dir" by (auto simp: prefix_def)
    with b 0(3) show False by simp
  qed
  then have "temps d (below dir) = {}" by (auto simp: temps_def below_def)
  then show ?case using swept_nothing [OF 0(1)] by (simp add: sweeps_def)
next
  case (Suc fuel)
  let ?es = "entries_of d dir"
  have ok: "fs_ok d" using Suc.prems(1) by (simp add: sane_def)
  have "read_dir_opt d dir = Inr ?es"
  proof -
    have "\<not> (dir \<noteq> [] \<and> last dir = [])"
      using fs_ok_parent(1) [OF ok _ Suc.prems(3)] by (auto simp: plain_def)
    then show ?thesis using sane_resolve [OF Suc.prems(1,3)] by (auto simp: read_dir_opt_def fs_read_dir_def)
  qed
  then have run: "sweep_walk (Suc fuel) dir n d = sweep_entries (sweep_walk fuel) dir ?es n d" by simp
  have ents: "\<forall>(x, k) \<in> set ?es. \<exists>m. fs_lookup d (dir @ [x]) = Some m \<and> k = (m = Dir)"
    using entries_of_names [OF ok] entries_of_iff [OF ok] by blast
  have IH: "sweeps (below (dir @ [x])) n d (sweep_walk fuel (dir @ [x]) n d)"
    if "sane d" "reaches d dir (Suc fuel)" "fs_lookup d (dir @ [x]) = Some Dir" for x n d
    using that by (intro Suc.IH) (auto simp: reaches_def dest: append_prefixD)
  have "temps d (\<Union>x \<in> fst ` set ?es. below (dir @ [x])) = temps d (below dir)"
  proof (intro set_eqI iffI)
    fix q
    assume "q \<in> temps d (below dir)"
    then have q: "prefix dir q" "is_temp d q" by (auto simp: temps_def below_def)
    then obtain b where b: "fs_lookup d q = Some (File b)"
      by (auto simp: is_temp_def is_file_at_def split: option.splits fs_node.splits)
    with Suc.prems(3) q(1) obtain x r where r: "q = (dir @ [x]) @ r"
      by (metis append.assoc append_Cons append_Nil append_Nil2 fs_node.distinct(1) list.exhaust option.inject prefix_def)
    have "\<exists>m. fs_lookup d (dir @ [x]) = Some m"
    proof (cases "r = []")
      case False
      then have "strict_prefix (dir @ [x]) q" using r by (simp add: strict_prefix_def)
      then show ?thesis using fs_ok_above [OF ok b] by simp
    qed (use r b in simp)
    then obtain m where m: "fs_lookup d (dir @ [x]) = Some m" by blast
    then have "x \<noteq> []" using fs_ok_parent(1) [OF ok _ m] by simp
    with m have "(x, m = Dir) \<in> set ?es" using entries_of_iff [OF ok] by auto
    then have "x \<in> fst ` set ?es" by force
    moreover have "q \<in> below (dir @ [x])" using r by (simp add: below_def)
    ultimately have "q \<in> (\<Union>x \<in> fst ` set ?es. below (dir @ [x]))" by (rule UN_I)
    then show "q \<in> temps d (\<Union>x \<in> fst ` set ?es. below (dir @ [x]))" using q(2) by (simp add: temps_def)
  next
    fix q
    assume "q \<in> temps d (\<Union>x \<in> fst ` set ?es. below (dir @ [x]))"
    then obtain x where "prefix (dir @ [x]) q" "is_temp d q" unfolding temps_def below_def by blast
    then show "q \<in> temps d (below dir)" by (auto simp: temps_def below_def dest: append_prefixD)
  qed
  from sweeps_cong [OF this] sweep_entries_ok [OF IH Suc.prems(1,2) entries_of_distinct [OF ok] ents]
  show ?case unfolding run by blast
qed

lemma tree_depth_ge: "fs_lookup d p = Some n \<Longrightarrow> length p \<le> tree_depth d"
proof -
  assume "fs_lookup d p = Some n"
  then have "p = [] \<or> (p, n) \<in> set d" by (auto simp: fs_lookup_def split: if_splits dest: map_of_SomeD)
  moreover have "length p \<le> Max (set (0 # map (\<lambda>(p, n). length p) d))" if "(p, n) \<in> set d"
    using that by (intro Max_ge) force+
  moreover have "tree_depth d = Max (set (0 # map (\<lambda>(p, n). length p) d))"
    unfolding tree_depth_def by (simp only: Max.set_eq_fold)
  ultimately show ?thesis by auto
qed

lemma sweep_temp_exact:
  assumes "sane d"
  shows "\<exists>d'. sweep_temp d = (Inr (card {p. is_temp d p}), d') \<and> sane d' \<and>
     (\<forall>q. fs_lookup d' q = (if is_temp d q then None else fs_lookup d q))"
proof -
  have "reaches d [] (Suc (tree_depth d))"
    using tree_depth_ge by (fastforce simp: reaches_def)
  from sweep_walk_ok [OF assms this, of 0] obtain d' where
    d': "sweep_walk (Suc (tree_depth d)) [] 0 d = (Inr (card (temps d (below []))), d')" "swept_of (below []) d d'"
    by (auto simp: sweeps_def simp del: sweep_walk.simps)
  moreover have "temps d (below []) = {p. is_temp d p}" by (simp add: temps_def below_def)
  ultimately show ?thesis by (simp add: sweep_temp_def swept_of_def del: sweep_walk.simps)
qed

section \<open>A crash inside a durable write\<close>

lemma disk_ok_sane: "disk_ok d \<Longrightarrow> sane d"
proof -
  assume ok: "disk_ok d"
  have "name_error p = None" if "fs_lookup d p = Some n" for p n
  proof (cases "p = []")
    case False
    then show ?thesis using ok that fs_ok_lookup [of d p n] by (auto simp: disk_ok_def layout_def)
  qed (simp add: name_error_def)
  with ok show ?thesis by (simp add: sane_def disk_ok_def)
qed

lemma disk_ok_same_lookups:
  assumes "fs_ok d'" "disk_ok d" "\<And>q. fs_lookup d' q = fs_lookup d q"
  shows "disk_ok d'"
proof -
  have "layout d'"
    unfolding layout_def
  proof
    fix e assume e: "e \<in> set d'"
    obtain q n where q: "e = (q, n)" by force
    then have "q \<noteq> []" using e fs_ok_no_root [OF assms(1)] by force
    then have "(q, n) \<in> set d"
      using e q assms fs_ok_lookup [of d' q n] fs_ok_lookup [of d q n] by (simp add: disk_ok_def)
    then show "case e of (q, n) \<Rightarrow> name_error q = None \<and> (governed q \<longrightarrow> shape q = Some (n = Dir))"
      using assms(2) q by (auto simp: disk_ok_def layout_def)
  qed
  with assms(1) show ?thesis by (simp add: disk_ok_def)
qed

lemma take_parents: "k \<le> length p \<Longrightarrow> take k (parents p) = parents (take k p)"
  by (auto simp: parents_def take_map min_def intro!: map_cong)

lemma disk_ok_dirs:
  assumes ok: "disk_ok d" and p: "good p" and k: "k \<le> length p"
  shows "disk_ok (add_dirs (take k (parents p)) d)"
    "fs_lookup (add_dirs (take k (parents p)) d) q =
       (if fs_lookup d q = None \<and> strict_prefix q (take k p) then Some Dir else fs_lookup d q)"
proof -
  have pre: "prefix (take k p) p" by (simp add: take_is_prefix)
  have sh: "shape p = Some False" "name_error p = None" "[] \<notin> set p" using p by (simp_all add: good_def)
  have "\<not> file_above d (take k p)"
    using disk_ok_not_above [OF ok sh(1)] pre prefix_order.less_le_trans unfolding file_above_iff by blast
  moreover have "[] \<notin> set (butlast (take k p))"
    using sh(3) by (auto dest!: in_set_butlastD in_set_takeD)
  ultimately have "fs_ok (add_dirs (parents (take k p)) d)"
    using fs_ok_add_dirs ok by (simp add: disk_ok_def)
  moreover have "layout (add_dirs (parents (take k p)) d)"
  proof (rule layout_add_dirs)
    fix q assume "q \<in> set (parents (take k p))" "q \<noteq> []"
    then have q: "strict_prefix q p" "q \<noteq> []" using pre prefix_order.less_le_trans by (auto simp: set_parents)
    then show "name_error q = None \<and> (governed q \<longrightarrow> shape q = Some True)"
      using name_error_prefix [OF sh(2)] shape_above [OF sh(1)] by auto
  qed (use ok in \<open>simp add: disk_ok_def\<close>)
  ultimately show "disk_ok (add_dirs (take k (parents p)) d)" by (simp add: disk_ok_def take_parents k)
  show "fs_lookup (add_dirs (take k (parents p)) d) q =
       (if fs_lookup d q = None \<and> strict_prefix q (take k p) then Some Dir else fs_lookup d q)"
    by (simp add: take_parents k fs_lookup_add_dirs set_parents)
qed

text \<open>A sweep that has nothing, or just one stray file, to remove.\<close>

lemma sweep_clean:
  assumes "disk_ok d" "\<forall>q. \<not> is_temp d q"
  shows "\<exists>d'. sweep_temp d = (Inr 0, d') \<and> disk_ok d' \<and> contents d' = contents d \<and>
     (\<forall>q. fs_lookup d' q = fs_lookup d q)"
proof -
  from sweep_temp_exact [OF disk_ok_sane [OF assms(1)]] assms(2) obtain d' where
    d': "sweep_temp d = (Inr 0, d')" "sane d'" "\<forall>q. fs_lookup d' q = fs_lookup d q" by auto
  then have "disk_ok d'" using disk_ok_same_lookups [OF _ assms(1)] by (simp add: sane_def)
  with d' show ?thesis by (auto simp: contents_def)
qed

lemma sweep_stray:
  assumes ok: "disk_ok d" and none: "\<forall>q. \<not> is_temp d q"
    and r: "fs_lookup d r = None" "fs_lookup d (butlast r) = Some Dir" "plain r" "name_error r = None"
    and tmp: "prefix TMP_PREFIX (utf8_lossy (last r))"
  shows "\<exists>d'. sweep_temp (AList.update r (File c) d) = (Inr 1, d') \<and> disk_ok d' \<and> contents d' = contents d \<and>
     (\<forall>q. fs_lookup d' q = fs_lookup d q)"
proof -
  let ?d = "AList.update r (File c) d"
  have r0: "r \<noteq> []" using r(3) by (simp add: plain_def)
  have "fs_ok ?d" using ok r by (intro fs_ok_update_file) (simp_all add: disk_ok_def)
  then have "sane ?d" using disk_ok_sane [OF ok] r(4) r0 by (auto simp: sane_def)
  from sweep_temp_exact [OF this] obtain d' where
    d': "sweep_temp ?d = (Inr (card {q. is_temp ?d q}), d')" "sane d'"
      "\<forall>q. fs_lookup d' q = (if is_temp ?d q then None else fs_lookup ?d q)" by blast
  have "is_temp ?d q \<longleftrightarrow> q = r" for q
    using none tmp r0 by (auto simp: is_temp_def is_file_at_def)
  with d' r0 r(1) have "sweep_temp ?d = (Inr 1, d')" "\<forall>q. fs_lookup d' q = fs_lookup d q" by auto
  moreover from this have "disk_ok d'" using disk_ok_same_lookups [OF _ ok] d'(2) by (simp add: sane_def)
  ultimately show ?thesis by (auto simp: contents_def)
qed

lemma write_states_cases:
  assumes "d1 \<in> set (write_atomic_states sfx p b d)"
  obtains k where "k \<le> length p" "d1 = add_dirs (take k (parents p)) d"
  | k where "d1 = AList.update (tmp_path p sfx) (File (take k b)) (add_dirs (take (length p) (parents p)) d)"
  | "d1 = AList.update p (File b) (add_dirs (take (length p) (parents p)) d)"
proof -
  let ?dirs = "\<lambda>k. add_dirs (take k (parents p)) d"
  have "d1 \<in> ?dirs ` {0..<Suc (length p)} \<union>
      (\<lambda>k. AList.update (tmp_path p sfx) (File (take k b)) (?dirs (length p))) ` {0..<Suc (length b)} \<union>
      {AList.update p (File b) (?dirs (length p))}"
    using assms unfolding write_atomic_states_def Let_def set_append set_map set_upt by simp
  then show thesis using that by (elim UnE imageE) (simp_all add: less_Suc_eq_le)
qed

lemma crash_keeps_file:
  assumes "d1 \<in> set (write_atomic_states sfx p b d)" "fs_lookup d q = Some (File c)" "q \<noteq> p" "p \<noteq> []"
    "fs_lookup d (tmp_path p sfx) = None"
  shows "fs_lookup d1 q = Some (File c)"
proof -
  have "fs_lookup (add_dirs ps d) q = Some (File c)" for ps using assms(2) by (simp add: fs_lookup_add_dirs)
  moreover have "q \<noteq> tmp_path p sfx" "tmp_path p sfx \<noteq> []" using assms(2,5) by (auto simp: tmp_path_def)
  ultimately show ?thesis using assms(3,4) by (cases rule: write_states_cases [OF assms(1)]) simp_all
qed

lemma crash_recovery:
  assumes ok: "disk_ok d" and p: "good p" and none: "\<forall>q. \<not> is_temp d q"
    and sfx: "ascii sfx" "CHR 0x00 \<notin> set sfx" "length sfx \<le> 200" and fresh: "fs_lookup d (tmp_path p sfx) = None"
    and name: "\<not> prefix TMP_PREFIX (utf8_lossy (last p))"
    and crash: "d1 \<in> set (write_atomic_states sfx p b d)"
  shows "\<exists>n d2. sweep_temp d1 = (Inr n, d2) \<and> disk_ok d2 \<and>
     (contents d2 = contents d \<or> contents d2 = (contents d)(p \<mapsto> b)) \<and>
     (\<forall>q. fs_lookup d2 q = Some Dir \<longrightarrow> fs_lookup d q = Some Dir \<or> strict_prefix q p)"
proof -
  let ?dirs = "\<lambda>k. add_dirs (take k (parents p)) d"
  have len: "length (parents p) = length p" by (simp add: parents_def)
  have dirs: "disk_ok (?dirs k) \<and> (\<forall>q. \<not> is_temp (?dirs k) q) \<and> contents (?dirs k) = contents d \<and>
      (\<forall>q. fs_lookup (?dirs k) q = Some Dir \<longrightarrow> fs_lookup d q = Some Dir \<or> strict_prefix q p)"
    if "k \<le> length p" for k
    using disk_ok_dirs [OF ok p that] none prefix_order.less_le_trans [OF _ take_is_prefix, of _ k p]
    by (auto simp: is_temp_def is_file_at_def contents_def split: option.splits)
  have p0: "p \<noteq> []" and plain: "plain p" using good_plain [OF p] by simp_all
  have tmp: "prefix TMP_PREFIX (utf8_lossy (last (tmp_path p sfx)))"
  proof -
    have "ascii (TMP_PREFIX @ sfx)" using sfx(1) by (simp add: TMP_PREFIX_def)
    then show ?thesis by (simp add: tmp_path_def utf8_lossy_ascii)
  qed
  from write_states_cases [OF crash] consider k where "k \<le> length p" "d1 = ?dirs k"
    | k where "d1 = AList.update (tmp_path p sfx) (File (take k b)) (?dirs (length p))"
    | "d1 = AList.update p (File b) (?dirs (length p))" by metis
  then show ?thesis
  proof cases
    case 1
    then show ?thesis using sweep_clean [of d1] dirs [of k] by auto
  next
    case 2
    have "fs_lookup (?dirs (length p)) (tmp_path p sfx) = None"
    proof -
      have "\<not> strict_prefix (tmp_path p sfx) p"
        using prefix_length_less [of "tmp_path p sfx" p] p0 by (auto simp: tmp_path_def)
      then show ?thesis using disk_ok_dirs(2) [OF ok p, of "length p"] fresh by simp
    qed
    moreover have "fs_lookup (?dirs (length p)) (butlast (tmp_path p sfx)) = Some Dir"
    proof -
      have sp: "strict_prefix (butlast p) p" using p0 by (simp add: strict_prefix_butlast)
      then have "fs_lookup d (butlast p) = None \<or> fs_lookup d (butlast p) = Some Dir"
        using disk_ok_not_above [OF ok, of p False] p
        by (cases "fs_lookup d (butlast p)"; cases "the (fs_lookup d (butlast p))")
          (auto simp: good_def file_above_iff is_file_at_def)
      then show ?thesis using disk_ok_dirs(2) [OF ok p, of "length p"] sp by (auto simp: tmp_path_def)
    qed
    moreover have "name_error (tmp_path p sfx) = None"
      using p sfx(2,3) by (auto simp: good_def name_error_def tmp_path_def TMP_PREFIX_def NAME_MAX_def
          split: if_splits dest: in_set_butlastD)
    moreover have "plain (tmp_path p sfx)" by (simp add: tmp_path_def TMP_PREFIX_def)
    ultimately show ?thesis using sweep_stray [of "?dirs (length p)", OF _ _ _ _ _ _ tmp] dirs [of "length p"] 2
      by fastforce
  next
    case 3
    then have d1: "d1 = put_file p b d" by (simp add: put_file_def len)
    have "\<not> is_temp d1 q" for q
    proof -
      have "fs_lookup d1 q = (if q = p then Some (File b) else fs_lookup (?dirs (length p)) q)"
        using 3 p0 by simp
      then show ?thesis using dirs [of "length p"] name by (auto simp: is_temp_def is_file_at_def)
    qed
    with sweep_clean [of d1] disk_ok_put_file [OF ok p] obtain d2 where
      "sweep_temp d1 = (Inr 0, d2)" "disk_ok d2" "contents d2 = contents d1" "\<forall>q. fs_lookup d2 q = fs_lookup d1 q"
      by (auto simp: d1)
    moreover have "contents d1 = (contents d)(p \<mapsto> b)" using contents_put_file [OF p] by (auto simp: d1)
    moreover have "fs_lookup d q = Some Dir \<or> strict_prefix q p" if "fs_lookup d1 q = Some Dir" for q
      using that 3 p0 dirs [of "length p"] by (auto split: if_splits)
    ultimately show ?thesis by auto
  qed
qed

section \<open>Opening a well-formed directory\<close>

lemma good_format [simp]: "good [FORMAT_FILE]"
  by (simp add: good_def FORMAT_FILE_def nested_dirs_def flat_dirs_def name_error_def NAME_MAX_def)

lemma open_dir_ok:
  assumes "disk_ok d" "t \<in> set nested_dirs \<union> set flat_dirs"
  shows "\<exists>d'. create_dir_all d [t] = Inr d' \<and> disk_ok d' \<and> contents d' = contents d \<and>
     (\<forall>q. q \<noteq> [t] \<longrightarrow> fs_lookup d' q = fs_lookup d q)"
proof -
  have t: "name_error [t] = None" "shape [t] = Some True" "[] \<notin> set [t]"
    using assms(2) by (auto simp: nested_dirs_def flat_dirs_def name_error_def NAME_MAX_def)
  have nf: "\<not> is_file_at d [t]" using disk_ok_shape [OF assms(1) t(2)] by (auto simp: is_file_at_iff)
  have c: "create_dir_all d [t] = Inr (add_dirs (parents [t] @ [[t]]) d)"
    using t(1) nf disk_ok_not_above [OF assms(1) t(2)] by (simp add: create_dir_all_def)
  have look: "fs_lookup (add_dirs (parents [t] @ [[t]]) d) q =
      (if fs_lookup d q = None \<and> q = [t] then Some Dir else fs_lookup d q)" for q
    by (auto simp: fs_lookup_add_dirs set_parents strict_prefix_def prefix_Cons)
  have "fs_ok (add_dirs (parents [t] @ [[t]]) d)"
    using fs_ok_create_dir_all(1) [OF _ c t(3)] assms(1) by (simp add: disk_ok_def)
  moreover have "layout (add_dirs (parents [t] @ [[t]]) d)"
    by (rule layout_add_dirs)
      (use assms(1) t in \<open>auto simp: disk_ok_def set_parents strict_prefix_def prefix_Cons\<close>)
  ultimately have "disk_ok (add_dirs (parents [t] @ [[t]]) d)" by (simp add: disk_ok_def)
  moreover have "contents (add_dirs (parents [t] @ [[t]]) d) q = contents d q" for q
    by (simp only: contents_def look) auto
  ultimately show ?thesis using c look by auto
qed

lemma open_dirs_ok:
  assumes "disk_ok d" "set ts \<subseteq> set nested_dirs \<union> set flat_dirs"
  shows "\<exists>d'. open_dirs ts d = (Inr (), d') \<and> disk_ok d' \<and> contents d' = contents d \<and>
     (\<forall>q. 2 \<le> length q \<longrightarrow> fs_lookup d' q = fs_lookup d q)"
  using assms
proof (induction ts arbitrary: d)
  case (Cons t ts)
  from open_dir_ok [OF Cons.prems(1), of t] Cons.prems(2) obtain d1 where
    1: "create_dir_all d [t] = Inr d1" "disk_ok d1" "contents d1 = contents d"
      "\<forall>q. q \<noteq> [t] \<longrightarrow> fs_lookup d1 q = fs_lookup d q" by auto
  from Cons.IH [OF 1(2)] Cons.prems(2) obtain d2 where
    "open_dirs ts d1 = (Inr (), d2)" "disk_ok d2" "contents d2 = contents d1"
    "\<forall>q. 2 \<le> length q \<longrightarrow> fs_lookup d2 q = fs_lookup d1 q" by auto
  moreover have "fs_lookup d1 q = fs_lookup d q" if "2 \<le> length q" for q
  proof -
    have "q \<noteq> [t]" using that by auto
    then show ?thesis using 1(4) by simp
  qed
  ultimately show ?case using 1(1,3) by simp
qed simp

lemma open_rest:
  assumes "disk_ok d"
  shows "\<exists>d'. and_then (open_keys X None rng d) (\<lambda>_ d.
      and_then (open_dirs [chunk_dir, manifest_dir, pointer_dir, meta_dir, annotation_dir, reverse_dir, webhook_dir] d)
       (\<lambda>_ d. (Inr s, d))) = (Inr s, d') \<and> disk_ok d' \<and> contents d' = contents d \<and>
     (\<forall>q. 2 \<le> length q \<longrightarrow> fs_lookup d' q = fs_lookup d q)"
proof -
  let ?ts = "[chunk_dir, manifest_dir, pointer_dir, meta_dir, annotation_dir, reverse_dir, webhook_dir]"
  from open_dirs_ok [OF assms, of "[key_dir]"] obtain d1 where
    1: "open_dirs [key_dir] d = (Inr (), d1)" "disk_ok d1" "contents d1 = contents d"
      "\<forall>q. 2 \<le> length q \<longrightarrow> fs_lookup d1 q = fs_lookup d q" by (auto simp: flat_dirs_def)
  from open_dirs_ok [OF 1(2), of ?ts] obtain d2 where
    2: "open_dirs ?ts d1 = (Inr (), d2)" "disk_ok d2" "contents d2 = contents d1"
      "\<forall>q. 2 \<le> length q \<longrightarrow> fs_lookup d2 q = fs_lookup d1 q" by (auto simp: flat_dirs_def nested_dirs_def)
  have "open_keys X None rng d = (Inr (), d1)" unfolding open_keys_def 1(1) by simp
  then show ?thesis using 1(3,4) 2 by (auto simp: simp del: open_dirs.simps)
qed

text \<open>The stamp is kept when it is current, and written when it is old or missing.\<close>

definition stamp_state :: "ext \<Rightarrow> fs \<Rightarrow> nat option option" where
  "stamp_state X d = map_option (stamp_of_json X) (contents d [FORMAT_FILE])"

lemma open_format_ok:
  assumes "disk_ok d" "stamp_state X d = None \<or> (\<exists>v \<le> FORMAT_VERSION. stamp_state X d = Some (Some v))"
  shows "\<exists>d'. open_format X d = (Inr FORMAT_VERSION, d') \<and> disk_ok d' \<and>
     (d' = d \<or> d' = put_file [FORMAT_FILE] (stamp_to_json X FORMAT_VERSION) d)"
proof -
  have w: "write_stamp X v d = (Inr (), put_file [FORMAT_FILE] (stamp_to_json X v) d)" for v
    using write_good [OF assms(1) good_format] by (simp add: write_stamp_def)
  have dk: "disk_ok (put_file [FORMAT_FILE] (stamp_to_json X FORMAT_VERSION) d)"
    by (rule disk_ok_put_file [OF assms(1) good_format])
  have root: "create_dir_all d [] = Inr d"
    by (simp add: create_dir_all_def name_error_def file_above_def parents_def)
  show ?thesis
    using assms w dk root read_good [OF assms(1) good_format]
    by (auto simp: open_format_def stamp_state_def ok_or_def split: option.splits)
qed

lemma open_front:
  assumes "disk_ok d" "\<forall>q. \<not> is_temp d q"
    and "stamp_state X d = None \<or> (\<exists>v \<le> FORMAT_VERSION. stamp_state X d = Some (Some v))"
  shows "\<exists>d1 d2. open_format X d = (Inr FORMAT_VERSION, d1) \<and> sweep_temp d1 = (Inr 0, d2) \<and> disk_ok d2 \<and>
     (\<forall>q. q \<noteq> [FORMAT_FILE] \<longrightarrow> fs_lookup d2 q = fs_lookup d q)"
proof -
  from open_format_ok [OF assms(1,3)] obtain d1 where
    1: "open_format X d = (Inr FORMAT_VERSION, d1)" "disk_ok d1"
      "d1 = d \<or> d1 = put_file [FORMAT_FILE] (stamp_to_json X FORMAT_VERSION) d" by blast
  have look: "fs_lookup d1 q = fs_lookup d q" if "q \<noteq> [FORMAT_FILE]" for q
    using 1(3) that by (auto simp: lookup_put_file strict_prefix_def prefix_Cons)
  have nt: "\<not> is_temp d1 q" for q
    using assms(2) look [of q]
    by (cases "q = [FORMAT_FILE]")
      (auto simp: is_temp_def is_file_at_def FORMAT_FILE_def TMP_PREFIX_def utf8_lossy_ascii)
  from sweep_temp_exact [OF disk_ok_sane [OF 1(2)]] nt obtain d2 where
    2: "sweep_temp d1 = (Inr 0, d2)" "sane d2" "\<forall>q. fs_lookup d2 q = fs_lookup d1 q" by auto
  have "disk_ok d2" using disk_ok_same_lookups [OF _ 1(2)] 2(2,3) by (simp add: sane_def)
  with 1(1) 2(1,3) look show ?thesis by auto
qed

lemma open_engine_ok:
  assumes "disk_ok d" "\<forall>q. \<not> is_temp d q"
    and "stamp_state X d = None \<or> (\<exists>v \<le> FORMAT_VERSION. stamp_state X d = Some (Some v))"
  shows "\<exists>e s. open_engine X pol None rng d = (Inr (e, s), disk e) \<and> disk_ok (disk e) \<and>
     format_version s = FORMAT_VERSION \<and> recovered_temp s = 0 \<and> pinned e = [] \<and> multipart e = [] \<and>
     (\<forall>q. q \<noteq> [FORMAT_FILE] \<longrightarrow> contents (disk e) q = contents d q) \<and>
     (\<forall>q. 2 \<le> length q \<longrightarrow> fs_lookup (disk e) q = fs_lookup d q)"
proof -
  from open_front [OF assms] obtain d1 d2 where
    1: "open_format X d = (Inr FORMAT_VERSION, d1)" "sweep_temp d1 = (Inr 0, d2)" "disk_ok d2"
    and look: "\<forall>q. q \<noteq> [FORMAT_FILE] \<longrightarrow> fs_lookup d2 q = fs_lookup d q" by blast
  from open_rest [OF 1(3), of X rng "\<lparr>format_version = FORMAT_VERSION, recovered_temp = 0\<rparr>"] obtain d3 where
    3: "and_then (open_keys X None rng d2) (\<lambda>_ d.
      and_then (open_dirs [chunk_dir, manifest_dir, pointer_dir, meta_dir, annotation_dir, reverse_dir, webhook_dir] d)
       (\<lambda>_ d. (Inr \<lparr>format_version = FORMAT_VERSION, recovered_temp = 0\<rparr>, d))) =
        (Inr \<lparr>format_version = FORMAT_VERSION, recovered_temp = 0\<rparr>, d3)"
      "disk_ok d3" "contents d3 = contents d2" "\<forall>q. 2 \<le> length q \<longrightarrow> fs_lookup d3 q = fs_lookup d2 q" by blast
  have "contents d2 q = contents d q" if "q \<noteq> [FORMAT_FILE]" for q
    using look that by (simp add: contents_def)
  moreover have "fs_lookup d3 q = fs_lookup d q" if "2 \<le> length q" for q
  proof -
    have "q \<noteq> [FORMAT_FILE]" using that by auto
    then show ?thesis using 3(4) look that by simp
  qed
  ultimately show ?thesis
    using 1(1,2) 3(1-3) by (auto simp: open_engine_def open_store_def simp del: open_dirs.simps)
qed

text \<open>Opening what a killed write left behind.\<close>

lemma crash_open:
  assumes ok: "disk_ok d" and p: "good p" "p \<noteq> [FORMAT_FILE]" and none: "\<forall>q. \<not> is_temp d q"
    and sfx: "ascii sfx" "CHR 0x00 \<notin> set sfx" "length sfx \<le> 200" and fresh: "fs_lookup d (tmp_path p sfx) = None"
    and name: "\<not> prefix TMP_PREFIX (utf8_lossy (last p))" and stamp: "stamp_state X d = Some (Some FORMAT_VERSION)"
    and crash: "d1 \<in> set (write_atomic_states sfx p b d)"
  shows "\<exists>e s. open_engine X pol None rng d1 = (Inr (e, s), disk e) \<and> disk_ok (disk e) \<and>
     (contents (disk e) = contents d \<or> contents (disk e) = (contents d)(p \<mapsto> b)) \<and>
     (\<forall>q. 2 \<le> length q \<longrightarrow> fs_lookup (disk e) q = Some Dir \<longrightarrow> fs_lookup d q = Some Dir \<or> strict_prefix q p)"
proof -
  from stamp obtain c where c: "fs_lookup d [FORMAT_FILE] = Some (File c)" "stamp_of_json X c = Some FORMAT_VERSION"
    by (auto simp: stamp_state_def contents_def split: option.splits fs_node.splits)
  have "fs_lookup d1 [FORMAT_FILE] = Some (File c)"
    using crash_keeps_file [OF crash c(1) _ good_plain(2) [OF p(1)] fresh] p(2) by simp
  then have "fs_read d1 [FORMAT_FILE] = Inr c"
    using good_plain(1) [OF good_format] good_format unfolding good_def by (simp add: fs_read_def resolve_plain)
  then have f: "open_format X d1 = (Inr FORMAT_VERSION, d1)" using c(2) by (simp add: open_format_def)
  from crash_recovery [OF ok p(1) none sfx fresh name crash] obtain n d2 where
    2: "sweep_temp d1 = (Inr n, d2)" "disk_ok d2" "contents d2 = contents d \<or> contents d2 = (contents d)(p \<mapsto> b)"
      "\<forall>q. fs_lookup d2 q = Some Dir \<longrightarrow> fs_lookup d q = Some Dir \<or> strict_prefix q p" by blast
  from open_rest [OF 2(2), of X rng "\<lparr>format_version = FORMAT_VERSION, recovered_temp = n\<rparr>"] obtain d3 where
    3: "and_then (open_keys X None rng d2) (\<lambda>_ d.
      and_then (open_dirs [chunk_dir, manifest_dir, pointer_dir, meta_dir, annotation_dir, reverse_dir, webhook_dir] d)
       (\<lambda>_ d. (Inr \<lparr>format_version = FORMAT_VERSION, recovered_temp = n\<rparr>, d))) =
        (Inr \<lparr>format_version = FORMAT_VERSION, recovered_temp = n\<rparr>, d3)"
      "disk_ok d3" "contents d3 = contents d2" "\<forall>q. 2 \<le> length q \<longrightarrow> fs_lookup d3 q = fs_lookup d2 q" by blast
  from f 2 3 show ?thesis by (auto simp: open_engine_def open_store_def simp del: open_dirs.simps)
qed

end
