(* ===== verification/Recovery_Props.thy ===== *)
theory Recovery_Props
  imports Recovery Demo_Engine
begin

text \<open>Opening a data directory: after a clean stop, after a crash, with a newer format, with a master key.\<close>

lemma store_ok_same:
  assumes ok: "store_ok X B M d" and dk: "disk_ok d'"
    and same: "\<forall>q. q \<noteq> [FORMAT_FILE] \<longrightarrow> contents d' q = contents d q"
      "\<forall>q. 2 \<le> length q \<longrightarrow> fs_lookup d' q = fs_lookup d q"
  shows "store_ok X B M d'"
proof -
  have c: "contents d' [a, b, f] = contents d [a, b, f]" "contents d' [a, b] = contents d [a, b]" for a b f
    using same(1) by simp_all
  have l: "fs_lookup d' [a, b] = fs_lookup d [a, b]" for a b using same(2) by simp
  have at: "manifest_at X d' h = manifest_at X d h" for h by (simp add: manifest_at_def shard_def c)
  show ?thesis
    using ok dk by (simp add: store_ok_def chunks_ok_def manifests_ok_def pointers_ok_def side_ok_def c l at)
qed

text \<open>
  Opening a well-formed directory with no stray temporary file and a current, old or missing
  stamp succeeds, resolves the format to the current version, reports nothing recovered, and keeps
  the store well-formed with every key's history as it was.
\<close>

theorem open_engine_keeps_store:
  assumes "store_ok X B M d" "\<forall>q. \<not> is_temp d q"
    and "stamp_state X d = None \<or> (\<exists>v \<le> FORMAT_VERSION. stamp_state X d = Some (Some v))"
  shows "\<exists>e s. open_engine X pol None rng d = (Inr (e, s), disk e) \<and> store_ok X B M (disk e) \<and>
     format_version s = FORMAT_VERSION \<and> recovered_temp s = 0 \<and>
     (\<forall>b k. valid_bucket b \<longrightarrow> valid_key k \<longrightarrow> eng_history X e b k = Inr (log_at X d b k))"
proof -
  from open_engine_ok [OF store_okD(5) [OF assms(1)] assms(2,3), of pol rng] obtain e s where
    e: "open_engine X pol None rng d = (Inr (e, s), disk e)" "disk_ok (disk e)"
      "format_version s = FORMAT_VERSION" "recovered_temp s = 0"
      "\<forall>q. q \<noteq> [FORMAT_FILE] \<longrightarrow> contents (disk e) q = contents d q"
      "\<forall>q. 2 \<le> length q \<longrightarrow> fs_lookup (disk e) q = fs_lookup d q" by blast
  note ok = store_ok_same [OF assms(1) e(2,5,6)]
  have "log_at X (disk e) b k = log_at X d b k" for b k
    using e(5) by (simp add: log_at_def pointer_file_def)
  with e(1,3,4) ok history_eq(1) [OF store_okD(3) [OF ok]] show ?thesis by (auto simp: eng_history_def)
qed

theorem open_engine_keeps_store_witness:
  "\<exists>e s. open_engine demo demo_policy None (\<lambda>_. None) [] = (Inr (e, s), disk e) \<and>
     store_ok demo small_bufs demo_bodies (disk e) \<and> recovered_temp s = 0"
proof -
  have "store_ok demo small_bufs demo_bodies []" by (rule demo_store_ok) simp
  moreover have "\<forall>q. \<not> is_temp [] q" by (simp add: is_temp_def is_file_at_def)
  moreover have "stamp_state demo [] = None" by (simp add: stamp_state_def)
  ultimately show ?thesis using open_engine_keeps_store [of demo small_bufs demo_bodies "[]"] by blast
qed

text \<open>
  Durable writes are atomic across a crash. Whatever instruction of \<open>write_atomic\<close> the process
  is killed at, the next open succeeds, removes the stray temporary file, and leaves a well-formed
  disk that holds either exactly the old files or the old files with the new one in place.
\<close>

theorem crash_then_open:
  assumes "disk_ok d" "good p" "p \<noteq> [FORMAT_FILE]" "\<forall>q. \<not> is_temp d q"
    and "ascii sfx" "CHR 0x00 \<notin> set sfx" "length sfx \<le> 200" "fs_lookup d (tmp_path p sfx) = None"
    and "\<not> prefix TMP_PREFIX (utf8_lossy (last p))" "stamp_state X d = Some (Some FORMAT_VERSION)"
    and "d1 \<in> set (write_atomic_states sfx p b d)"
  shows "\<exists>e s. open_engine X pol None rng d1 = (Inr (e, s), disk e) \<and> disk_ok (disk e) \<and>
     (contents (disk e) = contents d \<or> contents (disk e) = (contents d)(p \<mapsto> b))"
  using crash_open [OF assms, of pol rng] by blast

text \<open>A stamped, otherwise empty data directory.\<close>

definition demo_stamped :: fs where
  "demo_stamped = [([FORMAT_FILE], File (stamp_to_json demo FORMAT_VERSION))]"

lemma demo_stamped_ok:
  "disk_ok demo_stamped" "stamp_state demo demo_stamped = Some (Some FORMAT_VERSION)" "\<not> is_temp demo_stamped q"
  "q \<noteq> [FORMAT_FILE] \<Longrightarrow> contents demo_stamped q = None"
proof -
  have d: "demo_stamped = put_file [FORMAT_FILE] (stamp_to_json demo FORMAT_VERSION) []"
    by (simp add: demo_stamped_def put_file_def parents_def)
  show "disk_ok demo_stamped" unfolding d by (rule disk_ok_put_file) simp_all
  show "stamp_state demo demo_stamped = Some (Some FORMAT_VERSION)"
    by (simp add: d stamp_state_def contents_put_file json_okD [OF demo_json_ok])
  show "\<not> is_temp demo_stamped q"
    by (auto simp: demo_stamped_def is_temp_def is_file_at_def fs_lookup_def FORMAT_FILE_def TMP_PREFIX_def
        utf8_lossy_ascii)
  show "q \<noteq> [FORMAT_FILE] \<Longrightarrow> contents demo_stamped q = None" by (simp add: d contents_put_file)
qed

lemma demo_meta_good: "good [meta_dir, ''62.json'']"
  by (simp add: good_def flat_dirs_def nested_dirs_def name_error_def NAME_MAX_def)

theorem crash_then_open_witness:
  "\<exists>d1 e s. d1 = AList.update (tmp_path [meta_dir, ''62.json''] ''a1'') (File [7])
       (add_dirs (parents [meta_dir, ''62.json'']) demo_stamped) \<and>
     open_engine demo demo_policy None (\<lambda>_. None) d1 = (Inr (e, s), disk e) \<and>
     contents (disk e) (tmp_path [meta_dir, ''62.json''] ''a1'') = None"
proof -
  let ?p = "[meta_dir, ''62.json'']"
  let ?t = "tmp_path ?p ''a1''"
  let ?d1 = "AList.update ?t (File [7]) (add_dirs (parents ?p) demo_stamped)"
  have mem: "?d1 \<in> set (write_atomic_states ''a1'' ?p [7, 9] demo_stamped)"
  proof -
    have "take (length ?p) (parents ?p) = parents ?p" "[7] = take 1 [7::u8, 9]" by (simp_all add: parents_def)
    then show ?thesis unfolding write_atomic_states_def Let_def set_append set_map set_upt
      by (intro UnI2 UnI1 rev_image_eqI [of 1]) simp_all
  qed
  have t: "?t = [meta_dir, TMP_PREFIX @ ''a1'']" by (simp add: tmp_path_def)
  have n: "fs_lookup demo_stamped ?t = None" by (simp add: t demo_stamped_def fs_lookup_def)
  have a: "?p \<noteq> [FORMAT_FILE]" "ascii ''a1''" "CHR 0x00 \<notin> set ''a1''" "length ''a1'' \<le> 200"
    "\<not> prefix TMP_PREFIX (utf8_lossy (last ?p))"
    by (simp_all add: utf8_lossy_ascii TMP_PREFIX_def)
  from crash_then_open [OF demo_stamped_ok(1) demo_meta_good a(1) _ a(2-4) n a(5) demo_stamped_ok(2) mem]
    demo_stamped_ok(3) obtain e s where
    e: "open_engine demo demo_policy None (\<lambda>_. None) ?d1 = (Inr (e, s), disk e)"
      "contents (disk e) = contents demo_stamped \<or> contents (disk e) = (contents demo_stamped)(?p \<mapsto> [7, 9])"
    by blast
  have "contents demo_stamped ?t = None" using n by (simp add: contents_def)
  then have "contents (disk e) ?t = None" using e(2) by (auto simp: t TMP_PREFIX_def)
  with e(1) show ?thesis by blast
qed

text \<open>
  A directory stamped by a newer release is refused before anything reads or writes it.
\<close>

theorem newer_format_refused:
  assumes "disk_ok d" "stamp_state X d = Some (Some v)" "FORMAT_VERSION < v"
  shows "open_engine X pol master rng d = (Inl (UnsupportedFormat v FORMAT_VERSION), d)"
proof -
  from assms(2) obtain c where c: "contents d [FORMAT_FILE] = Some c" "stamp_of_json X c = Some v"
    by (auto simp: stamp_state_def)
  have "fs_read d [FORMAT_FILE] = Inr c" using read_good [OF assms(1) good_format] c(1) by (simp add: ok_or_def)
  with c(2) assms(3) show ?thesis by (simp add: open_engine_def open_store_def open_format_def)
qed

theorem newer_format_refused_witness:
  "\<exists>d. open_engine demo demo_policy None (\<lambda>_. None) d = (Inl (UnsupportedFormat 2 FORMAT_VERSION), d)"
proof -
  let ?d = "put_file [FORMAT_FILE] (stamp_to_json demo 2) []"
  have "disk_ok ?d" by (rule disk_ok_put_file) simp_all
  moreover have "stamp_state demo ?d = Some (Some 2)"
    by (simp add: stamp_state_def contents_put_file json_okD [OF demo_json_ok])
  moreover have "FORMAT_VERSION < 2" by (simp add: FORMAT_VERSION_def)
  ultimately show ?thesis using newer_format_refused by blast
qed

text \<open>
  C28: opening the key store with a master key leaves no secret in clear: every key record on the
  disk, the plaintext ones of an earlier release included, is encrypted afterwards, and every access
  key still reads back to the same record.
\<close>

theorem master_key_encrypts_records:
  assumes "keys_ok X (Some mk) d" "\<forall>name. nonce_ok (rng name)"
  shows "\<exists>d'. open_keys X (Some mk) rng d = (Inr (), d') \<and>
     (\<forall>f. contents d' [key_dir, f] \<noteq> None \<longrightarrow> encrypted_at X d' f) \<and>
     (\<forall>a. valid_pot a \<longrightarrow> key_get X (Some mk) d' a = key_get X (Some mk) d a) \<and>
     (\<forall>a r. valid_pot a \<longrightarrow> key_get X (Some mk) d a = Inr (Some r) \<longrightarrow>
        (\<exists>f. key_path X a = [key_dir, f] \<and> encrypted_at X d' f))"
proof -
  have fl: "flat_ok X d" using assms(1) by (simp add: keys_ok_def)
  from open_dirs_ok [of d "[key_dir]"] fl obtain d1 where
    1: "open_dirs [key_dir] d = (Inr (), d1)" "disk_ok d1" "contents d1 = contents d"
    by (auto simp: flat_ok_def flat_dirs_def simp del: open_dirs.simps)
  have fl1: "flat_ok X d1" using fl 1(2) by (simp add: flat_ok_def)
  have "keys_ok X (Some mk) d1" using assms(1) 1(3) fl1 by (simp add: keys_ok_def)
  from migrate_ok [OF this assms(2)] obtain d2 where
    2: "migrate_plaintext X (Some mk) rng d1 = (Inr (), d2)" "keys_ok X (Some mk) d2"
      "\<forall>a. valid_pot a \<longrightarrow> key_get X (Some mk) d2 a = key_get X (Some mk) d1 a"
      "\<forall>f. contents d2 [key_dir, f] \<noteq> None \<longrightarrow> encrypted_at X d2 f" by blast
  have "key_get X (Some mk) d1 a = key_get X (Some mk) d a" if "valid_pot a" for a
    using key_get_eq [OF fl that] key_get_eq [OF fl1 that] 1(3) by (simp add: key_at_def)
  with 2(3) have get: "key_get X (Some mk) d2 a = key_get X (Some mk) d a" if "valid_pot a" for a
    using that by simp
  have fl2: "flat_ok X d2" using 2(2) by (simp add: keys_ok_def)
  have enc: "\<exists>f. key_path X a = [key_dir, f] \<and> encrypted_at X d2 f"
    if a: "valid_pot a" "key_get X (Some mk) d a = Inr (Some r)" for a r
  proof -
    have "contents d2 (key_path X a) \<noteq> None"
    proof
      assume "contents d2 (key_path X a) = None"
      then have "key_get X (Some mk) d2 a = Inr None" using key_get_eq [OF fl2 a(1)] by (simp add: key_at_def)
      with get [OF a(1)] a(2) show False by simp
    qed
    with 2(4) show ?thesis by (auto simp: key_path_def)
  qed
  have "open_keys X (Some mk) rng d = (Inr (), d2)"
    using 1(1) 2(1) by (simp add: open_keys_def del: open_dirs.simps)
  with 2(4) get enc show ?thesis by blast
qed

theorem master_key_encrypts_records_witness:
  "\<exists>d d' r f. key_path demo ''a'' = [key_dir, f] \<and> key_get demo None d ''a'' = Inr (Some r) \<and>
     \<not> encrypted_at demo d f \<and>
     open_keys demo (Some (replicate 32 1)) (\<lambda>_. Some (replicate NONCE_LEN 2)) d = (Inr (), d') \<and>
     encrypted_at demo d' f \<and> key_get demo (Some (replicate 32 1)) d' ''a'' = Inr (Some r)"
proof -
  let ?s = "\<lparr>sk_access_key = ''a'', secret_enc = None, sk_secret_key = Some ''secret'', sk_read_only = False,
     sk_pots = [], sk_created_at = []\<rparr>"
  let ?r = "\<lparr>access_key = ''a'', secret_key = ''secret'', read_only = False, pots = [], key_created_at = []\<rparr>"
  let ?mk = "replicate 32 1 :: bytes" and ?rng = "\<lambda>_::string. Some (replicate NONCE_LEN 2) :: bytes option"
  let ?d = "put_file (key_path demo ''a'') (key_to_json demo ?s) []"
  obtain n where p: "key_path demo ''a'' = [key_dir, n]" by (simp add: key_path_def)
  have va: "valid_pot ''a''" by (simp add: valid_pot_def NAME_MAX_def)
  have g: "good (key_path demo ''a'')" using good_key [OF demo_hex_ok va] .
  have js: "key_of_json demo (key_to_json demo ?s) = Some ?s" by (simp add: json_okD [OF demo_json_ok])
  have dec: "key_decode demo c ?s = Inr ?r" for c by (simp add: key_decode_def)
  have fl: "flat_ok demo ?d" by (simp add: flat_ok_def disk_ok_put_file g)
  have c: "f = n \<and> b = key_to_json demo ?s" if "contents ?d [key_dir, f] = Some b" for f b
    using that unfolding contents_put_file [OF g] by (auto simp: p split: if_splits)
  have "key_file_ok demo (Some ?mk) n (key_to_json demo ?s)"
    unfolding key_file_ok_def
    by (rule exI [of _ ?s], rule exI [of _ ?r])
      (simp add: p js dec va valid_access_def secret_ok_def utf8_valid_ascii)
  then have "\<forall>f b. contents ?d [key_dir, f] = Some b \<longrightarrow> key_file_ok demo (Some ?mk) f b" using c by blast
  then have "keys_ok demo (Some ?mk) ?d"
    using fl unfolding keys_ok_def by (simp add: cipher_ok_def)
  moreover have "\<forall>name. nonce_ok (?rng name)" by (simp add: nonce_ok_def)
  ultimately obtain d' where d': "open_keys demo (Some ?mk) ?rng ?d = (Inr (), d')"
    "\<forall>f. contents d' [key_dir, f] \<noteq> None \<longrightarrow> encrypted_at demo d' f"
    "\<forall>a. valid_pot a \<longrightarrow> key_get demo (Some ?mk) d' a = key_get demo (Some ?mk) ?d a"
    "\<forall>a r. valid_pot a \<longrightarrow> key_get demo (Some ?mk) ?d a = Inr (Some r) \<longrightarrow>
        (\<exists>f. key_path demo a = [key_dir, f] \<and> encrypted_at demo d' f)"
    using master_key_encrypts_records [of demo ?mk ?d ?rng] by blast
  have get: "key_get demo c ?d ''a'' = Inr (Some ?r)" for c
    using js dec key_get_eq [OF fl va] by (simp add: key_at_def contents_put_file [OF g])
  have now: "key_get demo (Some ?mk) d' ''a'' = Inr (Some ?r)" using d'(3) get va by simp
  have enc: "encrypted_at demo d' n" using d'(4) get va p by auto
  have "\<not> encrypted_at demo ?d n"
    using js contents_put_file [OF g] by (auto simp: encrypted_at_def p)
  with p get now enc d'(1) show ?thesis by blast
qed

end
