(* ===== verification/Crash.thy ===== *)
theory Crash
  imports Vault Recovery
begin

text \<open>
  A crash in the middle of an operation. An operation is a sequence of file changes: an atomic write or
  an unlink each. A put writes the chunks the store lacks, the manifest, the version log and the reverse
  index. The process may be killed between any two instructions of any of them; the next open then finds
  the directory as one of \<open>crash_states\<close>.
\<close>

section \<open>Sequences of file changes\<close>

text \<open>\<open>Some b\<close>: the file is written with \<open>b\<close>; \<open>None\<close>: it is unlinked, if it is there.\<close>

type_synonym file_write = "path \<times> bytes option"

fun apply_write :: "file_write \<Rightarrow> fs \<Rightarrow> fs" where
  "apply_write (p, Some b) d = put_file p b d"
| "apply_write (p, None) d = snd (remove_opt p d)"

definition apply_writes :: "file_write list \<Rightarrow> fs \<Rightarrow> fs" where
  "apply_writes ws d = fold apply_write ws d"

lemma apply_writes_simps [simp]:
  "apply_writes [] d = d" "apply_writes (w # ws) d = apply_writes ws (apply_write w d)"
  "apply_writes (us @ vs) d = apply_writes vs (apply_writes us d)"
  by (simp_all add: apply_writes_def)

lemma contents_apply_write:
  "disk_ok d \<Longrightarrow> good p \<Longrightarrow> contents (apply_write (p, bo) d) q = (if q = p then bo else contents d q)"
  using contents_put_file [of p _ d q] contents_remove_opt [of d p q] by (cases bo) simp_all

text \<open>The disks a killed process can leave; \<open>sfx\<close> gives the random part of each temporary name.\<close>

fun crash_states :: "(nat \<Rightarrow> string) \<Rightarrow> file_write list \<Rightarrow> fs \<Rightarrow> fs list" where
  "crash_states sfx [] d = [d]"
| "crash_states sfx ((p, Some b) # ws) d =
     write_atomic_states (sfx 0) p b d @ crash_states (\<lambda>i. sfx (Suc i)) ws (put_file p b d)"
| "crash_states sfx ((p, None) # ws) d = d # crash_states (\<lambda>i. sfx (Suc i)) ws (snd (remove_opt p d))"

text \<open>What the changes of an operation must be: to names that are no temporary files, keeping the invariant
  after each (\<open>steps_ok\<close>) and, but for the collector's, never to a chunk or a manifest that is there.\<close>

definition durable_path :: "path \<Rightarrow> bool" where
  "durable_path p \<longleftrightarrow> good p \<and> p \<noteq> [FORMAT_FILE] \<and> \<not> prefix TMP_PREFIX (utf8_lossy (last p))"

lemma durable_cases:
  assumes "durable_path p"
  obtains (deep) t s f where "p = [t, s, f]" "t \<in> set nested_dirs" "\<not> hidden_name t s"
  | (flat) t f where "p = [t, f]" "t \<in> set flat_dirs \<or> hidden_name t f"
  using assms by (cases p rule: shape.cases) (auto simp: durable_path_def good_def split: if_splits)

fun steps_ok :: "ext \<Rightarrow> bytes set \<Rightarrow> bytes set \<Rightarrow> file_write list \<Rightarrow> fs \<Rightarrow> bool" where
  "steps_ok X B M [] d \<longleftrightarrow> store_ok X B M d"
| "steps_ok X B M (w # ws) d \<longleftrightarrow> store_ok X B M d \<and> durable_path (fst w) \<and> steps_ok X B M ws (apply_write w d)"

lemma steps_ok_start: "steps_ok X B M ws d \<Longrightarrow> store_ok X B M d"
  by (cases ws) auto

lemma steps_ok_append:
  "steps_ok X B M (us @ vs) d \<longleftrightarrow> steps_ok X B M us d \<and> steps_ok X B M vs (apply_writes us d)"
proof (induction us arbitrary: d)
  case Nil
  show ?case using steps_ok_start [of X B M vs d] by auto
qed simp

fun writes_ok :: "ext \<Rightarrow> bytes set \<Rightarrow> bytes set \<Rightarrow> file_write list \<Rightarrow> fs \<Rightarrow> bool" where
  "writes_ok X B M [] d \<longleftrightarrow> store_ok X B M d"
| "writes_ok X B M ((p, bo) # ws) d \<longleftrightarrow>
     store_ok X B M d \<and> durable_path p \<and> (hd p \<in> {chunk_dir, manifest_dir} \<longrightarrow> contents d p = None) \<and>
     writes_ok X B M ws (apply_write (p, bo) d)"

lemma writes_ok_start: "writes_ok X B M ws d \<Longrightarrow> store_ok X B M d"
  by (cases ws) auto

lemma writes_ok_append:
  "writes_ok X B M (us @ vs) d \<longleftrightarrow> writes_ok X B M us d \<and> writes_ok X B M vs (apply_writes us d)"
proof (induction us arbitrary: d)
  case Nil
  show ?case using writes_ok_start [of X B M vs d] by auto
next
  case (Cons w us)
  then show ?case by (cases w) simp
qed

lemma writes_steps: "writes_ok X B M ws d \<Longrightarrow> steps_ok X B M ws d"
proof (induction ws arbitrary: d)
  case (Cons w ws)
  then show ?case by (cases w) simp
qed simp

text \<open>A file no change names stays.\<close>

lemma steps_untouched:
  assumes "steps_ok X B M ws d" "q \<notin> fst ` set ws"
  shows "contents (apply_writes ws d) q = contents d q"
  using assms
proof (induction ws arbitrary: d)
  case (Cons w ws)
  obtain p bo where w: "w = (p, bo)" by force
  from Cons.prems(1) w have W: "disk_ok d" "good p" "steps_ok X B M ws (apply_write w d)"
    by (auto simp: durable_path_def dest: store_okD(5))
  from Cons.IH [OF W(3)] Cons.prems(2) contents_apply_write [OF W(1,2)] show ?case by (auto simp: w)
qed simp

text \<open>Content-addressed files only ever come in.\<close>

definition grows :: "fs \<Rightarrow> fs \<Rightarrow> bool" where
  "grows d d' \<longleftrightarrow>
     (\<forall>q c. hd q \<in> {chunk_dir, manifest_dir} \<longrightarrow> contents d q = Some c \<longrightarrow> contents d' q = Some c)"

lemma writes_grow: "writes_ok X B M ws d \<Longrightarrow> grows d (apply_writes ws d)"
proof (induction ws arbitrary: d)
  case (Cons w ws)
  obtain p bo where w: "w = (p, bo)" by force
  from Cons.prems w have W: "good p" "hd p \<in> {chunk_dir, manifest_dir} \<longrightarrow> contents d p = None"
    "writes_ok X B M ws (apply_write (p, bo) d)" "disk_ok d" by (auto simp: durable_path_def dest: store_okD(5))
  have "grows d (apply_write (p, bo) d)" using W(2) by (auto simp: grows_def contents_apply_write [OF W(4,1)])
  with Cons.IH [OF W(3)] w show ?case by (auto simp: grows_def)
qed (simp add: grows_def)

lemma grows_extends:
  assumes "store_ok X B M d" "store_ok X B M d'" "grows d d'"
  shows "extends X d d'"
proof -
  note S = store_okD [OF assms(1)] and T = store_okD [OF assms(2)]
  have c: "chunk_at X d h = Some b \<Longrightarrow> chunk_at X d' h = Some b"
    and m: "manifest_at X d h = Some b \<Longrightarrow> manifest_at X d' h = Some b" for h b
    using assms(3) by (auto simp: grows_def chunk_at_def manifest_at_def shard_def)
  show ?thesis
    unfolding extends_def
  proof (intro conjI allI impI)
    fix h b assume g: "chunk_get X d h = Inr (Some b)"
    then have wf: "hash_wf h" using chunk_get_wf [OF S(6)] by blast
    then show "chunk_get X d' h = Inr (Some b)"
      using g c by (simp add: chunk_get_ok_iff [OF S(1)] chunk_get_ok_iff [OF T(1)])
  next
    fix i n assume g: "manifest_get X d i = Inr (Some n)"
    then have wf: "hash_wf i" using manifest_get_hash_wf [OF S(6)] by blast
    then obtain b where b: "manifest_at X d i = Some b"
      using g by (cases "manifest_at X d i") (auto simp: manifest_get_eq [OF S(7,5) wf])
    show "manifest_get X d' i = Inr (Some n)"
      using g b m [OF b] by (simp add: manifest_get_eq [OF S(7,5) wf] manifest_get_eq [OF S(7) T(5) wf])
  qed
qed

lemma writes_extend:
  assumes "writes_ok X B M (us @ vs) d"
  shows "store_ok X B M (apply_writes us d)" "extends X d (apply_writes us d)"
proof -
  from assms have us: "writes_ok X B M us d" and vs: "writes_ok X B M vs (apply_writes us d)"
    by (simp_all add: writes_ok_append)
  show ok: "store_ok X B M (apply_writes us d)" using writes_ok_start [OF vs] .
  show "extends X d (apply_writes us d)" by (rule grows_extends [OF writes_ok_start [OF us] ok writes_grow [OF us]])
qed

section \<open>Opening after the crash\<close>

lemma store_ok_contents:
  assumes ok: "store_ok X B M d" and dk: "disk_ok d'"
    and same: "\<And>q. q \<noteq> [FORMAT_FILE] \<Longrightarrow> contents d' q = contents d q"
    and dirs: "\<And>b. fs_lookup d' [pointer_dir, b] = Some Dir \<Longrightarrow> valid_bucket b"
  shows "store_ok X B M d'"
proof -
  have c: "contents d' [a, b, f] = contents d [a, b, f]" "contents d' [a, b] = contents d [a, b]" for a b f
    using same by simp_all
  have at: "manifest_at X d' h = manifest_at X d h" for h by (simp add: manifest_at_def shard_def c)
  show ?thesis
    using ok dk dirs by (simp add: store_ok_def chunks_ok_def manifests_ok_def pointers_ok_def side_ok_def c at)
qed

definition temp_suffix :: "string \<Rightarrow> bool" where
  "temp_suffix s \<longleftrightarrow> ascii s \<and> CHR 0x00 \<notin> set s \<and> length s \<le> 200"

lemma durable_fresh:
  assumes "disk_ok d" "\<forall>q. \<not> is_temp d q" "durable_path p" "temp_suffix sfx"
  shows "fs_lookup d (tmp_path p sfx) = None"
proof (rule ccontr)
  let ?t = "tmp_path p sfx"
  assume "fs_lookup d ?t \<noteq> None"
  have "ascii (TMP_PREFIX @ sfx)" using assms(4) by (simp add: TMP_PREFIX_def temp_suffix_def)
  then have last: "prefix TMP_PREFIX (utf8_lossy (last ?t))" by (simp add: tmp_path_def utf8_lossy_ascii)
  from assms(3) have "good ?t"
  proof (cases rule: durable_cases)
    case deep
    then show ?thesis using assms(3,4) by (auto simp: durable_path_def temp_suffix_def good_def name_error_def
        tmp_path_def TMP_PREFIX_def NAME_MAX_def split: if_splits)
  next
    case flat
    then show ?thesis using assms(3,4) by (auto simp: durable_path_def temp_suffix_def good_def name_error_def
        tmp_path_def TMP_PREFIX_def NAME_MAX_def flat_dirs_def hidden_name_def split: if_splits)
  qed
  then have "fs_lookup d ?t \<noteq> Some Dir" by (rule disk_ok_file(1) [OF assms(1)])
  with \<open>fs_lookup d ?t \<noteq> None\<close> have "is_file_at d ?t"
    by (cases "the (fs_lookup d ?t)") (auto simp: is_file_at_iff)
  with last assms(2) show False by (auto simp: is_temp_def)
qed

lemma durable_kept:
  assumes "disk_ok d" "durable_path p" "\<forall>q. \<not> is_temp d q" "stamp_state X d = Some (Some FORMAT_VERSION)"
  shows "\<forall>q. \<not> is_temp (apply_write (p, bo) d) q" "stamp_state X (apply_write (p, bo) d) = Some (Some FORMAT_VERSION)"
proof -
  have p: "p \<noteq> []" "p \<noteq> [FORMAT_FILE]" "good p" using assms(2) good_plain(2) by (auto simp: durable_path_def)
  show "\<forall>q. \<not> is_temp (apply_write (p, bo) d) q"
  proof (cases bo)
    case None
    then show ?thesis using assms(3) p(1)
      by (auto simp: remove_opt_good [OF assms(1) p(3)] is_temp_def is_file_at_iff fs_lookup_def delete_conv split: if_splits)
  next
    case (Some b)
    then show ?thesis using assms(2,3) p(1)
      by (auto simp: is_temp_def is_file_at_iff lookup_put_file durable_path_def split: if_splits)
  qed
  show "stamp_state X (apply_write (p, bo) d) = Some (Some FORMAT_VERSION)"
    using assms(4) p(2) by (auto simp: stamp_state_def contents_apply_write [OF assms(1) p(3)])
qed

lemma open_clean:
  assumes ok: "store_ok X B M d" and none: "\<forall>q. \<not> is_temp d q" and stamp: "stamp_state X d = Some (Some FORMAT_VERSION)"
  shows "\<exists>e s. open_engine X pol None rng d = (Inr (e, s), disk e) \<and> store_ok X B M (disk e) \<and>
     contents (disk e) = contents d"
proof -
  note dk = store_okD(5) [OF ok]
  from stamp obtain c where c: "contents d [FORMAT_FILE] = Some c" "stamp_of_json X c = Some FORMAT_VERSION"
    by (auto simp: stamp_state_def)
  then have f: "open_format X d = (Inr FORMAT_VERSION, d)"
    by (simp add: open_format_def read_good [OF dk good_format])
  from sweep_temp_exact [OF disk_ok_sane [OF dk]] none obtain d2 where
    2: "sweep_temp d = (Inr 0, d2)" "sane d2" "\<forall>q. fs_lookup d2 q = fs_lookup d q" by auto
  have dk2: "disk_ok d2" using disk_ok_same_lookups [OF _ dk] 2(2,3) by (simp add: sane_def)
  from open_rest [OF dk2, of X rng "\<lparr>format_version = FORMAT_VERSION, recovered_temp = 0\<rparr>"] obtain d3 where
    3: "and_then (open_keys X None rng d2) (\<lambda>_ d.
      and_then (open_dirs [chunk_dir, manifest_dir, pointer_dir, meta_dir, annotation_dir, reverse_dir, webhook_dir] d)
       (\<lambda>_ d. (Inr \<lparr>format_version = FORMAT_VERSION, recovered_temp = 0\<rparr>, d))) =
        (Inr \<lparr>format_version = FORMAT_VERSION, recovered_temp = 0\<rparr>, d3)"
      "disk_ok d3" "contents d3 = contents d2" "\<forall>q. 2 \<le> length q \<longrightarrow> fs_lookup d3 q = fs_lookup d2 q" by blast
  have same: "contents d3 = contents d" using 2(3) 3(3) by (simp add: fun_eq_iff contents_def)
  have "store_ok X B M d3"
    by (rule store_ok_contents [OF ok 3(2)]) (use same 2(3) 3(4) pointers_okD(4) [OF store_okD(3) [OF ok]] in auto)
  with f 2(1) 3(1) same show ?thesis by (auto simp: open_engine_def open_store_def simp del: open_dirs.simps)
qed

text \<open>No temporary file is about and the stamp is current.\<close>

definition settled :: "ext \<Rightarrow> fs \<Rightarrow> bool" where
  "settled X d \<longleftrightarrow> (\<forall>q. \<not> is_temp d q) \<and> stamp_state X d = Some (Some FORMAT_VERSION)"

lemma settled_same: "settled X d \<Longrightarrow> contents d' = contents d \<Longrightarrow> settled X d'"
proof -
  have "is_file_at a q \<longleftrightarrow> contents a q \<noteq> None" for a q
    by (simp add: is_file_at_iff contents_def split: option.split fs_node.split)
  then show "settled X d \<Longrightarrow> contents d' = contents d \<Longrightarrow> settled X d'"
    by (simp add: settled_def is_temp_def stamp_state_def)
qed

lemma steps_settled: "steps_ok X B M ws d \<Longrightarrow> settled X d \<Longrightarrow> settled X (apply_writes ws d)"
proof (induction ws arbitrary: d)
  case (Cons w ws)
  obtain p bo where w: "w = (p, bo)" by force
  from Cons.prems w have W: "disk_ok d" "durable_path p" "\<forall>q. \<not> is_temp d q"
    "stamp_state X d = Some (Some FORMAT_VERSION)" "steps_ok X B M ws (apply_write w d)"
    by (auto simp: settled_def dest: store_okD(5))
  from durable_kept [OF W(1-4), of bo] have "settled X (apply_write w d)" by (simp add: settled_def w)
  with Cons.IH [OF W(5)] show ?case by simp
qed simp

text \<open>Killed during one atomic write: the old file or the new one.\<close>

lemma crash_during:
  assumes ok: "store_ok X B M d" "store_ok X B M (put_file p b d)" and p: "durable_path p"
    and none: "\<forall>q. \<not> is_temp d q" and stamp: "stamp_state X d = Some (Some FORMAT_VERSION)"
    and sfx: "temp_suffix s" and crash: "d1 \<in> set (write_atomic_states s p b d)"
  shows "\<exists>e s. open_engine X pol None rng d1 = (Inr (e, s), disk e) \<and> store_ok X B M (disk e) \<and>
     (contents (disk e) = contents d \<or> contents (disk e) = contents (put_file p b d))"
proof -
  note dk = store_okD(5) [OF ok(1)]
  have P: "good p" "p \<noteq> [FORMAT_FILE]" "\<not> prefix TMP_PREFIX (utf8_lossy (last p))"
    using p by (auto simp: durable_path_def)
  have S: "ascii s" "CHR 0x00 \<notin> set s" "length s \<le> 200" using sfx by (simp_all add: temp_suffix_def)
  from crash_open [OF dk P(1,2) none S durable_fresh [OF dk none p sfx] P(3) _ crash, of X pol rng] stamp obtain e s' where
    e: "open_engine X pol None rng d1 = (Inr (e, s'), disk e)" "disk_ok (disk e)"
      "contents (disk e) = contents d \<or> contents (disk e) = (contents d)(p \<mapsto> b)"
      "\<forall>q. 2 \<le> length q \<longrightarrow> fs_lookup (disk e) q = Some Dir \<longrightarrow> fs_lookup d q = Some Dir \<or> strict_prefix q p"
    by blast
  have dirs: "valid_bucket c" if "fs_lookup (disk e) [pointer_dir, c] = Some Dir" for c
  proof -
    have ne: "p \<noteq> []" "[pointer_dir, c] \<noteq> p" using p by (auto elim!: durable_cases simp: hidden_name_def flat_dirs_def)
    have "fs_lookup d [pointer_dir, c] = Some Dir \<or> strict_prefix [pointer_dir, c] p"
      using e(4) [rule_format, of "[pointer_dir, c]"] that by simp
    moreover have "fs_lookup d q \<noteq> Some (File x)" if "strict_prefix q p" for q x
      using that disk_ok_not_above [OF dk, of p False] P(1) by (auto simp: good_def file_above_iff is_file_at_iff)
    ultimately have "fs_lookup (put_file p b d) [pointer_dir, c] = Some Dir"
      using ne by (cases "fs_lookup d [pointer_dir, c]"; cases "the (fs_lookup d [pointer_dir, c])")
        (auto simp: lookup_put_file)
    then show ?thesis by (rule pointers_okD(4) [OF store_okD(3) [OF ok(2)]])
  qed
  have put: "contents (put_file p b d) = (contents d)(p \<mapsto> b)" using contents_put_file [OF P(1)] by auto
  have "store_ok X B M (disk e)" if "contents (disk e) = contents d'" "store_ok X B M d'" for d'
    by (rule store_ok_contents [OF that(2) e(2) _ dirs]) (simp add: that)
  with e(3) ok have "store_ok X B M (disk e)" unfolding put [symmetric] by blast
  with e(1,3) put show ?thesis by auto
qed

text \<open>
  Whatever instruction the process was killed at, the next open gives a well-formed store with the
  contents some whole number of the changes left.
\<close>

lemma crash_between:
  assumes "steps_ok X B M ws d" "\<forall>q. \<not> is_temp d q" "stamp_state X d = Some (Some FORMAT_VERSION)"
    and "\<forall>i. temp_suffix (sfx i)" "d1 \<in> set (crash_states sfx ws d)"
  shows "\<exists>us vs e s. ws = us @ vs \<and> open_engine X pol None rng d1 = (Inr (e, s), disk e) \<and>
     store_ok X B M (disk e) \<and> contents (disk e) = contents (apply_writes us d)"
  using assms
proof (induction ws arbitrary: d sfx)
  case Nil
  then show ?case using open_clean [of X B M d pol rng] by auto
next
  case (Cons w ws)
  obtain p bo where w: "w = (p, bo)" by force
  from Cons.prems(1) w have W: "store_ok X B M d" "durable_path p" "steps_ok X B M ws (apply_write w d)" by auto
  have now: ?case if "open_engine X pol None rng d1 = (Inr (e, s), disk e)" "store_ok X B M (disk e)"
    "contents (disk e) = contents (apply_writes us d)" "us = [] \<or> us = [w]" for e s us
    using that by (intro exI [of _ us] exI [of _ "if us = [] then w # ws else ws"]) auto
  have later: ?case if "d1 \<in> set (crash_states (\<lambda>i. sfx (Suc i)) ws (apply_write w d))"
  proof -
    have "\<forall>i. temp_suffix (sfx (Suc i))" using Cons.prems(4) by simp
    from Cons.IH [OF W(3) durable_kept [OF store_okD(5) [OF W(1)] W(2) Cons.prems(2,3), of bo, folded w] this that]
    obtain us vs e s where "ws = us @ vs" "open_engine X pol None rng d1 = (Inr (e, s), disk e)" "store_ok X B M (disk e)"
      "contents (disk e) = contents (apply_writes us (apply_write w d))" by blast
    then show ?thesis by (intro exI [of _ "w # us"] exI [of _ vs]) auto
  qed
  show ?case
  proof (cases bo)
    case None
    then have "d1 = d \<or> d1 \<in> set (crash_states (\<lambda>i. sfx (Suc i)) ws (apply_write w d))"
      using Cons.prems(5) w by auto
    then show ?thesis
    proof
      assume "d1 = d"
      with open_clean [OF W(1) Cons.prems(2,3), of pol rng] obtain e s where
        "open_engine X pol None rng d1 = (Inr (e, s), disk e)" "store_ok X B M (disk e)"
        "contents (disk e) = contents (apply_writes [] d)" by auto
      then show ?thesis by (rule now) simp
    qed (rule later)
  next
    case (Some b)
    have "d1 \<in> set (write_atomic_states (sfx 0) p b d) \<or> d1 \<in> set (crash_states (\<lambda>i. sfx (Suc i)) ws (apply_write w d))"
      using Cons.prems(5) by (simp add: w Some)
    then show ?thesis
    proof
      assume at: "d1 \<in> set (write_atomic_states (sfx 0) p b d)"
      have "temp_suffix (sfx 0)" using Cons.prems(4) by simp
      from crash_during [OF W(1) steps_ok_start [OF W(3), unfolded w Some, simplified] W(2) Cons.prems(2,3) this at, of pol rng]
      obtain e s where "open_engine X pol None rng d1 = (Inr (e, s), disk e)" "store_ok X B M (disk e)"
        "contents (disk e) = contents (apply_writes [] d) \<or> contents (disk e) = contents (apply_writes [w] d)"
        by (auto simp: w Some)
      then show ?thesis using now by metis
    qed (rule later)
  qed
qed

section \<open>The writes of a put\<close>

definition chunk_writes :: "ext \<Rightarrow> bytes \<Rightarrow> fs \<Rightarrow> file_write list" where
  "chunk_writes X b d =
     (let p = shard X chunk_dir (hash_of X b) in if fs_exists d p then [] else [(p, Some b)])"

definition manifest_writes :: "ext \<Rightarrow> manifest \<Rightarrow> fs \<Rightarrow> file_write list" where
  "manifest_writes X m d =
     (let p = shard X manifest_dir (manifest_id X m)
      in if fs_exists d p then [] else [(p, Some (manifest_to_json X (with_id X m)))])"

definition pointer_writes :: "ext \<Rightarrow> string \<Rightarrow> string \<Rightarrow> hash \<Rightarrow> fs \<Rightarrow> file_write list" where
  "pointer_writes X b k i d = [(pointer_file X b k, Some (as_bytes (entry_lines X (log_at X d b k @ [i]))))]"

definition reverse_writes :: "ext \<Rightarrow> hash \<Rightarrow> string \<Rightarrow> string \<Rightarrow> fs \<Rightarrow> file_write list" where
  "reverse_writes X i b k d =
     (case reverse_get X d i of
        Inl err \<Rightarrow> []
      | Inr ls \<Rightarrow> if (b, k) \<in> set ls then [] else [(shard X reverse_dir i, Some (locations_to_json X (ls @ [(b, k)])))])"

fun chunks_writes :: "ext \<Rightarrow> bytes list \<Rightarrow> fs \<Rightarrow> file_write list" where
  "chunks_writes X [] d = []"
| "chunks_writes X (enc # encs) d = chunk_writes X enc d @ chunks_writes X encs (snd (chunk_put X enc d))"

text \<open>What comes before the version log is written, and the whole put.\<close>

definition staging_writes :: "ext \<Rightarrow> manifest \<Rightarrow> bytes list \<Rightarrow> fs \<Rightarrow> file_write list" where
  "staging_writes X m encs d =
     (let cs = chunks_writes X encs d in cs @ manifest_writes X m (apply_writes cs d))"

definition commit_writes :: "ext \<Rightarrow> string \<Rightarrow> string \<Rightarrow> hash \<Rightarrow> file_write list \<Rightarrow> fs \<Rightarrow> file_write list" where
  "commit_writes X b k i ss d =
     (let ps = pointer_writes X b k i (apply_writes ss d)
      in ss @ ps @ reverse_writes X i b k (apply_writes (ss @ ps) d))"

definition put_writes :: "ext \<Rightarrow> string \<Rightarrow> string \<Rightarrow> manifest \<Rightarrow> bytes list \<Rightarrow> fs \<Rightarrow> file_write list" where
  "put_writes X b k m encs d = commit_writes X b k (manifest_id X m) (staging_writes X m encs d) d"

lemma durable_shard: "hex_ok X \<Longrightarrow> hash_wf h \<Longrightarrow> t \<in> set nested_dirs \<Longrightarrow> durable_path (shard X t h)"
proof -
  assume a: "hex_ok X" "hash_wf h" "t \<in> set nested_dirs"
  have "ascii (to_hex X h)" using a(1) ascii_hex_encode by (simp add: to_hex_def)
  then show ?thesis
    using good_shard [OF a] to_hex_plain(1,2) [OF a(1,2)]
    by (cases "to_hex X h") (auto simp: durable_path_def shard_def utf8_lossy_ascii TMP_PREFIX_def starts_with_char_def)
qed

lemma durable_pointer: "hex_ok X \<Longrightarrow> valid_bucket b \<Longrightarrow> valid_key k \<Longrightarrow> durable_path (pointer_file X b k)"
proof -
  assume a: "hex_ok X" "valid_bucket b" "valid_key k"
  have dot: "CHR ''.'' \<notin> set (hex_encode X (as_bytes k))" using hex_encode_chars(1) [OF a(1)] by blast
  have "\<not> prefix TMP_PREFIX (hex_encode X (as_bytes k))"
  proof
    assume "prefix TMP_PREFIX (hex_encode X (as_bytes k))"
    then have "set TMP_PREFIX \<subseteq> set (hex_encode X (as_bytes k))" by (rule set_mono_prefix)
    with dot show False by (simp add: TMP_PREFIX_def)
  qed
  then show ?thesis
    using good_pointer [OF a] ascii_hex_encode [OF a(1)]
    by (simp add: durable_path_def pointer_file_def utf8_lossy_ascii)
qed

lemma chunk_writes_ok:
  assumes ok: "store_ok X B M d" and b: "b \<in> B"
  shows "snd (chunk_put X b d) = apply_writes (chunk_writes X b d) d" "writes_ok X B M (chunk_writes X b d) d"
proof -
  note S = store_okD [OF ok]
  have g: "good (shard X chunk_dir (hash_of X b))" using S by (simp add: good_shard)
  have ex: "fs_exists d (shard X chunk_dir (hash_of X b)) \<longleftrightarrow> chunk_at X d (hash_of X b) \<noteq> None"
    using exists_good [OF S(5) g] by (simp add: chunk_at_def)
  show eq: "snd (chunk_put X b d) = apply_writes (chunk_writes X b d) d"
    using ex by (simp add: chunk_put_eq [OF S(6,7,5)] chunk_writes_def Let_def)
  from chunk_put_step [OF ok b] have "store_ok X B M (snd (chunk_put X b d))" by auto
  then show "writes_ok X B M (chunk_writes X b d) d"
    using ok ex S durable_shard [OF S(7), of "hash_of X b" chunk_dir]
    by (auto simp: eq chunk_writes_def Let_def chunk_at_def)
qed

lemma manifest_writes_ok:
  assumes ok: "store_ok X B M d" and m: "manifest_storable X M m"
  shows "snd (manifest_put X m d) = apply_writes (manifest_writes X m d) d" "writes_ok X B M (manifest_writes X m d) d"
proof -
  note S = store_okD [OF ok]
  have g: "good (shard X manifest_dir (manifest_id X m))" using S by (simp add: good_shard)
  have ex: "fs_exists d (shard X manifest_dir (manifest_id X m)) \<longleftrightarrow> manifest_at X d (manifest_id X m) \<noteq> None"
    using exists_good [OF S(5) g] by (simp add: manifest_at_def)
  show eq: "snd (manifest_put X m d) = apply_writes (manifest_writes X m d) d"
    using ex by (simp add: manifest_put_eq [OF S(6,7,5)] manifest_writes_def Let_def)
  from manifest_put_step [OF ok m] have "store_ok X B M (snd (manifest_put X m d))" by auto
  then show "writes_ok X B M (manifest_writes X m d) d"
    using ok ex S durable_shard [OF S(7), of "manifest_id X m" manifest_dir]
    by (auto simp: eq manifest_writes_def Let_def manifest_at_def)
qed

lemma pointer_writes_ok:
  assumes ok: "store_ok X B M d" and v: "valid_bucket b" "valid_key k" "hash_wf i"
  shows "snd (pointer_set X b k i d) = apply_writes (pointer_writes X b k i d) d"
    "writes_ok X B M (pointer_writes X b k i d) d"
proof -
  note S = store_okD [OF ok]
  obtain r d' where set: "pointer_set X b k i d = (r, d')" by force
  from pointer_set_ok(4) [OF S(3) v set] set
  show eq: "snd (pointer_set X b k i d) = apply_writes (pointer_writes X b k i d) d"
    by (simp add: pointer_writes_def)
  from pointer_set_step [OF ok v] have "store_ok X B M (snd (pointer_set X b k i d))" by auto
  then show "writes_ok X B M (pointer_writes X b k i d) d"
    using ok durable_pointer [OF S(7) v(1,2)] by (auto simp: eq pointer_writes_def pointer_file_def)
qed

lemma reverse_writes_ok:
  assumes ok: "store_ok X B M d" and i: "hash_wf i"
  shows "snd (reverse_add X i b k d) = apply_writes (reverse_writes X i b k d) d"
    "writes_ok X B M (reverse_writes X i b k d) d"
proof -
  note S = store_okD [OF ok]
  have g: "good (shard X reverse_dir i)" using S i by (simp add: good_shard)
  from reverse_add_step [OF ok i, of b k] obtain d' where r: "reverse_add X i b k d = (Inr (), d')" "store_ok X B M d'"
    by blast
  then obtain ls where ls: "reverse_get X d i = Inr ls" by (auto simp: reverse_add_def elim!: and_thenE)
  show eq: "snd (reverse_add X i b k d) = apply_writes (reverse_writes X i b k d) d"
    using ls by (simp add: reverse_add_def reverse_writes_def write_good [OF S(5) g])
  then show "writes_ok X B M (reverse_writes X i b k d) d"
    using ok r durable_shard [OF S(7) i, of reverse_dir] ls
    by (auto simp: reverse_writes_def shard_def split: if_splits)
qed

lemma chunks_writes_ok:
  assumes "store_ok X B M d" "set encs \<subseteq> B"
  shows "writes_ok X B M (chunks_writes X encs d) d"
    "\<forall>enc \<in> set encs. chunk_get X (apply_writes (chunks_writes X encs d) d) (hash_of X enc) = Inr (Some enc)"
proof -
  have "writes_ok X B M (chunks_writes X encs d) d \<and>
    (\<forall>enc \<in> set encs. chunk_get X (apply_writes (chunks_writes X encs d) d) (hash_of X enc) = Inr (Some enc))"
    using assms
  proof (induction encs arbitrary: d)
    case (Cons enc encs)
    have B: "enc \<in> B" "set encs \<subseteq> B" using Cons.prems(2) by auto
    note w = chunk_writes_ok [OF Cons.prems(1) B(1)]
    from chunk_put_step [OF Cons.prems(1) B(1)] obtain d1 where 1: "chunk_put X enc d = (Inr (hash_of X enc), d1)"
      "store_ok X B M d1" "chunk_at X d1 (hash_of X enc) = Some enc" by blast
    note S1 = store_okD [OF 1(2)]
    have d1: "apply_writes (chunk_writes X enc d) d = d1" using w(1) 1(1) by simp
    note IH = Cons.IH [OF 1(2) B(2)]
    have "extends X d1 (apply_writes (chunks_writes X encs d1) d1)"
      using writes_extend(2) [of X B M "chunks_writes X encs d1" "[]" d1] IH by simp
    moreover have "chunk_get X d1 (hash_of X enc) = Inr (Some enc)"
      using 1(3) S1(6) by (simp add: chunk_get_ok_iff [OF S1(1)])
    ultimately show ?case using w(2) IH 1(1) by (simp add: writes_ok_append d1 extends_def)
  qed simp
  then show "writes_ok X B M (chunks_writes X encs d) d"
    "\<forall>enc \<in> set encs. chunk_get X (apply_writes (chunks_writes X encs d) d) (hash_of X enc) = Inr (Some enc)" by auto
qed

text \<open>What a directory no write goes to looks like afterwards.\<close>

definition outside :: "string list \<Rightarrow> file_write list \<Rightarrow> bool" where
  "outside ts ws \<longleftrightarrow> (\<forall>(p, b) \<in> set ws. hd p \<notin> set ts)"

lemma outside_simps [simp]:
  "outside ts []" "outside ts (us @ vs) \<longleftrightarrow> outside ts us \<and> outside ts vs"
  "outside ts (w # ws) \<longleftrightarrow> hd (fst w) \<notin> set ts \<and> outside ts ws"
  by (auto simp: outside_def)

lemma outside_mono: "outside ts ws \<Longrightarrow> set us \<subseteq> set ts \<Longrightarrow> outside us ws"
  by (fastforce simp: outside_def)

lemma writes_outside:
  assumes "writes_ok X B M ws d" "outside ts ws" "t \<in> set ts"
  shows "contents (apply_writes ws d) (t # q) = contents d (t # q)"
  using assms(1,2)
proof (induction ws arbitrary: d)
  case (Cons w ws)
  obtain p bo where w: "w = (p, bo)" by force
  from Cons.prems w have p: "disk_ok d" "good p" "t # q \<noteq> p" "writes_ok X B M ws (apply_write w d)" "outside ts ws"
    using assms(3) by (auto simp: durable_path_def outside_def dest: store_okD(5))
  with Cons.IH [of "apply_write w d"] w show ?case by (simp add: contents_apply_write)
qed simp

lemma logs_outside: "writes_ok X B M ws d \<Longrightarrow> outside [pointer_dir] ws \<Longrightarrow> log_at X (apply_writes ws d) b k = log_at X d b k"
  using writes_outside [of X B M ws d "[pointer_dir]"] by (simp add: log_at_def pointer_file_def)

lemma outside_writes:
  "outside [pointer_dir, reverse_dir] (chunks_writes X encs d)"
  "outside [pointer_dir, reverse_dir] (manifest_writes X m d)"
  "outside [chunk_dir, manifest_dir, pointer_dir] (reverse_writes X i b k d)"
  "outside [chunk_dir, manifest_dir] (pointer_writes X b k i d)"
proof -
  have "outside [pointer_dir, reverse_dir] (chunk_writes X enc d)" for enc d
    by (simp add: outside_def chunk_writes_def shard_def Let_def)
  then show "outside [pointer_dir, reverse_dir] (chunks_writes X encs d)"
    by (induction encs arbitrary: d) simp_all
  show "outside [pointer_dir, reverse_dir] (manifest_writes X m d)"
    by (simp add: outside_def manifest_writes_def shard_def Let_def)
  show "outside [chunk_dir, manifest_dir, pointer_dir] (reverse_writes X i b k d)"
    by (auto simp: outside_def reverse_writes_def shard_def split: sum.split)
  show "outside [chunk_dir, manifest_dir] (pointer_writes X b k i d)"
    by (simp add: outside_def pointer_writes_def pointer_file_def)
qed

section \<open>The put model performs these writes\<close>

lemma put_loop_disk:
  assumes "store_ok X B M (disk e)" "encodes X c B items encs" "put_loop X c items p e = (r, p', e')"
  shows "disk e' = apply_writes (chunks_writes X encs (disk e)) (disk e)"
  using assms
proof (induction items arbitrary: encs p e)
  case Nil
  then show ?case by (simp add: encodes_def)
next
  case (Cons it items)
  obtain h b where it: "it = (h, b)" by force
  from Cons.prems(2) obtain enc encs' where
    enc: "encs = enc # encs'" "codec_encode X c b = Inr enc" "enc \<in> B" "encodes X c B items encs'"
    by (auto simp: encodes_def list_all2_Cons1 it)
  from chunk_put_step [OF Cons.prems(1) enc(3)] obtain d1 where
    1: "chunk_put X enc (disk e) = (Inr (hash_of X enc), d1)" "store_ok X B M d1" by blast
  let ?p = "p\<lparr>pr_chunks := pr_chunks p @ [hash_of X enc], pr_stored := pr_stored p + length enc\<rparr>"
  let ?e = "pin_chunk (hash_of X enc) (e\<lparr>disk := d1\<rparr>)"
  have "store_chunk X c b p e = (Inr ?p, ?e)" using enc(2) 1(1) by (simp add: store_chunk_def on_disk_def)
  then have run: "put_loop X c items ?p ?e = (r, p', e')" using Cons.prems(3) by (simp add: it)
  have ok: "store_ok X B M (disk ?e)" using 1(2) by (simp add: pin_chunk_def)
  from Cons.IH [OF ok enc(4) run] show ?case
    using 1(1) chunk_writes_ok(1) [OF Cons.prems(1) enc(3)] by (simp add: enc(1) pin_chunk_def)
qed

text \<open>The writes after the chunks, as \<open>finalize_write\<close> makes them.\<close>

lemma staging_ok:
  assumes ok: "store_ok X B M d" and B: "set encs \<subseteq> B" and m: "manifest_storable X M m"
  shows "writes_ok X B M (staging_writes X m encs d) d"
    "apply_writes (staging_writes X m encs d) d = snd (manifest_put X m (apply_writes (chunks_writes X encs d) d))"
proof -
  note cw = chunks_writes_ok(1) [OF ok B]
  have ok1: "store_ok X B M (apply_writes (chunks_writes X encs d) d)"
    using writes_extend(1) [of X B M "chunks_writes X encs d" "[]"] cw by simp
  from manifest_writes_ok [OF ok1 m] cw
  show "writes_ok X B M (staging_writes X m encs d) d"
    "apply_writes (staging_writes X m encs d) d = snd (manifest_put X m (apply_writes (chunks_writes X encs d) d))"
    by (simp_all add: staging_writes_def Let_def writes_ok_append)
qed

lemma commit_writes_ok:
  assumes ss: "writes_ok X B M ss d" and v: "valid_bucket b" "valid_key k" "hash_wf i"
  shows "writes_ok X B M (commit_writes X b k i ss d) d"
    "apply_writes (commit_writes X b k i ss d) d =
       snd (reverse_add X i b k (snd (pointer_set X b k i (apply_writes ss d))))"
proof -
  let ?d2 = "apply_writes ss d"
  have ok2: "store_ok X B M ?d2" using writes_extend(1) [of X B M ss "[]"] ss by simp
  note p = pointer_writes_ok [OF ok2 v]
  have ok3: "store_ok X B M (apply_writes (pointer_writes X b k i ?d2) ?d2)"
    using writes_extend(1) [of X B M "pointer_writes X b k i ?d2" "[]"] p(2) by simp
  note r = reverse_writes_ok [OF ok3 v(3), of b k]
  show "writes_ok X B M (commit_writes X b k i ss d) d"
    "apply_writes (commit_writes X b k i ss d) d = snd (reverse_add X i b k (snd (pointer_set X b k i ?d2)))"
    using ss p r by (simp_all add: commit_writes_def Let_def writes_ok_append)
qed

lemma put_writes_ok:
  assumes ok: "store_ok X B M d" and v: "valid_bucket b" "valid_key k" and B: "set encs \<subseteq> B"
    and m: "manifest_storable X M m"
  shows "writes_ok X B M (put_writes X b k m encs d) d"
    "apply_writes (put_writes X b k m encs d) d = snd (reverse_add X (manifest_id X m) b k
       (snd (pointer_set X b k (manifest_id X m) (apply_writes (staging_writes X m encs d) d))))"
  unfolding put_writes_def using commit_writes_ok [OF staging_ok(1) [OF ok B m] v] store_okD(6) [OF ok] by simp_all

lemma finalize_disk:
  assumes "finalize_write X b k ct ep cs stored orig sha t e = (Inr i, e')"
  shows "disk e' = snd (reverse_add X i b k (snd (pointer_set X b k i
     (snd (manifest_put X (new_manifest X e ct ep cs stored orig sha t) (disk e))))))"
proof -
  from assms obtain d1 d2 d3 where "manifest_put X (new_manifest X e ct ep cs stored orig sha t) (disk e) = (Inr i, d1)"
    "pointer_set X b k i d1 = (Inr (), d2)" "reverse_add X i b k d2 = (Inr (), d3)" "e' = e\<lparr>disk := d3\<rparr>"
    by (auto simp: finalize_write_def on_disk_Inr_iff elim!: and_thenE)
  then show ?thesis by simp
qed

lemma put_disk:
  assumes ok: "store_ok X B M (disk e)" and v: "valid_bucket b" "valid_key k"
    and ep: "effective_policy X b ct e = Inr ep" and enc: "encodes X (ep_codec ep) B (chunk_split X data) encs"
    and M: "manifest_body X (put_manifest X e ct ep encs data t) \<in> M"
    and run: "put X b k data ct clock t e = (Inr i, e')"
  shows "disk e' = apply_writes (put_writes X b k (put_manifest X e ct ep encs data t) encs (disk e)) (disk e)"
    "writes_ok X B M (put_writes X b k (put_manifest X e ct ep encs data t) encs (disk e)) (disk e)"
    "manifest_storable X M (put_manifest X e ct ep encs data t)" "i = manifest_id X (put_manifest X e ct ep encs data t)"
proof -
  note S = store_okD [OF ok]
  let ?m = "put_manifest X e ct ep encs data t"
  show m: "manifest_storable X M ?m"
    unfolding put_manifest_def
    by (rule new_manifest_storable) (use S(6,8) M in \<open>simp_all add: list_all_iff put_manifest_def\<close>)
  have B: "set encs \<subseteq> B" using enc by (simp add: encodes_def)
  from put_loop_ok [OF ok enc, of no_progress] obtain d ps where
    l: "put_loop X (ep_codec ep) (chunk_split X data) no_progress e =
       (Inr (), no_progress\<lparr>pr_chunks := pr_chunks no_progress @ map (hash_of X) encs,
                            pr_stored := pr_stored no_progress + sum_list (map length encs)\<rparr>,
        e\<lparr>disk := d, pinned := ps\<rparr>)" by blast
  have d: "d = apply_writes (chunks_writes X encs (disk e)) (disk e)" using put_loop_disk [OF ok enc l] by simp
  let ?e1 = "e\<lparr>disk := d, pinned := ps\<rparr>"
  have m1: "new_manifest X ?e1 ct ep (map (hash_of X) encs) (sum_list (map length encs)) (length data)
      (sha256_hex X data) t = ?m"
    using new_manifest_policy [of ?e1 e X] by (simp add: put_manifest_def)
  from run ep l obtain e2 where f: "finalize_write X b k ct ep (map (hash_of X) encs) (sum_list (map length encs))
      (length data) (sha256_hex X data) t ?e1 = (Inr i, e2)" "disk e' = disk e2"
    by (auto simp: put_def elim!: and_thenE split: sum.splits prod.splits)
  from f(1) have i: "i = manifest_id X ?m"
    unfolding finalize_write_def m1
    by (auto simp: on_disk_Inr_iff manifest_put_def Let_def elim!: and_thenE split: if_splits)
  show "i = manifest_id X ?m" by fact
  note pw = put_writes_ok [OF ok v B m]
  show "writes_ok X B M (put_writes X b k ?m encs (disk e)) (disk e)" by (rule pw(1))
  show "disk e' = apply_writes (put_writes X b k ?m encs (disk e)) (disk e)"
    using finalize_disk [OF f(1), unfolded m1] f(2) i by (simp add: pw(2) staging_ok(2) [OF ok B m] d)
qed

section \<open>All or nothing\<close>

text \<open>Changes of which only one is to a version log: what comes before and after is not to be seen.\<close>

definition single_commit :: "file_write list \<Rightarrow> bool" where
  "single_commit ws \<longleftrightarrow> (\<exists>ss ps rs. ws = ss @ ps @ rs \<and> length ps \<le> 1 \<and>
     outside [pointer_dir] ss \<and> outside [chunk_dir, manifest_dir, pointer_dir] rs)"

lemma single_commit_cases:
  assumes "single_commit (us @ vs)"
  shows "outside [pointer_dir] us \<or> outside [chunk_dir, manifest_dir, pointer_dir] vs"
proof -
  from assms obtain ss ps rs where w: "us @ vs = ss @ ps @ rs" "length ps \<le> 1"
    "outside [pointer_dir] ss" "outside [chunk_dir, manifest_dir, pointer_dir] rs" unfolding single_commit_def by blast
  then consider zs where "ss = us @ zs" | zs where "us = ss @ zs" "ps @ rs = zs @ vs"
    by (auto simp: append_eq_append_conv2)
  then show ?thesis
  proof cases
    case 1
    with w(3) show ?thesis by simp
  next
    case 2
    then show ?thesis using w(2-4) by (cases ps; cases zs) auto
  qed
qed

lemma same_grows:
  assumes "\<And>q. q \<noteq> [FORMAT_FILE] \<Longrightarrow> contents d' q = contents d q"
  shows "grows d d'"
proof -
  have "q \<noteq> [FORMAT_FILE]" if "hd q \<in> {chunk_dir, manifest_dir}" for q using that by (auto simp: FORMAT_FILE_def)
  with assms show ?thesis by (auto simp: grows_def)
qed

lemma crash_commit:
  assumes v: "vault_ok X B M e" and v1: "vault_ok X B M e1"
    and ws: "writes_ok X B M ws (disk e)" "disk e1 = apply_writes ws (disk e)" "single_commit ws"
    and none: "\<forall>q. \<not> is_temp (disk e) q" and stamp: "stamp_state X (disk e) = Some (Some FORMAT_VERSION)"
    and sfx: "\<forall>i. temp_suffix (sfx i)" and crash: "d1 \<in> set (crash_states sfx ws (disk e))"
  shows "\<exists>e' s. open_engine X pol None rng d1 = (Inr (e', s), disk e') \<and> vault_ok X B M e' \<and>
     (vault_of X e' = vault_of X e \<or> vault_of X e' = vault_of X e1)"
proof -
  note V = vault_okD [OF v] and V1 = vault_okD [OF v1]
  from crash_between [OF writes_steps [OF ws(1)] none stamp sfx crash, of pol rng] obtain us vs e' s where
    c: "ws = us @ vs" "open_engine X pol None rng d1 = (Inr (e', s), disk e')" "store_ok X B M (disk e')"
      "contents (disk e') = contents (apply_writes us (disk e))" by blast
  let ?d = "apply_writes us (disk e)"
  have wok: "writes_ok X B M (us @ vs) (disk e)" using ws(1) c(1) by simp
  then have us: "writes_ok X B M us (disk e)" and vs: "writes_ok X B M vs ?d"
    by (simp_all add: writes_ok_append)
  note U = writes_extend [OF wok]
  have log': "log_at X (disk e') x j = log_at X ?d x j" for x j
    using c(4) by (simp add: log_at_def pointer_file_def)
  have ext_e': "extends X ?d (disk e')"
    by (rule grows_extends [OF U(1) c(3) same_grows]) (use c(4) in simp)
  have ok': "vault_ok X B M e'" if "whole X e'" using V(1,2) c(3) that by (simp add: vault_ok_def)
  have e1: "disk e1 = apply_writes vs ?d" using ws(2) c(1) by simp
  from single_commit_cases [OF ws(3) [unfolded c(1)]] show ?thesis
  proof
    assume o: "outside [pointer_dir] us"
    have "keeps_versions X e e'" using extends_trans [OF U(2) ext_e'] keeps_extends by blast
    from vault_same [OF V(4) this] log' logs_outside [OF us o] ok' c(2) show ?thesis by auto
  next
    assume o: "outside [chunk_dir, manifest_dir, pointer_dir] vs"
    have agreed: "contents (disk e1) (x # q) = contents ?d (x # q)" if "x \<in> {chunk_dir, manifest_dir, pointer_dir}" for x q
      using writes_outside [OF vs o] that unfolding e1 by simp
    have "contents ?d q = Some x" if "hd q \<in> {chunk_dir, manifest_dir}" "contents (disk e1) q = Some x" for q x
      using that agreed [of "hd q" "tl q"] by (cases q) (auto simp: contents_def fs_lookup_def)
    then have "grows (disk e1) ?d" by (simp add: grows_def)
    from grows_extends [OF V1(3) U(1) this] have "extends X (disk e1) (disk e')" using ext_e' extends_trans by blast
    then have "keeps_versions X e1 e'" by (rule keeps_extends)
    moreover have "log_at X (disk e') x j = log_at X (disk e1) x j" for x j
      using log' agreed [of pointer_dir] by (simp add: log_at_def pointer_file_def)
    ultimately show ?thesis using vault_same [OF V1(4), of e'] ok' c(2) by auto
  qed
qed

end
