(* ===== verification/Crash_Lifecycle.thy ===== *)
theory Crash_Lifecycle
  imports Crash
begin

text \<open>
  The lifecycle pass as a sequence of file changes, one for each key it expires or trims, and what a crash
  in the middle of the pass leaves.
\<close>

section \<open>The changes of a pass\<close>

definition trim_writes :: "ext \<Rightarrow> string \<Rightarrow> string \<Rightarrow> nat \<Rightarrow> fs \<Rightarrow> file_write list" where
  "trim_writes X b k keep d =
     (let hs = log_at X d b k in
      if keep = 0 \<or> length hs \<le> keep then []
      else [(pointer_file X b k, Some (as_bytes (entry_lines X (drop (length hs - keep) hs))))])"

definition key_writes :: "ext \<Rightarrow> string \<Rightarrow> nat \<Rightarrow> nat \<Rightarrow> nat \<Rightarrow> string \<Rightarrow> engine \<Rightarrow> file_write list" where
  "key_writes X b keep days now k e =
     (case (if 0 < days then expired X b k days now e else Inr False) of
        Inl err \<Rightarrow> []
      | Inr gone \<Rightarrow> if gone then [(pointer_file X b k, None)] else trim_writes X b k keep (disk e))"

fun keys_writes :: "ext \<Rightarrow> string \<Rightarrow> nat \<Rightarrow> nat \<Rightarrow> nat \<Rightarrow> string list \<Rightarrow> engine \<Rightarrow> file_write list" where
  "keys_writes X b keep days now [] e = []"
| "keys_writes X b keep days now (k # ks) e =
     key_writes X b keep days now k e @ keys_writes X b keep days now ks (snd (lifecycle_key X b keep days now k e))"

definition pot_writes :: "ext \<Rightarrow> nat \<Rightarrow> string \<Rightarrow> engine \<Rightarrow> file_write list" where
  "pot_writes X now b e =
     (case (get_bucket_config X e b, keys X e b) of
        (Inr cfg, Inr ks) \<Rightarrow>
          if keep_of cfg = 0 \<and> days_of cfg = 0 then [] else keys_writes X b (keep_of cfg) (days_of cfg) now ks e
      | _ \<Rightarrow> [])"

fun pots_writes :: "ext \<Rightarrow> nat \<Rightarrow> string list \<Rightarrow> engine \<Rightarrow> file_write list" where
  "pots_writes X now [] e = []"
| "pots_writes X now (b # bs) e =
     pot_writes X now b e @ pots_writes X now bs (snd (lifecycle_pots X now [b] e))"

definition lifecycle_writes :: "ext \<Rightarrow> nat \<Rightarrow> engine \<Rightarrow> file_write list" where
  "lifecycle_writes X now e = (case buckets e of Inl err \<Rightarrow> [] | Inr bs \<Rightarrow> pots_writes X now bs e)"

section \<open>What an operation does to the disk, as changes\<close>

definition performs :: "ext \<Rightarrow> bytes set \<Rightarrow> bytes set \<Rightarrow> file_write list \<Rightarrow> engine \<Rightarrow> engine \<Rightarrow> bool" where
  "performs X B M ws e e1 \<longleftrightarrow> writes_ok X B M ws (disk e) \<and> disk e1 = apply_writes ws (disk e)"

lemma performs_none: "vault_ok X B M e \<Longrightarrow> disk e1 = disk e \<Longrightarrow> performs X B M [] e e1"
  by (simp add: performs_def vault_okD(3))

lemma performs_trans:
  "performs X B M us e e1 \<Longrightarrow> performs X B M vs e1 e2 \<Longrightarrow> performs X B M (us @ vs) e e2"
  by (auto simp: performs_def writes_ok_append)

section \<open>Changes of different version logs\<close>

definition log_changes :: "ext \<Rightarrow> (string \<times> string) set \<Rightarrow> file_write list \<Rightarrow> bool" where
  "log_changes X P ws \<longleftrightarrow> distinct (map fst ws) \<and> set (map fst ws) \<subseteq> (\<lambda>(b, k). pointer_file X b k) ` P"

lemma log_changes_append:
  assumes "log_changes X P us" "log_changes X Q vs" "P \<inter> Q = {}" "hex_ok X"
  shows "log_changes X (P \<union> Q) (us @ vs)"
proof -
  let ?f = "\<lambda>(b, k). pointer_file X b k"
  have "?f p = ?f q \<longleftrightarrow> p = q" for p q
    using assms(4) by (cases p; cases q) (simp add: pointer_file_def hex_okD)
  then have "?f ` P \<inter> ?f ` Q = {}" using assms(3) by auto
  moreover have "set (map fst us) \<subseteq> ?f ` P" "set (map fst vs) \<subseteq> ?f ` Q" "distinct (map fst us)" "distinct (map fst vs)"
    using assms(1,2) by (simp_all only: log_changes_def)
  ultimately show ?thesis unfolding log_changes_def map_append set_append distinct_append image_Un by blast
qed

lemma log_changes_outside: "log_changes X P ws \<Longrightarrow> t \<noteq> pointer_dir \<Longrightarrow> outside [t] ws"
  by (fastforce simp: log_changes_def outside_def pointer_file_def)

lemma log_changes_mono: "log_changes X P ws \<Longrightarrow> P \<subseteq> Q \<Longrightarrow> log_changes X Q ws"
  unfolding log_changes_def by blast

text \<open>Each file is as before or as after.\<close>

lemma contents_either:
  assumes "writes_ok X B M (us @ vs) d" "distinct (map fst (us @ vs))"
  shows "contents (apply_writes us d) q = contents d q \<or> contents (apply_writes us d) q = contents (apply_writes (us @ vs) d) q"
proof (cases "q \<in> fst ` set us")
  case True
  then have "q \<notin> fst ` set vs" using assms(2) by auto
  with steps_untouched [OF writes_steps, of X B M vs "apply_writes us d"] assms(1) show ?thesis by (simp add: writes_ok_append)
next
  case False
  with steps_untouched [OF writes_steps, of X B M us d] assms(1) show ?thesis by (simp add: writes_ok_append)
qed

lemma crash_logs:
  assumes v: "vault_ok X B M e" and v1: "vault_ok X B M e1"
    and ws: "performs X B M ws e e1" "log_changes X P ws"
    and none: "\<forall>q. \<not> is_temp (disk e) q" and stamp: "stamp_state X (disk e) = Some (Some FORMAT_VERSION)"
    and sfx: "\<forall>i. temp_suffix (sfx i)" and crash: "d1 \<in> set (crash_states sfx ws (disk e))"
  shows "\<exists>e' s. open_engine X pol None rng d1 = (Inr (e', s), disk e') \<and> vault_ok X B M e' \<and>
     (\<forall>p. vault_of X e' p = vault_of X e p \<or> vault_of X e' p = vault_of X e1 p)"
proof -
  note V = vault_okD [OF v] and V1 = vault_okD [OF v1]
  from ws(1) have w: "writes_ok X B M ws (disk e)" "disk e1 = apply_writes ws (disk e)" by (simp_all add: performs_def)
  from crash_between [OF writes_steps [OF w(1)] none stamp sfx crash, of pol rng] obtain us vs e' s where
    c: "ws = us @ vs" "open_engine X pol None rng d1 = (Inr (e', s), disk e')" "store_ok X B M (disk e')"
      "contents (disk e') = contents (apply_writes us (disk e))" by blast
  have d: "distinct (map fst (us @ vs))" using ws(2) c(1) by (simp add: log_changes_def)
  have either: "contents (disk e') q = contents (disk e) q \<or> contents (disk e') q = contents (disk e1) q" if "q \<noteq> [FORMAT_FILE]" for q
    using contents_either [OF w(1) [unfolded c(1)] d, of q] c(4) that w(2) by (simp add: c(1))
  have log: "log_at X (disk e') b k = log_at X (disk e) b k \<or> log_at X (disk e') b k = log_at X (disk e1) b k" for b k
    using either [of "pointer_file X b k"] by (auto simp: log_at_def pointer_file_def)
  have same: "contents (disk e1) (t # q) = contents (disk e) (t # q)" if "t \<noteq> pointer_dir" for t q
    using writes_outside [OF w(1) log_changes_outside [OF ws(2) that]] w(2) by simp
  have "grows (disk e) (disk e')" "grows (disk e1) (disk e')"
  proof -
    have "contents (disk e') q = contents (disk e) q \<and> contents (disk e') q = contents (disk e1) q"
      if q: "hd q \<in> {chunk_dir, manifest_dir}" for q
    proof (cases q)
      case (Cons t p)
      have "q \<noteq> [FORMAT_FILE]" "t \<noteq> pointer_dir" using q Cons by (auto simp: FORMAT_FILE_def)
      from either [OF this(1)] same [OF this(2), of p] Cons show ?thesis by auto
    next
      case Nil
      then show ?thesis by (simp add: contents_def fs_lookup_def)
    qed
    then show "grows (disk e) (disk e')" "grows (disk e1) (disk e')" unfolding grows_def by metis+
  qed
  then have kp: "keeps_versions X e e'" "keeps_versions X e1 e'"
    using grows_extends [OF V(3) c(3)] grows_extends [OF V1(3) c(3)] keeps_extends by blast+
  have "\<exists>bs. read_object X e' i = Inr bs" if "i \<in> versions X (disk e')" for i
  proof -
    from that obtain b k where n: "valid_bucket b" "valid_key k" "i \<in> set (log_at X (disk e') b k)" by (auto simp: versions_def)
    from log [of b k] n(3) have "i \<in> versions X (disk e) \<or> i \<in> versions X (disk e1)"
      using log_versions [OF n(1,2)] by metis
    then show ?thesis using whole_kept [OF V(4) kp(1)] whole_kept [OF V1(4) kp(2)] by metis
  qed
  then have "vault_ok X B M e'" using V(1,2) c(3) by (simp add: vault_ok_def whole_def)
  moreover have "vault_of X e' (b, k) = vault_of X e (b, k) \<or> vault_of X e' (b, k) = vault_of X e1 (b, k)" for b k
    using log [of b k] logged_keeps [OF V(4) kp(1)] logged_keeps [OF V1(4) kp(2)] by (auto simp: vault_of_def)
  ultimately show ?thesis using c(2) by auto
qed

section \<open>The model of the pass makes them\<close>

lemma key_performed:
  assumes ok: "store_ok X B M (disk e)" and v: "valid_bucket b" "valid_key k" and new: "newest_present X (disk e)"
  shows "performs X B M (key_writes X b (keep_of cfg) (days_of cfg) now k e) e (snd (lifecycle_key X b (keep_of cfg) (days_of cfg) now k e))"
    "log_changes X {(b, k)} (key_writes X b (keep_of cfg) (days_of cfg) now k e)"
proof -
  note S = store_okD [OF ok]
  let ?old = "too_old X (disk e) (days_of cfg) now (log_at X (disk e) b k)"
  let ?ws = "key_writes X b (keep_of cfg) (days_of cfg) now k e"
  have m: "log_at X (disk e) b k \<noteq> [] \<Longrightarrow> \<exists>m. manifest_get X (disk e) (last (log_at X (disk e) b k)) = Inr (Some m)"
    using new v by (simp add: newest_present_def)
  have ex: "(if 0 < days_of cfg then expired X b k (days_of cfg) now e else Inr False) = Inr ?old"
    using expired_eq [OF ok v m, of "days_of cfg" now] by (auto simp: too_old_def)
  have p: "durable_path (pointer_file X b k)" using durable_pointer [OF S(7) v] .
  then have g: "good (pointer_file X b k)" by (simp add: durable_path_def)
  have ws: "?ws = (if ?old then [(pointer_file X b k, None)] else trim_writes X b k (keep_of cfg) (disk e))"
    unfolding key_writes_def ex by simp
  show "log_changes X {(b, k)} ?ws" unfolding ws log_changes_def trim_writes_def Let_def by auto
  from lifecycle_key_ok [OF ok v m, of cfg now] obtain d where
    d: "lifecycle_key X b (keep_of cfg) (days_of cfg) now k e = (Inr (), e\<lparr>disk := d\<rparr>)" "store_ok X B M d" by blast
  have run: "lifecycle_key X b (keep_of cfg) (days_of cfg) now k e =
      (if ?old then on_disk (pointer_remove X b k) e
       else if 0 < keep_of cfg then on_disk (pointer_trim X b k (keep_of cfg)) e else (Inr (), e))"
    unfolding lifecycle_key_def ex by simp
  have "d = apply_writes ?ws (disk e)"
  proof (cases ?old)
    case True
    then have "d = snd (pointer_remove X b k (disk e))"
      using arg_cong [OF d(1), of "\<lambda>p. disk (snd p)"] unfolding run by (simp add: on_disk_snd)
    with True show ?thesis
      using v S(7) by (simp add: ws pointer_remove_def pointer_path_valid remove_opt_good [OF S(5) g])
  next
    case False
    note hs = history_eq(1) [OF S(3) v]
    have "d = snd (if 0 < keep_of cfg then pointer_trim X b k (keep_of cfg) (disk e) else (Inr (), disk e))"
      using False arg_cong [OF d(1), of "\<lambda>p. disk (snd p)"] unfolding run by (auto simp: on_disk_snd)
    with False show ?thesis
      using hs v S(7) by (simp add: ws trim_writes_def Let_def pointer_trim_def pointer_path_valid write_good [OF S(5) g])
  qed
  moreover have "writes_ok X B M ?ws (disk e)"
    using ok d(2) p calculation unfolding ws
    by (auto simp: trim_writes_def Let_def pointer_file_def split: if_splits)
  ultimately show "performs X B M ?ws e (snd (lifecycle_key X b (keep_of cfg) (days_of cfg) now k e))"
    using d(1) by (simp add: performs_def)
qed

lemma log_changes_Nil [simp]: "log_changes X P []"
  by (simp add: log_changes_def)

text \<open>The keys of one pot.\<close>

lemma keys_performed:
  assumes "store_ok X B M (disk e)" "valid_bucket b" "newest_present X (disk e)"
    and "list_all valid_key ks" "distinct ks"
  shows "performs X B M (keys_writes X b (keep_of cfg) (days_of cfg) now ks e) e
      (snd (lifecycle_keys X b (keep_of cfg) (days_of cfg) now ks e)) \<and>
    log_changes X ({b} \<times> set ks) (keys_writes X b (keep_of cfg) (days_of cfg) now ks e)"
  using assms(1,3-5)
proof (induction ks arbitrary: e)
  case Nil
  then show ?case by (simp add: performs_def)
next
  case (Cons k ks)
  from Cons.prems have k: "valid_key k" "k \<notin> set ks" "list_all valid_key ks" "distinct ks" by auto
  have m: "log_at X (disk e) b k \<noteq> [] \<Longrightarrow> \<exists>m. manifest_get X (disk e) (last (log_at X (disk e) b k)) = Inr (Some m)"
    using Cons.prems(2) assms(2) k(1) by (simp add: newest_present_def)
  from lifecycle_key_ok [OF Cons.prems(1) assms(2) k(1) m] obtain d1 where
    1: "lifecycle_key X b (keep_of cfg) (days_of cfg) now k e = (Inr (), e\<lparr>disk := d1\<rparr>)"
      "store_ok X B M d1" "others [pointer_dir] (disk e) d1"
      "\<forall>c j. log_at X d1 c j = (if c = b \<and> j = k
          then after_lifecycle X (disk e) cfg now (log_at X (disk e) b k) else log_at X (disk e) c j)"
    by blast
  let ?e1 = "e\<lparr>disk := d1\<rparr>"
  have new1: "newest_present X d1"
    by (rule newest_present_step [OF Cons.prems(1) 1(2,3) _ Cons.prems(2), of now]) (use 1(4) in auto)
  note P = key_performed [OF Cons.prems(1) assms(2) k(1) Cons.prems(2), of cfg now]
  from Cons.IH [of ?e1] 1(2) new1 k(3,4) have
    Q: "performs X B M (keys_writes X b (keep_of cfg) (days_of cfg) now ks ?e1) ?e1
          (snd (lifecycle_keys X b (keep_of cfg) (days_of cfg) now ks ?e1))"
      "log_changes X ({b} \<times> set ks) (keys_writes X b (keep_of cfg) (days_of cfg) now ks ?e1)"
    by simp_all
  have split: "{(b, k)} \<inter> {b} \<times> set ks = {}" "{b} \<times> set (k # ks) = {(b, k)} \<union> {b} \<times> set ks" using k(2) by auto
  note L = log_changes_append [OF P(2) Q(2) split(1) store_okD(7) [OF Cons.prems(1)]]
  from performs_trans [OF P(1) [unfolded 1(1) snd_conv] Q(1)] L show ?case unfolding split(2) by (simp add: 1(1))
qed

text \<open>One pot, and the state the pass goes on with.\<close>

lemma pot_performed:
  assumes ok: "store_ok X B M (disk e)" and new: "newest_present X (disk e)" and b: "valid_bucket b" "valid_pot b"
  shows "\<exists>d. (\<forall>bs. lifecycle_pots X now (b # bs) e = lifecycle_pots X now bs (e\<lparr>disk := d\<rparr>)) \<and>
    performs X B M (pot_writes X now b e) e (e\<lparr>disk := d\<rparr>) \<and> log_changes X ({b} \<times> UNIV) (pot_writes X now b e) \<and>
    store_ok X B M d \<and> newest_present X d"
proof -
  let ?cfg = "pot_rules X (disk e) b"
  let ?rules = "keep_of ?cfg = 0 \<and> days_of ?cfg = 0"
  have cfg: "get_bucket_config X e b = Inr ?cfg"
    using meta_config_total [OF ok b(2)] by (simp add: get_bucket_config_def)
  from pointer_list_ok [OF store_okD(3) [OF ok] b(1)] obtain ks where
    ks: "keys X e b = Inr ks" "distinct ks" "set ks = {k. valid_key k \<and> contents (disk e) (pointer_file X b k) \<noteq> None}"
    by (auto simp: keys_def)
  then have kv: "list_all valid_key ks" by (auto simp: list_all_iff)
  have run: "lifecycle_pots X now (b # bs) e =
      and_then (if ?rules then (Inr (), e) else lifecycle_keys X b (keep_of ?cfg) (days_of ?cfg) now ks e)
        (\<lambda>_ e. lifecycle_pots X now bs e)" for bs
    using cfg ks(1) by (simp add: keep_of_def days_of_def)
  have w: "pot_writes X now b e = (if ?rules then [] else keys_writes X b (keep_of ?cfg) (days_of ?cfg) now ks e)"
    by (simp add: pot_writes_def cfg ks(1))
  show ?thesis
  proof (cases ?rules)
    case True
    with ok new show ?thesis unfolding run w by (intro exI [of _ "disk e"]) (simp add: performs_def)
  next
    case False
    from lifecycle_keys_ok [OF ok b(1) new kv ks(2), of ?cfg now] obtain d where
      d: "lifecycle_keys X b (keep_of ?cfg) (days_of ?cfg) now ks e = (Inr (), e\<lparr>disk := d\<rparr>)"
        "store_ok X B M d" "newest_present X d" by blast
    note K = keys_performed [OF ok b(1) new kv ks(2), of ?cfg now]
    from log_changes_mono [OF conjunct2 [OF K], of "{b} \<times> UNIV"]
    have "log_changes X ({b} \<times> UNIV) (keys_writes X b (keep_of ?cfg) (days_of ?cfg) now ks e)" by auto
    with conjunct1 [OF K] d show ?thesis unfolding run w if_not_P [OF False] by (intro exI [of _ d]) simp
  qed
qed

lemma pots_performed:
  assumes "store_ok X B M (disk e)" "newest_present X (disk e)"
    and "list_all (\<lambda>b. valid_bucket b \<and> valid_pot b) bs" "distinct bs"
  shows "performs X B M (pots_writes X now bs e) e (snd (lifecycle_pots X now bs e)) \<and>
    log_changes X (set bs \<times> UNIV) (pots_writes X now bs e)"
  using assms
proof (induction bs arbitrary: e)
  case Nil
  then show ?case by (simp add: performs_def)
next
  case (Cons b bs)
  from Cons.prems have b: "valid_bucket b" "valid_pot b" "b \<notin> set bs"
    "list_all (\<lambda>b. valid_bucket b \<and> valid_pot b) bs" "distinct bs" by auto
  from pot_performed [OF Cons.prems(1,2) b(1,2), of now] obtain d where
    d: "\<And>bs. lifecycle_pots X now (b # bs) e = lifecycle_pots X now bs (e\<lparr>disk := d\<rparr>)"
      "performs X B M (pot_writes X now b e) e (e\<lparr>disk := d\<rparr>)" "log_changes X ({b} \<times> UNIV) (pot_writes X now b e)"
      "store_ok X B M d" "newest_present X d" by blast
  let ?e1 = "e\<lparr>disk := d\<rparr>"
  from Cons.IH [of ?e1] d(4,5) b(4,5) have
    Q: "performs X B M (pots_writes X now bs ?e1) ?e1 (snd (lifecycle_pots X now bs ?e1))"
      "log_changes X (set bs \<times> UNIV) (pots_writes X now bs ?e1)" by simp_all
  have "snd (lifecycle_pots X now [b] e) = ?e1" by (simp add: d(1) del: lifecycle_pots.simps(2))
  then have w: "pots_writes X now (b # bs) e = pot_writes X now b e @ pots_writes X now bs ?e1" by simp
  have split: "{b} \<times> UNIV \<inter> set bs \<times> UNIV = {}" "set (b # bs) \<times> UNIV = {b} \<times> UNIV \<union> set bs \<times> UNIV" using b(3) by auto
  note L = log_changes_append [OF d(3) Q(2) split(1) store_okD(7) [OF Cons.prems(1)]]
  show ?case unfolding w d(1) split(2) using performs_trans [OF d(2) Q(1)] L by (rule conjI)
qed

lemma lifecycle_performed:
  assumes ok: "store_ok X B M (disk e)" and new: "newest_present X (disk e)"
    and pots: "\<forall>b. fs_lookup (disk e) [pointer_dir, b] = Some Dir \<longrightarrow> valid_pot b"
  shows "performs X B M (lifecycle_writes X now e) e (snd (enforce_lifecycle X now e))"
    "log_changes X UNIV (lifecycle_writes X now e)"
proof -
  note P = store_okD(3) [OF ok]
  from pointer_buckets_ok [OF P] obtain bs where bs: "buckets e = Inr bs" "distinct bs"
    "set bs = {b. fs_lookup (disk e) [pointer_dir, b] = Some Dir}" by (auto simp: buckets_def)
  have v: "list_all (\<lambda>b. valid_bucket b \<and> valid_pot b) bs"
    using bs(3) pots pointers_okD(4) [OF P] by (auto simp: list_all_iff)
  note K = pots_performed [OF ok new v bs(2), of now]
  show "performs X B M (lifecycle_writes X now e) e (snd (enforce_lifecycle X now e))"
    using conjunct1 [OF K] bs(1) by (simp add: lifecycle_writes_def enforce_lifecycle_def)
  show "log_changes X UNIV (lifecycle_writes X now e)"
    using log_changes_mono [OF conjunct2 [OF K]] bs(1) by (simp add: lifecycle_writes_def)
qed

end
