(* ===== verification/Crash_Collect.thy ===== *)
theory Crash_Collect
  imports Crash
begin

text \<open>
  The collector as a sequence of file changes: one unlink for each chunk it erases, then the new set of
  condemned chunks.
\<close>

section \<open>The changes of a pass\<close>

definition erasures :: "ext \<Rightarrow> hash list \<Rightarrow> file_write list" where
  "erasures X hs = map (\<lambda>h. (shard X chunk_dir h, None)) hs"

definition collect_writes :: "ext \<Rightarrow> nat \<Rightarrow> nat \<Rightarrow> engine \<Rightarrow> file_write list" where
  "collect_writes X now grace e =
     (case (mark X (pinned e) (disk e), load_condemned X (disk e), chunk_all X (disk e)) of
        (Inr reach, Inr cond, Inr hs) \<Rightarrow>
          (case fst (sweep_chunks X reach now grace hs cond no_sweep (disk e)) of
             Inl err \<Rightarrow> []
           | Inr (c, n) \<Rightarrow>
               erasures X (filter (doomed (set reach) now grace cond) hs) @
               [(condemned_path, Some (condemned_to_json X c))])
      | _ \<Rightarrow> [])"

lemma erasures_simps [simp]:
  "erasures X [] = []" "erasures X (h # hs) = (shard X chunk_dir h, None) # erasures X hs"
  by (simp_all add: erasures_def)

section \<open>The model of the collector makes them\<close>

lemma unlink_chunk:
  assumes ok: "store_ok X B M d" and h: "hash_wf h"
  shows "chunk_delete X h d = (Inr (), apply_write (shard X chunk_dir h, None) d)"
    "store_ok X B M (apply_write (shard X chunk_dir h, None) d)"
proof -
  note S = store_okD [OF ok]
  have g: "good (shard X chunk_dir h)" using S(7) h by (simp add: good_shard)
  show del: "chunk_delete X h d = (Inr (), apply_write (shard X chunk_dir h, None) d)"
    by (simp add: chunk_delete_def remove_opt_good [OF S(5) g])
  let ?d = "apply_write (shard X chunk_dir h, None) d"
  note C = chunks_ok_delete(1) [OF S(1) h del]
  note ag = chunk_delete_agree [OF S(7,5) h del]
  show "store_ok X B M ?d"
    unfolding store_ok_def
    using C manifests_ok_agree [OF S(2) chunks_okD(4) [OF C] ag] pointers_ok_agree [OF S(3) chunks_okD(4) [OF C] ag]
      side_ok_agree [OF S(4) ag ag ag] by simp
qed

lemma sweep_chunks_writes:
  assumes "store_ok X B M d" "distinct hs" "list_all hash_wf hs"
  shows "snd (sweep_chunks X reach now grace hs cond n d) =
      apply_writes (erasures X (filter (doomed (set reach) now grace cond) hs)) d"
    "steps_ok X B M (erasures X (filter (doomed (set reach) now grace cond) hs)) d"
proof -
  have "snd (sweep_chunks X reach now grace hs cond n d) =
      apply_writes (erasures X (filter (doomed (set reach) now grace cond) hs)) d \<and>
    steps_ok X B M (erasures X (filter (doomed (set reach) now grace cond) hs)) d"
    using assms
  proof (induction hs arbitrary: cond n d)
    case (Cons h hs)
    from Cons.prems have h: "h \<notin> set hs" "distinct hs" "hash_wf h" "list_all hash_wf hs" by auto
    have later: "filter (doomed (set reach) now grace c) hs = filter (doomed (set reach) now grace cond) hs"
      if "\<And>k. k \<noteq> h \<Longrightarrow> map_of c k = map_of cond k" for c
      using that h(1) by (intro filter_cong refl) (metis doomed_def)
    note U = unlink_chunk [OF Cons.prems(1) h(3)]
    have del: "filter (doomed (set reach) now grace (AList.delete h cond)) hs = filter (doomed (set reach) now grace cond) hs"
      by (rule later) (simp add: delete_conv')
    have dur: "durable_path (shard X chunk_dir h)"
      using durable_shard [OF store_okD(7) [OF Cons.prems(1)] h(3)] by simp
    show ?case
    proof (cases "doomed (set reach) now grace cond h")
      case True
      then obtain at where "h \<notin> set reach" "map_of cond h = Some at" "grace \<le> now - at"
        by (auto simp: doomed_def split: option.splits)
      with Cons.IH [OF U(2) h(2,4), of "AList.delete h cond" "n\<lparr>sw_erased := sw_erased n + 1\<rparr>"] U(1) dur Cons.prems(1)
      show ?thesis by (simp add: True del del: apply_write.simps)
    next
      case False
      obtain c n1 where c: "\<And>k. k \<noteq> h \<Longrightarrow> map_of c k = map_of cond k"
        and run: "sweep_chunks X reach now grace (h # hs) cond n d = sweep_chunks X reach now grace hs c n1 d"
      proof (cases "h \<in> set reach")
        case True
        then show thesis
          by (intro that [of "AList.delete h cond" "n\<lparr>sw_live := sw_live n + 1\<rparr>"]) (simp_all add: delete_conv')
      next
        case nr: False
        show thesis
        proof (cases "map_of cond h")
          case None
          with nr show thesis
            by (intro that [of "AList.update h now cond" "n\<lparr>sw_condemned := sw_condemned n + 1\<rparr>"])
              (simp_all add: update_conv')
        next
          case (Some at)
          with nr False show thesis by (intro that [of cond n]) (simp_all add: doomed_def)
        qed
      qed
      from c have same: "filter (doomed (set reach) now grace c) hs = filter (doomed (set reach) now grace cond) hs"
        by (rule later)
      from Cons.IH [OF Cons.prems(1) h(2,4), of c n1] show ?thesis unfolding run same using False by simp
    qed
  qed simp
  then show "snd (sweep_chunks X reach now grace hs cond n d) =
      apply_writes (erasures X (filter (doomed (set reach) now grace cond) hs)) d"
    "steps_ok X B M (erasures X (filter (doomed (set reach) now grace cond) hs)) d" by blast+
qed

text \<open>Of the pass, and the files it touches: the condemned set and chunks nothing refers to.\<close>

lemma collect_performed:
  assumes ok: "store_ok X B M (disk e)"
  shows "steps_ok X B M (collect_writes X now grace e) (disk e)"
    "disk (snd (gc_sweep X now grace e)) = apply_writes (collect_writes X now grace e) (disk e)"
    "fst ` set (collect_writes X now grace e) \<subseteq>
       insert condemned_path {shard X chunk_dir h |h. hash_wf h \<and> h \<notin> referenced X (disk e)}"
proof -
  let ?d = "disk e"
  note S = store_okD [OF ok]
  from mark_ok [OF S(2,3)] obtain r where
    r: "mark X (pinned e) ?d = Inr r" "set r = set (pinned e) \<union> referenced X ?d" by blast
  from chunk_all_ok [OF S(1)] obtain hs where hs: "chunk_all X ?d = Inr hs" "distinct hs"
    "set hs = {h. hash_wf h \<and> chunk_at X ?d h \<noteq> None}" by blast
  then have wf: "list_all hash_wf hs" by (auto simp: list_all_iff)
  let ?cond = "condemned_at X ?d"
  let ?es = "erasures X (filter (doomed (set r) now grace ?cond) hs)"
  from sweep_chunks_ok [OF S(1) hs(2) wf, of r now grace ?cond no_sweep] obtain c n d1 where
    c: "sweep_chunks X r now grace hs ?cond no_sweep ?d = (Inr (c, n), d1)" by blast
  note E = sweep_chunks_writes(1) [OF ok hs(2) wf, of r now grace ?cond no_sweep] sweep_chunks_writes(2) [OF ok hs(2) wf, of r now grace ?cond]
  let ?w = "(condemned_path, Some (condemned_to_json X c))"
  have ws: "collect_writes X now grace e = ?es @ [?w]"
    using r(1) hs(1) c by (simp add: collect_writes_def load_condemned_eq S(5))
  have d1: "d1 = apply_writes ?es ?d" using E(1) c by simp
  have ok1: "store_ok X B M d1" using E(2) d1 steps_ok_append [of X B M ?es "[]" ?d] by simp
  obtain r2 d2 where sv: "save_condemned X c d1 = (r2, d2)" by force
  have d2: "d2 = apply_write ?w d1"
    using sv write_good [OF store_okD(5) [OF ok1] good_condemned] by (simp add: save_condemned_def)
  note sv' = save_condemned_ok [OF store_okD(1,8) [OF ok1] sv]
  have run: "sweep X (pinned e) now grace ?d = (Inr n, d2)"
    using r(1) hs(1) c sv sv'(1) by (simp add: sweep_def load_condemned_eq S(5))
  show "disk (snd (gc_sweep X now grace e)) = apply_writes (collect_writes X now grace e) ?d"
    unfolding ws using run d1 d2 by (simp add: gc_sweep_def on_disk_eq del: apply_write.simps)
  from sweep_ok [OF ok refl, of "pinned e" now grace] run have "store_ok X B M d2" by auto
  moreover have "durable_path condemned_path"
    using good_condemned utf8_lossy_ascii [of CONDEMNED]
    by (simp add: durable_path_def condemned_path_def CONDEMNED_def TMP_PREFIX_def ascii_def FORMAT_FILE_def)
  ultimately show "steps_ok X B M (collect_writes X now grace e) ?d"
    unfolding ws steps_ok_append using E(2) ok1 d1 d2 by (simp del: apply_write.simps)
  show "fst ` set (collect_writes X now grace e) \<subseteq>
       insert condemned_path {shard X chunk_dir h |h. hash_wf h \<and> h \<notin> referenced X ?d}"
    unfolding ws erasures_def using wf r(2) by (auto simp: doomed_def list_all_iff)
qed

section \<open>A crash in the middle of it\<close>

lemma crash_collect:
  assumes v: "vault_ok X B M e"
    and none: "\<forall>q. \<not> is_temp (disk e) q" and stamp: "stamp_state X (disk e) = Some (Some FORMAT_VERSION)"
    and sfx: "\<forall>i. temp_suffix (sfx i)" and crash: "d1 \<in> set (crash_states sfx (collect_writes X now grace e) (disk e))"
  shows "\<exists>e' s. open_engine X pol None rng d1 = (Inr (e', s), disk e') \<and> vault_ok X B M e' \<and>
     vault_of X e' = vault_of X e"
proof -
  note V = vault_okD [OF v]
  note P = collect_performed [OF V(3), of now grace]
  from crash_between [OF P(1) none stamp sfx crash, of pol rng] obtain us vs e' s where
    c: "collect_writes X now grace e = us @ vs" "open_engine X pol None rng d1 = (Inr (e', s), disk e')"
      "store_ok X B M (disk e')"
      "contents (disk e') = contents (apply_writes us (disk e))" by blast
  note S = store_okD [OF V(3)] and S' = store_okD [OF c(3)]
  have us: "steps_ok X B M us (disk e)" using P(1) by (simp add: c(1) steps_ok_append)
  have same: "contents (disk e') q = contents (disk e) q"
    if "q \<noteq> [FORMAT_FILE]" "q \<noteq> condemned_path" "\<And>h. hash_wf h \<Longrightarrow> h \<notin> referenced X (disk e) \<Longrightarrow> q \<noteq> shard X chunk_dir h" for q
  proof -
    have "q \<notin> fst ` set (collect_writes X now grace e)" using P(3) that(2,3) by blast
    then have "q \<notin> fst ` set us" by (simp add: c(1) image_Un)
    with c(4) steps_untouched [OF us this] that(1) show ?thesis by simp
  qed
  have log: "log_at X (disk e') b k = log_at X (disk e) b k" for b k
    using same [of "pointer_file X b k"] by (simp add: log_at_def pointer_file_def condemned_path_def shard_def)
  have man: "manifest_at X (disk e') i = manifest_at X (disk e) i" for i
    using same [of "shard X manifest_dir i"] by (simp add: manifest_at_def condemned_path_def shard_def)
  have chunk: "chunk_at X (disk e') h = chunk_at X (disk e) h" if "h \<in> referenced X (disk e)" for h
    unfolding chunk_at_def
  proof (rule same)
    show "shard X chunk_dir h \<noteq> [FORMAT_FILE]" by (simp add: shard_def)
    show "shard X chunk_dir h \<noteq> condemned_path" by (rule condemned_not_shard)
    show "shard X chunk_dir h \<noteq> shard X chunk_dir k" if "k \<notin> referenced X (disk e)" for k
      using that \<open>h \<in> referenced X (disk e)\<close> by (auto simp: shard_inj [OF S(7)])
  qed
  have get: "manifest_get X (disk e') i = Inr (Some m)" if "manifest_get X (disk e) i = Inr (Some m)" for i m
    using that manifest_get_eq [OF S(7,5)] manifest_get_eq [OF S'(7,5)] manifest_get_hash_wf [OF S(6) that] man by simp
  have "keeps_versions X e e'"
    unfolding keeps_versions_def read_object_def using referenced_reads [OF V(3) c(3) get chunk] by blast
  from vault_same [OF V(4) this log] c(2,3) V(1,2) show ?thesis by (auto simp: vault_ok_def)
qed

end
