(* ===== verification/Crash_Commands.thy ===== *)
theory Crash_Commands
  imports Crash_Lifecycle Crash_Collect
begin

text \<open>
  The file changes of each command, in their order, and what a crash in the middle of one leaves.
  \<open>Crash_Pots\<close> has the commands that change whole directories.
\<close>

section \<open>The changes a command makes\<close>

definition write_steps :: "ext \<Rightarrow> string \<Rightarrow> string \<Rightarrow> bytes \<Rightarrow> string \<Rightarrow> nat \<Rightarrow> nat \<Rightarrow> engine \<Rightarrow> file_write list" where
  "write_steps X b k data ct clock t e =
     (case (validate_key b k, ensure_unlocked X b k clock e, effective_policy X b ct e) of
        (Inr _, Inr _, Inr ep) \<Rightarrow>
          (case try_map (codec_encode X (ep_codec ep)) (map snd (chunk_split X data)) of
             Inl err \<Rightarrow> []
           | Inr encs \<Rightarrow> put_writes X b k (put_manifest X e ct ep encs data t) encs (disk e))
      | _ \<Rightarrow> [])"

text \<open>A stream over its limit is cut where it passes it; the chunks before that are stored.\<close>

fun fitting :: "nat \<Rightarrow> bytes list \<Rightarrow> bytes list" where
  "fitting l [] = []"
| "fitting l (b # bs) = (if l < length b then [] else b # fitting (l - length b) bs)"

definition upload_steps :: "ext \<Rightarrow> string \<Rightarrow> string \<Rightarrow> bytes \<Rightarrow> string \<Rightarrow> nat \<Rightarrow> nat \<Rightarrow> nat \<Rightarrow> engine \<Rightarrow> file_write list" where
  "upload_steps X b k data ct limit clock t e =
     (if length data \<le> limit then write_steps X b k data ct clock t e
      else
        (case (validate_key b k, ensure_unlocked X b k clock e, effective_policy X b ct e) of
           (Inr _, Inr _, Inr ep) \<Rightarrow>
             (case try_map (codec_encode X (ep_codec ep)) (fitting limit (map snd (chunk_split X data))) of
                Inl err \<Rightarrow> []
              | Inr encs \<Rightarrow> chunks_writes X encs (disk e))
         | _ \<Rightarrow> []))"

definition import_steps :: "ext \<Rightarrow> string \<Rightarrow> string \<Rightarrow> manifest \<Rightarrow> nat \<Rightarrow> engine \<Rightarrow> file_write list" where
  "import_steps X b k m clock e =
     (let ms = manifest_writes X m (disk e) in
      if ensure_unlocked X b k clock e \<noteq> Inr () \<or> \<not> list_all (chunk_has X (disk e)) (chunks (chunking m)) \<or>
         (\<exists>r \<in> set_option (merkle_root (chunking m)). r \<noteq> root X (chunks (chunking m))) then []
      else if object_id m \<noteq> manifest_id X m then ms
      else commit_writes X b k (manifest_id X m) ms (disk e))"

definition complete_steps :: "ext \<Rightarrow> string \<Rightarrow> nat list \<Rightarrow> nat \<Rightarrow> engine \<Rightarrow> file_write list" where
  "complete_steps X i order t e =
     (case map_of (multipart e) i of
        None \<Rightarrow> []
      | Some up \<Rightarrow>
          (case (gathered X e up order, build_codec (up_codec up) (up_level up)) of
             (Inr got, Inr c) \<Rightarrow>
               (let m = complete_manifest X e up c got t
                in commit_writes X (up_bucket up) (up_key up) (manifest_id X m) (manifest_writes X m (disk e)) (disk e))
           | _ \<Rightarrow> []))"

fun writes_of :: "ext \<Rightarrow> command \<Rightarrow> engine \<Rightarrow> file_write list" where
  "writes_of X (command.Write b k data ct clock t) e = write_steps X b k data ct clock t e"
| "writes_of X (command.Upload b k data ct limit clock t) e = upload_steps X b k data ct limit clock t e"
| "writes_of X (Remove b k clock) e =
     (if ensure_unlocked X b k clock e = Inr () then [(pointer_file X b k, None)] else [])"
| "writes_of X (RollBack b k i clock) e =
     (if ensure_unlocked X b k clock e = Inr () then commit_writes X b k i [] (disk e) else [])"
| "writes_of X (Adopt b k m clock) e = import_steps X b k m clock e"
| "writes_of X (Copy fb fk tb tk) e =
     (let hs = log_at X (disk e) fb fk in if hs = [] then [] else pointer_writes X tb tk (last hs) (disk e))"
| "writes_of X (Move fb fk tb tk) e =
     (let hs = log_at X (disk e) fb fk in
      if hs = [] then []
      else [(pointer_file X tb tk, Some (as_bytes (entry_lines X hs))), (pointer_file X fb fk, None)])"
| "writes_of X (Configure b cfg) e = [(meta_path X b, Some (config_to_json X cfg))]"
| "writes_of X (Annotate b k a) e = [(annotation_path X (b, k), Some (annotation_to_json X a))]"
| "writes_of X (Receive bs) e = chunk_writes X bs (disk e)"
| "writes_of X (Assemble b k data i order t) e = complete_steps X i order t e"
| "writes_of X (Age clock) e = lifecycle_writes X clock e"
| "writes_of X (Collect clock grace) e = collect_writes X clock grace e"
| "writes_of X c e = []"

fun stepwise :: "command \<Rightarrow> bool" where
  "stepwise (DropPot b) = False"
| "stepwise (DropEmpty b) = False"
| "stepwise (RenamePot old new) = False"
| "stepwise c = True"

section \<open>The model of each command makes them\<close>

lemma single_commitI:
  "outside [pointer_dir] ws \<Longrightarrow> single_commit ws"
  "outside [pointer_dir] ss \<Longrightarrow> single_commit (commit_writes X b k i ss d)"
  "length ws \<le> 1 \<Longrightarrow> single_commit ws"
proof -
  show "single_commit ws" if "outside [pointer_dir] ws"
    unfolding single_commit_def using that by (intro exI [of _ ws] exI [of _ "[]"]) simp
  show "single_commit ws" if "length ws \<le> 1"
    unfolding single_commit_def using that by (intro exI [of _ "[]"] exI [of _ ws]) simp
  show "single_commit (commit_writes X b k i ss d)" if "outside [pointer_dir] ss"
    unfolding single_commit_def commit_writes_def Let_def using that outside_writes(3)
    by (intro exI [of _ ss] exI [of _ "pointer_writes X b k i (apply_writes ss d)"] exI conjI refl)
      (simp_all add: pointer_writes_def)
qed

lemma one_write:
  assumes "vault_ok X B M e" "durable_path p" "hd p \<notin> {chunk_dir, manifest_dir}"
    and "disk e1 = apply_write (p, bo) (disk e)" "store_ok X B M (disk e1)"
  shows "performs X B M [(p, bo)] e e1"
  using assms by (auto simp: performs_def dest: vault_okD(3))

lemma commit_performed:
  assumes "writes_ok X B M ss (disk e)" "valid_bucket b" "valid_key k" "hash_wf i"
    and "pointer_set X b k i (apply_writes ss (disk e)) = (Inr (), dp)" "reverse_add X i b k dp = (Inr (), disk e1)"
  shows "performs X B M (commit_writes X b k i ss (disk e)) e e1"
  using commit_writes_ok [OF assms(1-4)] assms(5,6) by (simp add: performs_def)

lemma write_performed:
  assumes v: "vault_ok X B M e" and a: "admissible X B M (command.Write b k data ct clock t) e"
  shows "performs X B M (write_steps X b k data ct clock t e) e (snd (put X b k data ct clock t e))"
    "single_commit (write_steps X b k data ct clock t e)"
proof -
  note V = vault_okD [OF v]
  have n: "valid_bucket b" "valid_key k" using a by auto
  have "performs X B M (write_steps X b k data ct clock t e) e (snd (put X b k data ct clock t e)) \<and>
    single_commit (write_steps X b k data ct clock t e)"
  proof (cases "validate_key b k = Inr () \<and> ensure_unlocked X b k clock e = Inr () \<and> (\<exists>ep. effective_policy X b ct e = Inr ep)")
    case False
    then have none: "write_steps X b k data ct clock t e = []"
      by (cases "validate_key b k"; cases "ensure_unlocked X b k clock e"; cases "effective_policy X b ct e")
        (auto simp: write_steps_def)
    have "disk (snd (put X b k data ct clock t e)) = disk e"
      using False by (cases "validate_key b k"; cases "ensure_unlocked X b k clock e"; cases "effective_policy X b ct e")
        (auto simp: put_def)
    with performs_none [OF v] show ?thesis unfolding none by (simp add: single_commitI(3))
  next
    case True
    then obtain ep where ep: "validate_key b k = Inr ()" "ensure_unlocked X b k clock e = Inr ()"
      "effective_policy X b ct e = Inr ep" by blast
    from a ep(3) obtain encs where enc: "encodes X (ep_codec ep) B (chunk_split X data) encs"
      "manifest_body X (put_manifest X e ct ep encs data t) \<in> M" by (auto simp: storable_def)
    let ?m = "put_manifest X e ct ep encs data t"
    have "try_map (codec_encode X (ep_codec ep)) (map snd (chunk_split X data)) = Inr encs"
      using enc(1) by (simp add: encodes_def try_map_Inr_iff list_all2_map1)
    then have steps: "write_steps X b k data ct clock t e = put_writes X b k ?m encs (disk e)"
      by (simp add: write_steps_def ep)
    have w: "writable X B M e b k" using V n ep(1) by (simp add: writable_def)
    from put_ok [OF w ep(2,3) enc] obtain i e1 where p: "put X b k data ct clock t e = (Inr i, e1)" by blast
    note pd = put_disk [OF V(3) n ep(3) enc p]
    have "outside [pointer_dir] (staging_writes X ?m encs (disk e))"
      by (simp add: staging_writes_def Let_def outside_mono [OF outside_writes(1)] outside_mono [OF outside_writes(2)])
    then have "single_commit (put_writes X b k ?m encs (disk e))" unfolding put_writes_def by (rule single_commitI(2))
    with pd p show ?thesis unfolding steps by (simp add: performs_def)
  qed
  then show "performs X B M (write_steps X b k data ct clock t e) e (snd (put X b k data ct clock t e))"
    "single_commit (write_steps X b k data ct clock t e)" by blast+
qed

lemma stream_disk:
  assumes "store_ok X B M (disk e)" "encodes X c B items encs" "stream_loop X c limit (map Inr items) p e = (r, p', e')"
    and "pr_orig p \<le> limit"
  shows "\<exists>es. try_map (codec_encode X c) (fitting (limit - pr_orig p) (map snd items)) = Inr es \<and> set es \<subseteq> B \<and>
    disk e' = apply_writes (chunks_writes X es (disk e)) (disk e)"
  using assms
proof (induction items arbitrary: encs p e)
  case (Cons it items)
  obtain h b where it: "it = (h, b)" by force
  from Cons.prems(2) obtain enc encs' where
    enc: "codec_encode X c b = Inr enc" "enc \<in> B" "encodes X c B items encs'"
    by (auto simp: encodes_def list_all2_Cons1 it)
  show ?case
  proof (cases "limit - pr_orig p < length b")
    case True
    then have "limit < pr_orig p + length b" using Cons.prems(4) by simp
    then have "e' = e" using Cons.prems(3) by (simp add: it Let_def)
    with True show ?thesis by (simp add: it)
  next
    case False
    from chunk_put_step [OF Cons.prems(1) enc(2)] obtain d1 where
      1: "chunk_put X enc (disk e) = (Inr (hash_of X enc), d1)" "store_ok X B M d1" by blast
    let ?q = "p\<lparr>pr_orig := pr_orig p + length b, pr_hashed := pr_hashed p @ b,
      pr_chunks := pr_chunks p @ [hash_of X enc], pr_stored := pr_stored p + length enc\<rparr>"
    let ?e = "pin_chunk (hash_of X enc) (e\<lparr>disk := d1\<rparr>)"
    have lim: "pr_orig ?q \<le> limit" "limit - pr_orig ?q = limit - pr_orig p - length b" using False Cons.prems(4) by auto
    then have run: "stream_loop X c limit (map Inr items) ?q ?e = (r, p', e')"
      using Cons.prems(3) enc(1) 1(1) by (simp add: it Let_def store_chunk_def on_disk_def)
    have ok: "store_ok X B M (disk ?e)" using 1(2) by (simp add: pin_chunk_def)
    from Cons.IH [OF ok enc(3) run lim(1)] obtain es where
      "try_map (codec_encode X c) (fitting (limit - pr_orig p - length b) (map snd items)) = Inr es" "set es \<subseteq> B"
      "disk e' = apply_writes (chunks_writes X es (disk ?e)) (disk ?e)" unfolding lim(2) by blast
    then show ?thesis
      using False enc(1,2) 1(1) chunk_writes_ok(1) [OF Cons.prems(1) enc(2)] by (simp add: it pin_chunk_def)
  qed
qed simp

lemma upload_performed:
  assumes v: "vault_ok X B M e" and a: "admissible X B M (command.Upload b k data ct limit clock t) e"
  shows "performs X B M (upload_steps X b k data ct limit clock t e) e
      (snd (exec X (command.Upload b k data ct limit clock t) e))"
    "single_commit (upload_steps X b k data ct limit clock t e)"
proof -
  note V = vault_okD [OF v]
  let ?r = "\<lparr>rd_bytes = data, rd_error = None\<rparr>"
  have w: "admissible X B M (command.Write b k data ct clock t) e" using a by simp
  have "performs X B M (upload_steps X b k data ct limit clock t e) e (snd (put_stream X b k ?r ct limit clock t e)) \<and>
    single_commit (upload_steps X b k data ct limit clock t e)"
  proof (cases "length data \<le> limit")
    case True
    with write_performed [OF v w] show ?thesis by (simp add: upload_steps_def put_stream_put [OF V(2)])
  next
    case long: False
    show ?thesis
    proof (cases "validate_key b k = Inr () \<and> ensure_unlocked X b k clock e = Inr () \<and> (\<exists>ep. effective_policy X b ct e = Inr ep)")
      case False
      then have "upload_steps X b k data ct limit clock t e = []" "disk (snd (put_stream X b k ?r ct limit clock t e)) = disk e"
        using long by (cases "validate_key b k"; cases "ensure_unlocked X b k clock e"; cases "effective_policy X b ct e";
            auto simp: upload_steps_def put_stream_def)+
      with performs_none [OF v] show ?thesis by (simp add: single_commitI(3))
    next
      case True
      then obtain ep where ep: "validate_key b k = Inr ()" "ensure_unlocked X b k clock e = Inr ()"
        "effective_policy X b ct e = Inr ep" by blast
      from w ep(3) obtain encs where enc: "encodes X (ep_codec ep) B (chunk_split X data) encs" by (auto simp: storable_def)
      have stream: "chunk_stream X ?r = map Inr (chunk_split X data)" using chunk_stream_ok [OF V(2), of ?r] by simp
      obtain r p' e' where run: "stream_loop X (ep_codec ep) limit (map Inr (chunk_split X data)) no_progress e = (r, p', e')"
        by (cases "stream_loop X (ep_codec ep) limit (map Inr (chunk_split X data)) no_progress e")
      have "sum_list (map (length \<circ> snd) (chunk_split X data)) = length data"
        using chunk_split_concat(1) [OF V(2), of data] by (metis length_concat map_map)
      with stream_loop_limit [of X "ep_codec ep" limit "chunk_split X data" no_progress e _ p' e'] run long
      obtain err where "r = Inl err" by (cases r) auto
      then have disk: "disk (snd (put_stream X b k ?r ct limit clock t e)) = disk e'"
        using ep run stream by (simp add: put_stream_def)
      from stream_disk [OF V(3) enc run] obtain es where
        es: "try_map (codec_encode X (ep_codec ep)) (fitting limit (map snd (chunk_split X data))) = Inr es" "set es \<subseteq> B"
          "disk e' = apply_writes (chunks_writes X es (disk e)) (disk e)" by auto
      have steps: "upload_steps X b k data ct limit clock t e = chunks_writes X es (disk e)"
        using long ep es(1) by (simp add: upload_steps_def)
      have "outside [pointer_dir] (chunks_writes X es (disk e))" by (simp add: outside_mono [OF outside_writes(1)])
      with chunks_writes_ok(1) [OF V(3) es(2)] es(3) disk show ?thesis
        unfolding steps by (simp add: performs_def single_commitI(1))
    qed
  qed
  then show "performs X B M (upload_steps X b k data ct limit clock t e) e
      (snd (exec X (command.Upload b k data ct limit clock t) e))"
    "single_commit (upload_steps X b k data ct limit clock t e)" by simp_all
qed

lemma remove_performed:
  assumes v: "vault_ok X B M e" and a: "admissible X B M (Remove b k clock) e"
  shows "performs X B M (writes_of X (Remove b k clock) e) e (snd (exec X (Remove b k clock) e))"
proof (cases "ensure_unlocked X b k clock e")
  case (Inl err)
  with performs_none [OF v] show ?thesis by (simp add: locked_ops)
next
  case (Inr u)
  note V = vault_okD [OF v]
  note S = store_okD [OF V(3)]
  have n: "valid_bucket b" "valid_key k" using a by auto
  have p: "durable_path (pointer_file X b k)" using durable_pointer [OF S(7) n] .
  then have g: "good (pointer_file X b k)" by (simp add: durable_path_def)
  from pointer_remove_step [OF V(3) n] obtain d where d: "pointer_remove X b k (disk e) = (Inr (), d)" "store_ok X B M d" by blast
  have "d = snd (remove_opt (pointer_file X b k) (disk e))"
    using d(1) n by (simp add: pointer_remove_def pointer_path_valid S(7) remove_opt_good [OF S(5) g])
  with d one_write [OF v p] Inr show ?thesis
    by (simp add: delete_object_def on_disk_eq pointer_file_def)
qed

lemma roll_back_performed:
  assumes v: "vault_ok X B M e" and a: "admissible X B M (RollBack b k i clock) e"
  shows "performs X B M (writes_of X (RollBack b k i clock) e) e (snd (exec X (RollBack b k i clock) e))"
proof (cases "ensure_unlocked X b k clock e")
  case (Inl err)
  with performs_none [OF v] show ?thesis by (simp add: locked_ops)
next
  case (Inr u)
  note V = vault_okD [OF v]
  have n: "valid_bucket b" "valid_key k" "i \<in> set (log_at X (disk e) b k)" using a by auto
  from log_versions [OF n] V(4) obtain m where m: "manifest_get X (disk e) i = Inr (Some m)"
    by (auto simp: whole_def read_object_def read_manifest_bytes_def fetch_manifest_def result_simps)
  have wf: "hash_wf i" using manifest_get_hash_wf [OF store_okD(6) [OF V(3)] m] .
  from pointer_set_step [OF V(3) n(1,2) wf] obtain d1 where 1: "pointer_set X b k i (disk e) = (Inr (), d1)" "store_ok X B M d1" by blast
  from reverse_add_step [OF 1(2) wf, of b k] obtain d2 where 2: "reverse_add X i b k d1 = (Inr (), d2)" by blast
  have run: "snd (exec X (RollBack b k i clock) e) = e\<lparr>disk := d2\<rparr>"
    using Inr m 1(1) 2 by (simp add: restore_version_def fetch_manifest_def on_disk_eq)
  show ?thesis unfolding run writes_of.simps using Inr
    by (simp, intro commit_performed [where ss = "[]" and dp = d1]) (use V(3) n wf 1(1) 2 in simp_all)
qed

lemma adopt_performed:
  assumes v: "vault_ok X B M e" and a: "admissible X B M (Adopt b k m clock) e"
  shows "performs X B M (import_steps X b k m clock e) e (snd (import_object X b k m clock e))"
proof (cases "ensure_unlocked X b k clock e")
  case (Inl err)
  with performs_none [OF v] show ?thesis by (simp add: locked_ops import_steps_def)
next
  case u: (Inr u)
  note V = vault_okD [OF v]
  have n: "valid_bucket b" "valid_key k" "manifest_storable X M m" using a by auto
  show ?thesis
  proof (cases "list_all (chunk_has X (disk e)) (chunks (chunking m)) \<and>
      (\<forall>r \<in> set_option (merkle_root (chunking m)). r = root X (chunks (chunking m)))")
    case False
    then have "import_steps X b k m clock e = []" by (auto simp: import_steps_def)
    moreover have "snd (import_object X b k m clock e) = e"
      using False u by (auto simp: import_object_def list_all_iff find_None_iff split: option.split)
    ultimately show ?thesis using performs_none [OF v] by simp
  next
    case True
    then have ok: "List.find (\<lambda>h. \<not> chunk_has X (disk e) h) (chunks (chunking m)) = None"
      "\<not> (case merkle_root (chunking m) of None \<Rightarrow> False | Some r \<Rightarrow> r \<noteq> root X (chunks (chunking m)))"
      by (auto simp: list_all_iff find_None_iff split: option.split)
    let ?ms = "manifest_writes X m (disk e)" and ?i = "manifest_id X m"
    note mw = manifest_writes_ok [OF V(3) n(3)]
    from manifest_put_step [OF V(3) n(3)] obtain d where d: "manifest_put X m (disk e) = (Inr ?i, d)" "store_ok X B M d" by blast
    have dm: "apply_writes ?ms (disk e) = d" using mw(1) d(1) by simp
    show ?thesis
    proof (cases "object_id m = ?i")
      case False
      then have "import_steps X b k m clock e = ?ms" using True u by (auto simp: import_steps_def)
      moreover have "snd (import_object X b k m clock e) = e\<lparr>disk := d\<rparr>"
        using u ok d(1) False by (simp add: import_object_def on_disk_eq del: not_None_eq)
      ultimately show ?thesis using mw(2) dm by (simp add: performs_def)
    next
      case id: True
      then have steps: "import_steps X b k m clock e = commit_writes X b k ?i ?ms (disk e)"
        using True u by (auto simp: import_steps_def)
      have wf: "hash_wf ?i" using store_okD(6) [OF V(3)] by simp
      from pointer_set_step [OF d(2) n(1,2) wf] obtain d1 where 1: "pointer_set X b k ?i d = (Inr (), d1)" "store_ok X B M d1" by blast
      from reverse_add_step [OF 1(2) wf, of b k] obtain d2 where 2: "reverse_add X ?i b k d1 = (Inr (), d2)" by blast
      have "snd (import_object X b k m clock e) = e\<lparr>disk := d2\<rparr>"
        using u ok d(1) id 1(1) 2 by (simp add: import_object_def on_disk_eq)
      with steps show ?thesis using commit_performed [OF mw(2) n(1,2) wf 1(1) [folded dm], of "e\<lparr>disk := d2\<rparr>"] 2 by simp
    qed
  qed
qed

lemma copy_performed:
  assumes v: "vault_ok X B M e" and a: "admissible X B M (Copy fb fk tb tk) e"
  shows "performs X B M (writes_of X (Copy fb fk tb tk) e) e (snd (exec X (Copy fb fk tb tk) e))"
proof -
  note V = vault_okD [OF v]
  have n: "valid_bucket fb" "valid_key fk" "valid_bucket tb" "valid_key tk" using a by auto
  let ?L = "log_at X (disk e) fb fk"
  note hs = history_eq [OF store_okD(3) [OF V(3)] n(1,2)]
  show ?thesis
  proof (cases "?L = []")
    case True
    then have "disk (snd (exec X (Copy fb fk tb tk) e)) = disk e"
      using hs(1) by (simp add: copy_object_def on_disk_snd pointer_copy_def current_def)
    with performs_none [OF v] True show ?thesis by simp
  next
    case False
    have wf: "hash_wf (last ?L)" using hs(2) False by (simp add: list_all_iff)
    note p = pointer_writes_ok [OF V(3) n(3,4) wf]
    have "disk (snd (exec X (Copy fb fk tb tk) e)) = snd (pointer_set X tb tk (last ?L) (disk e))"
      using hs(1) False pointer_set_step [OF V(3) n(3,4) wf]
      by (auto simp: copy_object_def on_disk_snd pointer_copy_def current_def)
    with p False show ?thesis by (simp add: performs_def Let_def)
  qed
qed

lemma move_performed:
  assumes v: "vault_ok X B M e" and a: "admissible X B M (Move fb fk tb tk) e"
  shows "performs X B M (writes_of X (Move fb fk tb tk) e) e (snd (exec X (Move fb fk tb tk) e))"
proof -
  note V = vault_okD [OF v]
  note S = store_okD [OF V(3)]
  have n: "valid_bucket fb" "valid_key fk" "valid_bucket tb" "valid_key tk" "(fb, fk) \<noteq> (tb, tk)" using a by auto
  let ?L = "log_at X (disk e) fb fk" and ?s = "pointer_file X fb fk" and ?t = "pointer_file X tb tk"
  note hs = history_eq [OF S(3) n(1,2)]
  have path: "durable_path ?s" "durable_path ?t" using durable_pointer [OF S(7)] n by blast+
  then have g: "good ?s" "good ?t" by (simp_all add: durable_path_def)
  show ?thesis
  proof (cases "?L = []")
    case True
    then have "disk (snd (exec X (Move fb fk tb tk) e)) = disk e"
      using hs(1) by (simp add: move_object_def on_disk_snd move_key_def)
    with performs_none [OF v] True show ?thesis by simp
  next
    case False
    let ?d1 = "put_file ?t (as_bytes (entry_lines X ?L)) (disk e)"
    have w: "write_atomic ?t (as_bytes (entry_lines X ?L)) (disk e) = (Inr (), ?d1)" using write_good [OF S(5) g(2)] .
    have p1: "pointers_ok X ?d1" using pointers_ok_write(1) [OF S(3) n(3,4) hs(2) refl] .
    have o1: "others [pointer_dir] (disk e) ?d1" by (rule others_put_file) (simp_all add: pointer_file_def)
    have ok1: "store_ok X B M ?d1" using pointer_change(1) [OF V(3) p1 o1] .
    from pointer_remove_step [OF ok1 n(1,2)] obtain d2 where d2: "pointer_remove X fb fk ?d1 = (Inr (), d2)" "store_ok X B M d2" by blast
    have r: "d2 = snd (remove_opt ?s ?d1)"
      using d2(1) n S(7) remove_opt_good [OF store_okD(5) [OF ok1] g(1)] by (simp add: pointer_remove_def pointer_path_valid)
    have "disk (snd (exec X (Move fb fk tb tk) e)) = d2"
      using hs(1) False n S(7) w d2(1) by (simp add: move_object_def on_disk_snd move_key_def pointer_path_valid)
    then show ?thesis
      using False path V(3) ok1 d2(2) r by (simp add: performs_def Let_def pointer_file_def)
  qed
qed

lemma assemble_performed:
  assumes v: "vault_ok X B M e" and a: "admissible X B M (Assemble b k data i order t) e"
  shows "performs X B M (complete_steps X i order t e) e (snd (complete_multipart X i order t e))"
proof -
  note V = vault_okD [OF v]
  from a obtain up where up: "map_of (multipart e) i = Some up" "b = up_bucket up" "k = up_key up"
    and n: "valid_bucket b" "valid_key k"
    and g: "\<And>got c. gathered X e up order = Inr got \<Longrightarrow> build_codec (up_codec up) (up_level up) = Inr c \<Longrightarrow>
        manifest_body X (complete_manifest X e up c got t) \<in> M"
    by (auto simp: assembly_def)
  let ?e1 = "e\<lparr>multipart := AList.delete i (multipart e)\<rparr>"
  let ?order = "if order = [] then map fst (up_parts up) else order"
  have same: "gathered X ?e1 up order = gathered X e up order"
    by (simp add: gathered_def gather_part_def [abs_def] staged_chunk_def [abs_def])
  have gathered_again: "gather_part X ?e1 dec = gather_part X e dec" for dec
    by (simp add: gather_part_def [abs_def] staged_chunk_def [abs_def])
  obtain r e2 where run: "commit_parts X up ?order t ?e1 = (r, e2)" by force
  have disk: "disk (snd (complete_multipart X i order t e)) = disk e2"
    using up(1) run by (simp add: complete_multipart_def Let_def split: sum.split)
  show ?thesis
  proof (cases "\<exists>got c. gathered X e up order = Inr got \<and> build_codec (up_codec up) (up_level up) = Inr c")
    case False
    then have "complete_steps X i order t e = []"
      using up(1) by (auto simp: complete_steps_def split: sum.split)
    moreover have "e2 = ?e1" using commit_parts_gathered [OF run] False same by auto
    ultimately show ?thesis using performs_none [OF v] disk by simp
  next
    case True
    then obtain got c where gc: "gathered X e up order = Inr got" "build_codec (up_codec up) (up_level up) = Inr c" by blast
    from gc(1) obtain dec where dec: "decoder_for (up_codec up) = Inr dec"
      "try_map (gather_part X e dec (up_parts up)) ?order = Inr got"
      by (auto simp: gathered_def result_simps split del: if_split)
    from complete_gathered [OF V(3) up(1) n [unfolded up(2,3)] dec(1) gc(2) dec(2) g [OF gc]] obtain oid e' where
      fin0: "complete_multipart X i order t e = (Inr oid, e')" "oid = manifest_id X (complete_manifest X e up c got t)" by blast
    let ?m = "complete_manifest X e up c got t" and ?cs = "concat (map (sp_chunks \<circ> fst) got)"
    let ?ms = "manifest_writes X ?m (disk e)"
    from gather_fetches [OF dec(2)] obtain xs where "try_map (staged_chunk X e dec) ?cs = Inr xs" by blast
    then have wf: "list_all hash_wf ?cs" by (rule staged_chunks_wf [OF store_okD(6) [OF V(3)]])
    have m: "new_manifest X ?e1 = new_manifest X e" by (rule new_manifest_policy) simp
    have st: "manifest_storable X M ?m"
      using new_manifest_storable [OF store_okD(6,8) [OF V(3)] wf g [OF gc, unfolded complete_manifest_def]]
      by (simp add: complete_manifest_def)
    have "r = Inr (manifest_id X ?m)"
      using fin0 up(1) run by (auto simp: complete_multipart_def Let_def split: sum.splits)
    then have fin: "finalize_write X b k (up_content_type up)
        \<lparr>ep_codec = c, ep_codec_name = up_codec up, ep_level = up_level up, ep_fidelity = up_fidelity up, ep_route = up_route up\<rparr>
        ?cs (sum_list (map (sp_stored_size \<circ> fst) got)) (sum_list (map (sp_orig_size \<circ> fst) got))
        (sha256_hex X (concat (map snd got))) t ?e1 = (Inr (manifest_id X ?m), e2)"
      using run unfolding up(2,3) commit_parts_def Let_def
      by (simp only: dec gc(2) gathered_again map_err_simps and_then.simps)
    note mw = manifest_writes_ok [OF V(3) st]
    have wfi: "hash_wf (manifest_id X ?m)" using store_okD(6) [OF V(3)] by simp
    have "disk e2 = snd (reverse_add X (manifest_id X ?m) b k (snd (pointer_set X b k (manifest_id X ?m) (snd (manifest_put X ?m (disk e))))))"
      using finalize_disk [OF fin] by (simp add: m complete_manifest_def)
    then have "disk e2 = apply_writes (commit_writes X b k (manifest_id X ?m) ?ms (disk e)) (disk e)"
      using commit_writes_ok(2) [OF mw(2) n wfi] mw(1) by simp
    moreover have "complete_steps X i order t e = commit_writes X b k (manifest_id X ?m) ?ms (disk e)"
      using up gc by (simp add: complete_steps_def Let_def)
    ultimately show ?thesis using commit_writes_ok(1) [OF mw(2) n wfi] disk by (simp add: performs_def)
  qed
qed

text \<open>The files of pot configurations and annotations.\<close>

lemma durable_side:
  assumes X: "hex_ok X"
  shows "valid_pot b \<Longrightarrow> durable_path (meta_path X b)" "valid_object pk \<Longrightarrow> durable_path (annotation_path X pk)"
proof -
  have name: "\<not> prefix TMP_PREFIX (utf8_lossy (hex_encode X x @ y))"
    if "y = ''.json'' \<or> (\<exists>z. y = ''_'' @ hex_encode X z @ ''.json'')" for x y
  proof -
    have "ascii (hex_encode X x @ y)" using that ascii_hex_encode [OF X] by auto
    moreover have "\<not> prefix TMP_PREFIX (hex_encode X x @ y)"
      using that hex_encode_chars(1) [OF X, of _ x] by (cases "hex_encode X x") (auto simp: TMP_PREFIX_def)
    ultimately show ?thesis by (simp add: utf8_lossy_ascii)
  qed
  show "durable_path (meta_path X b)" if "valid_pot b"
    using good_meta [OF X that] name by (simp add: durable_path_def meta_path_def flat_dirs_def)
  show "durable_path (annotation_path X pk)" if "valid_object pk"
    using good_annotation [OF X that] name [of "''_'' @ hex_encode X (as_bytes (snd pk)) @ ''.json''" "as_bytes (fst pk)"]
    by (auto simp: durable_path_def annotation_path_def flat_dirs_def)
qed

lemma side_performed:
  assumes v: "vault_ok X B M e" and a: "admissible X B M c e"
    and c: "c = Configure b cfg \<or> c = Annotate b k an \<or> c = Receive bs"
  shows "performs X B M (writes_of X c e) e (snd (exec X c e))" "outside [pointer_dir] (writes_of X c e)"
proof -
  note V = vault_okD [OF v]
  note S = store_okD [OF V(3)]
  from exec_simulates [OF v a] have ok: "store_ok X B M (disk (snd (exec X c e)))"
    by (simp add: simulates_def vault_ok_def)
  from c show "performs X B M (writes_of X c e) e (snd (exec X c e))"
  proof (elim disjE)
    assume c: "c = Configure b cfg"
    then have b: "valid_pot b" using a by simp
    have "disk (snd (exec X c e)) = put_file (meta_path X b) (config_to_json X cfg) (disk e)"
      using meta_set_config_eq [OF S(9) b] by (simp add: c set_bucket_config_def on_disk_snd)
    with one_write [OF v durable_side(1) [OF S(7) b] _ _ ok, of "Some (config_to_json X cfg)"] show ?thesis
      by (simp add: c meta_path_def)
  next
    assume c: "c = Annotate b k an"
    then have b: "valid_object (b, k)" using a by simp
    have "disk (snd (exec X c e)) = put_file (annotation_path X (b, k)) (annotation_to_json X an) (disk e)"
      using annotation_set_eq [OF S(9) b] by (simp add: c set_annotation_def on_disk_snd)
    with one_write [OF v durable_side(2) [OF S(7) b] _ _ ok, of "Some (annotation_to_json X an)"] show ?thesis
      by (simp add: c annotation_path_def)
  next
    assume c: "c = Receive bs"
    with chunk_writes_ok [OF V(3), of bs] a show ?thesis
      by (simp add: performs_def put_chunk_bytes_def on_disk_snd)
  qed
  from c show "outside [pointer_dir] (writes_of X c e)"
    by (elim disjE) (simp_all add: meta_path_def annotation_path_def chunk_writes_def shard_def Let_def)
qed

section \<open>A crash in the middle of a command\<close>

definition tracks :: "ext \<Rightarrow> bytes set \<Rightarrow> bytes set \<Rightarrow> file_write list \<Rightarrow> engine \<Rightarrow> engine \<Rightarrow> bool" where
  "tracks X B M ws e e1 \<longleftrightarrow> steps_ok X B M ws (disk e) \<and> disk e1 = apply_writes ws (disk e)"

lemma performs_tracks: "performs X B M ws e e1 \<Longrightarrow> tracks X B M ws e e1"
  by (simp add: performs_def tracks_def writes_steps)

text \<open>All but the collector leave the chunks and manifests there are alone, and most change one version log.\<close>

definition commits :: "ext \<Rightarrow> bytes set \<Rightarrow> bytes set \<Rightarrow> command \<Rightarrow> engine \<Rightarrow> bool" where
  "commits X B M c e \<longleftrightarrow> performs X B M (writes_of X c e) e (snd (exec X c e)) \<and>
     (single_commit (writes_of X c e) \<or> (\<exists>fb fk tb tk. c = Move fb fk tb tk) \<or>
       (\<exists>clock. c = Age clock \<and> log_changes X UNIV (writes_of X c e)))"

lemma command_commits:
  assumes v: "vault_ok X B M e" and a: "admissible X B M c e" and c: "stepwise c" "\<forall>clock grace. c \<noteq> Collect clock grace"
  shows "commits X B M c e"
proof -
  have staged: "single_commit (import_steps X b k m clock e)" "single_commit (complete_steps X i order t e)" for b k m clock i order t
  proof -
    have ms: "outside [pointer_dir] (manifest_writes X m d)" for m d by (simp add: outside_mono [OF outside_writes(2)])
    note sc = single_commitI(1) [OF ms] single_commitI(2) [OF ms] single_commitI(3) [of "[]"]
    show "single_commit (import_steps X b k m clock e)" using sc by (simp add: import_steps_def Let_def)
    show "single_commit (complete_steps X i order t e)"
      using sc by (simp add: complete_steps_def Let_def split: option.split sum.split)
  qed
  have "performs X B M (writes_of X c e) e (snd (exec X c e)) \<and>
     (single_commit (writes_of X c e) \<or> (\<exists>fb fk tb tk. c = Move fb fk tb tk) \<or>
       (\<exists>clock. c = Age clock \<and> log_changes X UNIV (writes_of X c e)))"
  proof (cases c)
    case (Write b k data ct clock t)
    with write_performed [OF v] a show ?thesis by simp
  next
    case (Upload b k data ct limit clock t)
    with upload_performed [OF v] a show ?thesis by (simp del: exec.simps admissible.simps)
  next
    case (Remove b k clock)
    with remove_performed [OF v] a show ?thesis by (auto simp del: exec.simps admissible.simps intro: single_commitI(3))
  next
    case (RollBack b k i clock)
    with roll_back_performed [OF v] a show ?thesis by (auto simp del: exec.simps admissible.simps intro: single_commitI)
  next
    case (Adopt b k m clock)
    with adopt_performed [OF v] a staged(1) show ?thesis by simp
  next
    case (Copy fb fk tb tk)
    with copy_performed [OF v] a show ?thesis
      by (auto simp: Let_def pointer_writes_def simp del: exec.simps admissible.simps intro: single_commitI(3))
  next
    case (Move fb fk tb tk)
    with move_performed [OF v] a show ?thesis by blast
  next
    case (Assemble b k data i order t)
    with assemble_performed [OF v] a staged(2) show ?thesis by simp
  next
    case (Age clock)
    note V = vault_okD [OF v]
    from lifecycle_performed [OF V(3) newest_whole [OF V(4)], of clock] a Age show ?thesis by simp
  qed (use c side_performed [OF v a] single_commitI(1) in \<open>simp_all del: exec.simps admissible.simps writes_of.simps\<close>)
  then show ?thesis by (simp only: commits_def)
qed

lemma command_performed:
  assumes v: "vault_ok X B M e" and a: "admissible X B M c e" and c: "stepwise c"
  shows "tracks X B M (writes_of X c e) e (snd (exec X c e))"
    "commits X B M c e \<or> (\<exists>clock grace. c = Collect clock grace)"
proof -
  have "tracks X B M (collect_writes X now grace e) e (snd (gc_sweep X now grace e))" for now grace
    using collect_performed(1,2) [OF vault_okD(3) [OF v]] by (simp add: tracks_def)
  then show "tracks X B M (writes_of X c e) e (snd (exec X c e))"
    using command_commits [OF v a c] performs_tracks unfolding commits_def
    by (cases "\<exists>clock grace. c = Collect clock grace") auto
  show "commits X B M c e \<or> (\<exists>clock grace. c = Collect clock grace)" using command_commits [OF v a c] by blast
qed

text \<open>
  A move is two changes of version logs; in between the object is under both keys. The lifecycle and the
  removal of a pot change one log after the other.
\<close>

definition crash_shows :: "command \<Rightarrow> vault \<Rightarrow> vault \<Rightarrow> vault \<Rightarrow> bool" where
  "crash_shows c V V1 V' \<longleftrightarrow> V' = V \<or> V' = V1 \<or>
     (\<exists>fb fk tb tk. c = Move fb fk tb tk \<and> V' = V((tb, tk) := V (fb, fk))) \<or>
     ((\<exists>clock. c = Age clock) \<or> (\<exists>b. c = DropPot b)) \<and> (\<forall>p. V' p = V p \<or> V' p = V1 p)"

lemma crash_move:
  assumes v: "vault_ok X B M e" and a: "admissible X B M (Move fb fk tb tk) e"
    and none: "\<forall>q. \<not> is_temp (disk e) q" and stamp: "stamp_state X (disk e) = Some (Some FORMAT_VERSION)"
    and sfx: "\<forall>i. temp_suffix (sfx i)" and crash: "d1 \<in> set (crash_states sfx (writes_of X (Move fb fk tb tk) e) (disk e))"
  shows "\<exists>e' s. open_engine X pol None rng d1 = (Inr (e', s), disk e') \<and> vault_ok X B M e' \<and>
     crash_shows (Move fb fk tb tk) (vault_of X e) (vault_of X (snd (exec X (Move fb fk tb tk) e))) (vault_of X e')"
proof (cases "log_at X (disk e) fb fk = []")
  case True
  note P = move_performed [OF v a]
  have "single_commit (writes_of X (Move fb fk tb tk) e)" using True by (simp add: single_commitI(3))
  from exec_simulates [OF v a] have v1: "vault_ok X B M (snd (exec X (Move fb fk tb tk) e))" by (simp add: simulates_def)
  from crash_commit [OF v v1 _ _ \<open>single_commit _\<close> none stamp sfx crash, of pol rng] P
  show ?thesis unfolding performs_def crash_shows_def by blast
next
  case False
  let ?L = "log_at X (disk e) fb fk" and ?c = "Move fb fk tb tk"
  let ?w1 = "(pointer_file X tb tk, Some (as_bytes (entry_lines X ?L)))" and ?w2 = "(pointer_file X fb fk, None :: bytes option)"
  let ?e1 = "snd (exec X ?c e)"
  note V = vault_okD [OF v]
  have n: "valid_bucket fb" "valid_key fk" "valid_bucket tb" "valid_key tk" using a by auto
  have ws: "writes_of X ?c e = [?w1, ?w2]" using False by simp
  from move_performed [OF v a] have P: "writes_ok X B M [?w1, ?w2] (disk e)" "disk ?e1 = apply_writes [?w1, ?w2] (disk e)"
    unfolding performs_def ws by simp_all
  from exec_simulates [OF v a] have v1: "vault_ok X B M ?e1" by (simp add: simulates_def)
  from crash_between [OF writes_steps [OF P(1)] none stamp sfx crash [unfolded ws], of pol rng] obtain us vs e' s where
    c: "[?w1, ?w2] = us @ vs" "open_engine X pol None rng d1 = (Inr (e', s), disk e')" "store_ok X B M (disk e')"
      "contents (disk e') = contents (apply_writes us (disk e))" by blast
  let ?d = "apply_writes us (disk e)"
  have wok: "writes_ok X B M (us @ vs) (disk e)" using P(1) c(1) by simp
  note U = writes_extend [OF wok]
  have log': "log_at X (disk e') x j = log_at X ?d x j" for x j
    using c(4) by (simp add: log_at_def pointer_file_def)
  have "extends X ?d (disk e')" by (rule grows_extends [OF U(1) c(3) same_grows]) (use c(4) in simp)
  then have kp: "keeps_versions X e e'" using extends_trans [OF U(2)] keeps_extends by blast
  have ok': "vault_ok X B M e'" if "whole X e'" using V(1,2) c(3) that by (simp add: vault_ok_def)
  have "us = [] \<or> us = [?w1] \<or> us = [?w1, ?w2]" using c(1) by (cases us; cases "tl us") auto
  then consider "us = []" | "us = [?w1]" | "us = [?w1, ?w2]" by blast
  then show ?thesis
  proof cases
    case 1
    then have "log_at X (disk e') x j = log_at X (disk e) x j" for x j using log' by simp
    from vault_same [OF V(4) kp this] ok' c(2) show ?thesis by (auto simp: crash_shows_def)
  next
    case 2
    note hs = history_eq [OF store_okD(3) [OF V(3)] n(1,2)]
    have log: "log_at X (disk e') x j = (if x = tb \<and> j = tk then ?L else log_at X (disk e) x j)" for x j
      using log' [of x j] pointers_ok_write(2) [OF store_okD(3) [OF V(3)] n(3,4) hs(2) refl] by (simp add: 2)
    have sub: "set (log_at X (disk e') x j) \<subseteq> versions X (disk e)" if "valid_bucket x" "valid_key j" for x j
      using log_versions [OF that] log_versions [OF n(1,2)] by (auto simp: log)
    note sh = vault_shrinks [OF V(4) kp sub]
    have "vault_of X e' = (vault_of X e)((tb, tk) := vault_of X e (fb, fk))"
      using sh(2) n by (auto simp: vault_of_def fun_eq_iff log)
    with ok' [OF sh(1)] c(2) show ?thesis by (auto simp: crash_shows_def)
  next
    case 3
    note V1 = vault_okD [OF v1]
    have same: "log_at X (disk e') x j = log_at X (disk ?e1) x j" for x j using log' P(2) 3 by simp
    have "extends X (disk ?e1) (disk e')"
      by (rule grows_extends [OF V1(3) c(3) same_grows]) (use c(4) P(2) 3 in simp)
    from vault_same [OF V1(4) keeps_extends [OF this] same] ok' c(2) show ?thesis by (auto simp: crash_shows_def)
  qed
qed

lemma crash_command:
  assumes "vault_ok X B M e" "admissible X B M c e" "stepwise c"
    and "\<forall>q. \<not> is_temp (disk e) q" "stamp_state X (disk e) = Some (Some FORMAT_VERSION)"
    and "\<forall>i. temp_suffix (sfx i)" "d1 \<in> set (crash_states sfx (writes_of X c e) (disk e))"
  shows "\<exists>e' s. open_engine X pol None rng d1 = (Inr (e', s), disk e') \<and> vault_ok X B M e' \<and>
     crash_shows c (vault_of X e) (vault_of X (snd (exec X c e))) (vault_of X e')"
proof -
  from exec_simulates [OF assms(1,2)] have v1: "vault_ok X B M (snd (exec X c e))" by (simp add: simulates_def)
  from command_performed(2) [OF assms(1-3)] consider
    (one) "performs X B M (writes_of X c e) e (snd (exec X c e))" "single_commit (writes_of X c e)"
  | (moved) fb fk tb tk where "c = Move fb fk tb tk"
  | (aged) clock where "performs X B M (writes_of X c e) e (snd (exec X c e))" "c = Age clock" "log_changes X UNIV (writes_of X c e)"
  | (collected) clock grace where "c = Collect clock grace"
    unfolding commits_def by blast
  then show ?thesis
  proof cases
    case one
    with crash_commit [OF assms(1) v1 _ _ one(2) assms(4-7), of pol rng]
    show ?thesis unfolding performs_def crash_shows_def by blast
  next
    case moved
    from crash_move [OF assms(1) assms(2) [unfolded moved] assms(4-6) assms(7) [unfolded moved], of pol rng]
    show ?thesis by (simp only: moved)
  next
    case aged
    with crash_logs [OF assms(1) v1 aged(1,3) assms(4-7), of pol rng]
    show ?thesis by (auto simp: crash_shows_def simp del: exec.simps writes_of.simps)
  next
    case collected
    with crash_collect [OF assms(1,4-6), of d1 clock grace pol rng] assms(7)
    show ?thesis by (auto simp: crash_shows_def simp del: exec.simps)
  qed
qed

end
