(* ===== verification/Crash_Pots.thy ===== *)
theory Crash_Pots
  imports Crash_Commands
begin

text \<open>
  Crashes in the removal of a pot, which unlinks its version logs in the order the directory gives them,
  then removes the directory and then the settings, and in its renaming, which is two renames. With these
  every command of the engine has its crash states.
\<close>

section \<open>A finished command leaves no temporary file\<close>

lemma settled_new:
  assumes "settled X d" "contents d' [FORMAT_FILE] = contents d [FORMAT_FILE]"
    and "\<And>q. contents d' q \<noteq> None \<Longrightarrow> contents d q \<noteq> None \<or> \<not> prefix TMP_PREFIX (utf8_lossy (last q))"
  shows "settled X d'"
proof -
  have f: "is_file_at a q \<longleftrightarrow> contents a q \<noteq> None" for a q
    by (simp add: is_file_at_iff contents_def split: option.split fs_node.split)
  have "\<not> is_temp d' q" for q using assms(1) assms(3) [of q] unfolding settled_def is_temp_def f by blast
  with assms(1,2) show ?thesis by (simp add: settled_def stamp_state_def)
qed

lemma pointer_file_name:
  assumes "pointers_ok X d" "contents d (pointer_dir # q) \<noteq> None"
  shows "\<not> prefix TMP_PREFIX (utf8_lossy (last (pointer_dir # q)))"
proof -
  note P = pointers_okD [OF assms(1)]
  from assms(2) obtain c where c: "fs_lookup d (pointer_dir # q) = Some (File c)"
    by (auto simp: contents_def split: option.splits fs_node.splits)
  have "shape (pointer_dir # q) = Some False"
    using disk_ok_lookup [OF P(3) _ c] by (simp add: governed_def)
  then obtain b f where q: "q = [b, f]"
    by (cases "pointer_dir # q" rule: shape.cases) (auto simp: flat_dirs_def hidden_name_def split: if_splits)
  with assms(2) obtain c where c: "contents d [pointer_dir, b, f] = Some c" by auto
  from P(5) [OF c] obtain k where k: "valid_key k" "f = hex_encode X (as_bytes k)" by blast
  from c P(3) have "fs_lookup d [pointer_dir, b] = Some Dir" by (auto dest: disk_ok_parent)
  from durable_pointer [OF P(2) P(4) [OF this] k(1)] show ?thesis by (simp add: durable_path_def pointer_file_def q k(2))
qed

lemma settled_pointers:
  assumes "settled X d" "others [pointer_dir] d d'" "store_ok X B M d'"
  shows "settled X d'"
proof (rule settled_new [OF assms(1)])
  have ag: "contents d' (t # q) = contents d (t # q)" if "t \<noteq> pointer_dir" for t q
    using assms(2) that by (simp add: others_def agree_contents)
  show "contents d' [FORMAT_FILE] = contents d [FORMAT_FILE]" by (rule ag) (simp add: FORMAT_FILE_def)
  show "contents d q \<noteq> None \<or> \<not> prefix TMP_PREFIX (utf8_lossy (last q))" if "contents d' q \<noteq> None" for q
  proof (cases q)
    case Nil
    with that show ?thesis by (simp add: contents_def fs_lookup_def)
  next
    case (Cons t p)
    with ag [of t p] pointer_file_name [OF store_okD(3) [OF assms(3)], of p] that show ?thesis by (cases "t = pointer_dir") auto
  qed
qed

lemma drop_settled:
  assumes v: "vault_ok X B M e" and n: "valid_bucket b" "valid_pot b" and s: "settled X (disk e)"
  shows "settled X (disk (snd (delete_bucket X b e)))"
proof -
  note V = vault_okD [OF v]
  from pointer_delete_bucket_step [OF V(3) n(1)] obtain d1 where
    1: "pointer_delete_bucket b (disk e) = (Inr (), d1)" "store_ok X B M d1" "others [pointer_dir] (disk e) d1" by blast
  note S = store_okD [OF 1(2)]
  have p: "durable_path (meta_path X b)" by (rule durable_side(1) [OF S(7) n(2)])
  then have g: "good (meta_path X b)" by (simp add: durable_path_def)
  have "settled X d1" by (rule settled_pointers [OF s 1(3,2)])
  then have "settled X (apply_write (meta_path X b, None) d1)"
    using durable_kept [OF S(5) p, of X None] by (simp add: settled_def)
  moreover have "disk (snd (delete_bucket X b e)) = apply_write (meta_path X b, None) d1"
    using 1(1) by (simp add: delete_bucket_def on_disk_eq on_disk_snd meta_delete_bucket_def io_step_def)
  ultimately show ?thesis by simp
qed

lemma rename_settled:
  assumes v: "vault_ok X B M e" and a: "admissible X B M (RenamePot old new) e" and s: "settled X (disk e)"
  shows "settled X (disk (snd (rename_bucket X old new e)))"
proof -
  note V = vault_okD [OF v]
  have n: "valid_bucket old" "valid_bucket new" "old \<noteq> new" "fs_lookup (disk e) [pointer_dir, old] \<noteq> None"
    "fs_lookup (disk e) [pointer_dir, new] = None" "valid_pot old" "valid_pot new" using a by auto
  from pointer_rename_bucket_step [OF V(3) n(1-5)] obtain d1 where
    1: "pointer_rename_bucket old new (disk e) = (Inr (), d1)" "store_ok X B M d1" "others [pointer_dir] (disk e) d1" by blast
  from meta_rename_step [OF 1(2) n(6,7,3)] obtain d2 where
    2: "meta_rename_bucket X old new d1 = (Inr (), d2)" "others [meta_dir] d1 d2"
      "\<forall>q. contents d2 q \<noteq> None \<longrightarrow> contents d1 q \<noteq> None \<or> q = meta_path X new" by blast
  have "settled X d1" by (rule settled_pointers [OF s 1(3,2)])
  then have "settled X d2"
  proof (rule settled_new)
    show "contents d2 [FORMAT_FILE] = contents d1 [FORMAT_FILE]"
      by (rule agree_contents [OF others_agree [OF 2(2)]]) (simp add: FORMAT_FILE_def)
    show "contents d1 q \<noteq> None \<or> \<not> prefix TMP_PREFIX (utf8_lossy (last q))" if "contents d2 q \<noteq> None" for q
      using 2(3) that durable_side(1) [OF store_okD(7) [OF 1(2)] n(7)] by (auto simp: durable_path_def)
  qed
  with 1(1) 2(1) show ?thesis by (simp add: rename_bucket_def on_disk_eq)
qed

lemma command_settled:
  assumes v: "vault_ok X B M e" and a: "admissible X B M c e" and s: "settled X (disk e)"
  shows "settled X (disk (snd (exec X c e)))"
proof (cases "stepwise c")
  case True
  from command_performed(1) [OF v a True] steps_settled [of X B M _ "disk e"] s show ?thesis by (simp add: tracks_def)
next
  case False
  then consider b where "c = DropPot b" | b where "c = DropEmpty b" | old new where "c = RenamePot old new"
    by (cases c) auto
  then show ?thesis
  proof cases
    case 1
    with drop_settled [OF v _ _ s] a show ?thesis by simp
  next
    case 2
    with drop_settled [OF v _ _ s, of b] a s show ?thesis
      by (cases "keys X e b"; cases "delete_bucket X b e"; cases "fst (delete_bucket X b e)") (auto simp: delete_bucket_if_empty_def)
  next
    case 3
    with rename_settled [OF v _ s] a show ?thesis by simp
  qed
qed

section \<open>Crash states of every command\<close>

definition drop_writes :: "ext \<Rightarrow> string \<Rightarrow> string list \<Rightarrow> file_write list" where
  "drop_writes X b ks = map (\<lambda>k. (pointer_file X b k, None)) ks"

text \<open>\<open>ks\<close> are the keys in the order in which the directory is read.\<close>

definition dropping :: "ext \<Rightarrow> string \<Rightarrow> engine \<Rightarrow> fs \<Rightarrow> bool" where
  "dropping X b e d1 \<longleftrightarrow>
     (\<exists>ks ks'. keys X e b = Inr ks' \<and> distinct ks \<and> set ks = set ks' \<and> d1 \<in> set (crash_states (\<lambda>_. []) (drop_writes X b ks) (disk e))) \<or>
     d1 = snd (pointer_delete_bucket b (disk e)) \<or> d1 = disk (snd (delete_bucket X b e))"

fun killed_at :: "ext \<Rightarrow> (nat \<Rightarrow> string) \<Rightarrow> command \<Rightarrow> engine \<Rightarrow> fs \<Rightarrow> bool" where
  "killed_at X sfx (DropPot b) e d1 = dropping X b e d1"
| "killed_at X sfx (DropEmpty b) e d1 = (if keys X e b = Inr [] then dropping X b e d1 else d1 = disk e)"
| "killed_at X sfx (RenamePot old new) e d1 =
     (d1 \<in> {disk e, snd (pointer_rename_bucket old new (disk e)), disk (snd (rename_bucket X old new e))})"
| "killed_at X sfx c e d1 = (d1 \<in> set (crash_states sfx (writes_of X c e) (disk e)))"

lemma killed_stepwise: "stepwise c \<Longrightarrow> killed_at X sfx c e d1 \<longleftrightarrow> d1 \<in> set (crash_states sfx (writes_of X c e) (disk e))"
  by (cases c) (simp_all del: writes_of.simps)

section \<open>Opening after them\<close>

text \<open>What an open after a crash gives: a well-formed settled store that serves what \<open>P\<close> allows.\<close>

definition opens_as :: "ext \<Rightarrow> bytes set \<Rightarrow> bytes set \<Rightarrow> policy \<Rightarrow> (string \<Rightarrow> bytes option) \<Rightarrow> fs \<Rightarrow> (vault \<Rightarrow> bool) \<Rightarrow> bool" where
  "opens_as X B M pol rng d P \<longleftrightarrow>
     (\<exists>e' s. open_engine X pol None rng d = (Inr (e', s), disk e') \<and> vault_ok X B M e' \<and> settled X (disk e') \<and>
        P (vault_of X e'))"

lemma opens_mono: "opens_as X B M pol rng d P \<Longrightarrow> (\<And>V. P V \<Longrightarrow> Q V) \<Longrightarrow> opens_as X B M pol rng d Q"
  unfolding opens_as_def by blast

lemma opens_clean:
  assumes v: "vault_ok X B M e" and s: "settled X (disk e)"
  shows "opens_as X B M pol rng (disk e) (\<lambda>V. V = vault_of X e)"
proof -
  note V = vault_okD [OF v]
  from open_clean [OF V(3), of pol rng] s obtain e' st where
    e': "open_engine X pol None rng (disk e) = (Inr (e', st), disk e')" "store_ok X B M (disk e')"
      "contents (disk e') = contents (disk e)" by (auto simp: settled_def)
  have x: "extends X (disk e) (disk e')" by (rule grows_extends [OF V(3) e'(2) same_grows]) (simp add: e'(3))
  have "log_at X (disk e') b k = log_at X (disk e) b k" for b k by (simp add: log_at_def e'(3))
  note same = vault_same [OF V(4) keeps_extends [OF x] this]
  have "vault_ok X B M e'" using same(1) V(1,2) e'(2) by (simp add: vault_ok_def)
  with e'(1) settled_same [OF s e'(3)] same(2) show ?thesis unfolding opens_as_def by blast
qed

text \<open>From an open that succeeds on a state some of the changes left.\<close>

lemma opens_settled:
  assumes w: "steps_ok X B M ws (disk e)" and s: "settled X (disk e)" and sfx: "\<forall>i. temp_suffix (sfx i)"
    and crash: "d1 \<in> set (crash_states sfx ws (disk e))"
    and run: "\<exists>e' s. open_engine X pol None rng d1 = (Inr (e', s), disk e') \<and> vault_ok X B M e' \<and> P (vault_of X e')"
  shows "opens_as X B M pol rng d1 P"
proof -
  from run obtain e' st where
    e': "open_engine X pol None rng d1 = (Inr (e', st), disk e')" "vault_ok X B M e'" "P (vault_of X e')" by blast
  from s have S: "\<forall>q. \<not> is_temp (disk e) q" "stamp_state X (disk e) = Some (Some FORMAT_VERSION)" by (simp_all add: settled_def)
  from crash_between [OF w S sfx crash, of pol rng] e'(1) obtain us vs where
    u: "ws = us @ vs" "contents (disk e') = contents (apply_writes us (disk e))" by auto
  from w have "steps_ok X B M us (disk e)" by (simp add: u(1) steps_ok_append)
  from settled_same [OF steps_settled [OF this s] u(2)] e' show ?thesis by (auto simp: opens_as_def)
qed

section \<open>Removing a pot\<close>

lemma drop_written:
  assumes "vault_ok X B M e" "valid_bucket b" "list_all valid_key ks" "distinct ks"
  defines "d1 \<equiv> apply_writes (drop_writes X b ks) (disk e)"
  shows "performs X B M (drop_writes X b ks) e (e\<lparr>disk := d1\<rparr>)" "log_changes X UNIV (drop_writes X b ks)"
    "vault_ok X B M (e\<lparr>disk := d1\<rparr>)"
    "vault_of X (e\<lparr>disk := d1\<rparr>) = (\<lambda>(c, k). if c = b \<and> k \<in> set ks then [] else vault_of X e (c, k))"
proof -
  note V = vault_okD [OF assms(1)]
  have L: "writes_ok X B M (drop_writes X b ks) d \<and> extends X d (apply_writes (drop_writes X b ks) d) \<and>
      (\<forall>c j. log_at X (apply_writes (drop_writes X b ks) d) c j = (if c = b \<and> j \<in> set ks then [] else log_at X d c j))"
    if "store_ok X B M d" for d
    using that assms(3)
  proof (induction ks arbitrary: d)
    case (Cons k ks)
    note S = store_okD [OF Cons.prems(1)]
    have k: "valid_key k" "list_all valid_key ks" using Cons.prems(2) by auto
    have p: "durable_path (pointer_file X b k)" by (rule durable_pointer [OF S(7) assms(2) k(1)])
    then have g: "good (pointer_file X b k)" by (simp add: durable_path_def)
    from pointer_remove_step [OF Cons.prems(1) assms(2) k(1)] obtain d1 where
      1: "pointer_remove X b k d = (Inr (), d1)" "store_ok X B M d1" "extends X d d1"
        "\<forall>c j. log_at X d1 c j = (if c = b \<and> j = k then [] else log_at X d c j)" by blast
    have d1: "apply_write (pointer_file X b k, None) d = d1"
      using 1(1) assms(2) k(1) by (simp add: pointer_remove_def pointer_path_valid S(7) remove_opt_good [OF S(5) g])
    have ws: "drop_writes X b (k # ks) = (pointer_file X b k, None) # drop_writes X b ks" by (simp add: drop_writes_def)
    from Cons.IH [OF 1(2) k(2)] show ?case
      unfolding ws writes_ok.simps apply_writes_simps d1
      using Cons.prems(1) p 1(3,4) extends_trans [OF 1(3)] by (auto simp: pointer_file_def)
  qed (simp add: drop_writes_def)
  note W = L [OF V(3), folded d1_def]
  have ok: "store_ok X B M d1" using writes_extend(1) [of X B M "drop_writes X b ks" "[]"] W by (simp add: d1_def)
  show "performs X B M (drop_writes X b ks) e (e\<lparr>disk := d1\<rparr>)" using W by (simp add: performs_def d1_def)
  show "log_changes X UNIV (drop_writes X b ks)"
    using assms(4) store_okD(7) [OF V(3)]
    by (auto simp: log_changes_def drop_writes_def distinct_map inj_on_def pointer_file_def hex_okD image_iff)
  have sub: "set (log_at X (disk (e\<lparr>disk := d1\<rparr>)) c j) \<subseteq> versions X (disk e)" if "valid_bucket c" "valid_key j" for c j
    using W log_versions [OF that] by auto
  have "keeps_versions X e (e\<lparr>disk := d1\<rparr>)" using W by (intro keeps_extends) simp
  note sh = vault_shrinks [OF V(4) this sub]
  show "vault_ok X B M (e\<lparr>disk := d1\<rparr>)" using sh(1) V(1,2) ok by (simp add: vault_ok_def)
  show "vault_of X (e\<lparr>disk := d1\<rparr>) = (\<lambda>(c, k). if c = b \<and> k \<in> set ks then [] else vault_of X e (c, k))"
    by (rule trans [OF sh(2)]) (use W in \<open>auto simp: fun_eq_iff vault_of_def\<close>)
qed

definition without_pot :: "string \<Rightarrow> vault \<Rightarrow> vault" where
  "without_pot b V = (\<lambda>(c, k). if c = b then [] else V (c, k))"

lemma dropping_opens:
  assumes v: "vault_ok X B M e" and s: "settled X (disk e)" and n: "valid_bucket b" "valid_pot b" and d: "dropping X b e d1"
  shows "opens_as X B M pol rng d1 (\<lambda>V. \<forall>p. V p = vault_of X e p \<or> V p = without_pot b (vault_of X e) p)"
proof -
  note V = vault_okD [OF v]
  have gone: "opens_as X B M pol rng d2 (\<lambda>V. \<forall>p. V p = vault_of X e p \<or> V p = without_pot b (vault_of X e) p)"
    if "store_ok X B M d2" "extends X (disk e) d2" "settled X d2"
      "\<forall>c k. log_at X d2 c k = (if c = b then [] else log_at X (disk e) c k)" for d2
  proof -
    let ?e = "e\<lparr>disk := d2\<rparr>"
    have kp: "keeps_versions X e ?e" using that(2) by (intro keeps_extends) simp
    have sub: "set (log_at X (disk ?e) c k) \<subseteq> versions X (disk e)" if "valid_bucket c" "valid_key k" for c k
      using \<open>\<forall>c k. log_at X d2 c k = _ c k\<close> log_versions [OF that] by auto
    note sh = vault_shrinks [OF V(4) kp sub]
    have ok: "vault_ok X B M ?e" using sh(1) V(1,2) that(1) by (simp add: vault_ok_def)
    have "vault_of X ?e = without_pot b (vault_of X e)"
      by (rule trans [OF sh(2)]) (use that(4) in \<open>auto simp: fun_eq_iff vault_of_def without_pot_def\<close>)
    with opens_clean [OF ok, of pol rng] that(3) show ?thesis by (auto elim!: opens_mono)
  qed
  from pointer_delete_bucket_step [OF V(3) n(1)] obtain d2 where
    2: "pointer_delete_bucket b (disk e) = (Inr (), d2)" "store_ok X B M d2" "others [pointer_dir] (disk e) d2"
      "extends X (disk e) d2" "\<forall>c k. log_at X d2 c k = (if c = b then [] else log_at X (disk e) c k)" by blast
  from delete_bucket_step [OF V(3) n] obtain d3 where
    3: "delete_bucket X b e = (Inr (), e\<lparr>disk := d3\<rparr>)" "store_ok X B M d3" "extends X (disk e) d3"
      "\<forall>c k. log_at X d3 c k = (if c = b then [] else log_at X (disk e) c k)" by blast
  from d [unfolded dropping_def] show ?thesis
  proof (elim disjE exE conjE)
    fix ks ks' assume k: "keys X e b = Inr ks'" "distinct ks" "set ks = set ks'"
      and c: "d1 \<in> set (crash_states (\<lambda>_. []) (drop_writes X b ks) (disk e))"
    from pointer_list_ok [OF store_okD(3) [OF V(3)] n(1)] k(1,3) have "list_all valid_key ks"
      by (auto simp: keys_def list_all_iff)
    note W = drop_written [OF v n(1) this k(2)]
    have sfx: "\<forall>i :: nat. temp_suffix []" by (simp add: temp_suffix_def)
    have S: "\<forall>q. \<not> is_temp (disk e) q" "stamp_state X (disk e) = Some (Some FORMAT_VERSION)" using s by (simp_all add: settled_def)
    from crash_logs [OF v W(3,1,2) S sfx c, of pol rng] obtain e' st where
      e': "open_engine X pol None rng d1 = (Inr (e', st), disk e')" "vault_ok X B M e'"
        "\<forall>p. vault_of X e' p = vault_of X e p \<or>
           vault_of X e' p = (\<lambda>(c, k). if c = b \<and> k \<in> set ks then [] else vault_of X e (c, k)) p"
      unfolding W(4) by blast
    have "vault_of X e' p = vault_of X e p \<or> vault_of X e' p = without_pot b (vault_of X e) p" for p
      using e'(3) [rule_format, of p] by (cases p) (auto simp: without_pot_def split: if_splits)
    note e' = e'(1,2) allI [OF this]
    have steps: "steps_ok X B M (drop_writes X b ks) (disk e)" using W(1) by (simp add: performs_def writes_steps)
    show ?thesis by (rule opens_settled [OF steps s sfx c]) (rule exI [of _ e'], rule exI [of _ st], intro conjI e')
  next
    assume "d1 = snd (pointer_delete_bucket b (disk e))"
    with gone [OF 2(2,4) settled_pointers [OF s 2(3,2)] 2(5)] 2(1) show ?thesis by simp
  next
    assume "d1 = disk (snd (delete_bucket X b e))"
    with gone [OF 3(2,3) _ 3(4)] drop_settled [OF v n s] 3(1) show ?thesis by simp
  qed
qed

section \<open>Every command\<close>

inductive_cases drop_stepE: "vault_step X (DropPot b) Done V V'"

lemma rename_opens:
  assumes v: "vault_ok X B M e" and s: "settled X (disk e)" and a: "admissible X B M (RenamePot old new) e"
    and d: "d1 \<in> {disk e, snd (pointer_rename_bucket old new (disk e)), disk (snd (rename_bucket X old new e))}"
  shows "opens_as X B M pol rng d1 (\<lambda>V. V = vault_of X e \<or> V = vault_of X (snd (rename_bucket X old new e)))"
proof -
  note V = vault_okD [OF v]
  have n: "valid_bucket old" "valid_bucket new" "old \<noteq> new" "fs_lookup (disk e) [pointer_dir, old] \<noteq> None"
    "fs_lookup (disk e) [pointer_dir, new] = None" "valid_pot old" "valid_pot new" using a by auto
  from pointer_rename_bucket_step [OF V(3) n(1-5)] obtain d2 where
    2: "pointer_rename_bucket old new (disk e) = (Inr (), d2)" "store_ok X B M d2" "others [pointer_dir] (disk e) d2"
      "extends X (disk e) d2" "\<forall>c k. log_at X d2 c k =
        (if c = new then log_at X (disk e) old k else if c = old then [] else log_at X (disk e) c k)" by blast
  from meta_rename_step [OF 2(2) n(6,7,3)] obtain d3 where 3: "meta_rename_bucket X old new d2 = (Inr (), d3)"
    "others [meta_dir] d2 d3" "extends X d2 d3" by blast
  let ?e2 = "e\<lparr>disk := d2\<rparr>" and ?e3 = "snd (rename_bucket X old new e)"
  have e3: "?e3 = e\<lparr>disk := d3\<rparr>" using 2(1) 3(1) by (simp add: rename_bucket_def on_disk_eq)
  have kp: "keeps_versions X e ?e2" "keeps_versions X ?e2 ?e3" using 2(4) 3(3) by (auto intro: keeps_extends simp: e3)
  have sub: "set (log_at X (disk ?e2) c k) \<subseteq> versions X (disk e)" if "valid_bucket c" "valid_key k" for c k
    using 2(5) log_versions [OF that] log_versions [OF n(1) that(2)] by auto
  note sh = vault_shrinks [OF V(4) kp(1) sub]
  have ok2: "vault_ok X B M ?e2" using sh(1) V(1,2) 2(2) by (simp add: vault_ok_def)
  have "log_at X (disk ?e3) c k = log_at X (disk ?e2) c k" for c k
    using others_agree [OF 3(2), THEN log_at_agree] by (simp add: e3)
  note same = vault_same [OF sh(1) kp(2) this]
  from exec_simulates [OF v a] have ok3: "vault_ok X B M ?e3" by (simp add: simulates_def)
  from d consider "d1 = disk e" | "d1 = d2" | "d1 = disk ?e3" using 2(1) by auto
  then show ?thesis
  proof cases
    case 1
    with opens_clean [OF v s, of pol rng] show ?thesis by (auto elim: opens_mono)
  next
    case 2
    from opens_clean [OF ok2, of pol rng] settled_pointers [OF s \<open>others [pointer_dir] (disk e) d2\<close> \<open>store_ok X B M d2\<close>] 2 same(2)
    show ?thesis by (auto elim: opens_mono)
  next
    case 3
    with opens_clean [OF ok3 rename_settled [OF v a s], of pol rng] show ?thesis by (auto elim: opens_mono)
  qed
qed

lemma killed_opens:
  assumes v: "vault_ok X B M e" and s: "settled X (disk e)" and a: "admissible X B M c e"
    and sfx: "\<forall>i. temp_suffix (sfx i)" and d: "killed_at X sfx c e d1"
  shows "opens_as X B M pol rng d1 (crash_shows c (vault_of X e) (vault_of X (snd (exec X c e))))"
proof (cases "stepwise c")
  case True
  have S: "\<forall>q. \<not> is_temp (disk e) q" "stamp_state X (disk e) = Some (Some FORMAT_VERSION)" using s by (simp_all add: settled_def)
  from d have d': "d1 \<in> set (crash_states sfx (writes_of X c e) (disk e))" by (simp only: killed_stepwise [OF True])
  from command_performed(1) [OF v a True] have "steps_ok X B M (writes_of X c e) (disk e)" by (simp add: tracks_def)
  from opens_settled [OF this s sfx d' crash_command [OF v a True S sfx d']] show ?thesis .
next
  case False
  then consider b where "c = DropPot b" | b where "c = DropEmpty b" | old new where "c = RenamePot old new"
    by (cases c) auto
  then show ?thesis
  proof cases
    case (1 b)
    then have n: "valid_bucket b" "valid_pot b" using a by auto
    from delete_bucket_step [OF vault_okD(3) [OF v] n] have run: "fst (exec X c e) = Done" by (auto simp: 1)
    from exec_simulates [OF v a] run have "vault_step X (DropPot b) Done (vault_of X e) (vault_of X (snd (exec X c e)))"
      by (simp add: simulates_def 1)
    then have V1: "vault_of X (snd (exec X c e)) = without_pot b (vault_of X e)"
      by (auto simp: without_pot_def elim: drop_stepE)
    from d have "dropping X b e d1" by (simp add: 1)
    from dropping_opens [OF v s n this, of pol rng] show ?thesis
      unfolding V1 by (rule opens_mono) (simp add: crash_shows_def 1)
  next
    case (2 b)
    then have n: "valid_bucket b" "valid_pot b" using a by auto
    show ?thesis
    proof (cases "keys X e b = Inr []")
      case True
      have "vault_of X e (b, k) = []" for k
      proof (cases "valid_key k")
        case True
        with pointer_list_ok [OF store_okD(3) [OF vault_okD(3) [OF v]] n(1)] \<open>keys X e b = Inr []\<close>
        have "contents (disk e) (pointer_file X b k) = None" by (auto simp: keys_def)
        then have "log_at X (disk e) b k = []" by (simp add: log_at_def)
        then show ?thesis by (simp add: vault_of_def)
      qed (simp add: vault_of_def)
      then have same: "without_pot b (vault_of X e) = vault_of X e" by (auto simp: without_pot_def fun_eq_iff)
      from d True have "dropping X b e d1" by (simp add: 2)
      from dropping_opens [OF v s n this, of pol rng] show ?thesis
        unfolding same by (rule opens_mono) (simp add: crash_shows_def fun_eq_iff)
    next
      case False
      with d opens_clean [OF v s, of pol rng] show ?thesis by (auto elim: opens_mono simp: crash_shows_def 2)
    qed
  next
    case (3 old new)
    then have "d1 \<in> {disk e, snd (pointer_rename_bucket old new (disk e)), disk (snd (rename_bucket X old new e))}"
      using d by simp
    from rename_opens [OF v s a [unfolded 3] this, of pol rng] show ?thesis
      by (rule opens_mono) (simp add: crash_shows_def 3)
  qed
qed

end
