(* ===== verification/Crash_Runs.thy ===== *)
theory Crash_Runs
  imports Crash_Pots
begin

text \<open>
  Whole lives of a data directory: commands that finish, and commands at some instruction of which the
  process is killed, after which the directory is opened again.
\<close>

section \<open>Runs with crashes\<close>

datatype event =
    Ran command outcome
  | Killed command

inductive crash_run :: "ext \<Rightarrow> bytes set \<Rightarrow> bytes set \<Rightarrow> engine \<Rightarrow> event list \<Rightarrow> engine \<Rightarrow> bool" for X B M where
  crash_starts: "crash_run X B M e [] e"
| crash_runs: "crash_run X B M e es e1 \<Longrightarrow> admissible X B M c e1 \<Longrightarrow> exec X c e1 = (r, e2) \<Longrightarrow>
    crash_run X B M e (es @ [Ran c r]) e2"
| crash_kills: "crash_run X B M e es e1 \<Longrightarrow> admissible X B M c e1 \<Longrightarrow> \<forall>i. temp_suffix (sfx i) \<Longrightarrow>
    killed_at X sfx c e1 d1 \<Longrightarrow>
    open_engine X pol None rng d1 = (Inr (e2, s), d2) \<Longrightarrow> crash_run X B M e (es @ [Killed c]) e2"

text \<open>The abstract side: a killed command happened, or did not, or as \<open>crash_shows\<close> says.\<close>

inductive mortal_run :: "ext \<Rightarrow> vault \<Rightarrow> event list \<Rightarrow> vault \<Rightarrow> bool" for X where
  mortal_starts: "mortal_run X V [] V"
| mortal_runs: "mortal_run X V es V1 \<Longrightarrow> vault_step X c r V1 V2 \<Longrightarrow> mortal_run X V (es @ [Ran c r]) V2"
| mortal_dies: "mortal_run X V es V1 \<Longrightarrow> vault_step X c r V1 V2 \<Longrightarrow> crash_shows c V1 V2 V3 \<Longrightarrow>
    mortal_run X V (es @ [Killed c]) V3"

inductive_cases mortal_killedE: "mortal_run X V (es @ [Killed c]) V1"
inductive_cases mortal_NilE: "mortal_run X V [] V1"

lemma crash_run_simulates:
  assumes "crash_run X B M e es e'" "vault_ok X B M e" "settled X (disk e)"
  shows "vault_ok X B M e' \<and> settled X (disk e') \<and> mortal_run X (vault_of X e) es (vault_of X e')"
  using assms
proof (induction rule: crash_run.induct)
  case (crash_starts e)
  then show ?case by (simp add: mortal_starts)
next
  case (crash_runs e es e1 c r e2)
  then have IH: "vault_ok X B M e1" "settled X (disk e1)" "mortal_run X (vault_of X e) es (vault_of X e1)" by simp_all
  from exec_simulates [OF IH(1) crash_runs.hyps(2)] command_settled [OF IH(1) crash_runs.hyps(2) IH(2)] crash_runs.hyps(3)
  show ?case using mortal_runs [OF IH(3)] by (simp add: simulates_def)
next
  case (crash_kills e es e1 c sfx d1 pol rng e2 s d2)
  then have IH: "vault_ok X B M e1" "settled X (disk e1)" "mortal_run X (vault_of X e) es (vault_of X e1)" by simp_all
  from killed_opens [OF IH(1,2) crash_kills.hyps(2-4), of pol rng] crash_kills.hyps(5) have
    R: "vault_ok X B M e2" "settled X (disk e2)"
      "crash_shows c (vault_of X e1) (vault_of X (snd (exec X c e1))) (vault_of X e2)" by (auto simp: opens_as_def)
  from exec_simulates [OF IH(1) crash_kills.hyps(2)] have
    "vault_step X c (fst (exec X c e1)) (vault_of X e1) (vault_of X (snd (exec X c e1)))" by (simp add: simulates_def)
  from mortal_dies [OF IH(3) this R(3)] R(1,2) show ?case by blast
qed

end
