(* ===== verification/Keyed_Open.thy ===== *)
theory Keyed_Open
  imports Crash
begin

text \<open>
  Opening a data directory with a master key. The server always does; the open then seals the key records
  that are still in the clear, which changes files of the key directory only.
\<close>

text \<open>Opening with a master key rewrites key records and nothing else a client sees.\<close>

lemma key_put_frame:
  assumes "keys_ok X c d" "valid_access (access_key r)" "secret_ok (secret_key r)" "c \<noteq> None \<longrightarrow> nonce_ok n"
    and "key_put X c n r d = (res, d')"
  shows "others [key_dir] d d'"
  using key_put_ok(4) [OF assms] by (auto simp: key_path_def intro: others_put_file)

lemma migrate_frame:
  assumes "keys_ok X (Some k) d" "\<forall>name. nonce_ok (rng name)" "migrate_entries X (Some k) rng names d = (Inr (), d')"
    and "\<forall>f \<in> set names. contents d [key_dir, f] \<noteq> None" "distinct names"
  shows "others [key_dir] d d'"
  using assms(1,3-5)
proof (induction names arbitrary: d)
  case (Cons f names)
  from Cons.prems(3) obtain b where b: "contents d [key_dir, f] = Some b" by auto
  have dk: "disk_ok d" "hex_ok X" using Cons.prems(1) by (auto simp: keys_ok_def flat_ok_def)
  from Cons.prems(1) b have "key_file_ok X (Some k) f b" by (simp add: keys_ok_def)
  then obtain s r where s: "key_of_json X b = Some s" "[key_dir, f] = key_path X (sk_access_key s)"
    "valid_access (sk_access_key s)" "key_decode X (Some k) s = Inr r" "secret_ok (secret_key r)"
    unfolding key_file_ok_def by blast
  have "good [key_dir, f]" using s(2,3) dk by (simp add: good_key valid_access_def)
  then have rd: "key_read X d f = Inr s" using b s(1) dk(1) by (simp add: key_read_def read_good)
  have acc: "access_key r = sk_access_key s" using s(4) by (auto simp: key_decode_def result_simps split: option.splits)
  from migrate_one [OF Cons.prems(1) assms(2) [rule_format, of f], of f] b rd obtain d1 where
    one: "(if secret_enc s = None \<and> sk_secret_key s \<noteq> None
        then and_then (key_decode X (Some k) s, d) (\<lambda>r d. key_put X (Some k) (rng f) r d)
        else (Inr (), d)) = (Inr (), d1)" "keys_ok X (Some k) d1"
      "\<forall>g. g \<noteq> f \<longrightarrow> contents d1 [key_dir, g] = contents d [key_dir, g]" by auto
  have "others [key_dir] d d1"
  proof (cases "secret_enc s = None \<and> sk_secret_key s \<noteq> None")
    case True
    then have "key_put X (Some k) (rng f) r d = (Inr (), d1)" using one(1) s(4) by simp
    then show ?thesis using Cons.prems(1) s(3,5) assms(2) by (intro key_put_frame) (simp_all add: acc)
  next
    case False
    then have "d1 = d" using one(1) unfolding if_not_P [OF False] by simp
    then show ?thesis by simp
  qed
  moreover have "migrate_entries X (Some k) rng names d1 = (Inr (), d')"
    using Cons.prems(2) rd one(1) by (simp del: key_read_def)
  moreover have "\<forall>g \<in> set names. contents d1 [key_dir, g] \<noteq> None" using one(3) Cons.prems(3,4) by auto
  ultimately show ?case using Cons.IH [OF one(2)] Cons.prems(4) others_trans by fastforce
qed simp

lemma store_ok_opened:
  assumes "store_ok X B M d" "disk_ok d'" "\<forall>q. q \<noteq> [FORMAT_FILE] \<longrightarrow> contents d' q = contents d q"
    and "\<forall>q. 2 \<le> length q \<longrightarrow> fs_lookup d' q = fs_lookup d q"
  shows "store_ok X B M d'"
  by (rule store_ok_contents [OF assms(1,2)])
    (use assms(3,4) pointers_okD(4) [OF store_okD(3) [OF assms(1)]] in simp_all)

abbreviation (input) store_dirs :: "string list" where
  "store_dirs \<equiv> [chunk_dir, manifest_dir, pointer_dir, meta_dir, annotation_dir, reverse_dir, webhook_dir]"

text \<open>What is left to do after the stamp was read and the temporary files are gone.\<close>

lemma keyed_rest:
  assumes dk: "disk_ok d2" and n: "\<forall>name. nonce_ok (rng name)"
    and st: "\<And>d. disk_ok d \<Longrightarrow> contents d = contents d2 \<Longrightarrow> \<forall>q. 2 \<le> length q \<longrightarrow> fs_lookup d q = fs_lookup d2 q \<Longrightarrow>
        store_ok X B M d \<and> keys_ok X (Some mk) d"
  shows "\<exists>d4 d5. open_keys X (Some mk) rng d2 = (Inr (), d4) \<and> open_dirs store_dirs d4 = (Inr (), d5) \<and>
     store_ok X B M d5 \<and> keys_ok X (Some mk) d5 \<and>
     (\<forall>q. hd q \<noteq> key_dir \<longrightarrow> q \<noteq> [] \<longrightarrow> contents d5 q = contents d2 q)"
proof -
  from open_dirs_ok [OF dk, of "[key_dir]"] obtain d3 where
    3: "open_dirs [key_dir] d2 = (Inr (), d3)" "disk_ok d3" "contents d3 = contents d2"
      "\<forall>q. 2 \<le> length q \<longrightarrow> fs_lookup d3 q = fs_lookup d2 q"
    by (auto simp: flat_dirs_def simp del: open_dirs.simps)
  have s3: "store_ok X B M d3" and k3: "keys_ok X (Some mk) d3" using st [OF 3(2-4)] by auto
  from key_names_ok [OF k3] obtain ns where ns: "key_names d3 = Inr ns" "distinct ns"
    "\<forall>f. f \<in> set ns \<longleftrightarrow> contents d3 [key_dir, f] \<noteq> None" by blast
  from migrate_ok [OF k3 n] obtain d4 where
    4: "migrate_plaintext X (Some mk) rng d3 = (Inr (), d4)" "keys_ok X (Some mk) d4" by blast
  have o: "others [key_dir] d3 d4"
    by (rule migrate_frame [OF k3 n _ _ ns(2)]) (use 4(1) ns in \<open>auto simp: migrate_plaintext_def\<close>)
  have dk4: "disk_ok d4" using 4(2) by (simp add: keys_ok_def flat_ok_def)
  have a: "agree t d3 d4" if "t \<noteq> key_dir" for t using others_agree [OF o] that by simp
  have "side_ok X d4" using store_okD(4) [OF s3] by (simp add: side_ok_def agree_contents [OF a])
  moreover have "others flat_dirs d3 d4" using others_mono [OF o] by (simp add: flat_dirs_def)
  ultimately have s4: "store_ok X B M d4" by (rule side_change(1) [OF s3 dk4])
  have c4: "contents d4 q = contents d3 q" if "q \<noteq> []" "hd q \<noteq> key_dir" for q
    using agree_contents [OF a [OF that(2)], of "tl q"] that(1) by simp
  from open_dirs_ok [OF dk4, of store_dirs] obtain d5 where
    5: "open_dirs store_dirs d4 = (Inr (), d5)" "disk_ok d5" "contents d5 = contents d4"
      "\<forall>q. 2 \<le> length q \<longrightarrow> fs_lookup d5 q = fs_lookup d4 q"
    by (auto simp: flat_dirs_def nested_dirs_def simp del: open_dirs.simps)
  have s5: "store_ok X B M d5" by (rule store_ok_opened [OF s4 5(2)]) (use 5(3,4) in simp_all)
  have k5: "keys_ok X (Some mk) d5" by (rule keys_ok_agree(1) [OF 4(2) 5(2)]) (simp add: 5(3))
  have "open_keys X (Some mk) rng d2 = (Inr (), d4)" using 3(1) 4(1) by (simp add: open_keys_def del: open_dirs.simps)
  moreover have "contents d5 q = contents d2 q" if "hd q \<noteq> key_dir" "q \<noteq> []" for q
    using c4 [OF that(2,1)] 3(3) 5(3) by simp
  ultimately show ?thesis using 5(1) s5 k5 by blast
qed

lemma open_keyed_store:
  assumes ok: "store_ok X B M d" "keys_ok X (Some mk) d" and "\<forall>q. \<not> is_temp d q"
    and "stamp_state X d = None \<or> (\<exists>v \<le> FORMAT_VERSION. stamp_state X d = Some (Some v))"
    and n: "\<forall>name. nonce_ok (rng name)"
  shows "\<exists>e s. open_engine X pol (Some mk) rng d = (Inr (e, s), disk e) \<and> cipher e = Some mk \<and> eng_policy e = pol \<and>
     keys_ok X (Some mk) (disk e) \<and> store_ok X B M (disk e) \<and>
     (\<forall>q. q \<noteq> [FORMAT_FILE] \<longrightarrow> hd q \<noteq> key_dir \<longrightarrow> q \<noteq> [] \<longrightarrow> contents (disk e) q = contents d q)"
proof -
  have dk: "disk_ok d" using store_okD(5) [OF ok(1)] .
  from open_front [OF dk assms(3,4)] obtain d1 d2 where
    1: "open_format X d = (Inr FORMAT_VERSION, d1)" "sweep_temp d1 = (Inr 0, d2)" "disk_ok d2"
      "\<forall>q. q \<noteq> [FORMAT_FILE] \<longrightarrow> fs_lookup d2 q = fs_lookup d q" by blast
  have c2: "contents d2 q = contents d q" if "q \<noteq> [FORMAT_FILE]" for q using that 1(4) by (simp add: contents_def)
  have st: "store_ok X B M d3 \<and> keys_ok X (Some mk) d3"
    if d3: "disk_ok d3" "contents d3 = contents d2" "\<forall>q. 2 \<le> length q \<longrightarrow> fs_lookup d3 q = fs_lookup d2 q" for d3
  proof -
    have l3: "fs_lookup d3 q = fs_lookup d q" if "2 \<le> length q" for q
    proof -
      have "q \<noteq> [FORMAT_FILE]" using that by auto
      then show ?thesis using that 1(4) d3(3) by simp
    qed
    have "keys_ok X (Some mk) d3" by (rule keys_ok_agree(1) [OF ok(2) d3(1)]) (simp add: c2 d3(2))
    moreover have "store_ok X B M d3" by (rule store_ok_opened [OF ok(1) d3(1)]) (use c2 l3 d3(2) in simp_all)
    ultimately show ?thesis by simp
  qed
  from keyed_rest [where B = B and M = M and mk = mk and X = X, OF 1(3) n st] obtain d4 d5 where
    "open_keys X (Some mk) rng d2 = (Inr (), d4)" "open_dirs store_dirs d4 = (Inr (), d5)"
    "store_ok X B M d5" "keys_ok X (Some mk) d5" "\<forall>q. hd q \<noteq> key_dir \<longrightarrow> q \<noteq> [] \<longrightarrow> contents d5 q = contents d2 q" by blast
  with 1(1,2) c2 show ?thesis by (simp add: open_engine_def open_store_def del: open_dirs.simps)
qed

text \<open>
  A directory that opens without a key opens with one that reads its records, with the same report, and
  differs from it in the key directory only.
\<close>

lemma open_keyed_again:
  assumes "open_format X d = (Inr v, d1)" "sweep_temp d1 = (Inr n, d2)" "disk_ok d2" "\<forall>name. nonce_ok (rng name)"
    and e: "open_engine X pol None rng d = (Inr (e, s), disk e)" "store_ok X B M (disk e)" "keys_ok X (Some mk) (disk e)"
  shows "\<exists>e'. open_engine X pol (Some mk) rng d = (Inr (e', s), disk e') \<and> cipher e' = Some mk \<and>
     store_ok X B M (disk e') \<and> keys_ok X (Some mk) (disk e') \<and>
     (\<forall>q. hd q \<noteq> key_dir \<longrightarrow> q \<noteq> [] \<longrightarrow> contents (disk e') q = contents (disk e) q)"
proof -
  let ?s = "\<lparr>format_version = v, recovered_temp = n\<rparr>"
  from open_rest [OF assms(3), of X rng ?s] obtain d3 where
    3: "and_then (open_keys X None rng d2) (\<lambda>_ d. and_then (open_dirs store_dirs d) (\<lambda>_ d. (Inr ?s, d))) = (Inr ?s, d3)"
      "disk_ok d3" "contents d3 = contents d2" "\<forall>q. 2 \<le> length q \<longrightarrow> fs_lookup d3 q = fs_lookup d2 q" by blast
  have d3: "disk e = d3" "s = ?s" using e(1) assms(1,2) 3(1) by (auto simp: open_engine_def open_store_def simp del: open_dirs.simps)
  have st: "store_ok X B M d \<and> keys_ok X (Some mk) d"
    if "disk_ok d" "contents d = contents d2" "\<forall>q. 2 \<le> length q \<longrightarrow> fs_lookup d q = fs_lookup d2 q" for d
    using store_ok_opened [OF e(2) that(1)] keys_ok_agree(1) [OF e(3) that(1)] that(2,3) 3(3,4) by (simp add: d3(1))
  from keyed_rest [where B = B and M = M and mk = mk and X = X, OF assms(3,4) st] obtain d4 d5 where
    "open_keys X (Some mk) rng d2 = (Inr (), d4)" "open_dirs store_dirs d4 = (Inr (), d5)"
    "store_ok X B M d5" "keys_ok X (Some mk) d5" "\<forall>q. hd q \<noteq> key_dir \<longrightarrow> q \<noteq> [] \<longrightarrow> contents d5 q = contents d2 q" by blast
  with assms(1,2) d3 3(3) show ?thesis by (simp add: open_engine_def open_store_def del: open_dirs.simps)
qed

end
