(* ===== verification/Crash_Settings.thy ===== *)
theory Crash_Settings
  imports Crash_Runs Keyed_Open
begin

text \<open>
  What a kill leaves of the settings: pot configurations and annotations are files of their own. A command
  changes them together with the version logs only where it renames or removes a pot, so that but for those
  the whole of what a client sees, versions and settings, is that of before or that of after.
\<close>

section \<open>Everything a client sees\<close>

definition settings ::
  "ext \<Rightarrow> engine \<Rightarrow> (string \<Rightarrow> engine_error + bucket_config) \<times> (string \<times> string \<Rightarrow> engine_error + annotation)" where
  "settings X e =
     (\<lambda>b. if valid_pot b then get_bucket_config X e b else Inr bucket_config_default,
      \<lambda>(b, k). if valid_object (b, k) then get_annotation X e b k else Inr annotation_default)"

type_synonym view = "vault \<times> (string \<Rightarrow> engine_error + bucket_config) \<times> (string \<times> string \<Rightarrow> engine_error + annotation)"

definition view_of :: "ext \<Rightarrow> engine \<Rightarrow> view" where
  "view_of X e = (vault_of X e, settings X e)"

text \<open>
  The commands a kill can leave half done, and what their halves are: a move with the object under both
  keys, a lifecycle pass or the removal of a pot with some keys done, a rename with the settings behind.
\<close>

fun partly :: "command \<Rightarrow> vault \<Rightarrow> vault \<Rightarrow> vault \<Rightarrow> bool" where
  "partly (Move fb fk tb tk) V V1 V' \<longleftrightarrow> V' = V((tb, tk) := V (fb, fk))"
| "partly (Age clock) V V1 V' \<longleftrightarrow> (\<forall>p. V' p = V p \<or> V' p = V1 p)"
| "partly (DropPot b) V V1 V' \<longleftrightarrow> (\<forall>p. V' p = V p \<or> V' p = V1 p)"
| "partly (RenamePot old new) V V1 V' \<longleftrightarrow> V' = V1"
| "partly c V V1 V' \<longleftrightarrow> False"

definition crash_leaves :: "command \<Rightarrow> view \<Rightarrow> view \<Rightarrow> view \<Rightarrow> bool" where
  "crash_leaves c W W1 W' \<longleftrightarrow> W' = W \<or> W' = W1 \<or> snd W' = snd W \<and> partly c (fst W) (fst W1) (fst W')"

section \<open>Files of the settings\<close>

definition same_in :: "string list \<Rightarrow> fs \<Rightarrow> fs \<Rightarrow> bool" where
  "same_in ts d d' \<longleftrightarrow> (\<forall>t \<in> set ts. \<forall>q. contents d' (t # q) = contents d (t # q))"

lemma same_in_others: "others us d d' \<Longrightarrow> set ts \<inter> set us = {} \<Longrightarrow> same_in ts d d'"
  unfolding same_in_def using agree_contents [OF others_agree] by blast

lemma same_in_eq: "contents d' = contents d2 \<Longrightarrow> same_in ts d d2 \<Longrightarrow> same_in ts d d'"
  by (simp add: same_in_def)

lemma settings_same:
  assumes "store_ok X B M (disk e)" "store_ok X B M (disk e')" "same_in ts (disk e) (disk e')"
    and "{meta_dir, annotation_dir} \<subseteq> set ts"
  shows "settings X e' = settings X e"
  using assms(3,4)
  by (auto simp: settings_def same_in_def fun_eq_iff get_bucket_config_def get_annotation_def meta_path_def annotation_path_def
      meta_config_eq [OF store_okD(9) [OF assms(1)]] meta_config_eq [OF store_okD(9) [OF assms(2)]]
      annotation_get_eq [OF store_okD(9) [OF assms(1)]] annotation_get_eq [OF store_okD(9) [OF assms(2)]])

lemma keys_same:
  assumes "keys_ok X mk d" "disk_ok d'" "same_in ts d d'" "key_dir \<in> set ts"
  shows "keys_ok X mk d'"
  by (rule keys_ok_agree(1) [OF assms(1,2)]) (use assms(3,4) in \<open>simp add: same_in_def\<close>)

lemma steps_same_in:
  assumes "steps_ok X B M (us @ vs) d" "outside ts (us @ vs)"
  shows "same_in ts d (apply_writes us d)"
  unfolding same_in_def
proof (intro ballI allI)
  fix t q assume "t \<in> set ts"
  then have "t # q \<notin> fst ` set us" using assms(2) by (force simp: outside_def)
  with steps_untouched [of X B M us d] assms(1) show "contents (apply_writes us d) (t # q) = contents d (t # q)"
    by (simp add: steps_ok_append)
qed

abbreviation (input) side_dirs :: "string list" where
  "side_dirs \<equiv> [meta_dir, annotation_dir, key_dir]"

lemma chunk_writes_side: "outside side_dirs (chunk_writes X enc d)" "outside side_dirs (chunks_writes X encs d)"
proof -
  show one: "outside side_dirs (chunk_writes X enc d)" for enc d
    by (simp add: outside_def chunk_writes_def shard_def Let_def)
  show "outside side_dirs (chunks_writes X encs d)"
    by (induction encs arbitrary: d) (simp_all add: one del: outside_simps(3))
qed

lemma commit_writes_side: "outside side_dirs ss \<Longrightarrow> outside side_dirs (commit_writes X b k i ss d)"
  by (auto simp: commit_writes_def pointer_writes_def reverse_writes_def pointer_file_def shard_def Let_def split: sum.split)

lemma manifest_writes_side: "outside side_dirs (manifest_writes X m d)"
  by (simp add: outside_def manifest_writes_def shard_def Let_def)

lemma put_writes_side: "outside side_dirs (put_writes X b k m encs d)"
  unfolding put_writes_def
  by (rule commit_writes_side) (simp add: staging_writes_def Let_def chunk_writes_side manifest_writes_side)

lemma erasures_side: "outside side_dirs (erasures X hs)"
  by (auto simp: outside_def erasures_def shard_def)

lemma writes_side:
  assumes "vault_ok X B M e" "admissible X B M c e" "stepwise c"
    and "\<forall>b cfg. c \<noteq> Configure b cfg" "\<forall>b k a. c \<noteq> Annotate b k a"
  shows "outside side_dirs (writes_of X c e)"
proof (cases c)
  case (Write b k data ct clock t)
  then show ?thesis by (simp add: write_steps_def put_writes_side split: sum.split)
next
  case (Upload b k data ct limit clock t)
  then show ?thesis by (simp add: upload_steps_def write_steps_def put_writes_side chunk_writes_side split: sum.split)
next
  case (Adopt b k m clock)
  then show ?thesis by (simp add: import_steps_def manifest_writes_side commit_writes_side Let_def)
next
  case (Assemble b k data i order t)
  then show ?thesis
    by (simp add: complete_steps_def manifest_writes_side commit_writes_side Let_def split: option.split sum.split)
next
  case (Age clock)
  note V = vault_okD [OF assms(1)]
  from lifecycle_performed(2) [OF V(3) newest_whole [OF V(4)], of clock] assms(2) Age
  have "log_changes X UNIV (lifecycle_writes X clock e)" by simp
  then have "outside [t] (lifecycle_writes X clock e)" if "t \<noteq> pointer_dir" for t by (rule log_changes_outside [OF _ that])
  then have "outside [meta_dir] (lifecycle_writes X clock e)" "outside [annotation_dir] (lifecycle_writes X clock e)"
    "outside [key_dir] (lifecycle_writes X clock e)" by simp_all
  then show ?thesis unfolding Age writes_of.simps by (auto simp: outside_def)
next
  case (Collect clock grace)
  then show ?thesis
    by (auto simp: collect_writes_def erasures_side condemned_path_def split: sum.split prod.split)
qed (use assms(3-5) in \<open>auto simp: commit_writes_side chunk_writes_side pointer_writes_def pointer_file_def Let_def\<close>)

section \<open>The directory a kill leaves\<close>

text \<open>The stamp reads and the temporary files go.\<close>

definition swept :: "ext \<Rightarrow> fs \<Rightarrow> bool" where
  "swept X d \<longleftrightarrow> (\<exists>v d1 n d2. open_format X d = (Inr v, d1) \<and> sweep_temp d1 = (Inr n, d2) \<and> disk_ok d2)"

lemma swept_settled: "store_ok X B M d \<Longrightarrow> settled X d \<Longrightarrow> swept X d"
  using open_front [of d X] store_okD(5) unfolding swept_def settled_def by blast

lemma swept_during:
  assumes ok: "store_ok X B M d" and p: "durable_path p" and s: "settled X d" and sfx: "temp_suffix s"
    and crash: "d1 \<in> set (write_atomic_states s p b d)"
  shows "swept X d1"
proof -
  note dk = store_okD(5) [OF ok]
  have none: "\<forall>q. \<not> is_temp d q" and stamp: "stamp_state X d = Some (Some FORMAT_VERSION)" using s by (simp_all add: settled_def)
  have P: "good p" "p \<noteq> [FORMAT_FILE]" "\<not> prefix TMP_PREFIX (utf8_lossy (last p))"
    using p by (auto simp: durable_path_def)
  have S: "ascii s" "CHR 0x00 \<notin> set s" "length s \<le> 200" using sfx by (simp_all add: temp_suffix_def)
  note fresh = durable_fresh [OF dk none p sfx]
  from stamp obtain c where c: "fs_lookup d [FORMAT_FILE] = Some (File c)" "stamp_of_json X c = Some FORMAT_VERSION"
    by (auto simp: stamp_state_def contents_def split: option.splits fs_node.splits)
  have "fs_lookup d1 [FORMAT_FILE] = Some (File c)"
    using crash_keeps_file [OF crash c(1) _ good_plain(2) [OF P(1)] fresh] P(2) by simp
  then have "fs_read d1 [FORMAT_FILE] = Inr c"
    using good_plain(1) [OF good_format] good_format unfolding good_def by (simp add: fs_read_def resolve_plain)
  then have "open_format X d1 = (Inr FORMAT_VERSION, d1)" using c(2) by (simp add: open_format_def)
  with crash_recovery [OF dk P(1) none S fresh P(3) crash] show ?thesis unfolding swept_def by blast
qed

lemma swept_between:
  assumes "steps_ok X B M ws d" "settled X d" "\<forall>i. temp_suffix (sfx i)" "d1 \<in> set (crash_states sfx ws d)"
  shows "swept X d1"
  using assms
proof (induction ws arbitrary: d sfx)
  case Nil
  then show ?case using swept_settled by auto
next
  case (Cons w ws)
  obtain p bo where w: "w = (p, bo)" by force
  from Cons.prems(1) w have W: "store_ok X B M d" "durable_path p" "steps_ok X B M ws (apply_write w d)" by auto
  have "steps_ok X B M [w] d" using W steps_ok_start [OF W(3)] w by simp
  from steps_settled [OF this Cons.prems(2)] have s: "settled X (apply_write w d)" by simp
  have sfx: "temp_suffix (sfx 0)" "\<forall>i. temp_suffix (sfx (Suc i))" using Cons.prems(3) by simp_all
  have later: "swept X d1" if "d1 \<in> set (crash_states (\<lambda>i. sfx (Suc i)) ws (apply_write w d))"
    by (rule Cons.IH [OF W(3) s sfx(2) that])
  show ?case
  proof (cases bo)
    case None
    with Cons.prems(4) w have "d1 = d \<or> d1 \<in> set (crash_states (\<lambda>i. sfx (Suc i)) ws (apply_write w d))" by auto
    with later swept_settled [OF W(1) Cons.prems(2)] show ?thesis by blast
  next
    case (Some b)
    with Cons.prems(4) have "d1 \<in> set (write_atomic_states (sfx 0) p b d) \<or>
        d1 \<in> set (crash_states (\<lambda>i. sfx (Suc i)) ws (apply_write w d))" by (simp add: w)
    with later swept_during [OF W(1,2) Cons.prems(2) sfx(1)] show ?thesis by blast
  qed
qed

text \<open>What an open gives of a directory that was left in order.\<close>

lemma clean_opened:
  assumes "vault_ok X B M e" "settled X (disk e)" "open_engine X pol None rng (disk e) = (Inr (e', s), disk e')"
  shows "view_of X e' = view_of X e" "contents (disk e') = contents (disk e)" "swept X (disk e)"
proof -
  note V = vault_okD [OF assms(1)]
  from open_clean [OF V(3), of pol rng] assms(2,3) have c: "store_ok X B M (disk e')" "contents (disk e') = contents (disk e)"
    by (auto simp: settled_def)
  from opens_clean [OF assms(1,2), of pol rng] assms(3) have "vault_of X e' = vault_of X e" by (simp add: opens_as_def)
  moreover have "settings X e' = settings X e"
    by (rule settings_same [OF V(3) c(1), of "[meta_dir, annotation_dir]"]) (simp_all add: same_in_def c(2))
  ultimately show "view_of X e' = view_of X e" by (simp add: view_of_def)
  show "contents (disk e') = contents (disk e)" "swept X (disk e)" using c(2) swept_settled [OF V(3) assms(2)] .
qed

section \<open>What is shown after a kill\<close>

text \<open>Either the settings are as before the command, or everything is as after it; the keys never change.\<close>

definition shows_side :: "ext \<Rightarrow> engine \<Rightarrow> engine \<Rightarrow> fs \<Rightarrow> engine \<Rightarrow> bool" where
  "shows_side X e e1 d1 e' \<longleftrightarrow> swept X d1 \<and> same_in [key_dir] (disk e) (disk e') \<and>
     (same_in side_dirs (disk e) (disk e') \<or> view_of X e' = view_of X e1)"

lemma same_side_keys: "same_in side_dirs d d' \<Longrightarrow> same_in [key_dir] d d'"
  by (simp add: same_in_def)

lemma shows_same: "swept X d1 \<Longrightarrow> same_in side_dirs (disk e) (disk e') \<Longrightarrow> shows_side X e e1 d1 e'"
  by (simp add: shows_side_def same_side_keys)

text \<open>A directory in order that differs from the one before in the version logs only.\<close>

lemma shows_pointers:
  assumes "settled X d" "store_ok X B M d" "others [pointer_dir] (disk e) d"
    and "open_engine X pol None rng d = (Inr (e', s), disk e')"
  shows "shows_side X e e1 d e'"
proof -
  from open_clean [OF assms(2), of pol rng] assms(1,4) have "contents (disk e') = contents d" by (auto simp: settled_def)
  then have "same_in side_dirs (disk e) (disk e')" by (rule same_in_eq [OF _ same_in_others [OF assms(3)]]) simp
  then show ?thesis by (rule shows_same [OF swept_settled [OF assms(2,1)]])
qed

text \<open>The directory after the last change.\<close>

lemma shows_last:
  assumes v: "vault_ok X B M e" and s: "settled X (disk e)" and a: "admissible X B M c e"
    and k: "same_in [key_dir] (disk e) (disk (snd (exec X c e)))"
    and o: "open_engine X pol None rng (disk (snd (exec X c e))) = (Inr (e', st), disk e')"
  shows "shows_side X e (snd (exec X c e)) (disk (snd (exec X c e))) e'"
proof -
  from exec_simulates [OF v a] have v1: "vault_ok X B M (snd (exec X c e))" by (simp add: simulates_def)
  note c = clean_opened [OF v1 command_settled [OF v a s] o]
  show ?thesis unfolding shows_side_def using c(1,3) same_in_eq [OF c(2) k] by simp
qed

lemma shows_stepwise:
  assumes v: "vault_ok X B M e" and s: "settled X (disk e)" and a: "admissible X B M c e" and c: "stepwise c"
    and sfx: "\<forall>i. temp_suffix (sfx i)" and d: "d1 \<in> set (crash_states sfx (writes_of X c e) (disk e))"
    and o: "open_engine X pol None rng d1 = (Inr (e', st), disk e')" and v': "vault_ok X B M e'"
    and V': "crash_shows c (vault_of X e) (vault_of X (snd (exec X c e))) (vault_of X e')"
  shows "shows_side X e (snd (exec X c e)) d1 e'"
proof -
  let ?ws = "writes_of X c e" and ?e1 = "snd (exec X c e)"
  from command_performed(1) [OF v a c] have t: "steps_ok X B M ?ws (disk e)" "disk ?e1 = apply_writes ?ws (disk e)"
    by (simp_all only: tracks_def)
  note sw = swept_between [OF t(1) s sfx d]
  from crash_between [OF t(1) _ _ sfx d, of pol rng] s o obtain us vs where
    u: "?ws = us @ vs" "contents (disk e') = contents (apply_writes us (disk e))" by (auto simp: settled_def)
  show ?thesis
  proof (cases "(\<exists>b cfg. c = Configure b cfg) \<or> (\<exists>b k an. c = Annotate b k an)")
    case False
    from writes_side [OF v a c] False have "outside side_dirs (us @ vs)" unfolding u(1) by blast
    from steps_same_in [OF t(1) [unfolded u(1)] this] show ?thesis by (rule shows_same [OF sw same_in_eq [OF u(2)]])
  next
    case True
    then obtain w where w: "?ws = [w]" "outside [key_dir] ?ws"
      by (elim disjE exE) (simp_all add: meta_path_def annotation_path_def)
    from exec_simulates [OF v a] have v1: "vault_ok X B M ?e1" by (simp add: simulates_def)
    have k: "same_in [key_dir] (disk e) (disk e')"
      by (rule same_in_eq [OF u(2) steps_same_in [OF t(1) [unfolded u(1)] w(2) [unfolded u(1)]]])
    have "us = [] \<or> us = ?ws" using u(1) w(1) by (cases us) auto
    then show ?thesis
    proof
      assume "us = []"
      then show ?thesis using u(2) by (intro shows_same [OF sw]) (simp add: same_in_def)
    next
      assume us: "us = ?ws"
      have "settings X e' = settings X ?e1"
        by (rule settings_same [OF vault_okD(3) [OF v1] vault_okD(3) [OF v'], of "[meta_dir, annotation_dir]"])
          (simp_all add: same_in_def u(2) us t(2))
      moreover have "vault_of X ?e1 = vault_of X e"
        using exec_simulates [OF v a] True
        by (auto simp: simulates_def simp del: exec.simps elim: vault_step.cases)
      then have "vault_of X e' = vault_of X ?e1" using V' True by (auto simp: crash_shows_def simp del: exec.simps)
      ultimately show ?thesis using sw k by (simp add: shows_side_def view_of_def)
    qed
  qed
qed

lemma pots_keep_keys:
  assumes v: "vault_ok X B M e"
  shows "valid_bucket b \<Longrightarrow> valid_pot b \<Longrightarrow> same_in [key_dir] (disk e) (disk (snd (delete_bucket X b e)))"
    "admissible X B M (RenamePot old new) e \<Longrightarrow> same_in [key_dir] (disk e) (disk (snd (rename_bucket X old new e)))"
proof -
  note V = vault_okD [OF v]
  have two: "same_in [key_dir] (disk e) d2" if "others [pointer_dir] (disk e) d1" "others [meta_dir] d1 d2" for d1 d2
  proof -
    have "others [pointer_dir, meta_dir] (disk e) d2"
      by (rule others_trans [OF others_mono [OF that(1)] others_mono [OF that(2)]]) auto
    then show ?thesis by (rule same_in_others) simp
  qed
  show "same_in [key_dir] (disk e) (disk (snd (delete_bucket X b e)))" if b: "valid_bucket b" "valid_pot b"
  proof -
    from pointer_delete_bucket_step [OF V(3) b(1)] obtain d1 where 1: "pointer_delete_bucket b (disk e) = (Inr (), d1)"
      "store_ok X B M d1" "others [pointer_dir] (disk e) d1" by blast
    from meta_delete_step [OF 1(2) b(2)] obtain d2 where 2: "meta_delete_bucket X b d1 = (Inr (), d2)" "others [meta_dir] d1 d2" by blast
    show ?thesis using two [OF 1(3) 2(2)] 1(1) 2(1) by (simp add: delete_bucket_def on_disk_eq)
  qed
  show "same_in [key_dir] (disk e) (disk (snd (rename_bucket X old new e)))" if a: "admissible X B M (RenamePot old new) e"
  proof -
    have n: "valid_bucket old" "valid_bucket new" "old \<noteq> new" "fs_lookup (disk e) [pointer_dir, old] \<noteq> None"
      "fs_lookup (disk e) [pointer_dir, new] = None" "valid_pot old" "valid_pot new" using a by auto
    from pointer_rename_bucket_step [OF V(3) n(1-5)] obtain d1 where
      1: "pointer_rename_bucket old new (disk e) = (Inr (), d1)" "store_ok X B M d1" "others [pointer_dir] (disk e) d1" by blast
    from meta_rename_step [OF 1(2) n(6,7,3)] obtain d2 where 2: "meta_rename_bucket X old new d1 = (Inr (), d2)" "others [meta_dir] d1 d2" by blast
    show ?thesis using two [OF 1(3) 2(2)] 1(1) 2(1) by (simp add: rename_bucket_def on_disk_eq)
  qed
qed

lemma shows_dropping:
  assumes v: "vault_ok X B M e" and s: "settled X (disk e)" and n: "valid_bucket b" "valid_pot b" and d: "dropping X b e d1"
    and o: "open_engine X pol None rng d1 = (Inr (e', st), disk e')"
    and last: "d1 = disk (snd (delete_bucket X b e)) \<Longrightarrow> shows_side X e e1 d1 e'"
  shows "shows_side X e e1 d1 e'"
proof -
  note V = vault_okD [OF v]
  from d [unfolded dropping_def] show ?thesis
  proof (elim disjE exE conjE)
    fix ks ks' assume k: "keys X e b = Inr ks'" "distinct ks" "set ks = set ks'"
      and c: "d1 \<in> set (crash_states (\<lambda>_. []) (drop_writes X b ks) (disk e))"
    from pointer_list_ok [OF store_okD(3) [OF V(3)] n(1)] k(1,3) have "list_all valid_key ks"
      by (auto simp: keys_def list_all_iff)
    note W = drop_written [OF v n(1) this k(2)]
    have sfx: "\<forall>i :: nat. temp_suffix []" by (simp add: temp_suffix_def)
    have steps: "steps_ok X B M (drop_writes X b ks) (disk e)" using W(1) by (simp add: performs_def writes_steps)
    from crash_between [OF steps _ _ sfx c, of pol rng] s o obtain us vs where
      u: "drop_writes X b ks = us @ vs" "contents (disk e') = contents (apply_writes us (disk e))" by (auto simp: settled_def)
    have "outside side_dirs (drop_writes X b ks)" by (auto simp: outside_def drop_writes_def pointer_file_def)
    from steps_same_in [OF steps [unfolded u(1)] this [unfolded u(1)]]
    show ?thesis by (rule shows_same [OF swept_between [OF steps s sfx c] same_in_eq [OF u(2)]])
  next
    assume at: "d1 = snd (pointer_delete_bucket b (disk e))"
    from pointer_delete_bucket_step [OF V(3) n(1)] obtain d2 where
      2: "pointer_delete_bucket b (disk e) = (Inr (), d2)" "store_ok X B M d2" "others [pointer_dir] (disk e) d2" by blast
    have "d1 = d2" using at 2(1) by simp
    with shows_pointers [OF settled_pointers [OF s 2(3,2)] 2(2,3), of pol rng] o show ?thesis by simp
  qed (rule last)
qed

lemma shows_killed:
  assumes v: "vault_ok X B M e" and s: "settled X (disk e)" and a: "admissible X B M c e"
    and sfx: "\<forall>i. temp_suffix (sfx i)" and d: "killed_at X sfx c e d1"
    and o: "open_engine X pol None rng d1 = (Inr (e', st), disk e')" and v': "vault_ok X B M e'"
    and V': "crash_shows c (vault_of X e) (vault_of X (snd (exec X c e))) (vault_of X e')"
  shows "shows_side X e (snd (exec X c e)) d1 e'"
proof (cases "stepwise c")
  case True
  with shows_stepwise [OF v s a True sfx _ o v' V'] d show ?thesis by (simp only: killed_stepwise)
next
  case False
  note V = vault_okD [OF v]
  have clean: "shows_side X e e1 (disk e) e'" if "d1 = disk e" for e1
    by (rule shows_pointers [OF s V(3)]) (use o that in \<open>simp_all add: others_def\<close>)
  from False consider b where "c = DropPot b" | b where "c = DropEmpty b" | old new where "c = RenamePot old new"
    by (cases c) auto
  then show ?thesis
  proof cases
    case (1 b)
    have n: "valid_bucket b" "valid_pot b" and dr: "dropping X b e d1" using a d 1 by simp_all
    have x: "snd (exec X c e) = snd (delete_bucket X b e)" by (simp add: 1)
    show ?thesis
      by (rule shows_dropping [OF v s n dr o]) (use shows_last [OF v s a, unfolded x, OF pots_keep_keys(1) [OF v n]] o in \<open>simp add: x\<close>)
  next
    case (2 b)
    have n: "valid_bucket b" "valid_pot b" using a 2 by simp_all
    show ?thesis
    proof (cases "keys X e b = Inr []")
      case True
      have x: "snd (exec X c e) = snd (delete_bucket X b e)"
        using True 2 by (cases "delete_bucket X b e"; cases "fst (delete_bucket X b e)") (auto simp: delete_bucket_if_empty_def)
      have dr: "dropping X b e d1" using d 2 True by simp
      show ?thesis
        by (rule shows_dropping [OF v s n dr o]) (use shows_last [OF v s a, unfolded x, OF pots_keep_keys(1) [OF v n]] o in \<open>simp add: x\<close>)
    next
      case False
      then have "d1 = disk e" using d 2 by simp
      with clean show ?thesis by simp
    qed
  next
    case (3 old new)
    have x: "snd (exec X c e) = snd (rename_bucket X old new e)" by (simp add: 3)
    have a3: "admissible X B M (RenamePot old new) e" using a 3 by simp
    have n: "valid_bucket old" "valid_bucket new" "old \<noteq> new" "fs_lookup (disk e) [pointer_dir, old] \<noteq> None"
      "fs_lookup (disk e) [pointer_dir, new] = None" using a3 by auto
    from pointer_rename_bucket_step [OF V(3) n] obtain d2 where
      2: "pointer_rename_bucket old new (disk e) = (Inr (), d2)" "store_ok X B M d2" "others [pointer_dir] (disk e) d2" by blast
    from d 3 2(1) consider "d1 = disk e" | "d1 = d2" | "d1 = disk (snd (exec X c e))" by (auto simp: x)
    then show ?thesis
    proof cases
      case 1
      with clean show ?thesis by simp
    next
      case at: 2
      with shows_pointers [OF settled_pointers [OF s 2(3,2)] 2(2,3), of pol rng] o show ?thesis by simp
    next
      case 3
      with shows_last [OF v s a _ o [unfolded 3]] pots_keep_keys(2) [OF v a3] show ?thesis by (simp add: x)
    qed
  qed
qed

section \<open>The whole of it\<close>

lemma quiet_vault:
  assumes "vault_ok X B M e" "admissible X B M c e"
    and "(\<exists>b cfg. c = Configure b cfg) \<or> (\<exists>b k an. c = Annotate b k an) \<or> (\<exists>b. c = DropEmpty b)"
  shows "vault_of X (snd (exec X c e)) = vault_of X e"
  using exec_simulates [OF assms(1,2)] assms(3)
  by (auto simp: simulates_def simp del: exec.simps elim: vault_step.cases)

lemma settings_kept:
  assumes v: "vault_ok X B M e" and a: "admissible X B M c e" and c: "stepwise c"
    "\<forall>b cfg. c \<noteq> Configure b cfg" "\<forall>b k a. c \<noteq> Annotate b k a"
  shows "settings X (snd (exec X c e)) = settings X e"
proof -
  from command_performed(1) [OF v a c(1)] have t: "steps_ok X B M (writes_of X c e @ []) (disk e)"
    "disk (snd (exec X c e)) = apply_writes (writes_of X c e) (disk e)" by (simp_all only: tracks_def append_Nil2)
  have "outside side_dirs (writes_of X c e @ [])" using writes_side [OF v a c] by simp
  from steps_same_in [OF t(1) this] have side: "same_in side_dirs (disk e) (disk (snd (exec X c e)))" by (simp only: t(2))
  from exec_simulates [OF v a] have v1: "vault_ok X B M (snd (exec X c e))" by (simp add: simulates_def)
  show ?thesis by (rule settings_same [OF vault_okD(3) [OF v] vault_okD(3) [OF v1] side]) simp
qed

lemma killed_leaves:
  assumes v: "vault_ok X B M e" and s: "settled X (disk e)" and a: "admissible X B M c e"
    and sfx: "\<forall>i. temp_suffix (sfx i)" and d: "killed_at X sfx c e d1"
  shows "\<exists>e' st. open_engine X pol None rng d1 = (Inr (e', st), disk e') \<and> vault_ok X B M e' \<and> swept X d1 \<and>
     same_in [key_dir] (disk e) (disk e') \<and>
     crash_leaves c (view_of X e) (view_of X (snd (exec X c e))) (view_of X e')"
proof -
  let ?e1 = "snd (exec X c e)"
  from killed_opens [OF v s a sfx d, of pol rng] obtain e' st where
    e': "open_engine X pol None rng d1 = (Inr (e', st), disk e')" "vault_ok X B M e'"
      "crash_shows c (vault_of X e) (vault_of X ?e1) (vault_of X e')" by (auto simp: opens_as_def)
  note sh = shows_killed [OF v s a sfx d e']
  have "crash_leaves c (view_of X e) (view_of X ?e1) (view_of X e')"
  proof (cases "same_in side_dirs (disk e) (disk e')")
    case False
    with sh show ?thesis by (simp add: shows_side_def crash_leaves_def)
  next
    case True
    have S: "settings X e' = settings X e"
      by (rule settings_same [OF vault_okD(3) [OF v] vault_okD(3) [OF e'(2)] True]) simp
    consider (still) "vault_of X ?e1 = vault_of X e" | (moved) "settings X ?e1 = settings X e"
      | (pots) "(\<exists>b. c = DropPot b) \<or> (\<exists>old new. c = RenamePot old new)"
      using quiet_vault [OF v a] settings_kept [OF v a] by (cases c) (auto simp del: exec.simps admissible.simps)
    then show ?thesis
    proof cases
      case still
      then have "vault_of X e' = vault_of X e \<or> partly c (vault_of X e) (vault_of X ?e1) (vault_of X e')"
        using e'(3) by (auto simp: crash_shows_def simp del: exec.simps)
      then show ?thesis using S by (auto simp: crash_leaves_def view_of_def simp del: exec.simps)
    next
      case moved
      have "vault_of X e' = vault_of X e \<or> vault_of X e' = vault_of X ?e1 \<or>
          partly c (vault_of X e) (vault_of X ?e1) (vault_of X e')"
        using e'(3) by (auto simp: crash_shows_def simp del: exec.simps)
      then show ?thesis using S moved by (auto simp: crash_leaves_def view_of_def simp del: exec.simps)
    next
      case pots
      then have "vault_of X e' = vault_of X e \<or> partly c (vault_of X e) (vault_of X ?e1) (vault_of X e')"
        using e'(3) by (auto simp: crash_shows_def simp del: exec.simps)
      then show ?thesis using S by (auto simp: crash_leaves_def view_of_def simp del: exec.simps)
    qed
  qed
  with e' sh show ?thesis unfolding shows_side_def by blast
qed

text \<open>The same with the master key of the records in the directory.\<close>

lemma keyed_view:
  assumes v: "vault_ok X B M e" and c: "\<forall>q. hd q \<noteq> key_dir \<longrightarrow> q \<noteq> [] \<longrightarrow> contents (disk e') q = contents (disk e) q"
    and ok: "store_ok X B M (disk e')"
  shows "vault_ok X B M e'" "view_of X e' = view_of X e"
proof -
  note V = vault_okD [OF v]
  have "contents (disk e') q = Some b" if "hd q \<in> {chunk_dir, manifest_dir}" "contents (disk e) q = Some b" for q b
  proof -
    have "q \<noteq> []" using that(2) by (auto simp: contents_def fs_lookup_def)
    then show ?thesis using c that by auto
  qed
  then have x: "extends X (disk e) (disk e')" by (intro grows_extends [OF V(3) ok]) (simp add: grows_def)
  have "log_at X (disk e') b k = log_at X (disk e) b k" for b k using c by (simp add: log_at_def pointer_file_def)
  note same = vault_same [OF V(4) keeps_extends [OF x] this]
  show "vault_ok X B M e'" using same(1) V(1,2) ok by (simp add: vault_ok_def)
  have "settings X e' = settings X e"
    by (rule settings_same [OF V(3) ok, of "[meta_dir, annotation_dir]"]) (use c in \<open>simp_all add: same_in_def\<close>)
  with same(2) show "view_of X e' = view_of X e" by (simp add: view_of_def)
qed

end
