(* ===== verification/Crash_Props.thy ===== *)
theory Crash_Props
  imports Crash_Settings Recovery_Props
begin

text \<open>What survives when the process is killed in the middle of a command.\<close>

text \<open>A clean stop and the next open change nothing a client can see.\<close>

lemma reopen_same_vault:
  assumes v: "vault_ok X B M e" and none: "\<forall>q. \<not> is_temp (disk e) q"
    and stamp: "stamp_state X (disk e) = Some (Some FORMAT_VERSION)"
  shows "\<exists>e' s. open_engine X pol None rng (disk e) = (Inr (e', s), disk e') \<and> vault_ok X B M e' \<and>
     vault_of X e' = vault_of X e \<and> (\<forall>q. q \<noteq> [FORMAT_FILE] \<longrightarrow> contents (disk e') q = contents (disk e) q)"
proof -
  note V = vault_okD [OF v]
  from open_engine_ok [OF store_okD(5) [OF V(3)] none, of X pol rng] stamp obtain e' s where
    e: "open_engine X pol None rng (disk e) = (Inr (e', s), disk e')" "disk_ok (disk e')"
      "\<forall>q. q \<noteq> [FORMAT_FILE] \<longrightarrow> contents (disk e') q = contents (disk e) q"
      "\<forall>q. 2 \<le> length q \<longrightarrow> fs_lookup (disk e') q = fs_lookup (disk e) q" by auto
  note ok = store_ok_same [OF V(3) e(2-4)]
  have "extends X (disk e) (disk e')" by (rule grows_extends [OF V(3) ok same_grows]) (use e(3) in simp)
  then have kp: "keeps_versions X e e'" by (rule keeps_extends)
  have "log_at X (disk e') b k = log_at X (disk e) b k" for b k
    using e(3) by (simp add: log_at_def pointer_file_def)
  from vault_same [OF V(4) kp this] e(1,3) ok V show ?thesis by (auto simp: vault_ok_def)
qed

lemma command_survives:
  assumes "vault_ok X B M e" "settled X (disk e)" "admissible X B M c e"
    and "\<forall>i. temp_suffix (sfx i)" "killed_at X sfx c e d1" and "exec X c e = (r, e1)"
  shows "\<exists>e' s. open_engine X pol None rng d1 = (Inr (e', s), disk e') \<and> vault_ok X B M e' \<and>
     crash_shows c (vault_of X e) (vault_of X e1) (vault_of X e') \<and>
     (d1 = disk e1 \<longrightarrow> vault_of X e' = vault_of X e1)"
proof -
  from killed_opens [OF assms(1-5), of pol rng] assms(6) obtain e' s where
    e': "open_engine X pol None rng d1 = (Inr (e', s), disk e')" "vault_ok X B M e'"
      "crash_shows c (vault_of X e) (vault_of X e1) (vault_of X e')" by (auto simp: opens_as_def)
  from exec_simulates [OF assms(1,3)] command_settled [OF assms(1,3,2)] assms(6) have
    v1: "vault_ok X B M e1" "settled X (disk e1)" by (simp_all add: simulates_def)
  have "vault_of X e' = vault_of X e1" if "d1 = disk e1"
    using opens_clean [OF v1, of pol rng] e'(1) that by (auto simp: opens_as_def)
  with e' show ?thesis by blast
qed

text \<open>
  C5: commands survive crashes. Whatever instruction of whichever file change of a command the process is
  killed at, the next open succeeds on a well-formed store, and what a client then sees, the histories and
  bytes of all objects together with the configurations of all pots and all annotations, is exactly what
  it was before the command or exactly what it is after it. Four commands have more outcomes, all with the
  settings of before: a move can leave the object under both keys; of a lifecycle pass and of the removal
  of a pot each history is as before or as after; a renamed pot can have its objects under the new name and
  its configuration under the old. After the last change it is what the command left, so what was
  acknowledged is there; and but for the commands on whole pots that last state is the listed file changes,
  one after the other. An open with the master key that reads the key records succeeds in the same way and
  shows the same.
\<close>

theorem commands_survive_crash:
  assumes "vault_ok X B M e" "settled X (disk e)" "admissible X B M c e"
    and "\<forall>i. temp_suffix (sfx i)" "killed_at X sfx c e d1" and "exec X c e = (r, e1)"
  shows "(stepwise c \<longrightarrow> disk e1 = apply_writes (writes_of X c e) (disk e)) \<and>
     (\<exists>e' s. open_engine X pol None rng d1 = (Inr (e', s), disk e') \<and> vault_ok X B M e' \<and>
        crash_leaves c (view_of X e) (view_of X e1) (view_of X e') \<and>
        (d1 = disk e1 \<longrightarrow> view_of X e' = view_of X e1) \<and>
        (\<forall>mk. keys_ok X (Some mk) (disk e) \<longrightarrow> (\<forall>name. nonce_ok (rng name)) \<longrightarrow>
          (\<exists>e2. open_engine X pol (Some mk) rng d1 = (Inr (e2, s), disk e2) \<and> cipher e2 = Some mk \<and>
             vault_ok X B M e2 \<and> view_of X e2 = view_of X e')))"
proof
  show "stepwise c \<longrightarrow> disk e1 = apply_writes (writes_of X c e) (disk e)"
    using command_performed(1) [OF assms(1,3)] assms(6) by (auto simp: tracks_def)
  from killed_leaves [OF assms(1-5), of pol rng] assms(6) obtain e' s where
    e': "open_engine X pol None rng d1 = (Inr (e', s), disk e')" "vault_ok X B M e'" "swept X d1"
      "same_in [key_dir] (disk e) (disk e')" "crash_leaves c (view_of X e) (view_of X e1) (view_of X e')" by auto
  note ok = vault_okD(3) [OF e'(2)]
  from exec_simulates [OF assms(1,3)] command_settled [OF assms(1,3,2)] assms(6) have
    v1: "vault_ok X B M e1" "settled X (disk e1)" by (simp_all add: simulates_def)
  have "view_of X e' = view_of X e1" if "d1 = disk e1"
    using clean_opened(1) [OF v1] e'(1) that by simp
  moreover have "\<exists>e2. open_engine X pol (Some mk) rng d1 = (Inr (e2, s), disk e2) \<and> cipher e2 = Some mk \<and>
      vault_ok X B M e2 \<and> view_of X e2 = view_of X e'"
    if k: "keys_ok X (Some mk) (disk e)" "\<forall>name. nonce_ok (rng name)" for mk
  proof -
    from e'(3) obtain v d2 n d3 where w: "open_format X d1 = (Inr v, d2)" "sweep_temp d2 = (Inr n, d3)" "disk_ok d3"
      unfolding swept_def by blast
    have "keys_ok X (Some mk) (disk e')" by (rule keys_same [OF k(1) store_okD(5) [OF ok] e'(4)]) simp
    from open_keyed_again [OF w k(2) e'(1) ok this] obtain e2 where
      2: "open_engine X pol (Some mk) rng d1 = (Inr (e2, s), disk e2)" "cipher e2 = Some mk" "store_ok X B M (disk e2)"
        "\<forall>q. hd q \<noteq> key_dir \<longrightarrow> q \<noteq> [] \<longrightarrow> contents (disk e2) q = contents (disk e') q" by blast
    from keyed_view [OF e'(2) 2(4,3)] 2(1,2) show ?thesis by blast
  qed
  ultimately show "\<exists>e' s. open_engine X pol None rng d1 = (Inr (e', s), disk e') \<and> vault_ok X B M e' \<and>
        crash_leaves c (view_of X e) (view_of X e1) (view_of X e') \<and>
        (d1 = disk e1 \<longrightarrow> view_of X e' = view_of X e1) \<and>
        (\<forall>mk. keys_ok X (Some mk) (disk e) \<longrightarrow> (\<forall>name. nonce_ok (rng name)) \<longrightarrow>
          (\<exists>e2. open_engine X pol (Some mk) rng d1 = (Inr (e2, s), disk e2) \<and> cipher e2 = Some mk \<and>
             vault_ok X B M e2 \<and> view_of X e2 = view_of X e'))"
    using e'(1,2,5) by blast
qed

text \<open>For a put: all or nothing.\<close>

theorem put_survives_crash:
  assumes "vault_ok X B M e" "settled X (disk e)" "admissible X B M (command.Write b k data ct clock t) e"
    and "\<forall>i. temp_suffix (sfx i)"
    and "d1 \<in> set (crash_states sfx (write_steps X b k data ct clock t e) (disk e))"
    and "put X b k data ct clock t e = (Inr i, e1)"
  shows "\<exists>e' s. open_engine X pol None rng d1 = (Inr (e', s), disk e') \<and> vault_ok X B M e' \<and>
     (vault_of X e' = vault_of X e \<or> vault_of X e' = append_version b k i data (vault_of X e)) \<and>
     (d1 = disk e1 \<longrightarrow> vault_of X e' = append_version b k i data (vault_of X e))"
proof -
  let ?c = "command.Write b k data ct clock t"
  from sim_write [OF assms(1,3)] assms(6) have "vault_of X e1 = append_version b k i data (vault_of X e)"
    by (auto simp: simulates_def elim: write_stepE)
  with command_survives [OF assms(1-4), of d1 "Stored i" e1 pol rng] assms(5,6) show ?thesis
    by (simp add: crash_shows_def)
qed

text \<open>The demonstration: killed while the first chunk's temporary file holds one byte of three.\<close>

lemma demo_stamped_engine:
  "vault_ok demo small_bufs demo_bodies (demo_on demo_stamped)"
  "ensure_unlocked demo ''b'' ''k'' clock (demo_on demo_stamped) = Inr ()"
  "effective_policy demo ''b'' ct (demo_on demo_stamped) = Inr demo_ep"
  "vault_of demo (demo_on demo_stamped) = (\<lambda>_. [])"
proof -
  have same: "\<forall>q. q \<noteq> [FORMAT_FILE] \<longrightarrow> contents demo_stamped q = contents [] q" using demo_stamped_ok(4) by simp
  have look: "\<forall>q. 2 \<le> length q \<longrightarrow> fs_lookup demo_stamped q = fs_lookup [] q"
    by (auto simp: demo_stamped_def fs_lookup_def)
  note ok = store_ok_same [OF demo_store_ok [OF demo_bodies_inj] demo_stamped_ok(1) same look]
  have l: "log_at demo demo_stamped c j = []" for c j by (simp add: log_at_def pointer_file_def demo_stamped_ok(4))
  note S = store_okD [OF ok]
  show "vault_ok demo small_bufs demo_bodies (demo_on demo_stamped)"
    using demo_writable [OF demo_bodies_inj] ok l by (auto simp: vault_ok_def writable_def whole_def versions_def)
  show "vault_of demo (demo_on demo_stamped) = (\<lambda>_. [])" by (auto simp: vault_of_def l)
  show "ensure_unlocked demo ''b'' ''k'' clock (demo_on demo_stamped) = Inr ()"
    using annotation_get_eq [OF S(9), of "(''b'', ''k'')"] demo_stamped_ok(4)
    by (simp add: ensure_unlocked_def annotation_path_def annotation_default_def)
  show "effective_policy demo ''b'' ct (demo_on demo_stamped) = Inr demo_ep"
    using meta_config_eq [OF S(9), of "''b''"] demo_stamped_ok(4)
    by (simp add: effective_policy_def meta_path_def bucket_config_default_def demo_policy_def
        build_codec_def demo_ep_def)
qed

lemma demo_write_steps:
  "admissible demo small_bufs demo_bodies (command.Write ''b'' ''k'' demo_data ''text/plain'' 10 10) (demo_on demo_stamped)"
  "\<exists>ws. write_steps demo ''b'' ''k'' demo_data ''text/plain'' 10 10 (demo_on demo_stamped) =
     (shard demo chunk_dir (hash_of demo demo_data), Some demo_data) # ws"
proof -
  let ?e = "demo_on demo_stamped" and ?p = "shard demo chunk_dir (hash_of demo demo_data)"
  let ?m = "put_manifest demo ?e ''text/plain'' demo_ep [demo_data] demo_data 10"
  note D = demo_stamped_engine
  note S = store_okD [OF vault_okD(3) [OF D(1)]]
  have M: "manifest_body demo ?m \<in> demo_bodies"
    by (simp add: demo_bodies_def put_manifest_def new_manifest_def)
  show "admissible demo small_bufs demo_bodies (command.Write ''b'' ''k'' demo_data ''text/plain'' 10 10) ?e"
    using D(3) demo_encodes M by (auto simp: storable_def)
  have g: "good ?p" using S(7) by (simp add: good_shard)
  have "\<not> fs_exists demo_stamped ?p"
    using exists_good [OF demo_stamped_ok(1) g] demo_stamped_ok(4) by (simp add: shard_def)
  then have "\<exists>ws. put_writes demo ''b'' ''k'' ?m [demo_data] demo_stamped = (?p, Some demo_data) # ws"
    by (simp add: put_writes_def commit_writes_def staging_writes_def Let_def chunk_writes_def)
  moreover have "try_map (codec_encode demo (ep_codec demo_ep)) (map snd (chunk_split demo demo_data)) = Inr [demo_data]"
    using demo_encodes by (simp add: encodes_def try_map_Inr_iff list_all2_map1)
  ultimately show "\<exists>ws. write_steps demo ''b'' ''k'' demo_data ''text/plain'' 10 10 ?e = (?p, Some demo_data) # ws"
    using D(2,3) by (simp add: write_steps_def)
qed

lemma demo_killed:
  obtains d1 where
    "d1 \<in> set (crash_states (\<lambda>_. ''a1'') (writes_of demo (command.Write ''b'' ''k'' demo_data ''text/plain'' 10 10) (demo_on demo_stamped)) demo_stamped)"
    "fs_lookup d1 (tmp_path (shard demo chunk_dir (hash_of demo demo_data)) ''a1'') = Some (File [1])"
proof -
  let ?p = "shard demo chunk_dir (hash_of demo demo_data)"
  let ?d1 = "AList.update (tmp_path ?p ''a1'') (File [1]) (add_dirs (parents ?p) demo_stamped)"
  have t: "?d1 \<in> set (write_atomic_states ''a1'' ?p demo_data demo_stamped)"
  proof -
    have "take (length ?p) (parents ?p) = parents ?p" "[1] = take 1 demo_data"
      by (simp_all add: parents_def demo_data_def)
    then show ?thesis unfolding write_atomic_states_def Let_def set_append set_map set_upt
      by (intro UnI2 UnI1 rev_image_eqI [of 1]) (simp_all add: demo_data_def)
  qed
  from demo_write_steps(2) obtain ws where
    ws: "writes_of demo (command.Write ''b'' ''k'' demo_data ''text/plain'' 10 10) (demo_on demo_stamped) = (?p, Some demo_data) # ws" by auto
  show thesis
  proof (rule that)
    show "?d1 \<in> set (crash_states (\<lambda>_. ''a1'') (writes_of demo (command.Write ''b'' ''k'' demo_data ''text/plain'' 10 10) (demo_on demo_stamped)) demo_stamped)"
      unfolding ws crash_states.simps(2) set_append by (rule UnI1 [OF t])
    show "fs_lookup ?d1 (tmp_path ?p ''a1'') = Some (File [1])" by (simp add: fs_lookup_def tmp_path_def update_conv)
  qed
qed

lemma demo_settled: "settled demo (disk (demo_on demo_stamped))" "\<forall>i. temp_suffix ((\<lambda>_. ''a1'') i)"
  using demo_stamped_ok(2,3) by (simp_all add: settled_def temp_suffix_def)

theorem commands_survive_crash_witness:
  "\<exists>d1 e' s r e1. exec demo (command.Write ''b'' ''k'' demo_data ''text/plain'' 10 10) (demo_on demo_stamped) = (r, e1) \<and>
     fs_lookup d1 (tmp_path (shard demo chunk_dir (hash_of demo demo_data)) ''a1'') = Some (File [1]) \<and>
     open_engine demo demo_policy None (\<lambda>_. None) d1 = (Inr (e', s), disk e') \<and>
     (view_of demo e' = view_of demo (demo_on demo_stamped) \<or> view_of demo e' = view_of demo e1)"
proof -
  let ?e = "demo_on demo_stamped" and ?c = "command.Write ''b'' ''k'' demo_data ''text/plain'' 10 10"
  note D = demo_stamped_engine
  from demo_killed obtain d1 where
    d1: "d1 \<in> set (crash_states (\<lambda>_. ''a1'') (writes_of demo ?c ?e) (disk ?e))"
      "fs_lookup d1 (tmp_path (shard demo chunk_dir (hash_of demo demo_data)) ''a1'') = Some (File [1])" by auto
  obtain r e1 where run: "exec demo ?c ?e = (r, e1)" by force
  have d: "killed_at demo (\<lambda>_. ''a1'') ?c ?e d1" using d1(1) by simp
  from conjunct2 [OF commands_survive_crash [OF D(1) demo_settled(1) demo_write_steps(1) demo_settled(2) d run, of demo_policy "\<lambda>_. None"]]
  obtain e' s where
    e: "open_engine demo demo_policy None (\<lambda>_. None) d1 = (Inr (e', s), disk e')"
      "crash_leaves ?c (view_of demo ?e) (view_of demo e1) (view_of demo e')"
    by (elim exE conjE) (rule that)
  have "view_of demo e' = view_of demo ?e \<or> view_of demo e' = view_of demo e1"
    using e(2) by (simp add: crash_leaves_def)
  with run d1(2) e(1) show ?thesis by (intro exI conjI)
qed



end
