(* ===== verification/Pot_Crash.thy ===== *)
theory Pot_Crash
  imports Crash_Props Vault_Props
begin

text \<open>
  Renaming a pot renames a directory of version logs and then a file of settings. A crash between the two
  is not repaired by the next open.
\<close>

inductive_cases rename_stepE: "vault_step X (RenamePot old new) Done V V'"

lemma renamed_pointers:
  assumes v: "vault_ok X B M e" and a: "admissible X B M (RenamePot old new) e"
    and run: "pointer_rename_bucket old new (disk e) = (r, d1)"
  shows "r = Inr ()" "vault_ok X B M (e\<lparr>disk := d1\<rparr>)" "others [pointer_dir] (disk e) d1"
    "vault_of X (e\<lparr>disk := d1\<rparr>) =
       (\<lambda>(c, k). if c = new then vault_of X e (old, k) else if c = old then [] else vault_of X e (c, k))"
    "\<forall>q. \<not> is_temp (disk e) q \<Longrightarrow> \<forall>q. \<not> is_temp d1 q"
    "stamp_state X d1 = stamp_state X (disk e)"
proof -
  note V = vault_okD [OF v]
  have n: "valid_bucket old" "valid_bucket new" "old \<noteq> new" "fs_lookup (disk e) [pointer_dir, old] \<noteq> None"
    "fs_lookup (disk e) [pointer_dir, new] = None" using a by auto
  from pointer_rename_bucket_step [OF V(3) n] run have
    1: "r = Inr ()" "store_ok X B M d1" "others [pointer_dir] (disk e) d1" "extends X (disk e) d1"
      "\<forall>c k. log_at X d1 c k = (if c = new then log_at X (disk e) old k else if c = old then [] else log_at X (disk e) c k)"
    by auto
  show "r = Inr ()" "others [pointer_dir] (disk e) d1" by fact+
  have "simulates X B M (RenamePot old new) e (Done, e\<lparr>disk := d1\<rparr>)"
    by (rule sim_shrink [OF v _ _ _ _ _ renames])
      (use 1 n in \<open>auto simp: vault_at vault_invalid dest: log_versions split: if_splits\<close>)
  then show "vault_ok X B M (e\<lparr>disk := d1\<rparr>)"
    "vault_of X (e\<lparr>disk := d1\<rparr>) =
       (\<lambda>(c, k). if c = new then vault_of X e (old, k) else if c = old then [] else vault_of X e (c, k))"
    by (auto simp: simulates_def elim: rename_stepE)
  from pointer_rename_bucket_ok(3) [OF store_okD(3) [OF V(3)] n(1-3) run n(4,5)] have
    c: "contents d1 q = (if prefix [pointer_dir, new] q then contents (disk e) ([pointer_dir, old] @ drop 2 q)
       else if prefix [pointer_dir, old] q then None else contents (disk e) q)" for q by blast
  have held: "is_file_at d q \<longleftrightarrow> contents d q \<noteq> None" for d q
    by (auto simp: is_file_at_iff contents_def split: option.split fs_node.split)
  have dir: "contents (disk e) [pointer_dir, old] = None"
  proof -
    have "shape [pointer_dir, old] = Some True" by (simp add: hidden_name_def flat_dirs_def nested_dirs_def)
    from disk_ok_shape [OF store_okD(5) [OF V(3)] this] show ?thesis
      by (auto simp: contents_def split: option.split fs_node.split)
  qed
  show "\<forall>q. \<not> is_temp d1 q" if t: "\<forall>q. \<not> is_temp (disk e) q"
  proof (intro allI notI)
    fix q assume q: "is_temp d1 q"
    then have "contents d1 q \<noteq> None" by (simp add: is_temp_def held)
    then consider rest where "q = [pointer_dir, new] @ rest" "contents (disk e) ([pointer_dir, old] @ rest) \<noteq> None"
      | "contents (disk e) q \<noteq> None" by (auto simp: c prefix_def split: if_splits)
    then show False
    proof cases
      case 1
      then have "rest \<noteq> []" using dir by auto
      then have "is_temp (disk e) ([pointer_dir, old] @ rest)" using 1 q by (simp add: is_temp_def held)
      with t show False by blast
    next
      case 2
      then have "is_temp (disk e) q" using q by (simp add: is_temp_def held)
      with t show False by blast
    qed
  qed
  show "stamp_state X d1 = stamp_state X (disk e)" by (simp add: stamp_state_def c)
qed

text \<open>
  A crash in the middle of renaming a pot splits it for good. The next open succeeds with the objects
  under the new name, but every pot keeps the settings it had: the old name those of the renamed pot, and
  the new name whatever was there, be it visibility, lifecycle or compression.
\<close>

theorem rename_crash_splits_pot:
  assumes "vault_ok X B M e" "admissible X B M (RenamePot old new) e"
    and "\<forall>q. \<not> is_temp (disk e) q" "stamp_state X (disk e) = Some (Some FORMAT_VERSION)"
    and "pointer_rename_bucket old new (disk e) = (r, d1)"
  shows "r = Inr () \<and> (\<exists>e' s. open_engine X pol None rng d1 = (Inr (e', s), disk e') \<and> vault_ok X B M e' \<and>
     (\<forall>k. vault_of X e' (new, k) = vault_of X e (old, k) \<and> vault_of X e' (old, k) = []) \<and>
     (\<forall>b. valid_pot b \<longrightarrow> get_bucket_config X e' b = get_bucket_config X e b))"
proof -
  note R = renamed_pointers [OF assms(1,2,5)]
  have n: "old \<noteq> new" using assms(2) by simp
  from reopen_same_vault [OF R(2), of pol rng] R(5) [OF assms(3)] R(6) assms(4) obtain e' s where
    e': "open_engine X pol None rng d1 = (Inr (e', s), disk e')" "vault_ok X B M e'" "vault_of X e' = vault_of X (e\<lparr>disk := d1\<rparr>)"
      "\<forall>q. q \<noteq> [FORMAT_FILE] \<longrightarrow> contents (disk e') q = contents d1 q" by auto
  have "get_bucket_config X e' b = get_bucket_config X e b" if "valid_pot b" for b
  proof -
    have "contents (disk e') (meta_path X b) = contents (disk e) (meta_path X b)"
      using e'(4) others_agree [OF R(3), of meta_dir] by (simp add: meta_path_def agree_contents)
    then show ?thesis
      using meta_config_eq [OF store_okD(9) [OF vault_okD(3) [OF e'(2)]] that]
        meta_config_eq [OF store_okD(9) [OF vault_okD(3) [OF assms(1)]] that] by (simp add: get_bucket_config_def)
  qed
  with R(1,4) n e' show ?thesis by auto
qed

lemma writes_lookup:
  assumes "writes_ok X B M ws d" "\<forall>(p, bo) \<in> set ws. \<not> prefix q p"
  shows "fs_lookup (apply_writes ws d) q = fs_lookup d q"
  using assms
proof (induction ws arbitrary: d)
  case (Cons w ws)
  obtain p bo where w: "w = (p, bo)" by force
  from Cons.prems w have W: "disk_ok d" "good p" "p \<noteq> []" "\<not> prefix q p" "writes_ok X B M ws (apply_write w d)"
    using good_plain(2) by (auto simp: durable_path_def dest: store_okD(5))
  have "q \<noteq> p" "\<not> strict_prefix q p" using W(4) by auto
  then have "fs_lookup (apply_write w d) q = fs_lookup d q"
    using W(3) remove_opt_good [OF W(1,2)] by (cases bo) (simp_all add: w lookup_put_file [OF W(3)])
  with Cons.IH [OF W(5)] Cons.prems(2) show ?case by simp
qed simp

theorem rename_crash_splits_pot_witness:
  "\<exists>e d1 i e' s. get demo e ''b'' ''k'' = Inr (Some demo_data) \<and>
     pointer_rename_bucket ''b'' ''c'' (disk e) = (Inr (), d1) \<and>
     open_engine demo demo_policy None (\<lambda>_. None) d1 = (Inr (e', s), disk e') \<and>
     vault_of demo e' (''c'', ''k'') = [(i, demo_data)] \<and> vault_of demo e' (''b'', ''k'') = [] \<and>
     get_bucket_config demo e' ''b'' = get_bucket_config demo e ''b''"
proof -
  let ?e = "demo_on demo_stamped" and ?c = "command.Write ''b'' ''k'' demo_data ''text/plain'' 10 10"
  note D = demo_stamped_engine
  note V = vault_okD [OF D(1)]
  let ?m = "put_manifest demo ?e ''text/plain'' demo_ep [demo_data] demo_data 10"
  let ?ws = "put_writes demo ''b'' ''k'' ?m [demo_data] (disk ?e)"
  have n: "valid_bucket ''b''" "valid_key ''k''" "valid_bucket ''c''" by simp_all
  have M: "manifest_body demo ?m \<in> demo_bodies" by (simp add: demo_bodies_def put_manifest_def new_manifest_def)
  have w: "writable demo small_bufs demo_bodies ?e ''b'' ''k''" using V by (simp add: writable_def)
  from put_ok [OF w D(2,3) demo_encodes M, where now = 10] obtain i e where
    p: "put demo ''b'' ''k'' demo_data ''text/plain'' 10 10 ?e = (Inr i, e)" by blast
  note pd = put_disk [OF V(3) n(1,2) D(3) demo_encodes M p]
  from sim_write [OF D(1) demo_write_steps(1)] p have v: "vault_ok demo small_bufs demo_bodies e"
    "vault_of demo e = append_version ''b'' ''k'' i demo_data (\<lambda>_. [])"
    by (auto simp: simulates_def D(4) elim: write_stepE)
  have k: "(\<forall>q. \<not> is_temp (disk e) q) \<and> stamp_state demo (disk e) = Some (Some FORMAT_VERSION)"
    using steps_settled [OF writes_steps [OF pd(2)] demo_settled(1)] by (simp add: pd(1) settled_def)
  have "fs_lookup (disk e) [pointer_dir, ''c''] = fs_lookup (disk ?e) [pointer_dir, ''c'']"
    unfolding pd(1) by (rule writes_lookup [OF pd(2)])
      (auto simp: put_writes_def commit_writes_def staging_writes_def Let_def chunk_writes_def manifest_writes_def
        pointer_writes_def reverse_writes_def shard_def pointer_file_def split: sum.splits if_splits)
  then have new: "fs_lookup (disk e) [pointer_dir, ''c''] = None" by (simp add: demo_stamped_def fs_lookup_def)
  have "vault_of demo e (''b'', ''k'') = [(i, demo_data)]" using v(2) by (simp add: append_version_def)
  then have log: "log_at demo (disk e) ''b'' ''k'' \<noteq> []" by (auto simp: vault_of_def)
  have fs: "fs_ok (disk e)" using store_okD(5) [OF vault_okD(3) [OF v(1)]] by (simp add: disk_ok_def)
  have "contents (disk e) (pointer_file demo ''b'' ''k'') \<noteq> None" using log log_at_None by metis
  then obtain nd where "fs_lookup (disk e) (pointer_file demo ''b'' ''k'') = Some nd"
    by (cases "fs_lookup (disk e) (pointer_file demo ''b'' ''k'')") (auto simp: contents_def)
  from fs_ok_parent(2) [OF fs _ this] have old: "fs_lookup (disk e) [pointer_dir, ''b''] = Some Dir"
    by (simp add: pointer_file_def)
  have a: "admissible demo small_bufs demo_bodies (RenamePot ''b'' ''c'') e" using n old new by simp
  obtain r d1 where run: "pointer_rename_bucket ''b'' ''c'' (disk e) = (r, d1)" by force
  from rename_crash_splits_pot [OF v(1) a _ _ run, of demo_policy "\<lambda>_. None"] k obtain e' s where
    e': "r = Inr ()" "open_engine demo demo_policy None (\<lambda>_. None) d1 = (Inr (e', s), disk e')"
      "\<forall>k. vault_of demo e' (''c'', k) = vault_of demo e (''b'', k) \<and> vault_of demo e' (''b'', k) = []"
      "\<forall>b. valid_pot b \<longrightarrow> get_bucket_config demo e' b = get_bucket_config demo e b" by blast
  have g: "get demo e ''b'' ''k'' = Inr (Some demo_data)"
    using vault_observed(2) [OF v(1) n(1,2)] v(2) by (simp add: append_version_def)
  have c: "vault_of demo e' (''c'', ''k'') = [(i, demo_data)]" "vault_of demo e' (''b'', ''k'') = []"
    using e'(3) v(2) by (simp_all add: append_version_def)
  have "get_bucket_config demo e' ''b'' = get_bucket_config demo e ''b''" using e'(4) by simp
  with run e'(1,2) g c show ?thesis
    by (intro exI [of _ e] exI [of _ d1] exI [of _ i] exI [of _ e'] exI [of _ s]) simp
qed

end
