(* ===== verification/Reverse_Index.thy ===== *)
theory Reverse_Index
  imports Crash_Commands
begin

text \<open>
  The reverse index from object ids to the pots and keys that point at them. Every write of a version log
  through the engine's commits is followed by an entry; copies, moves and renamings of pots write version
  logs and no entries.
\<close>

definition locations_at :: "ext \<Rightarrow> fs \<Rightarrow> hash \<Rightarrow> (string \<times> string) list" where
  "locations_at X d i =
     (case contents d (shard X reverse_dir i) of None \<Rightarrow> [] | Some c \<Rightarrow> the (locations_of_json X c))"

lemma reverse_get_at:
  assumes "store_ok X B M d" "hash_wf i"
  shows "reverse_get X d i = Inr (locations_at X d i)"
proof -
  note S = store_okD [OF assms(1)]
  have g: "good (shard X reverse_dir i)" using S assms(2) by (simp add: good_shard)
  show ?thesis using S(4) read_opt_good [OF S(5) g]
    by (auto simp: reverse_get_def locations_at_def side_ok_def shard_def split: option.split)
qed

lemma locations_same: "(\<And>q. contents d' (reverse_dir # q) = contents d (reverse_dir # q)) \<Longrightarrow> locations_at X d' i = locations_at X d i"
  by (simp add: locations_at_def shard_def)

lemma locations_agree: "others ts d d' \<Longrightarrow> reverse_dir \<notin> set ts \<Longrightarrow> locations_at X d' i = locations_at X d i"
  using others_agree [of ts d d' reverse_dir] by (intro locations_same) (simp add: agree_contents)

section \<open>Every version is indexed\<close>

definition indexed :: "ext \<Rightarrow> fs \<Rightarrow> bool" where
  "indexed X d \<longleftrightarrow> (\<forall>b k. valid_bucket b \<longrightarrow> valid_key k \<longrightarrow>
     (\<forall>i \<in> set (log_at X d b k). (b, k) \<in> set (locations_at X d i)))"

lemma indexed_shrinks:
  assumes "indexed X d" "\<And>i. locations_at X d' i = locations_at X d i"
    and "\<And>b k. valid_bucket b \<Longrightarrow> valid_key k \<Longrightarrow> set (log_at X d' b k) \<subseteq> set (log_at X d b k)"
  shows "indexed X d'"
  using assms(1,3) unfolding indexed_def assms(2) by blast

text \<open>An entry is added after the others, and other entries stay.\<close>

lemma reverse_add_locations:
  assumes ok: "store_ok X B M d" and i: "hash_wf i" and j: "hash_wf j"
  shows "locations_at X (snd (reverse_add X i b k d)) j =
     (if j = i \<and> (b, k) \<notin> set (locations_at X d i) then locations_at X d i @ [(b, k)] else locations_at X d j)"
proof -
  note S = store_okD [OF ok]
  have g: "good (shard X reverse_dir i)" using S i by (simp add: good_shard)
  have path: "shard X reverse_dir j = shard X reverse_dir i \<longleftrightarrow> j = i" using S(7) i j by (simp add: shard_inj)
  show ?thesis
  proof (cases "(b, k) \<in> set (locations_at X d i)")
    case True
    then show ?thesis using reverse_get_at [OF ok i] by (simp add: reverse_add_def)
  next
    case False
    let ?new = "locations_to_json X (locations_at X d i @ [(b, k)])"
    have run: "snd (reverse_add X i b k d) = put_file (shard X reverse_dir i) ?new d"
      using False reverse_get_at [OF ok i] by (simp add: reverse_add_def write_good [OF S(5) g])
    have "locations_at X (put_file (shard X reverse_dir i) ?new d) j =
        (if j = i then locations_at X d i @ [(b, k)] else locations_at X d j)"
      unfolding locations_at_def [of X "put_file (shard X reverse_dir i) ?new d"]
      using S(8) path by (simp add: contents_put_file [OF g] json_okD) (simp add: locations_at_def)
    with False show ?thesis unfolding run by simp
  qed
qed

lemma commit_locations:
  assumes ss: "writes_ok X B M ss d" "outside [reverse_dir] ss"
    and v: "valid_bucket b" "valid_key k" "hash_wf i" "hash_wf j"
  shows "locations_at X (apply_writes (commit_writes X b k i ss d) d) j =
     (if j = i \<and> (b, k) \<notin> set (locations_at X d i) then locations_at X d i @ [(b, k)] else locations_at X d j)"
proof -
  let ?d2 = "apply_writes ss d"
  have ok2: "store_ok X B M ?d2" using writes_extend(1) [of X B M ss "[]"] ss(1) by simp
  from pointer_set_step [OF ok2 v(1-3)] obtain d3 where 3: "pointer_set X b k i ?d2 = (Inr (), d3)" "store_ok X B M d3"
    "others [pointer_dir] ?d2 d3" by blast
  have "locations_at X d3 x = locations_at X d x" for x
    using locations_agree [OF 3(3)] locations_same [OF writes_outside [OF ss], of X x] by simp
  then show ?thesis
    using reverse_add_locations [OF 3(2) v(3,4), of b k] 3(1) by (simp add: commit_writes_ok(2) [OF ss(1) v(1-3)])
qed

lemma commit_indexed:
  assumes ix: "indexed X d" and ss: "writes_ok X B M ss d" "outside [pointer_dir, reverse_dir] ss"
    and v: "valid_bucket b" "valid_key k" "hash_wf i"
  shows "indexed X (apply_writes (commit_writes X b k i ss d) d)"
proof -
  let ?d2 = "apply_writes ss d"
  have ok2: "store_ok X B M ?d2" using writes_extend(1) [of X B M ss "[]"] ss(1) by simp
  from pointer_set_step [OF ok2 v] obtain d3 where 3: "pointer_set X b k i ?d2 = (Inr (), d3)" "store_ok X B M d3"
    "others [pointer_dir] ?d2 d3"
    "\<forall>c j. log_at X d3 c j = (if c = b \<and> j = k then log_at X ?d2 b k @ [i] else log_at X ?d2 c j)" by blast
  from reverse_add_step [OF 3(2) v(3), of b k] obtain d4 where 4: "reverse_add X i b k d3 = (Inr (), d4)" "store_ok X B M d4"
    "others [reverse_dir] d3 d4" by blast
  have d4: "apply_writes (commit_writes X b k i ss d) d = d4" using commit_writes_ok(2) [OF ss(1) v] 3(1) 4(1) by simp
  have log: "log_at X d4 c j = (if c = b \<and> j = k then log_at X d b k @ [i] else log_at X d c j)" for c j
    using 3(4) others_agree [OF 4(3), THEN log_at_agree] logs_outside [OF ss(1) outside_mono [OF ss(2)]] by simp
  have loc: "set (locations_at X d j) \<subseteq> set (locations_at X d4 j)" "(b, k) \<in> set (locations_at X d4 i)" if "hash_wf j" for j
    using commit_locations [OF ss(1) outside_mono [OF ss(2)] v that] commit_locations [OF ss(1) outside_mono [OF ss(2)] v v(3)]
    by (auto simp: d4)
  have wf: "hash_wf j" if "valid_bucket c" "valid_key x" "j \<in> set (log_at X d4 c x)" for c x j
    using history_eq(2) [OF store_okD(3) [OF 4(2)] that(1,2)] that(3) by (simp add: list_all_iff)
  show ?thesis
    unfolding d4 indexed_def
  proof (intro allI impI ballI)
    fix c x j assume a: "valid_bucket c" "valid_key x" "j \<in> set (log_at X d4 c x)"
    note w = wf [OF a]
    show "(c, x) \<in> set (locations_at X d4 j)"
    proof (cases "j \<in> set (log_at X d c x)")
      case True
      then show ?thesis using ix a(1,2) loc(1) [OF w] unfolding indexed_def by blast
    next
      case False
      then have "c = b \<and> x = k \<and> j = i" using a(3) log by (auto split: if_splits)
      then show ?thesis using loc(2) [OF w] by simp
    qed
  qed
qed

section \<open>Command by command\<close>

fun relocates :: "command \<Rightarrow> bool" where
  "relocates (Copy fb fk tb tk) = True"
| "relocates (Move fb fk tb tk) = True"
| "relocates (RenamePot old new) = True"
| "relocates c = False"

text \<open>The three shapes the changes of a command can have.\<close>

definition indexing :: "ext \<Rightarrow> bytes set \<Rightarrow> bytes set \<Rightarrow> file_write list \<Rightarrow> fs \<Rightarrow> bool" where
  "indexing X B M ws d \<longleftrightarrow> outside [pointer_dir, reverse_dir] ws \<or>
     (\<exists>b k i ss. ws = commit_writes X b k i ss d \<and> outside [pointer_dir, reverse_dir] ss \<and>
        valid_bucket b \<and> valid_key k \<and> hash_wf i)"

lemma indexingI:
  "outside [pointer_dir, reverse_dir] ws \<Longrightarrow> indexing X B M ws d"
  "outside [pointer_dir, reverse_dir] ss \<Longrightarrow> valid_bucket b \<Longrightarrow> valid_key k \<Longrightarrow> hash_wf i \<Longrightarrow>
     indexing X B M (commit_writes X b k i ss d) d"
  unfolding indexing_def by blast+

lemma indexing_performed:
  assumes "indexed X (disk e)" "performs X B M ws e e1" "indexing X B M ws (disk e)"
  shows "indexed X (disk e1)"
proof -
  from assms(2) have p: "writes_ok X B M ws (disk e)" "disk e1 = apply_writes ws (disk e)" by (simp_all add: performs_def)
  from assms(3) show ?thesis
    unfolding indexing_def
  proof (elim disjE exE conjE)
    assume o: "outside [pointer_dir, reverse_dir] ws"
    show ?thesis unfolding p(2)
      by (rule indexed_shrinks [OF assms(1)])
        (use locations_same [OF writes_outside [OF p(1) o]] logs_outside [OF p(1) outside_mono [OF o]] in auto)
  next
    fix b k i ss assume c: "ws = commit_writes X b k i ss (disk e)" "outside [pointer_dir, reverse_dir] ss"
      "valid_bucket b" "valid_key k" "hash_wf i"
    have "writes_ok X B M ss (disk e)" using p(1) unfolding c(1) by (simp add: commit_writes_def Let_def writes_ok_append)
    from commit_indexed [OF assms(1) this c(2-5)] show ?thesis by (simp add: p(2) c(1))
  qed
qed

lemma manifest_id_wf: "vault_ok X B M e \<Longrightarrow> hash_wf (manifest_id X m)"
  using store_okD(6) [OF vault_okD(3)] by simp

lemma write_indexing:
  assumes "vault_ok X B M e" "valid_bucket b" "valid_key k"
  shows "indexing X B M (write_steps X b k data ct clock t e) (disk e)"
proof -
  have "outside [pointer_dir, reverse_dir] (staging_writes X m encs (disk e))" for m encs
    by (simp add: staging_writes_def Let_def outside_writes)
  from indexingI(2) [OF this assms(2,3) manifest_id_wf [OF assms(1)]]
  have "indexing X B M (put_writes X b k m encs (disk e)) (disk e)" for m encs by (simp add: put_writes_def)
  moreover have "indexing X B M [] (disk e)" by (rule indexingI(1)) simp
  ultimately show ?thesis by (simp add: write_steps_def split: sum.split)
qed

lemma upload_indexing:
  assumes "vault_ok X B M e" "valid_bucket b" "valid_key k"
  shows "indexing X B M (upload_steps X b k data ct limit clock t e) (disk e)"
proof -
  have "indexing X B M (chunks_writes X encs (disk e)) (disk e)" "indexing X B M [] (disk e)" for encs
    by (rule indexingI(1), simp add: outside_writes)+
  with write_indexing [OF assms] show ?thesis by (simp add: upload_steps_def split: sum.split)
qed

text \<open>Removals, the lifecycle and the collector only take versions out.\<close>

fun shrinks :: "command \<Rightarrow> bool" where
  "shrinks (Remove b k clock) = True"
| "shrinks (Age clock) = True"
| "shrinks (Collect clock grace) = True"
| "shrinks c = False"

lemma stepwise_indexing:
  assumes v: "vault_ok X B M e" and a: "admissible X B M c e" and c: "stepwise c" "\<not> relocates c" "\<not> shrinks c"
  shows "indexing X B M (writes_of X c e) (disk e)"
proof -
  note wf = manifest_id_wf [OF v]
  note ms = outside_writes(2)
  have none: "indexing X B M [] (disk e)" by (rule indexingI(1)) simp
  show ?thesis
  proof (cases c)
    case (Write b k data ct clock t)
    with write_indexing [OF v] a show ?thesis by simp
  next
    case (Upload b k data ct limit clock t)
    with upload_indexing [OF v] a show ?thesis by simp
  next
    case (RollBack b k i clock)
    then have n: "valid_bucket b" "valid_key k" "i \<in> set (log_at X (disk e) b k)" using a by auto
    have "hash_wf i" using history_eq(2) [OF store_okD(3) [OF vault_okD(3) [OF v]] n(1,2)] n(3) by (simp add: list_all_iff)
    with n RollBack none indexingI(2) [of "[]"] show ?thesis by simp
  next
    case (Adopt b k m clock)
    with a none indexingI(1) [OF ms] indexingI(2) [OF ms _ _ wf] show ?thesis by (simp add: import_steps_def Let_def)
  next
    case (Configure b cfg)
    then show ?thesis by (intro indexingI(1)) (simp add: meta_path_def)
  next
    case (Annotate b k an)
    then show ?thesis by (intro indexingI(1)) (simp add: annotation_path_def)
  next
    case (Receive bs)
    then show ?thesis by (intro indexingI(1)) (simp add: chunk_writes_def shard_def Let_def)
  next
    case (Assemble b k data i order t)
    then obtain up where "map_of (multipart e) i = Some up" "valid_bucket (up_bucket up)" "valid_key (up_key up)"
      using a by (auto simp: assembly_def)
    with Assemble none indexingI(2) [OF ms _ _ wf] show ?thesis
      by (simp add: complete_steps_def Let_def split: sum.split)
  qed (use c in simp_all)
qed

lemma others_indexed:
  assumes "indexed X d" "others ts d d'" "reverse_dir \<notin> set ts"
    and "\<And>b k. valid_bucket b \<Longrightarrow> valid_key k \<Longrightarrow> set (log_at X d' b k) \<subseteq> set (log_at X d b k)"
  shows "indexed X d'"
  using indexed_shrinks [OF assms(1) locations_agree [OF assms(2,3)] assms(4)] .

lemma remove_indexed:
  assumes v: "vault_ok X B M e" and a: "admissible X B M (Remove b k t) e" and ix: "indexed X (disk e)"
  shows "indexed X (disk (snd (exec X (Remove b k t) e)))"
proof (cases "ensure_unlocked X b k t e")
  case (Inl err)
  with ix show ?thesis by (simp add: locked_ops)
next
  case (Inr u)
  from pointer_remove_step [OF vault_okD(3) [OF v], of b k] a obtain d where d: "pointer_remove X b k (disk e) = (Inr (), d)"
    "others [pointer_dir] (disk e) d" "\<forall>c j. log_at X d c j = (if c = b \<and> j = k then [] else log_at X (disk e) c j)" by auto
  have "indexed X d" by (rule others_indexed [OF ix d(2)]) (use d(3) in auto)
  with d(1) Inr show ?thesis by (simp add: delete_object_def on_disk_eq)
qed

lemma drop_indexed:
  assumes v: "vault_ok X B M e" and b: "valid_bucket b" "valid_pot b" and ix: "indexed X (disk e)"
  shows "indexed X (disk (snd (delete_bucket X b e)))"
proof -
  from pointer_delete_bucket_step [OF vault_okD(3) [OF v] b(1)] obtain d1 where 1: "pointer_delete_bucket b (disk e) = (Inr (), d1)"
    "store_ok X B M d1" "others [pointer_dir] (disk e) d1"
    "\<forall>c k. log_at X d1 c k = (if c = b then [] else log_at X (disk e) c k)" by blast
  from meta_delete_step [OF 1(2) b(2)] obtain d2 where 2: "meta_delete_bucket X b d1 = (Inr (), d2)" "others [meta_dir] d1 d2" by blast
  have "indexed X d1" by (rule others_indexed [OF ix 1(3)]) (use 1(4) in auto)
  then have "indexed X d2"
    by (rule others_indexed [OF _ 2(2)]) (use others_agree [OF 2(2), THEN log_at_agree] in auto)
  with 1(1) 2(1) show ?thesis by (simp add: delete_bucket_def on_disk_eq)
qed

lemma drop_empty_indexed:
  assumes v: "vault_ok X B M e" and b: "valid_bucket b" "valid_pot b" and ix: "indexed X (disk e)"
  shows "indexed X (disk (snd (delete_bucket_if_empty X b e)))"
  using drop_indexed [OF assms] ix
  by (cases "keys X e b") (auto simp: delete_bucket_if_empty_def split: and_then_split)

lemma age_indexed:
  assumes v: "vault_ok X B M e" and a: "admissible X B M (Age clock) e" and ix: "indexed X (disk e)"
  shows "indexed X (disk (snd (enforce_lifecycle X clock e)))"
proof -
  from enforce_lifecycle_ok [OF vault_okD(3) [OF v] newest_whole [OF vault_okD(4) [OF v]], of clock] a obtain d where
    d: "enforce_lifecycle X clock e = (Inr (), e\<lparr>disk := d\<rparr>)" "others [pointer_dir] (disk e) d"
      "\<forall>b k. valid_bucket b \<longrightarrow> valid_key k \<longrightarrow>
        log_at X d b k = after_lifecycle X (disk e) (pot_rules X (disk e) b) clock (log_at X (disk e) b k)"
    by auto
  have "set (log_at X d b k) \<subseteq> set (log_at X (disk e) b k)" if "valid_bucket b" "valid_key k" for b k
    unfolding d(3) [rule_format, OF that] by (rule set_mono_suffix [OF after_lifecycle_suffix])
  with others_indexed [OF ix d(2)] have "indexed X d" by simp
  with d(1) show ?thesis by simp
qed

lemma collect_indexed:
  assumes v: "vault_ok X B M e" and ix: "indexed X (disk e)"
  shows "indexed X (disk (snd (gc_sweep X clock grace e)))"
proof -
  obtain r e' where run: "gc_sweep X clock grace e = (r, e')" by force
  note g = gc_sweep_run(2) [OF vault_okD(3) [OF v] run]
  have "indexed X (disk e')"
    by (rule others_indexed [OF ix g]) (use others_agree [OF g, THEN log_at_agree] in auto)
  with run show ?thesis by simp
qed

lemma command_indexed:
  assumes v: "vault_ok X B M e" and a: "admissible X B M c e" and c: "\<not> relocates c" and ix: "indexed X (disk e)"
  shows "indexed X (disk (snd (exec X c e)))"
proof (cases "stepwise c \<and> \<not> shrinks c")
  case True
  then have "commits X B M c e" using command_performed(2) [OF v a] by auto
  with indexing_performed [OF ix _ stepwise_indexing [OF v a _ c]] True show ?thesis by (simp add: commits_def)
next
  case False
  with c consider b k t where "c = Remove b k t" | b where "c = DropPot b" | b where "c = DropEmpty b"
    | clock where "c = Age clock" | clock grace where "c = Collect clock grace"
    by (cases c) auto
  then show ?thesis
  proof cases
    case 1
    with remove_indexed [OF v _ ix] a show ?thesis by blast
  next
    case 2
    with drop_indexed [OF v _ _ ix] a show ?thesis by simp
  next
    case 3
    with drop_empty_indexed [OF v _ _ ix] a show ?thesis by simp
  next
    case 4
    with age_indexed [OF v _ ix] a show ?thesis by simp
  next
    case 5
    with collect_indexed [OF v ix] show ?thesis by simp
  qed
qed

lemma run_indexed:
  assumes "engine_run X B M e cs e'" "vault_ok X B M e" "indexed X (disk e)" "\<forall>(c, r) \<in> set cs. \<not> relocates c"
  shows "indexed X (disk e')"
  using assms
proof (induction rule: engine_run.induct)
  case (executes e cs e1 c r e2)
  have "vault_ok X B M e1" using run_simulates [OF executes.hyps(1)] executes.prems(1) by blast
  moreover have "indexed X (disk e1)" "\<not> relocates c" using executes.IH executes.prems by auto
  ultimately show ?case using command_indexed [of X B M e1 c] executes.hyps(2,3) by simp
qed

end
