(* ===== verification/Auth.thy ===== *)
theory Auth
  imports Core_Types
begin

text \<open>
  Credentials, presigned links and the authorization rule (\<open>barme-auth/src/lib.rs\<close>). The HMAC is the
  \<open>hmac\<close> and \<open>sha2\<close> crates', a parameter of the model.
\<close>

section \<open>Presigned links\<close>

definition presign_message :: "string \<Rightarrow> string \<Rightarrow> nat \<Rightarrow> string" where
  "presign_message pot key expiry = pot @ ''/'' @ key @ ''?exp='' @ show_nat expiry"

definition presign :: "ext \<Rightarrow> string \<Rightarrow> string \<Rightarrow> string \<Rightarrow> nat \<Rightarrow> string" where
  "presign X secret pot key expiry =
     hex_encode X (hmac_sha256 X (as_bytes secret) (as_bytes (presign_message pot key expiry)))"

text \<open>The fold that collects the differing bits of two byte strings.\<close>

definition diff_bits :: "bytes \<Rightarrow> bytes \<Rightarrow> u8" where
  "diff_bits a b = fold (\<lambda>(x, y) acc. or acc (xor x y)) (zip a b) 0"

definition secret_eq :: "string \<Rightarrow> string \<Rightarrow> bool" where
  "secret_eq a b \<longleftrightarrow> length (as_bytes a) = length (as_bytes b) \<and> diff_bits (as_bytes a) (as_bytes b) = 0"

definition verify_presign :: "ext \<Rightarrow> string \<Rightarrow> string \<Rightarrow> string \<Rightarrow> nat \<Rightarrow> string \<Rightarrow> nat \<Rightarrow> bool" where
  "verify_presign X secret pot key expiry sig now =
     (if expiry < now then False
      else secret_eq (presign X secret pot key expiry) sig)"

section \<open>Principals, actions, credentials\<close>

datatype auth_error = MalformedHeader | UnknownKey | MissingHeader string | SignatureMismatch

datatype principal = Owner string | Anonymous

definition principal_is_owner :: "principal \<Rightarrow> bool" where
  "principal_is_owner p = (case p of Owner a \<Rightarrow> True | Anonymous \<Rightarrow> False)"

datatype action = Read | Write | Delete | Admin

text \<open>The \<open>HashMap\<close> from access key to record; of two records with one key the later stays.\<close>

type_synonym credentials = "(string \<times> key_record) list"

definition from_records :: "key_record list \<Rightarrow> credentials" where
  "from_records rs = rev (map (\<lambda>r. (access_key r, r)) rs)"

definition single :: "string \<Rightarrow> string \<Rightarrow> credentials" where
  "single access secret =
     from_records [\<lparr>access_key = access, secret_key = secret, read_only = False, pots = [], key_created_at = []\<rparr>]"

definition creds_empty :: "credentials \<Rightarrow> bool" where
  "creds_empty c \<longleftrightarrow> c = []"

definition creds_record :: "credentials \<Rightarrow> string \<Rightarrow> key_record option" where
  "creds_record c access = map_of c access"

definition creds_secret :: "credentials \<Rightarrow> string \<Rightarrow> string option" where
  "creds_secret c access = map_option secret_key (map_of c access)"

definition authorize :: "key_record option \<Rightarrow> action \<Rightarrow> string \<Rightarrow> bool \<Rightarrow> bool" where
  "authorize rec act pot public =
     (case rec of
        Some k \<Rightarrow> if read_only k \<and> act \<noteq> Read then False else scoped_to k pot
      | None \<Rightarrow> act = Read \<and> public)"

section \<open>Lemmas\<close>

lemma or_eq_0: "or a b = 0 \<longleftrightarrow> a = 0 \<and> b = 0" for a b :: u8
  by (auto simp: bit_eq_iff bit_simps)

lemma xor_eq_0: "xor a b = 0 \<longleftrightarrow> a = b" for a b :: u8
  by (auto simp: bit_eq_iff bit_simps)

lemma fold_diff: "fold (\<lambda>(x, y) acc. or acc (xor x y)) ps acc = (0 :: u8) \<longleftrightarrow> acc = 0 \<and> (\<forall>(x, y) \<in> set ps. x = y)"
  by (induction ps arbitrary: acc) (auto simp: or_eq_0 xor_eq_0)

lemma diff_bits_0: "length a = length b \<Longrightarrow> diff_bits a b = 0 \<longleftrightarrow> a = b"
  by (auto simp: diff_bits_def fold_diff list_eq_iff_zip_eq)

lemma secret_eq_iff [simp]: "secret_eq a b \<longleftrightarrow> a = b"
  using diff_bits_0 [of "as_bytes a" "as_bytes b"] as_bytes_inj by (auto simp: secret_eq_def)

lemma show_nat_no_eq: "CHR ''='' \<notin> set (show_nat n)" "CHR ''/'' \<notin> set (show_nat n)"
  using show_nat_digits by fastforce+

lemma presign_message_inj:
  assumes "CHR ''/'' \<notin> set pot" "CHR ''/'' \<notin> set pot'"
    and "presign_message pot key expiry = presign_message pot' key' expiry'"
  shows "pot = pot' \<and> key = key' \<and> expiry = expiry'"
proof -
  have "split_once CHR ''/'' (presign_message pot key expiry) = Some (pot, key @ ''?exp='' @ show_nat expiry)"
    "split_once CHR ''/'' (presign_message pot' key' expiry') = Some (pot', key' @ ''?exp='' @ show_nat expiry')"
    using assms(1,2) by (simp_all add: presign_message_def split_once_append)
  with assms(3) have p: "pot = pot'" "(key @ ''?exp'') @ CHR ''='' # show_nat expiry = (key' @ ''?exp'') @ CHR ''='' # show_nat expiry'"
    by simp_all
  have "rev ((key @ ''?exp'') @ CHR ''='' # show_nat expiry) = rev (show_nat expiry) @ CHR ''='' # rev (key @ ''?exp'')"
    for key expiry by simp
  then have "split_once CHR ''='' (rev ((key @ ''?exp'') @ CHR ''='' # show_nat expiry)) =
      Some (rev (show_nat expiry), rev (key @ ''?exp''))" for key expiry
    using show_nat_no_eq(1) [of expiry] split_once_append [of "CHR ''=''" "rev (show_nat expiry)"] by simp
  from this [of key expiry] this [of key' expiry'] have
    "Some (rev (show_nat expiry), rev (key @ ''?exp'')) = Some (rev (show_nat expiry'), rev (key' @ ''?exp''))"
    unfolding p(2) by (rule trans [OF sym])
  then show ?thesis using p(1) by simp
qed

lemma from_records_lookup: "map_of (from_records rs) a = Some r \<Longrightarrow> r \<in> set rs \<and> access_key r = a"
  by (auto simp: from_records_def dest: map_of_SomeD)

end
