(* ===== verification/Sigv4.thy ===== *)
theory Sigv4
  imports Auth "HOL-Library.Product_Lexorder"
begin

text \<open>
  AWS Signature V4 verification (\<open>barme-auth/src/sigv4.rs\<close>). A step that slices a string off a
  character boundary panics in Rust: it is \<open>None\<close> here, and every definition that can reach it
  returns an option.
\<close>

section \<open>Percent coding\<close>

definition hex_val :: "char \<Rightarrow> nat option" where
  "hex_val c =
     (let n = of_char c in
      if 48 \<le> n \<and> n \<le> (57::nat) then Some (n - 48)
      else if 97 \<le> n \<and> n \<le> 102 then Some (n - 87)
      else if 65 \<le> n \<and> n \<le> 70 then Some (n - 55)
      else None)"

fun hex_digits_val :: "nat \<Rightarrow> string \<Rightarrow> nat option" where
  "hex_digits_val acc [] = Some acc"
| "hex_digits_val acc (c # cs) =
     (case hex_val c of None \<Rightarrow> None | Some d \<Rightarrow> hex_digits_val (acc * 16 + d) cs)"

text \<open>\<open>u8::from_str_radix(s, 16)\<close>, which takes a leading \<open>+\<close>.\<close>

definition u8_from_hex :: "string \<Rightarrow> char option" where
  "u8_from_hex s =
     (let ds = strip_plus s in
      if ds = [] then None
      else case hex_digits_val 0 ds of
             None \<Rightarrow> None
           | Some n \<Rightarrow> if n \<le> 255 then Some (char_of n) else None)"

function percent_decode_from :: "string \<Rightarrow> nat \<Rightarrow> string \<Rightarrow> string option" where
  "percent_decode_from s i out =
     (if length s \<le> i then Some out
      else if s ! i = CHR ''%'' \<and> i + 2 < length s then
        (if \<not> (is_char_boundary s (i + 1) \<and> is_char_boundary s (i + 3)) then None
         else case u8_from_hex (take 2 (drop (i + 1) s)) of
                Some v \<Rightarrow> percent_decode_from s (i + 3) (out @ [v])
              | None \<Rightarrow> percent_decode_from s (i + 1) (out @ [s ! i]))
      else percent_decode_from s (i + 1) (out @ [s ! i]))"
  by pat_completeness auto
termination by (relation "measure (\<lambda>(s, i, out). length s - i)") auto

declare percent_decode_from.simps [simp del]

definition sig_percent_decode :: "string \<Rightarrow> string option" where
  "sig_percent_decode s = map_option utf8_lossy (percent_decode_from s 0 [])"

definition unreserved :: "char \<Rightarrow> bool" where
  "unreserved c \<longleftrightarrow>
     (let n = of_char c in 65 \<le> n \<and> n \<le> (90::nat) \<or> 97 \<le> n \<and> n \<le> 122 \<or> 48 \<le> n \<and> n \<le> 57) \<or>
     c \<in> set ''-_.~''"

definition upper_hex_digit :: "nat \<Rightarrow> char" where
  "upper_hex_digit d = (if d < 10 then char_of (48 + d) else char_of (55 + d))"

text \<open>\<open>format!("%{b:02X}")\<close>.\<close>

definition percent_byte :: "char \<Rightarrow> string" where
  "percent_byte c = [CHR ''%'', upper_hex_digit (of_char c div 16), upper_hex_digit (of_char c mod 16)]"

definition sig_uri_encode :: "string \<Rightarrow> bool \<Rightarrow> string" where
  "sig_uri_encode s encode_slash =
     concat (map (\<lambda>c. if unreserved c then [c]
                      else if c = CHR ''/'' \<and> \<not> encode_slash then [c]
                      else percent_byte c) s)"

section \<open>Query parameters\<close>

text \<open>The first remaining part whose decoded name is the wanted one, with the parts after it.\<close>

fun next_param :: "string \<Rightarrow> string list \<Rightarrow> (string \<times> string list) option option" where
  "next_param wanted [] = Some None"
| "next_param wanted (part # parts) =
     (let (key, val) = (case split_once CHR ''='' part of None \<Rightarrow> (part, []) | Some kv \<Rightarrow> kv) in
      Option.bind (sig_percent_decode key) (\<lambda>k.
        if k = wanted then map_option (\<lambda>v. Some (v, parts)) (sig_percent_decode val)
        else next_param wanted parts))"

definition query_parts :: "string \<Rightarrow> string list" where
  "query_parts raw = filter (\<lambda>p. p \<noteq> []) (split_on CHR ''&'' raw)"

definition query_param :: "string \<Rightarrow> string \<Rightarrow> string option option" where
  "query_param raw wanted = map_option (map_option fst) (next_param wanted (query_parts raw))"

definition required_query_param :: "string \<Rightarrow> string \<Rightarrow> (auth_error + string) option" where
  "required_query_param raw wanted =
     Option.bind (next_param wanted (query_parts raw)) (\<lambda>m.
       case m of
         None \<Rightarrow> Some (Inl MalformedHeader)
       | Some (v, rest) \<Rightarrow>
           map_option (\<lambda>again. if again \<noteq> None then Inl SignatureMismatch else Inr v) (next_param wanted rest))"

fun keep_unsigned :: "string list \<Rightarrow> string list option" where
  "keep_unsigned [] = Some []"
| "keep_unsigned (part # parts) =
     (let key = (case split_once CHR ''='' part of None \<Rightarrow> part | Some (k, _) \<Rightarrow> k) in
      Option.bind (sig_percent_decode key) (\<lambda>k.
      Option.bind (keep_unsigned parts) (\<lambda>rest.
        Some (if k \<noteq> ''X-Amz-Signature'' then part # rest else rest))))"

definition query_without_signature :: "string \<Rightarrow> string option" where
  "query_without_signature raw = map_option (join_with ''&'') (keep_unsigned (split_on CHR ''&'' raw))"

fun canonical_pairs :: "string list \<Rightarrow> (string \<times> string) list option" where
  "canonical_pairs [] = Some []"
| "canonical_pairs (kv # kvs) =
     (let (k, v) = (case split_once CHR ''='' kv of None \<Rightarrow> (kv, []) | Some p \<Rightarrow> p) in
      Option.bind (sig_percent_decode k) (\<lambda>k.
      Option.bind (sig_percent_decode v) (\<lambda>v.
      Option.bind (canonical_pairs kvs) (\<lambda>rest.
        Some ((sig_uri_encode k True, sig_uri_encode v True) # rest)))))"

definition canonical_query :: "string \<Rightarrow> string option" where
  "canonical_query raw =
     (if raw = [] then Some []
      else map_option (\<lambda>ps. join_with ''&'' (map (\<lambda>(k, v). k @ ''='' @ v) (sort ps)))
             (canonical_pairs (query_parts raw)))"

section \<open>The Authorization header and the presigned query\<close>

record parsed_auth =
  pa_access_key :: string
  pa_scope :: string
  pa_signed_headers :: "string list"
  pa_signature :: string

text \<open>The loop over the comma-separated fields: credential, signed headers and signature so far.\<close>

type_synonym auth_fields = "string option \<times> string option \<times> string option"

definition set_field :: "string \<Rightarrow> string \<Rightarrow> auth_fields \<Rightarrow> auth_fields" where
  "set_field k v f =
     (case f of (cred, hs, sig) \<Rightarrow>
        if k = ''Credential'' then (Some v, hs, sig)
        else if k = ''SignedHeaders'' then (cred, Some v, sig)
        else if k = ''Signature'' then (cred, hs, Some v)
        else f)"

fun read_fields :: "string list \<Rightarrow> auth_fields \<Rightarrow> auth_error + auth_fields" where
  "read_fields [] f = Inr f"
| "read_fields (part # parts) f =
     (case split_once CHR ''='' (trim part) of
        None \<Rightarrow> Inl MalformedHeader
      | Some (k, v) \<Rightarrow> read_fields parts (set_field k v f))"

definition split_credential :: "string \<Rightarrow> string \<Rightarrow> string \<Rightarrow> auth_error + parsed_auth" where
  "split_credential cred hs sig =
     try_then (ok_or MalformedHeader (split_once CHR ''/'' cred)) (\<lambda>(access, scope).
       Inr \<lparr>pa_access_key = access, pa_scope = scope, pa_signed_headers = split_on CHR '';'' hs, pa_signature = sig\<rparr>)"

definition parse_auth :: "string \<Rightarrow> auth_error + parsed_auth" where
  "parse_auth header =
     try_then (ok_or MalformedHeader (strip_prefix ''AWS4-HMAC-SHA256 '' header)) (\<lambda>rest.
     try_then (read_fields (split_on CHR '','' rest) (None, None, None)) (\<lambda>(cred, hs, sig).
     try_then (ok_or MalformedHeader cred) (\<lambda>cred.
     try_then (ok_or MalformedHeader hs) (\<lambda>hs.
     try_then (ok_or MalformedHeader sig) (\<lambda>sig. split_credential cred hs sig)))))"

text \<open>A fallible step that may also panic, and the next step on its value.\<close>

definition bind_run :: "('e + 'a) option \<Rightarrow> ('a \<Rightarrow> ('e + 'b) option) \<Rightarrow> ('e + 'b) option" where
  "bind_run r f = Option.bind r (\<lambda>x. case x of Inl e \<Rightarrow> Some (Inl e) | Inr a \<Rightarrow> f a)"

definition parse_auth_query :: "string \<Rightarrow> (auth_error + parsed_auth) option" where
  "parse_auth_query q =
     bind_run (required_query_param q ''X-Amz-Algorithm'') (\<lambda>alg.
       if alg \<noteq> ''AWS4-HMAC-SHA256'' then Some (Inl MalformedHeader)
       else
         bind_run (required_query_param q ''X-Amz-Credential'') (\<lambda>cred.
         bind_run (required_query_param q ''X-Amz-SignedHeaders'') (\<lambda>hs.
         bind_run (required_query_param q ''X-Amz-Signature'') (\<lambda>sig.
           Some (split_credential cred hs sig)))))"

text \<open>\<open>i64::saturating_add\<close>.\<close>

definition saturating_add :: "int \<Rightarrow> int \<Rightarrow> int" where
  "saturating_add a b = max (- (2 ^ 63)) (min (2 ^ 63 - 1) (a + b))"

text \<open>\<open>parse_date\<close> is the \<open>time\<close> crate's parser for \<open>YYYYMMDDThhmmssZ\<close>, as a Unix time.\<close>

definition ensure_presign_not_expired ::
  "(string \<Rightarrow> int option) \<Rightarrow> string \<Rightarrow> string \<Rightarrow> int \<Rightarrow> (auth_error + unit) option" where
  "ensure_presign_not_expired parse_date q amz_date now_unix =
     bind_run (required_query_param q ''X-Amz-Expires'') (\<lambda>e.
       case parse_i64 e of
         None \<Rightarrow> Some (Inl MalformedHeader)
       | Some expires \<Rightarrow>
           if \<not> (0 \<le> expires \<and> expires \<le> 604800) then Some (Inl MalformedHeader)
           else (case parse_date amz_date of
                   None \<Rightarrow> Some (Inl MalformedHeader)
                 | Some issued \<Rightarrow>
                     if saturating_add now_unix 900 < issued \<or> saturating_add issued expires < now_unix
                     then Some (Inl SignatureMismatch) else Some (Inr ())))"

section \<open>The signature\<close>

fun canonical_headers :: "(string \<times> string) list \<Rightarrow> string list \<Rightarrow> auth_error + string" where
  "canonical_headers hs [] = Inr []"
| "canonical_headers hs (name # names) =
     (case map_of hs name of
        None \<Rightarrow> Inl MalformedHeader
      | Some v \<Rightarrow>
          try_then (canonical_headers hs names) (\<lambda>rest. Inr (name @ '':'' @ trim v @ [CHR 0x0A] @ rest)))"

definition sig_sha256_hex :: "ext \<Rightarrow> bytes \<Rightarrow> string" where
  "sig_sha256_hex X b = hex_encode X (sha256 X b)"

definition sign ::
  "ext \<Rightarrow> string \<Rightarrow> string \<Rightarrow> string \<Rightarrow> string \<Rightarrow> (string \<times> string) list \<Rightarrow> string list \<Rightarrow> string \<Rightarrow> string \<Rightarrow> string \<Rightarrow>
   (auth_error + string) option" where
  "sign X secret method path q headers signed_headers amz_date scope payload_hash =
     (case split_on CHR ''/'' scope of
        date_stamp # region # service # rest \<Rightarrow>
          bind_run (Some (canonical_headers headers signed_headers)) (\<lambda>canonical.
          Option.bind (canonical_query q) (\<lambda>cq.
            let nl = [CHR 0x0A];
                request = method @ nl @ path @ nl @ cq @ nl @ canonical @ nl @ join_with '';'' signed_headers
                          @ nl @ payload_hash;
                string_to_sign = ''AWS4-HMAC-SHA256'' @ nl @ amz_date @ nl @ scope @ nl
                                 @ sig_sha256_hex X (as_bytes request);
                k_date = hmac_sha256 X (as_bytes (''AWS4'' @ secret)) (as_bytes date_stamp);
                k_region = hmac_sha256 X k_date (as_bytes region);
                k_service = hmac_sha256 X k_region (as_bytes service);
                k_signing = hmac_sha256 X k_service (as_bytes ''aws4_request'')
            in Some (Inr (hex_encode X (hmac_sha256 X k_signing (as_bytes string_to_sign))))))
      | _ \<Rightarrow> Some (Inl MalformedHeader))"

section \<open>Verification\<close>

record signed_request =
  sr_method :: string
  sr_path :: string
  sr_query :: string
  sr_headers :: "(string \<times> string) list"

definition constant_time_eq :: "bytes \<Rightarrow> bytes \<Rightarrow> bool" where
  "constant_time_eq a b \<longleftrightarrow> (if length a \<noteq> length b then False else diff_bits a b = 0)"

text \<open>What is to be checked: the parsed credential, the query to sign, the date and the payload hash.\<close>

definition signed_parts ::
  "(string \<Rightarrow> int option) \<Rightarrow> signed_request \<Rightarrow> int \<Rightarrow>
   (auth_error + (parsed_auth \<times> string \<times> string \<times> string) option) option" where
  "signed_parts parse_date req now_unix =
     (case map_of (sr_headers req) ''authorization'' of
        Some auth \<Rightarrow>
          Some (
            try_then (parse_auth auth) (\<lambda>parsed.
            try_then (ok_or (MissingHeader ''x-amz-date'') (map_of (sr_headers req) ''x-amz-date'')) (\<lambda>amz_date.
            try_then (ok_or (MissingHeader ''x-amz-content-sha256'')
                        (map_of (sr_headers req) ''x-amz-content-sha256'')) (\<lambda>payload.
              Inr (Some (parsed, sr_query req, amz_date, payload))))))
      | None \<Rightarrow>
          Option.bind (query_param (sr_query req) ''X-Amz-Algorithm'') (\<lambda>alg.
            if alg \<noteq> None then
              bind_run (parse_auth_query (sr_query req)) (\<lambda>parsed.
              bind_run (required_query_param (sr_query req) ''X-Amz-Date'') (\<lambda>amz_date.
              bind_run (ensure_presign_not_expired parse_date (sr_query req) amz_date now_unix) (\<lambda>_.
              Option.bind (query_without_signature (sr_query req)) (\<lambda>q.
                Some (Inr (Some (parsed, q, amz_date, ''UNSIGNED-PAYLOAD'')))))))
            else Some (Inr None)))"

definition verify_sigv4_at ::
  "ext \<Rightarrow> (string \<Rightarrow> int option) \<Rightarrow> credentials \<Rightarrow> signed_request \<Rightarrow> int \<Rightarrow> (auth_error + principal) option" where
  "verify_sigv4_at X parse_date creds req now_unix =
     bind_run (signed_parts parse_date req now_unix) (\<lambda>p.
       case p of
         None \<Rightarrow> Some (Inr Anonymous)
       | Some (parsed, q, amz_date, payload) \<Rightarrow>
           (case creds_secret creds (pa_access_key parsed) of
              None \<Rightarrow> Some (Inl UnknownKey)
            | Some secret \<Rightarrow>
                bind_run
                  (sign X secret (sr_method req) (sr_path req) q (sr_headers req) (pa_signed_headers parsed)
                     amz_date (pa_scope parsed) payload) (\<lambda>expected.
                  if constant_time_eq (as_bytes expected) (as_bytes (pa_signature parsed))
                  then Some (Inr (Owner (pa_access_key parsed)))
                  else Some (Inl SignatureMismatch))))"

text \<open>\<open>clock\<close> is \<open>SystemTime::now()\<close> in seconds since the epoch, \<open>None\<close> when it lies before it.\<close>

definition verify_sigv4 ::
  "ext \<Rightarrow> (string \<Rightarrow> int option) \<Rightarrow> credentials \<Rightarrow> signed_request \<Rightarrow> nat option \<Rightarrow> (auth_error + principal) option" where
  "verify_sigv4 X parse_date creds req clock =
     (case clock of
        None \<Rightarrow> Some (Inl MalformedHeader)
      | Some secs \<Rightarrow> verify_sigv4_at X parse_date creds req (int secs))"

section \<open>Lemmas\<close>

lemma bind_run_simps [simp]:
  "bind_run None f = None" "bind_run (Some (Inl e)) f = Some (Inl e)" "bind_run (Some (Inr a)) f = f a"
  by (simp_all add: bind_run_def)

lemma bind_run_Inr_iff:
  "bind_run r f = Some (Inr b) \<longleftrightarrow> (\<exists>a. r = Some (Inr a) \<and> f a = Some (Inr b))"
  by (cases r; cases "the r") (auto simp: bind_run_def)

lemma not_expiredD:
  assumes "ensure_presign_not_expired parse_date q date now = Some (Inr ())"
  shows "\<exists>e expires issued. required_query_param q ''X-Amz-Expires'' = Some (Inr e) \<and>
     parse_i64 e = Some expires \<and> parse_date date = Some issued \<and> 0 \<le> expires \<and> expires \<le> 604800 \<and>
     issued \<le> saturating_add now 900 \<and> now \<le> saturating_add issued expires"
proof -
  from assms obtain e where e: "required_query_param q ''X-Amz-Expires'' = Some (Inr e)"
    unfolding ensure_presign_not_expired_def bind_run_Inr_iff by blast
  then show ?thesis
    using assms by (cases "parse_i64 e"; cases "parse_date date")
      (auto simp: ensure_presign_not_expired_def not_less split: if_splits)
qed

lemma constant_time_eq_iff [simp]: "constant_time_eq a b \<longleftrightarrow> a = b"
  using diff_bits_0 [of a b] by (auto simp: constant_time_eq_def)

text \<open>Visible ASCII, which \<open>trim\<close> leaves alone at both ends.\<close>

definition graphic :: "char \<Rightarrow> bool" where
  "graphic c \<longleftrightarrow> 33 \<le> (of_char c :: nat) \<and> (of_char c :: nat) \<le> 126"

lemma white_space_not_graphic: "w \<in> set white_space \<Longrightarrow> \<not> graphic (hd w) \<and> \<not> graphic (last w) \<and> w \<noteq> []"
  by (auto simp: white_space_def graphic_def)

lemma trim_start_graphic: "graphic c \<Longrightarrow> trim_start (c # s) = c # s"
  by (rule trim_start_id) (auto simp: prefix_Cons dest!: white_space_not_graphic)

lemma trim_end_graphic: "graphic c \<Longrightarrow> trim_end (s @ [c]) = s @ [c]"
proof (rule trim_end_id)
  fix w assume c: "graphic c" "w \<in> set white_space"
  show "\<not> suffix w (s @ [c])"
  proof
    assume "suffix w (s @ [c])"
    then have "last w = c" using white_space_not_graphic [OF c(2)] by (auto simp: suffix_def) (metis last_appendR last_snoc)
    with c white_space_not_graphic show False by blast
  qed
qed

lemma trim_graphic: "list_all graphic s \<Longrightarrow> trim s = s"
proof (cases "s = []")
  case True
  have "trim_start [] = []" "trim_end [] = []"
    by (rule trim_start_id trim_end_id; auto dest: white_space_nonempty)+
  then show ?thesis using True by (simp add: trim_def)
next
  case False
  assume g: "list_all graphic s"
  from False obtain c r where 1: "s = c # r" by (cases s) auto
  from False obtain p l where 2: "s = p @ [l]" by (cases s rule: rev_cases) auto
  have "graphic c" using g 1 by simp
  then have "trim_start s = s" by (simp add: 1 trim_start_graphic)
  moreover have "graphic l" using g 2 by simp
  then have "trim_end s = s" by (simp add: 2 trim_end_graphic)
  ultimately show ?thesis by (simp add: trim_def)
qed

lemma trim_start_space: "trim_start (CHR '' '' # s) = trim_start s"
proof -
  have "find (\<lambda>w. prefix w (CHR '' '' # s)) white_space = Some [CHR '' '']"
    by (simp add: white_space_def)
  then show ?thesis by (subst trim_start.simps) simp
qed

lemma trim_space_graphic: "list_all graphic s \<Longrightarrow> trim (CHR '' '' # s) = s"
  using trim_graphic [of s] by (simp add: trim_def trim_start_space)

lemma split_join:
  "ws \<noteq> [] \<Longrightarrow> \<forall>w \<in> set ws. c \<notin> set w \<Longrightarrow> split_on c (join_with [c] ws) = ws"
  by (induction ws rule: induct_list012) (auto simp: split_on_no_sep split_on_append)

text \<open>The header a client sends, and how it parses.\<close>

definition auth_header :: "string \<Rightarrow> string \<Rightarrow> string list \<Rightarrow> string \<Rightarrow> string" where
  "auth_header access scope hs sig =
     ''AWS4-HMAC-SHA256 Credential='' @ access @ ''/'' @ scope @ '', SignedHeaders='' @ join_with '';'' hs
     @ '', Signature='' @ sig"

definition field_ok :: "string \<Rightarrow> bool" where
  "field_ok s \<longleftrightarrow> list_all (\<lambda>c. graphic c \<and> c \<noteq> CHR '','') s"

lemma field_okD: "field_ok s \<Longrightarrow> list_all graphic s" "field_ok s \<Longrightarrow> CHR '','' \<notin> set s"
  by (auto simp: field_ok_def list_all_iff)

lemma field_ok_hex: "hex_ok X \<Longrightarrow> field_ok (hex_encode X b)"
  using hex_okD(3) [of X b] by (auto simp: field_ok_def list_all_iff hex_digits_def graphic_def)

lemma field_ok_trim: "field_ok s \<Longrightarrow> trim s = s" "field_ok s \<Longrightarrow> split_on CHR '','' s = [s]"
  using field_okD by (simp_all add: trim_graphic split_on_no_sep)

lemma field_ok_join: "\<forall>h \<in> set hs. field_ok h \<Longrightarrow> field_ok (join_with '';'' hs)"
  by (induction hs rule: induct_list012) (auto simp: field_ok_def graphic_def)

lemma parse_auth_header:
  assumes "field_ok access" "CHR ''/'' \<notin> set access" "field_ok scope" "field_ok sig"
    and "hs \<noteq> []" "\<forall>h \<in> set hs. field_ok h \<and> CHR '';'' \<notin> set h"
  shows "parse_auth (auth_header access scope hs sig) =
     Inr \<lparr>pa_access_key = access, pa_scope = scope, pa_signed_headers = hs, pa_signature = sig\<rparr>"
proof -
  let ?c = "''Credential='' @ access @ ''/'' @ scope" and ?h = "''SignedHeaders='' @ join_with '';'' hs"
    and ?s = "''Signature='' @ sig"
  have j: "field_ok (join_with '';'' hs)" using assms(6) by (simp add: field_ok_join)
  have g: "list_all graphic ?c" "list_all graphic ?h" "list_all graphic ?s"
    using field_okD(1) [OF assms(1)] field_okD(1) [OF assms(3)] field_okD(1) [OF assms(4)] field_okD(1) [OF j]
    by (simp_all add: graphic_def)
  have n: "CHR '','' \<notin> set ?c" "CHR '','' \<notin> set (CHR '' '' # ?h)" "CHR '','' \<notin> set (CHR '' '' # ?s)"
    using field_okD(2) [OF assms(1)] field_okD(2) [OF assms(3)] field_okD(2) [OF assms(4)] field_okD(2) [OF j]
    by simp_all
  have h: "auth_header access scope hs sig =
      ''AWS4-HMAC-SHA256 '' @ ?c @ CHR '','' # (CHR '' '' # ?h) @ CHR '','' # (CHR '' '' # ?s)"
    by (simp add: auth_header_def)
  have "strip_prefix ''AWS4-HMAC-SHA256 '' (auth_header access scope hs sig) =
      Some (?c @ CHR '','' # (CHR '' '' # ?h) @ CHR '','' # (CHR '' '' # ?s))"
    unfolding h strip_prefix_def by simp
  moreover have "split_on CHR '','' (?c @ CHR '','' # (CHR '' '' # ?h) @ CHR '','' # (CHR '' '' # ?s)) =
      [?c, CHR '' '' # ?h, CHR '' '' # ?s]"
    by (simp only: split_on_append [OF n(1)] split_on_append [OF n(2)] split_on_no_sep [OF n(3)])
  moreover have "split_once CHR ''='' ?c = Some (''Credential'', access @ ''/'' @ scope)"
    "split_once CHR ''='' ?h = Some (''SignedHeaders'', join_with '';'' hs)"
    "split_once CHR ''='' ?s = Some (''Signature'', sig)" by simp_all
  moreover have "split_on CHR '';'' (join_with '';'' hs) = hs" using assms(5,6) by (intro split_join) auto
  moreover have "split_once CHR ''/'' (access @ ''/'' @ scope) = Some (access, scope)"
    using assms(2) by (simp add: split_once_append)
  ultimately show ?thesis
    unfolding parse_auth_def
    by (simp only: ok_or_simps try_then.simps read_fields.simps trim_graphic [OF g(1)] trim_space_graphic [OF g(2)]
        trim_space_graphic [OF g(3)] option.case prod.case set_field_def split_credential_def if_True if_False)
      (simp add: ok_or_def split_credential_def)
qed

end
