(* ===== verification/Http.thy ===== *)
theory Http
  imports Recovery Sigv4
begin

text \<open>
  What the HTTP doors share: requests and responses as data, and the behaviour of the \<open>http\<close>,
  \<open>time\<close> and \<open>thiserror\<close> crates that their handlers use, as parameters. A handler is a function of
  the engine and the request; headers that the framework adds on its own are left out.
\<close>

type_synonym headers = "(string \<times> string) list"

text \<open>A body is sent whole, or piece by piece with an error where a piece cannot be read.\<close>

datatype body = Full bytes | Pieces "(engine_error + bytes) list"

record response =
  status :: nat
  resp_headers :: headers
  resp_body :: body

text \<open>
  \<open>hv_ok\<close>: \<open>HeaderValue::from_str\<close> takes the string; \<open>hv_text\<close>: \<open>HeaderValue::to_str\<close> succeeds on
  it; \<open>amz_time\<close>: \<open>PrimitiveDateTime::parse\<close> with the AWS format, as a Unix time; \<open>utc_fields\<close>:
  \<open>OffsetDateTime::parse\<close> with RFC 3339, as year, month, day, hour, minute, second and millisecond
  in UTC; \<open>err_text\<close>: the derived \<open>Display\<close> of an engine error; \<open>body_err\<close>: that of a body that could not
  be collected, for want of room (\<open>None\<close>) or because reading failed.
\<close>

record web =
  hv_ok :: "string \<Rightarrow> bool"
  hv_text :: "string \<Rightarrow> bool"
  amz_time :: "string \<Rightarrow> int option"
  utc_fields :: "string \<Rightarrow> (int \<times> nat \<times> nat \<times> nat \<times> nat \<times> nat \<times> nat) option"
  err_text :: "engine_error \<Rightarrow> string"
  body_err :: "io_error option \<Rightarrow> string"

definition text_response :: "nat \<Rightarrow> string \<Rightarrow> response" where
  "text_response code msg = \<lparr>status = code, resp_headers = [], resp_body = Full (as_bytes msg)\<rparr>"

definition bare :: "nat \<Rightarrow> response" where
  "bare code = \<lparr>status = code, resp_headers = [], resp_body = Full []\<rparr>"

text \<open>The first value of a header that is also text.\<close>

definition header_text :: "web \<Rightarrow> headers \<Rightarrow> string \<Rightarrow> string option" where
  "header_text W hs name =
     (case map_of hs name of None \<Rightarrow> None | Some v \<Rightarrow> if hv_text W v then Some v else None)"

definition quoted :: "string \<Rightarrow> string" where
  "quoted s = ''\"'' @ s @ ''\"''"

lemma response_simps [simp]:
  "status (text_response code msg) = code" "resp_body (text_response code msg) = Full (as_bytes msg)"
  "status (bare code) = code" "resp_body (bare code) = Full []"
  by (simp_all add: text_response_def bare_def)

end
