(* ===== verification/Cdn.thy ===== *)
theory Cdn
  imports Http
begin

text \<open>
  The public delivery door (\<open>barme-cdn/src/lib.rs\<close>): delivery by content hash, by name from a public
  pot, and by a presigned link, with conditional and range requests. The router, CORS and the
  server loop are the framework's.
\<close>

section \<open>Helpers\<close>

definition hv :: "web \<Rightarrow> string \<Rightarrow> string" where
  "hv W s = (if hv_ok W s then s else [])"

definition cache_control :: "bool \<Rightarrow> string" where
  "cache_control immutable =
     (if immutable then ''public, max-age=31536000, immutable'' else ''public, max-age=60, must-revalidate'')"

definition base_headers :: "web \<Rightarrow> string \<Rightarrow> string \<Rightarrow> bool \<Rightarrow> headers" where
  "base_headers W ct etag immutable =
     [(''content-type'', hv W ct), (''etag'', hv W etag), (''accept-ranges'', ''bytes''),
      (''cache-control'', hv W (cache_control immutable))]"

definition not_modified :: "web \<Rightarrow> string \<Rightarrow> bool \<Rightarrow> response" where
  "not_modified W etag immutable =
     \<lparr>status = 304, resp_headers = [(''etag'', hv W etag), (''cache-control'', hv W (cache_control immutable))],
      resp_body = Full []\<rparr>"

definition if_none_match :: "web \<Rightarrow> headers \<Rightarrow> string \<Rightarrow> bool" where
  "if_none_match W req etag =
     (case header_text W req ''if-none-match'' of
        None \<Rightarrow> False
      | Some v \<Rightarrow> v = ''*'' \<or> list_ex (\<lambda>t. trim t = etag) (split_on CHR '','' v))"

definition parse_range :: "string \<Rightarrow> nat \<Rightarrow> (nat \<times> nat) option" where
  "parse_range val total_len =
     (if total_len = 0 then None
      else Option.bind (strip_prefix ''bytes='' val) (\<lambda>spec.
        Option.bind (split_once CHR ''-'' spec) (\<lambda>(s, e).
        Option.bind
          (if s = [] then
             map_option (\<lambda>n. (total_len - min n total_len, total_len - 1)) (parse_unsigned u64_max e)
           else
             Option.bind (parse_unsigned u64_max s) (\<lambda>start.
               if e = [] then Some (start, total_len - 1)
               else map_option (\<lambda>n. (start, min n (total_len - 1))) (parse_unsigned u64_max e)))
          (\<lambda>(start, stop). if stop < start \<or> total_len \<le> start then None else Some (start, stop)))))"

definition deliver :: "web \<Rightarrow> bytes \<Rightarrow> string \<Rightarrow> string \<Rightarrow> bool \<Rightarrow> headers \<Rightarrow> response" where
  "deliver W content ct etag immutable req =
     (if if_none_match W req etag then not_modified W etag immutable
      else
        let total_len = length content in
        case Option.bind (header_text W req ''range'') (\<lambda>v. parse_range v total_len) of
          Some (start, stop) \<Rightarrow>
            (let slice = take (stop + 1 - start) (drop start content) in
             \<lparr>status = 206,
              resp_headers = base_headers W ct etag immutable
                @ [(''content-range'', hv W (''bytes '' @ show_nat start @ ''-'' @ show_nat stop @ ''/'' @ show_nat total_len)),
                   (''content-length'', show_nat (length slice))],
              resp_body = Full slice\<rparr>)
        | None \<Rightarrow>
            \<lparr>status = 200,
             resp_headers = base_headers W ct etag immutable @ [(''content-length'', show_nat total_len)],
             resp_body = Full content\<rparr>)"

section \<open>Handlers\<close>

definition by_hash :: "ext \<Rightarrow> web \<Rightarrow> engine \<Rightarrow> string \<Rightarrow> headers \<Rightarrow> response" where
  "by_hash X W e h req =
     (case parse_hash X h of
        Inl err \<Rightarrow> text_response 400 ''malformed hash''
      | Inr i \<Rightarrow>
          (case object_manifest X e i of
             Inl err \<Rightarrow> text_response 500 (err_text W err)
           | Inr None \<Rightarrow> bare 404
           | Inr (Some m) \<Rightarrow>
               (case read_object X e i of
                  Inl err \<Rightarrow> text_response 500 (err_text W err)
                | Inr content \<Rightarrow>
                    deliver W content (content_type (original m)) (quoted (show_hash X i)) True req)))"

text \<open>The common tail of the two handlers that deliver by name.\<close>

definition deliver_current :: "ext \<Rightarrow> web \<Rightarrow> engine \<Rightarrow> string \<Rightarrow> string \<Rightarrow> headers \<Rightarrow> response" where
  "deliver_current X W e b k req =
     (case current_manifest X e b k of
        Inl err \<Rightarrow> text_response 500 (err_text W err)
      | Inr None \<Rightarrow> bare 404
      | Inr (Some m) \<Rightarrow>
          let etag = quoted (show_hash X (object_id m)) in
          if if_none_match W req etag then not_modified W etag False
          else (case get X e b k of
                  Inl err \<Rightarrow> text_response 500 (err_text W err)
                | Inr None \<Rightarrow> bare 404
                | Inr (Some content) \<Rightarrow> deliver W content (content_type (original m)) etag False req))"

definition by_key :: "ext \<Rightarrow> web \<Rightarrow> engine \<Rightarrow> string \<Rightarrow> string \<Rightarrow> headers \<Rightarrow> response" where
  "by_key X W e b k req =
     (if \<not> (case is_public X e b of Inl err \<Rightarrow> False | Inr p \<Rightarrow> p) then bare 404
      else deliver_current X W e b k req)"

text \<open>\<open>now\<close> is the clock in seconds since the epoch, 0 when it lies before it.\<close>

definition by_presign ::
  "ext \<Rightarrow> web \<Rightarrow> engine \<Rightarrow> string \<Rightarrow> string \<Rightarrow> nat \<Rightarrow> string \<Rightarrow> nat \<Rightarrow> headers \<Rightarrow> response" where
  "by_presign X W e b k expiry sig now req =
     (case signing_secret X e of
        None \<Rightarrow> bare 404
      | Some secret \<Rightarrow>
          if \<not> verify_presign X secret b k expiry sig now then bare 403
          else deliver_current X W e b k req)"

section \<open>Lemmas\<close>

lemma parse_range_bounds: "parse_range v n = Some (s, t) \<Longrightarrow> s \<le> t \<and> t < n"
  by (auto simp: parse_range_def bind_eq_Some_conv split: if_splits prod.splits)

lemma parse_range_closed:
  assumes "s \<le> t" "s < n" "s \<le> u64_max" "t \<le> u64_max"
  shows "parse_range (''bytes='' @ show_nat s @ ''-'' @ show_nat t) n = Some (s, min t (n - 1))"
proof -
  have "CHR ''-'' \<notin> set (show_nat s)" using show_nat_digits by fastforce
  then have "split_once CHR ''-'' (show_nat s @ ''-'' @ show_nat t) = Some (show_nat s, show_nat t)"
    by (simp add: split_once_append)
  moreover have "strip_prefix ''bytes='' (''bytes='' @ show_nat s @ ''-'' @ show_nat t) = Some (show_nat s @ ''-'' @ show_nat t)"
    by (simp add: strip_prefix_def)
  ultimately show ?thesis using assms parse_show_nat by (auto simp: parse_range_def)
qed

lemma deliver_cases:
  "deliver W content ct etag immutable req =
     (if if_none_match W req etag then not_modified W etag immutable
      else case Option.bind (header_text W req ''range'') (\<lambda>v. parse_range v (length content)) of
        None \<Rightarrow> \<lparr>status = 200, resp_headers = base_headers W ct etag immutable @ [(''content-length'', show_nat (length content))],
                 resp_body = Full content\<rparr>
      | Some (s, t) \<Rightarrow> \<lparr>status = 206, resp_headers = base_headers W ct etag immutable
          @ [(''content-range'', hv W (''bytes '' @ show_nat s @ ''-'' @ show_nat t @ ''/'' @ show_nat (length content))),
             (''content-length'', show_nat (t + 1 - s))],
          resp_body = Full (take (t + 1 - s) (drop s content))\<rparr>)"
proof (cases "Option.bind (header_text W req ''range'') (\<lambda>v. parse_range v (length content))")
  case None
  then show ?thesis by (simp add: deliver_def Let_def)
next
  case (Some p)
  obtain s t where p: "p = (s, t)" by force
  then have "s \<le> t" "t < length content" using Some parse_range_bounds by (auto simp: bind_eq_Some_conv)
  then have "min (length content - s) (Suc t - s) = Suc t - s" by simp
  with Some p show ?thesis by (simp add: deliver_def Let_def)
qed

lemma field_ok_etag: "hex_ok X \<Longrightarrow> field_ok (quoted (show_hash X h))"
  using field_ok_hex [of X "hash_bytes h"]
  by (simp add: quoted_def show_hash_def field_ok_def graphic_def)

lemma if_none_match_own:
  "hex_ok X \<Longrightarrow> hv_text W (quoted (show_hash X h)) \<Longrightarrow>
     if_none_match W [(''if-none-match'', quoted (show_hash X h))] (quoted (show_hash X h))"
  using field_ok_trim [OF field_ok_etag, of X h] by (simp add: if_none_match_def header_text_def)

lemma no_headers [simp]: "\<not> if_none_match W [] etag" "header_text W [] name = None"
  by (simp_all add: if_none_match_def header_text_def)

end
