(* ===== verification/Semantic.thy ===== *)
theory Semantic
  imports Core_Types
begin

text \<open>
  The semantic layer (\<open>barme-semantic\<close>): the in-memory vector index with its per-tenant walls and
  cosine ranking, the HTTP embedder's contract, and the orchestration of the two. An \<open>f32\<close> is its bit
  pattern; the IEEE operations and \<open>Iterator::sum\<close> are parameters, \<open>total_cmp\<close> is computed on the bits
  as the standard library does. The HTTP endpoint is a parameter.
\<close>

section \<open>Floats\<close>

type_synonym f32 = "32 word"

record fpu =
  f32_mul :: "f32 \<Rightarrow> f32 \<Rightarrow> f32"
  f32_div :: "f32 \<Rightarrow> f32 \<Rightarrow> f32"
  f32_sqrt :: "f32 \<Rightarrow> f32"
  f32_sum :: "f32 list \<Rightarrow> f32"

definition f32_zero :: f32 where "f32_zero = 0"

text \<open>\<open>x == 0.0\<close> holds of both zeros.\<close>

definition f32_is_zero :: "f32 \<Rightarrow> bool" where
  "f32_is_zero x \<longleftrightarrow> x = 0 \<or> x = 0x80000000"

text \<open>\<open>total_cmp\<close> compares, as signed integers, the bits with all but the sign flipped where the sign is set.\<close>

definition total_key :: "f32 \<Rightarrow> int" where
  "total_key x = sint (if bit x 31 then xor x 0x7FFFFFFF else x)"

section \<open>The index\<close>

record match_hit =
  mt_id :: hash
  mt_score :: f32

text \<open>Tenant, object, vector; the order is the map's iteration order.\<close>

type_synonym index = "(string \<times> (hash \<times> f32 list) list) list"

definition cosine :: "fpu \<Rightarrow> f32 list \<Rightarrow> f32 list \<Rightarrow> f32" where
  "cosine F a b =
     (let dot = f32_sum F (map (\<lambda>(x, y). f32_mul F x y) (zip a b));
          na = f32_sqrt F (f32_sum F (map (\<lambda>x. f32_mul F x x) a));
          nb = f32_sqrt F (f32_sum F (map (\<lambda>x. f32_mul F x x) b)) in
      if f32_is_zero na \<or> f32_is_zero nb then f32_zero else f32_div F dot (f32_mul F na nb))"

definition upsert :: "string \<Rightarrow> hash \<Rightarrow> f32 list \<Rightarrow> index \<Rightarrow> index" where
  "upsert t i v idx =
     AList.update t (AList.update i v (case map_of idx t of None \<Rightarrow> [] | Some vs \<Rightarrow> vs)) idx"

text \<open>\<open>sort_by\<close> is stable, as \<open>sort_key\<close> is; the comparison is reversed.\<close>

definition query :: "fpu \<Rightarrow> index \<Rightarrow> string \<Rightarrow> f32 list \<Rightarrow> nat \<Rightarrow> match_hit list" where
  "query F idx t q k =
     (case map_of idx t of
        None \<Rightarrow> []
      | Some vs \<Rightarrow>
          take k (sort_key (\<lambda>m. - total_key (mt_score m))
            (map (\<lambda>(i, v). \<lparr>mt_id = i, mt_score = cosine F q v\<rparr>) vs)))"

section \<open>Embedding\<close>

datatype semantic_error = EmbedHttp string | EmptyEmbedding | IndexError string

record enrichment =
  en_vector :: "f32 list"
  en_tags :: "string list"
  en_text :: "string option"

text \<open>
  The endpoint: the answer to a POST of the model, the content type and the base64 text of the
  bytes, or the failure of the request; absent \<open>tags\<close> and \<open>text\<close> are the defaults.
\<close>

record embedder =
  em_post :: "string \<Rightarrow> string \<Rightarrow> string \<Rightarrow> string \<Rightarrow> string + enrichment"
  em_base64 :: "bytes \<Rightarrow> string"
  em_url :: string
  em_model :: string

definition embed_request :: "embedder \<Rightarrow> string \<Rightarrow> bytes \<Rightarrow> semantic_error + enrichment" where
  "embed_request E ct b =
     try_then (map_err EmbedHttp (em_post E (em_url E) (em_model E) ct (em_base64 E b))) (\<lambda>resp.
       if en_vector resp = [] then Inl EmptyEmbedding else Inr resp)"

definition embed :: "embedder \<Rightarrow> string \<Rightarrow> bytes \<Rightarrow> semantic_error + f32 list" where
  "embed E ct b = try_then (embed_request E ct b) (\<lambda>resp. Inr (en_vector resp))"

definition embed_rich :: "embedder \<Rightarrow> string \<Rightarrow> bytes \<Rightarrow> semantic_error + enrichment" where
  "embed_rich E ct b = embed_request E ct b"

section \<open>Orchestration\<close>

record semantic =
  sm_embedder :: embedder
  sm_index :: index

record understanding =
  un_tags :: "string list"
  un_text :: "string option"

definition understand ::
  "string \<Rightarrow> hash \<Rightarrow> string \<Rightarrow> bytes \<Rightarrow> semantic \<Rightarrow> (semantic_error + understanding) \<times> semantic" where
  "understand t i ct b s =
     and_then (embed_rich (sm_embedder s) ct b, s) (\<lambda>en s.
       (Inr \<lparr>un_tags = en_tags en, un_text = en_text en\<rparr>,
        s\<lparr>sm_index := upsert t i (en_vector en) (sm_index s)\<rparr>))"

definition sem_search :: "fpu \<Rightarrow> semantic \<Rightarrow> string \<Rightarrow> bytes \<Rightarrow> string \<Rightarrow> nat \<Rightarrow> semantic_error + match_hit list" where
  "sem_search F s t q ct k =
     try_then (embed (sm_embedder s) ct q) (\<lambda>v. Inr (query F (sm_index s) t v k))"

section \<open>Lemmas\<close>

lemma upsert_lookup:
  "map_of (case map_of (upsert t i v idx) u of None \<Rightarrow> [] | Some vs \<Rightarrow> vs) j =
     (if u = t \<and> j = i then Some v
      else map_of (case map_of idx u of None \<Rightarrow> [] | Some vs \<Rightarrow> vs) j)"
  by (simp add: upsert_def update_conv')

lemma query_sorted: "sorted (map (\<lambda>m. - total_key (mt_score m)) (query F idx t q k))"
  by (auto simp: query_def take_map [symmetric] sorted_wrt_take split: option.splits)

lemma query_length: "length (query F idx t q k) \<le> k"
  by (simp add: query_def split: option.splits)

text \<open>A vector that is left out scores no better than any that is in.\<close>

lemma take_sorted_key:
  assumes "x \<in> set xs" "x \<notin> set (take k (sort_key f xs))" "y \<in> set (take k (sort_key f xs))"
  shows "f y \<le> f x"
proof -
  let ?s = "sort_key f xs"
  have "set ?s = set (take k ?s) \<union> set (drop k ?s)" by (metis append_take_drop_id set_append)
  then have x: "x \<in> set (drop k ?s)" using assms(1,2) by auto
  have "sorted (map f (take k ?s @ drop k ?s))" by simp
  then show ?thesis using x assms(3) by (auto simp del: append_take_drop_id simp: sorted_append)
qed

end
