(* ===== verification/Native.thy ===== *)
theory Native
  imports Cdn Semantic
begin

text \<open>
  The native API (\<open>barme-native/src/lib.rs\<close>): Basic authentication, the three guards, every handler
  behind them and the table of routes. A handler gets what axum's extractors made of the request: the
  percent-decoded path parameters, the deserialized JSON body, the reader of a streamed body. A JSON
  answer is the value that is serialized. CORS, tracing, the body limit, the server loop and the text
  of the documentation page are left out.
\<close>

section \<open>State, answers, errors\<close>

text \<open>\<open>zip_entry_ok\<close> and \<open>zip_finish\<close>: whether the \<open>zip\<close> crate takes one more entry after those it has,
  and the archive it makes of them; \<open>http_get\<close>: the answer to a GET (\<open>reqwest\<close>), as the text of the
  failure, or the headers with the body or the failure to read it; \<open>bad_header\<close>: the error text of a
  response builder that was given an unusable header value; \<open>sem_text\<close>: that of a semantic error.\<close>

record net =
  base64_decode :: "string \<Rightarrow> bytes option"
  zip_entry_ok :: "(string \<times> bytes) list \<Rightarrow> string \<Rightarrow> bytes \<Rightarrow> bool"
  zip_finish :: "(string \<times> bytes) list \<Rightarrow> bytes option"
  http_get :: "string \<Rightarrow> string + (headers \<times> (string + bytes))"
  bad_header :: string
  sem_text :: "semantic_error \<Rightarrow> string"

record app_state =
  as_engine :: engine
  as_semantic :: "semantic option"
  cdn_base :: string
  as_max_upload :: nat
  as_started :: nat

datatype native_error = NEngine engine_error | NSemantic semantic_error | Forbidden | NInternal string

text \<open>The value of a JSON answer, one constructor per shape.\<close>

datatype answer =
    AStats stats_report
  | AKeys "(string \<times> bool \<times> string list \<times> string) list"
  | APots "(string \<times> bool \<times> nat) list"
  | AObjects "(string \<times> nat \<times> nat) list"
  | AConfig bucket_config
  | AUploaded string
  | AIds "string list"
  | AManifest manifest
  | AHits "(string \<times> f32 \<times> string option \<times> string option) list"
  | AAnnotation annotation
  | ADiff diff_report
  | AVerified bool
  | AUrl string
  | AWebhooks "webhook list"
  | AWebhook webhook
  | AHealth nat nat nat nat
  | AReady bool "string option"
  | AProof chunk_proof
  | ADelta delta_report
  | APlan manifest "string list"

datatype reply = Plain response | Json nat answer

definition native_status :: "native_error \<Rightarrow> nat" where
  "native_status err =
     (case err of
        NEngine e \<Rightarrow>
          (case e of
             Locked b k u \<Rightarrow> 409
           | InvalidKey m \<Rightarrow> 400
           | TooLarge n \<Rightarrow> 413
           | Upload io \<Rightarrow> 400
           | _ \<Rightarrow> if is_bad_input e then 400 else 500)
      | NSemantic e \<Rightarrow> 500
      | Forbidden \<Rightarrow> 403
      | NInternal m \<Rightarrow> 500)"

definition native_error_reply :: "web \<Rightarrow> net \<Rightarrow> native_error \<Rightarrow> reply" where
  "native_error_reply W N err =
     Plain (text_response (native_status err)
       (case err of
          NEngine e \<Rightarrow> err_text W e | NSemantic e \<Rightarrow> sem_text N e | Forbidden \<Rightarrow> ''access denied'' | NInternal m \<Rightarrow> m))"

abbreviation no_content :: reply where "no_content \<equiv> Plain (bare 204)"
abbreviation not_found :: reply where "not_found \<equiv> Plain (bare 404)"

definition bad_request :: "string \<Rightarrow> reply" where
  "bad_request m = Plain (text_response 400 m)"

text \<open>An engine call inside a handler.\<close>

definition run_engine :: "(engine_error + 'a) \<times> engine \<Rightarrow> (native_error + 'a) \<times> engine" where
  "run_engine r = (map_err NEngine (fst r), snd r)"

definition ask :: "engine_error + 'a \<Rightarrow> engine \<Rightarrow> (native_error + 'a) \<times> engine" where
  "ask r e = (map_err NEngine r, e)"

section \<open>Callers and guards\<close>

record caller =
  cl_open :: bool
  cl_record :: "key_record option"

definition basic :: "web \<Rightarrow> net \<Rightarrow> headers \<Rightarrow> (string \<times> string) option" where
  "basic W N hs =
     Option.bind (header_text W hs ''authorization'') (\<lambda>v.
     Option.bind (strip_prefix ''Basic '' v) (\<lambda>b64.
     Option.bind (base64_decode N (trim b64)) (\<lambda>b.
     Option.bind (from_utf8 b) (split_once CHR '':''))))"

definition caller_of :: "ext \<Rightarrow> web \<Rightarrow> net \<Rightarrow> engine \<Rightarrow> headers \<Rightarrow> caller" where
  "caller_of X W N e hs =
     (let ks = (case list_keys X e of Inl err \<Rightarrow> [] | Inr ks \<Rightarrow> ks) in
      if ks = [] then \<lparr>cl_open = True, cl_record = None\<rparr>
      else
        let creds = from_records ks in
        \<lparr>cl_open = False,
         cl_record =
           Option.bind (basic W N hs) (\<lambda>(access, secret).
             case creds_record creds access of
               Some r \<Rightarrow> if secret_eq (secret_key r) secret then Some r else None
             | None \<Rightarrow> None)\<rparr>)"

definition require_owner :: "caller \<Rightarrow> native_error + unit" where
  "require_owner c =
     (if cl_open c \<or> (case cl_record c of None \<Rightarrow> False | Some k \<Rightarrow> is_owner k) then Inr () else Inl Forbidden)"

definition require_write :: "caller \<Rightarrow> string \<Rightarrow> native_error + unit" where
  "require_write c pot =
     (if cl_open c \<or> authorize (cl_record c) Write pot False then Inr () else Inl Forbidden)"

definition require_read :: "ext \<Rightarrow> engine \<Rightarrow> caller \<Rightarrow> string \<Rightarrow> native_error + unit" where
  "require_read X e c pot =
     (let public = (case is_public X e pot of Inl err \<Rightarrow> False | Inr p \<Rightarrow> p) in
      if cl_open c \<or> authorize (cl_record c) Read pot public then Inr () else Inl Forbidden)"

section \<open>Keys and pots\<close>

definition n_stats :: "ext \<Rightarrow> caller \<Rightarrow> engine \<Rightarrow> native_error + reply" where
  "n_stats X c e =
     try_then (require_owner c) (\<lambda>_.
     map_err NEngine (try_then (stats X e) (\<lambda>s. Inr (Json 200 (AStats s)))))"

definition n_list_keys :: "ext \<Rightarrow> caller \<Rightarrow> engine \<Rightarrow> native_error + reply" where
  "n_list_keys X c e =
     try_then (require_owner c) (\<lambda>_.
     map_err NEngine (try_then (list_keys X e) (\<lambda>ks.
       Inr (Json 200 (AKeys (map (\<lambda>k. (access_key k, read_only k, pots k, key_created_at k)) ks))))))"

record new_key =
  nk_access_key :: string
  nk_secret_key :: string
  nk_read_only :: bool
  nk_pots :: "string list"

definition n_create_key :: "ext \<Rightarrow> caller \<Rightarrow> bytes option \<Rightarrow> string \<Rightarrow> new_key \<Rightarrow> engine \<Rightarrow> (native_error + reply) \<times> engine" where
  "n_create_key X c nonce now_text nk e =
     and_then (require_owner c, e) (\<lambda>_ e.
     and_then (run_engine (create_key X nonce now_text
       \<lparr>access_key = nk_access_key nk, secret_key = nk_secret_key nk, read_only = nk_read_only nk,
        pots = nk_pots nk, key_created_at = []\<rparr> e)) (\<lambda>_ e. (Inr no_content, e)))"

definition n_delete_key :: "ext \<Rightarrow> caller \<Rightarrow> string \<Rightarrow> engine \<Rightarrow> (native_error + reply) \<times> engine" where
  "n_delete_key X c access e =
     and_then (require_owner c, e) (\<lambda>_ e.
     and_then (run_engine (delete_key X access e)) (\<lambda>_ e. (Inr no_content, e)))"

fun pot_infos :: "ext \<Rightarrow> engine \<Rightarrow> string list \<Rightarrow> engine_error + (string \<times> bool \<times> nat) list" where
  "pot_infos X e [] = Inr []"
| "pot_infos X e (b # bs) =
     try_then (is_public X e b) (\<lambda>p.
     try_then (keys X e b) (\<lambda>ks.
     try_then (pot_infos X e bs) (\<lambda>rest. Inr ((b, p, length ks) # rest))))"

definition n_list_buckets :: "ext \<Rightarrow> caller \<Rightarrow> engine \<Rightarrow> native_error + reply" where
  "n_list_buckets X c e =
     try_then (require_owner c) (\<lambda>_.
     map_err NEngine (try_then (buckets e) (\<lambda>bs.
       try_then (pot_infos X e bs) (\<lambda>out. Inr (Json 200 (APots out))))))"

fun object_infos :: "ext \<Rightarrow> engine \<Rightarrow> string \<Rightarrow> string list \<Rightarrow> engine_error + (string \<times> nat \<times> nat) list" where
  "object_infos X e b [] = Inr []"
| "object_infos X e b (k # ks) =
     try_then (current_manifest X e b k) (\<lambda>m.
     try_then (eng_history X e b k) (\<lambda>h.
     try_then (object_infos X e b ks) (\<lambda>rest.
       Inr ((k, (case m of None \<Rightarrow> 0 | Some m \<Rightarrow> size_bytes (original m)), length h) # rest))))"

definition n_list_objects :: "ext \<Rightarrow> caller \<Rightarrow> string \<Rightarrow> engine \<Rightarrow> native_error + reply" where
  "n_list_objects X c b e =
     try_then (require_read X e c b) (\<lambda>_.
     map_err NEngine (try_then (keys X e b) (\<lambda>ks.
       try_then (object_infos X e b ks) (\<lambda>out. Inr (Json 200 (AObjects out))))))"

definition n_set_visibility :: "ext \<Rightarrow> caller \<Rightarrow> string \<Rightarrow> bool \<Rightarrow> engine \<Rightarrow> (native_error + reply) \<times> engine" where
  "n_set_visibility X c b public e =
     and_then (require_owner c, e) (\<lambda>_ e.
     and_then (ask (get_bucket_config X e b) e) (\<lambda>cfg e.
     and_then (run_engine (set_bucket_config X b (cfg\<lparr>public_read := public\<rparr>) e)) (\<lambda>_ e. (Inr no_content, e))))"

definition n_get_config :: "ext \<Rightarrow> caller \<Rightarrow> string \<Rightarrow> engine \<Rightarrow> native_error + reply" where
  "n_get_config X c b e =
     try_then (require_owner c) (\<lambda>_.
     map_err NEngine (try_then (get_bucket_config X e b) (\<lambda>c. Inr (Json 200 (AConfig c)))))"

definition n_put_config :: "ext \<Rightarrow> caller \<Rightarrow> string \<Rightarrow> bucket_config \<Rightarrow> engine \<Rightarrow> (native_error + reply) \<times> engine" where
  "n_put_config X c b cfg e =
     and_then (require_owner c, e) (\<lambda>_ e.
     and_then (run_engine (set_bucket_config X b cfg e)) (\<lambda>_ e. (Inr no_content, e)))"

definition n_rename_bucket :: "ext \<Rightarrow> caller \<Rightarrow> string \<Rightarrow> string \<Rightarrow> engine \<Rightarrow> (native_error + reply) \<times> engine" where
  "n_rename_bucket X c b new e =
     and_then (require_owner c, e) (\<lambda>_ e.
     and_then (run_engine (rename_bucket X b new e)) (\<lambda>_ e. (Inr no_content, e)))"

definition n_delete_bucket :: "ext \<Rightarrow> caller \<Rightarrow> string \<Rightarrow> engine \<Rightarrow> (native_error + reply) \<times> engine" where
  "n_delete_bucket X c b e =
     and_then (require_owner c, e) (\<lambda>_ e.
     and_then (run_engine (delete_bucket X b e)) (\<lambda>_ e. (Inr no_content, e)))"

record move_copy =
  from_bucket :: string
  from_key :: string
  to_bucket :: string
  to_key :: string

definition n_copy_object :: "ext \<Rightarrow> caller \<Rightarrow> move_copy \<Rightarrow> engine \<Rightarrow> (native_error + reply) \<times> engine" where
  "n_copy_object X c m e =
     and_then (require_owner c, e) (\<lambda>_ e.
     and_then (run_engine (copy_object X (from_bucket m) (from_key m) (to_bucket m) (to_key m) e)) (\<lambda>ok e.
       (Inr (if ok then no_content else not_found), e)))"

definition n_move_object :: "ext \<Rightarrow> caller \<Rightarrow> move_copy \<Rightarrow> engine \<Rightarrow> (native_error + reply) \<times> engine" where
  "n_move_object X c m e =
     and_then (require_owner c, e) (\<lambda>_ e.
     and_then (run_engine (move_object X (from_bucket m) (from_key m) (to_bucket m) (to_key m) e)) (\<lambda>ok e.
       (Inr (if ok then no_content else not_found), e)))"

end
