(* ===== verification/Native_Objects.thy ===== *)
theory Native_Objects
  imports Native
begin

text \<open>
  The native API's handlers for objects, their versions and annotations, search, share links, import
  and archives, webhooks, health and metrics, proofs and replication; then the table of routes as one
  function from operations to handlers. \<open>now\<close> is the clock in seconds.
\<close>

section \<open>Objects\<close>

definition n_upload ::
  "ext \<Rightarrow> web \<Rightarrow> caller \<Rightarrow> nat \<Rightarrow> string \<Rightarrow> string \<Rightarrow> headers \<Rightarrow> reader \<Rightarrow> nat \<Rightarrow> nat \<Rightarrow> engine
     \<Rightarrow> (native_error + reply) \<times> engine" where
  "n_upload X W c mx b k hs r now t e =
     and_then (require_write c b, e) (\<lambda>_ e.
       let ct = (case header_text W hs ''content-type'' of None \<Rightarrow> ''application/octet-stream'' | Some v \<Rightarrow> v) in
       and_then (run_engine (put_stream X b k r ct mx now t e)) (\<lambda>i e.
         (Inr (Json 200 (AUploaded (show_hash X i))), e)))"

text \<open>The streamed answer; an unusable content type fails the builder.\<close>

definition stream_object ::
  "ext \<Rightarrow> web \<Rightarrow> net \<Rightarrow> engine \<Rightarrow> string \<Rightarrow> nat \<Rightarrow> string \<Rightarrow> hash list \<Rightarrow> native_error + reply" where
  "stream_object X W N e ct len codec_name hs =
     (if \<not> hv_ok W ct then Inl (NInternal (bad_header N))
      else Inr (Plain
        \<lparr>status = 200, resp_headers = [(''content-type'', ct), (''content-length'', show_nat len)],
         resp_body = Pieces (map (\<lambda>h. read_chunk X e h codec_name) hs)\<rparr>))"

definition n_download :: "ext \<Rightarrow> web \<Rightarrow> net \<Rightarrow> caller \<Rightarrow> string \<Rightarrow> string \<Rightarrow> engine \<Rightarrow> native_error + reply" where
  "n_download X W N c b k e =
     try_then (require_read X e c b) (\<lambda>_.
     try_then (map_err NEngine (object_head X e b k)) (\<lambda>h.
       case h of
         None \<Rightarrow> Inr not_found
       | Some (ct, len, codec_name, hs) \<Rightarrow> stream_object X W N e ct len codec_name hs))"

definition n_remove :: "ext \<Rightarrow> caller \<Rightarrow> string \<Rightarrow> string \<Rightarrow> nat \<Rightarrow> engine \<Rightarrow> (native_error + reply) \<times> engine" where
  "n_remove X c b k now e =
     and_then (require_write c b, e) (\<lambda>_ e.
     and_then (run_engine (delete_object X b k now e)) (\<lambda>_ e. (Inr no_content, e)))"

definition n_history :: "ext \<Rightarrow> caller \<Rightarrow> string \<Rightarrow> string \<Rightarrow> engine \<Rightarrow> native_error + reply" where
  "n_history X c b k e =
     try_then (require_read X e c b) (\<lambda>_.
     try_then (map_err NEngine (eng_history X e b k)) (\<lambda>ids. Inr (Json 200 (AIds (map (show_hash X) ids)))))"

definition n_manifest :: "ext \<Rightarrow> caller \<Rightarrow> string \<Rightarrow> string \<Rightarrow> engine \<Rightarrow> native_error + reply" where
  "n_manifest X c b k e =
     try_then (require_read X e c b) (\<lambda>_.
     try_then (map_err NEngine (current_manifest X e b k)) (\<lambda>m.
       Inr (case m of Some m \<Rightarrow> Json 200 (AManifest m) | None \<Rightarrow> not_found)))"

definition n_content :: "ext \<Rightarrow> web \<Rightarrow> net \<Rightarrow> caller \<Rightarrow> string \<Rightarrow> engine \<Rightarrow> native_error + reply" where
  "n_content X W N c h e =
     try_then (require_owner c) (\<lambda>_.
       case parse_hash X h of
         Inl err \<Rightarrow> Inr (bad_request ''malformed content hash'')
       | Inr i \<Rightarrow>
           try_then (map_err NEngine (object_manifest X e i)) (\<lambda>m.
             case m of
               None \<Rightarrow> Inr not_found
             | Some m \<Rightarrow>
                 stream_object X W N e (content_type (original m)) (size_bytes (original m))
                   (codec (storage m)) (chunks (chunking m))))"

section \<open>Search\<close>

definition default_k :: nat where "default_k = 10"

definition enrich :: "ext \<Rightarrow> engine \<Rightarrow> match_hit list \<Rightarrow> (string \<times> f32 \<times> string option \<times> string option) list" where
  "enrich X e hits =
     map (\<lambda>m.
       let loc = (case locations X e (mt_id m) of Inl err \<Rightarrow> None | Inr [] \<Rightarrow> None | Inr (l # _) \<Rightarrow> Some l) in
       (show_hash X (mt_id m), mt_score m, map_option fst loc, map_option snd loc)) hits"

definition not_configured :: reply where
  "not_configured = Plain (text_response 501 ''semantic search not configured'')"

text \<open>The body deserializes to query, \<open>k\<close> and tenant, the last two defaulted, or not at all.\<close>

definition n_search ::
  "ext \<Rightarrow> fpu \<Rightarrow> caller \<Rightarrow> semantic option \<Rightarrow> (string \<times> nat \<times> string) option \<Rightarrow> engine \<Rightarrow> native_error + reply" where
  "n_search X F c sem req e =
     try_then (require_owner c) (\<lambda>_.
       case sem of
         None \<Rightarrow> Inr not_configured
       | Some s \<Rightarrow>
           (case req of
              None \<Rightarrow> Inr (bad_request ''expected {query, k?, tenant?}'')
            | Some (q, k, tnt) \<Rightarrow>
                try_then (map_err NSemantic (sem_search F s tnt (as_bytes q) ''text/plain'' k)) (\<lambda>hits.
                  Inr (Json 200 (AHits (enrich X e hits))))))"

definition n_similar :: "ext \<Rightarrow> fpu \<Rightarrow> caller \<Rightarrow> semantic option \<Rightarrow> string \<Rightarrow> engine \<Rightarrow> native_error + reply" where
  "n_similar X F c sem h e =
     try_then (require_owner c) (\<lambda>_.
       case sem of
         None \<Rightarrow> Inr not_configured
       | Some s \<Rightarrow>
           (case parse_hash X h of
              Inl err \<Rightarrow> Inr (bad_request ''malformed content hash'')
            | Inr i \<Rightarrow>
                try_then (map_err NEngine (object_manifest X e i)) (\<lambda>m.
                  case m of
                    None \<Rightarrow> Inr not_found
                  | Some m \<Rightarrow>
                      try_then (map_err NEngine (read_object X e i)) (\<lambda>b.
                      try_then (map_err NSemantic (sem_search F s (tenant m) b (content_type (original m)) default_k))
                        (\<lambda>hits. Inr (Json 200 (AHits (enrich X e hits))))))))"

section \<open>Annotations, versions, integrity\<close>

definition n_get_meta :: "ext \<Rightarrow> caller \<Rightarrow> string \<Rightarrow> string \<Rightarrow> engine \<Rightarrow> native_error + reply" where
  "n_get_meta X c b k e =
     try_then (require_read X e c b) (\<lambda>_.
     try_then (map_err NEngine (get_annotation X e b k)) (\<lambda>a. Inr (Json 200 (AAnnotation a))))"

definition n_put_meta ::
  "ext \<Rightarrow> caller \<Rightarrow> string \<Rightarrow> string \<Rightarrow> annotation \<Rightarrow> engine \<Rightarrow> (native_error + reply) \<times> engine" where
  "n_put_meta X c b k a e =
     and_then (require_write c b, e) (\<lambda>_ e.
     and_then (run_engine (set_annotation X b k a e)) (\<lambda>_ e. (Inr no_content, e)))"

definition n_restore ::
  "ext \<Rightarrow> caller \<Rightarrow> string \<Rightarrow> string \<Rightarrow> string \<Rightarrow> nat \<Rightarrow> engine \<Rightarrow> (native_error + reply) \<times> engine" where
  "n_restore X c b k id_text now e =
     and_then (require_write c b, e) (\<lambda>_ e.
       case parse_hash X id_text of
         Inl err \<Rightarrow> (Inr (bad_request ''malformed object_id''), e)
       | Inr i \<Rightarrow> and_then (run_engine (restore_version X b k i now e)) (\<lambda>_ e. (Inr no_content, e)))"

text \<open>The two hashes of a \<open>DiffQuery\<close>, or the answer when one is malformed.\<close>

definition two_hashes :: "ext \<Rightarrow> string \<Rightarrow> string \<Rightarrow> (hash \<Rightarrow> hash \<Rightarrow> native_error + reply) \<Rightarrow> native_error + reply" where
  "two_hashes X a b f =
     (case (parse_hash X a, parse_hash X b) of
        (Inr x, Inr y) \<Rightarrow> f x y
      | _ \<Rightarrow> Inr (bad_request ''malformed a or b object_id''))"

definition n_diff :: "ext \<Rightarrow> caller \<Rightarrow> string \<Rightarrow> string \<Rightarrow> string \<Rightarrow> engine \<Rightarrow> native_error + reply" where
  "n_diff X c b h1 h2 e =
     try_then (require_read X e c b) (\<lambda>_. two_hashes X h1 h2 (\<lambda>x y.
       try_then (map_err NEngine (diff X e x y)) (\<lambda>d. Inr (Json 200 (ADiff d)))))"

definition n_verify :: "ext \<Rightarrow> caller \<Rightarrow> string \<Rightarrow> string \<Rightarrow> engine \<Rightarrow> native_error + reply" where
  "n_verify X c b k e =
     try_then (require_read X e c b) (\<lambda>_.
     try_then (map_err NEngine (verify_object X e b k)) (\<lambda>ok. Inr (Json 200 (AVerified ok))))"

text \<open>\<open>now_unix() + req.expires_secs\<close> wraps in a release build.\<close>

definition expiry_of :: "nat \<Rightarrow> nat \<Rightarrow> nat" where
  "expiry_of now expires_secs = unat (word_of_nat now + word_of_nat expires_secs :: u64)"

definition n_presign ::
  "ext \<Rightarrow> caller \<Rightarrow> string \<Rightarrow> string \<Rightarrow> string \<Rightarrow> nat \<Rightarrow> nat \<Rightarrow> engine \<Rightarrow> native_error + reply" where
  "n_presign X c base b k expires_secs now e =
     try_then (require_read X e c b) (\<lambda>_.
       case signing_secret X e of
         None \<Rightarrow> Inr (Plain (text_response 501 ''no signing secret (open mode); presigning needs an owner key''))
       | Some secret \<Rightarrow>
           let expiry = expiry_of now expires_secs;
               sig = presign X secret b k expiry in
           Inr (Json 200 (AUrl (base @ ''/s/'' @ b @ ''/'' @ k @ ''?exp='' @ show_nat expiry @ ''&sig='' @ sig))))"

section \<open>Import and archives\<close>

definition n_import ::
  "ext \<Rightarrow> web \<Rightarrow> net \<Rightarrow> caller \<Rightarrow> string \<Rightarrow> string \<Rightarrow> string \<Rightarrow> nat \<Rightarrow> nat \<Rightarrow> engine \<Rightarrow> (native_error + reply) \<times> engine" where
  "n_import X W N c b url k now t e =
     and_then (require_write c b, e) (\<lambda>_ e.
       case http_get N url of
         Inl err \<Rightarrow> (Inr (Plain (text_response 502 (''fetch failed: '' @ err))), e)
       | Inr (hs, fetched) \<Rightarrow>
           let ct = (case header_text W hs ''content-type'' of None \<Rightarrow> ''application/octet-stream'' | Some v \<Rightarrow> v) in
           (case fetched of
              Inl err \<Rightarrow> (Inr (Plain (text_response 502 (''read failed: '' @ err))), e)
            | Inr content \<Rightarrow>
                and_then (run_engine (put X b k content ct now t e)) (\<lambda>i e.
                  (Inr (Json 200 (AUploaded (show_hash X i))), e))))"

text \<open>The archive's entries so far, or the answer that ends the loop.\<close>

fun zip_entries ::
  "ext \<Rightarrow> net \<Rightarrow> engine \<Rightarrow> string \<Rightarrow> string list \<Rightarrow> (string \<times> bytes) list \<Rightarrow> engine_error + (string \<times> bytes) list option" where
  "zip_entries X N e b [] es = Inr (Some es)"
| "zip_entries X N e b (k # ks) es =
     try_then (get X e b k) (\<lambda>r.
       case r of
         None \<Rightarrow> zip_entries X N e b ks es
       | Some content \<Rightarrow>
           if zip_entry_ok N es k content then zip_entries X N e b ks (es @ [(k, content)]) else Inr None)"

definition n_zip_objects :: "ext \<Rightarrow> net \<Rightarrow> caller \<Rightarrow> string \<Rightarrow> string \<Rightarrow> engine \<Rightarrow> native_error + reply" where
  "n_zip_objects X N c b names e =
     try_then (require_read X e c b) (\<lambda>_.
     try_then (map_err NEngine (zip_entries X N e b (filter (\<lambda>k. k \<noteq> []) (split_on CHR '','' names)) [])) (\<lambda>r.
       Inr (case r of
              None \<Rightarrow> Plain (text_response 500 ''zip write failed'')
            | Some es \<Rightarrow>
                (case zip_finish N es of
                   None \<Rightarrow> Plain (text_response 500 ''zip finalize failed'')
                 | Some buf \<Rightarrow>
                     Plain \<lparr>status = 200,
                       resp_headers = [(''content-type'', ''application/zip''),
                         (''content-disposition'', ''attachment; filename=\"barme.zip\"''),
                         (''content-length'', show_nat (length buf))],
                       resp_body = Full buf\<rparr>))))"

section \<open>Webhooks\<close>

definition n_list_webhooks :: "ext \<Rightarrow> caller \<Rightarrow> engine \<Rightarrow> native_error + reply" where
  "n_list_webhooks X c e =
     try_then (require_owner c) (\<lambda>_.
     try_then (map_err NEngine (list_webhooks X e)) (\<lambda>hs. Inr (Json 200 (AWebhooks hs))))"

definition n_create_webhook ::
  "ext \<Rightarrow> caller \<Rightarrow> string \<Rightarrow> string list \<Rightarrow> nat \<Rightarrow> engine \<Rightarrow> (native_error + reply) \<times> engine" where
  "n_create_webhook X c url evs now e =
     and_then (require_owner c, e) (\<lambda>_ e.
       let hook = \<lparr>hook_id = take 16 (to_hex X (hash_of X (as_bytes (url @ '':'' @ show_nat now)))),
                   hook_url = url, hook_events = evs\<rparr> in
       and_then (run_engine (add_webhook X hook e)) (\<lambda>_ e. (Inr (Json 200 (AWebhook hook)), e)))"

definition n_delete_webhook :: "ext \<Rightarrow> caller \<Rightarrow> string \<Rightarrow> engine \<Rightarrow> (native_error + reply) \<times> engine" where
  "n_delete_webhook X c i e =
     and_then (require_owner c, e) (\<lambda>_ e.
     and_then (run_engine (delete_webhook X i e)) (\<lambda>_ e. (Inr no_content, e)))"

section \<open>Health and metrics\<close>

definition n_health :: "ext \<Rightarrow> nat \<Rightarrow> nat \<Rightarrow> engine \<Rightarrow> native_error + reply" where
  "n_health X started now e =
     try_then (map_err NEngine (stats X e)) (\<lambda>s.
       Inr (Json 200 (AHealth (st_objects s) (st_buckets s) (st_unique_chunks s) (now - started))))"

definition n_ready :: "ext \<Rightarrow> web \<Rightarrow> engine \<Rightarrow> reply" where
  "n_ready X W e =
     (case list_keys X e of
        Inr ks \<Rightarrow> Json 200 (AReady True None)
      | Inl err \<Rightarrow> Json 503 (AReady False (Some (err_text W err))))"

definition metric_text :: "string \<Rightarrow> string \<Rightarrow> string \<Rightarrow> nat \<Rightarrow> string" where
  "metric_text name help kind v =
     ''# HELP '' @ name @ '' '' @ help @ [CHR 0x0A] @ ''# TYPE '' @ name @ '' '' @ kind @ [CHR 0x0A] @
     name @ '' '' @ show_nat v @ [CHR 0x0A]"

definition metrics_body :: "stats_report \<Rightarrow> gc_stats_report \<Rightarrow> string" where
  "metrics_body s g =
     metric_text ''barme_objects'' ''Number of live objects.'' ''gauge'' (st_objects s) @
     metric_text ''barme_pots'' ''Number of pots holding at least one object.'' ''gauge'' (st_buckets s) @
     metric_text ''barme_unique_chunks'' ''Number of unique stored chunks.'' ''gauge'' (st_unique_chunks s) @
     metric_text ''barme_logical_bytes'' ''Sum of current object sizes (pre-dedup).'' ''gauge'' (st_logical_bytes s) @
     metric_text ''barme_physical_bytes'' ''Deduplicated, compressed bytes on disk.'' ''gauge'' (st_physical_bytes s) @
     metric_text ''barme_gc_sweeps_total'' ''GC sweeps run since start.'' ''counter'' (unat (gs_sweeps g)) @
     metric_text ''barme_gc_condemned_total'' ''Chunks condemned since start.'' ''counter'' (unat (gs_condemned_total g)) @
     metric_text ''barme_gc_erased_total'' ''Chunks erased (reclaimed) since start.'' ''counter'' (unat (gs_erased_total g)) @
     metric_text ''barme_gc_last_live'' ''Reachable chunks seen by the last sweep.'' ''gauge'' (unat (gs_last_live g))"

definition n_metrics :: "ext \<Rightarrow> caller \<Rightarrow> engine \<Rightarrow> native_error + reply" where
  "n_metrics X c e =
     try_then (require_owner c) (\<lambda>_.
     try_then (map_err NEngine (stats X e)) (\<lambda>s.
       Inr (Plain \<lparr>status = 200, resp_headers = [(''content-type'', ''text/plain; version=0.0.4'')],
                   resp_body = Full (as_bytes (metrics_body s (gc_stats e)))\<rparr>)))"

section \<open>Proofs and replication\<close>

definition n_proof :: "ext \<Rightarrow> caller \<Rightarrow> string \<Rightarrow> string \<Rightarrow> nat \<Rightarrow> engine \<Rightarrow> native_error + reply" where
  "n_proof X c b k i e =
     try_then (require_read X e c b) (\<lambda>_.
     try_then (map_err NEngine (prove_chunk X e b k i)) (\<lambda>p.
       Inr (case p of Some p \<Rightarrow> Json 200 (AProof p) | None \<Rightarrow> not_found)))"

definition n_delta :: "ext \<Rightarrow> caller \<Rightarrow> string \<Rightarrow> string \<Rightarrow> string \<Rightarrow> engine \<Rightarrow> native_error + reply" where
  "n_delta X c b h1 h2 e =
     try_then (require_read X e c b) (\<lambda>_. two_hashes X h1 h2 (\<lambda>x y.
       try_then (map_err NEngine (delta X e x y)) (\<lambda>d. Inr (Json 200 (ADelta d)))))"

definition n_object_by_id :: "ext \<Rightarrow> caller \<Rightarrow> string \<Rightarrow> engine \<Rightarrow> native_error + reply" where
  "n_object_by_id X c i e =
     try_then (require_owner c) (\<lambda>_.
       case parse_hash X i of
         Inl err \<Rightarrow> Inr (bad_request ''malformed object_id'')
       | Inr oid \<Rightarrow>
           try_then (map_err NEngine (object_manifest X e oid)) (\<lambda>m.
             Inr (case m of Some m \<Rightarrow> Json 200 (AManifest m) | None \<Rightarrow> not_found)))"

definition with_bytes :: "web \<Rightarrow> string \<Rightarrow> bytes \<Rightarrow> reply" where
  "with_bytes W ct b =
     Plain \<lparr>status = 200,
       resp_headers = [(''content-type'', if hv_ok W ct then ct else ''application/octet-stream''),
                       (''content-length'', show_nat (length b))],
       resp_body = Full b\<rparr>"

definition n_chunk_get :: "ext \<Rightarrow> web \<Rightarrow> caller \<Rightarrow> string \<Rightarrow> engine \<Rightarrow> native_error + reply" where
  "n_chunk_get X W c h e =
     try_then (require_owner c) (\<lambda>_.
       case parse_hash X h of
         Inl err \<Rightarrow> Inr (bad_request ''malformed chunk hash'')
       | Inr i \<Rightarrow>
           try_then (map_err NEngine (chunk_bytes X e i)) (\<lambda>r.
             Inr (case r of Some b \<Rightarrow> with_bytes W ''application/octet-stream'' b | None \<Rightarrow> not_found)))"

text \<open>The bytes are stored before their hash is compared with the one asked for.\<close>

definition n_chunk_put :: "ext \<Rightarrow> caller \<Rightarrow> string \<Rightarrow> bytes \<Rightarrow> engine \<Rightarrow> (native_error + reply) \<times> engine" where
  "n_chunk_put X c h content e =
     and_then (require_owner c, e) (\<lambda>_ e.
       case parse_hash X h of
         Inl err \<Rightarrow> (Inr (bad_request ''malformed chunk hash''), e)
       | Inr want \<Rightarrow>
           and_then (run_engine (put_chunk_bytes X content e)) (\<lambda>got e.
             (Inr (if got \<noteq> want then bad_request ''chunk hash does not match body'' else no_content), e)))"

definition sync_missing :: "ext \<Rightarrow> manifest \<Rightarrow> string list \<Rightarrow> string list" where
  "sync_missing X m have_text =
     (let held = List.map_filter (\<lambda>s. case parse_hash X s of Inl err \<Rightarrow> None | Inr h \<Rightarrow> Some h) have_text in
      map (show_hash X) (filter (\<lambda>h. h \<notin> set held) (chunks (chunking m))))"

definition n_sync_plan :: "ext \<Rightarrow> caller \<Rightarrow> string \<Rightarrow> string list \<Rightarrow> engine \<Rightarrow> native_error + reply" where
  "n_sync_plan X c i have_text e =
     try_then (require_owner c) (\<lambda>_.
       case parse_hash X i of
         Inl err \<Rightarrow> Inr (bad_request ''malformed object_id'')
       | Inr oid \<Rightarrow>
           try_then (map_err NEngine (object_manifest X e oid)) (\<lambda>m.
             Inr (case m of Some m \<Rightarrow> Json 200 (APlan m (sync_missing X m have_text)) | None \<Rightarrow> not_found)))"

definition n_import_object ::
  "ext \<Rightarrow> caller \<Rightarrow> string \<Rightarrow> string \<Rightarrow> manifest \<Rightarrow> nat \<Rightarrow> engine \<Rightarrow> (native_error + reply) \<times> engine" where
  "n_import_object X c b k m now e =
     and_then (require_write c b, e) (\<lambda>_ e.
     and_then (run_engine (import_object X b k m now e)) (\<lambda>i e. (Inr (Json 200 (AUploaded (show_hash X i))), e)))"

section \<open>Routes\<close>

text \<open>One operation per route and method, with what the extractors pass on: those about the store as a
  whole that only read, those about one pot or object that only read, and those that write.\<close>

datatype store_query =
    OpHealth | OpReady | OpMetrics | OpStats | OpListKeys | OpListWebhooks | OpListPots
  | OpContent string | OpSearch "(string \<times> nat \<times> string) option" | OpSimilar string
  | OpObject string | OpChunkGet string | OpSyncPlan string "string list" | OpGetConfig string

datatype pot_query =
    OpListObjects string | OpZip string string
  | OpDownload string string | OpHistory string string | OpManifest string string
  | OpGetMeta string string | OpDiff string string string | OpVerify string string
  | OpPresign string string nat | OpProof string string nat | OpDelta string string string

datatype owner_op =
    OpCreateKey new_key | OpDeleteKey string
  | OpCreateWebhook string "string list" | OpDeleteWebhook string
  | OpDeletePot string | OpRenamePot string string | OpSetVisibility string bool
  | OpPutConfig string bucket_config | OpCopy move_copy | OpMove move_copy | OpChunkPut string bytes

datatype writer_op =
    OpImport string string string | OpUpload string string reader | OpRemove string string
  | OpPutMeta string string annotation | OpRestore string string string
  | OpImportObject string string manifest

datatype native_op =
    StoreQuery store_query | PotQuery pot_query | OwnerOp owner_op | WriterOp writer_op

text \<open>The clock as seconds, as text and as the instant that \<open>created_at\<close> records, and the nonce a
  new key is sealed with.\<close>

record moment =
  mo_now :: nat
  mo_text :: string
  mo_instant :: nat
  mo_nonce :: "bytes option"

definition serve_store_query ::
  "ext \<Rightarrow> web \<Rightarrow> net \<Rightarrow> fpu \<Rightarrow> app_state \<Rightarrow> caller \<Rightarrow> moment \<Rightarrow> store_query \<Rightarrow> native_error + reply" where
  "serve_store_query X W N F st c mo oper =
     (let e = as_engine st in
      case oper of
        OpHealth \<Rightarrow> n_health X (as_started st) (mo_now mo) e
      | OpReady \<Rightarrow> Inr (n_ready X W e)
      | OpMetrics \<Rightarrow> n_metrics X c e
      | OpStats \<Rightarrow> n_stats X c e
      | OpListKeys \<Rightarrow> n_list_keys X c e
      | OpListWebhooks \<Rightarrow> n_list_webhooks X c e
      | OpListPots \<Rightarrow> n_list_buckets X c e
      | OpContent h \<Rightarrow> n_content X W N c h e
      | OpSearch req \<Rightarrow> n_search X F c (as_semantic st) req e
      | OpSimilar h \<Rightarrow> n_similar X F c (as_semantic st) h e
      | OpObject i \<Rightarrow> n_object_by_id X c i e
      | OpChunkGet h \<Rightarrow> n_chunk_get X W c h e
      | OpSyncPlan i had \<Rightarrow> n_sync_plan X c i had e
      | OpGetConfig b \<Rightarrow> n_get_config X c b e)"

definition serve_pot_query ::
  "ext \<Rightarrow> web \<Rightarrow> net \<Rightarrow> app_state \<Rightarrow> caller \<Rightarrow> moment \<Rightarrow> pot_query \<Rightarrow> native_error + reply" where
  "serve_pot_query X W N st c mo oper =
     (let e = as_engine st in
      case oper of
        OpListObjects b \<Rightarrow> n_list_objects X c b e
      | OpZip b names \<Rightarrow> n_zip_objects X N c b names e
      | OpDownload b k \<Rightarrow> n_download X W N c b k e
      | OpHistory b k \<Rightarrow> n_history X c b k e
      | OpManifest b k \<Rightarrow> n_manifest X c b k e
      | OpGetMeta b k \<Rightarrow> n_get_meta X c b k e
      | OpDiff b h1 h2 \<Rightarrow> n_diff X c b h1 h2 e
      | OpVerify b k \<Rightarrow> n_verify X c b k e
      | OpPresign b k secs \<Rightarrow> n_presign X c (cdn_base st) b k secs (mo_now mo) e
      | OpProof b k i \<Rightarrow> n_proof X c b k i e
      | OpDelta b h1 h2 \<Rightarrow> n_delta X c b h1 h2 e)"

definition serve_owner_op :: "ext \<Rightarrow> caller \<Rightarrow> moment \<Rightarrow> owner_op \<Rightarrow> engine \<Rightarrow> (native_error + reply) \<times> engine" where
  "serve_owner_op X c mo oper e =
     (case oper of
        OpCreateKey nk \<Rightarrow> n_create_key X c (mo_nonce mo) (mo_text mo) nk e
      | OpDeleteKey a \<Rightarrow> n_delete_key X c a e
      | OpCreateWebhook url evs \<Rightarrow> n_create_webhook X c url evs (mo_now mo) e
      | OpDeleteWebhook i \<Rightarrow> n_delete_webhook X c i e
      | OpDeletePot b \<Rightarrow> n_delete_bucket X c b e
      | OpRenamePot b new \<Rightarrow> n_rename_bucket X c b new e
      | OpSetVisibility b p \<Rightarrow> n_set_visibility X c b p e
      | OpPutConfig b cfg \<Rightarrow> n_put_config X c b cfg e
      | OpCopy m \<Rightarrow> n_copy_object X c m e
      | OpMove m \<Rightarrow> n_move_object X c m e
      | OpChunkPut h content \<Rightarrow> n_chunk_put X c h content e)"

definition serve_writer_op ::
  "ext \<Rightarrow> web \<Rightarrow> net \<Rightarrow> nat \<Rightarrow> caller \<Rightarrow> moment \<Rightarrow> headers \<Rightarrow> writer_op \<Rightarrow> engine \<Rightarrow> (native_error + reply) \<times> engine" where
  "serve_writer_op X W N mx c mo hs oper e =
     (case oper of
        OpImport b url k \<Rightarrow> n_import X W N c b url k (mo_now mo) (mo_instant mo) e
      | OpUpload b k r \<Rightarrow> n_upload X W c mx b k hs r (mo_now mo) (mo_instant mo) e
      | OpRemove b k \<Rightarrow> n_remove X c b k (mo_now mo) e
      | OpPutMeta b k a \<Rightarrow> n_put_meta X c b k a e
      | OpRestore b k i \<Rightarrow> n_restore X c b k i (mo_now mo) e
      | OpImportObject b k m \<Rightarrow> n_import_object X c b k m (mo_now mo) e)"

definition op_pot :: "writer_op \<Rightarrow> string" where
  "op_pot oper =
     (case oper of
        OpImport b url k \<Rightarrow> b | OpUpload b k r \<Rightarrow> b | OpRemove b k \<Rightarrow> b | OpPutMeta b k a \<Rightarrow> b
      | OpRestore b k i \<Rightarrow> b | OpImportObject b k m \<Rightarrow> b)"

text \<open>A request through the router: the caller is resolved, the handler run, its error rendered.\<close>

definition native_serve ::
  "ext \<Rightarrow> web \<Rightarrow> net \<Rightarrow> fpu \<Rightarrow> moment \<Rightarrow> headers \<Rightarrow> native_op \<Rightarrow> app_state \<Rightarrow> reply \<times> app_state" where
  "native_serve X W N F mo hs oper st =
     (let c = caller_of X W N (as_engine st) hs;
          e = as_engine st;
          (r, e') = (case oper of
            StoreQuery q \<Rightarrow> (serve_store_query X W N F st c mo q, e)
          | PotQuery q \<Rightarrow> (serve_pot_query X W N st c mo q, e)
          | OwnerOp w \<Rightarrow> serve_owner_op X c mo w e
          | WriterOp w \<Rightarrow> serve_writer_op X W N (as_max_upload st) c mo hs w e) in
      ((case r of Inl err \<Rightarrow> native_error_reply W N err | Inr rep \<Rightarrow> rep), st\<lparr>as_engine := e'\<rparr>))"

section \<open>Guards\<close>

lemma owner_op_guard: "require_owner c = Inl Forbidden \<Longrightarrow> serve_owner_op X c mo oper e = (Inl Forbidden, e)"
  by (cases oper)
    (simp_all add: serve_owner_op_def n_create_key_def n_delete_key_def n_create_webhook_def n_delete_webhook_def
      n_delete_bucket_def n_rename_bucket_def n_set_visibility_def n_put_config_def n_copy_object_def
      n_move_object_def n_chunk_put_def)

lemma writer_op_guard:
  "require_write c (op_pot oper) = Inl Forbidden \<Longrightarrow> serve_writer_op X W N mx c mo hs oper e = (Inl Forbidden, e)"
  by (cases oper)
    (simp_all add: serve_writer_op_def op_pot_def n_import_def n_upload_def n_remove_def n_put_meta_def n_restore_def
      n_import_object_def)

lemma pot_query_guard:
  "require_read X (as_engine st) c b = Inl Forbidden \<Longrightarrow> b = (case oper of
      OpListObjects b \<Rightarrow> b | OpZip b _ \<Rightarrow> b | OpDownload b _ \<Rightarrow> b | OpHistory b _ \<Rightarrow> b | OpManifest b _ \<Rightarrow> b
    | OpGetMeta b _ \<Rightarrow> b | OpDiff b _ _ \<Rightarrow> b | OpVerify b _ \<Rightarrow> b | OpPresign b _ _ \<Rightarrow> b | OpProof b _ _ \<Rightarrow> b
    | OpDelta b _ _ \<Rightarrow> b) \<Longrightarrow> serve_pot_query X W N st c mo oper = Inl Forbidden"
  by (cases oper)
    (simp_all add: serve_pot_query_def n_list_objects_def n_zip_objects_def n_download_def n_history_def n_manifest_def
      n_get_meta_def n_diff_def n_verify_def n_presign_def n_proof_def n_delta_def)

lemma caller_record:
  assumes "cl_record (caller_of X W N e hs) = Some r"
  shows "\<exists>ks. list_keys X e = Inr ks \<and> r \<in> set ks \<and> basic W N hs = Some (access_key r, secret_key r)"
proof (cases "list_keys X e")
  case (Inl err)
  with assms show ?thesis by (simp add: caller_of_def)
next
  case (Inr ks)
  have ne: "ks \<noteq> []" using assms Inr by (auto simp: caller_of_def)
  with assms Inr obtain access secret where
    b: "basic W N hs = Some (access, secret)"
      "(case creds_record (from_records ks) access of
          Some r \<Rightarrow> if secret_eq (secret_key r) secret then Some r else None | None \<Rightarrow> None) = Some r"
    by (auto simp: caller_of_def bind_eq_Some_conv)
  then have "creds_record (from_records ks) access = Some r" "secret_key r = secret"
    by (auto split: option.splits if_splits)
  with b(1) from_records_lookup [of ks access r] Inr show ?thesis by (auto simp: creds_record_def)
qed

lemma caller_open: "cl_open (caller_of X W N e hs) \<longleftrightarrow> (\<forall>ks. list_keys X e = Inr ks \<longrightarrow> ks = [])"
  by (simp add: caller_of_def split: sum.split)

end
