(* ===== verification/Reverse_Props.thy ===== *)
theory Reverse_Props
  imports Reverse_Index Vault_Props Crash_Props Native_Objects
begin

text \<open>What the reverse index tells a search about where its hits are.\<close>

lemma locations_eq: "store_ok X B M (disk e) \<Longrightarrow> hash_wf i \<Longrightarrow> locations X e i = Inr (locations_at X (disk e) i)"
  by (simp add: locations_def reverse_get_at)

text \<open>
  C20: the reverse index is complete for what the engine's commits write. After every run of commands
  without copies, moves and renamings of pots, each version in each history names its pot and key among
  the locations of its id, through writes, deletions, lifecycle and collector passes.
\<close>

theorem locations_complete:
  assumes "vault_ok X B M e" "indexed X (disk e)" "engine_run X B M e cs e'" "\<forall>(c, r) \<in> set cs. \<not> relocates c"
    and "valid_bucket b" "valid_key k" "eng_history X e' b k = Inr h" "i \<in> set h"
  shows "\<exists>ls. locations X e' i = Inr ls \<and> (b, k) \<in> set ls"
proof -
  have v: "vault_ok X B M e'" using run_simulates [OF assms(3,1)] by simp
  note V = vault_okD [OF v]
  note hs = history_eq [OF store_okD(3) [OF V(3)] assms(5,6)]
  have i: "i \<in> set (log_at X (disk e') b k)" using hs(1) assms(7,8) by (simp add: eng_history_def)
  have "hash_wf i" using hs(2) i by (simp add: list_all_iff)
  from locations_eq [OF V(3) this] run_indexed [OF assms(3,1,2,4)] i assms(5,6) show ?thesis
    by (simp add: indexed_def)
qed

theorem locations_complete_witness:
  "\<exists>i e ls. engine_run demo small_bufs demo_bodies demo_engine [(demo_write, Stored i), (Collect 20 0, Done)] e \<and>
     locations demo e i = Inr ls \<and> (''b'', ''k'') \<in> set ls"
proof -
  obtain i e where r: "engine_run demo small_bufs demo_bodies demo_engine [(demo_write, Stored i), (Collect 20 0, Done)] e"
    "eng_history demo e ''b'' ''k'' = Inr [i]" by (rule demo_run)
  have ix: "indexed demo (disk demo_engine)" by (simp add: indexed_def log_at_def)
  have c: "\<forall>(c, r) \<in> set [(demo_write, Stored i), (Collect 20 0, Done)]. \<not> relocates c" by (simp add: demo_write_def)
  have n: "valid_bucket ''b''" "valid_key ''k''" "i \<in> set [i]" by simp_all
  from locations_complete [OF demo_vault_ok ix r(1) c n(1,2) r(2) n(3)] r(1) show ?thesis by blast
qed

text \<open>
  A move is not in the reverse index. The bytes are under the new key and nothing under the old one,
  but the locations of the id are what they were: a search hit keeps naming the place that is empty now and
  never the one where the object is.
\<close>

theorem search_names_moved_source:
  assumes "store_ok X B M (disk e)" "valid_bucket fb" "valid_key fk" "valid_bucket tb" "valid_key tk" "(fb, fk) \<noteq> (tb, tk)"
    and "get X e fb fk = Inr (Some bs)" "eng_history X e fb fk = Inr (h @ [i])" "locations X e i = Inr ((fb, fk) # ls)" "(tb, tk) \<notin> set ls"
  shows "\<exists>e'. move_object X fb fk tb tk e = (Inr True, e') \<and> get X e' tb tk = Inr (Some bs) \<and>
     get X e' fb fk = Inr None \<and> locations X e' i = Inr ((fb, fk) # ls) \<and>
     enrich X e' [\<lparr>mt_id = i, mt_score = s\<rparr>] = [(show_hash X i, s, Some fb, Some fk)]"
proof -
  note ok = assms(1) and n = assms(2-5)
  note hs = history_eq [OF store_okD(3) [OF ok] n(1,2)]
  have L: "log_at X (disk e) fb fk = h @ [i]" using hs(1) assms(8) by (simp add: eng_history_def)
  have wf: "hash_wf i" using hs(2) L by simp
  from move_key_step [OF ok n] obtain d where d: "move_key X fb fk tb tk (disk e) = (Inr True, d)" "store_ok X B M d"
    "others [pointer_dir] (disk e) d" "extends X (disk e) d"
    "\<forall>c j. log_at X d c j = (if c = fb \<and> j = fk then [] else if c = tb \<and> j = tk then h @ [i] else log_at X (disk e) c j)"
    by (auto simp: L)
  let ?e = "e\<lparr>disk := d\<rparr>"
  have ok': "store_ok X B M (disk ?e)" using d(2) by simp
  have run: "move_object X fb fk tb tk e = (Inr True, ?e)" using d(1) by (simp add: move_object_def on_disk_eq)
  have loc: "locations X ?e i = Inr ((fb, fk) # ls)"
    using locations_eq [OF ok' wf] locations_eq [OF ok wf] locations_agree [OF d(3), of X i] assms(9) by simp
  have "read_manifest_bytes X e i = Inr bs" using get_eq [OF ok n(1,2)] assms(7) L
    by (cases "read_manifest_bytes X e i") simp_all
  from read_extends [OF _ this, of ?e] d(4) have "read_manifest_bytes X ?e i = Inr bs" by simp
  with run loc get_eq [OF ok' n(1,2)] get_eq [OF ok' n(3,4)] d(5) assms(6) show ?thesis
    by (auto simp: enrich_def)
qed

theorem search_names_moved_source_witness:
  "\<exists>i e e'. get demo e ''b'' ''k'' = Inr (Some demo_data) \<and> locations demo e i = Inr [(''b'', ''k'')] \<and>
     move_object demo ''b'' ''k'' ''c'' ''j'' e = (Inr True, e') \<and> get demo e' ''c'' ''j'' = Inr (Some demo_data) \<and>
     enrich demo e' [\<lparr>mt_id = i, mt_score = 1\<rparr>] = [(show_hash demo i, 1, Some ''b'', Some ''k'')]"
proof -
  let ?e = "demo_on demo_stamped" and ?c = "command.Write ''b'' ''k'' demo_data ''text/plain'' 10 10"
  note D = demo_stamped_engine
  note V = vault_okD [OF D(1)]
  note S = store_okD [OF V(3)]
  let ?m = "put_manifest demo ?e ''text/plain'' demo_ep [demo_data] demo_data 10"
  have n: "valid_bucket ''b''" "valid_key ''k''" "valid_bucket ''c''" "valid_key ''j''" "(''b'', ''k'') \<noteq> (''c'', ''j'')" by simp_all
  have M: "manifest_body demo ?m \<in> demo_bodies" by (simp add: demo_bodies_def put_manifest_def new_manifest_def)
  have w: "writable demo small_bufs demo_bodies ?e ''b'' ''k''" using V by (simp add: writable_def)
  from put_ok [OF w D(2,3) demo_encodes M, where now = 10] obtain i e1 where
    p: "put demo ''b'' ''k'' demo_data ''text/plain'' 10 10 ?e = (Inr i, e1)" "store_ok demo small_bufs demo_bodies (disk e1)"
      "read_manifest_bytes demo e1 i = Inr demo_data"
      "log_at demo (disk e1) ''b'' ''k'' = log_at demo (disk ?e) ''b'' ''k'' @ [i]" by auto
  note pd = put_disk [OF V(3) n(1,2) D(3) demo_encodes M p(1)]
  have wf: "hash_wf i" using S(6) by (simp add: pd(4))
  have B: "set [demo_data] \<subseteq> small_bufs" using demo_encodes by (simp add: encodes_def)
  note st = staging_ok(1) [OF V(3) B pd(3)]
  have o: "outside [reverse_dir] (staging_writes demo ?m [demo_data] (disk ?e))"
    by (simp add: staging_writes_def Let_def chunk_writes_def manifest_writes_def shard_def)
  have "locations_at demo (disk ?e) i = []" using demo_stamped_ok(4) by (simp add: locations_at_def shard_def)
  then have "locations_at demo (disk e1) i = [(''b'', ''k'')]"
    using commit_locations [OF st o n(1,2) wf wf] by (simp add: pd(1) put_writes_def flip: pd(4))
  then have loc: "locations demo e1 i = Inr ((''b'', ''k'') # [])" using locations_eq [OF p(2) wf] by simp
  have L: "log_at demo (disk e1) ''b'' ''k'' = [] @ [i]"
    using p(4) demo_stamped_ok(4) by (simp add: log_at_def pointer_file_def)
  have h: "eng_history demo e1 ''b'' ''k'' = Inr ([] @ [i])"
    using history_eq(1) [OF store_okD(3) [OF p(2)] n(1,2)] L by (simp add: eng_history_def)
  have g: "get demo e1 ''b'' ''k'' = Inr (Some demo_data)" using get_eq [OF p(2) n(1,2)] L p(3) by simp
  have "(''c'', ''j'') \<notin> set ([] :: (string \<times> string) list)" by simp
  from search_names_moved_source [OF p(2) n g h loc this, of 1] g loc show ?thesis by blast
qed

end
