(* ===== verification/Auth_Props.thy ===== *)
theory Auth_Props
  imports Sigv4 Demo_Ext
begin

text \<open>What the authentication layer promises: shared links, signed requests, presigned requests.\<close>

text \<open>
  A share link opens the pot and key it was signed for, until its expiry and no longer, and
  nothing else: the signature made for one (pot, key, expiry) verifies for another one only if they
  are the same. Pot names hold no slash; the HMAC has no collision on the two messages.
\<close>

theorem share_link_binds:
  assumes "hex_ok X" "CHR ''/'' \<notin> set pot" "CHR ''/'' \<notin> set pot'"
    and "inj_on (hmac_sha256 X (as_bytes secret))
           {as_bytes (presign_message pot key expiry), as_bytes (presign_message pot' key' expiry')}"
  shows "verify_presign X secret pot key expiry (presign X secret pot' key' expiry') now \<longleftrightarrow>
     pot = pot' \<and> key = key' \<and> expiry = expiry' \<and> now \<le> expiry"
proof -
  let ?m = "as_bytes (presign_message pot key expiry)" and ?m' = "as_bytes (presign_message pot' key' expiry')"
  have "hex_encode X (hmac_sha256 X (as_bytes secret) ?m) = hex_encode X (hmac_sha256 X (as_bytes secret) ?m') \<longleftrightarrow>
      hmac_sha256 X (as_bytes secret) ?m = hmac_sha256 X (as_bytes secret) ?m'"
    by (rule hex_okD(4) [OF assms(1)])
  also have "\<dots> \<longleftrightarrow> ?m = ?m'" by (rule inj_on_eq_iff [OF assms(4)]) simp_all
  also have "\<dots> \<longleftrightarrow> presign_message pot key expiry = presign_message pot' key' expiry'" by simp
  finally have "presign X secret pot key expiry = presign X secret pot' key' expiry' \<longleftrightarrow>
      presign_message pot key expiry = presign_message pot' key' expiry'" by (simp add: presign_def)
  then show ?thesis
    using presign_message_inj [OF assms(2,3)] by (auto simp: verify_presign_def not_less)
qed

theorem share_link_binds_witness:
  "verify_presign demo ''s'' ''pot'' ''a/b'' 100 (presign demo ''s'' ''pot'' ''a/b'' 100) 100 \<and>
   \<not> verify_presign demo ''s'' ''pot'' ''a/b'' 100 (presign demo ''s'' ''pot'' ''a/b'' 100) 101"
proof -
  have "CHR ''/'' \<notin> set ''pot''" by simp
  from share_link_binds [OF demo_hex_ok this this, of "''s''" "''a/b''" 100 "''a/b''" 100]
  show ?thesis by simp
qed

text \<open>
  A request with a well-formed \<open>Authorization\<close> header authenticates as the access key it names
  exactly when the signature in the header is the one that the stored secret gives for the request.
\<close>

theorem header_signature_decides:
  assumes "map_of (sr_headers req) ''authorization'' = Some (auth_header access scope hs sig)"
    and "map_of (sr_headers req) ''x-amz-date'' = Some date"
    and "map_of (sr_headers req) ''x-amz-content-sha256'' = Some payload"
    and "creds_secret creds access = Some secret"
    and "field_ok access" "CHR ''/'' \<notin> set access" "field_ok scope" "field_ok sig"
    and "hs \<noteq> []" "\<forall>h \<in> set hs. field_ok h \<and> CHR '';'' \<notin> set h"
  shows "verify_sigv4_at X parse_date creds req now = Some (Inr (Owner access)) \<longleftrightarrow>
     sign X secret (sr_method req) (sr_path req) (sr_query req) (sr_headers req) hs date scope payload
       = Some (Inr sig)"
proof -
  have "signed_parts parse_date req now = Some (Inr (Some
      (\<lparr>pa_access_key = access, pa_scope = scope, pa_signed_headers = hs, pa_signature = sig\<rparr>,
       sr_query req, date, payload)))"
    using assms(1-3) parse_auth_header [OF assms(5-10)] by (simp add: signed_parts_def ok_or_def)
  then show ?thesis
    using assms(4) as_bytes_inj by (auto simp: verify_sigv4_at_def bind_run_Inr_iff)
qed

definition demo_request :: "string \<Rightarrow> signed_request" where
  "demo_request sig =
     \<lparr>sr_method = ''GET'', sr_path = ''/b/k'', sr_query = [],
      sr_headers = [(''authorization'', auth_header ''ak'' ''d/r/s3/aws4_request'' [''host''] sig), (''host'', ''h''),
        (''x-amz-date'', ''d''), (''x-amz-content-sha256'', ''p'')]\<rparr>"

lemma demo_request_simps [simp]:
  "sr_method (demo_request sig) = ''GET''" "sr_path (demo_request sig) = ''/b/k''" "sr_query (demo_request sig) = []"
  "map_of (sr_headers (demo_request sig)) ''authorization'' =
     Some (auth_header ''ak'' ''d/r/s3/aws4_request'' [''host''] sig)"
  "map_of (sr_headers (demo_request sig)) ''host'' = Some ''h''"
  "map_of (sr_headers (demo_request sig)) ''x-amz-date'' = Some ''d''"
  "map_of (sr_headers (demo_request sig)) ''x-amz-content-sha256'' = Some ''p''"
  by (simp_all add: demo_request_def)

lemma demo_signature:
  obtains b where "\<forall>sig. sign demo ''secret'' ''GET'' ''/b/k'' [] (sr_headers (demo_request sig)) [''host''] ''d''
      ''d/r/s3/aws4_request'' ''p'' = Some (Inr (hex_encode demo b))"
    "field_ok (hex_encode demo b)"
proof -
  have "trim ''h'' = ''h''" by (rule trim_graphic) (simp add: graphic_def)
  then have "\<exists>b. \<forall>sig. sign demo ''secret'' ''GET'' ''/b/k'' [] (sr_headers (demo_request sig)) [''host''] ''d''
      ''d/r/s3/aws4_request'' ''p'' = Some (Inr (hex_encode demo b))"
    by (simp add: sign_def canonical_query_def Let_def del: demo_simps) blast
  with field_ok_hex [OF demo_hex_ok] show thesis using that by blast
qed

lemma demo_fields:
  "creds_secret (single ''ak'' ''secret'') ''ak'' = Some ''secret''" "field_ok ''ak''" "CHR ''/'' \<notin> set ''ak''"
  "field_ok ''d/r/s3/aws4_request''" "[''host''] \<noteq> []" "\<forall>h \<in> set [''host'']. field_ok h \<and> CHR '';'' \<notin> set h"
  by (simp_all add: single_def from_records_def creds_secret_def field_ok_def graphic_def)

theorem header_signature_decides_witness:
  "\<exists>sig. verify_sigv4_at demo (\<lambda>_. None) (single ''ak'' ''secret'') (demo_request sig) 0 = Some (Inr (Owner ''ak''))"
proof -
  obtain b where b: "\<forall>sig. sign demo ''secret'' ''GET'' ''/b/k'' [] (sr_headers (demo_request sig)) [''host''] ''d''
      ''d/r/s3/aws4_request'' ''p'' = Some (Inr (hex_encode demo b))" "field_ok (hex_encode demo b)"
    by (rule demo_signature)
  from header_signature_decides [OF _ _ _ demo_fields(1-4) b(2) demo_fields(5,6),
      of "demo_request (hex_encode demo b)" "''d''" "''p''" demo "\<lambda>_. None" 0] b(1)
  show ?thesis by (metis demo_request_simps)
qed

text \<open>
  C25: whatever the form of the request, \<open>Owner a\<close> is the answer only if a secret is stored for
  \<open>a\<close> and signs the request with the signature it carries. A presigned request must also be fresh:
  its declared lifetime is between 0 and 604800 seconds, it was issued at most 900 seconds in the
  future, and it has not outlived its lifetime.
\<close>

theorem accepted_request_is_signed:
  assumes "verify_sigv4_at X parse_date creds req now = Some (Inr (Owner a))"
  shows "\<exists>parsed q date payload secret.
     signed_parts parse_date req now = Some (Inr (Some (parsed, q, date, payload))) \<and>
     pa_access_key parsed = a \<and> creds_secret creds a = Some secret \<and>
     sign X secret (sr_method req) (sr_path req) q (sr_headers req) (pa_signed_headers parsed) date
       (pa_scope parsed) payload = Some (Inr (pa_signature parsed)) \<and>
     (map_of (sr_headers req) ''authorization'' = None \<longrightarrow>
        (\<exists>e expires issued. required_query_param (sr_query req) ''X-Amz-Expires'' = Some (Inr e) \<and>
           parse_i64 e = Some expires \<and> parse_date date = Some issued \<and> 0 \<le> expires \<and> expires \<le> 604800 \<and>
           issued \<le> saturating_add now 900 \<and> now \<le> saturating_add issued expires))"
proof -
  obtain parsed q date payload where
    s: "signed_parts parse_date req now = Some (Inr (Some (parsed, q, date, payload)))"
  proof (cases "signed_parts parse_date req now")
    case None
    with assms show thesis by (simp add: verify_sigv4_at_def)
  next
    case (Some r)
    show thesis
    proof (cases r)
      case (Inl e)
      with Some assms show thesis by (simp add: verify_sigv4_at_def)
    next
      case (Inr t)
      with Some assms that show thesis by (cases t) (auto simp: verify_sigv4_at_def)
    qed
  qed
  from assms s obtain secret where
    v: "creds_secret creds a = Some secret" "pa_access_key parsed = a"
      "sign X secret (sr_method req) (sr_path req) q (sr_headers req) (pa_signed_headers parsed) date
         (pa_scope parsed) payload = Some (Inr (pa_signature parsed))"
    using as_bytes_inj by (auto simp: verify_sigv4_at_def bind_run_Inr_iff split: option.splits if_splits)
  have "\<exists>e expires issued. required_query_param (sr_query req) ''X-Amz-Expires'' = Some (Inr e) \<and>
      parse_i64 e = Some expires \<and> parse_date date = Some issued \<and> 0 \<le> expires \<and> expires \<le> 604800 \<and>
      issued \<le> saturating_add now 900 \<and> now \<le> saturating_add issued expires"
    if "map_of (sr_headers req) ''authorization'' = None"
  proof -
    from s that have "ensure_presign_not_expired parse_date (sr_query req) date now = Some (Inr ())"
      by (auto simp: signed_parts_def bind_eq_Some_conv bind_run_Inr_iff split: if_splits)
    then show ?thesis by (rule not_expiredD)
  qed
  with s v show ?thesis
    by - (rule exI [of _ parsed], rule exI [of _ q], rule exI [of _ date], rule exI [of _ payload],
        rule exI [of _ secret], simp)
qed

theorem accepted_request_is_signed_witness:
  "\<exists>sig. verify_sigv4_at demo (\<lambda>_. None) (single ''ak'' ''secret'') (demo_request sig) 0 = Some (Inr (Owner ''ak'')) \<and>
     (\<exists>parsed q date payload. signed_parts (\<lambda>_. None) (demo_request sig) 0 = Some (Inr (Some (parsed, q, date, payload))) \<and>
        pa_access_key parsed = ''ak'' \<and> pa_signature parsed = sig)"
proof -
  obtain b where b: "\<forall>sig. sign demo ''secret'' ''GET'' ''/b/k'' [] (sr_headers (demo_request sig)) [''host''] ''d''
      ''d/r/s3/aws4_request'' ''p'' = Some (Inr (hex_encode demo b))" "field_ok (hex_encode demo b)"
    by (rule demo_signature)
  let ?sig = "hex_encode demo b"
  have parts: "signed_parts (\<lambda>_. None) (demo_request ?sig) 0 = Some (Inr (Some
      (\<lparr>pa_access_key = ''ak'', pa_scope = ''d/r/s3/aws4_request'', pa_signed_headers = [''host''], pa_signature = ?sig\<rparr>,
       [], ''d'', ''p'')))"
    using parse_auth_header [OF demo_fields(2-4) b(2) demo_fields(5,6)] by (simp add: signed_parts_def ok_or_def del: demo_simps)
  then have v: "verify_sigv4_at demo (\<lambda>_. None) (single ''ak'' ''secret'') (demo_request ?sig) 0 = Some (Inr (Owner ''ak''))"
    using b(1) demo_fields(1) by (simp add: verify_sigv4_at_def del: demo_simps)
  from accepted_request_is_signed [OF v] parts v show ?thesis by auto
qed

text \<open>No decoded pair hides a percent sign, so the decoder reaches every one of them.\<close>

lemma hex_percent: "hex_val CHR ''%'' = None"
  by (simp add: hex_val_def)

lemma hex_pair:
  assumes "u8_from_hex [a, b] = Some v"
  shows "a \<noteq> CHR ''%''" "b \<noteq> CHR ''%''"
proof -
  show "a \<noteq> CHR ''%''"
    by (rule notI) (use assms hex_percent in \<open>simp add: u8_from_hex_def strip_plus_def\<close>)
  show "b \<noteq> CHR ''%''"
    by (rule notI) (use assms hex_percent in \<open>auto simp: u8_from_hex_def strip_plus_def Let_def split: if_splits option.splits\<close>)
qed

lemma decode_panics:
  assumes "s ! i = CHR ''%''" "i + 3 < length s" "is_cont (of_char (s ! (i + 3)))" "j \<le> i"
  shows "percent_decode_from s j out = None"
  using assms
proof (induction s j out rule: percent_decode_from.induct)
  case (1 s j out)
  show ?case
  proof (cases "j = i")
    case True
    have "\<not> is_char_boundary s (j + 3)" using 1(5,6) True by (simp add: is_char_boundary_def)
    then show ?thesis using 1(4,5) True by (subst percent_decode_from.simps) simp
  next
    case False
    then have j: "j < i" using 1(7) by simp
    have pair: "take 2 (drop (j + 1) s) = [s ! (j + 1), s ! (j + 2)]"
      using j 1(5) by (simp add: numeral_2_eq_2 take_Suc_conv_app_nth)
    have skip: "j + 3 \<le> i" if "u8_from_hex (take 2 (drop (j + 1) s)) = Some v" for v
    proof -
      from hex_pair [of "s ! (j + 1)" "s ! (j + 2)" v] that have "i \<noteq> j + 1" "i \<noteq> j + 2" using 1(4) unfolding pair by auto
      with j show ?thesis by linarith
    qed
    show ?thesis
      by (subst percent_decode_from.simps) (use 1 j skip in \<open>auto split: option.split\<close>)
  qed
qed


lemma plain_decoded: "CHR ''%'' \<notin> set s \<Longrightarrow> percent_decode_from s j out = Some (out @ drop j s)"
proof (induction s j out rule: percent_decode_from.induct)
  case (1 s j out)
  show ?case
  proof (cases "length s \<le> j")
    case False
    then have "s ! j \<in> set s" "drop j s = s ! j # drop (Suc j) s" by (simp_all add: Cons_nth_drop_Suc)
    then have "s ! j \<noteq> CHR ''%''" "drop j s = s ! j # drop (Suc j) s" using 1(4) by metis+
    with False 1(1-3) [OF False] 1(4) show ?thesis by (subst percent_decode_from.simps) simp
  qed (subst percent_decode_from.simps, simp)
qed

text \<open>The name of a parameter, and a query whose names are decoded up to a malformed one.\<close>

definition param_name :: "string \<Rightarrow> string" where
  "param_name part = (case split_once CHR ''='' part of None \<Rightarrow> part | Some (k, v) \<Rightarrow> k)"

lemma next_param_panics:
  assumes "\<forall>p \<in> set ps. sig_percent_decode (param_name p) \<noteq> Some wanted"
    and "sig_percent_decode (param_name part) = None"
  shows "next_param wanted (ps @ part # qs) = None"
  using assms
proof (induction ps)
  case Nil
  then show ?case by (auto simp: param_name_def split: option.splits prod.splits)
next
  case (Cons p ps)
  then have IH: "next_param wanted (ps @ part # qs) = None" by simp
  show ?case
  proof (cases "sig_percent_decode (param_name p)")
    case None
    then show ?thesis by (auto simp: param_name_def split: option.splits prod.splits)
  next
    case (Some k)
    with Cons.prems(1) have "k \<noteq> wanted" by auto
    with Some IH show ?thesis by (auto simp: param_name_def split: option.splits prod.splits)
  qed
qed

text \<open>
  C40: the percent-decoder of the verifier slices its input by byte offsets. Every string with a percent
  sign anywhere in it whose two following bytes end inside a multi-byte character makes it panic, whatever
  comes before and after; so does every query without an \<open>authorization\<close> header that has such a string as
  the name of a parameter, unless \<open>X-Amz-Algorithm\<close> comes before it: before any credential was looked at,
  whatever keys are stored.
\<close>

theorem malformed_query_panics:
  assumes "map_of (sr_headers req) ''authorization'' = None"
    and "query_parts (sr_query req) = ps @ part # qs"
    and "\<forall>p \<in> set ps. sig_percent_decode (param_name p) \<noteq> Some ''X-Amz-Algorithm''"
    and "param_name part = pre @ [CHR ''%'', x, y, z] @ post" "is_cont (of_char z)"
  shows "sig_percent_decode (param_name part) = None \<and> verify_sigv4_at X parse_date creds req now = None"
proof -
  have "percent_decode_from (param_name part) 0 [] = None"
    by (rule decode_panics [of _ "length pre"]) (simp_all add: assms(4,5) nth_append)
  then have n: "sig_percent_decode (param_name part) = None" by (simp add: sig_percent_decode_def)
  from next_param_panics [OF assms(3) n, of qs]
  have "query_param (sr_query req) ''X-Amz-Algorithm'' = None" by (simp add: query_param_def assms(2))
  with n assms(1) show ?thesis by (simp add: verify_sigv4_at_def signed_parts_def)
qed

theorem malformed_query_panics_witness:
  "utf8_valid (''prefix=1&'' @ ''%a'' @ [CHR 0xC3, CHR 0xA9] @ ''=2'') \<and>
   verify_sigv4_at demo (\<lambda>_. None) (single ''ak'' ''secret'')
     \<lparr>sr_method = ''GET'', sr_path = ''/b'', sr_query = ''prefix=1&'' @ ''%a'' @ [CHR 0xC3, CHR 0xA9] @ ''=2'', sr_headers = []\<rparr> 0 = None"
proof -
  let ?q = "''prefix=1&'' @ ''%a'' @ [CHR 0xC3, CHR 0xA9] @ ''=2''"
  let ?part = "''%a'' @ [CHR 0xC3, CHR 0xA9] @ ''=2''"
  have u: "utf8_valid ?q"
    by (simp add: utf8_valid.simps utf8_head_def byte_at_def is_cont_def Let_def numeral_eq_Suc)
  have parts: "query_parts ?q = [''prefix=1''] @ ?part # []" by (simp add: query_parts_def)
  have name: "param_name ?part = [] @ [CHR ''%'', CHR ''a'', CHR 0xC3, CHR 0xA9] @ []"
    by (simp add: param_name_def)
  have "sig_percent_decode (param_name ''prefix=1'') \<noteq> Some ''X-Amz-Algorithm''"
    by (simp add: param_name_def sig_percent_decode_def plain_decoded utf8_lossy_ascii)
  then have first: "\<forall>p \<in> set [''prefix=1'']. sig_percent_decode (param_name p) \<noteq> Some ''X-Amz-Algorithm''" by simp
  have c: "is_cont (of_char (CHR 0xA9))" by (simp add: is_cont_def)
  let ?r = "\<lparr>sr_method = ''GET'', sr_path = ''/b'', sr_query = ?q, sr_headers = []\<rparr>"
  have "map_of (sr_headers ?r) ''authorization'' = None" by simp
  from malformed_query_panics [OF this _ first name c] parts u show ?thesis by simp
qed

end
