(* ===== verification/Demo_Web.thy ===== *)
theory Demo_Web
  imports Http Demo_Engine
begin

text \<open>The instance of the web crates' behaviour that the witnesses of the doors run on: header values are
  visible ASCII and spaces, and no date parses.\<close>

definition demo_web :: web where
  "demo_web =
     \<lparr>hv_ok = list_all (\<lambda>c. graphic c \<or> c = CHR '' ''), hv_text = list_all (\<lambda>c. graphic c \<or> c = CHR '' ''),
      amz_time = (\<lambda>_. None), utc_fields = (\<lambda>_. None), err_text = (\<lambda>_. ''error''),
      body_err = (\<lambda>_. ''error'')\<rparr>"

lemma demo_web_simps [simp]:
  "hv_ok demo_web s \<longleftrightarrow> list_all (\<lambda>c. graphic c \<or> c = CHR '' '') s"
  "hv_text demo_web s \<longleftrightarrow> list_all (\<lambda>c. graphic c \<or> c = CHR '' '') s"
  "amz_time demo_web s = None" "utc_fields demo_web s = None"
  by (simp_all add: demo_web_def)

lemma field_ok_header: "field_ok s \<Longrightarrow> hv_text demo_web s" "field_ok s \<Longrightarrow> hv_ok demo_web s"
  by (auto simp: field_ok_def list_all_iff)

end
