(* ===== verification/Cdn_Props.thy ===== *)
theory Cdn_Props
  imports Cdn Demo_Web
begin

text \<open>What the delivery door serves, and to whom.\<close>

text \<open>
  C31: whatever the request headers say, a delivery is the whole content (200), nothing (304, only
  when the client already has this entity tag), or one contiguous, non-empty slice inside the
  content (206) whose length is the one announced.
\<close>

theorem deliver_stays_inside:
  "let r = deliver W content ct etag immutable req in
     if if_none_match W req etag then status r = 304 \<and> resp_body r = Full []
     else (status r = 200 \<and> resp_body r = Full content) \<or>
       (\<exists>s t. s \<le> t \<and> t < length content \<and> status r = 206 \<and>
          resp_body r = Full (take (t + 1 - s) (drop s content)) \<and>
          length (take (t + 1 - s) (drop s content)) = t + 1 - s \<and>
          map_of (resp_headers r) ''content-length'' = Some (show_nat (t + 1 - s)))"
proof (cases "if_none_match W req etag")
  case True
  then show ?thesis by (simp add: deliver_cases not_modified_def)
next
  case False
  show ?thesis
  proof (cases "Option.bind (header_text W req ''range'') (\<lambda>v. parse_range v (length content))")
    case None
    then show ?thesis using False by (simp add: deliver_cases)
  next
    case (Some p)
    obtain s t where p: "p = (s, t)" by force
    then have st: "s \<le> t" "t < length content" using Some parse_range_bounds by (auto simp: bind_eq_Some_conv)
    then have len: "length (take (t + 1 - s) (drop s content)) = t + 1 - s" by simp
    let ?r = "deliver W content ct etag immutable req"
    have "status ?r = 206" "resp_body ?r = Full (take (t + 1 - s) (drop s content))"
      "map_of (resp_headers ?r) ''content-length'' = Some (show_nat (t + 1 - s))"
      using Some p False by (simp_all add: deliver_cases base_headers_def)
    with st len show ?thesis unfolding Let_def if_not_P [OF False] by blast
  qed
qed

text \<open>
  C30: the bytes of a pot that is not public leave by name only through a valid link. The friendly
  route answers exactly what it answers for a pot that does not exist; the link route answers 403 or
  404 unless the signature is the one the signing secret gives for this pot, key and expiry, and the
  expiry has not passed.
\<close>

theorem private_pot_needs_link:
  assumes "is_public X e b \<noteq> Inr True"
  shows "by_key X W e b k req = bare 404 \<and>
     (by_presign X W e b k expiry sig now req \<in> {bare 403, bare 404} \<or>
      (\<exists>secret. signing_secret X e = Some secret \<and> sig = presign X secret b k expiry \<and> now \<le> expiry))"
  using assms
  by (auto simp: by_key_def by_presign_def verify_presign_def split: sum.splits option.splits)

theorem private_pot_needs_link_witness:
  "by_key demo demo_web demo_engine ''b'' ''k'' [] = bare 404"
  using private_pot_needs_link [of demo demo_engine "''b''" demo_web "''k''" "[]" 0 "[]" 0]
  by (simp add: is_public_def get_bucket_config_def meta_config_eq bucket_config_default_def)

text \<open>
  An object that was just put is delivered under its id: a plain request for \<open>/cdn/{hash}\<close> of
  the id that \<open>put\<close> returned answers 200 with exactly the bytes put and the content type given, and
  a client that names the id as its entity tag gets a 304.
\<close>

theorem cdn_serves_put:
  assumes "writable X B M e b k" "ensure_unlocked X b k now e = Inr ()"
    and "effective_policy X b ct e = Inr ep"
    and "encodes X (ep_codec ep) B (chunk_split X data) encs"
    and "manifest_body X (put_manifest X e ct ep encs data t) \<in> M"
    and "hv_ok W ct" "hv_text W (quoted (show_hash X i))" "put X b k data ct now t e = (Inr i, e')"
  shows "status (by_hash X W e' (show_hash X i) []) = 200 \<and>
     resp_body (by_hash X W e' (show_hash X i) []) = Full data \<and>
     map_of (resp_headers (by_hash X W e' (show_hash X i) [])) ''content-type'' = Some ct \<and>
     status (by_hash X W e' (show_hash X i) [(''if-none-match'', quoted (show_hash X i))]) = 304"
proof -
  have S: "hash_ok X" "hex_ok X" using assms(1) store_okD by (auto simp: writable_def)
  from put_ok [OF assms(1-5)] assms(8) have
    p: "read_manifest_bytes X e' i = Inr data" "i = manifest_id X (put_manifest X e ct ep encs data t)"
      "manifest_get X (disk e') i = Inr (Some (with_id X (put_manifest X e ct ep encs data t)))"
    by auto
  have "parse_hash X (show_hash X i) = Inr i" using parse_show_hash [OF S(2), of i] p(2) S(1) by simp
  moreover have "content_type (original (with_id X (put_manifest X e ct ep encs data t))) = ct"
    by (simp add: with_id_def put_manifest_def new_manifest_def)
  ultimately show ?thesis
    using p(1,3) assms(6) if_none_match_own [OF S(2) assms(7)]
    by (simp add: by_hash_def object_manifest_def read_object_def deliver_cases not_modified_def base_headers_def hv_def)
qed

theorem cdn_serves_put_witness:
  "\<exists>i e'. put demo ''b'' ''k'' demo_data ''text/plain'' 10 10 demo_engine = (Inr i, e') \<and>
     status (by_hash demo demo_web e' (show_hash demo i) []) = 200 \<and>
     resp_body (by_hash demo demo_web e' (show_hash demo i) []) = Full demo_data"
proof -
  let ?M = "{manifest_body demo (put_manifest demo demo_engine ''text/plain'' demo_ep [demo_data] demo_data 10)}"
  have w: "writable demo small_bufs ?M demo_engine ''b'' ''k''" by (rule demo_writable) simp
  obtain i e' where p: "put demo ''b'' ''k'' demo_data ''text/plain'' 10 10 demo_engine = (Inr i, e')"
    by (rule demo_put) (rule that)
  have h: "hv_ok demo_web ''text/plain''" by (simp add: graphic_def)
  note t = field_ok_header(1) [OF field_ok_etag [OF demo_hex_ok, of i]]
  from cdn_serves_put [OF w demo_unlocked demo_effective demo_encodes _ h t p] p show ?thesis by blast
qed

end
