(* ===== verification/S3_Codec.thy ===== *)
theory S3_Codec
  imports Http Listing
begin

text \<open>
  The text formats of the S3 door (\<open>barme-s3/src/lib.rs\<close>): query strings, percent coding, the
  continuation token, the part list of a multipart completion, and the XML answers.
\<close>

section \<open>Errors and query strings\<close>

datatype s3_error = S3Engine engine_error | Internal string | BadRequest string

text \<open>The \<open>HashMap\<close> of a query string; a repeated name keeps its last value.\<close>

definition insert_pair :: "string \<Rightarrow> (string \<times> string) list \<Rightarrow> (string \<times> string) list" where
  "insert_pair pair m =
     (case split_once CHR ''='' pair of
        Some (k, v) \<Rightarrow> AList.update k v m
      | None \<Rightarrow> AList.update pair [] m)"

definition parse_query :: "string option \<Rightarrow> (string \<times> string) list" where
  "parse_query raw =
     (case raw of
        None \<Rightarrow> []
      | Some raw \<Rightarrow> fold insert_pair (filter (\<lambda>s. s \<noteq> []) (split_on CHR ''&'' raw)) [])"

section \<open>Percent coding\<close>

definition hex_nibble :: "char \<Rightarrow> u8 option" where
  "hex_nibble c =
     (let b = byte_of_char c in
      if 48 \<le> b \<and> b \<le> 57 then Some (b - 48)
      else if 97 \<le> b \<and> b \<le> 102 then Some (b - 97 + 10)
      else if 65 \<le> b \<and> b \<le> 70 then Some (b - 65 + 10)
      else None)"

fun pct_bytes :: "string \<Rightarrow> string" where
  "pct_bytes [] = []"
| "pct_bytes (c # s) =
     (if c = CHR ''%'' then
        (case s of
           hi # lo # rest \<Rightarrow>
             (case (hex_nibble hi, hex_nibble lo) of
                (Some h, Some l) \<Rightarrow> char_of_byte (or (push_bit 4 h) l) # pct_bytes rest
              | _ \<Rightarrow> c # pct_bytes s)
         | _ \<Rightarrow> c # pct_bytes s)
      else c # pct_bytes s)"

definition percent_decode :: "string \<Rightarrow> string" where
  "percent_decode s = utf8_lossy (pct_bytes s)"

definition uri_encode :: "string \<Rightarrow> string" where
  "uri_encode s = concat (map (\<lambda>c. if unreserved c then [c] else percent_byte c) s)"

section \<open>Continuation tokens\<close>

definition encode_continuation_token :: "ext \<Rightarrow> string \<Rightarrow> string" where
  "encode_continuation_token X key = hex_encode X (as_bytes key)"

definition bad_token :: string where
  "bad_token = ''continuation-token is not a token we issued''"

definition decode_continuation_token :: "ext \<Rightarrow> string \<Rightarrow> s3_error + string" where
  "decode_continuation_token X token =
     try_then (ok_or (BadRequest bad_token) (hex_decode X token)) (\<lambda>bytes.
       ok_or (BadRequest bad_token) (from_utf8 bytes))"

section \<open>The listing query\<close>

definition MAX_KEYS_LIMIT :: nat where "MAX_KEYS_LIMIT = 1000"

record list_query =
  lq_prefix :: string
  lq_delimiter :: string
  lq_max_keys :: nat
  lq_continuation_token :: "string option"
  lq_start_after :: "string option"
  lq_after :: "string option"
  lq_url_encode :: bool

definition non_empty :: "string option \<Rightarrow> string option" where
  "non_empty v = (case v of None \<Rightarrow> None | Some s \<Rightarrow> if s = [] then None else Some s)"

definition or_default :: "string option \<Rightarrow> string" where
  "or_default v = (case v of None \<Rightarrow> [] | Some s \<Rightarrow> s)"

definition parse_list_query :: "ext \<Rightarrow> (string \<times> string) list \<Rightarrow> s3_error + list_query" where
  "parse_list_query X params =
     (let val = (\<lambda>k. map_option percent_decode (map_of params k)) in
      try_then
        (case map_of params ''max-keys'' of
           None \<Rightarrow> Inr MAX_KEYS_LIMIT
         | Some raw \<Rightarrow>
             try_then (ok_or (BadRequest ''max-keys must be a non-negative integer'') (parse_unsigned u64_max raw))
               (\<lambda>n. Inr (min n MAX_KEYS_LIMIT)))
        (\<lambda>max_keys.
           let token = non_empty (val ''continuation-token'');
               start_after = non_empty (val ''start-after'') in
           try_then
             (case token of
                Some t \<Rightarrow> try_then (decode_continuation_token X t) (\<lambda>k. Inr (Some k))
              | None \<Rightarrow> Inr start_after)
             (\<lambda>after.
                let encoding = or_default (val ''encoding-type'') in
                if encoding \<noteq> [] \<and> encoding \<noteq> ''url'' then Inl (BadRequest ''encoding-type must be url if given'')
                else Inr \<lparr>lq_prefix = or_default (val ''prefix''), lq_delimiter = or_default (val ''delimiter''),
                          lq_max_keys = max_keys, lq_continuation_token = token, lq_start_after = start_after,
                          lq_after = after, lq_url_encode = (encoding = ''url'')\<rparr>)))"

definition lq_encode :: "list_query \<Rightarrow> string \<Rightarrow> string" where
  "lq_encode q s = (if lq_url_encode q then uri_encode s else s)"

section \<open>The part list of a completion\<close>

definition PART_OPEN :: string where "PART_OPEN = ''<PartNumber>''"
definition PART_CLOSE :: string where "PART_CLOSE = ''</PartNumber>''"

function part_numbers :: "string \<Rightarrow> nat list" where
  "part_numbers rest =
     (case find_sub PART_OPEN rest of
        None \<Rightarrow> []
      | Some start \<Rightarrow>
          (let after_open = drop (start + length PART_OPEN) rest in
           case find_sub PART_CLOSE after_open of
             None \<Rightarrow> []
           | Some stop \<Rightarrow>
               (case parse_unsigned u32_max (trim (take stop after_open)) of None \<Rightarrow> [] | Some n \<Rightarrow> [n])
               @ part_numbers (drop (stop + length PART_CLOSE) after_open)))"
  by pat_completeness auto
termination
proof (relation "measure length")
  fix rest start after_open stop
  assume a: "find_sub PART_OPEN rest = Some start" "after_open = drop (start + length PART_OPEN) rest"
    "find_sub PART_CLOSE after_open = Some stop"
  from find_sub_Some [OF a(1)] have "0 < length rest"
    by (cases rest) (auto simp: PART_OPEN_def)
  then show "(drop (stop + length PART_CLOSE) after_open, rest) \<in> measure length"
    using a(2) by (simp add: PART_CLOSE_def)
qed simp

declare part_numbers.simps [simp del]

definition parse_complete_parts :: "bytes \<Rightarrow> nat list" where
  "parse_complete_parts body = part_numbers (from_utf8_lossy body)"

section \<open>XML answers\<close>

definition XMLNS :: string where "XMLNS = ''http://s3.amazonaws.com/doc/2006-03-01/''"

definition xml_head :: string where
  "xml_head = ''<?xml version=\"1.0\" encoding=\"UTF-8\"?>''"

text \<open>Three passes, the ampersand first.\<close>

definition xml_escape :: "string \<Rightarrow> string" where
  "xml_escape s = replace_char CHR ''>'' ''&gt;'' (replace_char CHR ''<'' ''&lt;'' (replace_char CHR ''&'' ''&amp;'' s))"

definition elem :: "string \<Rightarrow> string \<Rightarrow> string" where
  "elem name text = ''<'' @ name @ ''>'' @ text @ ''</'' @ name @ ''>''"

definition root_elem :: "string \<Rightarrow> string \<Rightarrow> string" where
  "root_elem name text = xml_head @ ''<'' @ name @ '' xmlns=\"'' @ XMLNS @ ''\">'' @ text @ ''</'' @ name @ ''>''"

definition xml_response :: "string \<Rightarrow> response" where
  "xml_response content =
     \<lparr>status = 200, resp_headers = [(''content-type'', ''application/xml'')], resp_body = Full (as_bytes content)\<rparr>"

definition initiate_xml :: "string \<Rightarrow> string \<Rightarrow> string \<Rightarrow> string" where
  "initiate_xml b k upload_id =
     root_elem ''InitiateMultipartUploadResult''
       (elem ''Bucket'' (xml_escape b) @ elem ''Key'' (xml_escape k) @ elem ''UploadId'' (xml_escape upload_id))"

definition complete_xml :: "string \<Rightarrow> string \<Rightarrow> string \<Rightarrow> string" where
  "complete_xml b k oid =
     root_elem ''CompleteMultipartUploadResult''
       (elem ''Bucket'' (xml_escape b) @ elem ''Key'' (xml_escape k) @ elem ''ETag'' (quoted (xml_escape oid)))"

definition list_buckets_xml :: "string list \<Rightarrow> string" where
  "list_buckets_xml bs =
     root_elem ''ListAllMyBucketsResult''
       (elem ''Owner'' (elem ''ID'' ''barme'' @ elem ''DisplayName'' ''barme'') @
        elem ''Buckets'' (concat (map (\<lambda>b. elem ''Bucket''
          (elem ''Name'' (xml_escape b) @ elem ''CreationDate'' ''1970-01-01T00:00:00.000Z'')) bs)))"

definition pad_zeros :: "nat \<Rightarrow> string \<Rightarrow> string" where
  "pad_zeros n s = replicate (n - length s) CHR ''0'' @ s"

text \<open>\<open>{:04}\<close> of a signed year.\<close>

definition show_year :: "int \<Rightarrow> string" where
  "show_year y = (if y < 0 then CHR ''-'' # pad_zeros 3 (show_nat (nat (- y))) else pad_zeros 4 (show_nat (nat y)))"

definition s3_timestamp :: "web \<Rightarrow> string \<Rightarrow> string" where
  "s3_timestamp W rfc3339 =
     (case utc_fields W rfc3339 of
        None \<Rightarrow> ''1970-01-01T00:00:00.000Z''
      | Some (y, mo, dy, h, mi, sec, ms) \<Rightarrow>
          show_year y @ ''-'' @ pad_zeros 2 (show_nat mo) @ ''-'' @ pad_zeros 2 (show_nat dy) @ ''T'' @
          pad_zeros 2 (show_nat h) @ '':'' @ pad_zeros 2 (show_nat mi) @ '':'' @ pad_zeros 2 (show_nat sec) @ ''.'' @
          pad_zeros 3 (show_nat ms) @ ''Z'')"

definition show_bool :: "bool \<Rightarrow> string" where
  "show_bool b = (if b then ''true'' else ''false'')"

definition opt_elem :: "string \<Rightarrow> string option \<Rightarrow> string" where
  "opt_elem name t = (case t of None \<Rightarrow> [] | Some s \<Rightarrow> elem name s)"

definition list_objects_xml :: "ext \<Rightarrow> web \<Rightarrow> string \<Rightarrow> list_query \<Rightarrow> object_page \<Rightarrow> string" where
  "list_objects_xml X W b q page =
     root_elem ''ListBucketResult''
       (elem ''Name'' (xml_escape b) @
        elem ''Prefix'' (xml_escape (lq_encode q (lq_prefix q))) @
        elem ''KeyCount'' (show_nat (length (pg_entries page) + length (pg_common_prefixes page))) @
        elem ''MaxKeys'' (show_nat (lq_max_keys q)) @
        elem ''IsTruncated'' (show_bool (pg_next_after page \<noteq> None)) @
        (if lq_delimiter q \<noteq> [] then elem ''Delimiter'' (xml_escape (lq_encode q (lq_delimiter q))) else []) @
        (if lq_url_encode q then elem ''EncodingType'' ''url'' else []) @
        opt_elem ''ContinuationToken'' (map_option xml_escape (lq_continuation_token q)) @
        opt_elem ''StartAfter'' (map_option (\<lambda>k. xml_escape (lq_encode q k)) (lq_start_after q)) @
        opt_elem ''NextContinuationToken'' (map_option (encode_continuation_token X) (pg_next_after page)) @
        concat (map (\<lambda>o'. elem ''Contents''
          (elem ''Key'' (xml_escape (lq_encode q (oe_key o'))) @
           elem ''LastModified'' (s3_timestamp W (oe_created_at o')) @
           elem ''ETag'' (quoted (xml_escape (show_hash X (oe_object_id o')))) @
           elem ''Size'' (show_nat (oe_size o')) @
           elem ''StorageClass'' ''STANDARD'')) (pg_entries page)) @
        concat (map (\<lambda>p. elem ''CommonPrefixes'' (elem ''Prefix'' (xml_escape (lq_encode q p))))
          (pg_common_prefixes page)))"

definition list_parts_xml :: "string \<Rightarrow> string \<Rightarrow> string \<Rightarrow> (nat \<times> part_meta) list \<Rightarrow> string" where
  "list_parts_xml b k upload_id parts =
     root_elem ''ListPartsResult''
       (elem ''Bucket'' (xml_escape b) @ elem ''Key'' (xml_escape k) @ elem ''UploadId'' (xml_escape upload_id) @
        concat (map (\<lambda>(n, meta). elem ''Part''
          (elem ''PartNumber'' (show_nat n) @ elem ''ETag'' (quoted (xml_escape (pm_etag meta))) @
           elem ''Size'' (show_nat (pm_size meta)))) parts))"

section \<open>Round trips\<close>

lemma hex_nibble_upper: "d < 16 \<Longrightarrow> hex_nibble (upper_hex_digit d) = Some (word_of_nat d)"
  by (simp add: less_Suc_eq numeral_eq_Suc)
    (elim disjE; simp add: hex_nibble_def upper_hex_digit_def byte_of_char_def)

lemma join_nibbles: 
  assumes "b < 16" shows "or (push_bit 4 (word_of_nat a)) (word_of_nat b) = (word_of_nat (16 * a + b) :: u8)"
proof -
  have "and (push_bit 4 (word_of_nat a)) (word_of_nat b) = (0 :: u8)"
  proof (rule bit_eqI)
    fix n assume "possible_bit TYPE(8 word) n"
    have "\<not> bit (word_of_nat b :: u8) n" if "4 \<le> n"
    proof -
      have "b < 2 ^ n" using assms power_increasing [OF that, of "2::nat"] by simp
      then have "\<not> bit b n" by (simp add: bit_iff_odd)
      then show ?thesis by (simp add: bit_simps)
    qed
    then show "bit (and (push_bit 4 (word_of_nat a)) (word_of_nat b) :: u8) n = bit (0::u8) n"
      by (auto simp: bit_simps)
  qed
  then have "or (push_bit 4 (word_of_nat a)) (word_of_nat b) = (push_bit 4 (word_of_nat a) + word_of_nat b :: u8)"
    by (simp add: disjunctive_add_eq_or)
  then show ?thesis by (simp add: push_bit_eq_mult)
qed

lemma pct_step: "pct_bytes (percent_byte c @ s) = c # pct_bytes s"
proof -
  let ?a = "of_char c div 16 :: nat" and ?b = "of_char c mod 16 :: nat"
  have "?a < 16" using of_char_less_256 [of c] by (intro less_mult_imp_div_less) simp
  then have "hex_nibble (upper_hex_digit ?a) = Some (word_of_nat ?a)" "hex_nibble (upper_hex_digit ?b) = Some (word_of_nat ?b)"
    by (simp_all add: hex_nibble_upper)
  moreover have "char_of_byte (or (push_bit 4 (word_of_nat ?a)) (word_of_nat ?b)) = c"
    using join_nibbles [of ?b ?a] char_of_byte_of_char [of c] by (simp add: byte_of_char_def)
  ultimately show ?thesis by (simp add: percent_byte_def)
qed

lemma pct_uri_encode: "pct_bytes (uri_encode s) = s"
proof (induction s)
  case (Cons c s)
  have "unreserved c \<Longrightarrow> c \<noteq> CHR ''%''" by (auto simp: unreserved_def)
  with Cons pct_step [of c "uri_encode s"] show ?case by (auto simp: uri_encode_def)
qed (simp add: uri_encode_def)

lemma percent_decode_uri_encode: "utf8_valid s \<Longrightarrow> percent_decode (uri_encode s) = s"
  by (simp add: percent_decode_def pct_uri_encode utf8_lossy_valid)

lemma pct_bytes_id: "CHR ''%'' \<notin> set s \<Longrightarrow> pct_bytes s = s"
  by (induction s rule: pct_bytes.induct) auto

lemma percent_decode_ascii_id: "ascii s \<Longrightarrow> CHR ''%'' \<notin> set s \<Longrightarrow> percent_decode s = s"
  by (simp add: percent_decode_def pct_bytes_id utf8_lossy_ascii)

lemma unreserved_upper: "d < 16 \<Longrightarrow> unreserved (upper_hex_digit d)"
  by (simp add: less_Suc_eq numeral_eq_Suc) (elim disjE; simp add: upper_hex_digit_def unreserved_def)

lemma percent_byte_chars: "x \<in> set (percent_byte c) \<Longrightarrow> unreserved x \<or> x = CHR ''%''"
proof -
  have "(of_char c :: nat) div 16 < 16" using of_char_less_256 [of c] by (intro less_mult_imp_div_less) simp
  then have "unreserved (upper_hex_digit (of_char c div 16))" "unreserved (upper_hex_digit (of_char c mod 16))"
    by (simp_all add: unreserved_upper)
  then show "x \<in> set (percent_byte c) \<Longrightarrow> unreserved x \<or> x = CHR ''%''"
    unfolding percent_byte_def by auto
qed

lemma uri_encode_chars: "c \<in> set (uri_encode s) \<Longrightarrow> unreserved c \<or> c = CHR ''%''"
  unfolding uri_encode_def using percent_byte_chars by (fastforce split: if_splits)

lemma token_round_trip:
  "hex_ok X \<Longrightarrow> utf8_valid k \<Longrightarrow> decode_continuation_token X (encode_continuation_token X k) = Inr k"
  by (simp add: decode_continuation_token_def encode_continuation_token_def hex_okD)

lemma token_chars:
  assumes "hex_ok X"
  shows "ascii (encode_continuation_token X k)" "CHR ''%'' \<notin> set (encode_continuation_token X k)"
    "CHR ''&'' \<notin> set (encode_continuation_token X k)" "CHR ''='' \<notin> set (encode_continuation_token X k)"
    "encode_continuation_token X k = [] \<longleftrightarrow> k = []"
proof -
  have h: "set (encode_continuation_token X k) \<subseteq> set hex_digits"
    using hex_okD(3) [OF assms] by (simp add: encode_continuation_token_def)
  then show "CHR ''%'' \<notin> set (encode_continuation_token X k)"
    "CHR ''&'' \<notin> set (encode_continuation_token X k)" "CHR ''='' \<notin> set (encode_continuation_token X k)"
    by (auto simp: hex_digits_def)
  show "ascii (encode_continuation_token X k)"
    unfolding encode_continuation_token_def using ascii_hex_encode [OF assms] .
  have "length (encode_continuation_token X k) = 2 * length k"
    using hex_okD(2) [OF assms] by (simp add: encode_continuation_token_def)
  then show "encode_continuation_token X k = [] \<longleftrightarrow> k = []" by (cases k) auto
qed

lemma percent_decode_token: "hex_ok X \<Longrightarrow> percent_decode (encode_continuation_token X k) = encode_continuation_token X k"
  by (simp add: percent_decode_ascii_id token_chars)

text \<open>The query a client builds from its listing parameters, and what the door reads from it.\<close>

definition client_token :: "ext \<Rightarrow> string option \<Rightarrow> string" where
  "client_token X after = (case after of None \<Rightarrow> [] | Some k \<Rightarrow> encode_continuation_token X k)"

definition client_query :: "ext \<Rightarrow> string \<Rightarrow> string \<Rightarrow> nat \<Rightarrow> string option \<Rightarrow> string" where
  "client_query X pre delim n after =
     join_with ''&'' [''list-type=2'', ''prefix='' @ uri_encode pre, ''delimiter='' @ uri_encode delim,
       ''max-keys='' @ show_nat n, ''continuation-token='' @ client_token X after]"

lemma uri_encode_no_amp: "CHR ''&'' \<notin> set (uri_encode s)"
  using uri_encode_chars [of "CHR ''&''" s] by (auto simp: unreserved_def)

lemma show_nat_no_amp: "CHR ''&'' \<notin> set (show_nat n)"
  using show_nat_digits [of "CHR ''&''" n] by (auto simp: is_digit_def digit_val_def)

lemma client_token_no_amp: "hex_ok X \<Longrightarrow> CHR ''&'' \<notin> set (client_token X after)"
  by (auto simp: client_token_def token_chars split: option.splits)

lemma client_query_pairs:
  assumes "hex_ok X"
  shows "parse_query (Some (client_query X pre delim n after)) =
     [(''list-type'', ''2''), (''prefix'', uri_encode pre), (''delimiter'', uri_encode delim),
      (''max-keys'', show_nat n), (''continuation-token'', client_token X after)]"
proof -
  have "split_on CHR ''&'' (client_query X pre delim n after) =
      [''list-type=2'', ''prefix='' @ uri_encode pre, ''delimiter='' @ uri_encode delim,
       ''max-keys='' @ show_nat n, ''continuation-token='' @ client_token X after]"
    unfolding client_query_def
    using uri_encode_no_amp [of pre] uri_encode_no_amp [of delim] show_nat_no_amp [of n] client_token_no_amp [OF assms, of after]
    by (intro split_join) auto
  then show ?thesis
    by (simp add: parse_query_def insert_pair_def)
qed

lemma parse_client_query:
  assumes "hex_ok X" "utf8_valid pre" "utf8_valid delim" "n \<le> u64_max"
    and "after \<noteq> Some []" "\<forall>k. after = Some k \<longrightarrow> utf8_valid k"
  shows "\<exists>q. parse_list_query X (parse_query (Some (client_query X pre delim n after))) = Inr q \<and>
     lq_prefix q = pre \<and> lq_delimiter q = delim \<and> lq_max_keys q = min n MAX_KEYS_LIMIT \<and> lq_after q = after \<and>
     \<not> lq_url_encode q"
proof -
  have tok: "percent_decode (client_token X after) = client_token X after"
    using percent_decode_token [OF assms(1)]
    by (auto simp: client_token_def percent_decode_def split: option.splits)
  show ?thesis
  proof (cases after)
    case None
    then show ?thesis using assms(1-4) tok parse_show_nat [OF assms(4)] percent_decode_uri_encode
      by (simp add: parse_list_query_def client_query_pairs Let_def non_empty_def or_default_def client_token_def)
  next
    case (Some k)
    then have "utf8_valid k" "k \<noteq> []" using assms(5,6) by auto
    then have "encode_continuation_token X k \<noteq> []" "decode_continuation_token X (encode_continuation_token X k) = Inr k"
      using token_chars(5) [OF assms(1), of k] token_round_trip [OF assms(1)] by auto
    then show ?thesis using Some assms(1-4) tok parse_show_nat [OF assms(4)] percent_decode_uri_encode
      by (simp add: parse_list_query_def client_query_pairs Let_def non_empty_def or_default_def client_token_def)
  qed
qed

lemma parse_list_query_limit: "parse_list_query X params = Inr q \<Longrightarrow> lq_max_keys q \<le> MAX_KEYS_LIMIT"
  by (auto simp: parse_list_query_def Let_def result_simps split: if_splits option.splits)

section \<open>Part lists\<close>

lemma find_sub_skip: "p \<noteq> [] \<Longrightarrow> hd p \<notin> set a \<Longrightarrow> find_sub p (a @ s) = map_option ((+) (length a)) (find_sub p s)"
proof (induction a)
  case Nil
  then show ?case by (cases "find_sub p s") auto
next
  case (Cons x a)
  then have "\<not> prefix p (x # a @ s)" by (cases p) auto
  with Cons show ?case by (cases "find_sub p s") auto
qed

lemma part_numbers_skip: "\<not> prefix PART_OPEN (c # s) \<Longrightarrow> part_numbers (c # s) = part_numbers s"
  by (subst (1 2) part_numbers.simps) (simp split: option.split)

lemma part_numbers_hit:
  assumes "n \<le> u32_max"
  shows "part_numbers (PART_OPEN @ show_nat n @ PART_CLOSE @ s) = n # part_numbers s"
proof -
  have g: "trim (show_nat n) = show_nat n"
    by (rule trim_graphic) (auto simp: list_all_iff is_digit_def digit_val_def graphic_def Let_def split: if_splits dest!: show_nat_digits)
  have "hd PART_CLOSE \<notin> set (show_nat n)"
    using show_nat_digits [of "CHR ''<''" n] by (auto simp: PART_CLOSE_def is_digit_def digit_val_def)
  then have close: "find_sub PART_CLOSE (show_nat n @ PART_CLOSE @ s) = Some (length (show_nat n))"
    by (simp add: find_sub_skip PART_CLOSE_def)
  have "find_sub PART_OPEN (PART_OPEN @ show_nat n @ PART_CLOSE @ s) = Some 0" by (simp add: PART_OPEN_def)
  then show ?thesis using close g parse_show_nat [OF assms]
    by (subst part_numbers.simps) simp
qed

text \<open>The body a client sends: its parts, each with a number and an entity tag.\<close>

definition complete_body :: "(nat \<times> string) list \<Rightarrow> string" where
  "complete_body ps =
     ''<CompleteMultipartUpload>'' @
     concat (map (\<lambda>(n, tag). ''<Part><PartNumber>'' @ show_nat n @ ''</PartNumber><ETag>'' @ tag @ ''</ETag></Part>'') ps) @
     ''</CompleteMultipartUpload>''"

lemma part_numbers_tag: "CHR ''<'' \<notin> set tag \<Longrightarrow> part_numbers (tag @ s) = part_numbers s"
proof (induction tag)
  case (Cons c tag)
  then have "\<not> prefix PART_OPEN (c # tag @ s)" by (auto simp: PART_OPEN_def)
  with Cons show ?case by (simp add: part_numbers_skip)
qed simp

lemma part_numbers_part:
  assumes "n \<le> u32_max" "CHR ''<'' \<notin> set tag"
  shows "part_numbers (''<Part><PartNumber>'' @ show_nat n @ ''</PartNumber><ETag>'' @ tag @ ''</ETag></Part>'' @ s)
    = n # part_numbers s"
proof -
  have "part_numbers (''</ETag></Part>'' @ s) = part_numbers s" for s
    by (simp add: part_numbers_skip PART_OPEN_def)
  then have tail: "part_numbers (''<ETag>'' @ tag @ ''</ETag></Part>'' @ s) = part_numbers s"
    using part_numbers_tag [OF assms(2)] by (simp add: part_numbers_skip PART_OPEN_def)
  have "part_numbers (''<Part><PartNumber>'' @ r) = part_numbers (''<PartNumber>'' @ r)" for r
    by (simp add: part_numbers_skip PART_OPEN_def)
  then show ?thesis
    using part_numbers_hit [OF assms(1), of "''<ETag>'' @ tag @ ''</ETag></Part>'' @ s"] tail
    by (simp add: PART_OPEN_def PART_CLOSE_def)
qed

lemma part_numbers_complete_body:
  assumes "\<forall>(n, tag) \<in> set ps. n \<le> u32_max \<and> CHR ''<'' \<notin> set tag"
  shows "part_numbers (complete_body ps) = map fst ps"
proof -
  have last: "part_numbers ''</CompleteMultipartUpload>'' = []"
    by (simp add: part_numbers.simps PART_OPEN_def)
  have "part_numbers (concat (map (\<lambda>(n, tag). ''<Part><PartNumber>'' @ show_nat n @ ''</PartNumber><ETag>'' @ tag @
      ''</ETag></Part>'') ps) @ ''</CompleteMultipartUpload>'') = map fst ps"
    using assms last
  proof (induction ps)
    case (Cons p ps)
    then show ?case using part_numbers_part [of "fst p" "snd p"] by (cases p) simp
  qed simp
  moreover have "part_numbers (''<CompleteMultipartUpload>'' @ r) = part_numbers r" for r
    by (simp add: part_numbers_skip PART_OPEN_def)
  ultimately show ?thesis by (simp add: complete_body_def)
qed

section \<open>Escaping\<close>

definition escaped :: "char \<Rightarrow> string" where
  "escaped c =
     (if c = CHR ''&'' then ''&amp;'' else if c = CHR ''<'' then ''&lt;'' else if c = CHR ''>'' then ''&gt;'' else [c])"

lemma xml_escape_chars: "xml_escape s = concat (map escaped s)"
  by (induction s) (simp_all add: xml_escape_def replace_char_def escaped_def)

lemma escaped_prefix_code: "escaped c @ s = escaped d @ t \<Longrightarrow> c = d \<and> s = t"
  by (auto simp: escaped_def split: if_splits)

lemma xml_escape_inj: "xml_escape s = xml_escape t \<Longrightarrow> s = t"
  unfolding xml_escape_chars
proof (induction s arbitrary: t)
  case Nil
  then show ?case by (cases t) (auto simp: escaped_def split: if_splits)
next
  case (Cons c s)
  then show ?case
  proof (cases t)
    case Nil
    with Cons.prems show ?thesis by (auto simp: escaped_def split: if_splits)
  next
    case (Cons d t')
    with Cons.prems escaped_prefix_code [of c "concat (map escaped s)" d "concat (map escaped t')"] Cons.IH
    show ?thesis by auto
  qed
qed

lemma xml_escape_no_markup: "CHR ''<'' \<notin> set (xml_escape s)" "CHR ''>'' \<notin> set (xml_escape s)"
  by (auto simp: xml_escape_chars escaped_def)

end
