(* ===== verification/S3.thy ===== *)
theory S3
  imports S3_Codec Cdn
begin

text \<open>
  The S3 door (\<open>barme-s3/src/lib.rs\<close>): its handlers, the routes, and the authentication layer in front
  of them. A request carries what the router matched (\<open>target\<close>) beside its raw path and query; the
  body is the reader that the engine drains. The blocking task of a handler is run in place: that
  it cannot be joined is the only source of \<open>Internal\<close>, which no handler here returns. Trace
  layer, body limit (every handler that reads a body passes its own limit) and server loop are the
  framework's.
\<close>

section \<open>State, requests, errors\<close>

record s3_state =
  st_engine :: engine
  max_upload_bytes :: nat

datatype target = AtRoot | AtPot string | AtPotSlash string | AtObject string string | NoRoute

record request =
  rq_method :: string
  rq_path :: string
  rq_query :: "string option"
  rq_headers :: headers
  rq_target :: target
  rq_body :: reader

definition DEFAULT_CONTENT_TYPE :: string where "DEFAULT_CONTENT_TYPE = ''application/octet-stream''"

definition MAX_COMPLETE_BODY :: nat where "MAX_COMPLETE_BODY = 16 * 1024 * 1024"

definition OBJECT_ID_HEADER :: string where "OBJECT_ID_HEADER = ''x-barme-object-id''"

definition s3_status :: "s3_error \<Rightarrow> nat" where
  "s3_status err =
     (case err of
        S3Engine e \<Rightarrow>
          (case e of
             InvalidKey m \<Rightarrow> 400
           | TooLarge n \<Rightarrow> 413
           | Upload io \<Rightarrow> 400
           | NoSuchUpload i \<Rightarrow> 404
           | _ \<Rightarrow> if is_bad_input e then 400 else 500)
      | Internal m \<Rightarrow> 500
      | BadRequest m \<Rightarrow> 400)"

definition s3_error_response :: "web \<Rightarrow> s3_error \<Rightarrow> response" where
  "s3_error_response W err =
     text_response (s3_status err)
       (case err of S3Engine e \<Rightarrow> err_text W e | Internal m \<Rightarrow> m | BadRequest m \<Rightarrow> m)"

text \<open>An engine call inside a handler, its error wrapped by \<open>From\<close>.\<close>

definition call :: "(engine_error + 'a) \<times> engine \<Rightarrow> (s3_error + 'a) \<times> engine" where
  "call r = (map_err S3Engine (fst r), snd r)"

definition etag :: "web \<Rightarrow> string \<Rightarrow> string" where
  "etag W oid = (if hv_ok W (quoted oid) then quoted oid else quoted [])"

definition object_id_header :: "web \<Rightarrow> string \<Rightarrow> string \<times> string" where
  "object_id_header W i = (OBJECT_ID_HEADER, hv W i)"

definition request_content_type :: "web \<Rightarrow> headers \<Rightarrow> string" where
  "request_content_type W hs =
     (case header_text W hs ''content-type'' of None \<Rightarrow> DEFAULT_CONTENT_TYPE | Some v \<Rightarrow> v)"

definition content_type_value :: "web \<Rightarrow> string \<Rightarrow> string" where
  "content_type_value W ct = (if hv_ok W ct then ct else DEFAULT_CONTENT_TYPE)"

section \<open>Objects\<close>

definition s3_upload_part ::
  "ext \<Rightarrow> web \<Rightarrow> nat \<Rightarrow> string \<Rightarrow> string \<Rightarrow> reader \<Rightarrow> engine \<Rightarrow> (s3_error + response) \<times> engine" where
  "s3_upload_part X W max_upload upload_id part_number r e =
     and_then (ok_or (BadRequest ''partNumber must be a positive integer'') (parse_unsigned u32_max part_number), e)
       (\<lambda>pn e.
     and_then (call (upload_part X upload_id pn r max_upload e)) (\<lambda>meta e.
       (Inr \<lparr>status = 200, resp_headers = [(''etag'', etag W (pm_etag meta))], resp_body = Full []\<rparr>, e)))"

definition s3_put_object ::
  "ext \<Rightarrow> web \<Rightarrow> nat \<Rightarrow> string \<Rightarrow> string \<Rightarrow> string option \<Rightarrow> headers \<Rightarrow> reader \<Rightarrow> nat \<Rightarrow> nat \<Rightarrow> engine
     \<Rightarrow> (s3_error + response) \<times> engine" where
  "s3_put_object X W max_upload b k raw_query hs r now t e =
     (let params = parse_query raw_query in
      case (map_of params ''uploadId'', map_of params ''partNumber'') of
        (Some upload_id, Some pn) \<Rightarrow> s3_upload_part X W max_upload upload_id pn r e
      | _ \<Rightarrow>
          and_then (call (put_stream X b k r (request_content_type W hs) max_upload now t e)) (\<lambda>i e.
            (Inr \<lparr>status = 200,
                  resp_headers = [(''etag'', etag W (show_hash X i)), object_id_header W (show_hash X i)],
                  resp_body = Full []\<rparr>, e)))"

text \<open>\<open>to_bytes\<close>: the whole body, an error if reading fails or it is longer than the limit.\<close>

definition collect_body :: "web \<Rightarrow> reader \<Rightarrow> nat \<Rightarrow> s3_error + bytes" where
  "collect_body W r limit =
     (if limit < length (rd_bytes r) then Inl (BadRequest (''reading complete body: '' @ body_err W None))
      else case rd_error r of
        Some io \<Rightarrow> Inl (BadRequest (''reading complete body: '' @ body_err W (Some io)))
      | None \<Rightarrow> Inr (rd_bytes r))"

definition s3_post_object ::
  "ext \<Rightarrow> web \<Rightarrow> string \<Rightarrow> string \<Rightarrow> string option \<Rightarrow> headers \<Rightarrow> reader \<Rightarrow> nat \<Rightarrow> nat \<Rightarrow> engine
     \<Rightarrow> (s3_error + response) \<times> engine" where
  "s3_post_object X W b k raw_query hs r now t e =
     (let params = parse_query raw_query in
      if map_of params ''uploads'' \<noteq> None then
        and_then (call (create_multipart X b k (request_content_type W hs) now e)) (\<lambda>upload_id e.
          (Inr (xml_response (initiate_xml b k upload_id)), e))
      else
        case map_of params ''uploadId'' of
          Some upload_id \<Rightarrow>
            and_then (collect_body W r MAX_COMPLETE_BODY, e) (\<lambda>body_bytes e.
            and_then (call (complete_multipart X upload_id (parse_complete_parts body_bytes) t e)) (\<lambda>i e.
              let resp = xml_response (complete_xml b k (show_hash X i)) in
              (Inr (resp\<lparr>resp_headers := resp_headers resp @ [object_id_header W (show_hash X i)]\<rparr>), e)))
        | None \<Rightarrow> (Inr (bare 501), e))"

definition s3_get_object ::
  "ext \<Rightarrow> web \<Rightarrow> string \<Rightarrow> string \<Rightarrow> string option \<Rightarrow> engine \<Rightarrow> s3_error + response" where
  "s3_get_object X W b k raw_query e =
     (case map_of (parse_query raw_query) ''uploadId'' of
        Some upload_id \<Rightarrow>
          try_then (map_err S3Engine (list_parts e upload_id)) (\<lambda>listed.
            Inr (case listed of
                   Some (lb, lk, ps) \<Rightarrow> xml_response (list_parts_xml lb lk upload_id ps)
                 | None \<Rightarrow> bare 404))
      | None \<Rightarrow>
          try_then (map_err S3Engine (object_head X e b k)) (\<lambda>h.
            Inr (case h of
                   None \<Rightarrow> bare 404
                 | Some (ct, len, codec_name, hs) \<Rightarrow>
                     \<lparr>status = 200,
                      resp_headers = [(''content-type'', content_type_value W ct), (''content-length'', show_nat len)],
                      resp_body = Pieces (map (\<lambda>h. read_chunk X e h codec_name) hs)\<rparr>)))"

definition s3_head_object :: "ext \<Rightarrow> web \<Rightarrow> string \<Rightarrow> string \<Rightarrow> engine \<Rightarrow> s3_error + response" where
  "s3_head_object X W b k e =
     try_then (map_err S3Engine (current_manifest X e b k)) (\<lambda>m.
       Inr (case m of
              None \<Rightarrow> bare 404
            | Some m \<Rightarrow>
                \<lparr>status = 200,
                 resp_headers =
                   [(''content-length'', show_nat (size_bytes (original m))),
                    (''content-type'', content_type_value W (content_type (original m))),
                    (''etag'', etag W (show_hash X (object_id m))), object_id_header W (show_hash X (object_id m))],
                 resp_body = Full []\<rparr>))"

definition s3_delete_object ::
  "ext \<Rightarrow> string \<Rightarrow> string \<Rightarrow> string option \<Rightarrow> nat \<Rightarrow> engine \<Rightarrow> (s3_error + response) \<times> engine" where
  "s3_delete_object X b k raw_query now e =
     (case map_of (parse_query raw_query) ''uploadId'' of
        Some upload_id \<Rightarrow> and_then (call (abort_multipart upload_id e)) (\<lambda>_ e. (Inr (bare 204), e))
      | None \<Rightarrow> and_then (call (delete_object X b k now e)) (\<lambda>_ e. (Inr (bare 204), e)))"

section \<open>Pots\<close>

definition s3_create_bucket :: "ext \<Rightarrow> web \<Rightarrow> string \<Rightarrow> engine \<Rightarrow> (s3_error + response) \<times> engine" where
  "s3_create_bucket X W b e =
     and_then (call (create_bucket X b e)) (\<lambda>_ e.
       (Inr \<lparr>status = 200,
             resp_headers = (if hv_ok W (''/'' @ b) then [(''location'', ''/'' @ b)] else []),
             resp_body = Full []\<rparr>, e))"

definition s3_head_bucket :: "ext \<Rightarrow> string \<Rightarrow> engine \<Rightarrow> s3_error + response" where
  "s3_head_bucket X b e =
     try_then (map_err S3Engine (bucket_exists X e b)) (\<lambda>there. Inr (bare (if there then 200 else 404)))"

definition s3_delete_bucket :: "ext \<Rightarrow> string \<Rightarrow> engine \<Rightarrow> (s3_error + response) \<times> engine" where
  "s3_delete_bucket X b e =
     and_then (call (delete_bucket_if_empty X b e)) (\<lambda>deleted e.
       (Inr (if deleted then bare 204 else text_response 409 ''bucket not empty''), e))"

definition s3_list_buckets :: "ext \<Rightarrow> engine \<Rightarrow> s3_error + response" where
  "s3_list_buckets X e =
     try_then (map_err S3Engine (list_buckets X e)) (\<lambda>bs. Inr (xml_response (list_buckets_xml bs)))"

definition s3_list_objects :: "ext \<Rightarrow> web \<Rightarrow> string \<Rightarrow> string option \<Rightarrow> engine \<Rightarrow> s3_error + response" where
  "s3_list_objects X W b raw_query e =
     (let params = parse_query raw_query in
      if map_of params ''list-type'' \<noteq> Some ''2'' then
        Inr (text_response 501 ''only ListObjectsV2 is supported; send list-type=2'')
      else
        try_then (map_err S3Engine (bucket_exists X e b)) (\<lambda>there.
          if \<not> there then Inr (text_response 404 ''no such pot'')
          else
            try_then (parse_list_query X params) (\<lambda>q.
            try_then (map_err S3Engine (list_objects X e b (lq_prefix q) (lq_delimiter q) (lq_after q) (lq_max_keys q)))
              (\<lambda>page. Inr (xml_response (list_objects_xml X W b q page))))))"

section \<open>Routes\<close>

definition read_only_op :: "s3_error + response \<Rightarrow> engine \<Rightarrow> (s3_error + response) \<times> engine" where
  "read_only_op r e = (r, e)"

definition s3_dispatch ::
  "ext \<Rightarrow> web \<Rightarrow> nat \<Rightarrow> request \<Rightarrow> nat \<Rightarrow> nat \<Rightarrow> engine \<Rightarrow> (s3_error + response) \<times> engine" where
  "s3_dispatch X W max_upload rq now t e =
     (let m = rq_method rq; q = rq_query rq in
      case rq_target rq of
        AtRoot \<Rightarrow> if m \<in> {''GET'', ''HEAD''} then read_only_op (s3_list_buckets X e) e else (Inr (bare 405), e)
      | AtPot b \<Rightarrow>
          if m = ''PUT'' then s3_create_bucket X W b e
          else if m = ''HEAD'' then read_only_op (s3_head_bucket X b e) e
          else if m = ''DELETE'' then s3_delete_bucket X b e
          else if m = ''GET'' then read_only_op (s3_list_objects X W b q e) e
          else (Inr (bare 405), e)
      | AtPotSlash b \<Rightarrow>
          if m \<in> {''GET'', ''HEAD''} then read_only_op (s3_list_objects X W b q e) e else (Inr (bare 405), e)
      | AtObject b k \<Rightarrow>
          if m = ''PUT'' then s3_put_object X W max_upload b k q (rq_headers rq) (rq_body rq) now t e
          else if m = ''GET'' then read_only_op (s3_get_object X W b k q e) e
          else if m = ''POST'' then s3_post_object X W b k q (rq_headers rq) (rq_body rq) now t e
          else if m = ''DELETE'' then s3_delete_object X b k q now e
          else if m = ''HEAD'' then read_only_op (s3_head_object X W b k e) e
          else (Inr (bare 405), e)
      | NoRoute \<Rightarrow> (Inr (bare 404), e))"

definition s3_respond ::
  "ext \<Rightarrow> web \<Rightarrow> nat \<Rightarrow> request \<Rightarrow> nat \<Rightarrow> nat \<Rightarrow> engine \<Rightarrow> response \<times> engine" where
  "s3_respond X W max_upload rq now t e =
     (case s3_dispatch X W max_upload rq now t e of
        (Inl err, e') \<Rightarrow> (s3_error_response W err, e')
      | (Inr resp, e') \<Rightarrow> (resp, e'))"

section \<open>Authentication\<close>

text \<open>The headers that are text, lower-cased, in a \<open>HashMap\<close>.\<close>

definition signed_headers :: "web \<Rightarrow> headers \<Rightarrow> headers" where
  "signed_headers W hs =
     fold (\<lambda>(n, v) m. if hv_text W v then AList.update (to_ascii_lowercase n) v m else m) hs []"

definition signed_of :: "web \<Rightarrow> request \<Rightarrow> signed_request" where
  "signed_of W rq =
     \<lparr>sr_method = rq_method rq, sr_path = rq_path rq,
      sr_query = (case rq_query rq of None \<Rightarrow> [] | Some q \<Rightarrow> q), sr_headers = signed_headers W (rq_headers rq)\<rparr>"

definition path_bucket :: "string \<Rightarrow> string" where
  "path_bucket p = hd (split_on CHR ''/'' (dropWhile (\<lambda>c. c = CHR ''/'') p))"

definition action_of :: "string \<Rightarrow> action" where
  "action_of m =
     (if m = ''GET'' \<or> m = ''HEAD'' then Read else if m = ''DELETE'' then Delete else Write)"

text \<open>\<open>unwrap_or_default\<close> and \<open>unwrap_or(false)\<close>.\<close>

definition live_keys :: "ext \<Rightarrow> engine \<Rightarrow> key_record list" where
  "live_keys X e = (case list_keys X e of Inl err \<Rightarrow> [] | Inr ks \<Rightarrow> ks)"

definition public_pot :: "ext \<Rightarrow> engine \<Rightarrow> string \<Rightarrow> bool" where
  "public_pot X e b = (case is_public X e b of Inl err \<Rightarrow> False | Inr p \<Rightarrow> p)"

text \<open>\<open>Inl\<close> is the refusal sent back, \<open>Inr\<close> hands the request on; \<open>None\<close> is the panic of the
  signature verifier. \<open>clock\<close> is the wall clock the verifier reads.\<close>

definition authenticate ::
  "ext \<Rightarrow> web \<Rightarrow> request \<Rightarrow> nat option \<Rightarrow> engine \<Rightarrow> (response + unit) option" where
  "authenticate X W rq clock e =
     (let ks = live_keys X e in
      if ks = [] then Some (Inr ())
      else
        let creds = from_records ks; signed = signed_of W rq in
        case verify_sigv4 X (amz_time W) creds signed clock of
          None \<Rightarrow> None
        | Some (Inl err) \<Rightarrow> Some (Inl (text_response 403 ''invalid signature''))
        | Some (Inr p) \<Rightarrow>
            let b = path_bucket (sr_path signed);
                rec = (case p of Owner access \<Rightarrow> creds_record creds access | Anonymous \<Rightarrow> None) in
            if \<not> authorize rec (action_of (rq_method rq)) b (public_pot X e b)
            then Some (Inl (text_response 403 ''access denied''))
            else Some (Inr ()))"

definition s3_serve ::
  "ext \<Rightarrow> web \<Rightarrow> request \<Rightarrow> nat option \<Rightarrow> nat \<Rightarrow> nat \<Rightarrow> s3_state \<Rightarrow> (response \<times> s3_state) option" where
  "s3_serve X W rq clock now t st =
     (case authenticate X W rq clock (st_engine st) of
        None \<Rightarrow> None
      | Some (Inl refusal) \<Rightarrow> Some (refusal, st)
      | Some (Inr u) \<Rightarrow>
          (case s3_respond X W (max_upload_bytes st) rq now t (st_engine st) of
             (resp, e') \<Rightarrow> Some (resp, st\<lparr>st_engine := e'\<rparr>)))"

section \<open>Lemmas\<close>

lemma call_Inr_iff [result_simps]: "call r = (Inr x, e) \<longleftrightarrow> r = (Inr x, e)"
  by (cases r) (auto simp: call_def)

lemma call_Inr [simp]: "call (Inr x, e) = (Inr x, e)" "call (Inl err, e) = (Inl (S3Engine err), e)"
  by (simp_all add: call_def)

lemma parse_query_None [simp]: "parse_query None = []"
  by (simp add: parse_query_def)

text \<open>A request with a reading method leaves the engine as it is.\<close>

lemma action_Read_iff: "action_of m = Read \<longleftrightarrow> m = ''GET'' \<or> m = ''HEAD''"
  by (simp add: action_of_def)

lemma s3_respond_snd: "snd (s3_respond X W mx rq now t e) = snd (s3_dispatch X W mx rq now t e)"
  by (simp add: s3_respond_def split: prod.split sum.split)

lemma read_method_keeps:
  assumes "action_of (rq_method rq) = Read"
  shows "snd (s3_respond X W mx rq now t e) = e"
proof -
  from assms have "rq_method rq = ''GET'' \<or> rq_method rq = ''HEAD''" by (simp only: action_Read_iff)
  then show ?thesis
    by (cases "rq_target rq") (auto simp: s3_respond_snd s3_dispatch_def read_only_op_def)
qed

lemma authenticate_admits:
  assumes "authenticate X W rq clock e = Some (Inr ())" "live_keys X e \<noteq> []"
  shows "\<exists>p. verify_sigv4 X (amz_time W) (from_records (live_keys X e)) (signed_of W rq) clock = Some (Inr p) \<and>
     authorize (case p of Owner a \<Rightarrow> creds_record (from_records (live_keys X e)) a | Anonymous \<Rightarrow> None)
       (action_of (rq_method rq)) (path_bucket (rq_path rq)) (public_pot X e (path_bucket (rq_path rq)))"
  using assms
  by (auto simp: authenticate_def Let_def signed_of_def split: option.splits sum.splits if_splits)

lemma authorize_cases:
  assumes "authorize (case p of Owner a \<Rightarrow> creds_record (from_records ks) a | Anonymous \<Rightarrow> None) act b pub"
  shows "(\<exists>a r. p = Owner a \<and> r \<in> set ks \<and> access_key r = a \<and> scoped_to r b \<and> (read_only r \<longrightarrow> act = Read)) \<or>
     (act = Read \<and> pub)"
proof (cases "case p of Owner a \<Rightarrow> creds_record (from_records ks) a | Anonymous \<Rightarrow> None")
  case None
  with assms show ?thesis by (simp add: authorize_def)
next
  case (Some r)
  then obtain a where a: "p = Owner a" "map_of (from_records ks) a = Some r"
    by (cases p) (simp_all add: creds_record_def)
  have "scoped_to r b" "read_only r \<longrightarrow> act = Read"
    using assms unfolding Some authorize_def by (simp_all split: if_splits)
  with a(1) from_records_lookup [OF a(2)] show ?thesis by blast
qed

lemma s3_serve_cases:
  assumes "s3_serve X W rq clock now t st = Some (resp, st')"
  obtains "authenticate X W rq clock (st_engine st) = Some (Inl resp)" "st' = st"
  | "authenticate X W rq clock (st_engine st) = Some (Inr ())"
    "s3_respond X W (max_upload_bytes st) rq now t (st_engine st) = (resp, st_engine st')"
proof (cases "authenticate X W rq clock (st_engine st)")
  case None
  with assms show thesis by (simp add: s3_serve_def)
next
  case (Some a)
  show thesis
  proof (cases a)
    case (Inl refusal)
    then have "resp = refusal" "st' = st" using Some assms by (simp_all add: s3_serve_def)
    with that(1) Some Inl show thesis by blast
  next
    case (Inr u)
    obtain x y where xy: "s3_respond X W (max_upload_bytes st) rq now t (st_engine st) = (x, y)" by force
    then have "resp = x" "st' = st\<lparr>st_engine := y\<rparr>" using Some Inr assms by (simp_all add: s3_serve_def)
    with that(2) Some Inr xy show thesis by simp
  qed
qed

text \<open>The pieces of a body are the object's bytes.\<close>

lemma read_pieces:
  assumes "read_manifest_bytes X e i = Inr bs" "manifest_get X (disk e) i = Inr (Some m)"
  shows "\<exists>xs. map (\<lambda>h. read_chunk X e h (codec (storage m))) (chunks (chunking m)) = map Inr xs \<and> concat xs = bs"
proof -
  from assms obtain c xs where c: "decoder_for (codec (storage m)) = Inr c"
    "try_map (fetch_chunk X e c i) (chunks (chunking m)) = Inr xs" "concat xs = bs"
    by (auto simp: read_manifest_bytes_def fetch_manifest_def result_simps split: if_splits)
  have "read_chunk X e h (codec (storage m)) = Inr x" if "fetch_chunk X e c i h = Inr x" for h x
    using that c(1) by (auto simp: fetch_chunk_def read_chunk_def result_simps)
  then have "list_all2 (\<lambda>h x. read_chunk X e h (codec (storage m)) = Inr x) (chunks (chunking m)) xs"
    using c(2) unfolding try_map_Inr_iff by (auto elim!: list_all2_mono)
  then have "map (\<lambda>h. read_chunk X e h (codec (storage m))) (chunks (chunking m)) = map Inr xs"
    by (induction rule: list_all2_induct) auto
  with c(3) show ?thesis by blast
qed

lemma list_all2_in: "list_all2 P xs ys \<Longrightarrow> x \<in> set xs \<Longrightarrow> \<exists>y. P x y"
  by (induction rule: list_all2_induct) auto

text \<open>One record that cannot be decoded makes the whole listing of keys fail.\<close>

lemma bad_record_fails:
  assumes d: "flat_ok X (disk e)" "hex_ok X" and f: "contents (disk e) [key_dir, f] = Some b" "f \<noteq> []"
    "\<not> starts_with_char CHR ''.'' (utf8_lossy f)" "good [key_dir, f]"
    and bad: "try_then (ok_or Serde (key_of_json X b)) (key_decode X (cipher e)) = Inl err"
  shows "\<exists>err. list_keys X e = Inl err"
proof -
  have ok: "disk_ok (disk e)" using d(1) by (simp add: flat_ok_def)
  have dir: "read_dir_opt (disk e) [key_dir] = Inr (entries_of (disk e) [key_dir])"
    using ok by (intro read_dir_good) (auto simp: name_error_def NAME_MAX_def)
  have "(f, False) \<in> set (entries_of (disk e) [key_dir])"
    using entries_contents [OF ok f(2), of "[key_dir]"] f(1) by simp
  then have mem: "f \<in> set (map fst (entries_of (disk e) [key_dir]))" by force
  have rd: "key_read X (disk e) f = ok_or Serde (key_of_json X b)"
    using ok f(1,4) by (simp add: key_read_def read_good)
  have "key_list X (cipher e) (disk e) \<noteq> Inr rs" for rs
  proof
    assume "key_list X (cipher e) (disk e) = Inr rs"
    then have all: "list_all2 (\<lambda>n r. try_then (key_read X (disk e) n) (key_decode X (cipher e)) = Inr r)
        (filter (\<lambda>name. \<not> starts_with_char CHR ''.'' (utf8_lossy name)) (map fst (entries_of (disk e) [key_dir]))) rs"
      by (simp add: key_list_def key_names_def dir try_map_Inr_iff)
    obtain r where "try_then (key_read X (disk e) f) (key_decode X (cipher e)) = Inr r"
      using list_all2_in [OF all, of f] mem f(3) by auto
    with bad rd show False by simp
  qed
  then show ?thesis by (cases "key_list X (cipher e) (disk e)") (auto simp: list_keys_def)
qed

end
