(* ===== verification/Demo_S3.thy ===== *)
theory Demo_S3
  imports S3 Demo_Web
begin

text \<open>A store with one stored key, and a request signed with it, for the witnesses of the S3 door.\<close>

definition demo_key :: key_record where
  "demo_key = \<lparr>access_key = ''ak'', secret_key = ''secret'', read_only = False, pots = [], key_created_at = []\<rparr>"

definition demo_stored :: stored_key where
  "demo_stored = \<lparr>sk_access_key = ''ak'', secret_enc = None, sk_secret_key = Some ''secret'', sk_read_only = False,
     sk_pots = [], sk_created_at = []\<rparr>"

definition demo_keyed :: engine where
  "demo_keyed = demo_on (put_file (key_path demo ''ak'') (key_to_json demo demo_stored) [])"

lemma demo_ak: "valid_pot ''ak''" "good (key_path demo ''ak'')"
  using good_key [OF demo_hex_ok, of "''ak''"] by (simp_all add: valid_pot_def NAME_MAX_def)

lemma demo_key_decode: "key_decode demo c demo_stored = Inr demo_key"
  by (simp add: key_decode_def demo_stored_def demo_key_def)

lemma demo_keyed_keys: "keys_ok demo None (disk demo_keyed)" "flat_ok demo (disk demo_keyed)"
proof -
  let ?d = "put_file (key_path demo ''ak'') (key_to_json demo demo_stored) []"
  have fl: "flat_ok demo ?d" by (simp add: flat_ok_def disk_ok_put_file demo_ak)
  obtain n where p: "key_path demo ''ak'' = [key_dir, n]" by (simp add: key_path_def)
  have js: "key_of_json demo (key_to_json demo demo_stored) = Some demo_stored" by (simp add: json_okD [OF demo_json_ok])
  have "key_file_ok demo None n (key_to_json demo demo_stored)"
    unfolding key_file_ok_def
    by (rule exI [of _ demo_stored], rule exI [of _ demo_key])
      (simp add: js demo_key_decode, simp add: demo_stored_def p [symmetric] demo_ak valid_access_def demo_key_def
        secret_ok_def utf8_valid_ascii)
  moreover have "f = n \<and> b = key_to_json demo demo_stored" if "contents ?d [key_dir, f] = Some b" for f b
    using that unfolding contents_put_file [OF demo_ak(2)] by (auto simp: p split: if_splits)
  ultimately show "keys_ok demo None (disk demo_keyed)" "flat_ok demo (disk demo_keyed)"
    using fl by (auto simp: keys_ok_def cipher_ok_def demo_keyed_def)
qed

lemma demo_keyed_list: "list_keys demo demo_keyed = Inr [demo_key]"
proof -
  let ?d = "disk demo_keyed"
  obtain n where p: "key_path demo ''ak'' = [key_dir, n]" by (simp add: key_path_def)
  have c: "contents ?d [key_dir, f] = (if f = n then Some (key_to_json demo demo_stored) else None)" for f
    using demo_ak(2) by (simp add: demo_keyed_def contents_put_file p)
  from key_names_ok [OF demo_keyed_keys(1)] obtain ns where
    ns: "key_names ?d = Inr ns" "distinct ns" "\<forall>f. f \<in> set ns \<longleftrightarrow> contents ?d [key_dir, f] \<noteq> None" by blast
  have "f \<in> set ns \<longleftrightarrow> f = n" for f using ns(3) c [of f] by simp
  then have "set ns = {n}" by auto
  with ns(2) have "ns = [n]" by (cases ns) (auto simp: subset_singleton_iff)
  moreover have "key_read demo ?d n = Inr demo_stored"
    using demo_keyed_keys(2) c demo_ak(2) p
    by (simp add: key_read_def read_good flat_ok_def json_okD [OF demo_json_ok])
  ultimately show ?thesis using ns(1) demo_key_decode [of None]
    by (simp add: list_keys_def key_list_def demo_keyed_def)
qed

text \<open>A signed request: the \<open>Authorization\<close> header carries the signature given.\<close>

definition demo_wire :: "string \<Rightarrow> string \<Rightarrow> target \<Rightarrow> string \<Rightarrow> request" where
  "demo_wire m p tgt sig =
     \<lparr>rq_method = m, rq_path = p, rq_query = None,
      rq_headers = [(''authorization'', auth_header ''ak'' ''d/r/s3/aws4_request'' [''host''] sig), (''host'', ''h''),
        (''x-amz-date'', ''d''), (''x-amz-content-sha256'', ''p'')],
      rq_target = tgt, rq_body = \<lparr>rd_bytes = [], rd_error = None\<rparr>\<rparr>"

lemma demo_wire_simps [simp]:
  "rq_method (demo_wire m p tgt sig) = m" "rq_path (demo_wire m p tgt sig) = p" "rq_query (demo_wire m p tgt sig) = None"
  "rq_target (demo_wire m p tgt sig) = tgt"
  by (simp_all add: demo_wire_def)

lemma demo_wire_owner:
  "\<exists>sig. verify_sigv4 demo pd (from_records [demo_key]) (signed_of demo_web (demo_wire m p tgt sig)) (Some 0)
     = Some (Inr (Owner ''ak''))"
proof -
  have f: "field_ok ''ak''" "CHR ''/'' \<notin> set ''ak''" "field_ok ''d/r/s3/aws4_request''" "[''host''] \<noteq> []"
    "\<forall>h \<in> set [''host'']. field_ok h \<and> CHR '';'' \<notin> set h"
    by (simp_all add: field_ok_def graphic_def)
  have ht: "hv_text demo_web (auth_header ''ak'' ''d/r/s3/aws4_request'' [''host''] sig)" if "field_ok sig" for sig
    using field_okD(1) [OF that] by (auto simp: auth_header_def graphic_def list_all_iff)
  have hs: "sr_headers (signed_of demo_web (demo_wire m p tgt sig)) =
      [(''authorization'', auth_header ''ak'' ''d/r/s3/aws4_request'' [''host''] sig), (''host'', ''h''),
       (''x-amz-date'', ''d''), (''x-amz-content-sha256'', ''p'')]" if "field_ok sig" for sig
    using ht [OF that] by (simp add: signed_of_def signed_headers_def demo_wire_def to_ascii_lowercase_def graphic_def)
  have "trim ''h'' = ''h''" by (rule trim_graphic) (simp add: graphic_def)
  then have "\<exists>b. \<forall>sig. field_ok sig \<longrightarrow> sign demo ''secret'' m p [] (sr_headers (signed_of demo_web (demo_wire m p tgt sig)))
      [''host''] ''d'' ''d/r/s3/aws4_request'' ''p'' = Some (Inr (hex_encode demo b))"
    by (simp add: hs sign_def canonical_query_def Let_def del: demo_simps) blast
  then obtain b where b: "\<forall>sig. field_ok sig \<longrightarrow> sign demo ''secret'' m p [] (sr_headers (signed_of demo_web (demo_wire m p tgt sig)))
      [''host''] ''d'' ''d/r/s3/aws4_request'' ''p'' = Some (Inr (hex_encode demo b))" by blast
  let ?sig = "hex_encode demo b"
  have s: "field_ok ?sig" using field_ok_hex [OF demo_hex_ok] .
  have fields: "sr_method (signed_of demo_web (demo_wire m p tgt ?sig)) = m" "sr_path (signed_of demo_web (demo_wire m p tgt ?sig)) = p"
    "sr_query (signed_of demo_web (demo_wire m p tgt ?sig)) = []" by (simp_all add: signed_of_def)
  have "signed_parts pd (signed_of demo_web (demo_wire m p tgt ?sig)) 0 = Some (Inr (Some
      (\<lparr>pa_access_key = ''ak'', pa_scope = ''d/r/s3/aws4_request'', pa_signed_headers = [''host''], pa_signature = ?sig\<rparr>,
       [], ''d'', ''p'')))"
    using parse_auth_header [OF f(1-3) s f(4,5)] by (simp add: signed_parts_def hs [OF s] fields ok_or_def del: demo_simps)
  moreover have "creds_secret (from_records [demo_key]) ''ak'' = Some ''secret''"
    by (simp add: creds_secret_def from_records_def demo_key_def)
  ultimately have "verify_sigv4 demo pd (from_records [demo_key]) (signed_of demo_web (demo_wire m p tgt ?sig)) (Some 0)
      = Some (Inr (Owner ''ak''))"
    using b s by (simp add: verify_sigv4_def verify_sigv4_at_def fields del: demo_simps)
  then show ?thesis by blast
qed

text \<open>Creating a pot changes the engine.\<close>

definition created :: response where
  "created = \<lparr>status = 200, resp_headers = [(''location'', ''/c'')], resp_body = Full []\<rparr>"

lemma demo_creates:
  assumes "flat_ok demo (disk e)" "contents (disk e) (meta_path demo ''c'') = None"
    and "rq_method rq = ''PUT''" "rq_target rq = AtPot ''c''"
  shows "\<exists>e'. s3_respond demo demo_web mx rq now t e = (created, e') \<and> e' \<noteq> e"
proof -
  let ?d = "put_file (meta_path demo ''c'') (config_to_json demo bucket_config_default) (disk e)"
  have g: "good (meta_path demo ''c'')" by (simp add: good_meta)
  have "\<not> meta_exists demo (disk e) ''c''"
    using assms(1,2) g by (simp add: meta_exists_def flat_ok_def exists_good)
  then have "create_bucket demo ''c'' e = (Inr (), e\<lparr>disk := ?d\<rparr>)"
    using meta_set_config_eq [OF assms(1), of "''c''"] by (simp add: create_bucket_def on_disk_def)
  then have run: "s3_respond demo demo_web mx rq now t e = (created, e\<lparr>disk := ?d\<rparr>)"
    using assms(3,4) by (simp add: s3_respond_def s3_dispatch_def s3_create_bucket_def created_def graphic_def)
  have "contents ?d (meta_path demo ''c'') \<noteq> None" using g by (simp add: contents_put_file)
  then have "?d \<noteq> disk e" using assms(2) by metis
  then have "disk (e\<lparr>disk := ?d\<rparr>) \<noteq> disk e" by simp
  then have "e\<lparr>disk := ?d\<rparr> \<noteq> e" by metis
  with run show ?thesis by blast
qed

lemma demo_keyed_no_meta: "contents (disk demo_keyed) (meta_path demo b) = None"
  using demo_ak(2) by (simp add: demo_keyed_def contents_put_file meta_path_def key_path_def)

end
