(* ===== verification/S3_Props.thy ===== *)
theory S3_Props
  imports Demo_S3
begin

text \<open>What the S3 door lets through, what it does with it, and that its formats read back.\<close>

text \<open>
  C9: while keys can be listed, a request that changes the engine was signed: the verifier accepted
  the request for the access key of a stored record that is not read-only and whose scope covers the
  pot named first in the path, and its method is neither GET nor HEAD.
\<close>

theorem s3_change_is_authorised:
  assumes "s3_serve X W rq clock now t st = Some (resp, st')" "st_engine st' \<noteq> st_engine st"
    and "list_keys X (st_engine st) = Inr ks" "ks \<noteq> []"
  shows "\<exists>a r. verify_sigv4 X (amz_time W) (from_records ks) (signed_of W rq) clock = Some (Inr (Owner a)) \<and>
     r \<in> set ks \<and> access_key r = a \<and> \<not> read_only r \<and> scoped_to r (path_bucket (rq_path rq)) \<and>
     rq_method rq \<noteq> ''GET'' \<and> rq_method rq \<noteq> ''HEAD''"
proof -
  let ?e = "st_engine st"
  have ks: "live_keys X ?e = ks" using assms(3) by (simp add: live_keys_def)
  have auth: "authenticate X W rq clock ?e = Some (Inr ())"
    and st': "s3_respond X W (max_upload_bytes st) rq now t ?e = (resp, st_engine st')"
    using s3_serve_cases [OF assms(1)] assms(2) by metis+
  have w: "action_of (rq_method rq) \<noteq> Read"
    using read_method_keeps [of rq X W "max_upload_bytes st" now t ?e] assms(2) st' by auto
  from authenticate_admits [OF auth] obtain p where
    p: "verify_sigv4 X (amz_time W) (from_records ks) (signed_of W rq) clock = Some (Inr p)"
      "authorize (case p of Owner a \<Rightarrow> creds_record (from_records ks) a | Anonymous \<Rightarrow> None)
         (action_of (rq_method rq)) (path_bucket (rq_path rq)) (public_pot X ?e (path_bucket (rq_path rq)))"
    using assms(4) ks by auto
  from authorize_cases [OF p(2)] p(1) w show ?thesis by (auto simp: action_Read_iff)
qed

theorem s3_change_is_authorised_witness:
  "\<exists>sig resp st'. s3_serve demo demo_web (demo_wire ''PUT'' ''/c'' (AtPot ''c'') sig) (Some 0) 0 0
       \<lparr>st_engine = demo_keyed, max_upload_bytes = 10\<rparr> = Some (resp, st') \<and> st_engine st' \<noteq> demo_keyed \<and>
     scoped_to demo_key ''c''"
proof -
  let ?st = "\<lparr>st_engine = demo_keyed, max_upload_bytes = 10\<rparr>"
  from demo_wire_owner obtain sig where
    v: "verify_sigv4 demo (amz_time demo_web) (from_records [demo_key])
      (signed_of demo_web (demo_wire ''PUT'' ''/c'' (AtPot ''c'') sig)) (Some 0) = Some (Inr (Owner ''ak''))" by blast
  let ?rq = "demo_wire ''PUT'' ''/c'' (AtPot ''c'') sig"
  have bucket: "path_bucket ''/c'' = ''c''" by (simp add: path_bucket_def)
  have sp: "sr_path (signed_of demo_web ?rq) = ''/c''" by (simp add: signed_of_def)
  have rec: "creds_record (from_records [demo_key]) ''ak'' = Some demo_key"
    by (simp add: creds_record_def from_records_def demo_key_def)
  have auth: "authenticate demo demo_web ?rq (Some 0) demo_keyed = Some (Inr ())"
    using v rec by (simp add: authenticate_def live_keys_def demo_keyed_list sp bucket authorize_def)
      (simp add: demo_key_def scoped_to_def)
  have "rq_method ?rq = ''PUT''" "rq_target ?rq = AtPot ''c''" by simp_all
  from demo_creates [OF demo_keyed_keys(2) demo_keyed_no_meta this, of 10 0 0] obtain e' where
    e: "s3_respond demo demo_web 10 ?rq 0 0 demo_keyed = (created, e')" "e' \<noteq> demo_keyed" by blast
  with auth have run: "s3_serve demo demo_web ?rq (Some 0) 0 0 ?st = Some (created, ?st\<lparr>st_engine := e'\<rparr>)"
    by (simp add: s3_serve_def)
  from s3_change_is_authorised [OF run _ _, of "[demo_key]"] e(2) demo_keyed_list bucket
  have "scoped_to demo_key ''c''" by auto
  with run e(2) show ?thesis by (intro exI conjI) auto
qed

text \<open>
  C39: a key directory with one record that cannot be decoded (corrupt JSON, or a sealed secret and
  no master key) is read as an empty one: every request is answered as in the open mode, whatever
  its signature.
\<close>

theorem unreadable_key_opens_door:
  assumes "flat_ok X (disk (st_engine st))" "hex_ok X"
    and "contents (disk (st_engine st)) [key_dir, f] = Some b" "good [key_dir, f]" "f \<noteq> []"
    and "\<not> starts_with_char CHR ''.'' (utf8_lossy f)"
    and "try_then (ok_or Serde (key_of_json X b)) (key_decode X (cipher (st_engine st))) = Inl err"
  shows "s3_serve X W rq clock now t st =
     (case s3_respond X W (max_upload_bytes st) rq now t (st_engine st) of
        (resp, e') \<Rightarrow> Some (resp, st\<lparr>st_engine := e'\<rparr>))"
proof -
  from bad_record_fails [OF assms(1-3,5,6,4,7)] have "live_keys X (st_engine st) = []"
    by (auto simp: live_keys_def)
  then show ?thesis by (simp add: s3_serve_def authenticate_def)
qed

theorem unreadable_key_opens_door_witness:
  "\<exists>st st'. contents (disk (st_engine st)) (key_path demo ''ak'') = Some (key_to_json demo demo_stored) \<and>
     s3_serve demo demo_web \<lparr>rq_method = ''PUT'', rq_path = ''/c'', rq_query = None, rq_headers = [],
       rq_target = AtPot ''c'', rq_body = \<lparr>rd_bytes = [], rd_error = None\<rparr>\<rparr> None 0 0 st = Some (created, st') \<and>
     st_engine st' \<noteq> st_engine st"
proof -
  let ?rq = "\<lparr>rq_method = ''PUT'', rq_path = ''/c'', rq_query = None, rq_headers = [],
       rq_target = AtPot ''c'', rq_body = \<lparr>rd_bytes = [], rd_error = None\<rparr>\<rparr>"
  let ?sealed = "demo_stored\<lparr>secret_enc := Some ''00'', sk_secret_key := None\<rparr>"
  let ?d = "put_file [key_dir, ''x.json''] (key_to_json demo ?sealed) (disk demo_keyed)"
  let ?st = "\<lparr>st_engine = demo_on ?d, max_upload_bytes = 10\<rparr>"
  have g: "good [key_dir, ''x.json'']" by (simp add: good_def name_error_def NAME_MAX_def)
  have fl: "flat_ok demo (disk (st_engine ?st))" using demo_keyed_keys(2) g by (simp add: flat_ok_put_file)
  have c: "contents ?d q = (if q = [key_dir, ''x.json''] then Some (key_to_json demo ?sealed) else contents (disk demo_keyed) q)" for q
    using g by (simp add: contents_put_file)
  obtain h where h: "key_path demo ''ak'' = [key_dir, h]" "h = hex_encode demo (as_bytes ''ak'') @ ''.json''"
    by (simp add: key_path_def)
  have "length h = 9" using hex_okD(2) [OF demo_hex_ok, of "as_bytes ''ak''"] h(2) by simp
  then have "h \<noteq> ''x.json''" by auto
  then have ak: "contents ?d (key_path demo ''ak'') = Some (key_to_json demo demo_stored)"
    using c h(1) demo_ak(2) by (simp add: demo_keyed_def contents_put_file)
  have bad: "try_then (ok_or Serde (key_of_json demo (key_to_json demo ?sealed))) (key_decode demo (cipher (st_engine ?st)))
      = Inl (Crypto ''key store is encrypted but no master key is configured'')"
    by (simp add: json_okD [OF demo_json_ok] key_decode_def)
  have at: "contents (disk (st_engine ?st)) [key_dir, ''x.json''] = Some (key_to_json demo ?sealed)" using c by simp
  have dot: "\<not> starts_with_char CHR ''.'' (utf8_lossy ''x.json'')"
    by (simp add: utf8_lossy_ascii starts_with_char_def)
  have "contents (disk (st_engine ?st)) (meta_path demo ''c'') = None"
    using c demo_keyed_no_meta by (simp add: meta_path_def)
  from demo_creates [OF fl this, of ?rq 10 0 0] obtain e' where
    e: "s3_respond demo demo_web 10 ?rq 0 0 (demo_on ?d) = (created, e')" "e' \<noteq> demo_on ?d" by auto
  from unreadable_key_opens_door [OF fl demo_hex_ok at g _ dot bad, of demo_web ?rq None 0 0] e(1)
  have "s3_serve demo demo_web ?rq None 0 0 ?st = Some (created, ?st\<lparr>st_engine := e'\<rparr>)" by simp
  moreover have "contents (disk (st_engine ?st)) (key_path demo ''ak'') = Some (key_to_json demo demo_stored)"
    "st_engine (?st\<lparr>st_engine := e'\<rparr>) \<noteq> st_engine ?st" using ak e(2) by simp_all
  ultimately show ?thesis by blast
qed

text \<open>
  C38: an upload id is not tied to the path it is used under. Against a path \<open>/c/j\<close> that is not the one
  the upload was created for, with only \<open>uploadId\<close> in the query: a GET lists the upload's parts, a
  DELETE aborts it, and a POST completes it. The completion answers 200 with a document that names
  \<open>c\<close> and \<open>j\<close>, but the version it makes, the concatenation of the named parts, is appended to
  the history of the pot and key the upload was created for; every other history, the one of the path
  included, stays as it was.
\<close>

theorem upload_id_ignores_path:
  assumes ok: "store_ok X B M (disk e)" and up: "map_of (multipart e) i = Some up"
    and v: "valid_bucket (up_bucket up)" "valid_key (up_key up)"
    and rq: "rq_target rq = AtObject c j" "(c, j) \<noteq> (up_bucket up, up_key up)"
      "map_of (parse_query (rq_query rq)) ''uploadId'' = Some i" "map_of (parse_query (rq_query rq)) ''uploads'' = None"
      "collect_body W (rq_body rq) MAX_COMPLETE_BODY = Inr body"
    and dec: "decoder_for (up_codec up) = Inr dec" and cdc: "build_codec (up_codec up) (up_level up) = Inr cd"
    and got: "try_map (gather_part X e dec (up_parts up))
        (if parse_complete_parts body = [] then map fst (up_parts up) else parse_complete_parts body) = Inr got"
    and M: "manifest_body X (complete_manifest X e up cd got t) \<in> M"
  shows "(\<exists>ps. list_parts e i = Inr (Some (up_bucket up, up_key up, ps)) \<and>
       s3_dispatch X W mx (rq\<lparr>rq_method := ''GET''\<rparr>) now t e =
         (Inr (xml_response (list_parts_xml (up_bucket up) (up_key up) i ps)), e)) \<and>
     (\<exists>e'. s3_dispatch X W mx (rq\<lparr>rq_method := ''DELETE''\<rparr>) now t e = (Inr (bare 204), e') \<and>
       disk e' = disk e \<and> map_of (multipart e') i = None) \<and>
     (\<exists>resp oid e' h. s3_dispatch X W mx (rq\<lparr>rq_method := ''POST''\<rparr>) now t e = (Inr resp, e') \<and>
       status resp = 200 \<and> resp_body resp = resp_body (xml_response (complete_xml c j (show_hash X oid))) \<and>
       eng_history X e (up_bucket up) (up_key up) = Inr h \<and>
       eng_history X e' (up_bucket up) (up_key up) = Inr (h @ [oid]) \<and>
       get X e' (up_bucket up) (up_key up) = Inr (Some (concat (map snd got))) \<and>
       (\<forall>b k. valid_bucket b \<longrightarrow> valid_key k \<longrightarrow> (b, k) \<noteq> (up_bucket up, up_key up) \<longrightarrow>
          eng_history X e' b k = eng_history X e b k) \<and>
       map_of (multipart e') i = None)"
proof (intro conjI)
  show "\<exists>ps. list_parts e i = Inr (Some (up_bucket up, up_key up, ps)) \<and>
       s3_dispatch X W mx (rq\<lparr>rq_method := ''GET''\<rparr>) now t e =
         (Inr (xml_response (list_parts_xml (up_bucket up) (up_key up) i ps)), e)"
    using up rq(1,3) by (simp add: s3_dispatch_def s3_get_object_def read_only_op_def list_parts_def)
  show "\<exists>e'. s3_dispatch X W mx (rq\<lparr>rq_method := ''DELETE''\<rparr>) now t e = (Inr (bare 204), e') \<and>
       disk e' = disk e \<and> map_of (multipart e') i = None"
    using up rq(1,3) by (simp add: s3_dispatch_def s3_delete_object_def abort_multipart_def delete_conv')
next
  from complete_gathered [OF ok up v dec cdc got M] obtain oid e' where
    run: "complete_multipart X i (parse_complete_parts body) t e = (Inr oid, e')" and
    c: "store_ok X B M (disk e')" "read_manifest_bytes X e' oid = Inr (concat (map snd got))"
      "\<forall>b k. log_at X (disk e') b k =
        (if b = up_bucket up \<and> k = up_key up then log_at X (disk e) b k @ [oid] else log_at X (disk e) b k)"
      "multipart e' = AList.delete i (multipart e)" by (elim exE conjE) (rule that)
  have m: "map_of (multipart e') i = None" using c(4) by (simp add: delete_conv')
  have h: "eng_history X e (up_bucket up) (up_key up) = Inr (log_at X (disk e) (up_bucket up) (up_key up))"
    "eng_history X e' (up_bucket up) (up_key up) = Inr (log_at X (disk e) (up_bucket up) (up_key up) @ [oid])"
    using history_eq(1) [OF store_okD(3) [OF ok] v] history_eq(1) [OF store_okD(3) [OF c(1)] v] c(3)
    by (simp_all add: eng_history_def)
  have o: "eng_history X e' b k = eng_history X e b k"
    if "valid_bucket b" "valid_key k" "(b, k) \<noteq> (up_bucket up, up_key up)" for b k
    using history_eq(1) [OF store_okD(3) [OF ok] that(1,2)] history_eq(1) [OF store_okD(3) [OF c(1)] that(1,2)] c(3) that(3)
    by (auto simp: eng_history_def)
  have g: "get X e' (up_bucket up) (up_key up) = Inr (Some (concat (map snd got)))"
    using get_eq [OF c(1) v] c(2,3) by simp
  let ?r = "xml_response (complete_xml c j (show_hash X oid))"
  let ?resp = "?r\<lparr>resp_headers := resp_headers ?r @ [object_id_header W (show_hash X oid)]\<rparr>"
  have "s3_dispatch X W mx (rq\<lparr>rq_method := ''POST''\<rparr>) now t e = (Inr ?resp, e')"
    using rq run by (simp add: s3_dispatch_def s3_post_object_def call_def Let_def)
  moreover have "status ?resp = 200" "resp_body ?resp = resp_body ?r" by (simp_all add: xml_response_def)
  ultimately show "\<exists>resp oid e' h. s3_dispatch X W mx (rq\<lparr>rq_method := ''POST''\<rparr>) now t e = (Inr resp, e') \<and>
       status resp = 200 \<and> resp_body resp = resp_body (xml_response (complete_xml c j (show_hash X oid))) \<and>
       eng_history X e (up_bucket up) (up_key up) = Inr h \<and>
       eng_history X e' (up_bucket up) (up_key up) = Inr (h @ [oid]) \<and>
       get X e' (up_bucket up) (up_key up) = Inr (Some (concat (map snd got))) \<and>
       (\<forall>b k. valid_bucket b \<longrightarrow> valid_key k \<longrightarrow> (b, k) \<noteq> (up_bucket up, up_key up) \<longrightarrow>
          eng_history X e' b k = eng_history X e b k) \<and>
       map_of (multipart e') i = None" using h g o m by blast
qed

text \<open>An upload created for \<open>b/k\<close>, one part sent, completed with a POST to \<open>/c/x\<close>.\<close>

theorem upload_id_ignores_path_witness:
  "\<exists>e resp oid e'. map_of (multipart e) ''u'' \<noteq> None \<and>
     s3_dispatch demo demo_web 9 \<lparr>rq_method = ''POST'', rq_path = ''/c/x'', rq_query = Some ''uploadId=u'', rq_headers = [],
       rq_target = AtObject ''c'' ''x'', rq_body = \<lparr>rd_bytes = [], rd_error = None\<rparr>\<rparr> 10 10 e = (Inr resp, e') \<and>
     resp_body resp = Full (as_bytes (complete_xml ''c'' ''x'' (show_hash demo oid))) \<and>
     eng_history demo e' ''b'' ''k'' = Inr [oid] \<and> get demo e' ''b'' ''k'' = Inr (Some [1, 2])"
proof -
  let ?rq = "\<lparr>rq_method = ''GET'', rq_path = ''/c/x'', rq_query = Some ''uploadId=u'', rq_headers = [],
       rq_target = AtObject ''c'' ''x'', rq_body = \<lparr>rd_bytes = [], rd_error = None\<rparr>\<rparr> :: request"
  let ?up = "new_upload ''b'' ''k'' ''text/plain'' demo_ep" and ?part = "staged_of demo [[1, 2]] [1, 2]"
  let ?s = "demo_engine\<lparr>multipart := [(''u'', ?up)]\<rparr>" and ?got = "[(?part, [1, 2 :: 8 word])]"
  let ?e = "upload_all demo ''u'' 9 [(1, [1, 2])] ?s"
  let ?M = "{manifest_body demo (complete_manifest demo ?s ?up Raw ?got 10)}"
  have ok0: "store_ok demo small_bufs ?M (disk ?s)" by (simp add: demo_store_ok)
  have c: "build_codec (up_codec ?up) (up_level ?up) = Inr Raw"
    by (simp add: new_upload_def demo_ep_def build_codec_def)
  have enc: "encodable_parts demo Raw small_bufs 9 [(1, [1, 2])] [[[1, 2]]]"
    by (simp add: encodable_parts_def encodes_def chunk_split_def demo_simps slices_def small_bufs_def
        codec_encode_def numeral_eq_Suc)
  have none: "parts_hold demo small_bufs (disk ?s) Raw (up_parts ?up) (\<lambda>_. None)"
    by (simp add: parts_hold_def new_upload_def)
  have "map_of (multipart ?s) ''u'' = Some ?up" by simp
  from upload_all_ok [OF demo_cdc_ok ok0 this c enc none] obtain up where
    u: "store_ok demo small_bufs ?M (disk ?e)" "others [chunk_dir] (disk ?s) (disk ?e)"
      "eng_policy ?e = eng_policy ?s" "map_of (multipart ?e) ''u'' = Some up"
      "up = ?up\<lparr>up_pinned := up_pinned ?up @ map (hash_of demo) (concat [[[1, 2]]]), up_parts := stage_all demo [(1, [1, 2])] [[[1, 2]]] (up_parts ?up)\<rparr>"
      "parts_hold demo small_bufs (disk ?e) Raw (up_parts up) ((\<lambda>_. None) ++ map_of (rev [(1, [1, 2])]))"
    by (elim exE conjE) (rule that)
  have f: "up_bucket up = ''b''" "up_key up = ''k''" "up_codec up = ''none''" "up_level up = 0" "up_parts up = [(1, ?part)]"
    by (simp_all add: u(5) new_upload_def demo_ep_def)
  have dec: "decoder_for (up_codec up) = Inr Raw" and bc: "build_codec (up_codec up) (up_level up) = Inr Raw"
    by (simp_all add: f decoder_for_def build_codec_def)
  have "named_parts demo small_bufs (disk ?e) Raw (up_parts up) [1] ?got"
    using named_session [of demo small_bufs "disk ?e" Raw "up_parts up" "[(1, [1, 2])]" "[1]"] u(6)
    by (simp add: last_body_def f(5))
  note gathered = gather_parts_ok [OF demo_zstd_ok bc dec this]
  have no_parts: "parse_complete_parts [] = []"
    using from_utf8_lossy_as_bytes [of "[]"]
    by (simp add: parse_complete_parts_def utf8_valid_ascii as_bytes_def part_numbers.simps find_sub.simps PART_OPEN_def)
  from gathered
  have g: "try_map (gather_part demo ?e Raw (up_parts up))
      (if parse_complete_parts [] = [] then map fst (up_parts up) else parse_complete_parts []) = Inr ?got"
    by (simp add: f(5) no_parts)
  have "complete_manifest demo ?e up Raw ?got 10 = complete_manifest demo ?s ?up Raw ?got 10"
    using new_manifest_policy [of ?e ?s demo] u(3) by (simp add: complete_manifest_def u(5))
  then have M: "manifest_body demo (complete_manifest demo ?e up Raw ?got 10) \<in> ?M" by simp
  have q: "map_of (parse_query (rq_query ?rq)) ''uploadId'' = Some ''u''"
    "map_of (parse_query (rq_query ?rq)) ''uploads'' = None"
    by (simp_all add: parse_query_def insert_pair_def)
  have body: "collect_body demo_web (rq_body ?rq) MAX_COMPLETE_BODY = Inr []" by (simp add: collect_body_def)
  have names: "valid_bucket (up_bucket up)" "valid_key (up_key up)" "(''c'', ''x'') \<noteq> (up_bucket up, up_key up)"
    by (simp_all add: f)
  have l: "log_at demo (disk ?e) ''b'' ''k'' = []"
    using others_agree [OF u(2), THEN log_at_agree, of demo "''b''" "''k''"] by (simp add: log_at_def)
  have h: "eng_history demo ?e ''b'' ''k'' = Inr []"
    using history_eq(1) [OF store_okD(3) [OF u(1)], of "''b''" "''k''"] l by (simp add: eng_history_def)
  from upload_id_ignores_path [OF u(1,4) names(1,2) _ names(3) q body dec bc g M, where mx = 9 and now = 10] h u(4)
  show ?thesis by (intro exI [of _ ?e]) (auto simp: f xml_response_def)
qed

text \<open>A header value may be any string of visible ASCII and spaces (\<open>HeaderValue::from_str\<close>).\<close>

definition takes_visible :: "web \<Rightarrow> bool" where
  "takes_visible W \<longleftrightarrow> (\<forall>s. list_all (\<lambda>c. graphic c \<or> c = CHR '' '') s \<longrightarrow> hv_ok W s)"

lemma id_headers:
  assumes "takes_visible W" "hex_ok X"
  shows "etag W (show_hash X i) = ''\"'' @ show_hash X i @ ''\"''" "hv W (show_hash X i) = show_hash X i"
proof -
  have "list_all graphic (show_hash X i)"
    using hex_okD(3) [OF assms(2), of "hash_bytes i"]
    by (auto simp: show_hash_def list_all_iff graphic_def hex_digits_def dest!: subsetD)
  then have "list_all (\<lambda>c. graphic c \<or> c = CHR '' '') (show_hash X i)" by (auto simp: list_all_iff)
  moreover from this have "list_all (\<lambda>c. graphic c \<or> c = CHR '' '') (quoted (show_hash X i))"
    by (simp add: quoted_def graphic_def)
  ultimately have "hv_ok W (show_hash X i)" "hv_ok W (quoted (show_hash X i))"
    using assms(1) by (simp_all add: takes_visible_def)
  then show "etag W (show_hash X i) = ''\"'' @ show_hash X i @ ''\"''" "hv W (show_hash X i) = show_hash X i"
    by (simp_all add: etag_def hv_def quoted_def)
qed

text \<open>
  C26: a PUT through the door reads back through it. It adds one version to the key's history, and its
  answer carries that version's id, in quotes as the entity tag and bare in the object id header. A GET
  then streams pieces that concatenate to the bytes sent, with their length and the content type of the
  PUT, and a HEAD answers the same length, entity tag and id.
\<close>

theorem s3_put_then_get:
  assumes w: "writable X B M e b k" and lock: "ensure_unlocked X b k now e = Inr ()"
    and ep: "effective_policy X b (request_content_type W hs) e = Inr ep"
    and enc: "encodes X (ep_codec ep) B (chunk_split X data) encs"
    and M: "manifest_body X (put_manifest X e (request_content_type W hs) ep encs data t) \<in> M"
    and len: "length data \<le> mx" and hv: "hv_ok W (request_content_type W hs)" and vis: "takes_visible W"
  shows "\<exists>resp e' h i xs. s3_put_object X W mx b k None hs \<lparr>rd_bytes = data, rd_error = None\<rparr> now t e = (Inr resp, e') \<and>
     eng_history X e b k = Inr h \<and> eng_history X e' b k = Inr (h @ [i]) \<and>
     status resp = 200 \<and> map_of (resp_headers resp) ''etag'' = Some (''\"'' @ show_hash X i @ ''\"'') \<and>
     map_of (resp_headers resp) ''x-barme-object-id'' = Some (show_hash X i) \<and>
     s3_get_object X W b k None e' = Inr
       \<lparr>status = 200, resp_headers = [(''content-type'', request_content_type W hs), (''content-length'', show_nat (length data))],
        resp_body = Pieces (map Inr xs)\<rparr> \<and> concat xs = data \<and>
     (\<exists>hd. s3_head_object X W b k e' = Inr hd \<and> status hd = 200 \<and>
        map_of (resp_headers hd) ''etag'' = Some (''\"'' @ show_hash X i @ ''\"'') \<and>
        map_of (resp_headers hd) ''x-barme-object-id'' = Some (show_hash X i) \<and>
        map_of (resp_headers hd) ''content-length'' = Some (show_nat (length data)))"
proof -
  let ?ct = "request_content_type W hs"
  let ?m = "with_id X (put_manifest X e ?ct ep encs data t)"
  have cdc: "cdc_ok X" and ok: "store_ok X B M (disk e)" and v: "valid_bucket b" "valid_key k"
    using w by (auto simp: writable_def)
  from put_ok [OF w lock ep enc M] obtain i e' where
    p: "put X b k data ?ct now t e = (Inr i, e')" "store_ok X B M (disk e')" "read_manifest_bytes X e' i = Inr data"
      "log_at X (disk e') b k = log_at X (disk e) b k @ [i]" "manifest_get X (disk e') i = Inr (Some ?m)"
      "i = manifest_id X (put_manifest X e ?ct ep encs data t)"
    by (elim exE conjE) (rule that, simp_all)
  note ids = id_headers [OF vis store_okD(7) [OF ok], of i]
  have hist: "eng_history X e b k = Inr (log_at X (disk e) b k)" "eng_history X e' b k = Inr (log_at X (disk e) b k @ [i])"
    using history_eq(1) [OF store_okD(3) [OF ok] v] history_eq(1) [OF store_okD(3) [OF p(2)] v] p(4)
    by (simp_all add: eng_history_def)
  have m: "content_type (original ?m) = ?ct" "size_bytes (original ?m) = length data" "object_id ?m = i"
    using p(6) by (simp_all add: with_id_def put_manifest_def new_manifest_def)
  have cur: "eng_current X e' b k = Inr (Some i)" using eng_current_eq [OF p(2) v] p(4) by simp
  from read_pieces [OF p(3,5)] obtain xs where
    xs: "map (\<lambda>h. read_chunk X e' h (codec (storage ?m))) (chunks (chunking ?m)) = map Inr xs" "concat xs = data"
    by blast
  have "object_head X e' b k = Inr (Some (?ct, length data, codec (storage ?m), chunks (chunking ?m)))"
    using cur p(5) m by (simp add: object_head_def fetch_manifest_def)
  then have get: "s3_get_object X W b k None e' = Inr
       \<lparr>status = 200, resp_headers = [(''content-type'', ?ct), (''content-length'', show_nat (length data))],
        resp_body = Pieces (map Inr xs)\<rparr>"
    using hv xs(1) by (simp add: s3_get_object_def content_type_value_def)
  have "current_manifest X e' b k = Inr (Some ?m)" using cur p(5) by (simp add: current_manifest_def fetch_manifest_def)
  then have head: "\<exists>hd. s3_head_object X W b k e' = Inr hd \<and> status hd = 200 \<and>
      map_of (resp_headers hd) ''etag'' = Some (etag W (show_hash X i)) \<and>
      map_of (resp_headers hd) ''x-barme-object-id'' = Some (hv W (show_hash X i)) \<and>
      map_of (resp_headers hd) ''content-length'' = Some (show_nat (length data))"
    using m by (simp add: s3_head_object_def object_id_header_def OBJECT_ID_HEADER_def)
  have put: "s3_put_object X W mx b k None hs \<lparr>rd_bytes = data, rd_error = None\<rparr> now t e =
      (Inr \<lparr>status = 200, resp_headers = [(''etag'', etag W (show_hash X i)), object_id_header W (show_hash X i)],
            resp_body = Full []\<rparr>, e')"
    using put_stream_put [OF cdc len, of b k ?ct now t e] p(1) by (simp add: s3_put_object_def)
  let ?r = "\<lparr>status = 200, resp_headers = [(''etag'', etag W (show_hash X i)), object_id_header W (show_hash X i)],
            resp_body = Full []\<rparr>"
  have "status ?r = 200" "map_of (resp_headers ?r) ''etag'' = Some (''\"'' @ show_hash X i @ ''\"'')"
    "map_of (resp_headers ?r) ''x-barme-object-id'' = Some (show_hash X i)"
    by (simp_all add: ids object_id_header_def OBJECT_ID_HEADER_def)
  with put hist get xs(2) head [unfolded ids] show ?thesis by blast
qed

theorem s3_put_then_get_witness:
  "\<exists>resp e' i xs. s3_put_object demo demo_web 3 ''b'' ''k'' None [] \<lparr>rd_bytes = demo_data, rd_error = None\<rparr> 10 10 demo_engine
       = (Inr resp, e') \<and> map_of (resp_headers resp) ''etag'' = Some (''\"'' @ show_hash demo i @ ''\"'') \<and>
     eng_history demo e' ''b'' ''k'' = Inr [i] \<and>
     s3_get_object demo demo_web ''b'' ''k'' None e' = Inr
       \<lparr>status = 200, resp_headers = [(''content-type'', DEFAULT_CONTENT_TYPE), (''content-length'', show_nat 3)],
        resp_body = Pieces (map Inr xs)\<rparr> \<and> concat xs = demo_data"
proof -
  let ?ct = "request_content_type demo_web []"
  let ?M = "{manifest_body demo (put_manifest demo demo_engine ?ct demo_ep [demo_data] demo_data 10)}"
  have w: "writable demo small_bufs ?M demo_engine ''b'' ''k''" by (rule demo_writable) simp
  have ct: "?ct = DEFAULT_CONTENT_TYPE" by (simp add: request_content_type_def)
  have h: "hv_ok demo_web ?ct" by (simp add: ct DEFAULT_CONTENT_TYPE_def graphic_def)
  have l: "length demo_data \<le> 3" "length demo_data = 3" by (simp_all add: demo_data_def)
  have vis: "takes_visible demo_web" by (simp add: takes_visible_def)
  have empty: "eng_history demo demo_engine ''b'' ''k'' = Inr []"
    using history_eq(1) [of demo "[]" "''b''" "''k''"] w store_okD(3) [of demo small_bufs ?M "[]"]
    by (simp add: writable_def eng_history_def log_at_def)
  have m: "manifest_body demo (put_manifest demo demo_engine ?ct demo_ep [demo_data] demo_data 10) \<in> ?M" by simp
  from s3_put_then_get [OF w demo_unlocked demo_effective demo_encodes m l(1) h vis, where now = 10]
  obtain resp e' hist i xs where
    "s3_put_object demo demo_web 3 ''b'' ''k'' None [] \<lparr>rd_bytes = demo_data, rd_error = None\<rparr> 10 10 demo_engine = (Inr resp, e')"
    "eng_history demo demo_engine ''b'' ''k'' = Inr hist" "eng_history demo e' ''b'' ''k'' = Inr (hist @ [i])"
    "map_of (resp_headers resp) ''etag'' = Some (''\"'' @ show_hash demo i @ ''\"'')"
    "s3_get_object demo demo_web ''b'' ''k'' None e' = Inr
       \<lparr>status = 200, resp_headers = [(''content-type'', ?ct), (''content-length'', show_nat (length demo_data))],
        resp_body = Pieces (map Inr xs)\<rparr>" "concat xs = demo_data" by (elim exE conjE) (rule that)
  with empty show ?thesis unfolding ct l(2) by auto
qed

text \<open>
  C34: the door reads a listing request the way the client wrote it: the query built from a prefix, a
  delimiter, a page size and a cursor, each percent- or hex-encoded, is answered with exactly the
  engine's page for them, at most 1000 keys.
\<close>

theorem listing_request_decoded:
  assumes "hex_ok X" "utf8_valid pre" "utf8_valid delim" "n \<le> u64_max"
    and "after \<noteq> Some []" "\<forall>k. after = Some k \<longrightarrow> utf8_valid k"
    and "bucket_exists X e b = Inr True"
    and "list_objects X e b pre delim after (min n 1000) = Inr page"
  shows "\<exists>q. s3_list_objects X W b (Some (client_query X pre delim n after)) e =
       Inr (xml_response (list_objects_xml X W b q page)) \<and>
     lq_prefix q = pre \<and> lq_delimiter q = delim \<and> lq_after q = after \<and> lq_max_keys q = min n 1000"
proof -
  from parse_client_query [OF assms(1-6)] obtain q where
    q: "parse_list_query X (parse_query (Some (client_query X pre delim n after))) = Inr q"
      "lq_prefix q = pre" "lq_delimiter q = delim" "lq_max_keys q = min n MAX_KEYS_LIMIT" "lq_after q = after"
    by blast
  have "map_of (parse_query (Some (client_query X pre delim n after))) ''list-type'' = Some ''2''"
    using client_query_pairs [OF assms(1)] by simp
  then show ?thesis
    using q assms(7,8) by (intro exI [of _ q]) (simp add: s3_list_objects_def MAX_KEYS_LIMIT_def)
qed

theorem listing_request_decoded_witness:
  "\<exists>e q page. list_objects demo e ''b'' ''a b'' ''/'' (Some ''a b&c'') 2 = Inr page \<and>
     s3_list_objects demo demo_web ''b'' (Some (client_query demo ''a b'' ''/'' 2 (Some ''a b&c''))) e =
       Inr (xml_response (list_objects_xml demo demo_web ''b'' q page)) \<and> lq_after q = Some ''a b&c''"
proof -
  let ?d = "put_file (meta_path demo ''b'') (config_to_json demo bucket_config_default) []"
  have g: "good (meta_path demo ''b'')" by (simp add: good_meta)
  have st: "store_ok demo small_bufs {} ?d"
    using meta_set_config_step [OF demo_store_ok, of "{}" "''b''" bucket_config_default]
    by (simp add: meta_set_config_eq)
  have dk: "disk_ok ?d" using g by (simp add: disk_ok_put_file)
  have "meta_exists demo ?d ''b''" using g dk by (simp add: meta_exists_def contents_put_file exists_good)
  then have ex: "bucket_exists demo (demo_on ?d) ''b'' = Inr True" by (simp add: bucket_exists_def)
  from pointer_list_ok [OF store_okD(3) [OF st], of "''b''"] obtain ks where
    ks: "pointer_list demo ?d ''b'' = Inr ks" "set ks = {k. valid_key k \<and> contents ?d (pointer_file demo ''b'' k) \<noteq> None}" by auto
  have "contents ?d (pointer_file demo ''b'' k) = None" for k
    using g by (simp add: contents_put_file pointer_file_def meta_path_def)
  then have "ks = []" using ks(2) by auto
  then obtain page where pg: "list_objects demo (demo_on ?d) ''b'' ''a b'' ''/'' (Some ''a b&c'') 2 = Inr page"
    using ks(1) by (simp add: list_objects_def selected_keys_def walk_start_def)
  have u: "utf8_valid ''a b''" "utf8_valid ''/''" "utf8_valid ''a b&c''" by (simp_all add: utf8_valid_ascii)
  have n: "(2::nat) \<le> u64_max" "min 2 1000 = (2::nat)" by (simp_all add: u64_max_def)
  from listing_request_decoded [OF demo_hex_ok u(1,2) n(1) _ _ ex, of "Some ''a b&c''" page demo_web] u(3) pg n(2)
  obtain q where "s3_list_objects demo demo_web ''b'' (Some (client_query demo ''a b'' ''/'' 2 (Some ''a b&c''))) (demo_on ?d) =
       Inr (xml_response (list_objects_xml demo demo_web ''b'' q page))" "lq_after q = Some ''a b&c''" by auto
  with pg show ?thesis by blast
qed

text \<open>
  The part numbers of a completion body come back in order: the text scanner finds exactly the
  numbers a client wrote, whatever entity tags stand between them.
\<close>

theorem complete_body_round_trip:
  assumes "\<forall>(n, tag) \<in> set ps. n \<le> u32_max \<and> CHR ''<'' \<notin> set tag" "utf8_valid (complete_body ps)"
  shows "parse_complete_parts (as_bytes (complete_body ps)) = map fst ps"
  using part_numbers_complete_body [OF assms(1)] assms(2) by (simp add: parse_complete_parts_def)

theorem complete_body_round_trip_witness:
  "parse_complete_parts (as_bytes (complete_body [(2, ''\"b\"''), (1, ''\"a\"'')])) = [2, 1]"
proof -
  have "utf8_valid (complete_body [(2, ''\"b\"''), (1, ''\"a\"'')])"
    by (rule utf8_valid_ascii) (simp add: complete_body_def show_nat.simps digit_char_def)
  from complete_body_round_trip [OF _ this] show ?thesis by (simp add: u32_max_def)
qed

text \<open>
  Escaped text carries no markup and loses nothing: no angle bracket is left in it, and two texts
  with the same escaped form are equal.
\<close>

theorem xml_escape_safe:
  "CHR ''<'' \<notin> set (xml_escape s) \<and> CHR ''>'' \<notin> set (xml_escape s) \<and> (xml_escape s = xml_escape t \<longleftrightarrow> s = t)"
  using xml_escape_no_markup xml_escape_inj by blast

end
