(* ===== verification/Native_Props.thy ===== *)
theory Native_Props
  imports Native_Objects Demo_S3
begin

text \<open>Who may change what through the native API, and what its share links open.\<close>

text \<open>
  C10: while keys are listed, a request to the native API that changes the store carries the Basic
  credentials of a stored key, and that key is an unrestricted owner key, or the request is one of
  the object writes and the key is not read-only and covers the pot named in its path.
\<close>

theorem native_change_is_authorised:
  assumes "native_serve X W N F mo hs oper st = (rep, st')" "as_engine st' \<noteq> as_engine st"
    and "list_keys X (as_engine st) = Inr ks" "ks \<noteq> []"
  shows "\<exists>r. r \<in> set ks \<and> basic W N hs = Some (access_key r, secret_key r) \<and>
     (is_owner r \<or> (\<exists>w. oper = WriterOp w \<and> \<not> read_only r \<and> scoped_to r (op_pot w)))"
proof -
  let ?e = "as_engine st"
  let ?c = "caller_of X W N ?e hs"
  have shut: "\<not> cl_open ?c" using assms(3,4) by (simp add: caller_open)
  have known: "\<exists>r. r \<in> set ks \<and> basic W N hs = Some (access_key r, secret_key r) \<and> cl_record ?c = Some r"
    if "cl_record ?c \<noteq> None"
    using that caller_record [of X W N ?e hs] assms(3) by auto
  show ?thesis
  proof (cases oper)
    case (StoreQuery q)
    with assms(1,2) show ?thesis by (auto simp: native_serve_def Let_def)
  next
    case (PotQuery q)
    with assms(1,2) show ?thesis by (auto simp: native_serve_def Let_def)
  next
    case (OwnerOp w)
    have "require_owner ?c \<noteq> Inl Forbidden"
    proof
      assume "require_owner ?c = Inl Forbidden"
      from owner_op_guard [OF this] OwnerOp assms(1,2) show False by (auto simp: native_serve_def Let_def)
    qed
    then show ?thesis using shut known by (auto simp: require_owner_def split: option.splits if_splits)
  next
    case (WriterOp w)
    have "require_write ?c (op_pot w) \<noteq> Inl Forbidden"
    proof
      assume "require_write ?c (op_pot w) = Inl Forbidden"
      from writer_op_guard [OF this] WriterOp assms(1,2) show False by (auto simp: native_serve_def Let_def)
    qed
    then show ?thesis using shut known WriterOp
      by (auto simp: require_write_def authorize_def split: option.splits if_splits)
  qed
qed

definition demo_net :: net where
  "demo_net = \<lparr>base64_decode = (\<lambda>s. Some (as_bytes s)), zip_entry_ok = (\<lambda>_ _ _. True), zip_finish = (\<lambda>_. None),
     http_get = (\<lambda>_. Inl []), bad_header = [], sem_text = (\<lambda>_. [])\<rparr>"

definition native_fpu :: fpu where
  "native_fpu = \<lparr>f32_mul = (\<lambda>x y. x * y), f32_div = (\<lambda>x y. x div y), f32_sqrt = (\<lambda>x. x), f32_sum = sum_list\<rparr>"

definition demo_app :: app_state where
  "demo_app = \<lparr>as_engine = demo_keyed, as_semantic = None, cdn_base = ''http://cdn'', as_max_upload = 10, as_started = 0\<rparr>"

definition demo_moment :: moment where
  "demo_moment = \<lparr>mo_now = 10, mo_text = [], mo_instant = 10, mo_nonce = None\<rparr>"

theorem native_change_is_authorised_witness:
  "\<exists>rep st'. native_serve demo demo_web demo_net native_fpu demo_moment [(''authorization'', ''Basic ak:secret'')]
       (OwnerOp (OpPutConfig ''c'' bucket_config_default)) demo_app = (rep, st') \<and>
     as_engine st' \<noteq> as_engine demo_app \<and>
     basic demo_web demo_net [(''authorization'', ''Basic ak:secret'')] = Some (''ak'', ''secret'')"
proof -
  let ?hs = "[(''authorization'', ''Basic ak:secret'')]" and ?op = "OwnerOp (OpPutConfig ''c'' bucket_config_default)"
  let ?d = "put_file (meta_path demo ''c'') (config_to_json demo bucket_config_default) (disk demo_keyed)"
  have "trim ''ak:secret'' = ''ak:secret''" by (rule trim_graphic) (simp add: graphic_def)
  then have b: "basic demo_web demo_net ?hs = Some (''ak'', ''secret'')"
    by (simp add: basic_def header_text_def graphic_def strip_prefix_def demo_net_def utf8_valid_ascii)
  have rec: "creds_record (from_records [demo_key]) ''ak'' = Some demo_key"
    by (simp add: creds_record_def from_records_def demo_key_def)
  have "caller_of demo demo_web demo_net demo_keyed ?hs = \<lparr>cl_open = False, cl_record = Some demo_key\<rparr>"
    using b rec by (simp add: caller_of_def demo_keyed_list) (simp add: demo_key_def)
  moreover have "is_owner demo_key" by (simp add: is_owner_def demo_key_def)
  moreover have "set_bucket_config demo ''c'' bucket_config_default demo_keyed = (Inr (), demo_keyed\<lparr>disk := ?d\<rparr>)"
    using meta_set_config_eq [OF demo_keyed_keys(2), of "''c''"] by (simp add: set_bucket_config_def on_disk_def)
  ultimately have run: "native_serve demo demo_web demo_net native_fpu demo_moment ?hs ?op demo_app =
      (no_content, demo_app\<lparr>as_engine := demo_keyed\<lparr>disk := ?d\<rparr>\<rparr>)"
    by (simp add: native_serve_def Let_def demo_app_def serve_owner_op_def n_put_config_def require_owner_def run_engine_def)
  have g: "good (meta_path demo ''c'')" by (simp add: good_meta)
  have "contents ?d (meta_path demo ''c'') \<noteq> None" using g by (simp add: contents_put_file)
  then have "?d \<noteq> disk demo_keyed" using demo_keyed_no_meta by metis
  then have "disk (demo_keyed\<lparr>disk := ?d\<rparr>) \<noteq> disk demo_keyed" by simp
  then have diff: "as_engine (demo_app\<lparr>as_engine := demo_keyed\<lparr>disk := ?d\<rparr>\<rparr>) \<noteq> as_engine demo_app"
    by (metis app_state.select_convs(1) app_state.update_convs(1) demo_app_def)
  have "list_keys demo (as_engine demo_app) = Inr [demo_key]" by (simp add: demo_app_def demo_keyed_list)
  from native_change_is_authorised [OF run diff this list.distinct(2)]
  have "\<exists>r :: key_record. basic demo_web demo_net ?hs = Some (access_key r, secret_key r)" by blast
  with run diff b show ?thesis by blast
qed

text \<open>
  C37: a key that is scoped to one pot reads any object whose id it knows. Fetching it by hash is
  refused to such a key; restoring the id as a version of a key of its own pot is not, and the pot's
  key then reads as the foreign object.
\<close>

theorem restore_reads_foreign_object:
  assumes "store_ok X B M (disk e)" "valid_bucket b" "valid_key k" "ensure_unlocked X b k now e = Inr ()"
    and "read_object X e i = Inr bs"
    and "\<not> cl_open c" "cl_record c = Some r" "\<not> read_only r" "pots r \<noteq> []" "scoped_to r b"
  shows "n_content X W N c (show_hash X i) e = Inl Forbidden \<and>
     (\<exists>e'. n_restore X c b k (show_hash X i) now e = (Inr no_content, e') \<and> get X e' b k = Inr (Some bs) \<and>
        require_read X e' c b = Inr ())"
proof -
  note ok = assms(1) and v = assms(2,3)
  note S = store_okD [OF ok]
  from assms(5) obtain m where m: "manifest_get X (disk e) i = Inr (Some m)"
    by (auto simp: read_object_def read_manifest_bytes_def fetch_manifest_def result_simps)
  from restore_ok [OF ok v assms(4) m] obtain d where d:
    "restore_version X b k i now e = (Inr (), e\<lparr>disk := d\<rparr>)" "store_ok X B M d" "extends X (disk e) d"
    "\<forall>c j. log_at X d c j = (if c = b \<and> j = k then log_at X (disk e) b k @ [i] else log_at X (disk e) c j)"
    by blast
  let ?e' = "e\<lparr>disk := d\<rparr>"
  have ok': "store_ok X B M (disk ?e')" using d(2) by simp
  have "read_manifest_bytes X ?e' i = Inr bs"
    using read_extends [of X e ?e' i bs] d(3) assms(5) by (simp add: read_object_def)
  then have get: "get X ?e' b k = Inr (Some bs)" using get_eq [OF ok' v] d(4) by simp
  have "parse_hash X (show_hash X i) = Inr i"
    using manifest_get_hash_wf [OF S(6) m] parse_show_hash [OF S(7)] by blast
  then have "n_restore X c b k (show_hash X i) now e = (Inr no_content, ?e')"
    using assms(6-8,10) d(1) by (simp add: n_restore_def require_write_def authorize_def run_engine_def)
  moreover have "n_content X W N c (show_hash X i) e = Inl Forbidden"
    using assms(6,7,9) by (simp add: n_content_def require_owner_def is_owner_def)
  moreover have "require_read X ?e' c b = Inr ()"
    using assms(7,8,10) by (simp add: require_read_def authorize_def)
  ultimately show ?thesis using get by blast
qed

definition guest :: caller where
  "guest = \<lparr>cl_open = False, cl_record = Some (demo_key\<lparr>pots := [''c'']\<rparr>)\<rparr>"

theorem restore_reads_foreign_object_witness:
  "\<exists>e e' i. eng_history demo e ''b'' ''k'' = Inr [i] \<and> \<not> scoped_to (demo_key\<lparr>pots := [''c'']\<rparr>) ''b'' \<and>
     n_content demo demo_web demo_net guest (show_hash demo i) e = Inl Forbidden \<and>
     n_restore demo guest ''c'' ''j'' (show_hash demo i) 10 e = (Inr no_content, e') \<and>
     get demo e' ''c'' ''j'' = Inr (Some demo_data)"
proof -
  obtain i e where p: "store_ok demo small_bufs demo_bodies (disk e)" "read_manifest_bytes demo e i = Inr demo_data"
    "log_at demo (disk e) ''b'' ''k'' = [i]" "others [chunk_dir, manifest_dir, pointer_dir, reverse_dir] [] (disk e)"
    by (rule demo_put) simp
  have h: "eng_history demo e ''b'' ''k'' = Inr [i]"
    using history_eq(1) [OF store_okD(3) [OF p(1)], of "''b''" "''k''"] p(3) by (simp add: eng_history_def)
  have "valid_object (''c'', ''j'')" by (simp add: valid_object_def NAME_MAX_def)
  then have un: "ensure_unlocked demo ''c'' ''j'' 10 e = Inr ()"
    using annotation_get_eq [OF store_okD(9) [OF p(1)], of "(''c'', ''j'')"]
      others_agree [OF p(4), THEN agree_contents, of annotation_dir]
    by (simp add: ensure_unlocked_def annotation_path_def annotation_default_def)
  have rd: "read_object demo e i = Inr demo_data" using p(2) by (simp add: read_object_def)
  have g: "\<not> cl_open guest" "cl_record guest = Some (demo_key\<lparr>pots := [''c'']\<rparr>)"
    "\<not> read_only (demo_key\<lparr>pots := [''c'']\<rparr>)" "pots (demo_key\<lparr>pots := [''c'']\<rparr>) \<noteq> []"
    "scoped_to (demo_key\<lparr>pots := [''c'']\<rparr>) ''c''" "\<not> scoped_to (demo_key\<lparr>pots := [''c'']\<rparr>) ''b''"
    by (simp_all add: guest_def demo_key_def scoped_to_def)
  have v: "valid_bucket ''c''" "valid_key ''j''" by simp_all
  from restore_reads_foreign_object [OF p(1) v un rd g(1-5), of demo_web demo_net] h g(6) show ?thesis by blast
qed

text \<open>
  A share link is served from its making to its expiry, and the pot's visibility plays no part in
  it afterwards: whoever may read the key at that moment (anyone, when the pot is public) gets a link
  that the CDN serves as long as the signing key stays, even once the pot is private again.
\<close>

theorem share_link_outlives_visibility:
  assumes "require_read X e c b = Inr ()" "signing_secret X e = Some secret"
    and "now + secs < 2 ^ 64" "signing_secret X e' = Some secret" "now' \<le> now + secs"
  shows "\<exists>sig. n_presign X c base b k secs now e =
       Inr (Json 200 (AUrl (base @ ''/s/'' @ b @ ''/'' @ k @ ''?exp='' @ show_nat (now + secs) @ ''&sig='' @ sig))) \<and>
     by_presign X W e' b k (now + secs) sig now' req = deliver_current X W e' b k req"
proof -
  have "expiry_of now secs = now + secs"
    using assms(3) by (simp add: expiry_of_def unat_of_nat flip: of_nat_add)
  then show ?thesis using assms
    by (auto simp: n_presign_def Let_def by_presign_def verify_presign_def)
qed

theorem share_link_outlives_visibility_witness:
  "\<exists>url sig. n_presign demo \<lparr>cl_open = False, cl_record = Some demo_key\<rparr> ''http://cdn'' ''b'' ''k'' 60 10 demo_keyed
       = Inr (Json 200 (AUrl url)) \<and>
     is_public demo demo_keyed ''b'' = Inr False \<and>
     by_presign demo demo_web demo_keyed ''b'' ''k'' 70 sig 70 [] = deliver_current demo demo_web demo_keyed ''b'' ''k'' []"
proof -
  let ?c = "\<lparr>cl_open = False, cl_record = Some demo_key\<rparr>"
  have r: "require_read demo demo_keyed ?c ''b'' = Inr ()"
    by (simp add: require_read_def authorize_def demo_key_def scoped_to_def)
  have s: "signing_secret demo demo_keyed = Some ''secret''"
    by (simp add: signing_secret_def demo_keyed_list) (simp add: is_owner_def demo_key_def)
  have p: "is_public demo demo_keyed ''b'' = Inr False"
    using meta_config_eq [OF demo_keyed_keys(2), of "''b''"] demo_keyed_no_meta
    by (simp add: is_public_def get_bucket_config_def bucket_config_default_def)
  from share_link_outlives_visibility [OF r s _ s, of 10 60 70 "''http://cdn''" "''k''" demo_web "[]"] p
  show ?thesis by auto
qed

end
