(* ===== verification/Doors.thy ===== *)
theory Doors
  imports Vault S3 Native_Objects
begin

text \<open>
  The two doors that write, over the one engine they share, against the abstract vault: a request to
  either is one command of the vault or leaves it as it is, whoever sends it and whatever it answers.
  The CDN door only reads.
\<close>

section \<open>What a request asks of the vault\<close>

text \<open>\<open>None\<close>: nothing, whatever else it may write (keys, webhooks, staged parts, an empty pot).\<close>

fun owner_command :: "ext \<Rightarrow> engine \<Rightarrow> owner_op \<Rightarrow> command option" where
  "owner_command X e (OpDeletePot b) = Some (DropPot b)"
| "owner_command X e (OpRenamePot b new) = Some (RenamePot b new)"
| "owner_command X e (OpSetVisibility b p) =
     (case get_bucket_config X e b of Inl err \<Rightarrow> None | Inr cfg \<Rightarrow> Some (Configure b (cfg\<lparr>public_read := p\<rparr>)))"
| "owner_command X e (OpPutConfig b cfg) = Some (Configure b cfg)"
| "owner_command X e (OpCopy m) = Some (Copy (from_bucket m) (from_key m) (to_bucket m) (to_key m))"
| "owner_command X e (OpMove m) = Some (Move (from_bucket m) (from_key m) (to_bucket m) (to_key m))"
| "owner_command X e (OpChunkPut h bs) = (case parse_hash X h of Inl err \<Rightarrow> None | Inr i \<Rightarrow> Some (Receive bs))"
| "owner_command X e (OpCreateKey nk) = None"
| "owner_command X e (OpDeleteKey a) = None"
| "owner_command X e (OpCreateWebhook url evs) = None"
| "owner_command X e (OpDeleteWebhook i) = None"

definition native_content_type :: "web \<Rightarrow> headers \<Rightarrow> string" where
  "native_content_type W hs =
     (case header_text W hs ''content-type'' of None \<Rightarrow> ''application/octet-stream'' | Some v \<Rightarrow> v)"

fun writer_command :: "ext \<Rightarrow> web \<Rightarrow> net \<Rightarrow> nat \<Rightarrow> moment \<Rightarrow> headers \<Rightarrow> writer_op \<Rightarrow> command option" where
  "writer_command X W N mx mo hs (OpImport b url k) =
     (case http_get N url of
        Inr (rhs, Inr content) \<Rightarrow> Some (command.Write b k content (native_content_type W rhs) (mo_now mo) (mo_instant mo))
      | _ \<Rightarrow> None)"
| "writer_command X W N mx mo hs (OpUpload b k r) =
     Some (command.Upload b k (rd_bytes r) (native_content_type W hs) mx (mo_now mo) (mo_instant mo))"
| "writer_command X W N mx mo hs (OpRemove b k) = Some (Remove b k (mo_now mo))"
| "writer_command X W N mx mo hs (OpPutMeta b k a) = Some (Annotate b k a)"
| "writer_command X W N mx mo hs (OpRestore b k i) =
     (case parse_hash X i of Inl err \<Rightarrow> None | Inr h \<Rightarrow> Some (RollBack b k h (mo_now mo)))"
| "writer_command X W N mx mo hs (OpImportObject b k m) = Some (Adopt b k m (mo_now mo))"

text \<open>Completing an upload writes what its parts hold to the pot and key the upload was begun for.\<close>

definition assemble_command :: "ext \<Rightarrow> engine \<Rightarrow> string \<Rightarrow> nat list \<Rightarrow> nat \<Rightarrow> command option" where
  "assemble_command X e i order t =
     (case map_of (multipart e) i of
        None \<Rightarrow> None
      | Some up \<Rightarrow>
          Some (Assemble (up_bucket up) (up_key up)
            (case gathered X e up order of Inl err \<Rightarrow> [] | Inr got \<Rightarrow> concat (map snd got)) i order t))"

definition s3_command :: "ext \<Rightarrow> web \<Rightarrow> nat \<Rightarrow> engine \<Rightarrow> request \<Rightarrow> nat \<Rightarrow> nat \<Rightarrow> command option" where
  "s3_command X W mx e rq now t =
     (let params = parse_query (rq_query rq) in
      case rq_target rq of
        AtPot b \<Rightarrow> if rq_method rq = ''DELETE'' then Some (DropEmpty b) else None
      | AtObject b k \<Rightarrow>
          if rq_method rq = ''PUT'' then
            (if map_of params ''uploadId'' \<noteq> None \<and> map_of params ''partNumber'' \<noteq> None then None
             else Some (command.Upload b k (rd_bytes (rq_body rq)) (request_content_type W (rq_headers rq)) mx now t))
          else if rq_method rq = ''POST'' \<and> map_of params ''uploads'' = None then
            (case map_of params ''uploadId'' of
               None \<Rightarrow> None
             | Some i \<Rightarrow>
                 (case collect_body W (rq_body rq) MAX_COMPLETE_BODY of
                    Inl err \<Rightarrow> None
                  | Inr body \<Rightarrow> assemble_command X e i (parse_complete_parts body) t))
          else if rq_method rq = ''DELETE'' \<and> map_of params ''uploadId'' = None then Some (Remove b k now)
          else None
      | _ \<Rightarrow> None)"

section \<open>Requests the simulation covers\<close>

text \<open>
  Names that fit into file names, whole bodies, and chunks inside the set on which the hash is injective.
\<close>

fun owner_admissible :: "owner_op \<Rightarrow> bool" where
  "owner_admissible (OpCreateKey nk) = valid_pot (nk_access_key nk)"
| "owner_admissible (OpDeleteKey a) = valid_pot a"
| "owner_admissible oper = True"

fun writer_admissible :: "writer_op \<Rightarrow> bool" where
  "writer_admissible (OpUpload b k r) = (rd_error r = None)"
| "writer_admissible oper = True"

definition s3_admissible :: "ext \<Rightarrow> bytes set \<Rightarrow> request \<Rightarrow> bool" where
  "s3_admissible X B rq \<longleftrightarrow>
     rd_error (rq_body rq) = None \<and>
     (\<forall>b. rq_target rq = AtPot b \<longrightarrow> rq_method rq = ''PUT'' \<longrightarrow> valid_pot b) \<and>
     (\<forall>b k. rq_target rq = AtObject b k \<longrightarrow>
        (\<forall>h bs c enc. Inr (h, bs) \<in> set (chunk_stream X (rq_body rq)) \<longrightarrow> codec_encode X c bs = Inr enc \<longrightarrow> enc \<in> B))"

datatype door_request =
    ViaNative moment headers native_op
  | ViaS3 request "nat option" nat nat

record doors =
  dr_web :: web
  dr_net :: net
  dr_fpu :: fpu
  dr_app :: app_state
  dr_max_upload :: nat

fun door_command :: "ext \<Rightarrow> doors \<Rightarrow> engine \<Rightarrow> door_request \<Rightarrow> command option" where
  "door_command X D e (ViaNative mo hs (OwnerOp w)) = owner_command X e w"
| "door_command X D e (ViaNative mo hs (WriterOp w)) =
     writer_command X (dr_web D) (dr_net D) (as_max_upload (dr_app D)) mo hs w"
| "door_command X D e (ViaNative mo hs oper) = None"
| "door_command X D e (ViaS3 rq clock now t) = s3_command X (dr_web D) (dr_max_upload D) e rq now t"

fun door_admissible :: "ext \<Rightarrow> bytes set \<Rightarrow> bytes set \<Rightarrow> doors \<Rightarrow> engine \<Rightarrow> door_request \<Rightarrow> bool" where
  "door_admissible X B M D e rq \<longleftrightarrow>
     (\<forall>c. door_command X D e rq = Some c \<longrightarrow> admissible X B M c e) \<and>
     (case rq of
        ViaNative mo hs (OwnerOp w) \<Rightarrow> owner_admissible w
      | ViaNative mo hs (WriterOp w) \<Rightarrow> writer_admissible w
      | ViaNative mo hs _ \<Rightarrow> True
      | ViaS3 r clock now t \<Rightarrow> s3_admissible X B r)"

text \<open>A request is admitted when the guard of its route lets its caller through.\<close>

definition query_pot :: "pot_query \<Rightarrow> string" where
  "query_pot oper =
     (case oper of
        OpListObjects b \<Rightarrow> b | OpZip b _ \<Rightarrow> b | OpDownload b _ \<Rightarrow> b | OpHistory b _ \<Rightarrow> b | OpManifest b _ \<Rightarrow> b
      | OpGetMeta b _ \<Rightarrow> b | OpDiff b _ _ \<Rightarrow> b | OpVerify b _ \<Rightarrow> b | OpPresign b _ _ \<Rightarrow> b | OpProof b _ _ \<Rightarrow> b
      | OpDelta b _ _ \<Rightarrow> b)"

fun door_admits :: "ext \<Rightarrow> doors \<Rightarrow> engine \<Rightarrow> door_request \<Rightarrow> bool" where
  "door_admits X D e (ViaNative mo hs oper) \<longleftrightarrow>
     (let c = caller_of X (dr_web D) (dr_net D) e hs in
      case oper of
        StoreQuery q \<Rightarrow> True
      | PotQuery q \<Rightarrow> require_read X e c (query_pot q) = Inr ()
      | OwnerOp w \<Rightarrow> require_owner c = Inr ()
      | WriterOp w \<Rightarrow> require_write c (op_pot w) = Inr ())"
| "door_admits X D e (ViaS3 rq clock now t) \<longleftrightarrow> authenticate X (dr_web D) rq clock e = Some (Inr ())"

text \<open>What is sent back, and the engine afterwards; \<open>S3Answer None\<close> is a panic of the signature parser.\<close>

datatype door_answer = NativeAnswer reply | S3Answer "response option"

fun door_serve :: "ext \<Rightarrow> doors \<Rightarrow> door_request \<Rightarrow> engine \<Rightarrow> door_answer \<times> engine" where
  "door_serve X D (ViaNative mo hs oper) e =
     (case native_serve X (dr_web D) (dr_net D) (dr_fpu D) mo hs oper ((dr_app D)\<lparr>as_engine := e\<rparr>) of
        (rep, st) \<Rightarrow> (NativeAnswer rep, as_engine st))"
| "door_serve X D (ViaS3 rq clock now t) e =
     (case s3_serve X (dr_web D) rq clock now t \<lparr>st_engine = e, max_upload_bytes = dr_max_upload D\<rparr> of
        None \<Rightarrow> (S3Answer None, e)
      | Some (resp, st) \<Rightarrow> (S3Answer (Some resp), st_engine st))"

section \<open>What the clients are told\<close>

text \<open>The answer to a request is determined by the request and the outcome of its command.\<close>

fun native_told :: "ext \<Rightarrow> web \<Rightarrow> net \<Rightarrow> native_op \<Rightarrow> outcome \<Rightarrow> reply" where
  "native_told X W N oper (Refused err) = native_error_reply W N (NEngine err)"
| "native_told X W N oper (Stored i) =
     (case oper of
        OwnerOp (OpChunkPut h bs) \<Rightarrow>
          if parse_hash X h = Inr i then no_content else bad_request ''chunk hash does not match body''
      | _ \<Rightarrow> Json 200 (AUploaded (show_hash X i)))"
| "native_told X W N oper (Answer there) = (if there then no_content else not_found)"
| "native_told X W N oper Done = no_content"

fun s3_told :: "ext \<Rightarrow> web \<Rightarrow> request \<Rightarrow> outcome \<Rightarrow> response" where
  "s3_told X W rq (Refused err) = s3_error_response W (S3Engine err)"
| "s3_told X W rq (Stored i) =
     (case rq_target rq of
        AtObject b k \<Rightarrow>
          if rq_method rq = ''PUT'' then
            \<lparr>status = 200, resp_headers = [(''etag'', etag W (show_hash X i)), object_id_header W (show_hash X i)],
             resp_body = Full []\<rparr>
          else
            (let resp = xml_response (complete_xml b k (show_hash X i)) in
             resp\<lparr>resp_headers := resp_headers resp @ [object_id_header W (show_hash X i)]\<rparr>)
      | _ \<Rightarrow> bare 404)"
| "s3_told X W rq (Answer there) = (if there then bare 204 else text_response 409 ''bucket not empty'')"
| "s3_told X W rq Done = bare 204"

fun door_told :: "ext \<Rightarrow> doors \<Rightarrow> door_request \<Rightarrow> outcome \<Rightarrow> door_answer" where
  "door_told X D (ViaNative mo hs oper) r = NativeAnswer (native_told X (dr_web D) (dr_net D) oper r)"
| "door_told X D (ViaS3 rq clock now t) r = S3Answer (Some (s3_told X (dr_web D) rq r))"

text \<open>A request that is not admitted gets 403, or ends in the panic.\<close>

fun turned_away :: "door_answer \<Rightarrow> bool" where
  "turned_away (NativeAnswer (Plain resp)) \<longleftrightarrow> status resp = 403"
| "turned_away (NativeAnswer (Json code a)) \<longleftrightarrow> False"
| "turned_away (S3Answer None) \<longleftrightarrow> True"
| "turned_away (S3Answer (Some resp)) \<longleftrightarrow> status resp = 403"

text \<open>The last of a list of versions as a whole answer, piece by piece; 404 where there is none.\<close>

definition streams :: "response \<Rightarrow> (hash \<times> bytes) list \<Rightarrow> bool" where
  "streams resp vs \<longleftrightarrow>
     (if vs = [] then resp = bare 404
      else status resp = 200 \<and> (\<exists>xs. resp_body resp = Pieces (map Inr xs) \<and> concat xs = snd (last vs)))"

text \<open>What a download or a history tells of the versions; a content type that is no header value is a 500.\<close>

fun tells :: "ext \<Rightarrow> door_request \<Rightarrow> door_answer \<Rightarrow> vault \<Rightarrow> bool" where
  "tells X (ViaNative mo hs (PotQuery (OpHistory b k))) ans V \<longleftrightarrow>
     (valid_bucket b \<and> valid_key k \<longrightarrow>
        ans = NativeAnswer (Json 200 (AIds (map (show_hash X \<circ> fst) (V (b, k))))))"
| "tells X (ViaNative mo hs (PotQuery (OpDownload b k))) ans V \<longleftrightarrow>
     (valid_bucket b \<and> valid_key k \<longrightarrow>
        (\<exists>resp. ans = NativeAnswer (Plain resp) \<and> (streams resp (V (b, k)) \<or> V (b, k) \<noteq> [] \<and> status resp = 500)))"
| "tells X (ViaNative mo hs oper) ans V \<longleftrightarrow> True"
| "tells X (ViaS3 rq clock now t) ans V \<longleftrightarrow>
     (\<forall>b k. rq_target rq = AtObject b k \<and> rq_method rq = ''GET'' \<and>
        map_of (parse_query (rq_query rq)) ''uploadId'' = None \<and> valid_bucket b \<and> valid_key k \<longrightarrow>
        (\<exists>resp. ans = S3Answer (Some resp) \<and> streams resp (V (b, k))))"

text \<open>
  A request as a step of the vault: turned away, it changes nothing; admitted, it takes the step of its
  command and is answered by its outcome; without a command it changes nothing, and a download or a
  history tells what is there.
\<close>

inductive request_step ::
  "ext \<Rightarrow> doors \<Rightarrow> door_request \<Rightarrow> bool \<Rightarrow> command option \<Rightarrow> door_answer \<Rightarrow> vault \<Rightarrow> vault \<Rightarrow> bool" for X D rq where
  turned: "turned_away ans \<Longrightarrow> request_step X D rq False co ans V V"
| looked: "tells X rq ans V \<Longrightarrow> request_step X D rq True None ans V V"
| commanded: "vault_step X c r V V' \<Longrightarrow> request_step X D rq True (Some c) (door_told X D rq r) V V'"

inductive_cases commanded_stepE: "request_step X D rq True (Some c) ans V V'"

section \<open>Steps beside the vault\<close>

definition unmoved :: "ext \<Rightarrow> bytes set \<Rightarrow> bytes set \<Rightarrow> engine \<Rightarrow> engine \<Rightarrow> bool" where
  "unmoved X B M e e' \<longleftrightarrow> vault_ok X B M e' \<and> vault_of X e' = vault_of X e"

lemma unmoved_refl: "vault_ok X B M e \<Longrightarrow> unmoved X B M e e"
  by (simp add: unmoved_def)

lemma unmoved_side:
  assumes v: "vault_ok X B M e" and d: "store_ok X B M (disk e')" "others ts (disk e) (disk e')"
    "extends X (disk e) (disk e')" "pointer_dir \<notin> set ts"
  shows "unmoved X B M e e'"
proof -
  have "log_at X (disk e') b k = log_at X (disk e) b k" for b k
    using others_agree [OF d(2,4), THEN log_at_agree] .
  from vault_same [OF vault_okD(4) [OF v] keeps_extends [OF d(3)] this] d(1) vault_okD [OF v]
  show ?thesis by (simp add: unmoved_def vault_ok_def)
qed

lemma unmoved_disk: "vault_ok X B M e \<Longrightarrow> disk e' = disk e \<Longrightarrow> unmoved X B M e e'"
  by (rule unmoved_side [where ts = "[]"]) (auto dest: vault_okD(3))

lemma snd_last [simp]: "(\<And>x e. snd (f x e) = e) \<Longrightarrow> snd (and_then r f) = snd r"
  by (cases r; cases "fst r") auto

lemma snd_calls [simp]: "snd (run_engine r) = snd r" "snd (call r) = snd r"
  "snd (ask q e) = e"
  by (simp_all add: run_engine_def call_def ask_def)

text \<open>Keys and webhooks are files beside the objects.\<close>

lemma key_side:
  assumes v: "vault_ok X B M e" and a: "valid_pot a"
    and d: "d = disk e \<or> (\<exists>b. d = put_file (key_path X a) b (disk e)) \<or> d = snd (remove_opt (key_path X a) (disk e))"
  shows "unmoved X B M e (e\<lparr>disk := d\<rparr>)"
proof -
  note S = store_okD [OF vault_okD(3) [OF v]]
  have g: "good (key_path X a)" using S(7) a by (rule good_key)
  let ?r = "snd (remove_opt (key_path X a) (disk e))"
  have o: "others [key_dir] (disk e) ?r" by (rule others_remove_opt [OF S(5) g]) (simp add: key_path_def)
  have "side_ok X ?r" using S(4) contents_remove_opt [OF S(5) g] by (auto simp: side_ok_def split: if_splits)
  note r = side_change [OF vault_okD(3) [OF v] disk_ok_remove_opt [OF S(5) g] this others_mono [OF o]]
  have w: "store_ok X B M (put_file (key_path X a) b (disk e))" "extends X (disk e) (put_file (key_path X a) b (disk e))"
    "others [key_dir] (disk e) (put_file (key_path X a) b (disk e))" for b
    using flat_write_step [OF vault_okD(3) [OF v] g [unfolded key_path_def], of b] by (simp_all add: key_path_def)
  from d show ?thesis
  proof (elim disjE exE)
    fix b assume "d = put_file (key_path X a) b (disk e)"
    then show ?thesis using w by (intro unmoved_side [OF v, where ts = "[key_dir]"]) simp_all
  next
    assume "d = ?r"
    then show ?thesis using r o by (intro unmoved_side [OF v, where ts = "[key_dir]"]) simp_all
  qed (use v in \<open>simp add: unmoved_disk\<close>)
qed

lemma webhook_side:
  assumes v: "vault_ok X B M e" and d: "d = disk e \<or> (\<exists>b. d = put_file webhook_path b (disk e))"
  shows "unmoved X B M e (e\<lparr>disk := d\<rparr>)"
proof -
  have "store_ok X B M (put_file webhook_path b (disk e))" "extends X (disk e) (put_file webhook_path b (disk e))"
    "others [webhook_dir] (disk e) (put_file webhook_path b (disk e))" for b
    using flat_write_step [OF vault_okD(3) [OF v] good_webhook [unfolded webhook_path_def], of b] by (simp_all add: webhook_path_def)
  with d v show ?thesis by (elim disjE exE) (auto intro: unmoved_disk unmoved_side [where ts = "[webhook_dir]"])
qed

lemma create_key_side:
  assumes v: "vault_ok X B M e" and a: "valid_pot (access_key r)"
  shows "unmoved X B M e (snd (create_key X nonce now r e))"
proof -
  note S = store_okD [OF vault_okD(3) [OF v]]
  let ?r = "if key_created_at r = [] then r\<lparr>key_created_at := now\<rparr> else r"
  have k: "access_key ?r = access_key r" by simp
  have g: "good (key_path X (access_key r))" using S(7) a by (rule good_key)
  have "snd (key_put X (cipher e) nonce ?r (disk e)) = disk e \<or>
      (\<exists>b. snd (key_put X (cipher e) nonce ?r (disk e)) = put_file (key_path X (access_key r)) b (disk e))"
    unfolding key_put_def k by (cases "key_encode X (cipher e) nonce ?r") (auto simp: write_good [OF S(5) g])
  then show ?thesis unfolding create_key_def Let_def on_disk_snd by (intro key_side [OF v a]) blast
qed

lemma delete_key_side:
  assumes v: "vault_ok X B M e" and a: "valid_pot a"
  shows "unmoved X B M e (snd (delete_key X a e))"
proof -
  note S = store_okD [OF vault_okD(3) [OF v]]
  have g: "good (key_path X a)" using S(7) a by (rule good_key)
  have "snd (key_delete X a (disk e)) = snd (remove_opt (key_path X a) (disk e))"
    using S(5) g by (simp add: key_delete_def remove_opt_good)
  then show ?thesis unfolding delete_key_def on_disk_snd by (intro key_side [OF v a]) simp
qed

lemma webhook_ops_side:
  assumes v: "vault_ok X B M e"
  shows "unmoved X B M e (snd (add_webhook X h e))" "unmoved X B M e (snd (delete_webhook X i e))"
proof -
  note S = store_okD [OF vault_okD(3) [OF v]]
  have "snd (webhook_put X h (disk e)) = disk e \<or> (\<exists>b. snd (webhook_put X h (disk e)) = put_file webhook_path b (disk e))"
    unfolding webhook_put_def by (cases "webhook_list X (disk e)") (auto simp: write_good [OF S(5) good_webhook])
  then show "unmoved X B M e (snd (add_webhook X h e))"
    unfolding add_webhook_def on_disk_snd by (rule webhook_side [OF v])
  have "snd (webhook_delete X i (disk e)) = disk e \<or> (\<exists>b. snd (webhook_delete X i (disk e)) = put_file webhook_path b (disk e))"
    unfolding webhook_delete_def
    by (cases "webhook_list X (disk e)") (auto simp: Let_def write_good [OF S(5) good_webhook])
  then show "unmoved X B M e (snd (delete_webhook X i e))"
    unfolding delete_webhook_def on_disk_snd by (rule webhook_side [OF v])
qed

text \<open>The multipart requests before the last one store chunks or change the table of uploads.\<close>

lemma upload_part_side:
  assumes v: "vault_ok X B M e"
    and r: "\<forall>h bs c enc. Inr (h, bs) \<in> set (chunk_stream X r) \<longrightarrow> codec_encode X c bs = Inr enc \<longrightarrow> enc \<in> B"
  shows "unmoved X B M e (snd (upload_part X i n r limit e))"
proof (cases "map_of (multipart e) i")
  case None
  then show ?thesis by (simp add: upload_part_def unmoved_refl [OF v])
next
  case (Some up)
  show ?thesis
  proof (cases "build_codec (up_codec up) (up_level up)")
    case (Inl err)
    with Some show ?thesis by (simp add: upload_part_def unmoved_refl [OF v])
  next
    case (Inr c)
    obtain q p' e' where run: "stream_loop X c limit (chunk_stream X r) no_progress e = (q, p', e')"
      by (cases "stream_loop X c limit (chunk_stream X r) no_progress e")
    from stream_loop_frame [OF vault_okD(3) [OF v] _ run] r have
      f: "store_ok X B M (disk e')" "others [chunk_dir] (disk e) (disk e')" "extends X (disk e) (disk e')" by blast+
    have "disk (snd (upload_part X i n r limit e)) = disk e'"
      using Some Inr run by (auto simp: upload_part_def Let_def split: sum.split option.split)
    with f show ?thesis by (intro unmoved_side [OF v, where ts = "[chunk_dir]"]) simp_all
  qed
qed

lemma create_multipart_disk: "disk (snd (create_multipart X b k ct now e)) = disk e"
  by (auto simp: create_multipart_def Let_def split: and_then_split)

lemma abort_disk: "disk (snd (abort_multipart i e)) = disk e"
  by (auto simp: abort_multipart_def Let_def split: option.split)

lemma create_bucket_side:
  assumes v: "vault_ok X B M e" and b: "valid_pot b"
  shows "unmoved X B M e (snd (create_bucket X b e))"
proof -
  from meta_set_config_step [OF vault_okD(3) [OF v] b, of bucket_config_default] obtain d where
    "meta_set_config X b bucket_config_default (disk e) = (Inr (), d)" "store_ok X B M d" "others [meta_dir] (disk e) d"
    "extends X (disk e) d" by blast
  then show ?thesis
    by (auto simp: create_bucket_def on_disk_snd unmoved_refl [OF v] intro!: unmoved_side [OF v, where ts = "[meta_dir]"])
qed


text \<open>What the engine answers the doors for one key, from the abstract state.\<close>

lemma empty_answers:
  assumes v: "vault_ok X B M e" and n: "valid_bucket b" "valid_key k" and none: "vault_of X e (b, k) = []"
  shows "object_head X e b k = Inr None" "current_manifest X e b k = Inr None"
proof -
  have "log_at X (disk e) b k = []" using n none by (simp add: vault_of_def)
  then show "object_head X e b k = Inr None" "current_manifest X e b k = Inr None"
    using eng_current_eq [OF vault_okD(3) [OF v] n] by (simp_all add: object_head_def current_manifest_def)
qed

lemma head_answers:
  assumes v: "vault_ok X B M e" and n: "valid_bucket b" "valid_key k" and some: "vault_of X e (b, k) \<noteq> []"
  shows "\<exists>m xs. current_manifest X e b k = Inr (Some m) \<and>
     object_head X e b k = Inr (Some (content_type (original m), size_bytes (original m), codec (storage m), chunks (chunking m))) \<and>
     map (\<lambda>h. read_chunk X e h (codec (storage m))) (chunks (chunking m)) = map Inr xs \<and>
     concat xs = snd (last (vault_of X e (b, k)))"
proof -
  note V = vault_okD [OF v]
  let ?L = "log_at X (disk e) b k"
  have L: "?L \<noteq> []" using n some by (simp add: vault_of_def)
  then have "last ?L \<in> versions X (disk e)" using n by (intro log_versions [OF n]) simp
  then obtain bs where bs: "read_object X e (last ?L) = Inr bs" using V(4) by (auto simp: whole_def)
  then obtain m where m: "manifest_get X (disk e) (last ?L) = Inr (Some m)"
    by (auto simp: read_object_def read_manifest_bytes_def fetch_manifest_def result_simps)
  from read_pieces [OF bs [unfolded read_object_def] m] obtain xs where
    "map (\<lambda>h. read_chunk X e h (codec (storage m))) (chunks (chunking m)) = map Inr xs" "concat xs = bs" by blast
  moreover have "snd (last (vault_of X e (b, k))) = bs"
    using L n body_of_Inr [OF bs] by (simp add: vault_of_def last_map)
  ultimately show ?thesis
    using L m eng_current_eq [OF V(3) n] by (simp add: object_head_def current_manifest_def fetch_manifest_def)
qed

section \<open>Requests that execute a command\<close>

text \<open>An admitted request with a command runs it on the engine and renders its outcome.\<close>

definition rendered :: "web \<Rightarrow> net \<Rightarrow> native_error + reply \<Rightarrow> reply" where
  "rendered W N r = (case r of Inl err \<Rightarrow> native_error_reply W N err | Inr rep \<Rightarrow> rep)"

lemma rendered_simps [simp]: "rendered W N (Inl err) = native_error_reply W N err" "rendered W N (Inr rep) = rep"
  by (simp_all add: rendered_def)

lemma run_rendered:
  assumes "\<And>x. rendered W N (fst (g x (snd re))) = native_told X W N oper (f x)" "\<And>x e. snd (g x e) = e"
  shows "rendered W N (fst (and_then (run_engine re) g)) = native_told X W N oper (fst (replied f re))"
    "snd (and_then (run_engine re) g) = snd (replied f re)"
  using assms by (cases re; cases "fst re"; simp add: run_engine_def)+

lemma owner_executes:
  assumes "require_owner cl = Inr ()" "owner_command X e w = Some c"
  shows "rendered W N (fst (serve_owner_op X cl mo w e)) = native_told X W N (OwnerOp w) (fst (exec X c e))"
    "snd (serve_owner_op X cl mo w e) = snd (exec X c e)"
proof -
  let ?p = "serve_owner_op X cl mo w e"
  have "rendered W N (fst ?p) = native_told X W N (OwnerOp w) (fst (exec X c e)) \<and> snd ?p = snd (exec X c e)"
  proof (cases w)
    case (OpSetVisibility b p)
    then show ?thesis using assms
      by (auto simp: serve_owner_op_def n_set_visibility_def ask_def run_rendered split: sum.splits)
  next
    case (OpChunkPut h bs)
    then show ?thesis using assms
      by (auto simp: serve_owner_op_def n_chunk_put_def run_rendered split: sum.splits)
  qed (use assms in \<open>auto simp: serve_owner_op_def n_delete_bucket_def n_rename_bucket_def n_put_config_def
      n_copy_object_def n_move_object_def run_rendered\<close>)
  then show "rendered W N (fst ?p) = native_told X W N (OwnerOp w) (fst (exec X c e))" "snd ?p = snd (exec X c e)"
    by blast+
qed

lemma whole_reader: "rd_error r = None \<Longrightarrow> \<lparr>rd_bytes = rd_bytes r, rd_error = None\<rparr> = r"
  by (cases r) simp

lemma writer_executes:
  assumes "require_write cl (op_pot w) = Inr ()" "writer_admissible w" "writer_command X W N mx mo hs w = Some c"
  shows "rendered W N (fst (serve_writer_op X W N mx cl mo hs w e)) = native_told X W N (WriterOp w) (fst (exec X c e))"
    "snd (serve_writer_op X W N mx cl mo hs w e) = snd (exec X c e)"
proof -
  let ?p = "serve_writer_op X W N mx cl mo hs w e"
  have "rendered W N (fst ?p) = native_told X W N (WriterOp w) (fst (exec X c e)) \<and> snd ?p = snd (exec X c e)"
    using assms
    by (cases w) (auto simp: serve_writer_op_def op_pot_def n_import_def n_upload_def n_remove_def n_put_meta_def
        n_restore_def n_import_object_def native_content_type_def whole_reader run_rendered split: sum.splits)
  then show "rendered W N (fst ?p) = native_told X W N (WriterOp w) (fst (exec X c e))" "snd ?p = snd (exec X c e)"
    by blast+
qed

lemma call_told:
  assumes "\<And>x. fst (g x (snd re)) = Inr (s3_told X W rq (f x))" "\<And>x e. snd (g x e) = e"
  shows "(case and_then (call re) g of (Inl err, e') \<Rightarrow> (s3_error_response W err, e') | (Inr resp, e') \<Rightarrow> (resp, e')) =
     (s3_told X W rq (fst (replied f re)), snd re)"
proof (cases "fst re")
  case (Inl err)
  then show ?thesis by (cases re) simp
next
  case (Inr x)
  have "g x (snd re) = (Inr (s3_told X W rq (f x)), snd re)" using assms by (metis surjective_pairing)
  with Inr show ?thesis by (cases re) simp
qed

lemma dispatch_executes:
  assumes "s3_command X W mx e rq now t = Some c" "rd_error (rq_body rq) = None"
  shows "s3_respond X W mx rq now t e = (s3_told X W rq (fst (exec X c e)), snd (exec X c e))"
proof (cases "rq_target rq")
  case (AtPot b)
  with assms(1) have "rq_method rq = ''DELETE''" "c = DropEmpty b" by (auto simp: s3_command_def split: if_splits)
  with AtPot show ?thesis
    by (simp add: s3_respond_def s3_dispatch_def s3_delete_bucket_def) (rule call_told; simp)
next
  case (AtObject b k)
  let ?ps = "parse_query (rq_query rq)"
  consider "rq_method rq = ''PUT''" "\<not> (map_of ?ps ''uploadId'' \<noteq> None \<and> map_of ?ps ''partNumber'' \<noteq> None)"
      "c = command.Upload b k (rd_bytes (rq_body rq)) (request_content_type W (rq_headers rq)) mx now t"
    | i body where "rq_method rq = ''POST''" "map_of ?ps ''uploads'' = None" "map_of ?ps ''uploadId'' = Some i"
      "collect_body W (rq_body rq) MAX_COMPLETE_BODY = Inr body"
      "assemble_command X e i (parse_complete_parts body) t = Some c"
    | "rq_method rq = ''DELETE''" "map_of ?ps ''uploadId'' = None" "c = Remove b k now"
    using assms(1) AtObject by (auto simp: s3_command_def Let_def split: if_splits option.splits sum.splits)
  then show ?thesis
  proof cases
    case 1
    have p: "s3_put_object X W mx b k (rq_query rq) (rq_headers rq) (rq_body rq) now t e =
        and_then (call (put_stream X b k (rq_body rq) (request_content_type W (rq_headers rq)) mx now t e)) (\<lambda>i e.
            (Inr \<lparr>status = 200,
                  resp_headers = [(''etag'', etag W (show_hash X i)), object_id_header W (show_hash X i)],
                  resp_body = Full []\<rparr>, e))"
      using 1(2) by (auto simp: s3_put_object_def Let_def split: option.split)
    show ?thesis using 1(1,3) AtObject assms(2)
      by (simp add: s3_respond_def s3_dispatch_def p whole_reader) (rule call_told; simp add: AtObject 1(1))
  next
    case (2 i body)
    then obtain b' k' d where c: "c = Assemble b' k' d i (parse_complete_parts body) t"
      by (auto simp: assemble_command_def split: option.splits)
    show ?thesis using 2(1-4) AtObject
      by (simp add: s3_respond_def s3_dispatch_def s3_post_object_def c Let_def)
        (rule call_told; simp add: AtObject 2(1) Let_def)
  next
    case 3
    with AtObject show ?thesis
      by (simp add: s3_respond_def s3_dispatch_def s3_delete_object_def) (rule call_told; simp)
  qed
qed (use assms(1) in \<open>simp_all add: s3_command_def\<close>)

section \<open>Requests without a command\<close>

lemma owner_unmoved:
  assumes v: "vault_ok X B M e" and "owner_admissible w" "require_owner cl = Inr ()" "owner_command X e w = None"
  shows "unmoved X B M e (snd (serve_owner_op X cl mo w e))"
  using assms(2-4) create_key_side [OF v] delete_key_side [OF v] webhook_ops_side [OF v]
  by (cases w) (auto simp: serve_owner_op_def n_create_key_def n_delete_key_def n_create_webhook_def n_delete_webhook_def
      n_set_visibility_def n_chunk_put_def ask_def Let_def unmoved_refl [OF v] split: sum.splits)

lemma writer_unmoved:
  assumes v: "vault_ok X B M e" and "require_write cl (op_pot w) = Inr ()" "writer_command X W N mx mo hs w = None"
  shows "unmoved X B M e (snd (serve_writer_op X W N mx cl mo hs w e))"
  using assms(2,3)
  by (cases w) (auto simp: serve_writer_op_def op_pot_def n_import_def n_restore_def Let_def unmoved_refl [OF v]
      split: sum.splits)

lemma dispatch_unmoved:
  assumes v: "vault_ok X B M e" and a: "s3_admissible X B rq" and c: "s3_command X W mx e rq now t = None"
  shows "unmoved X B M e (snd (s3_dispatch X W mx rq now t e))"
proof (cases "rq_target rq")
  case (AtPot b)
  with a create_bucket_side [OF v, of b] c show ?thesis
    by (auto simp: s3_dispatch_def Let_def read_only_op_def s3_create_bucket_def s3_admissible_def s3_command_def
        unmoved_refl [OF v])
next
  case (AtObject b k)
  have part: "unmoved X B M e (snd (upload_part X i n (rq_body rq) mx e))" for i n
    using a AtObject by (intro upload_part_side [OF v]) (simp add: s3_admissible_def)
  have up: "unmoved X B M e (snd (create_multipart X b k ct now e))" "unmoved X B M e (snd (abort_multipart i e))" for ct i
    by (rule unmoved_disk [OF v], simp add: create_multipart_disk abort_disk)+
  have none: "unmoved X B M e (snd (complete_multipart X i order t e))" if "assemble_command X e i order t = None" for i order
    using that by (auto simp: assemble_command_def complete_multipart_def unmoved_refl [OF v] split: option.splits)
  consider "rq_method rq = ''PUT''" | "rq_method rq = ''POST''" | "rq_method rq = ''DELETE''"
    | "rq_method rq \<notin> {''PUT'', ''POST'', ''DELETE''}" by blast
  then show ?thesis
  proof cases
    case 1
    with AtObject c obtain i n where "map_of (parse_query (rq_query rq)) ''uploadId'' = Some i"
      "map_of (parse_query (rq_query rq)) ''partNumber'' = Some n" by (auto simp: s3_command_def Let_def split: if_splits)
    with 1 AtObject part show ?thesis
      by (cases "parse_unsigned u32_max n")
        (simp_all add: s3_dispatch_def s3_put_object_def s3_upload_part_def unmoved_refl [OF v])
  next
    case 2
    with AtObject c up(1) none show ?thesis
      by (auto simp: s3_dispatch_def s3_post_object_def s3_command_def Let_def unmoved_refl [OF v]
          split: option.splits sum.splits)
  next
    case 3
    with AtObject c up(2) show ?thesis
      by (auto simp: s3_dispatch_def s3_delete_object_def s3_command_def split: option.splits if_splits)
  next
    case 4
    then show ?thesis using AtObject by (simp add: s3_dispatch_def Let_def read_only_op_def unmoved_refl [OF v])
  qed
qed (simp_all add: s3_dispatch_def Let_def read_only_op_def unmoved_refl [OF v])

section \<open>Every request is a step\<close>

lemma streams_answers:
  assumes v: "vault_ok X B M e" and n: "valid_bucket b" "valid_key k"
  shows "\<exists>resp. s3_get_object X W b k None e = Inr resp \<and> streams resp (vault_of X e (b, k))"
proof (cases "vault_of X e (b, k) = []")
  case True
  with empty_answers [OF v n] show ?thesis by (simp add: s3_get_object_def streams_def)
next
  case False
  with head_answers [OF v n] show ?thesis by (auto simp: s3_get_object_def streams_def)
qed

lemma download_tells:
  assumes v: "vault_ok X B M e" and n: "valid_bucket b" "valid_key k" and r: "require_read X e c b = Inr ()"
  shows "\<exists>resp. rendered W N (n_download X W N c b k e) = Plain resp \<and>
     (streams resp (vault_of X e (b, k)) \<or> vault_of X e (b, k) \<noteq> [] \<and> status resp = 500)"
proof (cases "vault_of X e (b, k) = []")
  case True
  with empty_answers [OF v n] r show ?thesis by (simp add: n_download_def streams_def)
next
  case False
  with head_answers [OF v n] r show ?thesis
    by (auto simp: n_download_def stream_object_def streams_def native_error_reply_def native_status_def)
qed

lemma native_step:
  assumes v: "vault_ok X B M e" and a: "door_admissible X B M D e (ViaNative mo hs oper)"
    and run: "door_serve X D (ViaNative mo hs oper) e = (ans, e')"
  shows "vault_ok X B M e' \<and> request_step X D (ViaNative mo hs oper) (door_admits X D e (ViaNative mo hs oper))
     (door_command X D e (ViaNative mo hs oper)) ans (vault_of X e) (vault_of X e')"
    (is "_ \<and> request_step X D ?rq _ ?co ans ?V ?V'")
proof -
  let ?W = "dr_web D" and ?N = "dr_net D"
  let ?c = "caller_of X ?W ?N e hs"
  have exe: ?thesis if "door_admits X D e ?rq" "?co = Some c" "ans = NativeAnswer (native_told X ?W ?N oper (fst (exec X c e)))"
      "e' = snd (exec X c e)" for c
  proof -
    have "admissible X B M c e" using a that(2) by (cases oper) auto
    from exec_simulates [OF v this] that commanded [of X c "fst (exec X c e)" ?V ?V' D ?rq] show ?thesis
      by (simp add: simulates_def)
  qed
  have away: ?thesis if "\<not> door_admits X D e ?rq" "ans = NativeAnswer (native_error_reply ?W ?N Forbidden)" "e' = e"
    using that v turned [of ans X D ?rq ?co ?V] by (simp add: native_error_reply_def native_status_def)
  have see: ?thesis if "door_admits X D e ?rq" "?co = None" "unmoved X B M e e'" "tells X ?rq ans ?V"
    using that looked [of X ?rq ans ?V D] by (simp add: unmoved_def)
  show ?thesis
  proof (cases oper)
    case (StoreQuery q)
    then show ?thesis using run unmoved_refl [OF v] by (intro see) (auto simp: native_serve_def Let_def)
  next
    case (PotQuery q)
    have r: "ans = NativeAnswer (rendered ?W ?N (serve_pot_query X ?W ?N ((dr_app D)\<lparr>as_engine := e\<rparr>) ?c mo q))" "e' = e"
      using run PotQuery by (auto simp: native_serve_def Let_def rendered_def)
    show ?thesis
    proof (cases "require_read X e ?c (query_pot q)")
      case (Inl err)
      then have f: "require_read X e ?c (query_pot q) = Inl Forbidden"
        by (auto simp: require_read_def Let_def split: if_splits)
      have "serve_pot_query X ?W ?N ((dr_app D)\<lparr>as_engine := e\<rparr>) ?c mo q = Inl Forbidden"
        by (rule pot_query_guard [where b = "query_pot q"]) (use f in simp, simp only: query_pot_def)
      with r PotQuery f show ?thesis by (intro away) simp_all
    next
      case (Inr u)
      have "tells X ?rq ans ?V"
        using r Inr PotQuery download_tells [OF v, of _ _ ?c ?W ?N] vault_observed(1) [OF v]
        by (cases q) (auto simp: serve_pot_query_def n_history_def query_pot_def)
      with r PotQuery Inr unmoved_refl [OF v] show ?thesis by (intro see) simp_all
    qed
  next
    case (OwnerOp w)
    obtain r e1 where s: "serve_owner_op X ?c mo w e = (r, e1)" by force
    then have r: "ans = NativeAnswer (rendered ?W ?N r)" "e' = e1"
      using run OwnerOp by (auto simp: native_serve_def Let_def rendered_def)
    show ?thesis
    proof (cases "require_owner ?c")
      case (Inl err)
      then have f: "require_owner ?c = Inl Forbidden" by (auto simp: require_owner_def split: if_splits)
      from owner_op_guard [OF f, of X mo w e] s r OwnerOp f show ?thesis by (intro away) simp_all
    next
      case (Inr u)
      show ?thesis
      proof (cases "owner_command X e w")
        case None
        with owner_unmoved [OF v _ _ None, of ?c mo] Inr s r a OwnerOp show ?thesis by (intro see) simp_all
      next
        case (Some c)
        with owner_executes(1) [OF _ Some, of ?c ?W ?N mo] owner_executes(2) [OF _ Some, of ?c mo] Inr s r OwnerOp show ?thesis by (intro exe [of c]) simp_all
      qed
    qed
  next
    case (WriterOp w)
    let ?mx = "as_max_upload (dr_app D)"
    obtain r e1 where s: "serve_writer_op X ?W ?N ?mx ?c mo hs w e = (r, e1)" by force
    then have r: "ans = NativeAnswer (rendered ?W ?N r)" "e' = e1"
      using run WriterOp by (auto simp: native_serve_def Let_def rendered_def)
    show ?thesis
    proof (cases "require_write ?c (op_pot w)")
      case (Inl err)
      then have f: "require_write ?c (op_pot w) = Inl Forbidden" by (auto simp: require_write_def split: if_splits)
      from writer_op_guard [OF f, of X ?W ?N ?mx mo hs e] s r WriterOp f show ?thesis by (intro away) simp_all
    next
      case (Inr u)
      show ?thesis
      proof (cases "writer_command X ?W ?N ?mx mo hs w")
        case None
        with writer_unmoved [OF v _ None, of ?c] Inr s r a WriterOp show ?thesis by (intro see) simp_all
      next
        case (Some c)
        with writer_executes [OF _ _ Some, of ?c, where e = e] Inr s r a WriterOp show ?thesis by (intro exe [of c]) simp_all
      qed
    qed
  qed
qed

lemma s3_step:
  assumes v: "vault_ok X B M e" and a: "door_admissible X B M D e (ViaS3 r clock now t)"
    and run: "door_serve X D (ViaS3 r clock now t) e = (ans, e')"
  shows "vault_ok X B M e' \<and> request_step X D (ViaS3 r clock now t) (door_admits X D e (ViaS3 r clock now t))
     (door_command X D e (ViaS3 r clock now t)) ans (vault_of X e) (vault_of X e')"
    (is "_ \<and> request_step X D ?rq ?adm ?co ans ?V ?V'")
proof -
  let ?W = "dr_web D" and ?mx = "dr_max_upload D"
  have away: ?thesis if "\<not> ?adm" "turned_away ans" "e' = e"
    using that v turned [of ans X D ?rq ?co ?V] by simp
  show ?thesis
  proof (cases "authenticate X ?W r clock e = Some (Inr ())")
    case False
    then have "authenticate X ?W r clock e = None \<or> (\<exists>resp. authenticate X ?W r clock e = Some (Inl resp) \<and> status resp = 403)"
      unfolding authenticate_def Let_def by (auto split: option.splits sum.splits if_splits)
    with False run show ?thesis by (intro away) (auto simp: s3_serve_def)
  next
    case True
    have s: "ans = S3Answer (Some (fst (s3_respond X ?W ?mx r now t e)))" "e' = snd (s3_respond X ?W ?mx r now t e)"
      using run True by (auto simp: s3_serve_def split: prod.splits)
    show ?thesis
    proof (cases "s3_command X ?W ?mx e r now t")
      case None
      have u: "unmoved X B M e e'" using dispatch_unmoved [OF v _ None] a s by (simp add: s3_respond_snd)
      have "\<exists>resp. ans = S3Answer (Some resp) \<and> streams resp (?V (b, k))"
        if t: "rq_target r = AtObject b k" "rq_method r = ''GET''" "map_of (parse_query (rq_query r)) ''uploadId'' = None"
          "valid_bucket b" "valid_key k" for b k
      proof -
        have "s3_get_object X ?W b k (rq_query r) e = s3_get_object X ?W b k None e" using t(3) by (simp add: s3_get_object_def)
        with streams_answers [OF v t(4,5), of ?W] s t show ?thesis by (auto simp: s3_respond_def s3_dispatch_def read_only_op_def)
      qed
      with u None True looked [of X ?rq ans ?V D] show ?thesis by (simp add: unmoved_def)
    next
      case (Some c)
      then have "admissible X B M c e" "rd_error (rq_body r) = None" using a by (auto simp: s3_admissible_def)
      with exec_simulates [OF v, of c] dispatch_executes [OF Some] s True Some
        commanded [of X c "fst (exec X c e)" ?V ?V' D ?rq] show ?thesis by (simp add: simulates_def)
    qed
  qed
qed

theorem door_step:
  assumes "vault_ok X B M e" "door_admissible X B M D e rq" "door_serve X D rq e = (ans, e')"
  shows "vault_ok X B M e' \<and>
     request_step X D rq (door_admits X D e rq) (door_command X D e rq) ans (vault_of X e) (vault_of X e')"
proof (cases rq)
  case (ViaNative mo hs oper)
  with native_step [OF assms(1), of D mo hs oper] assms(2,3) show ?thesis by blast
next
  case (ViaS3 r clock now t)
  with s3_step [OF assms(1), of D r clock now t] assms(2,3) show ?thesis by blast
qed

end
