(* ===== verification/Door_Props.thy ===== *)
theory Door_Props
  imports Doors Native_Props Cdn
begin

text \<open>The doors together, as one service over one store.\<close>

text \<open>A plain GET at the S3 door: the last version, or 404.\<close>

definition s3_shows :: "ext \<Rightarrow> web \<Rightarrow> engine \<Rightarrow> vault \<Rightarrow> bool" where
  "s3_shows X W e V \<longleftrightarrow>
     (\<forall>b k. valid_bucket b \<longrightarrow> valid_key k \<longrightarrow>
        (\<exists>resp. s3_get_object X W b k None e = Inr resp \<and> streams resp (V (b, k))))"

text \<open>Plain requests to the CDN door: the last version of a key in a public pot, and every version by its id.\<close>

definition cdn_shows :: "ext \<Rightarrow> web \<Rightarrow> engine \<Rightarrow> vault \<Rightarrow> bool" where
  "cdn_shows X W e V \<longleftrightarrow>
     (\<forall>b k. valid_bucket b \<longrightarrow> valid_key k \<longrightarrow> is_public X e b = Inr True \<longrightarrow>
        (if V (b, k) = [] then by_key X W e b k [] = bare 404
         else status (by_key X W e b k []) = 200 \<and> resp_body (by_key X W e b k []) = Full (snd (last (V (b, k)))))) \<and>
     (\<forall>p i bs. (i, bs) \<in> set (V p) \<longrightarrow>
        status (by_hash X W e (show_hash X i) []) = 200 \<and> resp_body (by_hash X W e (show_hash X i) []) = Full bs)"

text \<open>The native API, to a caller who may read the pot: the history, and the last version or 404.\<close>

definition native_shows :: "ext \<Rightarrow> web \<Rightarrow> net \<Rightarrow> engine \<Rightarrow> vault \<Rightarrow> bool" where
  "native_shows X W N e V \<longleftrightarrow>
     (\<forall>c b k. valid_bucket b \<longrightarrow> valid_key k \<longrightarrow> require_read X e c b = Inr () \<longrightarrow>
        n_history X c b k e = Inr (Json 200 (AIds (map (show_hash X \<circ> fst) (V (b, k))))) \<and>
        (if V (b, k) = [] then n_download X W N c b k e = Inr not_found
         else \<exists>m. current_manifest X e b k = Inr (Some m) \<and>
           (hv_ok W (content_type (original m)) \<longrightarrow>
              (\<exists>resp xs. n_download X W N c b k e = Inr (Plain resp) \<and> status resp = 200 \<and>
                 resp_body resp = Pieces (map Inr xs) \<and> concat xs = snd (last (V (b, k)))))))"

text \<open>What clients see is what an abstract state says, whichever door they use.\<close>

definition shows_vault :: "ext \<Rightarrow> web \<Rightarrow> net \<Rightarrow> engine \<Rightarrow> vault \<Rightarrow> bool" where
  "shows_vault X W N e V \<longleftrightarrow>
     (\<forall>b k. valid_bucket b \<longrightarrow> valid_key k \<longrightarrow> eng_history X e b k = Inr (map fst (V (b, k)))) \<and>
     s3_shows X W e V \<and> cdn_shows X W e V \<and> native_shows X W N e V"

lemma s3_shown: "vault_ok X B M e \<Longrightarrow> s3_shows X W e (vault_of X e)"
  unfolding s3_shows_def by (blast intro: streams_answers)

lemma cdn_shown: "vault_ok X B M e \<Longrightarrow> cdn_shows X W e (vault_of X e)"
  unfolding cdn_shows_def
proof (intro conjI allI impI)
  fix b k assume a: "vault_ok X B M e" "valid_bucket b" "valid_key k" and p: "is_public X e b = Inr True"
  show "if vault_of X e (b, k) = [] then by_key X W e b k [] = bare 404
      else status (by_key X W e b k []) = 200 \<and> resp_body (by_key X W e b k []) = Full (snd (last (vault_of X e (b, k))))"
  proof (cases "vault_of X e (b, k) = []")
    case True
    with empty_answers [OF a] p show ?thesis by (simp add: by_key_def deliver_current_def)
  next
    case False
    with head_answers [OF a] vault_observed(2) [OF a] p show ?thesis
      by (auto simp: by_key_def deliver_current_def deliver_cases)
  qed
next
  fix p i bs assume v: "vault_ok X B M e" and "(i, bs) \<in> set (vault_of X e p)"
  then obtain b k where n: "valid_bucket b" "valid_key k" "i \<in> set (log_at X (disk e) b k)" "bs = body_of X e i"
    by (cases p) (auto simp: vault_of_def split: if_splits)
  note V = vault_okD [OF v]
  from log_versions [OF n(1-3)] V(4) obtain bs' where r: "read_object X e i = Inr bs'" by (auto simp: whole_def)
  then obtain m where m: "manifest_get X (disk e) i = Inr (Some m)"
    by (auto simp: read_object_def read_manifest_bytes_def fetch_manifest_def result_simps)
  have "hash_wf i" using history_eq(2) [OF store_okD(3) [OF V(3)] n(1,2)] n(3) by (simp add: list_all_iff)
  then have "parse_hash X (show_hash X i) = Inr i" using parse_show_hash [OF store_okD(7) [OF V(3)]] by simp
  then have "by_hash X W e (show_hash X i) [] =
      deliver W bs (content_type (original m)) (quoted (show_hash X i)) True []"
    using m r n(4) by (simp add: by_hash_def object_manifest_def body_of_Inr)
  then show "status (by_hash X W e (show_hash X i) []) = 200" "resp_body (by_hash X W e (show_hash X i) []) = Full bs"
    by (simp_all add: deliver_cases)
qed

lemma native_shown: "vault_ok X B M e \<Longrightarrow> native_shows X W N e (vault_of X e)"
  unfolding native_shows_def
proof (intro allI impI conjI)
  fix c b k assume a: "vault_ok X B M e" "valid_bucket b" "valid_key k" and r: "require_read X e c b = Inr ()"
  show "n_history X c b k e = Inr (Json 200 (AIds (map (show_hash X \<circ> fst) (vault_of X e (b, k)))))"
    using vault_observed(1) [OF a] r by (simp add: n_history_def)
  show "if vault_of X e (b, k) = [] then n_download X W N c b k e = Inr not_found
      else \<exists>m. current_manifest X e b k = Inr (Some m) \<and>
        (hv_ok W (content_type (original m)) \<longrightarrow>
           (\<exists>resp xs. n_download X W N c b k e = Inr (Plain resp) \<and> status resp = 200 \<and>
              resp_body resp = Pieces (map Inr xs) \<and> concat xs = snd (last (vault_of X e (b, k)))))"
  proof (cases "vault_of X e (b, k) = []")
    case True
    with empty_answers [OF a] r show ?thesis by (simp add: n_download_def)
  next
    case False
    from head_answers [OF a False] obtain m xs where m: "current_manifest X e b k = Inr (Some m)"
      "object_head X e b k = Inr (Some (content_type (original m), size_bytes (original m), codec (storage m), chunks (chunking m)))"
      "map (\<lambda>h. read_chunk X e h (codec (storage m))) (chunks (chunking m)) = map Inr xs"
      "concat xs = snd (last (vault_of X e (b, k)))" by blast
    with False r show ?thesis by (auto simp: n_download_def stream_object_def)
  qed
qed

lemma vault_shown: "vault_ok X B M e \<Longrightarrow> shows_vault X W N e (vault_of X e)"
  unfolding shows_vault_def by (auto intro: vault_observed(1) s3_shown cdn_shown native_shown)

text \<open>An upload through the native API with the key of the Basic credentials.\<close>

definition demo_doors :: doors where
  "demo_doors = \<lparr>dr_web = demo_web, dr_net = demo_net, dr_fpu = native_fpu, dr_app = demo_app, dr_max_upload = 10\<rparr>"

definition demo_upload :: door_request where
  "demo_upload = ViaNative demo_moment [(''content-type'', ''text/plain''), (''authorization'', ''Basic ak:secret'')]
     (WriterOp (OpUpload ''b'' ''k'' \<lparr>rd_bytes = demo_data, rd_error = None\<rparr>))"

end
