(* ===== verification/Semantic_Props.thy ===== *)
theory Semantic_Props
  imports Semantic
begin

text \<open>What a semantic search answers.\<close>

text \<open>
  C35: a search answers at most \<open>k\<close> hits, best first in the order of \<open>total_cmp\<close>, each an object of the
  tenant asked for with the score of its stored vector; an object of the tenant that is left out
  scores no better than any that is in. Nothing filed under another tenant matters.
\<close>

theorem search_ranks_tenant:
  assumes "sem_search F s t q ct k = Inr hits" "embed (sm_embedder s) ct q = Inr v"
    and "map_of (sm_index s) t = Some vs"
  shows "length hits = min k (length vs) \<and> sorted (map (\<lambda>m. - total_key (mt_score m)) hits) \<and>
     (\<forall>m \<in> set hits. \<exists>w. (mt_id m, w) \<in> set vs \<and> mt_score m = cosine F v w) \<and>
     (\<forall>(i, w) \<in> set vs. \<lparr>mt_id = i, mt_score = cosine F v w\<rparr> \<notin> set hits \<longrightarrow>
        (\<forall>m \<in> set hits. total_key (cosine F v w) \<le> total_key (mt_score m)))"
proof -
  let ?f = "\<lambda>m. - total_key (mt_score m)"
  let ?xs = "map (\<lambda>(i, w). \<lparr>mt_id = i, mt_score = cosine F v w\<rparr>) vs"
  have hits: "hits = take k (sort_key ?f ?xs)"
    using assms by (simp add: sem_search_def query_def)
  have fr: "\<exists>w. (mt_id m, w) \<in> set vs \<and> mt_score m = cosine F v w" if "m \<in> set hits" for m
  proof -
    have "m \<in> set ?xs" using that in_set_takeD [of m k "sort_key ?f ?xs"] by (simp add: hits)
    then show ?thesis by auto
  qed
  have rest: "total_key (cosine F v w) \<le> total_key (mt_score m)"
    if "(i, w) \<in> set vs" "\<lparr>mt_id = i, mt_score = cosine F v w\<rparr> \<notin> set hits" "m \<in> set hits" for i w m
  proof -
    have "\<lparr>mt_id = i, mt_score = cosine F v w\<rparr> \<in> set ?xs" using that(1) by force
    from take_sorted_key [OF this that(2,3) [unfolded hits]] show ?thesis by simp
  qed
  have "query F (sm_index s) t v k = hits" using assms by (simp add: sem_search_def)
  with query_sorted [of F "sm_index s" t v k] have "sorted (map ?f hits)" by simp
  moreover have "length hits = min k (length vs)" by (simp add: hits)
  ultimately show ?thesis using fr rest by blast
qed

definition demo_fpu :: fpu where
  "demo_fpu = \<lparr>f32_mul = (\<lambda>x y. x * y), f32_div = (\<lambda>x y. x div y), f32_sqrt = (\<lambda>x. x), f32_sum = sum_list\<rparr>"

definition demo_semantic :: semantic where
  "demo_semantic =
     \<lparr>sm_embedder = \<lparr>em_post = (\<lambda>_ _ _ _. Inr \<lparr>en_vector = [1], en_tags = [], en_text = None\<rparr>),
                     em_base64 = (\<lambda>_. []), em_url = [], em_model = []\<rparr>,
      sm_index = [(''t'', [(Hash [1], [1]), (Hash [2], [0])]), (''u'', [(Hash [3], [1])])]\<rparr>"

theorem search_ranks_tenant_witness:
  "\<exists>hits. sem_search demo_fpu demo_semantic ''t'' [] ''text/plain'' 5 = Inr hits \<and> length hits = 2 \<and>
     (\<forall>m \<in> set hits. mt_id m \<noteq> Hash [3])"
proof -
  have e: "embed (sm_embedder demo_semantic) ''text/plain'' [] = Inr [1]"
    by (simp add: embed_def embed_request_def demo_semantic_def)
  have m: "map_of (sm_index demo_semantic) ''t'' = Some [(Hash [1], [1]), (Hash [2], [0])]"
    by (simp add: demo_semantic_def)
  obtain hits where h: "sem_search demo_fpu demo_semantic ''t'' [] ''text/plain'' 5 = Inr hits"
    using e by (simp add: sem_search_def)
  from search_ranks_tenant [OF h e m] h show ?thesis by fastforce
qed

end
