(* ===== verification/Config.thy ===== *)
theory Config
  imports Strings
begin

text \<open>
  The server configuration (\<open>barme-config/src/lib.rs\<close>): built-in defaults, \<open>barme.toml\<close>, environment.
  TOML with the derived \<open>Deserialize\<close> is a parameter; the environment is the map of the variables
  that are set and valid Unicode.
\<close>

record credential =
  cr_access_key :: string
  cr_secret_key :: string

record policy_config =
  pc_codec :: string
  pc_zstd_level :: int
  pc_tenant :: string
  pc_policy_name :: string

record config =
  data_dir :: string
  s3_addr :: string
  native_addr :: string
  cdn_addr :: string
  console_addr :: string
  cors_origins :: "string list"
  gc_grace_secs :: nat
  gc_interval_secs :: nat
  default_policy :: policy_config
  cf_max_upload_bytes :: nat
  credentials_of :: "credential option"
  embed_url :: "string option"
  embed_model :: string
  console_api_url :: "string option"
  console_cdn_url :: "string option"

definition policy_config_default :: policy_config where
  "policy_config_default =
     \<lparr>pc_codec = ''zstd'', pc_zstd_level = 0, pc_tenant = ''default'', pc_policy_name = ''default@v1''\<rparr>"

definition config_default :: config where
  "config_default =
     \<lparr>data_dir = ''./barme-data'', s3_addr = ''0.0.0.0:9000'', native_addr = ''0.0.0.0:7373'',
      cdn_addr = ''0.0.0.0:7375'', console_addr = ''0.0.0.0:7374'', cors_origins = [''*''],
      gc_grace_secs = 86400, gc_interval_secs = 3600, default_policy = policy_config_default,
      cf_max_upload_bytes = 512 * 1024 * 1024, credentials_of = None, embed_url = None, embed_model = [],
      console_api_url = None, console_cdn_url = None\<rparr>"

type_synonym env = "string \<Rightarrow> string option"

text \<open>A variable that overrides a field when it is set, or when it is set and not empty.\<close>

definition when_set :: "string option \<Rightarrow> (string \<Rightarrow> config \<Rightarrow> config) \<Rightarrow> config \<Rightarrow> config" where
  "when_set v f c = (case v of None \<Rightarrow> c | Some s \<Rightarrow> f s c)"

definition when_nonempty :: "string option \<Rightarrow> (string \<Rightarrow> config \<Rightarrow> config) \<Rightarrow> config \<Rightarrow> config" where
  "when_nonempty v f c = (case v of None \<Rightarrow> c | Some s \<Rightarrow> if s = [] then c else f s c)"

definition apply_env :: "env \<Rightarrow> config \<Rightarrow> config" where
  "apply_env env c =
     (let c = when_set (env ''BARME_DATA_DIR'') (\<lambda>v c. c\<lparr>data_dir := v\<rparr>) c;
          c = when_set (env ''BARME_EMBED_URL'') (\<lambda>v c. c\<lparr>embed_url := Some v\<rparr>) c;
          c = when_set (env ''BARME_EMBED_MODEL'') (\<lambda>v c. c\<lparr>embed_model := v\<rparr>) c;
          c = when_nonempty (env ''BARME_CONSOLE_API_URL'') (\<lambda>v c. c\<lparr>console_api_url := Some v\<rparr>) c;
          c = when_nonempty (env ''BARME_CONSOLE_CDN_URL'') (\<lambda>v c. c\<lparr>console_cdn_url := Some v\<rparr>) c;
          c = when_set (env ''BARME_MAX_UPLOAD_BYTES'')
                (\<lambda>v c. case parse_unsigned u64_max v of None \<Rightarrow> c | Some n \<Rightarrow> c\<lparr>cf_max_upload_bytes := n\<rparr>) c
      in case (env ''BARME_ACCESS_KEY'', env ''BARME_SECRET_KEY'') of
           (Some access, Some secret) \<Rightarrow>
             if access \<noteq> [] \<and> secret \<noteq> []
             then c\<lparr>credentials_of := Some \<lparr>cr_access_key = access, cr_secret_key = secret\<rparr>\<rparr>
             else c
         | _ \<Rightarrow> c)"

text \<open>What reading the file gives: nothing there, another failure, or its text.\<close>

datatype config_file = Absent | Unreadable | Text string

datatype config_error = ConfigIo string | ConfigParse string

definition load_config :: "(string \<Rightarrow> config option) \<Rightarrow> (string \<Rightarrow> config_file) \<Rightarrow> env \<Rightarrow> config_error + config" where
  "load_config toml file env =
     (let p = (case env ''BARME_CONFIG'' of None \<Rightarrow> ''barme.toml'' | Some p \<Rightarrow> p) in
      try_then
        (case file p of
           Text s \<Rightarrow> ok_or (ConfigParse p) (toml s)
         | Absent \<Rightarrow> Inr config_default
         | Unreadable \<Rightarrow> Inl (ConfigIo p))
        (\<lambda>c. Inr (apply_env env c)))"

text \<open>A credential needs both variables; otherwise the file's stays.\<close>

lemma credentials_when [simp]:
  "(\<And>x c. credentials_of (f x c) = credentials_of c) \<Longrightarrow> credentials_of (when_set v f c) = credentials_of c"
  "(\<And>x c. credentials_of (f x c) = credentials_of c) \<Longrightarrow> credentials_of (when_nonempty v f c) = credentials_of c"
  by (cases v; simp add: when_set_def when_nonempty_def)+

lemma apply_env_credentials:
  "credentials_of (apply_env env c) =
     (case (env ''BARME_ACCESS_KEY'', env ''BARME_SECRET_KEY'') of
        (Some a, Some s) \<Rightarrow>
          if a \<noteq> [] \<and> s \<noteq> [] then Some \<lparr>cr_access_key = a, cr_secret_key = s\<rparr> else credentials_of c
      | _ \<Rightarrow> credentials_of c)"
  by (cases "env ''BARME_ACCESS_KEY''"; cases "env ''BARME_SECRET_KEY''")
     (simp_all add: apply_env_def Let_def split: option.split)

end
