(* ===== verification/Daemon.thy ===== *)
theory Daemon
  imports Config Recovery Semantic
begin

text \<open>
  The server process (\<open>barmed/src/main.rs\<close>): the master key, the boot sequence up to the state the
  doors share, the write-event worker, the garbage-collection tick, the port search and the console's
  page. The data directory is the root of the disk. Logging, the banner, argument parsing, sockets and
  the asset bundle are left out or parameters.
\<close>

section \<open>The master key\<close>

definition MASTER_KEY :: path where "MASTER_KEY = [''master.key'']"

datatype boot_error =
    BadMasterKey | Rng | KeyFile io_error | BootStore store_error | BootEngine engine_error

definition decode_key :: "ext \<Rightarrow> string \<Rightarrow> bytes option" where
  "decode_key X hexed =
     Option.bind (hex_decode X (trim hexed)) (\<lambda>b. if length b = 32 then Some b else None)"

text \<open>\<open>OpenOptions\<close> with \<open>create\<close> and \<open>truncate\<close>, and the bytes written: no temporary file.\<close>

definition write_truncate :: "path \<Rightarrow> bytes \<Rightarrow> fs \<Rightarrow> (io_error + unit) \<times> fs" where
  "write_truncate p b d =
     (case name_error p of
        Some e \<Rightarrow> (Inl e, d)
      | None \<Rightarrow>
          if file_above d p then (Inl NotADirectory, d)
          else if fs_lookup d p = Some Dir then (Inl IsADirectory, d)
          else if fs_lookup d (butlast p) \<noteq> Some Dir then (Inl NotFound, d)
          else (Inr (), AList.update p (File b) d))"

definition write_key_file :: "ext \<Rightarrow> bytes \<Rightarrow> fs \<Rightarrow> (io_error + unit) \<times> fs" where
  "write_key_file X key = write_truncate MASTER_KEY (as_bytes (hex_encode X key))"

text \<open>\<open>rng\<close> is what the operating system's generator gives. Any failure to read the file counts as
  its absence.\<close>

definition resolve_master_key :: "ext \<Rightarrow> env \<Rightarrow> bytes option \<Rightarrow> fs \<Rightarrow> (boot_error + bytes) \<times> fs" where
  "resolve_master_key X env rng d =
     (case env ''BARME_MASTER_KEY'' of
        Some hexed \<Rightarrow> (ok_or BadMasterKey (decode_key X hexed), d)
      | None \<Rightarrow>
          (case fs_read_to_string d MASTER_KEY of
             Inr content \<Rightarrow> (ok_or BadMasterKey (decode_key X (trim content)), d)
           | Inl err \<Rightarrow>
               and_then (ok_or Rng rng, d) (\<lambda>key d.
                 case create_dir_all d [] of
                   Inl e \<Rightarrow> (Inl (KeyFile e), d)
                 | Inr d \<Rightarrow>
                     (case write_key_file X key d of
                        (Inl e, d) \<Rightarrow> (Inl (KeyFile e), d)
                      | (Inr _, d) \<Rightarrow> (Inr key, d)))))"

section \<open>Boot\<close>

definition policy_of :: "config \<Rightarrow> policy" where
  "policy_of cfg =
     (let p = default_policy cfg in
      \<lparr>pol_codec = pc_codec p, pol_zstd_level = pc_zstd_level p, pol_tenant = pc_tenant p,
       pol_name = pc_policy_name p\<rparr>)"

text \<open>What the operating system gives during one boot: the master key candidate, the nonces of migrated
  records and of a new owner record, the bytes of a generated secret, the time as text.\<close>

record entropy =
  rn_master :: "bytes option"
  rn_migrate :: "string \<Rightarrow> bytes option"
  rn_nonce :: "bytes option"
  rn_secret :: bytes
  rn_now :: string

definition random_secret :: "ext \<Rightarrow> entropy \<Rightarrow> string" where
  "random_secret X R = hex_encode X (rn_secret R)"

definition seed_owner :: "ext \<Rightarrow> config \<Rightarrow> entropy \<Rightarrow> engine \<Rightarrow> (engine_error + unit) \<times> engine" where
  "seed_owner X cfg R e =
     (case credentials_of cfg of
        Some c \<Rightarrow> ensure_owner X (rn_nonce R) (rn_now R) (cr_access_key c) (cr_secret_key c) e
      | None \<Rightarrow>
          and_then (list_keys X e, e) (\<lambda>ks e.
            if ks = [] then ensure_owner X (rn_nonce R) (rn_now R) ''barme'' (random_secret X R) e
            else (Inr (), e)))"

definition boot :: "ext \<Rightarrow> config \<Rightarrow> env \<Rightarrow> entropy \<Rightarrow> fs \<Rightarrow> boot_error + engine \<times> opened" where
  "boot X cfg env R d =
     (case resolve_master_key X env (rn_master R) d of
        (Inl err, _) \<Rightarrow> Inl err
      | (Inr mk, d) \<Rightarrow>
          (case open_engine X (policy_of cfg) (Some mk) (rn_migrate R) d of
             (Inl err, _) \<Rightarrow> Inl (BootStore err)
           | (Inr (e, s), _) \<Rightarrow>
               (case seed_owner X cfg R (set_write_hook e) of
                  (Inl err, _) \<Rightarrow> Inl (BootEngine err)
                | (Inr _, e) \<Rightarrow> Inr (e, s))))"

section \<open>The garbage-collection tick\<close>

definition gc_tick :: "ext \<Rightarrow> config \<Rightarrow> nat \<Rightarrow> engine \<Rightarrow> (engine_error + sweep_counts) \<times> engine" where
  "gc_tick X cfg now e =
     (case enforce_lifecycle X now e of (_, e) \<Rightarrow> gc_sweep X now (gc_grace_secs cfg) e)"

section \<open>The write-event worker\<close>

text \<open>The JSON payload of a webhook call.\<close>

record hook_payload =
  hp_event :: string
  hp_object_id :: string
  hp_pot :: string
  hp_key :: string
  hp_content_type :: string

definition hook_calls :: "ext \<Rightarrow> engine \<Rightarrow> write_event \<Rightarrow> (string \<times> hook_payload) list" where
  "hook_calls X e ev =
     map (\<lambda>h. (hook_url h, \<lparr>hp_event = ''write'', hp_object_id = show_hash X (ev_object_id ev), hp_pot = ev_bucket ev,
                            hp_key = ev_key ev, hp_content_type = ev_content_type ev\<rparr>))
       (filter (\<lambda>h. wants h ''write'') (case list_webhooks X e of Inl err \<Rightarrow> [] | Inr hs \<Rightarrow> hs))"

text \<open>\<open>BTreeMap::insert\<close> on the tags.\<close>

fun tag_insert :: "string \<Rightarrow> string \<Rightarrow> (string \<times> string) list \<Rightarrow> (string \<times> string) list" where
  "tag_insert n x [] = [(n, x)]"
| "tag_insert n x ((m, y) # ps) =
     (if n < m then (n, x) # (m, y) # ps
      else if n = m then (n, x) # ps
      else (m, y) # tag_insert n x ps)"

definition auto_tags :: "string list \<Rightarrow> (string \<times> string) list \<Rightarrow> (string \<times> string) list" where
  "auto_tags ts m = fold (\<lambda>(i, tag) m. tag_insert (''auto:'' @ show_nat i) tag m) (zip [0..<length ts] ts) m"

definition annotate :: "understanding \<Rightarrow> annotation \<Rightarrow> annotation" where
  "annotate u a =
     (let a = a\<lparr>tags := auto_tags (un_tags u) (tags a)\<rparr> in
      case un_text u of
        None \<Rightarrow> a
      | Some txt \<Rightarrow> if ann_note a = [] then a\<lparr>ann_note := txt\<rparr> else a)"

text \<open>The calls made, and the engine and semantic layer afterwards; failures are only logged.\<close>

definition dispatch_event ::
  "ext \<Rightarrow> write_event \<Rightarrow> engine \<Rightarrow> semantic option \<Rightarrow> (string \<times> hook_payload) list \<times> engine \<times> semantic option" where
  "dispatch_event X ev e sem =
     (hook_calls X e ev,
      (case sem of
         None \<Rightarrow> (e, None)
       | Some s \<Rightarrow>
           (case read_object X e (ev_object_id ev) of
              Inl err \<Rightarrow> (e, Some s)
            | Inr content \<Rightarrow>
                (case understand (ev_tenant ev) (ev_object_id ev) (ev_content_type ev) content s of
                   (Inl err, s) \<Rightarrow> (e, Some s)
                 | (Inr u, s) \<Rightarrow>
                     if un_tags u \<noteq> [] \<or> un_text u \<noteq> None then
                       (case get_annotation X e (ev_bucket ev) (ev_key ev) of
                          Inl err \<Rightarrow> (e, Some s)
                        | Inr a \<Rightarrow> (snd (set_annotation X (ev_bucket ev) (ev_key ev) (annotate u a) e), Some s))
                     else (e, Some s)))))"

section \<open>Ports and addresses\<close>

text \<open>\<open>bind\<close> is the operating system's answer for a port. The loop is over 64 attempts.\<close>

datatype bind_answer = Bound | InUse | BindFailed io_error

fun bind_from :: "(nat \<Rightarrow> bind_answer) \<Rightarrow> nat \<Rightarrow> nat \<Rightarrow> (bind_answer + nat)" where
  "bind_from bind 0 port = Inl InUse"
| "bind_from bind (Suc n) port =
     (case bind port of
        Bound \<Rightarrow> Inr port
      | InUse \<Rightarrow> if port < 65535 then bind_from bind n (port + 1) else Inl InUse
      | BindFailed e \<Rightarrow> Inl (BindFailed e))"

definition bind_with_fallback :: "(nat \<Rightarrow> bind_answer) \<Rightarrow> nat \<Rightarrow> (bind_answer + nat)" where
  "bind_with_fallback bind desired = bind_from bind 64 desired"

definition rsplit_once :: "char \<Rightarrow> string \<Rightarrow> (string \<times> string) option" where
  "rsplit_once c s = map_option (\<lambda>(a, b). (rev b, rev a)) (split_once c (rev s))"

definition http_base :: "string \<Rightarrow> string" where
  "http_base addr =
     (let (host, port) = (case rsplit_once CHR '':'' addr of None \<Rightarrow> (''localhost'', ''7375'') | Some p \<Rightarrow> p);
          host = (if host = [] \<or> host = ''0.0.0.0'' \<or> host = ''[::]'' then ''localhost'' else host) in
      ''http://'' @ host @ '':'' @ port)"

section \<open>The console page\<close>

definition lower_hex_digit :: "nat \<Rightarrow> char" where
  "lower_hex_digit n = char_of (if n < 10 then 48 + n else 87 + n)"

definition json_char :: "char \<Rightarrow> string" where
  "json_char c =
     (if c = CHR 0x22 then [CHR 0x5C, CHR 0x22]
      else if c = CHR 0x5C then [CHR 0x5C, CHR 0x5C]
      else if c = CHR ''<'' then CHR 0x5C # ''u003c''
      else if c = CHR ''>'' then CHR 0x5C # ''u003e''
      else if c = CHR ''&'' then CHR 0x5C # ''u0026''
      else if (of_char c :: nat) < 32 then
        CHR 0x5C # ''u00'' @ [lower_hex_digit (of_char c div 16), lower_hex_digit (of_char c mod 16)]
      else [c])"

definition json_string :: "string \<Rightarrow> string" where
  "json_string s = CHR 0x22 # concat (map json_char s) @ [CHR 0x22]"

record public_urls =
  pu_api :: "string option"
  pu_cdn :: "string option"

definition urls_empty :: "public_urls \<Rightarrow> bool" where
  "urls_empty u \<longleftrightarrow> pu_api u = None \<and> pu_cdn u = None"

definition console_script :: "public_urls \<Rightarrow> string" where
  "console_script u =
     (let fields = (case pu_api u of None \<Rightarrow> [] | Some a \<Rightarrow> [''api:'' @ json_string a]) @
                   (case pu_cdn u of None \<Rightarrow> [] | Some a \<Rightarrow> [''cdn:'' @ json_string a]) in
      ''<script>window.__BARME__={'' @ join_with '','' fields @ ''}</script>'')"

text \<open>\<open>None\<close> is the 404 of a bundle without its page.\<close>

definition index_page :: "string option \<Rightarrow> public_urls \<Rightarrow> string option" where
  "index_page asset u =
     map_option (\<lambda>html.
       if urls_empty u then html
       else case find_sub ''</head>'' html of
         Some i \<Rightarrow> take i html @ console_script u @ drop i html
       | None \<Rightarrow> console_script u @ html) asset"

text \<open>\<open>asset\<close> is the bundle: a path's bytes with the content type guessed from its name. A path that is
  not in the bundle is answered with the page.\<close>

datatype console_answer = Asset string string | Page string | NotBuilt

definition console_serve :: "(string \<Rightarrow> (string \<times> string) option) \<Rightarrow> public_urls \<Rightarrow> string \<Rightarrow> console_answer" where
  "console_serve asset u path =
     (let path = dropWhile (\<lambda>c. c = CHR ''/'') path;
          path = (if path = [] then ''index.html'' else path);
          index = (case index_page (map_option fst (asset ''index.html'')) u of
                     None \<Rightarrow> NotBuilt
                   | Some html \<Rightarrow> Page html) in
      if path \<noteq> ''index.html'' then
        (case asset path of Some (b, mime) \<Rightarrow> Asset b mime | None \<Rightarrow> index)
      else index)"

section \<open>Command line\<close>

record cli =
  cli_data_dir :: "string option"
  cli_native_addr :: "string option"
  cli_s3_addr :: "string option"
  cli_cdn_addr :: "string option"
  cli_console_addr :: "string option"

definition apply_cli :: "cli \<Rightarrow> config \<Rightarrow> config" where
  "apply_cli a c =
     (let c = when_set (cli_data_dir a) (\<lambda>v c. c\<lparr>data_dir := v\<rparr>) c;
          c = when_set (cli_native_addr a) (\<lambda>v c. c\<lparr>native_addr := v\<rparr>) c;
          c = when_set (cli_s3_addr a) (\<lambda>v c. c\<lparr>s3_addr := v\<rparr>) c;
          c = when_set (cli_cdn_addr a) (\<lambda>v c. c\<lparr>cdn_addr := v\<rparr>) c
      in when_set (cli_console_addr a) (\<lambda>v c. c\<lparr>console_addr := v\<rparr>) c)"

end
