(* ===== verification/Daemon_Props.thy ===== *)
theory Daemon_Props
  imports Daemon Recovery_Props Demo_S3
begin

text \<open>
  The boot sequence ends with authentication enforced, the master key file, and the console's page.
\<close>

section \<open>Opening with a master key\<close>

lemma open_engine_keyed:
  assumes "keys_ok X (Some mk) d" "\<forall>q. \<not> is_temp d q" "\<forall>name. nonce_ok (rng name)"
    and "stamp_state X d = None \<or> (\<exists>v \<le> FORMAT_VERSION. stamp_state X d = Some (Some v))"
  shows "\<exists>e s. open_engine X pol (Some mk) rng d = (Inr (e, s), disk e) \<and> cipher e = Some mk \<and>
     keys_ok X (Some mk) (disk e) \<and>
     (\<forall>a. valid_pot a \<longrightarrow> key_get X (Some mk) (disk e) a = key_get X (Some mk) d a) \<and>
     (key_list X (Some mk) d = Inr [] \<longrightarrow> key_list X (Some mk) (disk e) = Inr [])"
proof -
  have dk: "disk_ok d" using assms(1) by (simp add: keys_ok_def flat_ok_def)
  from open_front [OF dk assms(2,4)] obtain d1 d2 where
    1: "open_format X d = (Inr FORMAT_VERSION, d1)" "sweep_temp d1 = (Inr 0, d2)" "disk_ok d2"
      "\<forall>q. q \<noteq> [FORMAT_FILE] \<longrightarrow> fs_lookup d2 q = fs_lookup d q" by blast
  from open_dirs_ok [OF 1(3), of "[key_dir]"] obtain d3 where
    3: "open_dirs [key_dir] d2 = (Inr (), d3)" "disk_ok d3" "contents d3 = contents d2"
    by (auto simp: flat_dirs_def simp del: open_dirs.simps)
  have "contents d3 [key_dir, f] = contents d [key_dir, f]" for f using 1(4) 3(3) by (simp add: contents_def)
  note k3 = keys_ok_agree [OF assms(1) 3(2) this]
  from migrate_ok [OF k3(1) assms(3)] obtain d4 where
    4: "migrate_plaintext X (Some mk) rng d3 = (Inr (), d4)" "keys_ok X (Some mk) d4"
      "\<forall>a. valid_pot a \<longrightarrow> key_get X (Some mk) d4 a = key_get X (Some mk) d3 a" by blast
  have dk4: "disk_ok d4" using 4(2) by (simp add: keys_ok_def flat_ok_def)
  let ?ts = "[chunk_dir, manifest_dir, pointer_dir, meta_dir, annotation_dir, reverse_dir, webhook_dir]"
  from open_dirs_ok [OF dk4, of ?ts] obtain d5 where
    5: "open_dirs ?ts d4 = (Inr (), d5)" "disk_ok d5" "contents d5 = contents d4"
    by (auto simp: flat_dirs_def nested_dirs_def simp del: open_dirs.simps)
  have "contents d5 [key_dir, f] = contents d4 [key_dir, f]" for f using 5(3) by simp
  note k5 = keys_ok_agree [OF 4(2) 5(2) this]
  have "open_keys X (Some mk) rng d2 = (Inr (), d4)" using 3(1) 4(1) by (simp add: open_keys_def del: open_dirs.simps)
  moreover have "key_list X (Some mk) d5 = Inr []" if "key_list X (Some mk) d = Inr []"
  proof -
    have "contents d [key_dir, f] = None" for f using key_list_ok [OF assms(1)] that by auto
    then have none: "contents d3 [key_dir, f] = None" for f using 1(4) 3(3) by (simp add: contents_def)
    then have "key_names d3 = Inr []" using key_names_ok [OF k3(1)] by (auto simp: set_empty [symmetric] simp del: set_empty)
    then have "d4 = d3" using 4(1) by (simp add: migrate_plaintext_def)
    then have "contents d5 [key_dir, f] = None" for f using none 5(3) by simp
    then show ?thesis using key_list_ok [OF k5(1)] by auto
  qed
  ultimately show ?thesis using 1(1,2) 5(1) k3(2) k5 4(3)
    by (simp add: open_engine_def open_store_def del: open_dirs.simps)
qed

section \<open>Listed keys\<close>

text \<open>The listing and the lookup of keys agree.\<close>

lemma key_file_get:
  assumes ok: "keys_ok X c d" and b: "contents d [key_dir, f] \<noteq> None"
    and r: "try_then (key_read X d f) (key_decode X c) = Inr r"
  shows "valid_pot (access_key r) \<and> [key_dir, f] = key_path X (access_key r) \<and> key_get X c d (access_key r) = Inr (Some r)"
proof -
  have dk: "disk_ok d" "hex_ok X" "flat_ok X d" using ok by (auto simp: keys_ok_def flat_ok_def)
  from b obtain b where b: "contents d [key_dir, f] = Some b" by auto
  with ok obtain s r' where s: "key_of_json X b = Some s" "[key_dir, f] = key_path X (sk_access_key s)"
    "valid_access (sk_access_key s)" "key_decode X c s = Inr r'" unfolding keys_ok_def key_file_ok_def by blast
  have "good [key_dir, f]" using s(2,3) dk by (simp add: good_key valid_access_def)
  then have "r = r'" using r b s(1,4) dk(1) by (simp add: key_read_def read_good)
  moreover have "access_key r' = sk_access_key s" using s(4) by (auto simp: key_decode_def result_simps split: option.splits)
  ultimately show ?thesis using s b key_get_eq [OF dk(3), of "sk_access_key s" c]
    by (simp add: key_at_def valid_access_def)
qed

lemma listed_key:
  assumes ok: "keys_ok X c d" and l: "key_list X c d = Inr ks" and a: "valid_pot a" "key_get X c d a = Inr (Some r)"
  shows "creds_record (from_records ks) a = Some r"
proof -
  have fl: "flat_ok X d" using ok by (simp add: keys_ok_def)
  from key_names_ok [OF ok] obtain ns where ns: "key_names d = Inr ns"
    "\<forall>f. f \<in> set ns \<longleftrightarrow> contents d [key_dir, f] \<noteq> None" by blast
  have all: "list_all2 (\<lambda>f r. try_then (key_read X d f) (key_decode X c) = Inr r) ns ks"
    using l ns(1) by (simp add: key_list_def try_map_Inr_iff)
  have get: "valid_pot (access_key x) \<and> key_get X c d (access_key x) = Inr (Some x)" if "x \<in> set ks" for x
  proof -
    from that obtain j where j: "j < length ks" "ks ! j = x" by (auto simp: in_set_conv_nth)
    then have "j < length ns" "try_then (key_read X d (ns ! j)) (key_decode X c) = Inr x"
      using list_all2_lengthD [OF all] list_all2_nthD2 [OF all j(1)] j by simp_all
    then show ?thesis using key_file_get [OF ok, of "ns ! j" x] ns(2) nth_mem by blast
  qed
  obtain f where f: "key_path X a = [key_dir, f]" by (simp add: key_path_def)
  have "contents d [key_dir, f] \<noteq> None" using key_get_eq [OF fl a(1), of c] a(2) f by (cases "contents d [key_dir, f]") (simp_all add: key_at_def)
  then have "f \<in> set ns" using ns(2) by blast
  then obtain j where j: "j < length ns" "ns ! j = f" by (auto simp: in_set_conv_nth)
  then have r': "ks ! j \<in> set ks" "try_then (key_read X d f) (key_decode X c) = Inr (ks ! j)"
    using list_all2_nthD [OF all j(1)] list_all2_lengthD [OF all] j by simp_all
  have "hex_ok X" using fl by (simp add: flat_ok_def)
  moreover have "key_path X a = key_path X (access_key (ks ! j))"
    using key_file_get [OF ok \<open>contents d [key_dir, f] \<noteq> None\<close> r'(2)] f by simp
  ultimately have "a = access_key (ks ! j)" using key_path_inj by blast
  then have "map_of (from_records ks) a \<noteq> None"
    using r'(1) by (auto simp: from_records_def map_of_eq_None_iff image_iff)
  then obtain x where x: "map_of (from_records ks) a = Some x" by auto
  from from_records_lookup [OF this] get [of x] a(2) show ?thesis by (simp add: creds_record_def x)
qed

section \<open>The master key file\<close>

lemma master_key_path: "name_error MASTER_KEY = None" "plain MASTER_KEY" "butlast MASTER_KEY = []" "MASTER_KEY \<noteq> []"
  "\<not> file_above d MASTER_KEY"
  by (simp_all add: MASTER_KEY_def name_error_def NAME_MAX_def plain_def file_above_def is_file_at_def)

lemma root_exists: "create_dir_all d [] = Inr d"
  by (simp add: create_dir_all_def name_error_def file_above_def parents_def)

lemma write_key_file_eq:
  "write_key_file X key d =
     (if fs_lookup d MASTER_KEY = Some Dir then (Inl IsADirectory, d)
      else (Inr (), AList.update MASTER_KEY (File (as_bytes (hex_encode X key))) d))"
  by (simp add: write_key_file_def write_truncate_def master_key_path)

lemma read_master:
  "fs_lookup d MASTER_KEY = Some (File b) \<Longrightarrow> fs_read d MASTER_KEY = Inr b"
  by (simp add: fs_read_def resolve_plain master_key_path)

lemma trim_hex: "hex_ok X \<Longrightarrow> trim (hex_encode X b) = hex_encode X b"
  using hex_okD(3) [of X b]
  by (intro trim_graphic) (auto simp: list_all_iff graphic_def hex_digits_def dest!: subsetD)

lemma decode_key_hex: "hex_ok X \<Longrightarrow> length k = 32 \<Longrightarrow> decode_key X (hex_encode X k) = Some k"
  by (simp add: decode_key_def trim_hex hex_okD)

text \<open>
  C29: the master key is stable. Whatever key a boot resolved from the data directory, generated or
  read, the next boot resolves the same key, whatever the random generator gives, and leaves the
  directory as it is.
\<close>

theorem master_key_stable:
  assumes "hex_ok X" "env ''BARME_MASTER_KEY'' = None" "\<forall>b. rng = Some b \<longrightarrow> length b = 32"
    and "resolve_master_key X env rng d = (Inr k, d')"
  shows "resolve_master_key X env rng' d' = (Inr k, d')"
proof (cases "fs_read_to_string d MASTER_KEY")
  case (Inr c)
  with assms(2,4) show ?thesis by (auto simp: resolve_master_key_def)
next
  case (Inl err)
  with assms(2,4) obtain b where
    b: "rng = Some b" "b = k" "fs_lookup d MASTER_KEY \<noteq> Some Dir"
      "d' = AList.update MASTER_KEY (File (as_bytes (hex_encode X b))) d"
    by (auto simp: resolve_master_key_def root_exists write_key_file_eq ok_or_def split: option.splits if_splits)
  then have "fs_lookup d' MASTER_KEY = Some (File (as_bytes (hex_encode X k)))"
    by (simp add: fs_lookup_def master_key_path update_conv)
  from read_master [OF this] have "fs_read_to_string d' MASTER_KEY = Inr (hex_encode X k)"
    using assms(1) by (simp add: fs_read_to_string_def utf8_valid_ascii ascii_hex_encode)
  moreover have "length k = 32" using assms(3) b by simp
  ultimately show ?thesis using assms(1,2)
    by (simp add: resolve_master_key_def trim_hex decode_key_hex ok_or_def)
qed

theorem master_key_stable_witness:
  "\<exists>d. resolve_master_key demo (\<lambda>_. None) (Some (replicate 32 7)) [] = (Inr (replicate 32 7), d) \<and>
     resolve_master_key demo (\<lambda>_. None) None d = (Inr (replicate 32 7), d)"
proof -
  let ?k = "replicate 32 7 :: bytes"
  have "fs_read_to_string [] MASTER_KEY = Inl NotFound"
    by (simp add: fs_read_to_string_def fs_read_def resolve_plain master_key_path fs_lookup_def)
  then obtain d where d: "resolve_master_key demo (\<lambda>_. None) (Some ?k) [] = (Inr ?k, d)"
    by (simp add: resolve_master_key_def root_exists write_key_file_eq ok_or_def fs_lookup_def master_key_path)
  then show ?thesis using master_key_stable [of demo "\<lambda>_. None" "Some ?k" "[]" ?k d None] by auto
qed

text \<open>
  A key file that exists but is not UTF-8 text, such as 32 raw bytes, is not refused: the boot
  replaces it by a freshly generated key, and every other file stays.
\<close>

theorem unreadable_master_key_replaced:
  assumes "contents d MASTER_KEY = Some old" "from_utf8 old = None" "env ''BARME_MASTER_KEY'' = None"
  shows "\<exists>d'. resolve_master_key X env (Some k) d = (Inr k, d') \<and>
     contents d' MASTER_KEY = Some (as_bytes (hex_encode X k)) \<and>
     (\<forall>q. q \<noteq> MASTER_KEY \<longrightarrow> fs_lookup d' q = fs_lookup d q)"
proof -
  from assms(1) have l: "fs_lookup d MASTER_KEY = Some (File old)"
    by (auto simp: contents_def split: option.splits fs_node.splits)
  from read_master [OF l] have "fs_read_to_string d MASTER_KEY = Inl InvalidData"
    using assms(2) by (simp add: fs_read_to_string_def)
  then have "resolve_master_key X env (Some k) d =
     (Inr k, AList.update MASTER_KEY (File (as_bytes (hex_encode X k))) d)"
    using assms(3) l by (simp add: resolve_master_key_def root_exists write_key_file_eq ok_or_def)
  then show ?thesis
    by (intro exI [of _ "AList.update MASTER_KEY (File (as_bytes (hex_encode X k))) d"] conjI)
      (simp_all add: contents_def fs_lookup_def update_conv master_key_path(4))
qed

lemma from_utf8_255: "from_utf8 (255 # b) = None"
  by (simp add: from_utf8_def, subst utf8_valid.simps) (simp add: utf8_head_def byte_at_def of_bytes_def char_of_byte_def)

theorem unreadable_master_key_replaced_witness:
  "\<exists>d d'. contents d MASTER_KEY = Some (replicate 32 255) \<and>
     resolve_master_key demo (\<lambda>_. None) (Some (replicate 32 7)) d = (Inr (replicate 32 7), d') \<and>
     contents d' MASTER_KEY \<noteq> Some (replicate 32 255)"
proof -
  let ?d = "[(MASTER_KEY, File (replicate 32 255))]"
  have 1: "contents ?d MASTER_KEY = Some (replicate 32 255)"
    by (simp add: contents_def fs_lookup_def master_key_path)
  have "replicate 32 255 = (255::u8) # replicate 31 255" using replicate_Suc [of 31 "255::u8"] by simp
  then have 2: "from_utf8 (replicate 32 255) = None" using from_utf8_255 by metis
  have "\<exists>d'. resolve_master_key demo (\<lambda>_. None) (Some (replicate 32 7)) ?d = (Inr (replicate 32 7), d') \<and>
     contents d' MASTER_KEY = Some (as_bytes (hex_encode demo (replicate 32 7))) \<and>
     (\<forall>q. q \<noteq> MASTER_KEY \<longrightarrow> fs_lookup d' q = fs_lookup ?d q)"
    by (rule unreadable_master_key_replaced [OF 1 2]) simp
  then obtain d' where
    "resolve_master_key demo (\<lambda>_. None) (Some (replicate 32 7)) ?d = (Inr (replicate 32 7), d')"
    "contents d' MASTER_KEY = Some (as_bytes (hex_encode demo (replicate 32 7)))"
    by (elim exE conjE) (rule that)
  moreover have "as_bytes (hex_encode demo (replicate 32 7)) \<noteq> replicate 32 255"
  proof
    assume "as_bytes (hex_encode demo (replicate 32 7)) = replicate 32 255"
    then have "length (as_bytes (hex_encode demo (replicate 32 7))) = 32" by simp
    then show False by (simp add: hex_okD)
  qed
  ultimately show ?thesis using 1 by (intro exI [of _ ?d] exI [of _ d']) simp
qed

section \<open>Boot\<close>

text \<open>The owner a fresh store gets: the configured credential, or a generated secret.\<close>

definition owner_at_boot :: "ext \<Rightarrow> config \<Rightarrow> entropy \<Rightarrow> key_record" where
  "owner_at_boot X cfg R =
     (case credentials_of cfg of
        Some c \<Rightarrow> \<lparr>access_key = cr_access_key c, secret_key = cr_secret_key c, read_only = False, pots = [],
                    key_created_at = rn_now R\<rparr>
      | None \<Rightarrow> \<lparr>access_key = ''barme'', secret_key = random_secret X R, read_only = False, pots = [],
                    key_created_at = rn_now R\<rparr>)"

definition owner_ok :: "key_record \<Rightarrow> bool" where
  "owner_ok r \<longleftrightarrow> valid_access (access_key r) \<and> secret_ok (secret_key r)"

definition credential_ok :: "config \<Rightarrow> bool" where
  "credential_ok cfg \<longleftrightarrow>
     (case credentials_of cfg of
        None \<Rightarrow> True
      | Some c \<Rightarrow> valid_access (cr_access_key c) \<and> secret_ok (cr_secret_key c))"

lemma owner_at_boot_ok:
  assumes "hex_ok X" "credential_ok cfg" "length (rn_secret R) = 32"
  shows "owner_ok (owner_at_boot X cfg R)"
proof (cases "credentials_of cfg")
  case None
  have "utf8_valid (random_secret X R)" "length (random_secret X R) = 64"
    using assms(1,3) by (simp_all add: random_secret_def utf8_valid_ascii ascii_hex_encode hex_okD)
  with None show ?thesis
    by (simp add: owner_ok_def owner_at_boot_def valid_access_def valid_pot_def NAME_MAX_def secret_ok_def)
next
  case (Some c)
  with assms(2) show ?thesis by (simp add: owner_ok_def owner_at_boot_def credential_ok_def)
qed

lemma seed_owner_eq:
  "seed_owner X cfg R e =
     and_then (list_keys X e, e) (\<lambda>ks e.
       if ks = [] then on_disk (key_put X (cipher e) (rn_nonce R) (owner_at_boot X cfg R)) e else (Inr (), e))"
proof (cases "list_keys X e")
  case (Inr ks)
  then show ?thesis
    by (cases "credentials_of cfg") (simp_all add: seed_owner_def ensure_owner_def owner_at_boot_def)
qed (simp add: seed_owner_def ensure_owner_def split: option.split)

lemma seed_owner_ok:
  assumes "keys_ok X (Some mk) (disk e)" "cipher e = Some mk" "nonce_ok (rn_nonce R)"
    and "owner_ok (owner_at_boot X cfg R)"
  shows "\<exists>e' ks. seed_owner X cfg R e = (Inr (), e') \<and> list_keys X e' = Inr ks \<and> ks \<noteq> [] \<and>
     (\<forall>a r. valid_pot a \<longrightarrow> get_key X e a = Inr (Some r) \<longrightarrow> get_key X e' a = Inr (Some r)) \<and>
     (list_keys X e = Inr [] \<longrightarrow>
        get_key X e' (access_key (owner_at_boot X cfg R)) = Inr (Some (owner_at_boot X cfg R)))"
proof -
  let ?o = "owner_at_boot X cfg R"
  from key_list_ok [OF assms(1)] obtain ks where
    ks: "key_list X (Some mk) (disk e) = Inr ks" "ks = [] \<longleftrightarrow> (\<forall>f. contents (disk e) [key_dir, f] = None)" by blast
  show ?thesis
  proof (cases "ks = []")
    case False
    with ks assms(2) show ?thesis by (auto simp: seed_owner_eq list_keys_def)
  next
    case True
    obtain res d' where put: "key_put X (Some mk) (rn_nonce R) ?o (disk e) = (res, d')" by force
    have o: "valid_access (access_key ?o)" "secret_ok (secret_key ?o)" "valid_pot (access_key ?o)"
      using assms(4) by (auto simp: owner_ok_def valid_access_def)
    have nn: "Some mk \<noteq> None \<longrightarrow> nonce_ok (rn_nonce R)" using assms(3) by simp
    note p = key_put_ok [OF assms(1) o(1,2) nn put]
    have fl: "flat_ok X (disk e)" using assms(1) by (simp add: keys_ok_def)
    have none: "key_get X (Some mk) (disk e) a = Inr None" if "valid_pot a" for a
      using ks(2) True key_get_eq [OF fl that] by (simp add: key_at_def key_path_def)
    from key_list_ok [OF p(2)] obtain ks' where
      k: "key_list X (Some mk) d' = Inr ks'" "ks' = [] \<longleftrightarrow> (\<forall>f. contents d' [key_dir, f] = None)" by blast
    have "ks' \<noteq> []"
    proof
      assume "ks' = []"
      then have "key_get X (Some mk) d' (access_key ?o) = Inr None"
        using k(2) key_get_eq [of X d' "access_key ?o" "Some mk"] p(2) o(3)
        by (simp add: key_at_def key_path_def keys_ok_def)
      with p(3) [OF o(3)] show False by simp
    qed
    moreover have "seed_owner X cfg R e = (Inr (), e\<lparr>disk := d'\<rparr>)"
      using ks(1) True put p(1) assms(2) by (simp add: seed_owner_eq list_keys_def on_disk_def)
    ultimately show ?thesis using k(1) p(3) [OF o(3)] none assms(2)
      by (auto simp: list_keys_def get_key_def)
  qed
qed

lemma boot_keys:
  assumes "resolve_master_key X env (rn_master R) d = (Inr mk, d0)"
    and "keys_ok X (Some mk) d0" "\<forall>q. \<not> is_temp d0 q"
    and "stamp_state X d0 = None \<or> (\<exists>v \<le> FORMAT_VERSION. stamp_state X d0 = Some (Some v))"
    and "\<forall>name. nonce_ok (rn_migrate R name)" "nonce_ok (rn_nonce R)"
    and "length (rn_secret R) = 32" "credential_ok cfg"
  shows "\<exists>e s ks. boot X cfg env R d = Inr (e, s) \<and> list_keys X e = Inr ks \<and> ks \<noteq> [] \<and>
     (\<forall>a r. valid_pot a \<longrightarrow> key_get X (Some mk) d0 a = Inr (Some r) \<longrightarrow> get_key X e a = Inr (Some r)) \<and>
     (key_list X (Some mk) d0 = Inr [] \<longrightarrow>
        get_key X e (access_key (owner_at_boot X cfg R)) = Inr (Some (owner_at_boot X cfg R)))"
proof -
  have hx: "hex_ok X" using assms(2) by (simp add: keys_ok_def flat_ok_def)
  from open_engine_keyed [OF assms(2,3,5,4)] obtain e s where
    e: "open_engine X (policy_of cfg) (Some mk) (rn_migrate R) d0 = (Inr (e, s), disk e)" "cipher e = Some mk"
      "keys_ok X (Some mk) (disk e)"
      "\<forall>a. valid_pot a \<longrightarrow> key_get X (Some mk) (disk e) a = key_get X (Some mk) d0 a"
      "key_list X (Some mk) d0 = Inr [] \<longrightarrow> key_list X (Some mk) (disk e) = Inr []" by blast
  let ?e = "set_write_hook e"
  have k: "keys_ok X (Some mk) (disk ?e)" "cipher ?e = Some mk" using e(2,3) by (simp_all add: set_write_hook_def)
  from seed_owner_ok [OF k assms(6) owner_at_boot_ok [OF hx assms(8,7)]] obtain e' ks where
    1: "seed_owner X cfg R ?e = (Inr (), e')" "list_keys X e' = Inr ks" "ks \<noteq> []"
      "\<forall>a r. valid_pot a \<longrightarrow> get_key X ?e a = Inr (Some r) \<longrightarrow> get_key X e' a = Inr (Some r)"
      "list_keys X ?e = Inr [] \<longrightarrow>
         get_key X e' (access_key (owner_at_boot X cfg R)) = Inr (Some (owner_at_boot X cfg R))"
    by (elim exE conjE) (rule that)
  have "boot X cfg env R d = Inr (e', s)" using assms(1) e(1) 1(1) by (simp add: boot_def)
  moreover have "get_key X ?e a = Inr (Some r)" if "valid_pot a" "key_get X (Some mk) d0 a = Inr (Some r)" for a r
    using e(2,4) that by (simp add: get_key_def set_write_hook_def)
  moreover have "list_keys X ?e = Inr []" if "key_list X (Some mk) d0 = Inr []"
    using e(2,5) that by (simp add: list_keys_def set_write_hook_def)
  ultimately show ?thesis using 1(2-5) by blast
qed

text \<open>
  C11: a boot never ends with the doors open. On a data directory whose key files can be read with the
  master key found (a fresh directory included), with working randomness and, where one is needed, a
  usable owner credential, the boot succeeds, the list of access keys reads and is not empty, every key
  known before is still there unchanged, and a directory without keys gets exactly the owner configured
  or generated.
\<close>

theorem boot_enforces_auth:
  assumes "resolve_master_key X env (rn_master R) d = (Inr mk, d0)"
    and "keys_ok X (Some mk) d0" "\<forall>q. \<not> is_temp d0 q"
    and "stamp_state X d0 = None \<or> (\<exists>v \<le> FORMAT_VERSION. stamp_state X d0 = Some (Some v))"
    and "\<forall>name. nonce_ok (rn_migrate R name)" "nonce_ok (rn_nonce R)"
    and "length (rn_secret R) = 32" "credential_ok cfg"
  shows "\<exists>e s ks. boot X cfg env R d = Inr (e, s) \<and> list_keys X e = Inr ks \<and> ks \<noteq> [] \<and>
     (\<forall>a r. valid_pot a \<longrightarrow> key_get X (Some mk) d0 a = Inr (Some r) \<longrightarrow> get_key X e a = Inr (Some r)) \<and>
     (key_list X (Some mk) d0 = Inr [] \<longrightarrow>
        get_key X e (access_key (owner_at_boot X cfg R)) = Inr (Some (owner_at_boot X cfg R)))"
  using assms by (rule boot_keys)

text \<open>The first boot on an empty directory, with a generated master key and a generated owner.\<close>

definition demo_entropy :: entropy where
  "demo_entropy =
     \<lparr>rn_master = Some (replicate 32 7), rn_migrate = (\<lambda>_. Some (replicate NONCE_LEN 2)),
      rn_nonce = Some (replicate NONCE_LEN 3), rn_secret = replicate 32 9, rn_now = ''t''\<rparr>"

definition demo_first :: fs where
  "demo_first = [(MASTER_KEY, File (as_bytes (hex_encode demo (replicate 32 7))))]"

lemma demo_first_boot:
  "resolve_master_key demo (\<lambda>_. None) (rn_master demo_entropy) [] = (Inr (replicate 32 7), demo_first)"
proof -
  have "fs_read_to_string [] MASTER_KEY = Inl NotFound"
    by (simp add: fs_read_to_string_def fs_read_def resolve_plain master_key_path fs_lookup_def)
  then show ?thesis
    by (simp add: resolve_master_key_def root_exists write_key_file_eq ok_or_def fs_lookup_def master_key_path
        demo_entropy_def demo_first_def)
qed

lemma demo_first_lookup: "q \<noteq> [] \<Longrightarrow> q \<noteq> MASTER_KEY \<Longrightarrow> fs_lookup demo_first q = None"
  by (simp add: demo_first_def fs_lookup_def)

lemma demo_first_ok:
  "keys_ok demo (Some (replicate 32 7)) demo_first" "\<not> is_temp demo_first q" "stamp_state demo demo_first = None"
proof -
  have "fs_ok demo_first" by (simp add: fs_ok_def demo_first_def master_key_path fs_lookup_def)
  moreover have "layout demo_first"
    by (simp add: layout_def demo_first_def master_key_path governed_def)
      (simp add: MASTER_KEY_def nested_dirs_def flat_dirs_def FORMAT_FILE_def)
  ultimately have "flat_ok demo demo_first" by (simp add: flat_ok_def disk_ok_def)
  moreover have "contents demo_first [key_dir, f] = None" for f
    by (simp add: contents_def demo_first_lookup MASTER_KEY_def)
  ultimately show "keys_ok demo (Some (replicate 32 7)) demo_first" by (simp add: keys_ok_def cipher_ok_def)
  show "\<not> is_temp demo_first q"
    by (cases "q = MASTER_KEY"; cases "q = []")
      (auto simp: is_temp_def is_file_at_def demo_first_lookup MASTER_KEY_def TMP_PREFIX_def utf8_lossy_ascii)
  show "stamp_state demo demo_first = None"
    by (simp add: stamp_state_def contents_def demo_first_lookup MASTER_KEY_def FORMAT_FILE_def)
qed

theorem boot_enforces_auth_witness:
  "\<exists>e s ks. boot demo config_default (\<lambda>_. None) demo_entropy [] = (Inr (e, s)) \<and> list_keys demo e = Inr ks \<and>
     ks \<noteq> [] \<and> get_key demo e ''barme'' = Inr (Some (owner_at_boot demo config_default demo_entropy))"
proof -
  have no_cred: "credentials_of config_default = None" by (simp add: config_default_def)
  have c: "credential_ok config_default" using no_cred by (simp add: credential_ok_def)
  have r: "\<forall>name. nonce_ok (rn_migrate demo_entropy name)" "nonce_ok (rn_nonce demo_entropy)"
    "length (rn_secret demo_entropy) = 32"
    by (simp_all add: demo_entropy_def nonce_ok_def)
  have none: "key_list demo (Some (replicate 32 7)) demo_first = Inr []"
    using key_list_ok [OF demo_first_ok(1)]
    by (auto simp: contents_def demo_first_lookup MASTER_KEY_def)
  have owner: "access_key (owner_at_boot demo config_default demo_entropy) = ''barme''"
    using no_cred by (simp add: owner_at_boot_def)
  from boot_enforces_auth [OF demo_first_boot demo_first_ok(1) _ _ r c] demo_first_ok(2,3) none owner
  show ?thesis by auto
qed

section \<open>The console page\<close>

lemma json_char_safe: "CHR ''<'' \<notin> set (json_char c)"
proof -
  have "CHR ''<'' \<noteq> lower_hex_digit n" if "n < 16" for n
  proof
    assume "CHR ''<'' = lower_hex_digit n"
    then have "lower_hex_digit n = CHR ''<''" by simp
    then have "(of_char (lower_hex_digit n) :: nat) = 60" by simp
    with that show False by (simp add: lower_hex_digit_def split: if_splits)
  qed
  moreover have "(of_char c :: nat) div 16 < 16" using of_char_less_256 [of c] by (simp add: less_mult_imp_div_less)
  ultimately show ?thesis by (auto simp: json_char_def)
qed

text \<open>
  A configured address cannot break out of the script element it is injected in: the injected
  text holds exactly two less-than signs, those of its own opening and closing tag.
\<close>

theorem console_script_contained:
  "count_list (console_script u) CHR ''<'' = 2"
proof -
  have "count_list (json_string s) CHR ''<'' = 0" for s
    using json_char_safe by (auto simp: json_string_def count_list_0_iff)
  then show ?thesis by (auto simp: console_script_def split: option.split)
qed

end
