(* ===== verification/System.thy ===== *)
theory System
  imports Doors Daemon Keyed_Open
begin

text \<open>
  The running server: the engine that \<open>main\<close> boots on a data directory and shares among the doors,
  the collection task that ticks in the background, and the worker that takes the write events off
  their queue. A run interleaves requests, ticks and deliveries in any order.
\<close>

section \<open>Steps of the server\<close>

record system =
  sys_engine :: engine
  sys_semantic :: "semantic option"
  sys_seen :: nat

datatype happening = Request door_request | Tick nat | Deliver

text \<open>
  What a step is remembered by: of a request, whether it was admitted, the command it asked for and the
  answer that was sent.
\<close>

datatype label = Asked door_request bool "command option" door_answer | Ticked nat | Delivered

definition doors_at :: "doors \<Rightarrow> system \<Rightarrow> doors" where
  "doors_at D s = D\<lparr>dr_app := (dr_app D)\<lparr>as_semantic := sys_semantic s\<rparr>\<rparr>"

fun system_step :: "ext \<Rightarrow> doors \<Rightarrow> config \<Rightarrow> happening \<Rightarrow> system \<Rightarrow> label \<times> system" where
  "system_step X D cfg (Request rq) s =
     (let D' = doors_at D s; e = sys_engine s in
      case door_serve X D' rq e of
        (ans, e') \<Rightarrow> (Asked rq (door_admits X D' e rq) (door_command X D' e rq) ans, s\<lparr>sys_engine := e'\<rparr>))"
| "system_step X D cfg (Tick now) s = (Ticked now, s\<lparr>sys_engine := snd (gc_tick X cfg now (sys_engine s))\<rparr>)"
| "system_step X D cfg Deliver s =
     (Delivered,
      if sys_seen s < length (events (sys_engine s)) then
        (case dispatch_event X (events (sys_engine s) ! sys_seen s) (sys_engine s) (sys_semantic s) of
           (calls, e, sem) \<Rightarrow> \<lparr>sys_engine = e, sys_semantic = sem, sys_seen = Suc (sys_seen s)\<rparr>)
      else s)"

fun step_admissible :: "ext \<Rightarrow> bytes set \<Rightarrow> bytes set \<Rightarrow> doors \<Rightarrow> happening \<Rightarrow> system \<Rightarrow> bool" where
  "step_admissible X B M D (Request rq) s = door_admissible X B M (doors_at D s) (sys_engine s) rq"
| "step_admissible X B M D (Tick now) s = admissible X B M (Age now) (sys_engine s)"
| "step_admissible X B M D Deliver s = (\<forall>ev \<in> set (events (sys_engine s)). valid_object (ev_bucket ev, ev_key ev))"

inductive system_run ::
  "ext \<Rightarrow> bytes set \<Rightarrow> bytes set \<Rightarrow> doors \<Rightarrow> config \<Rightarrow> system \<Rightarrow> label list \<Rightarrow> system \<Rightarrow> bool"
  for X B M D cfg where
  idle: "system_run X B M D cfg s [] s"
| happens: "system_run X B M D cfg s ls s1 \<Longrightarrow> step_admissible X B M D h s1 \<Longrightarrow>
    system_step X D cfg h s1 = (l, s2) \<Longrightarrow> system_run X B M D cfg s (ls @ [l]) s2"

section \<open>The abstract service\<close>

text \<open>The same labels over the abstract map alone.\<close>

inductive service_step :: "ext \<Rightarrow> doors \<Rightarrow> config \<Rightarrow> label \<Rightarrow> vault \<Rightarrow> vault \<Rightarrow> bool" for X D cfg where
  asks: "request_step X D rq adm co ans V V' \<Longrightarrow> service_step X D cfg (Asked rq adm co ans) V V'"
| ticks: "vault_step X (Age now) Done V V1 \<Longrightarrow> vault_step X (Collect now (gc_grace_secs cfg)) Done V1 V' \<Longrightarrow>
    service_step X D cfg (Ticked now) V V'"
| delivers: "service_step X D cfg Delivered V V"

inductive service_run :: "ext \<Rightarrow> doors \<Rightarrow> config \<Rightarrow> vault \<Rightarrow> label list \<Rightarrow> vault \<Rightarrow> bool" for X D cfg where
  serves_none: "service_run X D cfg V [] V"
| serves: "service_run X D cfg V ls V1 \<Longrightarrow> service_step X D cfg l V1 V2 \<Longrightarrow> service_run X D cfg V (ls @ [l]) V2"

inductive_cases service_run_NilE: "service_run X D cfg V [] V'"
inductive_cases service_run_snocE: "service_run X D cfg V (ls @ [l]) V'"
inductive_cases asked_stepE: "service_step X D cfg (Asked rq adm co ans) V V'"

section \<open>Simulation\<close>

lemma door_told_at [simp]: "door_told X (doors_at D s) rq r = door_told X D rq r"
  by (cases rq) (simp_all add: doors_at_def)

lemma request_step_at: "request_step X (doors_at D s) rq adm co ans V V' \<Longrightarrow> request_step X D rq adm co ans V V'"
  by (induction rule: request_step.induct) (auto intro: turned looked commanded)

lemma tick_step:
  assumes v: "vault_ok X B M e" and a: "admissible X B M (Age now) e" and run: "gc_tick X cfg now e = (r, e')"
  shows "vault_ok X B M e' \<and> service_step X D cfg (Ticked now) (vault_of X e) (vault_of X e')"
proof -
  let ?e1 = "snd (enforce_lifecycle X now e)" and ?g = "gc_grace_secs cfg"
  have "\<forall>b. fs_lookup (disk e) [pointer_dir, b] = Some Dir \<longrightarrow> valid_pot b" using a by simp
  from enforce_lifecycle_ok [OF vault_okD(3) [OF v] newest_whole [OF vault_okD(4) [OF v]] this, of now]
  have f1: "fst (exec X (Age now) e) = Done" by auto
  from exec_simulates [OF v a] f1 have 1: "vault_ok X B M ?e1" "vault_step X (Age now) Done (vault_of X e) (vault_of X ?e1)"
    by (simp_all add: simulates_def)
  from gc_sweep_ok [OF vault_okD(3) [OF 1(1)] refl, of now ?g] have f2: "fst (exec X (Collect now ?g) ?e1) = Done" by auto
  have e': "e' = snd (gc_sweep X now ?g ?e1)" using run by (auto simp: gc_tick_def case_prod_beta)
  from exec_simulates [OF 1(1), of "Collect now ?g"] f2 e'
  have 2: "vault_ok X B M e'" "vault_step X (Collect now ?g) Done (vault_of X ?e1) (vault_of X e')"
    by (simp_all add: simulates_def)
  from ticks [OF 1(2) 2(2)] 2(1) show ?thesis by blast
qed

lemma dispatch_unmoved_vault:
  assumes v: "vault_ok X B M e" and ev: "valid_object (ev_bucket ev, ev_key ev)"
    and run: "dispatch_event X ev e sem = (calls, e', sem')"
  shows "unmoved X B M e e'"
proof -
  have "e' = e \<or> (\<exists>a. e' = snd (set_annotation X (ev_bucket ev) (ev_key ev) a e))"
    using run by (auto simp: dispatch_event_def split: option.splits sum.splits prod.splits if_splits)
  then show ?thesis
  proof (elim disjE exE)
    fix a assume e': "e' = snd (set_annotation X (ev_bucket ev) (ev_key ev) a e)"
    from annotation_set_step [OF vault_okD(3) [OF v] ev] obtain d where
      d: "annotation_set X (ev_bucket ev, ev_key ev) a (disk e) = (Inr (), d)" "store_ok X B M d"
        "others [annotation_dir] (disk e) d" "extends X (disk e) d" by blast
    have "unmoved X B M e (e\<lparr>disk := d\<rparr>)"
      using d by (intro unmoved_side [OF v, where ts = "[annotation_dir]"]) simp_all
    with d(1) e' show ?thesis by (simp add: set_annotation_def on_disk_snd)
  qed (use v in \<open>simp add: unmoved_refl\<close>)
qed

lemma system_step_serves:
  assumes v: "vault_ok X B M (sys_engine s)" and a: "step_admissible X B M D h s"
    and run: "system_step X D cfg h s = (l, s')"
  shows "vault_ok X B M (sys_engine s') \<and> service_step X D cfg l (vault_of X (sys_engine s)) (vault_of X (sys_engine s'))"
proof (cases h)
  case (Request rq)
  let ?D = "doors_at D s" and ?e = "sys_engine s"
  obtain ans e' where d: "door_serve X ?D rq ?e = (ans, e')" by force
  have "door_admissible X B M ?D ?e rq" using a Request by simp
  from door_step [OF v this d] have st: "vault_ok X B M e'"
    "request_step X ?D rq (door_admits X ?D ?e rq) (door_command X ?D ?e rq) ans (vault_of X ?e) (vault_of X e')" by simp_all
  have "l = Asked rq (door_admits X ?D ?e rq) (door_command X ?D ?e rq) ans" "sys_engine s' = e'"
    using run d unfolding Request system_step.simps Let_def by auto
  with st(1) asks [OF request_step_at [OF st(2)]] show ?thesis by simp
next
  case (Tick now)
  then have t: "admissible X B M (Age now) (sys_engine s)" using a by simp
  obtain r e' where g: "gc_tick X cfg now (sys_engine s) = (r, e')" by force
  from tick_step [OF v t g] g run Tick show ?thesis by auto
next
  case Deliver
  have l: "l = Delivered" using run Deliver by simp
  show ?thesis
  proof (cases "sys_seen s < length (events (sys_engine s))")
    case True
    let ?ev = "events (sys_engine s) ! sys_seen s"
    obtain calls e' sem' where d: "dispatch_event X ?ev (sys_engine s) (sys_semantic s) = (calls, e', sem')"
      by (cases "dispatch_event X ?ev (sys_engine s) (sys_semantic s)")
    have "valid_object (ev_bucket ?ev, ev_key ?ev)" using a Deliver True by simp
    from dispatch_unmoved_vault [OF v this d] delivers [of X D cfg "vault_of X (sys_engine s)"] l run d Deliver True
    show ?thesis by (auto simp: unmoved_def)
  next
    case False
    with l run Deliver v delivers show ?thesis by auto
  qed
qed

lemma system_run_serves:
  "system_run X B M D cfg s ls s' \<Longrightarrow> vault_ok X B M (sys_engine s) \<Longrightarrow>
     vault_ok X B M (sys_engine s') \<and> service_run X D cfg (vault_of X (sys_engine s)) ls (vault_of X (sys_engine s'))"
proof (induction rule: system_run.induct)
  case (happens s ls s1 h l s2)
  then have IH: "vault_ok X B M (sys_engine s1)"
    "service_run X D cfg (vault_of X (sys_engine s)) ls (vault_of X (sys_engine s1))" by simp_all
  from system_step_serves [OF IH(1) happens.hyps(2,3)] serves [OF IH(2)] show ?case by blast
qed (simp add: serves_none)

end
