(* ===== verification/Spec2Isabelle.thy ===== *)
theory Spec2Isabelle
  imports Core_Props Engine_Props Version_Props Vault_Props Commit_Props Pot_Props Gc_Race_Props Listing_Props Recovery_Props
    Crash_Props Pot_Crash Reverse_Props Auth_Props Cdn_Props S3_Props Native_Props Door_Props Semantic_Props Daemon_Props
    System_Props
begin

text \<open>
  A verification development for barme, a content-addressed, S3-compatible object store written in
  Rust. The program is one engine over one data directory, with three HTTP doors in front of it and a
  daemon that starts them. Everything below follows the code crate by crate; names are the code's where
  Isabelle allows them, and doubtful clashes carry a prefix (\<open>s3_\<close>, \<open>n_\<close> for the native API).

  \<^bold>\<open>Conventions.\<close> A Rust \<open>String\<close> is the HOL string of its UTF-8 bytes, \<open>Vec<u8>\<close> a list of \<open>u8\<close>, a fixed
  width integer a word where the code's arithmetic can wrap and otherwise a number with its bound.
  \<open>Result\<close> is a sum with the error left (\<open>try_then\<close> is \<open>?\<close>, \<open>and_then\<close> the same with state); a panic of the
  signature parser is \<open>None\<close>. Crates outside the repository are fields of four records that the
  definitions take as arguments: \<open>ext\<close> (hashes, hex, serde encodings, zstd, chunk boundaries, AES-GCM,
  RFC 3339), \<open>web\<close> (header values, error texts, dates), \<open>net\<close> (base64, zip, HTTP fetch) and \<open>fpu\<close> (float
  operations). What is assumed of them is stated as laws (\<open>hash_ok\<close>, \<open>hex_ok\<close>, \<open>json_ok\<close>, \<open>zstd_ok\<close>, \<open>cdc_ok\<close>,
  \<open>gcm_ok\<close>; injectivity of BLAKE3 only on named finite sets), and \<open>Demo_Ext\<close>, \<open>Demo_Web\<close> give instances in
  which every law holds; the witnesses run there.

  \<^bold>\<open>Foundations.\<close> \<open>Prelude\<close>, \<open>Strings\<close>, \<open>Utf8\<close>: results, bytes, the part of Rust's string library used.
  \<open>Fs\<close>: the file system as \<open>std::fs\<close> shows it, with \<open>write_atomic\<close> both as one operation and as the list of
  states a crash can leave. \<open>Layout\<close>: the shapes of the data directory; on a disk of that shape the file
  system refines to a map from paths to bytes (\<open>contents\<close>).

  \<^bold>\<open>barme-core, barme-chunk, barme-codec.\<close> \<open>Core_Types\<close>, \<open>Hashes\<close>, \<open>Merkle\<close>, \<open>Codec\<close>: data types, content
  addresses, Merkle trees with inclusion proofs, compression and chunking. \<open>Core_Props\<close>: proofs of
  inclusion are complete and sound.

  \<^bold>\<open>barme-store.\<close> \<open>Content_Store\<close> (chunks with pins and condemned file, manifests, reverse index),
  \<open>Pointer_Store\<close> (version logs), \<open>Small_Stores\<close> (pot configuration, annotations, webhooks), \<open>Key_Store\<close> (keys and
  their encryption), \<open>Recovery\<close> (format stamp, sweep of temporary files, opening). The locales for
  content-addressed stores, keyed stores and logs state what their clients rely on; the stores are
  interpretations. \<open>Recovery_Props\<close>: opening keeps a good store, survives a crash at any point of a write,
  refuses newer formats, and seals every secret.

  \<^bold>\<open>barme-gc.\<close> \<open>Gc\<close>: mark, condemn, erase as one run, and \<open>store_ok\<close>, the invariant of the whole directory.
  \<open>Gc_Race\<close>: the same pass as a step relation that interleaves its instructions with a writer given by
  the locale \<open>gc_writer\<close>, of which \<open>put\<close> is an instance. \<open>Gc_Race_Props\<close>: run alone the relation is the pass;
  every interleaving keeps all versions committed before; one interleaving loses an object put during
  the pass.

  \<^bold>\<open>barme-engine.\<close> \<open>Engine_Base\<close>, \<open>Engine_Write\<close>, \<open>Engine_Multipart\<close>, \<open>Engine_Admin\<close>, \<open>Listing\<close>: the engine record (disk,
  pins, multipart table, events, counters) and every operation on it. \<open>Engine_Laws\<close>, \<open>Engine_Props\<close>,
  \<open>Version_Props\<close>, \<open>Listing_Props\<close>: a write reads back and leaves the rest alone, streaming equals buffering,
  reads are verified, multipart concatenates, equal content is stored once, locks, restore, lifecycle,
  import, collection of garbage and only of garbage, paging that covers every key once.

  \<^bold>\<open>The engine as a whole.\<close> \<open>Vault\<close>: the engine's commands in one datatype, executed by the operations
  above, and the abstract machine they refine, a map from pot and key to a list of ids with their bytes;
  one simulation lemma per command. \<open>Replication\<close>: the pull protocol between two stores.
  \<open>Vault_Props\<close>: every run refines the abstract machine, keeps every version readable and the directory
  well-typed; a replica reads the same; restoring a version whose chunks were collected is accepted all
  the same, which is why \<open>admissible\<close> asks a roll back to name a version of the key's own history.
  \<open>Commit_Locks\<close>: many threads committing to version logs, one step per lock operation and file operation,
  against the abstract machine that replays whole commits. \<open>Commit_Props\<close>: commits under the lock are
  linearizable and always finish; the lifecycle trim, which takes no lock, can undo a finished write.
  \<open>Pot_Locks\<close> adds the threads of \<open>delete_bucket_if_empty\<close>, which take all 256 locks one by one, and of
  \<open>copy_object\<close>, which take none; the locks of the removers are a frame for the committing threads.
  \<open>Pot_Props\<close>: removals and commits are linearizable together and cannot deadlock; a copy into the pot
  can be erased unseen. \<open>Crash\<close>: sequences of file changes, and what any instruction the process is killed at
  leaves of them; \<open>Crash_Lifecycle\<close>, \<open>Crash_Collect\<close>, \<open>Crash_Commands\<close>, \<open>Crash_Pots\<close>: the changes each command
  of the engine makes, in their order; \<open>Crash_Runs\<close>: runs in which commands finish or are killed;
  \<open>Crash_Props\<close>: after the next open a command happened entirely or not at all, a move possibly by half,
  the lifecycle and the removal of a pot for some keys, and runs with any number of crashes refine the
  abstract machine.
  \<open>Pot_Crash\<close>: renaming a pot is two renames, and a crash between them stays.
  \<open>Reverse_Index\<close>, \<open>Reverse_Props\<close>: the index from ids to their pots and keys has every version that a commit
  wrote, and is wrong after a move.

  \<^bold>\<open>barme-auth and the doors.\<close> \<open>Auth\<close>, \<open>Sigv4\<close>: share links, authorization, AWS signatures. \<open>Http\<close>: requests and
  responses. \<open>Cdn\<close>; \<open>S3_Codec\<close>, \<open>S3\<close>; \<open>Native\<close>, \<open>Native_Objects\<close>: the three doors, each with one function from
  a request (for the native API: a route with its extracted arguments) to an answer and the next
  engine. The \<open>_Props\<close> theories show what each lets through, that a door's write reads back through it,
  and that its text formats decode to what was encoded. \<open>Doors\<close>: each request to the two writing doors
  as at most one command of the abstract vault; \<open>Door_Props\<close>: mixed runs of requests refine it.

  \<^bold>\<open>barme-semantic, barme-config, barmed.\<close> \<open>Semantic\<close>, \<open>Config\<close>, \<open>Daemon\<close>: the vector index, the layers of the
  configuration, the master key, the boot sequence, the write-event worker, the collection tick, the
  console page. \<open>Semantic_Props\<close>, \<open>Daemon_Props\<close>: ranking within a tenant; a boot never ends with open doors;
  the master key is stable, except that a key file that is not text is replaced.
  \<open>System\<close>: the running server as one state, the booted engine with its semantic layer and event queue, and
  runs that interleave requests, collection ticks and event deliveries. \<open>System_Props\<close>: from the boot on,
  every run refines the abstract vault.

  \<^bold>\<open>Fuel and bounds.\<close> Loops are structural recursions or have a measure; the only fuel is the depth of the
  directory tree in \<open>sweep_walk\<close>, shown to be enough, and the 64 attempts of the port search, which are
  the code's. Sizes are bounded where the code's are (names by 255 bytes, secrets by the limit of
  AES-GCM, instants by 64 bits).

  \<^bold>\<open>Not modelled.\<close> Interleavings other than those of \<open>Commit_Locks\<close> and \<open>Pot_Locks\<close> (commits, removals of
  pots and copies among each other) and \<open>Gc_Race\<close> (whole writes between the instructions of a collector
  pass): elsewhere an operation runs alone; durability below the file system (\<open>fsync\<close> changes no
  modelled state); HTTP routing, body limits, CORS, tracing and the server loops of the frameworks; the
  native API's documentation page; log lines and the start-up banner; tests and benches.
\<close>

end
